(* ===== verification/LLHD_Prelude.thy ===== *)
theory LLHD_Prelude
  imports Complex_Main "HOL-Library.Word" "HOL-Library.Signed_Division"
    "HOL-Library.Monad_Syntax"
begin

text \<open>
  Shared vocabulary of the development. A Rust computation that may panic (an
  \<^verbatim>\<open>assert!\<close>, an \<^verbatim>\<open>unwrap\<close> of \<^verbatim>\<open>None\<close>, an index out of range, an
  arithmetic underflow, a division by zero) has the result type \<open>'a option\<close>:
  \<open>None\<close> is the panic, \<open>Some\<close> the value returned. The \<open>do\<close> blocks of
  HOL-Library.Monad\_Syntax sequence such computations. A Rust \<^verbatim>\<open>Option\<close> that is
  returned by a computation that may also panic is a nested option.

  \<^verbatim>\<open>usize\<close> quantities and the \<^verbatim>\<open>BigUint\<close> of the num crate are natural
  numbers, \<^verbatim>\<open>BigInt\<close> is \<open>int\<close>, \<^verbatim>\<open>BigRational\<close> is \<open>rat\<close>; the operations
  that can leave the range of the machine type (a subtraction below zero, a conversion
  of a big number to \<^verbatim>\<open>usize\<close>, an index stored in a \<^verbatim>\<open>u32\<close>) check it explicitly.
\<close>

named_theorems panic_simps \<open>when a computation that may panic returns a value\<close>
named_theorems iv_defs \<open>definitions of the integer operations\<close>

section \<open>Computations that may panic\<close>

definition ensure :: "bool \<Rightarrow> unit option" where
  "ensure b = (if b then Some () else None)"

lemma ensure_Some [simp, panic_simps]: "ensure b = Some u \<longleftrightarrow> b"
  by (simp add: ensure_def)

lemma ensure_None [simp]: "ensure b = None \<longleftrightarrow> \<not> b"
  by (simp add: ensure_def)

lemma ensure_simps [simp]: "ensure True = Some ()" "ensure False = None"
  by (simp_all add: ensure_def)

lemma bind_Some_iff [panic_simps]:
  "Option.bind m f = Some y \<longleftrightarrow> (\<exists>x. m = Some x \<and> f x = Some y)"
  by (cases m) simp_all

lemma bind_ensure_Some [panic_simps]:
  "Option.bind (ensure b) f = Some y \<longleftrightarrow> b \<and> f () = Some y"
  by (cases b) simp_all

text \<open>Mapping a computation that may panic over a list panics at the first panic.\<close>

fun mapM :: "('a \<Rightarrow> 'b option) \<Rightarrow> 'a list \<Rightarrow> 'b list option" where
  "mapM f [] = Some []"
| "mapM f (x # xs) =
     (case f x of None \<Rightarrow> None
      | Some y \<Rightarrow> (case mapM f xs of None \<Rightarrow> None | Some ys \<Rightarrow> Some (y # ys)))"

lemma mapM_cong [fundef_cong]:
  assumes "xs = ys" and "\<And>x. x \<in> set ys \<Longrightarrow> f x = g x"
  shows "mapM f xs = mapM g ys"
  unfolding assms(1) using assms(2) by (induction ys) (auto split: option.splits)

lemma mapM_Some_iff:
  "mapM f xs = Some ys \<longleftrightarrow> list_all2 (\<lambda>x y. f x = Some y) xs ys"
proof (induction xs arbitrary: ys)
  case Nil
  then show ?case by auto
next
  case (Cons x xs)
  show ?case by (cases ys) (auto split: option.splits simp flip: Cons.IH)
qed

lemma mapM_length: "mapM f xs = Some ys \<Longrightarrow> length ys = length xs"
  by (auto simp: mapM_Some_iff dest: list_all2_lengthD)

text \<open>
  Folding a step that may panic: the loops of the source that thread a mutable state
  through the elements of a collection.
\<close>

fun foldM :: "('a \<Rightarrow> 's \<Rightarrow> 's option) \<Rightarrow> 'a list \<Rightarrow> 's \<Rightarrow> 's option" where
  "foldM f [] s = Some s"
| "foldM f (x # xs) s = (case f x s of None \<Rightarrow> None | Some s' \<Rightarrow> foldM f xs s')"

lemma foldM_append:
  "foldM f (xs @ ys) s = Option.bind (foldM f xs s) (foldM f ys)"
  by (induction xs arbitrary: s) (auto split: option.splits)

lemma foldM_invariant:
  assumes "foldM f xs s = Some t" and "P s"
    and "\<And>x s s'. x \<in> set xs \<Longrightarrow> P s \<Longrightarrow> f x s = Some s' \<Longrightarrow> P s'"
  shows "P t"
  using assms
proof (induction xs arbitrary: s)
  case Nil
  then show ?case by simp
next
  case (Cons x xs)
  from Cons.prems(1) obtain s' where "f x s = Some s'" and "foldM f xs s' = Some t"
    by (auto split: option.splits)
  with Cons show ?case by (metis list.set_intros)
qed

section \<open>Indexing and slicing vectors\<close>

text \<open>\<^verbatim>\<open>v[i]\<close> and \<^verbatim>\<open>v[off..off + len]\<close> panic when they leave the vector.\<close>

definition idx :: "'a list \<Rightarrow> nat \<Rightarrow> 'a option" where
  "idx xs i = (if i < length xs then Some (xs ! i) else None)"

definition idx_set :: "'a list \<Rightarrow> nat \<Rightarrow> 'a \<Rightarrow> 'a list option" where
  "idx_set xs i x = (if i < length xs then Some (xs[i := x]) else None)"

definition slice :: "'a list \<Rightarrow> nat \<Rightarrow> nat \<Rightarrow> 'a list option" where
  "slice xs off len = (if off + len \<le> length xs then Some (take len (drop off xs)) else None)"

definition slice_set :: "'a list \<Rightarrow> nat \<Rightarrow> nat \<Rightarrow> 'a list \<Rightarrow> 'a list option" where
  "slice_set xs off len ys =
     (if off + len \<le> length xs \<and> length ys = len
      then Some (take off xs @ ys @ drop (off + len) xs) else None)"

lemma idx_Some_iff [panic_simps]: "idx xs i = Some x \<longleftrightarrow> i < length xs \<and> xs ! i = x"
  by (auto simp: idx_def)

lemma idx_set_Some_iff [panic_simps]:
  "idx_set xs i x = Some ys \<longleftrightarrow> i < length xs \<and> ys = xs[i := x]"
  by (auto simp: idx_set_def)

lemma slice_Some_iff [panic_simps]:
  "slice xs off len = Some ys \<longleftrightarrow> off + len \<le> length xs \<and> ys = take len (drop off xs)"
  by (auto simp: slice_def)

lemma slice_set_Some_iff [panic_simps]:
  "slice_set xs off len ys = Some zs \<longleftrightarrow>
     off + len \<le> length xs \<and> length ys = len \<and> zs = take off xs @ ys @ drop (off + len) xs"
  by (auto simp: slice_set_def)

lemma slice_of_slice_set:
  "slice_set xs off len ys = Some zs \<Longrightarrow> slice zs off len = Some ys"
  by (auto simp: slice_set_def slice_def split: if_splits)

lemma slice_set_same:
  "slice xs off len = Some ys \<Longrightarrow> slice_set xs off len ys = Some xs"
  by (auto simp: slice_set_def slice_def take_add[symmetric] add.commute
      append_take_drop_id simp flip: take_add drop_drop split: if_splits)

section \<open>Bits of natural numbers\<close>

lemma bit_mod_pow2_nat: "bit (n mod 2 ^ w :: nat) i \<longleftrightarrow> i < w \<and> bit n i"
  by (simp add: bit_take_bit_iff flip: take_bit_eq_mod)

lemma bit_ones_nat [simp]:
  "bit (2 ^ w - Suc 0 :: nat) i \<longleftrightarrow> i < w" "bit (2 ^ w - 1 :: nat) i \<longleftrightarrow> i < w"
  using bit_mask_iff[of w i, where ?'a = nat] by (simp_all add: mask_eq_exp_minus_1)

lemma less_pow2_bit: "(n::nat) < 2 ^ w \<Longrightarrow> w \<le> i \<Longrightarrow> \<not> bit n i"
  by (metis bit_take_bit_iff leD take_bit_nat_eq_self)

lemma bits_less_pow2: "(\<And>i. w \<le> i \<Longrightarrow> \<not> bit (n::nat) i) \<Longrightarrow> n < 2 ^ w"
  by (metis bit_eqI bit_take_bit_iff not_less take_bit_nat_less_exp)

end
