(* ===== verification/Opcodes.thy ===== *)
theory Opcodes
  imports LLHD_Prelude
begin

text \<open>
  The instruction opcodes of LLHD (\<^verbatim>\<open>src/src/ir/inst.rs\<close>): the enum, the
  mnemonics printed for it, the unit kinds an opcode may appear in, and the
  classification used by the verifier and the passes. The Rust variant
  \<^verbatim>\<open>Opcode::Add\<close> is the constructor \<open>OpAdd\<close>, and so on, to keep the names of
  HOL free.
\<close>

datatype (plugins only: code) opcode =
    OpConstInt | OpConstTime | OpAlias | OpArrayUniform | OpArray | OpStruct
  | OpNot | OpNeg | OpAdd | OpSub | OpAnd | OpOr
  | OpXor | OpSmul | OpSdiv | OpSmod | OpSrem | OpUmul
  | OpUdiv | OpUmod | OpUrem | OpEq | OpNeq | OpSlt
  | OpSgt | OpSle | OpSge | OpUlt | OpUgt | OpUle
  | OpUge | OpShl | OpShr | OpMux | OpReg | OpInsField
  | OpInsSlice | OpExtField | OpExtSlice | OpCon | OpDel | OpCall
  | OpInst | OpSig | OpPrb | OpDrv | OpDrvCond | OpVar
  | OpLd | OpSt | OpHalt | OpRet | OpRetValue | OpPhi
  | OpBr | OpBrCond | OpWait | OpWaitTime

definition opcode_name :: "opcode \<Rightarrow> string" where
  "opcode_name op =
     (case op of
        OpConstInt \<Rightarrow> ''const''
      | OpConstTime \<Rightarrow> ''const''
      | OpAlias \<Rightarrow> ''alias''
      | OpArrayUniform \<Rightarrow> ''array''
      | OpArray \<Rightarrow> ''array''
      | OpStruct \<Rightarrow> ''struct''
      | OpNot \<Rightarrow> ''not''
      | OpNeg \<Rightarrow> ''neg''
      | OpAdd \<Rightarrow> ''add''
      | OpSub \<Rightarrow> ''sub''
      | OpAnd \<Rightarrow> ''and''
      | OpOr \<Rightarrow> ''or''
      | OpXor \<Rightarrow> ''xor''
      | OpSmul \<Rightarrow> ''smul''
      | OpSdiv \<Rightarrow> ''sdiv''
      | OpSmod \<Rightarrow> ''smod''
      | OpSrem \<Rightarrow> ''srem''
      | OpUmul \<Rightarrow> ''umul''
      | OpUdiv \<Rightarrow> ''udiv''
      | OpUmod \<Rightarrow> ''umod''
      | OpUrem \<Rightarrow> ''urem''
      | OpEq \<Rightarrow> ''eq''
      | OpNeq \<Rightarrow> ''neq''
      | OpSlt \<Rightarrow> ''slt''
      | OpSgt \<Rightarrow> ''sgt''
      | OpSle \<Rightarrow> ''sle''
      | OpSge \<Rightarrow> ''sge''
      | OpUlt \<Rightarrow> ''ult''
      | OpUgt \<Rightarrow> ''ugt''
      | OpUle \<Rightarrow> ''ule''
      | OpUge \<Rightarrow> ''uge''
      | OpShl \<Rightarrow> ''shl''
      | OpShr \<Rightarrow> ''shr''
      | OpMux \<Rightarrow> ''mux''
      | OpReg \<Rightarrow> ''reg''
      | OpInsField \<Rightarrow> ''insf''
      | OpInsSlice \<Rightarrow> ''inss''
      | OpExtField \<Rightarrow> ''extf''
      | OpExtSlice \<Rightarrow> ''exts''
      | OpCon \<Rightarrow> ''con''
      | OpDel \<Rightarrow> ''del''
      | OpCall \<Rightarrow> ''call''
      | OpInst \<Rightarrow> ''inst''
      | OpSig \<Rightarrow> ''sig''
      | OpPrb \<Rightarrow> ''prb''
      | OpDrv \<Rightarrow> ''drv''
      | OpDrvCond \<Rightarrow> ''drv''
      | OpVar \<Rightarrow> ''var''
      | OpLd \<Rightarrow> ''ld''
      | OpSt \<Rightarrow> ''st''
      | OpHalt \<Rightarrow> ''halt''
      | OpRet \<Rightarrow> ''ret''
      | OpRetValue \<Rightarrow> ''ret''
      | OpPhi \<Rightarrow> ''phi''
      | OpBr \<Rightarrow> ''br''
      | OpBrCond \<Rightarrow> ''br''
      | OpWait \<Rightarrow> ''wait''
      | OpWaitTime \<Rightarrow> ''wait'')"

text \<open>The \<^verbatim>\<open>bitflags\<close> set of unit kinds is a set of the three flags.\<close>

datatype unit_flag = FUNCTION | PROCESS | ENTITY

type_synonym unit_flags = "unit_flag set"

definition ALL_UNITS :: unit_flags where
  "ALL_UNITS = {FUNCTION, PROCESS, ENTITY}"

definition valid_in :: "opcode \<Rightarrow> unit_flags" where
  "valid_in op =
     (case op of
        OpHalt \<Rightarrow> {PROCESS, ENTITY}
      | OpWait \<Rightarrow> {PROCESS}
      | OpWaitTime \<Rightarrow> {PROCESS}
      | OpRet \<Rightarrow> {FUNCTION}
      | OpRetValue \<Rightarrow> {FUNCTION}
      | OpPhi \<Rightarrow> {FUNCTION, PROCESS}
      | OpBr \<Rightarrow> {FUNCTION, PROCESS}
      | OpBrCond \<Rightarrow> {FUNCTION, PROCESS}
      | OpCon \<Rightarrow> {ENTITY}
      | OpDel \<Rightarrow> {ENTITY}
      | OpReg \<Rightarrow> {ENTITY}
      | OpInst \<Rightarrow> {ENTITY}
      | _ \<Rightarrow> ALL_UNITS)"

definition valid_in_function :: "opcode \<Rightarrow> bool" where
  "valid_in_function op \<longleftrightarrow> FUNCTION \<in> valid_in op"

definition valid_in_process :: "opcode \<Rightarrow> bool" where
  "valid_in_process op \<longleftrightarrow> PROCESS \<in> valid_in op"

definition valid_in_entity :: "opcode \<Rightarrow> bool" where
  "valid_in_entity op \<longleftrightarrow> ENTITY \<in> valid_in op"

definition op_is_const :: "opcode \<Rightarrow> bool" where
  "op_is_const op \<longleftrightarrow> op \<in> {OpConstInt, OpConstTime}"

definition op_is_phi :: "opcode \<Rightarrow> bool" where
  "op_is_phi op \<longleftrightarrow> op = OpPhi"

definition op_is_terminator :: "opcode \<Rightarrow> bool" where
  "op_is_terminator op \<longleftrightarrow>
     op \<in> {OpHalt, OpRet, OpRetValue, OpBr, OpBrCond, OpWait, OpWaitTime}"

definition op_is_return :: "opcode \<Rightarrow> bool" where
  "op_is_return op \<longleftrightarrow> op \<in> {OpRet, OpRetValue}"

definition op_is_temporal :: "opcode \<Rightarrow> bool" where
  "op_is_temporal op \<longleftrightarrow> op \<in> {OpHalt, OpWait, OpWaitTime}"

lemmas opcode_class_defs =
  op_is_const_def op_is_phi_def op_is_terminator_def op_is_return_def op_is_temporal_def
  valid_in_def valid_in_function_def valid_in_process_def valid_in_entity_def ALL_UNITS_def

text \<open>
  Consistency of the classification: every terminator is either a return, a temporal
  instruction or a branch; only terminators are temporal or returns; the opcodes that end
  a function and those that suspend a process exclude each other.
\<close>

lemma terminator_cases:
  "op_is_terminator op \<longleftrightarrow> op_is_return op \<or> op_is_temporal op \<or> op \<in> {OpBr, OpBrCond}"
  by (auto simp: opcode_class_defs)

lemma return_not_temporal: "op_is_return op \<Longrightarrow> \<not> op_is_temporal op"
  by (auto simp: opcode_class_defs)

text \<open>
  In an entity the only terminator is \<^verbatim>\<open>halt\<close>, which the unit constructor inserts; a
  function can only end in a return or a branch.
\<close>

lemma entity_terminator: "op_is_terminator op \<Longrightarrow> valid_in_entity op \<longleftrightarrow> op = OpHalt"
  by (auto simp: opcode_class_defs)

lemma function_terminator:
  "op_is_terminator op \<Longrightarrow> valid_in_function op \<longleftrightarrow> op_is_return op \<or> op \<in> {OpBr, OpBrCond}"
  by (auto simp: opcode_class_defs)

lemma process_terminator:
  "op_is_terminator op \<Longrightarrow> valid_in_process op \<longleftrightarrow> op_is_temporal op \<or> op \<in> {OpBr, OpBrCond}"
  by (auto simp: opcode_class_defs)

end
