(* ===== verification/Types.thy ===== *)
theory Types
  imports LLHD_Prelude
begin

text \<open>
  The types of LLHD values (\<^verbatim>\<open>src/src/ty.rs\<close>). An \<^verbatim>\<open>Arc<TypeKind>\<close> is a value of the
  datatype: sharing is not observable, since types are immutable. The \<^verbatim>\<open>unwrap_*\<close>
  functions panic on the wrong kind of type.
\<close>

datatype ty =
    VoidType
  | TimeType
  | IntType nat
  | EnumType nat
  | PointerType ty
  | SignalType ty
  | ArrayType nat ty
  | StructType "ty list"
  | FuncType "ty list" ty
  | EntityType "ty list" "ty list"

fun ty_unwrap_int :: "ty \<Rightarrow> nat option" where
  "ty_unwrap_int (IntType n) = Some n"
| "ty_unwrap_int _ = None"

fun ty_unwrap_enum :: "ty \<Rightarrow> nat option" where
  "ty_unwrap_enum (EnumType n) = Some n"
| "ty_unwrap_enum _ = None"

fun ty_unwrap_pointer :: "ty \<Rightarrow> ty option" where
  "ty_unwrap_pointer (PointerType t) = Some t"
| "ty_unwrap_pointer _ = None"

fun ty_unwrap_signal :: "ty \<Rightarrow> ty option" where
  "ty_unwrap_signal (SignalType t) = Some t"
| "ty_unwrap_signal _ = None"

fun ty_unwrap_array :: "ty \<Rightarrow> (nat \<times> ty) option" where
  "ty_unwrap_array (ArrayType n t) = Some (n, t)"
| "ty_unwrap_array _ = None"

fun ty_unwrap_struct :: "ty \<Rightarrow> ty list option" where
  "ty_unwrap_struct (StructType ts) = Some ts"
| "ty_unwrap_struct _ = None"

fun ty_unwrap_func :: "ty \<Rightarrow> (ty list \<times> ty) option" where
  "ty_unwrap_func (FuncType as r) = Some (as, r)"
| "ty_unwrap_func _ = None"

fun ty_unwrap_entity :: "ty \<Rightarrow> (ty list \<times> ty list) option" where
  "ty_unwrap_entity (EntityType is os) = Some (is, os)"
| "ty_unwrap_entity _ = None"

fun ty_is_void :: "ty \<Rightarrow> bool" where
  "ty_is_void VoidType = True"
| "ty_is_void _ = False"

fun ty_is_time :: "ty \<Rightarrow> bool" where
  "ty_is_time TimeType = True"
| "ty_is_time _ = False"

fun ty_is_int :: "ty \<Rightarrow> bool" where
  "ty_is_int (IntType _) = True"
| "ty_is_int _ = False"

fun ty_is_enum :: "ty \<Rightarrow> bool" where
  "ty_is_enum (EnumType _) = True"
| "ty_is_enum _ = False"

fun ty_is_pointer :: "ty \<Rightarrow> bool" where
  "ty_is_pointer (PointerType _) = True"
| "ty_is_pointer _ = False"

fun ty_is_signal :: "ty \<Rightarrow> bool" where
  "ty_is_signal (SignalType _) = True"
| "ty_is_signal _ = False"

fun ty_is_array :: "ty \<Rightarrow> bool" where
  "ty_is_array (ArrayType _ _) = True"
| "ty_is_array _ = False"

fun ty_is_struct :: "ty \<Rightarrow> bool" where
  "ty_is_struct (StructType _) = True"
| "ty_is_struct _ = False"

fun ty_is_func :: "ty \<Rightarrow> bool" where
  "ty_is_func (FuncType _ _) = True"
| "ty_is_func _ = False"

fun ty_is_entity :: "ty \<Rightarrow> bool" where
  "ty_is_entity (EntityType _ _) = True"
| "ty_is_entity _ = False"

text \<open>
  \<^verbatim>\<open>TypeKind::len\<close>: bits of an integer, states of an enum, elements of an array, fields
  of a struct, zero otherwise.
\<close>

fun ty_len :: "ty \<Rightarrow> nat" where
  "ty_len (IntType l) = l"
| "ty_len (EnumType l) = l"
| "ty_len (ArrayType l _) = l"
| "ty_len (StructType f) = length f"
| "ty_len _ = 0"

definition ty_is_empty :: "ty \<Rightarrow> bool" where
  "ty_is_empty t \<longleftrightarrow> ty_len t = 0"

text \<open>
  \<^verbatim>\<open>with_unpacked_sigptr\<close> (\<^verbatim>\<open>ir/inst.rs\<close>) applies a function, which may panic, below one
  layer of pointer or signal.
\<close>

definition with_unpacked_sigptr :: "ty \<Rightarrow> (ty \<Rightarrow> ty option) \<Rightarrow> ty option" where
  "with_unpacked_sigptr t f =
     (case t of
        PointerType t' \<Rightarrow> map_option PointerType (f t')
      | SignalType t' \<Rightarrow> map_option SignalType (f t')
      | _ \<Rightarrow> f t)"

text \<open>The predicates decide exactly when the corresponding \<^verbatim>\<open>unwrap\<close> does not panic.\<close>

lemma ty_unwrap_defined [simp]:
  "ty_unwrap_int t = None \<longleftrightarrow> \<not> ty_is_int t"
  "ty_unwrap_enum t = None \<longleftrightarrow> \<not> ty_is_enum t"
  "ty_unwrap_pointer t = None \<longleftrightarrow> \<not> ty_is_pointer t"
  "ty_unwrap_signal t = None \<longleftrightarrow> \<not> ty_is_signal t"
  "ty_unwrap_array t = None \<longleftrightarrow> \<not> ty_is_array t"
  "ty_unwrap_struct t = None \<longleftrightarrow> \<not> ty_is_struct t"
  "ty_unwrap_func t = None \<longleftrightarrow> \<not> ty_is_func t"
  "ty_unwrap_entity t = None \<longleftrightarrow> \<not> ty_is_entity t"
  by (cases t; simp)+

lemma ty_unwrap_Some [panic_simps]:
  "ty_unwrap_int t = Some n \<longleftrightarrow> t = IntType n"
  "ty_unwrap_pointer t = Some t' \<longleftrightarrow> t = PointerType t'"
  "ty_unwrap_signal t = Some t' \<longleftrightarrow> t = SignalType t'"
  "ty_unwrap_array t = Some a \<longleftrightarrow> t = ArrayType (fst a) (snd a)"
  "ty_unwrap_struct t = Some ts \<longleftrightarrow> t = StructType ts"
  by (cases t; cases a; auto)+

lemma ty_is_iff:
  "ty_is_int t \<longleftrightarrow> (\<exists>n. t = IntType n)"
  "ty_is_pointer t \<longleftrightarrow> (\<exists>t'. t = PointerType t')"
  "ty_is_signal t \<longleftrightarrow> (\<exists>t'. t = SignalType t')"
  "ty_is_array t \<longleftrightarrow> (\<exists>n t'. t = ArrayType n t')"
  "ty_is_struct t \<longleftrightarrow> (\<exists>ts. t = StructType ts)"
  "ty_is_void t \<longleftrightarrow> t = VoidType"
  "ty_is_time t \<longleftrightarrow> t = TimeType"
  by (cases t; simp)+

end
