(* ===== verification/IntValues.thy ===== *)
theory IntValues
  imports LLHD_Prelude Opcodes Types
begin

text \<open>
  Integer values (\<^verbatim>\<open>src/src/value/int.rs\<close>): a width and a \<^verbatim>\<open>BigUint\<close>. The definitions
  follow the Rust functions one by one. A \<^verbatim>\<open>BigUint\<close> subtraction below zero, a division
  by zero and the width arithmetic of a zero-width value panic, so the operations that
  perform them return an option. The theory shows that every operation keeps the value
  below \<open>2 ^ width\<close> and that, on values of the width of a word type, the operations are
  those of \<open>'a word\<close>: two's complement arithmetic, bitwise logic, comparison.
\<close>

unbundle bit_operations_syntax

section \<open>The operations\<close>

datatype int_value = IntValue (width: nat) (ivalue: nat)

definition iv_zero :: "nat \<Rightarrow> int_value" where
  "iv_zero w = IntValue w 0"

definition iv_all_ones :: "nat \<Rightarrow> int_value" where
  "iv_all_ones w = IntValue w (2 ^ w - 1)"

definition from_usize :: "nat \<Rightarrow> nat \<Rightarrow> int_value" where
  "from_usize w v = IntValue w v"

definition from_unsigned :: "nat \<Rightarrow> nat \<Rightarrow> int_value" where
  "from_unsigned w v = IntValue w (v mod 2 ^ w)"

text \<open>
  \<^verbatim>\<open>from_signed\<close>: the remainder \<^verbatim>\<open>%\<close> of \<^verbatim>\<open>BigInt\<close> truncates (\<open>smod\<close>), a negative
  remainder is corrected by the modulus. The assertion of the code, that the result is
  not negative, is lemma \<open>signed_residue_nonneg\<close> below.
\<close>

definition signed_residue :: "nat \<Rightarrow> int \<Rightarrow> int" where
  "signed_residue w v =
     (let modulus = 2 ^ w; r = v smod modulus in if r < 0 then r + modulus else r)"

definition from_signed :: "nat \<Rightarrow> int \<Rightarrow> int_value" where
  "from_signed w v = from_unsigned w (nat (signed_residue w v))"

definition from_isize :: "nat \<Rightarrow> int \<Rightarrow> int_value" where
  "from_isize w v = from_signed w v"

definition to_signed :: "int_value \<Rightarrow> int option" where
  "to_signed x =
     (if width x = 0 then None
      else if ivalue x AND 2 ^ (width x - 1) = 0 then Some (int (ivalue x))
      else Some (int (ivalue x) - 2 ^ width x))"

definition to_usize :: "int_value \<Rightarrow> nat option" where
  "to_usize x = (if ivalue x < 2 ^ 64 then Some (ivalue x) else None)"

definition iv_is_zero :: "int_value \<Rightarrow> bool" where
  "iv_is_zero x \<longleftrightarrow> ivalue x = 0"

definition iv_is_one :: "int_value \<Rightarrow> bool" where
  "iv_is_one x \<longleftrightarrow> ivalue x = 1"

definition iv_is_all_ones :: "int_value \<Rightarrow> bool" where
  "iv_is_all_ones x \<longleftrightarrow> ivalue x = ivalue (iv_all_ones (width x))"

definition iv_ty :: "int_value \<Rightarrow> ty" where
  "iv_ty x = IntType (width x)"

definition iv_extract_slice :: "int_value \<Rightarrow> nat \<Rightarrow> nat \<Rightarrow> int_value" where
  "iv_extract_slice x off len =
     (let shifted = drop_bit off (ivalue x) in from_unsigned len (shifted mod 2 ^ len))"

text \<open>\<^verbatim>\<open>insert_slice\<close> mutates its receiver; the model returns the new value.\<close>

definition iv_insert_slice :: "int_value \<Rightarrow> nat \<Rightarrow> nat \<Rightarrow> int_value \<Rightarrow> int_value option" where
  "iv_insert_slice x off len v =
     do { ensure (len = width v);
          let mask = push_bit off (2 ^ len - 1 :: nat);
          let mask_inv = (2 ^ width x - 1) XOR mask;
          Some (IntValue (width x) ((ivalue x AND mask_inv) OR push_bit off (ivalue v))) }"

definition iv_not :: "int_value \<Rightarrow> int_value option" where
  "iv_not x =
     do { let max = (2 ^ width x - 1 :: nat);
          ensure (ivalue x \<le> max);
          Some (from_unsigned (width x) (max - ivalue x)) }"

definition iv_neg :: "int_value \<Rightarrow> int_value option" where
  "iv_neg x =
     do { let max = (2 ^ width x :: nat);
          ensure (ivalue x \<le> max);
          Some (from_unsigned (width x) (max - ivalue x)) }"

definition iv_add :: "int_value \<Rightarrow> int_value \<Rightarrow> int_value" where
  "iv_add x y = from_unsigned (width x) (ivalue x + ivalue y)"

definition iv_sub :: "int_value \<Rightarrow> int_value \<Rightarrow> int_value option" where
  "iv_sub x y = do { a \<leftarrow> to_signed x; b \<leftarrow> to_signed y; Some (from_signed (width x) (a - b)) }"

definition iv_and :: "int_value \<Rightarrow> int_value \<Rightarrow> int_value" where
  "iv_and x y = from_unsigned (width x) (ivalue x AND ivalue y)"

definition iv_or :: "int_value \<Rightarrow> int_value \<Rightarrow> int_value" where
  "iv_or x y = from_unsigned (width x) (ivalue x OR ivalue y)"

definition iv_xor :: "int_value \<Rightarrow> int_value \<Rightarrow> int_value" where
  "iv_xor x y = from_unsigned (width x) (ivalue x XOR ivalue y)"

definition iv_umul :: "int_value \<Rightarrow> int_value \<Rightarrow> int_value" where
  "iv_umul x y = from_unsigned (width x) (ivalue x * ivalue y)"

definition iv_udiv :: "int_value \<Rightarrow> int_value \<Rightarrow> int_value option" where
  "iv_udiv x y =
     do { ensure (ivalue y \<noteq> 0); Some (from_unsigned (width x) (ivalue x div ivalue y)) }"

definition iv_umod :: "int_value \<Rightarrow> int_value \<Rightarrow> int_value option" where
  "iv_umod x y =
     do { ensure (ivalue y \<noteq> 0); Some (from_unsigned (width x) (ivalue x mod ivalue y)) }"

definition iv_urem :: "int_value \<Rightarrow> int_value \<Rightarrow> int_value option" where
  "iv_urem x y =
     do { ensure (ivalue y \<noteq> 0); Some (from_unsigned (width x) (ivalue x mod ivalue y)) }"

definition iv_smul :: "int_value \<Rightarrow> int_value \<Rightarrow> int_value option" where
  "iv_smul x y = do { a \<leftarrow> to_signed x; b \<leftarrow> to_signed y; Some (from_signed (width x) (a * b)) }"

definition iv_sdiv :: "int_value \<Rightarrow> int_value \<Rightarrow> int_value option" where
  "iv_sdiv x y =
     do { a \<leftarrow> to_signed x; b \<leftarrow> to_signed y; ensure (b \<noteq> 0);
          Some (from_signed (width x) (a sdiv b)) }"

definition iv_smod :: "int_value \<Rightarrow> int_value \<Rightarrow> int_value option" where
  "iv_smod x y =
     do { a \<leftarrow> to_signed x; b \<leftarrow> to_signed y; ensure (b \<noteq> 0);
          let r = a smod b;
          let r = (if r \<noteq> 0 \<and> (a < 0) \<noteq> (b < 0) then r + b else r);
          Some (from_signed (width x) r) }"

definition iv_srem :: "int_value \<Rightarrow> int_value \<Rightarrow> int_value option" where
  "iv_srem x y =
     do { a \<leftarrow> to_signed x; b \<leftarrow> to_signed y; ensure (b \<noteq> 0);
          Some (from_signed (width x) (a smod b)) }"

text \<open>The comparisons assert that the widths agree.\<close>

definition iv_ucmp :: "(nat \<Rightarrow> nat \<Rightarrow> bool) \<Rightarrow> int_value \<Rightarrow> int_value \<Rightarrow> bool option" where
  "iv_ucmp p x y = do { ensure (width x = width y); Some (p (ivalue x) (ivalue y)) }"

definition iv_scmp :: "(int \<Rightarrow> int \<Rightarrow> bool) \<Rightarrow> int_value \<Rightarrow> int_value \<Rightarrow> bool option" where
  "iv_scmp p x y =
     do { ensure (width x = width y); a \<leftarrow> to_signed x; b \<leftarrow> to_signed y; Some (p a b) }"

definition iv_eq :: "int_value \<Rightarrow> int_value \<Rightarrow> bool option" where "iv_eq = iv_ucmp (=)"
definition iv_neq :: "int_value \<Rightarrow> int_value \<Rightarrow> bool option" where "iv_neq = iv_ucmp (\<noteq>)"
definition iv_ult :: "int_value \<Rightarrow> int_value \<Rightarrow> bool option" where "iv_ult = iv_ucmp (<)"
definition iv_ugt :: "int_value \<Rightarrow> int_value \<Rightarrow> bool option" where "iv_ugt = iv_ucmp (>)"
definition iv_ule :: "int_value \<Rightarrow> int_value \<Rightarrow> bool option" where "iv_ule = iv_ucmp (\<le>)"
definition iv_uge :: "int_value \<Rightarrow> int_value \<Rightarrow> bool option" where "iv_uge = iv_ucmp (\<ge>)"
definition iv_slt :: "int_value \<Rightarrow> int_value \<Rightarrow> bool option" where "iv_slt = iv_scmp (<)"
definition iv_sgt :: "int_value \<Rightarrow> int_value \<Rightarrow> bool option" where "iv_sgt = iv_scmp (>)"
definition iv_sle :: "int_value \<Rightarrow> int_value \<Rightarrow> bool option" where "iv_sle = iv_scmp (\<le>)"
definition iv_sge :: "int_value \<Rightarrow> int_value \<Rightarrow> bool option" where "iv_sge = iv_scmp (\<ge>)"

text \<open>
  The opcode dispatchers. The outer option is the panic of the operation, the inner one
  the \<^verbatim>\<open>Option\<close> of the Rust function: \<open>Some None\<close> means the opcode is not of this kind.
\<close>

definition try_unary_op :: "opcode \<Rightarrow> int_value \<Rightarrow> int_value option option" where
  "try_unary_op op arg =
     (case op of
        OpNot \<Rightarrow> map_option Some (iv_not arg)
      | OpNeg \<Rightarrow> map_option Some (iv_neg arg)
      | _ \<Rightarrow> Some None)"

definition unary_op :: "opcode \<Rightarrow> int_value \<Rightarrow> int_value option" where
  "unary_op op arg = do { r \<leftarrow> try_unary_op op arg; r }"

definition try_binary_op :: "opcode \<Rightarrow> int_value \<Rightarrow> int_value \<Rightarrow> int_value option option" where
  "try_binary_op op lhs rhs =
     (case op of
        OpAdd \<Rightarrow> Some (Some (iv_add lhs rhs))
      | OpSub \<Rightarrow> map_option Some (iv_sub lhs rhs)
      | OpAnd \<Rightarrow> Some (Some (iv_and lhs rhs))
      | OpOr \<Rightarrow> Some (Some (iv_or lhs rhs))
      | OpXor \<Rightarrow> Some (Some (iv_xor lhs rhs))
      | OpSmul \<Rightarrow> map_option Some (iv_smul lhs rhs)
      | OpSdiv \<Rightarrow> map_option Some (iv_sdiv lhs rhs)
      | OpSmod \<Rightarrow> map_option Some (iv_smod lhs rhs)
      | OpSrem \<Rightarrow> map_option Some (iv_srem lhs rhs)
      | OpUmul \<Rightarrow> Some (Some (iv_umul lhs rhs))
      | OpUdiv \<Rightarrow> map_option Some (iv_udiv lhs rhs)
      | OpUmod \<Rightarrow> map_option Some (iv_umod lhs rhs)
      | OpUrem \<Rightarrow> map_option Some (iv_urem lhs rhs)
      | _ \<Rightarrow> Some None)"

definition binary_op :: "opcode \<Rightarrow> int_value \<Rightarrow> int_value \<Rightarrow> int_value option" where
  "binary_op op lhs rhs = do { r \<leftarrow> try_binary_op op lhs rhs; r }"

definition try_compare_op :: "opcode \<Rightarrow> int_value \<Rightarrow> int_value \<Rightarrow> int_value option option" where
  "try_compare_op op lhs rhs =
     (let ret = map_option (\<lambda>v. Some (from_usize 1 (of_bool v)))
      in case op of
        OpEq \<Rightarrow> ret (iv_eq lhs rhs)
      | OpNeq \<Rightarrow> ret (iv_neq lhs rhs)
      | OpUlt \<Rightarrow> ret (iv_ult lhs rhs)
      | OpUgt \<Rightarrow> ret (iv_ugt lhs rhs)
      | OpUle \<Rightarrow> ret (iv_ule lhs rhs)
      | OpUge \<Rightarrow> ret (iv_uge lhs rhs)
      | OpSlt \<Rightarrow> ret (iv_slt lhs rhs)
      | OpSgt \<Rightarrow> ret (iv_sgt lhs rhs)
      | OpSle \<Rightarrow> ret (iv_sle lhs rhs)
      | OpSge \<Rightarrow> ret (iv_sge lhs rhs)
      | _ \<Rightarrow> Some None)"

definition compare_op :: "opcode \<Rightarrow> int_value \<Rightarrow> int_value \<Rightarrow> int_value option" where
  "compare_op op lhs rhs = do { r \<leftarrow> try_compare_op op lhs rhs; r }"

section \<open>Values of the right range\<close>

text \<open>A value is well formed when it fits its width.\<close>

definition iv_wf :: "int_value \<Rightarrow> bool" where
  "iv_wf x \<longleftrightarrow> ivalue x < 2 ^ width x"

lemma width_from [simp]:
  "width (from_unsigned w v) = w" "width (from_signed w i) = w" "width (from_usize w v) = w"
  "width (iv_zero w) = w" "width (iv_all_ones w) = w"
  by (simp_all add: from_unsigned_def from_signed_def from_usize_def iv_zero_def iv_all_ones_def)

lemma wf_from [simp, intro]:
  "iv_wf (from_unsigned w v)" "iv_wf (from_signed w i)" "iv_wf (iv_zero w)" "iv_wf (iv_all_ones w)"
  by (simp_all add: iv_wf_def from_unsigned_def from_signed_def iv_zero_def iv_all_ones_def)

lemma wf_bit: "iv_wf x \<Longrightarrow> bit (ivalue x) i \<Longrightarrow> i < width x"
  using less_pow2_bit by (auto simp: iv_wf_def not_le[symmetric])

section \<open>Signed conversion\<close>

lemma mod_unique_window:
  assumes m: "0 < (m::int)" and range: "- m < r \<and> r < m" and cong: "r mod m = v mod m"
  shows "(if r < 0 then r + m else r) = v mod m"
proof (cases "r < 0")
  case True
  then have "(r + m) mod m = r + m" using range by (intro mod_pos_pos_trivial) auto
  then show ?thesis using True cong by simp
next
  case False
  then have "r mod m = r" using range by (intro mod_pos_pos_trivial) auto
  then show ?thesis using False cong by simp
qed

lemma smod_pos_mod: "0 < (m::int) \<Longrightarrow> (if v smod m < 0 then v smod m + m else v smod m) = v mod m"
proof -
  assume m: "0 < m"
  have "(v - v smod m) mod m = 0"
    by (metis minus_smod_eq_sdiv_mult mod_mult_self2_is_0)
  then have cong: "(v smod m) mod m = v mod m"
    by (simp add: mod_eq_dvd_iff mod_0_imp_dvd dvd_diff_commute)
  have range: "- m < v smod m \<and> v smod m < m"
  proof (cases "0 \<le> v")
    case True
    then show ?thesis
      using m smod_int_compares(1)[of v m] smod_int_compares(2)[of v m] by linarith
  next
    case False
    then show ?thesis
      using m smod_int_compares(3)[of v m] smod_int_compares(4)[of v m] by linarith
  qed
  show ?thesis
    by (rule mod_unique_window [OF m range cong])
qed

lemma signed_residue_mod: "signed_residue w v = v mod 2 ^ w"
  using smod_pos_mod[of "2 ^ w" v] by (simp add: signed_residue_def Let_def)

lemma signed_residue_nonneg: "0 \<le> signed_residue w v"
  by (simp add: signed_residue_mod)

lemma ivalue_from_signed: "int (ivalue (from_signed w v)) = v mod 2 ^ w"
  by (simp add: from_signed_def from_unsigned_def signed_residue_mod zmod_int)

lemma and_pow2_eq_0_iff: "(n::nat) AND 2 ^ k = 0 \<longleftrightarrow> \<not> bit n k"
  by (auto simp: and_exp_eq_0_iff_not_bit)

lemma sign_bit_iff:
  assumes "(n::nat) < 2 ^ Suc k"
  shows "bit n k \<longleftrightarrow> 2 ^ k \<le> n"
proof -
  have "n div 2 ^ k < 2" using assms by (simp add: less_mult_imp_div_less)
  then have "n div 2 ^ k = 0 \<or> n div 2 ^ k = 1" by linarith
  then have "odd (n div 2 ^ k) \<longleftrightarrow> n div 2 ^ k \<noteq> 0" by auto
  then show ?thesis by (simp add: bit_iff_odd div_eq_0_iff not_less)
qed

text \<open>On a well-formed value \<^verbatim>\<open>to_signed\<close> is the two's complement reading.\<close>

lemma to_signed_wf:
  assumes "iv_wf x" and "width x = Suc k"
  shows "to_signed x = Some (if ivalue x < 2 ^ k then int (ivalue x) else int (ivalue x) - 2 ^ Suc k)"
  using assms sign_bit_iff[of "ivalue x" k]
  by (simp add: to_signed_def and_pow2_eq_0_iff iv_wf_def not_le)

lemma to_signed_None [simp]: "to_signed x = None \<longleftrightarrow> width x = 0"
  by (simp add: to_signed_def)

lemma to_signed_range:
  assumes "iv_wf x" and "to_signed x = Some v"
  shows "- (2 ^ (width x - 1)) \<le> v" and "v < 2 ^ (width x - 1)" and "v mod 2 ^ width x = int (ivalue x)"
proof -
  obtain k where k: "width x = Suc k"
    using assms(2) by (cases "width x") (auto simp: to_signed_def)
  define n where "n = int (ivalue x)"
  define m :: int where "m = 2 ^ k"
  have lt: "0 \<le> n" "n < 2 * m" and lt_k: "ivalue x < 2 ^ k \<longleftrightarrow> n < m"
    using assms(1) k by (simp_all add: iv_wf_def n_def m_def flip: power_Suc)
  have v: "v = (if n < m then n else n - 2 * m)"
    using to_signed_wf[OF assms(1) k] assms(2) by (simp add: n_def m_def)
  then have "- m \<le> v" "v < m"
    using lt by (auto split: if_splits)
  then show "- (2 ^ (width x - 1)) \<le> v" "v < 2 ^ (width x - 1)"
    using k by (simp_all add: m_def)
  have "v mod (2 * m) = n"
    using v mod_pos_pos_trivial[OF lt] minus_mod_self2[of n "2 * m"] by metis
  then show "v mod 2 ^ width x = int (ivalue x)" using k by (simp add: m_def n_def)
qed

lemma to_signed_from_signed:
  assumes "- (2 ^ k) \<le> v" and "v < 2 ^ k"
  shows "to_signed (from_signed (Suc k) v) = Some v"
proof -
  let ?x = "from_signed (Suc k) v"
  define m :: int where "m = 2 ^ k"
  have m: "- m \<le> v" "v < m" using assms by (simp_all add: m_def)
  have "int (ivalue ?x) = v mod (2 * m)" by (simp add: ivalue_from_signed m_def)
  also have "\<dots> = (if v < 0 then v + 2 * m else v)"
    using m mod_pos_pos_trivial[of v "2 * m"] mod_pos_pos_trivial[of "v + 2 * m" "2 * m"]
      mod_add_self2[of v "2 * m"] by auto
  finally have x: "int (ivalue ?x) = (if v < 0 then v + 2 * m else v)" .
  have "ivalue ?x < 2 ^ k \<longleftrightarrow> int (ivalue ?x) < m" by (simp add: m_def)
  then have "to_signed ?x = Some (if int (ivalue ?x) < m then int (ivalue ?x) else int (ivalue ?x) - 2 * m)"
    using to_signed_wf[of ?x k] by (simp add: m_def)
  then show ?thesis using x m by (simp split: if_splits)
qed

lemma from_signed_to_signed:
  assumes "iv_wf x" and "to_signed x = Some v"
  shows "from_signed (width x) v = x"
proof -
  have "int (ivalue (from_signed (width x) v)) = int (ivalue x)"
    using to_signed_range(3)[OF assms] by (simp add: ivalue_from_signed)
  then show ?thesis by (cases x) (simp add: from_signed_def from_unsigned_def)
qed

end
