(* ===== verification/IntWords.thy ===== *)
theory IntWords
  imports IntValues
begin

text \<open>
  The integer operations against their reference: the machine words of
  HOL-Library.Word. \<open>iv_of_word\<close> is the value whose width is the length of the word
  type; every opcode then computes the corresponding word operation. The second part is
  about bit slices: reading and writing them, one in terms of the other.
\<close>

section \<open>Refinement of machine words\<close>

definition iv_of_word :: "'a::len word \<Rightarrow> int_value" where
  "iv_of_word x = IntValue LENGTH('a) (unat x)"

text \<open>
  The specification: which word an opcode computes. \<open>None\<close> is a division by zero,
  \<open>Some None\<close> an opcode of another kind. \<^verbatim>\<open>smod\<close> takes the sign of the divisor, which is
  the \<open>mod\<close> of the integers of HOL; \<^verbatim>\<open>sdiv\<close> and \<^verbatim>\<open>srem\<close> truncate.
\<close>

definition word_unop :: "opcode \<Rightarrow> 'a::len word \<Rightarrow> 'a word option" where
  "word_unop op x = (case op of OpNot \<Rightarrow> Some (NOT x) | OpNeg \<Rightarrow> Some (- x) | _ \<Rightarrow> None)"

definition word_div_guard :: "'a::len word \<Rightarrow> 'a word \<Rightarrow> 'a word option option" where
  "word_div_guard y r = (if y = 0 then None else Some (Some r))"

definition word_binop :: "opcode \<Rightarrow> 'a::len word \<Rightarrow> 'a word \<Rightarrow> 'a word option option" where
  "word_binop op x y =
     (case op of
        OpAdd \<Rightarrow> Some (Some (x + y))
      | OpSub \<Rightarrow> Some (Some (x - y))
      | OpAnd \<Rightarrow> Some (Some (x AND y))
      | OpOr \<Rightarrow> Some (Some (x OR y))
      | OpXor \<Rightarrow> Some (Some (x XOR y))
      | OpSmul \<Rightarrow> Some (Some (x * y))
      | OpUmul \<Rightarrow> Some (Some (x * y))
      | OpUdiv \<Rightarrow> word_div_guard y (x div y)
      | OpUmod \<Rightarrow> word_div_guard y (x mod y)
      | OpUrem \<Rightarrow> word_div_guard y (x mod y)
      | OpSdiv \<Rightarrow> word_div_guard y (word_of_int (sint x sdiv sint y))
      | OpSrem \<Rightarrow> word_div_guard y (word_of_int (sint x smod sint y))
      | OpSmod \<Rightarrow> word_div_guard y (word_of_int (sint x mod sint y))
      | _ \<Rightarrow> Some None)"

definition word_cmpop :: "opcode \<Rightarrow> 'a::len word \<Rightarrow> 'a word \<Rightarrow> bool option" where
  "word_cmpop op x y =
     (case op of
        OpEq \<Rightarrow> Some (x = y)
      | OpNeq \<Rightarrow> Some (x \<noteq> y)
      | OpUlt \<Rightarrow> Some (x < y)
      | OpUgt \<Rightarrow> Some (y < x)
      | OpUle \<Rightarrow> Some (x \<le> y)
      | OpUge \<Rightarrow> Some (y \<le> x)
      | OpSlt \<Rightarrow> Some (sint x < sint y)
      | OpSgt \<Rightarrow> Some (sint y < sint x)
      | OpSle \<Rightarrow> Some (sint x \<le> sint y)
      | OpSge \<Rightarrow> Some (sint y \<le> sint x)
      | _ \<Rightarrow> None)"

lemma iv_of_word_sel [simp]:
  "width (iv_of_word (x::'a::len word)) = LENGTH('a)" "ivalue (iv_of_word x) = unat x"
  by (simp_all add: iv_of_word_def)

lemma unat_less_pow: "unat (x::'a::len word) < 2 ^ LENGTH('a)"
  by (rule unsigned_less)

lemma wf_iv_of_word [simp, intro]: "iv_wf (iv_of_word x)"
  by (simp add: iv_wf_def unat_less_pow)

lemma iv_of_word_inject [simp]: "iv_of_word x = iv_of_word y \<longleftrightarrow> x = y"
  by (simp add: iv_of_word_def word_unat_eq_iff)

lemma from_unsigned_word:
  "from_unsigned LENGTH('a::len) n = iv_of_word (of_nat n :: 'a word)"
  by (simp add: from_unsigned_def iv_of_word_def unat_of_nat)

lemma from_signed_word:
  "from_signed LENGTH('a::len) i = iv_of_word (word_of_int i :: 'a word)"
proof -
  have "int (ivalue (from_signed LENGTH('a) i)) = int (unat (word_of_int i :: 'a word))"
    by (simp add: ivalue_from_signed uint_word_of_int flip: uint_nat)
  then have "ivalue (from_signed LENGTH('a) i) = unat (word_of_int i :: 'a word)"
    by (simp only: of_nat_eq_iff)
  then show ?thesis by (intro int_value.expand) simp
qed

lemma to_signed_word [simp]: "to_signed (iv_of_word (x::'a::len word)) = Some (sint x)"
proof -
  have "Suc (LENGTH('a) - 1) = LENGTH('a)" by simp
  then have "to_signed (from_signed LENGTH('a) (sint x)) = Some (sint x)"
    using to_signed_from_signed[of "LENGTH('a) - 1" "sint x"] sint_ge[of x] sint_lt[of x] by simp
  then show ?thesis by (simp add: from_signed_word)
qed

lemma sint_eq_0 [simp]: "sint (x::'a::len word) = 0 \<longleftrightarrow> x = 0"
  by (rule signed_eq_0_iff)

text \<open>The correction of \<^verbatim>\<open>smod\<close> turns the truncated remainder into the floored one.\<close>

lemma smod_correction:
  assumes "(b::int) \<noteq> 0"
  shows "(let r = a smod b in if r \<noteq> 0 \<and> (a < 0) \<noteq> (b < 0) then r + b else r) = a mod b"
proof -
  let ?r = "a smod b"
  have "a mod b = ((a sdiv b) * b + ?r) mod b" by (simp only: sdiv_mult_smod_eq)
  then have cong: "?r mod b = a mod b" by simp
  consider "0 \<le> a" "0 < b" | "a < 0" "0 < b" | "0 \<le> a" "b < 0" | "a < 0" "b < 0"
    using assms by linarith
  then show ?thesis
  proof cases
    case 1
    then show ?thesis by (simp add: smod_mod_positive Let_def)
  next
    case 2
    then have "- b < ?r" "?r \<le> 0" using smod_int_compares[of a b] by simp_all
    then show ?thesis
      using 2 cong mod_pos_pos_trivial[of "?r + b" b] by (auto simp: Let_def)
  next
    case 3
    then have "?r < - b" "0 \<le> ?r" using smod_int_compares[of a b] by simp_all
    then show ?thesis
      using 3 cong mod_neg_neg_trivial[of "?r + b" b] by (auto simp: Let_def)
  next
    case 4
    then have "?r \<le> 0" "b < ?r"
      using smod_int_compares(7)[of a b] smod_int_range[of b a] assms
      by (simp_all add: smod_int_alt_def)
    then show ?thesis
      using 4 cong mod_neg_neg_trivial[of ?r b] by (auto simp: Let_def)
  qed
qed

lemma of_nat_compl:
  "of_nat (2 ^ LENGTH('a) - Suc (unat x)) = NOT (x::'a::len word)"
  "of_nat (2 ^ LENGTH('a) - unat x) = - (x::'a::len word)"
proof -
  have "Suc (unat x) \<le> 2 ^ LENGTH('a)" using unat_less_pow[of x] by (rule Suc_leI)
  then show "of_nat (2 ^ LENGTH('a) - Suc (unat x)) = NOT x"
    by (simp only: of_nat_diff) (simp add: not_eq_complement)
  have "unat x \<le> 2 ^ LENGTH('a)" using unat_less_pow[of x] by (rule less_imp_le)
  then show "of_nat (2 ^ LENGTH('a) - unat x) = - x"
    by (simp only: of_nat_diff) simp
qed

lemma unary_word:
  "iv_not (iv_of_word x) = Some (iv_of_word (NOT x))"
  "iv_neg (iv_of_word x) = Some (iv_of_word (- x))"
proof -
  have "unat x \<le> 2 ^ LENGTH('a) - 1" "unat x \<le> 2 ^ LENGTH('a)"
    using unat_less_pow[of x] by linarith+
  then show "iv_not (iv_of_word x) = Some (iv_of_word (NOT x))"
    "iv_neg (iv_of_word x) = Some (iv_of_word (- x))"
    by (simp_all add: iv_not_def iv_neg_def from_unsigned_word of_nat_compl)
qed

lemma bitwise_word:
  "iv_and (iv_of_word x) (iv_of_word y) = iv_of_word (x AND y)"
  "iv_or (iv_of_word x) (iv_of_word y) = iv_of_word (x OR y)"
  "iv_xor (iv_of_word x) (iv_of_word y) = iv_of_word (x XOR y)"
  by (simp_all add: iv_and_def iv_or_def iv_xor_def from_unsigned_word
      flip: unsigned_and_eq unsigned_or_eq unsigned_xor_eq)

lemma arith_word:
  "iv_add (iv_of_word x) (iv_of_word y) = iv_of_word (x + y)"
  "iv_sub (iv_of_word x) (iv_of_word y) = Some (iv_of_word (x - y))"
  "iv_umul (iv_of_word x) (iv_of_word y) = iv_of_word (x * y)"
  "iv_smul (iv_of_word x) (iv_of_word y) = Some (iv_of_word (x * y))"
  by (simp_all add: iv_add_def iv_sub_def iv_umul_def iv_smul_def from_unsigned_word
      from_signed_word)

lemma unat_eq_0_iff [simp]: "unat x = 0 \<longleftrightarrow> x = 0"
  by (simp add: unat_eq_zero)

lemma unsigned_div_word:
  "map_option Some (iv_udiv (iv_of_word x) (iv_of_word y)) =
     map_option (map_option iv_of_word) (word_div_guard y (x div y))"
  "map_option Some (iv_umod (iv_of_word x) (iv_of_word y)) =
     map_option (map_option iv_of_word) (word_div_guard y (x mod y))"
  "map_option Some (iv_urem (iv_of_word x) (iv_of_word y)) =
     map_option (map_option iv_of_word) (word_div_guard y (x mod y))"
  by (simp_all add: iv_udiv_def iv_umod_def iv_urem_def word_div_guard_def from_unsigned_word
      flip: unat_div unat_mod)

lemma signed_div_word:
  "map_option Some (iv_sdiv (iv_of_word (x::'a::len word)) (iv_of_word (y::'a word))) =
     map_option (map_option iv_of_word) (word_div_guard y (word_of_int (sint x sdiv sint y)))"
  "map_option Some (iv_srem (iv_of_word (x::'a::len word)) (iv_of_word (y::'a word))) =
     map_option (map_option iv_of_word) (word_div_guard y (word_of_int (sint x smod sint y)))"
  "map_option Some (iv_smod (iv_of_word (x::'a::len word)) (iv_of_word (y::'a word))) =
     map_option (map_option iv_of_word) (word_div_guard y (word_of_int (sint x mod sint y)))"
  using smod_correction[of "sint y" "sint x"]
  by (simp_all add: iv_sdiv_def iv_srem_def iv_smod_def word_div_guard_def from_signed_word Let_def)

text \<open>The dispatchers, opcode by opcode, against the word specification.\<close>

lemma try_unary_op_word:
  "try_unary_op op (iv_of_word x) = Some (map_option iv_of_word (word_unop op x))"
  by (cases op) (simp_all add: try_unary_op_def word_unop_def unary_word)

lemma try_binary_op_word:
  "try_binary_op op (iv_of_word x) (iv_of_word y) =
     map_option (map_option iv_of_word) (word_binop op x y)"
  by (cases op) (simp_all add: try_binary_op_def word_binop_def bitwise_word arith_word
      unsigned_div_word signed_div_word)

lemma ucmp_word:
  "iv_ucmp p (iv_of_word (x::'a::len word)) (iv_of_word (y::'a word)) = Some (p (unat x) (unat y))"
  by (simp add: iv_ucmp_def)

lemma scmp_word:
  "iv_scmp p (iv_of_word (x::'a::len word)) (iv_of_word (y::'a word)) = Some (p (sint x) (sint y))"
  by (simp add: iv_scmp_def)

lemma try_compare_op_word:
  "try_compare_op op (iv_of_word x) (iv_of_word y) =
     Some (map_option (\<lambda>b. iv_of_word (of_bool b :: 1 word)) (word_cmpop op x y))"
proof -
  have b: "from_usize (Suc 0) (Suc 0) = iv_of_word (1 :: 1 word)"
    "from_usize (Suc 0) 0 = iv_of_word (0 :: 1 word)"
    by (simp_all add: from_usize_def iv_of_word_def)
  show ?thesis
    by (cases op) (simp_all add: try_compare_op_def word_cmpop_def b ucmp_word scmp_word
        iv_eq_def iv_neq_def iv_ult_def iv_ugt_def iv_ule_def iv_uge_def
        iv_slt_def iv_sgt_def iv_sle_def iv_sge_def
        word_less_nat_alt word_le_nat_alt word_unat_eq_iff)
qed

section \<open>Bit slices\<close>

lemma bit_extract_slice:
  "bit (ivalue (iv_extract_slice x off len)) i \<longleftrightarrow> i < len \<and> bit (ivalue x) (off + i)"
  by (auto simp: iv_extract_slice_def from_unsigned_def bit_mod_pow2_nat bit_drop_bit_eq)

lemma width_extract_slice [simp]: "width (iv_extract_slice x off len) = len"
  by (simp add: iv_extract_slice_def)

lemma wf_extract_slice [simp, intro]: "iv_wf (iv_extract_slice x off len)"
  by (simp add: iv_extract_slice_def Let_def)

lemma insert_slice_Some:
  "iv_insert_slice x off len v = Some y \<Longrightarrow> width y = width x \<and> width v = len"
  by (auto simp: iv_insert_slice_def panic_simps Let_def)

lemma insert_slice_None: "iv_insert_slice x off len v = None \<longleftrightarrow> len \<noteq> width v"
  by (cases "len = width v") (auto simp: iv_insert_slice_def Let_def)

lemma bit_insert_slice:
  assumes ins: "iv_insert_slice x off len v = Some y"
    and wf: "iv_wf x" "iv_wf v" and fits: "off + len \<le> width x"
  shows "bit (ivalue y) i \<longleftrightarrow>
           (if off \<le> i \<and> i < off + len then bit (ivalue v) (i - off) else bit (ivalue x) i)"
proof -
  have y: "ivalue y = (ivalue x AND ((2 ^ width x - 1) XOR push_bit off (2 ^ len - 1)))
             OR push_bit off (ivalue v)" and len: "len = width v"
    using ins by (auto simp: iv_insert_slice_def panic_simps Let_def)
  have x: "bit (ivalue x) i \<Longrightarrow> i < width x" and v: "bit (ivalue v) j \<Longrightarrow> j < len" for j
    using wf wf_bit len by auto
  show ?thesis
    unfolding y
    using x v[of "i - off"] fits
    by (auto simp: bit_and_iff bit_or_iff bit_xor_iff bit_push_bit_iff)
qed

lemma wf_insert_slice:
  assumes "iv_insert_slice x off len v = Some y" "iv_wf x" "iv_wf v" "off + len \<le> width x"
  shows "iv_wf y"
proof -
  have "ivalue y < 2 ^ width x"
  proof (rule bits_less_pow2)
    fix i assume "width x \<le> i"
    then show "\<not> bit (ivalue y) i"
      using bit_insert_slice[OF assms, of i] assms(2,4) wf_bit[of x i] by (auto split: if_splits)
  qed
  then show ?thesis using insert_slice_Some[OF assms(1)] by (simp add: iv_wf_def)
qed

lemma int_value_bit_eqI:
  "width x = width y \<Longrightarrow> (\<And>i. bit (ivalue x) i \<longleftrightarrow> bit (ivalue y) i) \<Longrightarrow> x = y"
  by (intro int_value.expand conjI bit_eqI) auto

lemma extract_insert_same:
  assumes "iv_insert_slice x off len v = Some y" "iv_wf x" "iv_wf v" "off + len \<le> width x"
  shows "iv_extract_slice y off len = v"
proof (rule int_value_bit_eqI)
  show "width (iv_extract_slice y off len) = width v"
    using insert_slice_Some[OF assms(1)] by simp
  fix i
  show "bit (ivalue (iv_extract_slice y off len)) i \<longleftrightarrow> bit (ivalue v) i"
    using bit_insert_slice[OF assms, of "off + i"] insert_slice_Some[OF assms(1)]
      wf_bit[OF assms(3), of i] by (auto simp: bit_extract_slice)
qed

lemma extract_insert_disjoint:
  assumes "iv_insert_slice x off len v = Some y" "iv_wf x" "iv_wf v" "off + len \<le> width x"
    and "off' + len' \<le> off \<or> off + len \<le> off'"
  shows "iv_extract_slice y off' len' = iv_extract_slice x off' len'"
proof (rule int_value_bit_eqI)
  fix i
  show "bit (ivalue (iv_extract_slice y off' len')) i \<longleftrightarrow> bit (ivalue (iv_extract_slice x off' len')) i"
    using bit_insert_slice[OF assms(1-4), of "off' + i"] assms(5) by (auto simp: bit_extract_slice)
qed simp

lemma insert_extract_id:
  assumes "iv_wf x" "off + len \<le> width x"
  shows "iv_insert_slice x off len (iv_extract_slice x off len) = Some x"
proof -
  obtain y where y: "iv_insert_slice x off len (iv_extract_slice x off len) = Some y"
    using insert_slice_None[of x off len "iv_extract_slice x off len"] by fastforce
  have "y = x"
  proof (rule int_value_bit_eqI)
    show "width y = width x" using insert_slice_Some[OF y] by simp
    show "bit (ivalue y) i \<longleftrightarrow> bit (ivalue x) i" for i
      using bit_insert_slice[OF y assms(1) _ assms(2), of i] by (auto simp: bit_extract_slice)
  qed
  then show ?thesis using y by simp
qed

lemma extract_extract:
  assumes "off' + len' \<le> len"
  shows "iv_extract_slice (iv_extract_slice x off len) off' len' = iv_extract_slice x (off + off') len'"
  using assms by (intro int_value_bit_eqI) (auto simp: bit_extract_slice add.assoc)

lemma extract_whole: "iv_wf x \<Longrightarrow> iv_extract_slice x 0 (width x) = x"
  by (rule int_value_bit_eqI) (auto simp: bit_extract_slice dest: wf_bit)

section \<open>Range and division laws\<close>

lemma try_binary_op_wf:
  assumes "try_binary_op op x y = Some (Some z)"
  shows "iv_wf z \<and> width z = width x"
  using assms
  by (cases op)
    (auto simp: try_binary_op_def iv_add_def iv_sub_def iv_and_def iv_or_def iv_xor_def
      iv_umul_def iv_udiv_def iv_umod_def iv_urem_def iv_smul_def iv_sdiv_def iv_smod_def
      iv_srem_def panic_simps Let_def)

lemma try_unary_op_wf:
  assumes "try_unary_op op x = Some (Some z)"
  shows "iv_wf z \<and> width z = width x"
  using assms by (cases op) (auto simp: try_unary_op_def iv_not_def iv_neg_def panic_simps Let_def)

lemma try_compare_op_wf:
  assumes "try_compare_op op x y = Some (Some z)"
  shows "iv_wf z \<and> width z = 1"
  using assms
  by (cases op) (auto simp: try_compare_op_def iv_wf_def from_usize_def Let_def)

text \<open>The opcodes of the two binary families, and when they divide by zero.\<close>

definition is_div_op :: "opcode \<Rightarrow> bool" where
  "is_div_op op \<longleftrightarrow> op \<in> {OpSdiv, OpSmod, OpSrem, OpUdiv, OpUmod, OpUrem}"

definition is_binary_op :: "opcode \<Rightarrow> bool" where
  "is_binary_op op \<longleftrightarrow>
     op \<in> {OpAdd, OpSub, OpAnd, OpOr, OpXor, OpSmul, OpUmul} \<or> is_div_op op"

lemma word_binop_panic: "word_binop op x y = None \<longleftrightarrow> is_div_op op \<and> y = 0"
  by (cases op) (simp_all add: word_binop_def word_div_guard_def is_div_op_def)

lemma word_binop_kind: "word_binop op x y = Some None \<longleftrightarrow> \<not> is_binary_op op"
  by (cases op) (simp_all add: word_binop_def word_div_guard_def is_div_op_def is_binary_op_def)

section \<open>Properties\<close>

text \<open>
  C15: On integer values of any positive width, every binary opcode computes exactly the
  corresponding machine-word operation: wrap-around addition, subtraction and
  multiplication, bitwise logic, unsigned division and remainder, truncating signed
  division and remainder, and the signed modulus with the sign of the divisor. The
  executor panics exactly where the specification divides by zero, and answers
  \<^verbatim>\<open>None\<close> exactly on the opcodes that are not binary.
\<close>

theorem binary_opcode_refines_word:
  "try_binary_op op (iv_of_word x) (iv_of_word y) =
     map_option (map_option iv_of_word) (word_binop op x y)
   \<and> (try_binary_op op (iv_of_word x) (iv_of_word y) = None \<longleftrightarrow> is_div_op op \<and> y = 0)
   \<and> (try_binary_op op (iv_of_word x) (iv_of_word y) = Some None \<longleftrightarrow> \<not> is_binary_op op)"
  by (auto simp: try_binary_op_word word_binop_panic word_binop_kind)

text \<open>
  Every comparison opcode compares the two words, unsigned or as two's complement,
  and yields the one-bit value of the answer; it never panics on operands of equal width.
\<close>

theorem compare_opcode_refines_word:
  "try_compare_op op (iv_of_word x) (iv_of_word y) =
     Some (map_option (\<lambda>b. iv_of_word (of_bool b :: 1 word)) (word_cmpop op x y))"
  by (rule try_compare_op_word)

text \<open>
  \<^verbatim>\<open>not\<close> and \<^verbatim>\<open>neg\<close> are the bitwise complement and the two's complement negation;
  their \<^verbatim>\<open>BigUint\<close> subtraction never underflows on a value that fits its width.
\<close>

theorem unary_opcode_refines_word:
  "try_unary_op op (iv_of_word x) = Some (map_option iv_of_word (word_unop op x))"
  by (rule try_unary_op_word)

text \<open>
  C29: signed conversion is a bijection between the values of width \<open>k + 1\<close> and the
  integers from \<open>- 2 ^ k\<close> to \<open>2 ^ k - 1\<close>: reading back what was stored gives the integer,
  storing what was read gives the value, and what is read lies in the range.
\<close>

theorem signed_conversion_roundtrip:
  "(- (2 ^ k) \<le> v \<and> v < 2 ^ k \<longrightarrow> to_signed (from_signed (Suc k) v) = Some v)
   \<and> (iv_wf x \<and> width x = Suc k \<longrightarrow>
        (\<exists>i. to_signed x = Some i \<and> - (2 ^ k) \<le> i \<and> i < 2 ^ k \<and> from_signed (Suc k) i = x))"
proof (intro conjI impI)
  assume "- (2 ^ k) \<le> v \<and> v < 2 ^ k"
  then show "to_signed (from_signed (Suc k) v) = Some v" by (simp add: to_signed_from_signed)
next
  assume x: "iv_wf x \<and> width x = Suc k"
  then obtain i where i: "to_signed x = Some i" using to_signed_None[of x] by fastforce
  then show "\<exists>i. to_signed x = Some i \<and> - (2 ^ k) \<le> i \<and> i < 2 ^ k \<and> from_signed (Suc k) i = x"
    using x to_signed_range[of x i] from_signed_to_signed[of x i] by auto
qed

theorem signed_conversion_roundtrip_witness:
  "to_signed (from_signed 8 (-9)) = Some (-9) \<and> from_signed 8 (-9) = IntValue 8 247"
proof -
  have "to_signed (from_signed (Suc 7) (-9)) = Some (-9)"
    using signed_conversion_roundtrip[of 7 "-9"] by simp
  moreover have "from_signed 8 (-9) = IntValue 8 247"
    by (simp add: from_signed_def from_unsigned_def signed_residue_mod)
  ultimately show ?thesis by simp
qed

text \<open>
  Writing a bit slice and reading it back gives what was written; a slice that does
  not overlap the written one is unchanged; writing back what was read changes nothing;
  and the written value still fits its width. This holds for every slice that lies within
  the value.
\<close>

theorem slice_read_write:
  assumes "iv_wf x" "iv_wf v" "off + width v \<le> width x"
  shows "\<exists>y. iv_insert_slice x off (width v) v = Some y \<and> iv_wf y \<and> width y = width x
      \<and> iv_extract_slice y off (width v) = v
      \<and> (off' + len' \<le> off \<or> off + width v \<le> off' \<longrightarrow>
           iv_extract_slice y off' len' = iv_extract_slice x off' len')
      \<and> iv_insert_slice y off (width v) (iv_extract_slice x off (width v)) = Some x"
proof -
  let ?len = "width v"
  obtain y where y: "iv_insert_slice x off ?len v = Some y"
    using insert_slice_None[of x off ?len v] by fastforce
  note wfy = wf_insert_slice[OF y assms] and w = insert_slice_Some[OF y]
  obtain z where z: "iv_insert_slice y off ?len (iv_extract_slice x off ?len) = Some z"
    using insert_slice_None[of y off ?len "iv_extract_slice x off ?len"] by fastforce
  have "z = x"
  proof (rule int_value_bit_eqI)
    show "width z = width x" using insert_slice_Some[OF z] w by simp
    show "bit (ivalue z) i \<longleftrightarrow> bit (ivalue x) i" for i
      using bit_insert_slice[OF z wfy, of i] bit_insert_slice[OF y assms, of i] assms(3) w
      by (auto simp: bit_extract_slice)
  qed
  then show ?thesis
    using y wfy w z extract_insert_same[OF y assms] extract_insert_disjoint[OF y assms] by auto
qed

theorem slice_read_write_witness:
  "\<exists>y. iv_insert_slice (IntValue 8 0xAB) 4 2 (IntValue 2 1) = Some y \<and> iv_extract_slice y 4 2 = IntValue 2 1"
  using slice_read_write[of "IntValue 8 0xAB" "IntValue 2 1" 4 0 0] by (auto simp: iv_wf_def)

text \<open>
  Signed division and remainder fit together in wrap-around arithmetic: whenever both
  return, \<open>q * y + r = x\<close>, also in the one case that overflows, the least value divided by
  minus one; and both return for every divisor other than zero.
\<close>

theorem signed_division_law:
  assumes "(y::'a::len word) \<noteq> 0"
  shows "\<exists>q r p. iv_sdiv (iv_of_word x) (iv_of_word y) = Some q \<and> iv_srem (iv_of_word x) (iv_of_word y) = Some r
           \<and> iv_smul q (iv_of_word y) = Some p \<and> iv_add p r = iv_of_word (x::'a word)"
proof -
  let ?q = "word_of_int (sint x sdiv sint y) :: 'a word" and ?r = "word_of_int (sint x smod sint y) :: 'a word"
  have "?q * y + ?r = word_of_int ((sint x sdiv sint y) * sint y + sint x smod sint y)" by simp
  also have "\<dots> = x" by (simp add: sdiv_mult_smod_eq)
  finally have "?q * y + ?r = x" .
  moreover have "iv_sdiv (iv_of_word x) (iv_of_word y) = Some (iv_of_word ?q)"
    "iv_srem (iv_of_word x) (iv_of_word y) = Some (iv_of_word ?r)"
    using assms by (simp_all add: iv_sdiv_def iv_srem_def from_signed_word)
  ultimately show ?thesis by (simp add: arith_word)
qed

theorem signed_division_law_witness:
  "\<exists>q r p. iv_sdiv (iv_of_word (0x80 :: 8 word)) (iv_of_word (0xFF :: 8 word)) = Some q
     \<and> iv_srem (iv_of_word (0x80 :: 8 word)) (iv_of_word (0xFF :: 8 word)) = Some r
     \<and> iv_smul q (iv_of_word (0xFF :: 8 word)) = Some p \<and> iv_add p r = iv_of_word (0x80 :: 8 word)"
  by (rule signed_division_law) simp

end
