(* ===== verification/Tables.thy ===== *)
theory Tables
  imports LLHD_Prelude
begin

text \<open>
  The key-value tables of the IR (\<^verbatim>\<open>src/src/table.rs\<close>): the primary table with a running
  counter, the secondary table, and the primary table with a free list
  (\<^verbatim>\<open>PrimaryTable2\<close>) that holds the instructions, values, blocks and external units of a
  unit. Keys wrap a \<^verbatim>\<open>u32\<close>: \<open>key_new\<close> truncates as \<^verbatim>\<open>index as u32\<close> does. A hash map is a
  map; a \<^verbatim>\<open>hibitset::BitSet\<close> is a set of naturals whose iteration is ascending. The
  locale \<open>id_table\<close> is what the rest of the IR relies on; both primary tables interpret
  it.
\<close>

section \<open>Keys\<close>

definition key_new :: "nat \<Rightarrow> nat" where
  "key_new index = index mod 2 ^ 32"

definition key_invalid :: nat where
  "key_invalid = 2 ^ 32 - 1"

definition key_is_invalid :: "nat \<Rightarrow> bool" where
  "key_is_invalid k \<longleftrightarrow> k = 2 ^ 32 - 1"

lemma key_new_small [simp]: "i < 2 ^ 32 \<Longrightarrow> key_new i = i"
  by (simp add: key_new_def)

lemma key_invalid_is_invalid: "key_is_invalid key_invalid"
  by (simp add: key_is_invalid_def key_invalid_def)

section \<open>The primary table\<close>

record 'v primary_table =
  pt_next :: nat
  pt_storage :: "nat \<rightharpoonup> 'v"

definition pt_new :: "'v primary_table" where
  "pt_new = \<lparr>pt_next = 0, pt_storage = Map.empty\<rparr>"

definition pt_add :: "'v \<Rightarrow> 'v primary_table \<Rightarrow> nat \<times> 'v primary_table" where
  "pt_add v t =
     (let index = pt_next t;
          t = t\<lparr>pt_next := pt_next t + 1\<rparr>;
          t = t\<lparr>pt_storage := (pt_storage t)(index \<mapsto> v)\<rparr>
      in (key_new index, t))"

definition pt_remove :: "nat \<Rightarrow> 'v primary_table \<Rightarrow> 'v primary_table option" where
  "pt_remove k t =
     do { ensure (pt_storage t k \<noteq> None); Some (t\<lparr>pt_storage := (pt_storage t)(k := None)\<rparr>) }"

definition pt_index :: "'v primary_table \<Rightarrow> nat \<Rightarrow> 'v option" where
  "pt_index t k = pt_storage t k"

definition pt_inv :: "'v primary_table \<Rightarrow> bool" where
  "pt_inv t \<longleftrightarrow> dom (pt_storage t) \<subseteq> {..<pt_next t}"

definition pt_room :: "'v primary_table \<Rightarrow> bool" where
  "pt_room t \<longleftrightarrow> pt_next t < 2 ^ 32"

section \<open>The secondary table\<close>

type_synonym 'v secondary_table = "nat \<rightharpoonup> 'v"

definition st_new :: "'v secondary_table" where
  "st_new = Map.empty"

definition st_add :: "nat \<Rightarrow> 'v \<Rightarrow> 'v secondary_table \<Rightarrow> 'v secondary_table option" where
  "st_add k v m = (if m k \<noteq> None then None else Some (m(k \<mapsto> v)))"

definition st_remove :: "nat \<Rightarrow> 'v secondary_table \<Rightarrow> 'v option \<times> 'v secondary_table" where
  "st_remove k m = (m k, m(k := None))"

definition st_contains :: "'v secondary_table \<Rightarrow> nat \<Rightarrow> bool" where
  "st_contains m k \<longleftrightarrow> m k \<noteq> None"

definition st_get :: "'v secondary_table \<Rightarrow> nat \<Rightarrow> 'v option" where
  "st_get m k = m k"

definition st_index :: "'v secondary_table \<Rightarrow> nat \<Rightarrow> 'v option" where
  "st_index m k = m k"

lemma st_add_Some [panic_simps]: "st_add k v m = Some m' \<longleftrightarrow> m k = None \<and> m' = m(k \<mapsto> v)"
  by (auto simp: st_add_def)

section \<open>The primary table with a free list\<close>

record 'v primary_table2 =
  storage :: "'v list"
  count :: nat
  used :: "nat set"
  free :: "nat set"

definition pt2_new :: "'v primary_table2" where
  "pt2_new = \<lparr>storage = [], count = 0, used = {}, free = {}\<rparr>"

definition pt2_add :: "'v \<Rightarrow> 'v primary_table2 \<Rightarrow> (nat \<times> 'v primary_table2) option" where
  "pt2_add v t =
     (let t = t\<lparr>count := count t + 1\<rparr>
      in if free t \<noteq> {} then
           (let id = Min (free t);
                t = t\<lparr>used := insert id (used t)\<rparr>;
                t = t\<lparr>free := free t - {id}\<rparr>
            in do { s \<leftarrow> idx_set (storage t) id v;
                    Some (key_new id, t\<lparr>storage := s\<rparr>) })
         else
           (let id = length (storage t) mod 2 ^ 32;
                t = t\<lparr>used := insert id (used t)\<rparr>;
                t = t\<lparr>storage := storage t @ [v]\<rparr>
            in Some (key_new id, t)))"

text \<open>\<^verbatim>\<open>remove\<close> leaves the default value \<open>d\<close> of the element type in the slot.\<close>

definition pt2_remove :: "'v \<Rightarrow> nat \<Rightarrow> 'v primary_table2 \<Rightarrow> ('v \<times> 'v primary_table2) option" where
  "pt2_remove d k t =
     do { ensure (k \<in> used t);
          let t = t\<lparr>count := count t - 1\<rparr>;
          let t = t\<lparr>used := used t - {k}\<rparr>;
          let t = t\<lparr>free := insert k (free t)\<rparr>;
          v \<leftarrow> idx (storage t) k;
          Some (v, t\<lparr>storage := (storage t)[k := d]\<rparr>) }"

definition pt2_capacity :: "'v primary_table2 \<Rightarrow> nat" where
  "pt2_capacity t = length (storage t)"

text \<open>Indexing reads the slot, also the default left in an unused one.\<close>

definition pt2_index :: "'v primary_table2 \<Rightarrow> nat \<Rightarrow> 'v option" where
  "pt2_index t k = idx (storage t) k"

definition pt2_index_mut :: "nat \<Rightarrow> 'v \<Rightarrow> 'v primary_table2 \<Rightarrow> 'v primary_table2 option" where
  "pt2_index_mut k v t = do { s \<leftarrow> idx_set (storage t) k v; Some (t\<lparr>storage := s\<rparr>) }"

definition pt2_keys :: "'v primary_table2 \<Rightarrow> nat list" where
  "pt2_keys t = sorted_list_of_set (used t)"

definition pt2_iter :: "'v primary_table2 \<Rightarrow> (nat \<times> 'v) list" where
  "pt2_iter t = map (\<lambda>i. (i, storage t ! i)) (sorted_list_of_set (used t))"

text \<open>
  Serialization writes the used entries as a map. Deserialization reads entries in any
  order, growing the storage with defaults, and marks the gaps as free.
\<close>

definition pt2_serialize :: "'v primary_table2 \<Rightarrow> (nat \<times> 'v) list" where
  "pt2_serialize t = map (\<lambda>i. (i, storage t ! i)) (sorted_list_of_set (used t))"

definition pt2_visit_entry :: "'v \<Rightarrow> nat \<times> 'v \<Rightarrow> 'v primary_table2 \<Rightarrow> 'v primary_table2" where
  "pt2_visit_entry d kv t =
     (let (key, value) = kv;
          s = (if key \<ge> length (storage t)
               then storage t @ replicate (key + 1 - length (storage t)) d else storage t)
      in t\<lparr>storage := s[key := value], used := insert (key mod 2 ^ 32) (used t),
           count := count t + 1\<rparr>)"

definition pt2_visit_map :: "'v \<Rightarrow> (nat \<times> 'v) list \<Rightarrow> 'v primary_table2" where
  "pt2_visit_map d kvs =
     (let t = fold (pt2_visit_entry d) kvs pt2_new
      in t\<lparr>free := set (filter (\<lambda>i. i \<notin> used t) [0..<length (storage t)])\<rparr>)"

text \<open>
  Invariant: every slot is either used or free, the counter counts the used ones. The
  contents of the table are its used slots.
\<close>

definition pt2_inv :: "'v primary_table2 \<Rightarrow> bool" where
  "pt2_inv t \<longleftrightarrow>
     used t \<union> free t = {..<length (storage t)} \<and> used t \<inter> free t = {}
     \<and> count t = card (used t) \<and> length (storage t) \<le> 2 ^ 32"

definition pt2_lookup :: "'v primary_table2 \<Rightarrow> nat \<Rightarrow> 'v option" where
  "pt2_lookup t k = (if k \<in> used t then Some (storage t ! k) else None)"

definition pt2_room :: "'v primary_table2 \<Rightarrow> bool" where
  "pt2_room t \<longleftrightarrow> free t \<noteq> {} \<or> length (storage t) < 2 ^ 32"

section \<open>The interface\<close>

text \<open>
  What a table of identifiers promises: a new entry gets a key no live entry has and
  changes no other entry; removing a live entry removes it and nothing else; removing
  anything else panics.
\<close>

locale id_table =
  fixes add :: "'v \<Rightarrow> 't \<Rightarrow> (nat \<times> 't) option"
    and remove :: "nat \<Rightarrow> 't \<Rightarrow> 't option"
    and lookup :: "'t \<Rightarrow> nat \<Rightarrow> 'v option"
    and inv :: "'t \<Rightarrow> bool"
    and room :: "'t \<Rightarrow> bool"
  assumes add_defined: "inv t \<Longrightarrow> room t \<Longrightarrow> add v t \<noteq> None"
    and add_lookup: "inv t \<Longrightarrow> room t \<Longrightarrow> add v t = Some (k, t') \<Longrightarrow>
          lookup t k = None \<and> lookup t' = (lookup t)(k \<mapsto> v)"
    and add_inv: "inv t \<Longrightarrow> room t \<Longrightarrow> add v t = Some (k, t') \<Longrightarrow> inv t'"
    and remove_defined: "inv t \<Longrightarrow> remove k t = None \<longleftrightarrow> lookup t k = None"
    and remove_lookup: "inv t \<Longrightarrow> remove k t = Some t' \<Longrightarrow> lookup t' = (lookup t)(k := None)"
    and remove_inv: "inv t \<Longrightarrow> remove k t = Some t' \<Longrightarrow> inv t'"
begin

lemma add_frame:
  "inv t \<Longrightarrow> room t \<Longrightarrow> add v t = Some (k, t') \<Longrightarrow> lookup t j = Some w \<Longrightarrow>
     j \<noteq> k \<and> lookup t' j = Some w"
  using add_lookup[of t v k t'] by auto

text \<open>Adding an entry and removing it again restores the contents.\<close>

lemma add_remove:
  assumes "inv t" "room t" "add v t = Some (k, t')"
  shows "\<exists>t''. remove k t' = Some t'' \<and> lookup t'' = lookup t \<and> inv t''"
proof -
  have t': "inv t'" "lookup t k = None" "lookup t' = (lookup t)(k \<mapsto> v)"
    using assms add_inv add_lookup by blast+
  then obtain t'' where r: "remove k t' = Some t''"
    using remove_defined[of t' k] by auto
  then show ?thesis
    using t' remove_lookup[OF t'(1) r] remove_inv[OF t'(1) r] by (auto simp: fun_eq_iff)
qed

text \<open>Two live entries added one after the other have different keys.\<close>

lemma add_add_distinct:
  assumes "inv t" "room t" "add v t = Some (k, t')" "room t'" "add w t' = Some (j, t'')"
  shows "j \<noteq> k \<and> lookup t'' = (lookup t)(k \<mapsto> v, j \<mapsto> w)"
proof -
  have "inv t'" "lookup t' = (lookup t)(k \<mapsto> v)"
    using assms(1-3) add_inv add_lookup by blast+
  then show ?thesis using add_lookup[OF _ assms(4,5)] by auto
qed

end

lemmas pt_defs = pt_new_def pt_add_def pt_remove_def pt_index_def pt_inv_def pt_room_def Let_def

interpretation counter_table:
  id_table "\<lambda>v t. Some (pt_add v t)" pt_remove pt_index pt_inv pt_room
proof unfold_locales
  fix t t' :: "'a primary_table" and v k
  assume inv: "pt_inv t"
  { assume "pt_room t" and "Some (pt_add v t) = Some (k, t')"
    with inv have "k = pt_next t" "pt_next t \<notin> dom (pt_storage t)"
      "t' = t\<lparr>pt_next := pt_next t + 1, pt_storage := (pt_storage t)(k \<mapsto> v)\<rparr>"
      by (auto simp: pt_defs)
    then show "pt_index t k = None \<and> pt_index t' = (pt_index t)(k \<mapsto> v)" "pt_inv t'"
      using inv by (auto simp: pt_index_def pt_inv_def fun_eq_iff) }
  show "pt_remove k t = None \<longleftrightarrow> pt_index t k = None"
    by (cases "pt_storage t k") (simp_all add: pt_defs)
  assume "pt_remove k t = Some t'"
  then have "t' = t\<lparr>pt_storage := (pt_storage t)(k := None)\<rparr>"
    by (auto simp: pt_remove_def panic_simps)
  then show "pt_index t' = (pt_index t)(k := None)" "pt_inv t'"
    using inv by (auto simp: pt_index_def pt_inv_def)
qed simp

lemma pt2_inv_bounds:
  assumes "pt2_inv t"
  shows "k \<in> used t \<Longrightarrow> k < length (storage t)" "k \<in> free t \<Longrightarrow> k < length (storage t)"
    "finite (used t)" "finite (free t)"
proof -
  have eq: "used t \<union> free t = {..<length (storage t)}" using assms by (simp add: pt2_inv_def)
  then show "k \<in> used t \<Longrightarrow> k < length (storage t)" "k \<in> free t \<Longrightarrow> k < length (storage t)"
    by blast+
  have "finite (used t \<union> free t)" unfolding eq by simp
  then show "finite (used t)" "finite (free t)" by simp_all
qed

text \<open>The two ways of adding: reusing the least free slot, or growing the storage.\<close>

lemma pt2_add_reuse:
  assumes "pt2_inv t" "free t \<noteq> {}"
  shows "pt2_add v t = Some (Min (free t), t\<lparr>count := count t + 1, used := insert (Min (free t)) (used t),
           free := free t - {Min (free t)}, storage := (storage t)[Min (free t) := v]\<rparr>)"
proof -
  have mem: "Min (free t) \<in> free t" using pt2_inv_bounds(4)[OF assms(1)] assms(2) by simp
  then have lt: "Min (free t) < length (storage t)" using pt2_inv_bounds(2)[OF assms(1)] by blast
  then have "Min (free t) < 2 ^ 32" using assms(1) by (simp add: pt2_inv_def)
  then show ?thesis using assms(2) lt by (simp add: pt2_add_def idx_set_def Let_def)
qed

lemma pt2_add_grow:
  assumes "free t = {}" "length (storage t) < 2 ^ 32"
  shows "pt2_add v t = Some (length (storage t), t\<lparr>count := count t + 1,
           used := insert (length (storage t)) (used t), storage := storage t @ [v]\<rparr>)"
  using assms by (simp add: pt2_add_def Let_def)

lemma pt2_add_cases:
  assumes inv: "pt2_inv t" and room: "pt2_room t"
  shows "\<exists>k t'. pt2_add v t = Some (k, t') \<and> k \<notin> used t \<and> pt2_inv t'
           \<and> used t' = insert k (used t) \<and> k < length (storage t')
           \<and> storage t' ! k = v \<and> length (storage t) \<le> length (storage t')
           \<and> (\<forall>j < length (storage t). j \<noteq> k \<longrightarrow> storage t' ! j = storage t ! j)"
proof (cases "free t = {}")
  case False
  note b = pt2_inv_bounds[OF inv]
  define m where "m = Min (free t)"
  have m: "m \<in> free t" using False b(4) by (simp add: m_def)
  have nu: "m \<notin> used t" and lt: "m < length (storage t)" using m inv b(2) by (auto simp: pt2_inv_def)
  have "pt2_inv (t\<lparr>count := count t + 1, used := insert m (used t),
           free := free t - {m}, storage := (storage t)[m := v]\<rparr>)"
    using inv m nu b(3) by (auto simp: pt2_inv_def)
  then show ?thesis
    using pt2_add_reuse[OF inv False, of v] nu lt by (auto simp: m_def)
next
  case True
  have used: "used t = {..<length (storage t)}" and lt: "length (storage t) < 2 ^ 32"
    and cnt: "count t = card (used t)"
    using inv room True by (auto simp: pt2_inv_def pt2_room_def)
  then show ?thesis
    using pt2_add_grow[OF True lt, of v] True
    by (auto simp: pt2_inv_def nth_append lessThan_Suc)
qed

lemma pt2_remove_Some:
  assumes "pt2_inv t" "k \<in> used t"
  shows "pt2_remove d k t = Some (storage t ! k, t\<lparr>count := count t - 1, used := used t - {k},
           free := insert k (free t), storage := (storage t)[k := d]\<rparr>)"
  using assms pt2_inv_bounds(1)[OF assms(1)] by (simp add: pt2_remove_def idx_def Let_def)

lemma pt2_remove_inv:
  assumes "pt2_inv t" "pt2_remove d k t = Some (v, t')"
  shows "pt2_inv t'"
proof -
  have k: "k \<in> used t" using assms(2) by (auto simp: pt2_remove_def panic_simps)
  have "t' = t\<lparr>count := count t - 1, used := used t - {k},
           free := insert k (free t), storage := (storage t)[k := d]\<rparr>"
    using pt2_remove_Some[OF assms(1) k] assms(2) by simp
  then show ?thesis
    using assms(1) k pt2_inv_bounds[OF assms(1)] by (auto simp: pt2_inv_def)
qed

interpretation free_list_table:
  id_table pt2_add "\<lambda>k t. map_option snd (pt2_remove d k t)" pt2_lookup pt2_inv pt2_room
  for d
proof unfold_locales
  fix t t' :: "'a primary_table2" and v k
  assume inv: "pt2_inv t"
  { assume room: "pt2_room t"
    note add = pt2_add_cases[OF inv room, of v]
    then show "pt2_add v t \<noteq> None" by auto
    assume "pt2_add v t = Some (k, t')"
    then show "pt2_lookup t k = None \<and> pt2_lookup t' = (pt2_lookup t)(k \<mapsto> v)" "pt2_inv t'"
      using add pt2_inv_bounds(1)[OF inv] by (auto simp: pt2_lookup_def fun_eq_iff) }
  show "map_option snd (pt2_remove d k t) = None \<longleftrightarrow> pt2_lookup t k = None"
    using pt2_remove_Some[OF inv] by (cases "k \<in> used t") (auto simp: pt2_lookup_def pt2_remove_def)
  assume rem: "map_option snd (pt2_remove d k t) = Some t'"
  then obtain v where v: "pt2_remove d k t = Some (v, t')" by auto
  then show "pt2_inv t'" by (rule pt2_remove_inv[OF inv])
  have k: "k \<in> used t" using v by (auto simp: pt2_remove_def panic_simps)
  show "pt2_lookup t' = (pt2_lookup t)(k := None)"
    using pt2_remove_Some[OF inv k, of d] v by (auto simp: pt2_lookup_def fun_eq_iff)
qed

section \<open>Serialization\<close>

text \<open>Well-formed states while the entries are read: nothing is marked free yet.\<close>

definition visit_inv :: "'v primary_table2 \<Rightarrow> bool" where
  "visit_inv t \<longleftrightarrow> used t \<subseteq> {..<length (storage t)} \<and> count t = card (used t) \<and> free t = {}
     \<and> length (storage t) \<le> 2 ^ 32"

lemma visit_entry:
  assumes inv: "visit_inv t" and k: "k < 2 ^ 32" "k \<notin> used t"
  shows "visit_inv (pt2_visit_entry d (k, v) t)
       \<and> used (pt2_visit_entry d (k, v) t) = insert k (used t)
       \<and> pt2_lookup (pt2_visit_entry d (k, v) t) = (pt2_lookup t)(k \<mapsto> v)"
proof -
  have fin: "finite (used t)" using inv finite_subset by (auto simp: visit_inv_def)
  show ?thesis
    using assms fin
    by (auto simp: visit_inv_def pt2_visit_entry_def pt2_lookup_def nth_append Let_def fun_eq_iff
        nth_list_update)
qed

lemma visit_entries:
  assumes "visit_inv t" "distinct (map fst kvs)" "\<forall>k\<in>set (map fst kvs). k < 2 ^ 32 \<and> k \<notin> used t"
  shows "visit_inv (fold (pt2_visit_entry d) kvs t)
       \<and> pt2_lookup (fold (pt2_visit_entry d) kvs t) = pt2_lookup t ++ map_of kvs"
  using assms
proof (induction kvs arbitrary: t)
  case Nil
  then show ?case by simp
next
  case (Cons kv kvs)
  obtain k v where kv: "kv = (k, v)" by (cases kv)
  let ?t = "pt2_visit_entry d kv t"
  have step: "visit_inv ?t" "used ?t = insert k (used t)" "pt2_lookup ?t = (pt2_lookup t)(k \<mapsto> v)"
    using visit_entry[of t k d v] Cons.prems kv by auto
  have "visit_inv (fold (pt2_visit_entry d) kvs ?t)
      \<and> pt2_lookup (fold (pt2_visit_entry d) kvs ?t) = pt2_lookup ?t ++ map_of kvs"
    using Cons.prems step kv by (intro Cons.IH) auto
  moreover have "pt2_lookup ?t ++ map_of kvs = pt2_lookup t ++ map_of (kv # kvs)"
    using Cons.prems(2) by (simp add: kv step(3)[unfolded kv] map_add_upd_left dom_map_of_conv_image_fst)
  ultimately show ?case by (simp only: fold.simps comp_apply)
qed

lemma map_of_graph: "map_of (map (\<lambda>i. (i, f i)) xs) k = (if k \<in> set xs then Some (f k) else None)"
  by (induction xs) auto

lemma serialize_roundtrip:
  fixes t :: "'v primary_table2"
  assumes "pt2_inv t"
  shows "pt2_lookup (pt2_visit_map d (pt2_serialize t)) = pt2_lookup t
       \<and> pt2_inv (pt2_visit_map d (pt2_serialize t))"
proof -
  let ?kvs = "pt2_serialize t" and ?f = "fold (pt2_visit_entry d) (pt2_serialize t) pt2_new"
  note b = pt2_inv_bounds[OF assms]
  have keys: "map fst ?kvs = sorted_list_of_set (used t)"
    by (simp add: pt2_serialize_def comp_def)
  have lt: "k < 2 ^ 32" if "k \<in> used t" for k
    using b(1)[OF that] assms by (simp add: pt2_inv_def)
  have new: "visit_inv (pt2_new :: 'v primary_table2)" "used (pt2_new :: 'v primary_table2) = {}"
    "pt2_lookup (pt2_new :: 'v primary_table2) = Map.empty"
    by (auto simp: visit_inv_def pt2_new_def pt2_lookup_def)
  have f: "visit_inv ?f" "pt2_lookup ?f = map_of ?kvs"
    using visit_entries[OF new(1), of ?kvs d] new keys lt b(3) by simp_all
  have m: "map_of ?kvs = pt2_lookup t"
    using b(3) by (auto simp: fun_eq_iff pt2_serialize_def map_of_graph pt2_lookup_def)
  have "pt2_lookup (pt2_visit_map d ?kvs) = pt2_lookup ?f"
    by (auto simp: fun_eq_iff pt2_visit_map_def pt2_lookup_def Let_def)
  moreover have "pt2_inv (pt2_visit_map d ?kvs)"
    using f(1) by (auto simp: pt2_visit_map_def Let_def pt2_inv_def visit_inv_def)
  ultimately show ?thesis using f m by simp
qed

section \<open>Properties\<close>

text \<open>
  C27: The free-list table behaves as a map with fresh keys. In every well-formed table
  with room an insertion returns a key that no live entry has, stores the value there and
  changes no live entry; removing the entry again gives back the contents; a removal
  panics exactly on keys that are not live; all of it keeps the table well formed, with
  every slot either used or free and the counter equal to the number of live entries.
\<close>

theorem free_list_table_correct:
  assumes "pt2_inv t" and "pt2_room t"
  shows "\<exists>k t'. pt2_add v t = Some (k, t') \<and> pt2_inv t' \<and> pt2_lookup t k = None
      \<and> pt2_lookup t' = (pt2_lookup t)(k \<mapsto> v)
      \<and> (\<exists>t''. pt2_remove d k t' = Some (v, t'') \<and> pt2_lookup t'' = pt2_lookup t \<and> pt2_inv t'')
      \<and> (\<forall>j. pt2_remove d j t' = None \<longleftrightarrow> pt2_lookup t' j = None)"
proof -
  obtain k t' where add: "pt2_add v t = Some (k, t')"
    using free_list_table.add_defined[OF assms] by fastforce
  note inv' = free_list_table.add_inv[OF assms add] and look = free_list_table.add_lookup[OF assms add]
  obtain t'' where r: "map_option snd (pt2_remove d k t') = Some t''" "pt2_lookup t'' = pt2_lookup t" "pt2_inv t''"
    using free_list_table.add_remove[OF assms add, of d] by blast
  have "k \<in> used t'" using look by (auto simp: pt2_lookup_def fun_eq_iff split: if_splits)
  then have "pt2_remove d k t' = Some (v, t'')"
    using r(1) pt2_remove_Some[OF inv', of k d] look
    by (auto simp: pt2_lookup_def fun_eq_iff split: if_splits)
  moreover have "pt2_remove d j t' = None \<longleftrightarrow> pt2_lookup t' j = None" for j
    using free_list_table.remove_defined[OF inv', of d j] by simp
  ultimately show ?thesis using add inv' look r by blast
qed

theorem free_list_table_correct_witness:
  "\<exists>k t'. pt2_add (7::nat) pt2_new = Some (k, t') \<and> pt2_lookup t' k = Some 7"
proof -
  have "pt2_inv pt2_new" "pt2_room pt2_new" by (auto simp: pt2_inv_def pt2_room_def pt2_new_def)
  then show ?thesis using free_list_table_correct[of "pt2_new :: nat primary_table2" 7 0] by fastforce
qed

text \<open>
  C28: Writing a table and reading it back preserves every live entry with its key, and
  rebuilds a well-formed free list, whatever default value fills the gaps.
\<close>

theorem table_serialization_roundtrip:
  assumes "pt2_inv t"
  shows "pt2_lookup (pt2_visit_map d (pt2_serialize t)) = pt2_lookup t
       \<and> pt2_inv (pt2_visit_map d (pt2_serialize t))"
  using assms by (rule serialize_roundtrip)

theorem table_serialization_roundtrip_witness:
  "pt2_lookup (pt2_visit_map 0 (pt2_serialize \<lparr>storage = [5, 0, 9], count = 2, used = {0, 2}, free = {1}\<rparr>)) 2
     = Some (9::nat)"
proof -
  have "pt2_inv \<lparr>storage = [5, 0, 9::nat], count = 2, used = {0, 2}, free = {1}\<rparr>"
    by (auto simp: pt2_inv_def)
  then show ?thesis
    using table_serialization_roundtrip[of "\<lparr>storage = [5, 0, 9::nat], count = 2, used = {0, 2}, free = {1}\<rparr>" 0]
    by (simp add: pt2_lookup_def)
qed

end
