(* ===== verification/LinkedList.thy ===== *)
theory LinkedList
  imports Tables
begin

text \<open>
  Doubly linked lists over keys, as the layout of a unit keeps them for its blocks and
  for the instructions of a block: every entry knows its predecessor and successor, the
  list its first and last entry. This theory is the shared part: a view of the links as a
  map from keys to pairs, the relation \<open>dll\<close> between links and the list they represent,
  one lemma for inserting a key between two neighbours, one for unlinking a key, and the
  traversal. \<open>FunctionLayout\<close> applies it twice.
\<close>

type_synonym links = "nat \<rightharpoonup> nat option \<times> nat option"

definition hd_opt :: "'a list \<Rightarrow> 'a option" where
  "hd_opt xs = (case xs of [] \<Rightarrow> None | x # _ \<Rightarrow> Some x)"

definition last_opt :: "'a list \<Rightarrow> 'a option" where
  "last_opt xs = (if xs = [] then None else Some (last xs))"

lemma hd_opt_simps [simp]:
  "hd_opt [] = None" "hd_opt (x # xs) = Some x" "hd_opt xs = None \<longleftrightarrow> xs = []"
  "hd_opt (xs @ ys) = (if xs = [] then hd_opt ys else hd_opt xs)"
  by (auto simp: hd_opt_def split: list.splits)

lemma last_opt_simps [simp]:
  "last_opt [] = None" "last_opt (xs @ [x]) = Some x" "last_opt xs = None \<longleftrightarrow> xs = []"
  "last_opt (xs @ ys) = (if ys = [] then last_opt xs else last_opt ys)"
  "last_opt (x # xs) = (if xs = [] then Some x else last_opt xs)"
  by (auto simp: last_opt_def)

lemma hd_opt_mem: "hd_opt xs = Some x \<Longrightarrow> x \<in> set xs"
  by (cases xs) auto

lemma last_opt_mem: "last_opt xs = Some x \<Longrightarrow> x \<in> set xs"
  by (auto simp: last_opt_def split: if_splits)

definition opt_or :: "'a option \<Rightarrow> 'a option \<Rightarrow> 'a option" where
  "opt_or x y = (case x of None \<Rightarrow> y | Some _ \<Rightarrow> x)"

lemma opt_or_simps [simp]: "opt_or None y = y" "opt_or (Some a) y = Some a" "opt_or x None = x"
  by (auto simp: opt_or_def split: option.splits)

text \<open>
  \<open>chain m p xs n\<close>: the keys \<open>xs\<close> are linked in this order, entered from \<open>p\<close> and left
  towards \<open>n\<close>.
\<close>

fun chain :: "links \<Rightarrow> nat option \<Rightarrow> nat list \<Rightarrow> nat option \<Rightarrow> bool" where
  "chain m p [] n \<longleftrightarrow> True"
| "chain m p (x # xs) n \<longleftrightarrow> m x = Some (p, opt_or (hd_opt xs) n) \<and> chain m (Some x) xs n"

lemma chain_append:
  "chain m p (xs @ ys) n \<longleftrightarrow>
     chain m p xs (opt_or (hd_opt ys) n) \<and> chain m (opt_or (last_opt xs) p) ys n"
  by (induction xs arbitrary: p) (auto simp: opt_or_def split: option.splits)

lemma chain_cong:
  "(\<And>x. x \<in> set xs \<Longrightarrow> m x = m' x) \<Longrightarrow> chain m p xs n \<longleftrightarrow> chain m' p xs n"
  by (induction xs arbitrary: p) auto

lemma chain_upd [simp]: "x \<notin> set xs \<Longrightarrow> chain (m(x := v)) p xs n \<longleftrightarrow> chain m p xs n"
  by (rule chain_cong) auto

definition dll :: "links \<Rightarrow> nat option \<Rightarrow> nat option \<Rightarrow> nat list \<Rightarrow> bool" where
  "dll m f l xs \<longleftrightarrow>
     distinct xs \<and> dom m = set xs \<and> chain m None xs None \<and> f = hd_opt xs \<and> l = last_opt xs"

lemma dll_empty [simp]: "dll Map.empty None None []"
  by (simp add: dll_def)

section \<open>Changing one link\<close>

definition set_next :: "nat option \<Rightarrow> nat option \<Rightarrow> links \<Rightarrow> links" where
  "set_next p v m = (case p of None \<Rightarrow> m | Some a \<Rightarrow> m(a := map_option (\<lambda>l. (fst l, v)) (m a)))"

definition set_prev :: "nat option \<Rightarrow> nat option \<Rightarrow> links \<Rightarrow> links" where
  "set_prev p v m = (case p of None \<Rightarrow> m | Some a \<Rightarrow> m(a := map_option (\<lambda>l. (v, snd l)) (m a)))"

lemma set_link_simps [simp]:
  "set_next None v m = m" "set_prev None v m = m"
  "set_next (Some a) v m = m(a := map_option (\<lambda>l. (fst l, v)) (m a))"
  "set_prev (Some a) v m = m(a := map_option (\<lambda>l. (v, snd l)) (m a))"
  by (simp_all add: set_next_def set_prev_def)

lemma dom_set_link [simp]: "dom (set_next p v m) = dom m" "dom (set_prev p v m) = dom m"
  by (cases p; auto split: if_splits)+

lemma chain_set_next:
  assumes "distinct xs" "chain m p xs n" "last_opt xs \<noteq> None"
  shows "chain (set_next (last_opt xs) n' m) p xs n'"
proof -
  obtain ys y where xs: "xs = ys @ [y]" using assms(3) by (cases xs rule: rev_cases) auto
  show ?thesis using assms(1,2) unfolding xs by (auto simp: chain_append)
qed

lemma chain_set_prev:
  assumes "distinct xs" "chain m p xs n" "hd_opt xs \<noteq> None"
  shows "chain (set_prev (hd_opt xs) p' m) p' xs n"
  using assms by (cases xs) auto

lemma chain_set_outside:
  "(\<And>a. q = Some a \<Longrightarrow> a \<notin> set xs) \<Longrightarrow> chain (set_next q v m) p xs n \<longleftrightarrow> chain m p xs n"
  "(\<And>a. q = Some a \<Longrightarrow> a \<notin> set xs) \<Longrightarrow> chain (set_prev q v m) p xs n \<longleftrightarrow> chain m p xs n"
  by (cases q; simp)+

text \<open>A segment that ends (starts) a list, relinked at its end (start).\<close>

lemma chain_relink_end:
  assumes "distinct xs" "chain m p xs n"
  shows "chain (set_next (last_opt xs) n' m) p xs n'"
  using chain_set_next[OF assms] by (cases "xs = []") simp_all

lemma chain_relink_start:
  assumes "distinct xs" "chain m p xs n"
  shows "chain (set_prev (hd_opt xs) p' m) p' xs n"
  using chain_set_prev[OF assms] by (cases "xs = []") simp_all

section \<open>Inserting and unlinking\<close>

definition link_between :: "nat option \<Rightarrow> nat \<Rightarrow> nat option \<Rightarrow> links \<Rightarrow> links" where
  "link_between p x n m = set_prev n (Some x) (set_next p (Some x) (m(x \<mapsto> (p, n))))"

definition unlink :: "nat \<Rightarrow> nat option \<Rightarrow> nat option \<Rightarrow> links \<Rightarrow> links" where
  "unlink x p n m = set_next p n (set_prev n p (m(x := None)))"

lemma dll_insert:
  assumes rep: "dll m f l (xs @ ys)" and fresh: "x \<notin> set (xs @ ys)"
  shows "dll (link_between (last_opt xs) x (hd_opt ys) m)
           (if xs = [] then Some x else f) (if ys = [] then Some x else l) (xs @ x # ys)"
proof -
  let ?m0 = "m(x \<mapsto> (last_opt xs, hd_opt ys))"
  let ?m1 = "set_next (last_opt xs) (Some x) ?m0"
  let ?m2 = "set_prev (hd_opt ys) (Some x) ?m1"
  have d: "distinct (xs @ ys)" "dom m = set (xs @ ys)" and c: "chain m None xs (hd_opt ys)" "chain m (last_opt xs) ys None"
    and fl: "f = hd_opt (xs @ ys)" "l = last_opt (xs @ ys)"
    using rep by (auto simp: dll_def chain_append)
  have out_ys: "\<And>a. last_opt xs = Some a \<Longrightarrow> a \<notin> set ys \<and> a \<noteq> x"
    and out_xs: "\<And>a. hd_opt ys = Some a \<Longrightarrow> a \<notin> set xs \<and> a \<noteq> x"
    using d fresh last_opt_mem[of xs] hd_opt_mem[of ys] by auto
  have "chain ?m1 None xs (Some x)"
    using d c(1) fresh by (intro chain_relink_end) auto
  then have xs: "chain ?m2 None xs (Some x)"
    using out_xs chain_set_outside(2)[of "hd_opt ys" xs] by blast
  have "chain ?m1 (last_opt xs) ys None"
    using c(2) fresh out_ys chain_set_outside(1)[of "last_opt xs" ys] by auto
  then have ys: "chain ?m2 (Some x) ys None"
    using d by (intro chain_relink_start) auto
  have x: "?m2 x = Some (last_opt xs, hd_opt ys)"
    using out_xs out_ys by (cases "hd_opt ys"; cases "last_opt xs") auto
  have "chain ?m2 None (xs @ x # ys) None"
    using xs ys x by (simp add: chain_append)
  then show ?thesis
    using d fresh fl by (auto simp: dll_def link_between_def)
qed

lemma dll_unlink:
  assumes rep: "dll m f l (xs @ x # ys)"
  shows "dll (unlink x (last_opt xs) (hd_opt ys) m)
           (if xs = [] then hd_opt ys else f) (if ys = [] then last_opt xs else l) (xs @ ys)"
proof -
  let ?m0 = "m(x := None)"
  let ?m1 = "set_prev (hd_opt ys) (last_opt xs) ?m0"
  let ?m2 = "set_next (last_opt xs) (hd_opt ys) ?m1"
  have d: "distinct (xs @ x # ys)" "dom m = set (xs @ x # ys)"
    and c: "chain m None xs (Some x)" "chain m (Some x) ys None"
    and fl: "f = hd_opt (xs @ x # ys)" "l = last_opt (xs @ x # ys)"
    using rep by (auto simp: dll_def chain_append)
  have out_ys: "\<And>a. last_opt xs = Some a \<Longrightarrow> a \<notin> set ys"
    and out_xs: "\<And>a. hd_opt ys = Some a \<Longrightarrow> a \<notin> set xs"
    using d last_opt_mem[of xs] hd_opt_mem[of ys] by auto
  have "chain ?m1 (last_opt xs) ys None"
    using d c(2) by (intro chain_relink_start) auto
  then have ys: "chain ?m2 (last_opt xs) ys None"
    using out_ys chain_set_outside(1)[of "last_opt xs" ys] by blast
  have "chain ?m1 None xs (Some x)"
    using c(1) d out_xs chain_set_outside(2)[of "hd_opt ys" xs] by auto
  then have xs: "chain ?m2 None xs (hd_opt ys)"
    using d by (intro chain_relink_end) auto
  have "chain ?m2 None (xs @ ys) None"
    using xs ys by (simp add: chain_append)
  then show ?thesis
    using d fl by (auto simp: dll_def unlink_def)
qed

text \<open>The neighbours of a key in the list it is linked into.\<close>

lemma dll_links:
  "dll m f l (xs @ x # ys) \<Longrightarrow> m x = Some (last_opt xs, hd_opt ys)"
  by (simp add: dll_def chain_append)

lemma dll_not_mem: "dll m f l xs \<Longrightarrow> x \<notin> set xs \<longleftrightarrow> m x = None"
  by (auto simp: dll_def)

lemma dll_ends: "dll m f l xs \<Longrightarrow> f = hd_opt xs \<and> l = last_opt xs"
  by (simp add: dll_def)

section \<open>Traversal\<close>

text \<open>
  \<^verbatim>\<open>std::iter::successors\<close> from the first entry: \<open>None\<close> when a lookup panics or the
  iteration does not end.
\<close>

partial_function (option) walk :: "(nat \<Rightarrow> nat option option) \<Rightarrow> nat option \<Rightarrow> nat list option" where
  "walk next cur =
     (case cur of
        None \<Rightarrow> Some []
      | Some x \<Rightarrow> Option.bind (next x) (\<lambda>n. Option.bind (walk next n) (\<lambda>rest. Some (x # rest))))"

lemma walk_None [simp]: "walk next None = Some []"
  by (simp add: walk.simps)

lemma walk_chain:
  assumes "chain m p xs None" and "\<And>x l. x \<in> set xs \<Longrightarrow> m x = Some l \<Longrightarrow> next x = Some (snd l)"
  shows "walk next (hd_opt xs) = Some xs"
  using assms
proof (induction xs arbitrary: p)
  case Nil
  then show ?case by simp
next
  case (Cons x xs)
  then have "next x = Some (hd_opt xs)" by auto
  moreover have "walk next (hd_opt xs) = Some xs" using Cons by auto
  ultimately show ?case by (subst walk.simps) simp
qed

text \<open>Insertion next to a key, on lists.\<close>

fun ins_after :: "('a \<Rightarrow> bool) \<Rightarrow> 'a \<Rightarrow> 'a list \<Rightarrow> 'a list" where
  "ins_after P y [] = []"
| "ins_after P y (x # xs) = (if P x then x # y # xs else x # ins_after P y xs)"

fun ins_before :: "('a \<Rightarrow> bool) \<Rightarrow> 'a \<Rightarrow> 'a list \<Rightarrow> 'a list" where
  "ins_before P y [] = []"
| "ins_before P y (x # xs) = (if P x then y # x # xs else x # ins_before P y xs)"

lemma ins_append:
  "\<forall>x \<in> set xs. \<not> P x \<Longrightarrow> ins_after P y (xs @ ys) = xs @ ins_after P y ys"
  "\<forall>x \<in> set xs. \<not> P x \<Longrightarrow> ins_before P y (xs @ ys) = xs @ ins_before P y ys"
  by (induction xs) auto

lemma ins_none [simp]:
  "\<forall>x \<in> set xs. \<not> P x \<Longrightarrow> ins_after P y xs = xs"
  "\<forall>x \<in> set xs. \<not> P x \<Longrightarrow> ins_before P y xs = xs"
  by (induction xs) auto

lemma set_ins:
  "\<exists>x \<in> set xs. P x \<Longrightarrow> set (ins_after P y xs) = insert y (set xs)"
  "\<exists>x \<in> set xs. P x \<Longrightarrow> set (ins_before P y xs) = insert y (set xs)"
  by (induction xs) auto

lemma map_ins:
  "map f (ins_after (\<lambda>x. P (f x)) y xs) = ins_after P (f y) (map f xs)"
  "map f (ins_before (\<lambda>x. P (f x)) y xs) = ins_before P (f y) (map f xs)"
  by (induction xs) auto

text \<open>The interface of a layout list over its abstraction to a list of keys.\<close>

locale layout_list =
  fixes rep :: "'l \<Rightarrow> nat list \<Rightarrow> bool"
    and append :: "nat \<Rightarrow> 'l \<Rightarrow> 'l option"
    and prepend :: "nat \<Rightarrow> 'l \<Rightarrow> 'l option"
    and insert_after :: "nat \<Rightarrow> nat \<Rightarrow> 'l \<Rightarrow> 'l option"
    and insert_before :: "nat \<Rightarrow> nat \<Rightarrow> 'l \<Rightarrow> 'l option"
    and remove :: "nat \<Rightarrow> 'l \<Rightarrow> 'l option"
    and iter :: "'l \<Rightarrow> nat list option"
  assumes append: "rep l xs \<Longrightarrow> x \<notin> set xs \<Longrightarrow> \<exists>l'. append x l = Some l' \<and> rep l' (xs @ [x])"
    and prepend: "rep l xs \<Longrightarrow> x \<notin> set xs \<Longrightarrow> \<exists>l'. prepend x l = Some l' \<and> rep l' (x # xs)"
    and insert_after: "rep l (xs @ a # ys) \<Longrightarrow> x \<notin> set (xs @ a # ys) \<Longrightarrow>
          \<exists>l'. insert_after x a l = Some l' \<and> rep l' (xs @ a # x # ys)"
    and insert_before: "rep l (xs @ b # ys) \<Longrightarrow> x \<notin> set (xs @ b # ys) \<Longrightarrow>
          \<exists>l'. insert_before x b l = Some l' \<and> rep l' (xs @ x # b # ys)"
    and remove: "rep l (xs @ x # ys) \<Longrightarrow> \<exists>l'. remove x l = Some l' \<and> rep l' (xs @ ys)"
    and iter: "rep l xs \<Longrightarrow> iter l = Some xs"
    and distinct: "rep l xs \<Longrightarrow> distinct xs"
    and duplicate: "rep l xs \<Longrightarrow> x \<in> set xs \<Longrightarrow> append x l = None \<and> prepend x l = None"
    and missing: "rep l xs \<Longrightarrow> x \<notin> set xs \<Longrightarrow> remove x l = None"
    and bad_anchor: "rep l xs \<Longrightarrow> x \<in> set xs \<or> a \<notin> set xs \<Longrightarrow>
          insert_after x a l = None \<and> insert_before x a l = None"
begin

lemma rep_unique: "rep l xs \<Longrightarrow> rep l ys \<Longrightarrow> xs = ys"
  using iter[of l xs] iter[of l ys] by simp

text \<open>Inserting next to an entry and removing again leaves the list as it was.\<close>

lemma insert_after_remove:
  assumes "rep l (xs @ a # ys)" "x \<notin> set (xs @ a # ys)"
  shows "\<exists>l' l''. insert_after x a l = Some l' \<and> remove x l' = Some l'' \<and> rep l'' (xs @ a # ys)"
proof -
  obtain l' where l': "insert_after x a l = Some l'" "rep l' (xs @ a # x # ys)"
    using insert_after[OF assms] by blast
  then obtain l'' where "remove x l' = Some l''" "rep l'' ((xs @ [a]) @ ys)"
    using remove[of l' "xs @ [a]" x ys] by auto
  then show ?thesis using l' by auto
qed

lemma insert_before_is_insert_after:
  assumes "rep l (xs @ a # b # ys)" "x \<notin> set (xs @ a # b # ys)"
  shows "\<exists>l1 l2 zs. insert_after x a l = Some l1 \<and> insert_before x b l = Some l2 \<and> rep l1 zs \<and> rep l2 zs"
  using insert_after[OF assms] insert_before[of l "xs @ [a]" b ys x] assms by auto

text \<open>The same laws for a key given by its membership.\<close>

lemma insert_after_key:
  assumes rep: "rep l xs" and "a \<in> set xs" "x \<notin> set xs"
  shows "\<exists>l'. insert_after x a l = Some l' \<and> rep l' (ins_after (\<lambda>y. y = a) x xs)"
proof -
  obtain as bs where xs: "xs = as @ a # bs" using assms(2) by (auto simp: in_set_conv_decomp)
  then have "ins_after (\<lambda>y. y = a) x xs = as @ a # x # bs"
    using distinct[OF rep] ins_append(1)[of as "\<lambda>y. y = a" x "a # bs"] by auto
  then show ?thesis using insert_after[of l as a bs x] assms xs by auto
qed

lemma insert_before_key:
  assumes rep: "rep l xs" and "a \<in> set xs" "x \<notin> set xs"
  shows "\<exists>l'. insert_before x a l = Some l' \<and> rep l' (ins_before (\<lambda>y. y = a) x xs)"
proof -
  obtain as bs where xs: "xs = as @ a # bs" using assms(2) by (auto simp: in_set_conv_decomp)
  then have "ins_before (\<lambda>y. y = a) x xs = as @ x # a # bs"
    using distinct[OF rep] ins_append(2)[of as "\<lambda>y. y = a" x "a # bs"] by auto
  then show ?thesis using insert_before[of l as a bs x] assms xs by auto
qed

lemma remove_key:
  assumes rep: "rep l xs" and "x \<in> set xs"
  shows "\<exists>l'. remove x l = Some l' \<and> rep l' (filter (\<lambda>y. y \<noteq> x) xs)"
proof -
  obtain as bs where xs: "xs = as @ x # bs" using assms(2) by (auto simp: in_set_conv_decomp)
  then have "x \<notin> set as" "x \<notin> set bs" using distinct[OF rep] by auto
  then have "filter (\<lambda>y. y \<noteq> x) as = as" "filter (\<lambda>y. y \<noteq> x) bs = bs"
    by (auto intro!: filter_True)
  then have "filter (\<lambda>y. y \<noteq> x) xs = as @ bs"
    using xs by simp
  then show ?thesis using remove[of l as x bs] assms xs by auto
qed

text \<open>Moving an entry to the end keeps the set of entries.\<close>

lemma remove_append:
  assumes "rep l xs" "x \<in> set xs"
  shows "\<exists>l' l'' ys. remove x l = Some l' \<and> append x l' = Some l'' \<and> rep l'' ys \<and> set ys = set xs
           \<and> last ys = x"
proof -
  obtain as bs where xs: "xs = as @ x # bs" using assms(2) by (auto simp: in_set_conv_decomp)
  then obtain l' where l': "remove x l = Some l'" "rep l' (as @ bs)"
    using remove[of l as x bs] assms(1) by auto
  have "x \<notin> set (as @ bs)" using distinct[OF assms(1)] xs by auto
  then obtain l'' where "append x l' = Some l''" "rep l'' ((as @ bs) @ [x])"
    using append[OF l'(2)] by auto
  then have "append x l' = Some l'' \<and> rep l'' ((as @ bs) @ [x]) \<and> set ((as @ bs) @ [x]) = set xs
      \<and> last ((as @ bs) @ [x]) = x"
    using xs by auto
  then show ?thesis using l'(1) by blast
qed

end

section \<open>Swapping two keys of a doubly linked list\<close>

text \<open>
  \<open>relabel\<close> exchanges two keys in every link. A list stays a list under it, with the two
  keys exchanged; and the eight updates of \<open>swap_links\<close>, which are those of
  \<^verbatim>\<open>swap_blocks\<close>, amount to it.
\<close>

definition swap_key :: "nat \<Rightarrow> nat \<Rightarrow> nat \<Rightarrow> nat" where
  "swap_key a b x = (if x = a then b else if x = b then a else x)"

lemma swap_key_simps [simp]:
  "swap_key a b a = b" "swap_key a b b = a" "x \<noteq> a \<Longrightarrow> x \<noteq> b \<Longrightarrow> swap_key a b x = x"
  "swap_key a b (swap_key a b x) = x"
  by (auto simp: swap_key_def)

lemma inj_swap_key [simp]: "inj_on (swap_key a b) S"
  by (metis inj_onI swap_key_simps(4))

definition relabel :: "(nat \<Rightarrow> nat) \<Rightarrow> links \<Rightarrow> links" where
  "relabel f m = (\<lambda>y. map_option (\<lambda>l. (map_option f (fst l), map_option f (snd l))) (m (f y)))"

lemma chain_relabel:
  assumes "\<And>x. f (f x) = x"
  shows "chain m p xs n \<Longrightarrow> chain (relabel f m) (map_option f p) (map f xs) (map_option f n)"
proof (induction xs arbitrary: p)
  case Nil
  then show ?case by simp
next
  case (Cons x xs)
  moreover have "opt_or (hd_opt (map f xs)) (map_option f n) = map_option f (opt_or (hd_opt xs) n)"
    by (cases xs) auto
  ultimately show ?case using Cons.IH[of "Some x"] by (simp add: relabel_def assms)
qed

lemma dll_relabel:
  assumes "dll m f l xs"
  shows "dll (relabel (swap_key a b) m) (map_option (swap_key a b) f) (map_option (swap_key a b) l)
           (map (swap_key a b) xs)"
proof -
  have "dom (relabel (swap_key a b) m) = swap_key a b ` dom m"
    by (auto simp: relabel_def dom_def image_iff) (metis swap_key_simps(4))+
  moreover have "hd_opt (map g ys) = map_option g (hd_opt ys)"
    "last_opt (map g ys) = map_option g (last_opt ys)" for g :: "nat \<Rightarrow> nat" and ys
    by (auto simp: hd_opt_def last_opt_def last_map split: list.split)
  ultimately show ?thesis
    using assms chain_relabel[of "swap_key a b" m None xs None]
    by (auto simp: dll_def distinct_map)
qed

definition linked :: "links \<Rightarrow> bool" where
  "linked m \<longleftrightarrow> (\<forall>k p n j. m k = Some (p, n) \<longrightarrow>
     (n = Some j \<longrightarrow> j \<noteq> k \<and> (\<exists>n'. m j = Some (Some k, n'))) \<and>
     (p = Some j \<longrightarrow> j \<noteq> k \<and> (\<exists>p'. m j = Some (p', Some k))))"

lemma dll_linked:
  assumes "dll m f l xs"
  shows "linked m"
  unfolding linked_def
proof (intro allI impI conjI)
  fix k p n j
  assume k: "m k = Some (p, n)"
  then have "k \<in> set xs" using assms by (auto simp: dll_def)
  then obtain as bs where xs: "xs = as @ k # bs" by (auto simp: in_set_conv_decomp)
  have pn: "p = last_opt as" "n = hd_opt bs" using dll_links[OF assms[unfolded xs]] k by auto
  have dist: "distinct (as @ k # bs)" using assms xs by (simp add: dll_def)
  {
    assume "n = Some j"
    then obtain cs where "bs = j # cs" using pn by (cases bs) auto
    then show "j \<noteq> k" "\<exists>n'. m j = Some (Some k, n')"
      using dll_links[of m f l "as @ [k]" j cs] assms xs dist by auto
  }
  {
    assume "p = Some j"
    then obtain cs where "as = cs @ [j]" using pn by (cases as rule: rev_cases) auto
    then show "j \<noteq> k" "\<exists>p'. m j = Some (p', Some k)"
      using dll_links[of m f l cs j "k # bs"] assms xs dist by auto
  }
qed

definition swap_links :: "nat \<Rightarrow> nat \<Rightarrow> nat option \<times> nat option \<Rightarrow> nat option \<times> nat option \<Rightarrow> links \<Rightarrow> links" where
  "swap_links a b pn0 pn1 m =
     set_next (fst pn1) (Some a) (set_prev (snd pn1) (Some a)
       (set_next (fst pn0) (Some b) (set_prev (snd pn0) (Some b)
         (set_prev (Some b) (fst pn0) (set_next (Some b) (snd pn0)
           (set_prev (Some a) (fst pn1) (set_next (Some a) (snd pn1) m)))))))"

lemma set_link_apply:
  "set_next q v m y = (if q = Some y then map_option (\<lambda>l. (fst l, v)) (m y) else m y)"
  "set_prev q v m y = (if q = Some y then map_option (\<lambda>l. (v, snd l)) (m y) else m y)"
  by (cases q; auto)+

lemma swap_links_relabel:
  assumes "linked m" "a \<noteq> b" "m a = Some (p0, n0)" "m b = Some (p1, n1)"
  shows "swap_links a b
           (if p0 = Some b then Some a else p0, if n0 = Some b then Some a else n0)
           (if p1 = Some a then Some b else p1, if n1 = Some a then Some b else n1) m
         = relabel (swap_key a b) m"
proof (rule ext)
  fix y
  have sym: "n0 = Some b \<longleftrightarrow> p1 = Some a" "n1 = Some a \<longleftrightarrow> p0 = Some b"
    and self: "n0 \<noteq> Some a" "p0 \<noteq> Some a" "n1 \<noteq> Some b" "p1 \<noteq> Some b"
    using assms unfolding linked_def by fastforce+
  consider "y = a" | "y = b" | "y \<noteq> a" "y \<noteq> b" "m y = None"
    | p n where "y \<noteq> a" "y \<noteq> b" "m y = Some (p, n)" by (cases "m y") auto
  then show "swap_links a b
           (if p0 = Some b then Some a else p0, if n0 = Some b then Some a else n0)
           (if p1 = Some a then Some b else p1, if n1 = Some a then Some b else n1) m y
         = relabel (swap_key a b) m y"
  proof cases
    case 1
    then show ?thesis using assms(2-4) sym self
      by (cases p1; cases n1; auto simp: swap_links_def set_link_apply relabel_def swap_key_def)
  next
    case 2
    then show ?thesis using assms(2-4) sym self
      by (cases p0; cases n0; auto simp: swap_links_def set_link_apply relabel_def swap_key_def)
  next
    case 3
    then show ?thesis using assms(2-4) by (auto simp: swap_links_def set_link_apply relabel_def)
  next
    case (4 p n)
    have "n0 = Some y \<longleftrightarrow> p = Some a" "n1 = Some y \<longleftrightarrow> p = Some b"
      "p0 = Some y \<longleftrightarrow> n = Some a" "p1 = Some y \<longleftrightarrow> n = Some b"
      using assms 4(3) unfolding linked_def by fastforce+
    then show ?thesis using 4 assms(2-4) sym
      by (cases p; cases n; auto simp: swap_links_def set_link_apply relabel_def swap_key_def)
  qed
qed

end
