(* ===== verification/Layout.thy ===== *)
theory Layout
  imports LinkedList
begin

text \<open>
  The instruction layout of a block and the block layout of a unit
  (\<^verbatim>\<open>src/src/ir/layout.rs\<close> and the layout operations of \<^verbatim>\<open>src/src/ir/unit.rs\<close>). Both are
  doubly linked lists stored in secondary tables; the code has one copy of the operations
  for instructions and one for blocks, and so has the model. Each is interpreted in the
  locale \<open>layout_list\<close>.
\<close>

section \<open>Instructions of a block\<close>

record inst_node =
  prev :: "nat option"
  nxt :: "nat option"

record inst_layout =
  insts :: "inst_node secondary_table"
  first_inst :: "nat option"
  last_inst :: "nat option"

definition il_new :: inst_layout where
  "il_new = \<lparr>insts = Map.empty, first_inst = None, last_inst = None\<rparr>"

text \<open>\<^verbatim>\<open>self.insts[key].next = v\<close> and its counterpart for \<^verbatim>\<open>prev\<close>.\<close>

definition put_next :: "nat \<Rightarrow> nat option \<Rightarrow> inst_node secondary_table \<Rightarrow> inst_node secondary_table option" where
  "put_next k v m = map_option (\<lambda>n. m(k \<mapsto> n\<lparr>nxt := v\<rparr>)) (st_index m k)"

definition put_prev :: "nat \<Rightarrow> nat option \<Rightarrow> inst_node secondary_table \<Rightarrow> inst_node secondary_table option" where
  "put_prev k v m = map_option (\<lambda>n. m(k \<mapsto> n\<lparr>prev := v\<rparr>)) (st_index m k)"

definition il_append_inst :: "nat \<Rightarrow> inst_layout \<Rightarrow> inst_layout option" where
  "il_append_inst inst l =
     do { s \<leftarrow> st_add inst \<lparr>prev = last_inst l, nxt = None\<rparr> (insts l);
          s \<leftarrow> (case last_inst l of Some p \<Rightarrow> put_next p (Some inst) s | None \<Rightarrow> Some s);
          let f = (if first_inst l = None then Some inst else first_inst l);
          Some (l\<lparr>insts := s, first_inst := f, last_inst := Some inst\<rparr>) }"

definition il_prepend_inst :: "nat \<Rightarrow> inst_layout \<Rightarrow> inst_layout option" where
  "il_prepend_inst inst l =
     do { s \<leftarrow> st_add inst \<lparr>prev = None, nxt = first_inst l\<rparr> (insts l);
          s \<leftarrow> (case first_inst l of Some n \<Rightarrow> put_prev n (Some inst) s | None \<Rightarrow> Some s);
          let la = (if last_inst l = None then Some inst else last_inst l);
          Some (l\<lparr>insts := s, last_inst := la, first_inst := Some inst\<rparr>) }"

definition il_insert_inst_after :: "nat \<Rightarrow> nat \<Rightarrow> inst_layout \<Rightarrow> inst_layout option" where
  "il_insert_inst_after inst after l =
     do { a \<leftarrow> st_index (insts l) after;
          s \<leftarrow> st_add inst \<lparr>prev = Some after, nxt = nxt a\<rparr> (insts l);
          a \<leftarrow> st_index s after;
          s \<leftarrow> (case nxt a of Some n \<Rightarrow> put_prev n (Some inst) s | None \<Rightarrow> Some s);
          s \<leftarrow> put_next after (Some inst) s;
          let la = (if last_inst l = Some after then Some inst else last_inst l);
          Some (l\<lparr>insts := s, last_inst := la\<rparr>) }"

definition il_insert_inst_before :: "nat \<Rightarrow> nat \<Rightarrow> inst_layout \<Rightarrow> inst_layout option" where
  "il_insert_inst_before inst before l =
     do { b \<leftarrow> st_index (insts l) before;
          s \<leftarrow> st_add inst \<lparr>prev = prev b, nxt = Some before\<rparr> (insts l);
          b \<leftarrow> st_index s before;
          s \<leftarrow> (case prev b of Some p \<Rightarrow> put_next p (Some inst) s | None \<Rightarrow> Some s);
          s \<leftarrow> put_prev before (Some inst) s;
          let f = (if first_inst l = Some before then Some inst else first_inst l);
          Some (l\<lparr>insts := s, first_inst := f\<rparr>) }"

definition il_remove_inst :: "nat \<Rightarrow> inst_layout \<Rightarrow> inst_layout option" where
  "il_remove_inst inst l =
     do { let (removed, s) = st_remove inst (insts l);
          node \<leftarrow> removed;
          s \<leftarrow> (case nxt node of Some n \<Rightarrow> put_prev n (prev node) s | None \<Rightarrow> Some s);
          s \<leftarrow> (case prev node of Some p \<Rightarrow> put_next p (nxt node) s | None \<Rightarrow> Some s);
          let f = (if first_inst l = Some inst then nxt node else first_inst l);
          let la = (if last_inst l = Some inst then prev node else last_inst l);
          Some (l\<lparr>insts := s, first_inst := f, last_inst := la\<rparr>) }"

definition il_prev_inst :: "inst_layout \<Rightarrow> nat \<Rightarrow> nat option option" where
  "il_prev_inst l inst = map_option prev (st_index (insts l) inst)"

definition il_next_inst :: "inst_layout \<Rightarrow> nat \<Rightarrow> nat option option" where
  "il_next_inst l inst = map_option nxt (st_index (insts l) inst)"

definition il_insts :: "inst_layout \<Rightarrow> nat list option" where
  "il_insts l = walk (il_next_inst l) (first_inst l)"

lemmas il_defs = il_append_inst_def il_prepend_inst_def il_insert_inst_after_def
  il_insert_inst_before_def il_remove_inst_def il_prev_inst_def il_next_inst_def

text \<open>The links of the layout, and the list of instructions it represents.\<close>

definition il_links :: "inst_node secondary_table \<Rightarrow> links" where
  "il_links m = (\<lambda>k. map_option (\<lambda>n. (prev n, nxt n)) (m k))"

definition il_rep :: "inst_layout \<Rightarrow> nat list \<Rightarrow> bool" where
  "il_rep l xs \<longleftrightarrow> dll (il_links (insts l)) (first_inst l) (last_inst l) xs"

lemma il_links_upd:
  "il_links (m(k \<mapsto> n)) = (il_links m)(k \<mapsto> (prev n, nxt n))"
  "il_links (m(k := None)) = (il_links m)(k := None)"
  by (auto simp: il_links_def fun_eq_iff)

lemma put_next_links:
  "k \<in> dom m \<Longrightarrow> \<exists>s. put_next k v m = Some s \<and> il_links s = set_next (Some k) v (il_links m) \<and> dom s = dom m"
  by (auto simp: put_next_def st_index_def il_links_upd) (simp add: il_links_def)

lemma put_prev_links:
  "k \<in> dom m \<Longrightarrow> \<exists>s. put_prev k v m = Some s \<and> il_links s = set_prev (Some k) v (il_links m) \<and> dom s = dom m"
  by (auto simp: put_prev_def st_index_def il_links_upd) (simp add: il_links_def)

lemma dom_il_links [simp]: "dom (il_links m) = dom m"
  by (auto simp: il_links_def)

text \<open>The optional updates of a neighbour that the operations perform.\<close>

lemma put_next_opt:
  assumes "\<And>p. q = Some p \<Longrightarrow> p \<in> dom m"
  shows "\<exists>s. (case q of Some p \<Rightarrow> put_next p v m | None \<Rightarrow> Some m) = Some s
           \<and> il_links s = set_next q v (il_links m) \<and> dom s = dom m"
  using assms put_next_links by (cases q) auto

lemma put_prev_opt:
  assumes "\<And>p. q = Some p \<Longrightarrow> p \<in> dom m"
  shows "\<exists>s. (case q of Some p \<Rightarrow> put_prev p v m | None \<Rightarrow> Some m) = Some s
           \<and> il_links s = set_prev q v (il_links m) \<and> dom s = dom m"
  using assms put_prev_links by (cases q) auto

text \<open>
  Each operation against the shared lemmas: an insertion links the key between its new
  neighbours, a removal unlinks it.
\<close>

lemma il_append_rep:
  assumes rep: "il_rep l xs" and fresh: "x \<notin> set xs"
  shows "\<exists>l'. il_append_inst x l = Some l' \<and> il_rep l' (xs @ [x])"
proof -
  have ends: "first_inst l = hd_opt xs" "last_inst l = last_opt xs" and d: "dom (insts l) = set xs"
    using rep by (auto simp: il_rep_def dll_def)
  let ?s0 = "(insts l)(x \<mapsto> \<lparr>prev = last_opt xs, nxt = None\<rparr>)"
  obtain s where s: "(case last_opt xs of Some p \<Rightarrow> put_next p (Some x) ?s0 | None \<Rightarrow> Some ?s0) = Some s"
    "il_links s = set_next (last_opt xs) (Some x) (il_links ?s0)"
    using put_next_opt[of "last_opt xs" ?s0 "Some x"] ends d last_opt_mem[of xs] by auto
  have links: "il_links s = link_between (last_opt xs) x (hd_opt []) (il_links (insts l))"
    using s(2) ends by (simp add: link_between_def il_links_upd)
  have add: "st_add x \<lparr>prev = last_opt xs, nxt = None\<rparr> (insts l) = Some ?s0"
    using fresh d by (auto simp: st_add_def)
  show ?thesis
    using dll_insert[of "il_links (insts l)" "first_inst l" "last_inst l" xs "[]" x] rep fresh add s(1) ends
    by (auto simp: il_append_inst_def il_rep_def links Let_def)
qed

lemma il_prepend_rep:
  assumes rep: "il_rep l xs" and fresh: "x \<notin> set xs"
  shows "\<exists>l'. il_prepend_inst x l = Some l' \<and> il_rep l' (x # xs)"
proof -
  have ends: "first_inst l = hd_opt xs" "last_inst l = last_opt xs" and d: "dom (insts l) = set xs"
    using rep by (auto simp: il_rep_def dll_def)
  let ?s0 = "(insts l)(x \<mapsto> \<lparr>prev = None, nxt = hd_opt xs\<rparr>)"
  obtain s where s: "(case hd_opt xs of Some p \<Rightarrow> put_prev p (Some x) ?s0 | None \<Rightarrow> Some ?s0) = Some s"
    "il_links s = set_prev (hd_opt xs) (Some x) (il_links ?s0)"
    using put_prev_opt[of "hd_opt xs" ?s0 "Some x"] ends d hd_opt_mem[of xs] by auto
  have links: "il_links s = link_between (last_opt []) x (hd_opt xs) (il_links (insts l))"
    using s(2) ends by (simp add: link_between_def il_links_upd)
  have add: "st_add x \<lparr>prev = None, nxt = hd_opt xs\<rparr> (insts l) = Some ?s0"
    using fresh d by (auto simp: st_add_def)
  show ?thesis
    using dll_insert[of "il_links (insts l)" "first_inst l" "last_inst l" "[]" xs x] rep fresh add s(1) ends
    by (auto simp: il_prepend_inst_def il_rep_def links Let_def)
qed

lemma il_node:
  assumes "il_rep l (xs @ a # ys)"
  shows "\<exists>n. insts l a = Some n \<and> prev n = last_opt xs \<and> nxt n = hd_opt ys"
  using dll_links[OF assms[unfolded il_rep_def]] by (auto simp: il_links_def)

lemma set_links_commute:
  assumes "p \<noteq> n \<or> p = None"
  shows "set_next p v (set_prev n w m) = set_prev n w (set_next p v m)"
  using assms by (cases p; cases n) (auto simp: fun_eq_iff)

lemma il_insert_after_rep:
  assumes rep: "il_rep l (xs @ a # ys)" and fresh: "x \<notin> set (xs @ a # ys)"
  shows "\<exists>l'. il_insert_inst_after x a l = Some l' \<and> il_rep l' (xs @ a # x # ys)"
proof -
  have d: "dom (insts l) = set (xs @ a # ys)" and dist: "distinct (xs @ a # ys)"
    and ends: "last_inst l = last_opt (xs @ a # ys)"
    using rep by (auto simp: il_rep_def dll_def)
  obtain n where n: "insts l a = Some n" "prev n = last_opt xs" "nxt n = hd_opt ys"
    using il_node[OF rep] by blast
  have ax: "a \<noteq> x" using fresh by auto
  let ?s0 = "(insts l)(x \<mapsto> \<lparr>prev = Some a, nxt = hd_opt ys\<rparr>)"
  obtain s where s: "(case hd_opt ys of Some p \<Rightarrow> put_prev p (Some x) ?s0 | None \<Rightarrow> Some ?s0) = Some s"
    "il_links s = set_prev (hd_opt ys) (Some x) (il_links ?s0)" "dom s = dom ?s0"
    using put_prev_opt[of "hd_opt ys" ?s0 "Some x"] d hd_opt_mem[of ys] by auto
  obtain t where t: "put_next a (Some x) s = Some t" "il_links t = set_next (Some a) (Some x) (il_links s)"
    using put_next_links[of a s "Some x"] s(3) n(1) by auto
  have "Some a \<noteq> hd_opt ys" using dist hd_opt_mem[of ys a] by auto
  then have "il_links t = set_prev (hd_opt ys) (Some x) (set_next (Some a) (Some x) (il_links ?s0))"
    unfolding t(2) s(2) by (intro set_links_commute) simp
  then have links: "il_links t = link_between (last_opt (xs @ [a])) x (hd_opt ys) (il_links (insts l))"
    by (simp add: link_between_def il_links_upd del: set_link_simps)
  have last: "(if last_inst l = Some a then Some x else last_inst l) = (if ys = [] then Some x else last_inst l)"
    using ends dist last_opt_mem[of ys a] by auto
  have add: "st_add x \<lparr>prev = Some a, nxt = nxt n\<rparr> (insts l) = Some ?s0"
    using fresh d n(3) by (auto simp: st_add_def)
  show ?thesis
    using dll_insert[of "il_links (insts l)" "first_inst l" "last_inst l" "xs @ [a]" ys x]
      rep fresh add s(1) t(1) n ax
    by (auto simp: il_insert_inst_after_def il_rep_def links last Let_def st_index_def)
qed

lemma il_insert_before_rep:
  assumes rep: "il_rep l (xs @ b # ys)" and fresh: "x \<notin> set (xs @ b # ys)"
  shows "\<exists>l'. il_insert_inst_before x b l = Some l' \<and> il_rep l' (xs @ x # b # ys)"
proof -
  have d: "dom (insts l) = set (xs @ b # ys)" and dist: "distinct (xs @ b # ys)"
    and ends: "first_inst l = hd_opt (xs @ b # ys)"
    using rep by (auto simp: il_rep_def dll_def)
  obtain n where n: "insts l b = Some n" "prev n = last_opt xs" "nxt n = hd_opt ys"
    using il_node[OF rep] by blast
  have bx: "b \<noteq> x" using fresh by auto
  let ?s0 = "(insts l)(x \<mapsto> \<lparr>prev = last_opt xs, nxt = Some b\<rparr>)"
  obtain s where s: "(case last_opt xs of Some p \<Rightarrow> put_next p (Some x) ?s0 | None \<Rightarrow> Some ?s0) = Some s"
    "il_links s = set_next (last_opt xs) (Some x) (il_links ?s0)" "dom s = dom ?s0"
    using put_next_opt[of "last_opt xs" ?s0 "Some x"] d last_opt_mem[of xs] by auto
  obtain t where t: "put_prev b (Some x) s = Some t" "il_links t = set_prev (Some b) (Some x) (il_links s)"
    using put_prev_links[of b s "Some x"] s(3) n(1) by auto
  have links: "il_links t = link_between (last_opt xs) x (hd_opt (b # ys)) (il_links (insts l))"
    using t(2) s(2) by (simp add: link_between_def il_links_upd)
  have first: "(if first_inst l = Some b then Some x else first_inst l) = (if xs = [] then Some x else first_inst l)"
    using ends dist hd_opt_mem[of xs b] by auto
  have add: "st_add x \<lparr>prev = prev n, nxt = Some b\<rparr> (insts l) = Some ?s0"
    using fresh d n(2) by (auto simp: st_add_def)
  show ?thesis
    using dll_insert[of "il_links (insts l)" "first_inst l" "last_inst l" xs "b # ys" x]
      rep fresh add s(1) t(1) n bx
    by (auto simp: il_insert_inst_before_def il_rep_def links first Let_def st_index_def)
qed

lemma il_remove_rep:
  assumes rep: "il_rep l (xs @ x # ys)"
  shows "\<exists>l'. il_remove_inst x l = Some l' \<and> il_rep l' (xs @ ys)"
proof -
  have d: "dom (insts l) = set (xs @ x # ys)" and dist: "distinct (xs @ x # ys)"
    and ends: "first_inst l = hd_opt (xs @ x # ys)" "last_inst l = last_opt (xs @ x # ys)"
    using rep by (auto simp: il_rep_def dll_def)
  obtain n where n: "insts l x = Some n" "prev n = last_opt xs" "nxt n = hd_opt ys"
    using il_node[OF rep] by blast
  let ?s0 = "(insts l)(x := None)"
  obtain s where s: "(case hd_opt ys of Some p \<Rightarrow> put_prev p (last_opt xs) ?s0 | None \<Rightarrow> Some ?s0) = Some s"
    "il_links s = set_prev (hd_opt ys) (last_opt xs) (il_links ?s0)" "dom s = dom ?s0"
    using put_prev_opt[of "hd_opt ys" ?s0 "last_opt xs"] d dist hd_opt_mem[of ys] by auto
  have "\<exists>t. (case last_opt xs of Some p \<Rightarrow> put_next p (hd_opt ys) s | None \<Rightarrow> Some s) = Some t
      \<and> il_links t = set_next (last_opt xs) (hd_opt ys) (il_links s) \<and> dom t = dom s"
  proof (rule put_next_opt)
    fix p
    assume "last_opt xs = Some p"
    then have "p \<in> set xs" by (rule last_opt_mem)
    then show "p \<in> dom s" using dist d s(3) by auto
  qed
  then obtain t where t: "(case last_opt xs of Some p \<Rightarrow> put_next p (hd_opt ys) s | None \<Rightarrow> Some s) = Some t"
    "il_links t = set_next (last_opt xs) (hd_opt ys) (il_links s)"
    by (elim exE conjE) (rule that)
  have links: "il_links t = unlink x (last_opt xs) (hd_opt ys) (il_links (insts l))"
    using t(2) s(2) by (simp add: unlink_def il_links_upd)
  have first: "(if first_inst l = Some x then hd_opt ys else first_inst l) = (if xs = [] then hd_opt ys else first_inst l)"
    and last: "(if last_inst l = Some x then last_opt xs else last_inst l) = (if ys = [] then last_opt xs else last_inst l)"
    using ends dist hd_opt_mem[of xs x] last_opt_mem[of ys x] by auto
  let ?l' = "l\<lparr>insts := t, first_inst := if xs = [] then hd_opt ys else first_inst l,
      last_inst := if ys = [] then last_opt xs else last_inst l\<rparr>"
  have "il_remove_inst x l = Some ?l'"
    using n(1) s(1) t(1)
    by (simp add: il_remove_inst_def st_remove_def split del: if_split)
      (unfold n(2,3), simp add: first last split del: if_split)
  moreover have "il_rep ?l' (xs @ ys)"
    using dll_unlink[OF rep[unfolded il_rep_def]] by (simp add: il_rep_def links split del: if_split)
  ultimately show ?thesis by blast
qed

lemma il_iter_rep:
  assumes "il_rep l xs"
  shows "il_insts l = Some xs"
proof -
  have "il_next_inst l x = Some (snd k)" if "il_links (insts l) x = Some k" for x k
    using that by (auto simp: il_next_inst_def st_index_def il_links_def)
  then show ?thesis
    using walk_chain[of "il_links (insts l)" None xs "il_next_inst l"] assms
    by (simp add: il_insts_def il_rep_def dll_def)
qed

lemma il_distinct: "il_rep l xs \<Longrightarrow> distinct xs"
  by (simp add: il_rep_def dll_def)

interpretation inst_list:
  layout_list il_rep il_append_inst il_prepend_inst il_insert_inst_after il_insert_inst_before
    il_remove_inst il_insts
proof unfold_locales
  fix l xs x a
  assume rep: "il_rep l xs"
  then have d: "dom (insts l) = set xs" by (auto simp: il_rep_def dll_def)
  show "x \<in> set xs \<Longrightarrow> il_append_inst x l = None \<and> il_prepend_inst x l = None"
    using d[THEN eqset_imp_iff, of x] by (auto simp: il_append_inst_def il_prepend_inst_def st_add_def)
  show "x \<notin> set xs \<Longrightarrow> il_remove_inst x l = None"
    using dll_not_mem[OF rep[unfolded il_rep_def], of x]
    by (simp add: il_remove_inst_def st_remove_def il_links_def)
  show "x \<in> set xs \<or> a \<notin> set xs \<Longrightarrow>
      il_insert_inst_after x a l = None \<and> il_insert_inst_before x a l = None"
    using dll_not_mem[OF rep[unfolded il_rep_def], of x] dll_not_mem[OF rep[unfolded il_rep_def], of a]
    by (cases "insts l a")
      (auto simp: il_insert_inst_after_def il_insert_inst_before_def st_index_def st_add_def il_links_def)
qed (rule il_append_rep il_prepend_rep il_insert_after_rep il_insert_before_rep
      il_remove_rep il_iter_rep il_distinct; assumption)+

end
