(* ===== verification/BlockLayout.thy ===== *)
theory BlockLayout
  imports Layout
begin

text \<open>
  The block layout of a unit: \<^verbatim>\<open>FunctionLayout\<close> of \<^verbatim>\<open>src/src/ir/layout.rs\<close> and the
  layout operations of \<^verbatim>\<open>Unit\<close> and \<^verbatim>\<open>UnitBuilder\<close> in \<^verbatim>\<open>src/src/ir/unit.rs\<close>. A node of
  the list of blocks carries the instruction layout of the block. Forgetting it turns the
  operations on blocks into the operations on instructions of \<open>Layout\<close>, which is how the
  list of blocks gets its interpretation of \<open>layout_list\<close>; \<open>fl_rep\<close> then relates a layout
  to the list of blocks with the list of the instructions of each.
\<close>

section \<open>Blocks\<close>

record block_node =
  bprev :: "nat option"
  bnxt :: "nat option"
  blayout :: inst_layout

record function_layout =
  bbs :: "block_node secondary_table"
  first_bb :: "nat option"
  last_bb :: "nat option"
  inst_map :: "nat \<rightharpoonup> nat"

definition fl_new :: function_layout where
  "fl_new = \<lparr>bbs = Map.empty, first_bb = None, last_bb = None, inst_map = Map.empty\<rparr>"

definition map_inst :: "nat \<Rightarrow> nat \<Rightarrow> function_layout \<Rightarrow> function_layout option" where
  "map_inst inst bb fl =
     (if inst_map fl inst \<noteq> None then None
      else Some (fl\<lparr>inst_map := (inst_map fl)(inst \<mapsto> bb)\<rparr>))"

definition unmap_inst :: "nat \<Rightarrow> function_layout \<Rightarrow> function_layout option" where
  "unmap_inst inst fl =
     (if inst_map fl inst = None then None
      else Some (fl\<lparr>inst_map := (inst_map fl)(inst := None)\<rparr>))"

text \<open>\<^verbatim>\<open>layout.bbs[key].next = v\<close>, its counterpart for \<^verbatim>\<open>prev\<close>, and
  \<^verbatim>\<open>layout.bbs[key].layout\<close> as a mutable place.\<close>

definition bput_next :: "nat \<Rightarrow> nat option \<Rightarrow> block_node secondary_table \<Rightarrow> block_node secondary_table option" where
  "bput_next k v m = map_option (\<lambda>n. m(k \<mapsto> n\<lparr>bnxt := v\<rparr>)) (st_index m k)"

definition bput_prev :: "nat \<Rightarrow> nat option \<Rightarrow> block_node secondary_table \<Rightarrow> block_node secondary_table option" where
  "bput_prev k v m = map_option (\<lambda>n. m(k \<mapsto> n\<lparr>bprev := v\<rparr>)) (st_index m k)"

definition in_block :: "nat \<Rightarrow> (inst_layout \<Rightarrow> inst_layout option) \<Rightarrow> function_layout \<Rightarrow> function_layout option" where
  "in_block bb f fl =
     do { n \<leftarrow> st_index (bbs fl) bb;
          il \<leftarrow> f (blayout n);
          Some (fl\<lparr>bbs := (bbs fl)(bb \<mapsto> n\<lparr>blayout := il\<rparr>)\<rparr>) }"

definition append_block :: "nat \<Rightarrow> function_layout \<Rightarrow> function_layout option" where
  "append_block bb fl =
     do { s \<leftarrow> st_add bb \<lparr>bprev = last_bb fl, bnxt = None, blayout = il_new\<rparr> (bbs fl);
          s \<leftarrow> (case last_bb fl of Some p \<Rightarrow> bput_next p (Some bb) s | None \<Rightarrow> Some s);
          let f = (if first_bb fl = None then Some bb else first_bb fl);
          Some (fl\<lparr>bbs := s, first_bb := f, last_bb := Some bb\<rparr>) }"

definition prepend_block :: "nat \<Rightarrow> function_layout \<Rightarrow> function_layout option" where
  "prepend_block bb fl =
     do { s \<leftarrow> st_add bb \<lparr>bprev = None, bnxt = first_bb fl, blayout = il_new\<rparr> (bbs fl);
          s \<leftarrow> (case first_bb fl of Some n \<Rightarrow> bput_prev n (Some bb) s | None \<Rightarrow> Some s);
          let la = (if last_bb fl = None then Some bb else last_bb fl);
          Some (fl\<lparr>bbs := s, last_bb := la, first_bb := Some bb\<rparr>) }"

definition insert_block_after :: "nat \<Rightarrow> nat \<Rightarrow> function_layout \<Rightarrow> function_layout option" where
  "insert_block_after bb after fl =
     do { a \<leftarrow> st_index (bbs fl) after;
          s \<leftarrow> st_add bb \<lparr>bprev = Some after, bnxt = bnxt a, blayout = il_new\<rparr> (bbs fl);
          a \<leftarrow> st_index s after;
          s \<leftarrow> (case bnxt a of Some n \<Rightarrow> bput_prev n (Some bb) s | None \<Rightarrow> Some s);
          s \<leftarrow> bput_next after (Some bb) s;
          let la = (if last_bb fl = Some after then Some bb else last_bb fl);
          Some (fl\<lparr>bbs := s, last_bb := la\<rparr>) }"

definition insert_block_before :: "nat \<Rightarrow> nat \<Rightarrow> function_layout \<Rightarrow> function_layout option" where
  "insert_block_before bb before fl =
     do { b \<leftarrow> st_index (bbs fl) before;
          s \<leftarrow> st_add bb \<lparr>bprev = bprev b, bnxt = Some before, blayout = il_new\<rparr> (bbs fl);
          b \<leftarrow> st_index s before;
          s \<leftarrow> (case bprev b of Some p \<Rightarrow> bput_next p (Some bb) s | None \<Rightarrow> Some s);
          s \<leftarrow> bput_prev before (Some bb) s;
          let f = (if first_bb fl = Some before then Some bb else first_bb fl);
          Some (fl\<lparr>bbs := s, first_bb := f\<rparr>) }"

definition remove_block :: "nat \<Rightarrow> function_layout \<Rightarrow> function_layout option" where
  "remove_block bb fl =
     do { let (removed, s) = st_remove bb (bbs fl);
          node \<leftarrow> removed;
          s \<leftarrow> (case bnxt node of Some n \<Rightarrow> bput_prev n (bprev node) s | None \<Rightarrow> Some s);
          s \<leftarrow> (case bprev node of Some p \<Rightarrow> bput_next p (bnxt node) s | None \<Rightarrow> Some s);
          let f = (if first_bb fl = Some bb then bnxt node else first_bb fl);
          let la = (if last_bb fl = Some bb then bprev node else last_bb fl);
          Some (fl\<lparr>bbs := s, first_bb := f, last_bb := la\<rparr>) }"

definition swap_blocks :: "nat \<Rightarrow> nat \<Rightarrow> function_layout \<Rightarrow> function_layout option" where
  "swap_blocks bb0 bb1 fl =
     (if bb0 = bb1 then Some fl
      else do {
        n0 \<leftarrow> st_index (bbs fl) bb0;
        n1 \<leftarrow> st_index (bbs fl) bb1;
        let bb0_next = (if bnxt n0 = Some bb1 then Some bb0 else bnxt n0);
        let bb0_prev = (if bprev n0 = Some bb1 then Some bb0 else bprev n0);
        let bb1_next = (if bnxt n1 = Some bb0 then Some bb1 else bnxt n1);
        let bb1_prev = (if bprev n1 = Some bb0 then Some bb1 else bprev n1);
        s \<leftarrow> bput_next bb0 bb1_next (bbs fl);
        s \<leftarrow> bput_prev bb0 bb1_prev s;
        s \<leftarrow> bput_next bb1 bb0_next s;
        s \<leftarrow> bput_prev bb1 bb0_prev s;
        s \<leftarrow> (case bb0_next of Some n \<Rightarrow> bput_prev n (Some bb1) s | None \<Rightarrow> Some s);
        s \<leftarrow> (case bb0_prev of Some p \<Rightarrow> bput_next p (Some bb1) s | None \<Rightarrow> Some s);
        s \<leftarrow> (case bb1_next of Some n \<Rightarrow> bput_prev n (Some bb0) s | None \<Rightarrow> Some s);
        s \<leftarrow> (case bb1_prev of Some p \<Rightarrow> bput_next p (Some bb0) s | None \<Rightarrow> Some s);
        let f = (if first_bb fl = Some bb0 then Some bb1
                 else if first_bb fl = Some bb1 then Some bb0 else first_bb fl);
        let la = (if last_bb fl = Some bb0 then Some bb1
                  else if last_bb fl = Some bb1 then Some bb0 else last_bb fl);
        Some (fl\<lparr>bbs := s, first_bb := f, last_bb := la\<rparr>) })"

definition prev_block :: "function_layout \<Rightarrow> nat \<Rightarrow> nat option option" where
  "prev_block fl bb = map_option bprev (st_index (bbs fl) bb)"

definition next_block :: "function_layout \<Rightarrow> nat \<Rightarrow> nat option option" where
  "next_block fl bb = map_option bnxt (st_index (bbs fl) bb)"

definition blocks :: "function_layout \<Rightarrow> nat list option" where
  "blocks fl = walk (next_block fl) (first_bb fl)"

definition is_block_inserted :: "function_layout \<Rightarrow> nat \<Rightarrow> bool" where
  "is_block_inserted fl bb = st_contains (bbs fl) bb"

definition entry_block :: "function_layout \<Rightarrow> nat option" where
  "entry_block fl = first_bb fl"

section \<open>Instructions\<close>

definition inst_block :: "function_layout \<Rightarrow> nat \<Rightarrow> nat option" where
  "inst_block fl inst = inst_map fl inst"

definition block_insts :: "function_layout \<Rightarrow> nat \<Rightarrow> nat list option" where
  "block_insts fl bb = do { n \<leftarrow> st_index (bbs fl) bb; il_insts (blayout n) }"

definition all_insts :: "function_layout \<Rightarrow> nat list option" where
  "all_insts fl = do { bs \<leftarrow> blocks fl; iss \<leftarrow> mapM (block_insts fl) bs; Some (concat iss) }"

definition is_inst_inserted :: "function_layout \<Rightarrow> nat \<Rightarrow> bool" where
  "is_inst_inserted fl inst \<longleftrightarrow> inst_map fl inst \<noteq> None"

definition block_first_inst :: "function_layout \<Rightarrow> nat \<Rightarrow> nat option option" where
  "block_first_inst fl bb = do { n \<leftarrow> st_index (bbs fl) bb; Some (first_inst (blayout n)) }"

definition block_last_inst :: "function_layout \<Rightarrow> nat \<Rightarrow> nat option option" where
  "block_last_inst fl bb = do { n \<leftarrow> st_index (bbs fl) bb; Some (last_inst (blayout n)) }"

definition prev_inst :: "function_layout \<Rightarrow> nat \<Rightarrow> nat option option" where
  "prev_inst fl inst =
     do { bb \<leftarrow> inst_block fl inst; n \<leftarrow> st_index (bbs fl) bb; il_prev_inst (blayout n) inst }"

definition next_inst :: "function_layout \<Rightarrow> nat \<Rightarrow> nat option option" where
  "next_inst fl inst =
     do { bb \<leftarrow> inst_block fl inst; n \<leftarrow> st_index (bbs fl) bb; il_next_inst (blayout n) inst }"

definition block_terminator :: "function_layout \<Rightarrow> nat \<Rightarrow> nat option" where
  "block_terminator fl bb = do { li \<leftarrow> block_last_inst fl bb; li }"

definition append_inst :: "nat \<Rightarrow> nat \<Rightarrow> function_layout \<Rightarrow> function_layout option" where
  "append_inst inst bb fl = do { fl \<leftarrow> in_block bb (il_append_inst inst) fl; map_inst inst bb fl }"

definition prepend_inst :: "nat \<Rightarrow> nat \<Rightarrow> function_layout \<Rightarrow> function_layout option" where
  "prepend_inst inst bb fl = do { fl \<leftarrow> in_block bb (il_prepend_inst inst) fl; map_inst inst bb fl }"

definition insert_inst_after :: "nat \<Rightarrow> nat \<Rightarrow> function_layout \<Rightarrow> function_layout option" where
  "insert_inst_after inst after fl =
     do { bb \<leftarrow> inst_block fl after;
          fl \<leftarrow> in_block bb (il_insert_inst_after inst after) fl;
          map_inst inst bb fl }"

definition insert_inst_before :: "nat \<Rightarrow> nat \<Rightarrow> function_layout \<Rightarrow> function_layout option" where
  "insert_inst_before inst before fl =
     do { bb \<leftarrow> inst_block fl before;
          fl \<leftarrow> in_block bb (il_insert_inst_before inst before) fl;
          map_inst inst bb fl }"

definition remove_inst :: "nat \<Rightarrow> function_layout \<Rightarrow> function_layout option" where
  "remove_inst inst fl =
     do { bb \<leftarrow> inst_block fl inst;
          fl \<leftarrow> in_block bb (il_remove_inst inst) fl;
          unmap_inst inst fl }"

section \<open>The list of blocks\<close>

definition erase_node :: "block_node \<Rightarrow> inst_node" where
  "erase_node n = \<lparr>prev = bprev n, nxt = bnxt n\<rparr>"

definition erase_nodes :: "block_node secondary_table \<Rightarrow> inst_node secondary_table" where
  "erase_nodes m = (\<lambda>k. map_option erase_node (m k))"

definition erase :: "function_layout \<Rightarrow> inst_layout" where
  "erase fl = \<lparr>insts = erase_nodes (bbs fl), first_inst = first_bb fl, last_inst = last_bb fl\<rparr>"

lemma erase_simps [simp]:
  "insts (erase fl) = erase_nodes (bbs fl)" "first_inst (erase fl) = first_bb fl"
  "last_inst (erase fl) = last_bb fl"
  by (simp_all add: erase_def)

lemma erase_nodes_upd [simp]:
  "erase_nodes (m(k \<mapsto> n)) = (erase_nodes m)(k \<mapsto> erase_node n)"
  "erase_nodes (m(k := None)) = (erase_nodes m)(k := None)"
  by (auto simp: erase_nodes_def fun_eq_iff)

lemma erase_nodes_apply [simp]: "erase_nodes m k = map_option erase_node (m k)"
  by (simp add: erase_nodes_def)

lemma erase_table [simp]:
  "st_index (erase_nodes m) k = map_option erase_node (st_index m k)"
  "st_add k (erase_node n) (erase_nodes m) = map_option erase_nodes (st_add k n m)"
  "prev (erase_node n) = bprev n" "nxt (erase_node n) = bnxt n"
  by (auto simp: st_index_def erase_nodes_def st_add_def erase_node_def fun_eq_iff)

lemma dom_erase_nodes [simp]: "dom (erase_nodes m) = dom m"
  by (auto simp: dom_def)

lemma erase_put:
  "put_next k v (erase_nodes m) = map_option erase_nodes (bput_next k v m)"
  "put_prev k v (erase_nodes m) = map_option erase_nodes (bput_prev k v m)"
  by (cases "m k"; simp add: put_next_def bput_next_def put_prev_def bput_prev_def st_index_def
      erase_nodes_def erase_node_def fun_eq_iff)+

lemma erase_put_del:
  "put_next k v ((erase_nodes m)(b := None)) = map_option erase_nodes (bput_next k v (m(b := None)))"
  "put_prev k v ((erase_nodes m)(b := None)) = map_option erase_nodes (bput_prev k v (m(b := None)))"
  using erase_put[of k v "m(b := None)"] by simp_all

lemma erase_add:
  "st_add k \<lparr>prev = p, nxt = n\<rparr> (erase_nodes m) =
     map_option erase_nodes (st_add k \<lparr>bprev = p, bnxt = n, blayout = il_new\<rparr> m)"
  using erase_table(2)[of k "\<lparr>bprev = p, bnxt = n, blayout = il_new\<rparr>" m]
  by (simp add: erase_node_def)

lemmas erase_ops = erase_put erase_put_del erase_add erase_def st_remove_def Let_def

text \<open>Each operation on blocks is the operation on instructions on the erased layout.\<close>

lemma erase_append: "il_append_inst b (erase fl) = map_option erase (append_block b fl)"
  by (auto simp: il_append_inst_def append_block_def erase_ops bind_map_option split: option.splits bind_splits)

lemma erase_prepend: "il_prepend_inst b (erase fl) = map_option erase (prepend_block b fl)"
  by (auto simp: il_prepend_inst_def prepend_block_def erase_ops bind_map_option split: option.splits bind_splits)

lemma erase_insert_after:
  "il_insert_inst_after b a (erase fl) = map_option erase (insert_block_after b a fl)"
  by (auto simp: il_insert_inst_after_def insert_block_after_def erase_ops bind_map_option
      split: option.splits bind_splits)

lemma erase_insert_before:
  "il_insert_inst_before b a (erase fl) = map_option erase (insert_block_before b a fl)"
  by (auto simp: il_insert_inst_before_def insert_block_before_def erase_ops bind_map_option
      split: option.splits bind_splits)

lemma erase_remove: "il_remove_inst b (erase fl) = map_option erase (remove_block b fl)"
  by (cases "bbs fl b")
    (auto simp: il_remove_inst_def remove_block_def erase_ops bind_map_option
      split: option.splits bind_splits)

lemma erase_blocks: "blocks fl = il_insts (erase fl)"
proof -
  have "next_block fl = il_next_inst (erase fl)"
    by (auto simp: next_block_def il_next_inst_def fun_eq_iff option.map_comp comp_def)
  then show ?thesis by (simp add: blocks_def il_insts_def)
qed

definition bl_rep :: "function_layout \<Rightarrow> nat list \<Rightarrow> bool" where
  "bl_rep fl bs \<longleftrightarrow> il_rep (erase fl) bs"

lemma Some_map_option: "Some x = map_option f m \<longleftrightarrow> (\<exists>y. m = Some y \<and> x = f y)"
  by (cases m) auto

interpretation block_list:
  layout_list bl_rep append_block prepend_block insert_block_after insert_block_before
    remove_block blocks
proof unfold_locales
  fix fl xs ys x a
  show "bl_rep fl xs \<Longrightarrow> x \<notin> set xs \<Longrightarrow> \<exists>l'. append_block x fl = Some l' \<and> bl_rep l' (xs @ [x])"
    using inst_list.append[of "erase fl" xs x] by (auto simp: bl_rep_def erase_append)
  show "bl_rep fl xs \<Longrightarrow> x \<notin> set xs \<Longrightarrow> \<exists>l'. prepend_block x fl = Some l' \<and> bl_rep l' (x # xs)"
    using inst_list.prepend[of "erase fl" xs x] by (auto simp: bl_rep_def erase_prepend)
  show "bl_rep fl (xs @ a # ys) \<Longrightarrow> x \<notin> set (xs @ a # ys) \<Longrightarrow>
        \<exists>l'. insert_block_after x a fl = Some l' \<and> bl_rep l' (xs @ a # x # ys)"
    using inst_list.insert_after[of "erase fl" xs a ys x] by (auto simp: bl_rep_def erase_insert_after)
  show "bl_rep fl (xs @ a # ys) \<Longrightarrow> x \<notin> set (xs @ a # ys) \<Longrightarrow>
        \<exists>l'. insert_block_before x a fl = Some l' \<and> bl_rep l' (xs @ x # a # ys)"
    using inst_list.insert_before[of "erase fl" xs a ys x] by (auto simp: bl_rep_def erase_insert_before)
  show "bl_rep fl (xs @ x # ys) \<Longrightarrow> \<exists>l'. remove_block x fl = Some l' \<and> bl_rep l' (xs @ ys)"
    using inst_list.remove[of "erase fl" xs x ys] by (auto simp: bl_rep_def erase_remove)
  show "bl_rep fl xs \<Longrightarrow> blocks fl = Some xs"
    by (simp add: bl_rep_def erase_blocks inst_list.iter)
  show "bl_rep fl xs \<Longrightarrow> distinct xs"
    by (simp add: bl_rep_def inst_list.distinct)
  show "bl_rep fl xs \<Longrightarrow> x \<in> set xs \<Longrightarrow> append_block x fl = None \<and> prepend_block x fl = None"
    using inst_list.duplicate[of "erase fl" xs x] by (simp add: bl_rep_def erase_append erase_prepend)
  show "bl_rep fl xs \<Longrightarrow> x \<notin> set xs \<Longrightarrow> remove_block x fl = None"
    using inst_list.missing[of "erase fl" xs x] by (simp add: bl_rep_def erase_remove)
  show "bl_rep fl xs \<Longrightarrow> x \<in> set xs \<or> a \<notin> set xs \<Longrightarrow>
      insert_block_after x a fl = None \<and> insert_block_before x a fl = None"
    using inst_list.bad_anchor[of "erase fl" xs x a]
    by (simp add: bl_rep_def erase_insert_after erase_insert_before)
qed

lemma bl_rep_dom: "bl_rep fl xs \<Longrightarrow> dom (bbs fl) = set xs"
  by (auto simp: bl_rep_def il_rep_def dll_def simp del: erase_nodes_apply)

text \<open>The instruction layouts the nodes carry, which the operations on the list keep.\<close>

definition block_layouts :: "block_node secondary_table \<Rightarrow> nat \<rightharpoonup> inst_layout" where
  "block_layouts m = (\<lambda>k. map_option blayout (m k))"

lemma block_layouts_upd [simp]:
  "block_layouts (m(k \<mapsto> n)) = (block_layouts m)(k \<mapsto> blayout n)"
  "block_layouts (m(k := None)) = (block_layouts m)(k := None)"
  by (auto simp: block_layouts_def fun_eq_iff)

lemma bput_layouts:
  "bput_next k v m = Some s \<Longrightarrow> block_layouts s = block_layouts m"
  "bput_prev k v m = Some s \<Longrightarrow> block_layouts s = block_layouts m"
  by (auto simp: bput_next_def bput_prev_def st_index_def) (auto simp: block_layouts_def)

lemma append_block_layouts:
  "append_block b fl = Some fl' \<Longrightarrow>
     block_layouts (bbs fl') = (block_layouts (bbs fl))(b \<mapsto> il_new) \<and> inst_map fl' = inst_map fl"
  by (auto simp: append_block_def panic_simps Let_def split: option.splits dest!: bput_layouts)

lemma prepend_block_layouts:
  "prepend_block b fl = Some fl' \<Longrightarrow>
     block_layouts (bbs fl') = (block_layouts (bbs fl))(b \<mapsto> il_new) \<and> inst_map fl' = inst_map fl"
  by (auto simp: prepend_block_def panic_simps Let_def split: option.splits dest!: bput_layouts)

lemma insert_block_after_layouts:
  "insert_block_after b a fl = Some fl' \<Longrightarrow>
     block_layouts (bbs fl') = (block_layouts (bbs fl))(b \<mapsto> il_new) \<and> inst_map fl' = inst_map fl"
  by (auto simp: insert_block_after_def panic_simps Let_def split: option.splits dest!: bput_layouts)

lemma insert_block_before_layouts:
  "insert_block_before b a fl = Some fl' \<Longrightarrow>
     block_layouts (bbs fl') = (block_layouts (bbs fl))(b \<mapsto> il_new) \<and> inst_map fl' = inst_map fl"
  by (auto simp: insert_block_before_def panic_simps Let_def split: option.splits dest!: bput_layouts)

lemma remove_block_layouts:
  "remove_block b fl = Some fl' \<Longrightarrow>
     block_layouts (bbs fl') = (block_layouts (bbs fl))(b := None) \<and> inst_map fl' = inst_map fl"
  by (auto simp: remove_block_def st_remove_def panic_simps Let_def split: option.splits
      dest!: bput_layouts)

text \<open>Swapping two blocks.\<close>

lemma bput_links:
  "k \<in> dom m \<Longrightarrow> \<exists>s. bput_next k v m = Some s \<and> dom s = dom m
     \<and> il_links (erase_nodes s) = set_next (Some k) v (il_links (erase_nodes m))"
  "k \<in> dom m \<Longrightarrow> \<exists>s. bput_prev k v m = Some s \<and> dom s = dom m
     \<and> il_links (erase_nodes s) = set_prev (Some k) v (il_links (erase_nodes m))"
proof -
  have dom: "dom s = dom m" if "il_links (erase_nodes s) = set_next (Some k) v (il_links (erase_nodes m))
      \<or> il_links (erase_nodes s) = set_prev (Some k) v (il_links (erase_nodes m))" for s
    using that dom_set_link[of "Some k" v "il_links (erase_nodes m)"] dom_il_links dom_erase_nodes
    by metis
  assume "k \<in> dom m"
  then have k: "k \<in> dom (erase_nodes m)" by simp
  show "\<exists>s. bput_next k v m = Some s \<and> dom s = dom m
     \<and> il_links (erase_nodes s) = set_next (Some k) v (il_links (erase_nodes m))"
    using put_next_links[OF k, of v] dom unfolding erase_put(1) map_option_eq_Some by metis
  show "\<exists>s. bput_prev k v m = Some s \<and> dom s = dom m
     \<and> il_links (erase_nodes s) = set_prev (Some k) v (il_links (erase_nodes m))"
    using put_prev_links[OF k, of v] dom unfolding erase_put(2) map_option_eq_Some by metis
qed

text \<open>
  A step of \<open>swap_blocks\<close>: it updates a node that exists and keeps the nodes, so that the
  sequence of steps composes the updates of the links.
\<close>

definition relinks :: "(block_node secondary_table \<Rightarrow> block_node secondary_table option) \<Rightarrow>
    (links \<Rightarrow> links) \<Rightarrow> nat set \<Rightarrow> bool" where
  "relinks f g D \<longleftrightarrow> (\<forall>m. dom m = D \<longrightarrow> (\<exists>s. f m = Some s \<and> dom s = D \<and>
     il_links (erase_nodes s) = g (il_links (erase_nodes m)) \<and> block_layouts s = block_layouts m))"

lemma relinks_put:
  "k \<in> D \<Longrightarrow> relinks (bput_next k v) (set_next (Some k) v) D"
  "k \<in> D \<Longrightarrow> relinks (bput_prev k v) (set_prev (Some k) v) D"
  unfolding relinks_def using bput_links bput_layouts by metis+

lemma relinks_opt:
  "(\<And>p. q = Some p \<Longrightarrow> p \<in> D) \<Longrightarrow>
     relinks (\<lambda>m. case q of Some p \<Rightarrow> bput_next p v m | None \<Rightarrow> Some m) (set_next q v) D"
  "(\<And>p. q = Some p \<Longrightarrow> p \<in> D) \<Longrightarrow>
     relinks (\<lambda>m. case q of Some p \<Rightarrow> bput_prev p v m | None \<Rightarrow> Some m) (set_prev q v) D"
  using relinks_put by (cases q; simp add: relinks_def)+

lemma relinks_comp:
  assumes "relinks f g D" "relinks f' g' D"
  shows "relinks (\<lambda>m. Option.bind (f m) f') (g' \<circ> g) D"
  unfolding relinks_def
proof (intro allI impI)
  fix m :: "block_node secondary_table"
  assume "dom m = D"
  then obtain s where s: "f m = Some s" "dom s = D" "il_links (erase_nodes s) = g (il_links (erase_nodes m))"
    "block_layouts s = block_layouts m"
    using assms(1) unfolding relinks_def by blast
  then obtain t where "f' s = Some t" "dom t = D" "il_links (erase_nodes t) = g' (il_links (erase_nodes s))"
    "block_layouts t = block_layouts s"
    using assms(2) unfolding relinks_def by blast
  with s show "\<exists>s. Option.bind (f m) f' = Some s \<and> dom s = D \<and>
      il_links (erase_nodes s) = (g' \<circ> g) (il_links (erase_nodes m)) \<and> block_layouts s = block_layouts m"
    by auto
qed

lemma il_links_erase_Some:
  "bbs fl k = Some n \<Longrightarrow> il_links (erase_nodes (bbs fl)) k = Some (bprev n, bnxt n)"
  by (simp add: il_links_def)

lemma linked_mem:
  assumes "linked m" "m k = Some (p, n)"
  shows "p = Some j \<Longrightarrow> j \<in> dom m" "n = Some j \<Longrightarrow> j \<in> dom m"
  using assms unfolding linked_def by blast+

lemma swap_blocks_links:
  assumes lk: "linked (il_links (erase_nodes (bbs fl)))" and ne: "a \<noteq> b"
    and n0: "bbs fl a = Some n0" and n1: "bbs fl b = Some n1"
  shows "\<exists>fl'. swap_blocks a b fl = Some fl'
    \<and> il_links (erase_nodes (bbs fl')) = relabel (swap_key a b) (il_links (erase_nodes (bbs fl)))
    \<and> block_layouts (bbs fl') = block_layouts (bbs fl) \<and> inst_map fl' = inst_map fl
    \<and> first_bb fl' = map_option (swap_key a b) (first_bb fl)
    \<and> last_bb fl' = map_option (swap_key a b) (last_bb fl)"
proof -
  define P0 N0 P1 N1 where "P0 = (if bprev n0 = Some b then Some a else bprev n0)"
    and "N0 = (if bnxt n0 = Some b then Some a else bnxt n0)"
    and "P1 = (if bprev n1 = Some a then Some b else bprev n1)"
    and "N1 = (if bnxt n1 = Some a then Some b else bnxt n1)"
  note defs = this
  let ?D = "dom (bbs fl)"
  let ?f = "\<lambda>m. do { s \<leftarrow> bput_next a N1 m; s \<leftarrow> bput_prev a P1 s; s \<leftarrow> bput_next b N0 s;
      s \<leftarrow> bput_prev b P0 s;
      s \<leftarrow> (case N0 of Some n \<Rightarrow> bput_prev n (Some b) s | None \<Rightarrow> Some s);
      s \<leftarrow> (case P0 of Some p \<Rightarrow> bput_next p (Some b) s | None \<Rightarrow> Some s);
      s \<leftarrow> (case N1 of Some n \<Rightarrow> bput_prev n (Some a) s | None \<Rightarrow> Some s);
      (case P1 of Some p \<Rightarrow> bput_next p (Some a) s | None \<Rightarrow> Some s) }"
  have mem: "a \<in> ?D" "b \<in> ?D" using n0 n1 by auto
  have pn: "P0 = Some j \<Longrightarrow> j \<in> ?D" "N0 = Some j \<Longrightarrow> j \<in> ?D" "P1 = Some j \<Longrightarrow> j \<in> ?D" "N1 = Some j \<Longrightarrow> j \<in> ?D" for j
    using linked_mem[OF lk il_links_erase_Some[OF n0], of j] linked_mem[OF lk il_links_erase_Some[OF n1], of j] mem
    unfolding defs dom_il_links dom_erase_nodes by (metis option.inject)+
  have "relinks ?f (\<lambda>m. swap_links a b (P0, N0) (P1, N1) m) ?D"
    unfolding swap_links_def fst_conv snd_conv
    by (rule relinks_comp[OF relinks_put(1)[OF mem(1)] relinks_comp[OF relinks_put(2)[OF mem(1)]
        relinks_comp[OF relinks_put(1)[OF mem(2)] relinks_comp[OF relinks_put(2)[OF mem(2)]
        relinks_comp[OF relinks_opt(2)[OF pn(2)] relinks_comp[OF relinks_opt(1)[OF pn(1)]
        relinks_comp[OF relinks_opt(2)[OF pn(4)] relinks_opt(1)[OF pn(3)]]]]]]], unfolded comp_def])
  then obtain s where s: "?f (bbs fl) = Some s" "block_layouts s = block_layouts (bbs fl)"
    "il_links (erase_nodes s) = swap_links a b (P0, N0) (P1, N1) (il_links (erase_nodes (bbs fl)))"
    unfolding relinks_def by blast
  have "swap_links a b (P0, N0) (P1, N1) (il_links (erase_nodes (bbs fl)))
      = relabel (swap_key a b) (il_links (erase_nodes (bbs fl)))"
    unfolding defs
    by (rule swap_links_relabel[OF lk ne il_links_erase_Some[OF n0] il_links_erase_Some[OF n1]])
  moreover have ends: "(if e = Some a then Some b else if e = Some b then Some a else e) = map_option (swap_key a b) e" for e
    by (cases e) (auto simp: swap_key_def)
  moreover have "swap_blocks a b fl = Some (fl\<lparr>bbs := s, first_bb := map_option (swap_key a b) (first_bb fl),
      last_bb := map_option (swap_key a b) (last_bb fl)\<rparr>)"
    using s(1) ne n0 n1
    unfolding swap_blocks_def Let_def ends defs[symmetric] st_index_def
    by (simp add: defs[symmetric] bind_eq_Some_conv) (elim exE conjE, simp)
  ultimately show ?thesis using s(2,3) by simp
qed

end
