(* ===== verification/LayoutRefinement.thy ===== *)
theory LayoutRefinement
  imports BlockLayout
begin

text \<open>
  What the layout of a unit promises: it is an ordered list of blocks, each with an ordered
  list of instructions, and every instruction is in at most one block. \<open>layout_op\<close> lists
  the operations of \<^verbatim>\<open>UnitBuilder\<close> on the layout, \<open>abs_op\<close> says what each
  does to the list, and the simulation shows that the linked lists, the map from
  instructions to blocks and the panics of the code implement it.
\<close>

type_synonym layout_list = "(nat \<times> nat list) list"

definition fl_rep :: "function_layout \<Rightarrow> layout_list \<Rightarrow> bool" where
  "fl_rep fl xs \<longleftrightarrow>
     bl_rep fl (map fst xs) \<and>
     (\<forall>p \<in> set xs. \<exists>il. block_layouts (bbs fl) (fst p) = Some il \<and> il_rep il (snd p)) \<and>
     (\<forall>i b. inst_map fl i = Some b \<longleftrightarrow> (\<exists>p \<in> set xs. fst p = b \<and> i \<in> set (snd p)))"

datatype layout_op =
    AppendBlock nat
  | PrependBlock nat
  | InsertBlockAfter nat nat
  | InsertBlockBefore nat nat
  | RemoveBlock nat
  | SwapBlocks nat nat
  | AppendInst nat nat
  | PrependInst nat nat
  | InsertInstAfter nat nat
  | InsertInstBefore nat nat
  | RemoveInst nat

definition run_op :: "layout_op \<Rightarrow> function_layout \<Rightarrow> function_layout option" where
  "run_op op fl = (case op of
     AppendBlock b \<Rightarrow> append_block b fl
   | PrependBlock b \<Rightarrow> prepend_block b fl
   | InsertBlockAfter b a \<Rightarrow> insert_block_after b a fl
   | InsertBlockBefore b a \<Rightarrow> insert_block_before b a fl
   | RemoveBlock b \<Rightarrow> remove_block b fl
   | SwapBlocks a b \<Rightarrow> swap_blocks a b fl
   | AppendInst i b \<Rightarrow> append_inst i b fl
   | PrependInst i b \<Rightarrow> prepend_inst i b fl
   | InsertInstAfter i a \<Rightarrow> insert_inst_after i a fl
   | InsertInstBefore i a \<Rightarrow> insert_inst_before i a fl
   | RemoveInst i \<Rightarrow> remove_inst i fl)"

section \<open>The abstract operations\<close>

definition keys :: "layout_list \<Rightarrow> nat set" where
  "keys xs = fst ` set xs"

definition members :: "layout_list \<Rightarrow> nat set" where
  "members xs = \<Union> (set ` snd ` set xs)"

definition guarded :: "bool \<Rightarrow> 'a \<Rightarrow> 'a option" where
  "guarded c x = (if c then Some x else None)"

definition at_block :: "nat \<Rightarrow> (nat list \<Rightarrow> nat list) \<Rightarrow> layout_list \<Rightarrow> layout_list" where
  "at_block b f xs = map (\<lambda>p. (fst p, if fst p = b then f (snd p) else snd p)) xs"

definition everywhere :: "(nat list \<Rightarrow> nat list) \<Rightarrow> layout_list \<Rightarrow> layout_list" where
  "everywhere f xs = map (\<lambda>p. (fst p, f (snd p))) xs"

text \<open>
  Removing a block is specified for a block without instructions; the code forgets the
  instructions of a block it removes, but not that they are mapped to it.
\<close>

definition abs_op :: "layout_op \<Rightarrow> layout_list \<Rightarrow> layout_list option" where
  "abs_op op xs = (case op of
     AppendBlock b \<Rightarrow> guarded (b \<notin> keys xs) (xs @ [(b, [])])
   | PrependBlock b \<Rightarrow> guarded (b \<notin> keys xs) ((b, []) # xs)
   | InsertBlockAfter b a \<Rightarrow>
       guarded (b \<notin> keys xs \<and> a \<in> keys xs) (ins_after (\<lambda>p. fst p = a) (b, []) xs)
   | InsertBlockBefore b a \<Rightarrow>
       guarded (b \<notin> keys xs \<and> a \<in> keys xs) (ins_before (\<lambda>p. fst p = a) (b, []) xs)
   | RemoveBlock b \<Rightarrow> guarded ((b, []) \<in> set xs) (filter (\<lambda>p. fst p \<noteq> b) xs)
   | SwapBlocks a b \<Rightarrow>
       if a = b then Some xs
       else guarded (a \<in> keys xs \<and> b \<in> keys xs)
              (map (\<lambda>p. let k = swap_key a b (fst p) in (k, the (map_of xs k))) xs)
   | AppendInst i b \<Rightarrow>
       guarded (i \<notin> members xs \<and> b \<in> keys xs) (at_block b (\<lambda>is. is @ [i]) xs)
   | PrependInst i b \<Rightarrow>
       guarded (i \<notin> members xs \<and> b \<in> keys xs) (at_block b (\<lambda>is. i # is) xs)
   | InsertInstAfter i a \<Rightarrow>
       guarded (i \<notin> members xs \<and> a \<in> members xs) (everywhere (ins_after (\<lambda>x. x = a) i) xs)
   | InsertInstBefore i a \<Rightarrow>
       guarded (i \<notin> members xs \<and> a \<in> members xs) (everywhere (ins_before (\<lambda>x. x = a) i) xs)
   | RemoveInst i \<Rightarrow>
       guarded (i \<in> members xs) (everywhere (filter (\<lambda>x. x \<noteq> i)) xs))"

lemma guarded_Some [simp]: "guarded c x = Some y \<longleftrightarrow> c \<and> x = y"
  "guarded c x = None \<longleftrightarrow> \<not> c"
  by (simp_all add: guarded_def)

section \<open>Blocks\<close>

lemma fl_repD:
  assumes "fl_rep fl xs"
  shows "bl_rep fl (map fst xs)" "distinct (map fst xs)"
    "p \<in> set xs \<Longrightarrow> \<exists>il. block_layouts (bbs fl) (fst p) = Some il \<and> il_rep il (snd p)"
    "inst_map fl i = Some b \<longleftrightarrow> (\<exists>p \<in> set xs. fst p = b \<and> i \<in> set (snd p))"
  using assms block_list.distinct[of fl "map fst xs"]
  unfolding fl_rep_def by blast+

lemma fl_rep_distinct:
  assumes "fl_rep fl xs" "(b, is) \<in> set xs"
  shows "distinct is"
  using fl_repD(3)[OF assms] inst_list.distinct by auto

lemma fl_rep_unmapped: "fl_rep fl xs \<Longrightarrow> inst_map fl i = None \<longleftrightarrow> i \<notin> members xs"
  using fl_repD(4)[of fl xs i] by (cases "inst_map fl i") (auto simp: members_def)

text \<open>Operations that change the list of blocks and leave the blocks as they are.\<close>

lemma il_rep_new [simp]: "il_rep il_new []"
  by (simp add: il_rep_def il_new_def il_links_def dll_def)

lemma fl_rep_new: "fl_rep fl_new []"
  by (simp add: fl_rep_def bl_rep_def fl_new_def il_rep_def erase_nodes_def il_links_def dll_def)

lemma fl_rep_add_block:
  assumes rep: "fl_rep fl xs" and bl: "bl_rep fl' (map fst ys)" and fresh: "b \<notin> keys xs"
    and ys: "set ys = insert (b, []) (set xs)"
    and lay: "block_layouts (bbs fl') = (block_layouts (bbs fl))(b \<mapsto> il_new) \<and> inst_map fl' = inst_map fl"
  shows "fl_rep fl' ys"
  using rep fresh unfolding fl_rep_def ys
  by (auto simp: bl lay keys_def)

lemma fl_rep_append_block:
  assumes "fl_rep fl xs" "b \<notin> keys xs"
  shows "\<exists>fl'. append_block b fl = Some fl' \<and> fl_rep fl' (xs @ [(b, [])])"
  using block_list.append[OF fl_repD(1)[OF assms(1)], of b] assms(2)
    fl_rep_add_block[OF assms(1), of _ "xs @ [(b, [])]" b] append_block_layouts[of b fl]
  by (auto simp: keys_def)

lemma fl_rep_prepend_block:
  assumes "fl_rep fl xs" "b \<notin> keys xs"
  shows "\<exists>fl'. prepend_block b fl = Some fl' \<and> fl_rep fl' ((b, []) # xs)"
  using block_list.prepend[OF fl_repD(1)[OF assms(1)], of b] assms(2)
    fl_rep_add_block[OF assms(1), of _ "(b, []) # xs" b] prepend_block_layouts[of b fl]
  by (auto simp: keys_def)

lemma fl_rep_insert_block_after:
  assumes "fl_rep fl xs" "b \<notin> keys xs" "a \<in> keys xs"
  shows "\<exists>fl'. insert_block_after b a fl = Some fl' \<and> fl_rep fl' (ins_after (\<lambda>p. fst p = a) (b, []) xs)"
proof -
  have ex: "\<exists>p \<in> set xs. fst p = a" using assms(3) by (auto simp: keys_def)
  have "map fst (ins_after (\<lambda>p. fst p = a) (b, []) xs) = ins_after (\<lambda>k. k = a) b (map fst xs)"
    using map_ins(1)[of fst "\<lambda>k. k = a" "(b, [])" xs] by simp
  then show ?thesis
    using block_list.insert_after_key[OF fl_repD(1)[OF assms(1)], of a b] assms(2,3)
      fl_rep_add_block[OF assms(1), of _ "ins_after (\<lambda>p. fst p = a) (b, []) xs" b]
      insert_block_after_layouts[of b a fl] set_ins(1)[OF ex, of "(b, [])"]
    by (fastforce simp: keys_def)
qed

lemma fl_rep_insert_block_before:
  assumes "fl_rep fl xs" "b \<notin> keys xs" "a \<in> keys xs"
  shows "\<exists>fl'. insert_block_before b a fl = Some fl' \<and> fl_rep fl' (ins_before (\<lambda>p. fst p = a) (b, []) xs)"
proof -
  have ex: "\<exists>p \<in> set xs. fst p = a" using assms(3) by (auto simp: keys_def)
  have "map fst (ins_before (\<lambda>p. fst p = a) (b, []) xs) = ins_before (\<lambda>k. k = a) b (map fst xs)"
    using map_ins(2)[of fst "\<lambda>k. k = a" "(b, [])" xs] by simp
  then show ?thesis
    using block_list.insert_before_key[OF fl_repD(1)[OF assms(1)], of a b] assms(2,3)
      fl_rep_add_block[OF assms(1), of _ "ins_before (\<lambda>p. fst p = a) (b, []) xs" b]
      insert_block_before_layouts[of b a fl] set_ins(2)[OF ex, of "(b, [])"]
    by (fastforce simp: keys_def)
qed

lemma key_unique:
  "distinct (map fst xs) \<Longrightarrow> p \<in> set xs \<Longrightarrow> q \<in> set xs \<Longrightarrow> fst p = fst q \<Longrightarrow> p = q"
  by (metis distinct_map inj_on_eq_iff)

lemma fl_rep_remove_block:
  assumes rep: "fl_rep fl xs" and b: "(b, []) \<in> set xs"
  shows "\<exists>fl'. remove_block b fl = Some fl' \<and> fl_rep fl' (filter (\<lambda>p. fst p \<noteq> b) xs)"
proof -
  have "b \<in> set (map fst xs)" using b by force
  then obtain fl' where fl': "remove_block b fl = Some fl'" "bl_rep fl' (filter (\<lambda>k. k \<noteq> b) (map fst xs))"
    using block_list.remove_key[OF fl_repD(1)[OF rep]] by blast
  have "p = (b, [])" if "p \<in> set xs" "fst p = b" for p
    using key_unique[OF fl_repD(2)[OF rep] that(1) b] that(2) by simp
  then have "fl_rep fl' (filter (\<lambda>p. fst p \<noteq> b) xs)"
    using fl'(2) remove_block_layouts[OF fl'(1)] rep
    unfolding fl_rep_def by (auto simp: filter_map comp_def) fastforce+
  then show ?thesis using fl'(1) by blast
qed

lemma fl_rep_swap_blocks:
  assumes rep: "fl_rep fl xs" and ab: "a \<noteq> b" "a \<in> keys xs" "b \<in> keys xs"
  shows "\<exists>fl'. swap_blocks a b fl = Some fl' \<and>
    fl_rep fl' (map (\<lambda>p. let k = swap_key a b (fst p) in (k, the (map_of xs k))) xs)"
proof -
  let ?g = "\<lambda>p. let k = swap_key a b (fst p) in (k, the (map_of xs k))"
  have bl: "dll (il_links (erase_nodes (bbs fl))) (first_bb fl) (last_bb fl) (map fst xs)"
    using fl_repD(1)[OF rep] by (simp add: bl_rep_def il_rep_def)
  have "dom (bbs fl) = keys xs" using bl_rep_dom[OF fl_repD(1)[OF rep]] by (simp add: keys_def)
  then obtain n0 n1 where "bbs fl a = Some n0" "bbs fl b = Some n1" using ab by blast
  from swap_blocks_links[OF dll_linked[OF bl] ab(1) this]
  obtain fl' where fl': "swap_blocks a b fl = Some fl'"
    "il_links (erase_nodes (bbs fl')) = relabel (swap_key a b) (il_links (erase_nodes (bbs fl)))"
    "block_layouts (bbs fl') = block_layouts (bbs fl)" "inst_map fl' = inst_map fl"
    "first_bb fl' = map_option (swap_key a b) (first_bb fl)"
    "last_bb fl' = map_option (swap_key a b) (last_bb fl)"
    by blast
  have "map (swap_key a b) (map fst xs) = map fst (map ?g xs)" by (simp add: Let_def comp_def)
  then have bl': "bl_rep fl' (map fst (map ?g xs))"
    using dll_relabel[OF bl, of a b] by (simp only: bl_rep_def il_rep_def erase_simps fl'(2,5,6))
  have lookup: "the (map_of xs (fst p)) = snd p" if "p \<in> set xs" for p
    using map_of_is_SomeI[OF fl_repD(2)[OF rep], of "fst p" "snd p"] that by simp
  have onto: "\<exists>q \<in> set xs. ?g q = p" if "p \<in> set xs" for p
  proof -
    have "swap_key a b (fst p) \<in> keys xs" using that ab by (auto simp: swap_key_def keys_def)
    then obtain q where "q \<in> set xs" "fst q = swap_key a b (fst p)" by (auto simp: keys_def)
    then show ?thesis using lookup[OF that] by (intro bexI[of _ q]) (auto simp: Let_def)
  qed
  have "?g p \<in> set xs" if "p \<in> set xs" for p
  proof -
    have "swap_key a b (fst p) \<in> keys xs" using that ab by (auto simp: swap_key_def keys_def)
    then obtain q where q: "q \<in> set xs" "fst q = swap_key a b (fst p)" by (auto simp: keys_def)
    have "the (map_of xs (swap_key a b (fst p))) = snd q"
      using lookup[OF q(1)] unfolding q(2) .
    then have "?g p = q" unfolding Let_def by (simp only: q(2)[symmetric] prod.collapse)
    then show ?thesis using q(1) by simp
  qed
  then have "?g ` set xs \<subseteq> set xs" by (rule image_subsetI)
  moreover have "set xs \<subseteq> ?g ` set xs"
  proof
    fix p
    assume "p \<in> set xs"
    then obtain q where "q \<in> set xs" "?g q = p" using onto by blast
    then show "p \<in> ?g ` set xs" by (rule rev_image_eqI[OF _ sym])
  qed
  ultimately have "set (map ?g xs) = set xs" unfolding set_map by (rule equalityI)
  then have "fl_rep fl' (map ?g xs)"
    using rep bl' fl'(3,4) unfolding fl_rep_def by presburger
  then show ?thesis using fl'(1) by blast
qed

section \<open>Instructions\<close>

lemma option_bind_unit: "Option.bind (Some x) f = f x"
  by simp

text \<open>An operation on the instructions of one block.\<close>

lemma in_block_Some:
  assumes "in_block b f fl = Some fl'"
  shows "bl_rep fl' bs \<longleftrightarrow> bl_rep fl bs" "inst_map fl' = inst_map fl"
proof -
  obtain n il where n: "bbs fl b = Some n" "fl' = fl\<lparr>bbs := (bbs fl)(b \<mapsto> n\<lparr>blayout := il\<rparr>)\<rparr>"
    using assms by (auto simp: in_block_def panic_simps st_index_def)
  have "erase_nodes (bbs fl') = erase_nodes (bbs fl)"
    using n by (auto simp: fun_eq_iff erase_node_def)
  then have "erase fl' = erase fl" using n by (simp add: erase_def)
  then show "bl_rep fl' bs \<longleftrightarrow> bl_rep fl bs" by (simp add: bl_rep_def)
  show "inst_map fl' = inst_map fl" using n by simp
qed

lemma in_block_layouts:
  "in_block b f fl = Option.bind (block_layouts (bbs fl) b) (\<lambda>il. Option.bind (f il) (\<lambda>il'.
     Some (fl\<lparr>bbs := (bbs fl)(b \<mapsto> (the (bbs fl b))\<lparr>blayout := il'\<rparr>)\<rparr>)))"
  by (cases "bbs fl b") (simp_all add: in_block_def block_layouts_def st_index_def)

lemma in_block_rep:
  assumes rep: "fl_rep fl xs" and p: "p \<in> set xs"
    and f: "\<forall>il. il_rep il (snd p) \<longrightarrow> (\<exists>il'. f il = Some il' \<and> il_rep il' is')"
  shows "\<exists>fl'. in_block (fst p) f fl = Some fl' \<and> bl_rep fl' (map fst xs) \<and> inst_map fl' = inst_map fl
    \<and> (\<forall>q \<in> set (at_block (fst p) (\<lambda>_. is') xs).
          \<exists>il. block_layouts (bbs fl') (fst q) = Some il \<and> il_rep il (snd q))"
proof -
  obtain il where il: "block_layouts (bbs fl) (fst p) = Some il" "il_rep il (snd p)"
    using fl_repD(3)[OF rep p] by blast
  obtain il' where il': "f il = Some il'" "il_rep il' is'" using f il(2) by blast
  let ?fl' = "fl\<lparr>bbs := (bbs fl)(fst p \<mapsto> (the (bbs fl (fst p)))\<lparr>blayout := il'\<rparr>)\<rparr>"
  have r: "in_block (fst p) f fl = Some ?fl'"
    using il il' by (simp add: in_block_layouts)
  have "\<exists>il. block_layouts (bbs ?fl') (fst q) = Some il \<and> il_rep il (snd q)"
    if "q \<in> set (at_block (fst p) (\<lambda>_. is') xs)" for q
    using that il'(2) fl_repD(3)[OF rep] by (auto simp: at_block_def)
  then show ?thesis
    using r in_block_Some[OF r] fl_repD(1)[OF rep] by blast
qed

lemma at_block_simps:
  "map fst (at_block b f xs) = map fst xs" "map fst (everywhere f xs) = map fst xs"
  "keys (at_block b f xs) = keys xs" "keys (everywhere f xs) = keys xs"
  by (auto simp: at_block_def everywhere_def keys_def comp_def image_comp)

text \<open>
  One step of an instruction operation: the layout of the block changes from \<open>snd p\<close> to
  \<open>is'\<close>, the map from instructions to blocks follows.
\<close>

lemma fl_rep_change:
  assumes rep: "fl_rep fl xs" and p: "p \<in> set xs"
    and bl: "bl_rep fl' (map fst xs)"
    and lay: "\<forall>q \<in> set (at_block (fst p) (\<lambda>_. is') xs).
          \<exists>il. block_layouts (bbs fl') (fst q) = Some il \<and> il_rep il (snd q)"
    and im: "\<And>i b. inst_map fl' i = Some b \<longleftrightarrow>
          (if b = fst p then i \<in> set is' else inst_map fl i = Some b)"
  shows "fl_rep fl' (at_block (fst p) (\<lambda>_. is') xs)"
proof -
  have "(\<exists>q \<in> set (at_block (fst p) (\<lambda>_. is') xs). fst q = b \<and> i \<in> set (snd q)) \<longleftrightarrow>
      (if b = fst p then i \<in> set is' else inst_map fl i = Some b)" for i b
    using p by (auto simp: at_block_def fl_repD(4)[OF rep])
  then show ?thesis
    unfolding fl_rep_def at_block_simps using bl lay im by blast
qed

lemma at_block_const:
  assumes "distinct (map fst xs)" "p \<in> set xs"
  shows "at_block (fst p) f xs = at_block (fst p) (\<lambda>_. f (snd p)) xs"
proof -
  have "snd q = snd p" if "q \<in> set xs" "fst q = fst p" for q
    using key_unique[OF assms(1) that(1) assms(2) that(2)] by simp
  then show ?thesis unfolding at_block_def by (intro map_cong refl) simp
qed

lemma everywhere_at_block:
  assumes "distinct (map fst xs)" "p \<in> set xs"
    and other: "\<And>q. q \<in> set xs \<Longrightarrow> q \<noteq> p \<Longrightarrow> f (snd q) = snd q"
  shows "everywhere f xs = at_block (fst p) (\<lambda>_. f (snd p)) xs"
proof -
  have "f (snd q) = (if fst q = fst p then f (snd p) else snd q)" if "q \<in> set xs" for q
    using key_unique[OF assms(1) that assms(2)] other[OF that] by (cases "q = p") auto
  then show ?thesis unfolding everywhere_def at_block_def by (intro map_cong refl) simp
qed

text \<open>An instruction is in one block only.\<close>

lemma fl_rep_one_block:
  assumes "fl_rep fl xs" "p \<in> set xs" "i \<in> set (snd p)" "q \<in> set xs" "q \<noteq> p"
  shows "i \<notin> set (snd q)"
proof
  assume "i \<in> set (snd q)"
  then have "inst_map fl i = Some (fst p)" "inst_map fl i = Some (fst q)"
    using assms fl_repD(4)[OF assms(1)] by blast+
  then show False using key_unique[OF fl_repD(2)[OF assms(1)] assms(2,4)] assms(5) by simp
qed

text \<open>Adding an instruction to a block, in whichever way the block does it.\<close>

lemma fl_rep_add_inst:
  assumes rep: "fl_rep fl xs" and p: "p \<in> set xs" and i: "i \<notin> members xs"
    and f: "\<forall>il. il_rep il (snd p) \<longrightarrow> (\<exists>il'. f il = Some il' \<and> il_rep il' is')"
    and is': "set is' = insert i (set (snd p))"
  shows "\<exists>fl'. Option.bind (in_block (fst p) f fl) (map_inst i (fst p)) = Some fl'
      \<and> fl_rep fl' (at_block (fst p) (\<lambda>_. is') xs)"
proof -
  obtain fl1 where fl1: "in_block (fst p) f fl = Some fl1" "bl_rep fl1 (map fst xs)"
    "inst_map fl1 = inst_map fl"
    "\<forall>q \<in> set (at_block (fst p) (\<lambda>_. is') xs).
       \<exists>il. block_layouts (bbs fl1) (fst q) = Some il \<and> il_rep il (snd q)"
    using in_block_rep[OF rep p f] by blast
  have fresh: "inst_map fl i = None" using fl_rep_unmapped[OF rep] i by simp
  let ?fl' = "fl1\<lparr>inst_map := (inst_map fl1)(i \<mapsto> fst p)\<rparr>"
  have "fl_rep ?fl' (at_block (fst p) (\<lambda>_. is') xs)"
  proof (rule fl_rep_change[OF rep p])
    show "bl_rep ?fl' (map fst xs)" using fl1(2) by (simp add: bl_rep_def erase_def)
    have "inst_map fl j = Some (fst p) \<longleftrightarrow> j \<in> set (snd p)" for j
      using fl_repD(4)[OF rep, of j "fst p"] key_unique[OF fl_repD(2)[OF rep] _ p] p by metis
    then show "inst_map ?fl' j = Some b \<longleftrightarrow> (if b = fst p then j \<in> set is' else inst_map fl j = Some b)" for j b
      using fl1(3) is' fresh by auto
  qed (use fl1(4) in simp)
  then show ?thesis using fl1(1,3) fresh by (simp add: map_inst_def)
qed

lemma fl_rep_drop_inst:
  assumes rep: "fl_rep fl xs" and p: "p \<in> set xs" and i: "i \<in> set (snd p)"
    and f: "\<forall>il. il_rep il (snd p) \<longrightarrow> (\<exists>il'. f il = Some il' \<and> il_rep il' is')"
    and is': "set is' = set (snd p) - {i}"
  shows "\<exists>fl'. Option.bind (in_block (fst p) f fl) (unmap_inst i) = Some fl'
      \<and> fl_rep fl' (at_block (fst p) (\<lambda>_. is') xs)"
proof -
  obtain fl1 where fl1: "in_block (fst p) f fl = Some fl1" "bl_rep fl1 (map fst xs)"
    "inst_map fl1 = inst_map fl"
    "\<forall>q \<in> set (at_block (fst p) (\<lambda>_. is') xs).
       \<exists>il. block_layouts (bbs fl1) (fst q) = Some il \<and> il_rep il (snd q)"
    using in_block_rep[OF rep p f] by blast
  have here: "inst_map fl j = Some (fst p) \<longleftrightarrow> j \<in> set (snd p)" for j
    using fl_repD(4)[OF rep, of j "fst p"] key_unique[OF fl_repD(2)[OF rep] _ p] p by metis
  let ?fl' = "fl1\<lparr>inst_map := (inst_map fl1)(i := None)\<rparr>"
  have "fl_rep ?fl' (at_block (fst p) (\<lambda>_. is') xs)"
  proof (rule fl_rep_change[OF rep p])
    show "bl_rep ?fl' (map fst xs)" using fl1(2) by (simp add: bl_rep_def erase_def)
    show "inst_map ?fl' j = Some b \<longleftrightarrow> (if b = fst p then j \<in> set is' else inst_map fl j = Some b)" for j b
      using fl1(3) is' here[of j] here[of i] i by auto
  qed (use fl1(4) in simp)
  then show ?thesis using fl1(1,3) here[of i] i by (simp add: unmap_inst_def)
qed

lemma members_not:
  "i \<notin> members xs \<Longrightarrow> p \<in> set xs \<Longrightarrow> i \<notin> set (snd p)"
  by (auto simp: members_def)

lemma fl_rep_append_inst:
  assumes rep: "fl_rep fl xs" and i: "i \<notin> members xs" and b: "b \<in> keys xs"
  shows "\<exists>fl'. append_inst i b fl = Some fl' \<and> fl_rep fl' (at_block b (\<lambda>is. is @ [i]) xs)"
    and "\<exists>fl'. prepend_inst i b fl = Some fl' \<and> fl_rep fl' (at_block b (\<lambda>is. i # is) xs)"
proof -
  obtain p where p: "p \<in> set xs" "b = fst p" using b by (auto simp: keys_def)
  note const = at_block_const[OF fl_repD(2)[OF rep] p(1)]
  note fresh = members_not[OF i p(1)]
  show "\<exists>fl'. append_inst i b fl = Some fl' \<and> fl_rep fl' (at_block b (\<lambda>is. is @ [i]) xs)"
    unfolding append_inst_def p(2) const[of "\<lambda>is. is @ [i]"]
    by (rule fl_rep_add_inst[OF rep p(1) i]) (use inst_list.append fresh in auto)
  show "\<exists>fl'. prepend_inst i b fl = Some fl' \<and> fl_rep fl' (at_block b (\<lambda>is. i # is) xs)"
    unfolding prepend_inst_def p(2) const[of "\<lambda>is. i # is"]
    by (rule fl_rep_add_inst[OF rep p(1) i]) (use inst_list.prepend fresh in auto)
qed

lemma fl_rep_insert_inst:
  assumes rep: "fl_rep fl xs" and i: "i \<notin> members xs" and a: "a \<in> members xs"
  shows "\<exists>fl'. insert_inst_after i a fl = Some fl' \<and> fl_rep fl' (everywhere (ins_after (\<lambda>x. x = a) i) xs)"
    and "\<exists>fl'. insert_inst_before i a fl = Some fl' \<and> fl_rep fl' (everywhere (ins_before (\<lambda>x. x = a) i) xs)"
proof -
  obtain p where p: "p \<in> set xs" "a \<in> set (snd p)" using a by (auto simp: members_def)
  then have bb: "inst_block fl a = Some (fst p)"
    using fl_repD(4)[OF rep] by (auto simp: inst_block_def)
  note one = fl_rep_one_block[OF rep p]
  note fresh = members_not[OF i p(1)]
  have all: "everywhere (ins_after (\<lambda>x. x = a) i) xs = at_block (fst p) (\<lambda>_. ins_after (\<lambda>x. x = a) i (snd p)) xs"
    "everywhere (ins_before (\<lambda>x. x = a) i) xs = at_block (fst p) (\<lambda>_. ins_before (\<lambda>x. x = a) i (snd p)) xs"
    by (rule everywhere_at_block[OF fl_repD(2)[OF rep] p(1)], intro ins_none ballI, use one in blast)+
  show "\<exists>fl'. insert_inst_after i a fl = Some fl' \<and> fl_rep fl' (everywhere (ins_after (\<lambda>x. x = a) i) xs)"
    unfolding insert_inst_after_def bb option_bind_unit all
    by (rule fl_rep_add_inst[OF rep p(1) i])
      (use inst_list.insert_after_key p fresh set_ins(1)[of "snd p" "\<lambda>x. x = a"] in auto)
  show "\<exists>fl'. insert_inst_before i a fl = Some fl' \<and> fl_rep fl' (everywhere (ins_before (\<lambda>x. x = a) i) xs)"
    unfolding insert_inst_before_def bb option_bind_unit all
    by (rule fl_rep_add_inst[OF rep p(1) i])
      (use inst_list.insert_before_key p fresh set_ins(2)[of "snd p" "\<lambda>x. x = a"] in auto)
qed

lemma fl_rep_remove_inst:
  assumes rep: "fl_rep fl xs" and i: "i \<in> members xs"
  shows "\<exists>fl'. remove_inst i fl = Some fl' \<and> fl_rep fl' (everywhere (filter (\<lambda>x. x \<noteq> i)) xs)"
proof -
  obtain p where p: "p \<in> set xs" "i \<in> set (snd p)" using i by (auto simp: members_def)
  then have bb: "inst_block fl i = Some (fst p)"
    using fl_repD(4)[OF rep] by (auto simp: inst_block_def)
  note one = fl_rep_one_block[OF rep p]
  have all: "everywhere (filter (\<lambda>x. x \<noteq> i)) xs = at_block (fst p) (\<lambda>_. filter (\<lambda>x. x \<noteq> i) (snd p)) xs"
    using one by (intro everywhere_at_block[OF fl_repD(2)[OF rep] p(1)] filter_True) blast
  show ?thesis
    unfolding remove_inst_def bb option_bind_unit all
    by (rule fl_rep_drop_inst[OF rep p]) (use inst_list.remove_key p in auto)
qed

section \<open>The simulation\<close>

lemma swap_same: "swap_blocks a a fl = Some fl"
  by (simp add: swap_blocks_def)

lemma run_op_simulates:
  assumes rep: "fl_rep fl xs" and "abs_op op xs = Some ys"
  shows "\<exists>fl'. run_op op fl = Some fl' \<and> fl_rep fl' ys"
proof (cases op)
  case (SwapBlocks a b)
  then show ?thesis
    using assms fl_rep_swap_blocks[OF rep, of a b]
    by (cases "a = b") (auto simp: run_op_def abs_op_def swap_same)
qed (use assms fl_rep_append_block[OF rep] fl_rep_prepend_block[OF rep]
      fl_rep_insert_block_after[OF rep] fl_rep_insert_block_before[OF rep]
      fl_rep_remove_block[OF rep] fl_rep_append_inst[OF rep] fl_rep_insert_inst[OF rep]
      fl_rep_remove_inst[OF rep] in \<open>simp_all add: run_op_def abs_op_def, auto\<close>)

lemma fl_rep_insts:
  assumes "fl_rep fl xs" "p \<in> set xs"
  shows "block_insts fl (fst p) = Some (snd p)"
  using fl_repD(3)[OF assms]
  by (auto simp: block_insts_def block_layouts_def st_index_def intro: inst_list.iter)

lemma fl_rep_all_insts:
  assumes rep: "fl_rep fl xs"
  shows "blocks fl = Some (map fst xs)" "all_insts fl = Some (concat (map snd xs))"
proof -
  show b: "blocks fl = Some (map fst xs)" by (rule block_list.iter[OF fl_repD(1)[OF rep]])
  have "mapM (block_insts fl) (map fst xs) = Some (map snd xs)"
    unfolding mapM_Some_iff list_all2_map1 list_all2_map2 using fl_rep_insts[OF rep]
    by (auto simp: list_all2_same)
  then show "all_insts fl = Some (concat (map snd xs))" using b by (simp add: all_insts_def)
qed

text \<open>
  C1: the layout operations of a unit implement a list of blocks with a list of
  instructions each. For every sequence of operations that the list specification accepts,
  the linked lists and the map from instructions to blocks return without a panic, represent
  the resulting list, and the iterators \<^verbatim>\<open>blocks()\<close> and \<^verbatim>\<open>all_insts()\<close> end and
  enumerate it in order.
\<close>

theorem layout_simulation:
  assumes "fl_rep fl xs" "foldM abs_op ops xs = Some ys"
  shows "\<exists>fl'. foldM run_op ops fl = Some fl' \<and> fl_rep fl' ys \<and>
    blocks fl' = Some (map fst ys) \<and> all_insts fl' = Some (concat (map snd ys))"
  using assms
proof (induction ops arbitrary: fl xs)
  case Nil
  then show ?case using fl_rep_all_insts by auto
next
  case (Cons op ops)
  then obtain xs' where "abs_op op xs = Some xs'" "foldM abs_op ops xs' = Some ys"
    by (auto split: option.splits)
  moreover from this run_op_simulates[OF Cons.prems(1)] obtain fl'
    where "run_op op fl = Some fl'" "fl_rep fl' xs'" by blast
  ultimately show ?case using Cons.IH by simp
qed

lemma layout_simulation_witness:
  "\<exists>fl. foldM run_op [AppendBlock 0, AppendBlock 1, PrependBlock 2, AppendInst 5 0, AppendInst 6 0,
        InsertInstBefore 7 6, SwapBlocks 2 1, RemoveInst 5, PrependInst 5 1, RemoveBlock 2] fl_new = Some fl
      \<and> blocks fl = Some [1, 0] \<and> all_insts fl = Some [5, 7, 6]"
proof -
  have "foldM abs_op [AppendBlock 0, AppendBlock 1, PrependBlock 2, AppendInst 5 0, AppendInst 6 0,
      InsertInstBefore 7 6, SwapBlocks 2 1, RemoveInst 5, PrependInst 5 1, RemoveBlock 2] []
      = Some [(1, [5]), (0, [7, 6])]"
    by (simp add: abs_op_def guarded_def keys_def members_def at_block_def everywhere_def swap_key_def)
  from layout_simulation[OF fl_rep_new this] show ?thesis by auto
qed

lemma fl_rep_missing:
  assumes "fl_rep fl xs" "b \<notin> keys xs"
  shows "bbs fl b = None"
proof -
  have "b \<notin> dom (bbs fl)" using bl_rep_dom[OF fl_repD(1)[OF assms(1)]] assms(2) by (simp add: keys_def)
  then show ?thesis by (simp add: domIff)
qed

lemma in_block_missing: "fl_rep fl xs \<Longrightarrow> b \<notin> keys xs \<Longrightarrow> in_block b f fl = None"
  by (simp add: in_block_def st_index_def fl_rep_missing)

lemma map_inst_twice:
  "inst_map fl i \<noteq> None \<Longrightarrow> Option.bind (in_block b f fl) (map_inst i b) = None"
  using in_block_Some(2)[of b f fl] by (cases "in_block b f fl") (auto simp: map_inst_def)

text \<open>
  An operation the list specification refuses panics in the code: inserting a
  block or an instruction twice, inserting next to one that is not inserted, into a block
  that is not inserted, or removing or swapping what is not inserted, is never silently
  accepted.
\<close>

theorem layout_panics:
  assumes rep: "fl_rep fl xs" and "abs_op op xs = None"
    and "\<And>b. op = RemoveBlock b \<Longrightarrow> b \<notin> keys xs"
  shows "run_op op fl = None"
proof -
  note bl = fl_repD(1)[OF rep]
  have k: "b \<in> keys xs \<longleftrightarrow> b \<in> set (map fst xs)" for b by (auto simp: keys_def)
  note un = fl_rep_unmapped[OF rep]
  note miss = fl_rep_missing[OF rep]
  show ?thesis
  proof (cases op)
    case (SwapBlocks a b)
    then show ?thesis using assms(2) miss
      by (cases "bbs fl a") (auto simp: run_op_def abs_op_def swap_blocks_def st_index_def split: if_splits)
  next
    case (InsertInstAfter i a)
    then show ?thesis using assms(2) un[of i] un[of a] map_inst_twice[of fl i]
      by (cases "inst_map fl a") (auto simp: run_op_def abs_op_def insert_inst_after_def inst_block_def)
  next
    case (InsertInstBefore i a)
    then show ?thesis using assms(2) un[of i] un[of a] map_inst_twice[of fl i]
      by (cases "inst_map fl a") (auto simp: run_op_def abs_op_def insert_inst_before_def inst_block_def)
  next
    case (AppendInst i b)
    then show ?thesis using assms(2) un[of i] map_inst_twice[of fl i] in_block_missing[OF rep]
      by (auto simp: run_op_def abs_op_def append_inst_def)
  next
    case (PrependInst i b)
    then show ?thesis using assms(2) un[of i] map_inst_twice[of fl i] in_block_missing[OF rep]
      by (auto simp: run_op_def abs_op_def prepend_inst_def)
  qed (use assms(2,3) un[THEN iffD2] block_list.duplicate[OF bl] block_list.bad_anchor[OF bl] block_list.missing[OF bl]
      in \<open>auto simp: run_op_def abs_op_def remove_inst_def inst_block_def k simp del: set_map\<close>)
qed

lemma layout_panics_witness:
  "\<exists>fl. foldM run_op [AppendBlock 0, AppendBlock 1, AppendInst 5 0] fl_new = Some fl \<and>
     run_op (AppendInst 5 1) fl = None"
proof -
  have ys: "foldM abs_op [AppendBlock 0, AppendBlock 1, AppendInst 5 0] [] = Some [(0, [5]), (1, [])]"
    by (simp add: abs_op_def guarded_def keys_def members_def at_block_def)
  have "\<exists>fl. foldM run_op [AppendBlock 0, AppendBlock 1, AppendInst 5 0] fl_new = Some fl \<and>
      fl_rep fl [(0, [5]), (1, [])]"
    using run_op_simulates[OF fl_rep_new, of "AppendBlock 0"] run_op_simulates[of _ "[(0, [])]" "AppendBlock 1"]
      run_op_simulates[of _ "[(0, []), (1, [])]" "AppendInst 5 0"]
    by (fastforce simp: abs_op_def guarded_def keys_def members_def at_block_def)
  then obtain fl where fl: "foldM run_op [AppendBlock 0, AppendBlock 1, AppendInst 5 0] fl_new = Some fl"
    "fl_rep fl [(0, [5]), (1, [])]" by blast
  have "run_op (AppendInst 5 1) fl = None"
    by (rule layout_panics[OF fl(2)]) (simp_all add: abs_op_def guarded_def keys_def members_def)
  then show ?thesis using fl(1) by blast
qed

section \<open>Reading the layout\<close>

text \<open>
  For an instruction in the middle of a block the queries agree with the represented
  list: the block it is in, its predecessor and successor within that block (none at the
  ends), and the first and the last instruction of the block, the latter its terminator.
\<close>

theorem layout_navigation:
  assumes rep: "fl_rep fl xs" and p: "(b, as @ i # cs) \<in> set xs"
  shows "inst_block fl i = Some b \<and> prev_inst fl i = Some (last_opt as) \<and>
    next_inst fl i = Some (hd_opt cs) \<and> block_first_inst fl b = Some (hd_opt (as @ [i])) \<and>
    block_terminator fl b = last_opt (i # cs)"
proof -
  obtain il where il: "block_layouts (bbs fl) b = Some il" "il_rep il (as @ i # cs)"
    using fl_repD(3)[OF rep p] by auto
  obtain n where n: "bbs fl b = Some n" "blayout n = il"
    using il(1) by (auto simp: block_layouts_def)
  obtain k where k: "insts il i = Some k" "prev k = last_opt as" "nxt k = hd_opt cs"
    using il_node[OF il(2)] by blast
  have ends: "first_inst il = hd_opt (as @ i # cs)" "last_inst il = last_opt (as @ i # cs)"
    using il(2) by (auto simp: il_rep_def dll_def)
  have ib: "inst_block fl i = Some b"
    using fl_repD(4)[OF rep, of i b] p by (force simp: inst_block_def)
  show ?thesis
    using ib n k ends
    by (simp add: prev_inst_def next_inst_def block_first_inst_def block_last_inst_def
        block_terminator_def il_prev_inst_def il_next_inst_def st_index_def)
qed

lemma layout_navigation_witness:
  "\<exists>fl. foldM run_op [AppendBlock 0, AppendInst 5 0, AppendInst 6 0] fl_new = Some fl \<and>
     next_inst fl 5 = Some (Some 6) \<and> prev_inst fl 5 = Some None \<and> block_terminator fl 0 = Some 6"
proof -
  have "\<exists>fl. foldM run_op [AppendBlock 0, AppendInst 5 0, AppendInst 6 0] fl_new = Some fl \<and>
      fl_rep fl [(0, [5, 6])]"
    using run_op_simulates[OF fl_rep_new, of "AppendBlock 0"] run_op_simulates[of _ "[(0, [])]" "AppendInst 5 0"]
      run_op_simulates[of _ "[(0, [5])]" "AppendInst 6 0"]
    by (fastforce simp: abs_op_def guarded_def keys_def members_def at_block_def)
  then obtain fl where fl: "foldM run_op [AppendBlock 0, AppendInst 5 0, AppendInst 6 0] fl_new = Some fl"
    "fl_rep fl [(0, [5, 6])]" by blast
  show ?thesis using fl(1) layout_navigation[OF fl(2), of 0 "[]" 5 "[6]"] by auto
qed

end
