(* ===== verification/Values.thy ===== *)
theory Values
  imports IntValues
begin

text \<open>
  Time, array and struct values, and the value type (\<^verbatim>\<open>src/src/value/time.rs\<close>,
  \<^verbatim>\<open>array.rs\<close>, \<^verbatim>\<open>struct.rs\<close>, \<^verbatim>\<open>mod.rs\<close>). A \<^verbatim>\<open>BigRational\<close> is a \<open>rat\<close>; the derived
  order of \<^verbatim>\<open>TimeValue\<close>, lexicographic in the order of the fields, is the \<open>linorder\<close>
  instance of \<open>time_value\<close>. The mutating \<^verbatim>\<open>insert_*\<close> methods return the new value.
\<close>

section \<open>Time\<close>

datatype time_value = TimeValue (time: rat) (delta: nat) (epsilon: nat)

instantiation time_value :: linorder
begin

definition less_eq_time_value :: "time_value \<Rightarrow> time_value \<Rightarrow> bool" where
  "less_eq_time_value s t \<longleftrightarrow>
     time s < time t \<or> time s = time t \<and>
       (delta s < delta t \<or> delta s = delta t \<and> epsilon s \<le> epsilon t)"

definition less_time_value :: "time_value \<Rightarrow> time_value \<Rightarrow> bool" where
  "less_time_value s t \<longleftrightarrow>
     time s < time t \<or> time s = time t \<and>
       (delta s < delta t \<or> delta s = delta t \<and> epsilon s < epsilon t)"

instance
  by standard
    (auto simp: less_eq_time_value_def less_time_value_def intro: time_value.expand)

end

definition time_zero :: time_value where
  "time_zero = TimeValue 0 0 0"

definition time_is_zero :: "time_value \<Rightarrow> bool" where
  "time_is_zero t \<longleftrightarrow> time t = 0 \<and> delta t = 0 \<and> epsilon t = 0"

lemma time_is_zero_iff: "time_is_zero t \<longleftrightarrow> t = time_zero"
  by (cases t) (simp add: time_is_zero_def time_zero_def)

lemmas time_less_defs = less_eq_time_value_def less_time_value_def

section \<open>Values\<close>

datatype val =
    VoidVal
  | TimeVal time_value
  | IntVal int_value
  | ArrayVal "val list"
  | StructVal "val list"

text \<open>
  \<^verbatim>\<open>Value::zero\<close>: arrays repeat the zero of their element type, structs collect the
  zeros of their fields; there is no zero for an enum, a pointer, a signal, a function,
  an entity, nor for \<^verbatim>\<open>time\<close>.
\<close>

fun value_zero :: "ty \<Rightarrow> val option" where
  "value_zero VoidType = Some VoidVal"
| "value_zero (IntType w) = Some (IntVal (iv_zero w))"
| "value_zero (ArrayType l t) =
     (case value_zero t of None \<Rightarrow> None | Some v \<Rightarrow> Some (ArrayVal (replicate l v)))"
| "value_zero (StructType ts) =
     (case mapM value_zero ts of None \<Rightarrow> None | Some vs \<Rightarrow> Some (StructVal vs))"
| "value_zero _ = None"

text \<open>
  \<^verbatim>\<open>Value::ty\<close>: the type of an array is read off its first element, and an empty array
  has no type (\<^verbatim>\<open>expect\<close> panics).
\<close>

fun value_ty :: "val \<Rightarrow> ty option" where
  "value_ty VoidVal = Some VoidType"
| "value_ty (TimeVal _) = Some TimeType"
| "value_ty (IntVal v) = Some (iv_ty v)"
| "value_ty (ArrayVal vs) =
     (case vs of [] \<Rightarrow> None | v # _ \<Rightarrow> map_option (ArrayType (length vs)) (value_ty v))"
| "value_ty (StructVal vs) = map_option StructType (mapM value_ty vs)"

fun value_is_zero :: "val \<Rightarrow> bool" where
  "value_is_zero (IntVal v) = iv_is_zero v"
| "value_is_zero (TimeVal v) = time_is_zero v"
| "value_is_zero _ = False"

fun value_is_one :: "val \<Rightarrow> bool" where
  "value_is_one (IntVal v) = iv_is_one v"
| "value_is_one _ = False"

fun get_time :: "val \<Rightarrow> time_value option" where
  "get_time (TimeVal v) = Some v"
| "get_time _ = None"

fun get_int :: "val \<Rightarrow> int_value option" where
  "get_int (IntVal v) = Some v"
| "get_int _ = None"

fun get_array :: "val \<Rightarrow> val list option" where
  "get_array (ArrayVal v) = Some v"
| "get_array _ = None"

fun get_struct :: "val \<Rightarrow> val list option" where
  "get_struct (StructVal v) = Some v"
| "get_struct _ = None"

text \<open>\<^verbatim>\<open>unwrap_*\<close> is \<^verbatim>\<open>get_*\<close> with \<^verbatim>\<open>None\<close> a panic, so the same function models both.\<close>

definition array_new_uniform :: "nat \<Rightarrow> val \<Rightarrow> val list" where
  "array_new_uniform n v = replicate n v"

definition array_extract_field :: "val list \<Rightarrow> nat \<Rightarrow> val option" where
  "array_extract_field vs i = idx vs i"

definition array_extract_slice :: "val list \<Rightarrow> nat \<Rightarrow> nat \<Rightarrow> val list option" where
  "array_extract_slice vs off len = slice vs off len"

definition array_insert_field :: "val list \<Rightarrow> nat \<Rightarrow> val \<Rightarrow> val list option" where
  "array_insert_field vs i v = idx_set vs i v"

definition array_insert_slice :: "val list \<Rightarrow> nat \<Rightarrow> nat \<Rightarrow> val list \<Rightarrow> val list option" where
  "array_insert_slice vs off len ws = do { ensure (len = length ws); slice_set vs off len ws }"

definition struct_extract_field :: "val list \<Rightarrow> nat \<Rightarrow> val option" where
  "struct_extract_field vs i = idx vs i"

definition struct_insert_field :: "val list \<Rightarrow> nat \<Rightarrow> val \<Rightarrow> val list option" where
  "struct_insert_field vs i v = idx_set vs i v"

lemmas aggregate_defs [panic_simps] =
  array_extract_field_def array_extract_slice_def array_insert_field_def
  array_insert_slice_def struct_extract_field_def struct_insert_field_def

section \<open>Typing\<close>

text \<open>
  The typing that the IR promises: integers fit their width, array elements share the
  element type, struct fields match field by field. \<^verbatim>\<open>value_ty\<close> computes it whenever no
  empty array is involved.
\<close>

fun has_ty :: "val \<Rightarrow> ty \<Rightarrow> bool" where
  "has_ty VoidVal t \<longleftrightarrow> t = VoidType"
| "has_ty (TimeVal _) t \<longleftrightarrow> t = TimeType"
| "has_ty (IntVal v) t \<longleftrightarrow> t = IntType (width v) \<and> iv_wf v"
| "has_ty (ArrayVal vs) t \<longleftrightarrow>
     (case t of ArrayType n t' \<Rightarrow> n = length vs \<and> (\<forall>v\<in>set vs. has_ty v t') | _ \<Rightarrow> False)"
| "has_ty (StructVal vs) t \<longleftrightarrow>
     (case t of StructType ts \<Rightarrow> list_all2 has_ty vs ts | _ \<Rightarrow> False)"

fun no_empty_array :: "ty \<Rightarrow> bool" where
  "no_empty_array (ArrayType n t) \<longleftrightarrow> n \<noteq> 0 \<and> no_empty_array t"
| "no_empty_array (StructType ts) \<longleftrightarrow> (\<forall>t\<in>set ts. no_empty_array t)"
| "no_empty_array _ \<longleftrightarrow> True"

lemma has_ty_value_ty: "has_ty v t \<Longrightarrow> no_empty_array t \<Longrightarrow> value_ty v = Some t"
proof (induction v arbitrary: t)
  case (IntVal x)
  then show ?case by (simp add: iv_ty_def)
next
  case (ArrayVal vs)
  then show ?case by (cases t; cases vs) auto
next
  case (StructVal vs)
  then obtain ts where t: "t = StructType ts" and all: "list_all2 has_ty vs ts"
    by (auto split: ty.splits)
  have "list_all2 (\<lambda>v t. value_ty v = Some t) vs ts"
    using all StructVal.IH StructVal.prems(2) unfolding t list_all2_conv_all_nth by auto
  then show ?case using t mapM_Some_iff[of value_ty vs ts] by simp
qed auto

text \<open>Which types have a zero: built from \<^verbatim>\<open>void\<close> and integers by arrays and structs.\<close>

fun zeroable :: "ty \<Rightarrow> bool" where
  "zeroable VoidType = True"
| "zeroable (IntType _) = True"
| "zeroable (ArrayType _ t) = zeroable t"
| "zeroable (StructType ts) = (\<forall>t\<in>set ts. zeroable t)"
| "zeroable _ = False"

lemma value_zero_defined: "value_zero t = None \<longleftrightarrow> \<not> zeroable t"
proof (induction t)
  case (StructType ts)
  have "mapM value_zero ts = None \<longleftrightarrow> (\<exists>t\<in>set ts. value_zero t = None)"
    by (induction ts) (auto split: option.splits)
  then show ?case using StructType by (auto split: option.splits)
qed (auto split: option.splits)

lemma value_zero_has_ty: "value_zero t = Some v \<Longrightarrow> has_ty v t"
proof (induction t arbitrary: v)
  case (StructType ts)
  then obtain vs where v: "v = StructVal vs" and vs: "list_all2 (\<lambda>t v. value_zero t = Some v) ts vs"
    by (auto simp: mapM_Some_iff split: option.splits)
  have "list_all2 has_ty vs ts"
    using vs StructType.IH unfolding list_all2_conv_all_nth by auto
  then show ?case using v by simp
qed (auto simp: iv_zero_def iv_wf_def split: option.splits)

end
