(* ===== verification/Insts.thy ===== *)
theory Insts
  imports Opcodes Types Values Tables "HOL-Library.Multiset"
begin

text \<open>
  The instruction formats (\<^verbatim>\<open>InstData\<close> of \<^verbatim>\<open>src/src/ir/inst.rs\<close>) with their
  accessors and the rewriting of values and blocks, and the register triggers. A fixed
  array \<^verbatim>\<open>[Value; n]\<close> is \<open>n\<close> arguments of the constructor, a \<^verbatim>\<open>Vec\<close> is a list. Values,
  blocks, instructions and external units are the keys of their tables, natural numbers.
\<close>

datatype reg_mode = RegLow | RegHigh | RegRise | RegFall | RegBoth

record reg_trigger =
  rt_data :: nat
  rt_mode :: reg_mode
  rt_trigger :: nat
  rt_gate :: "nat option"

datatype inst_data =
    IConstInt opcode int_value
  | IConstTime opcode time_value
  | IArray opcode nat nat \<comment> \<open>imms[0], args[0]\<close>
  | IAggregate opcode "nat list"
  | INullary opcode
  | IUnary opcode nat
  | IBinary opcode nat nat
  | ITernary opcode nat nat nat
  | IQuaternary opcode nat nat nat nat
  | IJump opcode nat
  | IPhi opcode "nat list" "nat list" \<comment> \<open>args, bbs\<close>
  | IBranch opcode nat nat nat \<comment> \<open>args[0], bbs[0], bbs[1]\<close>
  | IWait opcode nat "nat list" \<comment> \<open>bbs[0], args\<close>
  | ICall opcode nat nat "nat list" \<comment> \<open>unit, ins, args\<close>
  | IInsExt opcode nat nat nat nat \<comment> \<open>args[0], args[1], imms[0], imms[1]\<close>
  | IReg opcode "nat list" "reg_mode list"

definition inst_default :: inst_data where
  "inst_default = INullary OpRet"

definition opcode_of :: "inst_data \<Rightarrow> opcode" where
  "opcode_of d = (case d of
     IConstInt op _ \<Rightarrow> op | IConstTime op _ \<Rightarrow> op | IArray op _ _ \<Rightarrow> op | IAggregate op _ \<Rightarrow> op
   | INullary op \<Rightarrow> op | IUnary op _ \<Rightarrow> op | IBinary op _ _ \<Rightarrow> op | ITernary op _ _ _ \<Rightarrow> op
   | IQuaternary op _ _ _ _ \<Rightarrow> op | IPhi op _ _ \<Rightarrow> op | IJump op _ \<Rightarrow> op | IBranch op _ _ _ \<Rightarrow> op
   | IWait op _ _ \<Rightarrow> op | ICall op _ _ _ \<Rightarrow> op | IInsExt op _ _ _ _ \<Rightarrow> op | IReg op _ _ \<Rightarrow> op)"

definition args :: "inst_data \<Rightarrow> nat list" where
  "args d = (case d of
     IConstInt _ _ \<Rightarrow> []
   | IConstTime _ _ \<Rightarrow> []
   | IArray _ _ a \<Rightarrow> [a]
   | IAggregate _ as \<Rightarrow> as
   | INullary _ \<Rightarrow> []
   | IUnary _ a \<Rightarrow> [a]
   | IBinary _ a b \<Rightarrow> [a, b]
   | ITernary _ a b c \<Rightarrow> [a, b, c]
   | IQuaternary _ a b c e \<Rightarrow> [a, b, c, e]
   | IPhi _ as _ \<Rightarrow> as
   | IJump _ _ \<Rightarrow> []
   | IBranch _ a _ _ \<Rightarrow> [a]
   | IWait _ _ as \<Rightarrow> as
   | ICall _ _ _ as \<Rightarrow> as
   | IInsExt op a b _ _ \<Rightarrow> if op = OpExtField \<or> op = OpExtSlice then [a] else [a, b]
   | IReg _ as _ \<Rightarrow> as)"

text \<open>Assigning every place that \<^verbatim>\<open>args_mut\<close> gives access to.\<close>

definition args_mut :: "(nat \<Rightarrow> nat) \<Rightarrow> inst_data \<Rightarrow> inst_data" where
  "args_mut f d = (case d of
     IConstInt op v \<Rightarrow> d
   | IConstTime op v \<Rightarrow> d
   | IArray op i a \<Rightarrow> IArray op i (f a)
   | IAggregate op as \<Rightarrow> IAggregate op (map f as)
   | INullary op \<Rightarrow> d
   | IUnary op a \<Rightarrow> IUnary op (f a)
   | IBinary op a b \<Rightarrow> IBinary op (f a) (f b)
   | ITernary op a b c \<Rightarrow> ITernary op (f a) (f b) (f c)
   | IQuaternary op a b c e \<Rightarrow> IQuaternary op (f a) (f b) (f c) (f e)
   | IPhi op as bs \<Rightarrow> IPhi op (map f as) bs
   | IJump op b \<Rightarrow> d
   | IBranch op a b0 b1 \<Rightarrow> IBranch op (f a) b0 b1
   | IWait op b as \<Rightarrow> IWait op b (map f as)
   | ICall op u n as \<Rightarrow> ICall op u n (map f as)
   | IInsExt op a b i j \<Rightarrow>
       if op = OpExtField \<or> op = OpExtSlice then IInsExt op (f a) b i j
       else IInsExt op (f a) (f b) i j
   | IReg op as ms \<Rightarrow> IReg op (map f as) ms)"

definition imms :: "inst_data \<Rightarrow> nat list" where
  "imms d = (case d of
     IArray _ i _ \<Rightarrow> [i]
   | IInsExt op _ _ i j \<Rightarrow> if op = OpInsField \<or> op = OpExtField then [i] else [i, j]
   | _ \<Rightarrow> [])"

definition inst_input_args :: "inst_data \<Rightarrow> nat list option" where
  "inst_input_args d = (case d of ICall _ _ n as \<Rightarrow> slice as 0 n | _ \<Rightarrow> Some [])"

definition inst_output_args :: "inst_data \<Rightarrow> nat list option" where
  "inst_output_args d = (case d of
     ICall _ _ n as \<Rightarrow> if n \<le> length as then Some (drop n as) else None | _ \<Rightarrow> Some [])"

definition data_args :: "inst_data \<Rightarrow> nat list option" where
  "data_args d = (case d of IReg _ as ms \<Rightarrow> slice as 1 (length ms) | _ \<Rightarrow> Some [])"

definition trigger_args :: "inst_data \<Rightarrow> nat list option" where
  "trigger_args d = (case d of
     IReg _ as ms \<Rightarrow> slice as (1 + length ms) (length ms) | _ \<Rightarrow> Some [])"

definition gating_args :: "inst_data \<Rightarrow> nat option list option" where
  "gating_args d = (case d of
     IReg _ as ms \<Rightarrow>
       if 1 + 2 * length ms \<le> length as
       then Some (map (\<lambda>v. if v = key_invalid then None else Some v) (drop (1 + 2 * length ms) as))
       else None
   | _ \<Rightarrow> Some [])"

definition mode_args :: "inst_data \<Rightarrow> reg_mode list" where
  "mode_args d = (case d of IReg _ _ ms \<Rightarrow> ms | _ \<Rightarrow> [])"

definition triggers :: "inst_data \<Rightarrow> reg_trigger list option" where
  "triggers d =
     do { ds \<leftarrow> data_args d;
          ts \<leftarrow> trigger_args d;
          gs \<leftarrow> gating_args d;
          Some (map (\<lambda>(((data, mode), trigger), gate).
                  \<lparr>rt_data = data, rt_mode = mode, rt_trigger = trigger, rt_gate = gate\<rparr>)
                (zip (zip (zip ds (mode_args d)) ts) gs)) }"

definition inst_blocks :: "inst_data \<Rightarrow> nat list" where
  "inst_blocks d = (case d of
     IPhi _ _ bs \<Rightarrow> bs
   | IJump _ b \<Rightarrow> [b]
   | IBranch _ _ b0 b1 \<Rightarrow> [b0, b1]
   | IWait _ b _ \<Rightarrow> [b]
   | _ \<Rightarrow> [])"

definition blocks_mut :: "(nat \<Rightarrow> nat) \<Rightarrow> inst_data \<Rightarrow> inst_data" where
  "blocks_mut f d = (case d of
     IPhi op as bs \<Rightarrow> IPhi op as (map f bs)
   | IJump op b \<Rightarrow> IJump op (f b)
   | IBranch op a b0 b1 \<Rightarrow> IBranch op a (f b0) (f b1)
   | IWait op b as \<Rightarrow> IWait op (f b) as
   | _ \<Rightarrow> d)"

text \<open>
  \<^verbatim>\<open>replace_value\<close> and \<^verbatim>\<open>replace_block\<close> return the rewritten instruction with the number of
  places they assigned.
\<close>

definition replace_value :: "nat \<Rightarrow> nat \<Rightarrow> inst_data \<Rightarrow> inst_data \<times> nat" where
  "replace_value from to d =
     (args_mut (\<lambda>a. if a = from then to else a) d, count_list (args d) from)"

definition replace_block :: "nat \<Rightarrow> nat \<Rightarrow> inst_data \<Rightarrow> inst_data \<times> nat" where
  "replace_block from to d =
     (blocks_mut (\<lambda>b. if b = from then to else b) d, count_list (inst_blocks d) from)"

text \<open>\<^verbatim>\<open>Vec::swap_remove\<close>: the last element takes the place of the removed one.\<close>

definition swap_remove :: "'a list \<Rightarrow> nat \<Rightarrow> 'a list option" where
  "swap_remove xs i =
     (if i < length xs then Some (butlast (xs[i := last xs])) else None)"

definition phi_remove_step :: "nat \<Rightarrow> nat \<Rightarrow> nat list \<times> nat list \<times> nat \<Rightarrow>
    (nat list \<times> nat list \<times> nat) option" where
  "phi_remove_step block i s =
     (case s of (bbs, as, n) \<Rightarrow>
        if i \<ge> length bbs then Some s
        else if bbs ! i = block then
          do { bbs \<leftarrow> swap_remove bbs i; as \<leftarrow> swap_remove as i; Some (bbs, as, n + 1) }
        else Some s)"

definition inst_remove_block :: "nat \<Rightarrow> inst_data \<Rightarrow> (inst_data \<times> nat) option" where
  "inst_remove_block block d =
     (case d of
        IPhi op as bbs \<Rightarrow>
          do { (bbs, as, n) \<leftarrow> foldM (phi_remove_step block) [0..<length bbs] (bbs, as, 0);
               Some (IPhi op as bbs, n) }
      | _ \<Rightarrow> Some (replace_block block key_invalid d))"

definition inst_const_int :: "inst_data \<Rightarrow> int_value option" where
  "inst_const_int d = (case d of IConstInt _ v \<Rightarrow> Some v | _ \<Rightarrow> None)"

definition inst_const_time :: "inst_data \<Rightarrow> time_value option" where
  "inst_const_time d = (case d of IConstTime _ v \<Rightarrow> Some v | _ \<Rightarrow> None)"

definition get_ext_unit :: "inst_data \<Rightarrow> nat option" where
  "get_ext_unit d = (case d of ICall _ u _ _ \<Rightarrow> Some u | _ \<Rightarrow> None)"

section \<open>Rewriting values and blocks\<close>

lemma args_args_mut [simp]: "args (args_mut f d) = map f (args d)"
  by (cases d) (simp_all add: args_def args_mut_def)

lemma args_blocks_mut [simp]: "args (blocks_mut f d) = args d"
  by (cases d) (simp_all add: args_def blocks_mut_def)

lemma blocks_blocks_mut [simp]: "inst_blocks (blocks_mut f d) = map f (inst_blocks d)"
  by (cases d) (simp_all add: inst_blocks_def blocks_mut_def)

lemma blocks_args_mut [simp]: "inst_blocks (args_mut f d) = inst_blocks d"
  by (cases d) (simp_all add: inst_blocks_def args_mut_def)

lemma opcode_mut [simp]: "opcode_of (args_mut f d) = opcode_of d" "opcode_of (blocks_mut f d) = opcode_of d"
  by (cases d; simp add: opcode_of_def args_mut_def blocks_mut_def)+

lemma length_swap_remove: "swap_remove xs i = Some ys \<Longrightarrow> length xs = Suc (length ys)"
  by (cases xs rule: rev_cases) (auto simp: swap_remove_def split: if_splits)

lemma mset_swap_remove:
  assumes "i < length xs"
  shows "\<exists>ys. swap_remove xs i = Some ys \<and> mset xs = add_mset (xs ! i) (mset ys)"
proof -
  obtain zs z where xs: "xs = zs @ [z]" using assms by (cases xs rule: rev_cases) auto
  show ?thesis
  proof (cases "i = length zs")
    case True
    then show ?thesis using xs by (simp add: swap_remove_def list_update_append)
  next
    case False
    then have i: "i < length zs" using assms xs by simp
    then show ?thesis using xs
      by (simp add: swap_remove_def list_update_append nth_append mset_update butlast_append)
  qed
qed

lemma swap_remove_zip:
  assumes "length xs = length ys" "i < length xs"
  shows "\<exists>xs' ys'. swap_remove xs i = Some xs' \<and> swap_remove ys i = Some ys' \<and>
    length xs' = length ys' \<and> swap_remove (zip xs ys) i = Some (zip xs' ys')"
proof -
  obtain as a where xs: "xs = as @ [a]" using assms by (cases xs rule: rev_cases) auto
  obtain bs b where ys: "ys = bs @ [b]" using assms by (cases ys rule: rev_cases) auto
  have "length as = length bs" using assms xs ys by simp
  then show ?thesis using assms xs ys
    by (auto simp: swap_remove_def list_update_append butlast_append zip_update last_zip
        split: nat.splits if_splits)
qed

text \<open>
  The loop over a phi node: it visits the positions in order and removes at most one entry
  per position. When the block is listed at most once nothing is missed.
\<close>

lemma phi_loop_absent:
  "block \<notin> set bbs \<Longrightarrow> foldM (phi_remove_step block) is (bbs, as, n) = Some (bbs, as, n)"
  by (induction "is") (auto simp: phi_remove_step_def)

lemma phi_loop_once:
  assumes "length bbs = length as" "count_list bbs block \<le> 1" "k \<le> length bbs"
    and "\<forall>j < k. bbs ! j \<noteq> block"
  shows "\<exists>bbs' as'. foldM (phi_remove_step block) [k..<length bbs] (bbs, as, n)
           = Some (bbs', as', n + count_list bbs block) \<and> length bbs' = length as' \<and>
           block \<notin> set bbs' \<and>
           mset (zip bbs' as') = mset (filter (\<lambda>p. fst p \<noteq> block) (zip bbs as))"
  using assms
proof (induction "length bbs - k" arbitrary: k)
  case 0
  then have none: "block \<notin> set bbs" by (auto simp: in_set_conv_nth)
  then have "filter (\<lambda>p. fst p \<noteq> block) (zip bbs as) = zip bbs as"
    by (auto intro!: filter_True dest: set_zip_leftD)
  then show ?case using 0 none by (simp add: count_list_0_iff)
next
  case (Suc m)
  then have k: "k < length bbs" by simp
  then have upt: "[k..<length bbs] = k # [Suc k..<length bbs]" by (rule upt_conv_Cons)
  show ?case
  proof (cases "bbs ! k = block")
    case False
    then have "\<forall>j < Suc k. bbs ! j \<noteq> block" using Suc.prems(4) by (auto simp: less_Suc_eq)
    then show ?thesis
      using Suc.hyps(1)[of "Suc k"] Suc.hyps(2) Suc.prems k False
      by (simp add: upt_conv_Cons phi_remove_step_def)
  next
    case True
    obtain bbs' as' where sw: "swap_remove bbs k = Some bbs'" "swap_remove as k = Some as'"
      "length bbs' = length as'" "swap_remove (zip bbs as) k = Some (zip bbs' as')"
      using swap_remove_zip[OF Suc.prems(1) k] by blast
    have "mset bbs = add_mset block (mset bbs')" using mset_swap_remove[OF k] sw(1) True by auto
    then have cnt: "count_list bbs block = Suc (count_list bbs' block)"
      by (metis count_add_mset count_mset)
    then have none: "block \<notin> set bbs'" using Suc.prems(2) by (simp add: count_list_0_iff)
    have "mset (zip bbs as) = add_mset (zip bbs as ! k) (mset (zip bbs' as'))"
      using mset_swap_remove[of k "zip bbs as"] sw(4) k Suc.prems(1) by auto
    moreover have "fst (zip bbs as ! k) = block" using True k Suc.prems(1) by simp
    moreover have "filter_mset (\<lambda>p. fst p \<noteq> block) (mset (zip bbs' as')) = mset (zip bbs' as')"
      using none by (auto simp: filter_mset_eq_conv dest: set_zip_leftD)
    ultimately have "mset (zip bbs' as') = mset (filter (\<lambda>p. fst p \<noteq> block) (zip bbs as))"
      by (simp add: mset_filter)
    then show ?thesis
      using sw(1-3) none cnt k True phi_loop_absent[OF none]
      by (simp add: upt phi_remove_step_def count_list_0_iff)
  qed
qed

section \<open>Properties\<close>

text \<open>
  Replacing a value rewrites exactly the used argument places: afterwards the
  instruction no longer uses it, every other argument, the blocks, the opcode and the
  immediates are as before, and the number returned is the number of uses there were.
\<close>

theorem replace_value_correct:
  assumes "from \<noteq> to"
  shows "replace_value from to d = (d', n) \<Longrightarrow>
    from \<notin> set (args d') \<and> n = count_list (args d) from \<and>
    args d' = map (\<lambda>a. if a = from then to else a) (args d) \<and>
    inst_blocks d' = inst_blocks d \<and> opcode_of d' = opcode_of d \<and> imms d' = imms d"
  using assms by (cases d) (auto simp: replace_value_def args_def args_mut_def inst_blocks_def opcode_of_def imms_def)

lemma replace_value_correct_witness:
  "5 \<notin> set (args (fst (replace_value 5 9 (ITernary OpShl 5 7 5)))) \<and>
   args (fst (replace_value 5 9 (ITernary OpShl 5 7 5))) = [9, 7, 9]"
  using replace_value_correct[of 5 9 "ITernary OpShl 5 7 5"
      "fst (replace_value 5 9 (ITernary OpShl 5 7 5))" "snd (replace_value 5 9 (ITernary OpShl 5 7 5))"]
  by (simp add: args_def)

text \<open>
  Removing a block that a phi node lists at most once removes exactly its entry: no
  entry for the block is left, and the other pairs of value and block are kept (up to
  their order, since the last pair moves into the gap).
\<close>

theorem phi_remove_block_correct:
  assumes "length bbs = length as" and "count_list bbs block \<le> 1"
  shows "\<exists>bbs' as'. inst_remove_block block (IPhi op as bbs) =
      Some (IPhi op as' bbs', count_list bbs block) \<and> block \<notin> set bbs' \<and> length bbs' = length as' \<and>
      mset (zip bbs' as') = mset (filter (\<lambda>p. fst p \<noteq> block) (zip bbs as))"
  using phi_loop_once[OF assms, of 0 0] by (auto simp: inst_remove_block_def)

lemma phi_remove_block_correct_witness:
  "fst (the (inst_remove_block 1 (IPhi OpPhi [10, 11, 12] [0, 1, 2]))) = IPhi OpPhi [10, 12] [0, 2]"
  using phi_remove_block_correct[of "[0, 1, 2]" "[10, 11, 12]" 1 OpPhi]
  by (simp add: inst_remove_block_def upt_rec phi_remove_step_def swap_remove_def)

text \<open>
  The loop of \<^verbatim>\<open>InstData::remove_block\<close> does not remove all uses of a block: after a
  \<^verbatim>\<open>swap_remove\<close> it goes on to the next position without looking at the entry that
  moved into the gap, so a phi node that lists the block twice in a row at its end keeps
  one entry for the block it was to forget.
\<close>

theorem phi_remove_block_misses:
  "inst_remove_block b (IPhi OpPhi [v, w] [b, b]) = Some (IPhi OpPhi [w] [b], 1)"
  by (simp add: inst_remove_block_def upt_rec phi_remove_step_def swap_remove_def)

end
