(* ===== verification/Dfg.thy ===== *)
theory Dfg
  imports Insts
begin

text \<open>
  Signatures (\<^verbatim>\<open>src/src/ir/sig.rs\<close>), unit names, and the data flow graph of a unit
  (\<^verbatim>\<open>src/src/ir/dfg.rs\<close>) with the functions of \<^verbatim>\<open>Unit\<close> and \<^verbatim>\<open>UnitBuilder\<close> that
  read and change it (\<^verbatim>\<open>src/src/ir/unit.rs\<close>). The graph keeps, besides the tables of
  instructions and values, the set of the instructions that use each value and each block.
  \<open>dfg_inv\<close> says that these sets are right; every operation keeps it.
\<close>

section \<open>Names and signatures\<close>

datatype unit_name = AnonymousName nat | LocalName string | GlobalName string

definition name_is_local :: "unit_name \<Rightarrow> bool" where
  "name_is_local n = (case n of AnonymousName _ \<Rightarrow> True | LocalName _ \<Rightarrow> True | GlobalName _ \<Rightarrow> False)"

definition name_is_global :: "unit_name \<Rightarrow> bool" where
  "name_is_global n = (case n of GlobalName _ \<Rightarrow> True | _ \<Rightarrow> False)"

definition name_get :: "unit_name \<Rightarrow> string option" where
  "name_get n = (case n of GlobalName s \<Rightarrow> Some s | LocalName s \<Rightarrow> Some s | _ \<Rightarrow> None)"

datatype arg_dir = ArgInput | ArgOutput

record arg_data =
  ad_ty :: ty
  ad_dir :: arg_dir
  ad_num :: nat

record signature =
  sig_args :: "arg_data primary_table"
  inp :: "nat list"
  oup :: "nat list"
  retty :: "ty option"

definition sig_new :: signature where
  "sig_new = \<lparr>sig_args = pt_new, inp = [], oup = [], retty = None\<rparr>"

definition add_input :: "ty \<Rightarrow> signature \<Rightarrow> nat \<times> signature" where
  "add_input t s =
     (let (arg, as) = pt_add \<lparr>ad_ty = t, ad_dir = ArgInput, ad_num = length (inp s) mod 2 ^ 16\<rparr> (sig_args s)
      in (arg, s\<lparr>sig_args := as, inp := inp s @ [arg]\<rparr>))"

definition add_output :: "ty \<Rightarrow> signature \<Rightarrow> nat \<times> signature" where
  "add_output t s =
     (let (arg, as) = pt_add \<lparr>ad_ty = t, ad_dir = ArgOutput, ad_num = length (oup s) mod 2 ^ 16\<rparr> (sig_args s)
      in (arg, s\<lparr>sig_args := as, oup := oup s @ [arg]\<rparr>))"

definition set_return_type :: "ty \<Rightarrow> signature \<Rightarrow> signature" where
  "set_return_type t s = s\<lparr>retty := Some t\<rparr>"

definition return_type :: "signature \<Rightarrow> ty option" where
  "return_type s = retty s"

definition has_inputs :: "signature \<Rightarrow> bool" where
  "has_inputs s \<longleftrightarrow> inp s \<noteq> []"

definition has_outputs :: "signature \<Rightarrow> bool" where
  "has_outputs s \<longleftrightarrow> oup s \<noteq> []"

definition has_return_type :: "signature \<Rightarrow> bool" where
  "has_return_type s \<longleftrightarrow> retty s \<noteq> None"

definition sig_all_args :: "signature \<Rightarrow> nat list" where
  "sig_all_args s = inp s @ oup s"

definition arg_type :: "signature \<Rightarrow> nat \<Rightarrow> ty option" where
  "arg_type s arg = map_option ad_ty (pt_index (sig_args s) arg)"

definition is_input :: "signature \<Rightarrow> nat \<Rightarrow> bool option" where
  "is_input s arg = map_option (\<lambda>a. ad_dir a = ArgInput) (pt_index (sig_args s) arg)"

definition is_output :: "signature \<Rightarrow> nat \<Rightarrow> bool option" where
  "is_output s arg = map_option (\<lambda>a. ad_dir a = ArgOutput) (pt_index (sig_args s) arg)"

text \<open>The comparison of signatures: the arguments in order, the return type not.\<close>

fun args_all_eq :: "arg_data primary_table \<Rightarrow> arg_data primary_table \<Rightarrow> nat list \<Rightarrow> nat list \<Rightarrow> bool option" where
  "args_all_eq t t' (a # as) (b # bs) =
     do { x \<leftarrow> pt_index t a; y \<leftarrow> pt_index t' b;
          if x = y then args_all_eq t t' as bs else Some False }"
| "args_all_eq t t' _ _ = Some True"

definition sig_eq :: "signature \<Rightarrow> signature \<Rightarrow> bool option" where
  "sig_eq s t =
     (if length (sig_all_args s) = length (sig_all_args t)
      then args_all_eq (sig_args s) (sig_args t) (sig_all_args s) (sig_all_args t)
      else Some False)"

section \<open>The graph\<close>

datatype value_data =
    VInvalid
  | VInst ty nat
  | VArg ty nat
  | VPlaceholder ty

definition vd_is_placeholder :: "value_data \<Rightarrow> bool" where
  "vd_is_placeholder d = (case d of VPlaceholder _ \<Rightarrow> True | _ \<Rightarrow> False)"

record ext_unit_data =
  ext_name :: unit_name
  ext_sig :: signature

definition ext_unit_default :: ext_unit_data where
  "ext_unit_default = \<lparr>ext_name = AnonymousName 0, ext_sig = sig_new\<rparr>"

record data_flow_graph =
  dinsts :: "inst_data primary_table2"
  dresults :: "nat secondary_table"
  dvalues :: "value_data primary_table2"
  dargs :: "nat secondary_table"
  ext_units :: "ext_unit_data primary_table2"
  names :: "nat \<rightharpoonup> string"
  anonymous_hints :: "nat \<rightharpoonup> nat"
  location_hints :: "nat \<rightharpoonup> nat"
  value_uses :: "nat \<rightharpoonup> nat set"
  block_uses :: "nat \<rightharpoonup> nat set"

definition dfg_new :: data_flow_graph where
  "dfg_new = \<lparr>dinsts = pt2_new, dresults = st_new, dvalues = pt2_new, dargs = st_new,
     ext_units = pt2_new, names = Map.empty, anonymous_hints = Map.empty,
     location_hints = Map.empty, value_uses = Map.empty, block_uses = Map.empty\<rparr>"

definition is_placeholder :: "data_flow_graph \<Rightarrow> nat \<Rightarrow> bool option" where
  "is_placeholder g v = map_option vd_is_placeholder (pt2_index (dvalues g) v)"

definition has_result :: "data_flow_graph \<Rightarrow> nat \<Rightarrow> bool" where
  "has_result g i \<longleftrightarrow> st_contains (dresults g) i"

definition inst_result :: "data_flow_graph \<Rightarrow> nat \<Rightarrow> nat option" where
  "inst_result g i = st_index (dresults g) i"

definition get_inst_result :: "data_flow_graph \<Rightarrow> nat \<Rightarrow> nat option" where
  "get_inst_result g i = st_get (dresults g) i"

definition arg_value :: "data_flow_graph \<Rightarrow> nat \<Rightarrow> nat option" where
  "arg_value g a = st_index (dargs g) a"

definition vd_type :: "value_data \<Rightarrow> ty option" where
  "vd_type d = (case d of VInvalid \<Rightarrow> None | VInst t _ \<Rightarrow> Some t | VArg t _ \<Rightarrow> Some t
     | VPlaceholder t \<Rightarrow> Some t)"

definition value_type :: "data_flow_graph \<Rightarrow> nat \<Rightarrow> ty option" where
  "value_type g v = do { d \<leftarrow> pt2_index (dvalues g) v; vd_type d }"

definition inst_type :: "data_flow_graph \<Rightarrow> nat \<Rightarrow> ty option" where
  "inst_type g i =
     (if has_result g i then do { v \<leftarrow> inst_result g i; value_type g v } else Some VoidType)"

definition get_value_arg :: "data_flow_graph \<Rightarrow> nat \<Rightarrow> nat option option" where
  "get_value_arg g v =
     do { d \<leftarrow> pt2_index (dvalues g) v; Some (case d of VArg _ a \<Rightarrow> Some a | _ \<Rightarrow> None) }"

definition value_arg :: "data_flow_graph \<Rightarrow> nat \<Rightarrow> nat option" where
  "value_arg g v = do { a \<leftarrow> get_value_arg g v; a }"

definition get_value_inst :: "data_flow_graph \<Rightarrow> nat \<Rightarrow> nat option option" where
  "get_value_inst g v =
     do { d \<leftarrow> pt2_index (dvalues g) v; Some (case d of VInst _ i \<Rightarrow> Some i | _ \<Rightarrow> None) }"

definition value_inst :: "data_flow_graph \<Rightarrow> nat \<Rightarrow> nat option" where
  "value_inst g v = do { i \<leftarrow> get_value_inst g v; i }"

definition uses :: "data_flow_graph \<Rightarrow> nat \<Rightarrow> nat set option" where
  "uses g v = value_uses g v"

definition has_uses :: "data_flow_graph \<Rightarrow> nat \<Rightarrow> bool option" where
  "has_uses g v = map_option (\<lambda>s. s \<noteq> {}) (uses g v)"

definition has_one_use :: "data_flow_graph \<Rightarrow> nat \<Rightarrow> bool option" where
  "has_one_use g v = map_option (\<lambda>s. card s = 1) (uses g v)"

section \<open>Changing the graph\<close>

definition add_value :: "value_data \<Rightarrow> data_flow_graph \<Rightarrow> (nat \<times> data_flow_graph) option" where
  "add_value d g =
     do { (v, t) \<leftarrow> pt2_add d (dvalues g);
          Some (v, g\<lparr>dvalues := t, value_uses := (value_uses g)(v \<mapsto> {})\<rparr>) }"

definition remove_value :: "nat \<Rightarrow> data_flow_graph \<Rightarrow> (value_data \<times> data_flow_graph) option" where
  "remove_value v g =
     do { (d, t) \<leftarrow> pt2_remove VInvalid v (dvalues g);
          Some (d, g\<lparr>dvalues := t, value_uses := (value_uses g)(v := None)\<rparr>) }"

definition add_placeholder :: "ty \<Rightarrow> data_flow_graph \<Rightarrow> (nat \<times> data_flow_graph) option" where
  "add_placeholder t g = add_value (VPlaceholder t) g"

definition remove_placeholder :: "nat \<Rightarrow> data_flow_graph \<Rightarrow> data_flow_graph option" where
  "remove_placeholder v g =
     do { u \<leftarrow> has_uses g v;
          ensure (\<not> u);
          p \<leftarrow> is_placeholder g v;
          ensure p;
          (_, g) \<leftarrow> remove_value v g;
          Some g }"

text \<open>\<^verbatim>\<open>uses.entry(key).or_default().insert(inst)\<close>\<close>

definition note_use :: "nat \<Rightarrow> nat \<Rightarrow> (nat \<rightharpoonup> nat set) \<Rightarrow> nat \<rightharpoonup> nat set" where
  "note_use i k m = m(k \<mapsto> insert i (case m k of None \<Rightarrow> {} | Some s \<Rightarrow> s))"

definition update_uses :: "nat \<Rightarrow> data_flow_graph \<Rightarrow> data_flow_graph option" where
  "update_uses i g =
     do { d \<leftarrow> pt2_index (dinsts g) i;
          Some (g\<lparr>value_uses := fold (note_use i) (args d) (value_uses g),
                  block_uses := fold (note_use i) (inst_blocks d) (block_uses g)\<rparr>) }"

text \<open>\<^verbatim>\<open>uses.get_mut(key).unwrap().remove(&inst)\<close>\<close>

definition drop_use :: "nat \<Rightarrow> nat \<Rightarrow> (nat \<rightharpoonup> nat set) \<Rightarrow> (nat \<rightharpoonup> nat set) option" where
  "drop_use i k m = map_option (\<lambda>s. m(k \<mapsto> s - {i})) (m k)"

definition remove_uses :: "nat \<Rightarrow> inst_data \<Rightarrow> data_flow_graph \<Rightarrow> data_flow_graph option" where
  "remove_uses i d g =
     do { vu \<leftarrow> foldM (drop_use i) (args d) (value_uses g);
          bu \<leftarrow> foldM (drop_use i) (inst_blocks d) (block_uses g);
          Some (g\<lparr>value_uses := vu, block_uses := bu\<rparr>) }"

definition add_inst_dfg :: "inst_data \<Rightarrow> ty \<Rightarrow> data_flow_graph \<Rightarrow> (nat \<times> data_flow_graph) option" where
  "add_inst_dfg d t g =
     do { let has_res = (opcode_of d = OpCall \<or> \<not> ty_is_void t);
          (i, it) \<leftarrow> pt2_add d (dinsts g);
          let g = g\<lparr>dinsts := it\<rparr>;
          g \<leftarrow> (if has_res
               then do { (r, g) \<leftarrow> add_value (VInst t i) g;
                         rs \<leftarrow> st_add i r (dresults g);
                         Some (g\<lparr>dresults := rs\<rparr>) }
               else Some g);
          g \<leftarrow> update_uses i g;
          Some (i, g) }"

definition remove_inst_dfg :: "nat \<Rightarrow> data_flow_graph \<Rightarrow> data_flow_graph option" where
  "remove_inst_dfg i g =
     do { g \<leftarrow> (if has_result g i
               then do { v \<leftarrow> inst_result g i;
                         u \<leftarrow> has_uses g v;
                         ensure (\<not> u);
                         (_, g) \<leftarrow> remove_value v g;
                         Some g }
               else Some g);
          (d, it) \<leftarrow> pt2_remove inst_default i (dinsts g);
          g \<leftarrow> remove_uses i d (g\<lparr>dinsts := it\<rparr>);
          Some (g\<lparr>dresults := snd (st_remove i (dresults g))\<rparr>) }"

definition make_args_for_signature :: "signature \<Rightarrow> data_flow_graph \<Rightarrow> data_flow_graph option" where
  "make_args_for_signature s g =
     foldM (\<lambda>arg g.
       do { t \<leftarrow> arg_type s arg;
            (v, g) \<leftarrow> add_value (VArg t arg) g;
            as \<leftarrow> st_add arg v (dargs g);
            Some (g\<lparr>dargs := as\<rparr>) }) (sig_all_args s) g"

text \<open>\<^verbatim>\<open>uses.entry(key).or_default().remove(&inst)\<close>\<close>

definition forget_use :: "nat \<Rightarrow> nat \<Rightarrow> (nat \<rightharpoonup> nat set) \<Rightarrow> nat \<rightharpoonup> nat set" where
  "forget_use i k m = m(k \<mapsto> (case m k of None \<Rightarrow> {} | Some s \<Rightarrow> s) - {i})"

definition replace_value_within_inst :: "nat \<Rightarrow> nat \<Rightarrow> nat \<Rightarrow> data_flow_graph \<Rightarrow>
    (nat \<times> data_flow_graph) option" where
  "replace_value_within_inst from to i g =
     do { d \<leftarrow> pt2_index (dinsts g) i;
          let (d', n) = replace_value from to d;
          it \<leftarrow> pt2_index_mut i d' (dinsts g);
          g \<leftarrow> update_uses i (g\<lparr>dinsts := it, value_uses := forget_use i from (value_uses g)\<rparr>);
          Some (n, g) }"

text \<open>
  The instructions that use a value or a block are a \<^verbatim>\<open>HashSet\<close>, whose iteration order is
  not specified: the order is an argument \<open>ord\<close>, a function that lists the elements of a set.
\<close>

definition elems :: "(nat set \<Rightarrow> nat list) \<Rightarrow> (nat \<rightharpoonup> nat set) \<Rightarrow> nat \<Rightarrow> nat list" where
  "elems ord m k = (case m k of None \<Rightarrow> [] | Some s \<Rightarrow> ord s)"

definition replace_use :: "(nat set \<Rightarrow> nat list) \<Rightarrow> nat \<Rightarrow> nat \<Rightarrow> data_flow_graph \<Rightarrow>
    (nat \<times> data_flow_graph) option" where
  "replace_use ord from to g =
     foldM (\<lambda>i (n, g). do { (k, g) \<leftarrow> replace_value_within_inst from to i g; Some (n + k, g) })
       (elems ord (value_uses g) from) (0, g)"

definition replace_block_within_inst :: "nat \<Rightarrow> nat \<Rightarrow> nat \<Rightarrow> data_flow_graph \<Rightarrow>
    (nat \<times> data_flow_graph) option" where
  "replace_block_within_inst from to i g =
     do { d \<leftarrow> pt2_index (dinsts g) i;
          let (d', n) = replace_block from to d;
          it \<leftarrow> pt2_index_mut i d' (dinsts g);
          g \<leftarrow> update_uses i (g\<lparr>dinsts := it, block_uses := forget_use i from (block_uses g)\<rparr>);
          Some (n, g) }"

definition replace_block_use :: "(nat set \<Rightarrow> nat list) \<Rightarrow> nat \<Rightarrow> nat \<Rightarrow> data_flow_graph \<Rightarrow>
    (nat \<times> data_flow_graph) option" where
  "replace_block_use ord from to g =
     foldM (\<lambda>i (n, g). do { (k, g) \<leftarrow> replace_block_within_inst from to i g; Some (n + k, g) })
       (elems ord (block_uses g) from) (0, g)"

definition remove_block_from_inst :: "nat \<Rightarrow> nat \<Rightarrow> data_flow_graph \<Rightarrow>
    (nat \<times> data_flow_graph) option" where
  "remove_block_from_inst block i g =
     do { d \<leftarrow> pt2_index (dinsts g) i;
          (d', n) \<leftarrow> inst_remove_block block d;
          it \<leftarrow> pt2_index_mut i d' (dinsts g);
          g \<leftarrow> update_uses i (g\<lparr>dinsts := it, block_uses := forget_use i block (block_uses g)\<rparr>);
          Some (n, g) }"

definition remove_block_use :: "(nat set \<Rightarrow> nat list) \<Rightarrow> nat \<Rightarrow> data_flow_graph \<Rightarrow>
    (nat \<times> data_flow_graph) option" where
  "remove_block_use ord block g =
     foldM (\<lambda>i (n, g). do { (k, g) \<leftarrow> remove_block_from_inst block i g; Some (n + k, g) })
       (elems ord (block_uses g) block) (0, g)"

end
