(* ===== verification/DfgInv.thy ===== *)
theory DfgInv
  imports Dfg
begin

text \<open>
  The invariant of the data flow graph. \<open>users\<close> is the recorded set of users of a value or
  a block, \<open>actual\<close> the set of instructions that really mention it. \<open>dfg_wf\<close> holds the
  tables together and says that no use is missed: what the code relies on when it deletes a
  value without uses. \<open>dfg_exact\<close> adds that no stale use is recorded.
\<close>

definition users :: "(nat \<rightharpoonup> nat set) \<Rightarrow> nat \<Rightarrow> nat set" where
  "users m k = (case m k of None \<Rightarrow> {} | Some s \<Rightarrow> s)"

definition inst_at :: "data_flow_graph \<Rightarrow> nat \<Rightarrow> inst_data option" where
  "inst_at g = pt2_lookup (dinsts g)"

definition value_at :: "data_flow_graph \<Rightarrow> nat \<Rightarrow> value_data option" where
  "value_at g = pt2_lookup (dvalues g)"

definition actual :: "(inst_data \<Rightarrow> nat list) \<Rightarrow> data_flow_graph \<Rightarrow> nat \<Rightarrow> nat set" where
  "actual f g k = {i. \<exists>d. inst_at g i = Some d \<and> k \<in> set (f d)}"

definition value_ok :: "data_flow_graph \<Rightarrow> nat \<Rightarrow> bool" where
  "value_ok g v \<longleftrightarrow> value_at g v \<noteq> None \<or> v = key_invalid"

definition dfg_wf :: "data_flow_graph \<Rightarrow> bool" where
  "dfg_wf g \<longleftrightarrow>
     pt2_inv (dinsts g) \<and> pt2_inv (dvalues g) \<and> length (storage (dvalues g)) < 2 ^ 32 \<and>
     (\<forall>v. value_at g v \<noteq> None \<longrightarrow> value_uses g v \<noteq> None) \<and>
     (\<forall>i d. inst_at g i = Some d \<longrightarrow> (\<forall>v \<in> set (args d). value_ok g v)) \<and>
     (\<forall>i v. dresults g i = Some v \<longleftrightarrow> (\<exists>t. value_at g v = Some (VInst t i))) \<and>
     (\<forall>i. dresults g i \<noteq> None \<longrightarrow> inst_at g i \<noteq> None) \<and>
     (\<forall>k. actual args g k \<subseteq> users (value_uses g) k) \<and>
     (\<forall>k. actual inst_blocks g k \<subseteq> users (block_uses g) k) \<and>
     (\<forall>k. users (value_uses g) k \<union> users (block_uses g) k \<subseteq> {..<length (storage (dinsts g))})"

definition dfg_exact :: "data_flow_graph \<Rightarrow> bool" where
  "dfg_exact g \<longleftrightarrow>
     (\<forall>k. users (value_uses g) k = actual args g k) \<and>
     (\<forall>k. users (block_uses g) k = actual inst_blocks g k)"

lemma dfg_wfD:
  assumes "dfg_wf g"
  shows "pt2_inv (dinsts g)" "pt2_inv (dvalues g)" "length (storage (dvalues g)) < 2 ^ 32"
    "value_at g v \<noteq> None \<Longrightarrow> value_uses g v \<noteq> None"
    "inst_at g i = Some d \<Longrightarrow> v \<in> set (args d) \<Longrightarrow> value_ok g v"
    "dresults g i = Some v \<longleftrightarrow> (\<exists>t. value_at g v = Some (VInst t i))"
    "dresults g i \<noteq> None \<Longrightarrow> inst_at g i \<noteq> None"
    "actual args g k \<subseteq> users (value_uses g) k"
    "actual inst_blocks g k \<subseteq> users (block_uses g) k"
    "i \<in> users (value_uses g) k \<Longrightarrow> i < length (storage (dinsts g))"
    "i \<in> users (block_uses g) k \<Longrightarrow> i < length (storage (dinsts g))"
  using assms unfolding dfg_wf_def by blast+

lemma dfg_wf_new: "dfg_wf dfg_new" "dfg_exact dfg_new"
  by (auto simp: dfg_wf_def dfg_exact_def dfg_new_def pt2_new_def pt2_inv_def inst_at_def value_at_def
      pt2_lookup_def st_new_def users_def actual_def)

section \<open>The sets of users\<close>

lemma users_upd [simp]: "users (m(k := v)) j = (if j = k then (case v of None \<Rightarrow> {} | Some s \<Rightarrow> s) else users m j)"
  by (simp add: users_def)

lemma users_note_use: "users (note_use i k m) j = (if j = k then insert i (users m j) else users m j)"
  by (simp add: note_use_def users_def)

lemma users_note_uses:
  "users (fold (note_use i) ks m) j = (if j \<in> set ks then insert i (users m j) else users m j)"
  by (induction ks arbitrary: m) (auto simp: users_note_use)

lemma note_uses_dom: "m j \<noteq> None \<Longrightarrow> fold (note_use i) ks m j \<noteq> None"
  by (induction ks arbitrary: m) (auto simp: note_use_def)

lemma users_forget_use:
  "users (forget_use i k m) j = (if j = k then users m j - {i} else users m j)"
  by (simp add: forget_use_def users_def)

lemma forget_use_dom: "m j \<noteq> None \<Longrightarrow> forget_use i k m j \<noteq> None"
  by (simp add: forget_use_def)

lemma drop_uses:
  assumes "\<forall>k \<in> set ks. m k \<noteq> None"
  shows "\<exists>m'. foldM (drop_use i) ks m = Some m' \<and> dom m' = dom m \<and>
    (\<forall>j. users m' j = (if j \<in> set ks then users m j - {i} else users m j))"
  using assms
proof (induction ks arbitrary: m)
  case Nil
  then show ?case by simp
next
  case (Cons k ks)
  obtain s where s: "m k = Some s" using Cons.prems by auto
  let ?m = "m(k \<mapsto> s - {i})"
  have "\<forall>k \<in> set ks. ?m k \<noteq> None" using Cons.prems by auto
  from Cons.IH[OF this] obtain m' where m': "foldM (drop_use i) ks ?m = Some m'" "dom m' = dom ?m"
    "\<forall>j. users m' j = (if j \<in> set ks then users ?m j - {i} else users ?m j)" by blast
  have "dom ?m = dom m" using s by auto
  moreover have "users m k = s" using s by (simp add: users_def)
  moreover have "foldM (drop_use i) (k # ks) m = Some m'"
    using m'(1) s by (simp add: drop_use_def)
  ultimately show ?case using m'(2,3) by (intro exI[of _ m']) auto
qed

section \<open>Tables\<close>

lemma pt2_lookup_index: "pt2_inv t \<Longrightarrow> pt2_lookup t k = Some d \<Longrightarrow> pt2_index t k = Some d"
  using pt2_inv_bounds(1)[of t k] by (auto simp: pt2_lookup_def pt2_index_def idx_def split: if_splits)

lemma pt2_lookup_None: "pt2_lookup t k = None \<longleftrightarrow> k \<notin> used t"
  by (simp add: pt2_lookup_def)

lemma pt2_index_mut_lookup:
  assumes "pt2_inv t" "k < length (storage t)"
  shows "\<exists>t'. pt2_index_mut k d t = Some t' \<and> pt2_inv t' \<and> length (storage t') = length (storage t) \<and>
    pt2_lookup t' = (if pt2_lookup t k = None then pt2_lookup t else (pt2_lookup t)(k \<mapsto> d)) \<and>
    used t' = used t"
proof -
  have "pt2_index_mut k d t = Some (t\<lparr>storage := (storage t)[k := d]\<rparr>)"
    using assms(2) by (simp add: pt2_index_mut_def idx_set_def)
  moreover have "pt2_inv (t\<lparr>storage := (storage t)[k := d]\<rparr>)" using assms(1) by (simp add: pt2_inv_def)
  moreover have "pt2_lookup (t\<lparr>storage := (storage t)[k := d]\<rparr>) =
      (if pt2_lookup t k = None then pt2_lookup t else (pt2_lookup t)(k \<mapsto> d))"
    using assms(2) by (auto simp: pt2_lookup_def fun_eq_iff nth_list_update)
  ultimately show ?thesis by simp
qed

lemma pt2_add_lookup:
  assumes "pt2_inv t" "pt2_room t"
  shows "\<exists>k t'. pt2_add v t = Some (k, t') \<and> pt2_inv t' \<and> pt2_lookup t k = None \<and>
    pt2_lookup t' = (pt2_lookup t)(k \<mapsto> v) \<and> k < length (storage t') \<and>
    length (storage t) \<le> length (storage t') \<and> length (storage t') \<le> length (storage t) + 1"
proof -
  obtain k t' where r: "pt2_add v t = Some (k, t')" "k \<notin> used t" "pt2_inv t'" "k < length (storage t')"
    "length (storage t) \<le> length (storage t')"
    using pt2_add_cases[OF assms] by blast
  have "pt2_lookup t k = None \<and> pt2_lookup t' = (pt2_lookup t)(k \<mapsto> v)"
    using free_list_table.add_lookup[OF assms r(1)] .
  moreover have "length (storage t') \<le> length (storage t) + 1"
  proof (cases "free t = {}")
    case True
    then show ?thesis using pt2_add_grow[OF True, of v] assms r(1) by (auto simp: pt2_room_def)
  next
    case False
    then show ?thesis using pt2_add_reuse[OF assms(1) False, of v] r(1) by auto
  qed
  ultimately show ?thesis using r by blast
qed

lemma pt2_remove_lookup:
  assumes "pt2_inv t" "pt2_lookup t k = Some v"
  shows "\<exists>t'. pt2_remove d k t = Some (v, t') \<and> pt2_inv t' \<and> pt2_lookup t' = (pt2_lookup t)(k := None) \<and>
    length (storage t') = length (storage t)"
proof -
  have k: "k \<in> used t" "v = storage t ! k" using assms(2) by (auto simp: pt2_lookup_def split: if_splits)
  note r = pt2_remove_Some[OF assms(1) k(1), of d]
  then show ?thesis
    using pt2_remove_inv[OF assms(1) r] k pt2_inv_bounds(1)[OF assms(1) k(1)]
    by (auto simp: pt2_lookup_def fun_eq_iff)
qed

section \<open>Adding and removing values\<close>

lemma actual_cong:
  "inst_at g' = inst_at g \<Longrightarrow> actual f g' k = actual f g k"
  by (simp add: actual_def)

lemma invalid_not_live: "dfg_wf g \<Longrightarrow> value_at g key_invalid = None"
  using pt2_inv_bounds(1)[OF dfg_wfD(2), of g key_invalid] dfg_wfD(3)[of g]
  by (fastforce simp: value_at_def pt2_lookup_def key_invalid_def)

lemma unused_when_dead:
  assumes "dfg_wf g" "value_at g v = None" "v \<noteq> key_invalid"
  shows "actual args g v = {}"
  using dfg_wfD(5)[OF assms(1)] assms(2,3) by (force simp: actual_def value_ok_def)

lemma add_value_effect:
  assumes wf: "dfg_wf g" and room: "pt2_room (dvalues g)" "length (storage (dvalues g)) + 1 < 2 ^ 32"
  shows "\<exists>v g'. add_value d g = Some (v, g') \<and> value_at g v = None \<and> v \<noteq> key_invalid \<and>
    value_at g' = (value_at g)(v \<mapsto> d) \<and> pt2_inv (dvalues g') \<and> length (storage (dvalues g')) < 2 ^ 32 \<and>
    length (storage (dvalues g')) \<le> length (storage (dvalues g)) + 1 \<and>
    g' = g\<lparr>dvalues := dvalues g', value_uses := (value_uses g)(v \<mapsto> {})\<rparr>"
proof -
  obtain v t where t: "pt2_add d (dvalues g) = Some (v, t)" "pt2_inv t" "pt2_lookup (dvalues g) v = None"
    "pt2_lookup t = (pt2_lookup (dvalues g))(v \<mapsto> d)" "v < length (storage t)"
    "length (storage t) \<le> length (storage (dvalues g)) + 1"
    using pt2_add_lookup[OF dfg_wfD(2)[OF wf] room(1)] by blast
  then have "v \<noteq> key_invalid" using room(2) by (auto simp: key_invalid_def)
  then show ?thesis using t room(2) by (auto simp: add_value_def value_at_def)
qed

text \<open>A value that is not the result of an instruction: arguments and placeholders.\<close>

lemma add_value_wf:
  assumes wf: "dfg_wf g" and room: "pt2_room (dvalues g)" "length (storage (dvalues g)) + 1 < 2 ^ 32"
    and d: "\<And>t i. d \<noteq> VInst t i"
  shows "\<exists>v g'. add_value d g = Some (v, g') \<and> dfg_wf g' \<and> (dfg_exact g \<longrightarrow> dfg_exact g') \<and>
    value_at g v = None \<and> value_at g' = (value_at g)(v \<mapsto> d) \<and> inst_at g' = inst_at g"
proof -
  obtain v g' where r: "add_value d g = Some (v, g')" "value_at g v = None" "v \<noteq> key_invalid"
    "value_at g' = (value_at g)(v \<mapsto> d)" "pt2_inv (dvalues g')" "length (storage (dvalues g')) < 2 ^ 32"
    "g' = g\<lparr>dvalues := dvalues g', value_uses := (value_uses g)(v \<mapsto> {})\<rparr>"
    using add_value_effect[OF wf room] by blast
  have i: "inst_at g' = inst_at g" unfolding inst_at_def by (subst r(7)) simp
  have un: "actual args g v = {}" by (rule unused_when_dead[OF wf r(2,3)])
  have sel: "dinsts g' = dinsts g" "dresults g' = dresults g" "block_uses g' = block_uses g"
    "value_uses g' = (value_uses g)(v \<mapsto> {})" by (subst r(7), simp)+
  have "dfg_wf g'"
    using wf r(2-6) d un unfolding dfg_wf_def sel i actual_cong[OF i]
    by (auto simp: value_ok_def actual_cong[OF i])
  moreover have "dfg_exact g'" if "dfg_exact g"
    using that un unfolding dfg_exact_def sel actual_cong[OF i] by auto
  ultimately show ?thesis using r i by blast
qed

section \<open>Adding and removing instructions\<close>

definition has_res :: "inst_data \<Rightarrow> ty \<Rightarrow> bool" where
  "has_res d t \<longleftrightarrow> opcode_of d = OpCall \<or> \<not> ty_is_void t"

text \<open>Recording the uses of an instruction that was put into the table.\<close>

lemma update_uses_effect:
  assumes "pt2_index (dinsts g) i = Some d"
  shows "\<exists>g'. update_uses i g = Some g' \<and>
    g' = g\<lparr>value_uses := value_uses g', block_uses := block_uses g'\<rparr> \<and>
    (\<forall>k. users (value_uses g') k = (if k \<in> set (args d) then insert i (users (value_uses g) k) else users (value_uses g) k)) \<and>
    (\<forall>k. users (block_uses g') k = (if k \<in> set (inst_blocks d) then insert i (users (block_uses g) k) else users (block_uses g) k)) \<and>
    (\<forall>k. value_uses g k \<noteq> None \<longrightarrow> value_uses g' k \<noteq> None)"
  using assms note_uses_dom[of "value_uses g"] by (simp add: update_uses_def users_note_uses)

lemma actual_upd:
  assumes "inst_at g' = (inst_at g)(i \<mapsto> d)"
  shows "actual f g' k = (if k \<in> set (f d) then insert i (actual f g k) else actual f g k - {i})"
  unfolding actual_def assms by auto

lemma actual_del:
  assumes "inst_at g' = (inst_at g)(i := None)"
  shows "actual f g' k = actual f g k - {i}"
  unfolding actual_def assms by auto

lemma add_inst_dfg_effect:
  assumes wf: "dfg_wf g" and room: "pt2_room (dinsts g)" "pt2_room (dvalues g)"
      "length (storage (dvalues g)) + 1 < 2 ^ 32"
    and live: "\<forall>v \<in> set (args d). value_ok g v"
  shows "\<exists>i g'. add_inst_dfg d t g = Some (i, g') \<and> dfg_wf g' \<and> (dfg_exact g \<longrightarrow> dfg_exact g') \<and>
    inst_at g i = None \<and> inst_at g' = (inst_at g)(i \<mapsto> d) \<and>
    (if has_res d t then \<exists>r. dresults g' = (dresults g)(i \<mapsto> r) \<and> value_at g r = None \<and>
        value_at g' = (value_at g)(r \<mapsto> VInst t i)
     else dresults g' = dresults g \<and> value_at g' = value_at g) \<and>
    length (storage (dinsts g')) \<le> length (storage (dinsts g)) + 1 \<and>
    length (storage (dvalues g')) \<le> length (storage (dvalues g)) + 1"
proof -
  obtain i it where it: "pt2_add d (dinsts g) = Some (i, it)" "pt2_inv it" "pt2_lookup (dinsts g) i = None"
    "pt2_lookup it = (pt2_lookup (dinsts g))(i \<mapsto> d)" "i < length (storage it)"
    "length (storage (dinsts g)) \<le> length (storage it)" "length (storage it) \<le> length (storage (dinsts g)) + 1"
    using pt2_add_lookup[OF dfg_wfD(1)[OF wf] room(1)] by blast
  have at: "inst_at g i = None" using it(3) by (simp add: inst_at_def)
  have nores: "dresults g i = None" using dfg_wfD(7)[OF wf] at by blast
  have idx: "pt2_index it i = Some d" using pt2_lookup_index[OF it(2)] it(4) by simp
  have add: "add_value (VInst t i) (g\<lparr>dinsts := it\<rparr>) =
      map_option (\<lambda>(v, g'). (v, g'\<lparr>dinsts := it\<rparr>)) (add_value (VInst t i) g)"
    by (cases "pt2_add (VInst t i) (dvalues g)") (auto simp: add_value_def)
  obtain r g1 where g1: "add_value (VInst t i) g = Some (r, g1)" "value_at g r = None" "r \<noteq> key_invalid"
    "value_at g1 = (value_at g)(r \<mapsto> VInst t i)" "pt2_inv (dvalues g1)" "length (storage (dvalues g1)) < 2 ^ 32"
    "g1 = g\<lparr>dvalues := dvalues g1, value_uses := (value_uses g)(r \<mapsto> {})\<rparr>"
    "length (storage (dvalues g1)) \<le> length (storage (dvalues g)) + 1"
    using add_value_effect[OF wf room(2,3)] by blast
  have un: "actual args g r = {}" by (rule unused_when_dead[OF wf g1(2,3)])
  have rd: "r \<notin> set (args d)" using live g1(2,3) by (auto simp: value_ok_def)
  define g2 where "g2 = (if has_res d t then g1\<lparr>dinsts := it, dresults := (dresults g)(i \<mapsto> r)\<rparr>
      else g\<lparr>dinsts := it\<rparr>)"
  have "dresults g1 = dresults g" by (subst g1(7)) simp
  then have run: "add_inst_dfg d t g = Option.bind (update_uses i g2) (\<lambda>g. Some (i, g))"
    using it(1) add g1(1) nores
    by (auto simp: add_inst_dfg_def has_res_def[symmetric] g2_def st_add_def Let_def)
  have ins2: "dinsts g2 = it" by (simp add: g2_def)
  have vu2: "value_uses g2 = (if has_res d t then (value_uses g)(r \<mapsto> {}) else value_uses g)"
    and bu2: "block_uses g2 = block_uses g"
    and res2: "dresults g2 = (if has_res d t then (dresults g)(i \<mapsto> r) else dresults g)"
    and val2: "dvalues g2 = (if has_res d t then dvalues g1 else dvalues g)"
    by (simp_all add: g2_def) (subst g1(7), simp)+
  obtain g' where g': "update_uses i g2 = Some g'"
    "g' = g2\<lparr>value_uses := value_uses g', block_uses := block_uses g'\<rparr>"
    "\<forall>k. users (value_uses g') k = (if k \<in> set (args d) then insert i (users (value_uses g2) k) else users (value_uses g2) k)"
    "\<forall>k. users (block_uses g') k = (if k \<in> set (inst_blocks d) then insert i (users (block_uses g2) k) else users (block_uses g2) k)"
    "\<forall>k. value_uses g2 k \<noteq> None \<longrightarrow> value_uses g' k \<noteq> None"
    using update_uses_effect[of g2 i d] ins2 idx by auto
  have sel: "dinsts g' = it" "dresults g' = dresults g2" "dvalues g' = dvalues g2"
    by (subst g'(2), simp add: ins2)+
  have at': "inst_at g' = (inst_at g)(i \<mapsto> d)" using it(4) by (simp add: inst_at_def sel)
  have val': "value_at g' = (if has_res d t then (value_at g)(r \<mapsto> VInst t i) else value_at g)"
    using g1(4) by (simp add: value_at_def sel val2)
  have act: "actual f g' k = (if k \<in> set (f d) then insert i (actual f g k) else actual f g k)" for f k
    using actual_upd[OF at', of f k] at by (auto simp: actual_def)
  have len: "length (storage (dvalues g')) < 2 ^ 32" "pt2_inv (dvalues g')"
    using g1(5,6) dfg_wfD(2,3)[OF wf] by (simp_all add: sel val2)
  have uv: "users (value_uses g') k = (if k \<in> set (args d) then insert i (users (value_uses g) k)
      else if has_res d t \<and> k = r then {} else users (value_uses g) k)" for k
    using g'(3) rd by (auto simp: vu2)
  have ub: "users (block_uses g') k = (if k \<in> set (inst_blocks d) then insert i (users (block_uses g) k)
      else users (block_uses g) k)" for k
    using g'(4) by (simp add: bu2)
  have some: "value_uses g' v \<noteq> None" if "value_at g' v \<noteq> None" for v
    using that dfg_wfD(4)[OF wf, of v] g'(5)[rule_format, of v] by (auto simp: val' vu2 split: if_splits)
  have "dfg_wf g'"
    unfolding dfg_wf_def
  proof (intro conjI allI)
    show "pt2_inv (dinsts g')" using it(2) sel by simp
    show "pt2_inv (dvalues g')" "length (storage (dvalues g')) < 2 ^ 32" using len by simp_all
    show "value_at g' v \<noteq> None \<longrightarrow> value_uses g' v \<noteq> None" for v using some by blast
    show "inst_at g' j = Some e \<longrightarrow> (\<forall>v \<in> set (args e). value_ok g' v)" for j e
      using dfg_wfD(5)[OF wf, of j e] live by (auto simp: at' val' value_ok_def split: if_splits)
    show "dresults g' j = Some v \<longleftrightarrow> (\<exists>u. value_at g' v = Some (VInst u j))" for j v
      using dfg_wfD(6)[OF wf, of j v] nores g1(2) dfg_wfD(6)[OF wf, of i v]
      by (auto simp: sel res2 val')
    show "dresults g' j \<noteq> None \<longrightarrow> inst_at g' j \<noteq> None" for j
      using dfg_wfD(7)[OF wf, of j] by (auto simp: sel res2 at')
    show "actual args g' k \<subseteq> users (value_uses g') k" for k
      using dfg_wfD(8)[OF wf, of k] un by (auto simp: act uv)
    show "actual inst_blocks g' k \<subseteq> users (block_uses g') k" for k
      using dfg_wfD(9)[OF wf, of k] by (auto simp: act ub)
    show "users (value_uses g') k \<union> users (block_uses g') k \<subseteq> {..<length (storage (dinsts g'))}" for k
      using dfg_wfD(10)[OF wf, of _ k] dfg_wfD(11)[OF wf, of _ k] it(5,6) by (fastforce simp: uv ub sel split: if_splits)
  qed
  moreover have "dfg_exact g'" if "dfg_exact g"
    using that un rd unfolding dfg_exact_def by (auto simp: act uv ub)
  moreover have "length (storage (dvalues g')) \<le> length (storage (dvalues g)) + 1"
    using g1(8) by (simp add: sel val2)
  ultimately show ?thesis
    using run g'(1) at at' g1(2) it(7) by (auto simp: sel res2 val')
qed

text \<open>
  Removing an instruction: it panics when its result is still recorded as used, and
  otherwise forgets the instruction, its result and its uses.
\<close>

lemma remove_inst_dfg_effect:
  assumes wf: "dfg_wf g" and i: "inst_at g i = Some d"
    and unused: "\<And>r. dresults g i = Some r \<Longrightarrow> users (value_uses g) r = {}"
  shows "\<exists>g'. remove_inst_dfg i g = Some g' \<and> dfg_wf g' \<and> (dfg_exact g \<longrightarrow> dfg_exact g') \<and>
    inst_at g' = (inst_at g)(i := None) \<and> dresults g' = (dresults g)(i := None) \<and>
    value_at g' = (case dresults g i of None \<Rightarrow> value_at g | Some r \<Rightarrow> (value_at g)(r := None))"
proof -
  define g1 where "g1 = (case dresults g i of None \<Rightarrow> g
     | Some r \<Rightarrow> g\<lparr>dvalues := snd (the (pt2_remove VInvalid r (dvalues g))), value_uses := (value_uses g)(r := None)\<rparr>)"
  have val1: "pt2_inv (dvalues g1) \<and> length (storage (dvalues g1)) < 2 ^ 32 \<and>
      pt2_lookup (dvalues g1) = (case dresults g i of None \<Rightarrow> value_at g | Some r \<Rightarrow> (value_at g)(r := None)) \<and>
      (\<forall>r. dresults g i = Some r \<longrightarrow> remove_value r g = Some (the (value_at g r), g1) \<and> has_uses g r = Some False)"
  proof (cases "dresults g i")
    case None
    then show ?thesis using dfg_wfD(2,3)[OF wf] by (simp add: g1_def value_at_def)
  next
    case (Some r)
    then obtain t where t: "value_at g r = Some (VInst t i)" using dfg_wfD(6)[OF wf] by blast
    then obtain vt where "pt2_remove VInvalid r (dvalues g) = Some (VInst t i, vt)" "pt2_inv vt"
      "pt2_lookup vt = (pt2_lookup (dvalues g))(r := None)" "length (storage vt) = length (storage (dvalues g))"
      using pt2_remove_lookup[OF dfg_wfD(2)[OF wf], of r "VInst t i" VInvalid] unfolding value_at_def by blast
    moreover have "value_uses g r = Some {}"
      using dfg_wfD(4)[OF wf, of r] t unused[OF Some] by (auto simp: users_def)
    ultimately show ?thesis
      using Some t dfg_wfD(3)[OF wf] by (simp add: g1_def remove_value_def has_uses_def uses_def value_at_def)
  qed
  have sel1: "dinsts g1 = dinsts g" "dresults g1 = dresults g" "block_uses g1 = block_uses g"
    by (simp_all add: g1_def split: option.split)
  have uv1: "users (value_uses g1) k = users (value_uses g) k" for k
    using unused by (auto simp: g1_def split: option.split)
  obtain it where it: "pt2_remove inst_default i (dinsts g) = Some (d, it)" "pt2_inv it"
    "pt2_lookup it = (pt2_lookup (dinsts g))(i := None)" "length (storage it) = length (storage (dinsts g))"
    using pt2_remove_lookup[OF dfg_wfD(1)[OF wf], of i d inst_default] i unfolding inst_at_def by blast
  have run: "remove_inst_dfg i g = Option.bind (remove_uses i d (g1\<lparr>dinsts := it\<rparr>))
      (\<lambda>g. Some (g\<lparr>dresults := (dresults g)(i := None)\<rparr>))"
    using val1 it(1) sel1
    by (cases "dresults g i")
      (auto simp: remove_inst_dfg_def has_result_def st_contains_def inst_result_def st_index_def
        st_remove_def g1_def)
  have "i \<in> actual args g k" if "k \<in> set (args d)" for k using that i by (simp add: actual_def)
  then have "users (value_uses g1) k \<noteq> {}" if "k \<in> set (args d)" for k
    using that dfg_wfD(8)[OF wf, of k] by (auto simp: uv1)
  then have "\<forall>k \<in> set (args d). value_uses g1 k \<noteq> None" by (fastforce simp: users_def split: option.splits)
  then obtain vu where vu: "foldM (drop_use i) (args d) (value_uses g1) = Some vu" "dom vu = dom (value_uses g1)"
    "\<forall>k. users vu k = (if k \<in> set (args d) then users (value_uses g) k - {i} else users (value_uses g) k)"
    using drop_uses[of "args d" "value_uses g1" i] by (auto simp: uv1)
  have "i \<in> actual inst_blocks g k" if "k \<in> set (inst_blocks d)" for k using that i by (simp add: actual_def)
  then have "users (block_uses g) k \<noteq> {}" if "k \<in> set (inst_blocks d)" for k
    using that dfg_wfD(9)[OF wf, of k] by auto
  then have "\<forall>k \<in> set (inst_blocks d). block_uses g k \<noteq> None" by (fastforce simp: users_def split: option.splits)
  then obtain bu where bu: "foldM (drop_use i) (inst_blocks d) (block_uses g) = Some bu"
    "\<forall>k. users bu k = (if k \<in> set (inst_blocks d) then users (block_uses g) k - {i} else users (block_uses g) k)"
    using drop_uses[of "inst_blocks d" "block_uses g" i] by auto
  define g' where "g' = g1\<lparr>dinsts := it, value_uses := vu, block_uses := bu, dresults := (dresults g)(i := None)\<rparr>"
  have res: "remove_inst_dfg i g = Some g'"
    using run vu(1) bu(1) by (simp add: remove_uses_def sel1 g'_def)
  have at': "inst_at g' = (inst_at g)(i := None)" using it(3) by (simp add: inst_at_def g'_def)
  have val': "value_at g' = (case dresults g i of None \<Rightarrow> value_at g | Some r \<Rightarrow> (value_at g)(r := None))"
    using val1 by (simp add: value_at_def g'_def)
  have sel: "dresults g' = (dresults g)(i := None)" "value_uses g' = vu" "block_uses g' = bu" "dinsts g' = it"
    "dvalues g' = dvalues g1"
    by (simp_all add: g'_def)
  have act: "actual f g' k = actual f g k - {i}" for f k by (rule actual_del[OF at'])
  have "dfg_wf g'"
    unfolding dfg_wf_def
  proof (intro conjI allI)
    show "pt2_inv (dinsts g')" using it(2) sel by simp
    show "pt2_inv (dvalues g')" "length (storage (dvalues g')) < 2 ^ 32" using val1 sel by simp_all
    show "value_at g' v \<noteq> None \<longrightarrow> value_uses g' v \<noteq> None" for v
    proof
      assume v: "value_at g' v \<noteq> None"
      then have "value_uses g v \<noteq> None" using dfg_wfD(4)[OF wf, of v] by (auto simp: val' split: option.splits if_splits)
      then have "value_uses g1 v \<noteq> None" using v by (auto simp: g1_def val' split: option.splits if_splits)
      then show "value_uses g' v \<noteq> None" using vu(2) sel by (metis domIff)
    qed
    show "inst_at g' j = Some e \<longrightarrow> (\<forall>v \<in> set (args e). value_ok g' v)" for j e
    proof (intro impI ballI)
      fix v
      assume e: "inst_at g' j = Some e" and v: "v \<in> set (args e)"
      then have e': "inst_at g j = Some e" "j \<noteq> i" by (auto simp: at' split: if_splits)
      have "dresults g i \<noteq> Some v"
        using unused[of v] dfg_wfD(8)[OF wf, of v] e' v by (auto simp: actual_def)
      then show "value_ok g' v"
        using dfg_wfD(5)[OF wf e'(1) v] by (auto simp: value_ok_def val' split: option.splits)
    qed
    show "dresults g' j = Some v \<longleftrightarrow> (\<exists>u. value_at g' v = Some (VInst u j))" for j v
      using dfg_wfD(6)[OF wf, of j v] dfg_wfD(6)[OF wf, of i v]
      by (auto simp: sel val' split: option.splits)
    show "dresults g' j \<noteq> None \<longrightarrow> inst_at g' j \<noteq> None" for j
      using dfg_wfD(7)[OF wf, of j] by (auto simp: sel at')
    show "actual args g' k \<subseteq> users (value_uses g') k" for k
      using dfg_wfD(8)[OF wf, of k] vu(3) by (auto simp: act sel)
    show "actual inst_blocks g' k \<subseteq> users (block_uses g') k" for k
      using dfg_wfD(9)[OF wf, of k] bu(2) by (auto simp: act sel)
    show "users (value_uses g') k \<union> users (block_uses g') k \<subseteq> {..<length (storage (dinsts g'))}" for k
      using dfg_wfD(10)[OF wf, of _ k] dfg_wfD(11)[OF wf, of _ k] it(4) vu(3) bu(2) by (auto simp: sel)
  qed
  moreover have "dfg_exact g'" if "dfg_exact g"
    using that i vu(3) bu(2) unfolding dfg_exact_def by (auto simp: act sel) (auto simp: actual_def)
  ultimately show ?thesis using res at' sel val' by blast
qed

section \<open>Rewriting instructions in place\<close>

text \<open>
  The common part of the operations that rewrite one instruction \<open>i\<close>: put the new
  instruction in its slot, forget the old use (of a value or of a block), record the uses of
  the new instruction. The slot may be a free one when the use is stale.
\<close>

lemma rewrite_inst_effect:
  assumes wf: "dfg_wf g" and i: "i < length (storage (dinsts g))" and d: "pt2_index (dinsts g) i = Some d"
    and vm: "vm = value_uses g \<or> vm = forget_use i kv (value_uses g)"
    and bm: "bm = block_uses g \<or> bm = forget_use i kb (block_uses g)"
    and live: "inst_at g i \<noteq> None \<Longrightarrow> \<forall>v \<in> set (args d'). value_ok g v"
  shows "\<exists>it g'. pt2_index_mut i d' (dinsts g) = Some it \<and>
    update_uses i (g\<lparr>dinsts := it, value_uses := vm, block_uses := bm\<rparr>) = Some g' \<and> dfg_wf g' \<and>
    inst_at g' = (if inst_at g i = None then inst_at g else (inst_at g)(i \<mapsto> d')) \<and>
    value_at g' = value_at g \<and> dresults g' = dresults g \<and>
    length (storage (dinsts g')) = length (storage (dinsts g)) \<and>
    (\<forall>k. users (value_uses g') k = (if k \<in> set (args d') then insert i (users vm k) else users vm k)) \<and>
    (\<forall>k. users (block_uses g') k = (if k \<in> set (inst_blocks d') then insert i (users bm k) else users bm k))"
proof -
  obtain it where it: "pt2_index_mut i d' (dinsts g) = Some it" "pt2_inv it"
    "length (storage it) = length (storage (dinsts g))"
    "pt2_lookup it = (if pt2_lookup (dinsts g) i = None then pt2_lookup (dinsts g) else (pt2_lookup (dinsts g))(i \<mapsto> d'))"
    using pt2_index_mut_lookup[OF dfg_wfD(1)[OF wf] i] by blast
  have idx: "pt2_index it i = Some d'"
    using it(1) i by (auto simp: pt2_index_mut_def pt2_index_def idx_def idx_set_def)
  let ?g = "g\<lparr>dinsts := it, value_uses := vm, block_uses := bm\<rparr>"
  obtain g' where g': "update_uses i ?g = Some g'"
    "g' = ?g\<lparr>value_uses := value_uses g', block_uses := block_uses g'\<rparr>"
    "\<forall>k. users (value_uses g') k = (if k \<in> set (args d') then insert i (users vm k) else users vm k)"
    "\<forall>k. users (block_uses g') k = (if k \<in> set (inst_blocks d') then insert i (users bm k) else users bm k)"
    "\<forall>k. vm k \<noteq> None \<longrightarrow> value_uses g' k \<noteq> None"
    using update_uses_effect[of ?g i d'] idx by auto
  have sel: "dinsts g' = it" "dresults g' = dresults g" "dvalues g' = dvalues g"
    by (subst g'(2), simp)+
  have at: "inst_at g' = (if inst_at g i = None then inst_at g else (inst_at g)(i \<mapsto> d'))"
    using it(4) by (simp add: inst_at_def sel)
  have val: "value_at g' = value_at g" by (simp add: value_at_def sel)
  have uv: "users vm k \<subseteq> users (value_uses g) k" "users (value_uses g) k \<subseteq> insert i (users vm k)" for k
    using vm by (auto simp: users_forget_use split: if_splits)
  have ub: "users bm k \<subseteq> users (block_uses g) k" "users (block_uses g) k \<subseteq> insert i (users bm k)" for k
    using bm by (auto simp: users_forget_use split: if_splits)
  have act: "actual f g' k - {i} = actual f g k - {i}" "i \<in> actual f g' k \<Longrightarrow> k \<in> set (f d')" for f k
    unfolding actual_def at by (auto split: if_splits)
  have "dfg_wf g'"
    unfolding dfg_wf_def
  proof (intro conjI allI)
    show "pt2_inv (dinsts g')" "pt2_inv (dvalues g')" "length (storage (dvalues g')) < 2 ^ 32"
      using it(2) dfg_wfD(2,3)[OF wf] sel by simp_all
    show "value_at g' v \<noteq> None \<longrightarrow> value_uses g' v \<noteq> None" for v
      using dfg_wfD(4)[OF wf, of v] vm g'(5) forget_use_dom[of "value_uses g" v i kv] val by auto
    show "inst_at g' j = Some e \<longrightarrow> (\<forall>v \<in> set (args e). value_ok g' v)" for j e
      using dfg_wfD(5)[OF wf, of j e] live by (auto simp: at value_ok_def val split: if_splits)
    show "dresults g' j = Some v \<longleftrightarrow> (\<exists>u. value_at g' v = Some (VInst u j))" for j v
      using dfg_wfD(6)[OF wf, of j v] by (simp add: sel val)
    show "dresults g' j \<noteq> None \<longrightarrow> inst_at g' j \<noteq> None" for j
      using dfg_wfD(7)[OF wf, of j] by (auto simp: sel at)
    show "actual args g' k \<subseteq> users (value_uses g') k" for k
    proof
      fix j
      assume j: "j \<in> actual args g' k"
      then show "j \<in> users (value_uses g') k"
        using act[of args k] dfg_wfD(8)[OF wf, of k] uv(2)[of k] g'(3)[rule_format, of k]
        by (cases "j = i") (simp, fastforce split: if_splits)
    qed
    show "actual inst_blocks g' k \<subseteq> users (block_uses g') k" for k
    proof
      fix j
      assume j: "j \<in> actual inst_blocks g' k"
      then show "j \<in> users (block_uses g') k"
        using act[of inst_blocks k] dfg_wfD(9)[OF wf, of k] ub(2)[of k] g'(4)[rule_format, of k]
        by (cases "j = i") (simp, fastforce split: if_splits)
    qed
    show "users (value_uses g') k \<union> users (block_uses g') k \<subseteq> {..<length (storage (dinsts g'))}" for k
      using dfg_wfD(10)[OF wf, of _ k] dfg_wfD(11)[OF wf, of _ k] it(3) i uv(1)[of k] ub(1)[of k]
        g'(3)[rule_format, of k] g'(4)[rule_format, of k] sel
      by (auto split: if_splits)
  qed
  then show ?thesis using it(1,3) g'(1,3,4) at val sel by blast
qed

definition subst :: "nat \<Rightarrow> nat \<Rightarrow> nat \<Rightarrow> nat" where
  "subst from to a = (if a = from then to else a)"

lemma args_mut_id: "(\<And>a. a \<in> set (args d) \<Longrightarrow> f a = a) \<Longrightarrow> args_mut f d = d"
  by (cases d) (auto simp: args_def args_mut_def map_idI split: if_splits)

lemma replace_value_subst: "replace_value from to d = (args_mut (subst from to) d, count_list (args d) from)"
  by (simp add: replace_value_def subst_def[abs_def])

lemma set_subst: "from \<noteq> to \<Longrightarrow> set (map (subst from to) xs) =
    (if from \<in> set xs then insert to (set xs - {from}) else set xs)"
  by (auto simp: subst_def)

lemma replace_value_within_inst_effect:
  assumes wf: "dfg_wf g" and i: "i < length (storage (dinsts g))" and to: "value_ok g to" and ne: "from \<noteq> to"
  shows "\<exists>n g'. replace_value_within_inst from to i g = Some (n, g') \<and> dfg_wf g' \<and>
    inst_at g' = (\<lambda>j. if j = i then map_option (args_mut (subst from to)) (inst_at g i) else inst_at g j) \<and>
    value_at g' = value_at g \<and> dresults g' = dresults g \<and>
    length (storage (dinsts g')) = length (storage (dinsts g)) \<and>
    users (value_uses g') from = users (value_uses g) from - {i} \<and>
    (inst_at g i \<noteq> None \<longrightarrow> n = count_list (args (the (inst_at g i))) from \<and> (dfg_exact g \<longrightarrow> dfg_exact g'))"
proof -
  obtain d where d: "pt2_index (dinsts g) i = Some d" using i by (auto simp: pt2_index_def idx_def)
  let ?d' = "args_mut (subst from to) d"
  have at: "inst_at g i = Some d" if "inst_at g i \<noteq> None"
    using that d pt2_lookup_index[OF dfg_wfD(1)[OF wf], of i] by (auto simp: inst_at_def)
  then have live: "\<forall>v \<in> set (args ?d'). value_ok g v" if "inst_at g i \<noteq> None"
    using dfg_wfD(5)[OF wf, of i d] that to by (auto simp: subst_def)
  obtain it g' where g': "pt2_index_mut i ?d' (dinsts g) = Some it"
    "update_uses i (g\<lparr>dinsts := it, value_uses := forget_use i from (value_uses g), block_uses := block_uses g\<rparr>) = Some g'"
    "dfg_wf g'" "inst_at g' = (if inst_at g i = None then inst_at g else (inst_at g)(i \<mapsto> ?d'))"
    "value_at g' = value_at g" "dresults g' = dresults g" "length (storage (dinsts g')) = length (storage (dinsts g))"
    "\<forall>k. users (value_uses g') k = (if k \<in> set (args ?d') then insert i (users (forget_use i from (value_uses g)) k)
       else users (forget_use i from (value_uses g)) k)"
    "\<forall>k. users (block_uses g') k = (if k \<in> set (inst_blocks ?d') then insert i (users (block_uses g) k) else users (block_uses g) k)"
    using rewrite_inst_effect[OF wf i d, of "forget_use i from (value_uses g)" "from" "block_uses g" 0 ?d'] live by blast
  have run: "replace_value_within_inst from to i g = Some (count_list (args d) from, g')"
    using d g'(1,2) by (simp add: replace_value_within_inst_def replace_value_subst)
  have dead: "from \<notin> set (map (subst from to) (args d))" using ne by (auto simp: subst_def)
  have uf: "users (value_uses g') from = users (value_uses g) from - {i}"
    using g'(8)[rule_format, of "from"] dead by (simp add: users_forget_use)
  have ex: "dfg_exact g'" if "inst_at g i \<noteq> None" "dfg_exact g"
    unfolding dfg_exact_def
  proof (intro conjI allI)
    note at' = at[OF that(1)]
    have act: "actual f g' k = (if k \<in> set (f ?d') then insert i (actual f g k) else actual f g k - {i})" for f k
      by (rule actual_upd) (use g'(4) at' in simp)
    show "users (value_uses g') k = actual args g' k" for k
      using g'(8)[rule_format, of k] that(2) at' dead set_subst[OF ne, of "args d"]
      unfolding act dfg_exact_def
      by (cases "k = from") (auto simp: users_forget_use actual_def split: if_splits)
    show "users (block_uses g') k = actual inst_blocks g' k" for k
      using g'(9)[rule_format, of k] that(2) at' unfolding act dfg_exact_def
      by (auto simp: actual_def)
  qed
  have ia: "inst_at g' = (\<lambda>j. if j = i then map_option (args_mut (subst from to)) (inst_at g i) else inst_at g j)"
    using g'(4) at by (auto simp: fun_eq_iff)
  have "count_list (args d) from = count_list (args (the (inst_at g i))) from" if "inst_at g i \<noteq> None"
    using at[OF that] by simp
  then show ?thesis
    using run g'(3) ia g'(5-7) uf ex by blast
qed

text \<open>The loops over the users of a value or of a block.\<close>

definition replace_all :: "(inst_data \<Rightarrow> inst_data) \<Rightarrow> nat set \<Rightarrow> data_flow_graph \<Rightarrow> nat \<Rightarrow> inst_data option" where
  "replace_all f S g j = (if j \<in> S then map_option f (inst_at g j) else inst_at g j)"

text \<open>
  One step rewrites instruction \<open>i\<close> by \<open>f\<close> and keeps \<open>I\<close>; \<open>U\<close> is a set of users that loses
  \<open>i\<close>, \<open>E\<close> a property that is kept when the instruction exists, \<open>c\<close> the number returned.
\<close>

definition in_place :: "(nat \<Rightarrow> data_flow_graph \<Rightarrow> (nat \<times> data_flow_graph) option) \<Rightarrow> (inst_data \<Rightarrow> inst_data) \<Rightarrow>
    (inst_data \<Rightarrow> nat) \<Rightarrow> (data_flow_graph \<Rightarrow> bool) \<Rightarrow> (data_flow_graph \<Rightarrow> bool) \<Rightarrow>
    (data_flow_graph \<Rightarrow> nat set) \<Rightarrow> bool" where
  "in_place step f c I E U \<longleftrightarrow> (\<forall>g i. I g \<longrightarrow> i < length (storage (dinsts g)) \<longrightarrow>
     (\<exists>n g'. step i g = Some (n, g') \<and> I g' \<and>
       inst_at g' = (\<lambda>j. if j = i then map_option f (inst_at g i) else inst_at g j) \<and>
       value_at g' = value_at g \<and> dresults g' = dresults g \<and>
       length (storage (dinsts g')) = length (storage (dinsts g)) \<and> U g' = U g - {i} \<and>
       (inst_at g i \<noteq> None \<longrightarrow> n = c (the (inst_at g i)) \<and> (E g \<longrightarrow> E g'))))"

lemma in_place_loop:
  assumes step: "in_place step f c I E U"
    and "I g" "\<forall>i \<in> set is. i < length (storage (dinsts g))" "distinct is"
  shows "\<exists>n g'. foldM (\<lambda>i (n, g). do { (k, g) \<leftarrow> step i g; Some (n + k, g) }) is (n0, g) = Some (n0 + n, g') \<and>
    I g' \<and> inst_at g' = replace_all f (set is) g \<and>
    value_at g' = value_at g \<and> dresults g' = dresults g \<and> U g' = U g - set is \<and>
    ((\<forall>i \<in> set is. inst_at g i \<noteq> None) \<longrightarrow>
       n = sum_list (map (\<lambda>i. c (the (inst_at g i))) is) \<and> (E g \<longrightarrow> E g'))"
  using assms(2-)
proof (induction "is" arbitrary: n0 g)
  case Nil
  then show ?case by (simp add: replace_all_def fun_eq_iff)
next
  case (Cons i "is")
  have lt: "i < length (storage (dinsts g))" using Cons.prems(2) by simp
  obtain k g1 where g1: "step i g = Some (k, g1)" "I g1"
    "inst_at g1 = (\<lambda>j. if j = i then map_option f (inst_at g i) else inst_at g j)"
    "value_at g1 = value_at g" "dresults g1 = dresults g"
    "length (storage (dinsts g1)) = length (storage (dinsts g))" "U g1 = U g - {i}"
    "inst_at g i \<noteq> None \<longrightarrow> k = c (the (inst_at g i)) \<and> (E g \<longrightarrow> E g1)"
    using step[unfolded in_place_def, rule_format, OF Cons.prems(1) lt] by blast
  obtain n g' where g': "foldM (\<lambda>i (n, g). do { (k, g) \<leftarrow> step i g; Some (n + k, g) }) is (n0 + k, g1) = Some (n0 + k + n, g')"
    "I g'" "inst_at g' = replace_all f (set is) g1" "value_at g' = value_at g1" "dresults g' = dresults g1"
    "U g' = U g1 - set is"
    "(\<forall>i \<in> set is. inst_at g1 i \<noteq> None) \<longrightarrow>
       n = sum_list (map (\<lambda>i. c (the (inst_at g1 i))) is) \<and> (E g1 \<longrightarrow> E g')"
    using Cons.IH[of g1 "n0 + k"] Cons.prems g1(2,6) by auto
  have ni: "i \<notin> set is" using Cons.prems(3) by simp
  have same: "inst_at g1 j = inst_at g j" if "j \<in> set is" for j using that ni g1(3) by auto
  have "inst_at g' = replace_all f (set (i # is)) g"
    using ni by (auto simp: g'(3) g1(3) replace_all_def fun_eq_iff)
  moreover have "foldM (\<lambda>i (n, g). do { (k, g) \<leftarrow> step i g; Some (n + k, g) }) (i # is) (n0, g) = Some (n0 + (k + n), g')"
    using g1(1) g'(1) by (simp add: add.assoc)
  moreover have "U g' = U g - set (i # is)" using g'(6) g1(7) by auto
  moreover have "k + n = sum_list (map (\<lambda>i. c (the (inst_at g i))) (i # is)) \<and> (E g \<longrightarrow> E g')"
    if "\<forall>j \<in> set (i # is). inst_at g j \<noteq> None"
    using that g1(8) g'(7) same by (simp cong: map_cong)
  ultimately show ?case using g'(2,4,5) g1(4,5) by metis
qed

lemma replace_value_in_place:
  assumes "from \<noteq> to"
  shows "in_place (replace_value_within_inst from to) (args_mut (subst from to)) (\<lambda>d. count_list (args d) from)
    (\<lambda>g. dfg_wf g \<and> value_ok g to) dfg_exact (\<lambda>g. users (value_uses g) from)"
  unfolding in_place_def
proof (intro allI impI, elim conjE)
  fix g i
  assume "dfg_wf g" "value_ok g to" "i < length (storage (dinsts g))"
  from replace_value_within_inst_effect[OF this(1,3,2) assms]
  obtain n g' where g': "replace_value_within_inst from to i g = Some (n, g')" "dfg_wf g'"
    "inst_at g' = (\<lambda>j. if j = i then map_option (args_mut (subst from to)) (inst_at g i) else inst_at g j)"
    "value_at g' = value_at g" "dresults g' = dresults g"
    "length (storage (dinsts g')) = length (storage (dinsts g))"
    "users (value_uses g') from = users (value_uses g) from - {i}"
    "inst_at g i \<noteq> None \<longrightarrow> n = count_list (args (the (inst_at g i))) from \<and> (dfg_exact g \<longrightarrow> dfg_exact g')"
    by blast
  moreover have "value_ok g' to" using \<open>value_ok g to\<close> g'(4) by (simp add: value_ok_def)
  ultimately show "\<exists>n g'. replace_value_within_inst from to i g = Some (n, g') \<and> (dfg_wf g' \<and> value_ok g' to) \<and>
    inst_at g' = (\<lambda>j. if j = i then map_option (args_mut (subst from to)) (inst_at g i) else inst_at g j) \<and>
    value_at g' = value_at g \<and> dresults g' = dresults g \<and>
    length (storage (dinsts g')) = length (storage (dinsts g)) \<and>
    users (value_uses g') from = users (value_uses g) from - {i} \<and>
    (inst_at g i \<noteq> None \<longrightarrow> n = count_list (args (the (inst_at g i))) from \<and> (dfg_exact g \<longrightarrow> dfg_exact g'))"
    by blast
qed

text \<open>A block: rewriting or removing it in one instruction.\<close>

lemma blocks_mut_id: "(\<And>b. b \<in> set (inst_blocks d) \<Longrightarrow> f b = b) \<Longrightarrow> blocks_mut f d = d"
  by (cases d) (auto simp: inst_blocks_def blocks_mut_def map_idI)

lemma replace_block_subst: "replace_block from to d = (blocks_mut (subst from to) d, count_list (inst_blocks d) from)"
  by (simp add: replace_block_def subst_def[abs_def])

lemma replace_block_within_inst_effect:
  assumes wf: "dfg_wf g" and i: "i < length (storage (dinsts g))" and ne: "from \<noteq> to"
  shows "\<exists>n g'. replace_block_within_inst from to i g = Some (n, g') \<and> dfg_wf g' \<and>
    inst_at g' = (\<lambda>j. if j = i then map_option (blocks_mut (subst from to)) (inst_at g i) else inst_at g j) \<and>
    value_at g' = value_at g \<and> dresults g' = dresults g \<and>
    length (storage (dinsts g')) = length (storage (dinsts g)) \<and>
    users (block_uses g') from = users (block_uses g) from - {i} \<and>
    (inst_at g i \<noteq> None \<longrightarrow> n = count_list (inst_blocks (the (inst_at g i))) from \<and> (dfg_exact g \<longrightarrow> dfg_exact g'))"
proof -
  obtain d where d: "pt2_index (dinsts g) i = Some d" using i by (auto simp: pt2_index_def idx_def)
  let ?d' = "blocks_mut (subst from to) d"
  have at: "inst_at g i = Some d" if "inst_at g i \<noteq> None"
    using that d pt2_lookup_index[OF dfg_wfD(1)[OF wf], of i] by (auto simp: inst_at_def)
  then have live: "\<forall>v \<in> set (args ?d'). value_ok g v" if "inst_at g i \<noteq> None"
    using dfg_wfD(5)[OF wf, of i d] that by simp
  obtain it g' where g': "pt2_index_mut i ?d' (dinsts g) = Some it"
    "update_uses i (g\<lparr>dinsts := it, value_uses := value_uses g, block_uses := forget_use i from (block_uses g)\<rparr>) = Some g'"
    "dfg_wf g'" "inst_at g' = (if inst_at g i = None then inst_at g else (inst_at g)(i \<mapsto> ?d'))"
    "value_at g' = value_at g" "dresults g' = dresults g" "length (storage (dinsts g')) = length (storage (dinsts g))"
    "\<forall>k. users (value_uses g') k = (if k \<in> set (args ?d') then insert i (users (value_uses g) k) else users (value_uses g) k)"
    "\<forall>k. users (block_uses g') k = (if k \<in> set (inst_blocks ?d') then insert i (users (forget_use i from (block_uses g)) k)
       else users (forget_use i from (block_uses g)) k)"
    using rewrite_inst_effect[OF wf i d, of "value_uses g" 0 "forget_use i from (block_uses g)" "from" ?d'] live by blast
  have run: "replace_block_within_inst from to i g = Some (count_list (inst_blocks d) from, g')"
    using d g'(1,2) by (simp add: replace_block_within_inst_def replace_block_subst)
  have dead: "from \<notin> set (map (subst from to) (inst_blocks d))" using ne by (auto simp: subst_def)
  have uf: "users (block_uses g') from = users (block_uses g) from - {i}"
    using g'(9)[rule_format, of "from"] dead by (simp add: users_forget_use)
  have ex: "dfg_exact g'" if "inst_at g i \<noteq> None" "dfg_exact g"
    unfolding dfg_exact_def
  proof (intro conjI allI)
    note at' = at[OF that(1)]
    have act: "actual f g' k = (if k \<in> set (f ?d') then insert i (actual f g k) else actual f g k - {i})" for f k
      by (rule actual_upd) (use g'(4) at' in simp)
    show "users (block_uses g') k = actual inst_blocks g' k" for k
      using g'(9)[rule_format, of k] that(2) at' dead set_subst[OF ne, of "inst_blocks d"]
      unfolding act dfg_exact_def
      by (cases "k = from") (auto simp: users_forget_use actual_def split: if_splits)
    show "users (value_uses g') k = actual args g' k" for k
      using g'(8)[rule_format, of k] that(2) at' unfolding act dfg_exact_def
      by (auto simp: actual_def)
  qed
  have ia: "inst_at g' = (\<lambda>j. if j = i then map_option (blocks_mut (subst from to)) (inst_at g i) else inst_at g j)"
    using g'(4) at by (auto simp: fun_eq_iff)
  have "count_list (inst_blocks d) from = count_list (inst_blocks (the (inst_at g i))) from" if "inst_at g i \<noteq> None"
    using at[OF that] by simp
  then show ?thesis using run g'(3) ia g'(5-7) uf ex by blast
qed

lemma replace_block_in_place:
  assumes "from \<noteq> to"
  shows "in_place (replace_block_within_inst from to) (blocks_mut (subst from to)) (\<lambda>d. count_list (inst_blocks d) from)
    dfg_wf dfg_exact (\<lambda>g. users (block_uses g) from)"
  unfolding in_place_def using replace_block_within_inst_effect[OF _ _ assms] by blast

text \<open>
  Removing a block. A phi node loses entries, so it may use fewer values; the recorded
  users of those values are not updated.
\<close>

definition phi_ok :: "inst_data \<Rightarrow> bool" where
  "phi_ok d \<longleftrightarrow> (case d of IPhi _ as bs \<Rightarrow> length as = length bs | _ \<Rightarrow> True)"

definition without_block :: "nat \<Rightarrow> inst_data \<Rightarrow> inst_data" where
  "without_block b d = fst (the (inst_remove_block b d))"

lemma phi_step_lengths:
  assumes "length bs = length as"
  shows "\<exists>bs' as' n'. phi_remove_step b i (bs, as, n) = Some (bs', as', n') \<and> length bs' = length as' \<and>
    set bs' \<subseteq> set bs \<and> set as' \<subseteq> set as"
proof (cases "i < length bs \<and> bs ! i = b")
  case True
  then obtain bs' as' where "swap_remove bs i = Some bs'" "swap_remove as i = Some as'" "length bs' = length as'"
    using swap_remove_zip[OF assms] by blast
  moreover from this have "set bs' \<subseteq> set bs" "set as' \<subseteq> set as"
    using mset_swap_remove[of i bs] mset_swap_remove[of i as] True assms
    by (metis mset_eq_setD option.inject set_mset_add_mset_insert set_mset_mset subset_insertI)+
  ultimately show ?thesis using True by (simp add: phi_remove_step_def)
qed (auto simp: phi_remove_step_def assms)

lemma phi_loop_lengths:
  assumes "length bs = length as"
  shows "\<exists>bs' as' n'. foldM (phi_remove_step b) is (bs, as, n) = Some (bs', as', n') \<and> length bs' = length as' \<and>
    set bs' \<subseteq> set bs \<and> set as' \<subseteq> set as"
  using assms
proof (induction "is" arbitrary: bs as n)
  case (Cons i "is")
  obtain bs1 as1 n1 where 1: "phi_remove_step b i (bs, as, n) = Some (bs1, as1, n1)" "length bs1 = length as1"
    "set bs1 \<subseteq> set bs" "set as1 \<subseteq> set as"
    using phi_step_lengths[OF Cons.prems] by blast
  then show ?case using Cons.IH[OF 1(2), of n1] by fastforce
qed simp

lemma inst_remove_block_effect:
  assumes "phi_ok d"
  shows "\<exists>n. inst_remove_block b d = Some (without_block b d, n)" "set (args (without_block b d)) \<subseteq> set (args d)"
    "phi_ok (without_block b d)"
proof -
  have "\<exists>d' n. inst_remove_block b d = Some (d', n) \<and> set (args d') \<subseteq> set (args d) \<and> phi_ok d'"
  proof (cases d)
    case (IPhi op as bs)
    then obtain bs' as' n' where "foldM (phi_remove_step b) [0..<length bs] (bs, as, 0) = Some (bs', as', n')"
      "length bs' = length as'" "set as' \<subseteq> set as"
      using assms phi_loop_lengths[of bs as b "[0..<length bs]" 0] by (auto simp: phi_ok_def)
    then show ?thesis using IPhi by (simp add: inst_remove_block_def args_def phi_ok_def)
  qed (use assms in \<open>auto simp: inst_remove_block_def replace_block_def phi_ok_def blocks_mut_def args_def\<close>)
  then show "\<exists>n. inst_remove_block b d = Some (without_block b d, n)" "set (args (without_block b d)) \<subseteq> set (args d)"
    "phi_ok (without_block b d)"
    by (auto simp: without_block_def)
qed

definition dfg_phi_ok :: "data_flow_graph \<Rightarrow> bool" where
  "dfg_phi_ok g \<longleftrightarrow> (\<forall>d \<in> set (storage (dinsts g)). phi_ok d)"

end
