(* ===== verification/UseLists.thy ===== *)
theory UseLists
  imports DfgInv
begin

text \<open>
  What the operations on the data flow graph promise: the tables stay consistent, the
  recorded uses stay right, and replacing a value or a block reaches every use of it. The
  order in which a \<^verbatim>\<open>HashSet\<close> is iterated is any function \<open>ord\<close> that lists a finite set
  without repetition.
\<close>

definition lists_sets :: "(nat set \<Rightarrow> nat list) \<Rightarrow> bool" where
  "lists_sets ord \<longleftrightarrow> (\<forall>S. finite S \<longrightarrow> set (ord S) = S \<and> distinct (ord S))"

lemma lists_sets_sorted: "lists_sets sorted_list_of_set"
  by (simp add: lists_sets_def)

lemma elems_users:
  assumes "lists_sets ord" and "users m k \<subseteq> {..<(n::nat)}"
  shows "set (elems ord m k) = users m k" "distinct (elems ord m k)"
proof -
  have "finite (users m k)" using assms(2) finite_subset by blast
  then show "set (elems ord m k) = users m k" "distinct (elems ord m k)"
    using assms(1) by (auto simp: elems_def users_def lists_sets_def split: option.splits)
qed

lemma users_bound:
  assumes "dfg_wf g"
  shows "users (value_uses g) k \<subseteq> {..<length (storage (dinsts g))}"
    "users (block_uses g) k \<subseteq> {..<length (storage (dinsts g))}"
  using assms unfolding dfg_wf_def by blast+

text \<open>Rewriting all recorded users rewrites every instruction, since no user is missed.\<close>

lemma replace_all_users:
  assumes cover: "actual f g k \<subseteq> S"
    and other: "\<And>d. k \<notin> set (f d) \<Longrightarrow> h d = d"
  shows "replace_all h S g = (\<lambda>i. map_option h (inst_at g i))"
proof
  fix i
  show "replace_all h S g i = map_option h (inst_at g i)"
  proof (cases "inst_at g i")
    case (Some d)
    have "h d = d" if "i \<notin> S" using that cover other[of d] Some by (auto simp: actual_def)
    then show ?thesis using Some by (simp add: replace_all_def)
  qed (simp add: replace_all_def)
qed

lemma replace_use_effect:
  assumes wf: "dfg_wf g" and ord: "lists_sets ord" and to: "value_ok g to" and ne: "from \<noteq> to"
  shows "\<exists>n g'. replace_use ord from to g = Some (n, g') \<and> dfg_wf g' \<and>
    inst_at g' = (\<lambda>i. map_option (args_mut (subst from to)) (inst_at g i)) \<and>
    value_at g' = value_at g \<and> dresults g' = dresults g \<and> users (value_uses g') from = {} \<and>
    (dfg_exact g \<longrightarrow> dfg_exact g' \<and>
       n = sum_list (map (\<lambda>i. count_list (args (the (inst_at g i))) from) (elems ord (value_uses g) from)))"
proof -
  note el = elems_users[OF ord users_bound(1)[OF wf], of "from"]
  have lt: "\<forall>i \<in> set (elems ord (value_uses g) from). i < length (storage (dinsts g))"
    using el(1) users_bound(1)[OF wf, of "from"] by auto
  have id: "args_mut (subst from to) d = d" if "from \<notin> set (args d)" for d
    using that by (intro args_mut_id) (auto simp: subst_def)
  have all: "replace_all (args_mut (subst from to)) (users (value_uses g) from) g
      = (\<lambda>i. map_option (args_mut (subst from to)) (inst_at g i))"
    using replace_all_users[OF dfg_wfD(8)[OF wf, of "from"]] id by blast
  have ex: "\<forall>i \<in> set (elems ord (value_uses g) from). inst_at g i \<noteq> None" if "dfg_exact g"
    using that el(1) by (auto simp: dfg_exact_def actual_def)
  obtain n g' where g': "foldM (\<lambda>i (n, g). do { (k, g) \<leftarrow> replace_value_within_inst from to i g; Some (n + k, g) })
        (elems ord (value_uses g) from) (0, g) = Some (0 + n, g')" "dfg_wf g' \<and> value_ok g' to"
    "inst_at g' = replace_all (args_mut (subst from to)) (set (elems ord (value_uses g) from)) g"
    "value_at g' = value_at g" "dresults g' = dresults g"
    "users (value_uses g') from = users (value_uses g) from - set (elems ord (value_uses g) from)"
    "(\<forall>i \<in> set (elems ord (value_uses g) from). inst_at g i \<noteq> None) \<longrightarrow>
       n = sum_list (map (\<lambda>i. count_list (args (the (inst_at g i))) from) (elems ord (value_uses g) from)) \<and>
       (dfg_exact g \<longrightarrow> dfg_exact g')"
    using in_place_loop[OF replace_value_in_place[OF ne] _ lt el(2), where ?n0.0 = 0] wf to by blast
  then show ?thesis
    unfolding replace_use_def using el(1) all ex by (intro exI[of _ n] exI[of _ g']) simp
qed

lemma replace_block_use_effect:
  assumes wf: "dfg_wf g" and ord: "lists_sets ord" and ne: "from \<noteq> to"
  shows "\<exists>n g'. replace_block_use ord from to g = Some (n, g') \<and> dfg_wf g' \<and>
    inst_at g' = (\<lambda>i. map_option (blocks_mut (subst from to)) (inst_at g i)) \<and>
    value_at g' = value_at g \<and> dresults g' = dresults g \<and> users (block_uses g') from = {} \<and>
    (dfg_exact g \<longrightarrow> dfg_exact g' \<and>
       n = sum_list (map (\<lambda>i. count_list (inst_blocks (the (inst_at g i))) from) (elems ord (block_uses g) from)))"
proof -
  note el = elems_users[OF ord users_bound(2)[OF wf], of "from"]
  have lt: "\<forall>i \<in> set (elems ord (block_uses g) from). i < length (storage (dinsts g))"
    using el(1) users_bound(2)[OF wf, of "from"] by auto
  have id: "blocks_mut (subst from to) d = d" if "from \<notin> set (inst_blocks d)" for d
    using that by (intro blocks_mut_id) (auto simp: subst_def)
  have all: "replace_all (blocks_mut (subst from to)) (users (block_uses g) from) g
      = (\<lambda>i. map_option (blocks_mut (subst from to)) (inst_at g i))"
    using replace_all_users[OF dfg_wfD(9)[OF wf, of "from"]] id by blast
  have ex: "\<forall>i \<in> set (elems ord (block_uses g) from). inst_at g i \<noteq> None" if "dfg_exact g"
    using that el(1) by (auto simp: dfg_exact_def actual_def)
  obtain n g' where g': "foldM (\<lambda>i (n, g). do { (k, g) \<leftarrow> replace_block_within_inst from to i g; Some (n + k, g) })
        (elems ord (block_uses g) from) (0, g) = Some (0 + n, g')" "dfg_wf g'"
    "inst_at g' = replace_all (blocks_mut (subst from to)) (set (elems ord (block_uses g) from)) g"
    "value_at g' = value_at g" "dresults g' = dresults g"
    "users (block_uses g') from = users (block_uses g) from - set (elems ord (block_uses g) from)"
    "(\<forall>i \<in> set (elems ord (block_uses g) from). inst_at g i \<noteq> None) \<longrightarrow>
       n = sum_list (map (\<lambda>i. count_list (inst_blocks (the (inst_at g i))) from) (elems ord (block_uses g) from)) \<and>
       (dfg_exact g \<longrightarrow> dfg_exact g')"
    using in_place_loop[OF replace_block_in_place[OF ne] wf lt el(2), where ?n0.0 = 0] by blast
  then show ?thesis
    unfolding replace_block_use_def using el(1) all ex by (intro exI[of _ n] exI[of _ g']) simp
qed

section \<open>Removing a block from the instructions\<close>

lemma update_uses_dinsts: "update_uses i g = Some g' \<Longrightarrow> dinsts g' = dinsts g"
  by (auto simp: update_uses_def panic_simps)

definition removed_count :: "nat \<Rightarrow> inst_data \<Rightarrow> nat" where
  "removed_count b d = snd (the (inst_remove_block b d))"

lemma remove_block_from_inst_effect:
  assumes wf: "dfg_wf g" and ok: "dfg_phi_ok g" and i: "i < length (storage (dinsts g))"
  shows "\<exists>n g'. remove_block_from_inst b i g = Some (n, g') \<and> dfg_wf g' \<and> dfg_phi_ok g' \<and>
    inst_at g' = (\<lambda>j. if j = i then map_option (without_block b) (inst_at g i) else inst_at g j) \<and>
    value_at g' = value_at g \<and> dresults g' = dresults g \<and>
    length (storage (dinsts g')) = length (storage (dinsts g)) \<and>
    (inst_at g i \<noteq> None \<longrightarrow> n = removed_count b (the (inst_at g i)))"
proof -
  obtain d where d: "pt2_index (dinsts g) i = Some d" using i by (auto simp: pt2_index_def idx_def)
  then have phi: "phi_ok d" using ok i by (auto simp: dfg_phi_ok_def pt2_index_def idx_def)
  obtain n where n: "inst_remove_block b d = Some (without_block b d, n)"
    using inst_remove_block_effect(1)[OF phi] by blast
  have at: "inst_at g i = Some d" if "inst_at g i \<noteq> None"
    using that d pt2_lookup_index[OF dfg_wfD(1)[OF wf], of i] by (auto simp: inst_at_def)
  then have live: "\<forall>v \<in> set (args (without_block b d)). value_ok g v" if "inst_at g i \<noteq> None"
    using dfg_wfD(5)[OF wf, of i d] that inst_remove_block_effect(2)[OF phi, of b] by auto
  obtain it g' where g': "pt2_index_mut i (without_block b d) (dinsts g) = Some it"
    "update_uses i (g\<lparr>dinsts := it, value_uses := value_uses g, block_uses := forget_use i b (block_uses g)\<rparr>) = Some g'"
    "dfg_wf g'" "inst_at g' = (if inst_at g i = None then inst_at g else (inst_at g)(i \<mapsto> without_block b d))"
    "value_at g' = value_at g" "dresults g' = dresults g" "length (storage (dinsts g')) = length (storage (dinsts g))"
    using rewrite_inst_effect[OF wf i d, of "value_uses g" 0 "forget_use i b (block_uses g)" b "without_block b d"] live by blast
  have "dinsts g' = it" using update_uses_dinsts[OF g'(2)] by simp
  moreover have "set (storage it) \<subseteq> insert (without_block b d) (set (storage (dinsts g)))"
    using g'(1) set_update_subset_insert by (fastforce simp: pt2_index_mut_def idx_set_def split: if_splits)
  ultimately have "dfg_phi_ok g'"
    using ok inst_remove_block_effect(3)[OF phi, of b] by (auto simp: dfg_phi_ok_def)
  moreover have "inst_at g' = (\<lambda>j. if j = i then map_option (without_block b) (inst_at g i) else inst_at g j)"
    using g'(4) at by (auto simp: fun_eq_iff)
  moreover have "remove_block_from_inst b i g = Some (n, g')"
    using d n g'(1,2) by (simp add: remove_block_from_inst_def)
  moreover have "n = removed_count b (the (inst_at g i))" if "inst_at g i \<noteq> None"
    using at[OF that] n by (simp add: removed_count_def)
  ultimately show ?thesis using g'(3,5-7) by blast
qed

lemma remove_block_in_place:
  "in_place (remove_block_from_inst b) (without_block b) (removed_count b)
    (\<lambda>g. dfg_wf g \<and> dfg_phi_ok g) (\<lambda>_. True) (\<lambda>_. {})"
  unfolding in_place_def using remove_block_from_inst_effect[of _ _ b] by fastforce

lemma without_block_id: "b \<notin> set (inst_blocks d) \<Longrightarrow> without_block b d = d"
proof (cases d)
  case (IPhi op as bs)
  assume "b \<notin> set (inst_blocks d)"
  then show ?thesis
    using IPhi phi_loop_absent[of b bs "[0..<length bs]" as 0]
    by (simp add: without_block_def inst_remove_block_def inst_blocks_def)
qed (auto simp: without_block_def inst_remove_block_def replace_block_def inst_blocks_def blocks_mut_def)

lemma remove_block_use_effect:
  assumes wf: "dfg_wf g" and ok: "dfg_phi_ok g" and ord: "lists_sets ord"
  shows "\<exists>n g'. remove_block_use ord b g = Some (n, g') \<and> dfg_wf g' \<and> dfg_phi_ok g' \<and>
    inst_at g' = (\<lambda>i. map_option (without_block b) (inst_at g i)) \<and>
    value_at g' = value_at g \<and> dresults g' = dresults g"
proof -
  note el = elems_users[OF ord users_bound(2)[OF wf], of b]
  have lt: "\<forall>i \<in> set (elems ord (block_uses g) b). i < length (storage (dinsts g))"
    using el(1) users_bound(2)[OF wf, of b] by auto
  have all: "replace_all (without_block b) (users (block_uses g) b) g
      = (\<lambda>i. map_option (without_block b) (inst_at g i))"
    using replace_all_users[OF dfg_wfD(9)[OF wf, of b]] without_block_id by blast
  show ?thesis
    using in_place_loop[OF remove_block_in_place[of b] _ lt el(2), where ?n0.0 = 0] wf ok el(1) all
    unfolding remove_block_use_def by auto
qed

section \<open>A concrete graph\<close>

text \<open>
  The graph of three instructions on which the properties are evaluated: a constant, its
  negation, and a phi node that has one entry for the constant.
\<close>

definition demo_graph :: data_flow_graph where
  "demo_graph = \<lparr>dinsts = \<lparr>storage = [IConstInt OpConstInt (IntValue 8 5), IUnary OpNeg 0, IPhi OpPhi [0] [3]],
       count = 3, used = {0, 1, 2}, free = {}\<rparr>,
     dresults = [0 \<mapsto> 0, 1 \<mapsto> 1, 2 \<mapsto> 2],
     dvalues = \<lparr>storage = [VInst (IntType 8) 0, VInst (IntType 8) 1, VInst (IntType 8) 2], count = 3, used = {0, 1, 2}, free = {}\<rparr>,
     dargs = Map.empty, ext_units = pt2_new, names = Map.empty, anonymous_hints = Map.empty,
     location_hints = Map.empty, value_uses = [0 \<mapsto> {1, 2}, 1 \<mapsto> {}, 2 \<mapsto> {}], block_uses = [3 \<mapsto> {2}]\<rparr>"

lemma demo_built:
  "do { (a, g) \<leftarrow> add_inst_dfg (IConstInt OpConstInt (IntValue 8 5)) (IntType 8) dfg_new;
        (b, g) \<leftarrow> add_inst_dfg (IUnary OpNeg 0) (IntType 8) g;
        (c, g) \<leftarrow> add_inst_dfg (IPhi OpPhi [0] [3]) (IntType 8) g;
        Some (a, b, c, g) } = Some (0, 1, 2, demo_graph)"
  by (simp add: demo_graph_def dfg_new_def add_inst_dfg_def add_value_def update_uses_def pt2_add_def pt2_new_def
      st_new_def st_add_def note_use_def args_def inst_blocks_def opcode_of_def pt2_index_def idx_def Let_def fun_eq_iff insert_commute)
    (simp add: numeral_2_eq_2)

lemma demo_at: 
  "inst_at demo_graph = [0 \<mapsto> IConstInt OpConstInt (IntValue 8 5), 1 \<mapsto> IUnary OpNeg 0, 2 \<mapsto> IPhi OpPhi [0] [3]]"
  "dresults demo_graph = [0 \<mapsto> 0, 1 \<mapsto> 1, 2 \<mapsto> 2]"
  "value_at demo_graph = [0 \<mapsto> VInst (IntType 8) 0, 1 \<mapsto> VInst (IntType 8) 1, 2 \<mapsto> VInst (IntType 8) 2]"
  by (auto simp: inst_at_def value_at_def demo_graph_def pt2_lookup_def fun_eq_iff)

lemma demo_wf: "dfg_wf demo_graph" "dfg_exact demo_graph"
proof -
  have a: "actual args demo_graph k = (if k = 0 then {1, 2} else {})" "actual inst_blocks demo_graph k = (if k = 3 then {2} else {})" for k
    unfolding actual_def demo_at by (auto simp: args_def inst_blocks_def split: if_splits)
  have u: "users (value_uses demo_graph) k = (if k = 0 then {1, 2} else {})" "users (block_uses demo_graph) k = (if k = 3 then {2} else {})" for k
    by (auto simp: demo_graph_def users_def)
  show "dfg_exact demo_graph" by (simp add: dfg_exact_def a u)
  have "pt2_inv (dinsts demo_graph)" "pt2_inv (dvalues demo_graph)"
    by (auto simp: demo_graph_def pt2_inv_def)
  then show "dfg_wf demo_graph"
    unfolding dfg_wf_def a u demo_at value_ok_def
    by (auto simp: demo_graph_def args_def)
qed

section \<open>Properties\<close>

text \<open>
  Adding an instruction. When its arguments are live values (or the invalid
  placeholder) and there is room in the tables, the instruction gets an identifier no live
  instruction has, a fresh result value exactly when it is a call or its type is not
  \<^verbatim>\<open>void\<close>, nothing else changes, and the use lists stay complete and exact.
\<close>

theorem add_inst_dfg_correct:
  assumes "dfg_wf g" "pt2_room (dinsts g)" "pt2_room (dvalues g)" "length (storage (dvalues g)) + 1 < 2 ^ 32"
    and "\<forall>v \<in> set (args d). value_ok g v"
  shows "\<exists>i g'. add_inst_dfg d t g = Some (i, g') \<and> dfg_wf g' \<and> (dfg_exact g \<longrightarrow> dfg_exact g') \<and>
    inst_at g i = None \<and> inst_at g' = (inst_at g)(i \<mapsto> d) \<and>
    (if opcode_of d = OpCall \<or> \<not> ty_is_void t
     then \<exists>r. dresults g' = (dresults g)(i \<mapsto> r) \<and> value_at g r = None \<and>
        value_at g' = (value_at g)(r \<mapsto> VInst t i)
     else dresults g' = dresults g \<and> value_at g' = value_at g)"
  using add_inst_dfg_effect[OF assms] unfolding has_res_def by blast

lemma add_inst_dfg_correct_witness:
  "\<exists>i g'. add_inst_dfg (IBinary OpAdd 0 1) (IntType 8) demo_graph = Some (i, g') \<and> dfg_exact g' \<and>
     inst_at g' = (inst_at demo_graph)(i \<mapsto> IBinary OpAdd 0 1)"
  using add_inst_dfg_correct[OF demo_wf(1), of "IBinary OpAdd 0 1" "IntType 8"] demo_wf(2)
  by (auto simp: demo_graph_def pt2_room_def args_def value_ok_def value_at_def pt2_lookup_def)

text \<open>
  C14: removing an instruction panics exactly when some instruction still uses its result;
  otherwise it forgets the instruction, its result and its uses and nothing else, and the
  use lists stay complete and exact.
\<close>

theorem remove_inst_dfg_correct:
  assumes wf: "dfg_wf g" "dfg_exact g" and i: "inst_at g i = Some d"
  shows "if \<exists>r j e. dresults g i = Some r \<and> inst_at g j = Some e \<and> r \<in> set (args e)
    then remove_inst_dfg i g = None
    else \<exists>g'. remove_inst_dfg i g = Some g' \<and> dfg_wf g' \<and> dfg_exact g' \<and>
      inst_at g' = (inst_at g)(i := None) \<and> dresults g' = (dresults g)(i := None) \<and>
      value_at g' = (case dresults g i of None \<Rightarrow> value_at g | Some r \<Rightarrow> (value_at g)(r := None))"
proof (cases "\<exists>r j e. dresults g i = Some r \<and> inst_at g j = Some e \<and> r \<in> set (args e)")
  case True
  then obtain r j e where r: "dresults g i = Some r" "inst_at g j = Some e" "r \<in> set (args e)" by blast
  then have "users (value_uses g) r \<noteq> {}" using wf(2) by (auto simp: dfg_exact_def actual_def)
  then have "has_uses g r = Some True" by (auto simp: has_uses_def uses_def users_def split: option.splits)
  then show ?thesis
    using r by (auto simp: remove_inst_dfg_def has_result_def st_contains_def inst_result_def st_index_def)
next
  case False
  then have "users (value_uses g) r = {}" if "dresults g i = Some r" for r
    using that wf(2) by (auto simp: dfg_exact_def actual_def)
  then show ?thesis using remove_inst_dfg_effect[OF wf(1) i] wf(2) False by auto
qed

lemma remove_inst_dfg_correct_witness:
  "remove_inst_dfg 0 demo_graph = None \<and>
   (\<exists>g'. remove_inst_dfg 2 demo_graph = Some g' \<and> dfg_exact g' \<and> inst_at g' 2 = None)"
proof -
  have 0: "\<exists>r j e. dresults demo_graph 0 = Some r \<and> inst_at demo_graph j = Some e \<and> r \<in> set (args e)"
    by (rule exI[of _ 0], rule exI[of _ 1]) (simp add: demo_at args_def)
  have 2: "\<not> (\<exists>r j e. dresults demo_graph 2 = Some r \<and> inst_at demo_graph j = Some e \<and> r \<in> set (args e))"
    by (auto simp: demo_at args_def split: if_splits)
  have at: "inst_at demo_graph 0 = Some (IConstInt OpConstInt (IntValue 8 5))"
    "inst_at demo_graph 2 = Some (IPhi OpPhi [0] [3])"
    by (simp_all add: demo_at)
  show ?thesis
    using remove_inst_dfg_correct[OF demo_wf at(1), unfolded if_P[OF 0]]
      remove_inst_dfg_correct[OF demo_wf at(2), unfolded if_not_P[OF 2]] by auto
qed

text \<open>
  C2: replacing all uses of a value by another live value (or the invalid placeholder)
  reaches every instruction, in whatever order the users are visited: every argument
  place that held the value holds the new one, no user of the old value is recorded any
  more, the number returned is the number of places rewritten, and the use lists stay
  complete and exact.
\<close>

theorem replace_use_correct:
  assumes "dfg_wf g" "dfg_exact g" "lists_sets ord" "value_ok g to" "from \<noteq> to"
  shows "\<exists>n g'. replace_use ord from to g = Some (n, g') \<and> dfg_wf g' \<and> dfg_exact g' \<and>
    inst_at g' = (\<lambda>i. map_option (args_mut (\<lambda>a. if a = from then to else a)) (inst_at g i)) \<and>
    value_at g' = value_at g \<and> dresults g' = dresults g \<and> users (value_uses g') from = {} \<and>
    n = sum_list (map (\<lambda>i. count_list (args (the (inst_at g i))) from) (elems ord (value_uses g) from))"
  using replace_use_effect[OF assms(1,3-5)] assms(2) by (auto simp: subst_def[abs_def])

lemma replace_use_correct_witness:
  "\<exists>n g'. replace_use sorted_list_of_set 0 1 demo_graph = Some (n, g') \<and> n = 2 \<and>
     inst_at g' = [0 \<mapsto> IConstInt OpConstInt (IntValue 8 5), 1 \<mapsto> IUnary OpNeg 1, 2 \<mapsto> IPhi OpPhi [1] [3]]"
proof -
  have "value_ok demo_graph 1" by (simp add: value_ok_def demo_at)
  from replace_use_correct[OF demo_wf lists_sets_sorted this, of 0]
  obtain n g' where g': "replace_use sorted_list_of_set 0 1 demo_graph = Some (n, g')"
    "inst_at g' = (\<lambda>i. map_option (args_mut (\<lambda>a. if a = 0 then 1 else a)) (inst_at demo_graph i))"
    "n = sum_list (map (\<lambda>i. count_list (args (the (inst_at demo_graph i))) 0)
       (elems sorted_list_of_set (value_uses demo_graph) 0))"
    by auto
  have "elems sorted_list_of_set (value_uses demo_graph) 0 = [1, 2]"
    by (simp add: elems_def demo_graph_def)
  then have "n = 2" using g'(3) by (simp add: demo_at args_def)
  moreover have "inst_at g' = [0 \<mapsto> IConstInt OpConstInt (IntValue 8 5), 1 \<mapsto> IUnary OpNeg 1, 2 \<mapsto> IPhi OpPhi [1] [3]]"
    unfolding g'(2) demo_at by (simp add: fun_eq_iff args_mut_def)
  ultimately show ?thesis using g'(1) by blast
qed

text \<open>
  Replacing all uses of a block by another reaches every branch, wait and phi entry,
  in whatever order the users are visited, and keeps the use lists complete and exact.
\<close>

theorem replace_block_use_correct:
  assumes "dfg_wf g" "dfg_exact g" "lists_sets ord" "from \<noteq> to"
  shows "\<exists>n g'. replace_block_use ord from to g = Some (n, g') \<and> dfg_wf g' \<and> dfg_exact g' \<and>
    inst_at g' = (\<lambda>i. map_option (blocks_mut (\<lambda>b. if b = from then to else b)) (inst_at g i)) \<and>
    value_at g' = value_at g \<and> dresults g' = dresults g \<and> users (block_uses g') from = {} \<and>
    n = sum_list (map (\<lambda>i. count_list (inst_blocks (the (inst_at g i))) from) (elems ord (block_uses g) from))"
  using replace_block_use_effect[OF assms(1,3,4)] assms(2) by (auto simp: subst_def[abs_def])

lemma replace_block_use_correct_witness:
  "\<exists>g'. replace_block_use sorted_list_of_set 3 4 demo_graph = Some (1, g') \<and>
     inst_at g' 2 = Some (IPhi OpPhi [0] [4])"
proof -
  have "elems sorted_list_of_set (block_uses demo_graph) 3 = [2]"
    by (simp add: elems_def demo_graph_def)
  then show ?thesis
    using replace_block_use_correct[OF demo_wf lists_sets_sorted, of 3 4]
    by (auto simp: demo_at blocks_mut_def inst_blocks_def)
qed

text \<open>
  Removing the uses of a block never panics when the phi nodes pair values with
  blocks, changes every instruction that mentions the block and no other, keeps phi
  nodes paired, and misses no use: the tables and the completeness of the use lists
  survive, so a value reported unused is unused.
\<close>

theorem remove_block_use_correct:
  assumes "dfg_wf g" "dfg_phi_ok g" "lists_sets ord"
  shows "\<exists>n g'. remove_block_use ord b g = Some (n, g') \<and> dfg_wf g' \<and> dfg_phi_ok g' \<and>
    inst_at g' = (\<lambda>i. map_option (\<lambda>d. fst (the (inst_remove_block b d))) (inst_at g i)) \<and>
    value_at g' = value_at g \<and> dresults g' = dresults g \<and>
    (\<forall>v. has_uses g' v = Some False \<longrightarrow> (\<forall>i d. inst_at g' i = Some d \<longrightarrow> v \<notin> set (args d)))"
proof -
  have sound: "\<forall>v. has_uses g' v = Some False \<longrightarrow> (\<forall>i d. inst_at g' i = Some d \<longrightarrow> v \<notin> set (args d))"
    if "dfg_wf g'" for g'
  proof (intro allI impI notI)
    fix v i d
    assume "has_uses g' v = Some False" "inst_at g' i = Some d" "v \<in> set (args d)"
    then have "i \<in> actual args g' v" "users (value_uses g') v = {}"
      by (auto simp: has_uses_def uses_def users_def actual_def)
    then show False using dfg_wfD(8)[OF that, of v] by auto
  qed
  show ?thesis
    using remove_block_use_effect[OF assms, of b] sound unfolding without_block_def[abs_def] by blast
qed

text \<open>
  Removing a block from a phi node drops the value of the removed entry from the
  instruction but not from the use list of the value: after removing block 3 from the phi
  node, the phi node still counts as a user of value 0, although it has no arguments.
\<close>

theorem remove_block_use_stale:
  "\<exists>g'. remove_block_use sorted_list_of_set 3 demo_graph = Some (1, g') \<and>
     inst_at g' 2 = Some (IPhi OpPhi [] []) \<and> uses g' 0 = Some {1, 2}"
  by (simp add: remove_block_use_def remove_block_from_inst_def demo_graph_def elems_def pt2_index_def idx_def
      inst_remove_block_def upt_rec phi_remove_step_def swap_remove_def pt2_index_mut_def idx_set_def
      update_uses_def note_use_def forget_use_def args_def inst_blocks_def inst_at_def pt2_lookup_def uses_def)

lemma remove_block_use_correct_witness:
  "\<exists>n g'. remove_block_use sorted_list_of_set 3 demo_graph = Some (n, g') \<and>
     inst_at g' 2 = Some (IPhi OpPhi [] []) \<and> inst_at g' 1 = Some (IUnary OpNeg 0)"
proof -
  have "dfg_phi_ok demo_graph" by (simp add: dfg_phi_ok_def phi_ok_def demo_graph_def)
  from remove_block_use_correct[OF demo_wf(1) this lists_sets_sorted, of 3]
  show ?thesis
    by (auto simp: demo_at inst_remove_block_def upt_rec phi_remove_step_def swap_remove_def
        replace_block_def blocks_mut_def)
qed

end
