(* ===== verification/Units.thy ===== *)
theory Units
  imports LayoutRefinement UseLists
begin

text \<open>
  Units and the unit builder (\<^verbatim>\<open>UnitData\<close> and \<^verbatim>\<open>UnitBuilder\<close> of
  \<^verbatim>\<open>src/src/ir/unit.rs\<close>, \<^verbatim>\<open>ControlFlowGraph\<close> of \<^verbatim>\<open>src/src/ir/cfg.rs\<close>): the data
  flow graph, the blocks and the layout together, with the position at which the builder
  inserts. The builder is the record of the unit extended by that position.
\<close>

datatype unit_kind = FunctionUnit | ProcessUnit | EntityUnit

definition kind_name :: "unit_kind \<Rightarrow> string" where
  "kind_name k = (case k of FunctionUnit \<Rightarrow> ''func'' | ProcessUnit \<Rightarrow> ''proc'' | EntityUnit \<Rightarrow> ''entity'')"

record control_flow_graph =
  cblocks :: "string option primary_table2" \<comment> \<open>the name of each block\<close>
  block_hints :: "nat \<rightharpoonup> nat"

record unit_data =
  ukind :: unit_kind
  uname :: unit_name
  usig :: signature
  dfg :: data_flow_graph
  cfg :: control_flow_graph
  layout :: function_layout

datatype insert_pos = PosNone | PosAppend nat | PosPrepend nat | PosAfter nat | PosBefore nat

record unit_builder = unit_data +
  pos :: insert_pos

section \<open>Blocks\<close>

definition set_layout :: "(function_layout \<Rightarrow> function_layout option) \<Rightarrow> unit_builder \<Rightarrow> unit_builder option" where
  "set_layout f u = do { l \<leftarrow> f (layout u); Some (u\<lparr>layout := l\<rparr>) }"

definition new_block :: "unit_builder \<Rightarrow> (nat \<times> unit_builder) option" where
  "new_block u =
     do { (bb, t) \<leftarrow> pt2_add None (cblocks (cfg u));
          u \<leftarrow> set_layout (append_block bb) (u\<lparr>cfg := (cfg u)\<lparr>cblocks := t\<rparr>\<rparr>);
          Some (bb, u) }"

definition get_block_name :: "unit_builder \<Rightarrow> nat \<Rightarrow> string option option" where
  "get_block_name u bb = pt2_index (cblocks (cfg u)) bb"

definition set_block_name :: "nat \<Rightarrow> string \<Rightarrow> unit_builder \<Rightarrow> unit_builder option" where
  "set_block_name bb name u =
     do { t \<leftarrow> pt2_index_mut bb (Some name) (cblocks (cfg u));
          Some (u\<lparr>cfg := (cfg u)\<lparr>cblocks := t\<rparr>\<rparr>) }"

definition clear_block_name :: "nat \<Rightarrow> unit_builder \<Rightarrow> (string option \<times> unit_builder) option" where
  "clear_block_name bb u =
     do { n \<leftarrow> pt2_index (cblocks (cfg u)) bb;
          t \<leftarrow> pt2_index_mut bb None (cblocks (cfg u));
          Some (n, u\<lparr>cfg := (cfg u)\<lparr>cblocks := t\<rparr>\<rparr>) }"

definition named_block :: "string \<Rightarrow> unit_builder \<Rightarrow> (nat \<times> unit_builder) option" where
  "named_block name u = do { (bb, u) \<leftarrow> new_block u; u \<leftarrow> set_block_name bb name u; Some (bb, u) }"

section \<open>Building and deleting instructions\<close>

definition builder_new :: "unit_data \<Rightarrow> unit_builder option" where
  "builder_new d =
     do { p \<leftarrow> (if ukind d = EntityUnit then
                 (case first_bb (layout d) of
                    Some bb \<Rightarrow> map_option PosBefore (block_terminator (layout d) bb)
                  | None \<Rightarrow> Some PosNone)
               else Some PosNone);
          Some (unit_data.extend d (unit_builder.fields p)) }"

definition build_inst :: "inst_data \<Rightarrow> ty \<Rightarrow> unit_builder \<Rightarrow> (nat \<times> unit_builder) option" where
  "build_inst d t u =
     do { (i, g) \<leftarrow> add_inst_dfg d t (dfg u);
          let u = u\<lparr>dfg := g\<rparr>;
          u \<leftarrow> (case pos u of
                 PosNone \<Rightarrow> None
               | PosAppend bb \<Rightarrow> set_layout (append_inst i bb) u
               | PosPrepend bb \<Rightarrow>
                   do { u \<leftarrow> set_layout (prepend_inst i bb) u; Some (u\<lparr>pos := PosAfter i\<rparr>) }
               | PosAfter other \<Rightarrow>
                   do { u \<leftarrow> set_layout (insert_inst_after i other) u; Some (u\<lparr>pos := PosAfter i\<rparr>) }
               | PosBefore other \<Rightarrow> set_layout (insert_inst_before i other) u);
          Some (i, u) }"

definition delete_inst :: "nat \<Rightarrow> unit_builder \<Rightarrow> unit_builder option" where
  "delete_inst i u =
     do { g \<leftarrow> remove_inst_dfg i (dfg u);
          let u = u\<lparr>dfg := g\<rparr>;
          p \<leftarrow> (if pos u = PosAfter i then
                 do { n \<leftarrow> next_inst (layout u) i;
                      bb \<leftarrow> inst_block (layout u) i;
                      Some (case n of Some j \<Rightarrow> PosBefore j | None \<Rightarrow> PosAppend bb) }
               else if pos u = PosBefore i then
                 do { n \<leftarrow> prev_inst (layout u) i;
                      bb \<leftarrow> inst_block (layout u) i;
                      Some (case n of Some j \<Rightarrow> PosAfter j | None \<Rightarrow> PosPrepend bb) }
               else Some (pos u));
          set_layout (remove_inst i) (u\<lparr>pos := p\<rparr>) }"

definition delete_block_inst :: "(nat set \<Rightarrow> nat list) \<Rightarrow> nat \<Rightarrow> unit_builder \<Rightarrow> unit_builder option" where
  "delete_block_inst ord i u =
     do { g \<leftarrow> (if has_result (dfg u) i then
                 do { v \<leftarrow> inst_result (dfg u) i;
                      (_, g) \<leftarrow> replace_use ord v key_invalid (dfg u);
                      Some g }
               else Some (dfg u));
          g \<leftarrow> remove_inst_dfg i g;
          set_layout (unmap_inst i) (u\<lparr>dfg := g\<rparr>) }"

definition delete_block :: "(nat set \<Rightarrow> nat list) \<Rightarrow> nat \<Rightarrow> unit_builder \<Rightarrow> unit_builder option" where
  "delete_block ord bb u =
     do { is \<leftarrow> block_insts (layout u) bb;
          (_, g) \<leftarrow> remove_block_use ord bb (dfg u);
          u \<leftarrow> set_layout (remove_block bb) (u\<lparr>dfg := g\<rparr>);
          (_, t) \<leftarrow> pt2_remove None bb (cblocks (cfg u));
          foldM (delete_block_inst ord) is (u\<lparr>cfg := (cfg u)\<lparr>cblocks := t\<rparr>\<rparr>) }"

definition insert_at_end :: "unit_builder \<Rightarrow> unit_builder option" where
  "insert_at_end u = do { bb \<leftarrow> entry_block (layout u); Some (u\<lparr>pos := PosAppend bb\<rparr>) }"

definition insert_at_beginning :: "unit_builder \<Rightarrow> unit_builder option" where
  "insert_at_beginning u = do { bb \<leftarrow> entry_block (layout u); Some (u\<lparr>pos := PosPrepend bb\<rparr>) }"

definition append_to :: "nat \<Rightarrow> unit_builder \<Rightarrow> unit_builder" where
  "append_to bb u = u\<lparr>pos := PosAppend bb\<rparr>"

definition prepend_to :: "nat \<Rightarrow> unit_builder \<Rightarrow> unit_builder" where
  "prepend_to bb u = u\<lparr>pos := PosPrepend bb\<rparr>"

definition insert_after_inst :: "nat \<Rightarrow> unit_builder \<Rightarrow> unit_builder" where
  "insert_after_inst i u = u\<lparr>pos := PosAfter i\<rparr>"

definition insert_before_inst :: "nat \<Rightarrow> unit_builder \<Rightarrow> unit_builder" where
  "insert_before_inst i u = u\<lparr>pos := PosBefore i\<rparr>"

definition add_extern :: "unit_name \<Rightarrow> signature \<Rightarrow> unit_builder \<Rightarrow> (nat \<times> unit_builder) option" where
  "add_extern name s u =
     do { (e, t) \<leftarrow> pt2_add \<lparr>ext_name = name, ext_sig = s\<rparr> (ext_units (dfg u));
          Some (e, u\<lparr>dfg := (dfg u)\<lparr>ext_units := t\<rparr>\<rparr>) }"

definition extern_sig :: "unit_builder \<Rightarrow> nat \<Rightarrow> signature option" where
  "extern_sig u e = map_option ext_sig (pt2_index (ext_units (dfg u)) e)"

text \<open>
  \<^verbatim>\<open>prune_if_unused\<close> recurses into the instructions that computed the arguments. The fuel
  bounds the depth of the recursion.
\<close>

fun prune_if_unused :: "nat \<Rightarrow> nat \<Rightarrow> unit_builder \<Rightarrow> (bool \<times> unit_builder) option" where
  "prune_if_unused 0 i u = None"
| "prune_if_unused (Suc n) i u =
     do { unused \<leftarrow> (if has_result (dfg u) i then
                      do { v \<leftarrow> inst_result (dfg u) i; b \<leftarrow> has_uses (dfg u) v; Some (\<not> b) }
                    else Some False);
          if unused then
            do { d \<leftarrow> pt2_index (dinsts (dfg u)) i;
                 is \<leftarrow> mapM (get_value_inst (dfg u)) (args d);
                 u \<leftarrow> delete_inst i u;
                 u \<leftarrow> foldM (\<lambda>j u. do { (_, u) \<leftarrow> prune_if_unused n j u; Some u }) (List.map_filter id is) u;
                 Some (True, u) }
          else Some (False, u) }"

definition unit_new :: "unit_kind \<Rightarrow> unit_name \<Rightarrow> signature \<Rightarrow> unit_data option" where
  "unit_new k name s =
     do { ensure (case k of FunctionUnit \<Rightarrow> \<not> has_outputs s \<and> has_return_type s
                  | _ \<Rightarrow> \<not> has_return_type s);
          let d = \<lparr>ukind = k, uname = name, usig = s, dfg = dfg_new,
                   cfg = \<lparr>cblocks = pt2_new, block_hints = Map.empty\<rparr>, layout = fl_new\<rparr>;
          u \<leftarrow> builder_new d;
          u \<leftarrow> (if k = EntityUnit then
                 do { (_, u) \<leftarrow> new_block u;
                      u \<leftarrow> insert_at_end u;
                      (_, u) \<leftarrow> build_inst (INullary OpHalt) VoidType u;
                      Some u }
               else Some u);
          g \<leftarrow> make_args_for_signature s (dfg u);
          Some (unit_data.truncate (u\<lparr>dfg := g\<rparr>)) }"

section \<open>Reading constants\<close>

definition get_const_time :: "data_flow_graph \<Rightarrow> nat \<Rightarrow> time_value option option" where
  "get_const_time g v =
     do { i \<leftarrow> get_value_inst g v;
          case i of None \<Rightarrow> Some None
          | Some i \<Rightarrow> map_option inst_const_time (pt2_index (dinsts g) i) }"

definition get_const_int :: "data_flow_graph \<Rightarrow> nat \<Rightarrow> int_value option option" where
  "get_const_int g v =
     do { i \<leftarrow> get_value_inst g v;
          case i of None \<Rightarrow> Some None
          | Some i \<Rightarrow> map_option inst_const_int (pt2_index (dinsts g) i) }"

text \<open>Collecting into an \<^verbatim>\<open>Option<Vec>\<close> stops at the first \<^verbatim>\<open>None\<close>.\<close>

fun collect_opt :: "('a \<Rightarrow> 'b option option) \<Rightarrow> 'a list \<Rightarrow> 'b list option option" where
  "collect_opt f [] = Some (Some [])"
| "collect_opt f (x # xs) =
     (case f x of None \<Rightarrow> None | Some None \<Rightarrow> Some None
      | Some (Some y) \<Rightarrow> (case collect_opt f xs of None \<Rightarrow> None
                          | Some ys \<Rightarrow> Some (map_option ((#) y) ys)))"

lemma collect_opt_cong [fundef_cong]:
  assumes "xs = ys" and "\<And>x. x \<in> set ys \<Longrightarrow> f x = g x"
  shows "collect_opt f xs = collect_opt g ys"
  unfolding assms(1) using assms(2) by (induction ys) (auto split: option.splits)

text \<open>The fuel bounds the nesting of arrays and structs.\<close>

fun get_const :: "nat \<Rightarrow> data_flow_graph \<Rightarrow> nat \<Rightarrow> val option option" where
  "get_const 0 g v = None"
| "get_const (Suc n) g v =
     do { i \<leftarrow> get_value_inst g v;
          case i of None \<Rightarrow> Some None
          | Some i \<Rightarrow>
              do { d \<leftarrow> pt2_index (dinsts g) i;
                   if opcode_of d = OpConstInt then map_option (map_option IntVal) (get_const_int g v)
                   else if opcode_of d = OpConstTime then map_option (map_option TimeVal) (get_const_time g v)
                   else if opcode_of d = OpArray then
                     map_option (map_option ArrayVal) (collect_opt (get_const n g) (args d))
                   else if opcode_of d = OpArrayUniform then
                     do { k \<leftarrow> idx (imms d) 0;
                          a \<leftarrow> idx (args d) 0;
                          c \<leftarrow> get_const n g a;
                          Some (map_option (\<lambda>c. ArrayVal (array_new_uniform k c)) c) }
                   else if opcode_of d = OpStruct then
                     map_option (map_option StructVal) (collect_opt (get_const n g) (args d))
                   else Some None } }"

end
