(* ===== verification/Builder.thy ===== *)
theory Builder
  imports Units
begin

text \<open>
  The instruction builder (\<^verbatim>\<open>InstBuilder\<close> of \<^verbatim>\<open>src/src/ir/inst.rs\<close>): one function per
  instruction, which computes the type of the result from the operands, panics on
  operands of the wrong kind, and adds the instruction at the position of the unit builder.
  The argument \<open>nm\<close> is the name the instruction builder holds for the value being built;
  a \<^verbatim>\<open>&mut self\<close> call that takes it leaves none behind. The names of the functions carry
  the prefix \<open>ib\<close>.
\<close>

type_synonym 'a build = "unit_builder \<Rightarrow> ('a \<times> unit_builder) option"

definition ib_build :: "string option \<Rightarrow> inst_data \<Rightarrow> ty \<Rightarrow> nat build" where
  "ib_build nm d t u =
     do { (i, u) \<leftarrow> build_inst d t u;
          Some (case nm of
              None \<Rightarrow> (i, u)
            | Some name \<Rightarrow>
                (case get_inst_result (dfg u) i of
                   None \<Rightarrow> (i, u)
                 | Some v \<Rightarrow> (i, u\<lparr>dfg := (dfg u)\<lparr>names := (names (dfg u))(v \<mapsto> name)\<rparr>\<rparr>))) }"

definition ib_value :: "(nat \<times> unit_builder) option \<Rightarrow> (nat \<times> unit_builder) option" where
  "ib_value r = do { (i, u) \<leftarrow> r; v \<leftarrow> inst_result (dfg u) i; Some (v, u) }"

definition ib_value_type :: "unit_builder \<Rightarrow> nat \<Rightarrow> ty option" where
  "ib_value_type u v = value_type (dfg u) v"

definition build_nullary :: "string option \<Rightarrow> opcode \<Rightarrow> nat build" where
  "build_nullary nm op u = ib_build nm (INullary op) VoidType u"

definition build_unary :: "string option \<Rightarrow> opcode \<Rightarrow> ty \<Rightarrow> nat \<Rightarrow> nat build" where
  "build_unary nm op t x u = ib_build nm (IUnary op x) t u"

definition build_binary :: "string option \<Rightarrow> opcode \<Rightarrow> ty \<Rightarrow> nat \<Rightarrow> nat \<Rightarrow> nat build" where
  "build_binary nm op t x y u = ib_build nm (IBinary op x y) t u"

definition build_ternary :: "string option \<Rightarrow> opcode \<Rightarrow> ty \<Rightarrow> nat \<Rightarrow> nat \<Rightarrow> nat \<Rightarrow> nat build" where
  "build_ternary nm op t x y z u = ib_build nm (ITernary op x y z) t u"

definition build_quaternary :: "string option \<Rightarrow> opcode \<Rightarrow> ty \<Rightarrow> nat \<Rightarrow> nat \<Rightarrow> nat \<Rightarrow> nat \<Rightarrow> nat build" where
  "build_quaternary nm op t x y z w u = ib_build nm (IQuaternary op x y z w) t u"

section \<open>Constants and aggregates\<close>

definition ib_const_int :: "string option \<Rightarrow> int_value \<Rightarrow> nat build" where
  "ib_const_int nm v u = ib_value (ib_build nm (IConstInt OpConstInt v) (iv_ty v) u)"

definition ib_const_time :: "string option \<Rightarrow> time_value \<Rightarrow> nat build" where
  "ib_const_time nm v u = ib_value (ib_build nm (IConstTime OpConstTime v) TimeType u)"

definition ib_alias :: "string option \<Rightarrow> nat \<Rightarrow> nat build" where
  "ib_alias nm x u = do { t \<leftarrow> ib_value_type u x; ib_value (build_unary nm OpAlias t x u) }"

definition ib_array_uniform :: "string option \<Rightarrow> nat \<Rightarrow> nat \<Rightarrow> nat build" where
  "ib_array_uniform nm imm x u =
     do { t \<leftarrow> ib_value_type u x;
          ib_value (ib_build nm (IArray OpArrayUniform imm x) (ArrayType imm t) u) }"

definition ib_array :: "string option \<Rightarrow> nat list \<Rightarrow> nat build" where
  "ib_array nm as u =
     do { ensure (as \<noteq> []);
          t \<leftarrow> ib_value_type u (as ! 0);
          ib_value (ib_build nm (IAggregate OpArray as) (ArrayType (length as) t) u) }"

definition ib_strukt :: "string option \<Rightarrow> nat list \<Rightarrow> nat build" where
  "ib_strukt nm as u =
     do { ts \<leftarrow> mapM (ib_value_type u) as;
          ib_value (ib_build nm (IAggregate OpStruct as) (StructType ts) u) }"

text \<open>Building a value for every element of a list, in order.\<close>

fun build_all :: "('a \<Rightarrow> nat build) \<Rightarrow> 'a list \<Rightarrow> nat list build" where
  "build_all f [] u = Some ([], u)"
| "build_all f (x # xs) u =
     (case f x u of None \<Rightarrow> None
      | Some (v, u) \<Rightarrow> (case build_all f xs u of None \<Rightarrow> None | Some (vs, u) \<Rightarrow> Some (v # vs, u)))"

lemma build_all_cong [fundef_cong]:
  assumes "xs = ys" "u = v" and "\<And>x w. x \<in> set ys \<Longrightarrow> f x w = g x w"
  shows "build_all f xs u = build_all g ys v"
  unfolding assms(1,2) using assms(3) by (induction ys arbitrary: v) (auto split: option.splits)

fun ib_const_zero :: "string option \<Rightarrow> ty \<Rightarrow> nat build" where
  "ib_const_zero nm TimeType u = ib_const_time nm time_zero u"
| "ib_const_zero nm (IntType w) u = ib_const_int nm (iv_zero w) u"
| "ib_const_zero nm (ArrayType l t) u =
     (case ib_const_zero None t u of None \<Rightarrow> None
      | Some (elem, u) \<Rightarrow> ib_array_uniform nm l elem u)"
| "ib_const_zero nm (StructType ts) u =
     (case build_all (\<lambda>t u. ib_const_zero None t u) ts u of None \<Rightarrow> None
      | Some (es, u) \<Rightarrow> ib_strukt nm es u)"
| "ib_const_zero nm _ u = None"

section \<open>Arithmetic\<close>

definition ib_not :: "string option \<Rightarrow> nat \<Rightarrow> nat build" where
  "ib_not nm x u = do { t \<leftarrow> ib_value_type u x; ib_value (build_unary nm OpNot t x u) }"

definition ib_neg :: "string option \<Rightarrow> nat \<Rightarrow> nat build" where
  "ib_neg nm x u = do { t \<leftarrow> ib_value_type u x; ib_value (build_unary nm OpNeg t x u) }"

definition ib_add :: "string option \<Rightarrow> nat \<Rightarrow> nat \<Rightarrow> nat build" where
  "ib_add nm x y u = do { t \<leftarrow> ib_value_type u x; ib_value (build_binary nm OpAdd t x y u) }"

definition ib_sub :: "string option \<Rightarrow> nat \<Rightarrow> nat \<Rightarrow> nat build" where
  "ib_sub nm x y u = do { t \<leftarrow> ib_value_type u x; ib_value (build_binary nm OpSub t x y u) }"

definition ib_and :: "string option \<Rightarrow> nat \<Rightarrow> nat \<Rightarrow> nat build" where
  "ib_and nm x y u = do { t \<leftarrow> ib_value_type u x; ib_value (build_binary nm OpAnd t x y u) }"

definition ib_or :: "string option \<Rightarrow> nat \<Rightarrow> nat \<Rightarrow> nat build" where
  "ib_or nm x y u = do { t \<leftarrow> ib_value_type u x; ib_value (build_binary nm OpOr t x y u) }"

definition ib_xor :: "string option \<Rightarrow> nat \<Rightarrow> nat \<Rightarrow> nat build" where
  "ib_xor nm x y u = do { t \<leftarrow> ib_value_type u x; ib_value (build_binary nm OpXor t x y u) }"

definition ib_smul :: "string option \<Rightarrow> nat \<Rightarrow> nat \<Rightarrow> nat build" where
  "ib_smul nm x y u = do { t \<leftarrow> ib_value_type u x; ib_value (build_binary nm OpSmul t x y u) }"

definition ib_sdiv :: "string option \<Rightarrow> nat \<Rightarrow> nat \<Rightarrow> nat build" where
  "ib_sdiv nm x y u = do { t \<leftarrow> ib_value_type u x; ib_value (build_binary nm OpSdiv t x y u) }"

definition ib_smod :: "string option \<Rightarrow> nat \<Rightarrow> nat \<Rightarrow> nat build" where
  "ib_smod nm x y u = do { t \<leftarrow> ib_value_type u x; ib_value (build_binary nm OpSmod t x y u) }"

definition ib_srem :: "string option \<Rightarrow> nat \<Rightarrow> nat \<Rightarrow> nat build" where
  "ib_srem nm x y u = do { t \<leftarrow> ib_value_type u x; ib_value (build_binary nm OpSrem t x y u) }"

definition ib_umul :: "string option \<Rightarrow> nat \<Rightarrow> nat \<Rightarrow> nat build" where
  "ib_umul nm x y u = do { t \<leftarrow> ib_value_type u x; ib_value (build_binary nm OpUmul t x y u) }"

definition ib_udiv :: "string option \<Rightarrow> nat \<Rightarrow> nat \<Rightarrow> nat build" where
  "ib_udiv nm x y u = do { t \<leftarrow> ib_value_type u x; ib_value (build_binary nm OpUdiv t x y u) }"

definition ib_umod :: "string option \<Rightarrow> nat \<Rightarrow> nat \<Rightarrow> nat build" where
  "ib_umod nm x y u = do { t \<leftarrow> ib_value_type u x; ib_value (build_binary nm OpUmod t x y u) }"

definition ib_urem :: "string option \<Rightarrow> nat \<Rightarrow> nat \<Rightarrow> nat build" where
  "ib_urem nm x y u = do { t \<leftarrow> ib_value_type u x; ib_value (build_binary nm OpUrem t x y u) }"

definition ib_eq :: "string option \<Rightarrow> nat \<Rightarrow> nat \<Rightarrow> nat build" where
  "ib_eq nm x y u = ib_value (build_binary nm OpEq (IntType 1) x y u)"

definition ib_neq :: "string option \<Rightarrow> nat \<Rightarrow> nat \<Rightarrow> nat build" where
  "ib_neq nm x y u = ib_value (build_binary nm OpNeq (IntType 1) x y u)"

definition ib_slt :: "string option \<Rightarrow> nat \<Rightarrow> nat \<Rightarrow> nat build" where
  "ib_slt nm x y u = ib_value (build_binary nm OpSlt (IntType 1) x y u)"

definition ib_sgt :: "string option \<Rightarrow> nat \<Rightarrow> nat \<Rightarrow> nat build" where
  "ib_sgt nm x y u = ib_value (build_binary nm OpSgt (IntType 1) x y u)"

definition ib_sle :: "string option \<Rightarrow> nat \<Rightarrow> nat \<Rightarrow> nat build" where
  "ib_sle nm x y u = ib_value (build_binary nm OpSle (IntType 1) x y u)"

definition ib_sge :: "string option \<Rightarrow> nat \<Rightarrow> nat \<Rightarrow> nat build" where
  "ib_sge nm x y u = ib_value (build_binary nm OpSge (IntType 1) x y u)"

definition ib_ult :: "string option \<Rightarrow> nat \<Rightarrow> nat \<Rightarrow> nat build" where
  "ib_ult nm x y u = ib_value (build_binary nm OpUlt (IntType 1) x y u)"

definition ib_ugt :: "string option \<Rightarrow> nat \<Rightarrow> nat \<Rightarrow> nat build" where
  "ib_ugt nm x y u = ib_value (build_binary nm OpUgt (IntType 1) x y u)"

definition ib_ule :: "string option \<Rightarrow> nat \<Rightarrow> nat \<Rightarrow> nat build" where
  "ib_ule nm x y u = ib_value (build_binary nm OpUle (IntType 1) x y u)"

definition ib_uge :: "string option \<Rightarrow> nat \<Rightarrow> nat \<Rightarrow> nat build" where
  "ib_uge nm x y u = ib_value (build_binary nm OpUge (IntType 1) x y u)"

definition ib_shl :: "string option \<Rightarrow> nat \<Rightarrow> nat \<Rightarrow> nat \<Rightarrow> nat build" where
  "ib_shl nm x y z u = do { t \<leftarrow> ib_value_type u x; ib_value (build_ternary nm OpShl t x y z u) }"

definition ib_shr :: "string option \<Rightarrow> nat \<Rightarrow> nat \<Rightarrow> nat \<Rightarrow> nat build" where
  "ib_shr nm x y z u = do { t \<leftarrow> ib_value_type u x; ib_value (build_ternary nm OpShr t x y z u) }"

definition ib_mux :: "string option \<Rightarrow> nat \<Rightarrow> nat \<Rightarrow> nat build" where
  "ib_mux nm x y u =
     do { t \<leftarrow> ib_value_type u x;
          ensure (ty_is_array t);
          (_, t) \<leftarrow> ty_unwrap_array t;
          ib_value (build_binary nm OpMux t x y u) }"

text \<open>A missing gate is the invalid value.\<close>

definition ib_reg :: "string option \<Rightarrow> nat \<Rightarrow> reg_trigger list \<Rightarrow> nat build" where
  "ib_reg nm x data u =
     (let as = [x] @ map rt_data data @ map rt_trigger data
             @ map (\<lambda>t. case rt_gate t of None \<Rightarrow> key_invalid | Some v \<Rightarrow> v) data;
          modes = map rt_mode data
      in do { ensure (length as = length modes * 3 + 1);
              ib_build nm (IReg OpReg as modes) VoidType u })"

section \<open>Insertion and extraction\<close>

definition ib_ins_field :: "string option \<Rightarrow> nat \<Rightarrow> nat \<Rightarrow> nat \<Rightarrow> nat build" where
  "ib_ins_field nm x y imm u =
     do { t \<leftarrow> ib_value_type u x; ib_value (ib_build nm (IInsExt OpInsField x y imm 0) t u) }"

definition ib_ins_slice :: "string option \<Rightarrow> nat \<Rightarrow> nat \<Rightarrow> nat \<Rightarrow> nat \<Rightarrow> nat build" where
  "ib_ins_slice nm x y imm0 imm1 u =
     do { t \<leftarrow> ib_value_type u x; ib_value (ib_build nm (IInsExt OpInsSlice x y imm0 imm1) t u) }"

definition ext_field_type :: "nat \<Rightarrow> ty \<Rightarrow> ty option" where
  "ext_field_type imm t =
     (if ty_is_struct t then do { fields \<leftarrow> ty_unwrap_struct t; idx fields imm }
      else if ty_is_array t then do { (_, t) \<leftarrow> ty_unwrap_array t; Some t }
      else None)"

definition ib_ext_field :: "string option \<Rightarrow> nat \<Rightarrow> nat \<Rightarrow> nat build" where
  "ib_ext_field nm x imm u =
     do { t \<leftarrow> ib_value_type u x;
          t \<leftarrow> with_unpacked_sigptr t (ext_field_type imm);
          ib_value (ib_build nm (IInsExt OpExtField x key_invalid imm 0) t u) }"

definition ext_slice_type :: "nat \<Rightarrow> ty \<Rightarrow> ty option" where
  "ext_slice_type imm1 t =
     (if ty_is_array t then do { (_, t) \<leftarrow> ty_unwrap_array t; Some (ArrayType imm1 t) }
      else if ty_is_int t then Some (IntType imm1)
      else None)"

definition ib_ext_slice :: "string option \<Rightarrow> nat \<Rightarrow> nat \<Rightarrow> nat \<Rightarrow> nat build" where
  "ib_ext_slice nm x imm0 imm1 u =
     do { t \<leftarrow> ib_value_type u x;
          t \<leftarrow> with_unpacked_sigptr t (ext_slice_type imm1);
          ib_value (ib_build nm (IInsExt OpExtSlice x key_invalid imm0 imm1) t u) }"

section \<open>Signals, units and memory\<close>

definition ib_con :: "string option \<Rightarrow> nat \<Rightarrow> nat \<Rightarrow> nat build" where
  "ib_con nm x y u = build_binary nm OpCon VoidType x y u"

definition ib_del :: "string option \<Rightarrow> nat \<Rightarrow> nat \<Rightarrow> nat \<Rightarrow> nat build" where
  "ib_del nm tgt source delay u = build_ternary nm OpDel VoidType tgt source delay u"

definition ib_call :: "string option \<Rightarrow> nat \<Rightarrow> nat list \<Rightarrow> nat build" where
  "ib_call nm ext as u =
     do { s \<leftarrow> extern_sig u ext;
          t \<leftarrow> return_type s;
          ib_value (ib_build nm (ICall OpCall ext (length as mod 2 ^ 16) as) t u) }"

definition ib_inst :: "string option \<Rightarrow> nat \<Rightarrow> nat list \<Rightarrow> nat list \<Rightarrow> nat build" where
  "ib_inst nm ext inputs outputs u =
     ib_build nm (ICall OpInst ext (length inputs mod 2 ^ 16) (inputs @ outputs)) VoidType u"

definition ib_sig :: "string option \<Rightarrow> nat \<Rightarrow> nat build" where
  "ib_sig nm x u =
     do { t \<leftarrow> ib_value_type u x;
          let t = (if ty_is_signal t then t else SignalType t);
          ib_value (build_unary nm OpSig t x u) }"

definition ib_prb :: "string option \<Rightarrow> nat \<Rightarrow> nat build" where
  "ib_prb nm x u =
     do { t \<leftarrow> ib_value_type u x;
          ensure (ty_is_signal t);
          t \<leftarrow> ty_unwrap_signal t;
          ib_value (build_unary nm OpPrb t x u) }"

definition ib_drv :: "string option \<Rightarrow> nat \<Rightarrow> nat \<Rightarrow> nat \<Rightarrow> nat build" where
  "ib_drv nm signal value delay u = build_ternary nm OpDrv VoidType signal value delay u"

definition ib_drv_cond :: "string option \<Rightarrow> nat \<Rightarrow> nat \<Rightarrow> nat \<Rightarrow> nat \<Rightarrow> nat build" where
  "ib_drv_cond nm signal value delay cond u =
     build_quaternary nm OpDrvCond VoidType signal value delay cond u"

definition ib_var :: "string option \<Rightarrow> nat \<Rightarrow> nat build" where
  "ib_var nm x u =
     do { t \<leftarrow> ib_value_type u x; ib_value (build_unary nm OpVar (PointerType t) x u) }"

definition ib_ld :: "string option \<Rightarrow> nat \<Rightarrow> nat build" where
  "ib_ld nm x u =
     do { t \<leftarrow> ib_value_type u x;
          ensure (ty_is_pointer t);
          t \<leftarrow> ty_unwrap_pointer t;
          ib_value (build_unary nm OpLd t x u) }"

definition ib_st :: "string option \<Rightarrow> nat \<Rightarrow> nat \<Rightarrow> nat build" where
  "ib_st nm x y u = build_binary nm OpSt VoidType x y u"

section \<open>Control flow\<close>

definition ib_halt :: "string option \<Rightarrow> nat build" where
  "ib_halt nm u = build_nullary nm OpHalt u"

definition ib_ret :: "string option \<Rightarrow> nat build" where
  "ib_ret nm u = build_nullary nm OpRet u"

definition ib_ret_value :: "string option \<Rightarrow> nat \<Rightarrow> nat build" where
  "ib_ret_value nm x u = build_unary nm OpRetValue VoidType x u"

definition ib_phi :: "string option \<Rightarrow> nat list \<Rightarrow> nat list \<Rightarrow> nat build" where
  "ib_phi nm as bs u =
     do { ensure (as \<noteq> []);
          ensure (length as = length bs);
          t \<leftarrow> ib_value_type u (as ! 0);
          ib_value (ib_build nm (IPhi OpPhi as bs) t u) }"

definition ib_br :: "string option \<Rightarrow> nat \<Rightarrow> nat build" where
  "ib_br nm bb u = ib_build nm (IJump OpBr bb) VoidType u"

definition ib_br_cond :: "string option \<Rightarrow> nat \<Rightarrow> nat \<Rightarrow> nat \<Rightarrow> nat build" where
  "ib_br_cond nm x bb0 bb1 u = ib_build nm (IBranch OpBrCond x bb0 bb1) VoidType u"

definition ib_wait :: "string option \<Rightarrow> nat \<Rightarrow> nat list \<Rightarrow> nat build" where
  "ib_wait nm bb as u = ib_build nm (IWait OpWait bb as) VoidType u"

definition ib_wait_time :: "string option \<Rightarrow> nat \<Rightarrow> nat \<Rightarrow> nat list \<Rightarrow> nat build" where
  "ib_wait_time nm bb tm as u = ib_build nm (IWait OpWaitTime bb (tm # as)) VoidType u"

end
