(* ===== verification/UnitProps.thy ===== *)
theory UnitProps
  imports Builder
begin

text \<open>
  The builder as a whole. \<open>unit_rep u xs\<close> relates a unit to the ordered list of its blocks
  and their instructions: the data flow graph is consistent with exact use lists, the
  instructions of the layout are the live instructions of the graph, the blocks of the layout
  the live blocks.
\<close>

definition live :: "data_flow_graph \<Rightarrow> nat set" where
  "live g = {i. inst_at g i \<noteq> None}"

definition unit_rep :: "unit_builder \<Rightarrow> layout_list \<Rightarrow> bool" where
  "unit_rep u xs \<longleftrightarrow>
     dfg_wf (dfg u) \<and> dfg_exact (dfg u) \<and> fl_rep (layout u) xs \<and> members xs = live (dfg u) \<and>
     pt2_inv (cblocks (cfg u)) \<and> keys xs = used (cblocks (cfg u))"

definition pos_valid :: "insert_pos \<Rightarrow> layout_list \<Rightarrow> bool" where
  "pos_valid p xs \<longleftrightarrow> (case p of
     PosNone \<Rightarrow> False
   | PosAppend bb \<Rightarrow> bb \<in> keys xs
   | PosPrepend bb \<Rightarrow> bb \<in> keys xs
   | PosAfter j \<Rightarrow> j \<in> members xs
   | PosBefore j \<Rightarrow> j \<in> members xs)"

text \<open>What an insertion at a position does to the list.\<close>

definition insert_at :: "insert_pos \<Rightarrow> nat \<Rightarrow> layout_list \<Rightarrow> layout_list" where
  "insert_at p i xs = (case p of
     PosNone \<Rightarrow> xs
   | PosAppend bb \<Rightarrow> at_block bb (\<lambda>is. is @ [i]) xs
   | PosPrepend bb \<Rightarrow> at_block bb (\<lambda>is. i # is) xs
   | PosAfter j \<Rightarrow> everywhere (ins_after (\<lambda>x. x = j) i) xs
   | PosBefore j \<Rightarrow> everywhere (ins_before (\<lambda>x. x = j) i) xs)"

definition room :: "unit_builder \<Rightarrow> bool" where
  "room u \<longleftrightarrow> pt2_room (dinsts (dfg u)) \<and> pt2_room (dvalues (dfg u)) \<and>
     length (storage (dvalues (dfg u))) + 1 < 2 ^ 32"

lemma members_at_block:
  assumes "b \<in> keys xs" "distinct (map fst xs)"
    and "\<And>is. set (f is) = insert i (set is)"
  shows "members (at_block b f xs) = insert i (members xs)"
proof -
  obtain p where p: "p \<in> set xs" "fst p = b" using assms(1) by (auto simp: keys_def)
  show ?thesis
    using p assms(3) by (fastforce simp: members_def at_block_def split: if_splits)
qed

lemma set_ins_eq:
  "set (ins_after (\<lambda>x. x = j) i xs) = (if j \<in> set xs then insert i (set xs) else set xs)"
  "set (ins_before (\<lambda>x. x = j) i xs) = (if j \<in> set xs then insert i (set xs) else set xs)"
  by (induction xs) auto

lemma members_ins:
  assumes "j \<in> members xs" and one: "\<And>p q. p \<in> set xs \<Longrightarrow> q \<in> set xs \<Longrightarrow> j \<in> set (snd p) \<Longrightarrow> j \<in> set (snd q) \<Longrightarrow> p = q"
  shows "members (everywhere (ins_after (\<lambda>x. x = j) i) xs) = insert i (members xs)"
    "members (everywhere (ins_before (\<lambda>x. x = j) i) xs) = insert i (members xs)"
proof -
  obtain p where p: "p \<in> set xs" "j \<in> set (snd p)" using assms(1) by (auto simp: members_def)
  show "members (everywhere (ins_after (\<lambda>x. x = j) i) xs) = insert i (members xs)"
    using p by (fastforce simp: members_def everywhere_def set_ins_eq split: if_splits)
  show "members (everywhere (ins_before (\<lambda>x. x = j) i) xs) = insert i (members xs)"
    using p by (fastforce simp: members_def everywhere_def set_ins_eq split: if_splits)
qed

lemma members_filter: "members (everywhere (filter (\<lambda>x. x \<noteq> i)) xs) = members xs - {i}"
  by (auto simp: members_def everywhere_def)

lemma unit_repD:
  assumes "unit_rep u xs"
  shows "dfg_wf (dfg u)" "dfg_exact (dfg u)" "fl_rep (layout u) xs" "members xs = live (dfg u)"
    "pt2_inv (cblocks (cfg u))" "keys xs = used (cblocks (cfg u))"
  using assms by (simp_all add: unit_rep_def)

lemma insert_at_keys: "keys (insert_at p i xs) = keys xs"
  by (cases p) (simp_all add: insert_at_def at_block_simps)

lemma insert_at_members:
  assumes "fl_rep fl xs" "pos_valid p xs"
  shows "members (insert_at p i xs) = insert i (members xs)"
proof -
  have one: "p = q" if "p \<in> set xs" "q \<in> set xs" "j \<in> set (snd p)" "j \<in> set (snd q)" for p q j
    using fl_rep_one_block[OF assms(1) that(1,3,2)] that(4) by blast
  show ?thesis
    using assms(2) members_at_block[OF _ fl_repD(2)[OF assms(1)]] members_ins[OF _ one]
    by (cases p) (simp_all add: pos_valid_def insert_at_def)
qed

text \<open>The layout part of \<^verbatim>\<open>build_inst\<close>.\<close>

definition place :: "insert_pos \<Rightarrow> nat \<Rightarrow> function_layout \<Rightarrow> function_layout option" where
  "place p i fl = (case p of
     PosNone \<Rightarrow> None
   | PosAppend bb \<Rightarrow> append_inst i bb fl
   | PosPrepend bb \<Rightarrow> prepend_inst i bb fl
   | PosAfter j \<Rightarrow> insert_inst_after i j fl
   | PosBefore j \<Rightarrow> insert_inst_before i j fl)"

definition advance :: "insert_pos \<Rightarrow> nat \<Rightarrow> insert_pos" where
  "advance p i = (case p of PosPrepend _ \<Rightarrow> PosAfter i | PosAfter _ \<Rightarrow> PosAfter i | _ \<Rightarrow> p)"

lemma same_pos: "pos u = p \<Longrightarrow> u\<lparr>dfg := g, layout := l, pos := p\<rparr> = u\<lparr>dfg := g, layout := l\<rparr>"
  by simp

lemma map_option_bind: "map_option f m = Option.bind m (\<lambda>x. Some (f x))"
  by (cases m) simp_all

lemma build_inst_split:
  "build_inst d t u = Option.bind (add_inst_dfg d t (dfg u)) (\<lambda>(i, g).
     map_option (\<lambda>l. (i, u\<lparr>dfg := g, layout := l, pos := advance (pos u) i\<rparr>)) (place (pos u) i (layout u)))"
  by (cases "add_inst_dfg d t (dfg u)"; cases "pos u")
    (auto simp: build_inst_def set_layout_def place_def advance_def map_option_bind same_pos)

lemma place_rep:
  assumes "fl_rep fl xs" "pos_valid p xs" "i \<notin> members xs"
  shows "\<exists>fl'. place p i fl = Some fl' \<and> fl_rep fl' (insert_at p i xs)"
  using assms fl_rep_append_inst[OF assms(1,3)] fl_rep_insert_inst[OF assms(1,3)]
  by (cases p) (simp_all add: place_def insert_at_def pos_valid_def)

lemma advance_valid:
  "pos_valid p xs \<Longrightarrow> fl_rep fl xs \<Longrightarrow> pos_valid (advance p i) (insert_at p i xs)"
  using insert_at_members[of fl xs p i] insert_at_keys[of p i xs]
  by (cases p) (auto simp: pos_valid_def advance_def)

lemma live_insert: "inst_at g' = (inst_at g)(i \<mapsto> d) \<Longrightarrow> live g' = insert i (live g)"
  by (auto simp: live_def)

lemma live_delete: "inst_at g' = (inst_at g)(i := None) \<Longrightarrow> live g' = live g - {i}"
  by (auto simp: live_def)

lemma build_inst_effect:
  assumes rep: "unit_rep u xs" and room: "room u" and pv: "pos_valid (pos u) xs"
    and lv: "\<forall>v \<in> set (args d). value_ok (dfg u) v"
  shows "\<exists>i u'. build_inst d t u = Some (i, u') \<and> i \<notin> members xs \<and>
    unit_rep u' (insert_at (pos u) i xs) \<and> inst_at (dfg u') = (inst_at (dfg u))(i \<mapsto> d) \<and>
    (\<not> has_res d t \<longrightarrow> value_at (dfg u') = value_at (dfg u)) \<and> pos u' = advance (pos u) i \<and> pos_valid (pos u') (insert_at (pos u) i xs)"
proof -
  note r = unit_repD[OF rep]
  obtain i g where g: "add_inst_dfg d t (dfg u) = Some (i, g)" "dfg_wf g" "dfg_exact g"
    "inst_at (dfg u) i = None" "inst_at g = (inst_at (dfg u))(i \<mapsto> d)"
    "\<not> has_res d t \<Longrightarrow> value_at g = value_at (dfg u)"
    using add_inst_dfg_effect[OF r(1) _ _ _ lv, of t] room r(2) by (auto simp: room_def)
  have fresh: "i \<notin> members xs" using g(4) r(4) by (simp add: live_def)
  obtain l where l: "place (pos u) i (layout u) = Some l" "fl_rep l (insert_at (pos u) i xs)"
    using place_rep[OF r(3) pv fresh] by blast
  let ?u = "u\<lparr>dfg := g, layout := l, pos := advance (pos u) i\<rparr>"
  have "unit_rep ?u (insert_at (pos u) i xs)"
    using g(2,3) l(2) r(4-6) insert_at_members[OF r(3) pv, of i] live_insert[OF g(5)]
    by (simp add: unit_rep_def insert_at_keys)
  then show ?thesis
    using g(1,5,6) l(1) fresh advance_valid[OF pv r(3), of i] by (simp add: build_inst_split)
qed

text \<open>
  C12: building an instruction at a valid position. It always succeeds when there is
  room and the arguments are live; the new instruction, which has a fresh identifier, stands
  at the requested place in the order of its block and nowhere else; all other
  instructions keep their order; the graph, the use lists and the layout stay consistent; and
  the position moves behind the new instruction, so that a sequence of instructions is
  built in program order also when inserting at the beginning or after an instruction.
\<close>

theorem build_inst_correct:
  assumes "unit_rep u xs" and "room u" and "pos_valid (pos u) xs"
    and "\<forall>v \<in> set (args d). value_ok (dfg u) v"
  shows "\<exists>i u'. build_inst d t u = Some (i, u') \<and> i \<notin> members xs \<and>
    unit_rep u' (insert_at (pos u) i xs) \<and> inst_at (dfg u') = (inst_at (dfg u))(i \<mapsto> d) \<and>
    pos u' = advance (pos u) i \<and> pos_valid (pos u') (insert_at (pos u) i xs)"
  using build_inst_effect[OF assms, of t] by blast

text \<open>The position after a deletion is valid again.\<close>

definition retreat :: "insert_pos \<Rightarrow> nat \<Rightarrow> function_layout \<Rightarrow> insert_pos option" where
  "retreat p i fl =
     (if p = PosAfter i then
        do { n \<leftarrow> next_inst fl i; bb \<leftarrow> inst_block fl i;
             Some (case n of Some j \<Rightarrow> PosBefore j | None \<Rightarrow> PosAppend bb) }
      else if p = PosBefore i then
        do { n \<leftarrow> prev_inst fl i; bb \<leftarrow> inst_block fl i;
             Some (case n of Some j \<Rightarrow> PosAfter j | None \<Rightarrow> PosPrepend bb) }
      else Some p)"

lemma member_split:
  assumes "i \<in> members xs"
  obtains b as cs where "(b, as @ i # cs) \<in> set xs"
  using assms by (auto simp: members_def in_set_conv_decomp[of i])

lemma fl_rep_neighbours:
  assumes "fl_rep fl xs" "(b, as @ i # cs) \<in> set xs"
  shows "inst_block fl i = Some b" "prev_inst fl i = Some (last_opt as)" "next_inst fl i = Some (hd_opt cs)"
proof -
  obtain il where il: "block_layouts (bbs fl) b = Some il" "il_rep il (as @ i # cs)"
    using fl_repD(3)[OF assms] by auto
  obtain n where n: "bbs fl b = Some n" "blayout n = il" using il(1) by (auto simp: block_layouts_def)
  obtain k where k: "insts il i = Some k" "prev k = last_opt as" "nxt k = hd_opt cs"
    using il_node[OF il(2)] by blast
  show ib: "inst_block fl i = Some b"
    using fl_repD(4)[OF assms(1), of i b] assms(2) by (force simp: inst_block_def)
  show "prev_inst fl i = Some (last_opt as)" "next_inst fl i = Some (hd_opt cs)"
    using ib n k by (simp_all add: prev_inst_def next_inst_def il_prev_inst_def il_next_inst_def st_index_def)
qed

lemma retreat_valid:
  assumes rep: "fl_rep fl xs" and i: "i \<in> members xs"
  shows "\<exists>p'. retreat p i fl = Some p' \<and>
    (pos_valid p xs \<longrightarrow> pos_valid p' (everywhere (filter (\<lambda>x. x \<noteq> i)) xs))"
proof -
  obtain b as cs where b: "(b, as @ i # cs) \<in> set xs" using member_split[OF i] .
  note nb = fl_rep_neighbours[OF rep b]
  have bk: "b \<in> keys xs" using b by (force simp: keys_def)
  obtain il where "il_rep il (as @ i # cs)" using fl_repD(3)[OF rep b] by auto
  then have dist: "distinct (as @ i # cs)" by (rule inst_list.distinct)
  have mem: "j \<in> members xs - {i}" if "j \<in> set as \<union> set cs" for j
    using that b dist by (force simp: members_def)
  have nx: "j \<in> members xs - {i}" if "hd_opt cs = Some j \<or> last_opt as = Some j" for j
    using that mem hd_opt_mem[of cs j] last_opt_mem[of as j] by blast
  show ?thesis
    using nb bk nx
    by (cases p)
      (auto simp: retreat_def pos_valid_def members_filter at_block_simps split: option.split)
qed

lemma delete_inst_split:
  "delete_inst i u = Option.bind (remove_inst_dfg i (dfg u)) (\<lambda>g. Option.bind (retreat (pos u) i (layout u))
     (\<lambda>p. map_option (\<lambda>l. u\<lparr>dfg := g, pos := p, layout := l\<rparr>) (remove_inst i (layout u))))"
  by (cases "remove_inst_dfg i (dfg u)")
    (auto simp: delete_inst_def set_layout_def retreat_def map_option_bind)

lemma delete_inst_effect:
  assumes rep: "unit_rep u xs" and i: "i \<in> members xs"
    and unused: "\<forall>r j e. dresults (dfg u) i = Some r \<longrightarrow> inst_at (dfg u) j = Some e \<longrightarrow> r \<notin> set (args e)"
  shows "\<exists>u'. delete_inst i u = Some u' \<and> unit_rep u' (everywhere (filter (\<lambda>x. x \<noteq> i)) xs) \<and>
    inst_at (dfg u') = (inst_at (dfg u))(i := None) \<and> dresults (dfg u') = (dresults (dfg u))(i := None) \<and>
    value_at (dfg u') = (case dresults (dfg u) i of None \<Rightarrow> value_at (dfg u) | Some r \<Rightarrow> (value_at (dfg u))(r := None)) \<and>
    (pos_valid (pos u) xs \<longrightarrow> pos_valid (pos u') (everywhere (filter (\<lambda>x. x \<noteq> i)) xs))"
proof -
  note r = unit_repD[OF rep]
  obtain d where d: "inst_at (dfg u) i = Some d" using i r(4) by (auto simp: live_def)
  have "users (value_uses (dfg u)) v = {}" if "dresults (dfg u) i = Some v" for v
    using that unused r(2) by (auto simp: dfg_exact_def actual_def)
  then obtain g where g: "remove_inst_dfg i (dfg u) = Some g" "dfg_wf g" "dfg_exact g"
    "inst_at g = (inst_at (dfg u))(i := None)" "dresults g = (dresults (dfg u))(i := None)"
    "value_at g = (case dresults (dfg u) i of None \<Rightarrow> value_at (dfg u) | Some r \<Rightarrow> (value_at (dfg u))(r := None))"
    using remove_inst_dfg_effect[OF r(1) d] r(2) by blast
  obtain p where p: "retreat (pos u) i (layout u) = Some p"
    "pos_valid (pos u) xs \<longrightarrow> pos_valid p (everywhere (filter (\<lambda>x. x \<noteq> i)) xs)"
    using retreat_valid[OF r(3) i] by blast
  obtain l where l: "remove_inst i (layout u) = Some l" "fl_rep l (everywhere (filter (\<lambda>x. x \<noteq> i)) xs)"
    using fl_rep_remove_inst[OF r(3) i] by blast
  show ?thesis
    using g p l r(4-6) live_delete[OF g(4)]
    by (simp add: delete_inst_split unit_rep_def members_filter at_block_simps)
qed

text \<open>
  Deleting an instruction whose result is not used succeeds: the instruction leaves the
  graph and its block, every other instruction keeps its place, the use lists stay exact, and
  an insertion position that referred to the deleted instruction is moved to the same
  place between its neighbours, so a valid position stays valid.
\<close>

theorem delete_inst_correct:
  assumes "unit_rep u xs" and "i \<in> members xs"
    and "\<forall>r j e. dresults (dfg u) i = Some r \<longrightarrow> inst_at (dfg u) j = Some e \<longrightarrow> r \<notin> set (args e)"
  shows "\<exists>u'. delete_inst i u = Some u' \<and> unit_rep u' (everywhere (filter (\<lambda>x. x \<noteq> i)) xs) \<and>
    inst_at (dfg u') = (inst_at (dfg u))(i := None) \<and>
    (pos_valid (pos u) xs \<longrightarrow> pos_valid (pos u') (everywhere (filter (\<lambda>x. x \<noteq> i)) xs))"
  using delete_inst_effect[OF assms] by blast

section \<open>A concrete unit\<close>

text \<open>A block with the three instructions of \<open>demo_graph\<close>, in the order of their identifiers.\<close>

lemma demo_layout: "\<exists>fl. fl_rep fl [(0, [0, 1, 2])]"
proof -
  obtain f0 where "fl_rep f0 [(0, [])]"
    using run_op_simulates[OF fl_rep_new, of "AppendBlock 0"] by (auto simp: abs_op_def keys_def)
  then obtain f1 where "fl_rep f1 [(0, [0])]"
    using run_op_simulates[of f0 "[(0, [])]" "AppendInst 0 0"]
    by (auto simp: abs_op_def keys_def members_def at_block_def)
  then obtain f2 where "fl_rep f2 [(0, [0, 1])]"
    using run_op_simulates[of f1 "[(0, [0])]" "AppendInst 1 0"]
    by (auto simp: abs_op_def keys_def members_def at_block_def)
  then show ?thesis
    using run_op_simulates[of f2 "[(0, [0, 1])]" "AppendInst 2 0"]
    by (auto simp: abs_op_def keys_def members_def at_block_def)
qed

lemma demo_unit: "\<exists>u. unit_rep u [(0, [0, 1, 2])] \<and> dfg u = demo_graph \<and> pos u = p"
proof -
  obtain fl where fl: "fl_rep fl [(0, [0, 1, 2])]" using demo_layout by blast
  let ?u = "\<lparr>ukind = FunctionUnit, uname = AnonymousName 0, usig = sig_new, dfg = demo_graph,
    cfg = \<lparr>cblocks = \<lparr>storage = [None], count = 1, used = {0}, free = {}\<rparr>, block_hints = Map.empty\<rparr>,
    layout = fl, pos = p\<rparr>"
  have "live demo_graph = {0, 1, 2}" by (auto simp: live_def demo_at)
  then have "unit_rep ?u [(0, [0, 1, 2])]"
    using demo_wf fl by (auto simp: unit_rep_def members_def keys_def pt2_inv_def)
  then show ?thesis by (intro exI[of _ ?u]) simp
qed

lemma build_inst_correct_witness:
  "\<exists>u i u'. pos u = PosAfter 1 \<and> build_inst (IUnary OpNot 1) (IntType 8) u = Some (i, u') \<and>
     unit_rep u' [(0, [0, 1, i, 2])] \<and> pos u' = PosAfter i"
proof -
  obtain u where u: "unit_rep u [(0, [0, 1, 2])]" "dfg u = demo_graph" "pos u = PosAfter 1"
    using demo_unit by blast
  have "room u" by (simp add: room_def u(2) demo_graph_def pt2_room_def)
  then show ?thesis
    using build_inst_correct[OF u(1), of "IUnary OpNot 1" "IntType 8"] u(2,3)
    by (auto simp: pos_valid_def members_def args_def value_ok_def demo_at insert_at_def everywhere_def advance_def)
qed

lemma delete_inst_correct_witness:
  "\<exists>u u'. pos u = PosAfter 2 \<and> delete_inst 2 u = Some u' \<and> unit_rep u' [(0, [0, 1])] \<and>
     pos_valid (pos u') [(0, [0, 1])]"
proof -
  obtain u where u: "unit_rep u [(0, [0, 1, 2])]" "dfg u = demo_graph" "pos u = PosAfter 2"
    using demo_unit by blast
  have "\<forall>r j e. dresults demo_graph 2 = Some r \<longrightarrow> inst_at demo_graph j = Some e \<longrightarrow> r \<notin> set (args e)"
    by (auto simp: demo_at args_def split: if_splits)
  then show ?thesis
    using delete_inst_correct[OF u(1), of 2] u(2,3)
    by (auto simp: pos_valid_def members_def everywhere_def)
qed

section \<open>Pruning\<close>

text \<open>
  Pruning removes instructions only, and its recursion is bounded by their number: each
  level of it deletes one.
\<close>

definition args_live :: "unit_builder \<Rightarrow> bool" where
  "args_live u \<longleftrightarrow> (\<forall>i d. inst_at (dfg u) i = Some d \<longrightarrow> (\<forall>v \<in> set (args d). value_at (dfg u) v \<noteq> None))"

lemma live_finite: "dfg_wf g \<Longrightarrow> finite (live g)"
  using pt2_inv_bounds(3)[OF dfg_wfD(1), of g] by (simp add: live_def inst_at_def pt2_lookup_def)

lemma get_value_inst_live:
  assumes "dfg_wf g" "value_at g v \<noteq> None"
  shows "\<exists>r. get_value_inst g v = Some r \<and> (\<forall>j. r = Some j \<longrightarrow> j \<in> live g)"
proof -
  obtain d where d: "value_at g v = Some d" using assms(2) by blast
  then have "pt2_index (dvalues g) v = Some d"
    using pt2_lookup_index[OF dfg_wfD(2)[OF assms(1)]] by (simp add: value_at_def)
  moreover have "j \<in> live g" if "d = VInst t j" for t j
    using dfg_wfD(6)[OF assms(1), of j v] dfg_wfD(7)[OF assms(1), of j] d that by (auto simp: live_def)
  ultimately show ?thesis by (cases d) (simp_all add: get_value_inst_def)
qed

definition unused :: "data_flow_graph \<Rightarrow> nat \<Rightarrow> bool" where
  "unused g i \<longleftrightarrow> (\<exists>r. dresults g i = Some r \<and> (\<forall>j e. inst_at g j = Some e \<longrightarrow> r \<notin> set (args e)))"

definition without :: "nat set \<Rightarrow> layout_list \<Rightarrow> layout_list" where
  "without S xs = everywhere (filter (\<lambda>x. x \<notin> S)) xs"

lemma without_empty [simp]: "without {} xs = xs"
  by (simp add: without_def everywhere_def)

lemma without_without: "without T (without S xs) = without (S \<union> T) xs"
  by (simp add: without_def everywhere_def comp_def)

definition pruned :: "unit_builder \<Rightarrow> layout_list \<Rightarrow> nat set \<Rightarrow> unit_builder \<Rightarrow> bool" where
  "pruned u xs S u' \<longleftrightarrow> unit_rep u' (without S xs) \<and> args_live u' \<and> S \<subseteq> live (dfg u) \<and>
     inst_at (dfg u') = (\<lambda>j. if j \<in> S then None else inst_at (dfg u) j) \<and>
     (\<forall>j \<in> S. dresults (dfg u) j \<noteq> None) \<and> (\<forall>j. j \<notin> S \<longrightarrow> dresults (dfg u') j = dresults (dfg u) j)"

lemma pruned_refl: "unit_rep u xs \<Longrightarrow> args_live u \<Longrightarrow> pruned u xs {} u"
  by (simp add: pruned_def)

lemma pruned_trans:
  assumes "pruned u xs S u1" "pruned u1 (without S xs) T u2"
  shows "pruned u xs (S \<union> T) u2"
proof -
  have "T \<inter> S = {}" using assms by (auto simp: pruned_def live_def split: if_splits)
  moreover have "T \<subseteq> live (dfg u)" using assms by (auto simp: pruned_def live_def split: if_splits)
  moreover have "dresults (dfg u) j \<noteq> None" if "j \<in> T" for j
    using that calculation(1) assms unfolding pruned_def by (metis disjoint_iff)
  ultimately show ?thesis
    using assms unfolding pruned_def without_without by (auto simp: fun_eq_iff)
qed

lemma pruned_card:
  assumes "unit_rep u xs" "pruned u xs S u'"
  shows "card (live (dfg u')) \<le> card (live (dfg u))"
proof -
  have "live (dfg u') \<subseteq> live (dfg u)" using assms(2) by (auto simp: pruned_def live_def split: if_splits)
  then show ?thesis using live_finite[OF unit_repD(1)[OF assms(1)]] by (rule card_mono[rotated])
qed

lemma delete_pruned:
  assumes rep: "unit_rep u xs" and cl: "args_live u" and un: "unused (dfg u) i"
  shows "\<exists>u'. delete_inst i u = Some u' \<and> pruned u xs {i} u' \<and> card (live (dfg u')) < card (live (dfg u))"
proof -
  obtain r where r: "dresults (dfg u) i = Some r" "\<forall>j e. inst_at (dfg u) j = Some e \<longrightarrow> r \<notin> set (args e)"
    using un by (auto simp: unused_def)
  then have i: "i \<in> live (dfg u)" using dfg_wfD(7)[OF unit_repD(1)[OF rep]] by (auto simp: live_def)
  then have "i \<in> members xs" using unit_repD(4)[OF rep] by simp
  then obtain u' where u': "delete_inst i u = Some u'" "unit_rep u' (everywhere (filter (\<lambda>x. x \<noteq> i)) xs)"
    "inst_at (dfg u') = (inst_at (dfg u))(i := None)" "dresults (dfg u') = (dresults (dfg u))(i := None)"
    "value_at (dfg u') = (value_at (dfg u))(r := None)"
    using delete_inst_effect[OF rep, of i] r by auto
  have "args_live u'" using cl r(2) by (auto simp: args_live_def u'(3,5) split: if_splits)
  then have "pruned u xs {i} u'" using u' i r(1) by (auto simp: pruned_def without_def fun_eq_iff)
  moreover have "live (dfg u') = live (dfg u) - {i}" by (rule live_delete[OF u'(3)])
  ultimately show ?thesis
    using u'(1) card_Diff1_less[OF live_finite[OF unit_repD(1)[OF rep]] i] by metis
qed

lemma prune_test:
  assumes rep: "unit_rep u xs"
  shows "(if has_result (dfg u) i then do { v \<leftarrow> inst_result (dfg u) i; b \<leftarrow> has_uses (dfg u) v; Some (\<not> b) }
     else Some False) = Some (unused (dfg u) i)"
proof (cases "dresults (dfg u) i")
  case None
  then show ?thesis by (simp add: has_result_def st_contains_def unused_def)
next
  case (Some r)
  note u = unit_repD[OF rep]
  have "value_at (dfg u) r \<noteq> None" using dfg_wfD(6)[OF u(1), of i r] Some by auto
  then obtain s where s: "value_uses (dfg u) r = Some s" using dfg_wfD(4)[OF u(1), of r] by auto
  then have "s = actual args (dfg u) r" using u(2) by (simp add: dfg_exact_def users_def) (metis option.simps(5))
  then have "s = {} \<longleftrightarrow> unused (dfg u) i" using Some by (auto simp: actual_def unused_def)
  then show ?thesis
    using Some s by (simp add: has_result_def st_contains_def inst_result_def st_index_def has_uses_def uses_def)
qed

lemma args_insts_defined:
  assumes "dfg_wf g" "\<forall>v \<in> set vs. value_at g v \<noteq> None"
  shows "mapM (get_value_inst g) vs \<noteq> None"
  using assms(2)
proof (induction vs)
  case (Cons v vs)
  obtain r where "get_value_inst g v = Some r" using get_value_inst_live[OF assms(1), of v] Cons.prems by auto
  then show ?case using Cons by auto
qed simp

text \<open>A loop of prunings that each work on fewer than \<open>n\<close> instructions.\<close>

lemma prune_loop:
  assumes step: "\<And>i u xs. unit_rep u xs \<Longrightarrow> args_live u \<Longrightarrow> card (live (dfg u)) < n \<Longrightarrow>
      \<exists>u' S. prune_if_unused n i u = Some (unused (dfg u) i, u') \<and> pruned u xs S u' \<and>
        (if unused (dfg u) i then i \<in> S else S = {})"
    and "unit_rep u xs" "args_live u" "card (live (dfg u)) < n"
  shows "\<exists>u' S. foldM (\<lambda>j u. do { (_, u) \<leftarrow> prune_if_unused n j u; Some u }) js u = Some u' \<and> pruned u xs S u'"
  using assms(2-)
proof (induction js arbitrary: u xs)
  case Nil
  then show ?case using pruned_refl by auto
next
  case (Cons j js)
  obtain u1 S where u1: "prune_if_unused n j u = Some (unused (dfg u) j, u1)" "pruned u xs S u1"
    using step[OF Cons.prems] by blast
  then have "unit_rep u1 (without S xs)" "args_live u1" "card (live (dfg u1)) < n"
    using pruned_card[OF Cons.prems(1) u1(2)] Cons.prems(3) by (auto simp: pruned_def)
  from Cons.IH[OF this] obtain u2 T where
    "foldM (\<lambda>j u. do { (_, u) \<leftarrow> prune_if_unused n j u; Some u }) js u1 = Some u2" "pruned u1 (without S xs) T u2"
    by blast
  then show ?case using u1 pruned_trans[OF u1(2)] by auto
qed

lemma prune_step:
  "unit_rep u xs \<Longrightarrow> args_live u \<Longrightarrow> card (live (dfg u)) < n \<Longrightarrow>
    \<exists>u' S. prune_if_unused n i u = Some (unused (dfg u) i, u') \<and> pruned u xs S u' \<and>
      (if unused (dfg u) i then i \<in> S else S = {})"
proof (induction n arbitrary: i u xs)
  case 0
  then show ?case by simp
next
  case (Suc n)
  show ?case
  proof (cases "unused (dfg u) i")
    case False
    then show ?thesis using prune_test[OF Suc.prems(1), of i] pruned_refl[OF Suc.prems(1,2)] by auto
  next
    case True
    then obtain r where "dresults (dfg u) i = Some r" by (auto simp: unused_def)
    then obtain d where d: "inst_at (dfg u) i = Some d"
      using dfg_wfD(7)[OF unit_repD(1)[OF Suc.prems(1)], of i] by auto
    then have di: "pt2_index (dinsts (dfg u)) i = Some d"
      using pt2_lookup_index[OF dfg_wfD(1)[OF unit_repD(1)[OF Suc.prems(1)]]] by (simp add: inst_at_def)
    have "\<forall>v \<in> set (args d). value_at (dfg u) v \<noteq> None" using Suc.prems(2) d by (simp add: args_live_def)
    then obtain js where js: "mapM (get_value_inst (dfg u)) (args d) = Some js"
      using args_insts_defined[OF unit_repD(1)[OF Suc.prems(1)]] by blast
    obtain u1 where u1: "delete_inst i u = Some u1" "pruned u xs {i} u1" "card (live (dfg u1)) < n"
      using delete_pruned[OF Suc.prems(1,2) True] Suc.prems(3) by auto
    then have "unit_rep u1 (without {i} xs)" "args_live u1" by (auto simp: pruned_def)
    from prune_loop[OF Suc.IH this u1(3), of "List.map_filter id js"] obtain u2 T where u2:
      "foldM (\<lambda>j u. do { (_, u) \<leftarrow> prune_if_unused n j u; Some u }) (List.map_filter id js) u1 = Some u2"
      "pruned u1 (without {i} xs) T u2" by blast
    then have "prune_if_unused (Suc n) i u = Some (True, u2)"
      using prune_test[OF Suc.prems(1), of i] True di js u1(1) by simp
    then show ?thesis using True pruned_trans[OF u1(2) u2(2)] by auto
  qed
qed

text \<open>
  C13: pruning terminates without a panic when every argument is a live value: a recursion
  depth of one more than the number of instructions is enough. It returns true exactly when the
  instruction has a result that nothing uses; then the instruction and possibly others are
  removed, all of them instructions with a result; otherwise nothing changes. The
  remaining instructions are untouched and keep their order, and the unit stays consistent.
\<close>

theorem prune_if_unused_correct:
  assumes "unit_rep u xs" and "\<forall>i d. inst_at (dfg u) i = Some d \<longrightarrow> (\<forall>v \<in> set (args d). value_at (dfg u) v \<noteq> None)"
    and "card {i. inst_at (dfg u) i \<noteq> None} < n"
  shows "\<exists>u' S. prune_if_unused n i u = Some (unused (dfg u) i, u') \<and>
    (if unused (dfg u) i then i \<in> S else S = {}) \<and> (\<forall>j \<in> S. dresults (dfg u) j \<noteq> None) \<and>
    unit_rep u' (everywhere (filter (\<lambda>x. x \<notin> S)) xs) \<and>
    inst_at (dfg u') = (\<lambda>j. if j \<in> S then None else inst_at (dfg u) j)"
  using prune_step[OF assms(1), of n i] assms(2,3)
  unfolding args_live_def live_def pruned_def without_def by blast

lemma prune_if_unused_correct_witness:
  "\<exists>u u' S. unit_rep u [(0, [0, 1, 2])] \<and> prune_if_unused 4 2 u = Some (True, u') \<and> 2 \<in> S \<and>
     inst_at (dfg u') 2 = None"
proof -
  obtain u where u: "unit_rep u [(0, [0, 1, 2])]" "dfg u = demo_graph" using demo_unit by blast
  have "unused demo_graph 2" by (auto simp: unused_def demo_at args_def split: if_splits)
  moreover have "{i. inst_at demo_graph i \<noteq> None} = {0, 1, 2}" by (auto simp: demo_at)
  then have "card {i. inst_at demo_graph i \<noteq> None} < 4" by simp
  moreover have "\<forall>i d. inst_at demo_graph i = Some d \<longrightarrow> (\<forall>v \<in> set (args d). value_at demo_graph v \<noteq> None)"
    by (auto simp: demo_at args_def split: if_splits)
  ultimately show ?thesis
    using prune_if_unused_correct[OF u(1), of 4 2] u by fastforce
qed

end
