(* ===== verification/BuilderProps.thy ===== *)
theory BuilderProps
  imports UnitProps
begin

text \<open>
  What the instruction builder promises: the instruction it adds, the type of its result,
  register triggers that can be read back, and constants that evaluate to what was asked for.
\<close>

definition room_for :: "nat \<Rightarrow> unit_builder \<Rightarrow> bool" where
  "room_for n u \<longleftrightarrow> length (storage (dinsts (dfg u))) + n < 2 ^ 32 \<and> length (storage (dvalues (dfg u))) + n < 2 ^ 32"

lemma room_for_room: "room_for (Suc n) u \<Longrightarrow> room u"
  by (auto simp: room_for_def room_def pt2_room_def)

definition ready :: "unit_builder \<Rightarrow> bool" where
  "ready u \<longleftrightarrow> (\<exists>xs. unit_rep u xs \<and> pos_valid (pos u) xs)"

text \<open>One graph extends another: what is there stays as it is.\<close>

definition extends :: "data_flow_graph \<Rightarrow> data_flow_graph \<Rightarrow> bool" where
  "extends g g' \<longleftrightarrow> inst_at g \<subseteq>\<^sub>m inst_at g' \<and> value_at g \<subseteq>\<^sub>m value_at g'"

lemma extends_refl [simp]: "extends g g"
  by (simp add: extends_def)

lemma extends_trans: "extends g h \<Longrightarrow> extends h k \<Longrightarrow> extends g k"
  by (auto simp: extends_def elim: map_le_trans)

lemma unit_rep_names: "unit_rep (u\<lparr>dfg := (dfg u)\<lparr>names := m\<rparr>\<rparr>) xs \<longleftrightarrow> unit_rep u xs"
  by (simp add: unit_rep_def dfg_wf_def dfg_exact_def live_def inst_at_def value_at_def actual_def value_ok_def)

lemma value_ok_invalid [simp]: "value_ok g key_invalid"
  by (simp add: value_ok_def)

lemma extends_value_ok: "extends g g' \<Longrightarrow> value_ok g v \<Longrightarrow> value_ok g' v"
  by (auto simp: extends_def value_ok_def map_le_def dom_def)

text \<open>\<open>grown n u u'\<close>: the tables of \<open>u'\<close> have at most \<open>n\<close> more slots.\<close>

definition grown :: "nat \<Rightarrow> unit_builder \<Rightarrow> unit_builder \<Rightarrow> bool" where
  "grown n u u' \<longleftrightarrow> length (storage (dinsts (dfg u'))) \<le> length (storage (dinsts (dfg u))) + n \<and>
     length (storage (dvalues (dfg u'))) \<le> length (storage (dvalues (dfg u))) + n"

lemma grown_room: "grown k u u' \<Longrightarrow> room_for (k + n) u \<Longrightarrow> room_for n u'"
  by (auto simp: grown_def room_for_def)

text \<open>Exactly one instruction is added, and its result when it has one.\<close>

definition adds_inst :: "inst_data \<Rightarrow> ty \<Rightarrow> data_flow_graph \<Rightarrow> nat \<Rightarrow> data_flow_graph \<Rightarrow> bool" where
  "adds_inst d t g i g' \<longleftrightarrow> inst_at g i = None \<and> inst_at g' = (inst_at g)(i \<mapsto> d) \<and>
     (if has_res d t then \<exists>r. inst_result g' i = Some r \<and> value_at g r = None \<and> value_at g' = (value_at g)(r \<mapsto> VInst t i)
      else value_at g' = value_at g)"

lemma adds_inst_extends: "adds_inst d t g i g' \<Longrightarrow> extends g g'"
  by (auto simp: adds_inst_def extends_def map_le_def split: if_splits)

lemma ib_build_exact:
  assumes rd: "ready u" and rm: "room_for (Suc n) u" and lv: "\<forall>v \<in> set (args d). value_ok (dfg u) v"
  shows "\<exists>i u'. ib_build nm d t u = Some (i, u') \<and> ready u' \<and> grown 1 u u' \<and> adds_inst d t (dfg u) i (dfg u')"
proof -
  obtain xs where xs: "unit_rep u xs" "pos_valid (pos u) xs" using rd by (auto simp: ready_def)
  note r = unit_repD[OF xs(1)]
  obtain i u1 where u1: "build_inst d t u = Some (i, u1)" "unit_rep u1 (insert_at (pos u) i xs)"
    "pos_valid (pos u1) (insert_at (pos u) i xs)"
    using build_inst_effect[OF xs(1) room_for_room[OF rm] xs(2) lv, of t] by blast
  obtain g where g: "add_inst_dfg d t (dfg u) = Some (i, g)" "dfg u1 = g"
    using u1(1) by (auto simp: build_inst_split panic_simps split: option.splits)
  have room: "room u" by (rule room_for_room[OF rm])
  from add_inst_dfg_effect[OF r(1) _ _ _ lv, of t] g(1) room
  have eff: "inst_at (dfg u) i = None" "inst_at g = (inst_at (dfg u))(i \<mapsto> d)"
    "if has_res d t then \<exists>r. dresults g = (dresults (dfg u))(i \<mapsto> r) \<and> value_at (dfg u) r = None \<and>
        value_at g = (value_at (dfg u))(r \<mapsto> VInst t i)
     else dresults g = dresults (dfg u) \<and> value_at g = value_at (dfg u)"
    and gr: "length (storage (dinsts g)) \<le> length (storage (dinsts (dfg u))) + 1"
    "length (storage (dvalues g)) \<le> length (storage (dvalues (dfg u))) + 1"
    by (auto simp: room_def)
  have ex: "adds_inst d t (dfg u) i g"
    using eff by (auto simp: adds_inst_def inst_result_def st_index_def split: if_splits)
  define u' where "u' = (case nm of None \<Rightarrow> u1 | Some name \<Rightarrow> (case get_inst_result (dfg u1) i of None \<Rightarrow> u1
      | Some v \<Rightarrow> u1\<lparr>dfg := (dfg u1)\<lparr>names := (names (dfg u1))(v \<mapsto> name)\<rparr>\<rparr>))"
  have run: "ib_build nm d t u = Some (i, u')"
    using u1(1) by (auto simp: ib_build_def u'_def split: option.splits)
  have same: "inst_at (dfg u') = inst_at g" "value_at (dfg u') = value_at g" "inst_result (dfg u') = inst_result g"
    "grown 1 u u' = grown 1 u u1" "pos u' = pos u1"
    using g(2) by (auto simp: u'_def inst_at_def value_at_def inst_result_def grown_def fun_eq_iff split: option.split)
  have "unit_rep u' (insert_at (pos u) i xs)"
    using u1(2) unit_rep_names by (simp add: u'_def split: option.split)
  then have "ready u'" using u1(3) same(5) by (auto simp: ready_def)
  moreover have "grown 1 u u'" using gr g(2) unfolding same(4) by (simp add: grown_def)
  moreover have "adds_inst d t (dfg u) i (dfg u')" using ex by (simp add: adds_inst_def same)
  ultimately show ?thesis using run by blast
qed

lemma ib_build_effect:
  assumes rd: "ready u" and rm: "room_for (Suc n) u" and lv: "\<forall>v \<in> set (args d). value_ok (dfg u) v"
  shows "\<exists>i u'. ib_build nm d t u = Some (i, u') \<and> ready u' \<and> room_for n u' \<and> extends (dfg u) (dfg u') \<and>
    inst_at (dfg u') i = Some d \<and>
    (has_res d t \<longrightarrow> (\<exists>r. inst_result (dfg u') i = Some r \<and> value_at (dfg u') r = Some (VInst t i)))"
proof -
  obtain i u' where u': "ib_build nm d t u = Some (i, u')" "ready u'" "grown 1 u u'" "adds_inst d t (dfg u) i (dfg u')"
    using ib_build_exact[OF assms, of nm t] by blast
  then show ?thesis
    using grown_room[OF u'(3), of n] adds_inst_extends[OF u'(4)] rm
    by (auto simp: adds_inst_def split: if_splits)
qed

text \<open>A builder function that returns the result of the instruction it adds.\<close>

lemma ib_value_effect:
  assumes "ready u" "room_for (Suc n) u" "\<forall>v \<in> set (args d). value_ok (dfg u) v" "has_res d t"
  shows "\<exists>i r u'. ib_value (ib_build nm d t u) = Some (r, u') \<and> ready u' \<and> room_for n u' \<and>
    extends (dfg u) (dfg u') \<and> inst_at (dfg u') i = Some d \<and> value_at (dfg u') r = Some (VInst t i)"
  using ib_build_effect[OF assms(1-3), of nm t] assms(4) by (fastforce simp: ib_value_def)

lemma ready_wf: "ready u \<Longrightarrow> dfg_wf (dfg u)"
  by (auto simp: ready_def unit_rep_def)

lemma value_at_index: "dfg_wf g \<Longrightarrow> value_at g v = Some d \<Longrightarrow> pt2_index (dvalues g) v = Some d"
  using pt2_lookup_index[OF dfg_wfD(2)] by (simp add: value_at_def)

lemma inst_at_index: "dfg_wf g \<Longrightarrow> inst_at g i = Some d \<Longrightarrow> pt2_index (dinsts g) i = Some d"
  using pt2_lookup_index[OF dfg_wfD(1)] by (simp add: inst_at_def)

lemma value_type_at: "dfg_wf g \<Longrightarrow> value_at g r = Some (VInst t i) \<Longrightarrow> value_type g r = Some t"
  by (simp add: value_type_def value_at_index vd_type_def)

section \<open>Registers\<close>

text \<open>
  The triggers of a register that \<^verbatim>\<open>reg\<close> builds are read back by
  \<^verbatim>\<open>InstData::triggers\<close> exactly as they were given, in order, whatever their number, and the
  target is the first argument: the packing of data, trigger and gate values into one
  argument vector loses nothing. A gate must not be the invalid value, which encodes the
  absence of a gate.
\<close>

theorem reg_triggers_roundtrip:
  assumes "ready u" "room_for 1 u" "value_ok (dfg u) x"
    and "\<forall>t \<in> set data. value_ok (dfg u) (rt_data t) \<and> value_ok (dfg u) (rt_trigger t) \<and>
          (\<forall>v. rt_gate t = Some v \<longrightarrow> v \<noteq> key_invalid \<and> value_ok (dfg u) v)"
  shows "\<exists>i u' d. ib_reg nm x data u = Some (i, u') \<and> inst_at (dfg u') i = Some d \<and>
    triggers d = Some data \<and> args d ! 0 = x \<and> opcode_of d = OpReg"
proof -
  let ?as = "[x] @ map rt_data data @ map rt_trigger data
     @ map (\<lambda>t. case rt_gate t of None \<Rightarrow> key_invalid | Some v \<Rightarrow> v) data"
  let ?d = "IReg OpReg ?as (map rt_mode data)"
  have lv: "\<forall>v \<in> set (args ?d). value_ok (dfg u) v"
    using assms(3,4) by (auto simp: args_def split: option.split)
  obtain i u' where u': "ib_build nm ?d VoidType u = Some (i, u')" "inst_at (dfg u') i = Some ?d"
    using ib_build_effect[OF assms(1) _ lv, of 0 nm VoidType] assms(2) by auto
  have gates: "map (\<lambda>v. if v = key_invalid then None else Some v)
      (map (\<lambda>t. case rt_gate t of None \<Rightarrow> key_invalid | Some v \<Rightarrow> v) data) = map rt_gate data"
    using assms(4) by (auto split: option.split)
  have "gating_args ?d = Some (map rt_gate data)"
    using gates by (simp add: gating_args_def)
  moreover have "data_args ?d = Some (map rt_data data)" by (simp add: data_args_def slice_def)
  moreover have "trigger_args ?d = Some (map rt_trigger data)" by (simp add: trigger_args_def slice_def)
  ultimately have "triggers ?d = Some data"
    by (simp add: triggers_def mode_args_def zip_map_map zip_same_conv_map o_def) (rule map_idI, simp)
  then show ?thesis
    using u' by (auto simp: ib_reg_def args_def opcode_of_def intro!: exI[of _ i] exI[of _ u'] exI[of _ ?d])
qed

lemma demo_ready: "\<exists>u. ready u \<and> room_for 1000 u \<and> dfg u = demo_graph"
proof -
  obtain u where u: "unit_rep u [(0, [0, 1, 2])]" "dfg u = demo_graph" "pos u = PosAppend 0"
    using demo_unit by blast
  then have "ready u" by (auto simp: ready_def pos_valid_def keys_def intro!: exI[of _ "[(0, [0, 1, 2])]"])
  then show ?thesis using u(2) by (auto simp: room_for_def demo_graph_def intro!: exI[of _ u])
qed

lemma reg_triggers_roundtrip_witness:
  "\<exists>u i u' d. ib_reg None 0 [\<lparr>rt_data = 1, rt_mode = RegRise, rt_trigger = 2, rt_gate = None\<rparr>,
       \<lparr>rt_data = 0, rt_mode = RegHigh, rt_trigger = 1, rt_gate = Some 2\<rparr>] u = Some (i, u') \<and>
     inst_at (dfg u') i = Some d \<and>
     triggers d = Some [\<lparr>rt_data = 1, rt_mode = RegRise, rt_trigger = 2, rt_gate = None\<rparr>,
       \<lparr>rt_data = 0, rt_mode = RegHigh, rt_trigger = 1, rt_gate = Some 2\<rparr>]"
proof -
  obtain u where u: "ready u" "room_for 1000 u" "dfg u = demo_graph" using demo_ready by blast
  have ok: "value_ok demo_graph 0" "value_ok demo_graph 1" "value_ok demo_graph 2"
    by (simp_all add: value_ok_def demo_at)
  show ?thesis
    using reg_triggers_roundtrip[OF u(1), of 0 "[\<lparr>rt_data = 1, rt_mode = RegRise, rt_trigger = 2, rt_gate = None\<rparr>,
       \<lparr>rt_data = 0, rt_mode = RegHigh, rt_trigger = 1, rt_gate = Some 2\<rparr>]" None] u(2,3) ok
    by (auto simp: room_for_def key_invalid_def)
qed

section \<open>Constants\<close>

text \<open>
  What it means for a value to denote a constant: it is the result of a constant
  instruction, or of an aggregate of values that denote constants.
\<close>

inductive denotes :: "data_flow_graph \<Rightarrow> nat \<Rightarrow> val \<Rightarrow> bool" for g where
  den_int: "value_at g v = Some (VInst t i) \<Longrightarrow> inst_at g i = Some d \<Longrightarrow> opcode_of d = OpConstInt \<Longrightarrow>
     inst_const_int d = Some x \<Longrightarrow> denotes g v (IntVal x)"
| den_time: "value_at g v = Some (VInst t i) \<Longrightarrow> inst_at g i = Some d \<Longrightarrow> opcode_of d = OpConstTime \<Longrightarrow>
     inst_const_time d = Some y \<Longrightarrow> denotes g v (TimeVal y)"
| den_array: "value_at g v = Some (VInst t i) \<Longrightarrow> inst_at g i = Some d \<Longrightarrow> opcode_of d = OpArray \<Longrightarrow>
     list_all2 (denotes g) (args d) cs \<Longrightarrow> denotes g v (ArrayVal cs)"
| den_uniform: "value_at g v = Some (VInst t i) \<Longrightarrow> inst_at g i = Some d \<Longrightarrow> opcode_of d = OpArrayUniform \<Longrightarrow>
     idx (imms d) 0 = Some k \<Longrightarrow> idx (args d) 0 = Some a \<Longrightarrow> denotes g a c \<Longrightarrow>
     denotes g v (ArrayVal (replicate k c))"
| den_struct: "value_at g v = Some (VInst t i) \<Longrightarrow> inst_at g i = Some d \<Longrightarrow> opcode_of d = OpStruct \<Longrightarrow>
     list_all2 (denotes g) (args d) cs \<Longrightarrow> denotes g v (StructVal cs)"
monos list.rel_mono_strong list_all2_mono

lemma denotes_mono:
  assumes "extends g g'"
  shows "denotes g v c \<Longrightarrow> denotes g' v c"
proof -
  have at: "value_at g v = Some d \<Longrightarrow> value_at g' v = Some d" "inst_at g i = Some e \<Longrightarrow> inst_at g' i = Some e" for v d i e
    using assms by (auto simp: extends_def map_le_def dom_def)
  show "denotes g v c \<Longrightarrow> denotes g' v c"
  proof (induction rule: denotes.induct)
    case (den_array v t i d cs)
    then show ?case using at by (intro denotes.den_array[of g' v t i d]) (auto elim: list_all2_mono)
  next
    case (den_struct v t i d cs)
    then show ?case using at by (intro denotes.den_struct[of g' v t i d]) (auto elim: list_all2_mono)
  qed (blast intro: denotes.intros at)+
qed

lemma collect_opt_Some:
  "collect_opt f xs = Some (Some ys) \<longleftrightarrow> list_all2 (\<lambda>x y. f x = Some (Some y)) xs ys"
proof (induction xs arbitrary: ys)
  case (Cons x xs)
  then show ?case by (cases ys) (auto split: option.splits)
qed auto

lemma get_value_inst_at: "dfg_wf g \<Longrightarrow> value_at g v = Some (VInst t i) \<Longrightarrow> get_value_inst g v = Some (Some i)"
  by (simp add: get_value_inst_def value_at_index)

lemma bounded_all2:
  assumes "list_all2 (\<lambda>x y. \<exists>N. \<forall>n \<ge> N. P n x y) xs ys"
  shows "\<exists>N::nat. \<forall>n \<ge> N. list_all2 (P n) xs ys"
  using assms
proof (induction xs ys rule: list_all2_induct)
  case (Cons x xs y ys)
  then obtain N M where "\<forall>n \<ge> N. P n x y" "\<forall>n \<ge> M. list_all2 (P n) xs ys" by blast
  then show ?case by (intro exI[of _ "max N M"]) simp
qed simp

lemma denotes_get_const:
  assumes "dfg_wf g"
  shows "denotes g v c \<Longrightarrow> \<exists>N. \<forall>n \<ge> N. get_const n g v = Some (Some c)"
proof (induction rule: denotes.induct)
  case (den_int v t i d x)
  have "get_const n g v = Some (Some (IntVal x))" if "n \<ge> 1" for n
    using that den_int get_value_inst_at[OF assms den_int(1)] inst_at_index[OF assms den_int(2)]
    by (cases n) (simp_all add: get_const_int_def)
  then show ?case by blast
next
  case (den_time v t i d y)
  have "get_const n g v = Some (Some (TimeVal y))" if "n \<ge> 1" for n
    using that den_time get_value_inst_at[OF assms den_time(1)] inst_at_index[OF assms den_time(2)]
    by (cases n) (simp_all add: get_const_time_def)
  then show ?case by blast
next
  case (den_array v t i d cs)
  have "list_all2 (\<lambda>x y. \<exists>N. \<forall>n \<ge> N. get_const n g x = Some (Some y)) (args d) cs"
    using den_array(4) by (rule list_all2_mono) blast
  from bounded_all2[OF this] obtain N
    where N: "\<forall>n \<ge> N. list_all2 (\<lambda>x y. get_const n g x = Some (Some y)) (args d) cs" by blast
  have "get_const n g v = Some (Some (ArrayVal cs))" if "n \<ge> Suc N" for n
    using that N den_array get_value_inst_at[OF assms den_array(1)] inst_at_index[OF assms den_array(2)]
    by (cases n) (simp_all add: collect_opt_Some[THEN iffD2])
  then show ?case by blast
next
  case (den_uniform v t i d k a c)
  then obtain N where N: "\<forall>n \<ge> N. get_const n g a = Some (Some c)" by blast
  have "get_const n g v = Some (Some (ArrayVal (replicate k c)))" if "n \<ge> Suc N" for n
    using that N den_uniform get_value_inst_at[OF assms den_uniform(1)] inst_at_index[OF assms den_uniform(2)]
    by (cases n) (simp_all add: array_new_uniform_def)
  then show ?case by blast
next
  case (den_struct v t i d cs)
  have "list_all2 (\<lambda>x y. \<exists>N. \<forall>n \<ge> N. get_const n g x = Some (Some y)) (args d) cs"
    using den_struct(4) by (rule list_all2_mono) blast
  from bounded_all2[OF this] obtain N
    where N: "\<forall>n \<ge> N. list_all2 (\<lambda>x y. get_const n g x = Some (Some y)) (args d) cs" by blast
  have "get_const n g v = Some (Some (StructVal cs))" if "n \<ge> Suc N" for n
    using that N den_struct get_value_inst_at[OF assms den_struct(1)] inst_at_index[OF assms den_struct(2)]
    by (cases n) (simp_all add: collect_opt_Some[THEN iffD2])
  then show ?case by blast
qed

lemma get_const_invalid: "dfg_wf g \<Longrightarrow> get_const n g key_invalid \<noteq> Some (Some c)"
  using dfg_wfD(3)[of g]
  by (cases n) (simp_all add: get_value_inst_def pt2_index_def idx_def key_invalid_def)

lemma get_const_denotes_rec:
  assumes wf: "dfg_wf g"
  shows "value_ok g v \<Longrightarrow> get_const n g v = Some (Some c) \<Longrightarrow> denotes g v c"
proof (induction n arbitrary: v c)
  case 0
  then show ?case by simp
next
  case (Suc n)
  then obtain vd where vd: "value_at g v = Some vd"
    using get_const_invalid[OF wf, of "Suc n" c] unfolding value_ok_def by blast
  then obtain t i where vi: "vd = VInst t i"
    using Suc.prems(2) by (cases vd) (auto simp: get_value_inst_def value_at_index[OF wf])
  note v = vd[unfolded vi]
  have "dresults g i = Some v" using v dfg_wfD(6)[OF wf] by blast
  then obtain d where d: "inst_at g i = Some d" using dfg_wfD(7)[OF wf, of i] by auto
  note idx = get_value_inst_at[OF wf v] inst_at_index[OF wf d]
  have ok: "value_ok g a" if "a \<in> set (args d)" for a using dfg_wfD(5)[OF wf d that] .
  have all: "list_all2 (denotes g) (args d) cs" if "list_all2 (\<lambda>x y. get_const n g x = Some (Some y)) (args d) cs" for cs
    using that by (rule list.rel_mono_strong) (use ok Suc.IH in blast)
  have agg: "opcode_of d = OpArray \<Longrightarrow> denotes g v (ArrayVal cs)" "opcode_of d = OpStruct \<Longrightarrow> denotes g v (StructVal cs)"
    if "list_all2 (\<lambda>x y. get_const n g x = Some (Some y)) (args d) cs" for cs
    using den_array[OF v d _ all[OF that]] den_struct[OF v d _ all[OF that]] by blast+
  have uni: "denotes g v (ArrayVal (replicate (imms d ! 0) z))"
    if "opcode_of d = OpArrayUniform" "imms d \<noteq> []" "args d \<noteq> []" "get_const n g (args d ! 0) = Some (Some z)" for z
    by (rule den_uniform[OF v d that(1)])
      (use that ok[of "args d ! 0"] Suc.IH[of "args d ! 0" z] in \<open>auto simp: idx_def\<close>)
  show ?case
  proof (cases "opcode_of d \<in> {OpConstInt, OpConstTime, OpArray, OpArrayUniform, OpStruct}")
    case False
    then show ?thesis using Suc.prems(2) idx by (simp split: if_splits)
  next
    case True
    then show ?thesis
      using Suc.prems(2) idx v d
      by (auto simp: get_const_int_def get_const_time_def collect_opt_Some array_new_uniform_def panic_simps
          intro: uni den_int[OF v d] den_time[OF v d]) (rule agg; assumption)+
  qed
qed

text \<open>
  C16: \<^verbatim>\<open>get_const\<close> finds exactly the constants that are in the graph: for a live value
  it returns a constant, at every recursion depth from some depth on, if and only if the
  value denotes that constant, and it never returns another one.
\<close>

theorem get_const_correct:
  assumes "dfg_wf g" "value_at g v \<noteq> None"
  shows "((\<exists>N. \<forall>n \<ge> N. get_const n g v = Some (Some c)) \<longleftrightarrow> denotes g v c) \<and>
    (get_const n g v = Some (Some c) \<longrightarrow> denotes g v c)"
  using denotes_get_const[OF assms(1), of v c] get_const_denotes_rec[OF assms(1), of v _ c] assms(2)
  unfolding value_ok_def by blast

lemma get_const_correct_witness:
  "denotes demo_graph 0 (IntVal (IntValue 8 5)) \<and> get_const 3 demo_graph 0 = Some (Some (IntVal (IntValue 8 5)))"
proof -
  have c: "get_const 3 demo_graph 0 = Some (Some (IntVal (IntValue 8 5)))"
    by (simp add: numeral_3_eq_3 get_value_inst_def demo_graph_def pt2_index_def idx_def opcode_of_def
        get_const_int_def inst_const_int_def)
  then show ?thesis using get_const_correct[OF demo_wf(1), of 0 "IntVal (IntValue 8 5)" 3] by (simp add: demo_at)
qed

section \<open>Zero constants\<close>

text \<open>The number of instructions a zero of a type takes, and the types that have one.\<close>

fun zero_insts :: "ty \<Rightarrow> nat" where
  "zero_insts (ArrayType _ t) = Suc (zero_insts t)"
| "zero_insts (StructType ts) = Suc (sum_list (map zero_insts ts))"
| "zero_insts _ = 1"

fun int_based :: "ty \<Rightarrow> bool" where
  "int_based (IntType _) = True"
| "int_based (ArrayType _ t) = int_based t"
| "int_based (StructType ts) = (\<forall>t \<in> set ts. int_based t)"
| "int_based _ = False"

definition zero_built :: "unit_builder \<Rightarrow> nat \<Rightarrow> ty \<Rightarrow> nat \<Rightarrow> unit_builder \<Rightarrow> bool" where
  "zero_built u n t r u' \<longleftrightarrow> ready u' \<and> room_for n u' \<and> extends (dfg u) (dfg u') \<and>
     value_type (dfg u') r = Some t \<and> value_at (dfg u') r \<noteq> None \<and>
     (\<exists>c. value_zero t = Some c \<and> denotes (dfg u') r c)"

lemma extends_denotes:
  "extends g g' \<Longrightarrow> list_all2 (denotes g) vs cs \<Longrightarrow> list_all2 (denotes g') vs cs"
  by (erule list.rel_mono_strong) (rule denotes_mono)

lemma extends_value_type:
  assumes "dfg_wf g" "dfg_wf g'" "extends g g'" "value_at g v \<noteq> None"
  shows "value_type g' v = value_type g v"
proof -
  obtain d where d: "value_at g v = Some d" using assms(4) by blast
  then have "value_at g' v = Some d" using assms(3) by (auto simp: extends_def map_le_def dom_def)
  then show ?thesis using d assms(1,2) by (simp add: value_type_def value_at_index)
qed

text \<open>Building the zeros of a list of types.\<close>

lemma build_all_zeros:
  assumes step: "\<And>t u n. t \<in> set ts \<Longrightarrow> ready u \<Longrightarrow> room_for (zero_insts t + n) u \<Longrightarrow>
      \<exists>r u'. ib_const_zero None t u = Some (r, u') \<and> zero_built u n t r u'"
    and "ready u" "room_for (sum_list (map zero_insts ts) + n) u"
  shows "\<exists>rs u'. build_all (\<lambda>t u. ib_const_zero None t u) ts u = Some (rs, u') \<and> ready u' \<and> room_for n u' \<and>
    extends (dfg u) (dfg u') \<and> mapM (value_type (dfg u')) rs = Some ts \<and>
    (\<forall>r \<in> set rs. value_at (dfg u') r \<noteq> None) \<and>
    (\<exists>cs. mapM value_zero ts = Some cs \<and> list_all2 (denotes (dfg u')) rs cs)"
  using assms
proof (induction ts arbitrary: u)
  case Nil
  then show ?case by simp
next
  case (Cons t ts)
  have room: "room_for (zero_insts t + (sum_list (map zero_insts ts) + n)) u" using Cons.prems(3) by (simp add: add.assoc)
  obtain r u1 where r: "ib_const_zero None t u = Some (r, u1)" "zero_built u (sum_list (map zero_insts ts) + n) t r u1"
    using Cons.prems(1)[OF _ Cons.prems(2) room] by auto
  note zb = r(2)[unfolded zero_built_def]
  obtain rs u2 where rs: "build_all (\<lambda>t u. ib_const_zero None t u) ts u1 = Some (rs, u2)" "ready u2" "room_for n u2"
    "extends (dfg u1) (dfg u2)" "mapM (value_type (dfg u2)) rs = Some ts" "\<forall>r \<in> set rs. value_at (dfg u2) r \<noteq> None"
    "\<exists>cs. mapM value_zero ts = Some cs \<and> list_all2 (denotes (dfg u2)) rs cs"
    using Cons.IH[of u1] Cons.prems(1) zb by auto
  obtain c where c: "value_zero t = Some c" "denotes (dfg u1) r c" using zb by blast
  have "value_type (dfg u2) r = Some t"
    using extends_value_type[OF ready_wf ready_wf[OF rs(2)] rs(4), of r] zb by auto
  moreover have "value_at (dfg u2) r \<noteq> None" using zb rs(4) by (auto simp: extends_def map_le_def dom_def)
  moreover have "denotes (dfg u2) r c" using denotes_mono[OF rs(4) c(2)] .
  moreover have "extends (dfg u) (dfg u2)" using zb rs(4) extends_trans by blast
  ultimately show ?case using r(1) rs c(1) by auto
qed

lemma zero_builtI:
  assumes "ready u'" "room_for n u'" "extends (dfg u) (dfg u')" "value_at (dfg u') r = Some (VInst t i)"
    and "value_zero t = Some c" "denotes (dfg u') r c"
  shows "zero_built u n t r u'"
  using assms value_type_at[OF ready_wf[OF assms(1)] assms(4)] by (auto simp: zero_built_def)

lemma const_zero_built:
  "int_based t \<Longrightarrow> ready u \<Longrightarrow> room_for (zero_insts t + n) u \<Longrightarrow>
     \<exists>r u'. ib_const_zero nm t u = Some (r, u') \<and> zero_built u n t r u'"
proof (induction t arbitrary: nm u n)
  case (IntType w)
  let ?d = "IConstInt OpConstInt (iv_zero w)"
  have t: "iv_ty (iv_zero w) = IntType w" by (simp add: iv_ty_def iv_zero_def)
  obtain i r u' where u': "ib_value (ib_build nm ?d (IntType w) u) = Some (r, u')" "ready u'" "room_for n u'"
    "extends (dfg u) (dfg u')" "inst_at (dfg u') i = Some ?d" "value_at (dfg u') r = Some (VInst (IntType w) i)"
    using ib_value_effect[OF IntType(2), of n ?d "IntType w" nm] IntType(3)
    by (auto simp: args_def has_res_def)
  have "denotes (dfg u') r (IntVal (iv_zero w))"
    by (rule den_int[OF u'(6,5)]) (simp_all add: opcode_of_def inst_const_int_def)
  then show ?case using zero_builtI[OF u'(2-4,6)] u'(1) t by (auto simp: ib_const_int_def)
next
  case (ArrayType l t)
  obtain e u1 where e: "ib_const_zero None t u = Some (e, u1)" "zero_built u (Suc n) t e u1"
    using ArrayType.IH[of u "Suc n" None] ArrayType.prems by auto
  note zb = e(2)[unfolded zero_built_def]
  let ?d = "IArray OpArrayUniform l e"
  obtain i r u' where u': "ib_value (ib_build nm ?d (ArrayType l t) u1) = Some (r, u')" "ready u'" "room_for n u'"
    "extends (dfg u1) (dfg u')" "inst_at (dfg u') i = Some ?d" "value_at (dfg u') r = Some (VInst (ArrayType l t) i)"
    using ib_value_effect[of u1 n ?d "ArrayType l t" nm] zb by (auto simp: args_def has_res_def value_ok_def)
  obtain c where c: "value_zero t = Some c" "denotes (dfg u') e c" using zb denotes_mono[OF u'(4)] by blast
  have "denotes (dfg u') r (ArrayVal (replicate l c))"
    by (rule den_uniform[OF u'(6,5) _ _ _ c(2)]) (simp_all add: opcode_of_def imms_def args_def idx_def)
  then have "zero_built u n (ArrayType l t) r u'"
    using u' zb extends_trans c(1) by (intro zero_builtI[OF u'(2,3) _ u'(6)]) auto
  then show ?case using e(1) u'(1) zb by (simp add: ib_array_uniform_def ib_value_type_def)
next
  case (StructType ts)
  have "room_for (sum_list (map zero_insts ts) + Suc n) u" using StructType.prems(3) by simp
  from build_all_zeros[OF _ StructType.prems(2) this] StructType.IH StructType.prems(1)
  obtain rs u1 cs where rs: "build_all (\<lambda>t u. ib_const_zero None t u) ts u = Some (rs, u1)" "ready u1" "room_for (Suc n) u1"
    "extends (dfg u) (dfg u1)" "mapM (value_type (dfg u1)) rs = Some ts" "\<forall>r \<in> set rs. value_at (dfg u1) r \<noteq> None"
    "mapM value_zero ts = Some cs" "list_all2 (denotes (dfg u1)) rs cs"
    by auto
  let ?d = "IAggregate OpStruct rs"
  obtain i r u' where u': "ib_value (ib_build nm ?d (StructType ts) u1) = Some (r, u')" "ready u'" "room_for n u'"
    "extends (dfg u1) (dfg u')" "inst_at (dfg u') i = Some ?d" "value_at (dfg u') r = Some (VInst (StructType ts) i)"
    using ib_value_effect[OF rs(2,3), of ?d "StructType ts" nm] rs(6) by (auto simp: args_def has_res_def value_ok_def)
  have "denotes (dfg u') r (StructVal cs)"
    by (rule den_struct[OF u'(6,5)]) (simp_all add: opcode_of_def args_def extends_denotes[OF u'(4) rs(8)])
  then have "zero_built u n (StructType ts) r u'"
    using u' rs(4,7) extends_trans by (intro zero_builtI[OF u'(2,3) _ u'(6)]) auto
  moreover have "mapM (ib_value_type u1) rs = Some ts"
    using rs(5) by (simp add: ib_value_type_def[abs_def])
  ultimately show ?case using rs(1) u'(1) by (simp add: ib_strukt_def)
qed simp_all

text \<open>
  C10: \<^verbatim>\<open>const_zero\<close> and \<^verbatim>\<open>Value::zero\<close> agree. For a type made of integers, arrays and
  structs the builder emits instructions (as many as \<open>zero_insts\<close> counts, for which there must
  be room) whose result has that type and is read back by \<^verbatim>\<open>get_const\<close> as the zero
  value of the type; everything that was in the unit before is still there.
\<close>

theorem const_zero_correct:
  assumes "int_based t" "ready u" "room_for (zero_insts t) u"
  shows "\<exists>r u' c. ib_const_zero nm t u = Some (r, u') \<and> ready u' \<and> value_type (dfg u') r = Some t \<and>
    value_zero t = Some c \<and> (\<exists>N. \<forall>n \<ge> N. get_const n (dfg u') r = Some (Some c)) \<and>
    extends (dfg u) (dfg u')"
proof -
  obtain r u' where "ib_const_zero nm t u = Some (r, u')" "zero_built u 0 t r u'"
    using const_zero_built[OF assms(1,2), of 0 nm] assms(3) by auto
  then show ?thesis
    unfolding zero_built_def using denotes_get_const[OF ready_wf[of u']] by blast
qed

lemma const_zero_correct_witness:
  "\<exists>u r u'. ib_const_zero None (StructType [IntType 8, ArrayType 3 (IntType 1)]) u = Some (r, u') \<and>
     (\<exists>N. \<forall>n \<ge> N. get_const n (dfg u') r = Some (Some (StructVal [IntVal (IntValue 8 0),
        ArrayVal [IntVal (IntValue 1 0), IntVal (IntValue 1 0), IntVal (IntValue 1 0)]])))"
proof -
  obtain u where u: "ready u" "room_for 1000 u" using demo_ready by blast
  then have "room_for (zero_insts (StructType [IntType 8, ArrayType 3 (IntType 1)])) u" by (simp add: room_for_def)
  from const_zero_correct[OF _ u(1) this, of None] show ?thesis
    by (force simp: iv_zero_def numeral_3_eq_3)
qed

end
