(* ===== verification/ConstFold.thy ===== *)
theory ConstFold
  imports BuilderProps
begin

text \<open>
  The constant folding pass (\<^verbatim>\<open>src/src/pass/cf.rs\<close>). A fold returns the value that replaces
  the result of an instruction, if any, and the unit with the instructions it inserted.
  \<open>ord\<close> is the iteration order of the use lists.
\<close>

type_synonym fold_result = "(nat option \<times> unit_builder) option"

definition replaced :: "(nat \<times> unit_builder) option \<Rightarrow> fold_result" where
  "replaced r = map_option (\<lambda>(v, u). (Some v, u)) r"

definition fold_unary_int :: "unit_builder \<Rightarrow> opcode \<Rightarrow> nat \<Rightarrow> fold_result" where
  "fold_unary_int u op arg =
     do { imm \<leftarrow> get_const_int (dfg u) arg;
          case imm of None \<Rightarrow> Some (None, u)
          | Some imm \<Rightarrow>
              do { r \<leftarrow> try_unary_op op imm;
                   case r of None \<Rightarrow> Some (None, u)
                   | Some result \<Rightarrow> replaced (ib_const_int None result u) } }"

definition fold_unary :: "unit_builder \<Rightarrow> opcode \<Rightarrow> ty \<Rightarrow> nat \<Rightarrow> fold_result" where
  "fold_unary u op t arg = (if ty_is_int t then fold_unary_int u op arg else Some (None, u))"

text \<open>
  The three stages of folding a binary operation: a constant on either side, a constant on
  the right, both constant. A stage that decides returns \<open>Some\<close>.
\<close>

definition fold_symmetric :: "unit_builder \<Rightarrow> opcode \<Rightarrow> nat \<Rightarrow> int_value option \<Rightarrow> int_value option \<Rightarrow>
    nat \<Rightarrow> nat \<Rightarrow> fold_result option" where
  "fold_symmetric u op w imm0 imm1 a0 a1 =
     (let (arg_kon, arg_var) = (case (imm0, imm1) of
            (None, Some _) \<Rightarrow> (imm1, a0) | (Some _, None) \<Rightarrow> (imm0, a1) | _ \<Rightarrow> (None, a0))
      in case arg_kon of None \<Rightarrow> None
         | Some a \<Rightarrow>
             if op \<in> {OpAnd, OpSmul, OpUmul} \<and> iv_is_zero a then
               Some (replaced (ib_const_int None (iv_zero w) u))
             else if op \<in> {OpOr, OpXor, OpAdd, OpSub} \<and> iv_is_zero a then Some (Some (Some arg_var, u))
             else if op \<in> {OpSmul, OpUmul} \<and> iv_is_one a then Some (Some (Some arg_var, u))
             else if op = OpOr \<and> iv_is_all_ones a then Some (replaced (ib_const_int None (iv_all_ones w) u))
             else if op = OpAnd \<and> iv_is_all_ones a then Some (Some (Some arg_var, u))
             else if op = OpXor \<and> iv_is_all_ones a then Some (replaced (ib_not None arg_var u))
             else None)"

definition fold_asymmetric :: "unit_builder \<Rightarrow> opcode \<Rightarrow> nat \<Rightarrow> int_value option \<Rightarrow> int_value option \<Rightarrow>
    nat \<Rightarrow> fold_result option" where
  "fold_asymmetric u op w imm0 imm1 a0 =
     (let (arg_kon, arg_var) = (case (imm0, imm1) of (None, Some _) \<Rightarrow> (imm1, a0) | _ \<Rightarrow> (None, a0))
      in case arg_kon of None \<Rightarrow> None
         | Some a \<Rightarrow>
             if op \<in> {OpSdiv, OpUdiv} \<and> iv_is_one a then Some (Some (Some arg_var, u))
             else if op \<in> {OpSmod, OpUmod, OpSrem, OpUrem} \<and> iv_is_one a then
               Some (replaced (ib_const_int None (iv_zero w) u))
             else None)"

definition fold_full :: "unit_builder \<Rightarrow> opcode \<Rightarrow> int_value option \<Rightarrow> int_value option \<Rightarrow> fold_result" where
  "fold_full u op imm0 imm1 =
     (case (imm0, imm1) of
        (Some x, Some y) \<Rightarrow>
          do { b \<leftarrow> try_binary_op op x y;
               r \<leftarrow> (case b of Some r \<Rightarrow> Some (Some r) | None \<Rightarrow> try_compare_op op x y);
               case r of None \<Rightarrow> Some (None, u) | Some r \<Rightarrow> replaced (ib_const_int None r u) }
      | _ \<Rightarrow> Some (None, u))"

definition fold_binary_int :: "unit_builder \<Rightarrow> opcode \<Rightarrow> nat \<Rightarrow> nat \<Rightarrow> nat \<Rightarrow> fold_result" where
  "fold_binary_int u op w a0 a1 =
     do { imm0 \<leftarrow> get_const_int (dfg u) a0;
          imm1 \<leftarrow> get_const_int (dfg u) a1;
          case fold_symmetric u op w imm0 imm1 a0 a1 of Some r \<Rightarrow> r
          | None \<Rightarrow>
              (case fold_asymmetric u op w imm0 imm1 a0 of Some r \<Rightarrow> r
               | None \<Rightarrow> fold_full u op imm0 imm1) }"

definition fold_binary :: "unit_builder \<Rightarrow> opcode \<Rightarrow> ty \<Rightarrow> nat \<Rightarrow> nat \<Rightarrow> fold_result" where
  "fold_binary u op t a0 a1 =
     (if ty_is_int t then do { w \<leftarrow> ty_unwrap_int t; fold_binary_int u op w a0 a1 } else Some (None, u))"

definition fold_ins_slice :: "unit_builder \<Rightarrow> nat \<Rightarrow> fold_result" where
  "fold_ins_slice u i =
     do { data \<leftarrow> pt2_index (dinsts (dfg u)) i;
          tgt \<leftarrow> idx (args data) 0;
          value \<leftarrow> idx (args data) 1;
          len \<leftarrow> idx (imms data) 1;
          t \<leftarrow> value_type (dfg u) tgt;
          if (ty_is_int t \<or> ty_is_array t) \<and> len = 0 then Some (Some tgt, u)
          else if (ty_is_int t \<or> ty_is_array t) \<and> len = ty_len t then Some (Some value, u)
          else do {
            ti \<leftarrow> get_const_int (dfg u) tgt;
            vi \<leftarrow> get_const_int (dfg u) value;
            case (ti, vi) of
              (Some ti, Some vi) \<Rightarrow>
                do { off \<leftarrow> idx (imms data) 0;
                     r \<leftarrow> iv_insert_slice ti off len vi;
                     replaced (ib_const_int None r u) }
            | _ \<Rightarrow> Some (None, u) } }"

definition fold_ext_slice :: "unit_builder \<Rightarrow> nat \<Rightarrow> fold_result" where
  "fold_ext_slice u i =
     do { data \<leftarrow> pt2_index (dinsts (dfg u)) i;
          t \<leftarrow> inst_type (dfg u) i;
          tgt \<leftarrow> idx (args data) 0;
          len \<leftarrow> idx (imms data) 1;
          tt \<leftarrow> value_type (dfg u) tgt;
          if (ty_is_int tt \<or> ty_is_array tt) \<and> len = 0 then replaced (ib_const_zero None t u)
          else if (ty_is_int tt \<or> ty_is_array tt) \<and> len = ty_len tt then Some (Some tgt, u)
          else do {
            imm \<leftarrow> get_const_int (dfg u) tgt;
            case imm of
              Some imm \<Rightarrow>
                do { off \<leftarrow> idx (imms data) 0;
                     replaced (ib_const_int None (iv_extract_slice imm off len) u) }
            | None \<Rightarrow> Some (None, u) } }"

definition fold_ext_field :: "unit_builder \<Rightarrow> nat \<Rightarrow> fold_result" where
  "fold_ext_field u i =
     do { data \<leftarrow> pt2_index (dinsts (dfg u)) i;
          tgt \<leftarrow> idx (args data) 0;
          ti \<leftarrow> get_value_inst (dfg u) tgt;
          case ti of None \<Rightarrow> Some (None, u)
          | Some ti \<Rightarrow>
              do { td \<leftarrow> pt2_index (dinsts (dfg u)) ti;
                   off \<leftarrow> idx (imms data) 0;
                   if opcode_of td = OpArrayUniform then do { a \<leftarrow> idx (args td) 0; Some (Some a, u) }
                   else if opcode_of td \<in> {OpArray, OpStruct} \<and> off < length (args td) then
                     do { a \<leftarrow> idx (args td) off; Some (Some a, u) }
                   else Some (None, u) } }"

definition fold_mux :: "unit_builder \<Rightarrow> nat \<Rightarrow> fold_result" where
  "fold_mux u i =
     do { data \<leftarrow> pt2_index (dinsts (dfg u)) i;
          choices \<leftarrow> idx (args data) 0;
          sel \<leftarrow> idx (args data) 1;
          c \<leftarrow> get_const_int (dfg u) sel;
          case c of None \<Rightarrow> Some (None, u)
          | Some c \<Rightarrow> do { k \<leftarrow> to_usize c; replaced (ib_ext_field None choices k u) } }"

text \<open>\<^verbatim>\<open>fold(unit, value_inst(r)).unwrap_or(r)\<close>\<close>

definition fold_or_keep :: "(unit_builder \<Rightarrow> nat \<Rightarrow> fold_result) \<Rightarrow> nat \<Rightarrow> unit_builder \<Rightarrow> fold_result" where
  "fold_or_keep f r u =
     do { i \<leftarrow> value_inst (dfg u) r;
          (x, u) \<leftarrow> f u i;
          Some (Some (case x of Some v \<Rightarrow> v | None \<Rightarrow> r), u) }"

text \<open>\<open>again\<close> folds the value of an instruction that the shift was expanded into.\<close>

definition fold_shift :: "(nat \<Rightarrow> unit_builder \<Rightarrow> (bool \<times> unit_builder) option) \<Rightarrow> unit_builder \<Rightarrow> nat \<Rightarrow> ty \<Rightarrow>
    fold_result" where
  "fold_shift again u i t =
     do { data \<leftarrow> pt2_index (dinsts (dfg u)) i;
          base \<leftarrow> idx (args data) 0;
          hidden \<leftarrow> idx (args data) 1;
          amount \<leftarrow> idx (args data) 2;
          const_amount \<leftarrow> get_const_int (dfg u) amount;
          let left = (opcode_of data = OpShl);
          if (case const_amount of Some a \<Rightarrow> iv_is_zero a | None \<Rightarrow> False) then Some (Some base, u)
          else do {
            bt \<leftarrow> value_type (dfg u) base;
            if ty_is_signal bt \<or> ty_is_pointer bt then Some (None, u)
            else
              (case const_amount of None \<Rightarrow> Some (None, u)
               | Some a \<Rightarrow>
                   do { amount \<leftarrow> to_usize a;
                        let base_width = ty_len bt;
                        ht \<leftarrow> value_type (dfg u) hidden;
                        let hidden_width = ty_len ht;
                        let amount = min amount hidden_width;
                        if amount \<ge> base_width then
                          do { let offset = (if left then hidden_width - amount else amount - base_width);
                               (r, u) \<leftarrow> ib_ext_slice None hidden offset base_width u;
                               fold_or_keep fold_ext_slice r u }
                        else
                          do { (b, h, z0, z1, z2, u) \<leftarrow>
                                 (if left then
                                    do { (b, u) \<leftarrow> ib_ext_slice None base 0 (base_width - amount) u;
                                         (h, u) \<leftarrow> ib_ext_slice None hidden (hidden_width - amount) amount u;
                                         (z0, u) \<leftarrow> ib_const_zero None t u;
                                         (z1, u) \<leftarrow> ib_ins_slice None z0 b amount (base_width - amount) u;
                                         (z2, u) \<leftarrow> ib_ins_slice None z1 h 0 amount u;
                                         Some (b, h, z0, z1, z2, u) }
                                  else
                                    do { (h, u) \<leftarrow> ib_ext_slice None hidden 0 amount u;
                                         (b, u) \<leftarrow> ib_ext_slice None base amount (base_width - amount) u;
                                         (z0, u) \<leftarrow> ib_const_zero None t u;
                                         (z1, u) \<leftarrow> ib_ins_slice None z0 h (base_width - amount) amount u;
                                         (z2, u) \<leftarrow> ib_ins_slice None z1 b 0 (base_width - amount) u;
                                         Some (b, h, z0, z1, z2, u) });
                               (_, u) \<leftarrow> again h u;
                               (_, u) \<leftarrow> again b u;
                               (_, u) \<leftarrow> again z0 u;
                               (_, u) \<leftarrow> again z1 u;
                               fold_or_keep fold_ins_slice z2 u } }) } }"

text \<open>The replacement computed for an instruction, before any use is changed.\<close>

definition fold_inst :: "(nat \<Rightarrow> unit_builder \<Rightarrow> (bool \<times> unit_builder) option) \<Rightarrow> unit_builder \<Rightarrow> nat \<Rightarrow> ty \<Rightarrow>
    fold_result" where
  "fold_inst again u i t =
     do { data \<leftarrow> pt2_index (dinsts (dfg u)) i;
          let op = opcode_of data;
          if op = OpInsSlice then fold_ins_slice u i
          else if op = OpExtSlice then fold_ext_slice u i
          else if op = OpExtField then fold_ext_field u i
          else if op = OpShl \<or> op = OpShr then fold_shift again u i t
          else if op = OpMux then fold_mux u i
          else (case data of
                  IUnary op a \<Rightarrow> fold_unary u op t a
                | IBinary op a b \<Rightarrow> fold_binary u op t a b
                | _ \<Rightarrow> Some (None, u)) }"

definition move_name :: "nat \<Rightarrow> nat \<Rightarrow> data_flow_graph \<Rightarrow> data_flow_graph" where
  "move_name from to g =
     (case names g from of
        None \<Rightarrow> g
      | Some n \<Rightarrow> g\<lparr>names := ((names g)(to \<mapsto> n))(from := None)\<rparr>)"

text \<open>
  \<^verbatim>\<open>run_on_inst\<close> and \<^verbatim>\<open>run_on_value\<close> call each other through \<^verbatim>\<open>fold_shift\<close>, on the slices
  and insertions of an expanded shift only; the fuel bounds the nesting, and 2 is enough.
\<close>

fun cf_run_on_inst :: "nat \<Rightarrow> (nat set \<Rightarrow> nat list) \<Rightarrow> nat \<Rightarrow> unit_builder \<Rightarrow> (bool \<times> unit_builder) option" where
  "cf_run_on_inst 0 ord i u = None"
| "cf_run_on_inst (Suc n) ord i u =
     (let u = insert_before_inst i u
      in if \<not> has_result (dfg u) i then Some (False, u)
         else do {
           value \<leftarrow> inst_result (dfg u) i;
           t \<leftarrow> value_type (dfg u) value;
           (r, u) \<leftarrow> fold_inst (\<lambda>v u. do { j \<leftarrow> get_value_inst (dfg u) v;
                                case j of None \<Rightarrow> Some (False, u) | Some j \<Rightarrow> cf_run_on_inst n ord j u }) u i t;
           case r of
             None \<Rightarrow> Some (False, u)
           | Some replacement \<Rightarrow>
               do { t' \<leftarrow> value_type (dfg u) replacement;
                    ensure (t = t');
                    (_, g) \<leftarrow> replace_use ord value replacement (move_name value replacement (dfg u));
                    Some (True, u\<lparr>dfg := g\<rparr>) } })"

end
