(* ===== verification/Semantics.thy ===== *)
theory Semantics
  imports BuilderProps
begin

text \<open>
  The reference meaning of the data instructions, after the opcode descriptions of the
  language: the value of an instruction from the values of its operands, over the value
  operations of \<^verbatim>\<open>src/src/value\<close>. The passes and the verifier are proved against it.
\<close>

section \<open>Evaluating an instruction\<close>

definition eval_binary :: "opcode \<Rightarrow> int_value \<Rightarrow> int_value \<Rightarrow> int_value option" where
  "eval_binary op x y =
     do { r \<leftarrow> try_binary_op op x y;
          case r of Some z \<Rightarrow> Some z | None \<Rightarrow> compare_op op x y }"

definition eval_mux :: "val \<Rightarrow> val \<Rightarrow> val option" where
  "eval_mux arr sel = do { vs \<leftarrow> get_array arr; k \<leftarrow> get_int sel; array_extract_field vs (ivalue k) }"

text \<open>
  A shift selects a window of the concatenation of base and hidden value; amounts past the
  length of the hidden value are undefined.
\<close>

definition shift_list :: "bool \<Rightarrow> 'a list \<Rightarrow> 'a list \<Rightarrow> nat \<Rightarrow> 'a list option" where
  "shift_list left base hidden k =
     (if k \<le> length hidden
      then if left then slice (hidden @ base) (length hidden - k) (length base)
           else slice (base @ hidden) k (length base)
      else None)"

definition shift_int :: "bool \<Rightarrow> int_value \<Rightarrow> int_value \<Rightarrow> nat \<Rightarrow> int_value option" where
  "shift_int left base hidden k =
     (if k \<le> width hidden
      then Some (if left
        then from_unsigned (width base) (drop_bit (width hidden - k) (ivalue hidden + push_bit (width hidden) (ivalue base)))
        else from_unsigned (width base) (drop_bit k (ivalue base + push_bit (width base) (ivalue hidden))))
      else None)"

definition eval_shift :: "bool \<Rightarrow> val \<Rightarrow> val \<Rightarrow> val \<Rightarrow> val option" where
  "eval_shift left base hidden amount =
     do { k \<leftarrow> get_int amount;
          case (base, hidden) of
            (IntVal b, IntVal h) \<Rightarrow> map_option IntVal (shift_int left b h (ivalue k))
          | (ArrayVal b, ArrayVal h) \<Rightarrow> map_option ArrayVal (shift_list left b h (ivalue k))
          | _ \<Rightarrow> None }"

text \<open>Slices of integers must lie within the width, as those of arrays do.\<close>

definition eval_ins_slice :: "val \<Rightarrow> val \<Rightarrow> nat \<Rightarrow> nat \<Rightarrow> val option" where
  "eval_ins_slice tgt v off len =
     (case (tgt, v) of
        (IntVal x, IntVal y) \<Rightarrow>
          if off + len \<le> width x then map_option IntVal (iv_insert_slice x off len y) else None
      | (ArrayVal xs, ArrayVal ys) \<Rightarrow> map_option ArrayVal (array_insert_slice xs off len ys)
      | _ \<Rightarrow> None)"

definition eval_ext_slice :: "val \<Rightarrow> nat \<Rightarrow> nat \<Rightarrow> val option" where
  "eval_ext_slice tgt off len =
     (case tgt of
        IntVal x \<Rightarrow> if off + len \<le> width x then Some (IntVal (iv_extract_slice x off len)) else None
      | ArrayVal xs \<Rightarrow> map_option ArrayVal (array_extract_slice xs off len)
      | _ \<Rightarrow> None)"

definition eval_ins_field :: "val \<Rightarrow> val \<Rightarrow> nat \<Rightarrow> val option" where
  "eval_ins_field tgt v k =
     (case tgt of
        ArrayVal xs \<Rightarrow> map_option ArrayVal (array_insert_field xs k v)
      | StructVal xs \<Rightarrow> map_option StructVal (struct_insert_field xs k v)
      | _ \<Rightarrow> None)"

definition eval_ext_field :: "val \<Rightarrow> nat \<Rightarrow> val option" where
  "eval_ext_field tgt k =
     (case tgt of
        ArrayVal xs \<Rightarrow> array_extract_field xs k
      | StructVal xs \<Rightarrow> struct_extract_field xs k
      | _ \<Rightarrow> None)"

definition eval_inst :: "(nat \<Rightarrow> val) \<Rightarrow> inst_data \<Rightarrow> val option" where
  "eval_inst env d = (case d of
     IConstInt op k \<Rightarrow> if op = OpConstInt then Some (IntVal k) else None
   | IConstTime op t \<Rightarrow> if op = OpConstTime then Some (TimeVal t) else None
   | IArray op n a \<Rightarrow> if op = OpArrayUniform then Some (ArrayVal (array_new_uniform n (env a))) else None
   | IAggregate op as \<Rightarrow>
       if op = OpArray then Some (ArrayVal (map env as))
       else if op = OpStruct then Some (StructVal (map env as)) else None
   | IUnary op a \<Rightarrow>
       if op = OpAlias then Some (env a)
       else do { x \<leftarrow> get_int (env a); map_option IntVal (unary_op op x) }
   | IBinary op a b \<Rightarrow>
       if op = OpMux then eval_mux (env a) (env b)
       else do { x \<leftarrow> get_int (env a); y \<leftarrow> get_int (env b); map_option IntVal (eval_binary op x y) }
   | ITernary op a b c \<Rightarrow>
       if op = OpShl then eval_shift True (env a) (env b) (env c)
       else if op = OpShr then eval_shift False (env a) (env b) (env c) else None
   | IInsExt op a b i j \<Rightarrow>
       if op = OpInsField then eval_ins_field (env a) (env b) i
       else if op = OpInsSlice then eval_ins_slice (env a) (env b) i j
       else if op = OpExtField then eval_ext_field (env a) i
       else if op = OpExtSlice then eval_ext_slice (env a) i j else None
   | _ \<Rightarrow> None)"

lemma eval_inst_cong: "(\<And>a. a \<in> set (args d) \<Longrightarrow> env a = env' a) \<Longrightarrow> eval_inst env d = eval_inst env' d"
  by (cases d) (auto simp: eval_inst_def args_def cong: map_cong split: if_splits)

text \<open>Replacing an operand by another with the same value does not change the result.\<close>

lemma eval_inst_subst: "env from = env to \<Longrightarrow> eval_inst env (args_mut (subst from to) d) = eval_inst env d"
  by (cases d) (auto simp: eval_inst_def args_mut_def subst_def split: if_splits)

section \<open>Valuations of a graph\<close>

text \<open>Types whose values are data; a signal, a pointer or a unit has no value of its own.\<close>

fun data_ty :: "ty \<Rightarrow> bool" where
  "data_ty TimeType = True"
| "data_ty (IntType _) = True"
| "data_ty (ArrayType _ t) = data_ty t"
| "data_ty (StructType ts) = (\<forall>t \<in> set ts. data_ty t)"
| "data_ty _ = False"

definition data_value :: "data_flow_graph \<Rightarrow> nat \<Rightarrow> bool" where
  "data_value g v \<longleftrightarrow> (\<exists>d t. value_at g v = Some d \<and> vd_type d = Some t \<and> data_ty t)"

text \<open>
  A valuation models a graph when every value of a data type has a value of that type, and
  the result of every instruction on data has the value the instruction computes, where
  that is defined. Instructions that use a value of \<open>W\<close> are left out; \<open>W\<close> is empty but in the
  middle of a replacement, when the uses of a value are about to change.
\<close>

definition models :: "nat set \<Rightarrow> data_flow_graph \<Rightarrow> (nat \<Rightarrow> val) \<Rightarrow> bool" where
  "models W g env \<longleftrightarrow>
     (\<forall>v d t. value_at g v = Some d \<longrightarrow> vd_type d = Some t \<longrightarrow> data_ty t \<longrightarrow> has_ty (env v) t) \<and>
     (\<forall>v t i d x. value_at g v = Some (VInst t i) \<longrightarrow> data_ty t \<longrightarrow> inst_at g i = Some d \<longrightarrow>
        (\<forall>a \<in> set (args d). data_value g a \<and> a \<notin> W) \<longrightarrow> eval_inst env d = Some x \<longrightarrow> env v = x)"

lemma modelsD:
  assumes "models W g env"
  shows "value_at g v = Some d \<Longrightarrow> vd_type d = Some t \<Longrightarrow> data_ty t \<Longrightarrow> has_ty (env v) t"
    and "value_at g v = Some (VInst t i) \<Longrightarrow> data_ty t \<Longrightarrow> inst_at g i = Some e \<Longrightarrow>
      \<forall>a \<in> set (args e). data_value g a \<and> a \<notin> W \<Longrightarrow> eval_inst env e = Some x \<Longrightarrow> env v = x"
  using assms unfolding models_def by blast+

lemma data_value_extends: "extends g g' \<Longrightarrow> data_value g v \<Longrightarrow> data_value g' v"
  unfolding data_value_def extends_def map_le_def dom_def by fastforce

lemma models_extends:
  assumes "extends g g'" "models W g' env"
  shows "models W g env"
  unfolding models_def
proof (intro conjI allI impI)
  have at: "value_at g v = Some d \<Longrightarrow> value_at g' v = Some d" "inst_at g i = Some e \<Longrightarrow> inst_at g' i = Some e" for v d i e
    using assms(1) by (auto simp: extends_def map_le_def dom_def)
  fix v d t
  assume "value_at g v = Some d" "vd_type d = Some t" "data_ty t"
  then show "has_ty (env v) t" using modelsD(1)[OF assms(2)] at(1) by blast
next
  have at: "value_at g v = Some d \<Longrightarrow> value_at g' v = Some d" "inst_at g i = Some e \<Longrightarrow> inst_at g' i = Some e" for v d i e
    using assms(1) by (auto simp: extends_def map_le_def dom_def)
  fix v t i d x
  assume "value_at g v = Some (VInst t i)" "data_ty t" "inst_at g i = Some d"
    "\<forall>a \<in> set (args d). data_value g a \<and> a \<notin> W" "eval_inst env d = Some x"
  then show "env v = x"
    using modelsD(2)[OF assms(2), of v t i d x] at data_value_extends[OF assms(1)] by blast
qed

text \<open>A use may be redirected to a value of the same type that is equal in the valuation.\<close>

lemma models_replace:
  assumes "models {} g' env" "data_value g from \<Longrightarrow> env from = env to \<and> data_value g to"
    and "inst_at g' = (\<lambda>i. map_option (args_mut (subst from to)) (inst_at g i))" "value_at g' = value_at g"
  shows "models {} g env"
  unfolding models_def
proof (intro conjI allI impI)
  fix v d t
  assume "value_at g v = Some d" "vd_type d = Some t" "data_ty t"
  then show "has_ty (env v) t" using modelsD(1)[OF assms(1)] assms(4) by auto
next
  fix v t i d x
  assume d: "value_at g v = Some (VInst t i)" "data_ty t" "inst_at g i = Some d"
    "\<forall>a \<in> set (args d). data_value g a \<and> a \<notin> {}" "eval_inst env d = Some x"
  have dv: "data_value g' = data_value g" using assms(4) by (simp add: data_value_def fun_eq_iff)
  have e: "eval_inst env (args_mut (subst from to) d) = eval_inst env d"
  proof (cases "from \<in> set (args d)")
    case True
    then show ?thesis using eval_inst_subst assms(2) d(4) by blast
  next
    case False
    then have "args_mut (subst from to) d = d" by (intro args_mut_id) (auto simp: subst_def)
    then show ?thesis by simp
  qed
  have "\<forall>a \<in> set (args (args_mut (subst from to) d)). data_value g' a \<and> a \<notin> {}"
    using d(4) assms(2) unfolding dv by (auto simp: subst_def)
  then show "env v = x" using modelsD(2)[OF assms(1), of v t i "args_mut (subst from to) d" x] e assms(3,4) d by auto
qed

text \<open>An instruction that does not use the replaced value keeps its meaning.\<close>

lemma models_unreplaced:
  assumes "models {} g' env" and at: "inst_at g' = (\<lambda>i. map_option (args_mut (subst from to)) (inst_at g i))" "value_at g' = value_at g"
  shows "models {from} g env"
  unfolding models_def
proof (intro conjI allI impI)
  fix v d t
  assume "value_at g v = Some d" "vd_type d = Some t" "data_ty t"
  then show "has_ty (env v) t" using modelsD(1)[OF assms(1)] at(2) by auto
next
  fix v t i d x
  assume d: "value_at g v = Some (VInst t i)" "data_ty t" "inst_at g i = Some d"
    "\<forall>a \<in> set (args d). data_value g a \<and> a \<notin> {from}" "eval_inst env d = Some x"
  have dv: "data_value g' = data_value g" using at(2) by (simp add: data_value_def fun_eq_iff)
  have "args_mut (subst from to) d = d" using d(4) by (intro args_mut_id) (auto simp: subst_def)
  then have "inst_at g' i = Some d" using at(1) d(3) by simp
  then show "env v = x" using modelsD(2)[OF assms(1), of v t i d x] at(2) d dv by auto
qed

end
