(* ===== verification/Verifier.thy ===== *)
theory Verifier
  imports Semantics
begin

text \<open>
  The instruction verifier (\<^verbatim>\<open>InstVerifier\<close> of \<^verbatim>\<open>src/src/verifier.rs\<close>). A check returns the
  messages it pushes, in order; \<open>None\<close> is a panic, from an \<^verbatim>\<open>assert_inst_*\<close> or an
  \<^verbatim>\<open>unwrap_*\<close>. The text of a message is one constructor with the objects it mentions.
  Checks never read the errors pushed before, so a sequence of checks concatenates them.
\<close>

datatype (plugins only: code) verifier_message =
    MsgNoEntry | MsgBlockEmpty | MsgTerminatorInside nat | MsgLastNotTerminator nat | MsgNotDominating nat
  | MsgNotInUnit opcode | MsgInvalidValue opcode | MsgUndefinedValue nat | MsgInvalidBlock opcode
  | MsgUndefinedBlock nat | MsgArgTypesDiffer "ty list" | MsgArgNotSignal nat ty | MsgArgType nat ty ty
  | MsgNotBool ty | MsgNotArith ty | MsgInstType ty ty | MsgShiftAmount ty | MsgShiftTypes ty ty
  | MsgMuxTypes ty ty | MsgSelector ty | MsgFieldRange nat ty | MsgNoFields ty | MsgArrayRange nat nat nat
  | MsgIntRange nat nat nat | MsgNoSlices ty | MsgNotSignal ty | MsgNotSignalOf ty ty | MsgDriveTarget ty ty
  | MsgNotPointer ty | MsgNotPointerOf ty ty | MsgStoreTarget ty ty | MsgReturnType ty ty

type_synonym messages = "verifier_message list option"

definition report :: "bool \<Rightarrow> verifier_message \<Rightarrow> verifier_message list" where
  "report b m = (if b then [m] else [])"

lemma report_Nil [simp]: "report b m = [] \<longleftrightarrow> \<not> b"
  by (simp add: report_def)

definition all_of :: "messages list \<Rightarrow> messages" where
  "all_of cs = map_option concat (mapM id cs)"

lemma all_of_Nil [simp]: "all_of [] = Some []"
  by (simp add: all_of_def)

lemma all_of_clean: "all_of cs = Some [] \<longleftrightarrow> (\<forall>c \<in> set cs. c = Some [])"
proof (induction cs)
  case (Cons c cs)
  then show ?case unfolding all_of_def by (auto split: option.splits)
qed simp

section \<open>Types of arguments\<close>

definition verify_arg_matches_ty :: "data_flow_graph \<Rightarrow> ty \<Rightarrow> nat \<Rightarrow> messages" where
  "verify_arg_matches_ty g t a = do { ta \<leftarrow> value_type g a; Some (report (ta \<noteq> t) (MsgArgType a t ta)) }"

definition verify_args_match_ty :: "data_flow_graph \<Rightarrow> ty \<Rightarrow> inst_data \<Rightarrow> messages" where
  "verify_args_match_ty g t d = all_of (map (verify_arg_matches_ty g t) (args d))"

definition verify_arg_tys_match :: "data_flow_graph \<Rightarrow> inst_data \<Rightarrow> messages" where
  "verify_arg_tys_match g d =
     (case args d of [] \<Rightarrow> Some []
      | a # as \<Rightarrow>
          do { t \<leftarrow> value_type g a;
               ts \<leftarrow> mapM (value_type g) as;
               Some (report (\<exists>t' \<in> set ts. t' \<noteq> t) (MsgArgTypesDiffer (t # ts))) })"

definition verify_arg_ty_is_signal :: "data_flow_graph \<Rightarrow> nat \<Rightarrow> messages" where
  "verify_arg_ty_is_signal g a = do { t \<leftarrow> value_type g a; Some (report (\<not> ty_is_signal t) (MsgArgNotSignal a t)) }"

section \<open>Type of the result\<close>

text \<open>\<open>t\<close> is the type of the instruction, \<^verbatim>\<open>inst_type\<close>.\<close>

definition verify_bool_ty :: "ty \<Rightarrow> messages" where
  "verify_bool_ty t =
     (if ty_is_int t then do { w \<leftarrow> ty_unwrap_int t; Some (report (w \<noteq> 1) (MsgNotBool t)) } else Some [MsgNotBool t])"

definition int_or_int_signal :: "ty \<Rightarrow> bool" where
  "int_or_int_signal t \<longleftrightarrow> ty_is_int t \<or> (case ty_unwrap_signal t of Some t' \<Rightarrow> ty_is_int t' | None \<Rightarrow> False)"

definition verify_arith_compatible_ty :: "ty \<Rightarrow> messages" where
  "verify_arith_compatible_ty t = Some (report (\<not> int_or_int_signal t) (MsgNotArith t))"

definition verify_bitwise_compatible_ty :: "ty \<Rightarrow> messages" where
  "verify_bitwise_compatible_ty t = verify_arith_compatible_ty t"

definition verify_inst_ty :: "ty \<Rightarrow> ty \<Rightarrow> messages" where
  "verify_inst_ty t expected = Some (report (t \<noteq> expected) (MsgInstType expected t))"

section \<open>Shifts, multiplexers and registers\<close>

text \<open>The types below a signal or pointer that base and hidden value share.\<close>

definition shift_inner :: "ty \<Rightarrow> ty \<Rightarrow> (ty \<times> ty) option" where
  "shift_inner t ht =
     (if ty_is_signal t then do { b \<leftarrow> ty_unwrap_signal t; h \<leftarrow> ty_unwrap_signal ht; Some (b, h) }
      else if ty_is_pointer t then do { b \<leftarrow> ty_unwrap_pointer t; h \<leftarrow> ty_unwrap_pointer ht; Some (b, h) }
      else Some (t, ht))"

definition verify_shift_inst :: "data_flow_graph \<Rightarrow> inst_data \<Rightarrow> ty \<Rightarrow> messages" where
  "verify_shift_inst g d t =
     do { base \<leftarrow> idx (args d) 0;
          hidden \<leftarrow> idx (args d) 1;
          amount \<leftarrow> idx (args d) 2;
          e1 \<leftarrow> verify_arg_matches_ty g t base;
          ta \<leftarrow> value_type g amount;
          let e2 = report (\<not> int_or_int_signal ta) (MsgShiftAmount ta);
          bt \<leftarrow> value_type g base;
          ht \<leftarrow> value_type g hidden;
          let e3 = report (ty_is_signal bt \<noteq> ty_is_signal ht \<or> ty_is_pointer bt \<noteq> ty_is_pointer ht) (MsgShiftTypes bt ht);
          (bi, hi) \<leftarrow> shift_inner t ht;
          let e4 = (if ty_is_int bi \<and> ty_is_int hi then []
                    else if ty_is_array bi \<and> ty_is_array hi \<and> ty_unwrap_array bi = ty_unwrap_array hi then []
                    else [MsgShiftTypes bt ht]);
          Some (e1 @ e2 @ e3 @ e4) }"

definition verify_mux_inst :: "data_flow_graph \<Rightarrow> inst_data \<Rightarrow> ty \<Rightarrow> messages" where
  "verify_mux_inst g d t =
     do { arr \<leftarrow> idx (args d) 0;
          ta \<leftarrow> value_type g arr;
          let e1 = report (\<not> ty_is_array ta \<or> map_option snd (ty_unwrap_array ta) \<noteq> Some t) (MsgMuxTypes ta t);
          sel \<leftarrow> idx (args d) 1;
          st \<leftarrow> value_type g sel;
          Some (e1 @ report (\<not> int_or_int_signal st) (MsgSelector st)) }"

definition verify_trigger :: "data_flow_graph \<Rightarrow> nat \<Rightarrow> messages" where
  "verify_trigger g a =
     do { t \<leftarrow> value_type g a;
          verify_arg_matches_ty g (if ty_is_signal t then SignalType (IntType 1) else IntType 1) a }"

definition verify_reg_inst :: "data_flow_graph \<Rightarrow> inst_data \<Rightarrow> messages" where
  "verify_reg_inst g d =
     do { a0 \<leftarrow> idx (args d) 0;
          e1 \<leftarrow> verify_arg_ty_is_signal g a0;
          st \<leftarrow> value_type g a0;
          t \<leftarrow> ty_unwrap_signal st;
          ds \<leftarrow> data_args d;
          e2 \<leftarrow> all_of (map (verify_arg_matches_ty g t) ds);
          ts \<leftarrow> trigger_args d;
          e3 \<leftarrow> all_of (map (verify_trigger g) ts);
          gs \<leftarrow> gating_args d;
          e4 \<leftarrow> all_of (map (verify_arg_matches_ty g (IntType 1)) (List.map_filter id gs));
          Some (e1 @ e2 @ e3 @ e4) }"

section \<open>Fields and slices\<close>

text \<open>The type below a signal or pointer and the wrapping to put back around the result.\<close>

definition deref_target :: "bool \<Rightarrow> ty \<Rightarrow> (ty \<times> (ty \<Rightarrow> ty)) option" where
  "deref_target allow t =
     (if allow \<and> ty_is_signal t then do { u \<leftarrow> ty_unwrap_signal t; Some (u, SignalType) }
      else if allow \<and> ty_is_pointer t then do { u \<leftarrow> ty_unwrap_pointer t; Some (u, PointerType) }
      else Some (t, \<lambda>t. t))"

definition find_insext_field_type :: "data_flow_graph \<Rightarrow> inst_data \<Rightarrow> bool \<Rightarrow> (ty option \<times> verifier_message list) option" where
  "find_insext_field_type g d allow =
     do { field \<leftarrow> idx (imms d) 0;
          a0 \<leftarrow> idx (args d) 0;
          ta \<leftarrow> value_type g a0;
          (t, wrap) \<leftarrow> deref_target allow ta;
          if ty_is_struct t then
            do { fs \<leftarrow> ty_unwrap_struct t;
                 Some (if field < length fs then (Some (wrap (fs ! field)), []) else (None, [MsgFieldRange field t])) }
          else if ty_is_array t then do { (_, e) \<leftarrow> ty_unwrap_array t; Some (Some (wrap e), []) }
          else Some (None, [MsgNoFields t]) }"

definition find_insext_slice_type :: "data_flow_graph \<Rightarrow> inst_data \<Rightarrow> bool \<Rightarrow> (ty option \<times> verifier_message list) option" where
  "find_insext_slice_type g d allow =
     do { off \<leftarrow> idx (imms d) 0;
          len \<leftarrow> idx (imms d) 1;
          a0 \<leftarrow> idx (args d) 0;
          ta \<leftarrow> value_type g a0;
          (t, wrap) \<leftarrow> deref_target allow ta;
          if ty_is_array t then
            do { (n, e) \<leftarrow> ty_unwrap_array t;
                 Some (Some (wrap (ArrayType len e)), report (n < off + len) (MsgArrayRange off (off + len) n)) }
          else if ty_is_int t then
            do { n \<leftarrow> ty_unwrap_int t;
                 Some (Some (wrap (IntType len)), report (n < off + len) (MsgIntRange off (off + len) n)) }
          else Some (None, [MsgNoSlices t]) }"

definition verify_inserted :: "data_flow_graph \<Rightarrow> inst_data \<Rightarrow> ty \<Rightarrow>
    (ty option \<times> verifier_message list) option \<Rightarrow> messages" where
  "verify_inserted g d t found =
     do { a0 \<leftarrow> idx (args d) 0;
          e1 \<leftarrow> verify_arg_matches_ty g t a0;
          (et, e2) \<leftarrow> found;
          case et of None \<Rightarrow> Some (e1 @ e2)
          | Some et \<Rightarrow>
              do { a1 \<leftarrow> idx (args d) 1;
                   e3 \<leftarrow> verify_arg_matches_ty g et a1;
                   Some (e1 @ e2 @ e3) } }"

definition verify_extracted :: "ty \<Rightarrow> (ty option \<times> verifier_message list) option \<Rightarrow> messages" where
  "verify_extracted t found =
     do { (et, e1) \<leftarrow> found;
          case et of None \<Rightarrow> Some e1 | Some et \<Rightarrow> do { e2 \<leftarrow> verify_inst_ty t et; Some (e1 @ e2) } }"

definition verify_ins_field_inst :: "data_flow_graph \<Rightarrow> inst_data \<Rightarrow> ty \<Rightarrow> messages" where
  "verify_ins_field_inst g d t = verify_inserted g d t (find_insext_field_type g d False)"

definition verify_ext_field_inst :: "data_flow_graph \<Rightarrow> inst_data \<Rightarrow> ty \<Rightarrow> messages" where
  "verify_ext_field_inst g d t = verify_extracted t (find_insext_field_type g d True)"

definition verify_ins_slice_inst :: "data_flow_graph \<Rightarrow> inst_data \<Rightarrow> ty \<Rightarrow> messages" where
  "verify_ins_slice_inst g d t = verify_inserted g d t (find_insext_slice_type g d False)"

definition verify_ext_slice_inst :: "data_flow_graph \<Rightarrow> inst_data \<Rightarrow> ty \<Rightarrow> messages" where
  "verify_ext_slice_inst g d t = verify_extracted t (find_insext_slice_type g d True)"

section \<open>Signals, memory and return\<close>

definition verify_sig_inst :: "data_flow_graph \<Rightarrow> inst_data \<Rightarrow> ty \<Rightarrow> messages" where
  "verify_sig_inst g d t =
     do { s \<leftarrow> ty_unwrap_signal t;
          e \<leftarrow> verify_args_match_ty g s d;
          Some (report (\<not> ty_is_signal t) (MsgNotSignal t) @ e) }"

definition verify_prb_inst :: "data_flow_graph \<Rightarrow> inst_data \<Rightarrow> ty \<Rightarrow> messages" where
  "verify_prb_inst g d t =
     do { a0 \<leftarrow> idx (args d) 0;
          ta \<leftarrow> value_type g a0;
          s \<leftarrow> ty_unwrap_signal ta;
          Some (report (\<not> ty_is_signal ta) (MsgNotSignal t) @ report (t \<noteq> s) (MsgNotSignalOf ta t)) }"

definition verify_drv_inst :: "data_flow_graph \<Rightarrow> inst_data \<Rightarrow> messages" where
  "verify_drv_inst g d =
     do { a1 \<leftarrow> idx (args d) 1;
          t \<leftarrow> value_type g a1;
          a0 \<leftarrow> idx (args d) 0;
          ta \<leftarrow> value_type g a0;
          s \<leftarrow> ty_unwrap_signal ta;
          a2 \<leftarrow> idx (args d) 2;
          e2 \<leftarrow> verify_arg_matches_ty g TimeType a2;
          e3 \<leftarrow> (if opcode_of d = OpDrvCond then do { a3 \<leftarrow> idx (args d) 3; verify_arg_matches_ty g (IntType 1) a3 }
                else Some []);
          Some (report (\<not> ty_is_signal ta) (MsgNotSignal t) @ report (t \<noteq> s) (MsgDriveTarget ta t) @ e2 @ e3) }"

definition verify_var_inst :: "data_flow_graph \<Rightarrow> inst_data \<Rightarrow> ty \<Rightarrow> messages" where
  "verify_var_inst g d t =
     do { s \<leftarrow> ty_unwrap_pointer t;
          e \<leftarrow> verify_args_match_ty g s d;
          Some (report (\<not> ty_is_pointer t) (MsgNotPointer t) @ e) }"

definition verify_ld_inst :: "data_flow_graph \<Rightarrow> inst_data \<Rightarrow> ty \<Rightarrow> messages" where
  "verify_ld_inst g d t =
     do { a0 \<leftarrow> idx (args d) 0;
          ta \<leftarrow> value_type g a0;
          s \<leftarrow> ty_unwrap_pointer ta;
          Some (report (\<not> ty_is_pointer ta) (MsgNotPointer t) @ report (t \<noteq> s) (MsgNotPointerOf ta t)) }"

definition verify_st_inst :: "data_flow_graph \<Rightarrow> inst_data \<Rightarrow> messages" where
  "verify_st_inst g d =
     do { a1 \<leftarrow> idx (args d) 1;
          t \<leftarrow> value_type g a1;
          a0 \<leftarrow> idx (args d) 0;
          ta \<leftarrow> value_type g a0;
          s \<leftarrow> ty_unwrap_pointer ta;
          Some (report (\<not> ty_is_pointer ta) (MsgNotPointer t) @ report (t \<noteq> s) (MsgStoreTarget ta t)) }"

definition verify_return_type :: "ty option \<Rightarrow> ty \<Rightarrow> messages" where
  "verify_return_type ret t =
     (let func_ty = (case ret of Some r \<Rightarrow> r | None \<Rightarrow> VoidType)
      in Some (report (func_ty \<noteq> t) (MsgReturnType t func_ty)))"

section \<open>The format of an instruction\<close>

definition assert_inst_nullary :: "inst_data \<Rightarrow> messages" where
  "assert_inst_nullary d = (case d of INullary _ \<Rightarrow> Some [] | _ \<Rightarrow> None)"

definition assert_inst_unary :: "inst_data \<Rightarrow> messages" where
  "assert_inst_unary d = (case d of IUnary _ _ \<Rightarrow> Some [] | _ \<Rightarrow> None)"

definition assert_inst_binary :: "inst_data \<Rightarrow> messages" where
  "assert_inst_binary d = (case d of IBinary _ _ _ \<Rightarrow> Some [] | _ \<Rightarrow> None)"

definition assert_inst_ternary :: "inst_data \<Rightarrow> messages" where
  "assert_inst_ternary d = (case d of ITernary _ _ _ _ \<Rightarrow> Some [] | _ \<Rightarrow> None)"

definition assert_inst_quaternary :: "inst_data \<Rightarrow> messages" where
  "assert_inst_quaternary d = (case d of IQuaternary _ _ _ _ _ \<Rightarrow> Some [] | _ \<Rightarrow> None)"

definition assert_inst_jump :: "inst_data \<Rightarrow> messages" where
  "assert_inst_jump d = (case d of IJump _ _ \<Rightarrow> Some [] | _ \<Rightarrow> None)"

definition assert_inst_phi :: "inst_data \<Rightarrow> messages" where
  "assert_inst_phi d = (case d of IPhi _ _ _ \<Rightarrow> Some [] | _ \<Rightarrow> None)"

definition assert_inst_branch :: "inst_data \<Rightarrow> messages" where
  "assert_inst_branch d = (case d of IBranch _ _ _ _ \<Rightarrow> Some [] | _ \<Rightarrow> None)"

definition assert_inst_wait :: "inst_data \<Rightarrow> messages" where
  "assert_inst_wait d = (case d of IWait _ _ _ \<Rightarrow> Some [] | _ \<Rightarrow> None)"

definition assert_inst_reg :: "inst_data \<Rightarrow> messages" where
  "assert_inst_reg d = (case d of IReg _ _ _ \<Rightarrow> Some [] | _ \<Rightarrow> None)"

definition assert_inst_insext :: "inst_data \<Rightarrow> messages" where
  "assert_inst_insext d = (case d of IInsExt _ _ _ _ _ \<Rightarrow> Some [] | _ \<Rightarrow> None)"

lemmas assert_inst_defs =
  assert_inst_nullary_def assert_inst_unary_def assert_inst_binary_def assert_inst_ternary_def
  assert_inst_quaternary_def assert_inst_jump_def assert_inst_phi_def assert_inst_branch_def
  assert_inst_wait_def assert_inst_reg_def assert_inst_insext_def

section \<open>One instruction\<close>

text \<open>The checks of the arguments and blocks; the flag says whether one of them is invalid.\<close>

definition is_value_defined :: "data_flow_graph \<Rightarrow> function_layout \<Rightarrow> nat \<Rightarrow> bool option" where
  "is_value_defined g l v =
     do { d \<leftarrow> pt2_index (dvalues g) v;
          Some (case d of VInvalid \<Rightarrow> False | VInst _ i \<Rightarrow> is_inst_inserted l i | VArg _ _ \<Rightarrow> True
                | VPlaceholder _ \<Rightarrow> False) }"

definition is_block_defined :: "function_layout \<Rightarrow> nat \<Rightarrow> bool" where
  "is_block_defined l bb = is_block_inserted l bb"

definition verify_value :: "data_flow_graph \<Rightarrow> function_layout \<Rightarrow> opcode \<Rightarrow> nat \<Rightarrow> (bool \<times> verifier_message list) option" where
  "verify_value g l op v =
     (if v = key_invalid then Some (if op = OpReg then (False, []) else (True, [MsgInvalidValue op]))
      else do { b \<leftarrow> is_value_defined g l v; Some (False, report (\<not> b) (MsgUndefinedValue v)) })"

definition verify_block :: "function_layout \<Rightarrow> opcode \<Rightarrow> nat \<Rightarrow> bool \<times> verifier_message list" where
  "verify_block l op bb =
     (if bb = key_invalid then (True, [MsgInvalidBlock op])
      else (False, report (\<not> is_block_defined l bb) (MsgUndefinedBlock bb)))"

definition verify_kind :: "data_flow_graph \<Rightarrow> ty option \<Rightarrow> nat \<Rightarrow> inst_data \<Rightarrow> messages" where
  "verify_kind g ret i d =
     (case opcode_of d of
        OpArray \<Rightarrow> do { t \<leftarrow> inst_type g i; (_, e) \<leftarrow> ty_unwrap_array t; verify_args_match_ty g e d }
      | OpStruct \<Rightarrow>
          do { t \<leftarrow> inst_type g i;
               fs \<leftarrow> ty_unwrap_struct t;
               all_of (map (\<lambda>(k, f). do { a \<leftarrow> idx (args d) k; verify_arg_matches_ty g f a }) (enumerate 0 fs)) }
      | OpNot \<Rightarrow> all_of [assert_inst_unary d, inst_type g i \<bind> verify_bitwise_compatible_ty, inst_type g i \<bind> (\<lambda>t. verify_args_match_ty g t d)]
      | OpNeg \<Rightarrow> all_of [assert_inst_unary d, inst_type g i \<bind> verify_arith_compatible_ty, inst_type g i \<bind> (\<lambda>t. verify_args_match_ty g t d)]
      | OpShl \<Rightarrow> all_of [assert_inst_ternary d, inst_type g i \<bind> verify_shift_inst g d]
      | OpShr \<Rightarrow> all_of [assert_inst_ternary d, inst_type g i \<bind> verify_shift_inst g d]
      | OpMux \<Rightarrow> all_of [assert_inst_binary d, inst_type g i \<bind> verify_mux_inst g d]
      | OpReg \<Rightarrow> all_of [assert_inst_reg d, verify_reg_inst g d]
      | OpInsField \<Rightarrow> all_of [assert_inst_insext d, inst_type g i \<bind> verify_ins_field_inst g d]
      | OpExtField \<Rightarrow> all_of [assert_inst_insext d, inst_type g i \<bind> verify_ext_field_inst g d]
      | OpInsSlice \<Rightarrow> all_of [assert_inst_insext d, inst_type g i \<bind> verify_ins_slice_inst g d]
      | OpExtSlice \<Rightarrow> all_of [assert_inst_insext d, inst_type g i \<bind> verify_ext_slice_inst g d]
      | OpCon \<Rightarrow> all_of [assert_inst_binary d, do { a0 \<leftarrow> idx (args d) 0; verify_arg_ty_is_signal g a0 }, verify_arg_tys_match g d]
      | OpDel \<Rightarrow> all_of [assert_inst_ternary d,
          do { a0 \<leftarrow> idx (args d) 0; verify_arg_ty_is_signal g a0 },
          do { a1 \<leftarrow> idx (args d) 1; a0 \<leftarrow> idx (args d) 0; t0 \<leftarrow> value_type g a0; verify_arg_matches_ty g t0 a1 },
          do { a2 \<leftarrow> idx (args d) 2; verify_arg_matches_ty g TimeType a2 }]
      | OpSig \<Rightarrow> all_of [assert_inst_unary d, inst_type g i \<bind> verify_sig_inst g d]
      | OpPrb \<Rightarrow> all_of [assert_inst_unary d, inst_type g i \<bind> verify_prb_inst g d]
      | OpDrv \<Rightarrow> all_of [assert_inst_ternary d, verify_drv_inst g d]
      | OpDrvCond \<Rightarrow> all_of [assert_inst_quaternary d, verify_drv_inst g d]
      | OpVar \<Rightarrow> all_of [assert_inst_unary d, inst_type g i \<bind> verify_var_inst g d]
      | OpLd \<Rightarrow> all_of [assert_inst_unary d, inst_type g i \<bind> verify_ld_inst g d]
      | OpSt \<Rightarrow> all_of [assert_inst_binary d, verify_st_inst g d]
      | OpRet \<Rightarrow> all_of [assert_inst_nullary d, verify_return_type ret VoidType]
      | OpRetValue \<Rightarrow> all_of [assert_inst_unary d,
          do { a0 \<leftarrow> idx (args d) 0; t0 \<leftarrow> value_type g a0; verify_return_type ret t0 }]
      | OpPhi \<Rightarrow> all_of [assert_inst_phi d, inst_type g i \<bind> (\<lambda>t. verify_args_match_ty g t d)]
      | OpBr \<Rightarrow> assert_inst_jump d
      | OpBrCond \<Rightarrow> all_of [assert_inst_branch d, verify_args_match_ty g (IntType 1) d]
      | OpWait \<Rightarrow> assert_inst_wait d
      | OpWaitTime \<Rightarrow> all_of [assert_inst_wait d, do { a0 \<leftarrow> idx (args d) 0; verify_arg_matches_ty g TimeType a0 }]
      | op \<Rightarrow>
          if op \<in> {OpAdd, OpSub, OpSmul, OpSdiv, OpSmod, OpSrem, OpUmul, OpUdiv, OpUmod, OpUrem} then
            all_of [assert_inst_binary d, inst_type g i \<bind> verify_arith_compatible_ty, inst_type g i \<bind> (\<lambda>t. verify_args_match_ty g t d)]
          else if op \<in> {OpAnd, OpOr, OpXor} then
            all_of [assert_inst_binary d, inst_type g i \<bind> verify_bitwise_compatible_ty, inst_type g i \<bind> (\<lambda>t. verify_args_match_ty g t d)]
          else if op \<in> {OpEq, OpNeq, OpSlt, OpSgt, OpSle, OpSge, OpUlt, OpUgt, OpUle, OpUge} then
            all_of [assert_inst_binary d, inst_type g i \<bind> verify_bool_ty, verify_arg_tys_match g d]
          else Some [])"

text \<open>
  \<open>flags\<close> is the kind of the unit, \<open>ret\<close> the return type the verifier keeps while it is
  inside a function.
\<close>

definition verify_inst :: "unit_flags \<Rightarrow> ty option \<Rightarrow> data_flow_graph \<Rightarrow> function_layout \<Rightarrow> nat \<Rightarrow> messages" where
  "verify_inst flags ret g l i =
     do { d \<leftarrow> pt2_index (dinsts g) i;
          let op = opcode_of d;
          let e1 = report (\<not> flags \<subseteq> valid_in op) (MsgNotInUnit op);
          vs \<leftarrow> mapM (verify_value g l op) (args d);
          let bs = map (verify_block l op) (inst_blocks d);
          let e2 = concat (map snd vs) @ concat (map snd bs);
          if \<exists>b \<in> set (map fst vs @ map fst bs). b then Some (e1 @ e2)
          else do { e3 \<leftarrow> verify_kind g ret i d; Some (e1 @ e2 @ e3) } }"

end
