(* ===== verification/VerifierProps.thy ===== *)
theory VerifierProps
  imports Verifier
begin

text \<open>
  What the instruction verifier accepts: a declarative typing judgement for the data
  instructions, the proof that the verifier decides it, and the soundness of the judgement
  for the evaluation of instructions.
\<close>

section \<open>The typing judgement\<close>

definition arith_ops :: "opcode set" where
  "arith_ops = {OpAdd, OpSub, OpSmul, OpSdiv, OpSmod, OpSrem, OpUmul, OpUdiv, OpUmod, OpUrem, OpAnd, OpOr, OpXor}"

definition compare_ops :: "opcode set" where
  "compare_ops = {OpEq, OpNeq, OpSlt, OpSgt, OpSle, OpSge, OpUlt, OpUgt, OpUle, OpUge}"

definition data_ops :: "opcode set" where
  "data_ops = {OpArray, OpStruct, OpNot, OpNeg, OpShl, OpShr, OpMux, OpInsField, OpExtField, OpInsSlice, OpExtSlice}
     \<union> arith_ops \<union> compare_ops"

definition flat_compat :: "ty \<Rightarrow> ty \<Rightarrow> bool" where
  "flat_compat t h \<longleftrightarrow> ty_is_int t \<and> ty_is_int h \<or> ty_is_array t \<and> t = h"

definition shift_compat :: "ty \<Rightarrow> ty \<Rightarrow> bool" where
  "shift_compat t h = (case (t, h) of
     (SignalType t, SignalType h) \<Rightarrow> flat_compat t h
   | (PointerType t, PointerType h) \<Rightarrow> flat_compat t h
   | _ \<Rightarrow> flat_compat t h)"

definition slice_in :: "nat \<Rightarrow> nat \<Rightarrow> ty \<Rightarrow> ty option" where
  "slice_in off len t = (if off + len \<le> ty_len t then ext_slice_type len t else None)"

inductive typed :: "(nat \<Rightarrow> ty option) \<Rightarrow> inst_data \<Rightarrow> ty \<Rightarrow> bool" for G where
  ty_array: "opcode_of d = OpArray \<Longrightarrow> \<forall>a \<in> set (args d). G a = Some e \<Longrightarrow> typed G d (ArrayType n e)"
| ty_struct: "opcode_of d = OpStruct \<Longrightarrow> length fs \<le> length (args d) \<Longrightarrow>
    \<forall>k < length fs. G (args d ! k) = Some (fs ! k) \<Longrightarrow> typed G d (StructType fs)"
| ty_unary: "op \<in> {OpNot, OpNeg} \<Longrightarrow> int_or_int_signal t \<Longrightarrow> G a = Some t \<Longrightarrow> typed G (IUnary op a) t"
| ty_binary: "op \<in> arith_ops \<Longrightarrow> int_or_int_signal t \<Longrightarrow> G a = Some t \<Longrightarrow> G b = Some t \<Longrightarrow>
    typed G (IBinary op a b) t"
| ty_compare: "op \<in> compare_ops \<Longrightarrow> G a = Some s \<Longrightarrow> G b = Some s \<Longrightarrow> typed G (IBinary op a b) (IntType 1)"
| ty_shift: "op \<in> {OpShl, OpShr} \<Longrightarrow> G a = Some t \<Longrightarrow> G b = Some h \<Longrightarrow> shift_compat t h \<Longrightarrow>
    G c = Some s \<Longrightarrow> int_or_int_signal s \<Longrightarrow> typed G (ITernary op a b c) t"
| ty_mux: "G a = Some (ArrayType n t) \<Longrightarrow> G b = Some s \<Longrightarrow> int_or_int_signal s \<Longrightarrow> typed G (IBinary OpMux a b) t"
| ty_ins_field: "G a = Some t \<Longrightarrow> ext_field_type i t = Some f \<Longrightarrow> G b = Some f \<Longrightarrow>
    typed G (IInsExt OpInsField a b i j) t"
| ty_ext_field: "G a = Some s \<Longrightarrow> with_unpacked_sigptr s (ext_field_type i) = Some t \<Longrightarrow>
    typed G (IInsExt OpExtField a b i j) t"
| ty_ins_slice: "G a = Some t \<Longrightarrow> slice_in i j t = Some f \<Longrightarrow> G b = Some f \<Longrightarrow>
    typed G (IInsExt OpInsSlice a b i j) t"
| ty_ext_slice: "G a = Some s \<Longrightarrow> with_unpacked_sigptr s (slice_in i j) = Some t \<Longrightarrow>
    typed G (IInsExt OpExtSlice a b i j) t"

inductive_simps typed_IUnary: "typed G (IUnary op a) t"
inductive_simps typed_IBinary: "typed G (IBinary op a b) t"
inductive_simps typed_ITernary: "typed G (ITernary op a b c) t"
inductive_simps typed_IInsExt: "typed G (IInsExt op a b i j) t"

lemmas op_sets = arith_ops_def compare_ops_def data_ops_def

section \<open>The verifier decides the judgement\<close>

lemma assert_clean:
  "assert_inst_unary d = Some [] \<longleftrightarrow> (\<exists>op a. d = IUnary op a)"
  "assert_inst_binary d = Some [] \<longleftrightarrow> (\<exists>op a b. d = IBinary op a b)"
  "assert_inst_ternary d = Some [] \<longleftrightarrow> (\<exists>op a b c. d = ITernary op a b c)"
  "assert_inst_insext d = Some [] \<longleftrightarrow> (\<exists>op a b i j. d = IInsExt op a b i j)"
  by (cases d; simp add: assert_inst_defs)+

lemma arg_matches_clean: "verify_arg_matches_ty g t a = Some [] \<longleftrightarrow> value_type g a = Some t"
  by (auto simp: verify_arg_matches_ty_def panic_simps)

lemma args_match_clean: "verify_args_match_ty g t d = Some [] \<longleftrightarrow> (\<forall>a \<in> set (args d). value_type g a = Some t)"
  by (auto simp: verify_args_match_ty_def all_of_clean arg_matches_clean)

lemma arith_clean: "verify_arith_compatible_ty t = Some [] \<longleftrightarrow> int_or_int_signal t"
  by (simp add: verify_arith_compatible_ty_def)

lemma bool_clean: "verify_bool_ty t = Some [] \<longleftrightarrow> t = IntType 1"
  by (cases t) (simp_all add: verify_bool_ty_def)

lemma arg_tys_clean: "verify_arg_tys_match g (IBinary op a b) = Some [] \<longleftrightarrow>
    (\<exists>s. value_type g a = Some s \<and> value_type g b = Some s)"
  by (auto simp: verify_arg_tys_match_def args_def panic_simps split: option.splits)

lemmas clean_simps = all_of_clean assert_clean arg_matches_clean args_match_clean arith_clean bool_clean arg_tys_clean

lemma deref_target_with:
  "with_unpacked_sigptr t f = do { (u, wrap) \<leftarrow> deref_target True t; map_option wrap (f u) }"
  by (cases t) (simp_all add: with_unpacked_sigptr_def deref_target_def option.map_ident)

lemma unpack_deref:
  "\<exists>u wrap. deref_target allow t = Some (u, wrap) \<and>
    (\<forall>f. (if allow then with_unpacked_sigptr t f else f t) = map_option wrap (f u))"
  by (cases t; cases allow) (simp_all add: with_unpacked_sigptr_def deref_target_def option.map_ident)

lemma field_found:
  "\<exists>m. (if ty_is_struct t then
            do { fs \<leftarrow> ty_unwrap_struct t;
                 Some (if k < length fs then (Some (wrap (fs ! k)), []) else (None, [MsgFieldRange k t])) }
          else if ty_is_array t then do { (_, e) \<leftarrow> ty_unwrap_array t; Some (Some (wrap e), []) }
          else Some (None, [MsgNoFields t])) =
     Some (case ext_field_type k t of Some f \<Rightarrow> (Some (wrap f), []) | None \<Rightarrow> (None, [m]))"
  by (cases t) (simp_all add: ext_field_type_def idx_def)

lemma find_field_clean:
  assumes op: "op = OpInsField \<or> op = OpExtField"
  shows "find_insext_field_type g (IInsExt op a b i j) allow = Some (Some f, []) \<longleftrightarrow>
    (\<exists>s. value_type g a = Some s \<and>
       (if allow then with_unpacked_sigptr s (ext_field_type i) else ext_field_type i s) = Some f)" (is ?A)
    and "find_insext_field_type g (IInsExt op a b i j) allow \<noteq> Some (None, [])" (is ?B)
proof -
  have io: "idx (imms (IInsExt op a b i j)) 0 = Some i" "idx (args (IInsExt op a b i j)) 0 = Some a"
    using op by (auto simp: imms_def args_def idx_def)
  have "?A \<and> ?B"
  proof (cases "value_type g a")
    case None
    then show ?thesis by (simp add: find_insext_field_type_def io)
  next
    case (Some s)
    obtain u wrap where u: "deref_target allow s = Some (u, wrap)"
      "\<And>f. (if allow then with_unpacked_sigptr s f else f s) = map_option wrap (f u)"
      using unpack_deref[of allow s] by blast
    obtain m where "find_insext_field_type g (IInsExt op a b i j) allow =
      Some (case ext_field_type i u of Some f \<Rightarrow> (Some (wrap f), []) | None \<Rightarrow> (None, [m]))"
      using field_found[of u i wrap] by (auto simp: find_insext_field_type_def io Some u(1))
    then show ?thesis using Some u(2)[rule_format, of "ext_field_type i"] by (auto split: option.splits)
  qed
  then show ?A ?B by auto
qed

lemma slice_found:
  "\<exists>m. (if ty_is_array t then
            do { (n, e) \<leftarrow> ty_unwrap_array t;
                 Some (Some (wrap (ArrayType len e)), report (n < off + len) (MsgArrayRange off (off + len) n)) }
          else if ty_is_int t then
            do { n \<leftarrow> ty_unwrap_int t;
                 Some (Some (wrap (IntType len)), report (n < off + len) (MsgIntRange off (off + len) n)) }
          else Some (None, [MsgNoSlices t])) =
     Some (case ext_slice_type len t of Some f \<Rightarrow> (Some (wrap f), report (ty_len t < off + len) m) | None \<Rightarrow> (None, [m]))"
  by (cases t) (auto simp: ext_slice_type_def)

lemma find_slice_clean:
  assumes op: "op = OpInsSlice \<or> op = OpExtSlice"
  shows "find_insext_slice_type g (IInsExt op a b i j) allow = Some (Some f, []) \<longleftrightarrow>
    (\<exists>s. value_type g a = Some s \<and>
       (if allow then with_unpacked_sigptr s (slice_in i j) else slice_in i j s) = Some f)" (is ?A)
    and "find_insext_slice_type g (IInsExt op a b i j) allow \<noteq> Some (None, [])" (is ?B)
proof -
  have io: "idx (imms (IInsExt op a b i j)) 0 = Some i" "idx (imms (IInsExt op a b i j)) 1 = Some j"
    "idx (args (IInsExt op a b i j)) 0 = Some a"
    using op by (auto simp: imms_def args_def idx_def)
  have "?A \<and> ?B"
  proof (cases "value_type g a")
    case None
    then show ?thesis by (simp add: find_insext_slice_type_def io)
  next
    case (Some s)
    obtain u wrap where u: "deref_target allow s = Some (u, wrap)"
      "\<And>f. (if allow then with_unpacked_sigptr s f else f s) = map_option wrap (f u)"
      using unpack_deref[of allow s] by blast
    obtain m where "find_insext_slice_type g (IInsExt op a b i j) allow =
      Some (case ext_slice_type j u of Some f \<Rightarrow> (Some (wrap f), report (ty_len u < i + j) m) | None \<Rightarrow> (None, [m]))"
      using slice_found[of u wrap j i] unfolding find_insext_slice_type_def io by (auto simp: Some u(1))
    then show ?thesis using Some u(2)[rule_format, of "slice_in i j"]
      by (auto simp: slice_in_def split: option.splits)
  qed
  then show ?A ?B by auto
qed

lemma inserted_clean:
  assumes "fnd \<noteq> Some (None, [])" "idx (args d) 0 = Some a" "idx (args d) 1 = Some b"
  shows "verify_inserted g d t fnd = Some [] \<longleftrightarrow>
    value_type g a = Some t \<and> (\<exists>f. fnd = Some (Some f, []) \<and> value_type g b = Some f)"
proof -
  have m: "value_type g v = Some t' \<Longrightarrow> verify_arg_matches_ty g t' v = Some []" for v t'
    by (simp add: arg_matches_clean)
  show ?thesis
  proof
    show "verify_inserted g d t fnd = Some [] \<Longrightarrow> value_type g a = Some t \<and> (\<exists>f. fnd = Some (Some f, []) \<and> value_type g b = Some f)"
      using assms(1) unfolding verify_inserted_def assms(2,3)
      by (auto simp: bind_Some_iff arg_matches_clean split: option.splits)
    show "value_type g a = Some t \<and> (\<exists>f. fnd = Some (Some f, []) \<and> value_type g b = Some f) \<Longrightarrow> verify_inserted g d t fnd = Some []"
      unfolding verify_inserted_def assms(2,3) by (auto simp: m)
  qed
qed

lemma extracted_clean:
  assumes "fnd \<noteq> Some (None, [])"
  shows "verify_extracted t fnd = Some [] \<longleftrightarrow> fnd = Some (Some t, [])"
  using assms by (auto simp: verify_extracted_def verify_inst_ty_def panic_simps split: option.splits)

lemma flat_inner: "(ty_is_int b \<and> ty_is_int h \<or> ty_is_array b \<and> ty_is_array h \<and> ty_unwrap_array b = ty_unwrap_array h)
    \<longleftrightarrow> flat_compat b h"
  by (cases b; cases h) (auto simp: flat_compat_def)

lemma shift_pair:
  assumes "shift_inner t ht = Some (bi, hi)"
  shows "shift_compat t ht \<longleftrightarrow> flat_compat bi hi \<and> ty_is_signal t = ty_is_signal ht \<and> ty_is_pointer t = ty_is_pointer ht"
  using assms by (cases t; cases ht) (auto simp: shift_inner_def shift_compat_def flat_compat_def)

lemma shift_pair_exists: "shift_compat t ht \<Longrightarrow> \<exists>bi hi. shift_inner t ht = Some (bi, hi)"
  by (cases t; cases ht) (auto simp: shift_inner_def shift_compat_def flat_compat_def)

lemma shift_clean:
  "verify_shift_inst g (ITernary op a b c) t = Some [] \<longleftrightarrow>
    value_type g a = Some t \<and> (\<exists>h s. value_type g b = Some h \<and> shift_compat t h \<and>
      value_type g c = Some s \<and> int_or_int_signal s)"
  (is "?L \<longleftrightarrow> ?R")
proof -
  have io: "idx (args (ITernary op a b c)) 0 = Some a" "idx (args (ITernary op a b c)) 1 = Some b"
    "idx (args (ITernary op a b c)) 2 = Some c"
    by (simp_all add: args_def idx_def)
  have m: "verify_arg_matches_ty g t a = Some [] \<longleftrightarrow> value_type g a = Some t" by (rule arg_matches_clean)
  show ?thesis
  proof
    assume ?L
    then show ?R
      unfolding verify_shift_inst_def io
      by (auto simp: bind_Some_iff m Let_def shift_pair simp flip: flat_inner split: if_splits)
  next
    assume ?R
    then obtain h s where r: "value_type g a = Some t" "value_type g b = Some h" "shift_compat t h"
      "value_type g c = Some s" "int_or_int_signal s" by blast
    from shift_pair_exists[OF r(3)] obtain bi hi where p: "shift_inner t h = Some (bi, hi)" by blast
    have "verify_arg_matches_ty g t a = Some []" using r m by blast
    then show ?L
      using r p shift_pair[OF p] unfolding verify_shift_inst_def io flat_inner[symmetric] by (auto simp: Let_def)
  qed
qed

lemma mux_clean:
  "verify_mux_inst g (IBinary op a b) t = Some [] \<longleftrightarrow>
    (\<exists>n s. value_type g a = Some (ArrayType n t) \<and> value_type g b = Some s \<and> int_or_int_signal s)"
proof -
  have io: "idx (args (IBinary op a b)) 0 = Some a" "idx (args (IBinary op a b)) 1 = Some b"
    by (simp_all add: args_def idx_def)
  have "ty_is_array s \<and> map_option snd (ty_unwrap_array s) = Some t \<longleftrightarrow> (\<exists>n. s = ArrayType n t)" for s
    by (cases s) auto
  then show ?thesis unfolding verify_mux_inst_def io by (auto simp: bind_Some_iff Let_def)
qed

lemma struct_clean:
  "all_of (map (\<lambda>(k, f). do { a \<leftarrow> idx (args d) k; verify_arg_matches_ty g f a }) (enumerate 0 fs)) = Some [] \<longleftrightarrow>
    length fs \<le> length (args d) \<and> (\<forall>k < length fs. value_type g (args d ! k) = Some (fs ! k))"
proof -
  have one: "do { a \<leftarrow> idx (args d) k; verify_arg_matches_ty g f a } = Some [] \<longleftrightarrow>
      k < length (args d) \<and> value_type g (args d ! k) = Some f" for k f
    by (auto simp: bind_Some_iff idx_def arg_matches_clean split: if_splits)
  have "(\<forall>k < length fs. k < length (args d)) \<longleftrightarrow> length fs \<le> length (args d)" by (meson less_le_trans not_le order.irrefl)
  then show ?thesis
    by (auto simp: all_of_clean one set_conv_nth nth_enumerate_eq)
qed

text \<open>One kind of instruction at a time.\<close>

lemma kind_array:
  assumes "opcode_of d = OpArray" "inst_type g i = Some t"
  shows "verify_kind g ret i d = Some [] \<longleftrightarrow> typed (value_type g) d t"
proof -
  have "verify_kind g ret i d = Some [] \<longleftrightarrow> (\<exists>n e. t = ArrayType n e \<and> (\<forall>a \<in> set (args d). value_type g a = Some e))"
    using assms by (cases t) (auto simp: verify_kind_def args_match_clean)
  moreover have "typed (value_type g) d t \<longleftrightarrow> (\<exists>n e. t = ArrayType n e \<and> (\<forall>a \<in> set (args d). value_type g a = Some e))"
    using assms(1) by (subst typed.simps) (auto simp: opcode_of_def op_sets)
  ultimately show ?thesis by simp
qed

lemma kind_struct:
  assumes "opcode_of d = OpStruct" "inst_type g i = Some t"
  shows "verify_kind g ret i d = Some [] \<longleftrightarrow> typed (value_type g) d t"
proof -
  have "verify_kind g ret i d = Some [] \<longleftrightarrow> (\<exists>fs. t = StructType fs \<and> length fs \<le> length (args d) \<and>
      (\<forall>k < length fs. value_type g (args d ! k) = Some (fs ! k)))"
    using assms by (cases t) (simp_all add: verify_kind_def struct_clean)
  moreover have "typed (value_type g) d t \<longleftrightarrow> (\<exists>fs. t = StructType fs \<and> length fs \<le> length (args d) \<and>
      (\<forall>k < length fs. value_type g (args d ! k) = Some (fs ! k)))"
    using assms(1) by (subst typed.simps) (auto simp: opcode_of_def op_sets)
  ultimately show ?thesis by simp
qed

lemma typed_format:
  assumes "typed G d t" "opcode_of d \<notin> {OpArray, OpStruct}"
  shows "opcode_of d \<in> {OpNot, OpNeg} \<Longrightarrow> \<exists>op a. d = IUnary op a"
    "opcode_of d \<in> arith_ops \<union> compare_ops \<union> {OpMux} \<Longrightarrow> \<exists>op a b. d = IBinary op a b"
    "opcode_of d \<in> {OpShl, OpShr} \<Longrightarrow> \<exists>op a b c. d = ITernary op a b c"
    "opcode_of d \<in> {OpInsField, OpExtField, OpInsSlice, OpExtSlice} \<Longrightarrow> \<exists>op a b i j. d = IInsExt op a b i j"
  using assms by (cases rule: typed.cases; auto simp: opcode_of_def op_sets)+

lemma kind_unary:
  assumes "inst_type g i = Some t" "opcode_of d \<in> {OpNot, OpNeg}"
  shows "verify_kind g ret i d = Some [] \<longleftrightarrow> typed (value_type g) d t"
proof (cases "\<exists>op a. d = IUnary op a")
  case True
  then obtain op a where d: "d = IUnary op a" "op = OpNot \<or> op = OpNeg" using assms(2) by (auto simp: opcode_of_def)
  then show ?thesis
    using assms(1) by (auto simp: verify_kind_def opcode_of_def clean_simps verify_bitwise_compatible_ty_def args_def typed_IUnary)
next
  case False
  then show ?thesis
    using assms typed_format(1)[of "value_type g" d t] by (auto simp: verify_kind_def clean_simps)
qed

lemma kind_arith:
  assumes "inst_type g i = Some t" "opcode_of d \<in> arith_ops"
  shows "verify_kind g ret i d = Some [] \<longleftrightarrow> typed (value_type g) d t"
proof -
  have k: "verify_kind g ret i d = all_of [assert_inst_binary d, inst_type g i \<bind> verify_arith_compatible_ty,
      inst_type g i \<bind> (\<lambda>t. verify_args_match_ty g t d)]"
    using assms(2) by (auto simp: verify_kind_def arith_ops_def verify_bitwise_compatible_ty_def[abs_def])
  show ?thesis
  proof (cases "\<exists>op a b. d = IBinary op a b")
    case True
    then obtain op a b where d: "d = IBinary op a b" "op \<in> arith_ops" using assms(2) by (auto simp: opcode_of_def)
    then have "op \<notin> compare_ops" "op \<noteq> OpMux" "op \<noteq> OpArray" "op \<noteq> OpStruct" by (auto simp: op_sets)
    then show ?thesis
      using assms(1) d(2) unfolding k unfolding d(1) by (auto simp: opcode_of_def clean_simps args_def typed_IBinary)
  next
    case False
    then have "\<not> typed (value_type g) d t"
      using assms typed_format(2)[of "value_type g" d t] by (auto simp: op_sets)
    then show ?thesis using False by (auto simp: k clean_simps)
  qed
qed

lemma kind_compare:
  assumes "inst_type g i = Some t" "opcode_of d \<in> compare_ops"
  shows "verify_kind g ret i d = Some [] \<longleftrightarrow> typed (value_type g) d t"
proof -
  have k: "verify_kind g ret i d = all_of [assert_inst_binary d, inst_type g i \<bind> verify_bool_ty, verify_arg_tys_match g d]"
    using assms(2) by (auto simp: verify_kind_def compare_ops_def)
  show ?thesis
  proof (cases "\<exists>op a b. d = IBinary op a b")
    case True
    then obtain op a b where d: "d = IBinary op a b" "op \<in> compare_ops" using assms(2) by (auto simp: opcode_of_def)
    then have "op \<notin> arith_ops" "op \<noteq> OpMux" "op \<noteq> OpArray" "op \<noteq> OpStruct" by (auto simp: op_sets)
    then show ?thesis
      using assms(1) d(2) unfolding k unfolding d(1) by (auto simp: opcode_of_def clean_simps typed_IBinary)
  next
    case False
    then have "\<not> typed (value_type g) d t"
      using assms typed_format(2)[of "value_type g" d t] by (auto simp: op_sets)
    then show ?thesis using False by (auto simp: k clean_simps)
  qed
qed

lemma kind_shift:
  assumes "inst_type g i = Some t" "opcode_of d \<in> {OpShl, OpShr}"
  shows "verify_kind g ret i d = Some [] \<longleftrightarrow> typed (value_type g) d t"
proof (cases "\<exists>op a b c. d = ITernary op a b c")
  case True
  then obtain op a b c where d: "d = ITernary op a b c" "op = OpShl \<or> op = OpShr" using assms(2) by (auto simp: opcode_of_def)
  then show ?thesis
    using assms(1) by (auto simp: verify_kind_def opcode_of_def clean_simps shift_clean typed_ITernary)
next
  case False
  then show ?thesis
    using assms typed_format(3)[of "value_type g" d t] by (auto simp: verify_kind_def clean_simps)
qed

lemma kind_mux:
  assumes "inst_type g i = Some t" "opcode_of d = OpMux"
  shows "verify_kind g ret i d = Some [] \<longleftrightarrow> typed (value_type g) d t"
proof (cases "\<exists>op a b. d = IBinary op a b")
  case True
  then obtain a b where d: "d = IBinary OpMux a b" using assms(2) by (auto simp: opcode_of_def)
  then show ?thesis
    using assms by (auto simp: verify_kind_def clean_simps mux_clean typed_IBinary op_sets)
next
  case False
  then show ?thesis
    using assms typed_format(2)[of "value_type g" d t] by (auto simp: verify_kind_def clean_simps)
qed

lemma kind_insext:
  assumes "inst_type g i = Some t" "opcode_of d \<in> {OpInsField, OpExtField, OpInsSlice, OpExtSlice}"
  shows "verify_kind g ret i d = Some [] \<longleftrightarrow> typed (value_type g) d t"
proof (cases "\<exists>op a b j k. d = IInsExt op a b j k")
  case True
  then obtain op a b j k where d: "d = IInsExt op a b j k"
    and op: "op = OpInsField \<or> op = OpExtField \<or> op = OpInsSlice \<or> op = OpExtSlice" using assms(2) by (auto simp: opcode_of_def)
  have io: "idx (args d) 0 = Some a" "op = OpInsField \<or> op = OpInsSlice \<Longrightarrow> idx (args d) 1 = Some b"
    unfolding d by (auto simp: args_def idx_def)
  have [simp]: "opcode_of d = op" unfolding d by (simp add: opcode_of_def)
  show ?thesis
    using op
  proof (elim disjE)
    assume [simp]: "op = OpInsField"
    show ?thesis
      using assms(1) inserted_clean[OF find_field_clean(2)[of op g a b j k False] io(1) io(2), of g t] find_field_clean(1)[of op g a b j k False]
      by (simp add: verify_kind_def clean_simps verify_ins_field_inst_def d typed_IInsExt opcode_of_def) auto
  next
    assume [simp]: "op = OpExtField"
    show ?thesis
      using assms(1) extracted_clean[OF find_field_clean(2)[of op g a b j k True], of t] find_field_clean(1)[of op g a b j k True]
      by (simp add: verify_kind_def clean_simps verify_ext_field_inst_def d typed_IInsExt opcode_of_def)
  next
    assume [simp]: "op = OpInsSlice"
    show ?thesis
      using assms(1) inserted_clean[OF find_slice_clean(2)[of op g a b j k False] io(1) io(2), of g t] find_slice_clean(1)[of op g a b j k False]
      by (simp add: verify_kind_def clean_simps verify_ins_slice_inst_def d typed_IInsExt opcode_of_def) auto
  next
    assume [simp]: "op = OpExtSlice"
    show ?thesis
      using assms(1) extracted_clean[OF find_slice_clean(2)[of op g a b j k True], of t] find_slice_clean(1)[of op g a b j k True]
      by (simp add: verify_kind_def clean_simps verify_ext_slice_inst_def d typed_IInsExt opcode_of_def)
  qed
next
  case False
  then show ?thesis
    using assms typed_format(4)[of "value_type g" d t] by (auto simp: verify_kind_def clean_simps)
qed

theorem verifier_decides_typing:
  assumes "opcode_of d \<in> data_ops" "inst_type g i = Some t"
  shows "verify_kind g ret i d = Some [] \<longleftrightarrow> typed (value_type g) d t"
proof -
  consider "opcode_of d = OpArray" | "opcode_of d = OpStruct" | "opcode_of d \<in> {OpNot, OpNeg}"
    | "opcode_of d \<in> arith_ops" | "opcode_of d \<in> compare_ops" | "opcode_of d \<in> {OpShl, OpShr}"
    | "opcode_of d = OpMux" | "opcode_of d \<in> {OpInsField, OpExtField, OpInsSlice, OpExtSlice}"
    using assms(1) unfolding data_ops_def by blast
  then show ?thesis
  proof cases
    case 1 then show ?thesis by (rule kind_array[OF _ assms(2)])
  next
    case 2 then show ?thesis by (rule kind_struct[OF _ assms(2)])
  next
    case 3 then show ?thesis by (rule kind_unary[OF assms(2)])
  next
    case 4 then show ?thesis by (rule kind_arith[OF assms(2)])
  next
    case 5 then show ?thesis by (rule kind_compare[OF assms(2)])
  next
    case 6 then show ?thesis by (rule kind_shift[OF assms(2)])
  next
    case 7 then show ?thesis by (rule kind_mux[OF assms(2)])
  next
    case 8 then show ?thesis by (rule kind_insext[OF assms(2)])
  qed
qed

end
