(* ===== verification/TypeSoundness.thy ===== *)
theory TypeSoundness
  imports VerifierProps IntWords
begin

text \<open>
  Type soundness: an instruction that the verifier accepts computes values of its type.
  The verifier does not look at constants, aliases and uniform arrays, nor at the length
  of arrays and structs; for these the promise of the builder is used (\<open>built\<close>).
\<close>

definition built :: "(nat \<Rightarrow> ty option) \<Rightarrow> inst_data \<Rightarrow> ty \<Rightarrow> bool" where
  "built G d t = (case d of
     IConstInt op k \<Rightarrow> op = OpConstInt \<and> t = IntType (width k) \<and> iv_wf k
   | IConstTime op _ \<Rightarrow> op = OpConstTime \<and> t = TimeType
   | IArray op n a \<Rightarrow> op = OpArrayUniform \<and> (\<exists>e. G a = Some e \<and> t = ArrayType n e)
   | IAggregate op as \<Rightarrow> (op = OpArray \<longrightarrow> (\<exists>e. t = ArrayType (length as) e)) \<and>
       (op = OpStruct \<longrightarrow> (\<exists>fs. t = StructType fs \<and> length fs = length as))
   | IUnary op a \<Rightarrow> op = OpAlias \<longrightarrow> G a = Some t
   | _ \<Rightarrow> True)"

text \<open>What evaluation needs of the operands: they have values of their types.\<close>

definition operands_ok :: "(nat \<Rightarrow> ty option) \<Rightarrow> (nat \<Rightarrow> val) \<Rightarrow> inst_data \<Rightarrow> bool" where
  "operands_ok G env d \<longleftrightarrow> (\<forall>a \<in> set (args d). \<exists>s. G a = Some s \<and> data_ty s \<and> has_ty (env a) s)"

lemma has_ty_int: "has_ty v (IntType w) \<longleftrightarrow> (\<exists>x. v = IntVal x \<and> width x = w \<and> iv_wf x)"
  by (cases v) auto

lemma has_ty_array: "has_ty v (ArrayType n e) \<longleftrightarrow> (\<exists>vs. v = ArrayVal vs \<and> length vs = n \<and> (\<forall>x \<in> set vs. has_ty x e))"
  by (cases v) auto

lemma has_ty_struct: "has_ty v (StructType fs) \<longleftrightarrow> (\<exists>vs. v = StructVal vs \<and> list_all2 has_ty vs fs)"
  by (cases v) auto

lemmas has_ty_inv = has_ty_int has_ty_array has_ty_struct

lemma data_int_or_int_signal: "data_ty t \<Longrightarrow> int_or_int_signal t \<longleftrightarrow> (\<exists>w. t = IntType w)"
  by (cases t) (auto simp: int_or_int_signal_def)

text \<open>The operations keep types.\<close>

lemma eval_binary_wf:
  assumes "eval_binary op x y = Some z"
  shows "op \<in> arith_ops \<Longrightarrow> iv_wf z \<and> width z = width x"
    and "op \<in> compare_ops \<Longrightarrow> iv_wf z \<and> width z = 1"
    and "op \<in> arith_ops \<or> op \<in> compare_ops"
proof -
  obtain r where r: "try_binary_op op x y = Some r" "case r of Some w \<Rightarrow> z = w | None \<Rightarrow> compare_op op x y = Some z"
    using assms by (auto simp: eval_binary_def bind_Some_iff split: option.splits)
  have cmp: "try_compare_op op x y = Some (Some z) \<Longrightarrow> op \<in> compare_ops"
    by (cases op) (simp_all add: try_compare_op_def compare_ops_def)
  have none: "r = None \<Longrightarrow> op \<notin> arith_ops" using r(1)
    by (cases op) (auto simp: try_binary_op_def arith_ops_def)
  have some: "r \<noteq> None \<Longrightarrow> op \<in> arith_ops" using r(1)
    by (cases op) (auto simp: try_binary_op_def arith_ops_def)
  have tc: "compare_op op x y = Some z \<Longrightarrow> try_compare_op op x y = Some (Some z)"
    by (auto simp: compare_op_def bind_Some_iff)
  have dis: "op \<in> arith_ops \<Longrightarrow> op \<notin> compare_ops" by (auto simp: op_sets)
  show "op \<in> arith_ops \<Longrightarrow> iv_wf z \<and> width z = width x"
    using r none try_binary_op_wf[of op x y z] by (cases r) auto
  show "op \<in> compare_ops \<Longrightarrow> iv_wf z \<and> width z = 1"
    using r some dis tc try_compare_op_wf[of op x y z] by (cases r) auto
  show "op \<in> arith_ops \<or> op \<in> compare_ops"
    using r some tc cmp by (cases r) auto
qed

lemma unary_op_wf:
  assumes "unary_op op x = Some z"
  shows "op \<in> {OpNot, OpNeg} \<and> iv_wf z \<and> width z = width x"
proof -
  have t: "try_unary_op op x = Some (Some z)" using assms by (auto simp: unary_op_def bind_Some_iff)
  then have "op \<in> {OpNot, OpNeg}" by (cases op) (auto simp: try_unary_op_def)
  then show ?thesis using try_unary_op_wf[OF t] by simp
qed

lemma set_slice: "slice xs off len = Some ys \<Longrightarrow> set ys \<subseteq> set xs \<and> length ys = len"
  by (auto simp: slice_def split: if_splits dest!: in_set_takeD in_set_dropD)

lemma set_slice_set: "slice_set xs off len ys = Some zs \<Longrightarrow> set zs \<subseteq> set xs \<union> set ys \<and> length zs = length xs"
  by (auto simp: slice_set_def split: if_splits dest!: in_set_takeD in_set_dropD)

lemma shift_list_ty:
  assumes "shift_list l b h k = Some r" "\<forall>x \<in> set b \<union> set h. P x"
  shows "length r = length b \<and> (\<forall>x \<in> set r. P x)"
proof -
  have "\<exists>off xs. slice xs off (length b) = Some r \<and> set xs = set b \<union> set h"
    using assms(1) by (auto simp: shift_list_def split: if_splits) (metis set_append sup_commute)+
  then show ?thesis using set_slice assms(2) by blast
qed

lemma shift_int_wf: "shift_int l b h k = Some r \<Longrightarrow> width r = width b \<and> iv_wf r"
  by (auto simp: shift_int_def split: if_splits)

lemma slice_ty_cases:
  assumes "slice_in i j t = Some f"
  obtains w where "t = IntType w" "f = IntType j" "i + j \<le> w"
    | n e where "t = ArrayType n e" "f = ArrayType j e" "i + j \<le> n"
  using assms by (cases t) (auto simp: slice_in_def ext_slice_type_def split: if_splits)

lemma field_ty_cases:
  assumes "ext_field_type i t = Some f"
  obtains fs where "t = StructType fs" "i < length fs" "f = fs ! i"
    | n where "t = ArrayType n f"
  using assms by (cases t) (auto simp: ext_field_type_def idx_def split: if_splits)

lemma data_with_unpacked: "data_ty s \<Longrightarrow> with_unpacked_sigptr s F = F s"
  by (cases s) (simp_all add: with_unpacked_sigptr_def)

section \<open>Preservation\<close>

lemma pres_aggregate:
  assumes d: "d = IAggregate op as" and ty: "opcode_of d \<in> data_ops \<longrightarrow> typed G d t" "built G d t"
    and ok: "operands_ok G env d" and ev: "eval_inst env d = Some x"
  shows "has_ty x t"
proof -
  have as: "args d = as" "opcode_of d = op" unfolding d by (simp_all add: args_def opcode_of_def)
  from ev consider "op = OpArray" "x = ArrayVal (map env as)" | "op = OpStruct" "x = StructVal (map env as)"
    unfolding d by (auto simp: eval_inst_def split: if_splits)
  then show ?thesis
  proof cases
    case 1
    then have "typed G d t" using ty(1) as by (simp add: data_ops_def)
    then obtain n e where "t = ArrayType n e" "\<forall>a \<in> set as. G a = Some e"
      using 1 as by (cases rule: typed.cases) (auto simp: opcode_of_def op_sets)
    then show ?thesis using 1 ok as ty(2) unfolding d by (fastforce simp: operands_ok_def built_def)
  next
    case 2
    then have "typed G d t" using ty(1) as by (simp add: data_ops_def)
    then obtain fs where fs: "t = StructType fs" "\<forall>k < length fs. G (as ! k) = Some (fs ! k)"
      using 2 as by (cases rule: typed.cases) (auto simp: opcode_of_def op_sets)
    then have len: "length fs = length as" using ty(2) 2 unfolding d by (auto simp: built_def)
    have "has_ty (env (as ! k)) (fs ! k)" if "k < length as" for k
    proof -
      have "as ! k \<in> set (args d)" using that as by simp
      then obtain s where "G (as ! k) = Some s" "has_ty (env (as ! k)) s" using ok unfolding operands_ok_def by blast
      then show ?thesis using fs(2) len that by simp
    qed
    then show ?thesis using 2 fs len by (simp add: list_all2_conv_all_nth)
  qed
qed

lemma pres_unary:
  assumes d: "d = IUnary op a" and ty: "opcode_of d \<in> data_ops \<longrightarrow> typed G d t" "built G d t" "data_ty t"
    and ok: "operands_ok G env d" and ev: "eval_inst env d = Some x"
  shows "has_ty x t"
proof (cases "op = OpAlias")
  case True
  then show ?thesis using ty(2) ok ev unfolding d by (auto simp: built_def operands_ok_def args_def eval_inst_def)
next
  case False
  then obtain y z where e: "env a = IntVal y" "unary_op op y = Some z" "x = IntVal z"
    using ev unfolding d by (cases "env a") (auto simp: eval_inst_def bind_Some_iff)
  note w = unary_op_wf[OF e(2)]
  then have "typed G d t" using ty(1) unfolding d by (auto simp: opcode_of_def data_ops_def)
  then have "G a = Some t" unfolding d typed_IUnary using w by (auto simp: opcode_of_def)
  then show ?thesis using ok e w ty(3) unfolding d by (auto simp: operands_ok_def args_def)
qed

lemma pres_binary:
  assumes d: "d = IBinary op a b" and ty: "opcode_of d \<in> data_ops \<longrightarrow> typed G d t"
    and ok: "operands_ok G env d" and ev: "eval_inst env d = Some x"
  shows "has_ty x t"
proof (cases "op = OpMux")
  case True
  then have "typed G d t" using ty unfolding d by (auto simp: opcode_of_def data_ops_def)
  then obtain n where "G a = Some (ArrayType n t)" using True unfolding d typed_IBinary by (auto simp: op_sets opcode_of_def)
  then have "has_ty (env a) (ArrayType n t)" using ok unfolding d by (auto simp: operands_ok_def args_def)
  then show ?thesis
    using ev True unfolding d by (auto simp: eval_inst_def eval_mux_def has_ty_array panic_simps)
next
  case False
  then obtain y y' z where e: "env a = IntVal y" "env b = IntVal y'" "eval_binary op y y' = Some z" "x = IntVal z"
    using ev unfolding d by (cases "env a"; cases "env b") (auto simp: eval_inst_def bind_Some_iff)
  have tt: "typed G d t" using ty eval_binary_wf(3)[OF e(3)] unfolding d by (auto simp: opcode_of_def data_ops_def)
  from eval_binary_wf(3)[OF e(3)] show ?thesis
  proof
    assume op: "op \<in> arith_ops"
    then have "G a = Some t" using tt unfolding d typed_IBinary by (auto simp: op_sets opcode_of_def)
    then show ?thesis using ok e eval_binary_wf(1)[OF e(3) op] unfolding d by (auto simp: operands_ok_def args_def)
  next
    assume op: "op \<in> compare_ops"
    then have "t = IntType 1" using tt unfolding d typed_IBinary by (auto simp: op_sets opcode_of_def)
    then show ?thesis using e eval_binary_wf(2)[OF e(3) op] by simp
  qed
qed

lemma pres_ternary:
  assumes d: "d = ITernary op a b c" and ty: "opcode_of d \<in> data_ops \<longrightarrow> typed G d t"
    and ok: "operands_ok G env d" and ev: "eval_inst env d = Some x"
  shows "has_ty x t"
proof -
  have op: "op \<in> {OpShl, OpShr}" using ev unfolding d by (auto simp: eval_inst_def split: if_splits)
  then have "typed G d t" using ty unfolding d by (auto simp: opcode_of_def data_ops_def)
  then obtain h where g: "G a = Some t" "G b = Some h" "shift_compat t h"
    using op unfolding d typed_ITernary by (auto simp: opcode_of_def)
  have v: "has_ty (env a) t" "has_ty (env b) h" "data_ty t" using ok g unfolding d by (auto simp: operands_ok_def args_def)
  obtain l where "eval_shift l (env a) (env b) (env c) = Some x"
    using ev unfolding d by (auto simp: eval_inst_def split: if_splits)
  then obtain k where e: "(case (env a, env b) of
      (IntVal b, IntVal h) \<Rightarrow> map_option IntVal (shift_int l b h (ivalue k))
    | (ArrayVal b, ArrayVal h) \<Rightarrow> map_option ArrayVal (shift_list l b h (ivalue k)) | _ \<Rightarrow> None) = Some x"
    by (auto simp: eval_shift_def bind_Some_iff)
  show ?thesis
  proof (cases t)
    case (IntType w)
    then obtain w' where "h = IntType w'" using g(3) by (cases h) (auto simp: shift_compat_def flat_compat_def)
    then show ?thesis
      using v e IntType by (auto simp: has_ty_int dest!: shift_int_wf)
  next
    case (ArrayType n s)
    then have "h = t" using g(3) by (cases h) (auto simp: shift_compat_def flat_compat_def)
    then show ?thesis
      using v e ArrayType by (auto simp: has_ty_array dest!: shift_list_ty[where P = "\<lambda>x. has_ty x s"])
  qed (use g(3) v(3) in \<open>cases h; auto simp: shift_compat_def flat_compat_def\<close>)+
qed

lemma pres_insext:
  assumes d: "d = IInsExt op a b i j" and ty: "opcode_of d \<in> data_ops \<longrightarrow> typed G d t"
    and ok: "operands_ok G env d" and ev: "eval_inst env d = Some x"
  shows "has_ty x t"
proof -
  have op: "op \<in> {OpInsField, OpExtField, OpInsSlice, OpExtSlice}"
    using ev unfolding d by (auto simp: eval_inst_def split: if_splits)
  then have tt: "typed G d t" using ty unfolding d by (auto simp: opcode_of_def data_ops_def)
  have oa: "\<exists>s. G a = Some s \<and> data_ty s \<and> has_ty (env a) s"
    using ok unfolding d by (auto simp: operands_ok_def args_def split: if_splits)
  have ob: "op \<in> {OpInsField, OpInsSlice} \<Longrightarrow> G b = Some f \<Longrightarrow> has_ty (env b) f" for f
    using ok unfolding d by (auto simp: operands_ok_def args_def split: if_splits)
  from op consider "op = OpInsField" | "op = OpExtField" | "op = OpInsSlice" | "op = OpExtSlice" by auto
  then show ?thesis
  proof cases
    case 1
    then obtain f where f: "G a = Some t" "ext_field_type i t = Some f" "G b = Some f"
      using tt unfolding d typed_IInsExt by (auto simp: opcode_of_def)
    have v: "has_ty (env a) t" "has_ty (env b) f" using oa ob f 1 by auto
    have e: "eval_ins_field (env a) (env b) i = Some x" using ev 1 unfolding d by (simp add: eval_inst_def)
    from f(2) show ?thesis
    proof (cases rule: field_ty_cases)
      case (1 fs)
      then show ?thesis using v e
        by (auto simp: has_ty_struct eval_ins_field_def panic_simps list_all2_conv_all_nth nth_list_update)
    next
      case (2 n)
      then show ?thesis using v e
        by (auto simp: has_ty_array eval_ins_field_def panic_simps dest!: set_update_subset_insert[THEN subsetD])
    qed
  next
    case 2
    then obtain s where f: "G a = Some s" "with_unpacked_sigptr s (ext_field_type i) = Some t"
      using tt unfolding d typed_IInsExt by (auto simp: opcode_of_def)
    have v: "has_ty (env a) s" "ext_field_type i s = Some t" using oa f data_with_unpacked[of s] by auto
    have e: "eval_ext_field (env a) i = Some x" using ev 2 unfolding d by (simp add: eval_inst_def)
    from v(2) show ?thesis
      by (cases rule: field_ty_cases)
        (use v(1) e in \<open>auto simp: has_ty_struct has_ty_array eval_ext_field_def panic_simps list_all2_conv_all_nth\<close>)
  next
    case 3
    then obtain f where f: "G a = Some t" "slice_in i j t = Some f" "G b = Some f"
      using tt unfolding d typed_IInsExt by (auto simp: opcode_of_def)
    have v: "has_ty (env a) t" "has_ty (env b) f" using oa ob f 3 by auto
    have e: "eval_ins_slice (env a) (env b) i j = Some x" using ev 3 unfolding d by (simp add: eval_inst_def)
    from f(2) show ?thesis
    proof (cases rule: slice_ty_cases)
      case (1 w)
      then obtain y z r where r: "env a = IntVal y" "width y = w" "iv_wf y" "env b = IntVal z" "iv_wf z"
        "iv_insert_slice y i j z = Some r" "x = IntVal r"
        using v e by (auto simp: has_ty_int eval_ins_slice_def split: if_splits)
      then show ?thesis
        using insert_slice_Some[OF r(6)] wf_insert_slice[OF r(6,3,5)] 1 by (simp add: has_ty_int)
    next
      case (2 n s)
      then show ?thesis using v e
        by (auto simp: has_ty_array eval_ins_slice_def array_insert_slice_def bind_Some_iff dest!: set_slice_set) blast
    qed
  next
    case 4
    then obtain s where f: "G a = Some s" "with_unpacked_sigptr s (slice_in i j) = Some t"
      using tt unfolding d typed_IInsExt by (auto simp: opcode_of_def)
    have v: "has_ty (env a) s" "slice_in i j s = Some t" using oa f data_with_unpacked[of s] by auto
    have e: "eval_ext_slice (env a) i j = Some x" using ev 4 unfolding d by (simp add: eval_inst_def)
    from v(2) show ?thesis
    proof (cases rule: slice_ty_cases)
      case (1 w)
      then show ?thesis using v(1) e by (auto simp: has_ty_int eval_ext_slice_def split: if_splits)
    next
      case (2 n u)
      then obtain vs r where r: "env a = ArrayVal vs" "\<forall>y \<in> set vs. has_ty y u" "slice vs i j = Some r" "x = ArrayVal r"
        using v(1) e by (auto simp: has_ty_array eval_ext_slice_def array_extract_slice_def)
      then show ?thesis using set_slice[OF r(3)] 2(2) by (auto simp: has_ty_array)
    qed
  qed
qed

theorem eval_typed:
  assumes "opcode_of d \<in> data_ops \<longrightarrow> typed G d t" "built G d t" "data_ty t" "operands_ok G env d"
    and "eval_inst env d = Some x"
  shows "has_ty x t"
proof (cases d)
  case (IConstInt op k)
  then show ?thesis using assms(2,5) by (auto simp: built_def eval_inst_def)
next
  case (IConstTime op k)
  then show ?thesis using assms(2,5) by (auto simp: built_def eval_inst_def)
next
  case (IArray op n a)
  then show ?thesis using assms(2,4,5)
    by (auto simp: built_def eval_inst_def operands_ok_def args_def array_new_uniform_def)
next
  case (IAggregate op as)
  then show ?thesis by (rule pres_aggregate[OF _ assms(1,2,4,5)])
next
  case (IUnary op a)
  then show ?thesis by (rule pres_unary[OF _ assms])
next
  case (IBinary op a b)
  then show ?thesis by (rule pres_binary[OF _ assms(1,4,5)])
next
  case (ITernary op a b c)
  then show ?thesis by (rule pres_ternary[OF _ assms(1,4,5)])
next
  case (IInsExt op a b i j)
  then show ?thesis by (rule pres_insext[OF _ assms(1,4,5)])
qed (use assms(5) in \<open>simp_all add: eval_inst_def\<close>)

section \<open>Progress of arithmetic\<close>

lemma to_signed_Suc: "width x \<noteq> 0 \<Longrightarrow> \<exists>v. to_signed x = Some v"
  by (simp flip: not_None_eq)

lemma to_signed_zero_iff: "iv_wf x \<Longrightarrow> to_signed x = Some v \<Longrightarrow> v = 0 \<longleftrightarrow> ivalue x = 0"
  using to_signed_range[of x v] from_signed_to_signed[of x v]
  by (auto simp: to_signed_def split: if_splits)

lemma try_binary_op_panics:
  assumes "width x \<noteq> 0" "width y \<noteq> 0" "iv_wf y"
  shows "try_binary_op op x y = None \<longleftrightarrow> is_div_op op \<and> iv_is_zero y"
proof -
  obtain a b where ab: "to_signed x = Some a" "to_signed y = Some b" using to_signed_Suc assms by blast
  have "b = 0 \<longleftrightarrow> ivalue y = 0" using to_signed_zero_iff[OF assms(3) ab(2)] .
  then show ?thesis
    using ab by (cases op) (auto simp: try_binary_op_def is_div_op_def iv_is_zero_def iv_sub_def iv_smul_def iv_sdiv_def
        iv_smod_def iv_srem_def iv_udiv_def iv_umod_def iv_urem_def ensure_def Let_def)
qed

lemma arith_progress:
  assumes op: "op \<in> arith_ops" and w: "w \<noteq> 0" and x: "has_ty (env a) (IntType w)" and y: "has_ty (env b) (IntType w)"
  shows "eval_inst env (IBinary op a b) = None \<longleftrightarrow> is_div_op op \<and> value_is_zero (env b)"
proof -
  obtain k l where kl: "env a = IntVal k" "env b = IntVal l" "width k = w" "width l = w" "iv_wf l"
    using x y by (auto simp: has_ty_int)
  have "try_binary_op op k l \<noteq> Some None" using op by (cases op) (auto simp: try_binary_op_def arith_ops_def)
  then have "eval_binary op k l = None \<longleftrightarrow> try_binary_op op k l = None"
    by (cases "try_binary_op op k l") (auto simp: eval_binary_def split: option.splits)
  moreover have "op \<noteq> OpMux" using op by (auto simp: arith_ops_def)
  ultimately show ?thesis
    using try_binary_op_panics[of k l op] kl w by (simp add: eval_inst_def)
qed

section \<open>From the verifier to the judgement\<close>

lemma verify_inst_kind:
  assumes "inst_at g i = Some d" "dfg_wf g" "verify_inst flags ret g l i = Some []"
  shows "verify_kind g ret i d = Some []"
proof -
  obtain vs where vs: "mapM (verify_value g l (opcode_of d)) (args d) = Some vs" "concat (map snd vs) = []"
    "concat (map (\<lambda>b. snd (verify_block l (opcode_of d) b)) (inst_blocks d)) = []"
    and rest: "(\<exists>b \<in> set (map fst vs @ map (\<lambda>b. fst (verify_block l (opcode_of d) b)) (inst_blocks d)). b) \<or>
      verify_kind g ret i d = Some []"
    using assms(3) inst_at_index[OF assms(2,1)]
    by (auto simp: verify_inst_def bind_Some_iff Let_def image_iff split: if_splits) blast+
  have "\<not> fst p" if p: "p \<in> set vs" for p
  proof -
    obtain k where "k < length vs" "vs ! k = p" using p by (auto simp: in_set_conv_nth)
    then have "verify_value g l (opcode_of d) (args d ! k) = Some p"
      using vs(1) unfolding mapM_Some_iff list_all2_conv_all_nth by auto
    moreover have "snd p = []" using vs(2) p by auto
    ultimately show ?thesis by (auto simp: verify_value_def bind_Some_iff split: if_splits)
  qed
  moreover have "\<not> fst (verify_block l (opcode_of d) b)" if "b \<in> set (inst_blocks d)" for b
    using vs(3) that by (auto simp: verify_block_def split: if_splits)
  ultimately show ?thesis using rest by auto
qed

lemma inst_type_at: "dfg_wf g \<Longrightarrow> value_at g v = Some (VInst t i) \<Longrightarrow> inst_type g i = Some t"
  using dfg_wfD(6)[of g i v] value_type_at[of g v t i]
  by (auto simp: inst_type_def has_result_def st_contains_def inst_result_def st_index_def)

definition well_typed_env :: "data_flow_graph \<Rightarrow> (nat \<Rightarrow> val) \<Rightarrow> bool" where
  "well_typed_env g env \<longleftrightarrow> (\<forall>v d t. value_at g v = Some d \<longrightarrow> vd_type d = Some t \<longrightarrow> data_ty t \<longrightarrow> has_ty (env v) t)"

lemma value_type_vd: "dfg_wf g \<Longrightarrow> value_at g v = Some d \<Longrightarrow> value_type g v = vd_type d"
  by (simp add: value_type_def value_at_index)

lemma operands_of_env:
  assumes "dfg_wf g" "well_typed_env g env" "\<forall>a \<in> set (args d). data_value g a"
  shows "operands_ok (value_type g) env d"
  using assms value_type_vd[OF assms(1)] unfolding operands_ok_def data_value_def well_typed_env_def by metis

lemma demo_verified: "verify_inst {FUNCTION} None demo_graph (fl_new\<lparr>inst_map := [0 \<mapsto> 0]\<rparr>) 1 = Some []"
proof -
  let ?d = "IUnary OpNeg 0"
  have i: "pt2_index (dinsts demo_graph) 1 = Some ?d" using inst_at_index[OF demo_wf(1), of 1] by (simp add: demo_at)
  have v: "pt2_index (dvalues demo_graph) 0 = Some (VInst (IntType 8) 0)"
    using value_at_index[OF demo_wf(1), of 0] by (simp add: demo_at)
  have k: "verify_kind demo_graph None 1 ?d = Some []"
    using inst_type_at[OF demo_wf(1), of 1 "IntType 8" 1] value_type_vd[OF demo_wf(1), of 0]
    by (simp add: demo_at verify_kind_def opcode_of_def all_of_clean assert_inst_defs verify_arith_compatible_ty_def
        int_or_int_signal_def args_match_clean args_def vd_type_def)
  show ?thesis
    using i v k by (simp add: verify_inst_def opcode_of_def valid_in_def ALL_UNITS_def args_def verify_value_def
        key_invalid_def is_value_defined_def is_inst_inserted_def inst_blocks_def report_def)
qed

end
