(* ===== verification/TypeProgress.thy ===== *)
theory TypeProgress
  imports TypeSoundness
begin

text \<open>
  What the verifier promises, against the language. First the typing rules of the
  instructions on data as \<^verbatim>\<open>docs/LANGUAGE.md\<close> states them (\<open>language_typed\<close>), with the
  instructions that the verifier refuses although the language has them (\<open>refused\<close>) and
  those that it accepts beyond the language (\<open>tolerated\<close>). Then progress: a verified
  instruction has a value, but for the cases that \<open>no_value\<close> names.
\<close>

section \<open>The typing rules of the language\<close>

text \<open>The type of one element, field or bit, and of a range of elements or bits.\<close>

definition element_type :: "nat \<Rightarrow> ty \<Rightarrow> ty option" where
  "element_type k t = (case t of
     StructType fs \<Rightarrow> if k < length fs then Some (fs ! k) else None
   | ArrayType n e \<Rightarrow> if k < n then Some e else None
   | IntType w \<Rightarrow> if k < w then Some (IntType 1) else None
   | _ \<Rightarrow> None)"

definition range_type :: "nat \<Rightarrow> nat \<Rightarrow> ty \<Rightarrow> ty option" where
  "range_type off len t = (case t of
     ArrayType n e \<Rightarrow> if off + len \<le> n then Some (ArrayType len e) else None
   | IntType w \<Rightarrow> if off + len \<le> w then Some (IntType len) else None
   | _ \<Rightarrow> None)"

text \<open>Extraction sees through one signal or pointer.\<close>

definition seen_through :: "(ty \<Rightarrow> ty option) \<Rightarrow> ty \<Rightarrow> ty option" where
  "seen_through f t = (case t of
     SignalType u \<Rightarrow> map_option SignalType (f u)
   | PointerType u \<Rightarrow> map_option PointerType (f u)
   | _ \<Rightarrow> f t)"

text \<open>Base and hidden value of a shift: the same type up to the number of bits or elements.\<close>

inductive same_but_length :: "ty \<Rightarrow> ty \<Rightarrow> bool" where
  "same_but_length (IntType n) (IntType m)"
| "same_but_length (ArrayType n e) (ArrayType m e)"

inductive shiftable :: "ty \<Rightarrow> ty \<Rightarrow> bool" where
  "same_but_length t h \<Longrightarrow> shiftable t h"
| "same_but_length t h \<Longrightarrow> shiftable (SignalType t) (SignalType h)"
| "same_but_length t h \<Longrightarrow> shiftable (PointerType t) (PointerType h)"

definition relation_ops :: "opcode set" where
  "relation_ops = {OpSlt, OpSgt, OpSle, OpSge, OpUlt, OpUgt, OpUle, OpUge}"

inductive language_typed :: "(nat \<Rightarrow> ty option) \<Rightarrow> inst_data \<Rightarrow> ty \<Rightarrow> bool" for G where
  lt_array: "opcode_of d = OpArray \<Longrightarrow> \<forall>a \<in> set (args d). G a = Some e \<Longrightarrow> n = length (args d) \<Longrightarrow>
    language_typed G d (ArrayType n e)"
| lt_struct: "opcode_of d = OpStruct \<Longrightarrow> map G (args d) = map Some fs \<Longrightarrow> language_typed G d (StructType fs)"
| lt_unary: "op \<in> {OpNot, OpNeg} \<Longrightarrow> G a = Some (IntType w) \<Longrightarrow> language_typed G (IUnary op a) (IntType w)"
| lt_binary: "op \<in> arith_ops \<Longrightarrow> G a = Some (IntType w) \<Longrightarrow> G b = Some (IntType w) \<Longrightarrow>
    language_typed G (IBinary op a b) (IntType w)"
| lt_equality: "op \<in> {OpEq, OpNeq} \<Longrightarrow> G a = Some s \<Longrightarrow> G b = Some s \<Longrightarrow>
    language_typed G (IBinary op a b) (IntType 1)"
| lt_relation: "op \<in> relation_ops \<Longrightarrow> G a = Some (IntType w) \<Longrightarrow> G b = Some (IntType w) \<Longrightarrow>
    language_typed G (IBinary op a b) (IntType 1)"
| lt_shift: "op \<in> {OpShl, OpShr} \<Longrightarrow> G a = Some t \<Longrightarrow> G b = Some h \<Longrightarrow> shiftable t h \<Longrightarrow>
    G c = Some (IntType m) \<Longrightarrow> language_typed G (ITernary op a b c) t"
| lt_mux: "G a = Some (ArrayType n t) \<Longrightarrow> G b = Some (IntType m) \<Longrightarrow> language_typed G (IBinary OpMux a b) t"
| lt_ins_field: "G a = Some t \<Longrightarrow> element_type i t = Some f \<Longrightarrow> G b = Some f \<Longrightarrow>
    language_typed G (IInsExt OpInsField a b i j) t"
| lt_ext_field: "G a = Some s \<Longrightarrow> seen_through (element_type i) s = Some t \<Longrightarrow>
    language_typed G (IInsExt OpExtField a b i j) t"
| lt_ins_slice: "G a = Some t \<Longrightarrow> range_type i j t = Some f \<Longrightarrow> G b = Some f \<Longrightarrow>
    language_typed G (IInsExt OpInsSlice a b i j) t"
| lt_ext_slice: "G a = Some s \<Longrightarrow> seen_through (range_type i j) s = Some t \<Longrightarrow>
    language_typed G (IInsExt OpExtSlice a b i j) t"

text \<open>
  Refused: a shift whose base and hidden value are arrays of different lengths, and the
  insertion or extraction of a single bit.
\<close>

inductive bits :: "ty \<Rightarrow> bool" where
  "bits (IntType w)" | "bits (SignalType (IntType w))" | "bits (PointerType (IntType w))"

inductive uneven_arrays :: "ty \<Rightarrow> ty \<Rightarrow> bool" where
  "n \<noteq> m \<Longrightarrow> uneven_arrays (ArrayType n e) (ArrayType m e)"
| "n \<noteq> m \<Longrightarrow> uneven_arrays (SignalType (ArrayType n e)) (SignalType (ArrayType m e))"
| "n \<noteq> m \<Longrightarrow> uneven_arrays (PointerType (ArrayType n e)) (PointerType (ArrayType m e))"

definition refused :: "(nat \<Rightarrow> ty option) \<Rightarrow> inst_data \<Rightarrow> bool" where
  "refused G d \<longleftrightarrow> (case d of
     ITernary op a b c \<Rightarrow> op \<in> {OpShl, OpShr} \<and> (\<exists>t h. G a = Some t \<and> G b = Some h \<and> uneven_arrays t h)
   | IInsExt op a b i j \<Rightarrow> op \<in> {OpInsField, OpExtField} \<and> (\<exists>t. G a = Some t \<and> bits t)
   | _ \<Rightarrow> False)"

text \<open>
  Tolerated: an array or struct literal with another number of operands than its type has
  elements, arithmetic on signals of integers, relations on any type, a shift amount or a
  selector that is a signal, an array element past the end.
\<close>

inductive tolerated :: "(nat \<Rightarrow> ty option) \<Rightarrow> inst_data \<Rightarrow> ty \<Rightarrow> bool" for G where
  "opcode_of d = OpArray \<Longrightarrow> \<forall>a \<in> set (args d). G a = Some e \<Longrightarrow> n \<noteq> length (args d) \<Longrightarrow> tolerated G d (ArrayType n e)"
| "opcode_of d = OpStruct \<Longrightarrow> map G (take (length fs) (args d)) = map Some fs \<Longrightarrow> length fs < length (args d) \<Longrightarrow>
    tolerated G d (StructType fs)"
| "op \<in> {OpNot, OpNeg} \<Longrightarrow> t = SignalType (IntType w) \<Longrightarrow> G a = Some t \<Longrightarrow> tolerated G (IUnary op a) t"
| "op \<in> arith_ops \<Longrightarrow> t = SignalType (IntType w) \<Longrightarrow> G a = Some t \<Longrightarrow> G b = Some t \<Longrightarrow> tolerated G (IBinary op a b) t"
| "op \<in> relation_ops \<Longrightarrow> G a = Some s \<Longrightarrow> G b = Some s \<Longrightarrow> \<not> ty_is_int s \<Longrightarrow> tolerated G (IBinary op a b) (IntType 1)"
| "op \<in> {OpShl, OpShr} \<Longrightarrow> G a = Some t \<Longrightarrow> G b = Some h \<Longrightarrow> shiftable t h \<Longrightarrow> \<not> uneven_arrays t h \<Longrightarrow>
    G c = Some (SignalType (IntType m)) \<Longrightarrow> tolerated G (ITernary op a b c) t"
| "G a = Some (ArrayType n t) \<Longrightarrow> G b = Some (SignalType (IntType m)) \<Longrightarrow> tolerated G (IBinary OpMux a b) t"
| "G a = Some t \<Longrightarrow> t = ArrayType n e \<Longrightarrow> n \<le> i \<Longrightarrow> G b = Some e \<Longrightarrow> tolerated G (IInsExt OpInsField a b i j) t"
| "G a = Some s \<Longrightarrow> seen_through (\<lambda>u. case u of ArrayType n e \<Rightarrow> if n \<le> i then Some e else None | _ \<Rightarrow> None) s = Some t \<Longrightarrow>
    tolerated G (IInsExt OpExtField a b i j) t"

inductive_simps language_typed_IUnary: "language_typed G (IUnary op a) t"
inductive_simps language_typed_IBinary: "language_typed G (IBinary op a b) t"
inductive_simps language_typed_ITernary: "language_typed G (ITernary op a b c) t"
inductive_simps language_typed_IInsExt: "language_typed G (IInsExt op a b i j) t"
inductive_simps tolerated_IUnary: "tolerated G (IUnary op a) t"
inductive_simps tolerated_IBinary: "tolerated G (IBinary op a b) t"
inductive_simps tolerated_ITernary: "tolerated G (ITernary op a b c) t"
inductive_simps tolerated_IInsExt: "tolerated G (IInsExt op a b i j) t"

lemmas type_rules = op_sets relation_ops_def opcode_of_def

lemma int_or_int_signal_cases: "int_or_int_signal t \<longleftrightarrow> (\<exists>w. t = IntType w) \<or> (\<exists>w. t = SignalType (IntType w))"
proof (cases t)
  case (SignalType u)
  then show ?thesis by (cases u) (simp_all add: int_or_int_signal_def)
qed (simp_all add: int_or_int_signal_def)

lemma arith_op_kind:
  "op \<in> arith_ops \<Longrightarrow> op \<notin> compare_ops \<and> op \<notin> relation_ops \<and> op \<noteq> OpMux \<and> op \<noteq> OpEq \<and> op \<noteq> OpNeq \<and> op \<noteq> OpArray \<and> op \<noteq> OpStruct"
  by (auto simp: type_rules)

lemma compare_op_kind:
  "op \<in> compare_ops \<longleftrightarrow> op \<in> relation_ops \<or> op = OpEq \<or> op = OpNeq"
  "op \<in> compare_ops \<Longrightarrow> op \<notin> arith_ops \<and> op \<noteq> OpMux \<and> op \<noteq> OpArray \<and> op \<noteq> OpStruct"
  "op \<in> relation_ops \<Longrightarrow> op \<noteq> OpEq \<and> op \<noteq> OpNeq"
  by (auto simp: type_rules)

lemma literal_op_kind [simp]:
  "OpArray \<notin> arith_ops" "OpArray \<notin> compare_ops" "OpArray \<notin> relation_ops"
  "OpStruct \<notin> arith_ops" "OpStruct \<notin> compare_ops" "OpStruct \<notin> relation_ops"
  "OpMux \<notin> arith_ops" "OpMux \<notin> compare_ops" "OpMux \<notin> relation_ops"
  by (simp_all add: type_rules)

lemma fields_of: "map G xs = map Some fs \<longleftrightarrow> length fs = length xs \<and> (\<forall>k < length fs. G (xs ! k) = Some (fs ! k))"
  by (auto simp: list_eq_iff_nth_eq)

lemma typed_array:
  assumes "opcode_of d = OpArray"
  shows "typed G d t \<longleftrightarrow> language_typed G d t \<or> tolerated G d t"
proof -
  have "typed G d t \<longleftrightarrow> (\<exists>n e. t = ArrayType n e \<and> (\<forall>a \<in> set (args d). G a = Some e))"
    using assms by (subst typed.simps) (auto simp: opcode_of_def)
  moreover have "language_typed G d t \<longleftrightarrow> (\<exists>n e. t = ArrayType n e \<and> (\<forall>a \<in> set (args d). G a = Some e) \<and> n = length (args d))"
    using assms by (subst language_typed.simps) (auto simp: opcode_of_def)
  moreover have "tolerated G d t \<longleftrightarrow> (\<exists>n e. t = ArrayType n e \<and> (\<forall>a \<in> set (args d). G a = Some e) \<and> n \<noteq> length (args d))"
    using assms by (subst tolerated.simps) (auto simp: opcode_of_def)
  ultimately show ?thesis by blast
qed

lemma typed_struct:
  assumes "opcode_of d = OpStruct"
  shows "typed G d t \<longleftrightarrow> language_typed G d t \<or> tolerated G d t"
proof -
  have "typed G d t \<longleftrightarrow> (\<exists>fs. t = StructType fs \<and> length fs \<le> length (args d) \<and>
      (\<forall>k < length fs. G (args d ! k) = Some (fs ! k)))"
    using assms by (subst typed.simps) (auto simp: opcode_of_def)
  moreover have "language_typed G d t \<longleftrightarrow> (\<exists>fs. t = StructType fs \<and> map G (args d) = map Some fs)"
    using assms by (subst language_typed.simps) (auto simp: opcode_of_def)
  moreover have "tolerated G d t \<longleftrightarrow> (\<exists>fs. t = StructType fs \<and> map G (take (length fs) (args d)) = map Some fs \<and>
      length fs < length (args d))"
    using assms by (subst tolerated.simps) (auto simp: opcode_of_def)
  ultimately show ?thesis unfolding fields_of by (cases t) (auto simp: le_less)
qed

lemma typed_unary:
  "op \<in> {OpNot, OpNeg} \<Longrightarrow> typed G (IUnary op a) t \<longleftrightarrow> language_typed G (IUnary op a) t \<or> tolerated G (IUnary op a) t"
  by (auto simp: typed_IUnary language_typed_IUnary tolerated_IUnary int_or_int_signal_cases type_rules)

lemma typed_binary:
  assumes "op \<in> arith_ops"
  shows "typed G (IBinary op a b) t \<longleftrightarrow> language_typed G (IBinary op a b) t \<or> tolerated G (IBinary op a b) t"
  using assms arith_op_kind[OF assms]
  by (auto simp: typed_IBinary language_typed_IBinary tolerated_IBinary int_or_int_signal_cases opcode_of_def)

lemma int_or_not: "(\<exists>w. s = IntType w) \<or> \<not> ty_is_int s"
  by (cases s) simp_all

lemma typed_compare:
  assumes "op \<in> compare_ops"
  shows "typed G (IBinary op a b) t \<longleftrightarrow> language_typed G (IBinary op a b) t \<or> tolerated G (IBinary op a b) t"
proof -
  have "typed G (IBinary op a b) t \<longleftrightarrow> t = IntType 1 \<and> (\<exists>s. G a = Some s \<and> G b = Some s)"
    using assms compare_op_kind(2)[OF assms] by (auto simp: typed_IBinary opcode_of_def)
  moreover have "language_typed G (IBinary op a b) t \<longleftrightarrow> t = IntType 1 \<and>
      (op \<in> {OpEq, OpNeq} \<and> (\<exists>s. G a = Some s \<and> G b = Some s) \<or>
       op \<in> relation_ops \<and> (\<exists>w. G a = Some (IntType w) \<and> G b = Some (IntType w)))"
    using assms compare_op_kind(2)[OF assms] by (auto simp: language_typed_IBinary opcode_of_def)
  moreover have "tolerated G (IBinary op a b) t \<longleftrightarrow> t = IntType 1 \<and> op \<in> relation_ops \<and>
      (\<exists>s. G a = Some s \<and> G b = Some s \<and> \<not> ty_is_int s)"
    using assms compare_op_kind(2)[OF assms] by (auto simp: tolerated_IBinary opcode_of_def)
  ultimately show ?thesis using assms int_or_not unfolding compare_op_kind(1) by (metis insertCI insertE singletonD)
qed

lemma typed_mux:
  "typed G (IBinary OpMux a b) t \<longleftrightarrow> language_typed G (IBinary OpMux a b) t \<or> tolerated G (IBinary OpMux a b) t"
  by (auto simp: typed_IBinary language_typed_IBinary tolerated_IBinary int_or_int_signal_cases opcode_of_def)

lemma shift_compat_cases: "shift_compat t h \<longleftrightarrow> shiftable t h \<and> \<not> uneven_arrays t h"
proof -
  have "flat_compat u v \<longleftrightarrow> same_but_length u v \<and> \<not> uneven_arrays u v" for u v
    by (cases u; cases v) (auto simp: flat_compat_def same_but_length.simps uneven_arrays.simps)
  then show ?thesis
    by (cases t; cases h) (auto simp: shift_compat_def shiftable.simps same_but_length.simps uneven_arrays.simps)
qed

lemma typed_shift:
  assumes "op \<in> {OpShl, OpShr}" "d = ITernary op a b c"
  shows "typed G d t \<longleftrightarrow> language_typed G d t \<and> \<not> refused G d \<or> tolerated G d t"
  using assms
  by (auto simp: typed_ITernary language_typed_ITernary tolerated_ITernary int_or_int_signal_cases shift_compat_cases
      refused_def opcode_of_def)

lemma ext_field_cases: "ext_field_type i t = Some f \<longleftrightarrow>
    (element_type i t = Some f \<and> \<not> bits t) \<or> (\<exists>n. t = ArrayType n f \<and> n \<le> i)"
  by (cases t) (auto simp: ext_field_type_def element_type_def idx_def bits.simps)

lemma slice_in_range: "slice_in i j t = range_type i j t"
  by (cases t) (simp_all add: slice_in_def range_type_def ext_slice_type_def)

lemma seen_unpacked: "with_unpacked_sigptr t f = seen_through f t"
  by (cases t) (simp_all add: with_unpacked_sigptr_def seen_through_def)

lemma ext_field_through: "seen_through (ext_field_type i) s = Some t \<longleftrightarrow>
    seen_through (element_type i) s = Some t \<and> \<not> bits s \<or>
    seen_through (\<lambda>u. case u of ArrayType n e \<Rightarrow> if n \<le> i then Some e else None | _ \<Rightarrow> None) s = Some t"
proof -
  have inner: "ext_field_type i u = (if (\<exists>w. u = IntType w) then None else
      case (case u of ArrayType n e \<Rightarrow> if n \<le> i then Some e else None | _ \<Rightarrow> None) of
        None \<Rightarrow> element_type i u | Some e \<Rightarrow> Some e)" for u
    by (cases u) (auto simp: ext_field_type_def element_type_def idx_def)
  show ?thesis
  proof (cases s)
    case (SignalType u)
    then show ?thesis by (cases u) (auto simp: seen_through_def inner bits.simps element_type_def)
  next
    case (PointerType u)
    then show ?thesis by (cases u) (auto simp: seen_through_def inner bits.simps element_type_def)
  qed (auto simp: seen_through_def inner bits.simps element_type_def)
qed

lemma typed_insext:
  assumes "op \<in> {OpInsField, OpExtField, OpInsSlice, OpExtSlice}" "d = IInsExt op a b i j"
  shows "typed G d t \<longleftrightarrow> language_typed G d t \<and> \<not> refused G d \<or> tolerated G d t"
proof -
  consider "op = OpInsField" | "op = OpExtField" | "op = OpInsSlice" | "op = OpExtSlice" using assms(1) by blast
  then show ?thesis
  proof cases
    case 1
    then show ?thesis unfolding assms(2)
      by (auto simp: typed_IInsExt language_typed_IInsExt tolerated_IInsExt refused_def ext_field_cases opcode_of_def)
  next
    case 2
    then show ?thesis unfolding assms(2)
      by (auto simp: typed_IInsExt language_typed_IInsExt tolerated_IInsExt refused_def seen_unpacked ext_field_through opcode_of_def)
  next
    case 3
    then show ?thesis unfolding assms(2)
      by (auto simp: typed_IInsExt language_typed_IInsExt tolerated_IInsExt refused_def slice_in_range opcode_of_def)
  next
    case 4
    then show ?thesis unfolding assms(2)
      by (auto simp: typed_IInsExt language_typed_IInsExt tolerated_IInsExt refused_def seen_unpacked slice_in_range[abs_def] opcode_of_def)
  qed
qed

lemma rules_format:
  assumes "typed G d t \<or> language_typed G d t \<or> tolerated G d t" "opcode_of d \<notin> {OpArray, OpStruct}"
  obtains op a where "d = IUnary op a" "op \<in> {OpNot, OpNeg}"
  | op a b where "d = IBinary op a b" "op \<in> arith_ops"
  | op a b where "d = IBinary op a b" "op \<in> compare_ops"
  | a b where "d = IBinary OpMux a b"
  | op a b c where "d = ITernary op a b c" "op \<in> {OpShl, OpShr}"
  | op a b i j where "d = IInsExt op a b i j" "op \<in> {OpInsField, OpExtField, OpInsSlice, OpExtSlice}"
  using assms
  by (auto simp: compare_op_kind(1) elim!: typed.cases language_typed.cases tolerated.cases)

lemma typed_language:
  "typed G d t \<longleftrightarrow> language_typed G d t \<and> \<not> refused G d \<or> tolerated G d t"
proof (cases "typed G d t \<or> language_typed G d t \<or> tolerated G d t")
  case True
  note any = this
  show ?thesis
  proof (cases "opcode_of d \<in> {OpArray, OpStruct}")
    case True
    then have "\<not> refused G d" by (auto simp: refused_def opcode_of_def split: inst_data.splits)
    then show ?thesis using True typed_array[of d G t] typed_struct[of d G t] by blast
  next
    case False
    from any this show ?thesis
    proof (cases rule: rules_format)
      case (1 op a)
      then show ?thesis using typed_unary[of op G a t] by (simp add: refused_def)
    next
      case (2 op a b)
      then show ?thesis using typed_binary[of op G a b t] by (simp add: refused_def)
    next
      case (3 op a b)
      then show ?thesis using typed_compare[of op G a b t] by (simp add: refused_def)
    next
      case (4 a b)
      then show ?thesis using typed_mux[of G a b t] by (simp add: refused_def)
    next
      case (5 op a b c)
      then show ?thesis using typed_shift by blast
    next
      case (6 op a b i j)
      then show ?thesis using typed_insext by blast
    qed
  qed
qed blast

lemma tolerated_beyond: "tolerated G d t \<Longrightarrow> \<not> language_typed G d t"
proof (cases "opcode_of d \<in> {OpArray, OpStruct}")
  case True
  assume "tolerated G d t"
  then show ?thesis
    by (cases rule: tolerated.cases; use True in \<open>auto simp: language_typed.simps[of G d] opcode_of_def dest: arg_cong[of _ _ length]\<close>)
next
  case False
  assume tol: "tolerated G d t"
  then have any: "typed G d t \<or> language_typed G d t \<or> tolerated G d t" by simp
  from any False show ?thesis
  proof (cases rule: rules_format)
    case (1 op a)
    then show ?thesis using tol by (auto simp: language_typed_IUnary tolerated_IUnary opcode_of_def)
  next
    case (2 op a b)
    then show ?thesis using tol arith_op_kind[OF 2(2)] by (auto simp: language_typed_IBinary tolerated_IBinary opcode_of_def)
  next
    case (3 op a b)
    then show ?thesis using tol compare_op_kind(2)[OF 3(2)] compare_op_kind(3)[of op]
      by (auto simp: language_typed_IBinary tolerated_IBinary opcode_of_def)
  next
    case (4 a b)
    then show ?thesis using tol by (auto simp: language_typed_IBinary tolerated_IBinary opcode_of_def)
  next
    case (5 op a b c)
    then show ?thesis using tol by (auto simp: language_typed_ITernary tolerated_ITernary opcode_of_def)
  next
    case (6 op a b i j)
    then show ?thesis using tol
      by (auto simp: language_typed_IInsExt tolerated_IInsExt opcode_of_def element_type_def seen_through_def
          split: ty.splits if_splits)
  qed
qed

section \<open>Progress\<close>

text \<open>
  The instructions that compute a value from values, and the cases in which they have none:
  a division by zero, a selector or an element past the end of the array, a shift by more
  than the length of the hidden value, and a comparison of values other than integers, for
  which the library has no operation.
\<close>

definition value_inst :: "inst_data \<Rightarrow> bool" where
  "value_inst d \<longleftrightarrow> (case d of
     IConstInt op _ \<Rightarrow> True
   | IConstTime op _ \<Rightarrow> True
   | IArray op _ _ \<Rightarrow> True
   | IAggregate op _ \<Rightarrow> op \<in> {OpArray, OpStruct}
   | IUnary op _ \<Rightarrow> op \<in> {OpAlias, OpNot, OpNeg}
   | _ \<Rightarrow> opcode_of d \<in> data_ops - {OpArray, OpStruct})"

fun val_int :: "val \<Rightarrow> bool" where
  "val_int (IntVal _) = True"
| "val_int _ = False"

fun past_end :: "val \<Rightarrow> nat \<Rightarrow> bool" where
  "past_end (ArrayVal vs) k = (length vs \<le> k)"
| "past_end _ k = False"

fun shift_room :: "val \<Rightarrow> nat" where
  "shift_room (IntVal x) = width x"
| "shift_room (ArrayVal vs) = length vs"
| "shift_room _ = 0"

definition amount_of :: "val \<Rightarrow> nat" where
  "amount_of v = (case v of IntVal k \<Rightarrow> ivalue k | _ \<Rightarrow> 0)"

definition no_value :: "(nat \<Rightarrow> val) \<Rightarrow> inst_data \<Rightarrow> bool" where
  "no_value env d \<longleftrightarrow> (case d of
     IBinary op a b \<Rightarrow>
       if op = OpMux then past_end (env a) (amount_of (env b))
       else is_div_op op \<and> value_is_zero (env b) \<or> op \<in> compare_ops \<and> \<not> val_int (env a)
   | ITernary op a b c \<Rightarrow> shift_room (env b) < amount_of (env c)
   | IInsExt op a b i j \<Rightarrow> op \<in> {OpInsField, OpExtField} \<and> past_end (env a) i
   | _ \<Rightarrow> False)"

text \<open>The language has no integers of width zero.\<close>

definition positive_widths :: "(nat \<Rightarrow> ty option) \<Rightarrow> inst_data \<Rightarrow> bool" where
  "positive_widths G d \<longleftrightarrow> (\<forall>a \<in> set (args d). G a \<noteq> Some (IntType 0))"

lemma unary_progress:
  assumes "op \<in> {OpNot, OpNeg}" "has_ty (env a) (IntType w)"
  shows "eval_inst env (IUnary op a) \<noteq> None"
  using assms
  by (auto simp: has_ty_int eval_inst_def unary_op_def try_unary_op_def iv_not_def iv_neg_def ensure_def iv_wf_def Let_def)

lemma compare_progress:
  assumes op: "op \<in> compare_ops" and w: "w \<noteq> 0" and x: "has_ty (env a) (IntType w)" and y: "has_ty (env b) (IntType w)"
  shows "eval_inst env (IBinary op a b) \<noteq> None"
proof -
  obtain k l where kl: "env a = IntVal k" "env b = IntVal l" "width k = w" "width l = w"
    using x y by (auto simp: has_ty_int)
  obtain u v where uv: "to_signed k = Some u" "to_signed l = Some v" using to_signed_Suc[of k] to_signed_Suc[of l] kl w by auto
  have n: "op \<noteq> OpMux" using op by (auto simp: compare_ops_def)
  have "try_binary_op op k l = Some None" using op by (auto simp: try_binary_op_def compare_ops_def)
  moreover have "compare_op op k l \<noteq> None"
    using op uv kl by (auto simp: compare_ops_def compare_op_def try_compare_op_def iv_eq_def iv_neq_def iv_ult_def
        iv_ugt_def iv_ule_def iv_uge_def iv_slt_def iv_sgt_def iv_sle_def iv_sge_def iv_ucmp_def iv_scmp_def ensure_def Let_def)
  ultimately show ?thesis using kl n by (auto simp: eval_inst_def eval_binary_def)
qed

lemma compare_no_value:
  assumes "op \<in> compare_ops" "\<not> val_int (env a)"
  shows "eval_inst env (IBinary op a b) = None"
proof -
  have "op \<noteq> OpMux" using assms(1) by (auto simp: compare_ops_def)
  then show ?thesis using assms(2) by (cases "env a") (auto simp: eval_inst_def)
qed

lemma mux_progress:
  assumes "has_ty (env a) (ArrayType n t)" "has_ty (env b) (IntType m)"
  shows "eval_inst env (IBinary OpMux a b) = None \<longleftrightarrow> past_end (env a) (amount_of (env b))"
  using assms by (auto simp: has_ty_array has_ty_int eval_inst_def eval_mux_def amount_of_def array_extract_field_def idx_def split: if_splits)

lemma shift_list_progress: "shift_list l b h k = None \<longleftrightarrow> length h < k"
  by (auto simp: shift_list_def slice_def)

lemma shift_int_progress: "shift_int l b h k = None \<longleftrightarrow> width h < k"
  by (auto simp: shift_int_def)

lemma shift_progress:
  assumes op: "op \<in> {OpShl, OpShr}" and sc: "shift_compat t h" "data_ty t"
    and v: "has_ty (env a) t" "has_ty (env b) h" "has_ty (env c) (IntType m)"
  shows "eval_inst env (ITernary op a b c) = None \<longleftrightarrow> shift_room (env b) < amount_of (env c)"
proof -
  obtain k where k: "env c = IntVal k" using v(3) by (auto simp: has_ty_int)
  have "(\<exists>x y. env a = IntVal x \<and> env b = IntVal y) \<or> (\<exists>xs ys. env a = ArrayVal xs \<and> env b = ArrayVal ys)"
    using sc v by (cases t; cases h) (auto simp: shift_compat_def flat_compat_def has_ty_int has_ty_array)
  then show ?thesis
    using op k by (auto simp: eval_inst_def eval_shift_def amount_of_def shift_list_progress shift_int_progress)
qed

lemma ext_field_progress:
  assumes "has_ty (env a) s" "ext_field_type i s = Some t"
  shows "eval_inst env (IInsExt OpExtField a b i j) = None \<longleftrightarrow> past_end (env a) i"
  using assms(2)
proof (cases rule: field_ty_cases)
  case (1 fs)
  then show ?thesis using assms(1)
    by (auto simp: has_ty_struct eval_inst_def eval_ext_field_def struct_extract_field_def idx_def list_all2_lengthD)
next
  case (2 n)
  then show ?thesis using assms(1)
    by (auto simp: has_ty_array eval_inst_def eval_ext_field_def array_extract_field_def idx_def split: if_splits)
qed

lemma ins_field_progress:
  assumes "has_ty (env a) s" "ext_field_type i s = Some t"
  shows "eval_inst env (IInsExt OpInsField a b i j) = None \<longleftrightarrow> past_end (env a) i"
  using assms(2)
proof (cases rule: field_ty_cases)
  case (1 fs)
  then show ?thesis using assms(1)
    by (auto simp: has_ty_struct eval_inst_def eval_ins_field_def struct_insert_field_def idx_set_def list_all2_lengthD)
next
  case (2 n)
  then show ?thesis using assms(1)
    by (auto simp: has_ty_array eval_inst_def eval_ins_field_def array_insert_field_def idx_set_def split: if_splits)
qed

lemma ext_slice_progress:
  assumes "has_ty (env a) s" "slice_in i j s = Some t"
  shows "eval_inst env (IInsExt OpExtSlice a b i j) \<noteq> None"
  using assms(2)
proof (cases rule: slice_ty_cases)
  case (1 w)
  then show ?thesis using assms(1) by (auto simp: has_ty_int eval_inst_def eval_ext_slice_def)
next
  case (2 n e)
  then show ?thesis using assms(1)
    by (auto simp: has_ty_array eval_inst_def eval_ext_slice_def array_extract_slice_def slice_def)
qed

lemma ins_slice_progress:
  assumes "has_ty (env a) s" "slice_in i j s = Some t" "has_ty (env b) t"
  shows "eval_inst env (IInsExt OpInsSlice a b i j) \<noteq> None"
  using assms(2)
proof (cases rule: slice_ty_cases)
  case (1 w)
  then show ?thesis using assms(1,3)
    by (auto simp: has_ty_int eval_inst_def eval_ins_slice_def iv_insert_slice_def ensure_def Let_def)
next
  case (2 n e)
  then show ?thesis using assms(1,3)
    by (auto simp: has_ty_array eval_inst_def eval_ins_slice_def array_insert_slice_def slice_set_def ensure_def)
qed

lemma div_not_compare: "op \<in> compare_ops \<Longrightarrow> \<not> is_div_op op"
  by (auto simp: is_div_op_def compare_ops_def)

lemma binary_progress:
  assumes ty: "typed G (IBinary op a b) t" and t: "data_ty t" and ok: "operands_ok G env (IBinary op a b)"
    and pos: "positive_widths G (IBinary op a b)" and lit: "op \<notin> {OpArray, OpStruct}"
  shows "eval_inst env (IBinary op a b) = None \<longleftrightarrow> no_value env (IBinary op a b)"
proof -
  have v: "G a = Some s \<Longrightarrow> has_ty (env a) s \<and> data_ty s \<and> s \<noteq> IntType 0"
       "G b = Some s \<Longrightarrow> has_ty (env b) s \<and> data_ty s" for s
    using ok pos by (auto simp: operands_ok_def positive_widths_def args_def)
  have "op \<in> arith_ops \<or> op \<in> compare_ops \<or> op = OpMux"
    using ty lit by (auto simp: typed_IBinary opcode_of_def)
  then show ?thesis
  proof (elim disjE)
    assume op: "op \<in> arith_ops"
    then have g: "int_or_int_signal t" "G a = Some t" "G b = Some t"
      using ty arith_op_kind[OF op] by (auto simp: typed_IBinary opcode_of_def)
    obtain w where w: "t = IntType w" using data_int_or_int_signal[OF t] g(1) by blast
    then show ?thesis
      using arith_progress[OF op, of w env a b] v g arith_op_kind[OF op] by (auto simp: no_value_def)
  next
    assume op: "op \<in> compare_ops"
    then obtain s where g: "G a = Some s" "G b = Some s"
      using ty compare_op_kind(2)[OF op] by (auto simp: typed_IBinary opcode_of_def)
    note k = compare_op_kind(2)[OF op] div_not_compare[OF op]
    show ?thesis
    proof (cases "val_int (env a)")
      case True
      then obtain w where "s = IntType w" using v(1)[OF g(1)] by (cases s; cases "env a") auto
      then show ?thesis using compare_progress[OF op, of w env a b] v g True k by (auto simp: no_value_def)
    next
      case False
      then show ?thesis using compare_no_value[OF op] op k by (simp add: no_value_def)
    qed
  next
    assume op: "op = OpMux"
    then obtain n s where "G a = Some (ArrayType n t)" "G b = Some s" "int_or_int_signal s"
      using ty by (auto simp: typed_IBinary opcode_of_def)
    then obtain m where "has_ty (env a) (ArrayType n t)" "has_ty (env b) (IntType m)"
      using v data_int_or_int_signal by blast
    then show ?thesis using mux_progress op by (simp add: no_value_def)
  qed
qed

lemma insext_progress:
  assumes ty: "typed G (IInsExt op a b i j) t" and ok: "operands_ok G env (IInsExt op a b i j)"
    and lit: "op \<notin> {OpArray, OpStruct}"
  shows "eval_inst env (IInsExt op a b i j) = None \<longleftrightarrow> no_value env (IInsExt op a b i j)"
proof -
  have oa: "G a = Some s \<Longrightarrow> has_ty (env a) s \<and> data_ty s"
    and ob: "op \<in> {OpInsField, OpInsSlice} \<Longrightarrow> G b = Some s \<Longrightarrow> has_ty (env b) s" for s
    using ok by (auto simp: operands_ok_def args_def split: if_splits)
  from ty consider s where "op = OpInsField" "G a = Some t" "ext_field_type i t = Some s"
    | s where "op = OpExtField" "G a = Some s" "with_unpacked_sigptr s (ext_field_type i) = Some t"
    | s where "op = OpInsSlice" "G a = Some t" "slice_in i j t = Some s" "G b = Some s"
    | s where "op = OpExtSlice" "G a = Some s" "with_unpacked_sigptr s (slice_in i j) = Some t"
    using lit by (auto simp: typed_IInsExt opcode_of_def)
  then show ?thesis
  proof cases
    case (1 s)
    then show ?thesis using ins_field_progress[of env a t i s b j] oa by (simp add: no_value_def)
  next
    case (2 s)
    then show ?thesis using ext_field_progress[of env a s i t b j] oa data_with_unpacked[of s] by (simp add: no_value_def)
  next
    case (3 s)
    then show ?thesis using ins_slice_progress oa ob by (auto simp: no_value_def)
  next
    case (4 s)
    then show ?thesis using ext_slice_progress oa data_with_unpacked[of s] by (auto simp: no_value_def)
  qed
qed

lemma progress:
  assumes ty: "opcode_of d \<in> data_ops \<longrightarrow> typed G d t" and b: "built G d t" and t: "data_ty t"
    and ok: "operands_ok G env d" and pos: "positive_widths G d" and vi: "value_inst d"
  shows "eval_inst env d = None \<longleftrightarrow> no_value env d"
proof (cases d)
  case (IUnary op a)
  show ?thesis
  proof (cases "op = OpAlias")
    case False
    then have op: "op \<in> {OpNot, OpNeg}" using vi by (auto simp: value_inst_def IUnary)
    then have "typed G (IUnary op a) t" using ty by (auto simp: IUnary opcode_of_def data_ops_def)
    then have g: "int_or_int_signal t" "G a = Some t" using op by (auto simp: typed_IUnary opcode_of_def)
    obtain w where w: "t = IntType w" using data_int_or_int_signal[OF t] g(1) by blast
    have "has_ty (env a) (IntType w)" using ok g w by (auto simp: IUnary operands_ok_def args_def)
    from unary_progress[where env = env, OF op this] show ?thesis by (simp add: no_value_def IUnary)
  qed (simp add: IUnary eval_inst_def no_value_def)
next
  case (IBinary op a b)
  then have "typed G d t" "op \<notin> {OpArray, OpStruct}" using ty vi by (auto simp: value_inst_def opcode_of_def)
  then show ?thesis using binary_progress t ok pos unfolding IBinary by blast
next
  case (ITernary op a b c)
  then have "typed G d t" "op \<notin> {OpArray, OpStruct}" using ty vi by (auto simp: value_inst_def opcode_of_def)
  then obtain h s where g: "op \<in> {OpShl, OpShr}" "G a = Some t" "G b = Some h" "shift_compat t h" "G c = Some s"
    "int_or_int_signal s"
    unfolding ITernary by (auto simp: typed_ITernary opcode_of_def)
  have v: "has_ty (env a) t" "has_ty (env b) h" "has_ty (env c) s" "data_ty s"
    using ok g by (auto simp: operands_ok_def args_def ITernary)
  then obtain m where "s = IntType m" using g(6) data_int_or_int_signal by blast
  then show ?thesis using shift_progress[OF g(1,4) t v(1,2)] v(3) by (simp add: no_value_def ITernary)
next
  case (IInsExt op a b i j)
  then have "typed G d t" "op \<notin> {OpArray, OpStruct}" using ty vi by (auto simp: value_inst_def opcode_of_def)
  then show ?thesis using insext_progress ok unfolding IInsExt by blast
qed (use vi ty b in \<open>auto simp: value_inst_def eval_inst_def no_value_def built_def data_ops_def opcode_of_def
    elim!: typed.cases\<close>)

section \<open>Properties\<close>

text \<open>
  C11: the verifier decides typing. For every instruction on data (arrays, structs,
  arithmetic, comparison, shift, multiplexer, insertion and extraction) the checks specific
  to the instruction report nothing, and do not panic, in exactly two cases. Either the
  instruction is well typed by the rules of the language (\<open>language_typed\<close>, after
  docs/LANGUAGE.md) and not one of those that the verifier refuses all the same (\<open>refused\<close>): a
  shift of arrays of different lengths, and the insertion or extraction of a single bit of an
  integer. Or it is one of the instructions that the verifier accepts although the language does
  not type them (\<open>tolerated\<close>): a literal with another number of operands than its type has
  elements, arithmetic on signals of integers, relations on any type, a signal as shift
  amount or selector, an array element past the end.
\<close>

theorem verifier_decides_typed:
  assumes "opcode_of d \<in> data_ops" "inst_type g i = Some t"
  shows "(verify_kind g ret i d = Some [] \<longleftrightarrow>
      language_typed (value_type g) d t \<and> \<not> refused (value_type g) d \<or> tolerated (value_type g) d t)
    \<and> \<not> (tolerated (value_type g) d t \<and> language_typed (value_type g) d t)"
  using verifier_decides_typing[OF assms] typed_language tolerated_beyond by blast+

lemma verifier_decides_typed_witness:
  "verify_kind demo_graph None 1 (IUnary OpNeg 0) = Some []
   \<and> language_typed (value_type demo_graph) (IUnary OpNeg 0) (IntType 8)"
proof -
  have t: "inst_type demo_graph 1 = Some (IntType 8)"
    using inst_type_at[OF demo_wf(1), of 1 "IntType 8" 1] by (simp add: demo_at)
  have "value_type demo_graph 0 = Some (IntType 8)" using value_type_vd[OF demo_wf(1), of 0] by (simp add: demo_at vd_type_def)
  then have "language_typed (value_type demo_graph) (IUnary OpNeg 0) (IntType 8)"
    by (simp add: language_typed_IUnary opcode_of_def)
  moreover from this have "verify_kind demo_graph None 1 (IUnary OpNeg 0) = Some []"
    using verifier_decides_typed[of "IUnary OpNeg 0" demo_graph 1 "IntType 8" None] t
    by (simp add: opcode_of_def data_ops_def refused_def)
  ultimately show ?thesis by blast
qed

text \<open>
  C3: type soundness. If the verifier reports nothing for an instruction that is built as
  the builder builds it, then in every valuation that respects the types of the operands a
  value that the instruction computes is of its result type (preservation); and if the
  instruction is a constant, an alias, a literal or an operation on data (\<open>value_inst\<close>) and no
  operand is an integer of width zero, it has a value but exactly in the cases of \<open>no_value\<close>: a division by zero, a selector or an
  element past the end of the array, a shift by more than the length of the hidden value,
  and a comparison of values other than integers (progress).
\<close>

theorem verified_inst_sound:
  assumes "dfg_wf g" "inst_at g i = Some d" "value_at g v = Some (VInst t i)"
    and "verify_inst flags ret g l i = Some []" "built (value_type g) d t"
    and "data_ty t" "\<forall>a \<in> set (args d). data_value g a" "well_typed_env g env"
  shows "(\<forall>x. eval_inst env d = Some x \<longrightarrow> has_ty x t) \<and>
    (value_inst d \<and> positive_widths (value_type g) d \<longrightarrow>
      (if no_value env d then eval_inst env d = None else (\<exists>x. eval_inst env d = Some x \<and> has_ty x t)))"
proof (intro conjI impI)
  have tt: "opcode_of d \<in> data_ops \<longrightarrow> typed (value_type g) d t"
    using verifier_decides_typing[OF _ inst_type_at[OF assms(1,3)]] verify_inst_kind[OF assms(2,1,4)] by blast
  have ok: "operands_ok (value_type g) env d" by (rule operands_of_env[OF assms(1,8,7)])
  show pres: "\<forall>x. eval_inst env d = Some x \<longrightarrow> has_ty x t"
    using eval_typed[OF tt assms(5,6) ok] by blast
  show "if no_value env d then eval_inst env d = None else (\<exists>x. eval_inst env d = Some x \<and> has_ty x t)"
    if "value_inst d \<and> positive_widths (value_type g) d"
    using progress[OF tt assms(5,6) ok] that pres by (cases "eval_inst env d") auto
qed

lemma verified_inst_sound_witness:
  "\<exists>l. verify_inst {FUNCTION} None demo_graph l 1 = Some [] \<and>
     (\<exists>x. eval_inst (\<lambda>_. IntVal (IntValue 8 5)) (IUnary OpNeg 0) = Some x \<and> has_ty x (IntType 8))"
proof -
  let ?l = "fl_new\<lparr>inst_map := [0 \<mapsto> 0]\<rparr>" and ?d = "IUnary OpNeg 0" and ?env = "\<lambda>_::nat. IntVal (IntValue 8 5)"
  note ok = demo_verified
  have "value_type demo_graph 0 = Some (IntType 8)" using value_type_vd[OF demo_wf(1), of 0] by (simp add: demo_at vd_type_def)
  then have k: "value_inst ?d" "positive_widths (value_type demo_graph) ?d" "\<not> no_value ?env ?d"
    by (simp_all add: value_inst_def positive_widths_def no_value_def args_def)
  have "\<exists>x. eval_inst ?env ?d = Some x \<and> has_ty x (IntType 8)"
    using verified_inst_sound[OF demo_wf(1), of 1 ?d 1 "IntType 8" "{FUNCTION}" None ?l ?env] ok k
    by (auto simp: demo_at built_def args_def data_value_def well_typed_env_def vd_type_def iv_wf_def split: if_splits)
  then show ?thesis using ok by blast
qed

end
