(* ===== verification/IntIdentities.thy ===== *)
theory IntIdentities
  imports TypeSoundness
begin

text \<open>
  The algebraic identities that constant folding relies on, over integer values of any
  width: operands that are zero, one or all ones, and slices that are empty or whole.
\<close>

lemma iv_eqI: "width x = width y \<Longrightarrow> ivalue x = ivalue y \<Longrightarrow> x = y"
  by (cases x; cases y) simp

lemma from_unsigned_same: "iv_wf x \<Longrightarrow> width x = w \<Longrightarrow> from_unsigned w (ivalue x) = x"
  by (intro iv_eqI) (auto simp: from_unsigned_def iv_wf_def)

lemma all_ones_mask: "ivalue (iv_all_ones w) = mask w"
  by (simp add: iv_all_ones_def mask_eq_exp_minus_1)

lemma wf_and_mask: "iv_wf x \<Longrightarrow> width x = w \<Longrightarrow> ivalue x AND mask w = ivalue x"
  by (simp add: iv_wf_def flip: take_bit_eq_mask) (simp add: take_bit_nat_eq_self)

lemma wf_or_mask: "iv_wf x \<Longrightarrow> width x = w \<Longrightarrow> ivalue x OR mask w = mask w"
  using wf_bit[of x] by (intro bit_eqI) (auto simp: bit_or_iff bit_mask_iff)

lemma wf_xor_mask:
  assumes "iv_wf x" "width x = w"
  shows "ivalue x XOR mask w = mask w - ivalue x"
proof -
  let ?n = "ivalue x"
  have "?n + (?n XOR mask w) = ?n OR (?n XOR mask w)"
    by (rule disjunctive_add) (auto simp: bit_xor_iff bit_mask_iff dest: wf_bit[OF assms(1)] simp flip: assms(2))
  also have "\<dots> = mask w"
    by (intro bit_eqI) (auto simp: bit_or_iff bit_xor_iff bit_mask_iff assms(2) dest: wf_bit[OF assms(1)])
  finally show ?thesis by simp
qed

lemma ones_ivalue: "iv_is_all_ones a \<Longrightarrow> width a = w \<Longrightarrow> ivalue a = mask w"
  by (simp add: iv_is_all_ones_def all_ones_mask)

lemma signed_of_one:
  assumes "iv_wf y" "iv_is_one y" "to_signed y = Some b"
  shows "b = 1 \<or> b = - 1 \<and> width y = 1"
proof -
  obtain k where k: "width y = Suc k" using assms(3) by (cases "width y") (auto simp: to_signed_def)
  have "Suc 0 < 2 * 2 ^ n" for n :: nat by (induction n) auto
  then show ?thesis
    using to_signed_wf[OF assms(1) k] assms(2,3) k by (cases k) (auto simp: iv_is_one_def)
qed

lemma from_signed_cong: "v mod 2 ^ w = u mod 2 ^ w \<Longrightarrow> from_signed w v = from_signed w u"
  by (intro iv_eqI) (simp_all add: ivalue_from_signed flip: of_nat_eq_iff[where 'a = int])

lemma neg_mod2: "width x = 1 \<Longrightarrow> from_signed 1 (- a) = from_signed 1 a"
proof (rule from_signed_cong)
  show "- a mod 2 ^ 1 = a mod 2 ^ 1" by (cases "even a") (auto simp: mod_2_eq_odd)
qed

section \<open>One constant operand\<close>

lemma eval_binary_arith:
  assumes "op \<in> arith_ops" "eval_binary op x y = Some z"
  shows "try_binary_op op x y = Some (Some z)"
  using assms by (cases op) (auto simp: eval_binary_def try_binary_op_def arith_ops_def bind_Some_iff split: option.splits)

lemma zero_operand:
  assumes ev: "eval_binary op x y = Some z" and wf: "iv_wf x" "iv_wf y" "width x = w" "width y = w"
  shows "op \<in> {OpAnd, OpSmul, OpUmul} \<Longrightarrow> iv_is_zero x \<or> iv_is_zero y \<Longrightarrow> z = iv_zero w"
    and "op \<in> {OpOr, OpXor, OpAdd, OpSub} \<Longrightarrow> iv_is_zero y \<Longrightarrow> z = x"
    and "op \<in> {OpOr, OpXor, OpAdd} \<Longrightarrow> iv_is_zero x \<Longrightarrow> z = y"
proof -
  have s0: "to_signed v = Some s \<Longrightarrow> ivalue v = 0 \<Longrightarrow> s = 0" for v s by (auto simp: to_signed_def split: if_splits)
  have fs0: "from_signed w 0 = iv_zero w"
    by (intro iv_eqI) (simp_all add: iv_zero_def flip: of_nat_eq_iff[where 'a = int] add: ivalue_from_signed)
  have fu0: "from_unsigned w 0 = iv_zero w" by (simp add: from_unsigned_def iv_zero_def)
  have sm: "v = iv_zero w" if s: "iv_smul x y = Some v" "ivalue x = 0 \<or> ivalue y = 0" for v
  proof -
    obtain a b where ab: "to_signed x = Some a" "to_signed y = Some b" "v = from_signed w (a * b)"
      using s(1) wf by (auto simp: iv_smul_def bind_Some_iff)
    then have "a * b = 0" using s(2) s0[OF ab(1)] s0[OF ab(2)] by auto
    then show ?thesis using ab(3) fs0 by auto
  qed
  { assume op: "op \<in> {OpAnd, OpSmul, OpUmul}" and "iv_is_zero x \<or> iv_is_zero y"
    then show "z = iv_zero w"
      using eval_binary_arith[OF _ ev] wf fu0 sm
      by (auto simp: arith_ops_def try_binary_op_def iv_and_def iv_umul_def iv_is_zero_def) }
  have sb: "v = x" if s: "iv_sub x y = Some v" "ivalue y = 0" for v
  proof -
    obtain a b where ab: "to_signed x = Some a" "to_signed y = Some b" "v = from_signed w (a - b)"
      using s(1) wf by (auto simp: iv_sub_def bind_Some_iff)
    then show ?thesis using s0[OF ab(2) s(2)] from_signed_to_signed[OF wf(1) ab(1)] wf(3) by simp
  qed
  { assume op: "op \<in> {OpOr, OpXor, OpAdd, OpSub}" and z: "iv_is_zero y"
    then show "z = x"
      using eval_binary_arith[OF _ ev] wf from_unsigned_same[OF wf(1,3)] sb
      by (auto simp: arith_ops_def try_binary_op_def iv_or_def iv_xor_def iv_add_def iv_is_zero_def) }
  { assume op: "op \<in> {OpOr, OpXor, OpAdd}" and z: "iv_is_zero x"
    then show "z = y"
      using eval_binary_arith[OF _ ev] wf from_unsigned_same[OF wf(2,4)]
      by (auto simp: arith_ops_def try_binary_op_def iv_or_def iv_xor_def iv_add_def iv_is_zero_def) }
qed

lemma smul_one:
  assumes "iv_smul x y = Some z" "iv_wf x" "iv_wf y" "width x = width y"
  shows "iv_is_one y \<Longrightarrow> z = x" and "iv_is_one x \<Longrightarrow> z = y"
proof -
  obtain a b where ab: "to_signed x = Some a" "to_signed y = Some b" "z = from_signed (width x) (a * b)"
    using assms(1) by (auto simp: iv_smul_def bind_Some_iff)
  note ra = to_signed_range(3)[OF assms(2) ab(1)] and rb = to_signed_range(3)[OF assms(3) ab(2)]
  have prod: "int (ivalue z) = (int (ivalue x) * int (ivalue y)) mod 2 ^ width x"
    unfolding ab(3) ivalue_from_signed using ra rb assms(4) mod_mult_eq[of a "2 ^ width x" b] by simp
  have lt: "int (ivalue x) < 2 ^ width x" "int (ivalue y) < 2 ^ width x"
    using assms(2-4) by (auto simp: iv_wf_def)
  have w: "width z = width x" using ab(3) by simp
  show "z = x" if "iv_is_one y" using prod that lt(1) w by (intro iv_eqI) (simp_all add: iv_is_one_def)
  show "z = y" if "iv_is_one x" using prod that lt(2) w assms(4) by (intro iv_eqI) (simp_all add: iv_is_one_def)
qed

lemma one_operand:
  assumes ev: "eval_binary op x y = Some z" and wf: "iv_wf x" "iv_wf y" "width x = w" "width y = w"
  shows "op \<in> {OpSmul, OpUmul} \<Longrightarrow> iv_is_one y \<Longrightarrow> z = x"
    and "op \<in> {OpSmul, OpUmul} \<Longrightarrow> iv_is_one x \<Longrightarrow> z = y"
proof -
  have e: "op \<in> {OpSmul, OpUmul} \<Longrightarrow> try_binary_op op x y = Some (Some z)"
    by (rule eval_binary_arith[OF _ ev]) (auto simp: arith_ops_def)
  show "z = x" if "op \<in> {OpSmul, OpUmul}" "iv_is_one y"
    using e that smul_one(1)[of x y z] wf from_unsigned_same[OF wf(1,3)]
    by (auto simp: try_binary_op_def iv_umul_def iv_is_one_def)
  show "z = y" if "op \<in> {OpSmul, OpUmul}" "iv_is_one x"
    using e that smul_one(2)[of x y z] wf from_unsigned_same[OF wf(2,4)]
    by (auto simp: try_binary_op_def iv_umul_def iv_is_one_def)
qed

lemma ones_operand:
  assumes ev: "eval_binary op x y = Some z" and wf: "iv_wf x" "iv_wf y" "width x = w" "width y = w"
  shows "op = OpOr \<Longrightarrow> iv_is_all_ones x \<or> iv_is_all_ones y \<Longrightarrow> z = iv_all_ones w"
    and "op = OpAnd \<Longrightarrow> iv_is_all_ones y \<Longrightarrow> z = x"
    and "op = OpAnd \<Longrightarrow> iv_is_all_ones x \<Longrightarrow> z = y"
    and "op = OpXor \<Longrightarrow> iv_is_all_ones y \<Longrightarrow> iv_not x = Some z"
    and "op = OpXor \<Longrightarrow> iv_is_all_ones x \<Longrightarrow> iv_not y = Some z"
proof -
  have e: "op \<in> {OpOr, OpAnd, OpXor} \<Longrightarrow> try_binary_op op x y = Some (Some z)"
    by (rule eval_binary_arith[OF _ ev]) (auto simp: arith_ops_def)
  note m = wf_and_mask wf_or_mask wf_xor_mask
  have all: "from_unsigned w (mask w) = iv_all_ones w"
    using from_unsigned_same[of "iv_all_ones w" w] by (simp add: all_ones_mask)
  have nt: "iv_wf v \<Longrightarrow> width v = w \<Longrightarrow> iv_not v = Some (from_unsigned w (mask w - ivalue v))" for v
    unfolding iv_not_def iv_wf_def mask_eq_exp_minus_1 by (auto simp: ensure_def Let_def)
  show "z = iv_all_ones w" if "op = OpOr" "iv_is_all_ones x \<or> iv_is_all_ones y"
    using e that wf m(2)[OF wf(1,3)] m(2)[OF wf(2,4)] ones_ivalue[of x w] ones_ivalue[of y w] all
    by (auto simp: try_binary_op_def iv_or_def or.commute)
  show "z = x" if "op = OpAnd" "iv_is_all_ones y"
    using e that wf m(1)[OF wf(1,3)] ones_ivalue[of y w] from_unsigned_same[OF wf(1,3)]
    by (auto simp: try_binary_op_def iv_and_def)
  show "z = y" if "op = OpAnd" "iv_is_all_ones x"
    using e that wf m(1)[OF wf(2,4)] ones_ivalue[of x w] from_unsigned_same[OF wf(2,4)]
    by (auto simp: try_binary_op_def iv_and_def and.commute)
  show "iv_not x = Some z" if "op = OpXor" "iv_is_all_ones y"
    using e that wf m(3)[OF wf(1,3)] ones_ivalue[of y w] nt[OF wf(1,3)] by (auto simp: try_binary_op_def iv_xor_def)
  show "iv_not y = Some z" if "op = OpXor" "iv_is_all_ones x"
    using e that wf m(3)[OF wf(2,4)] ones_ivalue[of x w] nt[OF wf(2,4)] by (auto simp: try_binary_op_def iv_xor_def xor.commute)
qed

lemma div_one:
  assumes ev: "eval_binary op x y = Some z" and wf: "iv_wf x" "iv_wf y" "width x = w" "width y = w" and one: "iv_is_one y"
  shows "op \<in> {OpSdiv, OpUdiv} \<Longrightarrow> z = x"
    and "op \<in> {OpSmod, OpUmod, OpSrem, OpUrem} \<Longrightarrow> z = iv_zero w"
proof -
  have fs0: "from_signed w 0 = iv_zero w"
    by (intro iv_eqI) (simp_all add: iv_zero_def flip: of_nat_eq_iff[where 'a = int] add: ivalue_from_signed)
  have fu0: "from_unsigned w 0 = iv_zero w" by (simp add: from_unsigned_def iv_zero_def)
  show "z = x" if op: "op \<in> {OpSdiv, OpUdiv}"
  proof -
    have e: "try_binary_op op x y = Some (Some z)" by (rule eval_binary_arith[OF _ ev]) (use op in \<open>auto simp: arith_ops_def\<close>)
    have "iv_sdiv x y = Some z \<Longrightarrow> z = x"
    proof -
      assume "iv_sdiv x y = Some z"
      then obtain a b where ab: "to_signed x = Some a" "to_signed y = Some b" "z = from_signed w (a sdiv b)"
        using wf by (auto simp: iv_sdiv_def bind_Some_iff)
      have "from_signed w a = x" using from_signed_to_signed[OF wf(1) ab(1)] wf by simp
      then show "z = x"
        using signed_of_one[OF wf(2) one ab(2)] ab(3) neg_mod2[of y a] wf by auto
    qed
    then show ?thesis
      using e op one from_unsigned_same[OF wf(1,3)] wf
      by (auto simp: try_binary_op_def iv_udiv_def iv_is_one_def)
  qed
  show "z = iv_zero w" if op: "op \<in> {OpSmod, OpUmod, OpSrem, OpUrem}"
  proof -
    have e: "try_binary_op op x y = Some (Some z)" by (rule eval_binary_arith[OF _ ev]) (use op in \<open>auto simp: arith_ops_def\<close>)
    have "z = iv_zero w" if r: "iv_smod x y = Some z \<or> iv_srem x y = Some z"
    proof -
      obtain a b where ab: "to_signed x = Some a" "to_signed y = Some b" using r
        by (auto simp: iv_smod_def iv_srem_def bind_Some_iff)
      have "a smod b = 0" using signed_of_one[OF wf(2) one ab(2)] by (auto simp: signed_modulo_int_def)
      then show ?thesis using r ab fs0 wf by (auto simp: iv_smod_def iv_srem_def bind_Some_iff Let_def)
    qed
    then show ?thesis
      using e op one fu0 wf by (auto simp: try_binary_op_def iv_umod_def iv_urem_def iv_is_one_def)
  qed
qed

section \<open>Slices\<close>

lemma insert_nothing:
  assumes "iv_insert_slice x off 0 v = Some y" "iv_wf x" "iv_wf v" "off \<le> width x"
  shows "y = x"
  using insert_slice_Some[OF assms(1)] bit_insert_slice[OF assms(1-3)] assms(4)
  by (intro int_value_bit_eqI) auto

lemma insert_everything:
  assumes "iv_insert_slice x off len v = Some y" "iv_wf x" "iv_wf v" "off + len \<le> width x" "len = width x"
  shows "y = v"
  using insert_slice_Some[OF assms(1)] bit_insert_slice[OF assms(1-4)] assms(4,5) wf_bit[OF assms(2)] wf_bit[OF assms(3)]
  by (intro int_value_bit_eqI) auto

lemma slice_everything: "slice xs off (length xs) = Some ys \<Longrightarrow> ys = xs"
  by (auto simp: slice_def split: if_splits)

lemma slice_set_everything: "slice_set xs off (length xs) ys = Some zs \<Longrightarrow> zs = ys"
  by (auto simp: slice_set_def split: if_splits)

lemma slice_set_nothing: "slice_set xs off 0 ys = Some zs \<Longrightarrow> zs = xs"
  by (auto simp: slice_set_def split: if_splits)

end
