(* ===== verification/FoldSteps.thy ===== *)
theory FoldSteps
  imports IntIdentities ConstFold
begin

text \<open>
  What constant folding may do to a unit: insert instructions that are well typed, and
  redirect uses to equal values. The relation \<open>step_ok\<close> collects what every such step
  preserves; it composes, and the functions of the instruction builder are steps.
\<close>

section \<open>Graphs of sound instructions\<close>

text \<open>Aggregates have the formats the builder gives them, instructions on data are well typed.\<close>

definition aggregate_format :: "inst_data \<Rightarrow> bool" where
  "aggregate_format d \<longleftrightarrow> (opcode_of d = OpArrayUniform \<longrightarrow> (\<exists>op n a. d = IArray op n a)) \<and>
     (opcode_of d \<in> {OpArray, OpStruct} \<longrightarrow> (\<exists>op as. d = IAggregate op as))"

definition sound_inst :: "(nat \<Rightarrow> ty option) \<Rightarrow> inst_data \<Rightarrow> ty \<Rightarrow> bool" where
  "sound_inst G d t \<longleftrightarrow> aggregate_format d \<and> built G d t \<and> (opcode_of d \<in> data_ops \<longrightarrow> typed G d t)"

definition sound_graph :: "data_flow_graph \<Rightarrow> bool" where
  "sound_graph g \<longleftrightarrow> (\<forall>v t i d. value_at g v = Some (VInst t i) \<longrightarrow> inst_at g i = Some d \<longrightarrow>
     sound_inst (value_type g) d t)"

lemma typed_cong:
  assumes "typed G d t" "\<forall>a \<in> set (args d). G a = G' a"
  shows "typed G' d t"
  using assms(1)
proof (cases rule: typed.cases)
  case (ty_struct fs)
  have "G' (args d ! k) = Some (fs ! k)" if "k < length fs" for k
  proof -
    have "args d ! k \<in> set (args d)" using that ty_struct(3) by simp
    then show ?thesis using assms(2) ty_struct(4) that by metis
  qed
  then show ?thesis using ty_struct by (auto intro: typed.ty_struct)
next
  case (ty_compare op a s b)
  then show ?thesis using assms(2) typed.ty_compare[of op G' a s b] by (simp add: args_def)
qed (use assms(2) in \<open>auto simp: args_def intro: typed.intros\<close>)

lemma built_cong: "built G d t \<Longrightarrow> \<forall>a \<in> set (args d). G a = G' a \<Longrightarrow> built G' d t"
  by (cases d) (auto simp: built_def args_def)

lemma sound_inst_cong: "sound_inst G d t \<Longrightarrow> \<forall>a \<in> set (args d). G a = G' a \<Longrightarrow> sound_inst G' d t"
  using typed_cong built_cong unfolding sound_inst_def by blast

lemma value_type_invalid: "dfg_wf g \<Longrightarrow> value_type g key_invalid = None"
  using dfg_wfD(3)[of g] by (simp add: value_type_def pt2_index_def idx_def key_invalid_def)

lemma value_type_mono:
  assumes "dfg_wf g" "dfg_wf g'" "value_at g \<subseteq>\<^sub>m value_at g'" "value_ok g v"
  shows "value_type g' v = value_type g v"
proof (cases "value_at g v")
  case None
  then show ?thesis using assms value_type_invalid by (auto simp: value_ok_def)
next
  case (Some d)
  then have "value_at g' v = Some d" using assms(3) by (auto simp: map_le_def dom_def)
  then show ?thesis using Some assms(1,2) by (simp add: value_type_vd)
qed

lemma data_value_type: "dfg_wf g \<Longrightarrow> value_at g v \<noteq> None \<Longrightarrow> data_value g v \<longleftrightarrow> (\<exists>t. value_type g v = Some t \<and> data_ty t)"
  by (cases "value_at g v") (auto simp: data_value_def value_type_vd)

section \<open>Steps\<close>

definition fold_inv :: "unit_builder \<Rightarrow> bool" where
  "fold_inv u \<longleftrightarrow> ready u \<and> sound_graph (dfg u)"

definition step_ok :: "nat \<Rightarrow> unit_builder \<Rightarrow> unit_builder \<Rightarrow> bool" where
  "step_ok k u u' \<longleftrightarrow> fold_inv u' \<and> value_at (dfg u) \<subseteq>\<^sub>m value_at (dfg u') \<and> live (dfg u) \<subseteq> live (dfg u') \<and>
     (\<forall>W env. models W (dfg u') env \<longrightarrow> models W (dfg u) env) \<and> grown k u u'"

lemma fold_inv_wf: "fold_inv u \<Longrightarrow> dfg_wf (dfg u)"
  by (simp add: fold_inv_def ready_wf)

lemma step_ok_refl: "fold_inv u \<Longrightarrow> step_ok 0 u u"
  by (simp add: step_ok_def grown_def)

lemma grown_trans: "grown k u v \<Longrightarrow> grown l v w \<Longrightarrow> grown (k + l) u w"
  by (auto simp: grown_def)

lemma step_ok_trans:
  assumes "step_ok k u v" "step_ok l v w"
  shows "step_ok (k + l) u w"
  using assms grown_trans[of k u v l w] map_le_trans[of "value_at (dfg u)" "value_at (dfg v)" "value_at (dfg w)"]
  unfolding step_ok_def by blast

lemma step_ok_room: "step_ok k u v \<Longrightarrow> room_for (k + n) u \<Longrightarrow> room_for n v"
  by (auto simp: step_ok_def intro: grown_room)

lemma step_ok_inv: "step_ok k u v \<Longrightarrow> fold_inv v"
  by (simp add: step_ok_def)

lemma step_ok_at: "step_ok k u v \<Longrightarrow> value_at (dfg u) r = Some d \<Longrightarrow> value_at (dfg v) r = Some d"
  by (auto simp: step_ok_def map_le_def dom_def)

lemma step_ok_type:
  assumes "step_ok k u v" "fold_inv u" "value_ok (dfg u) r"
  shows "value_type (dfg v) r = value_type (dfg u) r"
  using value_type_mono[OF fold_inv_wf[OF assms(2)] fold_inv_wf[OF step_ok_inv[OF assms(1)]] _ assms(3)] assms(1)
  by (simp add: step_ok_def)

lemma step_ok_value: "step_ok k u v \<Longrightarrow> value_ok (dfg u) r \<Longrightarrow> value_ok (dfg v) r"
  by (auto simp: step_ok_def value_ok_def map_le_def dom_def)

lemma step_ok_models: "step_ok k u v \<Longrightarrow> models W (dfg v) env \<Longrightarrow> models W (dfg u) env"
  by (simp add: step_ok_def)

lemma step_ok_data: "step_ok k u v \<Longrightarrow> data_value (dfg u) r \<Longrightarrow> data_value (dfg v) r"
  using step_ok_at unfolding data_value_def by blast

text \<open>Adding a sound instruction is a step.\<close>

lemma build_step:
  assumes inv: "fold_inv u" and rm: "room_for (Suc n) u" and lv: "\<forall>v \<in> set (args d). value_ok (dfg u) v"
    and res: "has_res d t" and snd: "sound_inst (value_type (dfg u)) d t"
  shows "\<exists>i r u'. ib_value (ib_build nm d t u) = Some (r, u') \<and> step_ok 1 u u' \<and>
    inst_at (dfg u') i = Some d \<and> value_at (dfg u') r = Some (VInst t i)"
proof -
  have rd: "ready u" using inv by (simp add: fold_inv_def)
  note wf = ready_wf[OF rd]
  obtain i u' where u': "ib_build nm d t u = Some (i, u')" "ready u'" "grown 1 u u'" "adds_inst d t (dfg u) i (dfg u')"
    using ib_build_exact[OF rd rm lv] by blast
  then obtain r where r: "inst_at (dfg u) i = None" "inst_at (dfg u') = (inst_at (dfg u))(i \<mapsto> d)"
    "inst_result (dfg u') i = Some r" "value_at (dfg u) r = None" "value_at (dfg u') = (value_at (dfg u))(r \<mapsto> VInst t i)"
    using res by (auto simp: adds_inst_def)
  note wf' = ready_wf[OF u'(2)]
  have le: "value_at (dfg u) \<subseteq>\<^sub>m value_at (dfg u')" using r(4,5) by (auto simp: map_le_def dom_def)
  have same: "value_type (dfg u) a = value_type (dfg u') a" if "value_ok (dfg u) a" for a
    using value_type_mono[OF wf wf' le that] by simp
  have "sound_graph (dfg u')"
    unfolding sound_graph_def
  proof (intro allI impI)
    fix v s j e
    assume at: "value_at (dfg u') v = Some (VInst s j)" "inst_at (dfg u') j = Some e"
    show "sound_inst (value_type (dfg u')) e s"
    proof (cases "j = i")
      case True
      then have "dresults (dfg u') i = Some v" using at(1) dfg_wfD(6)[OF wf'] by blast
      then have "v = r" using r(3) by (simp add: inst_result_def st_index_def)
      then have "s = t" "e = d" using at True r(2,5) by auto
      then show ?thesis using sound_inst_cong[OF snd] lv same by blast
    next
      case False
      then have old: "inst_at (dfg u) j = Some e" "value_at (dfg u) v = Some (VInst s j)"
        using at r(2,5) by (auto split: if_splits)
      then have "sound_inst (value_type (dfg u)) e s" using inv unfolding fold_inv_def sound_graph_def by blast
      then show ?thesis using sound_inst_cong same dfg_wfD(5)[OF wf old(1)] by blast
    qed
  qed
  then have "step_ok 1 u u'"
    using u'(2,3) le r(2) models_extends[OF adds_inst_extends[OF u'(4)]]
    by (auto simp: step_ok_def fold_inv_def live_def)
  moreover have "ib_value (ib_build nm d t u) = Some (r, u')" using u'(1) r(3) by (simp add: ib_value_def)
  ultimately show ?thesis using r(2,5) by auto
qed

lemma step_ok_more: "step_ok k u v \<Longrightarrow> k \<le> l \<Longrightarrow> step_ok l u v"
  by (auto simp: step_ok_def grown_def)

text \<open>\<open>r\<close> is the result of the instruction \<open>d\<close>.\<close>

definition computes :: "unit_builder \<Rightarrow> nat \<Rightarrow> ty \<Rightarrow> inst_data \<Rightarrow> bool" where
  "computes u r t d \<longleftrightarrow> (\<exists>i. value_at (dfg u) r = Some (VInst t i) \<and> inst_at (dfg u) i = Some d)"

lemma computes_type: "fold_inv u \<Longrightarrow> computes u r t d \<Longrightarrow> value_type (dfg u) r = Some t \<and> value_at (dfg u) r \<noteq> None"
  using value_type_vd[OF fold_inv_wf] by (auto simp: computes_def vd_type_def)

lemma computes_value:
  assumes "computes u r t d" "models W (dfg u) env" "data_ty t" "\<forall>a \<in> set (args d). data_value (dfg u) a \<and> a \<notin> W" "eval_inst env d = Some x"
  shows "env r = x"
  using assms modelsD(2)[OF assms(2)] unfolding computes_def by blast

lemma built_step:
  assumes "fold_inv u" "room_for (Suc n) u" "\<forall>v \<in> set (args d). value_ok (dfg u) v" "has_res d t"
    "sound_inst (value_type (dfg u)) d t"
  shows "\<exists>r u'. ib_value (ib_build nm d t u) = Some (r, u') \<and> step_ok 1 u u' \<and> computes u' r t d"
  using build_step[OF assms, of nm] unfolding computes_def by blast

section \<open>The instruction builder\<close>

lemma const_int_step:
  assumes "fold_inv u" "room_for (Suc n) u" "iv_wf k"
  shows "\<exists>r u'. ib_const_int nm k u = Some (r, u') \<and> step_ok 1 u u' \<and>
    computes u' r (IntType (width k)) (IConstInt OpConstInt k)"
  unfolding ib_const_int_def iv_ty_def
  by (rule built_step[OF assms(1,2)])
    (use assms(3) in \<open>simp_all add: args_def has_res_def sound_inst_def aggregate_format_def opcode_of_def built_def data_ops_def op_sets\<close>)

lemma const_time_step:
  assumes "fold_inv u" "room_for (Suc n) u"
  shows "\<exists>r u'. ib_const_time nm k u = Some (r, u') \<and> step_ok 1 u u' \<and> computes u' r TimeType (IConstTime OpConstTime k)"
  unfolding ib_const_time_def
  by (rule built_step[OF assms])
    (simp_all add: args_def has_res_def sound_inst_def aggregate_format_def opcode_of_def built_def data_ops_def op_sets)

lemma not_step:
  assumes "fold_inv u" "room_for (Suc n) u" "value_type (dfg u) a = Some (IntType w)" "value_ok (dfg u) a"
  shows "\<exists>r u'. ib_not nm a u = Some (r, u') \<and> step_ok 1 u u' \<and> computes u' r (IntType w) (IUnary OpNot a)"
proof -
  have "\<exists>r u'. ib_value (ib_build nm (IUnary OpNot a) (IntType w) u) = Some (r, u') \<and> step_ok 1 u u' \<and>
      computes u' r (IntType w) (IUnary OpNot a)"
    by (rule built_step[OF assms(1,2)])
      (use assms(3,4) in \<open>simp_all add: args_def has_res_def sound_inst_def aggregate_format_def opcode_of_def built_def typed_IUnary int_or_int_signal_def\<close>)
  then show ?thesis using assms(3) by (simp add: ib_not_def ib_value_type_def build_unary_def)
qed

lemma ext_field_step:
  assumes "fold_inv u" "room_for (Suc n) u" "value_type (dfg u) a = Some s" "value_ok (dfg u) a"
    "with_unpacked_sigptr s (ext_field_type k) = Some t" "t \<noteq> VoidType"
  shows "\<exists>r u'. ib_ext_field nm a k u = Some (r, u') \<and> step_ok 1 u u' \<and>
    computes u' r t (IInsExt OpExtField a key_invalid k 0)"
proof -
  have "\<not> ty_is_void t" using assms(6) by (cases t) auto
  then have "\<exists>r u'. ib_value (ib_build nm (IInsExt OpExtField a key_invalid k 0) t u) = Some (r, u') \<and> step_ok 1 u u' \<and>
      computes u' r t (IInsExt OpExtField a key_invalid k 0)"
    by (intro built_step[OF assms(1,2)])
      (use assms(3-5) in \<open>simp_all add: args_def has_res_def sound_inst_def aggregate_format_def opcode_of_def built_def typed_IInsExt\<close>)
  then show ?thesis using assms(3,5) by (simp add: ib_ext_field_def ib_value_type_def)
qed

lemma ext_slice_step:
  assumes "fold_inv u" "room_for (Suc n) u" "value_type (dfg u) a = Some s" "value_ok (dfg u) a"
    "slice_in off len s = Some t"
  shows "\<exists>r u'. ib_ext_slice nm a off len u = Some (r, u') \<and> step_ok 1 u u' \<and>
    computes u' r t (IInsExt OpExtSlice a key_invalid off len)"
proof -
  from assms(5) have s: "with_unpacked_sigptr s f = f s" "\<not> ty_is_void t" "ext_slice_type len s = Some t" for f
    by (cases rule: slice_ty_cases; simp add: with_unpacked_sigptr_def ext_slice_type_def)+
  have "\<exists>r u'. ib_value (ib_build nm (IInsExt OpExtSlice a key_invalid off len) t u) = Some (r, u') \<and> step_ok 1 u u' \<and>
      computes u' r t (IInsExt OpExtSlice a key_invalid off len)"
    by (intro built_step[OF assms(1,2)])
      (use assms(3-5) s in \<open>simp_all add: args_def has_res_def sound_inst_def aggregate_format_def opcode_of_def built_def typed_IInsExt\<close>)
  then show ?thesis using assms(3) s by (simp add: ib_ext_slice_def ib_value_type_def)
qed

lemma ins_slice_step:
  assumes "fold_inv u" "room_for (Suc n) u" "value_type (dfg u) a = Some t" "value_ok (dfg u) a"
    "slice_in off len t = Some f" "value_type (dfg u) b = Some f" "value_ok (dfg u) b"
  shows "\<exists>r u'. ib_ins_slice nm a b off len u = Some (r, u') \<and> step_ok 1 u u' \<and>
    computes u' r t (IInsExt OpInsSlice a b off len)"
proof -
  from assms(5) have s: "\<not> ty_is_void t" by (cases rule: slice_ty_cases) simp_all
  have "\<exists>r u'. ib_value (ib_build nm (IInsExt OpInsSlice a b off len) t u) = Some (r, u') \<and> step_ok 1 u u' \<and>
      computes u' r t (IInsExt OpInsSlice a b off len)"
    by (intro built_step[OF assms(1,2)])
      (use assms(3-7) s in \<open>simp_all add: args_def has_res_def sound_inst_def aggregate_format_def opcode_of_def built_def typed_IInsExt\<close>)
  then show ?thesis using assms(3) by (simp add: ib_ins_slice_def ib_value_type_def)
qed

text \<open>A zero of any type that has one, whatever instructions it takes.\<close>

definition zero_step :: "ty \<Rightarrow> unit_builder \<Rightarrow> nat \<Rightarrow> unit_builder \<Rightarrow> bool" where
  "zero_step t u r u' \<longleftrightarrow> step_ok (zero_insts t) u u' \<and> (\<exists>d. computes u' r t d \<and> opcode_of d \<in> {OpConstInt, OpConstTime, OpArrayUniform, OpStruct})"

lemma build_all_steps:
  assumes step: "\<And>t u r u' n. t \<in> set ts \<Longrightarrow> fold_inv u \<Longrightarrow> room_for (zero_insts t + n) u \<Longrightarrow>
      ib_const_zero None t u = Some (r, u') \<Longrightarrow> zero_step t u r u'"
    and "fold_inv u" "room_for (sum_list (map zero_insts ts) + n) u"
    and "build_all (\<lambda>t u. ib_const_zero None t u) ts u = Some (rs, u')"
  shows "step_ok (sum_list (map zero_insts ts)) u u' \<and> length rs = length ts \<and>
    (\<forall>k < length ts. value_type (dfg u') (rs ! k) = Some (ts ! k) \<and> value_at (dfg u') (rs ! k) \<noteq> None)"
  using assms
proof (induction ts arbitrary: u rs)
  case Nil
  then show ?case by (simp add: step_ok_refl)
next
  case (Cons t ts)
  obtain r u1 rs' where r: "ib_const_zero None t u = Some (r, u1)" "build_all (\<lambda>t u. ib_const_zero None t u) ts u1 = Some (rs', u')"
    "rs = r # rs'"
    using Cons.prems(4) by (auto split: option.splits)
  have room: "room_for (zero_insts t + (sum_list (map zero_insts ts) + n)) u" using Cons.prems(3) by (simp add: add.assoc)
  have z: "zero_step t u r u1" by (rule Cons.prems(1)[OF _ Cons.prems(2) room r(1)]) simp
  then obtain d where d: "step_ok (zero_insts t) u u1" "computes u1 r t d" by (auto simp: zero_step_def)
  note inv1 = step_ok_inv[OF d(1)]
  have ih: "step_ok (sum_list (map zero_insts ts)) u1 u' \<and> length rs' = length ts \<and>
    (\<forall>k < length ts. value_type (dfg u') (rs' ! k) = Some (ts ! k) \<and> value_at (dfg u') (rs' ! k) \<noteq> None)"
    by (rule Cons.IH[OF Cons.prems(1) inv1 step_ok_room[OF d(1) room] r(2)]) simp_all
  have "value_type (dfg u') r = Some t" "value_at (dfg u') r \<noteq> None"
    using computes_type[OF inv1 d(2)] step_ok_type[OF _ inv1, of "sum_list (map zero_insts ts)" u' r] ih step_ok_at
    by (fastforce simp: value_ok_def)+
  then show ?case
    using ih r(3) step_ok_trans[OF d(1), of "sum_list (map zero_insts ts)" u'] by (auto simp: nth_Cons split: nat.splits)
qed

lemma const_zero_step:
  "fold_inv u \<Longrightarrow> room_for (zero_insts t + n) u \<Longrightarrow> ib_const_zero nm t u = Some (r, u') \<Longrightarrow> zero_step t u r u'"
proof (induction t arbitrary: nm u n r u')
  case TimeType
  then show ?case using const_time_step[of u n nm time_zero] by (auto simp: zero_step_def opcode_of_def)
next
  case (IntType w)
  then show ?case using const_int_step[of u n "iv_zero w" nm] by (auto simp: zero_step_def opcode_of_def)
next
  case (ArrayType l t)
  obtain e u1 where e: "ib_const_zero None t u = Some (e, u1)" "ib_array_uniform nm l e u1 = Some (r, u')"
    using ArrayType.prems(3) by (auto split: option.splits)
  have room: "room_for (zero_insts t + Suc n) u" using ArrayType.prems(2) by simp
  have z: "zero_step t u e u1" by (rule ArrayType.IH[OF ArrayType.prems(1) room e(1)])
  then obtain d where d: "step_ok (zero_insts t) u u1" "computes u1 e t d" by (auto simp: zero_step_def)
  note inv1 = step_ok_inv[OF d(1)] and room1 = step_ok_room[OF d(1) room]
  note ty = computes_type[OF inv1 d(2)]
  let ?d = "IArray OpArrayUniform l e"
  obtain r2 u2 where b: "ib_value (ib_build nm ?d (ArrayType l t) u1) = Some (r2, u2)" "step_ok 1 u1 u2" "computes u2 r2 (ArrayType l t) ?d"
    using built_step[OF inv1 room1, of ?d "ArrayType l t" nm] ty
    by (auto simp: args_def has_res_def sound_inst_def aggregate_format_def opcode_of_def built_def data_ops_def op_sets value_ok_def)
  then have "r2 = r" "u2 = u'" using e(2) ty by (simp_all add: ib_array_uniform_def ib_value_type_def)
  then show ?case using b(2,3) step_ok_trans[OF d(1) b(2)] by (auto simp: zero_step_def opcode_of_def)
next
  case (StructType ts)
  obtain es u1 where e: "build_all (\<lambda>t u. ib_const_zero None t u) ts u = Some (es, u1)" "ib_strukt nm es u1 = Some (r, u')"
    using StructType.prems(3) by (auto split: option.splits)
  have room: "room_for (sum_list (map zero_insts ts) + Suc n) u" using StructType.prems(2) by simp
  have all: "step_ok (sum_list (map zero_insts ts)) u u1 \<and> length es = length ts \<and>
    (\<forall>k < length ts. value_type (dfg u1) (es ! k) = Some (ts ! k) \<and> value_at (dfg u1) (es ! k) \<noteq> None)"
    by (rule build_all_steps[OF _ StructType.prems(1) room e(1)]) (rule StructType.IH)
  then have d: "step_ok (sum_list (map zero_insts ts)) u u1" by simp
  note inv1 = step_ok_inv[OF d] and room1 = step_ok_room[OF d room]
  have ts: "mapM (ib_value_type u1) es = Some ts"
    using all by (auto simp: mapM_Some_iff list_all2_conv_all_nth ib_value_type_def)
  let ?d = "IAggregate OpStruct es"
  have so: "sound_inst (value_type (dfg u1)) ?d (StructType ts)"
    using all by (auto simp: sound_inst_def aggregate_format_def opcode_of_def built_def args_def opcode_of_def intro!: typed.ty_struct)
  have ok: "\<forall>v \<in> set (args ?d). value_ok (dfg u1) v"
    using all by (auto simp: args_def value_ok_def in_set_conv_nth)
  obtain r2 u2 where b: "ib_value (ib_build nm ?d (StructType ts) u1) = Some (r2, u2)" "step_ok 1 u1 u2" "computes u2 r2 (StructType ts) ?d"
    using built_step[OF inv1 room1 ok _ so, of nm] by (auto simp: has_res_def)
  then have "r2 = r" "u2 = u'" using e(2) ts by (simp_all add: ib_strukt_def)
  then show ?case using b(2,3) step_ok_trans[OF d b(2)] by (auto simp: zero_step_def opcode_of_def)
qed simp_all

end
