(* ===== verification/FoldSound.thy ===== *)
theory FoldSound
  imports FoldSteps
begin

text \<open>
  Soundness of the individual folds of \<^verbatim>\<open>src/src/pass/cf.rs\<close>: the replacement a fold
  returns has the value of the instruction in every valuation of the new graph.
\<close>

definition fold_ok :: "nat set \<Rightarrow> nat \<Rightarrow> unit_builder \<Rightarrow> inst_data \<Rightarrow> nat option \<Rightarrow> unit_builder \<Rightarrow> bool" where
  "fold_ok W k u d r u' \<longleftrightarrow> step_ok k u u' \<and> (\<forall>v. r = Some v \<longrightarrow> value_at (dfg u') v \<noteq> None \<and>
     (\<forall>env x. models W (dfg u') env \<longrightarrow> eval_inst env d = Some x \<longrightarrow> env v = x))"

lemma fold_ok_None [simp]: "fold_ok W k u d None u' \<longleftrightarrow> step_ok k u u'"
  by (simp add: fold_ok_def)

lemma fold_ok_same:
  assumes "fold_inv u" "value_at (dfg u) v \<noteq> None"
    and "\<And>env x. models W (dfg u) env \<Longrightarrow> eval_inst env d = Some x \<Longrightarrow> env v = x"
  shows "fold_ok W k u d (Some v) u"
  using assms step_ok_more[OF step_ok_refl[OF assms(1)], of k] by (auto simp: fold_ok_def)

lemma fold_none: "fold_inv u \<Longrightarrow> fold_ok W k u d None u"
  using step_ok_more[OF step_ok_refl, of u k] by simp

lemma const_value:
  assumes "fold_inv u" "value_at (dfg u) a \<noteq> None" "get_const_int (dfg u) a = Some (Some k)"
  shows "computes u a (IntType (width k)) (IConstInt OpConstInt k)" "iv_wf k"
    "models W (dfg u) env \<Longrightarrow> env a = IntVal k"
proof -
  note wf = fold_inv_wf[OF assms(1)]
  obtain vd where vd: "value_at (dfg u) a = Some vd" using assms(2) by blast
  then obtain t i where v: "value_at (dfg u) a = Some (VInst t i)"
    using assms(3) by (cases vd) (auto simp: get_const_int_def get_value_inst_def value_at_index[OF wf])
  then obtain d where d: "inst_at (dfg u) i = Some d" using dfg_wfD(6,7)[OF wf] by blast
  then have "inst_const_int d = Some k"
    using assms(3) v by (simp add: get_const_int_def get_value_inst_at[OF wf v] inst_at_index[OF wf d])
  then obtain op where op: "d = IConstInt op k" by (cases d) (auto simp: inst_const_int_def)
  have "sound_inst (value_type (dfg u)) d t" using assms(1) v d unfolding fold_inv_def sound_graph_def by blast
  then have s: "op = OpConstInt" "t = IntType (width k)" "iv_wf k" unfolding op by (auto simp: sound_inst_def built_def)
  show c: "computes u a (IntType (width k)) (IConstInt OpConstInt k)" using v d op s by (auto simp: computes_def)
  show "iv_wf k" by (rule s(3))
  show "env a = IntVal k" if "models W (dfg u) env"
    using computes_value[OF c that] by (simp add: args_def eval_inst_def)
qed

text \<open>A fold that inserts a constant or another instruction that computes the same.\<close>

lemma fold_new:
  assumes "step_ok k u u'" "computes u' r s e" "data_ty s" "\<forall>a \<in> set (args e). data_value (dfg u') a \<and> a \<notin> W"
    and "\<And>env x. models W (dfg u') env \<Longrightarrow> eval_inst env d = Some x \<Longrightarrow> eval_inst env e = Some x"
  shows "fold_ok W k u d (Some r) u'"
  using assms computes_type[OF step_ok_inv[OF assms(1)] assms(2)] computes_value[OF assms(2) _ assms(3,4)]
  unfolding fold_ok_def by blast

lemma fold_const:
  assumes "fold_inv u" "room_for (Suc n) u" "iv_wf k"
    and "replaced (ib_const_int None k u) = Some (r, u')"
    and "\<And>env x. models W (dfg u) env \<Longrightarrow> eval_inst env d = Some x \<Longrightarrow> x = IntVal k"
  shows "fold_ok W 1 u d r u'"
proof -
  obtain v where v: "r = Some v" "step_ok 1 u u'" "computes u' v (IntType (width k)) (IConstInt OpConstInt k)"
    using const_int_step[OF assms(1-3), of None] assms(4) by (auto simp: replaced_def)
  have "fold_ok W 1 u d (Some v) u'"
    by (rule fold_new[OF v(2,3)]) (use assms(5) step_ok_models[OF v(2)] in \<open>auto simp: args_def eval_inst_def\<close>)
  then show ?thesis using v(1) by simp
qed

section \<open>Unary and binary operations\<close>

lemma fold_unary_ok:
  assumes inv: "fold_inv u" and rm: "room_for (Suc n) u" and a: "value_at (dfg u) a \<noteq> None"
    and f: "fold_unary u op t a = Some (r, u')"
  shows "fold_ok W 1 u (IUnary op a) r u'"
proof -
  have "fold_ok W 1 u (IUnary op a) r u'" if i: "fold_unary_int u op a = Some (r, u')"
  proof -
    obtain imm where imm: "get_const_int (dfg u) a = Some imm" using i by (auto simp: fold_unary_int_def bind_Some_iff)
    show ?thesis
    proof (cases imm)
      case None
      then show ?thesis using i imm inv fold_none by (simp add: fold_unary_int_def)
    next
      case (Some k)
      note c = const_value[OF inv a imm[unfolded Some]]
      obtain q where q: "try_unary_op op k = Some q" using i imm Some by (auto simp: fold_unary_int_def bind_Some_iff)
      show ?thesis
      proof (cases q)
        case None
        then show ?thesis using i imm Some q inv fold_none by (simp add: fold_unary_int_def)
      next
        case (Some z)
        have "op \<noteq> OpAlias" using q Some by (auto simp: try_unary_op_def)
        then have e: "eval_inst env (IUnary op a) = Some (IntVal z)" if "models W (dfg u) env" for env
          using c(3)[OF that] q Some by (simp add: eval_inst_def unary_op_def)
        have rep: "replaced (ib_const_int None z u) = Some (r, u')"
          using i imm \<open>imm = Some k\<close> q Some by (simp add: fold_unary_int_def)
        show ?thesis
          by (rule fold_const[OF inv rm _ rep]) (use try_unary_op_wf[of op k z] q Some e in auto)
      qed
    qed
  qed
  then show ?thesis using f inv fold_none by (auto simp: fold_unary_def split: if_splits)
qed

text \<open>
  The three stages of a binary fold. \<open>sub_zero\<close> is the case that is folded wrongly: a
  constant zero on the left of a subtraction from an unknown value.
\<close>

definition sub_zero :: "unit_builder \<Rightarrow> inst_data \<Rightarrow> bool" where
  "sub_zero u d \<longleftrightarrow> (\<exists>a b k. d = IBinary OpSub a b \<and> get_const_int (dfg u) a = Some (Some k) \<and>
     iv_is_zero k \<and> get_const_int (dfg u) b = Some None)"

text \<open>The operands of an arithmetic instruction in a valuation.\<close>

lemma arith_operands:
  assumes inv: "fold_inv u" and live: "value_at (dfg u) a \<noteq> None" "value_at (dfg u) b \<noteq> None"
    and ty: "typed (value_type (dfg u)) (IBinary op a b) (IntType w)" and op: "op \<in> arith_ops"
    and m: "models W (dfg u) env" and ev: "eval_inst env (IBinary op a b) = Some x"
  obtains p q z where "env a = IntVal p" "env b = IntVal q" "x = IntVal z" "eval_binary op p q = Some z"
    "iv_wf p" "iv_wf q" "width p = w" "width q = w"
proof -
  have ab: "value_type (dfg u) a = Some (IntType w)" "value_type (dfg u) b = Some (IntType w)"
    using ty op by (auto simp: typed_IBinary opcode_of_def op_sets)
  have int: "has_ty (env v) (IntType w)" if "value_type (dfg u) v = Some (IntType w)" "value_at (dfg u) v \<noteq> None" for v
    using that modelsD(1)[OF m, of v _ "IntType w"] value_type_vd[OF fold_inv_wf[OF inv], of v] by auto
  then obtain p q where pq: "env a = IntVal p" "width p = w" "iv_wf p" "env b = IntVal q" "width q = w" "iv_wf q"
    using int[OF ab(1) live(1)] int[OF ab(2) live(2)] by (auto simp: has_ty_int)
  have "op \<noteq> OpMux" using op by (auto simp: arith_ops_def)
  then obtain z where "x = IntVal z" "eval_binary op p q = Some z" using ev pq by (auto simp: eval_inst_def)
  then show ?thesis using that pq by blast
qed

lemma fold_symmetric_ok:
  assumes inv: "fold_inv u" and rm: "room_for (Suc n) u" and live: "value_at (dfg u) a \<noteq> None" "value_at (dfg u) b \<noteq> None"
    and ty: "typed (value_type (dfg u)) (IBinary op a b) (IntType w)"
    and imm: "get_const_int (dfg u) a = Some i0" "get_const_int (dfg u) b = Some i1"
    and f: "fold_symmetric u op w i0 i1 a b = Some (Some (r, u'))"
    and nz: "\<not> sub_zero u (IBinary op a b)" and nw: "a \<notin> W" "b \<notin> W"
  shows "fold_ok W 1 u (IBinary op a b) r u'"
proof -
  let ?d = "IBinary op a b"
  obtain k v where kv: "(i0 = None \<and> i1 = Some k \<and> v = a) \<or> (i0 = Some k \<and> i1 = None \<and> v = b)"
    and body: "(if op \<in> {OpAnd, OpSmul, OpUmul} \<and> iv_is_zero k then Some (replaced (ib_const_int None (iv_zero w) u))
             else if op \<in> {OpOr, OpXor, OpAdd, OpSub} \<and> iv_is_zero k then Some (Some (Some v, u))
             else if op \<in> {OpSmul, OpUmul} \<and> iv_is_one k then Some (Some (Some v, u))
             else if op = OpOr \<and> iv_is_all_ones k then Some (replaced (ib_const_int None (iv_all_ones w) u))
             else if op = OpAnd \<and> iv_is_all_ones k then Some (Some (Some v, u))
             else if op = OpXor \<and> iv_is_all_ones k then Some (replaced (ib_not None v u))
             else None) = Some (Some (r, u'))"
    using f by (cases i0; cases i1) (auto simp: fold_symmetric_def Let_def)
  have op: "op \<in> arith_ops" using body by (auto simp: arith_ops_def split: if_splits)
  have ab: "value_type (dfg u) a = Some (IntType w)" "value_type (dfg u) b = Some (IntType w)"
    using ty op by (auto simp: typed_IBinary opcode_of_def op_sets)
  have vl: "value_at (dfg u) v \<noteq> None" "value_type (dfg u) v = Some (IntType w)" "v \<notin> W" using kv live ab nw by auto
  have sz: "op = OpSub \<Longrightarrow> iv_is_zero k \<Longrightarrow> i0 = None" using nz kv imm by (auto simp: sub_zero_def)
  text \<open>the value of the variable operand, on either side of the constant\<close>
  have sides: "\<exists>p z. x = IntVal z \<and> env v = IntVal p \<and> iv_wf p \<and> width p = w \<and> iv_wf k \<and> width k = w \<and>
      (i0 = None \<and> eval_binary op p k = Some z \<or> i1 = None \<and> eval_binary op k p = Some z)"
    if m: "models W (dfg u) env" and ev: "eval_inst env ?d = Some x" for env x
  proof -
    obtain p q z where o: "env a = IntVal p" "env b = IntVal q" "x = IntVal z" "eval_binary op p q = Some z"
      "iv_wf p" "iv_wf q" "width p = w" "width q = w"
      using arith_operands[OF inv live ty op m ev] by blast
    from kv show ?thesis
    proof (elim disjE conjE)
      assume s: "i0 = None" "i1 = Some k" "v = a"
      then have "q = k" using const_value(3)[OF inv live(2) _ m, of k] imm(2) o(2) by simp
      then show ?thesis using o s by auto
    next
      assume s: "i0 = Some k" "i1 = None" "v = b"
      then have "p = k" using const_value(3)[OF inv live(1) _ m, of k] imm(1) o(1) by simp
      then show ?thesis using o s by auto
    qed
  qed
  have same: "fold_ok W 1 u ?d (Some v) u"
    if c: "op \<in> {OpOr, OpXor, OpAdd, OpSub} \<and> iv_is_zero k \<or> op \<in> {OpSmul, OpUmul} \<and> iv_is_one k \<or> op = OpAnd \<and> iv_is_all_ones k"
  proof (rule fold_ok_same[OF inv vl(1)])
    fix env x assume "models W (dfg u) env" "eval_inst env ?d = Some x"
    from sides[OF this] obtain p z where s: "x = IntVal z" "env v = IntVal p" "iv_wf p" "width p = w" "iv_wf k" "width k = w"
      "i0 = None \<and> eval_binary op p k = Some z \<or> i1 = None \<and> eval_binary op k p = Some z" by blast
    from s(7) have "z = p"
    proof
      assume e: "i0 = None \<and> eval_binary op p k = Some z"
      then show ?thesis using c zero_operand(2)[of op p k z w] one_operand(1)[of op p k z w] ones_operand(2)[of op p k z w] s by blast
    next
      assume e: "i1 = None \<and> eval_binary op k p = Some z"
      then have "i0 \<noteq> None" using kv by auto
      then have "\<not> (op = OpSub \<and> iv_is_zero k)" using sz by blast
      then show ?thesis using e c zero_operand(3)[of op k p z w] one_operand(2)[of op k p z w] ones_operand(3)[of op k p z w] s by auto
    qed
    then show "env v = x" using s by simp
  qed
  have zero: "fold_ok W 1 u ?d r u'" if c: "op \<in> {OpAnd, OpSmul, OpUmul}" "iv_is_zero k"
    and rep: "replaced (ib_const_int None (iv_zero w) u) = Some (r, u')"
    by (rule fold_const[OF inv rm _ rep]) (use sides zero_operand(1) c in \<open>fastforce+\<close>)
  have ones: "fold_ok W 1 u ?d r u'" if c: "op = OpOr" "iv_is_all_ones k"
    and rep: "replaced (ib_const_int None (iv_all_ones w) u) = Some (r, u')"
    by (rule fold_const[OF inv rm _ rep]) (use sides ones_operand(1) c in \<open>fastforce+\<close>)
  have nott: "fold_ok W 1 u ?d r u'" if c: "op = OpXor" "iv_is_all_ones k" and rep: "replaced (ib_not None v u) = Some (r, u')"
  proof -
    have vo: "value_ok (dfg u) v" using vl by (simp add: value_ok_def)
    obtain y where y: "r = Some y" "step_ok 1 u u'" "computes u' y (IntType w) (IUnary OpNot v)"
      using not_step[OF inv rm vl(2) vo, of None] rep by (auto simp: replaced_def)
    have dv: "data_value (dfg u') v"
      by (rule step_ok_data[OF y(2)]) (use data_value_type[OF fold_inv_wf[OF inv] vl(1)] vl(2) in simp)
    have "fold_ok W 1 u ?d (Some y) u'"
    proof (rule fold_new[OF y(2,3)])
      fix env x assume m: "models W (dfg u') env" and e: "eval_inst env ?d = Some x"
      from sides[OF step_ok_models[OF y(2) m] e] obtain p z where s: "x = IntVal z" "env v = IntVal p" "iv_wf p" "width p = w"
        "iv_wf k" "width k = w" "eval_binary op p k = Some z \<or> eval_binary op k p = Some z" by blast
      then have "iv_not p = Some z" using c ones_operand(4)[of op p k z w] ones_operand(5)[of op k p z w] by blast
      then show "eval_inst env (IUnary OpNot v) = Some x" using s by (simp add: eval_inst_def unary_op_def try_unary_op_def)
    qed (use dv vl(3) in \<open>simp_all add: args_def\<close>)
    then show ?thesis using y(1) by simp
  qed
  show ?thesis using body same zero ones nott by (auto split: if_splits)
qed

lemma fold_asymmetric_ok:
  assumes inv: "fold_inv u" and rm: "room_for (Suc n) u" and live: "value_at (dfg u) a \<noteq> None" "value_at (dfg u) b \<noteq> None"
    and ty: "typed (value_type (dfg u)) (IBinary op a b) (IntType w)"
    and imm: "get_const_int (dfg u) b = Some i1"
    and f: "fold_asymmetric u op w i0 i1 a = Some (Some (r, u'))"
  shows "fold_ok W 1 u (IBinary op a b) r u'"
proof -
  let ?d = "IBinary op a b"
  obtain k where k: "i1 = Some k"
    and body: "(if op \<in> {OpSdiv, OpUdiv} \<and> iv_is_one k then Some (Some (Some a, u))
             else if op \<in> {OpSmod, OpUmod, OpSrem, OpUrem} \<and> iv_is_one k then Some (replaced (ib_const_int None (iv_zero w) u))
             else None) = Some (Some (r, u'))"
    using f by (cases i0; cases i1) (auto simp: fold_asymmetric_def Let_def)
  have op: "op \<in> arith_ops" using body by (auto simp: arith_ops_def split: if_splits)
  have side: "\<exists>p z. x = IntVal z \<and> env a = IntVal p \<and> iv_wf p \<and> width p = w \<and> iv_wf k \<and> width k = w \<and> eval_binary op p k = Some z"
    if m: "models W (dfg u) env" and ev: "eval_inst env ?d = Some x" for env x
  proof -
    obtain p q z where o: "env a = IntVal p" "env b = IntVal q" "x = IntVal z" "eval_binary op p q = Some z"
      "iv_wf p" "iv_wf q" "width p = w" "width q = w"
      using arith_operands[OF inv live ty op m ev] by blast
    then have "q = k" using const_value(3)[OF inv live(2) _ m, of k] imm k by simp
    then show ?thesis using o by auto
  qed
  have same: "fold_ok W 1 u ?d (Some a) u" if c: "op \<in> {OpSdiv, OpUdiv} \<and> iv_is_one k"
  proof (rule fold_ok_same[OF inv live(1)])
    fix env x assume "models W (dfg u) env" "eval_inst env ?d = Some x"
    from side[OF this] obtain p z where s: "x = IntVal z" "env a = IntVal p" "iv_wf p" "width p = w" "iv_wf k" "width k = w"
      "eval_binary op p k = Some z" by blast
    then show "env a = x" using div_one(1)[of op p k z w] c by auto
  qed
  have zero: "fold_ok W 1 u ?d r u'" if c: "op \<in> {OpSmod, OpUmod, OpSrem, OpUrem}" "iv_is_one k"
    and rep: "replaced (ib_const_int None (iv_zero w) u) = Some (r, u')"
    by (rule fold_const[OF inv rm _ rep]) (use side div_one(2) c in \<open>fastforce+\<close>)
  show ?thesis using body same zero by (auto split: if_splits)
qed

lemma fold_full_ok:
  assumes inv: "fold_inv u" and rm: "room_for (Suc n) u" and live: "value_at (dfg u) a \<noteq> None" "value_at (dfg u) b \<noteq> None"
    and imm: "get_const_int (dfg u) a = Some i0" "get_const_int (dfg u) b = Some i1" and op: "op \<noteq> OpMux"
    and f: "fold_full u op i0 i1 = Some (r, u')"
  shows "fold_ok W 1 u (IBinary op a b) r u'"
proof (cases "\<exists>p q. i0 = Some p \<and> i1 = Some q")
  case False
  then show ?thesis using f inv fold_none by (auto simp: fold_full_def split: option.splits)
next
  case True
  then obtain p q where pq: "i0 = Some p" "i1 = Some q" by blast
  note cp = const_value[OF inv live(1) imm(1)[unfolded pq]] and cq = const_value[OF inv live(2) imm(2)[unfolded pq]]
  obtain b2 c where b2: "try_binary_op op p q = Some b2" "(case b2 of Some r \<Rightarrow> Some (Some r) | None \<Rightarrow> try_compare_op op p q) = Some c"
    using f pq by (auto simp: fold_full_def bind_Some_iff)
  show ?thesis
  proof (cases c)
    case None
    then show ?thesis using f pq b2 inv fold_none by (simp add: fold_full_def)
  next
    case (Some z)
    then have rep: "replaced (ib_const_int None z u) = Some (r, u')" using f pq b2 by (simp add: fold_full_def)
    have e: "eval_binary op p q = Some z"
      using b2 Some by (auto simp: eval_binary_def compare_op_def split: option.splits)
    have ez: "eval_inst env (IBinary op a b) = Some (IntVal z)" if "models W (dfg u) env" for env
      using cp(3)[OF that] cq(3)[OF that] e op by (simp add: eval_inst_def)
    show ?thesis
      by (rule fold_const[OF inv rm _ rep]) (use eval_binary_wf[OF e] ez in auto)
  qed
qed

lemma fold_binary_ok:
  assumes inv: "fold_inv u" and rm: "room_for (Suc n) u" and live: "value_at (dfg u) a \<noteq> None" "value_at (dfg u) b \<noteq> None"
    and ty: "opcode_of (IBinary op a b) \<in> data_ops \<longrightarrow> typed (value_type (dfg u)) (IBinary op a b) t"
    and op: "op \<noteq> OpMux" and nz: "\<not> sub_zero u (IBinary op a b)" and nw: "a \<notin> W" "b \<notin> W"
    and f: "fold_binary u op t a b = Some (r, u')"
  shows "fold_ok W 1 u (IBinary op a b) r u'"
proof (cases "ty_is_int t")
  case False
  then show ?thesis using f inv fold_none by (simp add: fold_binary_def)
next
  case True
  then obtain w where w: "t = IntType w" by (cases t) auto
  obtain i0 i1 where i: "get_const_int (dfg u) a = Some i0" "get_const_int (dfg u) b = Some i1"
    and body: "(case fold_symmetric u op w i0 i1 a b of Some r \<Rightarrow> r
        | None \<Rightarrow> (case fold_asymmetric u op w i0 i1 a of Some r \<Rightarrow> r | None \<Rightarrow> fold_full u op i0 i1)) = Some (r, u')"
    using f w by (auto simp: fold_binary_def fold_binary_int_def bind_Some_iff)
  have tt: "op \<in> arith_ops \<Longrightarrow> typed (value_type (dfg u)) (IBinary op a b) (IntType w)"
    using ty w by (auto simp: opcode_of_def data_ops_def)
  have ops: "fold_symmetric u op w i0 i1 a b = Some q \<Longrightarrow> op \<in> arith_ops"
    "fold_asymmetric u op w i0 i1 a = Some q \<Longrightarrow> op \<in> arith_ops" for q
    by (auto simp: fold_symmetric_def fold_asymmetric_def arith_ops_def Let_def split: option.splits prod.splits if_splits)
  show ?thesis
  proof (cases "fold_symmetric u op w i0 i1 a b")
    case (Some q)
    then show ?thesis using fold_symmetric_ok[OF inv rm live tt i _ nz nw] ops body by auto
  next
    case sym: None
    show ?thesis
    proof (cases "fold_asymmetric u op w i0 i1 a")
      case (Some q)
      then show ?thesis using fold_asymmetric_ok[OF inv rm live tt i(2)] ops sym body by auto
    next
      case None
      then show ?thesis using fold_full_ok[OF inv rm live i op] sym body by auto
    qed
  qed
qed

end
