(* ===== verification/SliceSound.thy ===== *)
theory SliceSound
  imports FoldSound
begin

text \<open>
  Soundness of the folds of slices, fields and multiplexers.
\<close>

lemma data_at:
  assumes "fold_inv u" "data_value (dfg u) a"
  shows "value_at (dfg u) a \<noteq> None" "value_ok (dfg u) a"
    and "value_type (dfg u) a = Some s \<Longrightarrow> data_ty s \<and> (models W (dfg u) env \<longrightarrow> has_ty (env a) s)"
proof -
  obtain d t where d: "value_at (dfg u) a = Some d" "vd_type d = Some t" "data_ty t"
    using assms(2) by (auto simp: data_value_def)
  then show "value_at (dfg u) a \<noteq> None" "value_ok (dfg u) a" by (simp_all add: value_ok_def)
  show "value_type (dfg u) a = Some s \<Longrightarrow> data_ty s \<and> (models W (dfg u) env \<longrightarrow> has_ty (env a) s)"
    using d value_type_vd[OF fold_inv_wf[OF assms(1)] d(1)] modelsD(1)[of W "dfg u" env a d t] by auto
qed

lemma inst_index: "fold_inv u \<Longrightarrow> inst_at (dfg u) i = Some d \<Longrightarrow> pt2_index (dinsts (dfg u)) i = Some d"
  using inst_at_index[OF fold_inv_wf] .

lemma fold_ins_slice_ok:
  assumes inv: "fold_inv u" and rm: "room_for (Suc n) u" and i: "inst_at (dfg u) i = Some d"
    and d: "d = IInsExt OpInsSlice a b off len"
    and ty: "typed (value_type (dfg u)) d t" and dv: "data_value (dfg u) a" "data_value (dfg u) b"
    and f: "fold_ins_slice u i = Some (r, u')"
  shows "fold_ok W 1 u d r u'"
proof -
  have at: "pt2_index (dinsts (dfg u)) i = Some d" by (rule inst_index[OF inv i])
  have io: "idx (args d) 0 = Some a" "idx (args d) 1 = Some b" "idx (imms d) 1 = Some len" "idx (imms d) 0 = Some off"
    unfolding d by (simp_all add: args_def imms_def idx_def)
  obtain s where s: "value_type (dfg u) a = Some t" "slice_in off len t = Some s" "value_type (dfg u) b = Some s"
    using ty unfolding d by (auto simp: typed_IInsExt opcode_of_def)
  have ht: "has_ty (env a) t" "has_ty (env b) s" if "models W (dfg u) env" for env
    using data_at(3)[OF inv dv(1) s(1)] data_at(3)[OF inv dv(2) s(3)] that by auto
  have ev: "eval_inst env d = eval_ins_slice (env a) (env b) off len" for env unfolding d by (simp add: eval_inst_def)
  have tk: "ty_is_int t \<or> ty_is_array t" "off + len \<le> ty_len t" using s(2) by (cases rule: slice_ty_cases; simp)+
  have keeps: "env a = x" if "len = 0" "models W (dfg u) env" "eval_inst env d = Some x" for env x
    using s(2)
  proof (cases rule: slice_ty_cases)
    case (1 w)
    then show ?thesis using ht[OF that(2)] that(1,3) tk(2) unfolding ev
      by (auto simp: has_ty_int eval_ins_slice_def dest!: insert_nothing)
  next
    case (2 m e)
    then show ?thesis using ht[OF that(2)] that(1,3) unfolding ev
      by (auto simp: has_ty_array eval_ins_slice_def array_insert_slice_def bind_Some_iff dest!: slice_set_nothing)
  qed
  have everything: "env b = x" if L: "len = ty_len t" and M: "models W (dfg u) env" and E: "eval_inst env d = Some x" for env x
    using s(2)
  proof (cases rule: slice_ty_cases)
    case (1 w)
    then obtain y z q where r: "env a = IntVal y" "env b = IntVal z" "width y = w" "iv_wf y" "iv_wf z"
      "iv_insert_slice y off len z = Some q" "x = IntVal q"
      using ht[OF M] E unfolding ev by (auto simp: has_ty_int eval_ins_slice_def split: if_splits)
    then show ?thesis using insert_everything[OF r(6,4,5)] 1 L by simp
  next
    case (2 m e)
    then show ?thesis using ht[OF M] L E unfolding ev
      by (auto simp: has_ty_array eval_ins_slice_def array_insert_slice_def bind_Some_iff dest!: slice_set_everything)
  qed
  show ?thesis
  proof (cases "len = 0 \<or> len = ty_len t")
    case True
    then consider "len = 0" "r = Some a" "u' = u" | "len = ty_len t" "r = Some b" "u' = u"
      using f tk(1) by (auto simp: fold_ins_slice_def at io s(1) simp del: One_nat_def split: if_splits)
    then show ?thesis
    proof cases
      case 1
      have "env a = y" if "models W (dfg u) env" "eval_inst env d = Some y" for env y
        by (rule keeps[OF 1(1) that])
      then show ?thesis unfolding 1(2,3) by (intro fold_ok_same[OF inv data_at(1)[OF inv dv(1)]])
    next
      case 2
      have "env b = y" if "models W (dfg u) env" "eval_inst env d = Some y" for env y
        by (rule everything[OF 2(1) that])
      then show ?thesis unfolding 2(2,3) by (intro fold_ok_same[OF inv data_at(1)[OF inv dv(2)]])
    qed
  next
    case False
    obtain ti vi where c: "get_const_int (dfg u) a = Some ti" "get_const_int (dfg u) b = Some vi"
      and body: "(case (ti, vi) of (Some ti, Some vi) \<Rightarrow> idx (imms d) 0 \<bind> (\<lambda>off. iv_insert_slice ti off len vi \<bind> (\<lambda>r. replaced (ib_const_int None r u)))
         | _ \<Rightarrow> Some (None, u)) = Some (r, u')"
      using f False by (auto simp: fold_ins_slice_def at io s(1) bind_Some_iff simp del: One_nat_def split: if_splits)
    show ?thesis
    proof (cases "\<exists>x y. ti = Some x \<and> vi = Some y")
      case False
      then have "r = None" "u' = u" using body by (auto split: option.splits)
      then show ?thesis using fold_none[OF inv] by simp
    next
      case True
      then obtain x y q where xy: "ti = Some x" "vi = Some y" "iv_insert_slice x off len y = Some q"
        and rep: "replaced (ib_const_int None q u) = Some (r, u')"
        using body io(4) by (auto simp: bind_Some_iff)
      note cx = const_value[OF inv data_at(1)[OF inv dv(1)] c(1)[unfolded xy]]
      note cy = const_value[OF inv data_at(1)[OF inv dv(2)] c(2)[unfolded xy]]
      have t: "t = IntType (width x)" using computes_type[OF inv cx(1)] s(1) by simp
      have wf: "iv_wf q" using wf_insert_slice[OF xy(3) cx(2) cy(2)] tk(2) t by simp
      show ?thesis
      proof (rule fold_const[OF inv rm wf rep])
        fix env z assume m: "models W (dfg u) env" and e: "eval_inst env d = Some z"
        then show "z = IntVal q" using cx(3)[OF m] cy(3)[OF m] xy(3) unfolding ev by (auto simp: eval_ins_slice_def split: if_splits)
      qed
    qed
  qed
qed

lemma fold_ext_slice_ok:
  assumes inv: "fold_inv u" and rm: "room_for (Suc (zero_insts t) + n) u" and i: "inst_at (dfg u) i = Some d"
    and it: "inst_type (dfg u) i = Some t"
    and d: "d = IInsExt OpExtSlice a b off len"
    and ty: "typed (value_type (dfg u)) d t" and dt: "data_ty t" and dv: "data_value (dfg u) a"
    and f: "fold_ext_slice u i = Some (r, u')"
  shows "fold_ok W (Suc (zero_insts t)) u d r u'"
proof -
  have at: "pt2_index (dinsts (dfg u)) i = Some d" by (rule inst_index[OF inv i])
  have io: "idx (args d) 0 = Some a" "idx (imms d) 1 = Some len" "idx (imms d) 0 = Some off"
    unfolding d by (simp_all add: args_def imms_def idx_def)
  obtain s where s: "value_type (dfg u) a = Some s" "with_unpacked_sigptr s (slice_in off len) = Some t"
    using ty unfolding d by (auto simp: typed_IInsExt opcode_of_def)
  have sl: "slice_in off len s = Some t" using s data_with_unpacked data_at(3)[OF inv dv s(1)] by simp
  have ht: "has_ty (env a) s" if "models W (dfg u) env" for env using data_at(3)[OF inv dv s(1)] that by auto
  have ev: "eval_inst env d = eval_ext_slice (env a) off len" for env unfolding d by (simp add: eval_inst_def)
  have tk: "ty_is_int s \<or> ty_is_array s" "off + len \<le> ty_len s" using sl by (cases rule: slice_ty_cases; simp)+
  consider "len = 0" | "len \<noteq> 0" "len = ty_len s" | "len \<noteq> 0" "len \<noteq> ty_len s" by blast
  then show ?thesis
  proof cases
    case 1
    then obtain v where v: "ib_const_zero None t u = Some (v, u')" "r = Some v"
      using f tk(1) by (auto simp: fold_ext_slice_def at io it s(1) replaced_def simp del: One_nat_def)
    have rm': "room_for (zero_insts t + Suc n) u" using rm by simp
    obtain e where e: "step_ok (zero_insts t) u u'" "computes u' v t e"
      using const_zero_step[OF inv rm' v(1)] by (auto simp: zero_step_def)
    note inv' = step_ok_inv[OF e(1)]
    have vt: "value_type (dfg u') v = Some t" "value_at (dfg u') v \<noteq> None" using computes_type[OF inv' e(2)] by auto
    have dvv: "data_value (dfg u') v" using data_value_type[OF fold_inv_wf[OF inv'] vt(2)] vt(1) dt by simp
    have "env v = x" if m: "models W (dfg u') env" and ex: "eval_inst env d = Some x" for env x
    proof -
      have hv: "has_ty (env v) t" using data_at(3)[OF inv' dvv vt(1)] m by blast
      have ha: "has_ty (env a) s" using ht step_ok_models[OF e(1) m] .
      from sl show ?thesis
      proof (cases rule: slice_ty_cases)
        case (1 w)
        then show ?thesis using hv ha ex \<open>len = 0\<close> unfolding ev
          by (auto simp: has_ty_int eval_ext_slice_def iv_wf_def iv_extract_slice_def from_unsigned_def split: if_splits intro!: iv_eqI)
      next
        case (2 m e)
        then show ?thesis using hv ha ex \<open>len = 0\<close> unfolding ev
          by (auto simp: has_ty_array eval_ext_slice_def array_extract_slice_def slice_def split: if_splits)
      qed
    qed
    then have "fold_ok W (zero_insts t) u d r u'" using e(1) v(2) vt(2) by (auto simp: fold_ok_def)
    then show ?thesis using step_ok_more[of "zero_insts t" u u' "Suc (zero_insts t)"] by (simp add: fold_ok_def)
  next
    case 2
    then have r: "r = Some a" "u' = u"
      using f tk(1) by (auto simp: fold_ext_slice_def at io it s(1) simp del: One_nat_def split: if_splits)
    have "env a = x" if m: "models W (dfg u) env" and ex: "eval_inst env d = Some x" for env x
      using sl
    proof (cases rule: slice_ty_cases)
      case (1 w)
      then show ?thesis using ht[OF m] ex 2(2) extract_whole unfolding ev
        by (auto simp: has_ty_int eval_ext_slice_def split: if_splits)
    next
      case (2 m e)
      then show ?thesis using ht[OF m] ex \<open>len = ty_len s\<close> unfolding ev
        by (auto simp: has_ty_array eval_ext_slice_def array_extract_slice_def dest!: slice_everything)
    qed
    then show ?thesis using fold_ok_same[OF inv data_at(1)[OF inv dv]] r by blast
  next
    case 3
    obtain ti where c: "get_const_int (dfg u) a = Some ti"
      and body: "(case ti of Some imm \<Rightarrow> idx (imms d) 0 \<bind> (\<lambda>off. replaced (ib_const_int None (iv_extract_slice imm off len) u)) | None \<Rightarrow> Some (None, u)) = Some (r, u')"
      using f 3 by (auto simp: fold_ext_slice_def at io it s(1) bind_Some_iff simp del: One_nat_def split: option.splits)
    show ?thesis
    proof (cases ti)
      case None
      then show ?thesis using body fold_none[OF inv] by auto
    next
      case (Some x)
      note cx = const_value[OF inv data_at(1)[OF inv dv] c[unfolded Some]]
      have rep: "replaced (ib_const_int None (iv_extract_slice x off len) u) = Some (r, u')" using body Some io(3) by simp
      have rm1: "room_for (Suc (zero_insts t + n)) u" using rm by simp
      have "fold_ok W 1 u d r u'"
      proof (rule fold_const[OF inv rm1 _ rep])
        fix env z assume m: "models W (dfg u) env" and e: "eval_inst env d = Some z"
        then show "z = IntVal (iv_extract_slice x off len)"
          using cx(3)[OF m] unfolding ev by (auto simp: eval_ext_slice_def split: if_splits)
      qed simp
      then show ?thesis using step_ok_more[of 1 u u' "Suc (zero_insts t)"] by (simp add: fold_ok_def)
    qed
  qed
qed

section \<open>Fields and multiplexers\<close>

text \<open>The aggregate an instruction builds, in every valuation of the graph.\<close>

lemma value_ok_type: "fold_inv u \<Longrightarrow> value_ok (dfg u) v \<Longrightarrow> value_type (dfg u) v = Some t \<Longrightarrow> value_at (dfg u) v \<noteq> None"
  using value_type_invalid[OF fold_inv_wf] by (auto simp: value_ok_def)

lemma data_valueI:
  "fold_inv u \<Longrightarrow> value_ok (dfg u) v \<Longrightarrow> value_type (dfg u) v = Some t \<Longrightarrow> data_ty t \<Longrightarrow> data_value (dfg u) v"
  using value_ok_type data_value_type[OF fold_inv_wf] by blast

lemma aggregate_operands:
  assumes inv: "fold_inv u" and a: "value_at (dfg u) a = Some (VInst s i)" and d: "inst_at (dfg u) i = Some d"
    and dt: "data_ty s" and op: "opcode_of d \<in> {OpArrayUniform, OpArray, OpStruct}"
  shows "(\<forall>x \<in> set (args d). value_at (dfg u) x \<noteq> None) \<and>
    (\<forall>env x. set (args d) \<inter> W = {} \<longrightarrow> models W (dfg u) env \<longrightarrow> eval_inst env d = Some x \<longrightarrow> env a = x)"
proof -
  have snd: "aggregate_format d" "built (value_type (dfg u)) d s"
    "opcode_of d \<in> data_ops \<Longrightarrow> typed (value_type (dfg u)) d s"
    using inv a d unfolding fold_inv_def sound_graph_def sound_inst_def by blast+
  have "\<exists>t. value_type (dfg u) x = Some t \<and> data_ty t" if x: "x \<in> set (args d)" for x
  proof -
    consider "opcode_of d = OpArrayUniform" | "opcode_of d = OpArray" | "opcode_of d = OpStruct" using op by blast
    then show ?thesis
    proof cases
      case 1
      then obtain o2 n e where "d = IArray o2 n e" using snd(1) by (auto simp: aggregate_format_def)
      then show ?thesis using snd(2) x dt by (auto simp: built_def args_def)
    next
      case 2
      then have "typed (value_type (dfg u)) d s" using snd(3) by (simp add: data_ops_def)
      then show ?thesis using 2 x dt by (cases rule: typed.cases) (auto simp: opcode_of_def op_sets)
    next
      case 3
      then have ty: "typed (value_type (dfg u)) d s" using snd(3) by (simp add: data_ops_def)
      obtain o2 as where as: "d = IAggregate o2 as" "o2 = OpStruct"
        using 3 snd(1) by (auto simp: aggregate_format_def opcode_of_def)
      obtain fs where fs: "s = StructType fs" "length fs = length as" using snd(2) as by (auto simp: built_def)
      have at: "\<forall>k < length fs. value_type (dfg u) (args d ! k) = Some (fs ! k)"
        using ty 3 fs by (cases rule: typed.cases) (auto simp: opcode_of_def op_sets)
      obtain k where "k < length as" "x = as ! k" using x as by (auto simp: args_def in_set_conv_nth)
      then show ?thesis using at fs as dt by (auto simp: args_def)
    qed
  qed
  then have dv: "\<forall>x \<in> set (args d). data_value (dfg u) x"
    using data_valueI[OF inv dfg_wfD(5)[OF fold_inv_wf[OF inv] d]] by blast
  then show ?thesis
    using data_at(1)[OF inv] modelsD(2)[of W "dfg u" _ a s i d] a d dt by blast
qed

lemma fold_ext_field_ok:
  assumes inv: "fold_inv u" and i: "inst_at (dfg u) i = Some d"
    and d: "d = IInsExt OpExtField a b k j" and dv: "data_value (dfg u) a"
    and nw: "\<And>s j e. value_at (dfg u) a = Some (VInst s j) \<Longrightarrow> inst_at (dfg u) j = Some e \<Longrightarrow> set (args e) \<inter> W = {}"
    and f: "fold_ext_field u i = Some (r, u')"
  shows "fold_ok W 1 u d r u'"
proof -
  have at: "pt2_index (dinsts (dfg u)) i = Some d" by (rule inst_index[OF inv i])
  have io: "idx (args d) 0 = Some a" "idx (imms d) 0 = Some k"
    unfolding d by (simp_all add: args_def imms_def idx_def)
  have ev: "eval_inst env d = eval_ext_field (env a) k" for env unfolding d by (simp add: eval_inst_def)
  note wf = fold_inv_wf[OF inv]
  show ?thesis
  proof (cases "get_value_inst (dfg u) a")
    case None
    then show ?thesis using f by (simp add: fold_ext_field_def at io)
  next
    case (Some ti)
    show ?thesis
    proof (cases ti)
      case None
      then show ?thesis using f Some fold_none[OF inv] by (simp add: fold_ext_field_def at io)
    next
      case (Some m)
      obtain vd where vd: "value_at (dfg u) a = Some vd" using data_at(1)[OF inv dv] by blast
      then obtain s where v: "value_at (dfg u) a = Some (VInst s m)"
        using \<open>get_value_inst (dfg u) a = Some ti\<close> Some
        by (cases vd) (auto simp: get_value_inst_def value_at_index[OF wf])
      then obtain td where td: "inst_at (dfg u) m = Some td" using dfg_wfD(6,7)[OF wf] by blast
      have dt: "data_ty s" using dv v by (auto simp: data_value_def vd_type_def)
      have tdi: "pt2_index (dinsts (dfg u)) m = Some td" by (rule inst_index[OF inv td])
      have snd: "aggregate_format td" using inv v td unfolding fold_inv_def sound_graph_def sound_inst_def by blast
      have body: "(if opcode_of td = OpArrayUniform then idx (args td) 0 \<bind> (\<lambda>a. Some (Some a, u))
          else if opcode_of td \<in> {OpArray, OpStruct} \<and> k < length (args td) then idx (args td) k \<bind> (\<lambda>a. Some (Some a, u))
          else Some (None, u)) = Some (r, u')"
        using f Some \<open>get_value_inst (dfg u) a = Some ti\<close> by (simp add: fold_ext_field_def at io tdi)
      consider "opcode_of td = OpArrayUniform" | "opcode_of td \<in> {OpArray, OpStruct}" "k < length (args td)"
        | "r = None" "u' = u"
        using body by (auto split: if_splits)
      then show ?thesis
      proof cases
        case 1
        then obtain n x where x: "td = IArray OpArrayUniform n x" using snd by (auto simp: aggregate_format_def opcode_of_def)
        have r: "r = Some x" "u' = u"
          using body x by (auto simp: opcode_of_def args_def idx_def)
        have ag: "(\<forall>x \<in> set (args td). value_at (dfg u) x \<noteq> None) \<and>
            (\<forall>env x. set (args td) \<inter> W = {} \<longrightarrow> models W (dfg u) env \<longrightarrow> eval_inst env td = Some x \<longrightarrow> env a = x)"
          by (rule aggregate_operands[OF inv v td dt]) (use 1 in simp)
        have "env x = y" if m: "models W (dfg u) env" and e: "eval_inst env d = Some y" for env y
        proof -
          have "env a = ArrayVal (array_new_uniform n (env x))" using ag m x nw[OF v td] by (auto simp: eval_inst_def)
          then show ?thesis using e unfolding ev
            by (auto simp: eval_ext_field_def array_extract_field_def array_new_uniform_def idx_def split: if_splits)
        qed
        then show ?thesis unfolding r using fold_ok_same[OF inv, of x W d 1] ag x by (simp add: args_def)
      next
        case 2
        then obtain op as where x: "td = IAggregate op as" "op = OpArray \<or> op = OpStruct" "k < length as"
          using snd by (auto simp: aggregate_format_def opcode_of_def args_def)
        have r: "r = Some (as ! k)" "u' = u"
          using body x by (auto simp: opcode_of_def args_def idx_def)
        have ag: "(\<forall>x \<in> set (args td). value_at (dfg u) x \<noteq> None) \<and>
            (\<forall>env x. set (args td) \<inter> W = {} \<longrightarrow> models W (dfg u) env \<longrightarrow> eval_inst env td = Some x \<longrightarrow> env a = x)"
          by (rule aggregate_operands[OF inv v td dt]) (use 2 in blast)
        have "env (as ! k) = y" if m: "models W (dfg u) env" and e: "eval_inst env d = Some y" for env y
        proof -
          have "env a = ArrayVal (map env as) \<or> env a = StructVal (map env as)"
            using ag m x(1,2) nw[OF v td] by (auto simp: eval_inst_def)
          then show ?thesis using e x(3) unfolding ev
            by (auto simp: eval_ext_field_def array_extract_field_def struct_extract_field_def idx_def)
        qed
        then show ?thesis unfolding r using fold_ok_same[OF inv, of "as ! k" W d 1] ag x by (simp add: args_def)
      next
        case 3
        then show ?thesis using fold_none[OF inv] by simp
      qed
    qed
  qed
qed

lemma fold_mux_ok:
  assumes inv: "fold_inv u" and rm: "room_for (Suc n) u" and i: "inst_at (dfg u) i = Some d"
    and d: "d = IBinary OpMux a b" and ty: "typed (value_type (dfg u)) d t" and dt: "data_ty t"
    and dv: "data_value (dfg u) a" "data_value (dfg u) b" and nw: "a \<notin> W"
    and f: "fold_mux u i = Some (r, u')"
  shows "fold_ok W 1 u d r u'"
proof -
  have at: "pt2_index (dinsts (dfg u)) i = Some d" by (rule inst_index[OF inv i])
  have io: "idx (args d) 0 = Some a" "idx (args d) 1 = Some b" unfolding d by (simp_all add: args_def idx_def)
  obtain m where s: "value_type (dfg u) a = Some (ArrayType m t)"
    using ty unfolding d by (auto simp: typed_IBinary opcode_of_def op_sets)
  obtain c where c: "get_const_int (dfg u) b = Some c"
    using f by (auto simp: fold_mux_def at io bind_Some_iff simp del: One_nat_def)
  show ?thesis
  proof (cases c)
    case None
    then show ?thesis using f c fold_none[OF inv] by (simp add: fold_mux_def at io del: One_nat_def)
  next
    case (Some k)
    note ck = const_value[OF inv data_at(1)[OF inv dv(2)] c[unfolded Some]]
    have f2: "replaced (ib_ext_field None a (ivalue k) u) = Some (r, u')"
      using f c Some by (auto simp: fold_mux_def at io to_usize_def simp del: One_nat_def split: if_splits)
    have nv: "t \<noteq> VoidType" using dt by auto
    have w: "with_unpacked_sigptr (ArrayType m t) (ext_field_type (ivalue k)) = Some t"
      by (simp add: with_unpacked_sigptr_def ext_field_type_def)
    obtain x where x: "r = Some x" "step_ok 1 u u'" "computes u' x t (IInsExt OpExtField a key_invalid (ivalue k) 0)"
      using ext_field_step[OF inv rm s data_at(2)[OF inv dv(1)] w nv, of None] f2 by (auto simp: replaced_def)
    have "fold_ok W 1 u d (Some x) u'"
    proof (rule fold_new[OF x(2,3) dt])
      show "\<forall>v \<in> set (args (IInsExt OpExtField a key_invalid (ivalue k) 0)). data_value (dfg u') v \<and> v \<notin> W"
        using step_ok_data[OF x(2) dv(1)] nw by (simp add: args_def)
      fix env y assume mm: "models W (dfg u') env" and e: "eval_inst env d = Some y"
      then show "eval_inst env (IInsExt OpExtField a key_invalid (ivalue k) 0) = Some y"
        using ck(3)[OF step_ok_models[OF x(2) mm]] unfolding d
        by (cases "env a") (auto simp: eval_inst_def eval_mux_def eval_ext_field_def)
    qed
    then show ?thesis using x(1) by simp
  qed
qed

end
