(* ===== verification/CfSound.thy ===== *)
theory CfSound
  imports SliceSound
begin

text \<open>
  Soundness of the constant folding pass on one instruction: after \<^verbatim>\<open>run_on_inst\<close> every
  valuation of the unit is a valuation of the unit before.
\<close>

section \<open>The replacement of a value\<close>

lemma args_mut_same: "args_mut (subst v v) d = d"
  by (rule args_mut_id) (simp add: subst_def)

lemma map_option_same: "map_option (args_mut (subst v v)) x = x"
  by (cases x) (simp_all add: args_mut_same)

text \<open>Replacing a value by itself changes nothing but the order of the bookkeeping.\<close>

lemma replace_same_in_place:
  "in_place (replace_value_within_inst v v) (args_mut (subst v v)) (\<lambda>d. count_list (args d) v)
    (\<lambda>g. dfg_wf g) dfg_exact (\<lambda>_. {})"
  unfolding in_place_def
proof (intro allI impI)
  fix g i
  assume wf: "dfg_wf g" and i: "i < length (storage (dinsts g))"
  obtain d where d: "pt2_index (dinsts g) i = Some d" using i by (auto simp: pt2_index_def idx_def)
  have at: "inst_at g i = Some d" if "inst_at g i \<noteq> None"
    using that d pt2_lookup_index[OF dfg_wfD(1)[OF wf], of i] by (auto simp: inst_at_def)
  have live: "\<forall>a \<in> set (args d). value_ok g a" if "inst_at g i \<noteq> None" using dfg_wfD(5)[OF wf at[OF that]] by blast
  obtain it g' where g': "pt2_index_mut i d (dinsts g) = Some it"
    "update_uses i (g\<lparr>dinsts := it, value_uses := forget_use i v (value_uses g), block_uses := block_uses g\<rparr>) = Some g'"
    "dfg_wf g'" "inst_at g' = (if inst_at g i = None then inst_at g else (inst_at g)(i \<mapsto> d))"
    "value_at g' = value_at g" "dresults g' = dresults g" "length (storage (dinsts g')) = length (storage (dinsts g))"
    "\<forall>k. users (value_uses g') k = (if k \<in> set (args d) then insert i (users (forget_use i v (value_uses g)) k)
       else users (forget_use i v (value_uses g)) k)"
    "\<forall>k. users (block_uses g') k = (if k \<in> set (inst_blocks d) then insert i (users (block_uses g) k) else users (block_uses g) k)"
    using rewrite_inst_effect[OF wf i d, of "forget_use i v (value_uses g)" v "block_uses g" 0 d] live by blast
  have run: "replace_value_within_inst v v i g = Some (count_list (args d) v, g')"
    using d g'(1,2) by (simp add: replace_value_within_inst_def replace_value_subst args_mut_same)
  have same: "inst_at g' = inst_at g" using g'(4) at by (auto simp: fun_eq_iff)
  have act: "actual f g' k = actual f g k" for f k by (rule actual_cong[OF same])
  have ex: "dfg_exact g'" if "inst_at g i \<noteq> None" "dfg_exact g"
    using that(2) at[OF that(1)] g'(8,9) unfolding dfg_exact_def act
    by (auto simp: users_forget_use actual_def split: if_splits)
  have ia: "inst_at g' = (\<lambda>j. if j = i then map_option (args_mut (subst v v)) (inst_at g i) else inst_at g j)"
    by (simp add: same map_option_same fun_eq_iff)
  have n: "inst_at g i \<noteq> None \<Longrightarrow> count_list (args d) v = count_list (args (the (inst_at g i))) v" using at by simp
  show "\<exists>n g'. replace_value_within_inst v v i g = Some (n, g') \<and> dfg_wf g' \<and>
      inst_at g' = (\<lambda>j. if j = i then map_option (args_mut (subst v v)) (inst_at g i) else inst_at g j) \<and>
      value_at g' = value_at g \<and> dresults g' = dresults g \<and> length (storage (dinsts g')) = length (storage (dinsts g)) \<and>
      {} = {} - {i} \<and>
      (inst_at g i \<noteq> None \<longrightarrow> n = count_list (args (the (inst_at g i))) v \<and> (dfg_exact g \<longrightarrow> dfg_exact g'))"
    using run g'(3,5-7) ia ex n by blast
qed

lemma replace_use_any:
  assumes wf: "dfg_wf g" and ex: "dfg_exact g" and ord: "lists_sets ord" and to: "value_ok g to"
  shows "\<exists>n g'. replace_use ord from to g = Some (n, g') \<and> dfg_wf g' \<and> dfg_exact g' \<and>
    inst_at g' = (\<lambda>i. map_option (args_mut (subst from to)) (inst_at g i)) \<and> value_at g' = value_at g"
proof (cases "from = to")
  case False
  then show ?thesis using replace_use_effect[OF wf ord to] ex by blast
next
  case True
  note el = elems_users[OF ord users_bound(1)[OF wf], of to]
  have lt: "\<forall>i \<in> set (elems ord (value_uses g) to). i < length (storage (dinsts g))"
    using el(1) users_bound(1)[OF wf, of to] by auto
  have live: "\<forall>i \<in> set (elems ord (value_uses g) to). inst_at g i \<noteq> None"
    using el(1) ex by (auto simp: dfg_exact_def actual_def)
  obtain n g' where g': "foldM (\<lambda>i (n, g). do { (k, g) \<leftarrow> replace_value_within_inst to to i g; Some (n + k, g) })
        (elems ord (value_uses g) to) (0, g) = Some (0 + n, g')" "dfg_wf g'"
    "inst_at g' = replace_all (args_mut (subst to to)) (set (elems ord (value_uses g) to)) g"
    "value_at g' = value_at g" "dfg_exact g \<longrightarrow> dfg_exact g'"
    using in_place_loop[OF replace_same_in_place wf lt el(2), where ?n0.0 = 0] live by blast
  have "inst_at g' = (\<lambda>i. map_option (args_mut (subst to to)) (inst_at g i))"
    by (auto simp: g'(3) replace_all_def map_option_same fun_eq_iff)
  then show ?thesis using g' ex unfolding True replace_use_def by auto
qed

lemma typed_subst:
  assumes "typed G d t" "G from = G to"
  shows "typed G (args_mut (subst from to) d) t"
proof -
  have G: "G (subst from to a) = G a" for a using assms(2) by (simp add: subst_def)
  from assms(1) show ?thesis
  proof (cases rule: typed.cases)
    case (ty_struct fs)
    then show ?thesis using G by (auto intro!: typed.ty_struct)
  next
    case (ty_compare op a s b)
    then show ?thesis using typed.ty_compare[of op G "subst from to a" s "subst from to b"] G by (simp add: args_mut_def)
  next
    case (ty_array e n)
    then show ?thesis using G by (auto intro!: typed.ty_array)
  next
    case (ty_ext_field a s k b j)
    then show ?thesis using typed.ty_ext_field[of G "subst from to a" s k t _ j] G by (simp add: args_mut_def)
  next
    case (ty_ext_slice a s i j b)
    then show ?thesis using typed.ty_ext_slice[of G "subst from to a" s i j t] G by (simp add: args_mut_def)
  qed (use G in \<open>auto simp: args_mut_def intro: typed.intros\<close>)
qed

lemma sound_inst_subst: "sound_inst G d t \<Longrightarrow> G from = G to \<Longrightarrow> sound_inst G (args_mut (subst from to) d) t"
  using typed_subst[of G d t "from" to]
  by (cases d) (auto simp: sound_inst_def aggregate_format_def built_def args_mut_def opcode_of_def subst_def)

text \<open>Names play no part in the replacement.\<close>

lemma replace_sound_names:
  assumes inv: "fold_inv u" and ord: "lists_sets ord" and to: "value_at (dfg u) to \<noteq> None"
    and ty: "value_type (dfg u) from = value_type (dfg u) to"
  shows "\<exists>n g. replace_use ord from to ((dfg u)\<lparr>names := m\<rparr>) = Some (n, g) \<and> fold_inv (u\<lparr>dfg := g\<rparr>) \<and>
    inst_at g = (\<lambda>i. map_option (args_mut (subst from to)) (inst_at (dfg u) i)) \<and> value_at g = value_at (dfg u) \<and>
    live g = live (dfg u)"
proof -
  let ?g = "(dfg u)\<lparr>names := m\<rparr>"
  obtain xs where xs: "unit_rep u xs" "pos_valid (pos u) xs" using inv by (auto simp: fold_inv_def ready_def)
  have rep: "unit_rep (u\<lparr>dfg := ?g\<rparr>) xs" using xs(1) unit_rep_names by blast
  have wf: "dfg_wf ?g" "dfg_exact ?g" using unit_repD(1,2)[OF rep] by simp_all
  have at: "inst_at ?g = inst_at (dfg u)" "value_at ?g = value_at (dfg u)" by (simp_all add: inst_at_def value_at_def)
  have tok: "value_ok ?g to" using to by (simp add: value_ok_def at)
  obtain n g where g: "replace_use ord from to ?g = Some (n, g)" "dfg_wf g" "dfg_exact g"
    "inst_at g = (\<lambda>i. map_option (args_mut (subst from to)) (inst_at (dfg u) i))" "value_at g = value_at (dfg u)"
    using replace_use_any[OF wf ord tok, of "from"] at by auto
  have live: "live g = live (dfg u)" using g(4) by (auto simp: live_def)
  have "unit_rep (u\<lparr>dfg := g\<rparr>) xs" using xs(1) g(2,3) live by (simp add: unit_rep_def)
  then have rd: "ready (u\<lparr>dfg := g\<rparr>)" using xs(2) by (auto simp: ready_def)
  note wfu = fold_inv_wf[OF inv]
  have vt: "value_type g v = value_type (dfg u) v" if "value_ok (dfg u) v" for v
    using value_type_mono[OF wfu g(2) _ that] g(5) by simp
  have "sound_graph g"
    unfolding sound_graph_def
  proof (intro allI impI)
    fix v t i d
    assume a: "value_at g v = Some (VInst t i)" "inst_at g i = Some d"
    then obtain e where e: "inst_at (dfg u) i = Some e" "d = args_mut (subst from to) e" using g(4) by auto
    have "sound_inst (value_type (dfg u)) e t" using inv a(1) e(1) g(5) unfolding fold_inv_def sound_graph_def by metis
    then have "sound_inst (value_type (dfg u)) d t" using sound_inst_subst[OF _ ty] e(2) by simp
    moreover have "\<forall>x \<in> set (args d). value_type (dfg u) x = value_type g x"
      using dfg_wfD(5)[OF g(2) a(2)] vt g(5) by (simp add: value_ok_def)
    ultimately show "sound_inst (value_type g) d t" by (rule sound_inst_cong)
  qed
  then show ?thesis using g rd live by (auto simp: fold_inv_def)
qed

lemma replace_sound:
  assumes "fold_inv u" "lists_sets ord" "value_at (dfg u) to \<noteq> None" "value_type (dfg u) from = value_type (dfg u) to"
  shows "\<exists>n g. replace_use ord from to (move_name from to (dfg u)) = Some (n, g) \<and> fold_inv (u\<lparr>dfg := g\<rparr>) \<and>
    inst_at g = (\<lambda>i. map_option (args_mut (subst from to)) (inst_at (dfg u) i)) \<and> value_at g = value_at (dfg u) \<and>
    live g = live (dfg u)"
proof -
  obtain m where m: "move_name from to (dfg u) = (dfg u)\<lparr>names := m\<rparr>"
    by (cases "names (dfg u) from") (auto simp: move_name_def intro: that[of "names (dfg u)"])
  show ?thesis unfolding m by (rule replace_sound_names[OF assms])
qed

section \<open>One instruction\<close>

text \<open>An instruction on data, with the operands the verifier has checked, that does not use itself.\<close>

definition data_inst :: "unit_builder \<Rightarrow> nat \<Rightarrow> nat \<Rightarrow> ty \<Rightarrow> inst_data \<Rightarrow> bool" where
  "data_inst u i v t d \<longleftrightarrow> inst_at (dfg u) i = Some d \<and> value_at (dfg u) v = Some (VInst t i) \<and> data_ty t \<and>
     (\<forall>a \<in> set (args d). data_value (dfg u) a) \<and> v \<notin> set (args d) \<and>
     (\<forall>a \<in> set (args d). \<forall>s j e. value_at (dfg u) a = Some (VInst s j) \<longrightarrow> inst_at (dfg u) j = Some e \<longrightarrow> v \<notin> set (args e))"

lemma fold_inst_ok:
  assumes inv: "fold_inv u" and rm: "room_for (Suc (zero_insts t) + n) u"
    and di: "data_inst u i v t d" and op: "opcode_of d \<notin> {OpShl, OpShr}" and nz: "\<not> sub_zero u d"
    and f: "fold_inst again u i t = Some (r, u')"
  shows "fold_ok {v} (Suc (zero_insts t)) u d r u'"
proof -
  have i: "inst_at (dfg u) i = Some d" and v: "value_at (dfg u) v = Some (VInst t i)" and dt: "data_ty t"
    and dv: "\<And>a. a \<in> set (args d) \<Longrightarrow> data_value (dfg u) a" and nv: "v \<notin> set (args d)"
    and agg: "\<And>a s j e. a \<in> set (args d) \<Longrightarrow> value_at (dfg u) a = Some (VInst s j) \<Longrightarrow> inst_at (dfg u) j = Some e \<Longrightarrow>
      v \<notin> set (args e)"
    using di by (auto simp: data_inst_def)
  note wf = fold_inv_wf[OF inv]
  have at: "pt2_index (dinsts (dfg u)) i = Some d" by (rule inst_index[OF inv i])
  have it: "inst_type (dfg u) i = Some t" by (rule inst_type_at[OF wf v])
  have snd: "opcode_of d \<in> data_ops \<Longrightarrow> typed (value_type (dfg u)) d t"
    using inv v i unfolding fold_inv_def sound_graph_def sound_inst_def by blast
  have rm1: "room_for (Suc (zero_insts t + n)) u" using rm by simp
  have more: "fold_ok {v} 1 u d r u' \<Longrightarrow> ?thesis" using step_ok_more[of 1 u u'] by (auto simp: fold_ok_def)
  have fo: "fold_inst again u i t =
     (if opcode_of d = OpInsSlice then fold_ins_slice u i else if opcode_of d = OpExtSlice then fold_ext_slice u i
      else if opcode_of d = OpExtField then fold_ext_field u i else if opcode_of d = OpMux then fold_mux u i
      else (case d of IUnary op a \<Rightarrow> fold_unary u op t a | IBinary op a b \<Rightarrow> fold_binary u op t a b | _ \<Rightarrow> Some (None, u)))"
    using op by (simp add: fold_inst_def at Let_def)
  have fmt: "\<exists>a b k j. d = IInsExt op a b k j" if "opcode_of d = op" "op \<in> {OpInsField, OpExtField, OpInsSlice, OpExtSlice}" for op
    using typed_format(4)[OF snd] that by (auto simp: data_ops_def opcode_of_def)
  consider "opcode_of d = OpInsSlice" | "opcode_of d = OpExtSlice" | "opcode_of d = OpExtField" | "opcode_of d = OpMux"
    | "opcode_of d \<notin> {OpInsSlice, OpExtSlice, OpExtField, OpMux}" by blast
  then show ?thesis
  proof cases
    case 1
    then obtain a b k j where d: "d = IInsExt OpInsSlice a b k j" using fmt[of OpInsSlice] by auto
    then have ab: "data_value (dfg u) a" "data_value (dfg u) b" using dv by (auto simp: args_def)
    have ty: "typed (value_type (dfg u)) d t" using snd 1 by (simp add: data_ops_def)
    show ?thesis by (rule more, rule fold_ins_slice_ok[OF inv rm1 i d ty ab]) (use f fo 1 in simp)
  next
    case 2
    then obtain a b k j where d: "d = IInsExt OpExtSlice a b k j" using fmt[of OpExtSlice] by auto
    then have a: "data_value (dfg u) a" using dv by (auto simp: args_def)
    have ty: "typed (value_type (dfg u)) d t" using snd 2 by (simp add: data_ops_def)
    show ?thesis by (rule fold_ext_slice_ok[OF inv rm i it d ty dt a]) (use f fo 2 in simp)
  next
    case 3
    then obtain a b k j where d: "d = IInsExt OpExtField a b k j" using fmt[of OpExtField] by auto
    then have a: "data_value (dfg u) a" using dv by (auto simp: args_def)
    show ?thesis
      by (rule more, rule fold_ext_field_ok[OF inv i d a]) (use agg d f fo 3 in \<open>auto simp: args_def\<close>)
  next
    case 4
    have ty: "typed (value_type (dfg u)) d t" using snd 4 by (simp add: data_ops_def)
    obtain a b where d: "d = IBinary OpMux a b" using typed_format(2)[OF ty] 4 by (auto simp: opcode_of_def)
    then have ab: "data_value (dfg u) a" "data_value (dfg u) b" "a \<notin> {v}" using dv nv by (auto simp: args_def)
    show ?thesis by (rule more, rule fold_mux_ok[OF inv rm1 i d ty dt ab]) (use f fo 4 in simp)
  next
    case 5
    then have f5: "(case d of IUnary op a \<Rightarrow> fold_unary u op t a | IBinary op a b \<Rightarrow> fold_binary u op t a b | _ \<Rightarrow> Some (None, u)) = Some (r, u')"
      using f fo by simp
    consider op2 a where "d = IUnary op2 a" | op2 a b where "d = IBinary op2 a b" | "r = None" "u' = u"
      using f5 by (cases d) auto
    then show ?thesis
    proof cases
      case (1 op2 a)
      then have a: "value_at (dfg u) a \<noteq> None" using data_at(1)[OF inv dv] by (simp add: args_def)
      have "fold_ok {v} 1 u (IUnary op2 a) r u'" by (rule fold_unary_ok[OF inv rm1 a]) (use f5 1 in simp)
      then show ?thesis using more 1 by simp
    next
      case (2 op2 a b)
      have l: "value_at (dfg u) a \<noteq> None" "value_at (dfg u) b \<noteq> None" using data_at(1)[OF inv dv] 2 by (auto simp: args_def)
      have "fold_ok {v} 1 u (IBinary op2 a b) r u'"
        by (rule fold_binary_ok[OF inv rm1 l]) (use f5 2 snd 5 nz nv in \<open>auto simp: opcode_of_def args_def\<close>)
      then show ?thesis using more 2 by simp
    next
      case 3
      then show ?thesis using fold_none[OF inv] by simp
    qed
  qed
qed

text \<open>The pass first moves the insertion point before the instruction.\<close>

lemma insert_before_simps [simp]:
  "dfg (insert_before_inst i u) = dfg u" "layout (insert_before_inst i u) = layout u" "cfg (insert_before_inst i u) = cfg u"
  by (simp_all add: insert_before_inst_def)

lemma cf_entry:
  assumes "fold_inv u" "data_inst u i v t d"
  shows "fold_inv (insert_before_inst i u)" "has_result (dfg u) i" "inst_result (dfg u) i = Some v" "value_type (dfg u) v = Some t"
proof -
  have i: "inst_at (dfg u) i = Some d" and v: "value_at (dfg u) v = Some (VInst t i)" using assms(2) by (auto simp: data_inst_def)
  obtain xs where xs: "unit_rep u xs" using assms(1) by (auto simp: fold_inv_def ready_def)
  have "unit_rep (insert_before_inst i u) xs" using xs by (simp add: unit_rep_def)
  moreover have "i \<in> members xs" using unit_repD(4)[OF xs] i by (auto simp: live_def)
  ultimately have "ready (insert_before_inst i u)" by (auto simp: ready_def insert_before_inst_def pos_valid_def)
  then show "fold_inv (insert_before_inst i u)" using assms(1) by (simp add: fold_inv_def)
  note wf = fold_inv_wf[OF assms(1)]
  show "has_result (dfg u) i" "inst_result (dfg u) i = Some v" "value_type (dfg u) v = Some t"
    using dfg_wfD(6)[OF wf, of i v] v value_type_vd[OF wf, of v]
    by (auto simp: has_result_def st_contains_def inst_result_def st_index_def vd_type_def)
qed

lemma entry_facts [simp]:
  "room_for n (insert_before_inst i u) \<longleftrightarrow> room_for n u" "data_inst (insert_before_inst i u) = data_inst u"
  "sub_zero (insert_before_inst i u) = sub_zero u"
  by (simp_all add: room_for_def data_inst_def fun_eq_iff sub_zero_def)

text \<open>
  Redirecting the uses of a result to a value that is equal in the valuations of the graph:
  what models the new graph models the old one.
\<close>

lemma redirect_models:
  assumes st: "step_ok k u u1" and di: "data_inst u i v t d"
    and w: "value_at (dfg u1) w \<noteq> None" "value_type (dfg u1) w = Some t"
    and val: "\<And>env x. models {v} (dfg u1) env \<Longrightarrow> eval_inst env d = Some x \<Longrightarrow> env w = x"
    and def: "\<forall>env. models {v} (dfg u) env \<longrightarrow> eval_inst env d \<noteq> None"
    and g: "inst_at g = (\<lambda>i. map_option (args_mut (subst v w)) (inst_at (dfg u1) i))" "value_at g = value_at (dfg u1)"
    and m: "models {} g env"
  shows "models {} (dfg u) env"
proof -
  have v: "value_at (dfg u) v = Some (VInst t i)" and dt: "data_ty t" and nv: "v \<notin> set (args d)"
    and dv: "\<forall>a \<in> set (args d). data_value (dfg u) a" and i: "inst_at (dfg u) i = Some d"
    using di by (auto simp: data_inst_def)
  have m1: "models {v} (dfg u1) env" by (rule models_unreplaced[OF m g])
  then have m0: "models {v} (dfg u) env" by (rule step_ok_models[OF st])
  then obtain x where x: "eval_inst env d = Some x" using def by blast
  have "env v = x" using modelsD(2)[OF m0 v dt i _ x] dv nv by blast
  then have eq: "env v = env w" using val[OF m1 x] by simp
  have dw: "data_value (dfg u1) w" using data_value_type[OF fold_inv_wf[OF step_ok_inv[OF st]] w(1)] w(2) dt by simp
  have "models {} (dfg u1) env" by (rule models_replace[OF m _ g]) (simp add: eq dw)
  then show ?thesis by (rule step_ok_models[OF st])
qed

lemma cf_sound:
  assumes "fold_inv u" "lists_sets ord" "room_for (Suc (zero_insts t) + n) u"
    and "data_inst u i v t d" "opcode_of d \<notin> {OpShl, OpShr}" "\<not> sub_zero u d"
    and "\<forall>env. models {v} (dfg u) env \<longrightarrow> eval_inst env d \<noteq> None"
    and "cf_run_on_inst (Suc m) ord i u = Some (changed, u')"
  shows "fold_inv u' \<and> value_at (dfg u) \<subseteq>\<^sub>m value_at (dfg u') \<and>
    (\<forall>env. models {} (dfg u') env \<longrightarrow> models {} (dfg u) env)"
proof -
  define u0 where "u0 = insert_before_inst i u"
  have g0: "dfg u0 = dfg u" by (simp add: u0_def)
  have v: "value_at (dfg u) v = Some (VInst t i)" and dt: "data_ty t"
    and nv: "v \<notin> set (args d)" and dv: "\<forall>a \<in> set (args d). data_value (dfg u) a" and i: "inst_at (dfg u) i = Some d"
    using assms(4) by (auto simp: data_inst_def)
  have inv: "fold_inv u0" and rm: "room_for (Suc (zero_insts t) + n) u0" and di: "data_inst u0 i v t d" and nz: "\<not> sub_zero u0 d"
    using cf_entry(1)[OF assms(1,4)] assms(3,4,6) by (simp_all add: u0_def)
  have res: "has_result (dfg u0) i" "inst_result (dfg u0) i = Some v" "value_type (dfg u0) v = Some t"
    using cf_entry(2-)[OF assms(1,4)] g0 by simp_all
  obtain again r u1 where f: "fold_inst again u0 i t = Some (r, u1)"
    and rest: "(case r of None \<Rightarrow> Some (False, u1)
      | Some w \<Rightarrow> do { t' \<leftarrow> value_type (dfg u1) w; ensure (t = t');
          (_, g) \<leftarrow> replace_use ord v w (move_name v w (dfg u1)); Some (True, u1\<lparr>dfg := g\<rparr>) }) = Some (changed, u')"
    using assms(8) res unfolding cf_run_on_inst.simps(2) Let_def u0_def[symmetric] by (auto simp: bind_Some_iff)
  have ok: "fold_ok {v} (Suc (zero_insts t)) u0 d r u1" by (rule fold_inst_ok[OF inv rm di assms(5) nz f])
  then have st: "step_ok (Suc (zero_insts t)) u0 u1" by (simp add: fold_ok_def)
  note inv1 = step_ok_inv[OF st]
  show ?thesis
  proof (cases r)
    case None
    then have "u' = u1" using rest by simp
    then show ?thesis using st g0 by (simp add: step_ok_def)
  next
    case (Some w)
    have w: "value_at (dfg u1) w \<noteq> None" "\<And>env x. models {v} (dfg u1) env \<Longrightarrow> eval_inst env d = Some x \<Longrightarrow> env w = x"
      using ok Some by (auto simp: fold_ok_def)
    have wt: "value_type (dfg u1) w = Some t" using rest Some by (auto simp: bind_Some_iff)
    have v1: "value_at (dfg u1) v = Some (VInst t i)" by (rule step_ok_at[OF st]) (simp add: v g0)
    have vt: "value_type (dfg u1) v = value_type (dfg u1) w" using v1 wt value_type_vd[OF fold_inv_wf[OF inv1] v1] by (simp add: vd_type_def)
    obtain n2 g where g: "replace_use ord v w (move_name v w (dfg u1)) = Some (n2, g)" "fold_inv (u1\<lparr>dfg := g\<rparr>)"
      "inst_at g = (\<lambda>i. map_option (args_mut (subst v w)) (inst_at (dfg u1) i))" "value_at g = value_at (dfg u1)"
      using replace_sound[OF inv1 assms(2) w(1) vt] by blast
    have u': "u' = u1\<lparr>dfg := g\<rparr>" using rest Some wt g(1) by auto
    have older: "models {} (dfg u0) env" if "models {} g env" for env
    proof (rule redirect_models[OF st di w(1) wt _ _ g(3,4) that])
      show "env w = x" if "models {v} (dfg u1) env" "eval_inst env d = Some x" for env x using w(2) that by blast
      show "\<forall>env. models {v} (dfg u0) env \<longrightarrow> eval_inst env d \<noteq> None" using assms(7) g0 by simp
    qed
    then show ?thesis using u' g(2,4) st g0 by (simp add: step_ok_def)
  qed
qed

end
