(* ===== verification/FoldReturns.thy ===== *)
theory FoldReturns
  imports CfSound
begin

text \<open>
  The constant folding pass does not panic on a well typed instruction whose value is
  defined: every fold returns, and what it returns has the type of the instruction.
\<close>

definition fits :: "ty \<Rightarrow> fold_result \<Rightarrow> bool" where
  "fits t x \<longleftrightarrow> (\<exists>r u'. x = Some (r, u') \<and> (\<forall>w. r = Some w \<longrightarrow> value_type (dfg u') w = Some t))"

lemma fits_None [simp]: "fits t (Some (None, u))"
  by (simp add: fits_def)

lemma fits_same [simp]: "value_type (dfg u) a = Some t \<Longrightarrow> fits t (Some (Some a, u))"
  by (simp add: fits_def)

lemma fits_new: "f = Some (r, u') \<Longrightarrow> fold_inv u' \<Longrightarrow> computes u' r t e \<Longrightarrow> fits t (replaced f)"
  using computes_type[of u' r t e] by (simp add: fits_def replaced_def)

lemma fits_const:
  assumes "fold_inv u" "room_for (Suc n) u" "iv_wf k" "t = IntType (width k)"
  shows "fits t (replaced (ib_const_int None k u))"
  using const_int_step[OF assms(1-3), of None] fits_new step_ok_inv assms(4) by blast

lemma const_int_defined:
  assumes "fold_inv u" "value_at (dfg u) a \<noteq> None"
  shows "\<exists>k. get_const_int (dfg u) a = Some k"
proof -
  note wf = fold_inv_wf[OF assms(1)]
  obtain vd where v: "value_at (dfg u) a = Some vd" using assms(2) by blast
  show ?thesis
  proof (cases vd)
    case (VInst t i)
    then obtain d where "inst_at (dfg u) i = Some d" using dfg_wfD(6,7)[OF wf] v by blast
    then show ?thesis using v VInst by (simp add: get_const_int_def get_value_inst_at[OF wf] inst_at_index[OF wf])
  qed (use v in \<open>simp_all add: get_const_int_def get_value_inst_def value_at_index[OF wf]\<close>)
qed

text \<open>A zero of every data type.\<close>

lemma const_zero_returns:
  "data_ty t \<Longrightarrow> fold_inv u \<Longrightarrow> room_for (zero_insts t + n) u \<Longrightarrow> \<exists>r u'. ib_const_zero nm t u = Some (r, u')"
proof (induction t arbitrary: nm u n)
  case TimeType
  then show ?case using const_time_step[of u n nm time_zero] by auto
next
  case (IntType w)
  then show ?case using const_int_step[of u n "iv_zero w" nm] by auto
next
  case (ArrayType l t)
  have room: "room_for (zero_insts t + Suc n) u" using ArrayType.prems(3) by simp
  obtain e u1 where e: "ib_const_zero None t u = Some (e, u1)"
    using ArrayType.IH[OF _ ArrayType.prems(2) room, of None] ArrayType.prems(1) by auto
  obtain d where d: "step_ok (zero_insts t) u u1" "computes u1 e t d"
    using const_zero_step[OF ArrayType.prems(2) room e] by (auto simp: zero_step_def)
  note inv1 = step_ok_inv[OF d(1)] and room1 = step_ok_room[OF d(1) room]
  note ty = computes_type[OF inv1 d(2)]
  let ?d = "IArray OpArrayUniform l e"
  obtain r2 u2 where "ib_value (ib_build nm ?d (ArrayType l t) u1) = Some (r2, u2)"
    using built_step[OF inv1 room1, of ?d "ArrayType l t" nm] ty
    by (auto simp: args_def has_res_def sound_inst_def aggregate_format_def built_def opcode_of_def data_ops_def op_sets value_ok_def)
  then show ?case using e ty by (simp add: ib_array_uniform_def ib_value_type_def)
next
  case (StructType ts)
  have all: "\<exists>rs u'. build_all (\<lambda>t u. ib_const_zero None t u) ts' u = Some (rs, u')"
    if "set ts' \<subseteq> set ts" "fold_inv u" "room_for (sum_list (map zero_insts ts') + n) u" for ts' u n
    using that
  proof (induction ts' arbitrary: u)
    case (Cons t ts')
    have room: "room_for (zero_insts t + (sum_list (map zero_insts ts') + n)) u" using Cons.prems(3) by (simp add: add.assoc)
    have dt: "data_ty t" "t \<in> set ts" using Cons.prems(1) StructType.prems(1) by auto
    obtain r u1 where r: "ib_const_zero None t u = Some (r, u1)"
      using StructType.IH[OF dt(2,1) Cons.prems(2) room, of None] by blast
    obtain d where d: "step_ok (zero_insts t) u u1"
      using const_zero_step[OF Cons.prems(2) room r] by (auto simp: zero_step_def)
    show ?case using r Cons.IH[OF _ step_ok_inv[OF d] step_ok_room[OF d room]] Cons.prems(1) by auto
  qed simp
  have room: "room_for (sum_list (map zero_insts ts) + Suc n) u" using StructType.prems(3) by simp
  obtain es u1 where e: "build_all (\<lambda>t u. ib_const_zero None t u) ts u = Some (es, u1)"
    using all[OF order.refl StructType.prems(2) room] by blast
  have ok: "step_ok (sum_list (map zero_insts ts)) u u1 \<and> length es = length ts \<and>
    (\<forall>k < length ts. value_type (dfg u1) (es ! k) = Some (ts ! k) \<and> value_at (dfg u1) (es ! k) \<noteq> None)"
    by (rule build_all_steps[OF _ StructType.prems(2) room e]) (rule const_zero_step)
  then have d: "step_ok (sum_list (map zero_insts ts)) u u1" by simp
  note inv1 = step_ok_inv[OF d] and room1 = step_ok_room[OF d room]
  have ts: "mapM (ib_value_type u1) es = Some ts"
    using ok by (auto simp: mapM_Some_iff list_all2_conv_all_nth ib_value_type_def)
  let ?d = "IAggregate OpStruct es"
  have so: "sound_inst (value_type (dfg u1)) ?d (StructType ts)"
    using ok by (auto simp: sound_inst_def aggregate_format_def built_def args_def opcode_of_def intro!: typed.ty_struct)
  have vo: "\<forall>v \<in> set (args ?d). value_ok (dfg u1) v"
    using ok by (auto simp: args_def value_ok_def in_set_conv_nth)
  obtain r2 u2 where "ib_value (ib_build nm ?d (StructType ts) u1) = Some (r2, u2)"
    using built_step[OF inv1 room1 vo _ so, of nm] by (auto simp: has_res_def)
  then show ?case using e ts by (simp add: ib_strukt_def)
qed simp_all

section \<open>The folds\<close>

text \<open>What is known of the folded instruction: a valuation in which it has a value.\<close>

lemma fold_unary_fits:
  assumes inv: "fold_inv u" and rm: "room_for (Suc n) u" and a: "value_at (dfg u) a \<noteq> None"
    and ty: "op \<in> {OpNot, OpNeg} \<Longrightarrow> value_type (dfg u) a = Some t"
    and m: "models W (dfg u) env" and ev: "eval_inst env (IUnary op a) \<noteq> None"
  shows "fits t (fold_unary u op t a)"
proof -
  obtain k where k: "get_const_int (dfg u) a = Some k" using const_int_defined[OF inv a] by blast
  show ?thesis
  proof (cases k)
    case None
    then show ?thesis using k by (simp add: fold_unary_def fold_unary_int_def)
  next
    case (Some c)
    note c = const_value[OF inv a k[unfolded Some]]
    have "op = OpAlias \<or> unary_op op c \<noteq> None" using ev c(3)[OF m] by (auto simp: eval_inst_def split: if_splits)
    moreover have "unary_op op c \<noteq> None \<Longrightarrow> try_unary_op op c \<noteq> None" by (cases "try_unary_op op c") (simp_all add: unary_op_def)
    ultimately have "try_unary_op op c \<noteq> None" by (auto simp: try_unary_op_def)
    then obtain q where q: "try_unary_op op c = Some q" by blast
    show ?thesis
    proof (cases q)
      case None
      then show ?thesis using k \<open>k = Some c\<close> q by (simp add: fold_unary_def fold_unary_int_def)
    next
      case (Some z)
      then have z: "iv_wf z" "width z = width c" using try_unary_op_wf[of op c z] q by auto
      have "op \<in> {OpNot, OpNeg}" using q Some by (cases op) (simp_all add: try_unary_op_def)
      then have "t = IntType (width z)" using ty computes_type[OF inv c(1)] z by simp
      then show ?thesis using fits_const[OF inv rm z(1)] k \<open>k = Some c\<close> q Some
        by (simp add: fold_unary_def fold_unary_int_def)
    qed
  qed
qed

lemma fold_binary_fits:
  assumes inv: "fold_inv u" and rm: "room_for (Suc n) u" and live: "value_at (dfg u) a \<noteq> None" "value_at (dfg u) b \<noteq> None"
    and ty: "opcode_of (IBinary op a b) \<in> data_ops \<longrightarrow> typed (value_type (dfg u)) (IBinary op a b) t"
    and op: "op \<noteq> OpMux"
    and m: "models W (dfg u) env" and ev: "eval_inst env (IBinary op a b) \<noteq> None"
  shows "fits t (fold_binary u op t a b)"
proof (cases "ty_is_int t")
  case True
  then obtain w where w: "t = IntType w" by (cases t) auto
  obtain i0 i1 where i: "get_const_int (dfg u) a = Some i0" "get_const_int (dfg u) b = Some i1"
    using const_int_defined[OF inv] live by blast
  have ab: "value_type (dfg u) a = Some (IntType w) \<and> value_type (dfg u) b = Some (IntType w)" if "op \<in> arith_ops"
    using ty that w by (auto simp: typed_IBinary opcode_of_def op_sets)
  have zero: "fits t (replaced (ib_const_int None (iv_zero w) u))" and ones: "fits t (replaced (ib_const_int None (iv_all_ones w) u))"
    by (rule fits_const[OF inv rm]; simp add: w)+
  have inot: "fits t (replaced (ib_not None v u))" if v: "v = a \<or> v = b" "op \<in> arith_ops" for v
  proof -
    have vt: "value_type (dfg u) v = Some (IntType w)" and vo: "value_ok (dfg u) v" using ab v live by (auto simp: value_ok_def)
    show ?thesis using not_step[OF inv rm vt vo, of None] fits_new step_ok_inv w by blast
  qed
  have same: "fits t (Some (Some v, u))" if "v = a \<or> v = b" "op \<in> arith_ops" for v
    using ab that w by auto
  have sym: "fits t r" if s: "fold_symmetric u op w i0 i1 a b = Some r" for r
  proof -
    have op: "op \<in> arith_ops"
      using s by (auto simp: fold_symmetric_def arith_ops_def Let_def split: option.splits prod.splits if_splits)
    obtain k v where kv: "(i0 = None \<and> i1 = Some k \<and> v = a) \<or> (i0 = Some k \<and> i1 = None \<and> v = b)"
      and body: "(if op \<in> {OpAnd, OpSmul, OpUmul} \<and> iv_is_zero k then Some (replaced (ib_const_int None (iv_zero w) u))
             else if op \<in> {OpOr, OpXor, OpAdd, OpSub} \<and> iv_is_zero k then Some (Some (Some v, u))
             else if op \<in> {OpSmul, OpUmul} \<and> iv_is_one k then Some (Some (Some v, u))
             else if op = OpOr \<and> iv_is_all_ones k then Some (replaced (ib_const_int None (iv_all_ones w) u))
             else if op = OpAnd \<and> iv_is_all_ones k then Some (Some (Some v, u))
             else if op = OpXor \<and> iv_is_all_ones k then Some (replaced (ib_not None v u))
             else None) = Some r"
      using s by (cases i0; cases i1) (auto simp: fold_symmetric_def Let_def)
    then have v: "v = a \<or> v = b" by blast
    show ?thesis using body zero ones same[OF v op] inot[OF v op] by (simp split: if_split_asm)
  qed
  have asym: "fits t r" if s: "fold_asymmetric u op w i0 i1 a = Some r" for r
  proof -
    have op: "op \<in> arith_ops"
      using s by (auto simp: fold_asymmetric_def arith_ops_def Let_def split: option.splits prod.splits if_splits)
    show ?thesis using s zero same[OF _ op] by (cases i0; cases i1) (auto simp: fold_asymmetric_def split: if_split_asm)
  qed
  have full: "fits t (fold_full u op i0 i1)"
  proof (cases "\<exists>x y. i0 = Some x \<and> i1 = Some y")
    case True
    then obtain x y where xy: "i0 = Some x" "i1 = Some y" by blast
    note cx = const_value[OF inv live(1) i(1)[unfolded xy]] and cy = const_value[OF inv live(2) i(2)[unfolded xy]]
    have "eval_binary op x y \<noteq> None" using ev cx(3)[OF m] cy(3)[OF m] op by (simp add: eval_inst_def)
    then obtain z where z: "eval_binary op x y = Some z" by blast
    obtain b1 where b1: "try_binary_op op x y = Some b1" using z by (auto simp: eval_binary_def bind_Some_iff)
    have run: "(case b1 of Some r \<Rightarrow> Some (Some r) | None \<Rightarrow> try_compare_op op x y) = Some (Some z)"
      using z b1 by (cases b1) (auto simp: eval_binary_def compare_op_def bind_Some_iff)
    have "t = IntType (width z)"
    proof -
      consider "op \<in> arith_ops" | "op \<in> compare_ops" using eval_binary_wf(3)[OF z] by blast
      then show ?thesis
      proof cases
        case 1
        then show ?thesis using eval_binary_wf(1)[OF z] ab computes_type[OF inv cx(1)] w by simp
      next
        case 2
        then have "typed (value_type (dfg u)) (IBinary op a b) t" using ty by (simp add: opcode_of_def data_ops_def)
        then have "t = IntType 1" using 2 by (auto simp: typed_IBinary opcode_of_def op_sets)
        then show ?thesis using eval_binary_wf(2)[OF z 2] by simp
      qed
    qed
    moreover have "iv_wf z" using eval_binary_wf[OF z] by blast
    ultimately show ?thesis using fits_const[OF inv rm] run b1 xy by (simp add: fold_full_def)
  qed (auto simp: fold_full_def split: option.splits)
  show ?thesis using i w sym asym full by (auto simp: fold_binary_def fold_binary_int_def split: option.splits)
qed (simp add: fold_binary_def)

lemma fold_ins_slice_fits:
  assumes inv: "fold_inv u" and rm: "room_for (Suc n) u" and i: "inst_at (dfg u) i = Some d"
    and d: "d = IInsExt OpInsSlice a b off len"
    and ty: "typed (value_type (dfg u)) d t" and dv: "data_value (dfg u) a" "data_value (dfg u) b"
    and m: "models W (dfg u) env" and ev: "eval_inst env d \<noteq> None"
  shows "fits t (fold_ins_slice u i)"
proof -
  have at: "pt2_index (dinsts (dfg u)) i = Some d" by (rule inst_index[OF inv i])
  have io: "idx (args d) 0 = Some a" "idx (args d) 1 = Some b" "idx (imms d) 1 = Some len" "idx (imms d) 0 = Some off"
    unfolding d by (simp_all add: args_def imms_def idx_def)
  obtain s where s: "value_type (dfg u) a = Some t" "slice_in off len t = Some s" "value_type (dfg u) b = Some s"
    using ty unfolding d by (auto simp: typed_IInsExt opcode_of_def)
  have whole: "len = ty_len t \<Longrightarrow> s = t" using s(2) by (cases rule: slice_ty_cases) simp_all
  have fits: "off + len \<le> ty_len t" using s(2) by (cases rule: slice_ty_cases) simp_all
  obtain ti vi where c: "get_const_int (dfg u) a = Some ti" "get_const_int (dfg u) b = Some vi"
    using const_int_defined[OF inv] data_at(1)[OF inv dv(1)] data_at(1)[OF inv dv(2)] by blast
  show ?thesis
  proof (cases "\<exists>x y. ti = Some x \<and> vi = Some y")
    case True
    then obtain x y where xy: "ti = Some x" "vi = Some y" by blast
    note cx = const_value[OF inv data_at(1)[OF inv dv(1)] c(1)[unfolded xy]]
    note cy = const_value[OF inv data_at(1)[OF inv dv(2)] c(2)[unfolded xy]]
    obtain q where q: "iv_insert_slice x off len y = Some q"
      using ev cx(3)[OF m] cy(3)[OF m] unfolding d by (auto simp: eval_inst_def eval_ins_slice_def split: if_splits)
    have t: "t = IntType (width x)" using computes_type[OF inv cx(1)] s(1) by simp
    have "iv_wf q" "t = IntType (width q)" using wf_insert_slice[OF q cx(2) cy(2)] fits t insert_slice_Some[OF q] by simp_all
    then have "fits t (replaced (ib_const_int None q u))" by (rule fits_const[OF inv rm])
    then show ?thesis using c xy q s whole
      by (simp add: fold_ins_slice_def at io del: One_nat_def)
  next
    case False
    then show ?thesis using c s whole
      by (cases ti; cases vi) (simp_all add: fold_ins_slice_def at io del: One_nat_def)
  qed
qed

lemma fold_ext_slice_fits:
  assumes inv: "fold_inv u" and rm: "room_for (Suc (zero_insts t) + n) u" and i: "inst_at (dfg u) i = Some d"
    and it: "inst_type (dfg u) i = Some t" and d: "d = IInsExt OpExtSlice a b off len"
    and ty: "typed (value_type (dfg u)) d t" and dt: "data_ty t" and dv: "data_value (dfg u) a"
  shows "fits t (fold_ext_slice u i)"
proof -
  have at: "pt2_index (dinsts (dfg u)) i = Some d" by (rule inst_index[OF inv i])
  have io: "idx (args d) 0 = Some a" "idx (imms d) 1 = Some len" "idx (imms d) 0 = Some off"
    unfolding d by (simp_all add: args_def imms_def idx_def)
  obtain s where s: "value_type (dfg u) a = Some s" "with_unpacked_sigptr s (slice_in off len) = Some t"
    using ty unfolding d by (auto simp: typed_IInsExt opcode_of_def)
  have sl: "slice_in off len s = Some t" using s data_with_unpacked data_at(3)[OF inv dv s(1)] by simp
  have whole: "len = ty_len s \<Longrightarrow> s = t" using sl by (cases rule: slice_ty_cases) simp_all
  obtain ti where c: "get_const_int (dfg u) a = Some ti"
    using const_int_defined[OF inv] data_at(1)[OF inv dv] by blast
  have rm1: "room_for (Suc (zero_insts t + n)) u" "room_for (zero_insts t + Suc n) u" using rm by simp_all
  obtain r u' where z: "ib_const_zero None t u = Some (r, u')" using const_zero_returns[OF dt inv rm1(2)] by blast
  have zero: "fits t (replaced (ib_const_zero None t u))"
    using const_zero_step[OF inv rm1(2) z] fits_new[OF z] step_ok_inv by (auto simp: zero_step_def)
  have const: "fits t (replaced (ib_const_int None (iv_extract_slice x off len) u))" if "ti = Some x" for x
  proof -
    note cx = const_value[OF inv data_at(1)[OF inv dv] c[unfolded that]]
    have "s = IntType (width x)" using computes_type[OF inv cx(1)] s(1) by simp
    then have "t = IntType len" using slice_ty_cases[OF sl] by auto
    then show ?thesis using fits_const[OF inv rm1(1) wf_extract_slice] by simp
  qed
  show ?thesis
    using c s(1) whole zero const by (cases ti) (simp_all add: fold_ext_slice_def at it io del: One_nat_def)
qed

lemma fold_ext_field_fits:
  assumes inv: "fold_inv u" and i: "inst_at (dfg u) i = Some d"
    and d: "d = IInsExt OpExtField a b k j" and ty: "typed (value_type (dfg u)) d t" and dv: "data_value (dfg u) a"
  shows "fits t (fold_ext_field u i)"
proof -
  have at: "pt2_index (dinsts (dfg u)) i = Some d" by (rule inst_index[OF inv i])
  have io: "idx (args d) 0 = Some a" "idx (imms d) 0 = Some k"
    unfolding d by (simp_all add: args_def imms_def idx_def)
  obtain s where s: "value_type (dfg u) a = Some s" "with_unpacked_sigptr s (ext_field_type k) = Some t"
    using ty unfolding d by (auto simp: typed_IInsExt opcode_of_def)
  have sf: "ext_field_type k s = Some t" using s data_with_unpacked data_at(3)[OF inv dv s(1)] by simp
  note wf = fold_inv_wf[OF inv]
  obtain vd where vd: "value_at (dfg u) a = Some vd" using data_at(1)[OF inv dv] by blast
  show ?thesis
  proof (cases "\<exists>q m. vd = VInst q m")
    case False
    then have "get_value_inst (dfg u) a = Some None"
      using vd by (cases vd) (simp_all add: get_value_inst_def value_at_index[OF wf])
    then show ?thesis by (simp add: fold_ext_field_def at io)
  next
    case True
    then obtain m where v: "value_at (dfg u) a = Some (VInst s m)"
      using vd s(1) value_type_vd[OF wf vd] by (auto simp: vd_type_def)
    then obtain td where td: "inst_at (dfg u) m = Some td" using dfg_wfD(6,7)[OF wf] by blast
    have tdi: "pt2_index (dinsts (dfg u)) m = Some td" by (rule inst_index[OF inv td])
    have gv: "get_value_inst (dfg u) a = Some (Some m)" by (rule get_value_inst_at[OF wf v])
    have snd: "aggregate_format td" "built (value_type (dfg u)) td s" "opcode_of td \<in> data_ops \<Longrightarrow> typed (value_type (dfg u)) td s"
      using inv v td unfolding fold_inv_def sound_graph_def sound_inst_def by blast+
    consider "opcode_of td = OpArrayUniform" | "opcode_of td = OpArray" | "opcode_of td = OpStruct"
      | "opcode_of td \<notin> {OpArrayUniform, OpArray, OpStruct}" by blast
    then show ?thesis
    proof cases
      case 1
      then obtain op n x where x: "td = IArray op n x" using snd(1) by (auto simp: aggregate_format_def)
      then have "value_type (dfg u) x = Some t" using snd(2) sf by (auto simp: built_def ext_field_type_def)
      moreover have "idx (args td) 0 = Some x" using x by (simp add: args_def idx_def)
      ultimately show ?thesis using 1 by (simp add: fold_ext_field_def at io gv tdi)
    next
      case 2
      then have "typed (value_type (dfg u)) td s" using snd(3) by (simp add: data_ops_def)
      then have "\<forall>x \<in> set (args td). value_type (dfg u) x = Some t"
        using 2 sf by (cases rule: typed.cases) (auto simp: opcode_of_def op_sets ext_field_type_def)
      then have "k < length (args td) \<Longrightarrow> idx (args td) k = Some (args td ! k) \<and> value_type (dfg u) (args td ! k) = Some t"
        by (simp add: idx_def)
      then show ?thesis using 2 by (simp add: fold_ext_field_def at io gv tdi)
    next
      case 3
      then have "typed (value_type (dfg u)) td s" using snd(3) by (simp add: data_ops_def)
      then have "k < length (args td) \<Longrightarrow> value_type (dfg u) (args td ! k) = Some t"
        using 3 sf by (cases rule: typed.cases) (auto simp: opcode_of_def op_sets ext_field_type_def idx_def split: if_splits)
      then have "k < length (args td) \<Longrightarrow> idx (args td) k = Some (args td ! k) \<and> value_type (dfg u) (args td ! k) = Some t"
        by (simp add: idx_def)
      then show ?thesis using 3 by (simp add: fold_ext_field_def at io gv tdi)
    next
      case 4
      then show ?thesis by (simp add: fold_ext_field_def at io gv tdi)
    qed
  qed
qed

lemma fold_mux_fits:
  assumes inv: "fold_inv u" and rm: "room_for (Suc n) u" and i: "inst_at (dfg u) i = Some d"
    and d: "d = IBinary OpMux a b" and ty: "typed (value_type (dfg u)) d t" and dt: "data_ty t"
    and dv: "data_value (dfg u) a" "data_value (dfg u) b"
    and m: "models W (dfg u) env" and ev: "eval_inst env d \<noteq> None"
    and us: "\<And>n e. value_type (dfg u) a = Some (ArrayType n e) \<Longrightarrow> n \<le> 2 ^ 64"
  shows "fits t (fold_mux u i)"
proof -
  have at: "pt2_index (dinsts (dfg u)) i = Some d" by (rule inst_index[OF inv i])
  have io: "idx (args d) 0 = Some a" "idx (args d) 1 = Some b" unfolding d by (simp_all add: args_def idx_def)
  obtain l where s: "value_type (dfg u) a = Some (ArrayType l t)"
    using ty unfolding d by (auto simp: typed_IBinary opcode_of_def op_sets)
  obtain c where c: "get_const_int (dfg u) b = Some c" using const_int_defined[OF inv] data_at(1)[OF inv dv(2)] by blast
  show ?thesis
  proof (cases c)
    case (Some k)
    note ck = const_value[OF inv data_at(1)[OF inv dv(2)] c[unfolded Some]]
    obtain vs where vs: "env a = ArrayVal vs" "length vs = l"
      using data_at(3)[OF inv dv(1) s, of W env] m by (auto simp: has_ty_array)
    have "ivalue k < l"
      using ev ck(3)[OF m] vs unfolding d by (auto simp: eval_inst_def eval_mux_def array_extract_field_def idx_def split: if_splits)
    then have us: "to_usize k = Some (ivalue k)" using us[OF s] by (simp add: to_usize_def)
    have nv: "t \<noteq> VoidType" using dt by auto
    have w: "with_unpacked_sigptr (ArrayType l t) (ext_field_type (ivalue k)) = Some t"
      by (simp add: with_unpacked_sigptr_def ext_field_type_def)
    have "fits t (replaced (ib_ext_field None a (ivalue k) u))"
      using ext_field_step[OF inv rm s data_at(2)[OF inv dv(1)] w nv, of None] fits_new step_ok_inv by blast
    then show ?thesis using c Some us by (simp add: fold_mux_def at io del: One_nat_def)
  qed (use c in \<open>simp add: fold_mux_def at io del: One_nat_def\<close>)
qed

section \<open>The pass returns\<close>

lemma fold_inst_fits:
  assumes inv: "fold_inv u" and rm: "room_for (Suc (zero_insts t) + n) u"
    and di: "data_inst u i v t d" and op: "opcode_of d \<notin> {OpShl, OpShr}"
    and m: "models W (dfg u) env" and ev: "eval_inst env d \<noteq> None"
    and us: "\<And>a n e. a \<in> set (args d) \<Longrightarrow> value_type (dfg u) a = Some (ArrayType n e) \<Longrightarrow> n \<le> 2 ^ 64"
  shows "fits t (fold_inst again u i t)"
proof -
  have i: "inst_at (dfg u) i = Some d" and v: "value_at (dfg u) v = Some (VInst t i)" and dt: "data_ty t"
    and dv: "\<And>a. a \<in> set (args d) \<Longrightarrow> data_value (dfg u) a"
    using di by (auto simp: data_inst_def)
  note wf = fold_inv_wf[OF inv]
  have at: "pt2_index (dinsts (dfg u)) i = Some d" by (rule inst_index[OF inv i])
  have it: "inst_type (dfg u) i = Some t" by (rule inst_type_at[OF wf v])
  have snd: "opcode_of d \<in> data_ops \<Longrightarrow> typed (value_type (dfg u)) d t"
    using inv v i unfolding fold_inv_def sound_graph_def sound_inst_def by blast
  have rm1: "room_for (Suc (zero_insts t + n)) u" using rm by simp
  have fo: "fold_inst again u i t =
     (if opcode_of d = OpInsSlice then fold_ins_slice u i else if opcode_of d = OpExtSlice then fold_ext_slice u i
      else if opcode_of d = OpExtField then fold_ext_field u i else if opcode_of d = OpMux then fold_mux u i
      else (case d of IUnary op a \<Rightarrow> fold_unary u op t a | IBinary op a b \<Rightarrow> fold_binary u op t a b | _ \<Rightarrow> Some (None, u)))"
    using op by (simp add: fold_inst_def at Let_def)
  have fmt: "\<exists>a b k j. d = IInsExt op a b k j" if "opcode_of d = op" "op \<in> {OpInsField, OpExtField, OpInsSlice, OpExtSlice}" for op
    using typed_format(4)[OF snd] that by (auto simp: data_ops_def opcode_of_def)
  consider "opcode_of d = OpInsSlice" | "opcode_of d = OpExtSlice" | "opcode_of d = OpExtField" | "opcode_of d = OpMux"
    | "opcode_of d \<notin> {OpInsSlice, OpExtSlice, OpExtField, OpMux}" by blast
  then show ?thesis
  proof cases
    case 1
    then obtain a b k j where d: "d = IInsExt OpInsSlice a b k j" using fmt[of OpInsSlice] by auto
    then have ab: "data_value (dfg u) a" "data_value (dfg u) b" using dv by (auto simp: args_def)
    have ty: "typed (value_type (dfg u)) d t" using snd 1 by (simp add: data_ops_def)
    show ?thesis using fold_ins_slice_fits[OF inv rm1 i d ty ab m ev] fo 1 by simp
  next
    case 2
    then obtain a b k j where d: "d = IInsExt OpExtSlice a b k j" using fmt[of OpExtSlice] by auto
    then have a: "data_value (dfg u) a" using dv by (auto simp: args_def)
    have ty: "typed (value_type (dfg u)) d t" using snd 2 by (simp add: data_ops_def)
    show ?thesis using fold_ext_slice_fits[OF inv rm i it d ty dt a] fo 2 by simp
  next
    case 3
    then obtain a b k j where d: "d = IInsExt OpExtField a b k j" using fmt[of OpExtField] by auto
    then have a: "data_value (dfg u) a" using dv by (auto simp: args_def)
    have ty: "typed (value_type (dfg u)) d t" using snd 3 by (simp add: data_ops_def)
    show ?thesis using fold_ext_field_fits[OF inv i d ty a] fo 3 by simp
  next
    case 4
    have ty: "typed (value_type (dfg u)) d t" using snd 4 by (simp add: data_ops_def)
    obtain a b where d: "d = IBinary OpMux a b" using typed_format(2)[OF ty] 4 by (auto simp: opcode_of_def)
    then have ab: "data_value (dfg u) a" "data_value (dfg u) b" using dv by (auto simp: args_def)
    have "fits t (fold_mux u i)"
      by (rule fold_mux_fits[OF inv rm1 i d ty dt ab m ev]) (use us d in \<open>auto simp: args_def\<close>)
    then show ?thesis using fo 4 by simp
  next
    case 5
    then have f5: "fold_inst again u i t =
        (case d of IUnary op a \<Rightarrow> fold_unary u op t a | IBinary op a b \<Rightarrow> fold_binary u op t a b | _ \<Rightarrow> Some (None, u))"
      using fo by simp
    consider op2 a where "d = IUnary op2 a" | op2 a b where "d = IBinary op2 a b" | "fold_inst again u i t = Some (None, u)"
      using f5 by (cases d) auto
    then show ?thesis
    proof cases
      case (1 op2 a)
      then have a: "value_at (dfg u) a \<noteq> None" using data_at(1)[OF inv dv] by (simp add: args_def)
      have "value_type (dfg u) a = Some t" if "op2 \<in> {OpNot, OpNeg}"
        using snd 1 that by (auto simp: opcode_of_def data_ops_def typed_IUnary op_sets)
      then show ?thesis using fold_unary_fits[OF inv rm1 a _ m, of op2 t] ev f5 1 by simp
    next
      case (2 op2 a b)
      have l: "value_at (dfg u) a \<noteq> None" "value_at (dfg u) b \<noteq> None" using data_at(1)[OF inv dv] 2 by (auto simp: args_def)
      have "fits t (fold_binary u op2 t a b)"
        by (rule fold_binary_fits[OF inv rm1 l _ _ m]) (use ev 2 snd 5 in \<open>auto simp: opcode_of_def\<close>)
      then show ?thesis using f5 2 by simp
    qed simp
  qed
qed

text \<open>A subtraction from zero is folded to its operand, wrongly but without a panic.\<close>

lemma sub_zero_fold:
  assumes "sub_zero u d" "inst_at (dfg u) i = Some d" "dfg_wf (dfg u)" "fold_inst again u i t = Some (r, u1)"
  shows "u1 = u \<and> (\<forall>w. r = Some w \<longrightarrow> w \<in> set (args d))"
proof -
  obtain a b k where d: "d = IBinary OpSub a b" "get_const_int (dfg u) a = Some (Some k)" "iv_is_zero k"
    "get_const_int (dfg u) b = Some None"
    using assms(1) by (auto simp: sub_zero_def)
  have "fold_binary u OpSub t a b = Some (r, u1)"
    using assms(4) inst_at_index[OF assms(3,2)] d(1) by (simp add: fold_inst_def opcode_of_def)
  then show ?thesis using d
    by (auto simp: fold_binary_def fold_binary_int_def fold_symmetric_def args_def bind_Some_iff split: if_splits)
qed

lemma cf_returns:
  assumes "fold_inv u" "lists_sets ord" "room_for (Suc (zero_insts t) + n) u"
    and "data_inst u i v t d" "opcode_of d \<notin> {OpShl, OpShr}"
    and "models {v} (dfg u) env" "eval_inst env d \<noteq> None"
    and "\<forall>a \<in> set (args d). \<forall>n e. value_type (dfg u) a = Some (ArrayType n e) \<longrightarrow> n \<le> 2 ^ 64"
  shows "\<exists>changed u'. cf_run_on_inst (Suc m) ord i u = Some (changed, u')"
proof -
  define u0 where "u0 = insert_before_inst i u"
  define again where "again = (\<lambda>v u. do { j \<leftarrow> get_value_inst (dfg u) v;
      case j of None \<Rightarrow> Some (False, u) | Some j \<Rightarrow> cf_run_on_inst m ord j u })"
  have inv: "fold_inv u0" and rm: "room_for (Suc (zero_insts t) + n) u0" and di: "data_inst u0 i v t d"
    using cf_entry(1)[OF assms(1,4)] assms(3,4) by (simp_all add: u0_def)
  have g0: "dfg u0 = dfg u" by (simp add: u0_def)
  note res = cf_entry(2-)[OF assms(1,4)]
  have "fits t (fold_inst again u0 i t)"
    by (rule fold_inst_fits[OF inv rm di assms(5)]) (use assms(6-8) g0 in auto)
  then obtain r u1 where f: "fold_inst again u0 i t = Some (r, u1)" and ty: "\<forall>w. r = Some w \<longrightarrow> value_type (dfg u1) w = Some t"
    by (auto simp: fits_def)
  have ok: "step_ok (Suc (zero_insts t)) u0 u1 \<and> (\<forall>w. r = Some w \<longrightarrow> value_at (dfg u1) w \<noteq> None)"
  proof (cases "sub_zero u0 d")
    case True
    have "inst_at (dfg u0) i = Some d" "\<forall>a \<in> set (args d). value_at (dfg u0) a \<noteq> None"
      using di by (auto simp: data_inst_def data_value_def)
    then show ?thesis using sub_zero_fold[OF True _ fold_inv_wf[OF inv] f] step_ok_more[OF step_ok_refl[OF inv]] by auto
  next
    case False
    have "fold_ok {v} (Suc (zero_insts t)) u0 d r u1" by (rule fold_inst_ok[OF inv rm di assms(5) False f])
    then show ?thesis by (auto simp: fold_ok_def)
  qed
  then have st: "step_ok (Suc (zero_insts t)) u0 u1" by simp
  note inv1 = step_ok_inv[OF st]
  have run: "cf_run_on_inst (Suc m) ord i u = (case r of None \<Rightarrow> Some (False, u1)
      | Some w \<Rightarrow> do { t' \<leftarrow> value_type (dfg u1) w; ensure (t = t');
          (_, g) \<leftarrow> replace_use ord v w (move_name v w (dfg u1)); Some (True, u1\<lparr>dfg := g\<rparr>) })"
    using res f unfolding cf_run_on_inst.simps(2) Let_def u0_def[symmetric] again_def[symmetric] by (simp add: g0)
  show ?thesis
  proof (cases r)
    case (Some w)
    have "value_at (dfg u1) v = Some (VInst t i)" by (rule step_ok_at[OF st]) (use di in \<open>simp add: data_inst_def\<close>)
    then have "value_type (dfg u1) v = Some t" using value_type_vd[OF fold_inv_wf[OF inv1]] by (simp add: vd_type_def)
    moreover have "value_at (dfg u1) w \<noteq> None" using ok Some by simp
    ultimately obtain n2 g where "replace_use ord v w (move_name v w (dfg u1)) = Some (n2, g)"
      using replace_sound[OF inv1 assms(2), of w v] ty Some by auto
    then show ?thesis using run Some ty by (auto simp del: cf_run_on_inst.simps)
  qed (use run in \<open>auto simp del: cf_run_on_inst.simps\<close>)
qed

text \<open>The negation of the constant 5 in the example graph.\<close>

lemma demo_foldable:
  "\<exists>u. fold_inv u \<and> dfg u = demo_graph \<and> room_for 1000 u \<and> data_inst u 1 1 (IntType 8) (IUnary OpNeg 0)"
proof -
  obtain u where u: "ready u" "room_for 1000 u" "dfg u = demo_graph" using demo_ready by blast
  have "value_type demo_graph 0 = Some (IntType 8)" using value_type_vd[OF demo_wf(1), of 0] by (simp add: demo_at vd_type_def)
  then have "typed (value_type demo_graph) (IUnary OpNeg 0) (IntType 8)" by (simp add: typed_IUnary int_or_int_signal_def)
  then have "sound_graph demo_graph"
    by (auto simp: sound_graph_def demo_at sound_inst_def aggregate_format_def built_def opcode_of_def data_ops_def op_sets iv_wf_def
        split: if_splits)
  then have "fold_inv u" using u by (simp add: fold_inv_def)
  moreover have "data_inst u 1 1 (IntType 8) (IUnary OpNeg 0)"
    by (auto simp: data_inst_def u(3) demo_at args_def data_value_def vd_type_def split: if_splits)
  ultimately show ?thesis using u by blast
qed

lemma demo_models: "models {1} demo_graph ((\<lambda>_. IntVal (IntValue 8 5))(1 := IntVal (IntValue 8 251)))"
  by (auto simp: models_def demo_at vd_type_def iv_wf_def eval_inst_def args_def unary_op_def try_unary_op_def iv_neg_def
      from_unsigned_def split: if_splits)

lemma demo_defined: "models {1} demo_graph env \<Longrightarrow> eval_inst env (IUnary OpNeg 0) = Some (IntVal (IntValue 8 251))"
  using modelsD(2)[of "{1}" demo_graph env 0 "IntType 8" 0 "IConstInt OpConstInt (IntValue 8 5)" "IntVal (IntValue 8 5)"]
  by (simp add: demo_at args_def eval_inst_def unary_op_def try_unary_op_def iv_neg_def from_unsigned_def)

lemma cf_demo:
  assumes "fold_inv u" "dfg u = demo_graph" "room_for 1000 u" "data_inst u 1 1 (IntType 8) (IUnary OpNeg 0)"
  shows "\<exists>changed u'. cf_run_on_inst (Suc 0) sorted_list_of_set 1 u = Some (changed, u')"
proof -
  have rm: "room_for (Suc (zero_insts (IntType 8)) + 0) u" using assms(3) by (simp add: room_for_def)
  show ?thesis
    using cf_returns[OF assms(1) lists_sets_sorted rm assms(4) _ demo_models[folded assms(2)], of 0]
      demo_defined[OF demo_models] assms(2) value_type_vd[OF demo_wf(1), of 0]
    by (auto simp: opcode_of_def args_def demo_at vd_type_def simp del: cf_run_on_inst.simps)
qed

section \<open>Properties\<close>

text \<open>
  C4: constant folding is sound. Let \<open>i\<close> be an instruction on data that is well typed, does
  not use its own result (nor does the aggregate it extracts from), and always computes a value; no shift, and
  not a subtraction from a constant zero, which is folded wrongly. When the pass has run on
  \<open>i\<close>, the unit is again well formed and well typed with every value it had, and every valuation of the new unit is a
  valuation of the old one: whatever the folded program computes, the original computes.
\<close>

theorem constant_folding_sound:
  assumes "fold_inv u" "lists_sets ord" "room_for (Suc (zero_insts t) + n) u"
    and "data_inst u i v t d" "opcode_of d \<notin> {OpShl, OpShr}" "\<not> sub_zero u d"
    and "\<forall>env. models {v} (dfg u) env \<longrightarrow> eval_inst env d \<noteq> None"
    and "cf_run_on_inst (Suc m) ord i u = Some (changed, u')"
  shows "fold_inv u' \<and> value_at (dfg u) \<subseteq>\<^sub>m value_at (dfg u') \<and>
    (\<forall>env. models {} (dfg u') env \<longrightarrow> models {} (dfg u) env)"
  by (rule cf_sound[OF assms])

lemma constant_folding_sound_witness:
  "\<exists>u changed u'. dfg u = demo_graph \<and> cf_run_on_inst 1 sorted_list_of_set 1 u = Some (changed, u') \<and>
     (\<forall>env. models {} (dfg u') env \<longrightarrow> models {} demo_graph env)"
proof -
  obtain u where u: "fold_inv u" "dfg u = demo_graph" "room_for 1000 u" "data_inst u 1 1 (IntType 8) (IUnary OpNeg 0)"
    using demo_foldable by blast
  have rm: "room_for (Suc (zero_insts (IntType 8)) + 0) u" using u(3) by (simp add: room_for_def)
  obtain c u' where r: "cf_run_on_inst (Suc 0) sorted_list_of_set 1 u = Some (c, u')"
    using fold_inst_fits[of u] cf_demo u by blast
  have "\<forall>env. models {} (dfg u') env \<longrightarrow> models {} (dfg u) env"
    using constant_folding_sound[OF u(1) lists_sets_sorted rm u(4) _ _ _ r] demo_defined u(2)
    by (simp add: opcode_of_def sub_zero_def del: cf_run_on_inst.simps)
  then show ?thesis using r u(2) by (auto simp del: cf_run_on_inst.simps)
qed

text \<open>
  C25: constant folding returns. On an instruction on data of a well typed graph that is not a shift,
  that uses neither its own result nor a value computed from it by one instruction
  (\<open>data_inst\<close>), that has a value in some valuation and whose array operands are no longer than a
  \<open>usize\<close> counts, the pass returns: no panic on a constant, and the type check of the replacement
  never fails. One unit of fuel is enough; the tables must have room for the constants it builds.
  (A division by a constant zero has a value in no valuation, and does panic. A subtraction from
  a constant zero returns too, with the wrong result.)
\<close>

theorem constant_folding_returns:
  assumes "fold_inv u" "lists_sets ord" "room_for (Suc (zero_insts t) + n) u"
    and "data_inst u i v t d" "opcode_of d \<notin> {OpShl, OpShr}"
    and "models {v} (dfg u) env" "eval_inst env d \<noteq> None"
    and "\<forall>a \<in> set (args d). \<forall>n e. value_type (dfg u) a = Some (ArrayType n e) \<longrightarrow> n \<le> 2 ^ 64"
  shows "\<exists>changed u'. cf_run_on_inst (Suc m) ord i u = Some (changed, u')"
  by (rule cf_returns[OF assms])

lemma constant_folding_returns_witness:
  "\<exists>u changed u'. dfg u = demo_graph \<and> cf_run_on_inst 1 sorted_list_of_set 1 u = Some (changed, u')"
proof -
  obtain u where u: "fold_inv u" "dfg u = demo_graph" "room_for 1000 u" "data_inst u 1 1 (IntType 8) (IUnary OpNeg 0)"
    using demo_foldable by blast
  have rm: "room_for (Suc (zero_insts (IntType 8)) + 0) u" using u(3) by (simp add: room_for_def)
  show ?thesis
    using constant_folding_returns[OF u(1) lists_sets_sorted rm u(4) _ demo_models[folded u(2)], of 0]
      demo_defined[OF demo_models] u(2) value_type_vd[OF demo_wf(1), of 0]
    by (auto simp: opcode_of_def args_def demo_at vd_type_def simp del: cf_run_on_inst.simps)
qed

text \<open>
  C40: a subtraction from zero is folded wrongly. The pass treats \<open>sub\<close> like the symmetric
  operations: with a constant zero on the left and an unknown value on the right it returns
  the right operand, although for every width above one there is an operand whose negation
  is another value.
\<close>

theorem sub_zero_folded_to_operand:
  assumes "get_const_int (dfg u) a = Some (Some k)" "iv_is_zero k" "get_const_int (dfg u) b = Some None" "1 < w"
  shows "fold_binary u OpSub (IntType w) a b = Some (Some b, u) \<and>
    (\<exists>x. iv_wf x \<and> width x = w \<and> eval_binary OpSub (iv_zero w) x \<noteq> Some x)"
proof
  show "fold_binary u OpSub (IntType w) a b = Some (Some b, u)"
    using assms by (simp add: fold_binary_def fold_binary_int_def fold_symmetric_def)
  let ?x = "IntValue w 1"
  have w: "(2::int) < 2 ^ w" "(1::nat) < 2 ^ w" using power_strict_increasing[OF assms(4), of "2::int"] one_less_power[of "2::nat" w] assms(4) by simp_all
  have "to_signed (iv_zero w) = Some 0" "to_signed ?x = Some 1"
    using assms(4) signed_of_one[of ?x] w by (simp_all add: to_signed_def iv_is_one_def iv_wf_def bit_1_iff iv_zero_def)
  then have "iv_sub (iv_zero w) ?x = Some (from_signed w (- 1))" by (simp add: iv_sub_def)
  moreover have "int (ivalue (from_signed w (- 1))) = (- 1) mod 2 ^ w" by (simp add: ivalue_from_signed)
  then have "from_signed w (- 1) \<noteq> ?x" using w(1) by (auto simp: zmod_minus1)
  ultimately have "eval_binary OpSub (iv_zero w) ?x \<noteq> Some ?x"
    by (simp add: eval_binary_def try_binary_op_def)
  moreover have "iv_wf ?x" using w by (simp add: iv_wf_def)
  ultimately show "\<exists>x. iv_wf x \<and> width x = w \<and> eval_binary OpSub (iv_zero w) x \<noteq> Some x"
    by (intro exI[of _ ?x]) simp
qed

lemma sub_zero_folded_to_operand_witness:
  "\<exists>u :: unit_builder. fold_binary u OpSub (IntType 8) 0 1 = Some (Some 1, u)"
proof -
  obtain u0 :: unit_builder where "dfg u0 = demo_graph" using demo_ready by blast
  let ?g = "dfg_new\<lparr>dinsts := \<lparr>storage = [IConstInt OpConstInt (IntValue 8 0), IUnary OpNeg 0], count = 2, used = {0, 1}, free = {}\<rparr>,
    dvalues := \<lparr>storage = [VInst (IntType 8) 0, VInst (IntType 8) 1], count = 2, used = {0, 1}, free = {}\<rparr>\<rparr>"
  have "get_const_int ?g 0 = Some (Some (IntValue 8 0))" "get_const_int ?g 1 = Some None"
    by (simp_all add: get_const_int_def get_value_inst_def pt2_index_def idx_def inst_const_int_def)
  then show ?thesis
    using sub_zero_folded_to_operand[of "u0\<lparr>dfg := ?g\<rparr>" 0 "IntValue 8 0" 1 8] by (auto simp: iv_is_zero_def)
qed

end
