(* ===== verification/InstSimp.thy ===== *)
theory InstSimp
  imports FoldReturns
begin

text \<open>
  Instruction simplification (\<^verbatim>\<open>src/src/pass/insim.rs\<close>): the pass on one instruction, its
  soundness on the instructions that compute data, and what it does to a conditional drive.
  \<open>ord\<close> is the iteration order of the use lists.
\<close>

section \<open>The pass\<close>

text \<open>\<^verbatim>\<open>replace\<close>: whether any use was redirected.\<close>

definition insim_replace :: "(nat set \<Rightarrow> nat list) \<Rightarrow> nat \<Rightarrow> nat \<Rightarrow> unit_builder \<Rightarrow> (bool \<times> unit_builder) option" where
  "insim_replace ord from_value to u =
     do { (n, g) \<leftarrow> replace_use ord from_value to (dfg u); Some (n > 0, u\<lparr>dfg := g\<rparr>) }"

definition simplify_mux :: "(nat set \<Rightarrow> nat list) \<Rightarrow> nat \<Rightarrow> nat \<Rightarrow> unit_builder \<Rightarrow> (bool \<times> unit_builder) option" where
  "simplify_mux ord i value u =
     do { data \<leftarrow> pt2_index (dinsts (dfg u)) i;
          array \<leftarrow> idx (args data) 0;
          array_inst \<leftarrow> get_value_inst (dfg u) array;
          case array_inst of None \<Rightarrow> Some (False, u)
          | Some j \<Rightarrow>
              do { ad \<leftarrow> pt2_index (dinsts (dfg u)) j;
                   case args ad of [] \<Rightarrow> Some (False, u)
                   | first # rest \<Rightarrow>
                       if \<forall>a \<in> set rest. a = first then insim_replace ord value first u
                       else Some (False, u) } }"

text \<open>The first \<^verbatim>\<open>match\<close>: a conditional drive whose condition is a constant.\<close>

definition simplify_drv_cond :: "nat \<Rightarrow> unit_builder \<Rightarrow> unit_builder option" where
  "simplify_drv_cond i u =
     do { data \<leftarrow> pt2_index (dinsts (dfg u)) i;
          cond \<leftarrow> idx (args data) 3;
          konst \<leftarrow> get_const_int (dfg u) cond;
          case konst of None \<Rightarrow> Some u
          | Some konst \<Rightarrow>
              do { u \<leftarrow> (if iv_is_one konst then
                          do { signal \<leftarrow> idx (args data) 0;
                               value \<leftarrow> idx (args data) 1;
                               delay \<leftarrow> idx (args data) 2;
                               (_, u) \<leftarrow> ib_drv None signal value delay u;
                               Some u }
                        else Some u);
                   delete_inst i u } }"

definition same_args :: "inst_data \<Rightarrow> bool option" where
  "same_args data = do { a \<leftarrow> idx (args data) 0; b \<leftarrow> idx (args data) 1; Some (a = b) }"

definition insim_run_on_inst :: "(nat set \<Rightarrow> nat list) \<Rightarrow> nat \<Rightarrow> unit_builder \<Rightarrow> (bool \<times> unit_builder) option" where
  "insim_run_on_inst ord i u =
     do { let u = insert_after_inst i u;
          data \<leftarrow> pt2_index (dinsts (dfg u)) i;
          u \<leftarrow> (if opcode_of data = OpDrvCond then simplify_drv_cond i u else Some u);
          if \<not> has_result (dfg u) i then Some (False, u)
          else do {
            value \<leftarrow> inst_result (dfg u) i;
            data \<leftarrow> pt2_index (dinsts (dfg u)) i;
            if opcode_of data \<in> {OpAnd, OpOr} then
              do { same \<leftarrow> same_args data;
                   if same then do { a \<leftarrow> idx (args data) 0; insim_replace ord value a u } else Some (False, u) }
            else if opcode_of data \<in> {OpXor, OpUmod, OpUrem, OpSmod, OpSrem} then
              do { same \<leftarrow> same_args data;
                   if same then
                     do { t \<leftarrow> value_type (dfg u) value;
                          (zero, u) \<leftarrow> ib_const_zero None t u;
                          insim_replace ord value zero u }
                   else Some (False, u) }
            else if opcode_of data = OpMux then simplify_mux ord i value u
            else Some (False, u) } }"

section \<open>Equal operands\<close>

lemma from_signed_zero: "from_signed w 0 = iv_zero w"
  by (intro iv_eqI) (simp_all add: iv_zero_def flip: of_nat_eq_iff[where 'a = int] add: ivalue_from_signed)

lemma smod_same: "(a::int) smod a = 0"
  by (cases "a = 0") (simp_all add: signed_modulo_int_def signed_divide_int_def)

lemma same_operand:
  assumes "eval_binary op x x = Some z" "iv_wf x"
  shows "op \<in> {OpAnd, OpOr} \<Longrightarrow> z = x"
    and "op \<in> {OpXor, OpUmod, OpUrem, OpSmod, OpSrem} \<Longrightarrow> z = iv_zero (width x)"
proof -
  have "from_unsigned w 0 = iv_zero w" for w by (simp add: from_unsigned_def iv_zero_def)
  moreover have "op \<in> arith_ops \<Longrightarrow> try_binary_op op x x = Some (Some z)" using eval_binary_arith assms(1) by blast
  ultimately show "op \<in> {OpAnd, OpOr} \<Longrightarrow> z = x"
    and "op \<in> {OpXor, OpUmod, OpUrem, OpSmod, OpSrem} \<Longrightarrow> z = iv_zero (width x)"
    using from_unsigned_same[OF assms(2) refl]
    by (auto simp: arith_ops_def try_binary_op_def iv_and_def iv_or_def iv_xor_def iv_umod_def iv_urem_def
      iv_smod_def iv_srem_def bind_Some_iff smod_same from_signed_zero Let_def)
qed

lemma same_operand_inst:
  assumes inv: "fold_inv u" and a: "value_at (dfg u) a \<noteq> None"
    and ty: "typed (value_type (dfg u)) (IBinary op a a) (IntType w)" and op: "op \<in> arith_ops"
    and m: "models W (dfg u) env" and ev: "eval_inst env (IBinary op a a) = Some x"
  shows "op \<in> {OpAnd, OpOr} \<Longrightarrow> env a = x"
    and "op \<in> {OpXor, OpUmod, OpUrem, OpSmod, OpSrem} \<Longrightarrow> x = IntVal (iv_zero w)"
proof -
  obtain p q z where pqz: "env a = IntVal p" "env a = IntVal q" "x = IntVal z" "eval_binary op p q = Some z"
    "iv_wf p" "width p = w"
    by (rule arith_operands[OF inv a a ty op m ev])
  then have z: "eval_binary op p p = Some z" by simp
  show "op \<in> {OpAnd, OpOr} \<Longrightarrow> env a = x" using same_operand(1)[OF z pqz(5)] pqz by simp
  show "op \<in> {OpXor, OpUmod, OpUrem, OpSmod, OpSrem} \<Longrightarrow> x = IntVal (iv_zero w)"
    using same_operand(2)[OF z pqz(5)] pqz by simp
qed

section \<open>A multiplexer of equal values\<close>

text \<open>
  The array of a multiplexer is made in this unit by \<open>array\<close> or \<open>array_uniform\<close>. The code does
  not check it, and takes the operands of any instruction for the elements.
\<close>

definition array_literal :: "data_flow_graph \<Rightarrow> nat \<Rightarrow> bool" where
  "array_literal g a \<longleftrightarrow> (\<forall>t j e. value_at g a = Some (VInst t j) \<longrightarrow> inst_at g j = Some e \<longrightarrow>
     opcode_of e \<in> {OpArray, OpArrayUniform})"

lemma mux_of_equal:
  assumes inv: "fold_inv u" and di: "data_inst u i v t d" and d: "d = IBinary OpMux a b"
    and lit: "array_literal (dfg u) a" and at: "value_at (dfg u) a = Some (VInst s j)" "inst_at (dfg u) j = Some e"
    and as: "args e = f # rest" "\<forall>x \<in> set rest. x = f"
  shows "value_at (dfg u) f \<noteq> None" "value_type (dfg u) f = Some t"
    "models {v} (dfg u) env \<Longrightarrow> eval_inst env d = Some x \<Longrightarrow> env f = x"
proof -
  note wf = fold_inv_wf[OF inv]
  have op: "opcode_of e \<in> {OpArray, OpArrayUniform}" using lit at by (auto simp: array_literal_def)
  have "typed (value_type (dfg u)) d t"
    using inv di d unfolding fold_inv_def sound_graph_def sound_inst_def data_inst_def by (auto simp: opcode_of_def data_ops_def)
  then obtain n where a: "value_type (dfg u) a = Some (ArrayType n t)" unfolding d by (auto simp: typed_IBinary op_sets opcode_of_def)
  then have s: "s = ArrayType n t" using value_type_vd[OF wf at(1)] by (simp add: vd_type_def)
  have dt: "data_ty s" using di s by (simp add: data_inst_def)
  have snd: "sound_inst (value_type (dfg u)) e s" using inv at unfolding fold_inv_def sound_graph_def by blast
  have ag: "\<forall>x \<in> set (args e). value_at (dfg u) x \<noteq> None"
    "\<forall>env x. set (args e) \<inter> {v} = {} \<longrightarrow> models {v} (dfg u) env \<longrightarrow> eval_inst env e = Some x \<longrightarrow> env a = x"
    using aggregate_operands[OF inv at dt, of "{v}"] op by auto
  have nv: "set (args e) \<inter> {v} = {}" using di d at by (auto simp: data_inst_def args_def)
  show "value_at (dfg u) f \<noteq> None" using ag(1) as(1) by simp
  consider (uniform) m where "e = IArray OpArrayUniform m f" | (array) as where "e = IAggregate OpArray as"
    using snd op as(1) by (auto simp: sound_inst_def aggregate_format_def opcode_of_def args_def)
  then show "value_type (dfg u) f = Some t"
  proof cases
    case uniform
    then show ?thesis using snd s by (auto simp: sound_inst_def built_def)
  next
    case array
    then have "typed (value_type (dfg u)) e s" using snd by (simp add: sound_inst_def opcode_of_def data_ops_def)
    then show ?thesis using array as(1) s by (cases rule: typed.cases) (auto simp: opcode_of_def args_def op_sets)
  qed
  assume m: "models {v} (dfg u) env" and ev: "eval_inst env d = Some x"
  have elems: "\<exists>vs. env a = ArrayVal vs \<and> set vs \<subseteq> {env f}"
  proof -
    consider (uniform) m where "e = IArray OpArrayUniform m f" | (array) as where "e = IAggregate OpArray as"
      using snd op as(1) by (auto simp: sound_inst_def aggregate_format_def opcode_of_def args_def)
    then show ?thesis
    proof cases
      case (uniform k)
      have "env a = ArrayVal (array_new_uniform k (env f))" using ag(2) nv m uniform by (auto simp: eval_inst_def)
      then show ?thesis by (auto simp: array_new_uniform_def)
    next
      case (array xs)
      have "env a = ArrayVal (map env xs)" using ag(2) nv m array by (auto simp: eval_inst_def)
      then show ?thesis using array as by (auto simp: args_def)
    qed
  qed
  then obtain vs where vs: "env a = ArrayVal vs" "set vs \<subseteq> {env f}" by blast
  obtain k where "k < length vs" "x = vs ! k"
    using ev d vs(1) by (auto simp: eval_inst_def eval_mux_def array_extract_field_def idx_def bind_Some_iff split: if_splits)
  then show "env f = x" using vs(2) by (metis insertE nth_mem singletonD subset_iff)
qed

section \<open>Soundness\<close>

text \<open>
  What one application of the pass leaves behind: a valid unit whose valuations are
  valuations of the unit before.
\<close>

definition keeps_meaning :: "unit_builder \<Rightarrow> (bool \<times> unit_builder) option \<Rightarrow> bool" where
  "keeps_meaning u r \<longleftrightarrow> (\<exists>changed u'. r = Some (changed, u') \<and> fold_inv u' \<and> value_at (dfg u) \<subseteq>\<^sub>m value_at (dfg u') \<and>
     (\<forall>env. models {} (dfg u') env \<longrightarrow> models {} (dfg u) env))"

lemma keeps_meaning_refl: "fold_inv u \<Longrightarrow> keeps_meaning u (Some (changed, u))"
  by (simp add: keeps_meaning_def)

lemma insim_replace_sound:
  assumes st: "step_ok k u u1" and ord: "lists_sets ord" and di: "data_inst u i v t d"
    and w: "value_at (dfg u1) w \<noteq> None" "value_type (dfg u1) w = Some t"
    and def: "\<forall>env. models {v} (dfg u) env \<longrightarrow> eval_inst env d \<noteq> None"
    and val: "\<And>env x. models {v} (dfg u1) env \<Longrightarrow> eval_inst env d = Some x \<Longrightarrow> env w = x"
  shows "keeps_meaning u (insim_replace ord v w u1)"
proof -
  note inv1 = step_ok_inv[OF st]
  have v1: "value_at (dfg u1) v = Some (VInst t i)" by (rule step_ok_at[OF st]) (use di in \<open>simp add: data_inst_def\<close>)
  have vt: "value_type (dfg u1) v = value_type (dfg u1) w"
    using w(2) value_type_vd[OF fold_inv_wf[OF inv1] v1] by (simp add: vd_type_def)
  obtain n g where g: "replace_use ord v w ((dfg u1)\<lparr>names := names (dfg u1)\<rparr>) = Some (n, g)" "fold_inv (u1\<lparr>dfg := g\<rparr>)"
    "inst_at g = (\<lambda>i. map_option (args_mut (subst v w)) (inst_at (dfg u1) i))" "value_at g = value_at (dfg u1)"
    using replace_sound_names[OF inv1 ord w(1) vt] by blast
  have "models {} (dfg u) env" if "models {} g env" for env
    by (rule redirect_models[OF st di w _ def g(3,4) that]) (rule val)
  then show ?thesis using g(1,2,4) st by (simp add: keeps_meaning_def step_ok_def insim_replace_def)
qed

text \<open>The insertion point moves after the instruction, which changes nothing else.\<close>

lemma insert_after_simps [simp]:
  "dfg (insert_after_inst i u) = dfg u" "layout (insert_after_inst i u) = layout u" "cfg (insert_after_inst i u) = cfg u"
  "room_for n (insert_after_inst i u) \<longleftrightarrow> room_for n u" "data_inst (insert_after_inst i u) = data_inst u"
  by (simp_all add: insert_after_inst_def room_for_def data_inst_def fun_eq_iff)

lemma insim_entry:
  assumes "fold_inv u" "data_inst u i v t d"
  shows "fold_inv (insert_after_inst i u)"
proof -
  have i: "inst_at (dfg u) i = Some d" using assms(2) by (simp add: data_inst_def)
  obtain xs where xs: "unit_rep u xs" using assms(1) by (auto simp: fold_inv_def ready_def)
  have "unit_rep (insert_after_inst i u) xs" using xs by (simp add: unit_rep_def)
  moreover have "i \<in> members xs" using unit_repD(4)[OF xs] i by (auto simp: live_def)
  ultimately have "ready (insert_after_inst i u)" by (auto simp: ready_def insert_after_inst_def pos_valid_def)
  then show ?thesis using assms(1) by (simp add: fold_inv_def)
qed

lemma simplify_same:
  assumes inv: "fold_inv u" and ord: "lists_sets ord" and rm: "room_for (Suc n) u" and di: "data_inst u i v t d"
    and d: "d = IBinary op a a" and op: "op \<in> arith_ops"
    and def: "\<forall>env. models {v} (dfg u) env \<longrightarrow> eval_inst env d \<noteq> None"
  shows "op \<in> {OpAnd, OpOr} \<Longrightarrow> keeps_meaning u (insim_replace ord v a u)"
    and "op \<in> {OpXor, OpUmod, OpUrem, OpSmod, OpSrem} \<Longrightarrow>
      keeps_meaning u (do { (zero, u) \<leftarrow> ib_const_zero None t u; insim_replace ord v zero u })"
proof -
  have a: "data_value (dfg u) a" using di d by (simp add: data_inst_def args_def)
  note al = data_at(1)[OF inv a]
  have ty: "typed (value_type (dfg u)) (IBinary op a a) t"
    using inv di d op unfolding fold_inv_def sound_graph_def sound_inst_def data_inst_def by (auto simp: opcode_of_def data_ops_def)
  then have at: "value_type (dfg u) a = Some t" using op by (auto simp: typed_IBinary opcode_of_def op_sets)
  then obtain w where w: "t = IntType w"
    using ty op di by (cases t) (auto simp: typed_IBinary int_or_int_signal_def data_inst_def opcode_of_def op_sets)
  note same = same_operand_inst[OF inv al ty[unfolded w] op]
  show "keeps_meaning u (insim_replace ord v a u)" if o: "op \<in> {OpAnd, OpOr}"
    by (rule insim_replace_sound[OF step_ok_refl[OF inv] ord di al at def]) (use same(1) o d in blast)
  assume o: "op \<in> {OpXor, OpUmod, OpUrem, OpSmod, OpSrem}"
  obtain z u1 where z: "ib_const_zero None t u = Some (z, u1)" "step_ok 1 u u1"
    "computes u1 z t (IConstInt OpConstInt (iv_zero w))"
    using const_int_step[OF inv rm, of "iv_zero w" None] w by auto
  note inv1 = step_ok_inv[OF z(2)]
  have "keeps_meaning u (insim_replace ord v z u1)"
  proof (rule insim_replace_sound[OF z(2) ord di _ _ def])
    show "value_at (dfg u1) z \<noteq> None" "value_type (dfg u1) z = Some t" using computes_type[OF inv1 z(3)] by simp_all
    show "env z = x" if m: "models {v} (dfg u1) env" and e: "eval_inst env d = Some x" for env x
      using computes_value[OF z(3) m, of "IntVal (iv_zero w)"] same(2)[OF step_ok_models[OF z(2) m]] e o d w
      by (simp add: args_def eval_inst_def)
  qed
  then show "keeps_meaning u (do { (zero, u) \<leftarrow> ib_const_zero None t u; insim_replace ord v zero u })" using z(1) by simp
qed

lemma simplify_mux_sound:
  assumes inv: "fold_inv u" and ord: "lists_sets ord" and di: "data_inst u i v t d" and d: "d = IBinary OpMux a b"
    and lit: "array_literal (dfg u) a" and def: "\<forall>env. models {v} (dfg u) env \<longrightarrow> eval_inst env d \<noteq> None"
  shows "keeps_meaning u (simplify_mux ord i v u)"
proof -
  have at: "pt2_index (dinsts (dfg u)) i = Some d" by (rule inst_index[OF inv]) (use di in \<open>simp add: data_inst_def\<close>)
  have "data_value (dfg u) a" using di d by (simp add: data_inst_def args_def)
  then obtain vd where vd: "value_at (dfg u) a = Some vd" using data_at(1)[OF inv] by blast
  show ?thesis
  proof (cases "\<exists>s j. vd = VInst s j")
    case False
    then have "simplify_mux ord i v u = Some (False, u)"
      using at d vd by (cases vd) (simp_all add: simplify_mux_def args_def idx_def get_value_inst_def value_at_index[OF fold_inv_wf[OF inv]])
    then show ?thesis using keeps_meaning_refl[OF inv] by simp
  next
    case True
    then obtain s j where v: "value_at (dfg u) a = Some (VInst s j)" using vd by blast
    then obtain e where e: "inst_at (dfg u) j = Some e" using dfg_wfD(6,7)[OF fold_inv_wf[OF inv]] by blast
    have run: "simplify_mux ord i v u = (case args e of [] \<Rightarrow> Some (False, u) | f # rest \<Rightarrow>
        if \<forall>x \<in> set rest. x = f then insim_replace ord v f u else Some (False, u))"
      using at d get_value_inst_at[OF fold_inv_wf[OF inv] v] inst_index[OF inv e]
      by (simp add: simplify_mux_def args_def[of "IBinary _ _ _"] idx_def)
    show ?thesis
    proof (cases "\<exists>f rest. args e = f # rest \<and> (\<forall>x \<in> set rest. x = f)")
      case True
      then obtain f rest where f: "args e = f # rest" "\<forall>x \<in> set rest. x = f" by blast
      note m = mux_of_equal[OF inv di d lit v e f]
      have "keeps_meaning u (insim_replace ord v f u)"
      proof (rule insim_replace_sound[OF step_ok_refl[OF inv] ord di m(1,2) def])
        show "env f = x" if "models {v} (dfg u) env" "eval_inst env d = Some x" for env x using m(3) that by blast
      qed
      then show ?thesis unfolding run using f by simp
    next
      case False
      then show ?thesis unfolding run using keeps_meaning_refl[OF inv] by (cases "args e") auto
    qed
  qed
qed

lemma insim_sound:
  assumes inv: "fold_inv u" and ord: "lists_sets ord" and rm: "room_for (Suc n) u" and di: "data_inst u i v t d"
    and lit: "\<And>a b. d = IBinary OpMux a b \<Longrightarrow> array_literal (dfg u) a"
    and def: "\<forall>env. models {v} (dfg u) env \<longrightarrow> eval_inst env d \<noteq> None" and nd: "opcode_of d \<noteq> OpDrvCond"
  shows "keeps_meaning u (insim_run_on_inst ord i u)"
proof -
  define u0 where "u0 = insert_after_inst i u"
  have g0: "dfg u0 = dfg u" by (simp add: u0_def)
  have inv0: "fold_inv u0" and rm0: "room_for (Suc n) u0" and di0: "data_inst u0 i v t d"
    using insim_entry[OF inv di] rm di by (simp_all add: u0_def)
  have def0: "\<forall>env. models {v} (dfg u0) env \<longrightarrow> eval_inst env d \<noteq> None" using def g0 by simp
  have i: "inst_at (dfg u0) i = Some d" using di0 by (simp add: data_inst_def)
  have at: "pt2_index (dinsts (dfg u0)) i = Some d" by (rule inst_index[OF inv0 i])
  have res: "has_result (dfg u0) i" "inst_result (dfg u0) i = Some v" "value_type (dfg u0) v = Some t"
    using cf_entry(2-)[OF inv di] g0 by simp_all
  have ty: "opcode_of d \<in> data_ops \<Longrightarrow> typed (value_type (dfg u0)) d t"
    using inv0 di0 unfolding fold_inv_def sound_graph_def sound_inst_def data_inst_def by blast
  let ?op = "opcode_of d"
  have body: "insim_run_on_inst ord i u = (if ?op \<in> {OpAnd, OpOr} then
      do { same \<leftarrow> same_args d; if same then do { a \<leftarrow> idx (args d) 0; insim_replace ord v a u0 } else Some (False, u0) }
    else if ?op \<in> {OpXor, OpUmod, OpUrem, OpSmod, OpSrem} then
      do { same \<leftarrow> same_args d; if same then do { (zero, u) \<leftarrow> ib_const_zero None t u0; insim_replace ord v zero u }
        else Some (False, u0) }
    else if ?op = OpMux then simplify_mux ord i v u0 else Some (False, u0))"
    using nd at res unfolding insim_run_on_inst_def Let_def u0_def[symmetric] by (simp cong: if_cong)
  have bin: "\<exists>a b. d = IBinary op a b" if "?op = op" "op \<in> arith_ops \<union> {OpMux}" for op
  proof -
    have "op \<in> data_ops" "op \<notin> {OpArray, OpStruct}" using that(2) by (auto simp: op_sets)
    then show ?thesis using typed_format(2)[OF ty] that by (auto simp: opcode_of_def)
  qed
  note idle = keeps_meaning_refl[OF inv0]
  note io = same_args_def args_def idx_def opcode_of_def
  consider (logic) "?op \<in> {OpAnd, OpOr}" | (zero) "?op \<in> {OpXor, OpUmod, OpUrem, OpSmod, OpSrem}" | (mux) "?op = OpMux"
    | (other) "?op \<notin> {OpAnd, OpOr, OpXor, OpUmod, OpUrem, OpSmod, OpSrem, OpMux}" by blast
  then have "keeps_meaning u0 (insim_run_on_inst ord i u)"
  proof cases
    case logic
    then obtain op a b where d: "d = IBinary op a b" "op \<in> {OpAnd, OpOr}" "op \<in> arith_ops"
      using bin[OF refl] by (auto simp: arith_ops_def opcode_of_def)
    then have "insim_run_on_inst ord i u = (if a = b then insim_replace ord v a u0 else Some (False, u0))"
      unfolding body by (auto simp: io)
    then show ?thesis using simplify_same(1)[OF inv0 ord rm0 di0 _ d(3) def0] d idle by auto
  next
    case zero
    then obtain op a b where d: "d = IBinary op a b" "op \<in> {OpXor, OpUmod, OpUrem, OpSmod, OpSrem}" "op \<in> arith_ops"
      using bin[OF refl] by (auto simp: arith_ops_def opcode_of_def)
    then have "insim_run_on_inst ord i u =
        (if a = b then do { (zero, u) \<leftarrow> ib_const_zero None t u0; insim_replace ord v zero u } else Some (False, u0))"
      unfolding body by (auto simp: io)
    then show ?thesis using simplify_same(2)[OF inv0 ord rm0 di0 _ d(3) def0] d idle by auto
  next
    case mux
    then obtain a b where d: "d = IBinary OpMux a b" using bin[OF mux] by auto
    then have "array_literal (dfg u0) a" using lit g0 by simp
    then show ?thesis using simplify_mux_sound[OF inv0 ord di0 d _ def0] body mux by simp
  next
    case other
    then have "insim_run_on_inst ord i u = Some (False, u0)" unfolding body by simp
    then show ?thesis using idle by simp
  qed
  then show ?thesis by (simp add: keeps_meaning_def g0)
qed

section \<open>Conditional drives\<close>

lemma swap_in_block:
  "j \<noteq> i \<Longrightarrow> distinct ys \<Longrightarrow> filter (\<lambda>x. x \<noteq> i) (ins_after (\<lambda>x. x = i) j ys) = map (\<lambda>x. if x = i then j else x) ys"
proof (induction ys)
  case (Cons y ys)
  have "filter (\<lambda>x. x \<noteq> i) ys = map (\<lambda>x. if x = i then j else x) ys" if "i \<notin> set ys"
    using that by (induction ys) auto
  then show ?case using Cons by auto
qed simp

lemma drv_cond_effect:
  assumes rep: "unit_rep u xs" and rm: "room u" and d: "inst_at (dfg u) i = Some (IQuaternary OpDrvCond s v t c)"
    and nr: "dresults (dfg u) i = None" and c: "get_const_int (dfg u) c = Some (Some k)"
  shows "\<exists>u'. insim_run_on_inst ord i u = Some (False, u') \<and>
    (if iv_is_one k
     then \<exists>j. inst_at (dfg u) j = None \<and> inst_at (dfg u') = (inst_at (dfg u))(i := None, j \<mapsto> ITernary OpDrv s v t) \<and>
       unit_rep u' (everywhere (map (\<lambda>x. if x = i then j else x)) xs)
     else inst_at (dfg u') = (inst_at (dfg u))(i := None) \<and> unit_rep u' (everywhere (filter (\<lambda>x. x \<noteq> i)) xs))"
proof -
  let ?d = "IQuaternary OpDrvCond s v t c"
  define u0 where "u0 = insert_after_inst i u"
  have g0: "dfg u0 = dfg u" by (simp add: u0_def)
  have rep0: "unit_rep u0 xs" using rep by (simp add: unit_rep_def u0_def)
  note r = unit_repD[OF rep]
  have i: "i \<in> members xs" using r(4) d by (auto simp: live_def)
  have at: "pt2_index (dinsts (dfg u)) i = Some ?d" by (rule inst_at_index[OF r(1) d])
  have lv: "\<forall>x \<in> set [s, v, t, c]. value_ok (dfg u) x" using dfg_wfD(5)[OF r(1) d] by (simp add: args_def)
  have hr: "\<not> has_result g i" if "dresults g i = None" for g using that by (simp add: has_result_def st_contains_def)
  have args: "idx (args ?d) 0 = Some s" "idx (args ?d) (Suc 0) = Some v" "idx (args ?d) 2 = Some t" "idx (args ?d) 3 = Some c"
    by (simp_all add: args_def idx_def)
  have run: "insim_run_on_inst ord i u = do { u \<leftarrow> simplify_drv_cond i u0;
      if \<not> has_result (dfg u) i then Some (False, u) else None }" if "\<And>u1. simplify_drv_cond i u0 = Some u1 \<Longrightarrow> \<not> has_result (dfg u1) i"
    using that at by (cases "simplify_drv_cond i u0") (simp_all add: insim_run_on_inst_def u0_def opcode_of_def)
  show ?thesis
  proof (cases "iv_is_one k")
    case True
    have rm0: "room u0" and pv: "pos_valid (pos u0) xs" and p: "pos u0 = PosAfter i"
      using rm i by (simp_all add: u0_def room_def insert_after_inst_def pos_valid_def)
    let ?e = "ITernary OpDrv s v t" and ?ys = "\<lambda>j. everywhere (ins_after (\<lambda>x. x = i) j) xs"
    obtain j u1 where u1: "build_inst ?e VoidType u0 = Some (j, u1)" "j \<notin> members xs"
      "unit_rep u1 (?ys j)" "inst_at (dfg u1) = (inst_at (dfg u))(j \<mapsto> ?e)" "value_at (dfg u1) = value_at (dfg u)"
      using build_inst_effect[OF rep0 rm0 pv, of ?e VoidType] lv g0 p by (auto simp: args_def insert_at_def has_res_def opcode_of_def)
    have ji: "j \<noteq> i" "inst_at (dfg u) j = None" using u1(2) i r(4) by (auto simp: live_def)
    have nr1: "dresults (dfg u1) i = None"
      using nr dfg_wfD(6)[OF unit_repD(1)[OF u1(3)], of i] dfg_wfD(6)[OF r(1), of i] u1(5) by (cases "dresults (dfg u1) i") auto
    have mem: "i \<in> members (?ys j)" using insert_at_members[OF r(3), of "PosAfter i" j] i by (simp add: insert_at_def pos_valid_def)
    obtain u2 where u2: "delete_inst i u1 = Some u2" "unit_rep u2 (everywhere (filter (\<lambda>x. x \<noteq> i)) (?ys j))"
      "inst_at (dfg u2) = (inst_at (dfg u1))(i := None)" "dresults (dfg u2) = (dresults (dfg u1))(i := None)"
      using delete_inst_effect[OF u1(3) mem] nr1 by auto
    have "everywhere (filter (\<lambda>x. x \<noteq> i)) (?ys j) = everywhere (map (\<lambda>x. if x = i then j else x)) xs"
      using swap_in_block[OF ji(1) fl_rep_distinct[OF r(3)]] by (auto simp: everywhere_def)
    moreover have "simplify_drv_cond i u0 = Some u2"
      using at c args u1(1) u2(1) True
      by (simp add: simplify_drv_cond_def g0 ib_drv_def build_ternary_def ib_build_def numeral_2_eq_2)
    moreover have "inst_at (dfg u2) = (inst_at (dfg u))(i := None, j \<mapsto> ?e)" using u2(3) u1(4) ji(1) by (simp add: fun_upd_twist)
    ultimately show ?thesis using run hr u2(2,4) ji(2) True by auto
  next
    case False
    have none: "\<forall>r j e. dresults (dfg u0) i = Some r \<longrightarrow> inst_at (dfg u0) j = Some e \<longrightarrow> r \<notin> set (args e)" using nr g0 by simp
    obtain u1 where u1: "delete_inst i u0 = Some u1" "unit_rep u1 (everywhere (filter (\<lambda>x. x \<noteq> i)) xs)"
      "inst_at (dfg u1) = (inst_at (dfg u))(i := None)" "dresults (dfg u1) = (dresults (dfg u))(i := None)"
      using delete_inst_effect[OF rep0 i none] g0 by auto
    have "simplify_drv_cond i u0 = Some u1" using at c args u1(1) False by (simp add: simplify_drv_cond_def g0)
    then show ?thesis using run hr u1(2-4) False by simp
  qed
qed

section \<open>The properties of the pass\<close>

text \<open>
  C5: instruction simplification is sound. On an instruction on data that is well typed, does
  not use its own result and has a value in every valuation (and, for a multiplexer, selects
  from an array made by \<open>array\<close> or \<open>array_uniform\<close>), the pass returns, whatever the order in
  which the uses are listed; every value keeps its type, the new graph is sound, and every
  valuation of the new graph is a valuation of the old one: an operation on equal operands
  and a multiplexer of equal values are replaced by what they compute.
\<close>

theorem inst_simplification_sound:
  assumes "fold_inv u" "lists_sets ord" "room_for (Suc n) u" "data_inst u i v t d" "opcode_of d \<noteq> OpDrvCond"
    and "\<And>a b. d = IBinary OpMux a b \<Longrightarrow> array_literal (dfg u) a"
    and "\<forall>env. models {v} (dfg u) env \<longrightarrow> eval_inst env d \<noteq> None"
  shows "\<exists>changed u'. insim_run_on_inst ord i u = Some (changed, u') \<and> fold_inv u' \<and>
    value_at (dfg u) \<subseteq>\<^sub>m value_at (dfg u') \<and> (\<forall>env. models {} (dfg u') env \<longrightarrow> models {} (dfg u) env)"
  using insim_sound[OF assms(1-4,6,7,5)] by (simp add: keeps_meaning_def)

text \<open>
  C0: a conditional drive with a constant condition. With the condition 1 the instruction is
  replaced, at its place in its block, by an unconditional drive of the same signal, value and
  delay; with any other constant it is deleted. Nothing else in the unit changes. The pass
  reports \<open>False\<close> all the same, as if it had changed nothing.
\<close>

theorem drv_cond_simplified:
  assumes "unit_rep u xs" "room u" "inst_at (dfg u) i = Some (IQuaternary OpDrvCond s v t c)"
    and "dresults (dfg u) i = None" "get_const_int (dfg u) c = Some (Some k)"
  shows "\<exists>u'. insim_run_on_inst ord i u = Some (False, u') \<and>
    (if iv_is_one k
     then \<exists>j. inst_at (dfg u) j = None \<and> inst_at (dfg u') = (inst_at (dfg u))(i := None, j \<mapsto> ITernary OpDrv s v t) \<and>
       unit_rep u' (everywhere (map (\<lambda>x. if x = i then j else x)) xs)
     else inst_at (dfg u') = (inst_at (dfg u))(i := None) \<and> unit_rep u' (everywhere (filter (\<lambda>x. x \<noteq> i)) xs))"
  by (rule drv_cond_effect[OF assms])

text \<open>
  C37: a multiplexer over an array that was not written out in the unit is miscompiled. When
  the array comes from an instruction with a single operand, such as a probe, the pass takes
  that operand for the only element: every use of the result, whose type is that of an
  element, reads the probed signal itself instead.
\<close>

theorem mux_of_probe_reads_signal:
  assumes "fold_inv u" "lists_sets ord" "data_inst u i v t (IBinary OpMux a b)"
    and "value_at (dfg u) a = Some (VInst s j)" "inst_at (dfg u) j = Some (IUnary OpPrb x)"
    and "value_type (dfg u) x = Some (SignalType q)" "value_at (dfg u) x \<noteq> None"
  shows "\<exists>changed u'. insim_run_on_inst ord i u = Some (changed, u') \<and>
    inst_at (dfg u') = (\<lambda>k. map_option (args_mut (\<lambda>y. if y = v then x else y)) (inst_at (dfg u) k)) \<and>
    value_type (dfg u') v = Some t \<and> value_type (dfg u') x = Some (SignalType q) \<and> t \<noteq> SignalType q"
proof -
  note inv = assms(1)
  define u0 where "u0 = insert_after_inst i u"
  have g0: "dfg u0 = dfg u" by (simp add: u0_def)
  have inv0: "fold_inv u0" using insim_entry[OF assms(1,3)] by (simp add: u0_def)
  note wf = fold_inv_wf[OF inv0]
  have ex: "dfg_exact (dfg u0)" using inv0 unit_repD(2) by (auto simp: fold_inv_def ready_def)
  have at: "pt2_index (dinsts (dfg u0)) i = Some (IBinary OpMux a b)"
    by (rule inst_index[OF inv0]) (use assms(3) g0 in \<open>simp add: data_inst_def\<close>)
  have res: "has_result (dfg u0) i" "inst_result (dfg u0) i = Some v" "value_type (dfg u0) v = Some t"
    using cf_entry(2-)[OF assms(1,3)] g0 by simp_all
  have run: "insim_run_on_inst ord i u = insim_replace ord v x u0"
    using at res get_value_inst_at[OF wf, of a s j] inst_index[OF inv0, of j] assms(4,5) g0
    unfolding insim_run_on_inst_def Let_def u0_def[symmetric]
    by (simp add: opcode_of_def simplify_mux_def args_def idx_def cong: if_cong)
  have ok: "value_ok (dfg u0) x" using assms(7) g0 by (simp add: value_ok_def)
  obtain n g where g: "replace_use ord v x (dfg u0) = Some (n, g)" "dfg_wf g"
    "inst_at g = (\<lambda>i. map_option (args_mut (subst v x)) (inst_at (dfg u0) i))" "value_at g = value_at (dfg u0)"
    using replace_use_any[OF wf ex assms(2) ok] by blast
  have "value_type g y = value_type (dfg u0) y" if "value_ok (dfg u0) y" for y
    using value_type_mono[OF wf g(2) _ that] g(4) by simp
  moreover have "value_ok (dfg u0) v" using assms(3) g0 by (simp add: data_inst_def value_ok_def)
  moreover have "t \<noteq> SignalType q" using assms(3) by (auto simp: data_inst_def)
  ultimately show ?thesis using run g(1,3) res(3) ok assms(6) g0 by (simp add: insim_replace_def subst_def[abs_def])
qed

subsection \<open>Instances\<close>

lemma built_extends:
  assumes "fold_inv u" "room_for (Suc n) u" "\<forall>v \<in> set (args d). value_ok (dfg u) v" "has_res d t"
    "sound_inst (value_type (dfg u)) d t"
  shows "\<exists>r u'. step_ok 1 u u' \<and> computes u' r t d \<and> extends (dfg u) (dfg u') \<and> value_at (dfg u) r = None"
proof -
  obtain i u' where u': "ib_build None d t u = Some (i, u')" "adds_inst d t (dfg u) i (dfg u')"
    using ib_build_exact[OF _ assms(2,3), of None t] assms(1) by (auto simp: fold_inv_def)
  then obtain r where r: "inst_result (dfg u') i = Some r" "value_at (dfg u) r = None" using assms(4) by (auto simp: adds_inst_def)
  obtain r2 u2 where b: "ib_value (ib_build None d t u) = Some (r2, u2)" "step_ok 1 u u2" "computes u2 r2 t d"
    using built_step[OF assms, of None] by blast
  then have "u2 = u'" "r2 = r" using u'(1) r(1) by (simp_all add: ib_value_def)
  then show ?thesis using b(2,3) adds_inst_extends[OF u'(2)] r(2) by blast
qed

lemma computes_extends: "extends (dfg u) (dfg u') \<Longrightarrow> computes u r t d \<Longrightarrow> computes u' r t d"
  by (fastforce simp: computes_def extends_def map_le_def dom_def)

lemma computes_distinct: "computes u r t d \<Longrightarrow> computes u q s e \<Longrightarrow> d \<noteq> e \<Longrightarrow> r \<noteq> q"
  by (auto simp: computes_def)

lemma inst_simplification_sound_witness:
  "\<exists>u i changed u'. insim_run_on_inst sorted_list_of_set i u = Some (changed, u') \<and> fold_inv u' \<and>
     (\<forall>env. models {} (dfg u') env \<longrightarrow> models {} (dfg u) env)"
proof -
  obtain u where u: "fold_inv u" "dfg u = demo_graph" "room_for 1000 u" using demo_foldable by blast
  let ?c = "IConstInt OpConstInt (IntValue 8 5)" and ?d = "IBinary OpAnd 0 0"
  have c: "computes u 0 (IntType 8) ?c" by (auto simp: computes_def u(2) demo_at)
  note t0 = computes_type[OF u(1) c]
  have rm: "room_for (Suc 998) u" using u(3) by (simp add: room_for_def)
  have "sound_inst (value_type (dfg u)) ?d (IntType 8)" "\<forall>v \<in> set (args ?d). value_ok (dfg u) v"
    using t0 by (auto simp: sound_inst_def aggregate_format_def built_def opcode_of_def typed_IBinary op_sets int_or_int_signal_def
      args_def value_ok_def)
  then obtain r u1 where r: "step_ok 1 u u1" "computes u1 r (IntType 8) ?d" "extends (dfg u) (dfg u1)" "value_at (dfg u) r = None"
    using built_extends[OF u(1) rm, of ?d "IntType 8"] by (auto simp: has_res_def)
  note inv1 = step_ok_inv[OF r(1)] and c1 = computes_extends[OF r(3) c]
  obtain i where i: "value_at (dfg u1) r = Some (VInst (IntType 8) i)" "inst_at (dfg u1) i = Some ?d" using r(2) by (auto simp: computes_def)
  have rm1: "room_for (Suc 0) u1" using step_ok_room[OF r(1), of 1] u(3) by (simp add: room_for_def)
  have "r \<noteq> 0" using computes_distinct[OF r(2) c1] by simp
  then have di: "data_inst u1 i r (IntType 8) ?d"
    using i c1 by (auto simp: data_inst_def args_def data_value_def vd_type_def computes_def)
  have "eval_inst env ?d \<noteq> None" if "models {r} (dfg u1) env" for env
  proof -
    have "env 0 = IntVal (IntValue 8 5)" by (rule computes_value[OF c1 that]) (simp_all add: args_def eval_inst_def)
    then show ?thesis by (simp add: eval_inst_def eval_binary_def try_binary_op_def)
  qed
  then show ?thesis
    using inst_simplification_sound[OF inv1 lists_sets_sorted rm1 di] by (force simp: opcode_of_def)
qed

lemma mux_of_probe_reads_signal_witness:
  "\<exists>u i v x changed u'. insim_run_on_inst sorted_list_of_set i u = Some (changed, u') \<and>
     value_type (dfg u') v = Some (IntType 8) \<and> value_type (dfg u') x = Some (SignalType (ArrayType 2 (IntType 8))) \<and>
     inst_at (dfg u') = (\<lambda>k. map_option (args_mut (\<lambda>y. if y = v then x else y)) (inst_at (dfg u) k))"
proof -
  obtain u where u: "fold_inv u" "dfg u = demo_graph" "room_for 1000 u" using demo_foldable by blast
  let ?A = "ArrayType 2 (IntType 8)"
  note b = sound_inst_def aggregate_format_def built_def opcode_of_def op_sets args_def value_ok_def has_res_def
  have c: "computes u 0 (IntType 8) (IConstInt OpConstInt (IntValue 8 5))" by (auto simp: computes_def u(2) demo_at)
  note t0 = computes_type[OF u(1) c]
  have rm: "room_for (Suc 998) u" using u(3) by (simp add: room_for_def)
  obtain a1 u1 where 1: "step_ok 1 u u1" "computes u1 a1 ?A (IArray OpArrayUniform 2 0)" "extends (dfg u) (dfg u1)"
    using built_extends[OF u(1) rm, of "IArray OpArrayUniform 2 0" ?A] t0 by (auto simp: b)
  note i1 = step_ok_inv[OF 1(1)] and t1 = computes_type[OF step_ok_inv[OF 1(1)] 1(2)]
  have rm1: "room_for (Suc 997) u1" using step_ok_room[OF 1(1), of 998] rm by simp
  obtain a2 u2 where 2: "step_ok 1 u1 u2" "computes u2 a2 (SignalType ?A) (IUnary OpSig a1)" "extends (dfg u1) (dfg u2)"
    using built_extends[OF i1 rm1, of "IUnary OpSig a1" "SignalType ?A"] t1 by (auto simp: b)
  note i2 = step_ok_inv[OF 2(1)] and t2 = computes_type[OF step_ok_inv[OF 2(1)] 2(2)]
  have rm2: "room_for (Suc 996) u2" using step_ok_room[OF 2(1), of 997] rm1 by simp
  obtain a3 u3 where 3: "step_ok 1 u2 u3" "computes u3 a3 ?A (IUnary OpPrb a2)" "extends (dfg u2) (dfg u3)"
    using built_extends[OF i2 rm2, of "IUnary OpPrb a2" ?A] t2 by (auto simp: b)
  note i3 = step_ok_inv[OF 3(1)] and t3 = computes_type[OF step_ok_inv[OF 3(1)] 3(2)]
  have rm3: "room_for (Suc 995) u3" using step_ok_room[OF 3(1), of 996] rm2 by simp
  have c3: "computes u3 0 (IntType 8) (IConstInt OpConstInt (IntValue 8 5))"
    by (intro computes_extends[OF 3(3)] computes_extends[OF 2(3)] computes_extends[OF 1(3)] c)
  note t03 = computes_type[OF i3 c3]
  let ?m = "IBinary OpMux a3 0"
  obtain a4 u4 where 4: "step_ok 1 u3 u4" "computes u4 a4 (IntType 8) ?m" "extends (dfg u3) (dfg u4)"
    using built_extends[OF i3 rm3, of ?m "IntType 8"] t3 t03 by (auto simp: b typed_IBinary int_or_int_signal_def)
  note i4 = step_ok_inv[OF 4(1)]
  have c4: "computes u4 0 (IntType 8) (IConstInt OpConstInt (IntValue 8 5))" by (rule computes_extends[OF 4(3) c3])
  have p4: "computes u4 a3 ?A (IUnary OpPrb a2)" by (rule computes_extends[OF 4(3) 3(2)])
  have s4: "computes u4 a2 (SignalType ?A) (IUnary OpSig a1)" by (intro computes_extends[OF 4(3)] computes_extends[OF 3(3)] 2(2))
  have ne: "a4 \<noteq> 0" "a4 \<noteq> a3" "a4 \<noteq> a2"
    using computes_distinct[OF 4(2) c4] computes_distinct[OF 4(2) p4] computes_distinct[OF 4(2) s4] by simp_all
  obtain i where i: "value_at (dfg u4) a4 = Some (VInst (IntType 8) i)" "inst_at (dfg u4) i = Some ?m" using 4(2) by (auto simp: computes_def)
  have di: "data_inst u4 i a4 (IntType 8) ?m"
    using i c4 p4 ne by (auto simp: data_inst_def args_def data_value_def vd_type_def computes_def)
  obtain j where j: "value_at (dfg u4) a3 = Some (VInst ?A j)" "inst_at (dfg u4) j = Some (IUnary OpPrb a2)" using p4 by (auto simp: computes_def)
  show ?thesis
    using mux_of_probe_reads_signal[OF i4 lists_sets_sorted di j] computes_type[OF i4 s4] by blast
qed

lemma drv_cond_simplified_witness:
  "\<exists>u i u'. inst_at (dfg u) i = Some (IQuaternary OpDrvCond 0 1 2 0) \<and>
     insim_run_on_inst sorted_list_of_set i u = Some (False, u') \<and> inst_at (dfg u') = (inst_at (dfg u))(i := None)"
proof -
  let ?d = "IQuaternary OpDrvCond 0 1 2 0" and ?xs = "[(0, [0, 1, 2])] :: layout_list"
  obtain u where u: "unit_rep u ?xs" "dfg u = demo_graph" "pos u = PosAppend 0" using demo_unit by blast
  have pv: "pos_valid (pos u) ?xs" by (simp add: u(3) pos_valid_def keys_def)
  have rm: "room_for (Suc 900) u" by (simp add: room_for_def u(2) demo_graph_def)
  have ok: "\<forall>v \<in> set (args ?d). value_ok (dfg u) v" by (simp add: args_def value_ok_def u(2) demo_at)
  have nres: "\<not> has_res ?d VoidType" by (simp add: has_res_def opcode_of_def)
  obtain i u1 where u1: "build_inst ?d VoidType u = Some (i, u1)" "unit_rep u1 (insert_at (pos u) i ?xs)"
    "inst_at (dfg u1) = (inst_at (dfg u))(i \<mapsto> ?d)" "value_at (dfg u1) = value_at (dfg u)" "i \<notin> members ?xs"
    using build_inst_effect[OF u(1) room_for_room[OF rm] pv ok, of VoidType] nres by blast
  have "ready u" using u(1) pv by (auto simp: ready_def)
  then have "grown 1 u u1" using ib_build_exact[OF _ rm ok, of None VoidType] u1(1) by (auto simp: ib_build_def)
  then have rm1: "room u1" using grown_room[of 1 u u1 900] rm room_for_room[of 899 u1] by simp
  note wf = unit_repD(1)[OF u1(2)]
  have "i \<in> {0, 1, 2}" if "value_at demo_graph r = Some (VInst q i)" for r q using that by (auto simp: demo_at split: if_splits)
  then have n0: "dresults (dfg u1) i = None"
    using dfg_wfD(6)[OF wf, of i] u1(4,5) u(2) by (cases "dresults (dfg u1) i") (fastforce simp: members_def)+
  have "get_const_int (dfg u1) 0 = Some (Some (IntValue 8 5))"
    using get_value_inst_at[OF wf, of 0 "IntType 8" 0] inst_at_index[OF wf, of 0 "IConstInt OpConstInt (IntValue 8 5)"] u1(3-5) u(2)
    by (simp add: get_const_int_def demo_at members_def inst_const_int_def)
  then obtain u' where "insim_run_on_inst sorted_list_of_set i u1 = Some (False, u')" "inst_at (dfg u') = (inst_at (dfg u1))(i := None)"
    using drv_cond_simplified[OF u1(2) rm1 _ n0, of 0 1 2 0 "IntValue 8 5" sorted_list_of_set] u1(3)
    by (auto simp: iv_is_one_def)
  moreover have "inst_at (dfg u1) i = Some ?d" using u1(3) by simp
  ultimately show ?thesis by blast
qed

end
