(* ===== verification/Paths.thy ===== *)
theory Paths
  imports LLHD_Prelude
begin

text \<open>Paths of a relation as the list of the nodes they visit, both ends included.\<close>

inductive path :: "('a \<Rightarrow> 'a \<Rightarrow> bool) \<Rightarrow> 'a \<Rightarrow> 'a list \<Rightarrow> 'a \<Rightarrow> bool" for E where
  path_one: "path E x [x] x"
| path_snoc: "path E x xs y \<Longrightarrow> E y z \<Longrightarrow> path E x (xs @ [z]) z"

lemma path_ends: "path E x xs y \<Longrightarrow> xs \<noteq> [] \<and> hd xs = x \<and> last xs = y"
  by (induction rule: path.induct) auto

lemma path_mem: "path E x xs y \<Longrightarrow> x \<in> set xs \<and> y \<in> set xs"
  using path_ends by force

lemma path_append: "path E y ys z \<Longrightarrow> path E x xs y \<Longrightarrow> path E x (xs @ tl ys) z"
proof (induction rule: path.induct)
  case (path_snoc y ys u v)
  have "tl (ys @ [v]) = tl ys @ [v]" using path_ends[OF path_snoc(1)] by simp
  then show ?case using path.path_snoc[OF path_snoc.IH[OF path_snoc.prems] path_snoc(2)] by simp
qed simp

lemma path_cases_end: "path E x xs y \<Longrightarrow> (xs = [x] \<and> y = x) \<or> (\<exists>ys z. xs = ys @ [y] \<and> path E x ys z \<and> E z y)"
  by (erule path.cases) auto

lemma path_mono: "path E x xs y \<Longrightarrow> (\<And>a b. a \<in> set xs \<Longrightarrow> E a b \<Longrightarrow> F a b) \<Longrightarrow> path F x xs y"
proof (induction rule: path.induct)
  case (path_snoc x xs y z)
  have "path F x xs y" by (rule path_snoc.IH) (use path_snoc.prems in auto)
  moreover have "F y z" using path_snoc path_mem[OF path_snoc(1)] by auto
  ultimately show ?case by (rule path.path_snoc)
qed (rule path_one)

lemma path_map: "path E x xs y \<Longrightarrow> (\<And>a b. E a b \<Longrightarrow> F (f a) (f b)) \<Longrightarrow> path F (f x) (map f xs) (f y)"
  by (induction rule: path.induct) (auto intro: path.intros)

lemma path_rtranclp: "path E x xs y \<Longrightarrow> E\<^sup>*\<^sup>* x y"
  by (induction rule: path.induct) auto

lemma rtranclp_path: "E\<^sup>*\<^sup>* x y \<Longrightarrow> \<exists>xs. path E x xs y"
  by (induction rule: rtranclp_induct) (auto intro: path.intros)

text \<open>A node dominates another when every path from the root to the other visits it.\<close>

definition dom_by :: "('a \<Rightarrow> 'a \<Rightarrow> bool) \<Rightarrow> 'a \<Rightarrow> 'a \<Rightarrow> 'a \<Rightarrow> bool" where
  "dom_by E r a x \<longleftrightarrow> (\<forall>xs. path E r xs x \<longrightarrow> a \<in> set xs)"

lemma dom_by_refl [simp]: "dom_by E r x x"
  using path_mem unfolding dom_by_def by fast

lemma dom_by_pred:
  assumes "dom_by E r a x" "a \<noteq> x" "E p x"
  shows "dom_by E r a p"
  unfolding dom_by_def
proof (intro allI impI)
  fix xs assume "path E r xs p"
  then have "path E r (xs @ [x]) x" using assms(3) by (rule path_snoc)
  then show "a \<in> set xs" using assms(1,2) unfolding dom_by_def by force
qed

text \<open>If \<open>a\<close> dominates the end of a path that avoids it, it dominates its start.\<close>

lemma dom_by_path:
  assumes "dom_by E r a y" "path E x xs y" "a \<notin> set (tl xs)"
  shows "dom_by E r a x"
  unfolding dom_by_def
proof (intro allI impI)
  fix zs assume "path E r zs x"
  then have "path E r (zs @ tl xs) y" using path_append[OF assms(2)] by blast
  then show "a \<in> set zs" using assms(1,3) unfolding dom_by_def by force
qed

end
