(* ===== verification/Preds.thy ===== *)
theory Preds
  imports UnitProps Paths
begin

text \<open>
  The predecessor table (\<^verbatim>\<open>src/src/analysis/preds.rs\<close>). A hash map of hash sets is a map to
  sets; \<open>skip\<close> says which terminators are ignored, none in the plain table and the temporal
  ones in the temporal table.
\<close>

record pred_table =
  pred_sets :: "nat \<rightharpoonup> nat set"
  succ_sets :: "nat \<rightharpoonup> nat set"

text \<open>\<^verbatim>\<open>pred.get_mut(to_bb).unwrap().insert(bb)\<close>\<close>

definition note_pred :: "nat \<Rightarrow> nat \<Rightarrow> (nat \<rightharpoonup> nat set) \<Rightarrow> (nat \<rightharpoonup> nat set) option" where
  "note_pred bb to p = map_option (\<lambda>s. p(to \<mapsto> insert bb s)) (p to)"

definition pred_step :: "(opcode \<Rightarrow> bool) \<Rightarrow> data_flow_graph \<Rightarrow> function_layout \<Rightarrow> nat \<Rightarrow>
    (nat \<rightharpoonup> nat set) \<times> (nat \<rightharpoonup> nat set) \<Rightarrow> ((nat \<rightharpoonup> nat set) \<times> (nat \<rightharpoonup> nat set)) option" where
  "pred_step skip g l bb = (\<lambda>(p, s).
     do { term \<leftarrow> block_last_inst l bb;
          case term of None \<Rightarrow> Some (p, s(bb \<mapsto> {}))
          | Some term \<Rightarrow>
              do { d \<leftarrow> pt2_index (dinsts g) term;
                   if skip (opcode_of d) then Some (p, s(bb \<mapsto> {}))
                   else do { p \<leftarrow> foldM (note_pred bb) (inst_blocks d) p;
                             Some (p, s(bb \<mapsto> set (inst_blocks d))) } } })"

definition pred_table_skip :: "(opcode \<Rightarrow> bool) \<Rightarrow> data_flow_graph \<Rightarrow> function_layout \<Rightarrow> pred_table option" where
  "pred_table_skip skip g l =
     do { bs \<leftarrow> blocks l;
          (p, s) \<leftarrow> foldM (pred_step skip g l) bs (\<lambda>b. if b \<in> set bs then Some {} else None, Map.empty);
          Some \<lparr>pred_sets = p, succ_sets = s\<rparr> }"

definition predtbl :: "data_flow_graph \<Rightarrow> function_layout \<Rightarrow> pred_table option" where
  "predtbl = pred_table_skip (\<lambda>_. False)"

definition temporal_predtbl :: "data_flow_graph \<Rightarrow> function_layout \<Rightarrow> pred_table option" where
  "temporal_predtbl = pred_table_skip op_is_temporal"

definition pred_set :: "pred_table \<Rightarrow> nat \<Rightarrow> nat set option" where
  "pred_set t bb = pred_sets t bb"

definition succ_set :: "pred_table \<Rightarrow> nat \<Rightarrow> nat set option" where
  "succ_set t bb = succ_sets t bb"

definition is_sole_pred :: "pred_table \<Rightarrow> nat \<Rightarrow> nat \<Rightarrow> bool option" where
  "is_sole_pred t bb pred_of = map_option (\<lambda>s. \<forall>x \<in> s. x = bb) (pred_set t pred_of)"

definition is_sole_succ :: "pred_table \<Rightarrow> nat \<Rightarrow> nat \<Rightarrow> bool option" where
  "is_sole_succ t bb succ_of = map_option (\<lambda>s. \<forall>x \<in> s. x = bb) (succ_set t succ_of)"

section \<open>The control flow graph\<close>

text \<open>The blocks a block branches to, over the list representation of the layout.\<close>

definition term_targets :: "(opcode \<Rightarrow> bool) \<Rightarrow> data_flow_graph \<Rightarrow> nat list \<Rightarrow> nat set" where
  "term_targets skip g is = (case last_opt is of None \<Rightarrow> {}
     | Some i \<Rightarrow> (case pt2_index (dinsts g) i of None \<Rightarrow> {}
         | Some d \<Rightarrow> if skip (opcode_of d) then {} else set (inst_blocks d)))"

definition branches :: "(opcode \<Rightarrow> bool) \<Rightarrow> data_flow_graph \<Rightarrow> layout_list \<Rightarrow> nat \<Rightarrow> nat \<Rightarrow> bool" where
  "branches skip g xs a b \<longleftrightarrow> (\<exists>is. (a, is) \<in> set xs \<and> b \<in> term_targets skip g is)"

lemma fl_rep_last:
  assumes "fl_rep l xs" "(b, is) \<in> set xs"
  shows "block_last_inst l b = Some (last_opt is)"
proof -
  obtain il where il: "block_layouts (bbs l) b = Some il" "il_rep il is"
    using fl_repD(3)[OF assms] by auto
  have "last_inst il = last_opt is" using il(2) by (auto simp: il_rep_def dll_def)
  then show ?thesis using il(1) by (auto simp: block_layouts_def block_last_inst_def st_index_def)
qed

lemma note_preds:
  "foldM (note_pred a) ts p =
     (if set ts \<subseteq> dom p then Some (\<lambda>b. map_option (\<lambda>s. if b \<in> set ts then insert a s else s) (p b)) else None)"
proof (induction ts arbitrary: p)
  case Nil
  show ?case by (simp add: option.map_ident)
next
  case (Cons t ts)
  show ?case
  proof (cases "p t")
    case None
    then show ?thesis by (auto simp: note_pred_def dom_def)
  next
    case (Some s)
    have step: "foldM (note_pred a) (t # ts) p = foldM (note_pred a) ts (p(t \<mapsto> insert a s))"
      by (simp add: note_pred_def Some)
    have d: "dom (p(t \<mapsto> insert a s)) = dom p" using Some by auto
    have e: "(\<lambda>b. map_option (\<lambda>s. if b \<in> set ts then insert a s else s) ((p(t \<mapsto> insert a s)) b)) =
        (\<lambda>b. map_option (\<lambda>s. if b \<in> set (t # ts) then insert a s else s) (p b))"
      using Some by (auto simp: fun_eq_iff)
    have "set (t # ts) \<subseteq> dom p \<longleftrightarrow> set ts \<subseteq> dom p" using Some by auto
    then show ?thesis unfolding step Cons.IH d e by presburger
  qed
qed

text \<open>The loop over the blocks; \<open>T\<close> gives the targets of a block.\<close>

lemma pred_steps:
  assumes T: "\<And>b p s. b \<in> set bs \<Longrightarrow> pred_step skip g l b (p, s) =
      (if T b \<subseteq> dom p then Some (\<lambda>c. map_option (\<lambda>s. if c \<in> T b then insert b s else s) (p c), s(b \<mapsto> T b)) else None)"
  shows "foldM (pred_step skip g l) bs (p, s) =
    (if \<forall>b \<in> set bs. T b \<subseteq> dom p
     then Some (\<lambda>c. map_option (\<lambda>s. s \<union> {b \<in> set bs. c \<in> T b}) (p c), \<lambda>b. if b \<in> set bs then Some (T b) else s b) else None)"
  using assms
proof (induction bs arbitrary: p s)
  case Nil
  show ?case by (simp add: option.map_ident)
next
  case (Cons b bs)
  let ?p = "\<lambda>c. map_option (\<lambda>s. if c \<in> T b then insert b s else s) (p c)"
  have d: "dom ?p = dom p" by (auto simp: dom_def)
  have e: "(\<lambda>c. map_option (\<lambda>s. s \<union> {b' \<in> set bs. c \<in> T b'}) (?p c)) = (\<lambda>c. map_option (\<lambda>s. s \<union> {b' \<in> set (b # bs). c \<in> T b'}) (p c))"
    by (rule ext, rename_tac c, case_tac "p c") auto
  have f: "(\<lambda>c. if c \<in> set bs then Some (T c) else (s(b \<mapsto> T b)) c) = (\<lambda>c. if c \<in> set (b # bs) then Some (T c) else s c)"
    by (auto simp: fun_eq_iff)
  show ?case
  proof (cases "T b \<subseteq> dom p")
    case True
    have step: "foldM (pred_step skip g l) (b # bs) (p, s) = foldM (pred_step skip g l) bs (?p, s(b \<mapsto> T b))"
      using Cons.prems[of b p s] True by simp
    have ih: "foldM (pred_step skip g l) bs (?p, s(b \<mapsto> T b)) =
        (if \<forall>b \<in> set bs. T b \<subseteq> dom ?p
         then Some (\<lambda>c. map_option (\<lambda>s. s \<union> {b \<in> set bs. c \<in> T b}) (?p c), \<lambda>c. if c \<in> set bs then Some (T c) else (s(b \<mapsto> T b)) c) else None)"
      by (rule Cons.IH) (rule Cons.prems, simp)
    show ?thesis unfolding step ih unfolding d e f using True by simp
  next
    case False
    then show ?thesis using Cons.prems[of b p s] by simp
  qed
qed

lemma pred_table_built:
  assumes rep: "fl_rep l xs" and ins: "\<forall>i \<in> members xs. pt2_index (dinsts g) i \<noteq> None"
  shows "pred_table_skip skip g l =
    (if \<forall>a b. branches skip g xs a b \<longrightarrow> b \<in> keys xs
     then Some \<lparr>pred_sets = (\<lambda>b. if b \<in> keys xs then Some {a. branches skip g xs a b} else None),
                succ_sets = (\<lambda>a. if a \<in> keys xs then Some {b. branches skip g xs a b} else None)\<rparr>
     else None)"
proof -
  let ?T = "\<lambda>a. {b. branches skip g xs a b}" and ?p = "\<lambda>b. if b \<in> set (map fst xs) then Some {} else None"
  have bs: "blocks l = Some (map fst xs)" by (rule fl_rep_all_insts(1)[OF rep])
  have k: "set (map fst xs) = keys xs" by (simp add: keys_def)
  have step: "pred_step skip g l b (p, s) =
      (if ?T b \<subseteq> dom p then Some (\<lambda>c. map_option (\<lambda>s. if c \<in> ?T b then insert b s else s) (p c), s(b \<mapsto> ?T b)) else None)"
    if b: "b \<in> set (map fst xs)" for b p s
  proof -
    obtain "is" where mem: "(b, is) \<in> set xs" using b by auto
    have uniq: "\<forall>js. (b, js) \<in> set xs \<longrightarrow> js = is" using fl_repD(2)[OF rep] mem by (blast dest: eq_key_imp_eq_value)
    have T: "?T b = term_targets skip g is" unfolding branches_def using mem uniq by blast
    have id: "(\<lambda>c. map_option (\<lambda>s. s) (p c)) = p" by (simp add: option.map_ident)
    show ?thesis
    proof (cases "last_opt is")
      case None
      then have e: "?T b = {}" unfolding T by (simp add: term_targets_def)
      show ?thesis unfolding e using fl_rep_last[OF rep mem] None by (simp add: pred_step_def id)
    next
      case (Some i)
      then have "i \<in> members xs" using last_opt_mem[of "is" i] mem by (force simp: members_def)
      then obtain d where d: "pt2_index (dinsts g) i = Some d" using ins by blast
      have e: "?T b = (if skip (opcode_of d) then {} else set (inst_blocks d))" unfolding T using Some d by (simp add: term_targets_def)
      show ?thesis unfolding e using fl_rep_last[OF rep mem] Some d by (simp add: pred_step_def note_preds id)
    qed
  qed
  have dp: "dom (\<lambda>b. if b \<in> keys xs then Some {} else None) = keys xs" by (auto simp: dom_def)
  have src: "branches skip g xs a b \<Longrightarrow> a \<in> keys xs" for a b by (force simp: branches_def keys_def)
  have all: "(\<forall>b \<in> set (map fst xs). ?T b \<subseteq> dom ?p) \<longleftrightarrow> (\<forall>a b. branches skip g xs a b \<longrightarrow> b \<in> keys xs)"
    unfolding dp k using src by blast
  have ps: "(\<lambda>c. map_option (\<lambda>s. s \<union> {b \<in> set (map fst xs). c \<in> ?T b}) (?p c)) =
      (\<lambda>b. if b \<in> keys xs then Some {a. branches skip g xs a b} else None)"
    unfolding k using src by (auto simp: fun_eq_iff)
  note loop = pred_steps[of "map fst xs" skip g l ?T ?p Map.empty, OF step]
  show ?thesis unfolding pred_table_skip_def bs using loop unfolding all ps by (simp add: keys_def[symmetric])
qed

end
