(* ===== verification/Dominance.thy ===== *)
theory Dominance
  imports Paths
begin

text \<open>
  The iterative computation of immediate dominators in \<^verbatim>\<open>src/src/analysis/domtree.rs\<close>, on
  post-order indices: \<open>d ! i\<close> is the immediate dominator of \<open>i\<close>, \<open>no_dom\<close> while it is not
  known, and \<open>i\<close> itself for a root. \<open>P i\<close> lists the predecessors of \<open>i\<close>. It is proved against
  dominance by paths in the locale of flow graphs that are numbered in post-order.
\<close>

section \<open>The algorithm\<close>

definition no_dom :: nat where
  "no_dom = 2 ^ 32 - 1"

text \<open>The two fingers; \<open>init\<close> is the first of them before the walk.\<close>

partial_function (option) dom_intersect :: "nat list \<Rightarrow> nat \<Rightarrow> nat \<Rightarrow> nat \<Rightarrow> nat option" where
  "dom_intersect d init i1 i2 =
     (if i1 = i2 then Some i1
      else if i1 < i2 then
        Option.bind (idx d i1) (\<lambda>x. if i1 = x then Some i1 else dom_intersect d init x i2)
      else
        Option.bind (idx d i2) (\<lambda>x. if i2 = x then Some init else dom_intersect d init i1 x))"

definition dom_meet :: "nat list \<Rightarrow> nat list \<Rightarrow> nat option" where
  "dom_meet d ips =
     do { ks \<leftarrow> mapM (idx d) ips;
          case map fst (filter (\<lambda>(p, x). x \<noteq> no_dom) (zip ips ks)) of
            [] \<Rightarrow> None
          | p # ps \<Rightarrow> foldM (\<lambda>i2 i1. dom_intersect d i1 i1 i2) ps p }"

definition dom_step :: "(nat \<Rightarrow> nat list option) \<Rightarrow> nat \<Rightarrow> nat \<Rightarrow> bool \<times> nat list \<Rightarrow> (bool \<times> nat list) option" where
  "dom_step P len i = (\<lambda>(changed, d).
     do { x \<leftarrow> idx d i;
          if x = i then Some (changed, d)
          else do {
            ips \<leftarrow> P i;
            z \<leftarrow> dom_meet d ips;
            ensure (z < len);
            if x \<noteq> z then Some (True, d[i := z]) else Some (changed, d) } })"

partial_function (option) dom_loop :: "(nat \<Rightarrow> nat list option) \<Rightarrow> nat \<Rightarrow> nat list \<Rightarrow> nat list option" where
  "dom_loop P len d =
     Option.bind (foldM (dom_step P len) (rev [0..<len]) (False, d))
       (\<lambda>(changed, d). if changed then dom_loop P len d else Some d)"

section \<open>Flow graphs\<close>

text \<open>
  A graph with nodes \<open>0 ..< n\<close> numbered in post-order: every node but the root has a
  predecessor with a greater number, its parent in the search tree.
\<close>

locale flow_graph =
  fixes P :: "nat \<Rightarrow> nat list" and n root :: nat
  assumes root: "root < n" and small: "n \<le> no_dom"
    and preds: "i < n \<Longrightarrow> p \<in> set (P i) \<Longrightarrow> p < n"
    and parent: "i < n \<Longrightarrow> i \<noteq> root \<Longrightarrow> \<exists>p \<in> set (P i). i < p"
begin

definition edge :: "nat \<Rightarrow> nat \<Rightarrow> bool" where
  "edge p i \<longleftrightarrow> i < n \<and> p \<in> set (P i)"

abbreviation "known d i \<equiv> d ! i \<noteq> no_dom"

definition tree :: "nat list \<Rightarrow> bool" where
  "tree d \<longleftrightarrow> length d = n \<and> d ! root = root \<and>
     (\<forall>i < n. i \<noteq> root \<longrightarrow> known d i \<longrightarrow> i < d ! i \<and> d ! i < n \<and> known d (d ! i))"

definition up :: "nat list \<Rightarrow> nat \<Rightarrow> nat \<Rightarrow> bool" where
  "up d i j \<longleftrightarrow> i < n \<and> i \<noteq> root \<and> known d i \<and> j = d ! i"

abbreviation "anc d \<equiv> (up d)\<^sup>*\<^sup>*"

lemma root_known: "tree d \<Longrightarrow> known d root"
  using root small by (simp add: tree_def)

lemma anc_end: "x = root \<or> \<not> known d x \<or> n \<le> x \<Longrightarrow> anc d x a \<longleftrightarrow> a = x"
  by (metis converse_rtranclpE leD rtranclp.rtrancl_refl up_def)

lemma anc_step: "x < n \<Longrightarrow> x \<noteq> root \<Longrightarrow> known d x \<Longrightarrow> anc d x a \<longleftrightarrow> a = x \<or> anc d (d ! x) a"
  by (auto simp: up_def elim: converse_rtranclpE intro: converse_rtranclp_into_rtranclp)

lemma up_mono: "tree d \<Longrightarrow> up d x y \<Longrightarrow> x < y \<and> y < n \<and> known d y"
  by (auto simp: tree_def up_def)

lemma anc_le: "anc d x a \<Longrightarrow> tree d \<Longrightarrow> x \<le> a"
  by (induction rule: rtranclp_induct) (auto dest: up_mono)

lemma anc_bound: "anc d x a \<Longrightarrow> tree d \<Longrightarrow> x < n \<Longrightarrow> known d x \<Longrightarrow> a < n \<and> known d a"
  by (induction rule: rtranclp_induct) (auto dest: up_mono)

text \<open>Upward induction over the tree.\<close>

lemma tree_induct [consumes 1, case_names up]:
  assumes "tree d" and step: "\<And>x. (\<And>y. up d x y \<Longrightarrow> Q y) \<Longrightarrow> Q x"
  shows "Q x"
proof (induction "n - x" arbitrary: x rule: less_induct)
  case less
  show ?case
  proof (rule step)
    fix y assume "up d x y"
    then have "x < y" "y < n" using up_mono[OF assms(1)] by blast+
    then have "n - y < n - x" by linarith
    then show "Q y" by (rule less)
  qed
qed

lemma anc_root:
  assumes t: "tree d"
  shows "x < n \<Longrightarrow> known d x \<Longrightarrow> anc d x root"
proof (induction x rule: tree_induct[OF t])
  case (1 x)
  show ?case
  proof (cases "x = root")
    case False
    then have u: "up d x (d ! x)" using 1 by (simp add: up_def)
    then have "anc d (d ! x) root" using 1(1)[OF u] up_mono[OF t u] by blast
    then show ?thesis using u by (rule converse_rtranclp_into_rtranclp[rotated])
  qed simp
qed

lemma up_fun: "up d x y \<Longrightarrow> up d x z \<Longrightarrow> y = z"
  by (simp add: up_def)

lemma anc_linear: "anc d x a \<Longrightarrow> anc d x b \<Longrightarrow> anc d a b \<or> anc d b a"
proof (induction rule: converse_rtranclp_induct)
  case (step x y)
  from step.prems show ?case
  proof (cases rule: converse_rtranclpE)
    case base
    then show ?thesis using converse_rtranclp_into_rtranclp[of "up d" x y a] step(1,2) by simp
  next
    case (step z)
    then show ?thesis using up_fun[OF \<open>up d x y\<close>] step.IH by blast
  qed
qed blast

lemma anc_antisym: "tree d \<Longrightarrow> anc d x y \<Longrightarrow> anc d y x \<Longrightarrow> x = y"
  using anc_le[of d x y] anc_le[of d y x] by simp

text \<open>Giving \<open>b\<close> a new immediate dominator \<open>z\<close> moves its subtree.\<close>

lemma anc_update:
  assumes t: "tree d" and b: "b < n" "b \<noteq> root" and z: "b < z" "z < n" "known d z"
  shows "anc (d[b := z]) x a \<longleftrightarrow> (if anc d x b then anc d x a \<and> anc d a b \<or> anc d z a else anc d x a)"
proof (induction "n - x" arbitrary: x rule: less_induct)
  case less
  let ?d = "d[b := z]"
  have len: "length d = n" using t by (simp add: tree_def)
  have kz: "z \<noteq> no_dom" using z(2) small by simp
  consider "x = b" | "x \<noteq> b" "x = root \<or> \<not> known d x \<or> n \<le> x" | "x \<noteq> b" "x < n" "x \<noteq> root" "known d x" by linarith
  then show ?case
  proof cases
    case 1
    have "\<not> anc d z b" using anc_le[OF _ t] z(1) by fastforce
    then have "anc ?d z a \<longleftrightarrow> anc d z a" using less[of z] z b 1 by simp
    moreover have "anc ?d b a \<longleftrightarrow> a = b \<or> anc ?d z a" using anc_step[of b ?d a] b kz len by simp
    ultimately show ?thesis using 1 anc_antisym[OF t] by auto
  next
    case 2
    then show ?thesis using anc_end[of x ?d a] anc_end[of x d] b by auto
  next
    case 3
    have y: "x < d ! x" "d ! x < n" using t 3 by (auto simp: tree_def)
    have "anc ?d x a \<longleftrightarrow> a = x \<or> anc ?d (d ! x) a" using anc_step[of x ?d a] 3 by simp
    moreover have "anc ?d (d ! x) a \<longleftrightarrow> (if anc d (d ! x) b then anc d (d ! x) a \<and> anc d a b \<or> anc d z a else anc d (d ! x) a)"
      using less[of "d ! x"] y 3 by simp
    ultimately show ?thesis using anc_step[of x d] 3 by auto
  qed
qed

text \<open>The fingers meet at the nearest common ancestor.\<close>

lemma intersect_meet:
  assumes t: "tree d"
  shows "x < n \<Longrightarrow> y < n \<Longrightarrow> known d x \<Longrightarrow> known d y \<Longrightarrow>
    \<exists>z. dom_intersect d i x y = Some z \<and> z < n \<and> known d z \<and> (\<forall>a. anc d z a \<longleftrightarrow> anc d x a \<and> anc d y a)"
proof (induction "(n - x) + (n - y)" arbitrary: x y rule: less_induct)
  case less
  have len: "length d = n" using t by (simp add: tree_def)
  have above: "w < d ! w \<and> d ! w < n \<and> known d (d ! w) \<and> d ! w \<noteq> w \<and>
      (\<forall>a. anc d w a \<and> anc d v a \<longleftrightarrow> anc d (d ! w) a \<and> anc d v a)"
    if w: "w < n" "v < n" "known d w" "known d v" "w < v" for v w
  proof -
    have "w \<noteq> root" using anc_le[OF anc_root[OF t w(2,4)] t] w(5) by auto
    then have "w < d ! w" "d ! w < n" "known d (d ! w)" "\<And>a. anc d w a \<longleftrightarrow> a = w \<or> anc d (d ! w) a"
      using t w anc_step by (auto simp: tree_def)
    moreover have "\<not> anc d v w" using anc_le[OF _ t] w(5) by fastforce
    ultimately show ?thesis by auto
  qed
  consider "x = y" | "x < y" | "y < x" by linarith
  then show ?case
  proof cases
    case 1
    then show ?thesis using less.prems by (subst dom_intersect.simps) auto
  next
    case 2
    note a = above[OF less.prems 2]
    have "n - d ! x + (n - y) < n - x + (n - y)" using a 2 less.prems by linarith
    from less.hyps[OF this] obtain z where "dom_intersect d i (d ! x) y = Some z" "z < n" "known d z"
      "\<forall>a. anc d z a \<longleftrightarrow> anc d (d ! x) a \<and> anc d y a"
      using a less.prems by blast
    then show ?thesis using a 2 less.prems len by (subst dom_intersect.simps) (auto simp: idx_def)
  next
    case 3
    note a = above[OF less.prems(2,1,4,3) 3]
    have "n - x + (n - d ! y) < n - x + (n - y)" using a 3 less.prems by linarith
    from less.hyps[OF this] obtain z where "dom_intersect d i x (d ! y) = Some z" "z < n" "known d z"
      "\<forall>a. anc d z a \<longleftrightarrow> anc d x a \<and> anc d (d ! y) a"
      using a less.prems by blast
    then show ?thesis using a 3 less.prems len by (subst dom_intersect.simps) (auto simp: idx_def)
  qed
qed

lemma meet_fold:
  assumes t: "tree d"
  shows "\<forall>p \<in> set ps. p < n \<and> known d p \<Longrightarrow> x < n \<Longrightarrow> known d x \<Longrightarrow>
    \<exists>z. foldM (\<lambda>i2 i1. dom_intersect d i1 i1 i2) ps x = Some z \<and> z < n \<and> known d z \<and>
      (\<forall>a. anc d z a \<longleftrightarrow> anc d x a \<and> (\<forall>p \<in> set ps. anc d p a))"
proof (induction ps arbitrary: x)
  case (Cons p ps)
  obtain y where y: "dom_intersect d x x p = Some y" "y < n" "known d y" "\<forall>a. anc d y a \<longleftrightarrow> anc d x a \<and> anc d p a"
    using intersect_meet[OF t, of x p x] Cons.prems by auto
  then show ?case using Cons.IH[of y] Cons.prems by auto
qed simp

lemma meet_ancestors:
  assumes t: "tree d" and ps: "\<forall>p \<in> set ips. p < n" and ex: "\<exists>p \<in> set ips. known d p"
  shows "\<exists>z. dom_meet d ips = Some z \<and> z < n \<and> known d z \<and>
    (\<forall>a. anc d z a \<longleftrightarrow> (\<forall>p \<in> set ips. known d p \<longrightarrow> anc d p a))"
proof -
  have len: "length d = n" using t by (simp add: tree_def)
  have ks: "mapM (idx d) ips = Some (map ((!) d) ips)"
    using ps by (auto simp: mapM_Some_iff list_all2_conv_all_nth idx_def len)
  have sel: "map fst (filter (\<lambda>(p, x). x \<noteq> no_dom) (zip ips (map ((!) d) ips))) = filter (known d) ips"
    by (induction ips) auto
  obtain q qs where q: "filter (known d) ips = q # qs" using ex by (cases "filter (known d) ips") (auto simp: filter_empty_conv)
  have mem: "set (q # qs) = {p \<in> set ips. known d p}" unfolding q[symmetric] by auto
  have "\<forall>p \<in> set qs. p < n \<and> known d p" "q < n" "known d q" using mem ps by auto
  then obtain z where z: "foldM (\<lambda>i2 i1. dom_intersect d i1 i1 i2) qs q = Some z" "z < n" "known d z"
    "\<forall>a. anc d z a \<longleftrightarrow> anc d q a \<and> (\<forall>p \<in> set qs. anc d p a)"
    using meet_fold[OF t] by blast
  have "(\<forall>p \<in> set ips. known d p \<longrightarrow> anc d p a) \<longleftrightarrow> (\<forall>p \<in> set (q # qs). anc d p a)" for a unfolding mem by auto
  then show ?thesis using z q by (simp add: dom_meet_def ks sel)
qed

text \<open>
  The invariant while the nodes from \<open>i\<close> on have been visited in the current pass: the known
  nodes are those from some number on; the common ancestors of the known predecessors are
  ancestors of the immediate dominator; there is a path from it through smaller nodes; every
  dominator is an ancestor; and along an edge from a greater node, the ancestors below \<open>i\<close> agree.
\<close>

definition visited :: "nat list \<Rightarrow> nat \<Rightarrow> bool" where
  "visited d i \<longleftrightarrow> (\<forall>j < n. i \<le> j \<longrightarrow> known d j) \<and> (\<forall>c < n. known d c \<longrightarrow> (\<forall>j < n. c < j \<longrightarrow> known d j))"

definition joined :: "nat list \<Rightarrow> bool" where
  "joined d \<longleftrightarrow> (\<forall>c < n. c \<noteq> root \<longrightarrow> known d c \<longrightarrow>
     (\<forall>a. (\<forall>p \<in> set (P c). known d p \<longrightarrow> anc d p a) \<longrightarrow> anc d (d ! c) a))"

definition reached :: "nat list \<Rightarrow> bool" where
  "reached d \<longleftrightarrow> (\<forall>c < n. c \<noteq> root \<longrightarrow> known d c \<longrightarrow>
     (\<exists>xs. path edge (d ! c) xs c \<and> (\<forall>x \<in> set (tl xs). x < d ! c)))"

definition covering :: "nat list \<Rightarrow> bool" where
  "covering d \<longleftrightarrow> (\<forall>x < n. known d x \<longrightarrow> (\<forall>a. dom_by edge root a x \<longrightarrow> anc d x a))"

definition ordered :: "nat list \<Rightarrow> nat \<Rightarrow> bool" where
  "ordered d i \<longleftrightarrow> (\<forall>c < n. c \<noteq> root \<longrightarrow> known d c \<longrightarrow>
     (\<forall>t \<in> set (P c). c < t \<longrightarrow> (\<forall>x. anc d (d ! c) x \<longrightarrow> i \<le> c \<or> x < i \<longrightarrow> anc d t x)))"

definition dom_inv :: "nat list \<Rightarrow> nat \<Rightarrow> bool" where
  "dom_inv d i \<longleftrightarrow> tree d \<and> visited d i \<and> joined d \<and> reached d \<and> covering d \<and> ordered d i"

definition settled :: "nat list \<Rightarrow> nat \<Rightarrow> bool" where
  "settled d c \<longleftrightarrow> (c \<noteq> root \<longrightarrow> (\<forall>a. anc d (d ! c) a \<longleftrightarrow> (\<forall>p \<in> set (P c). known d p \<longrightarrow> anc d p a)))"

definition weight :: "nat list \<Rightarrow> nat" where
  "weight d = (\<Sum>i < n. if known d i then n - d ! i else Suc n)"

lemma root_last: "root = n - 1"
proof (rule ccontr)
  assume "root \<noteq> n - 1"
  then obtain p where "p \<in> set (P (n - 1))" "n - 1 < p" using parent[of "n - 1"] root by auto
  then show False using preds[of "n - 1" p] root by auto
qed

lemma reach_ancestor:
  assumes t: "tree d" and r: "reached d"
  shows "x < n \<Longrightarrow> known d x \<Longrightarrow> anc d x c \<Longrightarrow> \<exists>xs. path edge c xs x \<and> (\<forall>y \<in> set (tl xs). y < c)"
proof (induction x rule: tree_induct[OF t])
  case (1 x)
  show ?case
  proof (cases "c = x")
    case True
    then show ?thesis using path_one[of edge c] by auto
  next
    case False
    then have x: "x \<noteq> root" using 1(4) anc_end[of x d c] by blast
    then have u: "up d x (d ! x)" using 1 by (simp add: up_def)
    have y: "d ! x < n" "known d (d ! x)" "anc d (d ! x) c" using up_mono[OF t u] anc_step[of x d c] False x 1 by auto
    obtain xs where xs: "path edge c xs (d ! x)" "\<forall>y \<in> set (tl xs). y < c" using 1(1)[OF u y] by blast
    obtain ys where ys: "path edge (d ! x) ys x" "\<forall>y \<in> set (tl ys). y < d ! x"
      using r x 1(2,3) unfolding reached_def by blast
    have "d ! x \<le> c" using anc_le[OF y(3) t] .
    moreover have "tl (xs @ tl ys) = tl xs @ tl ys" using path_ends[OF xs(1)] by simp
    ultimately show ?thesis using path_append[OF ys(1) xs(1)] xs(2) ys(2) by fastforce
  qed
qed

text \<open>One node of a pass: its predecessors meet.\<close>

lemma meet_at:
  assumes inv: "dom_inv d (Suc b)" and b: "b < n" "b \<noteq> root"
  shows "\<exists>z. dom_meet d (P b) = Some z \<and> b < z \<and> z < n \<and> known d z \<and>
    (\<forall>a. anc d z a \<longleftrightarrow> (\<forall>p \<in> set (P b). known d p \<longrightarrow> anc d p a)) \<and> (known d b \<longrightarrow> d ! b \<le> z)"
proof -
  have t: "tree d" and v: "visited d (Suc b)" using inv by (simp_all add: dom_inv_def)
  obtain q where q: "q \<in> set (P b)" "b < q" using parent[OF b] by blast
  then have kq: "known d q" "q < n" using v preds[OF b(1)] by (auto simp: visited_def)
  obtain z where z: "dom_meet d (P b) = Some z" "z < n" "known d z"
    "\<forall>a. anc d z a \<longleftrightarrow> (\<forall>p \<in> set (P b). known d p \<longrightarrow> anc d p a)"
    using meet_ancestors[OF t, of "P b"] preds[OF b(1)] q kq by blast
  have "anc d q z" using z(4) q(1) kq(1) by blast
  then have "b < z" using anc_le[OF _ t] q(2) by fastforce
  moreover have "d ! b \<le> z" if k: "known d b"
  proof -
    have "\<forall>p \<in> set (P b). known d p \<longrightarrow> anc d p z" using z(4) by blast
    then have "anc d (d ! b) z" using inv b k unfolding dom_inv_def joined_def by blast
    then show ?thesis using anc_le[OF _ t] by blast
  qed
  ultimately show ?thesis using z by blast
qed

text \<open>A node gets a new immediate dominator.\<close>

lemma update_inv:
  assumes inv: "dom_inv d (Suc b)" and b: "b < n" "b \<noteq> root"
    and z: "b < z" "z < n" "known d z" "\<And>a. anc d z a \<longleftrightarrow> (\<forall>p \<in> set (P b). known d p \<longrightarrow> anc d p a)"
  shows "dom_inv (d[b := z]) b"
proof -
  let ?d = "d[b := z]"
  have t: "tree d" and v: "visited d (Suc b)" and j: "joined d" and r: "reached d" and c: "covering d" and o: "ordered d (Suc b)"
    using inv by (simp_all add: dom_inv_def)
  have len: "length d = n" using t by (simp add: tree_def)
  have kz: "z \<noteq> no_dom" using z(2) small by simp
  have kd: "known ?d x \<longleftrightarrow> known d x \<or> x = b" for x using b len kz by (auto simp: nth_list_update)
  have at: "?d ! x = (if x = b then z else d ! x)" for x using b len by (auto simp: nth_list_update)
  note au = anc_update[OF t b z(1-3)]
  have below: "\<not> anc d x b" if "b < x" for x using anc_le[OF _ t, of x b] that by fastforce
  have high: "anc ?d x a \<longleftrightarrow> anc d x a" if "b < x" for x a using au below[OF that] by simp
  have zb: "known d b \<Longrightarrow> anc d z a \<Longrightarrow> anc d b a" for a
    using j b z(4) anc_step[of b d a] unfolding joined_def by blast
  have kb: "known d x \<Longrightarrow> x < n \<Longrightarrow> anc d x b \<Longrightarrow> known d b" for x using anc_bound[OF _ t] by blast
  have shrink: "known d x \<Longrightarrow> x < n \<Longrightarrow> anc ?d x a \<Longrightarrow> anc d x a" for x a
    using au[of x a] zb kb rtranclp_trans[of "up d" x b a] by (auto split: if_splits)
  have kt: "known d c' \<Longrightarrow> c' < n \<Longrightarrow> p \<in> set (P c') \<Longrightarrow> c' < p \<Longrightarrow> known d p" for c' p
    using v preds by (auto simp: visited_def)
  have kh: "b < p \<Longrightarrow> p < n \<Longrightarrow> known d p" for p using v by (auto simp: visited_def)
  have "tree ?d"
    unfolding tree_def
  proof (intro conjI allI impI)
    fix i assume i: "i < n" "i \<noteq> root" "known ?d i"
    show "i < ?d ! i" "?d ! i < n" using i t z kd[of i] unfolding at tree_def by (simp_all split: if_splits)
    have "known d (?d ! i)" using i t z kd[of i] unfolding at tree_def by (simp split: if_splits)
    then show "known ?d (?d ! i)" using kd by blast
  qed (use len at t b in \<open>auto simp: tree_def\<close>)
  moreover have "visited ?d b"
    unfolding visited_def
  proof (intro conjI allI impI)
    have later: "known ?d k" if "k < n" "b \<le> k" for k
    proof (cases "k = b")
      case False
      then have "known d k" using v that unfolding visited_def by simp
      then show ?thesis using kd by blast
    qed (use kd in blast)
    then show "known ?d k" if "k < n" "b \<le> k" for k using that .
    show "known ?d k" if l: "c' < n" "known ?d c'" "k < n" "c' < k" for c' k
    proof (cases "c' = b")
      case True
      then have "b \<le> k" using l(4) by simp
      then show ?thesis by (rule later[OF l(3)])
    next
      case False
      then have "known d c'" using l(2) kd by blast
      then have "known d k" using v l unfolding visited_def by blast
      then show ?thesis using kd by blast
    qed
  qed
  moreover have "joined ?d"
    unfolding joined_def
  proof (intro allI impI)
    fix c' a assume c': "c' < n" "c' \<noteq> root" "known ?d c'" and ps: "\<forall>p \<in> set (P c'). known ?d p \<longrightarrow> anc ?d p a"
    have old: "\<forall>p \<in> set (P c'). known d p \<longrightarrow> anc d p a" using ps shrink preds[OF c'(1)] kd by blast
    show "anc ?d (?d ! c') a"
    proof (cases "c' = b")
      case True
      then show ?thesis using old z(4) high[OF z(1)] at by simp
    next
      case False
      then have k: "known d c'" using c'(3) kd by blast
      have m: "anc d (d ! c') a" using j c'(1,2) k old unfolding joined_def by blast
      show ?thesis
      proof (cases "anc d (d ! c') b \<and> \<not> anc d a b")
        case True
        obtain p where p: "p \<in> set (P c')" "c' < p" using parent[OF c'(1,2)] by blast
        have kp: "known d p" by (rule kt[OF k c'(1) p])
        have "anc d p b" using o c'(1,2) k p True unfolding ordered_def by blast
        moreover have "anc ?d p a" using ps p(1) kp kd by blast
        ultimately have "anc d z a" using au True by simp
        then show ?thesis using au True False at by simp
      next
        case F: False
        then show ?thesis using au m False at by auto
      qed
    qed
  qed
  moreover have "reached ?d"
    unfolding reached_def
  proof (intro allI impI)
    fix c' assume c': "c' < n" "c' \<noteq> root" "known ?d c'"
    show "\<exists>xs. path edge (?d ! c') xs c' \<and> (\<forall>x \<in> set (tl xs). x < ?d ! c')"
    proof (cases "c' = b")
      case True
      obtain p where p: "p \<in> set (P b)" "b < p" using parent[OF b] by blast
      have kp: "known d p" "p < n" using kh p preds[OF b(1)] by auto
      have "anc d p z" using z(4) p(1) kp(1) by blast
      then obtain xs where xs: "path edge z xs p" "\<forall>y \<in> set (tl xs). y < z" using reach_ancestor[OF t r kp(2,1)] by blast
      have "edge p b" using p b by (simp add: edge_def)
      then have "path edge z (xs @ [b]) b" by (rule path_snoc[OF xs(1)])
      moreover have "tl (xs @ [b]) = tl xs @ [b]" using path_ends[OF xs(1)] by simp
      ultimately show ?thesis using xs(2) z(1) True at by (intro exI[of _ "xs @ [b]"]) simp
    next
      case False
      then show ?thesis using r c' kd at unfolding reached_def by auto
    qed
  qed
  moreover have "covering ?d"
    unfolding covering_def
  proof (intro allI impI)
    fix x a assume x: "x < n" "known ?d x" and dm: "dom_by edge root a x"
    have sup: "anc d z a" if "dom_by edge root a b" "a \<noteq> b"
      unfolding z(4)
    proof (intro ballI impI)
      fix p assume p: "p \<in> set (P b)" "known d p"
      have "edge p b" using p b by (simp add: edge_def)
      then have "dom_by edge root a p" by (rule dom_by_pred[OF that])
      then show "anc d p a" using c p preds[OF b(1)] unfolding covering_def by blast
    qed
    show "anc ?d x a"
    proof (cases "x = b")
      case True
      then show ?thesis using au[of b a] sup dm by auto
    next
      case False
      then have k: "known d x" using x(2) kd by blast
      have m: "anc d x a" using c x(1) k dm unfolding covering_def by blast
      show ?thesis
      proof (cases "anc d x b \<and> \<not> anc d a b")
        case True
        then have ba: "anc d b a" "a \<noteq> b" using anc_linear[OF m] by blast+
        have "b < a" using anc_le[OF ba(1) t] ba(2) by simp
        obtain xs where xs: "path edge b xs x" "\<forall>y \<in> set (tl xs). y < b" using reach_ancestor[OF t r x(1) k] True by blast
        have "a \<notin> set (tl xs)" using xs(2) \<open>b < a\<close> by auto
        then have "dom_by edge root a b" by (rule dom_by_path[OF dm xs(1)])
        then show ?thesis using sup ba(2) au True by simp
      next
        case False
        then show ?thesis using au m by auto
      qed
    qed
  qed
  moreover have "ordered ?d b"
    unfolding ordered_def
  proof (intro allI impI ballI)
    fix c' p x assume c': "c' < n" "c' \<noteq> root" "known ?d c'" and p: "p \<in> set (P c')" "c' < p"
      and x: "anc ?d (?d ! c') x" "b \<le> c' \<or> x < b"
    have pn: "p < n" by (rule preds[OF c'(1) p(1)])
    consider "c' = b" | "b < c'" | "c' < b" by linarith
    then show "anc ?d p x"
    proof cases
      case 1
      then have "anc d z x" using x(1) high[OF z(1)] at by simp
      then have "anc d p x" using z(4) p kh pn 1 by blast
      then show ?thesis using high p 1 by simp
    next
      case 2
      then have k: "known d c'" using kh c' by blast
      then have "b < d ! c'" using t c' 2 unfolding tree_def by fastforce
      then have "anc d (d ! c') x" using x(1) high at 2 by auto
      then have "anc d p x" using o c'(1,2) k p 2 unfolding ordered_def by auto
      then show ?thesis using high p 2 by simp
    next
      case 3
      then have k: "known d c'" and xb: "x < b" using c'(3) kd x(2) by auto
      have m: "d ! c' < n" "known d (d ! c')" using t c' k unfolding tree_def by blast+
      have "anc d (d ! c') x" using shrink[OF m(2,1)] x(1) at 3 by auto
      then have px: "anc d p x" using o c'(1,2) k p xb unfolding ordered_def by auto
      have "anc d x b" if "anc d p b"
        using anc_linear[OF px that] anc_le[OF _ t, of b x] xb by fastforce
      then show ?thesis using au px by auto
    qed
  qed
  ultimately show ?thesis by (simp add: dom_inv_def)
qed

lemma update_weight:
  assumes "length d = n" "b < n" "z < n" "known d b \<Longrightarrow> d ! b < z"
  shows "weight (d[b := z]) < weight d"
  unfolding weight_def
proof (rule sum_strict_mono_ex1)
  have kz: "z \<noteq> no_dom" using assms(3) small by simp
  show "\<forall>i \<in> {..<n}. (if d[b := z] ! i \<noteq> no_dom then n - d[b := z] ! i else Suc n) \<le> (if known d i then n - d ! i else Suc n)"
    using assms kz by (auto simp: nth_list_update)
  show "\<exists>i \<in> {..<n}. (if d[b := z] ! i \<noteq> no_dom then n - d[b := z] ! i else Suc n) < (if known d i then n - d ! i else Suc n)"
    using assms kz by (intro bexI[of _ b]) (auto simp: nth_list_update)
qed simp

text \<open>A node that keeps its immediate dominator.\<close>

lemma keep_inv:
  assumes inv: "dom_inv d (Suc b)" and b: "b < n"
    and k: "b \<noteq> root \<Longrightarrow> known d b \<and> (\<forall>a. anc d (d ! b) a \<longleftrightarrow> (\<forall>p \<in> set (P b). known d p \<longrightarrow> anc d p a))"
  shows "dom_inv d b \<and> settled d b"
proof -
  have t: "tree d" and v: "visited d (Suc b)" and o: "ordered d (Suc b)" using inv by (simp_all add: dom_inv_def)
  have kb: "known d b" using k root_known[OF t] by blast
  have "visited d b"
    unfolding visited_def
  proof (intro conjI allI impI)
    show "known d j" if "j < n" "b \<le> j" for j
    proof (cases "j = b")
      case False
      then show ?thesis using v that unfolding visited_def by simp
    qed (use kb in simp)
    show "known d j" if "c < n" "known d c" "j < n" "c < j" for c j using v that unfolding visited_def by blast
  qed
  moreover have "ordered d b"
    unfolding ordered_def
  proof (intro allI impI ballI)
    fix c p x assume c: "c < n" "c \<noteq> root" "known d c" and p: "p \<in> set (P c)" "c < p"
      and x: "anc d (d ! c) x" "b \<le> c \<or> x < b"
    show "anc d p x"
    proof (cases "c = b")
      case True
      have "known d p" using v p True preds[OF c(1) p(1)] unfolding visited_def by simp
      then show ?thesis using k c(2) x(1) p(1) True by blast
    next
      case False
      then have "Suc b \<le> c \<or> x < Suc b" using x(2) by linarith
      then show ?thesis using o c p x(1) unfolding ordered_def by blast
    qed
  qed
  ultimately show ?thesis using inv k by (auto simp: dom_inv_def settled_def)
qed

text \<open>\<open>Q\<close> is the table of predecessors as the code computes it.\<close>

lemma step_inv:
  assumes Q: "\<And>i. i < n \<Longrightarrow> Q i = Some (P i)" and inv: "dom_inv d (Suc b)" and b: "b < n"
  shows "\<exists>ch' d'. dom_step Q n b (ch, d) = Some (ch', d') \<and> dom_inv d' b \<and>
    (ch' = ch \<and> d' = d \<and> settled d b \<or> ch' \<and> weight d' < weight d)"
proof (cases "b = root")
  case True
  have t: "tree d" using inv by (simp add: dom_inv_def)
  then have "idx d b = Some b" using True b by (auto simp: tree_def idx_def)
  then show ?thesis using keep_inv[OF inv b] True by (simp add: dom_step_def)
next
  case False
  have t: "tree d" using inv by (simp add: dom_inv_def)
  have len: "length d = n" using t by (simp add: tree_def)
  have ne: "d ! b \<noteq> b" using t b False small unfolding tree_def by fastforce
  obtain z where z: "dom_meet d (P b) = Some z" "b < z" "z < n" "known d z"
    "\<forall>a. anc d z a \<longleftrightarrow> (\<forall>p \<in> set (P b). known d p \<longrightarrow> anc d p a)" "known d b \<longrightarrow> d ! b \<le> z"
    using meet_at[OF inv b False] by blast
  have run: "dom_step Q n b (ch, d) = (if d ! b \<noteq> z then Some (True, d[b := z]) else Some (ch, d))"
    using ne Q[OF b] b z(1,3) len by (simp add: dom_step_def idx_def)
  show ?thesis
  proof (cases "d ! b = z")
    case True
    then have "known d b" using z(3) small by simp
    then have "dom_inv d b \<and> settled d b" using keep_inv[OF inv b] z(5) True by blast
    then show ?thesis using run True by simp
  next
    case F: False
    have "dom_inv (d[b := z]) b" by (rule update_inv[OF inv b False z(2-4)]) (use z(5) in blast)
    moreover have "weight (d[b := z]) < weight d" by (rule update_weight[OF len b z(3)]) (use z(6) F in simp)
    ultimately show ?thesis using run F by (intro exI[of _ True] exI[of _ "d[b := z]"]) simp
  qed
qed

lemma pass_inv:
  assumes Q: "\<And>i. i < n \<Longrightarrow> Q i = Some (P i)"
  shows "k \<le> n \<Longrightarrow> dom_inv d k \<Longrightarrow> \<exists>ch' d'. foldM (dom_step Q n) (rev [0..<k]) (ch, d) = Some (ch', d') \<and> dom_inv d' 0 \<and>
    (ch' = ch \<and> d' = d \<and> (\<forall>b < k. settled d b) \<or> ch' \<and> weight d' < weight d)"
proof (induction k arbitrary: ch d)
  case (Suc b)
  obtain c1 d1 where s: "dom_step Q n b (ch, d) = Some (c1, d1)" "dom_inv d1 b"
    "c1 = ch \<and> d1 = d \<and> settled d b \<or> c1 \<and> weight d1 < weight d"
    using step_inv[OF Q Suc.prems(2), of ch] Suc.prems(1) by (meson Suc_le_eq)
  obtain c2 d2 where r: "foldM (dom_step Q n) (rev [0..<b]) (c1, d1) = Some (c2, d2)" "dom_inv d2 0"
    "c2 = c1 \<and> d2 = d1 \<and> (\<forall>b' < b. settled d1 b') \<or> c2 \<and> weight d2 < weight d1"
    using Suc.IH[OF _ s(2), of c1] Suc.prems(1) by auto
  have "foldM (dom_step Q n) (rev [0..<Suc b]) (ch, d) = Some (c2, d2)" using s(1) r(1) by simp
  moreover have "c2 = ch \<and> d2 = d \<and> (\<forall>b' < Suc b. settled d b') \<or> c2 \<and> weight d2 < weight d"
    using s(3) r(3) by (auto simp: less_Suc_eq)
  ultimately show ?case using r(2) by blast
qed simp

lemma next_pass: "dom_inv d 0 \<Longrightarrow> dom_inv d n"
  by (auto simp: dom_inv_def visited_def ordered_def)

lemma loop_inv:
  assumes Q: "\<And>i. i < n \<Longrightarrow> Q i = Some (P i)"
  shows "dom_inv d n \<Longrightarrow> \<exists>d'. dom_loop Q n d = Some d' \<and> dom_inv d' 0 \<and> (\<forall>b < n. settled d' b)"
proof (induction "weight d" arbitrary: d rule: less_induct)
  case less
  obtain ch d1 where p: "foldM (dom_step Q n) (rev [0..<n]) (False, d) = Some (ch, d1)" "dom_inv d1 0"
    "ch = False \<and> d1 = d \<and> (\<forall>b < n. settled d b) \<or> ch \<and> weight d1 < weight d"
    using pass_inv[OF Q order.refl less.prems, of False] by blast
  show ?case
  proof (cases ch)
    case True
    then obtain d' where "dom_loop Q n d1 = Some d'" "dom_inv d' 0" "\<forall>b < n. settled d' b"
      using less.hyps[OF _ next_pass[OF p(2)]] p(3) by blast
    then show ?thesis using p(1) True by (subst dom_loop.simps) simp
  next
    case False
    then show ?thesis using p by (subst dom_loop.simps) auto
  qed
qed

lemma start_inv: "dom_inv ((replicate n no_dom)[root := root]) n"
proof -
  let ?d = "(replicate n no_dom)[root := root]"
  have kd: "known ?d x \<longleftrightarrow> x = root" if "x < n" for x using that root small by (auto simp: nth_list_update)
  have t: "tree ?d" using kd root by (simp add: tree_def)
  have "dom_by edge root a root \<Longrightarrow> a = root" for a using path_one[of edge root] by (force simp: dom_by_def)
  then have "covering ?d" using kd by (auto simp: covering_def)
  moreover have "visited ?d n" using kd root_last by (auto simp: visited_def)
  ultimately show ?thesis using t kd by (auto simp: dom_inv_def joined_def reached_def ordered_def)
qed

text \<open>The table that the loop returns: the ancestors of a node are its dominators.\<close>

theorem dominators:
  assumes Q: "\<And>i. i < n \<Longrightarrow> Q i = Some (P i)"
  shows "\<exists>d. dom_loop Q n ((replicate n no_dom)[root := root]) = Some d \<and> tree d \<and> (\<forall>x < n. known d x) \<and>
    (\<forall>x < n. \<forall>a. anc d x a \<longleftrightarrow> dom_by edge root a x)"
proof -
  obtain d where d: "dom_loop Q n ((replicate n no_dom)[root := root]) = Some d" "dom_inv d 0" "\<forall>b < n. settled d b"
    using loop_inv[OF Q start_inv] by blast
  have k: "\<forall>x < n. known d x" and t: "tree d" using d(2) by (auto simp: dom_inv_def visited_def)
  have "a \<in> set xs" if "path edge r xs x" "r = root" "x < n" "anc d x a" for r x a xs
    using that
  proof (induction arbitrary: a rule: path.induct)
    case (path_one x)
    then show ?case using anc_end[of root d a] by simp
  next
    case (path_snoc r xs y z)
    note z = path_snoc.prems and IH = path_snoc.IH
    have y: "y \<in> set (P z)" "y < n" using path_snoc.hyps(2) z preds by (auto simp: edge_def)
    show ?case
    proof (cases "z = root \<or> a = z")
      case True
      then show ?thesis using z anc_end[of root d a] by auto
    next
      case False
      then have "anc d (d ! z) a" using anc_step[of z d a] z k by auto
      then have "anc d y a" using d(3) z(2) False y k unfolding settled_def by blast
      then show ?thesis using IH[OF z(1) y(2)] by simp
    qed
  qed
  then have "anc d x a \<Longrightarrow> x < n \<Longrightarrow> dom_by edge root a x" for x a by (auto simp: dom_by_def)
  moreover have "dom_by edge root a x \<Longrightarrow> x < n \<Longrightarrow> anc d x a" for x a
    using d(2) k unfolding dom_inv_def covering_def by blast
  ultimately show ?thesis using d(1) t k by blast
qed

end

end
