(* ===== verification/PostOrder.thy ===== *)
theory PostOrder
  imports Paths
begin

text \<open>
  The depth first search of \<^verbatim>\<open>compute_blocks_post_order\<close> in
  \<^verbatim>\<open>src/src/analysis/domtree.rs\<close>, with an explicit stack whose head is the top. \<open>S\<close> lists the
  successors of a node in the order the hash set is iterated. A node may be on the stack
  several times; the two bit sets decide what is done with it.
\<close>

partial_function (option) po_loop :: "('a \<Rightarrow> 'a list option) \<Rightarrow> 'a list \<Rightarrow> 'a set \<Rightarrow> 'a set \<Rightarrow> 'a list \<Rightarrow> 'a list option" where
  "po_loop S stack disc fin order =
     (case stack of
        [] \<Rightarrow> Some order
      | x # rest \<Rightarrow>
          if x \<notin> disc then
            Option.bind (S x) (\<lambda>ss. po_loop S (rev (filter (\<lambda>s. s \<notin> insert x disc) ss) @ x # rest) (insert x disc) fin order)
          else if x \<notin> fin then po_loop S rest disc (insert x fin) (order @ [x])
          else po_loop S rest disc fin order)"

locale successors =
  fixes S :: "'a \<Rightarrow> 'a list" and R :: "'a set"
  assumes finite: "finite {x. \<exists>r \<in> R. (\<lambda>x y. y \<in> set (S x))\<^sup>*\<^sup>* r x}"
begin

abbreviation "step x y \<equiv> y \<in> set (S x)"

definition reachable :: "'a set" where
  "reachable = {x. \<exists>r \<in> R. step\<^sup>*\<^sup>* r x}"

lemma finite_reachable: "finite reachable"
  using finite by (simp add: reachable_def)

lemma reachable_step: "x \<in> reachable \<Longrightarrow> set (S x) \<subseteq> reachable"
  by (auto simp: reachable_def intro: rtranclp.rtrancl_into_rtrancl)

text \<open>The parent of a node on the stack is below it, discovered and not finished.\<close>

definition parents :: "'a list \<Rightarrow> 'a set \<Rightarrow> 'a set \<Rightarrow> bool" where
  "parents stack disc fin \<longleftrightarrow> (\<forall>xs x zs. stack = xs @ x # zs \<longrightarrow> x \<notin> fin \<longrightarrow> x \<notin> R \<longrightarrow>
     (\<exists>us y vs. zs = us @ y # vs \<and> step y x \<and> y \<in> disc \<and> y \<notin> fin \<and> y \<notin> set xs \<and> y \<noteq> x \<and> y \<notin> set us))"

definition later :: "'a set \<Rightarrow> 'a list \<Rightarrow> bool" where
  "later G order \<longleftrightarrow> (\<forall>as x bs. order = as @ x # bs \<longrightarrow> x \<notin> R \<longrightarrow> (\<exists>y. step y x \<and> (y \<in> set bs \<or> y \<in> G)))"

definition search_inv :: "'a list \<Rightarrow> 'a set \<Rightarrow> 'a set \<Rightarrow> 'a list \<Rightarrow> bool" where
  "search_inv stack disc fin order \<longleftrightarrow>
     set order = fin \<and> distinct order \<and> fin \<subseteq> disc \<and> disc - fin \<subseteq> set stack \<and>
     (\<forall>x \<in> disc. set (S x) \<subseteq> disc \<union> set stack) \<and> R \<subseteq> disc \<union> set stack \<and>
     set stack \<union> disc \<subseteq> reachable \<and> parents stack disc fin \<and> later (disc - fin) order"

lemma search_start: "set stack = R \<Longrightarrow> search_inv stack {} {} []"
  by (auto simp: search_inv_def reachable_def parents_def later_def)

lemma discover:
  assumes inv: "search_inv (x # rest) disc fin order" and x: "x \<notin> disc"
  shows "search_inv (rev (filter (\<lambda>s. s \<notin> insert x disc) (S x)) @ x # rest) (insert x disc) fin order"
proof -
  let ?new = "rev (filter (\<lambda>s. s \<notin> insert x disc) (S x))"
  have xV: "x \<in> reachable" and fd: "fin \<subseteq> disc" using inv by (auto simp: search_inv_def)
  have "parents (?new @ x # rest) (insert x disc) fin"
    unfolding parents_def
  proof (intro allI impI)
    fix xs w zs assume eq: "?new @ x # rest = xs @ w # zs" and w: "w \<notin> fin" "w \<notin> R"
    from eq consider ys where "?new = xs @ w # ys" "zs = ys @ x # rest" | ys where "xs = ?new @ ys" "x # rest = ys @ w # zs"
      unfolding append_eq_append_conv2 by (auto simp: append_eq_Cons_conv Cons_eq_append_conv)
    then show "\<exists>us y vs. zs = us @ y # vs \<and> step y w \<and> y \<in> insert x disc \<and> y \<notin> fin \<and> y \<notin> set xs \<and> y \<noteq> w \<and> y \<notin> set us"
    proof cases
      case 1
      have "set (xs @ w # ys) = {s \<in> set (S x). s \<notin> insert x disc}" unfolding 1(1)[symmetric] by auto
      then have "step x w" "x \<notin> set xs" "x \<noteq> w" "x \<notin> set ys" by auto
      then show ?thesis using 1(2) x fd by blast
    next
      case 2
      obtain us y vs where y: "zs = us @ y # vs" "step y w" "y \<in> disc" "y \<notin> fin" "y \<notin> set ys" "y \<noteq> w" "y \<notin> set us"
        using inv 2(2) w unfolding search_inv_def parents_def by blast
      moreover have "y \<notin> set ?new" using y(3) by auto
      ultimately show ?thesis using 2(1) by auto
    qed
  qed
  moreover have "later (insert x disc - fin) order" using inv unfolding search_inv_def later_def by blast
  ultimately show ?thesis using inv xV reachable_step[OF xV] by (auto simp: search_inv_def)
qed

lemma finish:
  assumes inv: "search_inv (x # rest) disc fin order" and x: "x \<in> disc" "x \<notin> fin"
  shows "search_inv rest disc (insert x fin) (order @ [x])"
proof -
  have ps: "parents (x # rest) disc fin" and la: "later (disc - fin) order" and so: "set order = fin"
    using inv by (simp_all add: search_inv_def)
  have "parents rest disc (insert x fin)"
    unfolding parents_def
  proof (intro allI impI)
    fix xs w zs assume w: "rest = xs @ w # zs" "w \<notin> insert x fin" "w \<notin> R"
    then obtain us y vs where "zs = us @ y # vs" "step y w" "y \<in> disc" "y \<notin> fin" "y \<notin> set (x # xs)" "y \<noteq> w" "y \<notin> set us"
      using ps[unfolded parents_def, rule_format, of "x # xs" w zs] by auto
    then show "\<exists>us y vs. zs = us @ y # vs \<and> step y w \<and> y \<in> disc \<and> y \<notin> insert x fin \<and> y \<notin> set xs \<and> y \<noteq> w \<and> y \<notin> set us"
      by auto
  qed
  moreover have "later (disc - insert x fin) (order @ [x])"
    unfolding later_def
  proof (intro allI impI)
    fix as w bs assume eq: "order @ [x] = as @ w # bs" and w: "w \<notin> R"
    show "\<exists>y. step y w \<and> (y \<in> set bs \<or> y \<in> disc - insert x fin)"
    proof (cases bs rule: rev_cases)
      case Nil
      then have "w = x" using eq by simp
      then obtain y where "step y x" "y \<in> disc" "y \<notin> fin" "y \<noteq> x"
        using ps[unfolded parents_def, rule_format, of "[]" x rest] x w by auto
      then show ?thesis using \<open>w = x\<close> by blast
    next
      case (snoc bs' v)
      then have "order = as @ w # bs'" "v = x" using eq by simp_all
      then obtain y where "step y w" "y \<in> set bs' \<or> y \<in> disc - fin" using la w unfolding later_def by blast
      then show ?thesis using snoc \<open>v = x\<close> by auto
    qed
  qed
  ultimately show ?thesis using inv x so by (auto simp: search_inv_def)
qed

lemma skip:
  assumes inv: "search_inv (x # rest) disc fin order" and x: "x \<in> fin"
  shows "search_inv rest disc fin order"
proof -
  have "parents rest disc fin"
    unfolding parents_def
  proof (intro allI impI)
    fix xs w zs assume w: "rest = xs @ w # zs" "w \<notin> fin" "w \<notin> R"
    then obtain us y vs where "zs = us @ y # vs" "step y w" "y \<in> disc" "y \<notin> fin" "y \<notin> set (x # xs)" "y \<noteq> w" "y \<notin> set us"
      using inv[unfolded search_inv_def parents_def] by (metis append_Cons)
    then show "\<exists>us y vs. zs = us @ y # vs \<and> step y w \<and> y \<in> disc \<and> y \<notin> fin \<and> y \<notin> set xs \<and> y \<noteq> w \<and> y \<notin> set us" by auto
  qed
  moreover have "x \<in> disc" using inv x by (auto simp: search_inv_def)
  moreover have "set (x # rest) \<subseteq> disc \<union> set rest" using \<open>x \<in> disc\<close> by auto
  ultimately show ?thesis using inv x unfolding search_inv_def by (auto 0 3)
qed

text \<open>The search returns the reachable nodes, each once, and every node but a root after it its parent.\<close>

theorem post_order:
  assumes "search_inv stack disc fin order" "\<And>x. x \<in> reachable \<Longrightarrow> Q x = Some (S x)"
  shows "\<exists>os. po_loop Q stack disc fin order = Some os \<and> distinct os \<and> set os = reachable \<and>
    (\<forall>as x bs. os = as @ x # bs \<longrightarrow> x \<notin> R \<longrightarrow> (\<exists>y \<in> set bs. step y x))"
proof -
  let ?good = "\<lambda>stack disc fin order. \<exists>os. po_loop Q stack disc fin order = Some os \<and> distinct os \<and> set os = reachable \<and>
    (\<forall>as x bs. os = as @ x # bs \<longrightarrow> x \<notin> R \<longrightarrow> (\<exists>y \<in> set bs. step y x))"
  have "\<forall>stack disc fin order. p = (card (reachable - disc), length stack) \<longrightarrow> search_inv stack disc fin order \<longrightarrow> ?good stack disc fin order" for p
  proof (induction p rule: wf_induct_rule[OF wf_lex_prod[OF wf_less_than wf_less_than]])
    case (1 p)
    have IH: "?good s d f os" if "card (reachable - d) < fst p \<or> card (reachable - d) = fst p \<and> length s < snd p"
      and i: "search_inv s d f os" for s d f os
    proof -
      have "((card (reachable - d), length s), p) \<in> less_than <*lex*> less_than" using that(1) by (cases p) auto
      from 1[OF this] i show ?thesis by blast
    qed
    show ?case
    proof (intro allI impI)
      fix stack disc fin order
      assume p: "p = (card (reachable - disc), length stack)" and inv: "search_inv stack disc fin order"
      show "?good stack disc fin order"
      proof (cases stack)
        case Nil
        have d: "disc = fin" "set order = disc" using inv Nil by (auto simp: search_inv_def)
        have "reachable \<subseteq> disc"
        proof
          fix x assume "x \<in> reachable"
          then obtain r where "r \<in> R" "step\<^sup>*\<^sup>* r x" by (auto simp: reachable_def)
          from this(2,1) show "x \<in> disc"
            by (induction rule: rtranclp_induct) (use inv Nil in \<open>auto simp: search_inv_def\<close>)
        qed
        then have "set order = reachable" using inv d by (auto simp: search_inv_def)
        moreover have "po_loop Q stack disc fin order = Some order" using Nil by (subst po_loop.simps) simp
        moreover have "\<forall>as x bs. order = as @ x # bs \<longrightarrow> x \<notin> R \<longrightarrow> (\<exists>y \<in> set bs. step y x)"
        proof (intro allI impI)
          fix as x bs assume "order = as @ x # bs" "x \<notin> R"
          then have "\<exists>y. step y x \<and> (y \<in> set bs \<or> y \<in> disc - fin)" using inv unfolding search_inv_def later_def by blast
          then show "\<exists>y \<in> set bs. step y x" using d(1) by blast
        qed
        moreover have "distinct order" using inv by (simp add: search_inv_def)
        ultimately show ?thesis by blast
      next
        case (Cons x rest)
        have xV: "x \<in> reachable" using inv Cons by (auto simp: search_inv_def)
        consider "x \<notin> disc" | "x \<in> disc" "x \<notin> fin" | "x \<in> fin" by blast
        then show ?thesis
        proof cases
          case 1
          have "card (reachable - insert x disc) < card (reachable - disc)"
            using xV 1 finite_reachable by (intro psubset_card_mono) auto
          then show ?thesis
            using IH[OF _ discover[OF inv[unfolded Cons] 1]] assms(2)[OF xV] Cons 1 p by (subst po_loop.simps) simp
        next
          case 2
          then show ?thesis using IH[OF _ finish[OF inv[unfolded Cons] 2]] Cons p by (subst po_loop.simps) simp
        next
          case 3
          then have "x \<in> disc" using inv by (auto simp: search_inv_def)
          then show ?thesis using IH[OF _ skip[OF inv[unfolded Cons] 3]] Cons 3 p by (subst po_loop.simps) simp
        qed
      qed
    qed
  qed
  then show ?thesis using assms(1) by blast
qed

end

end
