(* ===== verification/DomTree.thy ===== *)
theory DomTree
  imports Preds Dominance PostOrder
begin

text \<open>
  The dominator tree of a unit (\<^verbatim>\<open>src/src/analysis/domtree.rs\<close>): post-order numbering, the
  iteration on the numbers, and the tables built from its result. \<open>ord\<close> is the iteration
  order of a hash set; the bit sets of the search are sets of blocks. The timing is left out.
\<close>

section \<open>Construction\<close>

record dominator_tree =
  dt_dominates :: "nat \<rightharpoonup> nat set"
  dt_dominated :: "nat \<rightharpoonup> nat set"
  dt_doms :: "nat list"
  dt_post_order :: "nat list"
  dt_inv_post_order :: "nat list"

text \<open>The blocks without predecessors.\<close>

definition root_blocks :: "pred_table \<Rightarrow> nat list \<Rightarrow> nat list option" where
  "root_blocks t bs =
     do { ss \<leftarrow> mapM (pred_set t) bs; Some (map fst (filter (\<lambda>(b, s). s = {}) (zip bs ss))) }"

definition compute_blocks_post_order :: "(nat set \<Rightarrow> nat list) \<Rightarrow> pred_table \<Rightarrow> function_layout \<Rightarrow> nat list option" where
  "compute_blocks_post_order ord t l =
     do { e \<leftarrow> entry_block l;
          bs \<leftarrow> blocks l;
          roots \<leftarrow> root_blocks t bs;
          po_loop (\<lambda>b. map_option ord (succ_set t b)) (rev (e # roots)) {} {} [] }"

definition invert_order :: "nat list \<Rightarrow> nat \<Rightarrow> nat list option" where
  "invert_order post cap = foldM (\<lambda>(i, bb) v. idx_set v bb i) (enumerate 0 post) (replicate cap no_dom)"

definition mark_roots :: "nat list \<Rightarrow> nat list \<Rightarrow> nat list \<Rightarrow> nat list option" where
  "mark_roots ipo roots doms = foldM (\<lambda>r d. do { p \<leftarrow> idx ipo r; idx_set d p p }) roots doms"

definition numbered_pred_set :: "(nat set \<Rightarrow> nat list) \<Rightarrow> pred_table \<Rightarrow> nat list \<Rightarrow> nat list \<Rightarrow> nat \<Rightarrow> nat list option" where
  "numbered_pred_set ord t post ipo i =
     do { bb \<leftarrow> idx post i; ps \<leftarrow> pred_set t bb; mapM (idx ipo) (ord ps) }"

definition final_doms :: "nat list \<Rightarrow> nat list \<Rightarrow> nat list \<Rightarrow> nat \<Rightarrow> nat list option" where
  "final_doms post ipo doms cap =
     foldM (\<lambda>bb v. do { i \<leftarrow> idx ipo bb; k \<leftarrow> idx doms i; d \<leftarrow> idx post k; idx_set v bb d })
       post (replicate cap key_invalid)"

text \<open>The walk from a block to the root.\<close>

partial_function (option) dom_chain :: "nat list \<Rightarrow> nat \<Rightarrow> nat set \<Rightarrow> nat set option" where
  "dom_chain doms bb s =
     Option.bind (idx doms bb) (\<lambda>next. if next = bb then Some (insert bb s) else dom_chain doms next (insert bb s))"

definition dominated_table :: "nat list \<Rightarrow> nat list \<Rightarrow> (nat \<rightharpoonup> nat set) option" where
  "dominated_table doms bs = foldM (\<lambda>b m. do { s \<leftarrow> dom_chain doms b {}; Some (m(b \<mapsto> s)) }) bs Map.empty"

definition invert_table :: "(nat set \<Rightarrow> nat list) \<Rightarrow> (nat \<rightharpoonup> nat set) \<Rightarrow> nat list \<Rightarrow> (nat \<rightharpoonup> nat set) option" where
  "invert_table ord m bs =
     foldM (\<lambda>b r. do { s \<leftarrow> m b; foldM (note_pred b) (ord s) r }) (ord (dom m)) (\<lambda>b. if b \<in> set bs then Some {} else None)"

definition domtree_new :: "(nat set \<Rightarrow> nat list) \<Rightarrow> nat \<Rightarrow> function_layout \<Rightarrow> pred_table \<Rightarrow> dominator_tree option" where
  "domtree_new ord cap l t =
     do { post \<leftarrow> compute_blocks_post_order ord t l;
          ipo \<leftarrow> invert_order post cap;
          e \<leftarrow> entry_block l;
          bs \<leftarrow> blocks l;
          roots \<leftarrow> root_blocks t bs;
          start \<leftarrow> mark_roots ipo (e # roots) (replicate (length post) no_dom);
          doms \<leftarrow> dom_loop (numbered_pred_set ord t post ipo) (length post) start;
          final \<leftarrow> final_doms post ipo doms cap;
          dominated \<leftarrow> dominated_table final bs;
          dominates \<leftarrow> invert_table ord dominated bs;
          Some \<lparr>dt_dominates = dominates, dt_dominated = dominated, dt_doms = final,
                dt_post_order = post, dt_inv_post_order = ipo\<rparr> }"

section \<open>Queries\<close>

definition block_order :: "dominator_tree \<Rightarrow> nat \<Rightarrow> nat option" where
  "block_order t b = idx (dt_inv_post_order t) b"

definition dt_dominates_block :: "dominator_tree \<Rightarrow> nat \<Rightarrow> nat \<Rightarrow> bool" where
  "dt_dominates_block t a b = (case dt_dominates t a of None \<Rightarrow> False | Some s \<Rightarrow> b \<in> s)"

definition dominator :: "dominator_tree \<Rightarrow> nat \<Rightarrow> nat option" where
  "dominator t b = idx (dt_doms t) b"

definition dominators_of :: "dominator_tree \<Rightarrow> nat \<Rightarrow> nat set option" where
  "dominators_of t b = dt_dominated t b"

definition dominated_by :: "dominator_tree \<Rightarrow> nat \<Rightarrow> nat set option" where
  "dominated_by t b = dt_dominates t b"

partial_function (option) block_dominates_block :: "dominator_tree \<Rightarrow> nat \<Rightarrow> nat \<Rightarrow> bool option" where
  "block_dominates_block t parent child =
     (if parent = child then Some True
      else Option.bind (dominator t child)
        (\<lambda>next. if next = child then Some False else block_dominates_block t parent next))"

definition inst_dominates_block :: "dominator_tree \<Rightarrow> function_layout \<Rightarrow> nat \<Rightarrow> nat \<Rightarrow> bool option" where
  "inst_dominates_block t l parent child =
     (case inst_block l parent of None \<Rightarrow> Some False | Some bb \<Rightarrow> block_dominates_block t bb child)"

definition value_dominates_block :: "dominator_tree \<Rightarrow> data_flow_graph \<Rightarrow> function_layout \<Rightarrow> nat \<Rightarrow> nat \<Rightarrow> bool option" where
  "value_dominates_block t g l parent child =
     do { d \<leftarrow> pt2_index (dvalues g) parent;
          case d of VInst _ i \<Rightarrow> inst_dominates_block t l i child | VArg _ _ \<Rightarrow> Some True | _ \<Rightarrow> Some False }"

definition block_dominates_inst :: "dominator_tree \<Rightarrow> function_layout \<Rightarrow> nat \<Rightarrow> nat \<Rightarrow> bool option" where
  "block_dominates_inst t l parent child =
     (case inst_block l child of None \<Rightarrow> Some False | Some bb \<Rightarrow> block_dominates_block t parent bb)"

text \<open>Both instructions step towards the head of the block; \<open>pcur\<close> starts at the parent, \<open>ccur\<close> at the child.\<close>

partial_function (option) step_back :: "function_layout \<Rightarrow> nat \<Rightarrow> nat \<Rightarrow> nat \<Rightarrow> nat \<Rightarrow> bool option" where
  "step_back l parent child pcur ccur =
     Option.bind (prev_inst l ccur) (\<lambda>pc. case pc of None \<Rightarrow> Some False
       | Some pci \<Rightarrow> if pci = parent then Some True
           else Option.bind (prev_inst l pcur) (\<lambda>pp. case pp of None \<Rightarrow> Some True
             | Some ppi \<Rightarrow> if ppi = child then Some False else step_back l parent child ppi pci))"

definition inst_dominates_inst :: "dominator_tree \<Rightarrow> data_flow_graph \<Rightarrow> function_layout \<Rightarrow> nat \<Rightarrow> nat \<Rightarrow> bool option" where
  "inst_dominates_inst t g l parent child =
     (if parent = child then Some True
      else (case (inst_block l parent, inst_block l child) of
        (Some pb, Some cb) \<Rightarrow>
          do { data \<leftarrow> pt2_index (dinsts g) child;
               case (if opcode_of data = OpPhi then get_inst_result g parent else None) of
                 Some r \<Rightarrow>
                   (case find (\<lambda>(v, bb). v = r) (zip (args data) (inst_blocks data)) of
                      Some (_, bb) \<Rightarrow> if pb = bb then Some True else inst_dominates_block t l parent bb
                    | None \<Rightarrow> if pb = cb then step_back l parent child parent child else block_dominates_block t pb cb)
               | None \<Rightarrow> if pb = cb then step_back l parent child parent child else block_dominates_block t pb cb }
      | _ \<Rightarrow> Some False))"

definition value_dominates_inst :: "dominator_tree \<Rightarrow> data_flow_graph \<Rightarrow> function_layout \<Rightarrow> nat \<Rightarrow> nat \<Rightarrow> bool option" where
  "value_dominates_inst t g l parent child =
     do { d \<leftarrow> pt2_index (dvalues g) parent;
          case d of VInst _ i \<Rightarrow> inst_dominates_inst t g l i child | VArg _ _ \<Rightarrow> Some True | _ \<Rightarrow> Some False }"

definition block_dominates_value :: "dominator_tree \<Rightarrow> data_flow_graph \<Rightarrow> function_layout \<Rightarrow> nat \<Rightarrow> nat \<Rightarrow> bool option" where
  "block_dominates_value t g l parent child =
     do { i \<leftarrow> get_value_inst g child; case i of None \<Rightarrow> Some False | Some i \<Rightarrow> block_dominates_inst t l parent i }"

definition inst_dominates_value :: "dominator_tree \<Rightarrow> data_flow_graph \<Rightarrow> function_layout \<Rightarrow> nat \<Rightarrow> nat \<Rightarrow> bool option" where
  "inst_dominates_value t g l parent child =
     do { i \<leftarrow> get_value_inst g child; case i of None \<Rightarrow> Some False | Some i \<Rightarrow> inst_dominates_inst t g l parent i }"

definition value_dominates_value :: "dominator_tree \<Rightarrow> data_flow_graph \<Rightarrow> function_layout \<Rightarrow> nat \<Rightarrow> nat \<Rightarrow> bool option" where
  "value_dominates_value t g l parent child =
     do { i \<leftarrow> get_value_inst g child; case i of None \<Rightarrow> Some False | Some i \<Rightarrow> value_dominates_inst t g l parent i }"

end
