(* ===== verification/DomTreeProps.thy ===== *)
theory DomTreeProps
  imports DomTree
begin

text \<open>
  The dominator tree against dominance by paths. When every block can be reached from the
  entry block, the construction returns and its queries are those of the control flow graph.
\<close>

section \<open>The interfaces\<close>

text \<open>The successors of a block in the order of the hash set, and the roots of a finite search.\<close>

definition block_succs :: "(nat set \<Rightarrow> nat list) \<Rightarrow> pred_table \<Rightarrow> nat \<Rightarrow> nat list" where
  "block_succs ord t b = (case succ_set t b of None \<Rightarrow> [] | Some s \<Rightarrow> ord s)"

definition bounded_roots :: "('a \<Rightarrow> 'a list) \<Rightarrow> 'a set \<Rightarrow> 'a set" where
  "bounded_roots S R = (if finite {x. \<exists>r \<in> R. (\<lambda>x y. y \<in> set (S x))\<^sup>*\<^sup>* r x} then R else {})"

interpretation block_search: successors "block_succs ord t" "bounded_roots (block_succs ord t) R" for ord t R
  by unfold_locales (auto simp: bounded_roots_def)

text \<open>Predecessor lists of the numbers up to \<open>k\<close>, the root last, numbered in post-order.\<close>

definition flow_numbered :: "(nat \<Rightarrow> nat list) \<Rightarrow> nat \<Rightarrow> bool" where
  "flow_numbered P k \<longleftrightarrow> Suc k \<le> no_dom \<and> (\<forall>i \<le> k. set (P i) \<subseteq> {..k}) \<and> (\<forall>i < k. \<exists>p \<in> set (P i). i < p)"

definition numbered_preds :: "(nat \<Rightarrow> nat list) \<Rightarrow> nat \<Rightarrow> nat \<Rightarrow> nat list" where
  "numbered_preds P k = (if flow_numbered P k then P else (\<lambda>_. [0]))"

definition last_number :: "(nat \<Rightarrow> nat list) \<Rightarrow> nat \<Rightarrow> nat" where
  "last_number P k = (if flow_numbered P k then k else 0)"

interpretation numbered: flow_graph "numbered_preds P k" "Suc (last_number P k)" "last_number P k" for P k
  by unfold_locales
    (auto simp: numbered_preds_def last_number_def flow_numbered_def no_dom_def less_Suc_eq_le split: if_splits)

section \<open>The control flow graph and its table\<close>

definition rooted_graph :: "('a \<Rightarrow> 'a \<Rightarrow> bool) \<Rightarrow> 'a \<Rightarrow> 'a set \<Rightarrow> bool" where
  "rooted_graph E e B \<longleftrightarrow> finite B \<and> e \<in> B \<and> (\<forall>a b. E a b \<longrightarrow> a \<in> B \<and> b \<in> B) \<and> (\<forall>b \<in> B. E\<^sup>*\<^sup>* e b)"

definition table_of :: "pred_table \<Rightarrow> (nat \<Rightarrow> nat \<Rightarrow> bool) \<Rightarrow> nat set \<Rightarrow> bool" where
  "table_of t E B \<longleftrightarrow> (\<forall>b \<in> B. pred_set t b = Some {a. E a b} \<and> succ_set t b = Some {c. E b c})"

lemma rooted_finite:
  assumes "rooted_graph E e B"
  shows "finite {a. E a b}" "finite {c. E b c}"
proof -
  have "{a. E a b} \<subseteq> B" "{c. E b c} \<subseteq> B" "finite B" using assms by (auto simp: rooted_graph_def)
  then show "finite {a. E a b}" "finite {c. E b c}" by (simp_all add: finite_subset)
qed

lemma set_succs:
  assumes "rooted_graph E e B" "table_of t E B" "lists_sets ord" "b \<in> B"
  shows "set (block_succs ord t b) = {c. E b c}"
  using assms rooted_finite[OF assms(1)] by (simp add: block_succs_def table_of_def lists_sets_def)

lemma rooted_roots:
  assumes G: "rooted_graph E e B" and T: "table_of t E B" and bs: "set bs = B"
  shows "\<exists>rs. root_blocks t bs = Some rs \<and> set rs \<subseteq> {e}"
proof -
  have "mapM (pred_set t) bs = Some (map (\<lambda>b. {a. E a b}) bs)"
    unfolding mapM_Some_iff list_all2_map2 using T bs by (auto simp: list_all2_same table_of_def)
  moreover have src: "{a. E a b} \<noteq> {}" if "b \<in> B" "b \<noteq> e" for b
  proof -
    have "E\<^sup>*\<^sup>* e b" using G that by (simp add: rooted_graph_def)
    then show ?thesis using that(2) by (cases rule: rtranclp.cases) auto
  qed
  moreover have "set (map fst (filter (\<lambda>(b, s). s = {}) (zip bs (map (\<lambda>b. {a. E a b}) bs)))) = {b \<in> B. {a. E a b} = {}}"
    using bs by (auto simp: zip_map2 zip_same_conv_map image_iff)
  ultimately show ?thesis by (auto simp: root_blocks_def simp del: set_map set_filter)
qed

lemma rooted_post_order:
  assumes G: "rooted_graph E e B" and T: "table_of t E B" and ord: "lists_sets ord"
    and l: "entry_block l = Some e" "blocks l = Some bs" "set bs = B"
  shows "\<exists>post. compute_blocks_post_order ord t l = Some post \<and> distinct post \<and> set post = B \<and>
    (\<forall>i < length post. post ! i \<noteq> e \<longrightarrow> (\<exists>j. i < j \<and> j < length post \<and> E (post ! j) (post ! i)))"
proof -
  obtain rs where rs: "root_blocks t bs = Some rs" "set rs \<subseteq> {e}" using rooted_roots[OF G T l(3)] by blast
  let ?S = "block_succs ord t"
  let ?step = "\<lambda>x y. y \<in> set (?S x)"
  have eB: "e \<in> B" using G by (simp add: rooted_graph_def)
  have inB: "x \<in> B" if "?step\<^sup>*\<^sup>* e x" for x
    using that by (induction rule: rtranclp_induct) (use eB set_succs[OF G T ord] G in \<open>auto simp: rooted_graph_def\<close>)
  have fin: "finite {x. \<exists>r \<in> {e}. ?step\<^sup>*\<^sup>* r x}"
    by (rule finite_subset[of _ B]) (use inB G in \<open>auto simp: rooted_graph_def\<close>)
  have R: "bounded_roots ?S {e} = {e}" unfolding bounded_roots_def using fin by simp
  have all: "?step\<^sup>*\<^sup>* e x" if "E\<^sup>*\<^sup>* e x" for x
    using that
  proof (induction rule: rtranclp_induct)
    case (step y z)
    have "y \<in> B" using step(2) G by (auto simp: rooted_graph_def)
    then show ?case using step(2,3) set_succs[OF G T ord] by (auto intro: rtranclp.rtrancl_into_rtrancl)
  qed simp
  have reach: "block_search.reachable ord t {e} = B"
    unfolding block_search.reachable_def unfolding R using inB all G by (auto simp: rooted_graph_def)
  have "\<exists>os. po_loop (\<lambda>b. map_option ord (succ_set t b)) (rev (e # rs)) {} {} [] = Some os \<and> distinct os \<and>
      set os = block_search.reachable ord t {e} \<and>
      (\<forall>as x bs. os = as @ x # bs \<longrightarrow> x \<notin> bounded_roots ?S {e} \<longrightarrow> (\<exists>y \<in> set bs. ?step y x))"
  proof (rule block_search.post_order)
    show "block_search.search_inv ord t {e} (rev (e # rs)) {} {} []"
      by (rule block_search.search_start) (use rs(2) R in auto)
    show "map_option ord (succ_set t x) = Some (?S x)" if "x \<in> block_search.reachable ord t {e}" for x
      using that T unfolding reach by (simp add: block_succs_def table_of_def)
  qed
  then obtain os where os: "po_loop (\<lambda>b. map_option ord (succ_set t b)) (rev (e # rs)) {} {} [] = Some os"
    "distinct os" "set os = B" "\<And>as x bs. os = as @ x # bs \<Longrightarrow> x \<noteq> e \<Longrightarrow> \<exists>y \<in> set bs. ?step y x"
    unfolding reach unfolding R by blast
  have "\<exists>j. i < j \<and> j < length os \<and> E (os ! j) (os ! i)" if i: "i < length os" "os ! i \<noteq> e" for i
  proof -
    obtain y where y: "y \<in> set (drop (Suc i) os)" "?step y (os ! i)"
      using os(4)[OF id_take_nth_drop[OF i(1)] i(2)] by blast
    then obtain k where k: "k < length os - Suc i" "y = os ! (Suc i + k)" by (auto simp: in_set_conv_nth)
    have "y \<in> B" using y(1) os(3) by (blast dest: in_set_dropD)
    then have "E y (os ! i)" using y(2) set_succs[OF G T ord] by simp
    then show ?thesis using k by (intro exI[of _ "Suc i + k"]) simp
  qed
  then show ?thesis using os l rs(1) by (auto simp: compute_blocks_post_order_def)
qed

section \<open>The vectors\<close>

lemma assign_all:
  assumes "\<And>x v. x \<in> set xs \<Longrightarrow> F x v = idx_set v (k x) (h x)" "\<forall>x \<in> set xs. k x < length v" "distinct (map k xs)"
  shows "\<exists>w. foldM F xs v = Some w \<and> length w = length v \<and> (\<forall>x \<in> set xs. w ! k x = h x) \<and>
    (\<forall>i. i \<notin> k ` set xs \<longrightarrow> w ! i = v ! i)"
  using assms
proof (induction xs arbitrary: v)
  case (Cons x xs)
  have "\<exists>w. foldM F xs (v[k x := h x]) = Some w \<and> length w = length (v[k x := h x]) \<and> (\<forall>x \<in> set xs. w ! k x = h x) \<and>
      (\<forall>i. i \<notin> k ` set xs \<longrightarrow> w ! i = v[k x := h x] ! i)"
    by (rule Cons.IH) (use Cons.prems in auto)
  moreover have "foldM F (x # xs) v = foldM F xs (v[k x := h x])" using Cons.prems by (simp add: idx_set_def)
  moreover have "k x \<notin> k ` set xs" using Cons.prems(3) by simp
  ultimately show ?case using Cons.prems(2) by (auto simp: nth_list_update)
qed simp

lemma invert_order_built:
  assumes "distinct post" "set post \<subseteq> {..<cap}"
  shows "\<exists>ipo. invert_order post cap = Some ipo \<and> length ipo = cap \<and> (\<forall>i < length post. ipo ! (post ! i) = i)"
proof -
  have "\<exists>w. foldM (\<lambda>(i, bb) v. idx_set v bb i) (enumerate 0 post) (replicate cap no_dom) = Some w \<and>
      length w = length (replicate cap no_dom) \<and> (\<forall>x \<in> set (enumerate 0 post). w ! snd x = fst x) \<and>
      (\<forall>i. i \<notin> snd ` set (enumerate 0 post) \<longrightarrow> w ! i = replicate cap no_dom ! i)"
    by (rule assign_all) (use assms in \<open>auto simp: in_set_enumerate_eq subset_iff dest: nth_mem\<close>)
  then obtain w where w: "invert_order post cap = Some w" "length w = cap" "\<forall>x \<in> set (enumerate 0 post). w ! snd x = fst x"
    by (auto simp: invert_order_def)
  have "w ! (post ! i) = i" if "i < length post" for i
    using w(3)[rule_format, of "(i, post ! i)"] that by (simp add: in_set_enumerate_eq)
  then show ?thesis using w by blast
qed

lemma mark_roots_built:
  assumes "set rs \<subseteq> {e}" "idx ipo e = Some p" "p < length d"
  shows "mark_roots ipo (e # rs) d = Some (d[p := p])"
proof -
  have "foldM (\<lambda>r d. do { p \<leftarrow> idx ipo r; idx_set d p p }) rs (d[p := p]) = Some (d[p := p])"
    using assms by (induction rs) (auto simp: idx_set_def)
  then show ?thesis using assms by (simp add: mark_roots_def idx_set_def)
qed

lemma final_doms_built:
  assumes "distinct post" "set post \<subseteq> {..<cap}" "length ipo = cap" "\<forall>i < length post. ipo ! (post ! i) = i"
    and d: "length d = length post" "\<forall>i < length post. d ! i < length post"
  shows "\<exists>f. final_doms post ipo d cap = Some f \<and> length f = cap \<and> (\<forall>i < length post. f ! (post ! i) = post ! (d ! i))"
proof -
  have "\<exists>w. foldM (\<lambda>bb v. do { i \<leftarrow> idx ipo bb; k \<leftarrow> idx d i; d \<leftarrow> idx post k; idx_set v bb d })
        post (replicate cap key_invalid) = Some w \<and> length w = length (replicate cap key_invalid) \<and>
      (\<forall>b \<in> set post. w ! id b = post ! (d ! (ipo ! b))) \<and>
      (\<forall>i. i \<notin> id ` set post \<longrightarrow> w ! i = replicate cap key_invalid ! i)"
  proof (rule assign_all)
    fix b v assume b: "b \<in> set post"
    then obtain i where i: "i < length post" "b = post ! i" by (auto simp: in_set_conv_nth)
    have "b < cap" using assms(2) b by auto
    then show "do { i \<leftarrow> idx ipo b; k \<leftarrow> idx d i; d \<leftarrow> idx post k; idx_set v b d } = idx_set v (id b) (post ! (d ! (ipo ! b)))"
      using i assms by (simp add: idx_def)
  qed (use assms in auto)
  then show ?thesis using assms(4) by (auto simp: final_doms_def)
qed

section \<open>Immediate dominators\<close>

definition immediate :: "nat list \<Rightarrow> nat set \<Rightarrow> nat \<Rightarrow> nat \<Rightarrow> bool" where
  "immediate f B x y \<longleftrightarrow> x \<in> B \<and> y = f ! x \<and> y \<noteq> x"

lemma rtranclp_transfer:
  assumes "R\<^sup>*\<^sup>* x y" "\<And>a b. R a b \<Longrightarrow> S (h a) (h b)"
  shows "S\<^sup>*\<^sup>* (h x) (h y)"
  using assms(1) by (induction rule: rtranclp_induct) (auto intro: assms(2) rtranclp.rtrancl_into_rtrancl)

lemma dom_by_transfer:
  assumes "dom_by F (h r) (h a) (h x)" "\<And>a b. E a b \<Longrightarrow> F (h a) (h b)" "inj_on h A" "a \<in> A"
    and "\<And>a b. E a b \<Longrightarrow> a \<in> A \<and> b \<in> A" "r \<in> A"
  shows "dom_by E r a x"
  unfolding dom_by_def
proof (intro allI impI)
  fix xs assume p: "path E r xs x"
  have "path F (h r) (map h xs) (h x)" using p assms(2) by (rule path_map)
  then have "h a \<in> h ` set xs" using assms(1) by (auto simp: dom_by_def)
  moreover have "set xs \<subseteq> A" using p assms(6) by (induction rule: path.induct) (use assms(5) in auto)
  ultimately show "a \<in> set xs" using assms(3,4) by (auto simp: inj_on_def)
qed

lemma immediate_built:
  assumes G: "rooted_graph E e B" and ord: "lists_sets ord" and n: "length post \<le> no_dom"
    and post: "distinct post" "set post = B" "\<forall>i < length post. post ! i \<noteq> e \<longrightarrow> (\<exists>j. i < j \<and> j < length post \<and> E (post ! j) (post ! i))"
    and ipo: "\<forall>i < length post. ipo ! (post ! i) = i"
    and P: "\<And>i. i < length post \<Longrightarrow> Q i = Some (map (\<lambda>b. ipo ! b) (ord {a. E a (post ! i)}))"
  shows "\<exists>d. dom_loop Q (length post) ((replicate (length post) no_dom)[ipo ! e := ipo ! e]) = Some d \<and>
    length d = length post \<and> (\<forall>i < length post. i \<le> d ! i \<and> d ! i < length post) \<and>
    (\<forall>f. (\<forall>i < length post. f ! (post ! i) = post ! (d ! i)) \<longrightarrow>
      (\<forall>b \<in> B. \<forall>a \<in> B. (immediate f B)\<^sup>*\<^sup>* b a \<longleftrightarrow> dom_by E e a b))"
proof -
  define k where "k = length post - 1"
  define P where "P = (\<lambda>i. map (\<lambda>b. ipo ! b) (ord {a. E a (post ! i)}))"
  have eB: "e \<in> B" and EB: "\<And>a b. E a b \<Longrightarrow> a \<in> B \<and> b \<in> B" using G by (auto simp: rooted_graph_def)
  have inB: "post ! i \<in> B" if "i < length post" for i using that post(2) by auto
  have ip: "ipo ! b < length post \<and> post ! (ipo ! b) = b" if "b \<in> B" for b
    using that post(2) ipo by (auto simp: in_set_conv_nth)
  have len: "length post = Suc k" using eB post(2) by (cases post) (auto simp: k_def)
  have last: "post ! k = e"
    using post(3) len by (metis lessI not_less_eq)
  have ke: "ipo ! e = k" using ipo last len by (metis lessI)
  have setP: "set (P i) = (\<lambda>b. ipo ! b) ` {a. E a (post ! i)}" if "i < length post" for i
    using ord rooted_finite(1)[OF G] by (simp add: P_def lists_sets_def)
  have num: "flow_numbered P k"
    unfolding flow_numbered_def
  proof (intro conjI allI impI)
    show "Suc k \<le> no_dom" using n len by simp
    show "set (P i) \<subseteq> {..k}" if "i \<le> k" for i
      using setP[of i] that len ip EB by (force simp: less_Suc_eq_le)
    show "\<exists>p \<in> set (P i). i < p" if i: "i < k" for i
    proof -
      have "post ! i \<noteq> e" using i len last post(1) by (metis Suc_lessD Suc_mono lessI nth_eq_iff_index_eq order_less_irrefl)
      then obtain j where "i < j" "j < length post" "E (post ! j) (post ! i)"
        using post(3)[rule_format, of i] i len by auto
      then show ?thesis using setP[of i] i len ipo by force
    qed
  qed
  have PP: "numbered_preds P k = P" "last_number P k = k" using num by (simp_all add: numbered_preds_def last_number_def)
  note fg = numbered.dominators[where P = P and k = k and Q = Q, unfolded PP, folded len]
  note tree_def = numbered.tree_def[where P = P and k = k, unfolded PP, folded len]
    and edge_def = numbered.edge_def[where P = P and k = k, unfolded PP, folded len]
    and up_def = numbered.up_def[where P = P and k = k, unfolded PP, folded len]
  let ?edge = "flow_graph.edge P (length post)" and ?up = "flow_graph.up (length post) k"
  obtain d where d: "dom_loop Q (length post) ((replicate (length post) no_dom)[k := k]) = Some d"
    "flow_graph.tree (length post) k d" "\<forall>x < length post. d ! x \<noteq> no_dom"
    "\<forall>x < length post. \<forall>a. (?up d)\<^sup>*\<^sup>* x a \<longleftrightarrow> dom_by ?edge k a x"
    using fg P unfolding P_def by blast
  have t: "length d = length post" "d ! k = k" "\<And>i. i < length post \<Longrightarrow> i \<noteq> k \<Longrightarrow> i < d ! i \<and> d ! i < length post"
    using d(2,3) by (auto simp: tree_def)
  have e1: "?edge (ipo ! a) (ipo ! b)" if "E a b" for a b using that EB ip setP by (auto simp: edge_def)
  have e2: "E (post ! i) (post ! j)" if "?edge i j" for i j using that EB ip setP by (auto simp: edge_def)
  have e3: "i < length post \<and> j < length post" if "?edge i j" for i j using that EB ip setP by (auto simp: edge_def)
  have "(immediate f B)\<^sup>*\<^sup>* b a \<longleftrightarrow> dom_by E e a b"
    if f: "\<forall>i < length post. f ! (post ! i) = post ! (d ! i)" and ab: "a \<in> B" "b \<in> B" for f a b
  proof -
    have u1: "immediate f B (post ! i) (post ! j)" if "?up d i j" for i j
      using that f inB t(3)[of i] post(1) by (auto simp: up_def immediate_def nth_eq_iff_index_eq)
    have u2: "?up d (ipo ! x) (ipo ! y)" if "immediate f B x y" for x y
    proof -
      have x: "x \<in> B" "y = post ! (d ! (ipo ! x))" "y \<noteq> x"
        using that f ip[of x] by (auto simp: immediate_def)
      then have "ipo ! x \<noteq> k" using ip[of x] t(2) by auto
      then show ?thesis using x ip[of x] t(3)[of "ipo ! x"] d(3) ipo by (auto simp: up_def)
    qed
    have "(immediate f B)\<^sup>*\<^sup>* b a \<longleftrightarrow> (?up d)\<^sup>*\<^sup>* (ipo ! b) (ipo ! a)"
      using rtranclp_transfer[of "immediate f B" b a "?up d" "\<lambda>x. ipo ! x"] u2
        rtranclp_transfer[of "?up d" "ipo ! b" "ipo ! a" "immediate f B" "\<lambda>i. post ! i"] u1 ip[OF ab(1)] ip[OF ab(2)] by auto
    also have "\<dots> \<longleftrightarrow> dom_by ?edge k (ipo ! a) (ipo ! b)" using d(4) ip[OF ab(2)] by blast
    also have "\<dots> \<longleftrightarrow> dom_by E e a b"
    proof
      assume "dom_by ?edge k (ipo ! a) (ipo ! b)"
      then show "dom_by E e a b" unfolding ke[symmetric]
        by (rule dom_by_transfer[where A = B]) (use e1 EB eB ab ip in \<open>auto intro: inj_on_inverseI[where g = "\<lambda>i. post ! i"]\<close>)
    next
      assume "dom_by E e a b"
      then have "dom_by E (post ! k) (post ! (ipo ! a)) (post ! (ipo ! b))" using ip ab last by simp
      then show "dom_by ?edge k (ipo ! a) (ipo ! b)"
        by (rule dom_by_transfer[where A = "{..<length post}"])
          (use e2 e3 ip ab len post(1) in \<open>auto simp: inj_on_def nth_eq_iff_index_eq\<close>)
    qed
    finally show ?thesis .
  qed
  moreover have "i \<le> d ! i \<and> d ! i < length post" if "i < length post" for i
    using t(2) t(3)[of i] that by (cases "i = k") auto
  ultimately show ?thesis using d(1) t(1) unfolding ke by blast
qed

section \<open>The tables\<close>

text \<open>A table of immediate dominators: the walk from a block rises in \<open>rank\<close>.\<close>

definition idom_table :: "nat list \<Rightarrow> nat set \<Rightarrow> (nat \<Rightarrow> nat) \<Rightarrow> bool" where
  "idom_table f B rank \<longleftrightarrow> B \<subseteq> {..<length f} \<and> finite B \<and> (\<forall>b \<in> B. f ! b \<in> B \<and> (f ! b \<noteq> b \<longrightarrow> rank b < rank (f ! b)))"

lemma idom_induct [consumes 2, case_names up]:
  assumes "idom_table f B rank" "x \<in> B" and step: "\<And>x. x \<in> B \<Longrightarrow> (f ! x \<noteq> x \<Longrightarrow> Q (f ! x)) \<Longrightarrow> Q x"
  shows "Q x"
proof -
  have "finite (rank ` B)" using assms(1) by (simp add: idom_table_def)
  then obtain m where m: "\<forall>b \<in> B. rank b \<le> m" unfolding finite_nat_set_iff_bounded_le by blast
  from assms(2) show ?thesis
  proof (induction "m - rank x" arbitrary: x rule: less_induct)
    case less
    show ?case
    proof (rule step)
      assume "f ! x \<noteq> x"
      then have "rank x < rank (f ! x)" "f ! x \<in> B" using assms(1) less.prems by (auto simp: idom_table_def)
      moreover have "rank (f ! x) \<le> m" using m calculation(2) by blast
      ultimately show "Q (f ! x)" using less.hyps[of "f ! x"] by linarith
    qed (rule less.prems)
  qed
qed

lemma immediate_step:
  assumes "x \<in> B"
  shows "(immediate f B)\<^sup>*\<^sup>* x a \<longleftrightarrow> a = x \<or> f ! x \<noteq> x \<and> (immediate f B)\<^sup>*\<^sup>* (f ! x) a"
  using assms by (auto simp: immediate_def elim: converse_rtranclpE intro: converse_rtranclp_into_rtranclp)

lemma dom_chain_built:
  assumes "idom_table f B rank" "b \<in> B"
  shows "dom_chain f b s = Some (s \<union> {a. (immediate f B)\<^sup>*\<^sup>* b a})"
  using assms
proof (induction b arbitrary: s rule: idom_induct)
  case (up x)
  have "idx f x = Some (f ! x)" using assms(1) up(1) by (auto simp: idx_def idom_table_def)
  moreover have *: "{a. (immediate f B)\<^sup>*\<^sup>* x a} = insert x (if f ! x = x then {} else {a. (immediate f B)\<^sup>*\<^sup>* (f ! x) a})"
    unfolding immediate_step[OF up(1), of f] by auto
  ultimately have "dom_chain f x s = (if f ! x = x then Some (insert x s) else dom_chain f (f ! x) (insert x s))"
    by (subst dom_chain.simps) simp
  then show ?case using up(2) * by auto
qed

lemma dominated_built:
  assumes "idom_table f B rank" "set bs \<subseteq> B"
  shows "foldM (\<lambda>b m. do { s \<leftarrow> dom_chain f b {}; Some (m(b \<mapsto> s)) }) bs m =
    Some (\<lambda>b. if b \<in> set bs then Some {a. (immediate f B)\<^sup>*\<^sup>* b a} else m b)"
  using assms(2)
proof (induction bs arbitrary: m)
  case (Cons b bs)
  then show ?case using dom_chain_built[OF assms(1), of b "{}"] by (auto simp: fun_eq_iff)
qed simp

lemma invert_built:
  assumes ord: "lists_sets ord" and fin: "finite B" and M: "\<And>b. b \<in> B \<Longrightarrow> M b \<subseteq> B" and bs: "set bs = B"
  shows "invert_table ord (\<lambda>b. if b \<in> B then Some (M b) else None) bs =
    Some (\<lambda>a. if a \<in> B then Some {b \<in> B. a \<in> M b} else None)"
proof -
  let ?step = "\<lambda>b r. do { s \<leftarrow> if b \<in> B then Some (M b) else None; foldM (note_pred b) (ord s) r }"
  have loop: "foldM ?step xs r = Some (\<lambda>a. map_option (\<lambda>s. s \<union> {b \<in> set xs. a \<in> M b}) (r a))"
    if "set xs \<subseteq> B" "dom r = B" for xs r
    using that
  proof (induction xs arbitrary: r)
    case Nil
    show ?case by (simp add: option.map_ident)
  next
    case (Cons b xs)
    have "finite (M b)" using Cons.prems(1) M fin by (meson finite_subset list.set_intros(1) subsetD)
    then have s: "set (ord (M b)) = M b" using ord by (simp add: lists_sets_def)
    let ?r = "\<lambda>c. map_option (\<lambda>s. if c \<in> M b then insert b s else s) (r c)"
    have "?step b r = Some ?r" using Cons.prems M[of b] s by (simp add: note_preds)
    then have "foldM ?step (b # xs) r = foldM ?step xs ?r" by simp
    also have "\<dots> = Some (\<lambda>a. map_option (\<lambda>s. s \<union> {b \<in> set xs. a \<in> M b}) (?r a))"
      by (rule Cons.IH) (use Cons.prems in \<open>auto simp: dom_def\<close>)
    also have "\<dots> = Some (\<lambda>a. map_option (\<lambda>s. s \<union> {b' \<in> set (b # xs). a \<in> M b'}) (r a))"
      by (simp, rule ext, rename_tac a, case_tac "r a") auto
    finally show ?case .
  qed
  have d: "dom (\<lambda>b. if b \<in> B then Some (M b) else None) = B" "dom (\<lambda>b. if b \<in> B then Some {} else None) = B"
    by (auto simp: dom_def)
  have "set (ord B) = B" using ord fin by (simp add: lists_sets_def)
  then have "foldM ?step (ord B) (\<lambda>b. if b \<in> B then Some {} else None) =
      Some (\<lambda>a. map_option (\<lambda>s. s \<union> {b \<in> B. a \<in> M b}) (if a \<in> B then Some {} else None))"
    using loop[of "ord B", OF _ d(2)] by simp
  then show ?thesis unfolding invert_table_def d bs by (auto simp: fun_eq_iff)
qed

lemma block_dominates_built:
  assumes "idom_table f B rank" "b \<in> B" "dt_doms t = f"
  shows "block_dominates_block t a b = Some ((immediate f B)\<^sup>*\<^sup>* b a)"
  using assms(1,2)
proof (induction b rule: idom_induct)
  case (up x)
  have "idx f x = Some (f ! x)" using assms(1) up(1) by (auto simp: idx_def idom_table_def)
  then have eq: "block_dominates_block t a x = (if a = x then Some True else if f ! x = x then Some False else block_dominates_block t a (f ! x))"
    by (subst block_dominates_block.simps) (simp add: dominator_def assms(3))
  show ?case unfolding eq immediate_step[OF up(1), of f a] using up(2) by auto
qed

section \<open>Construction and queries\<close>

lemma rep_entry: "fl_rep l xs \<Longrightarrow> entry_block l = hd_opt (map fst xs)"
  using fl_repD(1)[of l xs] by (simp add: entry_block_def bl_rep_def il_rep_def dll_def erase_def)

lemma pred_table_of:
  assumes "fl_rep l xs" "\<forall>i \<in> members xs. pt2_index (dinsts g) i \<noteq> None" "pred_table_skip skip g l = Some t"
  shows "table_of t (branches skip g xs) (keys xs)" "\<forall>a b. branches skip g xs a b \<longrightarrow> a \<in> keys xs \<and> b \<in> keys xs"
proof -
  note pt = pred_table_built[OF assms(1,2), of skip]
  show "table_of t (branches skip g xs) (keys xs)"
    using pt assms(3) by (auto simp: table_of_def pred_set_def succ_set_def split: if_splits)
  have "branches skip g xs a b \<Longrightarrow> a \<in> keys xs" for a b by (force simp: branches_def keys_def)
  then show "\<forall>a b. branches skip g xs a b \<longrightarrow> a \<in> keys xs \<and> b \<in> keys xs"
    using pt assms(3) by (auto split: if_splits)
qed

lemma domtree_built:
  assumes l: "entry_block l = Some e" "blocks l = Some bs" "set bs = B" and G: "rooted_graph E e B" and T: "table_of t E B"
    and ord: "lists_sets ord" and cap: "B \<subseteq> {..<cap}" "cap \<le> no_dom"
  shows "\<exists>dt. domtree_new ord cap l t = Some dt \<and> dt_dominated dt = (\<lambda>b. if b \<in> B then Some {a \<in> B. dom_by E e a b} else None) \<and>
    dt_dominates dt = (\<lambda>a. if a \<in> B then Some {b \<in> B. dom_by E e a b} else None) \<and>
    (\<forall>a \<in> B. \<forall>b \<in> B. block_dominates_block dt a b = Some (dom_by E e a b))"
proof -
  have eB: "e \<in> B" "finite B" using G by (auto simp: rooted_graph_def)
  obtain post where post: "compute_blocks_post_order ord t l = Some post" "distinct post" "set post = B"
    "\<forall>i < length post. post ! i \<noteq> e \<longrightarrow> (\<exists>j. i < j \<and> j < length post \<and> E (post ! j) (post ! i))"
    using rooted_post_order[OF G T ord l] by blast
  obtain ipo where ipo: "invert_order post cap = Some ipo" "length ipo = cap" "\<forall>i < length post. ipo ! (post ! i) = i"
    using invert_order_built[of post cap] post(2,3) cap(1) by blast
  have ip: "ipo ! b < length post \<and> post ! (ipo ! b) = b" if "b \<in> B" for b
    using that post(3) ipo(3) by (auto simp: in_set_conv_nth)
  obtain rs where rs: "root_blocks t bs = Some rs" "set rs \<subseteq> {e}" using rooted_roots[OF G T l(3)] by blast
  have start: "mark_roots ipo (e # rs) (replicate (length post) no_dom) = Some ((replicate (length post) no_dom)[ipo ! e := ipo ! e])"
    by (rule mark_roots_built[OF rs(2)]) (use ip[OF eB(1)] ipo(2) eB(1) cap(1) in \<open>auto simp: idx_def\<close>)
  have "length post = card B" using post(2,3) distinct_card by metis
  also have "\<dots> \<le> cap" using card_mono[OF finite_lessThan cap(1)] by simp
  finally have small: "length post \<le> no_dom" using cap(2) by simp
  have P: "numbered_pred_set ord t post ipo i = Some (map (\<lambda>b. ipo ! b) (ord {a. E a (post ! i)}))" if "i < length post" for i
  proof -
    have "set (ord {a. E a (post ! i)}) = {a. E a (post ! i)}" using ord rooted_finite(1)[OF G] by (simp add: lists_sets_def)
    also have "\<dots> \<subseteq> B" using G unfolding rooted_graph_def by blast
    finally have "set (ord {a. E a (post ! i)}) \<subseteq> {..<cap}" using cap(1) by blast
    then have "mapM (idx ipo) (ord {a. E a (post ! i)}) = Some (map (\<lambda>b. ipo ! b) (ord {a. E a (post ! i)}))"
      unfolding mapM_Some_iff list_all2_map2 using ipo(2) by (auto simp: list_all2_same idx_def)
    moreover have "post ! i \<in> B" using that post(3) by auto
    ultimately show ?thesis using that T by (simp add: numbered_pred_set_def idx_def table_of_def)
  qed
  obtain d where d: "dom_loop (numbered_pred_set ord t post ipo) (length post) ((replicate (length post) no_dom)[ipo ! e := ipo ! e]) = Some d"
    "length d = length post" "\<forall>i < length post. i \<le> d ! i \<and> d ! i < length post"
    "\<And>f. (\<forall>i < length post. f ! (post ! i) = post ! (d ! i)) \<Longrightarrow>
      \<forall>b \<in> B. \<forall>a \<in> B. (immediate f B)\<^sup>*\<^sup>* b a \<longleftrightarrow> dom_by E e a b"
    using immediate_built[OF G ord small post(2,3,4) ipo(3) P] by blast
  obtain f where f: "final_doms post ipo d cap = Some f" "length f = cap" "\<forall>i < length post. f ! (post ! i) = post ! (d ! i)"
    using final_doms_built[OF post(2) _ ipo(2,3) d(2)] post(3) cap(1) d(3) by blast
  have im: "(immediate f B)\<^sup>*\<^sup>* b a \<longleftrightarrow> dom_by E e a b" if "a \<in> B" "b \<in> B" for a b using d(4)[OF f(3)] that by blast
  have ft: "f ! b \<in> B \<and> (f ! b \<noteq> b \<longrightarrow> ipo ! b < ipo ! (f ! b))" if "b \<in> B" for b
  proof -
    have "f ! b = post ! (d ! (ipo ! b))" using f(3) ip[OF that] by metis
    moreover have "ipo ! b \<le> d ! (ipo ! b)" "d ! (ipo ! b) < length post" using d(3) ip[OF that] by auto
    ultimately show ?thesis using ip[OF that] ipo(3) post(3) that by (cases "d ! (ipo ! b) = ipo ! b") auto
  qed
  then have tab: "idom_table f B (\<lambda>b. ipo ! b)" using eB(2) cap(1) f(2) by (simp add: idom_table_def)
  have stays: "a \<in> B" if "(immediate f B)\<^sup>*\<^sup>* b a" "b \<in> B" for a b
    using that by (induction rule: rtranclp_induct) (use ft in \<open>auto simp: immediate_def\<close>)
  have "dominated_table f bs = Some (\<lambda>b. if b \<in> B then Some {a. (immediate f B)\<^sup>*\<^sup>* b a} else None)"
    using dominated_built[OF tab, of bs Map.empty] l(3) by (simp add: dominated_table_def)
  also have "(\<lambda>b. if b \<in> B then Some {a. (immediate f B)\<^sup>*\<^sup>* b a} else None) = (\<lambda>b. if b \<in> B then Some {a \<in> B. dom_by E e a b} else None)"
    using stays im by (auto simp: fun_eq_iff)
  finally have dom: "dominated_table f bs = Some (\<lambda>b. if b \<in> B then Some {a \<in> B. dom_by E e a b} else None)" .
  have "invert_table ord (\<lambda>b. if b \<in> B then Some {a \<in> B. dom_by E e a b} else None) bs =
      Some (\<lambda>a. if a \<in> B then Some {b \<in> B. a \<in> {a \<in> B. dom_by E e a b}} else None)"
    by (rule invert_built[OF ord eB(2) _ l(3)]) auto
  also have "(\<lambda>a. if a \<in> B then Some {b \<in> B. a \<in> {a \<in> B. dom_by E e a b}} else None) =
      (\<lambda>a. if a \<in> B then Some {b \<in> B. dom_by E e a b} else None)" by (auto simp: fun_eq_iff)
  finally have inv': "invert_table ord (\<lambda>b. if b \<in> B then Some {a \<in> B. dom_by E e a b} else None) bs =
      Some (\<lambda>a. if a \<in> B then Some {b \<in> B. dom_by E e a b} else None)" .
  have bd: "block_dominates_block dt a b = Some (dom_by E e a b)" if "dt_doms dt = f" "a \<in> B" "b \<in> B" for dt a b
    using block_dominates_built[OF tab that(3,1), of a] im[OF that(2,3)] by simp
  show ?thesis
    using post(1) ipo(1) l(1,2) rs(1) start d(1) f(1) dom inv' bd by (simp add: domtree_new_def)
qed

section \<open>Examples\<close>

lemma ops_exist: "fl_rep fl xs \<Longrightarrow> foldM abs_op ops xs = Some ys \<Longrightarrow> \<exists>fl. fl_rep fl ys"
proof (induction ops arbitrary: fl xs)
  case (Cons op ops)
  then obtain xs' where "abs_op op xs = Some xs'" "foldM abs_op ops xs' = Some ys" by (auto split: option.splits)
  moreover obtain fl' where "fl_rep fl' xs'" using run_op_simulates[OF Cons.prems(1) calculation(1)] by blast
  ultimately show ?case using Cons.IH by blast
next
  case Nil
  then have "xs = ys" by simp
  then show ?case using Nil(1) by blast
qed

lemma three_blocks: "\<exists>fl. fl_rep fl [(0, [0]), (1, [1]), (2, [2])]"
  by (rule ops_exist[OF fl_rep_new, of "[AppendBlock 0, AppendBlock 1, AppendBlock 2, AppendInst 0 0, AppendInst 1 1, AppendInst 2 2]"])
    (simp add: abs_op_def guarded_def keys_def members_def at_block_def)

definition three_terms :: "inst_data \<Rightarrow> inst_data \<Rightarrow> inst_data \<Rightarrow> data_flow_graph" where
  "three_terms a b c = dfg_new\<lparr>dinsts := \<lparr>storage = [a, b, c], count = 3, used = {0, 1, 2}, free = {}\<rparr>\<rparr>"

lemma three_terms_simps [simp]:
  "pt2_index (dinsts (three_terms a b c)) 0 = Some a" "pt2_index (dinsts (three_terms a b c)) (Suc 0) = Some b"
  "pt2_index (dinsts (three_terms a b c)) 2 = Some c"
  by (simp_all add: three_terms_def pt2_index_def idx_def)

lemma three_branches:
  assumes "pt2_index (dinsts g) 0 = Some a" "pt2_index (dinsts g) 1 = Some b" "pt2_index (dinsts g) 2 = Some c"
  shows "branches (\<lambda>_. False) g [(0, [0]), (1, [1]), (2, [2])] x y \<longleftrightarrow>
    x = 0 \<and> y \<in> set (inst_blocks a) \<or> x = 1 \<and> y \<in> set (inst_blocks b) \<or> x = 2 \<and> y \<in> set (inst_blocks c)"
proof -
  have "term_targets (\<lambda>_. False) g [0] = set (inst_blocks a)" "term_targets (\<lambda>_. False) g [1] = set (inst_blocks b)"
    "term_targets (\<lambda>_. False) g [2] = set (inst_blocks c)"
    using assms by (simp_all add: term_targets_def last_opt_def)
  then show ?thesis unfolding branches_def by (simp del: One_nat_def) blast
qed

text \<open>A block that nothing branches to, and that branches into the code the entry block reaches.\<close>

lemma stray_block:
  assumes l: "fl_rep l [(0, [0]), (1, [1]), (2, [2])]" and ord: "lists_sets ord"
  shows "\<exists>t dt. predtbl (three_terms (IJump OpBr 1) (INullary OpRet) (IJump OpBr 1)) l = Some t \<and>
    domtree_new ord 3 l t = Some dt \<and> dominator dt 1 = Some (hd (ord {0, 2}))"
proof -
  let ?g = "three_terms (IJump OpBr 1) (INullary OpRet) (IJump OpBr 1)"
  let ?E = "branches (\<lambda>_. False) ?g [(0, [0]), (1, [1]), (2, [2])]"
  note br = three_branches[of ?g "IJump OpBr 1" "INullary OpRet" "IJump OpBr 1", simplified, simplified inst_blocks_def, simplified]
  have ok: "\<forall>i \<in> members [(0, [0]), (1, [1]), (2, [2])]. pt2_index (dinsts ?g) i \<noteq> None" by (simp add: members_def)
  have closed: "\<forall>a b. ?E a b \<longrightarrow> b \<in> keys [(0, [0]), (1, [1]), (2, [2])]" by (auto simp: br keys_def)
  obtain t where t: "pred_table_skip (\<lambda>_. False) ?g l = Some t" using pred_table_built[OF l ok] closed by simp
  have T: "table_of t ?E (keys [(0, [0]), (1, [1]), (2, [2])])" by (rule pred_table_of(1)[OF l ok t])
  have ps: "pred_set t 0 = Some {}" "pred_set t 1 = Some {0, 2}" "pred_set t 2 = Some {}"
    "succ_set t 0 = Some {1}" "succ_set t 1 = Some {}" "succ_set t 2 = Some {1}"
    using T by (auto simp: table_of_def keys_def br)
  have os: "ord {} = []" "ord {1} = [1]"
  proof -
    show "ord {} = []" using ord[unfolded lists_sets_def, rule_format, of "{}"] by simp
    have "set (ord {1}) = {1}" "distinct (ord {1})" using ord by (simp_all add: lists_sets_def)
    then show "ord {1} = [1]" using distinct_card[of "ord {1}"] by (cases "ord {1}") auto
  qed
  have o2: "ord {0, 2} = [0, 2] \<or> ord {0, 2} = [2, 0]"
  proof -
    have s: "set (ord {0, 2}) = {0, 2}" "distinct (ord {0, 2})" using ord by (simp_all add: lists_sets_def)
    then have "length (ord {0, 2}) = 2" using distinct_card by fastforce
    then obtain x y where "ord {0, 2} = [x, y]" by (auto simp: length_Suc_conv numeral_2_eq_2)
    then show ?thesis using s by (auto simp: doubleton_eq_iff)
  qed
  have l': "entry_block l = Some 0" "blocks l = Some [0, 1, 2]"
    using rep_entry[OF l] fl_rep_all_insts(1)[OF l] by simp_all
  have rs: "root_blocks t [0, 1, 2] = Some [0, 2]" using ps by (simp add: root_blocks_def)
  have post: "compute_blocks_post_order ord t l = Some [1, 2, 0]"
    unfolding compute_blocks_post_order_def using l' rs ps os
    by (simp add: po_loop.simps)
  have ipo: "invert_order [1, 2, 0] 3 = Some [2, 0, 1]"
    by (simp add: invert_order_def idx_set_def numeral_3_eq_3 numeral_2_eq_2)
  define h where "h = hd (ord {0, 2})"
  define k where "k = [2, 0, 1 :: nat] ! h"
  have hk: "h = 0 \<and> k = 2 \<or> h = 2 \<and> k = 1" using o2 by (auto simp: h_def k_def numeral_2_eq_2)
  have start: "mark_roots [2, 0, 1] [0, 0, 2] [no_dom, no_dom, no_dom] = Some [no_dom, 1, 2]"
    by (simp add: mark_roots_def idx_def idx_set_def numeral_2_eq_2)
  have np: "numbered_pred_set ord t [1, 2, 0] [2, 0, 1] 0 = Some (map (\<lambda>b. [2, 0, 1] ! b) (ord {0, 2}))"
    using ps o2 by (auto simp: numbered_pred_set_def idx_def numeral_2_eq_2)
  have nd: "Suc 0 \<noteq> no_dom" "Suc (Suc 0) \<noteq> no_dom" by (simp_all add: no_dom_def)
  have meet: "dom_meet [x, 1, 2] (map (\<lambda>b. [2, 0, 1] ! b) (ord {0, 2})) = Some k" for x
    using o2 nd by (auto simp: dom_meet_def idx_def k_def h_def numeral_2_eq_2 dom_intersect.simps)
  have step: "foldM (dom_step (numbered_pred_set ord t [1, 2, 0] [2, 0, 1]) 3) (rev [0..<3]) (False, [x, 1, 2]) =
      Some (x \<noteq> k, [k, 1, 2])" if "x \<noteq> 0" for x
    using that hk np meet[of x] by (auto simp: dom_step_def idx_def numeral_3_eq_3 numeral_2_eq_2)
  have loop: "dom_loop (numbered_pred_set ord t [1, 2, 0] [2, 0, 1]) 3 [no_dom, 1, 2] = Some [k, 1, 2]"
    using step[of no_dom] step[of k] hk
    by (subst dom_loop.simps, subst dom_loop.simps) (auto simp: no_dom_def)
  have final: "final_doms [1, 2, 0] [2, 0, 1] [k, 1, 2] 3 = Some [0, h, 2]"
    using hk by (auto simp: final_doms_def idx_def idx_set_def numeral_3_eq_3 numeral_2_eq_2)
  have tab: "idom_table [0, h, 2] {0, 1, 2} (\<lambda>b. [2, 0, 1] ! b)"
    using hk by (auto simp: idom_table_def numeral_2_eq_2)
  let ?M = "\<lambda>b. {a. (immediate [0, h, 2] {0, 1, 2})\<^sup>*\<^sup>* b a}"
  have stays: "?M b \<subseteq> {0, 1, 2}" if "b \<in> {0, 1, 2}" for b
  proof
    fix a assume "a \<in> ?M b"
    then have "(immediate [0, h, 2] {0, 1, 2})\<^sup>*\<^sup>* b a" by simp
    then show "a \<in> {0, 1, 2}"
      using that by (induction rule: rtranclp_induct) (use tab in \<open>auto simp: immediate_def idom_table_def\<close>)
  qed
  have dom: "dominated_table [0, h, 2] [0, 1, 2] = Some (\<lambda>b. if b \<in> {0, 1, 2} then Some (?M b) else None)"
    using dominated_built[OF tab, where bs = "[0, 1, 2]" and m = Map.empty] by (simp add: dominated_table_def)
  have inv': "\<exists>m. invert_table ord (\<lambda>b. if b \<in> {0, 1, 2} then Some (?M b) else None) [0, 1, 2] = Some m"
    using invert_built[OF ord _ stays, where bs = "[0, 1, 2]"] by auto
  then obtain m where m: "invert_table ord (\<lambda>b. if b \<in> {0, 1, 2} then Some (?M b) else None) [0, 1, 2] = Some m" by blast
  have "domtree_new ord 3 l t = Some \<lparr>dt_dominates = m, dt_dominated = (\<lambda>b. if b \<in> {0, 1, 2} then Some (?M b) else None),
      dt_doms = [0, h, 2], dt_post_order = [1, 2, 0], dt_inv_post_order = [2, 0, 1]\<rparr>"
    unfolding domtree_new_def post l' rs bind.bind_lunit ipo using start loop final dom m
    by (simp add: numeral_3_eq_3)
  then show ?thesis using t unfolding predtbl_def by (simp add: dominator_def idx_def h_def)
qed

section \<open>Properties\<close>

text \<open>
  C26: the predecessor table. On a unit whose layout and instructions are defined the table
  can be built exactly when every target of a terminator is a block of the layout (a branch to
  a removed block panics); it then maps each block to the blocks that branch to it and to
  those it branches to.
\<close>

theorem predtbl_correct:
  assumes "fl_rep l xs" "\<forall>i \<in> members xs. pt2_index (dinsts g) i \<noteq> None"
  shows "predtbl g l =
    (if \<forall>a b. branches (\<lambda>_. False) g xs a b \<longrightarrow> b \<in> keys xs
     then Some \<lparr>pred_sets = (\<lambda>b. if b \<in> keys xs then Some {a. branches (\<lambda>_. False) g xs a b} else None),
                succ_sets = (\<lambda>a. if a \<in> keys xs then Some {b. branches (\<lambda>_. False) g xs a b} else None)\<rparr>
     else None)"
  unfolding predtbl_def by (rule pred_table_built[OF assms])

lemma predtbl_correct_witness:
  "\<exists>l t. fl_rep l [(0, [0]), (1, [1]), (2, [2])] \<and>
     predtbl (three_terms (IBranch OpBrCond 7 1 2) (IJump OpBr 2) (INullary OpRet)) l = Some t \<and>
     pred_set t 2 = Some {0, 1} \<and> succ_set t 2 = Some {}"
proof -
  obtain l where l: "fl_rep l [(0, [0]), (1, [1]), (2, [2])]" using three_blocks by blast
  let ?g = "three_terms (IBranch OpBrCond 7 1 2) (IJump OpBr 2) (INullary OpRet)"
  have ok: "\<forall>i \<in> members [(0, [0]), (1, [1]), (2, [2])]. pt2_index (dinsts ?g) i \<noteq> None" by (simp add: members_def)
  note br = three_branches[of ?g "IBranch OpBrCond 7 1 2" "IJump OpBr 2" "INullary OpRet", simplified, simplified inst_blocks_def, simplified]
  have closed: "\<forall>a b. branches (\<lambda>_. False) ?g [(0, [0]), (1, [1]), (2, [2])] a b \<longrightarrow> b \<in> keys [(0, [0]), (1, [1]), (2, [2])]"
    by (auto simp: br keys_def)
  have sets: "{a. branches (\<lambda>_. False) ?g [(0, [0]), (1, [1]), (2, [2])] a 2} = {0, 1}"
    "{b. branches (\<lambda>_. False) ?g [(0, [0]), (1, [1]), (2, [2])] 2 b} = {}" by (auto simp: br)
  have "2 \<in> keys [(0, [0 :: nat]), (1, [1]), (2, [2])]" by (simp add: keys_def)
  then show ?thesis using predtbl_correct[OF l ok] l closed sets
    by (intro exI[of _ l]) (simp add: pred_set_def succ_set_def del: One_nat_def)
qed

text \<open>
  C7: the dominator tree is correct. In a unit with at most \<open>2 ^ 32 - 1\<close> blocks whose blocks can all
  be reached from the entry block, the construction returns whatever the order of the hash
  sets: the search and the iteration end and nothing panics. The tree's tables and the walk of
  \<^verbatim>\<open>block_dominates_block\<close> then say that a block dominates another exactly when every
  path from the entry block to the other passes through it.
\<close>

theorem dominator_tree_correct:
  assumes "fl_rep l xs" "xs \<noteq> []" "\<forall>i \<in> members xs. pt2_index (dinsts g) i \<noteq> None"
    and "\<forall>a b. branches (\<lambda>_. False) g xs a b \<longrightarrow> b \<in> keys xs"
    and "\<forall>b \<in> keys xs. (branches (\<lambda>_. False) g xs)\<^sup>*\<^sup>* (fst (hd xs)) b"
    and "keys xs \<subseteq> {..<cap}" "cap < 2 ^ 32" "lists_sets ord"
  shows "\<exists>t dt. predtbl g l = Some t \<and> domtree_new ord cap l t = Some dt \<and>
    (\<forall>a \<in> keys xs. \<forall>b \<in> keys xs.
      block_dominates_block dt a b = Some (dom_by (branches (\<lambda>_. False) g xs) (fst (hd xs)) a b) \<and>
      dt_dominates_block dt a b = dom_by (branches (\<lambda>_. False) g xs) (fst (hd xs)) a b) \<and>
    (\<forall>b \<in> keys xs. dominators_of dt b = Some {a \<in> keys xs. dom_by (branches (\<lambda>_. False) g xs) (fst (hd xs)) a b})"
proof -
  obtain t where t: "pred_table_skip (\<lambda>_. False) g l = Some t"
    using pred_table_built[OF assms(1,3)] assms(4) by simp
  note T = pred_table_of[OF assms(1,3) t]
  have G: "rooted_graph (branches (\<lambda>_. False) g xs) (fst (hd xs)) (keys xs)"
    using T(2) assms(2,5) unfolding rooted_graph_def keys_def by auto
  have e: "entry_block l = Some (fst (hd xs))" using rep_entry[OF assms(1)] assms(2) by (cases xs) auto
  have "set (map fst xs) = keys xs" by (simp add: keys_def)
  from domtree_built[OF e fl_rep_all_insts(1)[OF assms(1)] this G T(1) assms(8,6)] assms(7)
  show ?thesis using t by (auto simp: predtbl_def dt_dominates_block_def dominators_of_def no_dom_def)
qed

lemma dominator_tree_correct_witness:
  "\<exists>l t dt. predtbl (three_terms (IBranch OpBrCond 7 1 2) (IJump OpBr 2) (IJump OpBr 0)) l = Some t \<and>
     domtree_new sorted_list_of_set 3 l t = Some dt \<and> block_dominates_block dt 0 2 = Some True \<and>
     block_dominates_block dt 1 2 = Some False"
proof -
  obtain l where l: "fl_rep l [(0, [0]), (1, [1]), (2, [2])]" using three_blocks by blast
  let ?g = "three_terms (IBranch OpBrCond 7 1 2) (IJump OpBr 2) (IJump OpBr 0)"
  let ?xs = "[(0, [0]), (1, [1]), (2, [2])] :: layout_list" and ?E = "branches (\<lambda>_. False) ?g [(0, [0]), (1, [1]), (2, [2])]"
  note br = three_branches[of ?g "IBranch OpBrCond 7 1 2" "IJump OpBr 2" "IJump OpBr 0", simplified, simplified inst_blocks_def, simplified]
  have ok: "\<forall>i \<in> members ?xs. pt2_index (dinsts ?g) i \<noteq> None" by (simp add: members_def)
  have s: "?E 0 1" "?E 0 2" by (simp_all add: br)
  then have reach: "\<forall>b \<in> keys ?xs. ?E\<^sup>*\<^sup>* (fst (hd ?xs)) b" by (auto simp: keys_def)
  have closed: "\<forall>a b. ?E a b \<longrightarrow> b \<in> keys ?xs" by (auto simp: br keys_def)
  have "dom_by ?E 0 0 2" using path_mem by (fastforce simp: dom_by_def)
  moreover have "path ?E 0 [0, 2] 2" using path_snoc[of ?E 0 "[0]" 0 2] path_one[of ?E 0] s(2) by simp
  then have "\<not> dom_by ?E 0 1 2" by (auto simp: dom_by_def)
  ultimately show ?thesis
    using dominator_tree_correct[OF l _ ok closed reach _ _ lists_sets_sorted, of 3] by (auto simp: keys_def)
qed

text \<open>
  Dominators next to a stray block depend on the hash order. When a block that nothing
  branches to (\<open>2\<close>) shares a successor (\<open>1\<close>) with the entry block (\<open>0\<close>), the code takes both as
  roots and makes the predecessor that the hash set lists first the immediate dominator of
  the successor. With one order the stray block thus dominates a block that the entry
  reaches without it.
\<close>

theorem stray_block_dominates:
  assumes "fl_rep l [(0, [0]), (1, [1]), (2, [2])]" "lists_sets ord"
  shows "\<exists>t dt. predtbl (three_terms (IJump OpBr 1) (INullary OpRet) (IJump OpBr 1)) l = Some t \<and>
    domtree_new ord 3 l t = Some dt \<and> dominator dt 1 = Some (hd (ord {0, 2}))"
  by (rule stray_block[OF assms])

lemma stray_block_dominates_witness:
  "\<exists>l t dt. predtbl (three_terms (IJump OpBr 1) (INullary OpRet) (IJump OpBr 1)) l = Some t \<and>
     domtree_new (rev \<circ> sorted_list_of_set) 3 l t = Some dt \<and> dominator dt 1 = Some 2"
proof -
  obtain l where l: "fl_rep l [(0, [0]), (1, [1]), (2, [2])]" using three_blocks by blast
  have "lists_sets (rev \<circ> sorted_list_of_set)" by (simp add: lists_sets_def)
  from stray_block_dominates[OF l this] show ?thesis by auto
qed

end
