(* ===== verification/Trg.thy ===== *)
theory Trg
  imports Preds
begin

text \<open>
  The temporal region graph of a process (\<^verbatim>\<open>src/src/analysis/trg.rs\<close>). The hash map of the
  blocks is a map, the hash sets are sets; \<open>ord\<close> is the order in which a set of blocks is
  listed. The vector of temporal terminators that the search collects and nothing reads is left out.
\<close>

section \<open>Regions\<close>

record region =
  reg_id :: nat
  reg_blocks :: "nat set"
  reg_entry :: bool
  reg_head_insts :: "nat set"
  reg_head_blocks :: "nat set"
  reg_head_tight :: bool
  reg_tail_insts :: "nat set"
  reg_tail_blocks :: "nat set"
  reg_tail_tight :: bool

record trg =
  trg_blocks :: "nat \<rightharpoonup> nat"
  trg_regions :: "region list"

definition region_new :: "nat \<Rightarrow> region" where
  "region_new k = \<lparr>reg_id = k, reg_blocks = {}, reg_entry = False, reg_head_insts = {}, reg_head_blocks = {}, reg_head_tight = True,
     reg_tail_insts = {}, reg_tail_blocks = {}, reg_tail_tight = True\<rparr>"

text \<open>The terminator of a block with its data; a block without instructions panics.\<close>

definition term_data :: "data_flow_graph \<Rightarrow> function_layout \<Rightarrow> nat \<Rightarrow> (nat \<times> inst_data) option" where
  "term_data g l bb = do { term \<leftarrow> block_terminator l bb; d \<leftarrow> pt2_index (dinsts g) term; Some (term, d) }"

section \<open>The search\<close>

definition push_root :: "nat \<Rightarrow> nat list \<times> nat set \<Rightarrow> nat list \<times> nat set" where
  "push_root b = (\<lambda>(todo, seen). if b \<in> seen then (todo, seen) else (todo @ [b], insert b seen))"

definition root_step :: "data_flow_graph \<Rightarrow> function_layout \<Rightarrow> nat \<Rightarrow> nat list \<times> nat set \<Rightarrow> (nat list \<times> nat set) option" where
  "root_step g l bb q =
     do { (term, d) \<leftarrow> term_data g l bb;
          Some (if op_is_temporal (opcode_of d) then fold push_root (inst_blocks d) q else q) }"

definition trg_roots :: "data_flow_graph \<Rightarrow> function_layout \<Rightarrow> (nat list \<times> nat set) option" where
  "trg_roots g l =
     do { e \<leftarrow> entry_block l; bs \<leftarrow> blocks l; foldM (root_step g l) bs ([e], {e}) }"

record trg_search =
  ts_todo :: "nat list"
  ts_seen :: "nat set"
  ts_blocks :: "nat \<rightharpoonup> nat"
  ts_next :: nat
  ts_heads :: "nat set"
  ts_tails :: "nat set"

definition assign_root :: "nat \<Rightarrow> trg_search \<Rightarrow> trg_search" where
  "assign_root bb s = s\<lparr>ts_blocks := (ts_blocks s)(bb \<mapsto> ts_next s), ts_heads := insert bb (ts_heads s), ts_next := ts_next s + 1\<rparr>"

definition trg_start :: "nat list \<times> nat set \<Rightarrow> trg_search" where
  "trg_start = (\<lambda>(todo, seen). fold assign_root todo
     \<lparr>ts_todo = todo, ts_seen = seen, ts_blocks = Map.empty, ts_next = 0, ts_heads = {}, ts_tails = {}\<rparr>)"

text \<open>Give the region of \<open>bb\<close> to a target that is not yet seen.\<close>

definition trg_visit :: "nat \<Rightarrow> nat \<Rightarrow> nat \<Rightarrow> trg_search \<Rightarrow> trg_search" where
  "trg_visit bb tr t s =
     (if t \<in> ts_seen s then s
      else
        let s' = s\<lparr>ts_seen := insert t (ts_seen s), ts_todo := ts_todo s @ [t], ts_blocks := (ts_blocks s)(t \<mapsto> tr)\<rparr>
        in if ts_blocks s t \<noteq> None
           then s'\<lparr>ts_blocks := (ts_blocks s')(t \<mapsto> ts_next s), ts_heads := insert t (ts_heads s), ts_tails := insert bb (ts_tails s),
                   ts_next := ts_next s + 1\<rparr>
           else s')"

partial_function (option) trg_loop :: "data_flow_graph \<Rightarrow> function_layout \<Rightarrow> trg_search \<Rightarrow> trg_search option" where
  "trg_loop g l s =
     (case ts_todo s of [] \<Rightarrow> Some s
      | bb # todo \<Rightarrow>
          Option.bind (ts_blocks s bb) (\<lambda>tr.
          Option.bind (term_data g l bb) (\<lambda>(term, d).
          let s = s\<lparr>ts_todo := todo\<rparr> in
          if op_is_temporal (opcode_of d) then trg_loop g l (s\<lparr>ts_tails := insert bb (ts_tails s)\<rparr>)
          else trg_loop g l (fold (trg_visit bb tr) (inst_blocks d) s))))"

section \<open>The heads and tails of the regions\<close>

text \<open>For each of the blocks, whether it lies in another region than \<open>r\<close>.\<close>

definition differs :: "(nat \<rightharpoonup> nat) \<Rightarrow> nat \<Rightarrow> nat list \<Rightarrow> bool list option" where
  "differs m r bs = mapM (\<lambda>b. map_option (\<lambda>q. q \<noteq> r) (m b)) bs"

fun any_differs :: "(nat \<rightharpoonup> nat) \<Rightarrow> nat \<Rightarrow> nat list \<Rightarrow> bool option" where
  "any_differs m r [] = Some False"
| "any_differs m r (b # bs) = do { q \<leftarrow> m b; if q \<noteq> r then Some True else any_differs m r bs }"

definition note_heads :: "nat list \<Rightarrow> bool list \<Rightarrow> nat set \<Rightarrow> nat \<Rightarrow> function_layout \<Rightarrow> region \<Rightarrow> region option" where
  "note_heads ps ds heads bb l reg =
     do { terms \<leftarrow> mapM (block_terminator l) (map fst (filter snd (zip ps ds)));
          let reg = (if bb \<in> heads \<or> True \<in> set ds
            then reg\<lparr>reg_head_blocks := insert bb (reg_head_blocks reg), reg_head_tight := reg_head_tight reg \<and> (\<forall>d \<in> set ds. d)\<rparr>
            else reg);
          Some (reg\<lparr>reg_head_insts := reg_head_insts reg \<union> set terms\<rparr>) }"

definition note_tails :: "bool list \<Rightarrow> nat set \<Rightarrow> nat \<Rightarrow> nat \<times> bool \<Rightarrow> region \<Rightarrow> region" where
  "note_tails ds tails bb = (\<lambda>(term, exits) reg.
     let reg = (if bb \<in> tails \<or> True \<in> set ds
           then reg\<lparr>reg_tail_blocks := insert bb (reg_tail_blocks reg), reg_tail_tight := reg_tail_tight reg \<and> (\<forall>d \<in> set ds. d)\<rparr>
           else reg)
     in if exits then reg\<lparr>reg_tail_insts := insert term (reg_tail_insts reg)\<rparr> else reg)"

definition note_block :: "(nat set \<Rightarrow> nat list) \<Rightarrow> data_flow_graph \<Rightarrow> function_layout \<Rightarrow> pred_table \<Rightarrow> trg_search \<Rightarrow> nat \<Rightarrow>
    region list \<Rightarrow> region list option" where
  "note_block ord g l pt s bb regs =
     do { r \<leftarrow> ts_blocks s bb;
          reg \<leftarrow> idx regs r;
          ps \<leftarrow> map_option ord (pred_set pt bb);
          pd \<leftarrow> differs (ts_blocks s) r ps;
          ss \<leftarrow> map_option ord (succ_set pt bb);
          sd \<leftarrow> differs (ts_blocks s) r ss;
          reg \<leftarrow> note_heads ps pd (ts_heads s) bb l (reg\<lparr>reg_blocks := insert bb (reg_blocks reg)\<rparr>);
          (term, d) \<leftarrow> term_data g l bb;
          exits \<leftarrow> any_differs (ts_blocks s) r (inst_blocks d);
          idx_set regs r (note_tails sd (ts_tails s) bb (term, exits) reg) }"

definition trg_new :: "(nat set \<Rightarrow> nat list) \<Rightarrow> data_flow_graph \<Rightarrow> function_layout \<Rightarrow> trg option" where
  "trg_new ord g l =
     do { q \<leftarrow> trg_roots g l;
          s \<leftarrow> trg_loop g l (trg_start q);
          let regs = map region_new [0..<ts_next s];
          e \<leftarrow> entry_block l;
          k \<leftarrow> ts_blocks s e;
          reg \<leftarrow> idx regs k;
          regs \<leftarrow> idx_set regs k (reg\<lparr>reg_entry := True\<rparr>);
          pt \<leftarrow> predtbl g l;
          regs \<leftarrow> foldM (note_block ord g l pt s) (ord (dom (ts_blocks s))) regs;
          Some \<lparr>trg_blocks = ts_blocks s, trg_regions = regs\<rparr> }"

definition trg_region_of :: "trg \<Rightarrow> nat \<Rightarrow> nat option" where
  "trg_region_of t bb = trg_blocks t bb"

definition trg_is_head :: "trg \<Rightarrow> nat \<Rightarrow> bool option" where
  "trg_is_head t bb = do { r \<leftarrow> trg_blocks t bb; reg \<leftarrow> idx (trg_regions t) r; Some (bb \<in> reg_head_blocks reg) }"

definition trg_is_tail :: "trg \<Rightarrow> nat \<Rightarrow> bool option" where
  "trg_is_tail t bb = do { r \<leftarrow> trg_blocks t bb; reg \<leftarrow> idx (trg_regions t) r; Some (bb \<in> reg_tail_blocks reg) }"

end
