(* ===== verification/TrgProps.thy ===== *)
theory TrgProps
  imports Trg DomTreeProps
begin

text \<open>
  The temporal region graph: the search assigns every block that the roots reach without a wait
  to the region of one root, and the regions get the heads and tails of the specification.
\<close>

section \<open>The control flow the search sees\<close>

text \<open>\<open>M\<close> gives the terminator of each of the blocks \<open>K\<close> and its data.\<close>

definition known_terms :: "data_flow_graph \<Rightarrow> function_layout \<Rightarrow> nat set \<Rightarrow> (nat \<Rightarrow> nat \<times> inst_data) \<Rightarrow> bool" where
  "known_terms g l K M \<longleftrightarrow> finite K \<and> (\<forall>b \<in> K. term_data g l b = Some (M b) \<and> set (inst_blocks (snd (M b))) \<subseteq> K)"

definition exits_to :: "(nat \<Rightarrow> nat \<times> inst_data) \<Rightarrow> nat \<Rightarrow> nat set" where
  "exits_to M b = set (inst_blocks (snd (M b)))"

definition waits :: "(nat \<Rightarrow> nat \<times> inst_data) \<Rightarrow> nat \<Rightarrow> bool" where
  "waits M b \<longleftrightarrow> op_is_temporal (opcode_of (snd (M b)))"

text \<open>The roots: the entry block and the targets of the waits.\<close>

definition root_blocks_of :: "(nat \<Rightarrow> nat \<times> inst_data) \<Rightarrow> nat set \<Rightarrow> nat \<Rightarrow> nat set" where
  "root_blocks_of M K e = insert e (\<Union>b \<in> {b \<in> K. waits M b}. exits_to M b)"

text \<open>A step from a block to another without a wait.\<close>

definition flow_to :: "(nat \<Rightarrow> nat \<times> inst_data) \<Rightarrow> nat \<Rightarrow> nat \<Rightarrow> bool" where
  "flow_to M a b \<longleftrightarrow> \<not> waits M a \<and> b \<in> exits_to M a"

lemma push_roots:
  "distinct todo \<Longrightarrow> set todo = seen \<Longrightarrow> fold push_root bs (todo, seen) = (todo', seen') \<Longrightarrow>
   distinct todo' \<and> set todo' = seen' \<and> seen' = seen \<union> set bs \<and> (\<exists>more. todo' = todo @ more)"
proof (induction bs arbitrary: todo seen)
  case (Cons b bs)
  show ?case
  proof (cases "b \<in> seen")
    case True
    then show ?thesis using Cons by (auto simp: push_root_def)
  next
    case False
    then show ?thesis using Cons.IH[of "todo @ [b]" "insert b seen"] Cons.prems by (auto simp: push_root_def)
  qed
qed simp

lemma root_steps:
  assumes "known_terms g l K M" "set bs \<subseteq> K" "distinct todo" "set todo = seen"
  shows "\<exists>todo' seen'. foldM (root_step g l) bs (todo, seen) = Some (todo', seen') \<and> distinct todo' \<and> set todo' = seen' \<and>
    seen' = seen \<union> (\<Union>b \<in> {b \<in> set bs. waits M b}. exits_to M b) \<and> (\<exists>more. todo' = todo @ more)"
  using assms(2-4)
proof (induction bs arbitrary: todo seen)
  case (Cons b bs)
  have t: "term_data g l b = Some (M b)" using assms(1) Cons.prems(1) by (simp add: known_terms_def)
  obtain todo1 seen1 where s: "(if waits M b then fold push_root (inst_blocks (snd (M b))) (todo, seen) else (todo, seen)) = (todo1, seen1)"
    by (meson surj_pair)
  have i: "distinct todo1 \<and> set todo1 = seen1 \<and> seen1 = seen \<union> (if waits M b then exits_to M b else {}) \<and> (\<exists>more. todo1 = todo @ more)"
    using s push_roots[OF Cons.prems(2,3)] Cons.prems(2,3) by (auto simp: exits_to_def split: if_splits)
  have f: "foldM (root_step g l) (b # bs) (todo, seen) = foldM (root_step g l) bs (todo1, seen1)"
    using t s by (simp add: root_step_def waits_def case_prod_beta)
  show ?case using Cons.IH[of todo1 seen1] Cons.prems(1) i unfolding f by auto
qed simp

section \<open>The search\<close>

definition same_region :: "(nat \<Rightarrow> nat \<times> inst_data) \<Rightarrow> (nat \<rightharpoonup> nat) \<Rightarrow> nat \<Rightarrow> nat \<Rightarrow> bool" where
  "same_region M m a b \<longleftrightarrow> flow_to M a b \<and> m a \<noteq> None \<and> m a = m b"

text \<open>The state of the search: \<open>R\<close> are the roots, \<open>D\<close> the blocks that are done.\<close>

definition search_inv :: "(nat \<Rightarrow> nat \<times> inst_data) \<Rightarrow> nat set \<Rightarrow> nat list \<Rightarrow> nat set \<Rightarrow> trg_search \<Rightarrow> bool" where
  "search_inv M K R D s \<longleftrightarrow> dom (ts_blocks s) = ts_seen s \<and> ts_seen s = D \<union> set (ts_todo s) \<and> ts_seen s \<subseteq> K \<and>
     distinct (ts_todo s) \<and> D \<inter> set (ts_todo s) = {} \<and> ts_next s = length R \<and> ts_heads s = set R \<and>
     (\<forall>k < length R. ts_blocks s (R ! k) = Some k) \<and>
     (\<forall>b k. ts_blocks s b = Some k \<longrightarrow> k < length R \<and> (same_region M (ts_blocks s))\<^sup>*\<^sup>* (R ! k) b)"

lemma search_inv_tails: "search_inv M K R D (s\<lparr>ts_tails := x\<rparr>) \<longleftrightarrow> search_inv M K R D s"
  by (simp add: search_inv_def)

lemma same_region_grows:
  assumes "(same_region M m)\<^sup>*\<^sup>* a b" "t \<notin> dom m"
  shows "(same_region M (m(t \<mapsto> r)))\<^sup>*\<^sup>* a b"
  using assms(1)
proof (induction rule: rtranclp_induct)
  case (step y z)
  then have "same_region M (m(t \<mapsto> r)) y z" using assms(2) by (auto simp: same_region_def)
  with step.IH show ?case by (rule rtranclp.rtrancl_into_rtrancl)
qed simp

lemma visit_new: "dom (ts_blocks s) = ts_seen s \<Longrightarrow> trg_visit bb r t s =
   (if t \<in> ts_seen s then s
    else s\<lparr>ts_seen := insert t (ts_seen s), ts_todo := ts_todo s @ [t], ts_blocks := (ts_blocks s)(t \<mapsto> r)\<rparr>)"
  by (auto simp: trg_visit_def Let_def)

lemma visit_inv:
  assumes inv: "search_inv M K R D s" and b: "bb \<in> D" "ts_blocks s bb = Some r" "flow_to M bb t" and t: "t \<in> K" "finite K"
  shows "search_inv M K R D (trg_visit bb r t s) \<and> ts_seen (trg_visit bb r t s) = insert t (ts_seen s) \<and>
    ts_blocks (trg_visit bb r t s) bb = Some r \<and> ts_tails (trg_visit bb r t s) = ts_tails s \<and>
    card (K - ts_seen (trg_visit bb r t s)) + length (ts_todo (trg_visit bb r t s)) = card (K - ts_seen s) + length (ts_todo s)"
proof (cases "t \<in> ts_seen s")
  case True
  then have "trg_visit bb r t s = s" by (simp add: trg_visit_def)
  then show ?thesis using inv b(2) True by (simp add: insert_absorb)
next
  case False
  let ?m = "(ts_blocks s)(t \<mapsto> r)"
  let ?s = "s\<lparr>ts_seen := insert t (ts_seen s), ts_todo := ts_todo s @ [t], ts_blocks := ?m\<rparr>"
  have i: "dom (ts_blocks s) = ts_seen s" "ts_seen s = D \<union> set (ts_todo s)" "ts_seen s \<subseteq> K"
    "distinct (ts_todo s)" "D \<inter> set (ts_todo s) = {}" "ts_next s = length R" "ts_heads s = set R"
    "\<forall>k < length R. ts_blocks s (R ! k) = Some k"
    "\<forall>b k. ts_blocks s b = Some k \<longrightarrow> k < length R \<and> (same_region M (ts_blocks s))\<^sup>*\<^sup>* (R ! k) b"
    using inv unfolding search_inv_def by blast+
  have v: "trg_visit bb r t s = ?s" using visit_new[OF i(1)] False by simp
  have nt: "t \<notin> dom (ts_blocks s)" using False i(1) by simp
  have grow: "(same_region M ?m)\<^sup>*\<^sup>* (R ! k) b" if "ts_blocks s b = Some k" for b k
    using same_region_grows[OF _ nt] i(9) that by blast
  have bt: "bb \<noteq> t" using b(2) nt by auto
  have "same_region M ?m bb t" using b(2,3) bt by (simp add: same_region_def)
  then have reach: "(same_region M ?m)\<^sup>*\<^sup>* (R ! r) t" using grow[OF b(2)] by (rule rtranclp.rtrancl_into_rtrancl[rotated])
  have own: "k < length R \<and> (same_region M ?m)\<^sup>*\<^sup>* (R ! k) b" if "?m b = Some k" for b k
    using that reach grow i(9) b(2) by (cases "b = t") auto
  have roots: "\<forall>k < length R. ?m (R ! k) = Some k" using i(8) nt by auto
  have "search_inv M K R D ?s"
    unfolding search_inv_def using i(1-7) t(1) False roots own by (auto simp del: fun_upd_apply)
  moreover have "card (K - insert t (ts_seen s)) + 1 = card (K - ts_seen s)"
    using card_Suc_Diff1[of "K - ts_seen s" t] t False by (simp add: Diff_insert[symmetric])
  ultimately show ?thesis unfolding v using bt b(2) by simp
qed

lemma visits_inv:
  assumes "search_inv M K R D s" "bb \<in> D" "ts_blocks s bb = Some r" "\<forall>t \<in> set ts. flow_to M bb t \<and> t \<in> K" "finite K"
  shows "search_inv M K R D (fold (trg_visit bb r) ts s) \<and> ts_seen (fold (trg_visit bb r) ts s) = set ts \<union> ts_seen s \<and>
    ts_tails (fold (trg_visit bb r) ts s) = ts_tails s \<and>
    card (K - ts_seen (fold (trg_visit bb r) ts s)) + length (ts_todo (fold (trg_visit bb r) ts s)) = card (K - ts_seen s) + length (ts_todo s)"
  using assms(1,3,4)
proof (induction ts arbitrary: s)
  case (Cons t ts)
  note v = visit_inv[OF Cons.prems(1) assms(2) Cons.prems(2) _ _ assms(5), of t]
  show ?case using Cons.IH[of "trg_visit bb r t s"] v Cons.prems(3) by auto
qed simp

text \<open>The search ends; what it assigns is closed under flow.\<close>

lemma loop_done:
  assumes K: "known_terms g l K M"
  shows "search_inv M K R D s \<Longrightarrow> ts_tails s = {b \<in> D. waits M b} \<Longrightarrow> \<forall>b \<in> D. \<not> waits M b \<longrightarrow> exits_to M b \<subseteq> ts_seen s \<Longrightarrow>
    \<exists>s'. trg_loop g l s = Some s' \<and> search_inv M K R (ts_seen s') s' \<and> ts_seen s \<subseteq> ts_seen s' \<and>
      ts_tails s' = {b \<in> ts_seen s'. waits M b} \<and> (\<forall>b \<in> ts_seen s'. \<not> waits M b \<longrightarrow> exits_to M b \<subseteq> ts_seen s')"
proof (induction "card (K - ts_seen s) + length (ts_todo s)" arbitrary: s D rule: less_induct)
  case less
  have fin: "finite K" using K by (simp add: known_terms_def)
  show ?case
  proof (cases "ts_todo s")
    case Nil
    then have "ts_seen s = D" using less.prems(1) by (simp add: search_inv_def)
    then show ?thesis using less.prems Nil by (subst trg_loop.simps) auto
  next
    case (Cons bb todo)
    have seen: "bb \<in> ts_seen s" "bb \<in> K" using less.prems(1) Cons by (auto simp: search_inv_def)
    then have "bb \<in> dom (ts_blocks s)" using less.prems(1) by (simp add: search_inv_def)
    then obtain r where r: "ts_blocks s bb = Some r" by blast
    have t: "term_data g l bb = Some (M bb)" "exits_to M bb \<subseteq> K" using K seen(2) by (auto simp: known_terms_def exits_to_def)
    let ?s = "s\<lparr>ts_todo := todo\<rparr>"
    have inv: "search_inv M K R (insert bb D) ?s"
    proof -
      have i: "dom (ts_blocks s) = ts_seen s" "ts_seen s = D \<union> set (ts_todo s)" "ts_seen s \<subseteq> K"
        "distinct (ts_todo s)" "D \<inter> set (ts_todo s) = {}" "ts_next s = length R" "ts_heads s = set R"
        "\<forall>k < length R. ts_blocks s (R ! k) = Some k"
        "\<forall>b k. ts_blocks s b = Some k \<longrightarrow> k < length R \<and> (same_region M (ts_blocks s))\<^sup>*\<^sup>* (R ! k) b"
        using less.prems(1) unfolding search_inv_def by blast+
      have "ts_seen s = insert bb D \<union> set todo" "distinct todo" "insert bb D \<inter> set todo = {}" using i(2,4,5) Cons by auto
      then show ?thesis unfolding search_inv_def by (intro conjI) (use i(1,3,6-9) in simp_all)
    qed
    show ?thesis
    proof (cases "waits M bb")
      case True
      let ?s' = "?s\<lparr>ts_tails := insert bb (ts_tails ?s)\<rparr>"
      have step: "trg_loop g l s = trg_loop g l ?s'"
        using Cons r t(1) True by (subst trg_loop.simps) (simp add: waits_def case_prod_beta)
      have "search_inv M K R (insert bb D) ?s'" using inv by (simp only: search_inv_tails)
      moreover have "ts_tails ?s' = {b \<in> insert bb D. waits M b}" using less.prems(2) True by auto
      moreover have "\<forall>b \<in> insert bb D. \<not> waits M b \<longrightarrow> exits_to M b \<subseteq> ts_seen ?s'" using less.prems(3) True by auto
      moreover have "card (K - ts_seen ?s') + length (ts_todo ?s') < card (K - ts_seen s) + length (ts_todo s)" using Cons by simp
      ultimately have "\<exists>s'. trg_loop g l ?s' = Some s' \<and> search_inv M K R (ts_seen s') s' \<and> ts_seen ?s' \<subseteq> ts_seen s' \<and>
          ts_tails s' = {b \<in> ts_seen s'. waits M b} \<and> (\<forall>b \<in> ts_seen s'. \<not> waits M b \<longrightarrow> exits_to M b \<subseteq> ts_seen s')"
        by (intro less.hyps)
      then show ?thesis unfolding step by simp
    next
      case False
      let ?s' = "fold (trg_visit bb r) (inst_blocks (snd (M bb))) ?s"
      have step: "trg_loop g l s = trg_loop g l ?s'"
        using Cons r t(1) False by (subst trg_loop.simps) (simp add: waits_def case_prod_beta)
      have "\<forall>t \<in> set (inst_blocks (snd (M bb))). flow_to M bb t \<and> t \<in> K" using t(2) False by (auto simp: flow_to_def exits_to_def)
      note v = visits_inv[OF inv insertI1 _ this fin, of r]
      then have v': "search_inv M K R (insert bb D) ?s'" "ts_seen ?s' = exits_to M bb \<union> ts_seen s" "ts_tails ?s' = ts_tails s"
        "card (K - ts_seen ?s') + length (ts_todo ?s') = card (K - ts_seen s) + length todo"
        using r by (auto simp: exits_to_def)
      have "card (K - ts_seen ?s') + length (ts_todo ?s') < card (K - ts_seen s) + length (ts_todo s)" using v'(4) Cons by simp
      moreover have "ts_tails ?s' = {b \<in> insert bb D. waits M b}" using less.prems(2) v'(3) False by auto
      moreover have "\<forall>b \<in> insert bb D. \<not> waits M b \<longrightarrow> exits_to M b \<subseteq> ts_seen ?s'" using less.prems(3) v'(2) by auto
      ultimately have "\<exists>s'. trg_loop g l ?s' = Some s' \<and> search_inv M K R (ts_seen s') s' \<and> ts_seen ?s' \<subseteq> ts_seen s' \<and>
          ts_tails s' = {b \<in> ts_seen s'. waits M b} \<and> (\<forall>b \<in> ts_seen s'. \<not> waits M b \<longrightarrow> exits_to M b \<subseteq> ts_seen s')"
        using v'(1) by (intro less.hyps)
      then show ?thesis unfolding step v'(2) by blast
    qed
  qed
qed

lemma assign_roots:
  assumes "distinct rs" "set rs \<inter> dom (ts_blocks s) = {}"
  shows "fold assign_root rs s = s\<lparr>ts_blocks := (\<lambda>b. if b \<in> set rs then map_of (zip rs [ts_next s..<ts_next s + length rs]) b else ts_blocks s b),
    ts_heads := ts_heads s \<union> set rs, ts_next := ts_next s + length rs\<rparr>"
  using assms
proof (induction rs arbitrary: s)
  case (Cons r rs)
  let ?s = "assign_root r s"
  have "set rs \<inter> dom (ts_blocks ?s) = {}" using Cons.prems by (auto simp: assign_root_def)
  note ih = Cons.IH[OF _ this]
  have z: "zip (r # rs) [ts_next s..<ts_next s + length (r # rs)] = (r, ts_next s) # zip rs [ts_next s + 1..<ts_next s + 1 + length rs]"
    by (simp add: upt_conv_Cons del: upt_Suc)
  have "(\<lambda>b. if b \<in> set rs then map_of (zip rs [ts_next ?s..<ts_next ?s + length rs]) b else ts_blocks ?s b) =
      (\<lambda>b. if b \<in> set (r # rs) then map_of (zip (r # rs) [ts_next s..<ts_next s + length (r # rs)]) b else ts_blocks s b)"
    unfolding z using Cons.prems by (auto simp: assign_root_def fun_eq_iff)
  then show ?case using ih Cons.prems(1) by (simp add: assign_root_def)
qed simp

lemma trg_start_inv:
  assumes "distinct rs" "set rs \<subseteq> K"
  shows "search_inv M K rs {} (trg_start (rs, set rs)) \<and> ts_tails (trg_start (rs, set rs)) = {} \<and> ts_seen (trg_start (rs, set rs)) = set rs"
proof -
  let ?m = "\<lambda>b. if b \<in> set rs then map_of (zip rs [0..<length rs]) b else None"
  have s: "trg_start (rs, set rs) = \<lparr>ts_todo = rs, ts_seen = set rs, ts_blocks = ?m, ts_next = length rs, ts_heads = set rs, ts_tails = {}\<rparr>"
    using assign_roots[OF assms(1)] by (simp add: trg_start_def cong: if_cong)
  have at: "?m (rs ! k) = Some k" if "k < length rs" for k
    using that assms(1) by (simp add: map_of_zip_nth)
  have "dom ?m = set rs" using map_of_zip_is_None[of rs "[0..<length rs]"] by (auto simp: dom_def simp del: not_None_eq) 
  moreover have "k < length rs \<and> (same_region M ?m)\<^sup>*\<^sup>* (rs ! k) b" if "?m b = Some k" for b k
  proof -
    have "b \<in> set rs" using that by (auto split: if_splits)
    then obtain j where j: "j < length rs" "rs ! j = b" by (auto simp: in_set_conv_nth)
    then show ?thesis using at[OF j(1)] that by auto
  qed
  ultimately show ?thesis unfolding s search_inv_def using at assms by (simp del: map_of_zip_map)
qed

text \<open>The search over a whole unit.\<close>

lemma search_done:
  assumes rep: "fl_rep l xs" "xs \<noteq> []" and K: "known_terms g l (keys xs) M"
  shows "\<exists>rs s. trg_roots g l = Some (rs, set rs) \<and> trg_loop g l (trg_start (rs, set rs)) = Some s \<and>
    distinct rs \<and> hd rs = fst (hd xs) \<and> set rs = root_blocks_of M (keys xs) (fst (hd xs)) \<and>
    ts_seen s = {b. \<exists>r \<in> set rs. (flow_to M)\<^sup>*\<^sup>* r b} \<and> ts_tails s = {b \<in> ts_seen s. waits M b} \<and> ts_heads s = set rs \<and>
    search_inv M (keys xs) rs (ts_seen s) s"
proof -
  let ?K = "keys xs" and ?e = "fst (hd xs)"
  have bs: "blocks l = Some (map fst xs)" "set (map fst xs) = ?K" using fl_rep_all_insts(1)[OF rep(1)] by (simp_all add: keys_def)
  have e: "entry_block l = Some ?e" "?e \<in> ?K" using rep_entry[OF rep(1)] rep(2) by (cases xs; auto simp: keys_def)+
  obtain rs seen where rs: "foldM (root_step g l) (map fst xs) ([?e], {?e}) = Some (rs, seen)" "distinct rs" "set rs = seen"
    "seen = {?e} \<union> (\<Union>b \<in> {b \<in> set (map fst xs). waits M b}. exits_to M b)" "\<exists>more. rs = [?e] @ more"
    using root_steps[OF K, of "map fst xs" "[?e]" "{?e}"] bs(2) by auto
  have sr: "set rs = root_blocks_of M ?K ?e" using rs(3,4) unfolding bs(2) by (auto simp: root_blocks_of_def)
  have exits: "b \<in> ?K \<Longrightarrow> exits_to M b \<subseteq> ?K" for b using K by (auto simp: known_terms_def exits_to_def)
  have sub: "set rs \<subseteq> ?K" unfolding sr root_blocks_of_def using e(2) exits by auto
  note st = trg_start_inv[OF rs(2) sub, of M]
  have roots: "trg_roots g l = Some (rs, set rs)" using rs(1,3) e(1) bs(1) by (simp add: trg_roots_def)
  obtain s where s: "trg_loop g l (trg_start (rs, set rs)) = Some s" "search_inv M ?K rs (ts_seen s) s" "set rs \<subseteq> ts_seen s"
    "ts_tails s = {b \<in> ts_seen s. waits M b}" "\<forall>b \<in> ts_seen s. \<not> waits M b \<longrightarrow> exits_to M b \<subseteq> ts_seen s"
    using loop_done[OF K conjunct1[OF st]] st by auto
  have "ts_seen s = {b. \<exists>r \<in> set rs. (flow_to M)\<^sup>*\<^sup>* r b}"
  proof (intro equalityI subsetI)
    fix b assume "b \<in> ts_seen s"
    then have "b \<in> dom (ts_blocks s)" using s(2) by (simp add: search_inv_def)
    then obtain k where "ts_blocks s b = Some k" by blast
    then have k: "k < length rs" "(same_region M (ts_blocks s))\<^sup>*\<^sup>* (rs ! k) b" using s(2) by (simp_all add: search_inv_def)
    have "(flow_to M)\<^sup>*\<^sup>* (rs ! k) b" by (rule mono_rtranclp[rule_format, OF _ k(2)]) (simp add: same_region_def)
    then show "b \<in> {b. \<exists>r \<in> set rs. (flow_to M)\<^sup>*\<^sup>* r b}" using k(1) by auto
  next
    fix b assume "b \<in> {b. \<exists>r \<in> set rs. (flow_to M)\<^sup>*\<^sup>* r b}"
    then obtain r where r: "r \<in> set rs" "(flow_to M)\<^sup>*\<^sup>* r b" by blast
    from r(2) show "b \<in> ts_seen s"
      by (induction rule: rtranclp_induct) (use r(1) s(3,5) in \<open>auto simp: flow_to_def\<close>)
  qed
  moreover have "hd rs = ?e" using rs(5) by auto
  moreover have "ts_heads s = set rs" using s(2) by (simp add: search_inv_def)
  ultimately show ?thesis using roots s(1,2,4) rs(2) sr by blast
qed

section \<open>Heads and tails\<close>

definition preds_of :: "(nat \<Rightarrow> nat \<times> inst_data) \<Rightarrow> nat set \<Rightarrow> nat \<Rightarrow> nat set" where
  "preds_of M K b = {a \<in> K. b \<in> exits_to M a}"

text \<open>
  The region \<open>k\<close> as it should be once the blocks \<open>B\<close> are noted: \<open>m\<close> assigns regions to blocks,
  \<open>H\<close> are the roots and \<open>e\<close> is the region of the entry block. The head and tail instructions are
  the terminators on the border of the region, branches included, where the comments of the
  code speak of temporal instructions: a \<open>halt\<close>, and a wait that resumes in its own region, is none.
\<close>

definition region_spec :: "(nat \<Rightarrow> nat \<times> inst_data) \<Rightarrow> nat set \<Rightarrow> (nat \<rightharpoonup> nat) \<Rightarrow> nat set \<Rightarrow> nat \<Rightarrow> nat set \<Rightarrow> nat \<Rightarrow> region" where
  "region_spec M K m H e B k = (
     let bs = {b \<in> B. m b = Some k};
         heads = {b \<in> bs. b \<in> H \<or> (\<exists>a \<in> preds_of M K b. m a \<noteq> Some k)};
         tails = {b \<in> bs. waits M b \<or> (\<exists>c \<in> exits_to M b. m c \<noteq> Some k)}
     in \<lparr>reg_id = k, reg_blocks = bs, reg_entry = (k = e),
         reg_head_insts = {fst (M a) | a b. b \<in> bs \<and> a \<in> preds_of M K b \<and> m a \<noteq> Some k},
         reg_head_blocks = heads, reg_head_tight = (\<forall>b \<in> heads. \<forall>a \<in> preds_of M K b. m a \<noteq> Some k),
         reg_tail_insts = {fst (M b) | b. b \<in> bs \<and> (\<exists>c \<in> exits_to M b. m c \<noteq> Some k)},
         reg_tail_blocks = tails, reg_tail_tight = (\<forall>b \<in> tails. \<forall>c \<in> exits_to M b. m c \<noteq> Some k)\<rparr>)"

lemma differs_eq: "differs m r bs = (if set bs \<subseteq> dom m then Some (map (\<lambda>b. m b \<noteq> Some r) bs) else None)"
  unfolding differs_def by (induction bs) (auto simp: dom_def split: option.splits)

lemma any_differs_eq: "set bs \<subseteq> dom m \<Longrightarrow> any_differs m r bs = Some (\<exists>b \<in> set bs. m b \<noteq> Some r)"
  by (induction bs) (auto simp: dom_def)

lemma note_heads_eq:
  assumes "\<forall>a \<in> set ps. block_terminator l a = Some (t a)"
  shows "note_heads ps (map f ps) H b l reg = Some (reg
    \<lparr>reg_head_blocks := (if b \<in> H \<or> (\<exists>a \<in> set ps. f a) then insert b (reg_head_blocks reg) else reg_head_blocks reg),
     reg_head_tight := (reg_head_tight reg \<and> (b \<in> H \<or> (\<exists>a \<in> set ps. f a) \<longrightarrow> (\<forall>a \<in> set ps. f a))),
     reg_head_insts := reg_head_insts reg \<union> t ` {a \<in> set ps. f a}\<rparr>)"
proof -
  have f: "map fst (filter snd (zip ps (map f ps))) = filter f ps" by (induction ps) auto
  have "mapM (block_terminator l) qs = Some (map t qs)" if "set qs \<subseteq> set ps" for qs
    using that assms by (induction qs) auto
  then have m: "mapM (block_terminator l) (filter f ps) = Some (map t (filter f ps))" by auto
  have tr: "True \<in> set (map f ps) \<longleftrightarrow> (\<exists>a \<in> set ps. f a)" by auto
  define c where "c \<longleftrightarrow> b \<in> H \<or> (\<exists>a \<in> set ps. f a)"
  show ?thesis unfolding note_heads_def f m tr c_def[symmetric] by (cases c) (simp_all add: Let_def)
qed

lemma note_step:
  assumes K: "known_terms g l K M" and b: "b \<in> K" "m b = Some r" "b \<notin> B"
    and pt: "pred_set pt b = Some (preds_of M K b)" "succ_set pt b = Some (exits_to M b)"
    and ord: "lists_sets ord" and sub: "preds_of M K b \<subseteq> dom m" "exits_to M b \<subseteq> dom m"
    and s: "ts_blocks s = m" "ts_heads s = H" "\<forall>b \<in> dom m. b \<in> ts_tails s \<longleftrightarrow> waits M b" and r: "r < n"
  shows "note_block ord g l pt s b (map (region_spec M K m H e B) [0..<n]) = Some (map (region_spec M K m H e (insert b B)) [0..<n])"
proof -
  let ?reg = "region_spec M K m H e B r"
  have fin: "finite (preds_of M K b)" "finite (exits_to M b)" using K by (simp_all add: known_terms_def preds_of_def exits_to_def)
  have ps: "set (ord (preds_of M K b)) = preds_of M K b" "set (ord (exits_to M b)) = exits_to M b"
    using ord fin unfolding lists_sets_def by blast+
  have td: "term_data g l a = Some (M a)" if "a \<in> K" for a using K that by (simp add: known_terms_def)
  have bt: "\<forall>a \<in> set (ord (preds_of M K b)). block_terminator l a = Some (fst (M a))"
  proof
    fix a assume "a \<in> set (ord (preds_of M K b))"
    then have "term_data g l a = Some (M a)" using ps(1) td by (simp add: preds_of_def)
    then show "block_terminator l a = Some (fst (M a))" by (cases "M a") (auto simp: term_data_def panic_simps)
  qed
  have ex: "any_differs m r (inst_blocks (snd (M b))) = Some (\<exists>c \<in> exits_to M b. m c \<noteq> Some r)"
    using any_differs_eq[of "inst_blocks (snd (M b))" m r] sub(2) by (simp add: exits_to_def)
  have tl: "b \<in> ts_tails s \<longleftrightarrow> waits M b" using s(3) b(2) by blast
  have new: "note_tails (map (\<lambda>c. m c \<noteq> Some r) (ord (exits_to M b))) (ts_tails s) b (fst (M b), \<exists>c \<in> exits_to M b. m c \<noteq> Some r)
      (?reg\<lparr>reg_blocks := insert b (reg_blocks ?reg),
        reg_head_blocks := (if b \<in> H \<or> (\<exists>a \<in> preds_of M K b. m a \<noteq> Some r) then insert b (reg_head_blocks ?reg) else reg_head_blocks ?reg),
        reg_head_tight := (reg_head_tight ?reg \<and> (b \<in> H \<or> (\<exists>a \<in> preds_of M K b. m a \<noteq> Some r) \<longrightarrow> (\<forall>a \<in> preds_of M K b. m a \<noteq> Some r))),
        reg_head_insts := reg_head_insts ?reg \<union> (\<lambda>a. fst (M a)) ` {a \<in> preds_of M K b. m a \<noteq> Some r}\<rparr>) =
      region_spec M K m H e (insert b B) r"
  proof -
    have tr: "True \<in> set (map (\<lambda>c. m c \<noteq> Some r) (ord (exits_to M b))) \<longleftrightarrow> (\<exists>c \<in> exits_to M b. m c \<noteq> Some r)"
      "(\<forall>d \<in> set (map (\<lambda>c. m c \<noteq> Some r) (ord (exits_to M b))). d) \<longleftrightarrow> (\<forall>c \<in> exits_to M b. m c \<noteq> Some r)"
      using ps(2) by auto
    have bs: "{x \<in> insert b B. m x = Some r} = insert b {x \<in> B. m x = Some r}" using b(2) by auto
    show ?thesis
      unfolding note_tails_def tr tl case_prod_conv Let_def region_spec_def bs using b(3)
      by (intro region.equality) auto
  qed
  have others: "region_spec M K m H e (insert b B) k = region_spec M K m H e B k" if "k \<noteq> r" for k
  proof -
    have "{x \<in> insert b B. m x = Some k} = {x \<in> B. m x = Some k}" using b(2) that by auto
    then show ?thesis by (simp add: region_spec_def)
  qed
  have upd: "(map (region_spec M K m H e B) [0..<n])[r := region_spec M K m H e (insert b B) r] = map (region_spec M K m H e (insert b B)) [0..<n]"
    using others r by (intro nth_equalityI) (auto simp: nth_list_update)
  have "note_heads (ord (preds_of M K b)) (map (\<lambda>a. m a \<noteq> Some r) (ord (preds_of M K b))) H b l (?reg\<lparr>reg_blocks := insert b (reg_blocks ?reg)\<rparr>) =
      Some (?reg\<lparr>reg_blocks := insert b (reg_blocks ?reg),
        reg_head_blocks := (if b \<in> H \<or> (\<exists>a \<in> preds_of M K b. m a \<noteq> Some r) then insert b (reg_head_blocks ?reg) else reg_head_blocks ?reg),
        reg_head_tight := (reg_head_tight ?reg \<and> (b \<in> H \<or> (\<exists>a \<in> preds_of M K b. m a \<noteq> Some r) \<longrightarrow> (\<forall>a \<in> preds_of M K b. m a \<noteq> Some r))),
        reg_head_insts := reg_head_insts ?reg \<union> (\<lambda>a. fst (M a)) ` {a \<in> preds_of M K b. m a \<noteq> Some r}\<rparr>)"
    unfolding note_heads_eq[OF bt] ps by simp
  then obtain reg2 where reg2:
    "note_heads (ord (preds_of M K b)) (map (\<lambda>a. m a \<noteq> Some r) (ord (preds_of M K b))) H b l (?reg\<lparr>reg_blocks := insert b (reg_blocks ?reg)\<rparr>) = Some reg2"
    "note_tails (map (\<lambda>c. m c \<noteq> Some r) (ord (exits_to M b))) (ts_tails s) b (fst (M b), \<exists>c \<in> exits_to M b. m c \<noteq> Some r) reg2 =
      region_spec M K m H e (insert b B) r"
    using new by simp
  show ?thesis
    unfolding note_block_def s(1,2)
    using b(2) r pt td[OF b(1)] ex upd reg2 ps sub by (cases "M b") (simp add: idx_def idx_set_def differs_eq)
qed

lemma notes_done:
  assumes K: "known_terms g l K M" and D: "dom m \<subseteq> K"
    and pt: "\<And>b. b \<in> K \<Longrightarrow> pred_set pt b = Some (preds_of M K b) \<and> succ_set pt b = Some (exits_to M b)"
    and ord: "lists_sets ord" and sub: "\<And>b. b \<in> dom m \<Longrightarrow> preds_of M K b \<subseteq> dom m \<and> exits_to M b \<subseteq> dom m"
    and s: "ts_blocks s = m" "ts_heads s = H" "\<forall>b \<in> dom m. b \<in> ts_tails s \<longleftrightarrow> waits M b" and n: "\<And>b k. m b = Some k \<Longrightarrow> k < n"
  shows "distinct bs \<Longrightarrow> set bs \<subseteq> dom m \<Longrightarrow> set bs \<inter> B = {} \<Longrightarrow>
    foldM (note_block ord g l pt s) bs (map (region_spec M K m H e B) [0..<n]) = Some (map (region_spec M K m H e (B \<union> set bs)) [0..<n])"
proof (induction bs arbitrary: B)
  case (Cons b bs)
  then obtain r where r: "m b = Some r" by auto
  have b: "b \<in> K" "b \<in> dom m" "b \<notin> B" using Cons.prems D by auto
  have "note_block ord g l pt s b (map (region_spec M K m H e B) [0..<n]) = Some (map (region_spec M K m H e (insert b B)) [0..<n])"
    by (rule note_step[OF K b(1) r b(3) conjunct1[OF pt[OF b(1)]] conjunct2[OF pt[OF b(1)]] ord
        conjunct1[OF sub[OF b(2)]] conjunct2[OF sub[OF b(2)]] s n[OF r]])
  then show ?case using Cons.IH[of "insert b B"] Cons.prems by simp
qed simp

lemma note_panics:
  assumes "m b = Some r" "pred_set pt b = Some P" "finite P" "lists_sets ord" "\<not> P \<subseteq> dom m" "ts_blocks s = m"
  shows "note_block ord g l pt s b regs = None"
proof -
  have "set (ord P) = P" using assms(3,4) unfolding lists_sets_def by blast
  then have "differs m r (ord P) = None" using assms(5) by (simp add: differs_eq)
  then show ?thesis using assms(1,2,6) by (cases "idx regs r") (simp_all add: note_block_def)
qed

text \<open>What the layout of a unit whose blocks all have a terminator knows.\<close>

lemma terms_known:
  assumes rep: "fl_rep l xs" and ok: "\<forall>i \<in> members xs. pt2_index (dinsts g) i \<noteq> None" "\<forall>(b, is) \<in> set xs. is \<noteq> []"
    and closed: "\<forall>a b. branches (\<lambda>_. False) g xs a b \<longrightarrow> b \<in> keys xs"
  shows "known_terms g l (keys xs) (\<lambda>b. the (term_data g l b)) \<and>
    (\<forall>a b. branches (\<lambda>_. False) g xs a b \<longleftrightarrow> a \<in> keys xs \<and> b \<in> exits_to (\<lambda>b. the (term_data g l b)) a)"
proof -
  let ?M = "\<lambda>b. the (term_data g l b)"
  have at: "term_data g l a = Some (?M a) \<and> exits_to ?M a = term_targets (\<lambda>_. False) g is" if mem: "(a, is) \<in> set xs" for a "is"
  proof -
    have "is \<noteq> []" using ok(2) mem by auto
    then obtain i where i: "last_opt is = Some i" by (cases "last_opt is") (auto simp: last_opt_def split: if_splits)
    then have "i \<in> members xs" using last_opt_mem[of "is" i] mem by (force simp: members_def)
    then obtain d where d: "pt2_index (dinsts g) i = Some d" using ok(1) by blast
    have "term_data g l a = Some (i, d)" using fl_rep_last[OF rep mem] i d by (simp add: term_data_def block_terminator_def)
    then show ?thesis using i d by (simp add: exits_to_def term_targets_def)
  qed
  have br: "branches (\<lambda>_. False) g xs a b \<longleftrightarrow> a \<in> keys xs \<and> b \<in> exits_to ?M a" for a b
    using at unfolding branches_def keys_def by force
  have "\<forall>a \<in> keys xs. term_data g l a = Some (?M a)" using at by (force simp: keys_def)
  moreover have "finite (keys xs)" by (simp add: keys_def)
  moreover have "\<forall>a \<in> keys xs. set (inst_blocks (snd (?M a))) \<subseteq> keys xs" using br closed by (auto simp: exits_to_def)
  ultimately show ?thesis using br by (simp add: known_terms_def)
qed

definition unit_terms :: "data_flow_graph \<Rightarrow> function_layout \<Rightarrow> nat \<Rightarrow> nat \<times> inst_data" where
  "unit_terms g l b = the (term_data g l b)"

text \<open>The blocks that the roots reach without a wait on the way.\<close>

definition reached_of :: "(nat \<Rightarrow> nat \<times> inst_data) \<Rightarrow> nat set \<Rightarrow> nat \<Rightarrow> nat set" where
  "reached_of M K e = {b. \<exists>r \<in> root_blocks_of M K e. (flow_to M)\<^sup>*\<^sup>* r b}"

lemma trg_built:
  assumes rep: "fl_rep l xs" "xs \<noteq> []" and ok: "\<forall>i \<in> members xs. pt2_index (dinsts g) i \<noteq> None" "\<forall>(b, is) \<in> set xs. is \<noteq> []"
    and closed: "\<forall>a b. branches (\<lambda>_. False) g xs a b \<longrightarrow> b \<in> keys xs" and ord: "lists_sets ord"
    and M: "M = (\<lambda>b. the (term_data g l b))" and H: "H = root_blocks_of M (keys xs) (fst (hd xs))"
    and D: "D = {b. \<exists>r \<in> H. (flow_to M)\<^sup>*\<^sup>* r b}"
  shows "(\<forall>b \<in> D. preds_of M (keys xs) b \<subseteq> D) \<Longrightarrow> \<exists>t rs. trg_new ord g l = Some t \<and> dom (trg_blocks t) = D \<and> distinct rs \<and> set rs = H \<and>
      (\<forall>k < length rs. trg_blocks t (rs ! k) = Some k) \<and>
      (\<forall>b k. trg_blocks t b = Some k \<longrightarrow> k < length rs \<and> (same_region M (trg_blocks t))\<^sup>*\<^sup>* (rs ! k) b) \<and>
      trg_regions t = map (region_spec M (keys xs) (trg_blocks t) H 0 D) [0..<length rs]"
    and "\<not> (\<forall>b \<in> D. preds_of M (keys xs) b \<subseteq> D) \<Longrightarrow> trg_new ord g l = None"
proof -
  let ?K = "keys xs"
  note tk = terms_known[OF rep(1) ok closed, folded M]
  have K: "known_terms g l ?K M" and fin: "finite ?K" using tk by (simp_all add: known_terms_def)
  obtain rs s where rs: "trg_roots g l = Some (rs, set rs)" "trg_loop g l (trg_start (rs, set rs)) = Some s" "distinct rs"
    "hd rs = fst (hd xs)" "set rs = H" "ts_seen s = D" "ts_tails s = {b \<in> D. waits M b}" "ts_heads s = H" "search_inv M ?K rs D s"
    using search_done[OF rep K] unfolding H D by metis
  let ?m = "ts_blocks s"
  have m: "dom ?m = D" "D \<subseteq> ?K" "ts_next s = length rs" "\<forall>k < length rs. ?m (rs ! k) = Some k"
    "\<forall>b k. ?m b = Some k \<longrightarrow> k < length rs \<and> (same_region M ?m)\<^sup>*\<^sup>* (rs ! k) b"
    using rs(9) rs(6) unfolding search_inv_def by auto
  have e: "entry_block l = Some (hd rs)" using rep_entry[OF rep(1)] rep(2) rs(4) by (cases xs) auto
  have nz: "rs \<noteq> []" using rs(5) H by (auto simp: root_blocks_of_def)
  then have e0: "?m (hd rs) = Some 0" using m(4) by (cases rs) auto
  obtain pt where pt: "predtbl g l = Some pt" "\<And>b. b \<in> ?K \<Longrightarrow> pred_set pt b = Some (preds_of M ?K b) \<and> succ_set pt b = Some (exits_to M b)"
  proof
    let ?t = "\<lparr>pred_sets = (\<lambda>b. if b \<in> ?K then Some {a. branches (\<lambda>_. False) g xs a b} else None),
      succ_sets = (\<lambda>a. if a \<in> ?K then Some {b. branches (\<lambda>_. False) g xs a b} else None)\<rparr>"
    have br: "branches (\<lambda>_. False) g xs a = (\<lambda>b. a \<in> ?K \<and> b \<in> exits_to M a)" for a using tk by blast
    show "predtbl g l = Some ?t" using pred_table_built[OF rep(1) ok(1), of "\<lambda>_. False"] closed unfolding predtbl_def by presburger
    show "pred_set ?t b = Some (preds_of M ?K b) \<and> succ_set ?t b = Some (exits_to M b)" if "b \<in> ?K" for b
      unfolding br using that by (simp add: pred_set_def succ_set_def preds_of_def)
  qed
  have "finite D" by (rule finite_subset[OF m(2) fin])
  then have ordD: "set (ord D) = D" "distinct (ord D)" using ord unfolding lists_sets_def by blast+
  have start: "(map region_new [0..<length rs])[0 := (region_new 0)\<lparr>reg_entry := True\<rparr>] = map (region_spec M ?K ?m H 0 {}) [0..<length rs]"
    using nz by (intro nth_equalityI) (auto simp: nth_list_update region_new_def region_spec_def)
  have new: "trg_new ord g l = do { regs \<leftarrow> foldM (note_block ord g l pt s) (ord D) (map (region_spec M ?K ?m H 0 {}) [0..<length rs]);
      Some \<lparr>trg_blocks = ?m, trg_regions = regs\<rparr> }"
    using rs(1,2) e e0 nz pt(1) m(1,3) start[symmetric] by (simp add: trg_new_def idx_def idx_set_def)
  have exits: "exits_to M b \<subseteq> D" if b: "b \<in> D" for b
  proof (cases "waits M b")
    case True
    then have "exits_to M b \<subseteq> H" using b m(2) unfolding H root_blocks_of_def by blast
    then show ?thesis unfolding D by auto
  next
    case False
    show ?thesis
    proof
      fix c assume "c \<in> exits_to M b"
      then have "flow_to M b c" using False by (simp add: flow_to_def)
      then show "c \<in> D" using b unfolding D by (blast intro: rtranclp.rtrancl_into_rtrancl)
    qed
  qed
  show "\<exists>t rs. trg_new ord g l = Some t \<and> dom (trg_blocks t) = D \<and> distinct rs \<and> set rs = H \<and>
      (\<forall>k < length rs. trg_blocks t (rs ! k) = Some k) \<and>
      (\<forall>b k. trg_blocks t b = Some k \<longrightarrow> k < length rs \<and> (same_region M (trg_blocks t))\<^sup>*\<^sup>* (rs ! k) b) \<and>
      trg_regions t = map (region_spec M (keys xs) (trg_blocks t) H 0 D) [0..<length rs]"
    if P: "\<forall>b \<in> D. preds_of M ?K b \<subseteq> D"
  proof -
    have tails: "\<forall>b \<in> dom ?m. b \<in> ts_tails s \<longleftrightarrow> waits M b" using rs(7) m(1) by simp
    have "foldM (note_block ord g l pt s) (ord D) (map (region_spec M ?K ?m H 0 {}) [0..<length rs]) =
        Some (map (region_spec M ?K ?m H 0 ({} \<union> set (ord D))) [0..<length rs])"
      by (rule notes_done[OF K _ pt(2) ord _ refl rs(8) tails]) (use m P exits ordD in auto)
    then show ?thesis using new m(1,4,5) rs(3,5) ordD(1) by auto
  qed
  show "trg_new ord g l = None" if P: "\<not> (\<forall>b \<in> D. preds_of M ?K b \<subseteq> D)"
  proof -
    obtain b where b: "b \<in> D" "\<not> preds_of M ?K b \<subseteq> D" using P by blast
    then obtain as bs where split: "ord D = as @ b # bs" using ordD(1) by (metis split_list)
    obtain r where r: "?m b = Some r" using b(1) m(1) by blast
    have "finite (preds_of M ?K b)" using fin by (simp add: preds_of_def)
    then have "note_block ord g l pt s b regs = None" for regs
      using note_panics[where m = ?m and s = s and P = "preds_of M ?K b" and pt = pt, OF r _ _ ord] pt(2)[of b] b m(1,2) by auto
    then show ?thesis unfolding new split foldM_append by (auto simp: panic_simps split: option.splits)
  qed
qed

section \<open>Properties\<close>

text \<open>
  C17: the temporal regions. In a unit whose blocks all end in a defined instruction and branch to
  blocks of the layout, whatever the order of the hash tables: if no unreached block branches
  to a block that the roots (the entry block and the targets of the waits) reach, then the graph
  is built; it assigns a region to exactly the reached blocks, one region per root, and every
  block lies in the region of a root that reaches it inside the region without a wait; and each
  region is exactly \<open>region_spec\<close>: its blocks; the head blocks, which are roots or have a
  predecessor in another region, and the terminators, waits or branches, of those predecessors; the
  tail blocks, which end in a wait or a halt or have a successor in another region, and the
  terminators of those that have such a successor; and the flags that all predecessors of head
  blocks, and all successors of tail blocks, lie in other regions. Otherwise the construction panics.
\<close>

theorem temporal_regions_correct:
  assumes "fl_rep l xs" "xs \<noteq> []" "\<forall>i \<in> members xs. pt2_index (dinsts g) i \<noteq> None" "\<forall>(b, is) \<in> set xs. is \<noteq> []"
    and "\<forall>a b. branches (\<lambda>_. False) g xs a b \<longrightarrow> b \<in> keys xs" "lists_sets ord"
    and "M = unit_terms g l" "H = root_blocks_of M (keys xs) (fst (hd xs))" "D = reached_of M (keys xs) (fst (hd xs))"
  shows "if \<forall>b \<in> D. preds_of M (keys xs) b \<subseteq> D
    then \<exists>t rs. trg_new ord g l = Some t \<and> dom (trg_blocks t) = D \<and> distinct rs \<and> set rs = H \<and>
      (\<forall>k < length rs. trg_blocks t (rs ! k) = Some k) \<and>
      (\<forall>b k. trg_blocks t b = Some k \<longrightarrow> k < length rs \<and> (same_region M (trg_blocks t))\<^sup>*\<^sup>* (rs ! k) b) \<and>
      trg_regions t = map (region_spec M (keys xs) (trg_blocks t) H 0 D) [0..<length rs]
    else trg_new ord g l = None"
proof -
  have M: "M = (\<lambda>b. the (term_data g l b))" using assms(7) by (simp add: unit_terms_def fun_eq_iff)
  have D: "D = {b. \<exists>r \<in> H. (flow_to M)\<^sup>*\<^sup>* r b}" using assms(8,9) by (simp add: reached_of_def)
  note built = trg_built[OF assms(1-6) M assms(8) D]
  show ?thesis
  proof (cases "\<forall>b \<in> D. preds_of M (keys xs) b \<subseteq> D")
    case True
    then show ?thesis using built(1) by simp
  next
    case False
    then show ?thesis using built(2) by simp
  qed
qed

lemma temporal_regions_correct_witness:
  "\<exists>l t. fl_rep l [(0, [0]), (1, [1]), (2, [2])] \<and>
     trg_new sorted_list_of_set (three_terms (IJump OpBr 2) (IJump OpBr 2) (IWait OpWait 1 [])) l = Some t \<and>
     trg_blocks t 0 \<noteq> trg_blocks t 1 \<and> trg_blocks t 2 \<in> {trg_blocks t 0, trg_blocks t 1}"
proof -
  obtain l where l: "fl_rep l [(0, [0]), (1, [1]), (2, [2])]" using three_blocks by blast
  let ?g = "three_terms (IJump OpBr 2) (IJump OpBr 2) (IWait OpWait 1 [])"
  let ?xs = "[(0, [0]), (1, [1]), (2, [2])] :: layout_list"
  let ?M = "unit_terms ?g l" and ?D = "reached_of (unit_terms ?g l) (keys ?xs) (fst (hd ?xs))"
  note br = three_branches[of ?g "IJump OpBr 2" "IJump OpBr 2" "IWait OpWait 1 []", simplified, simplified inst_blocks_def, simplified]
  have closed: "\<forall>a b. branches (\<lambda>_. False) ?g ?xs a b \<longrightarrow> b \<in> keys ?xs" by (auto simp: br keys_def)
  have ok: "\<forall>i \<in> members ?xs. pt2_index (dinsts ?g) i \<noteq> None" "\<forall>(b, is) \<in> set ?xs. is \<noteq> []" by (auto simp: members_def)
  have "block_last_inst l 0 = Some (Some 0)" "block_last_inst l 1 = Some (Some 1)" "block_last_inst l 2 = Some (Some 2)"
    using fl_rep_last[OF l, of 0 "[0]"] fl_rep_last[OF l, of 1 "[1]"] fl_rep_last[OF l, of 2 "[2]"] by (simp_all add: last_opt_def)
  then have M: "?M 0 = (0, IJump OpBr 2)" "?M (Suc 0) = (1, IJump OpBr 2)" "?M 2 = (2, IWait OpWait 1 [])"
    by (simp_all add: unit_terms_def term_data_def block_terminator_def)
  have roots: "root_blocks_of ?M (keys ?xs) (fst (hd ?xs)) = {0, 1}"
    using M by (auto simp: root_blocks_of_def keys_def waits_def exits_to_def inst_blocks_def opcode_of_def op_is_temporal_def)
  have "flow_to ?M 0 2" using M by (simp add: flow_to_def waits_def exits_to_def inst_blocks_def opcode_of_def op_is_temporal_def)
  then have "{0, 1, 2} \<subseteq> ?D" unfolding reached_of_def roots by auto
  then have sub: "\<forall>b \<in> ?D. preds_of ?M (keys ?xs) b \<subseteq> ?D" by (auto simp: preds_of_def keys_def)
  obtain t rs where t: "trg_new sorted_list_of_set ?g l = Some t" "dom (trg_blocks t) = ?D" "distinct rs" "set rs = {0, 1}"
    "\<forall>k < length rs. trg_blocks t (rs ! k) = Some k" "\<forall>b k. trg_blocks t b = Some k \<longrightarrow> k < length rs"
    using temporal_regions_correct[OF l _ ok closed lists_sets_sorted refl roots[symmetric] refl] sub by auto
  have at: "\<exists>k < length rs. rs ! k = b \<and> trg_blocks t b = Some k" if "b \<in> {0, 1}" for b
    using that t(4,5) by (metis in_set_conv_nth)
  have "trg_blocks t 0 \<noteq> trg_blocks t 1" using at[of 0] at[of 1] by auto
  moreover obtain k where "trg_blocks t 2 = Some k" "k < length rs" using \<open>{0, 1, 2} \<subseteq> ?D\<close> t(2,6) by blast
  moreover from this have "rs ! k \<in> {0, 1}" "trg_blocks t (rs ! k) = Some k" using t(4,5) nth_mem by blast+
  ultimately show ?thesis using l t(1) by auto
qed

end
