(* ===== verification/Dce.thy ===== *)
theory Dce
  imports Trg
begin

text \<open>
  Dead code elimination (\<^verbatim>\<open>src/src/pass/dce.rs\<close>). The two hash maps of the pass are the
  fields of a record; \<open>ord\<close> is the order in which a hash set, or the keys of a hash map, is
  listed. \<open>n\<close> is fuel for the mutual recursion of the checks and for pruning.
\<close>

section \<open>Trivial blocks and branches\<close>

record triv =
  triv_bb :: "nat \<rightharpoonup> nat option"
  triv_br :: "nat \<rightharpoonup> nat option"

text \<open>\<^verbatim>\<open>insts(block).any(is_phi)\<close>, which stops at the first phi node.\<close>

fun any_phi :: "data_flow_graph \<Rightarrow> nat list \<Rightarrow> bool option" where
  "any_phi g [] = Some False"
| "any_phi g (i # is) =
     do { d \<leftarrow> pt2_index (dinsts g) i; if op_is_phi (opcode_of d) then Some True else any_phi g is }"

text \<open>Collecting the results of a computation that updates the maps.\<close>

fun each_block :: "(nat \<Rightarrow> triv \<Rightarrow> (nat option \<times> triv) option) \<Rightarrow> nat list \<Rightarrow> triv \<Rightarrow> (nat option list \<times> triv) option" where
  "each_block f [] s = Some ([], s)"
| "each_block f (b # bs) s = do { (t, s) \<leftarrow> f b s; (ts, s) \<leftarrow> each_block f bs s; Some (t # ts, s) }"

text \<open>The target of a branch that has none, or one, behind its targets; \<open>f\<close> checks a block.\<close>

definition branch_target :: "(nat \<Rightarrow> triv \<Rightarrow> (nat option \<times> triv) option) \<Rightarrow> data_flow_graph \<Rightarrow> inst_data \<Rightarrow> triv \<Rightarrow>
    (nat option \<times> triv) option" where
  "branch_target f g data s =
     (if opcode_of data = OpBr then do { bb \<leftarrow> idx (inst_blocks data) 0; f bb s }
      else if opcode_of data = OpBrCond then
        do { arg \<leftarrow> idx (args data) 0;
             (bs, s) \<leftarrow> each_block f (inst_blocks data) s;
             imm \<leftarrow> get_const_int g arg;
             case imm of
               Some imm \<Rightarrow> do { t \<leftarrow> idx bs (if iv_is_zero imm then 0 else 1); Some (t, s) }
             | None \<Rightarrow>
                 do { b0 \<leftarrow> idx bs 0; b1 \<leftarrow> idx bs 1;
                      Some (if b0 = b1 then b0 else None, s) } }
      else Some (None, s))"

fun check_branch_trivial :: "nat \<Rightarrow> data_flow_graph \<Rightarrow> function_layout \<Rightarrow> nat \<Rightarrow> triv \<Rightarrow> (nat option \<times> triv) option"
  and check_block_retargetable :: "nat \<Rightarrow> data_flow_graph \<Rightarrow> function_layout \<Rightarrow> nat \<Rightarrow> triv \<Rightarrow> (nat option \<times> triv) option" where
  "check_branch_trivial 0 g l inst s = None"
| "check_branch_trivial (Suc n) g l inst s =
     (case triv_br s inst of
        Some entry \<Rightarrow> Some (entry, s)
      | None \<Rightarrow>
          do { let s = s\<lparr>triv_br := (triv_br s)(inst \<mapsto> None)\<rparr>;
               data \<leftarrow> pt2_index (dinsts g) inst;
               (target, s) \<leftarrow> branch_target (check_block_retargetable n g l) g data s;
               Some (target, s\<lparr>triv_br := (triv_br s)(inst \<mapsto> target)\<rparr>) })"
| "check_block_retargetable 0 g l block s = None"
| "check_block_retargetable (Suc n) g l block s =
     do { is \<leftarrow> block_insts l block;
          phi \<leftarrow> any_phi g is;
          if phi then Some (None, s\<lparr>triv_bb := (triv_bb s)(block \<mapsto> None)\<rparr>)
          else do {
            first \<leftarrow> block_first_inst l block;
            last \<leftarrow> block_last_inst l block;
            if first \<noteq> last then Some (Some block, s\<lparr>triv_bb := (triv_bb s)(block \<mapsto> Some block)\<rparr>)
            else do {
              inst \<leftarrow> block_terminator l block;
              (t, s) \<leftarrow> check_branch_trivial n g l inst s;
              let target = Some (case t of Some b \<Rightarrow> b | None \<Rightarrow> block);
              Some (target, s\<lparr>triv_bb := (triv_bb s)(block \<mapsto> target)\<rparr>) } } }"

text \<open>The first loop: the checks of every block, and the instructions that are no terminator.\<close>

definition gather_block :: "nat \<Rightarrow> data_flow_graph \<Rightarrow> function_layout \<Rightarrow> nat \<Rightarrow> nat list \<times> triv \<Rightarrow> (nat list \<times> triv) option" where
  "gather_block n g l bb = (\<lambda>(insts, s).
     do { term \<leftarrow> block_terminator l bb;
          (_, s) \<leftarrow> check_branch_trivial n g l term s;
          is \<leftarrow> block_insts l bb;
          Some (insts @ filter (\<lambda>i. i \<noteq> term) is, s) })"

definition gather :: "nat \<Rightarrow> data_flow_graph \<Rightarrow> function_layout \<Rightarrow> nat \<Rightarrow> (nat list \<times> triv) option" where
  "gather n g l entry =
     do { bs \<leftarrow> blocks l;
          (insts, s) \<leftarrow> foldM (gather_block n g l) bs ([], \<lparr>triv_bb = Map.empty, triv_br = Map.empty\<rparr>);
          (_, s) \<leftarrow> check_block_retargetable n g l entry s;
          Some (insts, s) }"

section \<open>Rewriting\<close>

text \<open>The entries of a map whose value is not \<^verbatim>\<open>None\<close>.\<close>

definition entries :: "(nat set \<Rightarrow> nat list) \<Rightarrow> (nat \<rightharpoonup> nat option) \<Rightarrow> (nat \<times> nat) list" where
  "entries ord m = List.map_filter (\<lambda>k. case m k of Some (Some t) \<Rightarrow> Some (k, t) | _ \<Rightarrow> None) (ord (dom m))"

definition simplify_branch :: "nat \<times> nat \<Rightarrow> bool \<times> unit_builder \<Rightarrow> (bool \<times> unit_builder) option" where
  "simplify_branch = (\<lambda>(inst, target) (m, u).
     do { data \<leftarrow> pt2_index (dinsts (dfg u)) inst;
          if opcode_of data = OpBr \<and> inst_blocks data = [target] then Some (m, u)
          else do { (_, u) \<leftarrow> ib_br None target (insert_before_inst inst u);
                    u \<leftarrow> delete_inst inst u;
                    Some (True, u) } })"

definition replace_trivial :: "(nat set \<Rightarrow> nat list) \<Rightarrow> nat \<Rightarrow> nat \<times> nat \<Rightarrow> bool \<times> unit_builder \<Rightarrow> (bool \<times> unit_builder) option" where
  "replace_trivial ord entry = (\<lambda>(from_bb, to_bb) (m, u).
     do { (_, g) \<leftarrow> replace_block_use ord from_bb to_bb (dfg u);
          let u = u\<lparr>dfg := g\<rparr>;
          u \<leftarrow> (if from_bb = entry then set_layout (swap_blocks from_bb to_bb) u else Some u);
          Some (True, u) })"

definition prune_inst :: "nat \<Rightarrow> nat \<Rightarrow> bool \<times> unit_builder \<Rightarrow> (bool \<times> unit_builder) option" where
  "prune_inst n i = (\<lambda>(m, u). do { (b, u) \<leftarrow> prune_if_unused n i u; Some (m \<or> b, u) })"

section \<open>Unreachable blocks\<close>

text \<open>The stack is a list whose head is its top.\<close>

definition visit_target :: "nat \<Rightarrow> nat list \<times> nat set \<Rightarrow> nat list \<times> nat set" where
  "visit_target b = (\<lambda>(todo, unreached). if b \<in> unreached then (b # todo, unreached - {b}) else (todo, unreached))"

partial_function (option) visit_blocks :: "data_flow_graph \<Rightarrow> function_layout \<Rightarrow> nat list \<Rightarrow> nat set \<Rightarrow> nat set option" where
  "visit_blocks g l todo unreached =
     (case todo of
        [] \<Rightarrow> Some unreached
      | block # rest \<Rightarrow>
          Option.bind (term_data g l block) (\<lambda>td.
            visit_blocks g l (fst (fold visit_target (inst_blocks (snd td)) (rest, unreached)))
              (snd (fold visit_target (inst_blocks (snd td)) (rest, unreached)))))"

definition unreachable_blocks :: "data_flow_graph \<Rightarrow> function_layout \<Rightarrow> nat set option" where
  "unreachable_blocks g l =
     do { first \<leftarrow> first_bb l;
          bs \<leftarrow> blocks l;
          visit_blocks g l [first] (set bs - {first}) }"

definition prune_blocks :: "(nat set \<Rightarrow> nat list) \<Rightarrow> unit_builder \<Rightarrow> (bool \<times> unit_builder) option" where
  "prune_blocks ord u =
     do { unreached \<leftarrow> unreachable_blocks (dfg u) (layout u);
          u \<leftarrow> foldM (delete_block ord) (ord unreached) u;
          Some (unreached \<noteq> {}, u) }"

section \<open>Sequential blocks\<close>

definition merge_candidate :: "(nat set \<Rightarrow> nat list) \<Rightarrow> pred_table \<Rightarrow> nat \<Rightarrow> (nat \<times> nat) list \<times> (nat \<rightharpoonup> nat) \<Rightarrow>
    ((nat \<times> nat) list \<times> (nat \<rightharpoonup> nat)) option" where
  "merge_candidate ord pt bb = (\<lambda>(ms, merged).
     do { preds \<leftarrow> pred_set pt bb;
          case ord preds of
            [pred] \<Rightarrow>
              do { sole \<leftarrow> is_sole_succ pt bb pred;
                   if sole then
                     do { let into = (case merged pred of Some b \<Rightarrow> b | None \<Rightarrow> pred);
                          Some (ms @ [(bb, into)], merged(bb \<mapsto> into)) }
                   else Some (ms, merged) }
          | _ \<Rightarrow> Some (ms, merged) })"

definition merge_candidates :: "(nat set \<Rightarrow> nat list) \<Rightarrow> nat \<Rightarrow> unit_builder \<Rightarrow> (nat \<times> nat) list option" where
  "merge_candidates ord entry u =
     do { pt \<leftarrow> temporal_predtbl (dfg u) (layout u);
          bs \<leftarrow> blocks (layout u);
          (ms, _) \<leftarrow> foldM (merge_candidate ord pt) (filter (\<lambda>b. b \<noteq> entry) bs) ([], Map.empty);
          Some ms }"

text \<open>One turn of the loop that moves the instructions of a block before a terminator.\<close>

definition move_inst :: "(nat set \<Rightarrow> nat list) \<Rightarrow> nat \<Rightarrow> nat \<Rightarrow> nat \<Rightarrow> unit_builder \<Rightarrow> unit_builder option" where
  "move_inst ord into term inst u =
     do { u \<leftarrow> set_layout (remove_inst inst) u;
          data \<leftarrow> pt2_index (dinsts (dfg u)) inst;
          if opcode_of data = OpPhi then
            do { ensure (inst_blocks data = [into]);
                 phi \<leftarrow> inst_result (dfg u) inst;
                 repl \<leftarrow> idx (args data) 0;
                 (_, g) \<leftarrow> replace_use ord phi repl (dfg u);
                 Some (u\<lparr>dfg := g\<rparr>) }
          else set_layout (insert_inst_before inst term) u }"

partial_function (option) move_insts :: "(nat set \<Rightarrow> nat list) \<Rightarrow> nat \<Rightarrow> nat \<Rightarrow> nat \<Rightarrow> unit_builder \<Rightarrow> unit_builder option" where
  "move_insts ord block into term u =
     Option.bind (block_first_inst (layout u) block) (\<lambda>first.
       case first of None \<Rightarrow> Some u
       | Some inst \<Rightarrow> Option.bind (move_inst ord into term inst u) (\<lambda>u. move_insts ord block into term u))"

definition merge_block :: "(nat set \<Rightarrow> nat list) \<Rightarrow> nat \<times> nat \<Rightarrow> unit_builder \<Rightarrow> unit_builder option" where
  "merge_block ord = (\<lambda>(block, into) u.
     do { term \<leftarrow> block_terminator (layout u) into;
          u \<leftarrow> move_insts ord block into term u;
          u \<leftarrow> set_layout (remove_inst term) u;
          (_, g) \<leftarrow> replace_block_use ord block into (dfg u);
          delete_block ord block (u\<lparr>dfg := g\<rparr>) })"

section \<open>The pass\<close>

definition dce_run_on_cfg :: "nat \<Rightarrow> (nat set \<Rightarrow> nat list) \<Rightarrow> unit_builder \<Rightarrow> (bool \<times> unit_builder) option" where
  "dce_run_on_cfg n ord u =
     do { entry \<leftarrow> entry_block (layout u);
          (insts, s) \<leftarrow> gather n (dfg u) (layout u) entry;
          (m, u) \<leftarrow> foldM simplify_branch (entries ord (triv_br s)) (False, u);
          (m, u) \<leftarrow> foldM (replace_trivial ord entry) (filter (\<lambda>(f, t). f \<noteq> t) (entries ord (triv_bb s))) (m, u);
          (m, u) \<leftarrow> foldM (prune_inst n) insts (m, u);
          (b, u) \<leftarrow> prune_blocks ord u;
          ms \<leftarrow> merge_candidates ord entry u;
          u \<leftarrow> foldM (merge_block ord) ms u;
          Some (m \<or> b, u) }"

end
