(* ===== verification/DceChecks.thy ===== *)
theory DceChecks
  imports Dce
begin

text \<open>
  The checks of dead code elimination and its search for unreachable blocks: where the pass
  forwards a branch to, control arrives there anyway; the checks end; the search finds
  the blocks that cannot be reached.
\<close>

section \<open>Where control goes\<close>

text \<open>
  The blocks a branch can lead to: a conditional branch takes its first target on false and
  its second on true, and only one of them when the condition is a constant.
\<close>

definition branch_exits :: "data_flow_graph \<Rightarrow> inst_data \<Rightarrow> nat set" where
  "branch_exits g d =
     (if opcode_of d = OpBr then set (take 1 (inst_blocks d))
      else (case args d of
              a # _ \<Rightarrow> (case get_const_int g a of
                  Some (Some k) \<Rightarrow> {b. idx (inst_blocks d) (if iv_is_zero k then 0 else 1) = Some b}
                | _ \<Rightarrow> set (take 2 (inst_blocks d)))
            | [] \<Rightarrow> set (take 2 (inst_blocks d))))"

text \<open>
  \<open>forwards g xs b t\<close>: control that enters \<open>b\<close> ends up in \<open>t\<close>, whatever the conditions are, and
  executes nothing but branches on the way.
\<close>

inductive forwards :: "data_flow_graph \<Rightarrow> layout_list \<Rightarrow> nat \<Rightarrow> nat \<Rightarrow> bool" for g xs where
  forward_here: "forwards g xs b b"
| forward_on: "(b, [i]) \<in> set xs \<Longrightarrow> pt2_index (dinsts g) i = Some d \<Longrightarrow> opcode_of d \<in> {OpBr, OpBrCond} \<Longrightarrow>
    \<forall>c \<in> branch_exits g d. forwards g xs c t \<Longrightarrow> forwards g xs b t"

definition phi_free :: "data_flow_graph \<Rightarrow> layout_list \<Rightarrow> nat \<Rightarrow> bool" where
  "phi_free g xs b \<longleftrightarrow> (\<forall>is i d. (b, is) \<in> set xs \<longrightarrow> i \<in> set is \<longrightarrow> pt2_index (dinsts g) i = Some d \<longrightarrow> opcode_of d \<noteq> OpPhi)"

definition leads :: "data_flow_graph \<Rightarrow> layout_list \<Rightarrow> nat \<Rightarrow> nat option \<Rightarrow> bool" where
  "leads g xs b r \<longleftrightarrow> (\<forall>t. r = Some t \<longrightarrow> forwards g xs b t \<and> phi_free g xs t)"

definition branch_leads :: "data_flow_graph \<Rightarrow> layout_list \<Rightarrow> nat \<Rightarrow> nat option \<Rightarrow> bool" where
  "branch_leads g xs i r \<longleftrightarrow> (\<forall>t. r = Some t \<longrightarrow> phi_free g xs t \<and>
     (\<exists>d. pt2_index (dinsts g) i = Some d \<and> opcode_of d \<in> {OpBr, OpBrCond} \<and> (\<forall>c \<in> branch_exits g d. forwards g xs c t)))"

definition triv_sound :: "data_flow_graph \<Rightarrow> layout_list \<Rightarrow> triv \<Rightarrow> bool" where
  "triv_sound g xs s \<longleftrightarrow> (\<forall>b r. triv_bb s b = Some r \<longrightarrow> leads g xs b r) \<and> (\<forall>i r. triv_br s i = Some r \<longrightarrow> branch_leads g xs i r)"

lemma triv_sound_bb: "triv_sound g xs s \<Longrightarrow> leads g xs b r \<Longrightarrow> triv_sound g xs (s\<lparr>triv_bb := (triv_bb s)(b \<mapsto> r)\<rparr>)"
  by (auto simp: triv_sound_def)

lemma triv_sound_br: "triv_sound g xs s \<Longrightarrow> branch_leads g xs i r \<Longrightarrow> triv_sound g xs (s\<lparr>triv_br := (triv_br s)(i \<mapsto> r)\<rparr>)"
  by (auto simp: triv_sound_def)

lemma leads_None [simp]: "leads g xs b None" "branch_leads g xs i None"
  by (simp_all add: leads_def branch_leads_def)

lemma any_phi_iff: "any_phi g is = Some p \<Longrightarrow> p \<longleftrightarrow> (\<exists>i \<in> set is. \<exists>d. pt2_index (dinsts g) i = Some d \<and> opcode_of d = OpPhi)"
  by (induction "is") (auto simp: op_is_phi_def bind_Some_iff split: if_splits)

lemma each_block_all:
  assumes "each_block f bs s = Some (rs, s')" "I s"
    and "\<And>b s r s'. b \<in> set bs \<Longrightarrow> f b s = Some (r, s') \<Longrightarrow> I s \<Longrightarrow> I s' \<and> P b r"
  shows "I s' \<and> list_all2 P bs rs"
  using assms
proof (induction bs arbitrary: s rs)
  case (Cons b bs)
  obtain r s1 rs1 where r: "f b s = Some (r, s1)" "each_block f bs s1 = Some (rs1, s')" "rs = r # rs1"
    using Cons.prems(1) by (auto simp: bind_Some_iff)
  have "I s1 \<and> P b r" using Cons.prems(3)[OF _ r(1) Cons.prems(2)] by simp
  moreover have "I s2' \<and> P c q" if "c \<in> set bs" "f c s2 = Some (q, s2')" "I s2" for c s2 q s2'
    using Cons.prems(3)[of c s2 q s2'] that by simp
  ultimately show ?case using Cons.IH[OF r(2)] r(3) by simp
qed simp

text \<open>One block that can be jumped through.\<close>

lemma single_block:
  assumes rep: "fl_rep l xs" and mem: "(b, is) \<in> set xs"
    and "block_first_inst l b = Some f" "block_last_inst l b = Some f" "block_terminator l b = Some i"
  shows "is = [i]"
proof -
  obtain il where il: "block_layouts (bbs l) b = Some il" "il_rep il is" using fl_repD(3)[OF rep mem] by auto
  have ends: "first_inst il = hd_opt is" "last_inst il = last_opt is" using il(2) by (auto simp: il_rep_def dll_def)
  then have e: "hd_opt is = f" "last_opt is = f" "last_opt is = Some i"
    using assms(3-5) il(1) by (auto simp: block_first_inst_def block_last_inst_def block_terminator_def block_layouts_def st_index_def)
  then have n: "is \<noteq> []" "hd is = i" "last is = i" by (auto simp: hd_opt_def last_opt_def split: if_splits list.splits)
  have "distinct is" by (rule fl_rep_distinct[OF rep mem])
  obtain js where js: "is = i # js" using n(1,2) by (cases "is") auto
  then have "js = []" using n(3) \<open>distinct is\<close> last_in_set[of js] by (cases "js = []") auto
  then show ?thesis using js by simp
qed

lemma block_insts_mem: "fl_rep l xs \<Longrightarrow> block_insts l b = Some is \<Longrightarrow> (b, is) \<in> set xs"
  using fl_rep_missing[of l xs b] fl_rep_insts[of l xs]
  by (cases "b \<in> keys xs") (auto simp: keys_def block_insts_def st_index_def)

lemma branch_target_leads:
  assumes run: "branch_target f g d s = Some (r, s')" and s: "triv_sound g xs s" and d: "pt2_index (dinsts g) i = Some d"
    and f: "\<And>b s r s'. f b s = Some (r, s') \<Longrightarrow> triv_sound g xs s \<Longrightarrow> triv_sound g xs s' \<and> leads g xs b r"
  shows "triv_sound g xs s' \<and> branch_leads g xs i r"
proof -
  consider (br) "opcode_of d = OpBr" | (cond) "opcode_of d = OpBrCond" | (other) "opcode_of d \<notin> {OpBr, OpBrCond}" by blast
  then show ?thesis
  proof cases
    case br
    then obtain c where c: "idx (inst_blocks d) 0 = Some c" "f c s = Some (r, s')"
      using run by (auto simp: branch_target_def bind_Some_iff)
    have "branch_exits g d = {c}" using c(1) br by (cases "inst_blocks d") (auto simp: branch_exits_def idx_def)
    then show ?thesis using f[OF c(2) s] d br by (auto simp: leads_def branch_leads_def)
  next
    case cond
    obtain a where a0: "idx (args d) 0 = Some a" using run cond by (cases "idx (args d) 0") (simp_all add: branch_target_def)
    obtain bs s2 where bs2: "each_block f (inst_blocks d) s = Some (bs, s2)"
      using run cond a0 by (cases "each_block f (inst_blocks d) s") (auto simp: branch_target_def)
    obtain imm where a1: "get_const_int g a = Some imm"
      using run cond a0 bs2 by (cases "get_const_int g a") (simp_all add: branch_target_def)
    have bs: "each_block f (inst_blocks d) s = Some (bs, s')"
      and r: "case imm of Some imm \<Rightarrow> idx bs (if iv_is_zero imm then 0 else 1) = Some r
        | None \<Rightarrow> \<exists>b0 b1. idx bs 0 = Some b0 \<and> idx bs 1 = Some b1 \<and> r = (if b0 = b1 then b0 else None)"
      using run cond a0 a1 bs2 by (cases imm; auto simp: branch_target_def bind_Some_iff)+
    note a = a0 a1
    have all: "triv_sound g xs s' \<and> list_all2 (leads g xs) (inst_blocks d) bs"
      by (rule each_block_all[where I = "triv_sound g xs" and P = "leads g xs", OF bs s]) (use f in blast)
    have at: "leads g xs c (bs ! k)" if "idx (inst_blocks d) k = Some c" for k c
      using all that by (auto simp: list_all2_conv_all_nth idx_def split: if_splits)
    have len: "length (inst_blocks d) = length bs" using all by (auto dest: list_all2_lengthD)
    have arg: "\<exists>as. args d = a # as" using a(1) by (cases "args d") (auto simp: idx_def)
    have "(\<forall>c \<in> branch_exits g d. forwards g xs c t) \<and> phi_free g xs t" if t: "r = Some t" for t
    proof (cases imm)
      case (Some k)
      let ?k = "if iv_is_zero k then 0 else 1"
      have ex: "branch_exits g d = {c. idx (inst_blocks d) ?k = Some c}" using Some arg a(2) cond by (auto simp: branch_exits_def)
      have k: "?k < length bs" "bs ! ?k = Some t" using r Some t by (auto simp: idx_def split: if_splits)
      then show ?thesis using at[of ?k "inst_blocks d ! ?k"] len unfolding ex by (auto simp: leads_def idx_def)
    next
      case None
      then obtain b0 b1 where b: "idx bs 0 = Some b0" "idx bs 1 = Some b1" "r = (if b0 = b1 then b0 else None)" using r by auto
      then have eq: "1 < length bs" "bs ! 0 = Some t" "bs ! 1 = Some t" using t by (auto simp: idx_def split: if_splits)
      have ex: "branch_exits g d = set (take 2 (inst_blocks d))" using None arg a(2) cond by (auto simp: branch_exits_def)
      have "forwards g xs c t" if c: "c \<in> branch_exits g d" for c
      proof -
        obtain k where k: "k < 2" "idx (inst_blocks d) k = Some c" using c unfolding ex by (auto simp: in_set_conv_nth idx_def)
        then have "bs ! k = Some t" using eq by (cases k) auto
        then show ?thesis using at[OF k(2)] by (simp add: leads_def)
      qed
      moreover have "phi_free g xs t" using at[of 0 "inst_blocks d ! 0"] eq len by (cases "bs = []") (simp_all add: leads_def idx_def)
      ultimately show ?thesis by blast
    qed
    then show ?thesis using all d cond by (auto simp: branch_leads_def)
  next
    case other
    then show ?thesis using run s by (auto simp: branch_target_def)
  qed
qed

lemma checks_sound:
  assumes rep: "fl_rep l xs"
  shows "(\<forall>i s r s'. check_branch_trivial n g l i s = Some (r, s') \<longrightarrow> triv_sound g xs s \<longrightarrow>
      triv_sound g xs s' \<and> branch_leads g xs i r) \<and>
    (\<forall>b s r s'. check_block_retargetable n g l b s = Some (r, s') \<longrightarrow> triv_sound g xs s \<longrightarrow>
      triv_sound g xs s' \<and> leads g xs b r)"
proof (induction n)
  case (Suc n)
  have block: "triv_sound g xs s' \<and> leads g xs b r" if "check_block_retargetable n g l b s = Some (r, s')" "triv_sound g xs s" for b s r s'
    using Suc that by blast
  have branch: "triv_sound g xs s' \<and> branch_leads g xs i r" if "check_branch_trivial n g l i s = Some (r, s')" "triv_sound g xs s" for i s r s'
    using Suc that by blast
  have "triv_sound g xs s' \<and> branch_leads g xs i r"
    if run: "check_branch_trivial (Suc n) g l i s = Some (r, s')" and s: "triv_sound g xs s" for i s r s'
  proof (cases "triv_br s i")
    case (Some e)
    then show ?thesis using run s by (simp add: triv_sound_def)
  next
    case None
    define s1 where "s1 = s\<lparr>triv_br := (triv_br s)(i \<mapsto> None)\<rparr>"
    have s1: "triv_sound g xs s1" unfolding s1_def by (rule triv_sound_br[OF s]) simp
    obtain d s2 where d: "pt2_index (dinsts g) i = Some d" and s': "s' = s2\<lparr>triv_br := (triv_br s2)(i \<mapsto> r)\<rparr>"
      and body: "branch_target (check_block_retargetable n g l) g d s1 = Some (r, s2)"
      using run None by (auto simp: Let_def s1_def bind_Some_iff)
    have "triv_sound g xs s2 \<and> branch_leads g xs i r"
      by (rule branch_target_leads[OF body s1 d]) (rule block)
    then show ?thesis unfolding s' using triv_sound_br by blast
  qed
  moreover have "triv_sound g xs s' \<and> leads g xs b r"
    if run: "check_block_retargetable (Suc n) g l b s = Some (r, s')" and s: "triv_sound g xs s" for b s r s'
  proof -
    obtain "is" phi where i: "block_insts l b = Some is" "any_phi g is = Some phi" using run by (auto simp: bind_Some_iff)
    note mem = block_insts_mem[OF rep i(1)]
    show ?thesis
    proof (cases phi)
      case True
      then show ?thesis using run i s triv_sound_bb[OF s, of b None] by auto
    next
      case False
      have "is = js" if "(b, js) \<in> set xs" for js using fl_repD(2)[OF rep] mem that by (blast dest: eq_key_imp_eq_value)
      then have pf: "phi_free g xs b" using any_phi_iff[OF i(2)] False unfolding phi_free_def by blast
      then have here: "leads g xs b (Some b)" by (simp add: leads_def forward_here)
      obtain f la where fl: "block_first_inst l b = Some f" "block_last_inst l b = Some la"
        using run i False by (auto simp: bind_Some_iff)
      show ?thesis
      proof (cases "f = la")
        case False
        then show ?thesis using run i \<open>\<not> phi\<close> fl triv_sound_bb[OF s here] here by auto
      next
        case True
        obtain i0 t s2 where t: "block_terminator l b = Some i0" "check_branch_trivial n g l i0 s = Some (t, s2)"
          "r = Some (case t of Some b \<Rightarrow> b | None \<Rightarrow> b)" "s' = s2\<lparr>triv_bb := (triv_bb s2)(b \<mapsto> r)\<rparr>"
          using run i \<open>\<not> phi\<close> fl True by (auto simp: bind_Some_iff Let_def)
        note br = branch[OF t(2) s]
        have single: "is = [i0]" using single_block[OF rep mem fl(1) _ t(1)] fl True by simp
        have "leads g xs b r"
        proof (cases t)
          case (Some c)
          then show ?thesis
            using br t(3) mem single by (auto simp: leads_def branch_leads_def intro: forward_on)
        qed (use t(3) here in simp)
        then show ?thesis using triv_sound_bb br t(4) by blast
      qed
    qed
  qed
  ultimately show ?case by blast
qed simp

lemma gather_sound:
  assumes rep: "fl_rep l xs" and run: "gather n g l entry = Some (is, s)"
  shows "triv_sound g xs s"
proof -
  obtain bs "is0" s0 r where r: "blocks l = Some bs"
    "foldM (gather_block n g l) bs ([], \<lparr>triv_bb = Map.empty, triv_br = Map.empty\<rparr>) = Some (is0, s0)"
    "check_block_retargetable n g l entry s0 = Some (r, s)"
    using run by (auto simp: gather_def bind_Some_iff)
  have "(\<lambda>p. triv_sound g xs (snd p)) (is0, s0)"
  proof (rule foldM_invariant[OF r(2)])
    show "triv_sound g xs (snd ([], \<lparr>triv_bb = Map.empty, triv_br = Map.empty\<rparr>))" by (simp add: triv_sound_def)
    show "triv_sound g xs (snd q')" if "triv_sound g xs (snd q)" "gather_block n g l b q = Some q'" for b q q'
      using that checks_sound[OF rep, of n g] by (cases q) (auto simp: gather_block_def bind_Some_iff)
  qed
  then show ?thesis using checks_sound[OF rep, of n g] r(3) by auto
qed

section \<open>The checks end\<close>

text \<open>
  What the checks rely on: every block ends in a defined instruction, a branch names blocks of
  the layout, a conditional one two, and a condition whose constant can be read.
\<close>

definition checkable :: "data_flow_graph \<Rightarrow> layout_list \<Rightarrow> bool" where
  "checkable g xs \<longleftrightarrow> (\<forall>b is. (b, is) \<in> set xs \<longrightarrow> is \<noteq> [] \<and> (\<forall>i \<in> set is. pt2_index (dinsts g) i \<noteq> None) \<and>
     (\<forall>d. pt2_index (dinsts g) (last is) = Some d \<longrightarrow>
        (opcode_of d \<in> {OpBr, OpBrCond} \<longrightarrow> set (inst_blocks d) \<subseteq> keys xs \<and> inst_blocks d \<noteq> []) \<and>
        (opcode_of d = OpBrCond \<longrightarrow> length (inst_blocks d) = 2 \<and> (\<exists>a as. args d = a # as \<and> get_const_int g a \<noteq> None))))"

lemma checkableD:
  assumes "checkable g xs" "(b, is) \<in> set xs"
  shows "is \<noteq> []" "\<forall>i \<in> set is. pt2_index (dinsts g) i \<noteq> None"
    "pt2_index (dinsts g) (last is) = Some d \<Longrightarrow> opcode_of d \<in> {OpBr, OpBrCond} \<Longrightarrow>
       set (inst_blocks d) \<subseteq> keys xs \<and> inst_blocks d \<noteq> []"
    "pt2_index (dinsts g) (last is) = Some d \<Longrightarrow> opcode_of d = OpBrCond \<Longrightarrow>
       length (inst_blocks d) = 2 \<and> (\<exists>a as. args d = a # as \<and> get_const_int g a \<noteq> None)"
  using assms unfolding checkable_def by blast+

text \<open>A check returns, and marks branches without unmarking any.\<close>

definition marks :: "triv \<Rightarrow> ('a \<times> triv) option \<Rightarrow> bool" where
  "marks s r \<longleftrightarrow> (\<exists>x s'. r = Some (x, s') \<and> dom (triv_br s) \<subseteq> dom (triv_br s'))"

lemma any_phi_returns: "\<forall>i \<in> set is. pt2_index (dinsts g) i \<noteq> None \<Longrightarrow> any_phi g is \<noteq> None"
  by (induction "is") auto

lemma each_block_returns:
  assumes "\<And>b s'. b \<in> set bs \<Longrightarrow> dom (triv_br s) \<subseteq> dom (triv_br s') \<Longrightarrow> marks s' (f b s')"
  shows "\<exists>rs s'. each_block f bs s = Some (rs, s') \<and> dom (triv_br s) \<subseteq> dom (triv_br s') \<and> length rs = length bs"
  using assms
proof (induction bs arbitrary: s)
  case (Cons b bs)
  have "marks s (f b s)" using Cons.prems by simp
  then obtain r s1 where r: "f b s = Some (r, s1)" "dom (triv_br s) \<subseteq> dom (triv_br s1)" by (auto simp: marks_def)
  obtain rs s2 where rs: "each_block f bs s1 = Some (rs, s2)" "dom (triv_br s1) \<subseteq> dom (triv_br s2)" "length rs = length bs"
    using Cons.IH[of s1] Cons.prems subset_trans[OF r(2)] by (metis list.set_intros(2))
  then show ?case using r by auto
qed auto

lemma branch_target_returns:
  assumes ok: "checkable g xs" and mem: "(b, is) \<in> set xs" and d: "pt2_index (dinsts g) (last is) = Some d"
    and f: "\<And>c s'. c \<in> keys xs \<Longrightarrow> dom (triv_br s) \<subseteq> dom (triv_br s') \<Longrightarrow> marks s' (f c s')"
  shows "marks s (branch_target f g d s)"
proof -
  consider (br) "opcode_of d = OpBr" | (cond) "opcode_of d = OpBrCond" | (other) "opcode_of d \<notin> {OpBr, OpBrCond}" by blast
  then show ?thesis
  proof cases
    case br
    then have bl: "set (inst_blocks d) \<subseteq> keys xs" "inst_blocks d \<noteq> []" using checkableD(3)[OF ok mem d] by auto
    then obtain c cs where c: "inst_blocks d = c # cs" by (cases "inst_blocks d") auto
    then have "marks s (f c s)" using f[of c s] bl(1) by simp
    then show ?thesis using br c by (simp add: branch_target_def idx_def)
  next
    case cond
    have bl: "set (inst_blocks d) \<subseteq> keys xs" using checkableD(3)[OF ok mem d] cond by auto
    have c: "length (inst_blocks d) = 2" "\<exists>a as. args d = a # as \<and> get_const_int g a \<noteq> None"
      using checkableD(4)[OF ok mem d cond] by auto
    then obtain a as imm where a: "args d = a # as" "get_const_int g a = Some imm" by auto
    have f': "marks s' (f c s')" if "c \<in> set (inst_blocks d)" "dom (triv_br s) \<subseteq> dom (triv_br s')" for c s' using f that bl by blast
    obtain rs s' where rs: "each_block f (inst_blocks d) s = Some (rs, s')" "dom (triv_br s) \<subseteq> dom (triv_br s')" "length rs = 2"
      using each_block_returns[of "inst_blocks d" s f, OF f'] c(1) by auto
    have run: "branch_target f g d s = (case imm of
        Some imm \<Rightarrow> Some (rs ! (if iv_is_zero imm then 0 else 1), s') | None \<Rightarrow> Some (if rs ! 0 = rs ! 1 then rs ! 0 else None, s'))"
      using cond a rs(1,3) by (cases imm; cases "rs = []") (simp_all add: branch_target_def idx_def)
    show ?thesis unfolding run marks_def using rs(2) by (cases imm) simp_all
  next
    case other
    then show ?thesis by (simp add: branch_target_def marks_def)
  qed
qed

definition unmarked :: "layout_list \<Rightarrow> triv \<Rightarrow> nat" where
  "unmarked xs s = card (members xs - dom (triv_br s))"

lemma finite_members: "finite (members xs)"
  by (simp add: members_def)

lemma unmarked_mono: "dom (triv_br s) \<subseteq> dom (triv_br s') \<Longrightarrow> unmarked xs s' \<le> unmarked xs s"
  unfolding unmarked_def by (intro card_mono) (auto simp: members_def)

lemma checks_return:
  assumes rep: "fl_rep l xs" and ok: "checkable g xs"
  shows "(\<forall>b is s. (b, is) \<in> set xs \<longrightarrow> 2 * unmarked xs s + 1 \<le> n \<longrightarrow> marks s (check_branch_trivial n g l (last is) s)) \<and>
    (\<forall>b s. b \<in> keys xs \<longrightarrow> 2 * unmarked xs s + 2 \<le> n \<longrightarrow> marks s (check_block_retargetable n g l b s))"
proof (induction n)
  case (Suc n)
  have "marks s (check_branch_trivial (Suc n) g l (last is) s)" if mem: "(b, is) \<in> set xs" and n: "2 * unmarked xs s + 1 \<le> Suc n" for b "is" s
  proof (cases "triv_br s (last is)")
    case (Some e)
    then show ?thesis by (simp add: marks_def)
  next
    case None
    note c = checkableD[OF ok mem]
    obtain d where d: "pt2_index (dinsts g) (last is) = Some d" using c(1,2) by force
    define s1 where "s1 = s\<lparr>triv_br := (triv_br s)(last is \<mapsto> None)\<rparr>"
    have i: "last is \<in> members xs" using mem c(1) by (force simp: members_def)
    have "members xs - dom (triv_br s1) = (members xs - dom (triv_br s)) - {last is}" by (auto simp: s1_def)
    moreover have "last is \<in> members xs - dom (triv_br s)" using i None by (simp add: domIff)
    ultimately have less: "unmarked xs s1 < unmarked xs s"
      unfolding unmarked_def by (metis card_Diff1_less finite_Diff finite_members)
    have "marks s' (check_block_retargetable n g l c s')" if "c \<in> keys xs" "dom (triv_br s1) \<subseteq> dom (triv_br s')" for c s'
    proof -
      have "2 * unmarked xs s' + 2 \<le> n" using unmarked_mono[OF that(2), of xs] less n by linarith
      then show ?thesis using Suc that(1) by blast
    qed
    then have "marks s1 (branch_target (check_block_retargetable n g l) g d s1)" by (rule branch_target_returns[OF ok mem d])
    then obtain t s2
      where t: "branch_target (check_block_retargetable n g l) g d s1 = Some (t, s2)" "dom (triv_br s1) \<subseteq> dom (triv_br s2)"
      by (auto simp: marks_def)
    then show ?thesis using None d by (auto simp: marks_def s1_def)
  qed
  moreover have "marks s (check_block_retargetable (Suc n) g l b s)" if b: "b \<in> keys xs" and n: "2 * unmarked xs s + 2 \<le> Suc n" for b s
  proof -
    obtain "is" where mem: "(b, is) \<in> set xs" using b by (auto simp: keys_def)
    note c = checkableD[OF ok mem]
    obtain phi where phi: "any_phi g is = Some phi" using any_phi_returns[OF c(2)] by blast
    have bi: "block_insts l b = Some is" using fl_rep_insts[OF rep mem] by simp
    obtain il where il: "block_layouts (bbs l) b = Some il" "il_rep il is" using fl_repD(3)[OF rep mem] by auto
    have ends: "block_first_inst l b = Some (hd_opt is)" "block_last_inst l b = Some (last_opt is)"
      "block_terminator l b = Some (last is)"
      using il c(1) by (auto simp: block_layouts_def block_first_inst_def block_last_inst_def block_terminator_def st_index_def
          il_rep_def dll_def last_opt_def)
    have "2 * unmarked xs s + 1 \<le> n" using n by linarith
    then have "marks s (check_branch_trivial n g l (last is) s)" using Suc mem by blast
    then obtain t s2 where "check_branch_trivial n g l (last is) s = Some (t, s2)" "dom (triv_br s) \<subseteq> dom (triv_br s2)"
      by (auto simp: marks_def)
    then show ?thesis using bi phi ends by (auto simp: marks_def Let_def)
  qed
  ultimately show ?case by blast
qed simp

lemma gather_blocks_return:
  assumes rep: "fl_rep l xs" and ok: "checkable g xs" and n: "2 * card (members xs) + 2 \<le> n"
    and bs: "set bs \<subseteq> keys xs"
  shows "\<exists>is' s'. foldM (gather_block n g l) bs (is, s) = Some (is', s')"
  using bs
proof (induction bs arbitrary: "is" s)
  case (Cons b bs)
  obtain js where mem: "(b, js) \<in> set xs" using Cons.prems by (auto simp: keys_def)
  have le: "unmarked xs s \<le> card (members xs)" unfolding unmarked_def by (intro card_mono finite_members) auto
  then have "marks s (check_branch_trivial n g l (last js) s)" using checks_return[OF rep ok, of n] mem n by fastforce
  moreover have "block_terminator l b = Some (last js)"
    using fl_rep_last[OF rep mem] checkableD(1)[OF ok mem] by (simp add: block_terminator_def last_opt_def)
  moreover have "block_insts l b = Some js" using fl_rep_insts[OF rep mem] by simp
  ultimately obtain is1 s1 where "gather_block n g l b (is, s) = Some (is1, s1)" by (auto simp: gather_block_def marks_def)
  then show ?case using Cons.IH[of is1 s1] Cons.prems by simp
qed simp

lemma gather_returns:
  assumes rep: "fl_rep l xs" and ok: "checkable g xs" and n: "2 * card (members xs) + 2 \<le> n" and e: "entry \<in> keys xs"
  shows "\<exists>is s. gather n g l entry = Some (is, s)"
proof -
  have bs: "blocks l = Some (map fst xs)" by (rule fl_rep_all_insts(1)[OF rep])
  obtain "is" s where g: "foldM (gather_block n g l) (map fst xs) ([], \<lparr>triv_bb = Map.empty, triv_br = Map.empty\<rparr>) = Some (is, s)"
    using gather_blocks_return[OF rep ok n, of "map fst xs"] unfolding keys_def by fastforce
  have le: "unmarked xs s \<le> card (members xs)" unfolding unmarked_def by (intro card_mono finite_members) auto
  then have "marks s (check_block_retargetable n g l entry s)" using checks_return[OF rep ok, of n] e n by fastforce
  then show ?thesis using bs g by (auto simp: gather_def marks_def)
qed

section \<open>The search for unreachable blocks\<close>

definition reached :: "data_flow_graph \<Rightarrow> layout_list \<Rightarrow> nat \<Rightarrow> nat set" where
  "reached g xs r = {b. (branches (\<lambda>_. False) g xs)\<^sup>*\<^sup>* r b}"

lemma visit_targets:
  "\<exists>new. fold visit_target bs (todo, un) = (new @ todo, un - set bs) \<and> set new = un \<inter> set bs \<and>
    (finite un \<longrightarrow> length new + card (un - set bs) = card un)"
proof (induction bs arbitrary: todo un)
  case (Cons b bs)
  show ?case
  proof (cases "b \<in> un")
    case True
    obtain new where new: "fold visit_target bs (b # todo, un - {b}) = (new @ b # todo, un - {b} - set bs)"
      "set new = (un - {b}) \<inter> set bs" "finite (un - {b}) \<longrightarrow> length new + card (un - {b} - set bs) = card (un - {b})"
      using Cons.IH[of "b # todo" "un - {b}"] by blast
    have e: "un - {b} - set bs = un - set (b # bs)" by auto
    have "finite un \<longrightarrow> Suc (card (un - {b})) = card un" using True card.remove[of un b] by simp
    then show ?thesis
      using new True unfolding e by (intro exI[of _ "new @ [b]"]) (auto simp: visit_target_def[of b])
  next
    case False
    then have "un - set (b # bs) = un - set bs" "un \<inter> set (b # bs) = un \<inter> set bs" by auto
    then show ?thesis using Cons.IH[of todo un] False by (simp add: visit_target_def[of b])
  qed
qed simp

text \<open>
  The state of the search: what is no longer in \<open>un\<close> has been reached, and its targets have too,
  unless it is still on the stack.
\<close>

definition search_state :: "data_flow_graph \<Rightarrow> layout_list \<Rightarrow> nat \<Rightarrow> nat list \<Rightarrow> nat set \<Rightarrow> bool" where
  "search_state g xs r todo un \<longleftrightarrow> un \<subseteq> keys xs \<and> r \<in> keys xs - un \<and> set todo \<subseteq> keys xs - un \<and>
     keys xs - un \<subseteq> reached g xs r \<and>
     (\<forall>a b. a \<in> keys xs - un - set todo \<longrightarrow> branches (\<lambda>_. False) g xs a b \<longrightarrow> b \<in> keys xs - un)"

lemma search_stateD:
  assumes "search_state g xs r todo un"
  shows "un \<subseteq> keys xs" "r \<in> keys xs - un" "set todo \<subseteq> keys xs - un" "keys xs - un \<subseteq> reached g xs r"
    "a \<in> keys xs - un - set todo \<Longrightarrow> branches (\<lambda>_. False) g xs a b \<Longrightarrow> b \<in> keys xs - un"
proof -
  note st = assms[unfolded search_state_def]
  show "un \<subseteq> keys xs" by (rule conjunct1[OF st])
  show "r \<in> keys xs - un" by (rule conjunct1[OF conjunct2[OF st]])
  show "set todo \<subseteq> keys xs - un" by (rule conjunct1[OF conjunct2[OF conjunct2[OF st]]])
  show "keys xs - un \<subseteq> reached g xs r" by (rule conjunct1[OF conjunct2[OF conjunct2[OF conjunct2[OF st]]]])
  show "b \<in> keys xs - un" if "a \<in> keys xs - un - set todo" "branches (\<lambda>_. False) g xs a b"
    using conjunct2[OF conjunct2[OF conjunct2[OF conjunct2[OF st]]]] that by blast
qed

lemma term_data_at:
  assumes rep: "fl_rep l xs" and ok: "\<forall>i \<in> members xs. pt2_index (dinsts g) i \<noteq> None"
    and mem: "(b, is) \<in> set xs" "is \<noteq> []"
  shows "\<exists>d. term_data g l b = Some (last is, d) \<and> set (inst_blocks d) = {c. branches (\<lambda>_. False) g xs b c}"
proof -
  have lo: "last_opt is = Some (last is)" using mem(2) by (simp add: last_opt_def)
  have "last is \<in> members xs" using mem by (force simp: members_def)
  then obtain d where d: "pt2_index (dinsts g) (last is) = Some d" using ok by blast
  have uniq: "js = is" if "(b, js) \<in> set xs" for js using fl_repD(2)[OF rep] mem(1) that by (blast dest: eq_key_imp_eq_value)
  have T: "term_targets (\<lambda>_. False) g is = set (inst_blocks d)" using d lo by (simp add: term_targets_def)
  have "branches (\<lambda>_. False) g xs b c \<longleftrightarrow> c \<in> set (inst_blocks d)" for c
    unfolding branches_def T[symmetric] using uniq mem(1) by blast
  then show ?thesis using fl_rep_last[OF rep mem(1)] lo d by (auto simp: term_data_def block_terminator_def)
qed

lemma visit_blocks_search:
  assumes rep: "fl_rep l xs" and ok: "\<forall>i \<in> members xs. pt2_index (dinsts g) i \<noteq> None" "\<forall>p \<in> set xs. snd p \<noteq> []"
    and inside: "\<forall>a b. branches (\<lambda>_. False) g xs a b \<longrightarrow> b \<in> keys xs"
  shows "search_state g xs r todo un \<Longrightarrow> visit_blocks g l todo un = Some (keys xs - reached g xs r)"
proof (induction "length todo + card un" arbitrary: todo un rule: less_induct)
  case less
  note st = search_stateD[OF less.prems]
  have fin: "finite un" by (rule finite_subset[OF st(1)]) (simp add: keys_def)
  show ?case
  proof (cases todo)
    case Nil
    have closed: "b \<in> keys xs - un" if "a \<in> keys xs - un" "branches (\<lambda>_. False) g xs a b" for a b
      by (rule st(5)[OF _ that(2)]) (use that(1) Nil in simp)
    have "b \<in> keys xs - un" if "(branches (\<lambda>_. False) g xs)\<^sup>*\<^sup>* r b" for b
      using that by (induction rule: rtranclp_induct) (rule st(2), rule closed)
    then have "keys xs - un = reached g xs r" using st(4) by (auto simp: reached_def)
    then have "un = keys xs - reached g xs r" using st(1) by blast
    then show ?thesis using Nil by (subst visit_blocks.simps) simp
  next
    case (Cons b rest)
    have b: "b \<in> keys xs - un" using st(3) Cons by auto
    then obtain "is" where mem: "(b, is) \<in> set xs" by (auto simp: keys_def)
    then have ne: "is \<noteq> []" using ok(2) by force
    obtain d where d: "term_data g l b = Some (last is, d)" "set (inst_blocks d) = {c. branches (\<lambda>_. False) g xs b c}"
      using term_data_at[OF rep ok(1) mem ne] by blast
    obtain new where new: "fold visit_target (inst_blocks d) (rest, un) = (new @ rest, un - set (inst_blocks d))"
      "set new = un \<inter> set (inst_blocks d)" "length new + card (un - set (inst_blocks d)) = card un"
      using visit_targets[of "inst_blocks d" rest un] fin by blast
    have br: "b \<in> reached g xs r" using st(4) b by blast
    then have tr: "set (inst_blocks d) \<subseteq> reached g xs r" "set (inst_blocks d) \<subseteq> keys xs"
      unfolding d(2) using inside by (auto simp: reached_def intro: rtranclp.rtrancl_into_rtrancl)
    have "search_state g xs r (new @ rest) (un - set (inst_blocks d))"
      unfolding search_state_def
    proof (intro conjI allI impI)
      show "set (new @ rest) \<subseteq> keys xs - (un - set (inst_blocks d))" using new(2) st(3) tr(2) Cons by auto
      show "keys xs - (un - set (inst_blocks d)) \<subseteq> reached g xs r" using st(4) tr by blast
      fix x y assume x: "x \<in> keys xs - (un - set (inst_blocks d)) - set (new @ rest)" and xy: "branches (\<lambda>_. False) g xs x y"
      show "y \<in> keys xs - (un - set (inst_blocks d))"
      proof (cases "x = b")
        case True
        then show ?thesis using xy d(2) tr(2) by blast
      next
        case False
        then have "x \<in> keys xs - un - set todo" using x new(2) Cons by auto
        then show ?thesis using st(5)[OF _ xy] by blast
      qed
    qed (use st(1,2) in auto)
    moreover have "length (new @ rest) + card (un - set (inst_blocks d)) < length todo + card un" using new(3) Cons by simp
    ultimately have "visit_blocks g l (new @ rest) (un - set (inst_blocks d)) = Some (keys xs - reached g xs r)" using less.hyps by blast
    then show ?thesis unfolding Cons by (subst visit_blocks.simps) (simp add: d(1) new(1))
  qed
qed

lemma unreachable_found:
  assumes rep: "fl_rep l ((r, is) # xs)" and ok: "\<forall>i \<in> members ((r, is) # xs). pt2_index (dinsts g) i \<noteq> None"
    and ne: "\<forall>p \<in> set ((r, is) # xs). snd p \<noteq> []"
    and inside: "\<forall>a b. branches (\<lambda>_. False) g ((r, is) # xs) a b \<longrightarrow> b \<in> keys ((r, is) # xs)"
  shows "unreachable_blocks g l = Some (keys ((r, is) # xs) - reached g ((r, is) # xs) r)"
proof -
  let ?xs = "(r, is) # xs"
  have "first_bb l = Some r"
    using fl_repD(1)[OF rep] by (simp add: bl_rep_def il_rep_def dll_def erase_def)
  moreover have "blocks l = Some (map fst ?xs)" by (rule fl_rep_all_insts(1)[OF rep])
  moreover have "search_state g ?xs r [r] (keys ?xs - {r})" by (auto simp: search_state_def keys_def reached_def)
  moreover have "set (map fst ?xs) - {r} = keys ?xs - {r}" by (simp add: keys_def)
  ultimately show ?thesis
    using visit_blocks_search[OF rep ok ne inside] by (simp add: unreachable_blocks_def)
qed

end
