(* ===== verification/DceProps.thy ===== *)
theory DceProps
  imports DceChecks BuilderProps
begin

text \<open>
  What dead code elimination does to a unit: the deletion of a block, the pruning of the
  blocks that cannot be reached, the merging of two blocks, and the properties of the pass.
\<close>

section \<open>Deleting a block\<close>

text \<open>
  The invariant of a unit in the middle of the pass. It is weaker than \<open>unit_rep\<close>: use lists may
  name an instruction that is no longer a user, and instructions may be outside every block.
\<close>

definition loose_rep :: "unit_builder \<Rightarrow> layout_list \<Rightarrow> bool" where
  "loose_rep u xs \<longleftrightarrow> dfg_wf (dfg u) \<and> dfg_phi_ok (dfg u) \<and> fl_rep (layout u) xs \<and> members xs \<subseteq> live (dfg u) \<and>
     pt2_inv (cblocks (cfg u)) \<and> keys xs = used (cblocks (cfg u))"

lemma loose_repD:
  assumes "loose_rep u xs"
  shows "dfg_wf (dfg u)" "dfg_phi_ok (dfg u)" "fl_rep (layout u) xs" "members xs \<subseteq> live (dfg u)"
    "pt2_inv (cblocks (cfg u))" "keys xs = used (cblocks (cfg u))"
  using assms unfolding loose_rep_def by blast+

lemma loose_of_unit: "unit_rep u xs \<Longrightarrow> dfg_phi_ok (dfg u) \<Longrightarrow> loose_rep u xs"
  by (simp add: unit_rep_def loose_rep_def)

text \<open>Instructions keep their opcode, and the blocks they name unless one is in \<open>B\<close>.\<close>

definition same_shape :: "nat set \<Rightarrow> data_flow_graph \<Rightarrow> data_flow_graph \<Rightarrow> bool" where
  "same_shape B g g' \<longleftrightarrow> (\<forall>j d'. inst_at g' j = Some d' \<longrightarrow> (\<exists>d. inst_at g j = Some d \<and> opcode_of d' = opcode_of d \<and>
     (set (inst_blocks d) \<inter> B = {} \<longrightarrow> inst_blocks d' = inst_blocks d)))"

lemma same_shape_refl [simp]: "same_shape B g g"
  by (simp add: same_shape_def)

lemma same_shape_trans:
  assumes "same_shape A g h" "same_shape B h k"
  shows "same_shape (A \<union> B) g k"
  unfolding same_shape_def
proof (intro allI impI)
  fix j d' assume "inst_at k j = Some d'"
  then obtain d1 where d1: "inst_at h j = Some d1" "opcode_of d' = opcode_of d1"
    "set (inst_blocks d1) \<inter> B = {} \<longrightarrow> inst_blocks d' = inst_blocks d1"
    using assms(2) unfolding same_shape_def by blast
  then obtain d where "inst_at g j = Some d" "opcode_of d1 = opcode_of d"
    "set (inst_blocks d) \<inter> A = {} \<longrightarrow> inst_blocks d1 = inst_blocks d"
    using assms(1) unfolding same_shape_def by blast
  then show "\<exists>d. inst_at g j = Some d \<and> opcode_of d' = opcode_of d \<and>
      (set (inst_blocks d) \<inter> (A \<union> B) = {} \<longrightarrow> inst_blocks d' = inst_blocks d)"
    using d1 by (auto simp: Int_Un_distrib)
qed

lemma opcode_without_block:
  assumes "phi_ok d"
  shows "opcode_of (without_block b d) = opcode_of d"
proof (cases d)
  case (IPhi op as bs)
  then obtain bs' as' n' where "foldM (phi_remove_step b) [0..<length bs] (bs, as, 0) = Some (bs', as', n')"
    using assms phi_loop_lengths[of bs as b "[0..<length bs]" 0] by (auto simp: phi_ok_def)
  then show ?thesis using IPhi by (simp add: without_block_def inst_remove_block_def opcode_of_def)
qed (simp_all add: without_block_def inst_remove_block_def replace_block_def blocks_mut_def opcode_of_def)

lemma phi_ok_args_mut: "phi_ok (args_mut f d) \<longleftrightarrow> phi_ok d"
  by (cases d) (simp_all add: phi_ok_def args_mut_def)

lemma replace_use_phi_ok:
  assumes "dfg_phi_ok g" "replace_use ord from to g = Some (n, g')"
  shows "dfg_phi_ok g'"
proof -
  have "(\<lambda>p. dfg_phi_ok (snd p)) (n, g')"
  proof (rule foldM_invariant[OF assms(2)[unfolded replace_use_def]])
    show "dfg_phi_ok (snd (0, g))" using assms(1) by simp
    fix i p p'
    assume ok: "dfg_phi_ok (snd p)"
      and st: "(case p of (n, g) \<Rightarrow> do { (k, g) \<leftarrow> replace_value_within_inst from to i g; Some (n + k, g) }) = Some p'"
    obtain m h where p: "p = (m, h)" by (cases p)
    obtain d it where d: "pt2_index (dinsts h) i = Some d"
      "pt2_index_mut i (args_mut (subst from to) d) (dinsts h) = Some it" "dinsts (snd p') = it"
      using st unfolding p by (auto simp: replace_value_within_inst_def bind_Some_iff replace_value_subst dest!: update_uses_dinsts)
    have "d \<in> set (storage (dinsts h))" using d(1) by (auto simp: pt2_index_def idx_def split: if_splits)
    moreover have "set (storage it) \<subseteq> insert (args_mut (subst from to) d) (set (storage (dinsts h)))"
      using d(2) by (auto simp: pt2_index_mut_def idx_set_def bind_Some_iff split: if_splits dest!: set_update_subset_insert[THEN subsetD])
    ultimately show "dfg_phi_ok (snd p')" using ok d(3) unfolding p dfg_phi_ok_def by (auto simp: phi_ok_args_mut)
  qed
  then show ?thesis by simp
qed

lemma remove_inst_phi_ok:
  assumes "dfg_phi_ok g" "remove_inst_dfg i g = Some g'"
  shows "dfg_phi_ok g'"
proof -
  obtain d it where h: "pt2_remove inst_default i (dinsts g) = Some (d, it)" "dinsts g' = it"
    using assms(2) by (auto simp: remove_inst_dfg_def remove_value_def remove_uses_def bind_Some_iff split: if_splits)
  have "storage it = (storage (dinsts g))[i := inst_default]" using h(1) by (auto simp: pt2_remove_def bind_Some_iff Let_def)
  then have "set (storage it) \<subseteq> insert inst_default (set (storage (dinsts g)))" by (simp add: set_update_subset_insert)
  then show ?thesis using assms(1) h(2) by (auto simp: dfg_phi_ok_def inst_default_def phi_ok_def[of "INullary _"])
qed

lemma phi_ok_at: "dfg_wf g \<Longrightarrow> dfg_phi_ok g \<Longrightarrow> inst_at g i = Some d \<Longrightarrow> phi_ok d"
  using inst_at_index[of g i d] by (auto simp: dfg_phi_ok_def pt2_index_def idx_def split: if_splits)

text \<open>One instruction of a deleted block: its result is replaced by the invalid value first.\<close>

lemma delete_block_inst_effect:
  assumes wf: "dfg_wf (dfg u)" and ok: "dfg_phi_ok (dfg u)" and ord: "lists_sets ord"
    and i: "i \<in> live (dfg u)" and m: "inst_map (layout u) i \<noteq> None"
  shows "\<exists>u'. delete_block_inst ord i u = Some u' \<and> dfg_wf (dfg u') \<and> dfg_phi_ok (dfg u') \<and>
    layout u' = (layout u)\<lparr>inst_map := (inst_map (layout u))(i := None)\<rparr> \<and> cfg u' = cfg u \<and>
    live (dfg u') = live (dfg u) - {i} \<and> same_shape {} (dfg u) (dfg u')"
proof -
  let ?g = "dfg u"
  obtain d where d: "inst_at ?g i = Some d" using i by (auto simp: live_def)
  have "\<exists>g f. (if has_result ?g i then do { v \<leftarrow> inst_result ?g i; (_, g) \<leftarrow> replace_use ord v key_invalid ?g; Some g } else Some ?g) = Some g \<and>
      dfg_wf g \<and> dfg_phi_ok g \<and> inst_at g = (\<lambda>j. map_option (args_mut f) (inst_at ?g j)) \<and>
      (\<forall>r. dresults g i = Some r \<longrightarrow> users (value_uses g) r = {})"
  proof (cases "dresults ?g i")
    case None
    then show ?thesis using wf ok
      by (intro exI[of _ ?g] exI[of _ id]) (auto simp: has_result_def st_contains_def args_mut_id option.map_ident_strong)
  next
    case (Some v)
    then have "value_at ?g v \<noteq> None" using dfg_wfD(6)[OF wf] by auto
    then have "v \<noteq> key_invalid" using invalid_not_live[OF wf] by auto
    then obtain n g where g: "replace_use ord v key_invalid ?g = Some (n, g)" "dfg_wf g"
      "inst_at g = (\<lambda>i. map_option (args_mut (subst v key_invalid)) (inst_at ?g i))" "dresults g = dresults ?g"
      "users (value_uses g) v = {}"
      using replace_use_effect[OF wf ord value_ok_invalid] by blast
    then show ?thesis using Some replace_use_phi_ok[OF ok g(1)]
      by (intro exI[of _ g] exI[of _ "subst v key_invalid"])
        (auto simp: has_result_def st_contains_def inst_result_def st_index_def)
  qed
  then obtain g f where g: "(if has_result ?g i then do { v \<leftarrow> inst_result ?g i; (_, g) \<leftarrow> replace_use ord v key_invalid ?g; Some g }
        else Some ?g) = Some g" "dfg_wf g" "dfg_phi_ok g" "inst_at g = (\<lambda>j. map_option (args_mut f) (inst_at ?g j))"
      "\<forall>r. dresults g i = Some r \<longrightarrow> users (value_uses g) r = {}"
    by blast
  obtain h where h: "remove_inst_dfg i g = Some h" "dfg_wf h" "inst_at h = (inst_at g)(i := None)"
    using remove_inst_dfg_effect[OF g(2), of i "args_mut f d"] g(4,5) d by auto
  have l: "live h = live ?g - {i}" unfolding live_def h(3) g(4) by auto
  have sh: "same_shape {} ?g h" unfolding same_shape_def h(3) g(4) by auto
  have run: "delete_block_inst ord i u = Some (u\<lparr>dfg := h, layout := (layout u)\<lparr>inst_map := (inst_map (layout u))(i := None)\<rparr>\<rparr>)"
    using g(1) h(1) m by (simp add: delete_block_inst_def set_layout_def unmap_inst_def)
  show ?thesis unfolding run using h(2) remove_inst_phi_ok[OF g(3) h(1)] l sh by simp
qed

text \<open>The instructions of the block one after the other.\<close>

lemma delete_insts_effect:
  assumes "lists_sets ord"
  shows "dfg_wf (dfg u) \<Longrightarrow> dfg_phi_ok (dfg u) \<Longrightarrow> set is \<subseteq> live (dfg u) \<Longrightarrow> distinct is \<Longrightarrow>
    \<forall>i \<in> set is. inst_map (layout u) i \<noteq> None \<Longrightarrow>
    \<exists>u'. foldM (delete_block_inst ord) is u = Some u' \<and> dfg_wf (dfg u') \<and> dfg_phi_ok (dfg u') \<and>
      layout u' = (layout u)\<lparr>inst_map := (\<lambda>i. if i \<in> set is then None else inst_map (layout u) i)\<rparr> \<and> cfg u' = cfg u \<and>
      live (dfg u') = live (dfg u) - set is \<and> same_shape {} (dfg u) (dfg u')"
proof (induction "is" arbitrary: u)
  case Nil
  then show ?case by simp
next
  case (Cons i "is")
  obtain u1 where u1: "delete_block_inst ord i u = Some u1" "dfg_wf (dfg u1)" "dfg_phi_ok (dfg u1)"
    "layout u1 = (layout u)\<lparr>inst_map := (inst_map (layout u))(i := None)\<rparr>" "cfg u1 = cfg u"
    "live (dfg u1) = live (dfg u) - {i}" "same_shape {} (dfg u) (dfg u1)"
    using delete_block_inst_effect[OF Cons.prems(1,2) assms, of i] Cons.prems(3,5) by auto
  have prem: "set is \<subseteq> live (dfg u1)" "distinct is" "\<forall>i \<in> set is. inst_map (layout u1) i \<noteq> None"
    using Cons.prems(3-5) u1(4,6) by auto
  obtain u2 where u2: "foldM (delete_block_inst ord) is u1 = Some u2" "dfg_wf (dfg u2)" "dfg_phi_ok (dfg u2)"
    "layout u2 = (layout u1)\<lparr>inst_map := (\<lambda>i. if i \<in> set is then None else inst_map (layout u1) i)\<rparr>" "cfg u2 = cfg u1"
    "live (dfg u2) = live (dfg u1) - set is" "same_shape {} (dfg u1) (dfg u2)"
    using Cons.IH[OF u1(2,3) prem] by blast
  have m: "(\<lambda>k. if k \<in> set is then None else inst_map (layout u1) k) =
      (\<lambda>k. if k \<in> set (i # is) then None else inst_map (layout u) k)" by (auto simp: u1(4))
  have "layout u2 = (layout u)\<lparr>inst_map := (\<lambda>k. if k \<in> set (i # is) then None else inst_map (layout u) k)\<rparr>"
    unfolding u2(4) m by (simp add: u1(4))
  moreover have "live (dfg u2) = live (dfg u) - set (i # is)" using u2(6) u1(6) by auto
  moreover have "same_shape {} (dfg u) (dfg u2)" using same_shape_trans[OF u1(7) u2(7)] by simp
  ultimately show ?case using u1(1,5) u2(1-3,5) by auto
qed

lemma fl_rep_remove_full:
  assumes rep: "fl_rep fl xs" and b: "(b, is) \<in> set xs"
  shows "\<exists>fl'. remove_block b fl = Some fl' \<and> inst_map fl' = inst_map fl \<and>
    fl_rep (fl'\<lparr>inst_map := (\<lambda>i. if i \<in> set is then None else inst_map fl i)\<rparr>) (filter (\<lambda>p. fst p \<noteq> b) xs)"
proof -
  have "b \<in> set (map fst xs)" using b by force
  then obtain fl' where fl': "remove_block b fl = Some fl'" "bl_rep fl' (filter (\<lambda>k. k \<noteq> b) (map fst xs))"
    using block_list.remove_key[OF fl_repD(1)[OF rep]] by blast
  note lay = remove_block_layouts[OF fl'(1)]
  let ?fl = "fl'\<lparr>inst_map := (\<lambda>i. if i \<in> set is then None else inst_map fl i)\<rparr>"
  have only: "p = (b, is)" if "p \<in> set xs" "fst p = b" for p
    using key_unique[OF fl_repD(2)[OF rep] that(1) b] that(2) by simp
  have bl: "bl_rep ?fl (map fst (filter (\<lambda>p. fst p \<noteq> b) xs))"
    using fl'(2) by (simp add: bl_rep_def erase_def filter_map comp_def)
  have maps: "inst_map ?fl i = Some c \<longleftrightarrow> (\<exists>p \<in> set (filter (\<lambda>p. fst p \<noteq> b) xs). fst p = c \<and> i \<in> set (snd p))" for i c
  proof (cases "i \<in> set is")
    case True
    have "fst p = b" if "p \<in> set xs" "i \<in> set (snd p)" for p
      using fl_repD(4)[OF rep, of i] b that True by (metis fst_conv option.inject snd_conv)
    then show ?thesis using True by auto
  next
    case False
    then have "(\<exists>p \<in> set xs. fst p = c \<and> i \<in> set (snd p)) \<longleftrightarrow> (\<exists>p \<in> set (filter (\<lambda>p. fst p \<noteq> b) xs). fst p = c \<and> i \<in> set (snd p))"
      using only by force
    then show ?thesis using fl_repD(4)[OF rep, of i c] False by simp
  qed
  have "fl_rep ?fl (filter (\<lambda>p. fst p \<noteq> b) xs)"
    unfolding fl_rep_def using bl maps fl_repD(3)[OF rep] lay by auto
  then show ?thesis using fl'(1) lay by auto
qed

lemma delete_block_effect:
  assumes rep: "loose_rep u xs" and ord: "lists_sets ord" and b: "(b, is) \<in> set xs"
  shows "\<exists>u'. delete_block ord b u = Some u' \<and> loose_rep u' (filter (\<lambda>p. fst p \<noteq> b) xs) \<and>
    live (dfg u') = live (dfg u) - set is \<and> same_shape {b} (dfg u) (dfg u')"
proof -
  note r = loose_repD[OF rep]
  obtain n g where g: "remove_block_use ord b (dfg u) = Some (n, g)" "dfg_wf g" "dfg_phi_ok g"
    "inst_at g = (\<lambda>i. map_option (without_block b) (inst_at (dfg u) i))"
    using remove_block_use_effect[OF r(1,2) ord] by blast
  obtain fl where fl: "remove_block b (layout u) = Some fl" "inst_map fl = inst_map (layout u)"
    "fl_rep (fl\<lparr>inst_map := (\<lambda>i. if i \<in> set is then None else inst_map (layout u) i)\<rparr>) (filter (\<lambda>p. fst p \<noteq> b) xs)"
    using fl_rep_remove_full[OF r(3) b] by blast
  have "b \<in> used (cblocks (cfg u))" using b r(6) by (force simp: keys_def)
  then obtain v tb where t: "pt2_remove None b (cblocks (cfg u)) = Some (v, tb)" "used tb = used (cblocks (cfg u)) - {b}"
    using pt2_remove_Some[OF r(5), of b None] by simp
  have inv: "pt2_inv tb" by (rule pt2_remove_inv[OF r(5) t(1)])
  define u1 where "u1 = u\<lparr>dfg := g, layout := fl, cfg := (cfg u)\<lparr>cblocks := tb\<rparr>\<rparr>"
  have l1: "live (dfg u1) = live (dfg u)" by (auto simp: u1_def live_def g(4))
  have s1: "same_shape {b} (dfg u) (dfg u1)"
    unfolding same_shape_def u1_def using g(4) opcode_without_block[OF phi_ok_at[OF r(1,2)]]
    by (auto simp: without_block_id)
  have sub: "set is \<subseteq> members xs" using b by (force simp: members_def)
  have p: "set is \<subseteq> live (dfg u1)" "\<forall>i \<in> set is. inst_map (layout u1) i \<noteq> None"
    using sub r(4) l1 fl_rep_unmapped[OF r(3)] fl(2) by (auto simp: u1_def)
  obtain u2 where u2: "foldM (delete_block_inst ord) is u1 = Some u2" "dfg_wf (dfg u2)" "dfg_phi_ok (dfg u2)"
    "layout u2 = (layout u1)\<lparr>inst_map := (\<lambda>i. if i \<in> set is then None else inst_map (layout u1) i)\<rparr>" "cfg u2 = cfg u1"
    "live (dfg u2) = live (dfg u1) - set is" "same_shape {} (dfg u1) (dfg u2)"
    using delete_insts_effect[OF ord _ _ p(1) fl_rep_distinct[OF r(3) b] p(2)] g(2,3) by (auto simp: u1_def)
  have run: "delete_block ord b u = Some u2"
    using fl_rep_insts[OF r(3) b] g(1) fl(1) t(1) u2(1) by (simp add: delete_block_def set_layout_def u1_def)
  have lay: "fl_rep (layout u2) (filter (\<lambda>p. fst p \<noteq> b) xs)"
  proof -
    have "layout u2 = fl\<lparr>inst_map := (\<lambda>i. if i \<in> set is then None else inst_map (layout u) i)\<rparr>"
      unfolding u2(4) by (simp add: u1_def fl(2) cong: if_cong)
    then show ?thesis using fl(3) by simp
  qed
  have mem: "members (filter (\<lambda>p. fst p \<noteq> b) xs) \<subseteq> live (dfg u2)"
  proof
    fix i assume "i \<in> members (filter (\<lambda>p. fst p \<noteq> b) xs)"
    then obtain q where q: "q \<in> set xs" "fst q \<noteq> b" "i \<in> set (snd q)" by (auto simp: members_def)
    then have "i \<notin> set is" using fl_repD(4)[OF r(3), of i] b by (metis fst_conv option.inject snd_conv)
    moreover have "i \<in> members xs" using q by (auto simp: members_def)
    ultimately show "i \<in> live (dfg u2)" using r(4) u2(6) l1 by auto
  qed
  have keys: "keys (filter (\<lambda>p. fst p \<noteq> b) xs) = used tb" using r(6) t(2) by (auto simp: keys_def)
  have "loose_rep u2 (filter (\<lambda>p. fst p \<noteq> b) xs)"
    using u2(2,3,5) lay mem keys inv by (simp add: loose_rep_def u1_def)
  moreover have "same_shape {b} (dfg u) (dfg u2)" using same_shape_trans[OF s1 u2(7)] by simp
  ultimately show ?thesis using run u2(6) l1 by auto
qed

section \<open>Pruning unreachable blocks\<close>

lemma delete_blocks_effect:
  assumes ord: "lists_sets ord"
  shows "loose_rep u ys \<Longrightarrow> set bs \<subseteq> keys ys \<Longrightarrow> distinct bs \<Longrightarrow>
    \<exists>u'. foldM (delete_block ord) bs u = Some u' \<and> loose_rep u' (filter (\<lambda>p. fst p \<notin> set bs) ys) \<and>
      same_shape (set bs) (dfg u) (dfg u')"
proof (induction bs arbitrary: u ys)
  case (Cons b bs)
  obtain "is" where b: "(b, is) \<in> set ys" using Cons.prems(2) by (auto simp: keys_def)
  let ?zs = "filter (\<lambda>p. fst p \<noteq> b) ys"
  obtain u1 where u1: "delete_block ord b u = Some u1" "loose_rep u1 ?zs" "same_shape {b} (dfg u) (dfg u1)"
    using delete_block_effect[OF Cons.prems(1) ord b] by blast
  have "keys ?zs = keys ys - {b}" by (auto simp: keys_def)
  then have "set bs \<subseteq> keys ?zs" "distinct bs" using Cons.prems(2,3) by auto
  then obtain u2 where u2: "foldM (delete_block ord) bs u1 = Some u2"
    "loose_rep u2 (filter (\<lambda>p. fst p \<notin> set bs) ?zs)" "same_shape (set bs) (dfg u1) (dfg u2)"
    using Cons.IH[OF u1(2)] by blast
  have "filter (\<lambda>p. fst p \<notin> set bs) ?zs = filter (\<lambda>p. fst p \<notin> set (b # bs)) ys" by (simp add: conj_commute)
  moreover have "same_shape (set (b # bs)) (dfg u) (dfg u2)" using same_shape_trans[OF u1(3) u2(3)] by simp
  ultimately show ?case using u1(1) u2(1,2) by auto
qed simp

lemma members_index:
  assumes "loose_rep u xs"
  shows "\<forall>i \<in> members xs. pt2_index (dinsts (dfg u)) i \<noteq> None"
  using loose_repD(1,4)[OF assms] inst_at_index by (fastforce simp: live_def)

lemma prune_blocks_effect:
  assumes rep: "loose_rep u ((r, is) # xs)" and ord: "lists_sets ord" and ne: "\<forall>p \<in> set ((r, is) # xs). snd p \<noteq> []"
    and inside: "\<forall>a b. branches (\<lambda>_. False) (dfg u) ((r, is) # xs) a b \<longrightarrow> b \<in> keys ((r, is) # xs)"
  shows "\<exists>u'. prune_blocks ord u = Some (\<not> keys ((r, is) # xs) \<subseteq> reached (dfg u) ((r, is) # xs) r, u') \<and>
    loose_rep u' (filter (\<lambda>p. fst p \<in> reached (dfg u) ((r, is) # xs) r) ((r, is) # xs)) \<and>
    same_shape (keys ((r, is) # xs) - reached (dfg u) ((r, is) # xs) r) (dfg u) (dfg u')"
proof -
  let ?xs = "(r, is) # xs"
  let ?B = "keys ?xs - reached (dfg u) ?xs r"
  have un: "unreachable_blocks (dfg u) (layout u) = Some ?B"
    by (rule unreachable_found[OF loose_repD(3)[OF rep] members_index[OF rep] ne inside])
  have "finite ?B" by (simp add: keys_def)
  then have o: "set (ord ?B) = ?B" "distinct (ord ?B)" using ord unfolding lists_sets_def by blast+
  obtain u' where u': "foldM (delete_block ord) (ord ?B) u = Some u'"
    "loose_rep u' (filter (\<lambda>p. fst p \<notin> ?B) ?xs)" "same_shape ?B (dfg u) (dfg u')"
    using delete_blocks_effect[OF ord rep, of "ord ?B"] o by auto
  have "filter (\<lambda>p. fst p \<notin> ?B) ?xs = filter (\<lambda>p. fst p \<in> reached (dfg u) ?xs r) ?xs"
    by (rule filter_cong) (auto simp: keys_def)
  moreover have "?B \<noteq> {} \<longleftrightarrow> \<not> keys ?xs \<subseteq> reached (dfg u) ?xs r" by auto
  ultimately show ?thesis using un u' by (simp add: prune_blocks_def)
qed

section \<open>Merging two blocks\<close>

lemma replace_block_use_phi_ok:
  assumes "dfg_phi_ok g" "replace_block_use ord from to g = Some (n, g')"
  shows "dfg_phi_ok g'"
proof -
  have phi: "phi_ok (blocks_mut f d) \<longleftrightarrow> phi_ok d" for f d by (cases d) (simp_all add: phi_ok_def blocks_mut_def)
  have "(\<lambda>p. dfg_phi_ok (snd p)) (n, g')"
  proof (rule foldM_invariant[OF assms(2)[unfolded replace_block_use_def]])
    show "dfg_phi_ok (snd (0, g))" using assms(1) by simp
    fix i p p'
    assume ok: "dfg_phi_ok (snd p)"
      and st: "(case p of (n, g) \<Rightarrow> do { (k, g) \<leftarrow> replace_block_within_inst from to i g; Some (n + k, g) }) = Some p'"
    obtain m h where p: "p = (m, h)" by (cases p)
    obtain d it f where d: "pt2_index (dinsts h) i = Some d"
      "pt2_index_mut i (blocks_mut f d) (dinsts h) = Some it" "dinsts (snd p') = it"
      using st unfolding p by (auto simp: replace_block_within_inst_def bind_Some_iff replace_block_def dest!: update_uses_dinsts)
    have "d \<in> set (storage (dinsts h))" using d(1) by (auto simp: pt2_index_def idx_def split: if_splits)
    moreover have "set (storage it) \<subseteq> insert (blocks_mut f d) (set (storage (dinsts h)))"
      using d(2) by (auto simp: pt2_index_mut_def idx_set_def bind_Some_iff split: if_splits dest!: set_update_subset_insert[THEN subsetD])
    ultimately show "dfg_phi_ok (snd p')" using ok d(3) unfolding p dfg_phi_ok_def by (auto simp: phi)
  qed
  then show ?thesis by simp
qed

text \<open>The layout while instructions move from \<open>b\<close> to the end of \<open>c\<close>, before its terminator \<open>t\<close>.\<close>

definition moving :: "nat \<Rightarrow> nat \<Rightarrow> layout_list \<Rightarrow> nat list \<Rightarrow> nat list \<Rightarrow> layout_list" where
  "moving b c xs is js = map (\<lambda>p. if fst p = b then (b, is) else if fst p = c then (c, js) else p) xs"

lemma moving_step:
  assumes rep: "fl_rep l (moving b c xs (i # is) (js @ [t]))" and b: "b \<in> keys xs" "c \<in> keys xs" "b \<noteq> c"
  shows "everywhere (filter (\<lambda>x. x \<noteq> i)) (moving b c xs (i # is) (js @ [t])) = moving b c xs is (js @ [t])"
    and "everywhere (ins_before (\<lambda>x. x = t) i) (moving b c xs is (js @ [t])) = moving b c xs is (js @ [i, t])"
    and "i \<in> members (moving b c xs (i # is) (js @ [t]))" "i \<notin> members (moving b c xs is (js @ [t]))"
    "t \<in> members (moving b c xs is (js @ [t]))"
proof -
  let ?ys = "moving b c xs (i # is) (js @ [t])"
  have mem: "(b, i # is) \<in> set ?ys" "(c, js @ [t]) \<in> set ?ys"
    using b by (force simp: moving_def keys_def)+
  note one = fl_repD(4)[OF rep]
  have ib: "p = (b, i # is)" if "p \<in> set ?ys" "i \<in> set (snd p)" for p
    using one[of i] mem(1) that key_unique[OF fl_repD(2)[OF rep] that(1) mem(1)] by (metis fst_conv list.set_intros(1) option.inject snd_conv)
  have tc: "p = (c, js @ [t])" if "p \<in> set ?ys" "t \<in> set (snd p)" for p
    using one[of t] mem(2) that key_unique[OF fl_repD(2)[OF rep] that(1) mem(2)]
    by (metis fst_conv in_set_conv_decomp option.inject snd_conv)
  note dist = fl_rep_distinct[OF rep mem(1)] fl_rep_distinct[OF rep mem(2)]
  have ni: "i \<notin> set (js @ [t])" using ib[OF mem(2)] b(3) by auto
  have others: "i \<notin> set (snd p)" "t \<notin> set (snd p)" if "p \<in> set xs" "fst p \<noteq> b" "fst p \<noteq> c" for p
  proof -
    have "p \<in> set ?ys" using that by (force simp: moving_def)
    then show "i \<notin> set (snd p)" "t \<notin> set (snd p)" using ib tc that by force+
  qed
  have tb: "t \<notin> set is" using tc[OF mem(1)] b(3) by auto
  have fi: "filter (\<lambda>x. x \<noteq> i) ks = ks" if "i \<notin> set ks" for ks using that by (induction ks) auto
  have it: "ins_before (\<lambda>x. x = t) i ks = ks" if "t \<notin> set ks" for ks using that by (induction ks) auto
  have ij: "ins_before (\<lambda>x. x = t) i (ks @ [t]) = ks @ [i, t]" if "t \<notin> set ks" for ks using that by (induction ks) auto
  show "everywhere (filter (\<lambda>x. x \<noteq> i)) ?ys = moving b c xs is (js @ [t])"
    unfolding everywhere_def moving_def using dist(1) ni others(1) fi b(3) by auto
  show "everywhere (ins_before (\<lambda>x. x = t) i) (moving b c xs is (js @ [t])) = moving b c xs is (js @ [i, t])"
    unfolding everywhere_def moving_def using dist(2) tb others(2) it ij b(3) by auto
  show "i \<in> members ?ys" using mem(1) by (force simp: members_def)
  show "t \<in> members (moving b c xs is (js @ [t]))" using b by (force simp: members_def moving_def keys_def)
  show "i \<notin> members (moving b c xs is (js @ [t]))"
    using dist(1) ni others(1) by (auto simp: members_def moving_def split: if_splits)
qed

lemma move_insts_effect:
  assumes b: "b \<in> keys xs" "c \<in> keys xs" "b \<noteq> c"
  shows "fl_rep (layout u) (moving b c xs is (js @ [t])) \<Longrightarrow>
    \<forall>i \<in> set is. \<exists>d. pt2_index (dinsts (dfg u)) i = Some d \<and> opcode_of d \<noteq> OpPhi \<Longrightarrow>
    \<exists>l. move_insts ord b c t u = Some (u\<lparr>layout := l\<rparr>) \<and> fl_rep l (moving b c xs [] (js @ is @ [t]))"
proof (induction "is" arbitrary: u js)
  case Nil
  have "(b, []) \<in> set (moving b c xs [] (js @ [t]))" using b(1) by (force simp: moving_def keys_def)
  then obtain il where "block_layouts (bbs (layout u)) b = Some il" "il_rep il []" using fl_repD(3)[OF Nil.prems(1)] by fastforce
  then have "block_first_inst (layout u) b = Some None"
    by (auto simp: block_layouts_def block_first_inst_def st_index_def il_rep_def dll_def)
  then have "move_insts ord b c t u = Some u" by (subst move_insts.simps) simp
  then show ?case using Nil.prems(1) by (intro exI[of _ "layout u"]) simp
next
  case (Cons i "is")
  note step = moving_step[OF Cons.prems(1) b]
  have "(b, i # is) \<in> set (moving b c xs (i # is) (js @ [t]))" using b(1) by (force simp: moving_def keys_def)
  then obtain il where "block_layouts (bbs (layout u)) b = Some il" "il_rep il (i # is)" using fl_repD(3)[OF Cons.prems(1)] by fastforce
  then have first: "block_first_inst (layout u) b = Some (Some i)"
    by (auto simp: block_layouts_def block_first_inst_def st_index_def il_rep_def dll_def)
  obtain l1 where l1: "remove_inst i (layout u) = Some l1" "fl_rep l1 (moving b c xs is (js @ [t]))"
    using fl_rep_remove_inst[OF Cons.prems(1) step(3)] step(1) by auto
  obtain l2 where l2: "insert_inst_before i t l1 = Some l2" "fl_rep l2 (moving b c xs is ((js @ [i]) @ [t]))"
    using fl_rep_insert_inst(2)[OF l1(2) step(4,5)] step(2) by auto
  obtain d where d: "pt2_index (dinsts (dfg u)) i = Some d" "opcode_of d \<noteq> OpPhi" using Cons.prems(2) by auto
  have mv: "move_inst ord c t i u = Some (u\<lparr>layout := l2\<rparr>)"
    using l1(1) l2(1) d by (simp add: move_inst_def set_layout_def)
  have "\<forall>i \<in> set is. \<exists>d. pt2_index (dinsts (dfg (u\<lparr>layout := l2\<rparr>))) i = Some d \<and> opcode_of d \<noteq> OpPhi" using Cons.prems(2) by simp
  then obtain l where l: "move_insts ord b c t (u\<lparr>layout := l2\<rparr>) = Some (u\<lparr>layout := l\<rparr>)" "fl_rep l (moving b c xs [] ((js @ [i]) @ is @ [t]))"
    using Cons.IH[of "u\<lparr>layout := l2\<rparr>" "js @ [i]"] l2(2) by auto
  have "move_insts ord b c t u = Some (u\<lparr>layout := l\<rparr>)"
    by (subst move_insts.simps) (simp add: first mv l(1))
  then show ?case using l(2) by auto
qed

lemma merge_block_effect:
  assumes rep: "loose_rep u xs" and ord: "lists_sets ord" and b: "(b, is) \<in> set xs" "(c, js @ [t]) \<in> set xs" "b \<noteq> c"
    and np: "\<forall>i \<in> set is. \<forall>d. inst_at (dfg u) i = Some d \<longrightarrow> opcode_of d \<noteq> OpPhi"
  shows "\<exists>u'. merge_block ord (b, c) u = Some u' \<and>
    loose_rep u' (map (\<lambda>p. if fst p = c then (c, js @ is) else p) (filter (\<lambda>p. fst p \<noteq> b) xs)) \<and>
    live (dfg u') = live (dfg u) \<and> (\<forall>j d'. inst_at (dfg u') j = Some d' \<longrightarrow>
      (\<exists>d. inst_at (dfg u) j = Some d \<and> opcode_of d' = opcode_of d \<and> inst_blocks d' = map (subst b c) (inst_blocks d)))"
proof -
  note r = loose_repD[OF rep]
  note uniq = key_unique[OF fl_repD(2)[OF r(3)]]
  have k: "b \<in> keys xs" "c \<in> keys xs" using b by (force simp: keys_def)+
  have start: "moving b c xs is (js @ [t]) = xs"
    unfolding moving_def by (rule map_idI) (use uniq[OF _ b(1)] uniq[OF _ b(2)] in \<open>auto split: if_splits\<close>)
  obtain il where il: "block_layouts (bbs (layout u)) c = Some il" "il_rep il (js @ [t])" using fl_repD(3)[OF r(3) b(2)] by auto
  have last: "block_terminator (layout u) c = Some t"
    using il by (auto simp: block_layouts_def block_last_inst_def block_terminator_def st_index_def il_rep_def dll_def)
  have mi: "\<exists>d. pt2_index (dinsts (dfg u)) i = Some d \<and> opcode_of d \<noteq> OpPhi" if "i \<in> set is" for i
  proof -
    have "i \<in> members xs" using that b(1) by (force simp: members_def)
    then obtain d where "inst_at (dfg u) i = Some d" using r(4) by (auto simp: live_def)
    then show ?thesis using inst_at_index[OF r(1)] np that by blast
  qed
  obtain l where l: "move_insts ord b c t u = Some (u\<lparr>layout := l\<rparr>)" "fl_rep l (moving b c xs [] (js @ is @ [t]))"
    using move_insts_effect[OF k b(3), of u "is" js t ord] r(3) mi start by auto
  let ?ys = "moving b c xs [] (js @ is @ [t])" and ?zs = "moving b c xs [] (js @ is)"
  have cm: "(c, js @ is @ [t]) \<in> set ?ys" and bm: "(b, []) \<in> set ?zs" using k b(3) by (force simp: moving_def keys_def)+
  have tm: "t \<in> members ?ys" using cm by (force simp: members_def)
  have drop: "everywhere (filter (\<lambda>x. x \<noteq> t)) ?ys = ?zs"
  proof -
    have "t \<notin> set (js @ is)" using fl_rep_distinct[OF l(2) cm] by auto
    moreover have "t \<notin> set (snd p)" if "p \<in> set xs" "fst p \<noteq> b" "fst p \<noteq> c" for p
    proof
      assume "t \<in> set (snd p)"
      moreover have "p \<in> set ?ys" using that by (force simp: moving_def)
      ultimately have "inst_map l t = Some (fst p)" using fl_repD(4)[OF l(2)] by blast
      moreover have "inst_map l t = Some c" using fl_repD(4)[OF l(2), of t c] cm by force
      ultimately show False using that(3) by simp
    qed
    moreover have "filter (\<lambda>x. x \<noteq> t) ks = ks" if "t \<notin> set ks" for ks using that by (induction ks) auto
    ultimately show ?thesis unfolding everywhere_def moving_def by auto
  qed
  obtain l1 where l1: "remove_inst t l = Some l1" "fl_rep l1 ?zs" using fl_rep_remove_inst[OF l(2) tm] drop by auto
  obtain n g where g: "replace_block_use ord b c (dfg u) = Some (n, g)" "dfg_wf g"
    "inst_at g = (\<lambda>i. map_option (blocks_mut (subst b c)) (inst_at (dfg u) i))"
    using replace_block_use_effect[OF r(1) ord b(3)] by blast
  have lg: "live g = live (dfg u)" by (auto simp: live_def g(3))
  let ?u = "u\<lparr>dfg := g, layout := l1\<rparr>"
  have tx: "t \<in> members xs" using b(2) by (force simp: members_def)
  have "members ?zs \<subseteq> set js \<union> set is \<union> members xs" by (auto simp: members_def moving_def split: if_splits)
  moreover have "set js \<subseteq> members xs" "set is \<subseteq> members xs" using b(1,2) by (force simp: members_def)+
  ultimately have "members ?zs \<subseteq> members xs" by blast
  moreover have "map fst ?zs = map fst xs" by (simp add: moving_def)
  then have "keys ?zs = keys xs" unfolding keys_def by (metis set_map)
  ultimately have "loose_rep ?u ?zs"
    using r(4-6) g(2) replace_block_use_phi_ok[OF r(2) g(1)] l1(2) lg by (auto simp: loose_rep_def)
  from delete_block_effect[OF this ord bm] obtain u' where u': "delete_block ord b ?u = Some u'"
    "loose_rep u' (filter (\<lambda>p. fst p \<noteq> b) ?zs)" "live (dfg u') = live g" "same_shape {b} g (dfg u')"
    by auto
  have ops: "\<exists>d. inst_at (dfg u) j = Some d \<and> opcode_of d' = opcode_of d \<and> inst_blocks d' = map (subst b c) (inst_blocks d)"
    if at: "inst_at (dfg u') j = Some d'" for j d'
  proof -
    obtain e where e: "inst_at g j = Some e" "opcode_of d' = opcode_of e" "set (inst_blocks e) \<inter> {b} = {} \<longrightarrow> inst_blocks d' = inst_blocks e"
      using u'(4) at unfolding same_shape_def by blast
    obtain d where d: "inst_at (dfg u) j = Some d" "e = blocks_mut (subst b c) d" using e(1) g(3) by auto
    have "b \<notin> set (inst_blocks e)" using d(2) b(3) by (auto simp: subst_def)
    then have "inst_blocks d' = map (subst b c) (inst_blocks d)" using d(2) e(3) by simp
    moreover have "opcode_of e = opcode_of d" using d(2) by simp
    ultimately show ?thesis using d(1) e(2) by simp
  qed
  have "filter (\<lambda>p. fst p \<noteq> b) ?zs = map (\<lambda>p. if fst p = c then (c, js @ is) else p) (filter (\<lambda>p. fst p \<noteq> b) xs)"
    unfolding moving_def using b(3) by (induction xs) auto
  moreover have "merge_block ord (b, c) u = Some u'"
  proof -
    have e: "u\<lparr>layout := l1, dfg := g\<rparr> = ?u" by (cases u) simp
    have "merge_block ord (b, c) u = delete_block ord b (u\<lparr>layout := l1, dfg := g\<rparr>)"
      using last l(1) l1(1) g(1) by (simp add: merge_block_def set_layout_def)
    then show ?thesis unfolding e u'(1) .
  qed
  moreover have "live (dfg u') = live (dfg u)" using u'(3) lg by simp
  ultimately show ?thesis using u'(2) ops by (intro exI[of _ u'] conjI) simp_all
qed

end
