(* ===== verification/DceHazard.thy ===== *)
theory DceHazard
  imports DceProps DomTreeProps
begin

text \<open>
  The properties of dead code elimination, and a process that it miscompiles: an entry block
  that does nothing but branch to a loop whose body waits.
\<close>

section \<open>A process with a loop\<close>

text \<open>
  \<^verbatim>\<open>entry: br loop\<close>; \<^verbatim>\<open>loop:\<close> two constants, a drive and a \<^verbatim>\<open>wait\<close> for \<^verbatim>\<open>next\<close>;
  \<^verbatim>\<open>next:\<close> a drive of the same values and \<^verbatim>\<open>br loop\<close>. The blocks are 0, 1 and 2.
\<close>

definition loop_graph :: data_flow_graph where
  "loop_graph = \<lparr>dinsts = \<lparr>storage = [IJump OpBr 1, IConstInt OpConstInt (IntValue 1 1), IConstTime OpConstTime time_zero,
         ITernary OpDrv 0 1 2, IWait OpWait 2 [], ITernary OpDrv 0 1 2, IJump OpBr 1],
       count = 7, used = {0, 1, 2, 3, 4, 5, 6}, free = {}\<rparr>,
     dresults = [1 \<mapsto> 1, 2 \<mapsto> 2],
     dvalues = \<lparr>storage = [VArg (SignalType (IntType 1)) 0, VInst (IntType 1) 1, VInst TimeType 2], count = 3, used = {0, 1, 2}, free = {}\<rparr>,
     dargs = [0 \<mapsto> 0], ext_units = pt2_new, names = Map.empty, anonymous_hints = Map.empty, location_hints = Map.empty,
     value_uses = [0 \<mapsto> {3, 5}, 1 \<mapsto> {3, 5}, 2 \<mapsto> {3, 5}], block_uses = [1 \<mapsto> {0, 6}, 2 \<mapsto> {4}]\<rparr>"

lemma loop_at:
  "inst_at loop_graph = [0 \<mapsto> IJump OpBr 1, 1 \<mapsto> IConstInt OpConstInt (IntValue 1 1), 2 \<mapsto> IConstTime OpConstTime time_zero,
     3 \<mapsto> ITernary OpDrv 0 1 2, 4 \<mapsto> IWait OpWait 2 [], 5 \<mapsto> ITernary OpDrv 0 1 2, 6 \<mapsto> IJump OpBr 1]"
  "value_at loop_graph = [0 \<mapsto> VArg (SignalType (IntType 1)) 0, 1 \<mapsto> VInst (IntType 1) 1, 2 \<mapsto> VInst TimeType 2]"
  "dresults loop_graph = [1 \<mapsto> 1, 2 \<mapsto> 2]"
  by (auto simp: inst_at_def value_at_def loop_graph_def pt2_lookup_def fun_eq_iff numeral_eq_Suc)

lemma loop_uses:
  "actual args loop_graph k = (if k \<in> {0, 1, 2} then {3, 5} else {})"
  "actual inst_blocks loop_graph k = (if k = 1 then {0, 6} else if k = 2 then {4} else {})"
  "users (value_uses loop_graph) k = (if k \<in> {0, 1, 2} then {3, 5} else {})"
  "users (block_uses loop_graph) k = (if k = 1 then {0, 6} else if k = 2 then {4} else {})"
  unfolding actual_def loop_at
  by (auto simp: args_def inst_blocks_def users_def loop_graph_def split: if_splits)

lemma loop_wf: "dfg_wf loop_graph" "dfg_exact loop_graph" "dfg_phi_ok loop_graph"
proof -
  show "dfg_exact loop_graph" by (simp add: dfg_exact_def loop_uses)
  show "dfg_phi_ok loop_graph" by (simp add: dfg_phi_ok_def phi_ok_def loop_graph_def)
  have "pt2_inv (dinsts loop_graph)" "pt2_inv (dvalues loop_graph)" by (auto simp: loop_graph_def pt2_inv_def)
  then show "dfg_wf loop_graph"
    unfolding dfg_wf_def loop_uses loop_at value_ok_def
    by (auto simp: loop_graph_def args_def)
qed

abbreviation "loop_blocks \<equiv> [(0, [0]), (1, [1, 2, 3, 4]), (2, [5, 6])] :: layout_list"

lemma loop_unit:
  "\<exists>u. unit_rep u loop_blocks \<and> dfg u = loop_graph \<and> ukind u = ProcessUnit \<and> pt2_capacity (cblocks (cfg u)) = 3"
proof -
  have ops: "foldM abs_op [AppendBlock 0, AppendBlock 1, AppendBlock 2, AppendInst 0 0, AppendInst 1 1, AppendInst 2 1,
      AppendInst 3 1, AppendInst 4 1, AppendInst 5 2, AppendInst 6 2] [] = Some loop_blocks"
    by (simp add: abs_op_def guarded_def keys_def members_def at_block_def)
  have "foldM abs_op ops xs = Some ys \<Longrightarrow> fl_rep fl xs \<Longrightarrow> \<exists>fl'. fl_rep fl' ys" for ops xs ys fl
    by (induction ops arbitrary: xs fl) (use run_op_simulates in \<open>fastforce split: option.splits\<close>)+
  then obtain fl where fl: "fl_rep fl loop_blocks" using ops fl_rep_new by blast
  let ?u = "\<lparr>ukind = ProcessUnit, uname = AnonymousName 0, usig = sig_new, dfg = loop_graph,
    cfg = \<lparr>cblocks = \<lparr>storage = [None, None, None], count = 3, used = {0, 1, 2}, free = {}\<rparr>, block_hints = Map.empty\<rparr>,
    layout = fl, pos = PosAppend 2\<rparr>"
  have "live loop_graph = {0, 1, 2, 3, 4, 5, 6}" by (auto simp: live_def loop_at)
  then have "unit_rep ?u loop_blocks"
    using loop_wf(1,2) fl by (auto simp: unit_rep_def members_def keys_def pt2_inv_def)
  then show ?thesis by (intro exI[of _ ?u]) (simp add: pt2_capacity_def)
qed

section \<open>The pass on the process\<close>

lemma block_facts:
  assumes rep: "fl_rep l xs" and mem: "(b, is) \<in> set xs" and ne: "is \<noteq> []"
  shows "block_insts l b = Some is" "block_first_inst l b = Some (Some (hd is))" "block_last_inst l b = Some (Some (last is))"
    "block_terminator l b = Some (last is)"
proof -
  obtain il where il: "block_layouts (bbs l) b = Some il" "il_rep il is" using fl_repD(3)[OF rep mem] by auto
  show "block_insts l b = Some is" using fl_rep_insts[OF rep mem] by simp
  show "block_first_inst l b = Some (Some (hd is))" "block_last_inst l b = Some (Some (last is))" "block_terminator l b = Some (last is)"
    using il ne by (auto simp: block_layouts_def block_first_inst_def block_last_inst_def block_terminator_def st_index_def
        il_rep_def dll_def last_opt_def hd_opt_def split: list.splits)
qed

lemma loop_index:
  "pt2_index (dinsts loop_graph) 0 = Some (IJump OpBr 1)"
  "pt2_index (dinsts loop_graph) 1 = Some (IConstInt OpConstInt (IntValue 1 1))"
  "pt2_index (dinsts loop_graph) 2 = Some (IConstTime OpConstTime time_zero)"
  "pt2_index (dinsts loop_graph) 3 = Some (ITernary OpDrv 0 1 2)"
  "pt2_index (dinsts loop_graph) 4 = Some (IWait OpWait 2 [])"
  "pt2_index (dinsts loop_graph) 5 = Some (ITernary OpDrv 0 1 2)"
  "pt2_index (dinsts loop_graph) 6 = Some (IJump OpBr 1)"
  by (simp_all add: loop_graph_def pt2_index_def idx_def)

lemma loop_gather:
  assumes rep: "fl_rep l loop_blocks"
  shows "gather 20 loop_graph l 0 = Some ([1, 2, 3, 5],
    \<lparr>triv_bb = [1 \<mapsto> Some 1, 0 \<mapsto> Some 1], triv_br = [0 \<mapsto> Some 1, 4 \<mapsto> None, 6 \<mapsto> Some 1]\<rparr>)"
proof -
  note b0 = block_facts[OF rep, of 0 "[0]"] and b1 = block_facts[OF rep, of 1 "[1, 2, 3, 4]"] and b2 = block_facts[OF rep, of 2 "[5, 6]"]
  have bs: "blocks l = Some [0, 1, 2]" using fl_rep_all_insts(1)[OF rep] by simp
  have phi: "any_phi loop_graph [1, 2, 3, 4] = Some False" "any_phi loop_graph [0] = Some False"
    by (simp_all add: loop_index[simplified] opcode_of_def op_is_phi_def)
  have block1: "check_block_retargetable (Suc n) loop_graph l 1 s = Some (Some 1, s\<lparr>triv_bb := (triv_bb s)(1 \<mapsto> Some 1)\<rparr>)" for n s
    using b1 phi by simp
  have br: "check_branch_trivial (Suc (Suc n)) loop_graph l i s =
      Some (Some 1, s\<lparr>triv_bb := (triv_bb s)(1 \<mapsto> Some 1), triv_br := (triv_br s)(i \<mapsto> Some 1)\<rparr>)"
    if "pt2_index (dinsts loop_graph) i = Some (IJump OpBr 1)" "triv_br s i = None" for n i s
    using that block1[of n] by (simp add: branch_target_def opcode_of_def inst_blocks_def idx_def)
  have w: "check_branch_trivial (Suc n) loop_graph l 4 s = Some (None, s\<lparr>triv_br := (triv_br s)(4 \<mapsto> None)\<rparr>)"
    if "triv_br s 4 = None" for n s
    using that by (simp add: loop_index branch_target_def opcode_of_def)
  let ?G = loop_graph
  note del = check_branch_trivial.simps check_block_retargetable.simps
  have c0: "check_branch_trivial 20 ?G l 0 s = Some (Some 1, s\<lparr>triv_bb := (triv_bb s)(1 \<mapsto> Some 1), triv_br := (triv_br s)(0 \<mapsto> Some 1)\<rparr>)"
    if "triv_br s 0 = None" for s using br[OF loop_index(1) that, of 18] by (simp del: del)
  have c6: "check_branch_trivial 20 ?G l 6 s = Some (Some 1, s\<lparr>triv_bb := (triv_bb s)(1 \<mapsto> Some 1), triv_br := (triv_br s)(6 \<mapsto> Some 1)\<rparr>)"
    if "triv_br s 6 = None" for s using br[OF loop_index(7) that, of 18] by (simp del: del)
  have c4: "check_branch_trivial 20 ?G l 4 s = Some (None, s\<lparr>triv_br := (triv_br s)(4 \<mapsto> None)\<rparr>)" if "triv_br s 4 = None" for s
    using w[OF that, of 19] by (simp del: del)
  have e: "check_block_retargetable 20 ?G l 0 s = Some (Some 1, s\<lparr>triv_bb := (triv_bb s)(0 \<mapsto> Some 1)\<rparr>)"
    if "triv_br s 0 = Some (Some 1)" for s
  proof -
    have "check_branch_trivial 19 ?G l 0 s = Some (Some 1, s)" using that by (simp add: numeral_eq_Suc)
    then have "check_block_retargetable (Suc 19) ?G l 0 s = Some (Some 1, s\<lparr>triv_bb := (triv_bb s)(0 \<mapsto> Some 1)\<rparr>)"
      unfolding check_block_retargetable.simps(2) using b0 phi(2) by (simp add: Let_def del: check_branch_trivial.simps any_phi.simps)
    then show ?thesis by (simp del: del)
  qed
  have steps: "gather_block 20 ?G l 0 ([], \<lparr>triv_bb = Map.empty, triv_br = Map.empty\<rparr>) =
      Some ([], \<lparr>triv_bb = [1 \<mapsto> Some 1], triv_br = [0 \<mapsto> Some 1]\<rparr>)"
    "gather_block 20 ?G l 1 ([], \<lparr>triv_bb = [1 \<mapsto> Some 1], triv_br = [0 \<mapsto> Some 1]\<rparr>) =
      Some ([1, 2, 3], \<lparr>triv_bb = [1 \<mapsto> Some 1], triv_br = [0 \<mapsto> Some 1, 4 \<mapsto> None]\<rparr>)"
    "gather_block 20 ?G l 2 ([1, 2, 3], \<lparr>triv_bb = [1 \<mapsto> Some 1], triv_br = [0 \<mapsto> Some 1, 4 \<mapsto> None]\<rparr>) =
      Some ([1, 2, 3, 5], \<lparr>triv_bb = [1 \<mapsto> Some 1], triv_br = [0 \<mapsto> Some 1, 4 \<mapsto> None, 6 \<mapsto> Some 1]\<rparr>)"
    using b0 b1 b2 by (simp_all add: gather_block_def c0 c4 c6 del: del)
  show ?thesis using steps bs by (simp add: gather_def e del: del)
qed

lemma loop_entries:
  "entries sorted_list_of_set [0 \<mapsto> Some 1, 4 \<mapsto> None, 6 \<mapsto> Some 1] = [(0, 1), (6, 1 :: nat)]"
  "entries sorted_list_of_set [1 \<mapsto> Some 1, 0 \<mapsto> Some 1] = [(0, 1), (1, 1 :: nat)]"
proof -
  have d: "dom [0 \<mapsto> Some 1, 4 \<mapsto> None, 6 \<mapsto> Some (1::nat)] = {0, 4, 6 :: nat}"
    "dom [1 \<mapsto> Some 1, 0 \<mapsto> Some (1::nat)] = {0, 1 :: nat}" by auto
  show "entries sorted_list_of_set [0 \<mapsto> Some 1, 4 \<mapsto> None, 6 \<mapsto> Some 1] = [(0, 1), (6, 1 :: nat)]"
    "entries sorted_list_of_set [1 \<mapsto> Some 1, 0 \<mapsto> Some 1] = [(0, 1), (1, 1 :: nat)]"
    unfolding entries_def d by (simp_all add: List.map_filter_def)
qed

lemma loop_prune:
  assumes "dfg u = loop_graph"
  shows "foldM (prune_inst 20) [1, 2, 3, 5] (m, u) = Some (m, u)"
proof -
  have test: "(if has_result (dfg u) i then do { v \<leftarrow> inst_result (dfg u) i; b \<leftarrow> has_uses (dfg u) v; Some (\<not> b) } else Some False) =
      Some False" if "i \<in> {1, 2, 3, 5}" for i
    using that unfolding assms
    by (auto simp: has_result_def st_contains_def inst_result_def st_index_def has_uses_def uses_def loop_graph_def)
  have "prune_if_unused (Suc n) i u = Some (False, u)" if "i \<in> {1, 2, 3, 5}" for i n
    unfolding prune_if_unused.simps(2) test[OF that] by simp
  from this[of _ 19] have p: "prune_if_unused 20 i u = Some (False, u)" if "i \<in> {1, 2, 3, 5}" for i
    using that by (simp del: prune_if_unused.simps)
  show ?thesis by (simp add: prune_inst_def p del: prune_if_unused.simps)
qed

text \<open>The branches before and after the entry block has given way to the loop.\<close>

lemma loop_terms:
  "term_targets (\<lambda>_. False) loop_graph [1, 2, 3, 4] = {2}" "term_targets (\<lambda>_. False) loop_graph [0] = {1}"
  "term_targets (\<lambda>_. False) loop_graph [5, 6] = {1}"
  using loop_index(1,5,7) by (simp_all add: term_targets_def last_opt_def opcode_of_def inst_blocks_def del: One_nat_def)

lemma loop_branches:
  "branches (\<lambda>_. False) loop_graph [(1, [1, 2, 3, 4]), (0, [0]), (2, [5, 6])] a b \<longleftrightarrow> (a = 0 \<and> b = 1) \<or> (a = 1 \<and> b = 2) \<or> (a = 2 \<and> b = 1)"
proof -
  have "branches (\<lambda>_. False) loop_graph [(1, [1, 2, 3, 4]), (0, [0]), (2, [5, 6])] a b \<longleftrightarrow>
    (a = 1 \<and> b \<in> term_targets (\<lambda>_. False) loop_graph [1, 2, 3, 4]) \<or> (a = 0 \<and> b \<in> term_targets (\<lambda>_. False) loop_graph [0]) \<or>
    (a = 2 \<and> b \<in> term_targets (\<lambda>_. False) loop_graph [5, 6])"
    unfolding branches_def by (simp del: One_nat_def) blast
  then show ?thesis unfolding loop_terms by blast
qed

lemma loop_reached: "reached loop_graph [(1, [1, 2, 3, 4]), (0, [0]), (2, [5, 6])] 1 = {1, 2}"
proof
  let ?E = "branches (\<lambda>_. False) loop_graph [(1, [1, 2, 3, 4]), (0, [0]), (2, [5, 6])]"
  show "reached loop_graph [(1, [1, 2, 3, 4]), (0, [0]), (2, [5, 6])] 1 \<subseteq> {1, 2}"
  proof
    fix b assume "b \<in> reached loop_graph [(1, [1, 2, 3, 4]), (0, [0]), (2, [5, 6])] 1"
    then have "?E\<^sup>*\<^sup>* 1 b" by (simp add: reached_def)
    then show "b \<in> {1, 2}"
    proof (induction rule: rtranclp_induct)
      case (step y z)
      then show ?case unfolding loop_branches by blast
    qed simp
  qed
  have "?E 1 2" unfolding loop_branches by blast
  then show "{1, 2} \<subseteq> reached loop_graph [(1, [1, 2, 3, 4]), (0, [0]), (2, [5, 6])] 1" unfolding reached_def by blast
qed

lemma loop_pruned:
  assumes "loose_rep u [(1, [1, 2, 3, 4]), (0, [0]), (2, [5, 6])]" "dfg u = loop_graph" "lists_sets ord"
  shows "\<exists>u'. prune_blocks ord u = Some (True, u') \<and> loose_rep u' [(1, [1, 2, 3, 4]), (2, [5, 6])] \<and> same_shape {0} loop_graph (dfg u')"
proof -
  let ?xs = "[(1, [1, 2, 3, 4]), (0, [0]), (2, [5, 6])] :: layout_list"
  have k: "keys ?xs = {0, 1, 2}" by (auto simp: keys_def)
  have d: "{0, 1, 2} - {1, 2} = {0 :: nat}" by auto
  have inside: "\<forall>a b. branches (\<lambda>_. False) (dfg u) ?xs a b \<longrightarrow> b \<in> keys ?xs" unfolding assms(2) loop_branches k by blast
  have "\<exists>u'. prune_blocks ord u = Some (\<not> keys ?xs \<subseteq> reached (dfg u) ?xs 1, u') \<and>
      loose_rep u' (filter (\<lambda>p. fst p \<in> reached (dfg u) ?xs 1) ?xs) \<and>
      same_shape (keys ?xs - reached (dfg u) ?xs 1) (dfg u) (dfg u')"
    by (rule prune_blocks_effect[OF assms(1,3) _ inside]) simp
  then show ?thesis unfolding assms(2) loop_reached k d by simp
qed

lemma loop_merged:
  assumes rep: "loose_rep u [(1, [1, 2, 3, 4]), (2, [5, 6])]" and sh: "same_shape {0} loop_graph (dfg u)" and ord: "lists_sets ord"
  shows "merge_candidates ord 0 u = Some [(1, 2)]"
    and "\<exists>u'. merge_block ord (1, 2) u = Some u' \<and> loose_rep u' [(2, [5, 1, 2, 3, 4])]"
proof -
  let ?xs = "[(1, [1, 2, 3, 4]), (2, [5, 6])] :: layout_list" and ?g = "dfg u"
  note r = loose_repD[OF rep]
  have live: "{1, 2, 3, 4, 5, 6} \<subseteq> live ?g" using r(4) by (simp add: members_def)
  have shape: "\<exists>d'. inst_at ?g i = Some d' \<and> opcode_of d' = opcode_of d \<and> (0 \<notin> set (inst_blocks d) \<longrightarrow> inst_blocks d' = inst_blocks d)"
    if i: "i \<in> {1, 2, 3, 4, 5, 6}" and at: "inst_at loop_graph i = Some d" for i d
  proof -
    obtain d' where d': "inst_at ?g i = Some d'" using live i by (auto simp: live_def)
    then show ?thesis using sh at unfolding same_shape_def by fastforce
  qed
  have at: "inst_at loop_graph 4 = Some (IWait OpWait 2 [])" "inst_at loop_graph 6 = Some (IJump OpBr 1)" by (simp_all add: loop_at)
  obtain w where w: "inst_at ?g 4 = Some w" "opcode_of w = OpWait"
    using shape[OF _ at(1)] by (auto simp: opcode_of_def)
  obtain j where j: "inst_at ?g 6 = Some j" "opcode_of j = OpBr" "inst_blocks j = [1]"
    using shape[OF _ at(2)] by (auto simp: opcode_of_def inst_blocks_def)
  have terms: "term_targets op_is_temporal ?g [1, 2, 3, 4] = {}" "term_targets op_is_temporal ?g [5, 6] = {1}"
    using inst_at_index[OF r(1) w(1)] w(2) inst_at_index[OF r(1) j(1)] j(2,3)
    by (simp_all add: term_targets_def last_opt_def op_is_temporal_def)
  have br: "branches op_is_temporal ?g ?xs a b \<longleftrightarrow> a = 2 \<and> b = 1" for a b
  proof -
    have "branches op_is_temporal ?g ?xs a b \<longleftrightarrow> (a = 1 \<and> b \<in> term_targets op_is_temporal ?g [1, 2, 3, 4]) \<or>
        (a = 2 \<and> b \<in> term_targets op_is_temporal ?g [5, 6])"
      unfolding branches_def by (simp del: One_nat_def) blast
    then show ?thesis unfolding terms by blast
  qed
  have k: "keys ?xs = {1, 2}" by (auto simp: keys_def)
  have t: "temporal_predtbl ?g (layout u) = Some \<lparr>pred_sets = (\<lambda>b. if b \<in> {1, 2} then Some {a. a = 2 \<and> b = 1} else None),
      succ_sets = (\<lambda>a. if a \<in> {1, 2} then Some {b. a = 2 \<and> b = 1} else None)\<rparr>"
    using pred_table_built[OF r(3) members_index[OF rep], of op_is_temporal] unfolding temporal_predtbl_def br k by simp
  have o: "ord {a. a = 2 \<and> b = 1} = (if b = 1 then [2] else [])" for b :: nat
  proof -
    have o: "set (ord S) = S" "distinct (ord S)" if "finite S" for S using ord that unfolding lists_sets_def by blast+
    have "ord {} = []" using o(1)[of "{}"] by simp
    moreover have "length (ord {2}) = 1" using distinct_card[OF o(2)[of "{2}"]] o(1)[of "{2}"] by simp
    then have "ord {2} = [2]" using o(1)[of "{2}"] by (auto simp: length_Suc_conv)
    ultimately have "ord {2} = [2]" "ord {} = []" by blast+
    then show ?thesis by simp
  qed
  have bs: "blocks (layout u) = Some [1, 2]" using fl_rep_all_insts(1)[OF r(3)] by simp
  show "merge_candidates ord 0 u = Some [(1, 2)]"
    using t bs o[of 1] o[of 2] by (simp add: merge_candidates_def merge_candidate_def pred_set_def is_sole_succ_def succ_set_def)
  have np: "\<forall>i \<in> set [1, 2, 3, 4]. \<forall>d. inst_at ?g i = Some d \<longrightarrow> opcode_of d \<noteq> OpPhi"
    using shape[of 1] shape[of 2] shape[of 3] shape[of 4] by (fastforce simp: loop_at opcode_of_def)
  show "\<exists>u'. merge_block ord (1, 2) u = Some u' \<and> loose_rep u' [(2, [5, 1, 2, 3, 4])]"
    using merge_block_effect[OF rep ord, of 1 "[1, 2, 3, 4]" 2 "[5]" 6] np by auto
qed


section \<open>The properties\<close>

lemma loop_swapped:
  assumes "unit_rep u loop_blocks" "dfg u = loop_graph" "lists_sets ord"
  shows "\<exists>u1. replace_trivial ord 0 (0, 1) (False, u) = Some (True, u1) \<and> dfg u1 = loop_graph \<and>
    loose_rep u1 [(1, [1, 2, 3, 4]), (0, [0]), (2, [5, 6])]"
proof -
  have r: "loose_rep u loop_blocks" using loose_of_unit[OF assms(1)] loop_wf(3) assms(2) by simp
  note rd = loose_repD[OF r]
  obtain fl where fl: "swap_blocks 0 1 (layout u) = Some fl"
    "fl_rep fl (map (\<lambda>p. let k = swap_key 0 1 (fst p) in (k, the (map_of loop_blocks k))) loop_blocks)"
    using fl_rep_swap_blocks[OF rd(3), of 0 1] by (auto simp: keys_def)
  have xs: "map (\<lambda>p. let k = swap_key 0 1 (fst p) in (k, the (map_of loop_blocks k))) loop_blocks =
      [(1, [1, 2, 3, 4]), (0, [0]), (2, [5, 6])]" by (simp add: swap_key_def Let_def)
  have "ord {} = []" using assms(3) unfolding lists_sets_def by (metis finite.emptyI set_empty)
  then have none: "replace_block_use ord 0 1 loop_graph = Some (0, loop_graph)"
    by (simp add: replace_block_use_def elems_def loop_graph_def)
  have k: "keys [(1, [1, 2, 3, 4]), (0, [0]), (2, [5, 6])] = keys loop_blocks"
    "members [(1, [1, 2, 3, 4]), (0, [0]), (2, [5, 6])] = members loop_blocks" by (auto simp: keys_def members_def)
  have "loose_rep (u\<lparr>layout := fl\<rparr>) [(1, [1, 2, 3, 4]), (0, [0]), (2, [5, 6])]"
    unfolding loose_rep_def k using rd fl(2)[unfolded xs] by simp
  then show ?thesis using none fl(1) assms(2)
    by (intro exI[of _ "u\<lparr>layout := fl\<rparr>"]) (simp add: replace_trivial_def set_layout_def)
qed

text \<open>
  C18: the checks of dead code elimination end on every unit whose blocks are not empty and whose
  branches name blocks of the unit, even where blocks branch to each other in a circle, and every
  target they record is right: control that enters the block, or takes the branch, gets to the target
  whatever the conditions are, executes nothing but branches on the way, and the target has no
  phi node that would miss its predecessor.
\<close>
theorem trivial_branches_correct:
  assumes "fl_rep l xs" "checkable g xs" "2 * card (members xs) + 2 \<le> n" "entry \<in> keys xs"
  shows "\<exists>is s. gather n g l entry = Some (is, s) \<and>
    (\<forall>b t. triv_bb s b = Some (Some t) \<longrightarrow> forwards g xs b t \<and> phi_free g xs t) \<and>
    (\<forall>i t. triv_br s i = Some (Some t) \<longrightarrow> phi_free g xs t \<and> (\<exists>d. pt2_index (dinsts g) i = Some d \<and>
       opcode_of d \<in> {OpBr, OpBrCond} \<and> (\<forall>c \<in> branch_exits g d. forwards g xs c t)))"
proof -
  obtain "is" s where s: "gather n g l entry = Some (is, s)" using gather_returns[OF assms] by blast
  note ok = gather_sound[OF assms(1) s, unfolded triv_sound_def]
  have bb: "forwards g xs b t \<and> phi_free g xs t" if "triv_bb s b = Some (Some t)" for b t
    using conjunct1[OF ok, rule_format, OF that] by (simp add: leads_def)
  have br: "phi_free g xs t \<and> (\<exists>d. pt2_index (dinsts g) i = Some d \<and>
       opcode_of d \<in> {OpBr, OpBrCond} \<and> (\<forall>c \<in> branch_exits g d. forwards g xs c t))" if "triv_br s i = Some (Some t)" for i t
    using conjunct2[OF ok, rule_format, OF that] unfolding branch_leads_def by simp
  show ?thesis using s bb br by (intro exI[of _ "is"] exI[of _ s] conjI) simp_all
qed

lemma loop_checkable: "checkable loop_graph loop_blocks"
proof -
  have i: "pt2_index (dinsts loop_graph) i \<noteq> None" if "i \<in> {0, 1, 2, 3, 4, 5, 6}" for i
    using that loop_index by (auto simp del: One_nat_def)
  have k: "keys loop_blocks = {0, 1, 2}" by (auto simp: keys_def)
  have d: "opcode_of (IJump OpBr 1) = OpBr" "opcode_of (IWait OpWait 2 []) = OpWait" "inst_blocks (IJump OpBr 1) = [1]"
    by (simp_all add: opcode_of_def inst_blocks_def)
  have b: "is \<noteq> [] \<and> set is \<subseteq> {0, 1, 2, 3, 4, 5, 6} \<and> (pt2_index (dinsts loop_graph) (last is) = Some (IJump OpBr 1) \<or>
      pt2_index (dinsts loop_graph) (last is) = Some (IWait OpWait 2 []))" if "(b, is) \<in> set loop_blocks" for b "is"
    using that loop_index(1,5,7) by (auto simp del: One_nat_def)
  have ok: "(opcode_of d \<in> {OpBr, OpBrCond} \<longrightarrow> set (inst_blocks d) \<subseteq> {0, 1, 2} \<and> inst_blocks d \<noteq> []) \<and> opcode_of d \<noteq> OpBrCond"
    if "d = IJump OpBr 1 \<or> d = IWait OpWait 2 []" for d
    using that by (elim disjE) (simp_all add: d[simplified])
  show ?thesis unfolding checkable_def k
  proof (intro allI impI)
    fix b "is" assume mem: "(b, is) \<in> set loop_blocks"
    have D: "d = IJump OpBr 1 \<or> d = IWait OpWait 2 []" if "pt2_index (dinsts loop_graph) (last is) = Some d" for d
      using b[OF mem] that by (metis option.inject)
    show "is \<noteq> [] \<and> (\<forall>i\<in>set is. pt2_index (dinsts loop_graph) i \<noteq> None) \<and>
        (\<forall>d. pt2_index (dinsts loop_graph) (last is) = Some d \<longrightarrow>
          (opcode_of d \<in> {OpBr, OpBrCond} \<longrightarrow> set (inst_blocks d) \<subseteq> {0, 1, 2} \<and> inst_blocks d \<noteq> []) \<and>
          (opcode_of d = OpBrCond \<longrightarrow> length (inst_blocks d) = 2 \<and> (\<exists>a as. args d = a # as \<and> get_const_int loop_graph a \<noteq> None)))"
    proof (intro conjI allI impI)
      show "is \<noteq> []" "\<forall>i\<in>set is. pt2_index (dinsts loop_graph) i \<noteq> None" using b[OF mem] i by blast+
    qed ((drule D[THEN ok], blast)+)
  qed
qed

theorem trivial_branches_correct_witness:
  "\<exists>l. (\<exists>is s. gather 20 loop_graph l 0 = Some (is, s) \<and>
    (\<forall>b t. triv_bb s b = Some (Some t) \<longrightarrow> forwards loop_graph loop_blocks b t \<and> phi_free loop_graph loop_blocks t) \<and>
    (\<forall>i t. triv_br s i = Some (Some t) \<longrightarrow> phi_free loop_graph loop_blocks t \<and> (\<exists>d. pt2_index (dinsts loop_graph) i = Some d \<and>
       opcode_of d \<in> {OpBr, OpBrCond} \<and> (\<forall>c \<in> branch_exits loop_graph d. forwards loop_graph loop_blocks c t)))) \<and>
    (\<exists>is s. gather 20 loop_graph l 0 = Some (is, s) \<and> triv_br s 6 = Some (Some 1) \<and> triv_br s 4 = Some None)"
proof -
  obtain u where "unit_rep u loop_blocks" "dfg u = loop_graph" using loop_unit by blast
  then have l: "fl_rep (layout u) loop_blocks" using loose_repD(3) loose_of_unit loop_wf(3) by metis
  have m: "members loop_blocks = {0, 1, 2, 3, 4, 5, 6}" by (auto simp: members_def)
  have n: "2 * card (members loop_blocks) + 2 \<le> (20::nat)" "(0::nat) \<in> keys loop_blocks" unfolding m by (simp_all add: keys_def)
  show ?thesis
  proof (intro exI[of _ "layout u"] conjI)
    show "\<exists>is s. gather 20 loop_graph (layout u) 0 = Some (is, s) \<and> triv_br s 6 = Some (Some 1) \<and> triv_br s 4 = Some None"
      unfolding loop_gather[OF l] by simp
  qed (rule trivial_branches_correct[OF l loop_checkable n])
qed

text \<open>
  C19: the search for unreachable blocks ends, and deletes exactly the blocks that no path of
  branches leads to from the first block: the blocks that are left keep their order and their
  instructions, every instruction keeps its opcode, and an instruction that names none of
  the deleted blocks keeps its targets. It reports a change exactly when it has deleted a block.
\<close>
theorem prune_unreachable_correct:
  assumes "loose_rep u ((r, is) # xs)" "lists_sets ord" "\<forall>p \<in> set ((r, is) # xs). snd p \<noteq> []"
    "\<forall>a b. branches (\<lambda>_. False) (dfg u) ((r, is) # xs) a b \<longrightarrow> b \<in> keys ((r, is) # xs)"
  shows "\<exists>u'. prune_blocks ord u = Some (\<not> keys ((r, is) # xs) \<subseteq> reached (dfg u) ((r, is) # xs) r, u') \<and>
    loose_rep u' (filter (\<lambda>p. fst p \<in> reached (dfg u) ((r, is) # xs) r) ((r, is) # xs)) \<and>
    same_shape (keys ((r, is) # xs) - reached (dfg u) ((r, is) # xs) r) (dfg u) (dfg u')"
  by (rule prune_blocks_effect[OF assms])

theorem prune_unreachable_correct_witness:
  "\<exists>u u'. dfg u = loop_graph \<and> loose_rep u [(1, [1, 2, 3, 4]), (0, [0]), (2, [5, 6])] \<and>
    prune_blocks sorted_list_of_set u = Some (True, u') \<and> loose_rep u' [(1, [1, 2, 3, 4]), (2, [5, 6])]"
proof -
  let ?xs = "[(1, [1, 2, 3, 4]), (0, [0]), (2, [5, 6])] :: layout_list"
  obtain u0 where "unit_rep u0 loop_blocks" "dfg u0 = loop_graph" using loop_unit by blast
  then obtain u where u: "dfg u = loop_graph" "loose_rep u ?xs" using loop_swapped lists_sets_sorted by blast
  have k: "keys ?xs = {0, 1, 2}" by (auto simp: keys_def)
  have n: "\<not> {0, 1, 2} \<subseteq> {1, 2 :: nat}" by auto
  have inside: "\<forall>a b. branches (\<lambda>_. False) (dfg u) ?xs a b \<longrightarrow> b \<in> keys ?xs" unfolding u(1) loop_branches k by blast
  have "\<exists>u'. prune_blocks sorted_list_of_set u = Some (\<not> keys ?xs \<subseteq> reached (dfg u) ?xs 1, u') \<and>
      loose_rep u' (filter (\<lambda>p. fst p \<in> reached (dfg u) ?xs 1) ?xs) \<and> same_shape (keys ?xs - reached (dfg u) ?xs 1) (dfg u) (dfg u')"
    by (rule prune_unreachable_correct[OF u(2) lists_sets_sorted _ inside]) simp
  then obtain u' where "prune_blocks sorted_list_of_set u = Some (True, u')" "loose_rep u' [(1, [1, 2, 3, 4]), (2, [5, 6])]"
    using n unfolding u(1) loop_reached k by auto
  then show ?thesis using u by blast
qed

text \<open>
  C20: merging a block without phi nodes into another appends its instructions, in their
  order, in the place of the other block's terminator, deletes the block, and redirects
  every branch to it to the block it was merged into; nothing else of the layout changes. The data flow
  graph loses no instruction: the terminator that was replaced is in no block any more, but stays in
  the graph, where it counts as a user of its condition.
\<close>
theorem merge_blocks_correct:
  assumes "loose_rep u xs" "lists_sets ord" "(b, is) \<in> set xs" "(c, js @ [t]) \<in> set xs" "b \<noteq> c"
    "\<forall>i \<in> set is. \<forall>d. inst_at (dfg u) i = Some d \<longrightarrow> opcode_of d \<noteq> OpPhi"
  shows "\<exists>u'. merge_block ord (b, c) u = Some u' \<and>
    loose_rep u' (map (\<lambda>p. if fst p = c then (c, js @ is) else p) (filter (\<lambda>p. fst p \<noteq> b) xs)) \<and>
    live (dfg u') = live (dfg u) \<and> (\<forall>j d'. inst_at (dfg u') j = Some d' \<longrightarrow>
      (\<exists>d. inst_at (dfg u) j = Some d \<and> opcode_of d' = opcode_of d \<and> inst_blocks d' = map (subst b c) (inst_blocks d)))"
  by (rule merge_block_effect[OF assms])

theorem merge_blocks_correct_witness:
  "\<exists>u u'. dfg u = loop_graph \<and> merge_block sorted_list_of_set (1, 2) u = Some u' \<and>
    loose_rep u' [(0, [0]), (2, [5, 1, 2, 3, 4])] \<and> live (dfg u') = {0, 1, 2, 3, 4, 5, 6}"
proof -
  obtain u where u: "unit_rep u loop_blocks" "dfg u = loop_graph" using loop_unit by blast
  have rep: "loose_rep u loop_blocks" using loose_of_unit[OF u(1)] loop_wf(3) u(2) by simp
  have live: "live loop_graph = {0, 1, 2, 3, 4, 5, 6}" by (auto simp: live_def loop_at)
  have np: "\<forall>i \<in> set [1, 2, 3, 4]. \<forall>d. inst_at (dfg u) i = Some d \<longrightarrow> opcode_of d \<noteq> OpPhi"
    unfolding u(2) loop_at by (auto simp: opcode_of_def)
  have "\<exists>u'. merge_block sorted_list_of_set (1, 2) u = Some u' \<and>
      loose_rep u' (map (\<lambda>p. if fst p = 2 then (2, [5] @ [1, 2, 3, 4]) else p) (filter (\<lambda>p. fst p \<noteq> 1) loop_blocks)) \<and>
      live (dfg u') = live (dfg u) \<and> (\<forall>j d'. inst_at (dfg u') j = Some d' \<longrightarrow>
        (\<exists>d. inst_at (dfg u) j = Some d \<and> opcode_of d' = opcode_of d \<and> inst_blocks d' = map (subst 1 2) (inst_blocks d)))"
    by (rule merge_blocks_correct[OF rep lists_sets_sorted, of 1 "[1, 2, 3, 4]" 2 "[5]" 6]) (use np in auto)
  then show ?thesis using u(2) live by auto
qed

text \<open>
  C36: dead code elimination moves the drive of a process before the instructions that compute the
  driven value. An entry block that only branches to a loop is swapped with the loop header, but
  the pass keeps the number of the old entry block: when it merges blocks, it excludes a block that
  it has just deleted, and the loop header, which is now the first block of the process, is appended to
  the block that the wait at its own end resumes. What is left is one block that drives
  before the constants have been computed, and waits for itself.
\<close>
theorem dce_moves_entry:
  "\<exists>u u'. unit_rep u [(0, [0]), (1, [1, 2, 3, 4]), (2, [5, 6])] \<and> dfg u = loop_graph \<and>
    dce_run_on_cfg 20 sorted_list_of_set u = Some (True, u') \<and>
    blocks (layout u') = Some [2] \<and> block_insts (layout u') 2 = Some [5, 1, 2, 3, 4]"
proof -
  note ord = lists_sets_sorted
  obtain u where u: "unit_rep u loop_blocks" "dfg u = loop_graph" using loop_unit by blast
  note rep = loose_repD(3)[OF loose_of_unit[OF u(1)]]
  obtain u1 where u1: "replace_trivial sorted_list_of_set 0 (0, 1) (False, u) = Some (True, u1)" "dfg u1 = loop_graph"
    "loose_rep u1 [(1, [1, 2, 3, 4]), (0, [0]), (2, [5, 6])]" using loop_swapped[OF u ord] by blast
  obtain u2 where u2: "prune_blocks sorted_list_of_set u1 = Some (True, u2)" "loose_rep u2 [(1, [1, 2, 3, 4]), (2, [5, 6])]"
    "same_shape {0} loop_graph (dfg u2)" using loop_pruned[OF u1(3,2) ord] by blast
  note cands = loop_merged(1)[OF u2(2,3) ord]
  obtain u3 where u3: "merge_block sorted_list_of_set (1, 2) u2 = Some u3" "loose_rep u3 [(2, [5, 1, 2, 3, 4])]"
    using loop_merged(2)[OF u2(2,3) ord] by blast
  have l: "fl_rep (layout u) loop_blocks" using rep u(2) loop_wf(3) by simp
  have e: "entry_block (layout u) = Some 0" using rep_entry[OF l] by (simp add: hd_opt_def)
  have s: "foldM simplify_branch [(0, 1), (6, 1)] (False, u) = Some (False, u)"
    using loop_index(1,7) u(2) by (simp add: simplify_branch_def opcode_of_def inst_blocks_def del: One_nat_def)
  have r: "foldM (replace_trivial sorted_list_of_set 0) (filter (\<lambda>(f, t). f \<noteq> t) [(0, 1), (1, 1)]) (False, u) = Some (True, u1)"
    using u1(1) by simp
  have m: "foldM (merge_block sorted_list_of_set) [(1, 2)] u2 = Some u3" using u3(1) by simp
  have "dce_run_on_cfg 20 sorted_list_of_set u = Some (True, u3)"
    unfolding dce_run_on_cfg_def u(2)
    by (simp only: e loop_gather[OF l] s r loop_prune[OF u1(2)] u2(1) cands m loop_entries bind.bind_lunit
        prod.case triv.simps simp_thms)
  moreover have "blocks (layout u3) = Some [2]" using fl_rep_all_insts(1)[OF loose_repD(3)[OF u3(2)]] by simp
  moreover have "block_insts (layout u3) 2 = Some [5, 1, 2, 3, 4]" using fl_rep_insts[OF loose_repD(3)[OF u3(2)]] by simp
  ultimately show ?thesis using u by blast
qed

end
