(* ===== verification/ProcLower.thy ===== *)
theory ProcLower
  imports BuilderProps DomTreeProps
begin

text \<open>
  Process lowering (\<^verbatim>\<open>src/src/pass/proclower.rs\<close>): when a process is lowered to an entity, and
  what the lowering does to it.
\<close>

section \<open>The pass\<close>

text \<open>A loop that returns false at the first element that fails the test.\<close>

fun all_pass :: "('a \<Rightarrow> bool option) \<Rightarrow> 'a list \<Rightarrow> bool option" where
  "all_pass test [] = Some True"
| "all_pass test (x # xs) = do { ok \<leftarrow> test x; if ok then all_pass test xs else Some False }"

text \<open>The loop over the instructions: all but the terminator are allowed in an entity.\<close>

definition entity_inst :: "unit_builder \<Rightarrow> nat \<Rightarrow> nat \<Rightarrow> bool option" where
  "entity_inst u t i =
     (if i = t then Some True
      else do { d \<leftarrow> pt2_index (dinsts (dfg u)) i; Some (valid_in_entity (opcode_of d)) })"

text \<open>The loop over the inputs: those that are used are in the sensitivity list.\<close>

definition sensitive_input :: "unit_builder \<Rightarrow> inst_data \<Rightarrow> nat \<Rightarrow> bool option" where
  "sensitive_input u td arg =
     do { v \<leftarrow> arg_value (dfg u) arg;
          is_used \<leftarrow> has_uses (dfg u) v;
          Some (\<not> is_used \<or> v \<in> set (args td)) }"

definition is_suitable :: "unit_builder \<Rightarrow> bool option" where
  "is_suitable u =
     do { bs \<leftarrow> blocks (layout u);
          if length bs \<noteq> 1 then Some False
          else do {
            bb \<leftarrow> entry_block (layout u);
            t \<leftarrow> block_terminator (layout u) bb;
            td \<leftarrow> pt2_index (dinsts (dfg u)) t;
            if opcode_of td \<notin> {OpWait, OpWaitTime, OpHalt} then Some False
            else do {
              is \<leftarrow> block_insts (layout u) bb;
              ok \<leftarrow> all_pass (entity_inst u t) is;
              if \<not> ok then Some False
              else if opcode_of td \<in> {OpWait, OpWaitTime} then all_pass (sensitive_input u td) (inp (usig u))
              else Some True } } }"

definition proclower_run_on_cfg :: "unit_builder \<Rightarrow> (bool \<times> unit_builder) option" where
  "proclower_run_on_cfg u =
     (if ukind u \<noteq> ProcessUnit then Some (False, u)
      else do {
        ok \<leftarrow> is_suitable u;
        if \<not> ok then Some (False, u)
        else do {
          let u = u\<lparr>ukind := EntityUnit\<rparr>;
          bb \<leftarrow> entry_block (layout u);
          t \<leftarrow> block_terminator (layout u) bb;
          u \<leftarrow> delete_inst t u;
          u \<leftarrow> insert_at_end u;
          (_, u) \<leftarrow> ib_halt None u;
          Some (True, u) } })"

section \<open>When a process is lowered\<close>

text \<open>
  The specification: the single block ends in a wait or a halt, its other instructions are
  allowed in an entity, and a wait names every input that some instruction reads.
\<close>

definition lowerable :: "unit_builder \<Rightarrow> layout_list \<Rightarrow> bool" where
  "lowerable u xs \<longleftrightarrow> (\<exists>bb is td. xs = [(bb, is)] \<and> inst_at (dfg u) (last is) = Some td \<and>
     opcode_of td \<in> {OpWait, OpWaitTime, OpHalt} \<and>
     (\<forall>i \<in> set is - {last is}. \<forall>d. inst_at (dfg u) i = Some d \<longrightarrow> valid_in_entity (opcode_of d)) \<and>
     (opcode_of td \<noteq> OpHalt \<longrightarrow> (\<forall>a \<in> set (inp (usig u)). \<forall>v. arg_value (dfg u) a = Some v \<longrightarrow>
        actual args (dfg u) v \<noteq> {} \<longrightarrow> v \<in> set (args td))))"

definition inputs_known :: "unit_builder \<Rightarrow> bool" where
  "inputs_known u \<longleftrightarrow> (\<forall>a \<in> set (inp (usig u)). \<exists>v. arg_value (dfg u) a = Some v \<and> value_at (dfg u) v \<noteq> None)"

lemma all_pass_decides:
  "(\<And>x. x \<in> set xs \<Longrightarrow> test x = Some (P x)) \<Longrightarrow> all_pass test xs = Some (\<forall>x \<in> set xs. P x)"
  by (induction xs) auto

lemma terminator_at:
  assumes "fl_rep l xs" "(b, is) \<in> set xs" "is \<noteq> []"
  shows "block_terminator l b = Some (last is)"
  using fl_rep_last[OF assms(1,2)] assms(3) by (simp add: block_terminator_def last_opt_def)

lemma live_index:
  assumes "unit_rep u xs" "(b, is) \<in> set xs" "i \<in> set is"
  obtains d where "inst_at (dfg u) i = Some d" "pt2_index (dinsts (dfg u)) i = Some d"
proof -
  have "i \<in> members xs" using assms(2,3) by (force simp: members_def)
  then obtain d where "inst_at (dfg u) i = Some d" using unit_repD(4)[OF assms(1)] by (auto simp: live_def)
  then show thesis using that inst_at_index[OF unit_repD(1)[OF assms(1)]] by blast
qed

lemma suitable_iff:
  assumes rep: "unit_rep u xs" and ne: "\<forall>(b, is) \<in> set xs. is \<noteq> []" and ins: "inputs_known u"
  shows "is_suitable u = Some (lowerable u xs)"
proof (cases "\<exists>bb is. xs = [(bb, is)]")
  case False
  then have "length xs \<noteq> 1" by (cases xs; cases "tl xs") auto
  then show ?thesis using fl_rep_all_insts(1)[OF unit_repD(3)[OF rep]] False by (auto simp: is_suitable_def lowerable_def)
next
  case True
  then obtain bb js where xs: "xs = [(bb, js)]" by blast
  note r = unit_repD[OF rep]
  have mem: "(bb, js) \<in> set xs" and js: "js \<noteq> []" using xs ne by auto
  obtain td where td: "inst_at (dfg u) (last js) = Some td" "pt2_index (dinsts (dfg u)) (last js) = Some td"
    by (rule live_index[OF rep mem]) (use js in auto)
  have l: "blocks (layout u) = Some [bb]" "entry_block (layout u) = Some bb" "block_terminator (layout u) bb = Some (last js)"
    "block_insts (layout u) bb = Some js"
    using fl_rep_all_insts(1)[OF r(3)] rep_entry[OF r(3)] terminator_at[OF r(3) mem js] fl_rep_insts[OF r(3) mem] xs
    by (simp_all add: hd_opt_def)
  have e: "all_pass (entity_inst u (last js)) js =
      Some (\<forall>i \<in> set js. i \<noteq> last js \<longrightarrow> (\<forall>d. inst_at (dfg u) i = Some d \<longrightarrow> valid_in_entity (opcode_of d)))"
  proof (rule all_pass_decides)
    fix i assume "i \<in> set js"
    then obtain d where "inst_at (dfg u) i = Some d" "pt2_index (dinsts (dfg u)) i = Some d" by (rule live_index[OF rep mem])
    then show "entity_inst u (last js) i =
        Some (i \<noteq> last js \<longrightarrow> (\<forall>d. inst_at (dfg u) i = Some d \<longrightarrow> valid_in_entity (opcode_of d)))"
      by (simp add: entity_inst_def)
  qed
  have s: "all_pass (sensitive_input u td) (inp (usig u)) =
      Some (\<forall>a \<in> set (inp (usig u)). \<forall>v. arg_value (dfg u) a = Some v \<longrightarrow> actual args (dfg u) v \<noteq> {} \<longrightarrow> v \<in> set (args td))"
  proof (rule all_pass_decides)
    fix a assume "a \<in> set (inp (usig u))"
    then obtain v where v: "arg_value (dfg u) a = Some v" "value_at (dfg u) v \<noteq> None" using ins by (auto simp: inputs_known_def)
    obtain us where us: "value_uses (dfg u) v = Some us" using dfg_wfD(4)[OF r(1) v(2)] by blast
    then have "us = actual args (dfg u) v" using r(2) by (auto simp: dfg_exact_def users_def split: option.splits)
    then show "sensitive_input u td a =
        Some (\<forall>v. arg_value (dfg u) a = Some v \<longrightarrow> actual args (dfg u) v \<noteq> {} \<longrightarrow> v \<in> set (args td))"
      using v us by (auto simp: sensitive_input_def has_uses_def uses_def)
  qed
  show ?thesis using l td e s xs by (auto simp: is_suitable_def lowerable_def)
qed

section \<open>What lowering does\<close>

lemma delete_void_room:
  assumes "delete_inst i u = Some u'" "dresults (dfg u) i = None" "room u"
  shows "room u'"
proof -
  obtain g where g: "remove_inst_dfg i (dfg u) = Some g" "dfg u' = g"
    using assms(1) by (auto simp: delete_inst_split bind_Some_iff)
  obtain d it where h: "pt2_remove inst_default i (dinsts (dfg u)) = Some (d, it)" "dinsts g = it" "dvalues g = dvalues (dfg u)"
    using g(1) assms(2) by (auto simp: remove_inst_dfg_def remove_uses_def has_result_def st_contains_def bind_Some_iff)
  have "free it \<noteq> {}" using h(1) by (auto simp: pt2_remove_def bind_Some_iff Let_def)
  then show ?thesis using assms(3) g(2) h(2,3) by (simp add: room_def pt2_room_def)
qed

lemma lowering_effect:
  assumes rep: "unit_rep u xs" and ro: "room u" and low: "lowerable u xs" and ne: "\<forall>(b, is) \<in> set xs. is \<noteq> []"
    and void: "\<forall>(b, is) \<in> set xs. dresults (dfg u) (last is) = None" and ins: "inputs_known u" and k: "ukind u = ProcessUnit"
  shows "\<exists>u' bb is h. proclower_run_on_cfg u = Some (True, u') \<and> ukind u' = EntityUnit \<and> usig u' = usig u \<and> xs = [(bb, is)] \<and>
    unit_rep u' [(bb, butlast is @ [h])] \<and> h \<notin> set (butlast is) \<and>
    inst_at (dfg u') = (inst_at (dfg u))(last is := None, h \<mapsto> INullary OpHalt) \<and> value_at (dfg u') = value_at (dfg u)"
proof -
  obtain bb js where xs: "xs = [(bb, js)]" using low by (auto simp: lowerable_def)
  have mem: "(bb, js) \<in> set xs" and js: "js \<noteq> []" and v: "dresults (dfg u) (last js) = None" using xs ne void by auto
  let ?u = "u\<lparr>ukind := EntityUnit\<rparr>"
  have rep1: "unit_rep ?u xs" using rep by (simp add: unit_rep_def)
  note r = unit_repD[OF rep1]
  have "last js \<in> members xs" using xs js by (simp add: members_def)
  then obtain u1 where u1: "delete_inst (last js) ?u = Some u1" "unit_rep u1 (everywhere (filter (\<lambda>x. x \<noteq> last js)) xs)"
    "inst_at (dfg u1) = (inst_at (dfg u))(last js := None)" "value_at (dfg u1) = value_at (dfg u)"
    using delete_inst_effect[OF rep1, of "last js"] v by auto
  have keep: "ukind u1 = EntityUnit" "usig u1 = usig u" using u1(1) by (auto simp: delete_inst_split bind_Some_iff)
  have dist: "distinct js" using fl_repD(3)[OF r(3) mem] inst_list.distinct by auto
  have xs1: "everywhere (filter (\<lambda>x. x \<noteq> last js)) xs = [(bb, butlast js)]"
  proof -
    have "js = butlast js @ [last js]" "last js \<notin> set (butlast js)"
      using dist append_butlast_last_id[OF js] by (metis, metis distinct_append distinct_butlast not_distinct_conv_prefix)
    then have "filter (\<lambda>x. x \<noteq> last js) js = butlast js"
      by (metis (mono_tags, lifting) append_Nil2 filter.simps filter_True filter_append)
    then show ?thesis by (simp add: xs everywhere_def)
  qed
  note rep2 = u1(2)[unfolded xs1]
  have ent: "entry_block (layout u1) = Some bb" using rep_entry[OF unit_repD(3)[OF rep2]] by (simp add: hd_opt_def)
  let ?u2 = "u1\<lparr>pos := PosAppend bb\<rparr>"
  have rep3: "unit_rep ?u2 [(bb, butlast js)]" using rep2 by (simp add: unit_rep_def)
  have "room u1" using delete_void_room[OF u1(1)] v ro by (simp add: room_def)
  then have "room ?u2" by (simp add: room_def)
  then obtain h u3 where h: "build_inst (INullary OpHalt) VoidType ?u2 = Some (h, u3)" "h \<notin> members [(bb, butlast js)]"
    "unit_rep u3 (insert_at (pos ?u2) h [(bb, butlast js)])" "inst_at (dfg u3) = (inst_at (dfg ?u2))(h \<mapsto> INullary OpHalt)"
    "\<not> has_res (INullary OpHalt) VoidType \<longrightarrow> value_at (dfg u3) = value_at (dfg ?u2)"
    using build_inst_effect[OF rep3, of "INullary OpHalt" VoidType] by (auto simp: pos_valid_def keys_def args_def)
  have keep2: "ukind u3 = EntityUnit" "usig u3 = usig u"
    using h(1) keep by (auto simp: build_inst_split bind_Some_iff)
  have run: "proclower_run_on_cfg u = Some (True, u3)"
    using k suitable_iff[OF rep ne ins] low rep_entry[OF r(3)] xs terminator_at[OF r(3) mem js] u1(1) ent h(1)
    by (simp add: proclower_run_on_cfg_def hd_opt_def insert_at_end_def ib_halt_def build_nullary_def ib_build_def)
  have "value_at (dfg u3) = value_at (dfg u)" using h(5) u1(4) by (simp add: has_res_def opcode_of_def)
  moreover have "unit_rep u3 [(bb, butlast js @ [h])]" using h(3) by (simp add: insert_at_def at_block_def)
  moreover have "h \<notin> set (butlast js)" using h(2) by (simp add: members_def)
  ultimately show ?thesis using run keep2 xs h(4) u1(3) by (intro exI[of _ u3] exI[of _ bb] exI[of _ js] exI[of _ h]) simp
qed

text \<open>
  C32: lowering processes to entities. The pass changes a unit exactly when it is a process
  whose only block ends in a wait or a halt, whose other instructions are allowed in an entity,
  and whose wait, if it is one, names every input that an instruction reads. It then returns an
  entity with the same signature and values, whose block has the same instructions in the same
  order but a halt in place of the terminator, and all of whose instructions are allowed in an
  entity.
\<close>

theorem process_lowering_correct:
  assumes "unit_rep u xs" "room u" "\<forall>(b, is) \<in> set xs. is \<noteq> [] \<and> dresults (dfg u) (last is) = None" "inputs_known u"
  shows "if ukind u = ProcessUnit \<and> lowerable u xs
    then \<exists>u' bb is h. proclower_run_on_cfg u = Some (True, u') \<and> ukind u' = EntityUnit \<and> usig u' = usig u \<and> xs = [(bb, is)] \<and>
      unit_rep u' [(bb, butlast is @ [h])] \<and> inst_at (dfg u') = (inst_at (dfg u))(last is := None, h \<mapsto> INullary OpHalt) \<and>
      value_at (dfg u') = value_at (dfg u) \<and> (\<forall>i d. inst_at (dfg u') i = Some d \<longrightarrow> valid_in_entity (opcode_of d))
    else proclower_run_on_cfg u = Some (False, u)"
proof (cases "ukind u = ProcessUnit \<and> lowerable u xs")
  case False
  have "\<forall>(b, is) \<in> set xs. is \<noteq> []" using assms(3) by blast
  then have "is_suitable u = Some (lowerable u xs)" by (rule suitable_iff[OF assms(1) _ assms(4)])
  then show ?thesis using False by (cases "ukind u = ProcessUnit") (simp_all add: proclower_run_on_cfg_def)
next
  case True
  obtain u' bb js h where u': "proclower_run_on_cfg u = Some (True, u')" "ukind u' = EntityUnit" "usig u' = usig u" "xs = [(bb, js)]"
    "unit_rep u' [(bb, butlast js @ [h])]" "inst_at (dfg u') = (inst_at (dfg u))(last js := None, h \<mapsto> INullary OpHalt)"
    "value_at (dfg u') = value_at (dfg u)"
    using lowering_effect[OF assms(1,2) _ _ _ assms(4)] True assms(3) by fastforce
  have "valid_in_entity (opcode_of d)" if d: "inst_at (dfg u') i = Some d" for i d
  proof (cases "i = h")
    case True
    then have "d = INullary OpHalt" using d u'(6) by simp
    then show ?thesis by (simp add: opcode_of_def valid_in_entity_def valid_in_def)
  next
    case False
    then have "inst_at (dfg u) i = Some d" "i \<noteq> last js" using d u'(6) by (auto split: if_splits)
    moreover from this have "i \<in> set js" using unit_repD(4)[OF assms(1)] u'(4) by (auto simp: live_def members_def)
    ultimately show ?thesis using True u'(4) by (auto simp: lowerable_def)
  qed
  then show ?thesis using True u' by auto
qed

section \<open>A process that is lowered\<close>

text \<open>A process that waits for its only input.\<close>

definition sense_graph :: data_flow_graph where
  "sense_graph = \<lparr>dinsts = \<lparr>storage = [IUnary OpPrb 0, IWait OpWait 0 [0]], count = 2, used = {0, 1}, free = {}\<rparr>,
     dresults = [0 \<mapsto> 1],
     dvalues = \<lparr>storage = [VArg (SignalType (IntType 1)) 0, VInst (IntType 1) 0], count = 2, used = {0, 1}, free = {}\<rparr>,
     dargs = [0 \<mapsto> 0], ext_units = pt2_new, names = Map.empty, anonymous_hints = Map.empty, location_hints = Map.empty,
     value_uses = [0 \<mapsto> {0, 1}, 1 \<mapsto> {}], block_uses = [0 \<mapsto> {1}]\<rparr>"

lemma sense_at:
  "inst_at sense_graph = [0 \<mapsto> IUnary OpPrb 0, 1 \<mapsto> IWait OpWait 0 [0]]"
  "value_at sense_graph = [0 \<mapsto> VArg (SignalType (IntType 1)) 0, 1 \<mapsto> VInst (IntType 1) 0]"
  by (auto simp: inst_at_def value_at_def sense_graph_def pt2_lookup_def fun_eq_iff numeral_eq_Suc)

lemma sense_uses:
  "actual args sense_graph k = (if k = 0 then {0, 1} else {})" "actual inst_blocks sense_graph k = (if k = 0 then {1} else {})"
  "users (value_uses sense_graph) k = (if k = 0 then {0, 1} else {})" "users (block_uses sense_graph) k = (if k = 0 then {1} else {})"
  unfolding actual_def sense_at by (auto simp: args_def inst_blocks_def users_def sense_graph_def split: if_splits)

lemma sense_wf: "dfg_wf sense_graph" "dfg_exact sense_graph"
proof -
  show "dfg_exact sense_graph" by (simp add: dfg_exact_def sense_uses)
  have "pt2_inv (dinsts sense_graph)" "pt2_inv (dvalues sense_graph)" by (auto simp: sense_graph_def pt2_inv_def)
  then show "dfg_wf sense_graph"
    unfolding dfg_wf_def sense_uses sense_at value_ok_def by (auto simp: sense_graph_def args_def)
qed

lemma sense_layout: "\<exists>l. fl_rep l [(0, [0, 1])]"
proof -
  obtain f0 where "fl_rep f0 [(0, [])]"
    using run_op_simulates[OF fl_rep_new, of "AppendBlock 0"] by (auto simp: abs_op_def keys_def)
  then obtain f1 where "fl_rep f1 [(0, [0])]"
    using run_op_simulates[of f0 "[(0, [])]" "AppendInst 0 0"]
    by (auto simp: abs_op_def keys_def members_def at_block_def)
  then show ?thesis
    using run_op_simulates[of f1 "[(0, [0])]" "AppendInst 1 0"]
    by (auto simp: abs_op_def keys_def members_def at_block_def)
qed

definition sense_unit :: "function_layout \<Rightarrow> unit_builder" where
  "sense_unit l = \<lparr>ukind = ProcessUnit, uname = AnonymousName 0, usig = sig_new\<lparr>inp := [0]\<rparr>, dfg = sense_graph,
     cfg = \<lparr>cblocks = \<lparr>storage = [None], count = 1, used = {0}, free = {}\<rparr>, block_hints = Map.empty\<rparr>,
     layout = l, pos = PosNone\<rparr>"

lemma process_lowering_correct_witness:
  "\<exists>l u' h. proclower_run_on_cfg (sense_unit l) = Some (True, u') \<and> ukind u' = EntityUnit \<and> unit_rep u' [(0, [0, h])] \<and>
     inst_at (dfg u') h = Some (INullary OpHalt)"
proof -
  obtain l where l: "fl_rep l [(0, [0, 1])]" using sense_layout by blast
  have "live sense_graph = {0, 1}" by (auto simp: live_def sense_at)
  then have rep: "unit_rep (sense_unit l) [(0, [0, 1])]"
    using l sense_wf by (auto simp: unit_rep_def sense_unit_def members_def keys_def pt2_inv_def)
  have ro: "room (sense_unit l)" by (simp add: room_def sense_unit_def sense_graph_def pt2_room_def)
  have ok: "inputs_known (sense_unit l)" "dresults (dfg (sense_unit l)) 1 = None" "ukind (sense_unit l) = ProcessUnit"
    using sense_at(2) by (simp_all add: inputs_known_def sense_unit_def) (simp_all add: sense_graph_def arg_value_def st_index_def)
  have low: "lowerable (sense_unit l) [(0, [0, 1])]"
    by (auto simp: lowerable_def sense_unit_def sense_at opcode_of_def valid_in_entity_def valid_in_def ALL_UNITS_def sense_uses args_def split: if_splits)
  have "\<forall>(b, is) \<in> set [(0, [0, 1])]. is \<noteq> [] \<and> dresults (dfg (sense_unit l)) (last is) = None" using ok(2) by simp
  note * = process_lowering_correct[OF rep ro this ok(1)]
  obtain u' bb js h where u': "proclower_run_on_cfg (sense_unit l) = Some (True, u')" "ukind u' = EntityUnit"
    "[(0, [0, 1])] = [(bb, js)]" "unit_rep u' [(bb, butlast js @ [h])]"
    "inst_at (dfg u') = (inst_at (dfg (sense_unit l)))(last js := None, h \<mapsto> INullary OpHalt)"
    using *[unfolded if_P[OF conjI[OF ok(3) low]]] by blast
  have "unit_rep u' [(0, [0, h])]" "inst_at (dfg u') h = Some (INullary OpHalt)" using u'(3-5) by auto
  then show ?thesis using u'(1,2) by blast
qed

end
