(* ===== verification/ModuleUnits.thy ===== *)
theory ModuleUnits
  imports Units
begin

text \<open>
  Modules (\<^verbatim>\<open>src/src/ir/module.rs\<close>): the tables of unit definitions and declarations, the symbols,
  and the linker that resolves the external units of every unit. A \<^verbatim>\<open>BTreeSet\<close> is a set that is
  listed in ascending order. A unit is the pair of its identifier and its data.
\<close>

section \<open>The module\<close>

record decl_data =
  decl_sig :: signature
  decl_name :: unit_name
  decl_loc :: "nat option"

datatype linked_unit = LinkDef nat | LinkDecl nat

definition link_is_def :: "linked_unit \<Rightarrow> bool" where
  "link_is_def l = (case l of LinkDef _ \<Rightarrow> True | LinkDecl _ \<Rightarrow> False)"

definition link_is_decl :: "linked_unit \<Rightarrow> bool" where
  "link_is_decl l = (case l of LinkDecl _ \<Rightarrow> True | LinkDef _ \<Rightarrow> False)"

record llhd_module =
  munits :: "unit_data primary_table"
  unit_order :: "nat set"
  mdecls :: "decl_data primary_table"
  decl_order :: "nat set"
  link_table :: "(nat \<times> nat \<rightharpoonup> linked_unit) option"
  module_hints :: "nat \<rightharpoonup> nat"

type_synonym symbol = "unit_name \<times> linked_unit \<times> signature"

definition module_new :: llhd_module where
  "module_new = \<lparr>munits = pt_new, unit_order = {}, mdecls = pt_new, decl_order = {}, link_table = None, module_hints = Map.empty\<rparr>"

definition add_unit :: "unit_data \<Rightarrow> llhd_module \<Rightarrow> nat \<times> llhd_module" where
  "add_unit data m =
     (let (u, t) = pt_add data (munits m);
          m = m\<lparr>munits := t\<rparr>;
          m = m\<lparr>unit_order := insert u (unit_order m)\<rparr>
      in (u, m\<lparr>link_table := None\<rparr>))"

definition remove_unit :: "nat \<Rightarrow> llhd_module \<Rightarrow> llhd_module option" where
  "remove_unit u m =
     do { t \<leftarrow> pt_remove u (munits m);
          Some (m\<lparr>munits := t, unit_order := unit_order m - {u}\<rparr>) }"

definition add_decl :: "decl_data \<Rightarrow> llhd_module \<Rightarrow> nat \<times> llhd_module" where
  "add_decl data m =
     (let (d, t) = pt_add data (mdecls m);
          m = m\<lparr>mdecls := t\<rparr>;
          m = m\<lparr>decl_order := insert d (decl_order m)\<rparr>
      in (d, m\<lparr>link_table := None\<rparr>))"

definition declare_unit :: "unit_name \<Rightarrow> signature \<Rightarrow> llhd_module \<Rightarrow> nat \<times> llhd_module" where
  "declare_unit name s m = add_decl \<lparr>decl_sig = s, decl_name = name, decl_loc = None\<rparr> m"

definition remove_decl :: "nat \<Rightarrow> llhd_module \<Rightarrow> llhd_module option" where
  "remove_decl d m =
     do { t \<leftarrow> pt_remove d (mdecls m);
          Some (m\<lparr>mdecls := t, decl_order := decl_order m - {d}\<rparr>) }"

definition module_unit :: "llhd_module \<Rightarrow> nat \<Rightarrow> unit_data option" where
  "module_unit m u = pt_index (munits m) u"

text \<open>
  A mutable reference to a unit or declaration, of which \<open>f\<close> is what the caller does with it: the
  links are dropped.
\<close>

definition unit_mut :: "nat \<Rightarrow> (unit_data \<Rightarrow> unit_data option) \<Rightarrow> llhd_module \<Rightarrow> llhd_module option" where
  "unit_mut u f m =
     do { d \<leftarrow> pt_index (munits m) u;
          d \<leftarrow> f d;
          Some (m\<lparr>munits := (munits m)\<lparr>pt_storage := (pt_storage (munits m))(u \<mapsto> d)\<rparr>, link_table := None\<rparr>) }"

definition decl_mut :: "nat \<Rightarrow> (decl_data \<Rightarrow> decl_data) \<Rightarrow> llhd_module \<Rightarrow> llhd_module option" where
  "decl_mut k f m =
     do { d \<leftarrow> pt_index (mdecls m) k;
          Some (m\<lparr>mdecls := (mdecls m)\<lparr>pt_storage := (pt_storage (mdecls m))(k \<mapsto> f d)\<rparr>, link_table := None\<rparr>) }"

definition module_units :: "llhd_module \<Rightarrow> (nat \<times> unit_data) list option" where
  "module_units m =
     mapM (\<lambda>u. map_option (Pair u) (module_unit m u)) (sorted_list_of_set (unit_order m))"

definition units_of_kind :: "unit_kind \<Rightarrow> llhd_module \<Rightarrow> (nat \<times> unit_data) list option" where
  "units_of_kind k m = map_option (filter (\<lambda>p. ukind (snd p) = k)) (module_units m)"

definition module_decls :: "llhd_module \<Rightarrow> nat list" where
  "module_decls m = sorted_list_of_set (decl_order m)"

definition set_module_hint :: "nat \<Rightarrow> nat \<Rightarrow> llhd_module \<Rightarrow> llhd_module" where
  "set_module_hint u loc m = m\<lparr>module_hints := (module_hints m)(u \<mapsto> loc)\<rparr>"

definition module_hint :: "llhd_module \<Rightarrow> nat \<Rightarrow> nat option" where
  "module_hint m u = module_hints m u"

section \<open>Symbols and links\<close>

definition unit_symbol :: "nat \<times> unit_data \<Rightarrow> symbol" where
  "unit_symbol p = (uname (snd p), LinkDef (fst p), usig (snd p))"

definition decl_symbol :: "llhd_module \<Rightarrow> nat \<Rightarrow> symbol option" where
  "decl_symbol m d = map_option (\<lambda>x. (decl_name x, LinkDecl d, decl_sig x)) (pt_index (mdecls m) d)"

definition symbols :: "llhd_module \<Rightarrow> symbol list option" where
  "symbols m =
     do { us \<leftarrow> module_units m;
          ds \<leftarrow> mapM (decl_symbol m) (module_decls m);
          Some (map unit_symbol us @ ds) }"

definition local_symbols :: "llhd_module \<Rightarrow> symbol list option" where
  "local_symbols m = map_option (filter (\<lambda>s. name_is_local (fst s))) (symbols m)"

definition global_symbols :: "llhd_module \<Rightarrow> symbol list option" where
  "global_symbols m = map_option (filter (\<lambda>s. name_is_global (fst s))) (symbols m)"

definition is_linked :: "llhd_module \<Rightarrow> bool" where
  "is_linked m \<longleftrightarrow> link_table m \<noteq> None"

definition extern_units :: "unit_data \<Rightarrow> (nat \<times> ext_unit_data) list" where
  "extern_units u = pt2_iter (ext_units (dfg u))"

text \<open>One symbol of the first loop of \<^verbatim>\<open>link\<close>: the table, and whether a name was taken.\<close>

definition note_symbol :: "symbol \<Rightarrow> (unit_name \<rightharpoonup> linked_unit \<times> signature) \<times> bool \<Rightarrow>
    (unit_name \<rightharpoonup> linked_unit \<times> signature) \<times> bool" where
  "note_symbol = (\<lambda>(name, to, s) (tbl, failed).
     (tbl(name \<mapsto> (to, s)),
      (case tbl name of Some (existing, _) \<Rightarrow> failed \<or> \<not> link_is_decl existing | None \<Rightarrow> failed)))"

text \<open>One external unit of the second loop.\<close>

definition resolve_extern :: "(unit_name \<rightharpoonup> linked_unit \<times> signature) \<Rightarrow> nat \<times> nat \<times> ext_unit_data \<Rightarrow>
    (nat \<times> nat \<rightharpoonup> linked_unit) \<times> bool \<Rightarrow> ((nat \<times> nat \<rightharpoonup> linked_unit) \<times> bool) option" where
  "resolve_extern tbl = (\<lambda>(u, e, data) (linked, failed).
     (case tbl (ext_name data) of
        None \<Rightarrow> Some (linked, True)
      | Some (to, to_sig) \<Rightarrow>
          do { same \<leftarrow> sig_eq to_sig (ext_sig data);
               if \<not> same then Some (linked, True) else Some (linked((u, e) \<mapsto> to), failed) }))"

definition all_externs :: "(nat \<times> unit_data) list \<Rightarrow> (nat \<times> nat \<times> ext_unit_data) list" where
  "all_externs us = concat (map (\<lambda>(u, d). map (Pair u) (extern_units d)) us)"

definition link_module :: "llhd_module \<Rightarrow> llhd_module option" where
  "link_module m =
     do { syms \<leftarrow> symbols m;
          (tbl, failed) \<leftarrow> Some (fold note_symbol syms (Map.empty, False));
          ensure (\<not> failed);
          us \<leftarrow> module_units m;
          (linked, failed) \<leftarrow> foldM (resolve_extern tbl) (all_externs us) (Map.empty, False);
          ensure (\<not> failed);
          Some (m\<lparr>link_table := Some linked\<rparr>) }"

definition lookup_ext_unit :: "llhd_module \<Rightarrow> nat \<Rightarrow> nat \<Rightarrow> linked_unit option" where
  "lookup_ext_unit m e u = (case link_table m of None \<Rightarrow> None | Some t \<Rightarrow> t (u, e))"

section \<open>The invariant of a module\<close>

definition module_inv :: "llhd_module \<Rightarrow> bool" where
  "module_inv m \<longleftrightarrow> pt_inv (munits m) \<and> pt_inv (mdecls m) \<and>
     unit_order m = dom (pt_storage (munits m)) \<and> decl_order m = dom (pt_storage (mdecls m))"

lemma module_inv_new [simp]: "module_inv module_new"
  by (simp add: module_inv_def module_new_def pt_new_def pt_inv_def)

lemma pt_add_small:
  assumes "pt_inv t" "pt_room t"
  shows "\<exists>t'. pt_add v t = (pt_next t, t') \<and> pt_inv t' \<and> pt_storage t' = (pt_storage t)(pt_next t \<mapsto> v) \<and>
    pt_next t \<notin> dom (pt_storage t)"
proof -
  have "pt_next t mod 2 ^ 32 = pt_next t" using assms(2) unfolding pt_room_def by simp
  then show ?thesis using assms(1) by (auto simp: pt_add_def Let_def pt_inv_def key_new_def)
qed

lemma pt_remove_keeps: "pt_inv t \<Longrightarrow> pt_remove k t = Some t' \<Longrightarrow> pt_inv t' \<and> dom (pt_storage t') = dom (pt_storage t) - {k}"
  by (auto simp: pt_remove_def pt_inv_def bind_Some_iff subset_iff domIff split: if_splits)

lemma dom_update_present: "m k = Some v \<Longrightarrow> dom (m(k \<mapsto> w)) = dom m"
  by auto

lemma add_unit_effect:
  assumes "module_inv m" "pt_room (munits m)"
  shows "\<exists>u m'. add_unit d m = (u, m') \<and> module_inv m' \<and> module_unit m u = None \<and> module_unit m' = (module_unit m)(u \<mapsto> d) \<and>
    mdecls m' = mdecls m \<and> \<not> is_linked m'"
proof -
  have inv: "pt_inv (munits m)" "pt_inv (mdecls m)" "unit_order m = dom (pt_storage (munits m))"
    "decl_order m = dom (pt_storage (mdecls m))" using assms(1) by (simp_all add: module_inv_def)
  obtain t where t: "pt_add d (munits m) = (pt_next (munits m), t)" "pt_inv t"
    "pt_storage t = (pt_storage (munits m))(pt_next (munits m) \<mapsto> d)" "pt_next (munits m) \<notin> dom (pt_storage (munits m))"
    using pt_add_small[OF inv(1) assms(2), of d] by blast
  show ?thesis using t inv by (auto simp: add_unit_def module_inv_def module_unit_def pt_index_def is_linked_def fun_eq_iff)
qed

lemma add_decl_effect:
  assumes "module_inv m" "pt_room (mdecls m)"
  shows "\<exists>k m'. add_decl d m = (k, m') \<and> module_inv m' \<and> pt_index (mdecls m) k = None \<and>
    pt_index (mdecls m') = (pt_index (mdecls m))(k \<mapsto> d) \<and> munits m' = munits m \<and> \<not> is_linked m'"
proof -
  have inv: "pt_inv (munits m)" "pt_inv (mdecls m)" "unit_order m = dom (pt_storage (munits m))"
    "decl_order m = dom (pt_storage (mdecls m))" using assms(1) by (simp_all add: module_inv_def)
  obtain t where t: "pt_add d (mdecls m) = (pt_next (mdecls m), t)" "pt_inv t"
    "pt_storage t = (pt_storage (mdecls m))(pt_next (mdecls m) \<mapsto> d)" "pt_next (mdecls m) \<notin> dom (pt_storage (mdecls m))"
    using pt_add_small[OF inv(2) assms(2), of d] by blast
  show ?thesis using t inv by (auto simp: add_decl_def module_inv_def pt_index_def is_linked_def fun_eq_iff)
qed

lemma remove_keeps_inv:
  assumes "module_inv m"
  shows "remove_unit u m = Some m' \<Longrightarrow> module_inv m'" "remove_decl k m = Some m'' \<Longrightarrow> module_inv m''"
proof -
  note inv = assms[unfolded module_inv_def]
  show "module_inv m'" if r: "remove_unit u m = Some m'"
  proof -
    obtain t where t: "pt_remove u (munits m) = Some t" "m' = m\<lparr>munits := t, unit_order := unit_order m - {u}\<rparr>"
      using r by (auto simp: remove_unit_def bind_Some_iff)
    show ?thesis using pt_remove_keeps[OF _ t(1)] inv unfolding t(2) module_inv_def by simp
  qed
  show "module_inv m''" if r: "remove_decl k m = Some m''"
  proof -
    obtain t where t: "pt_remove k (mdecls m) = Some t" "m'' = m\<lparr>mdecls := t, decl_order := decl_order m - {k}\<rparr>"
      using r by (auto simp: remove_decl_def bind_Some_iff)
    show ?thesis using pt_remove_keeps[OF _ t(1)] inv unfolding t(2) module_inv_def by simp
  qed
qed

lemma mut_keeps_inv:
  assumes "module_inv m"
  shows "unit_mut u f m = Some m' \<Longrightarrow> module_inv m'" "decl_mut k h m = Some m'' \<Longrightarrow> module_inv m''"
  using assms dom_update_present[of "pt_storage (munits m)" u] dom_update_present[of "pt_storage (mdecls m)" k]
  unfolding module_inv_def pt_inv_def unit_mut_def decl_mut_def pt_index_def by (clarsimp simp: bind_Some_iff)+

end
