(* ===== verification/LinkProps.thy ===== *)
theory LinkProps
  imports ModuleUnits
begin

text \<open>
  The linker: when it succeeds, what the links are, and when they go stale.
\<close>

section \<open>The table of symbols\<close>

text \<open>The symbol a name stands for: the last one of that name.\<close>

definition symbol_named :: "symbol list \<Rightarrow> unit_name \<Rightarrow> (linked_unit \<times> signature) option" where
  "symbol_named syms n = map_option snd (find (\<lambda>s. fst s = n) (rev syms))"

text \<open>A definition that is followed by another symbol of its name.\<close>

definition redefined :: "symbol list \<Rightarrow> bool" where
  "redefined syms \<longleftrightarrow> (\<exists>p q. p < q \<and> q < length syms \<and> fst (syms ! p) = fst (syms ! q) \<and> link_is_def (fst (snd (syms ! p))))"

lemma link_kinds: "link_is_decl l \<longleftrightarrow> \<not> link_is_def l"
  by (cases l) (simp_all add: link_is_decl_def link_is_def_def)

lemma symbol_named_snoc: "symbol_named (syms @ [x]) n = (if fst x = n then Some (snd x) else symbol_named syms n)"
  by (simp add: symbol_named_def)

lemma redefined_snoc:
  "redefined (syms @ [x]) \<longleftrightarrow> redefined syms \<or> (\<exists>s \<in> set syms. fst s = fst x \<and> link_is_def (fst (snd s)))"
proof
  assume "redefined (syms @ [x])"
  then obtain p q where pq: "p < q" "q < length syms + 1" "fst ((syms @ [x]) ! p) = fst ((syms @ [x]) ! q)"
    "link_is_def (fst (snd ((syms @ [x]) ! p)))" by (auto simp: redefined_def)
  show "redefined syms \<or> (\<exists>s \<in> set syms. fst s = fst x \<and> link_is_def (fst (snd s)))"
  proof (cases "q < length syms")
    case True
    then have "redefined syms" unfolding redefined_def using pq by (intro exI[of _ p] exI[of _ q]) (simp add: nth_append)
    then show ?thesis ..
  next
    case False
    then have "q = length syms" "p < length syms" using pq by simp_all
    then have "syms ! p \<in> set syms" "fst (syms ! p) = fst x" "link_is_def (fst (snd (syms ! p)))" using pq by (simp_all add: nth_append)
    then show ?thesis by blast
  qed
next
  assume "redefined syms \<or> (\<exists>s \<in> set syms. fst s = fst x \<and> link_is_def (fst (snd s)))"
  then show "redefined (syms @ [x])"
  proof
    assume "redefined syms"
    then obtain p q where "p < q" "q < length syms" "fst (syms ! p) = fst (syms ! q)" "link_is_def (fst (snd (syms ! p)))"
      by (auto simp: redefined_def)
    then show ?thesis unfolding redefined_def by (intro exI[of _ p] exI[of _ q]) (simp add: nth_append)
  next
    assume "\<exists>s \<in> set syms. fst s = fst x \<and> link_is_def (fst (snd s))"
    then obtain p where "p < length syms" "fst (syms ! p) = fst x" "link_is_def (fst (snd (syms ! p)))" by (metis in_set_conv_nth)
    then show ?thesis unfolding redefined_def by (intro exI[of _ p] exI[of _ "length syms"]) (simp add: nth_append)
  qed
qed

lemma symbol_named_in: "symbol_named syms n = Some s \<Longrightarrow> (n, s) \<in> set syms"
  by (induction syms rule: rev_induct) (auto simp: symbol_named_snoc symbol_named_def split: if_splits)

lemma symbol_named_None: "symbol_named syms n = None \<longleftrightarrow> n \<notin> fst ` set syms"
  by (induction syms rule: rev_induct) (auto simp: symbol_named_snoc symbol_named_def)

lemma earlier_definition:
  "symbol_named syms n = Some (to, s) \<Longrightarrow> \<not> redefined syms \<Longrightarrow>
    link_is_def to \<longleftrightarrow> (\<exists>x \<in> set syms. fst x = n \<and> link_is_def (fst (snd x)))"
proof (induction syms rule: rev_induct)
  case (snoc y syms)
  show ?case
  proof (cases "fst y = n")
    case True
    then have y: "snd y = (to, s)" using snoc.prems(1) by (simp add: symbol_named_snoc)
    have "\<not> (\<exists>x \<in> set syms. fst x = n \<and> link_is_def (fst (snd x)))" using snoc.prems(2) True by (auto simp: redefined_snoc)
    then show ?thesis using True y by (auto)
  next
    case False
    then show ?thesis using snoc by (auto simp: symbol_named_snoc redefined_snoc)
  qed
qed (simp add: symbol_named_def)

lemma note_symbols: "fold note_symbol syms (Map.empty, False) = (symbol_named syms, redefined syms)"
proof (induction syms rule: rev_induct)
  case Nil
  show ?case by (auto simp: symbol_named_def redefined_def)
next
  case (snoc y syms)
  obtain n to s where y: "y = (n, to, s)" by (cases y)
  have t: "(symbol_named syms)(n \<mapsto> (to, s)) = symbol_named (syms @ [y])" unfolding symbol_named_snoc y by (auto simp: fun_eq_iff)
  have "(case symbol_named syms n of Some (e, _) \<Rightarrow> redefined syms \<or> \<not> link_is_decl e | None \<Rightarrow> redefined syms) \<longleftrightarrow>
      redefined (syms @ [y])"
  proof (cases "symbol_named syms n")
    case None
    then have "n \<notin> fst ` set syms" by (simp add: symbol_named_None)
    then have "\<not> (\<exists>s \<in> set syms. fst s = n \<and> link_is_def (fst (snd s)))" by force
    then show ?thesis using None unfolding redefined_snoc y by auto
  next
    case (Some e)
    show ?thesis
    proof (cases "redefined syms")
      case False
      have "link_is_def (fst e) \<longleftrightarrow> (\<exists>x \<in> set syms. fst x = n \<and> link_is_def (fst (snd x)))"
        by (rule earlier_definition[where s = "snd e"]) (use Some False in simp_all)
      then show ?thesis using Some False unfolding redefined_snoc y link_kinds by (cases e) simp
    qed (simp add: redefined_snoc Some split_beta)
  qed
  then show ?case using snoc t by (simp add: note_symbol_def y)
qed

section \<open>External units\<close>

definition sig_wf :: "signature \<Rightarrow> bool" where
  "sig_wf s \<longleftrightarrow> (\<forall>a \<in> set (sig_all_args s). pt_index (sig_args s) a \<noteq> None)"

lemma args_all_eq_total:
  "\<forall>a \<in> set as. pt_index t a \<noteq> None \<Longrightarrow> \<forall>b \<in> set bs. pt_index t' b \<noteq> None \<Longrightarrow> args_all_eq t t' as bs \<noteq> None"
  by (induction t t' as bs rule: args_all_eq.induct) (auto simp: bind_eq_None_conv)

lemma sig_eq_total: "sig_wf s \<Longrightarrow> sig_wf t \<Longrightarrow> sig_eq s t \<noteq> None"
  using args_all_eq_total[of "sig_all_args s" "sig_args s" "sig_all_args t" "sig_args t"] by (auto simp: sig_eq_def sig_wf_def)

lemma args_all_eq_refl: "\<forall>a \<in> set as. pt_index t a \<noteq> None \<Longrightarrow> args_all_eq t t as as = Some True"
  by (induction as) auto

text \<open>Signatures are compared without their return types.\<close>

lemma sig_eq_ignores_return_type: "sig_wf s \<Longrightarrow> sig_eq s (s\<lparr>retty := r\<rparr>) = Some True"
  using args_all_eq_refl[of "sig_all_args s" "sig_args s"] by (simp add: sig_eq_def sig_wf_def sig_all_args_def)

text \<open>What an external unit resolves to.\<close>

definition resolved :: "(unit_name \<rightharpoonup> linked_unit \<times> signature) \<Rightarrow> ext_unit_data \<Rightarrow> linked_unit option" where
  "resolved tbl x = (case tbl (ext_name x) of Some (to, s) \<Rightarrow> if sig_eq s (ext_sig x) = Some True then Some to else None | None \<Rightarrow> None)"

definition extern_keys :: "(nat \<times> nat \<times> ext_unit_data) list \<Rightarrow> (nat \<times> nat) list" where
  "extern_keys exts = map (\<lambda>(u, e, x). (u, e)) exts"

lemma resolve_step:
  assumes "\<And>to s. tbl (ext_name x) = Some (to, s) \<Longrightarrow> sig_eq s (ext_sig x) \<noteq> None"
  shows "resolve_extern tbl (u, e, x) (T, f) =
    Some (case resolved tbl x of Some to \<Rightarrow> (T((u, e) \<mapsto> to), f) | None \<Rightarrow> (T, True))"
  using assms by (auto simp: resolve_extern_def resolved_def split: option.splits)

lemma resolve_all:
  assumes "\<forall>(u, e, x) \<in> set exts. \<forall>to s. tbl (ext_name x) = Some (to, s) \<longrightarrow> sig_eq s (ext_sig x) \<noteq> None"
    and "distinct (extern_keys exts)"
  shows "\<exists>T'. foldM (resolve_extern tbl) exts (T, f) = Some (T', f \<or> (\<exists>(u, e, x) \<in> set exts. resolved tbl x = None)) \<and>
    (\<forall>(u, e, x) \<in> set exts. resolved tbl x \<noteq> None \<longrightarrow> T' (u, e) = resolved tbl x) \<and>
    (\<forall>k. k \<notin> set (extern_keys exts) \<longrightarrow> T' k = T k)"
  using assms
proof (induction exts arbitrary: T f)
  case (Cons y exts)
  obtain u e x where y: "y = (u, e, x)" by (cases y)
  have st: "resolve_extern tbl y (T, f) = Some (case resolved tbl x of Some to \<Rightarrow> (T((u, e) \<mapsto> to), f) | None \<Rightarrow> (T, True))"
    unfolding y by (rule resolve_step) (use Cons.prems(1) y in auto)
  have rest: "\<forall>(u, e, x) \<in> set exts. \<forall>to s. tbl (ext_name x) = Some (to, s) \<longrightarrow> sig_eq s (ext_sig x) \<noteq> None" "distinct (extern_keys exts)"
    "(u, e) \<notin> set (extern_keys exts)" using Cons.prems y by (auto simp: extern_keys_def)
  have keys: "set (extern_keys (y # exts)) = insert (u, e) (set (extern_keys exts))" by (simp add: extern_keys_def y)
  show ?case
  proof (cases "resolved tbl x")
    case None
    obtain T' where T': "foldM (resolve_extern tbl) exts (T, True) = Some (T', True)"
      "\<forall>(u, e, x) \<in> set exts. resolved tbl x \<noteq> None \<longrightarrow> T' (u, e) = resolved tbl x" "\<forall>k. k \<notin> set (extern_keys exts) \<longrightarrow> T' k = T k"
      using Cons.IH[OF rest(1,2), of T True] by auto
    then show ?thesis using st None y unfolding keys by (intro exI[of _ T']) auto
  next
    case (Some to)
    obtain T' where T': "foldM (resolve_extern tbl) exts (T((u, e) \<mapsto> to), f) = Some (T', f \<or> (\<exists>(u, e, x) \<in> set exts. resolved tbl x = None))"
      "\<forall>(u, e, x) \<in> set exts. resolved tbl x \<noteq> None \<longrightarrow> T' (u, e) = resolved tbl x"
      "\<forall>k. k \<notin> set (extern_keys exts) \<longrightarrow> T' k = (T((u, e) \<mapsto> to)) k"
      using Cons.IH[OF rest(1,2), of "T((u, e) \<mapsto> to)" f] by blast
    have "T' (u, e) = Some to" using T'(3) rest(3) by simp
    then show ?thesis using st Some y T' unfolding keys by (intro exI[of _ T']) auto
  qed
qed (simp add: extern_keys_def)

section \<open>Linking\<close>

lemma symbols_of_units:
  "(\<exists>s \<in> set (map unit_symbol us). fst s = n \<and> link_is_def (fst (snd s))) \<longleftrightarrow> n \<in> (\<lambda>p. uname (snd p)) ` set us"
  by (auto simp: unit_symbol_def link_is_def_def)

lemma bex_triple: "(\<And>x. R x \<longleftrightarrow> \<not> Q x) \<Longrightarrow> (\<exists>x \<in> S. R (snd (snd x))) \<longleftrightarrow> \<not> (\<forall>(u, e, x) \<in> S. Q x)"
  by force

lemma redefined_symbols:
  assumes "\<forall>d \<in> set ds. \<not> link_is_def (fst (snd d))"
  shows "redefined (map unit_symbol us @ ds) \<longleftrightarrow>
    \<not> distinct (map (\<lambda>p. uname (snd p)) us) \<or> (\<exists>p \<in> set us. uname (snd p) \<in> fst ` set ds)"
  using assms
proof (induction ds rule: rev_induct)
  case Nil
  have "redefined (map unit_symbol us) \<longleftrightarrow> \<not> distinct (map (\<lambda>p. uname (snd p)) us)"
  proof (induction us rule: rev_induct)
    case (snoc x us)
    have "fst (unit_symbol x) = uname (snd x)" by (simp add: unit_symbol_def)
    then show ?case using snoc symbols_of_units[of us "uname (snd x)"] by (simp add: redefined_snoc)
  qed (simp add: redefined_def)
  then show ?case by simp
next
  case (snoc d ds)
  have e: "map unit_symbol us @ ds @ [d] = (map unit_symbol us @ ds) @ [d]" by simp
  have "(\<exists>s \<in> set (map unit_symbol us @ ds). fst s = fst d \<and> link_is_def (fst (snd s))) \<longleftrightarrow> fst d \<in> (\<lambda>p. uname (snd p)) ` set us"
    unfolding symbols_of_units[symmetric] using snoc.prems by auto
  then have "redefined (map unit_symbol us @ ds @ [d]) \<longleftrightarrow>
      redefined (map unit_symbol us @ ds) \<or> fst d \<in> (\<lambda>p. uname (snd p)) ` set us" unfolding e redefined_snoc by simp
  also have "redefined (map unit_symbol us @ ds) \<longleftrightarrow>
      \<not> distinct (map (\<lambda>p. uname (snd p)) us) \<or> (\<exists>p \<in> set us. uname (snd p) \<in> fst ` set ds)"
    by (rule snoc.IH) (use snoc.prems in simp)
  finally have "redefined (map unit_symbol us @ ds @ [d]) \<longleftrightarrow> (\<not> distinct (map (\<lambda>p. uname (snd p)) us) \<or>
      (\<exists>p \<in> set us. uname (snd p) \<in> fst ` set ds)) \<or> fst d \<in> (\<lambda>p. uname (snd p)) ` set us" .
  moreover have "(\<exists>p \<in> set us. uname (snd p) \<in> fst ` set (ds @ [d])) \<longleftrightarrow>
      (\<exists>p \<in> set us. uname (snd p) \<in> fst ` set ds) \<or> fst d \<in> (\<lambda>p. uname (snd p)) ` set us"
    by (simp add: image_iff eq_commute[of "fst d"]) blast
  ultimately show ?case by blast
qed

lemma extern_keys_distinct: "distinct (map fst us) \<Longrightarrow> distinct (extern_keys (all_externs us))"
proof (induction us)
  case (Cons p us)
  obtain u d where p: "p = (u, d)" by (cases p)
  have "extern_keys (all_externs (p # us)) = map (\<lambda>q. (u, fst q)) (extern_units d) @ extern_keys (all_externs us)"
    by (auto simp: extern_keys_def all_externs_def p)
  moreover have "distinct (map (\<lambda>q. (u, fst q)) (extern_units d))"
    by (auto simp: extern_units_def pt2_iter_def distinct_map inj_on_def)
  moreover have "fst k \<in> fst ` set us" if "k \<in> set (extern_keys (all_externs us))" for k
    using that by (force simp: extern_keys_def all_externs_def)
  ultimately show ?case using Cons p by fastforce
qed (simp add: extern_keys_def all_externs_def)

lemma symbols_split:
  assumes "symbols m = Some syms" "module_units m = Some us"
  shows "\<exists>ds. syms = map unit_symbol us @ ds \<and> (\<forall>d \<in> set ds. \<not> link_is_def (fst (snd d))) \<and> mapM (decl_symbol m) (module_decls m) = Some ds"
proof -
  obtain ds where ds: "mapM (decl_symbol m) (module_decls m) = Some ds" "syms = map unit_symbol us @ ds"
    using assms by (auto simp: symbols_def bind_Some_iff)
  have "\<not> link_is_def (fst (snd d))" if d: "d \<in> set ds" for d
  proof -
    obtain k where k: "k < length ds" "ds ! k = d" using d by (meson in_set_conv_nth)
    have "length ds = length (module_decls m)" using mapM_length[OF ds(1)] by simp
    then have "decl_symbol m (module_decls m ! k) = Some d" using ds(1) k by (auto simp: mapM_Some_iff list_all2_conv_all_nth)
    then show ?thesis by (auto simp: decl_symbol_def link_is_def_def)
  qed
  then show ?thesis using ds by blast
qed

lemma module_units_ids:
  assumes "module_units m = Some us"
  shows "map fst us = sorted_list_of_set (unit_order m)"
proof -
  have "list_all2 (\<lambda>u p. map_option (Pair u) (module_unit m u) = Some p) (sorted_list_of_set (unit_order m)) us"
    using assms by (simp add: module_units_def mapM_Some_iff)
  then have "list_all2 (\<lambda>u p. fst p = u) (sorted_list_of_set (unit_order m)) us" by (rule list_all2_mono) auto
  then show ?thesis by (auto simp: list_all2_conv_all_nth intro: nth_equalityI)
qed

lemma link_runs:
  assumes syms: "symbols m = Some syms" and us: "module_units m = Some us"
    and wf: "\<forall>x \<in> set syms. sig_wf (snd (snd x))" "\<forall>x \<in> set (all_externs us). sig_wf (ext_sig (snd (snd x)))"
  shows "\<exists>T. link_module m = (if redefined syms \<or> (\<exists>x \<in> set (all_externs us). resolved (symbol_named syms) (snd (snd x)) = None) then None
      else Some (m\<lparr>link_table := Some T\<rparr>)) \<and>
    (\<forall>(u, e, x) \<in> set (all_externs us). resolved (symbol_named syms) x \<noteq> None \<longrightarrow> T (u, e) = resolved (symbol_named syms) x)"
proof -
  let ?t = "symbol_named syms" and ?e = "all_externs us"
  have "\<forall>(u, e, x) \<in> set ?e. \<forall>to s. ?t (ext_name x) = Some (to, s) \<longrightarrow> sig_eq s (ext_sig x) \<noteq> None"
    using wf symbol_named_in[of syms] sig_eq_total by fastforce
  moreover have "distinct (extern_keys ?e)" by (rule extern_keys_distinct) (simp add: module_units_ids[OF us])
  ultimately obtain T where T: "foldM (resolve_extern ?t) ?e (Map.empty, False) = Some (T, \<exists>(u, e, x) \<in> set ?e. resolved ?t x = None)"
    "\<forall>(u, e, x) \<in> set ?e. resolved ?t x \<noteq> None \<longrightarrow> T (u, e) = resolved ?t x"
    using resolve_all[of ?e ?t Map.empty False] by auto
  have eq: "(\<exists>(u, e, x) \<in> set ?e. resolved ?t x = None) \<longleftrightarrow> (\<exists>x \<in> set ?e. resolved ?t (snd (snd x)) = None)" by force
  have "link_module m = (if redefined syms \<or> (\<exists>x \<in> set ?e. resolved ?t (snd (snd x)) = None) then None else Some (m\<lparr>link_table := Some T\<rparr>))"
    using syms us T(1) by (simp add: link_module_def note_symbols eq ensure_def)
  then show ?thesis using T(2) by blast
qed

lemma list_all2_left: "list_all2 P xs ys \<Longrightarrow> y \<in> set ys \<Longrightarrow> \<exists>x \<in> set xs. P x y"
  by (induction rule: list_all2_induct) auto

lemma list_all2_right: "list_all2 P xs ys \<Longrightarrow> x \<in> set xs \<Longrightarrow> \<exists>y \<in> set ys. P x y"
  by (induction rule: list_all2_induct) auto

lemma decl_names:
  assumes "mapM (decl_symbol m) (module_decls m) = Some ds"
  shows "fst ` set ds = {decl_name d | k d. k \<in> set (module_decls m) \<and> pt_index (mdecls m) k = Some d}"
proof -
  have l2: "list_all2 (\<lambda>k d. decl_symbol m k = Some d) (module_decls m) ds" using assms by (simp add: mapM_Some_iff)
  have at: "decl_symbol m k = Some x \<longleftrightarrow> (\<exists>d. pt_index (mdecls m) k = Some d \<and> x = (decl_name d, LinkDecl k, decl_sig d))" for k x
    by (auto simp: decl_symbol_def)
  show ?thesis
  proof (intro set_eqI iffI)
    fix n assume "n \<in> fst ` set ds"
    then obtain x where x: "x \<in> set ds" "fst x = n" by blast
    then show "n \<in> {decl_name d | k d. k \<in> set (module_decls m) \<and> pt_index (mdecls m) k = Some d}"
      using list_all2_left[OF l2 x(1)] unfolding at by force
  next
    fix n assume "n \<in> {decl_name d | k d. k \<in> set (module_decls m) \<and> pt_index (mdecls m) k = Some d}"
    then obtain k d where k: "k \<in> set (module_decls m)" "pt_index (mdecls m) k = Some d" "n = decl_name d" by blast
    then show "n \<in> fst ` set ds" using list_all2_right[OF l2 k(1)] unfolding at by force
  qed
qed

text \<open>
  C31: linking a module succeeds exactly when the names of the definitions are distinct, no
  declaration has the name of a definition, and every external unit of every unit names a symbol with
  an equal signature. It changes nothing but the link table, and the table then leads every external
  unit of every unit to the symbol of that name: a definition, or the last declaration.
\<close>
theorem link_correct:
  assumes "symbols m = Some syms" "module_units m = Some us"
    and "\<forall>x \<in> set syms. sig_wf (snd (snd x))" "\<forall>x \<in> set (all_externs us). sig_wf (ext_sig (snd (snd x)))"
  shows "(link_module m \<noteq> None \<longleftrightarrow> distinct (map (\<lambda>p. uname (snd p)) us) \<and>
      (\<forall>k d. k \<in> set (module_decls m) \<longrightarrow> pt_index (mdecls m) k = Some d \<longrightarrow> decl_name d \<notin> (\<lambda>p. uname (snd p)) ` set us) \<and>
      (\<forall>(u, e, x) \<in> set (all_externs us). \<exists>to s. symbol_named syms (ext_name x) = Some (to, s) \<and> sig_eq s (ext_sig x) = Some True)) \<and>
    (\<forall>m'. link_module m = Some m' \<longrightarrow> (\<exists>T. m' = m\<lparr>link_table := Some T\<rparr>) \<and>
      (\<forall>(u, e, x) \<in> set (all_externs us). \<exists>to s. symbol_named syms (ext_name x) = Some (to, s) \<and>
        sig_eq s (ext_sig x) = Some True \<and> lookup_ext_unit m' e u = Some to))"
proof -
  obtain ds where ds: "syms = map unit_symbol us @ ds" "\<forall>d \<in> set ds. \<not> link_is_def (fst (snd d))" "mapM (decl_symbol m) (module_decls m) = Some ds"
    using symbols_split[OF assms(1,2)] by blast
  note names = decl_names[OF ds(3)]
  have red: "redefined syms \<longleftrightarrow> \<not> (distinct (map (\<lambda>p. uname (snd p)) us) \<and>
      (\<forall>k d. k \<in> set (module_decls m) \<longrightarrow> pt_index (mdecls m) k = Some d \<longrightarrow> decl_name d \<notin> (\<lambda>p. uname (snd p)) ` set us))"
  proof -
    have flip: "(\<exists>p \<in> A. f p \<in> N) \<longleftrightarrow> \<not> (\<forall>n \<in> N. n \<notin> f ` A)" for A :: "'b set" and f :: "'b \<Rightarrow> 'c" and N by blast
    have all: "(\<forall>n \<in> {f d | k d. k \<in> A \<and> P k d}. Q n) \<longleftrightarrow> (\<forall>k d. k \<in> A \<longrightarrow> P k d \<longrightarrow> Q (f d))"
      for A :: "'d set" and P :: "'d \<Rightarrow> 'e \<Rightarrow> bool" and Q and f :: "'e \<Rightarrow> 'c" by blast
    show ?thesis unfolding ds(1) redefined_symbols[OF ds(2)] flip names all de_Morgan_conj ..
  qed
  have res: "resolved (symbol_named syms) x = Some to \<longleftrightarrow>
      (\<exists>s. symbol_named syms (ext_name x) = Some (to, s) \<and> sig_eq s (ext_sig x) = Some True)" for x to
    by (auto simp: resolved_def split: option.splits)
  obtain T where T: "link_module m = (if redefined syms \<or> (\<exists>x \<in> set (all_externs us). resolved (symbol_named syms) (snd (snd x)) = None) then None
      else Some (m\<lparr>link_table := Some T\<rparr>))"
    "\<forall>(u, e, x) \<in> set (all_externs us). resolved (symbol_named syms) x \<noteq> None \<longrightarrow> T (u, e) = resolved (symbol_named syms) x"
    using link_runs[OF assms] by blast
  have none: "resolved (symbol_named syms) x = None \<longleftrightarrow>
      \<not> (\<exists>to s. symbol_named syms (ext_name x) = Some (to, s) \<and> sig_eq s (ext_sig x) = Some True)" for x
  proof -
    have "resolved (symbol_named syms) x = None \<longleftrightarrow> \<not> (\<exists>to. resolved (symbol_named syms) x = Some to)" by simp
    then show ?thesis unfolding res .
  qed
  note all = bex_triple[where R = "\<lambda>x. resolved (symbol_named syms) x = None" and S = "set (all_externs us)", OF none]
  show ?thesis
  proof (intro conjI allI impI)
    fix m' assume m': "link_module m = Some m'"
    then have m: "m' = m\<lparr>link_table := Some T\<rparr>" and ok: "\<not> (\<exists>x \<in> set (all_externs us). resolved (symbol_named syms) (snd (snd x)) = None)"
      using T(1) by (auto split: if_splits)
    show "\<exists>T. m' = m\<lparr>link_table := Some T\<rparr>" using m by blast
    show "\<forall>(u, e, x) \<in> set (all_externs us). \<exists>to s. symbol_named syms (ext_name x) = Some (to, s) \<and>
        sig_eq s (ext_sig x) = Some True \<and> lookup_ext_unit m' e u = Some to"
    proof (clarify)
      fix u e x assume x: "(u, e, x) \<in> set (all_externs us)"
      then obtain to where to: "resolved (symbol_named syms) x = Some to" using ok by fastforce
      then have "T (u, e) = Some to" using T(2) x by fastforce
      then show "\<exists>to s. symbol_named syms (ext_name x) = Some (to, s) \<and> sig_eq s (ext_sig x) = Some True \<and> lookup_ext_unit m' e u = Some to"
        using to res unfolding m lookup_ext_unit_def by auto
    qed
  qed (use T(1) red all in \<open>simp split: if_splits\<close>)
qed

section \<open>A module of two units\<close>

text \<open>The entity \<^verbatim>\<open>a\<close> refers to the unit \<^verbatim>\<open>b\<close>, which is the process with number 1.\<close>

definition bare_unit :: "unit_kind \<Rightarrow> string \<Rightarrow> ext_unit_data list \<Rightarrow> unit_data" where
  "bare_unit k name exts = \<lparr>ukind = k, uname = GlobalName name, usig = sig_new,
     dfg = dfg_new\<lparr>ext_units := \<lparr>storage = exts, count = length exts, used = {..<length exts}, free = {}\<rparr>\<rparr>,
     cfg = \<lparr>cblocks = pt2_new, block_hints = Map.empty\<rparr>, layout = fl_new\<rparr>"

definition two_units :: llhd_module where
  "two_units = snd (add_unit (bare_unit ProcessUnit ''b'' [])
     (snd (add_unit (bare_unit EntityUnit ''a'' [\<lparr>ext_name = GlobalName ''b'', ext_sig = sig_new\<rparr>]) module_new)))"

lemma two_units_parts:
  "module_units two_units = Some [(0, bare_unit EntityUnit ''a'' [\<lparr>ext_name = GlobalName ''b'', ext_sig = sig_new\<rparr>]),
     (1, bare_unit ProcessUnit ''b'' [])]"
  "symbols two_units = Some [(GlobalName ''a'', LinkDef 0, sig_new), (GlobalName ''b'', LinkDef 1, sig_new)]"
  "all_externs [(0, bare_unit EntityUnit ''a'' [\<lparr>ext_name = GlobalName ''b'', ext_sig = sig_new\<rparr>]), (1, bare_unit ProcessUnit ''b'' [])] =
     [(0, 0, \<lparr>ext_name = GlobalName ''b'', ext_sig = sig_new\<rparr>)]"
proof -
  have u: "unit_order two_units = {0, 1}" "decl_order two_units = {}" "pt_storage (munits two_units) =
      [0 \<mapsto> bare_unit EntityUnit ''a'' [\<lparr>ext_name = GlobalName ''b'', ext_sig = sig_new\<rparr>], 1 \<mapsto> bare_unit ProcessUnit ''b'' []]"
    by (simp_all add: two_units_def add_unit_def module_new_def pt_new_def pt_add_def key_new_def insert_commute)
  show m: "module_units two_units = Some [(0, bare_unit EntityUnit ''a'' [\<lparr>ext_name = GlobalName ''b'', ext_sig = sig_new\<rparr>]),
     (1, bare_unit ProcessUnit ''b'' [])]"
    by (simp add: module_units_def module_unit_def pt_index_def u)
  show "symbols two_units = Some [(GlobalName ''a'', LinkDef 0, sig_new), (GlobalName ''b'', LinkDef 1, sig_new)]"
    unfolding symbols_def m by (simp add: module_decls_def u unit_symbol_def bare_unit_def)
  show "all_externs [(0, bare_unit EntityUnit ''a'' [\<lparr>ext_name = GlobalName ''b'', ext_sig = sig_new\<rparr>]), (1, bare_unit ProcessUnit ''b'' [])] =
     [(0, 0, \<lparr>ext_name = GlobalName ''b'', ext_sig = sig_new\<rparr>)]"
    by (simp add: all_externs_def extern_units_def pt2_iter_def bare_unit_def lessThan_Suc)
qed

lemma sig_new_wf [simp]: "sig_wf sig_new"
  by (simp add: sig_wf_def sig_all_args_def sig_new_def)

theorem link_correct_witness:
  "\<exists>m. link_module two_units = Some m \<and> lookup_ext_unit m 0 0 = Some (LinkDef 1)"
proof -
  let ?us = "[(0, bare_unit EntityUnit ''a'' [\<lparr>ext_name = GlobalName ''b'', ext_sig = sig_new\<rparr>]), (1, bare_unit ProcessUnit ''b'' [])] :: (nat \<times> unit_data) list"
  let ?syms = "[(GlobalName ''a'', LinkDef 0, sig_new), (GlobalName ''b'', LinkDef 1, sig_new)] :: symbol list"
  have named: "symbol_named ?syms (GlobalName ''b'') = Some (LinkDef 1, sig_new)" by (simp add: symbol_named_def)
  have eq: "sig_eq sig_new sig_new = Some True" by (simp add: sig_eq_def sig_all_args_def sig_new_def)
  have wf: "\<forall>x \<in> set ?syms. sig_wf (snd (snd x))" "\<forall>x \<in> set (all_externs ?us). sig_wf (ext_sig (snd (snd x)))"
    unfolding two_units_parts(3) by simp_all
  note L = link_correct[OF two_units_parts(2,1) wf]
  have "distinct (map (\<lambda>p. uname (snd p)) ?us)" by (simp add: bare_unit_def)
  moreover have "module_decls two_units = []"
    by (simp add: module_decls_def two_units_def add_unit_def module_new_def split_beta Let_def)
  ultimately have "link_module two_units \<noteq> None" using L named eq unfolding two_units_parts(3) by simp
  then obtain m where m: "link_module two_units = Some m" by blast
  then show ?thesis using L named unfolding two_units_parts(3) by auto
qed

section \<open>Stale links\<close>

text \<open>
  Removing a unit keeps the links to it. The module still counts as linked, and looking up an
  external unit that named the removed unit answers with its number, of which the module has
  no unit any more: reading that unit panics.
\<close>
theorem removed_unit_stays_linked:
  assumes "lookup_ext_unit m e u = Some (LinkDef b)" "remove_unit b m = Some m'"
  shows "is_linked m' \<and> lookup_ext_unit m' e u = Some (LinkDef b) \<and> module_unit m' b = None"
  using assms by (auto simp: lookup_ext_unit_def remove_unit_def is_linked_def module_unit_def pt_remove_def pt_index_def
      bind_Some_iff split: option.splits)

theorem removed_unit_stays_linked_witness:
  "\<exists>m m'. link_module two_units = Some m \<and> remove_unit 1 m = Some m' \<and> is_linked m' \<and> lookup_ext_unit m' 0 0 = Some (LinkDef 1) \<and>
    module_unit m' 1 = None"
proof -
  let ?us = "[(0, bare_unit EntityUnit ''a'' [\<lparr>ext_name = GlobalName ''b'', ext_sig = sig_new\<rparr>]), (1, bare_unit ProcessUnit ''b'' [])] :: (nat \<times> unit_data) list"
  have wf: "\<forall>x \<in> set [(GlobalName ''a'', LinkDef 0, sig_new), (GlobalName ''b'', LinkDef 1, sig_new)]. sig_wf (snd (snd x))"
    "\<forall>x \<in> set (all_externs ?us). sig_wf (ext_sig (snd (snd x)))" unfolding two_units_parts(3) by simp_all
  obtain T where T: "link_module two_units = Some (two_units\<lparr>link_table := Some T\<rparr>)" "T (0, 0) = Some (LinkDef 1)"
    using link_runs[OF two_units_parts(2,1) wf] unfolding two_units_parts(3)
    by (auto simp: resolved_def symbol_named_def sig_eq_def sig_all_args_def sig_new_def redefined_def numeral_2_eq_2 less_Suc_eq split: if_splits)
  let ?m = "two_units\<lparr>link_table := Some T\<rparr>"
  have l: "lookup_ext_unit ?m 0 0 = Some (LinkDef 1)" using T(2) by (simp add: lookup_ext_unit_def)
  have "remove_unit 1 ?m \<noteq> None"
    by (simp add: remove_unit_def pt_remove_def two_units_def add_unit_def module_new_def pt_new_def pt_add_def key_new_def)
  then obtain m' where m': "remove_unit 1 ?m = Some m'" by blast
  show ?thesis using removed_unit_stays_linked[OF l m'] T(1) m' by blast
qed

end
