(* ===== verification/VerifyUnit.thy ===== *)
theory VerifyUnit
  imports ModuleUnits Verifier DomTreeProps
begin

text \<open>
  The verifier's traversal of units and modules (\<^verbatim>\<open>Verifier\<close> of \<^verbatim>\<open>src/src/verifier.rs\<close> and
  \<^verbatim>\<open>Module::verify\<close>). The text of an error's object is the block or instruction it dumps, the name
  of the unit its kind and name. A unit that verifies without an error is well-formed.
\<close>

section \<open>The verifier\<close>

datatype error_object = NoObject | BlockObject nat | InstObject nat

record verifier_error =
  err_unit :: "(unit_kind \<times> unit_name) option"
  err_object :: error_object
  err_message :: verifier_message

record verifier =
  verrors :: "verifier_error list"
  vunit :: "(unit_kind \<times> unit_name) option"
  vflags :: unit_flags
  vreturn :: "ty option"

definition verifier_new :: verifier where
  "verifier_new = \<lparr>verrors = [], vunit = None, vflags = {}, vreturn = None\<rparr>"

definition push_error :: "error_object \<Rightarrow> verifier_message \<Rightarrow> verifier \<Rightarrow> verifier" where
  "push_error obj m v = v\<lparr>verrors := verrors v @ [\<lparr>err_unit = vunit v, err_object = obj, err_message = m\<rparr>]\<rparr>"

definition verifier_inst :: "unit_data \<Rightarrow> nat \<Rightarrow> verifier \<Rightarrow> verifier option" where
  "verifier_inst u i v =
     do { ms \<leftarrow> verify_inst (vflags v) (vreturn v) (dfg u) (layout u) i;
          Some (fold (push_error (InstObject i)) ms v) }"

text \<open>The check that an instruction dominates one of its uses.\<close>

definition verify_use :: "unit_data \<Rightarrow> dominator_tree \<Rightarrow> nat \<Rightarrow> nat \<Rightarrow> verifier \<Rightarrow> verifier option" where
  "verify_use u dt i k v =
     do { ok \<leftarrow> inst_dominates_inst dt (dfg u) (layout u) i k;
          Some (if ok then v else push_error (InstObject i) (MsgNotDominating k) v) }"

definition verify_placed_inst :: "(nat set \<Rightarrow> nat list) \<Rightarrow> unit_data \<Rightarrow> dominator_tree \<Rightarrow> nat \<Rightarrow> nat \<Rightarrow> verifier \<Rightarrow> verifier option" where
  "verify_placed_inst ord u dt bb i v =
     do { d \<leftarrow> pt2_index (dinsts (dfg u)) i;
          last \<leftarrow> block_last_inst (layout u) bb;
          let v = (if op_is_terminator (opcode_of d) \<and> Some i \<noteq> last then push_error (InstObject i) (MsgTerminatorInside bb) v else v);
          let v = (if Some i = last \<and> \<not> op_is_terminator (opcode_of d) then push_error (BlockObject bb) (MsgLastNotTerminator i) v else v);
          v \<leftarrow> verifier_inst u i v;
          case get_inst_result (dfg u) i of
            None \<Rightarrow> Some v
          | Some r \<Rightarrow> do { us \<leftarrow> uses (dfg u) r; foldM (verify_use u dt i) (ord us) v } }"

definition verify_bb :: "(nat set \<Rightarrow> nat list) \<Rightarrow> unit_data \<Rightarrow> dominator_tree \<Rightarrow> nat \<Rightarrow> verifier \<Rightarrow> verifier option" where
  "verify_bb ord u dt bb v =
     do { first \<leftarrow> block_first_inst (layout u) bb;
          let v = (if first = None then push_error (BlockObject bb) MsgBlockEmpty v else v);
          is \<leftarrow> block_insts (layout u) bb;
          foldM (verify_placed_inst ord u dt bb) is v }"

definition unit_domtree :: "(nat set \<Rightarrow> nat list) \<Rightarrow> unit_data \<Rightarrow> dominator_tree option" where
  "unit_domtree ord u =
     do { pt \<leftarrow> predtbl (dfg u) (layout u); domtree_new ord (pt2_capacity (cblocks (cfg u))) (layout u) pt }"

text \<open>The return type and the flags that the checks of instructions read.\<close>

definition enter_unit :: "unit_data \<Rightarrow> verifier \<Rightarrow> verifier option" where
  "enter_unit u v =
     do { let v = v\<lparr>vunit := Some (ukind u, uname u)\<rparr>;
          case ukind u of
            FunctionUnit \<Rightarrow> do { t \<leftarrow> return_type (usig u); Some (v\<lparr>vreturn := Some t, vflags := {FUNCTION}\<rparr>) }
          | ProcessUnit \<Rightarrow> Some (v\<lparr>vflags := {PROCESS}\<rparr>)
          | EntityUnit \<Rightarrow> Some (v\<lparr>vflags := {ENTITY}\<rparr>) }"

definition verify_unit :: "(nat set \<Rightarrow> nat list) \<Rightarrow> unit_data \<Rightarrow> verifier \<Rightarrow> verifier option" where
  "verify_unit ord u v =
     do { v \<leftarrow> enter_unit u v;
          dt \<leftarrow> unit_domtree ord u;
          let v = (if first_bb (layout u) = None then push_error NoObject MsgNoEntry v else v);
          bs \<leftarrow> blocks (layout u);
          v \<leftarrow> foldM (verify_bb ord u dt) bs v;
          Some (v\<lparr>vunit := None, vreturn := None\<rparr>) }"

definition verify_module :: "(nat set \<Rightarrow> nat list) \<Rightarrow> llhd_module \<Rightarrow> verifier \<Rightarrow> verifier option" where
  "verify_module ord m v =
     do { us \<leftarrow> module_units m; foldM (\<lambda>p. verify_unit ord (snd p)) us v }"

definition verifier_finish :: "verifier \<Rightarrow> verifier_error list + unit" where
  "verifier_finish v = (if verrors v = [] then Inr () else Inl (verrors v))"

definition module_verify :: "(nat set \<Rightarrow> nat list) \<Rightarrow> llhd_module \<Rightarrow> unit option" where
  "module_verify ord m =
     do { v \<leftarrow> verify_module ord m verifier_new;
          case verifier_finish v of Inr _ \<Rightarrow> Some () | Inl _ \<Rightarrow> None }"

section \<open>Errors are only added\<close>

text \<open>What a check keeps, and that it adds errors at the end only.\<close>

definition adds :: "verifier \<Rightarrow> verifier \<Rightarrow> bool" where
  "adds v w \<longleftrightarrow> (\<exists>es. verrors w = verrors v @ es) \<and> vflags w = vflags v \<and> vreturn w = vreturn v"

lemma adds_refl [simp]: "adds v v"
  by (simp add: adds_def)

lemma adds_trans: "adds u v \<Longrightarrow> adds v w \<Longrightarrow> adds u w"
  by (auto simp: adds_def)

lemma adds_push [simp]: "adds v (push_error obj m v)"
  by (simp add: adds_def push_error_def)

lemma adds_length: "adds v w \<Longrightarrow> length (verrors v) \<le> length (verrors w)"
  by (auto simp: adds_def)

lemma adds_none: "adds v w \<Longrightarrow> length (verrors w) = length (verrors v) \<Longrightarrow> verrors w = verrors v"
  by (auto simp: adds_def)

lemma adds_quiet:
  assumes "adds u v" "adds v w" "verrors w = verrors u"
  shows "verrors v = verrors u" "verrors w = verrors v"
proof -
  have "length (verrors v) = length (verrors u)" using adds_length[OF assms(1)] adds_length[OF assms(2)] assms(3) by simp
  then show "verrors v = verrors u" by (rule adds_none[OF assms(1)])
  then show "verrors w = verrors v" using assms(3) by simp
qed

lemma adds_foldM:
  assumes "foldM f xs v = Some w" "\<And>x v w. f x v = Some w \<Longrightarrow> adds v w"
  shows "adds v w"
proof (rule foldM_invariant[where P = "adds v", OF assms(1)])
  show "adds v s'" if "adds v s" "f x s = Some s'" for x s s'
    using adds_trans[OF that(1) assms(2)[OF that(2)]] .
qed simp

text \<open>When a fold has added no error, no step of it has.\<close>

lemma quiet_fold:
  assumes "\<And>x v w. f x v = Some w \<Longrightarrow> adds v w"
  shows "foldM f xs v = Some w \<Longrightarrow> verrors w = verrors v \<Longrightarrow>
    \<forall>x \<in> set xs. \<exists>a b. f x a = Some b \<and> verrors b = verrors a \<and> vflags a = vflags v \<and> vreturn a = vreturn v"
proof (induction xs arbitrary: v)
  case (Cons x xs)
  obtain a where a: "f x v = Some a" "foldM f xs a = Some w" using Cons.prems(1) by (auto split: option.splits)
  have le: "adds v a" "adds a w" by (rule assms[OF a(1)], rule adds_foldM[OF a(2)], rule assms)
  then have q: "verrors a = verrors v" "verrors w = verrors a" by (rule adds_quiet[OF _ _ Cons.prems(2)])+
  have "vflags a = vflags v" "vreturn a = vreturn v" using le(1) by (simp_all add: adds_def)
  then show ?case using Cons.IH[OF a(2) q(2)] a(1) q(1) by auto
qed simp

lemma adds_pushes: "adds v (fold (push_error obj) ms v)"
proof (induction ms arbitrary: v)
  case (Cons m ms)
  then show ?case using adds_trans[OF adds_push Cons.IH] by simp
qed simp

lemma pushes_quiet: "verrors (fold (push_error obj) ms v) = verrors v \<longleftrightarrow> ms = []"
proof (cases ms)
  case (Cons m ms')
  have "length (verrors v) < length (verrors (push_error obj m v))" by (simp add: push_error_def)
  then have "length (verrors v) < length (verrors (fold (push_error obj) ms v))"
    using adds_length[OF adds_pushes[of "push_error obj m v" obj ms']] Cons by simp
  then show ?thesis using Cons by auto
qed simp

lemma adds_steps:
  "verifier_inst u i v = Some w \<Longrightarrow> adds v w"
  "verify_use u dt i k v = Some w \<Longrightarrow> adds v w"
  by (auto simp: verifier_inst_def verify_use_def bind_Some_iff adds_pushes)

lemma placed_inst_quiet:
  assumes "verify_placed_inst ord u dt bb i v = Some w"
  shows "adds v w" and "verrors w = verrors v \<Longrightarrow> \<exists>d last. pt2_index (dinsts (dfg u)) i = Some d \<and>
    block_last_inst (layout u) bb = Some last \<and> (op_is_terminator (opcode_of d) \<longleftrightarrow> Some i = last) \<and>
    verify_inst (vflags v) (vreturn v) (dfg u) (layout u) i = Some [] \<and>
    (\<forall>r. get_inst_result (dfg u) i = Some r \<longrightarrow> (\<exists>us. uses (dfg u) r = Some us \<and>
       (\<forall>k \<in> set (ord us). inst_dominates_inst dt (dfg u) (layout u) i k = Some True)))"
proof -
  obtain d last where d: "pt2_index (dinsts (dfg u)) i = Some d" "block_last_inst (layout u) bb = Some last"
    using assms by (auto simp: verify_placed_inst_def bind_Some_iff)
  define v1 where "v1 = (if op_is_terminator (opcode_of d) \<and> Some i \<noteq> last then push_error (InstObject i) (MsgTerminatorInside bb) v else v)"
  define v2 where "v2 = (if Some i = last \<and> \<not> op_is_terminator (opcode_of d) then push_error (BlockObject bb) (MsgLastNotTerminator i) v1 else v1)"
  obtain v3 where v3: "verifier_inst u i v2 = Some v3"
    "(case get_inst_result (dfg u) i of None \<Rightarrow> Some v3
      | Some r \<Rightarrow> do { us \<leftarrow> uses (dfg u) r; foldM (verify_use u dt i) (ord us) v3 }) = Some w"
    using assms d unfolding v1_def v2_def by (auto simp: verify_placed_inst_def bind_Some_iff Let_def)
  have a1: "adds v v1" and a2: "adds v1 v2" by (simp_all add: v1_def v2_def)
  note a3 = adds_steps(1)[OF v3(1)]
  have a4: "adds v3 w" using v3(2) adds_foldM[of "verify_use u dt i"] adds_steps(2)
    by (cases "get_inst_result (dfg u) i") (auto simp: bind_Some_iff)
  show "adds v w" using a1 a2 a3 a4 adds_trans by blast
  assume q: "verrors w = verrors v"
  note le = adds_length[OF a1] adds_length[OF a2] adds_length[OF a3] adds_length[OF a4]
  have "length (verrors w) = length (verrors v)" using q by simp
  then have eq: "verrors v1 = verrors v" "verrors v2 = verrors v1" "verrors v3 = verrors v2" "verrors w = verrors v3"
    using le adds_none[OF a1] adds_none[OF a2] adds_none[OF a3] adds_none[OF a4] by linarith+
  have t: "op_is_terminator (opcode_of d) \<longleftrightarrow> Some i = last"
    using eq(1,2) unfolding v1_def v2_def by (auto simp: push_error_def split: if_splits)
  then have v2: "v2 = v" unfolding v1_def v2_def by auto
  have inst: "verify_inst (vflags v) (vreturn v) (dfg u) (layout u) i = Some []"
    using v3(1) eq(3) unfolding v2 by (auto simp: verifier_inst_def bind_Some_iff pushes_quiet)
  have dom: "\<exists>us. uses (dfg u) r = Some us \<and> (\<forall>k \<in> set (ord us). inst_dominates_inst dt (dfg u) (layout u) i k = Some True)"
    if r: "get_inst_result (dfg u) i = Some r" for r
  proof -
    obtain us where us: "uses (dfg u) r = Some us" "foldM (verify_use u dt i) (ord us) v3 = Some w"
      using v3(2) r by (auto simp: bind_Some_iff)
    have "\<forall>k \<in> set (ord us). \<exists>a b. verify_use u dt i k a = Some b \<and> verrors b = verrors a \<and> vflags a = vflags v3 \<and> vreturn a = vreturn v3"
      by (rule quiet_fold[where f = "verify_use u dt i", OF _ us(2) eq(4)]) (rule adds_steps(2))
    then have "\<forall>k \<in> set (ord us). inst_dominates_inst dt (dfg u) (layout u) i k = Some True"
      by (auto simp: verify_use_def bind_Some_iff push_error_def split: if_splits)
    then show ?thesis using us(1) by blast
  qed
  show "\<exists>d last. pt2_index (dinsts (dfg u)) i = Some d \<and>
    block_last_inst (layout u) bb = Some last \<and> (op_is_terminator (opcode_of d) \<longleftrightarrow> Some i = last) \<and>
    verify_inst (vflags v) (vreturn v) (dfg u) (layout u) i = Some [] \<and>
    (\<forall>r. get_inst_result (dfg u) i = Some r \<longrightarrow> (\<exists>us. uses (dfg u) r = Some us \<and>
       (\<forall>k \<in> set (ord us). inst_dominates_inst dt (dfg u) (layout u) i k = Some True)))"
    using d t inst dom by blast
qed

lemma bb_quiet:
  assumes "verify_bb ord u dt bb v = Some w"
  shows "adds v w" and "verrors w = verrors v \<Longrightarrow> block_first_inst (layout u) bb \<noteq> Some None \<and>
    (\<exists>is. block_insts (layout u) bb = Some is \<and> (\<forall>i \<in> set is. \<exists>a b. verify_placed_inst ord u dt bb i a = Some b \<and>
      verrors b = verrors a \<and> vflags a = vflags v \<and> vreturn a = vreturn v))"
proof -
  obtain first "is" where f: "block_first_inst (layout u) bb = Some first" "block_insts (layout u) bb = Some is"
    "foldM (verify_placed_inst ord u dt bb) is (if first = None then push_error (BlockObject bb) MsgBlockEmpty v else v) = Some w"
    using assms by (auto simp: verify_bb_def bind_Some_iff Let_def)
  let ?v = "if first = None then push_error (BlockObject bb) MsgBlockEmpty v else v"
  have a: "adds v ?v" "adds ?v w" using adds_foldM[OF f(3) placed_inst_quiet(1)] by simp_all
  show "adds v w" by (rule adds_trans[OF a])
  assume q: "verrors w = verrors v"
  then have q': "verrors ?v = verrors v" "verrors w = verrors ?v" by (rule adds_quiet[OF a])+
  then have "first \<noteq> None" by (auto simp: push_error_def split: if_splits)
  then show "block_first_inst (layout u) bb \<noteq> Some None \<and>
    (\<exists>is. block_insts (layout u) bb = Some is \<and> (\<forall>i \<in> set is. \<exists>a b. verify_placed_inst ord u dt bb i a = Some b \<and>
      verrors b = verrors a \<and> vflags a = vflags v \<and> vreturn a = vreturn v))"
    using f q quiet_fold[where f = "verify_placed_inst ord u dt bb" and xs = "is" and v = v and w = w, OF placed_inst_quiet(1)] by auto
qed

end
