(* ===== verification/VerifyUnitProps.thy ===== *)
theory VerifyUnitProps
  imports VerifyUnit
begin

text \<open>
  What a unit that verifies without errors satisfies: its blocks end, and only end, in terminators, its
  instructions pass their checks, and definitions dominate their uses, along every path.
\<close>

section \<open>Dominance between instructions\<close>

lemma prev_inst_nth:
  assumes rep: "fl_rep l xs" and mem: "(b, is) \<in> set xs" and j: "j < length is"
  shows "prev_inst l (is ! j) = Some (if j = 0 then None else Some (is ! (j - 1)))"
proof -
  have "is = take j is @ is ! j # drop (Suc j) is" by (rule id_take_nth_drop[OF j])
  then have "prev_inst l (is ! j) = Some (last_opt (take j is))" using layout_navigation[OF rep, of b "take j is" "is ! j"] mem by metis
  moreover have "last_opt (take j is) = (if j = 0 then None else Some (is ! (j - 1)))"
    using j by (auto simp: last_opt_def last_conv_nth)
  ultimately show ?thesis by simp
qed

lemma step_back_walk:
  assumes rep: "fl_rep l xs" and mem: "(b, is) \<in> set xs" and p: "p < length is" and c: "c < length is" and ne: "p \<noteq> c"
  shows "k \<le> p \<Longrightarrow> k \<le> c \<Longrightarrow> (p < c \<longrightarrow> k < c - p) \<Longrightarrow> (c < p \<longrightarrow> k < p - c) \<Longrightarrow>
    step_back l (is ! p) (is ! c) (is ! (p - k)) (is ! (c - k)) = Some (p < c)"
proof (induction "p + c - 2 * k" arbitrary: k rule: less_induct)
  case less
  note prev = prev_inst_nth[OF rep mem]
  have dis: "is ! a = is ! b \<longleftrightarrow> a = b" if "a < length is" "b < length is" for a b
    using nth_eq_iff_index_eq[OF fl_rep_distinct[OF rep mem] that] .
  have pc: "prev_inst l (is ! (c - k)) = Some (if c - k = 0 then None else Some (is ! (c - k - 1)))"
    and pp: "prev_inst l (is ! (p - k)) = Some (if p - k = 0 then None else Some (is ! (p - k - 1)))"
    using prev p c by simp_all
  consider (child_end) "c = k" | (meet) "c \<noteq> k" "c - k - 1 = p" | (parent_end) "c \<noteq> k" "c - k - 1 \<noteq> p" "p = k"
    | (swap) "c \<noteq> k" "c - k - 1 \<noteq> p" "p \<noteq> k" "p - k - 1 = c" | (on) "c \<noteq> k" "c - k - 1 \<noteq> p" "p \<noteq> k" "p - k - 1 \<noteq> c" by blast
  then show ?case
  proof cases
    case child_end
    then show ?thesis using less.prems pc by (subst step_back.simps) auto
  next
    case meet
    then show ?thesis using less.prems pc by (subst step_back.simps) auto
  next
    case parent_end
    have "is ! (c - k - 1) \<noteq> is ! p" using dis[of "c - k - 1" p] parent_end(2) c p by simp
    then show ?thesis using parent_end less.prems ne pc pp by (subst step_back.simps) auto
  next
    case swap
    have "is ! (c - k - 1) \<noteq> is ! p" using dis[of "c - k - 1" p] swap(2) c p by simp
    then show ?thesis using swap less.prems pc pp by (subst step_back.simps) auto
  next
    case on
    have n: "is ! (c - k - 1) \<noteq> is ! p" "is ! (p - k - 1) \<noteq> is ! c"
      using dis[of "c - k - 1" p] dis[of "p - k - 1" c] on(2,4) c p by simp_all
    have "step_back l (is ! p) (is ! c) (is ! (p - Suc k)) (is ! (c - Suc k)) = Some (p < c)"
      by (rule less.hyps) (use on less.prems in auto)
    then show ?thesis using on n less.prems pc pp by (subst step_back.simps) auto
  qed
qed

text \<open>\<open>k\<close> comes after \<open>i\<close> in the list.\<close>

definition comes_after :: "nat list \<Rightarrow> nat \<Rightarrow> nat \<Rightarrow> bool" where
  "comes_after is i k \<longleftrightarrow> (\<exists>p c. p < c \<and> c < length is \<and> is ! p = i \<and> is ! c = k)"

lemma inst_dominates_inst_correct:
  assumes rep: "fl_rep l xs" and i: "(b, is) \<in> set xs" "i \<in> set is" and k: "(c, js) \<in> set xs" "k \<in> set js" "i \<noteq> k"
    and d: "pt2_index (dinsts g) k = Some d" "opcode_of d \<noteq> OpPhi"
  shows "inst_dominates_inst dt g l i k = (if b = c then Some (comes_after is i k) else block_dominates_block dt b c)"
proof -
  have at: "inst_block l i = Some b" "inst_block l k = Some c"
    using fl_repD(4)[OF rep] i k unfolding inst_block_def by fastforce+
  have step: "step_back l i k i k = Some (comes_after is i k)" if "b = c"
  proof -
    have eq: "js = is" using key_unique[OF fl_repD(2)[OF rep] i(1) k(1)] that by simp
    obtain p where p: "p < length is" "is ! p = i" using i(2) by (meson in_set_conv_nth)
    obtain q where q: "q < length is" "is ! q = k" using k(2) unfolding eq by (meson in_set_conv_nth)
    have "p \<noteq> q" using p q k(3) by auto
    from step_back_walk[OF rep i(1) p(1) q(1) this, of 0] this have "step_back l i k i k = Some (p < q)" using p(2) q(2) by auto
    moreover have "comes_after is i k \<longleftrightarrow> p < q"
      using p q nth_eq_iff_index_eq[OF fl_rep_distinct[OF rep i(1)]] unfolding comes_after_def by (metis order_less_trans)
    ultimately show ?thesis by simp
  qed
  show ?thesis using at d k(3) step by (simp add: inst_dominates_inst_def)
qed

section \<open>Verified units\<close>

lemma enter_unit_quiet:
  assumes "enter_unit u v = Some w"
  shows "verrors w = verrors v" "ukind u = FunctionUnit \<Longrightarrow> vreturn w = retty (usig u)"
    "vflags w = (case ukind u of FunctionUnit \<Rightarrow> {FUNCTION} | ProcessUnit \<Rightarrow> {PROCESS} | EntityUnit \<Rightarrow> {ENTITY})"
  using assms by (auto simp: enter_unit_def return_type_def Let_def bind_Some_iff split: unit_kind.splits)

lemma verify_unit_quiet:
  assumes run: "verify_unit ord u v = Some v'" and q: "verrors v' = verrors v"
  obtains w dt bs where "enter_unit u v = Some w" "unit_domtree ord u = Some dt" "blocks (layout u) = Some bs"
    "\<forall>b \<in> set bs. \<exists>a c. verify_bb ord u dt b a = Some c \<and> verrors c = verrors a \<and> vflags a = vflags w \<and> vreturn a = vreturn w"
proof -
  obtain w dt bs x where r: "enter_unit u v = Some w" "unit_domtree ord u = Some dt" "blocks (layout u) = Some bs"
    "foldM (verify_bb ord u dt) bs (if first_bb (layout u) = None then push_error NoObject MsgNoEntry w else w) = Some x"
    "verrors v' = verrors x"
    using run by (auto simp: verify_unit_def bind_Some_iff Let_def)
  let ?w = "if first_bb (layout u) = None then push_error NoObject MsgNoEntry w else w"
  have a: "adds w ?w" "adds ?w x" using adds_foldM[OF r(4) bb_quiet(1)] by simp_all
  have "verrors x = verrors w" using q r(5) enter_unit_quiet(1)[OF r(1)] by simp
  then have "verrors ?w = verrors w" "verrors x = verrors ?w" by (rule adds_quiet[OF a])+
  moreover from this(1) have "?w = w" by (auto simp: push_error_def split: if_splits)
  ultimately have "\<forall>b \<in> set bs. \<exists>a c. verify_bb ord u dt b a = Some c \<and> verrors c = verrors a \<and> vflags a = vflags w \<and> vreturn a = vreturn w"
    using quiet_fold[where f = "verify_bb ord u dt", OF bb_quiet(1) r(4)] by simp
  then show ?thesis using that r(1-3) by blast
qed

text \<open>What the checks of one instruction in its place amount to.\<close>

definition inst_placed :: "(nat set \<Rightarrow> nat list) \<Rightarrow> unit_data \<Rightarrow> dominator_tree \<Rightarrow> unit_flags \<Rightarrow> ty option \<Rightarrow> nat list \<Rightarrow> nat \<Rightarrow> bool" where
  "inst_placed ord u dt flags ret is i \<longleftrightarrow> (\<exists>d. pt2_index (dinsts (dfg u)) i = Some d \<and>
     (op_is_terminator (opcode_of d) \<longleftrightarrow> i = last is)) \<and>
     verify_inst flags ret (dfg u) (layout u) i = Some [] \<and>
     (\<forall>r. get_inst_result (dfg u) i = Some r \<longrightarrow> (\<exists>us. uses (dfg u) r = Some us \<and>
       (\<forall>k \<in> set (ord us). inst_dominates_inst dt (dfg u) (layout u) i k = Some True)))"

lemma verified_blocks:
  assumes rep: "fl_rep (layout u) xs" and run: "verify_unit ord u v = Some v'" and q: "verrors v' = verrors v"
  shows "\<exists>dt ret. unit_domtree ord u = Some dt \<and> (ukind u = FunctionUnit \<longrightarrow> ret = retty (usig u)) \<and>
    (\<forall>(b, is) \<in> set xs. is \<noteq> [] \<and> (\<forall>i \<in> set is. inst_placed ord u dt
       (case ukind u of FunctionUnit \<Rightarrow> {FUNCTION} | ProcessUnit \<Rightarrow> {PROCESS} | EntityUnit \<Rightarrow> {ENTITY}) ret is i))"
proof -
  obtain w dt bs where r: "enter_unit u v = Some w" "unit_domtree ord u = Some dt" "blocks (layout u) = Some bs"
    and ok: "\<forall>b \<in> set bs. \<exists>a c. verify_bb ord u dt b a = Some c \<and> verrors c = verrors a \<and> vflags a = vflags w \<and> vreturn a = vreturn w"
    by (rule verify_unit_quiet[OF run q])
  note w = enter_unit_quiet[OF r(1)]
  have bs: "bs = map fst xs" using r(3) fl_rep_all_insts(1)[OF rep] by simp
  have "is \<noteq> [] \<and> (\<forall>i \<in> set is. inst_placed ord u dt (vflags w) (vreturn w) is i)" if mem: "(b, is) \<in> set xs" for b "is"
  proof -
    have "b \<in> set bs" using mem unfolding bs by force
    with ok obtain a c where a: "verify_bb ord u dt b a = Some c" "verrors c = verrors a" "vflags a = vflags w" "vreturn a = vreturn w" by blast
    note bb = bb_quiet(2)[OF a(1,2)]
    have insts: "block_insts (layout u) b = Some is" using fl_rep_insts[OF rep mem] by simp
    have lst: "block_last_inst (layout u) b = Some (last_opt is)" by (rule fl_rep_last[OF rep mem])
    obtain il where il: "block_layouts (bbs (layout u)) b = Some il" "il_rep il is" using fl_repD(3)[OF rep mem] by auto
    have ne: "is \<noteq> []"
    proof
      assume "is = []"
      then have "block_first_inst (layout u) b = Some None" using il
        by (auto simp: block_layouts_def block_first_inst_def st_index_def il_rep_def dll_def)
      then show False using bb by simp
    qed
    have "inst_placed ord u dt (vflags w) (vreturn w) is i" if i: "i \<in> set is" for i
    proof -
      obtain a' b' where p: "verify_placed_inst ord u dt b i a' = Some b'" "verrors b' = verrors a'" "vflags a' = vflags w" "vreturn a' = vreturn w"
        using bb insts i a(3,4) by auto
      show ?thesis using placed_inst_quiet(2)[OF p(1,2)] lst ne unfolding inst_placed_def p(3,4) by (auto simp: last_opt_def)
    qed
    then show ?thesis using ne by blast
  qed
  then show ?thesis using r(2) w(2,3) by (intro exI[of _ dt] exI[of _ "vreturn w"]) auto
qed

lemma unit_domtree_paths:
  assumes rep: "fl_rep (layout u) xs" and dt: "unit_domtree ord u = Some dt" and ins: "\<forall>i \<in> members xs. pt2_index (dinsts (dfg u)) i \<noteq> None"
    and reach: "\<forall>b \<in> keys xs. (branches (\<lambda>_. False) (dfg u) xs)\<^sup>*\<^sup>* (fst (hd xs)) b"
    and cap: "keys xs \<subseteq> {..<pt2_capacity (cblocks (cfg u))}" "pt2_capacity (cblocks (cfg u)) < 2 ^ 32" and ord: "lists_sets ord"
    and a: "a \<in> keys xs" and b: "b \<in> keys xs"
  shows "block_dominates_block dt a b = Some (dom_by (branches (\<lambda>_. False) (dfg u) xs) (fst (hd xs)) a b)"
proof -
  obtain t where t: "pred_table_skip (\<lambda>_. False) (dfg u) (layout u) = Some t"
    "domtree_new ord (pt2_capacity (cblocks (cfg u))) (layout u) t = Some dt"
    using dt by (auto simp: unit_domtree_def predtbl_def bind_Some_iff)
  note T = pred_table_of[OF rep ins t(1)]
  have ne: "xs \<noteq> []" using a by (auto simp: keys_def)
  have G: "rooted_graph (branches (\<lambda>_. False) (dfg u) xs) (fst (hd xs)) (keys xs)"
    using T(2) ne reach unfolding rooted_graph_def keys_def by auto
  have e: "entry_block (layout u) = Some (fst (hd xs))" using rep_entry[OF rep] ne by (cases xs) auto
  have "set (map fst xs) = keys xs" by (simp add: keys_def)
  from domtree_built[OF e fl_rep_all_insts(1)[OF rep] this G T(1) ord cap(1)] cap(2) t(2) a b
  show ?thesis by (auto simp: no_dom_def)
qed

section \<open>Units that are accepted\<close>

lemma foldM_stays: "(\<And>x. x \<in> set xs \<Longrightarrow> f x v = Some v) \<Longrightarrow> foldM f xs v = Some v"
  by (induction xs) auto

lemma placed_inst_accepts:
  assumes "inst_placed ord u dt (vflags v) (vreturn v) is i" "block_last_inst (layout u) bb = Some (Some (last is))"
  shows "verify_placed_inst ord u dt bb i v = Some v"
proof -
  obtain d where d: "pt2_index (dinsts (dfg u)) i = Some d" "op_is_terminator (opcode_of d) \<longleftrightarrow> i = last is"
    using assms(1) unfolding inst_placed_def by blast
  have vi: "verifier_inst u i v = Some v" using assms(1) by (simp add: verifier_inst_def inst_placed_def)
  have "foldM (verify_use u dt i) (ord us) v = Some v" if "get_inst_result (dfg u) i = Some r" "uses (dfg u) r = Some us" for r us
    using assms(1) that unfolding inst_placed_def by (intro foldM_stays) (auto simp: verify_use_def)
  moreover have "\<exists>us. uses (dfg u) r = Some us" if "get_inst_result (dfg u) i = Some r" for r
    using assms(1) that unfolding inst_placed_def by blast
  ultimately show ?thesis using d assms(2) vi by (auto simp: verify_placed_inst_def split: option.splits)
qed

lemma verify_unit_accepts:
  assumes rep: "fl_rep (layout u) xs" and enter: "enter_unit u v = Some w" and dt: "unit_domtree ord u = Some dt" and ne: "xs \<noteq> []"
    and ok: "\<And>b is. (b, is) \<in> set xs \<Longrightarrow> is \<noteq> []"
      "\<And>b is i. (b, is) \<in> set xs \<Longrightarrow> i \<in> set is \<Longrightarrow> inst_placed ord u dt (vflags w) (vreturn w) is i"
  shows "verify_unit ord u v = Some (w\<lparr>vunit := None, vreturn := None\<rparr>)"
proof -
  have bb: "verify_bb ord u dt b w = Some w" if b: "b \<in> set (map fst xs)" for b
  proof -
    obtain "is" where mem: "(b, is) \<in> set xs" using b by auto
    obtain il where il: "block_layouts (bbs (layout u)) b = Some il" "il_rep il is" using fl_repD(3)[OF rep mem] by auto
    have l: "block_last_inst (layout u) b = Some (Some (last is))" using fl_rep_last[OF rep mem] ok(1)[OF mem] by (simp add: last_opt_def)
    have f: "block_first_inst (layout u) b = Some (Some (hd is))" using il ok(1)[OF mem]
      by (cases "is") (auto simp: block_layouts_def block_first_inst_def st_index_def il_rep_def dll_def hd_opt_def)
    have "foldM (verify_placed_inst ord u dt b) is w = Some w"
      by (rule foldM_stays) (rule placed_inst_accepts[OF ok(2)[OF mem] l])
    then show ?thesis using f fl_rep_insts[OF rep mem] by (simp add: verify_bb_def)
  qed
  have "foldM (verify_bb ord u dt) (map fst xs) w = Some w" by (rule foldM_stays) (rule bb)
  moreover have "first_bb (layout u) \<noteq> None" using rep_entry[OF rep] ne by (cases xs) (auto simp: entry_block_def hd_opt_def)
  ultimately show ?thesis using enter dt fl_rep_all_insts(1)[OF rep]
    by (cases "first_bb (layout u)") (simp_all add: verify_unit_def)
qed

text \<open>The tree exists when every block is reachable.\<close>

lemma unit_domtree_exists:
  assumes rep: "fl_rep (layout u) xs" and ne: "xs \<noteq> []" and ins: "\<forall>i \<in> members xs. pt2_index (dinsts (dfg u)) i \<noteq> None"
    and inside: "\<forall>a b. branches (\<lambda>_. False) (dfg u) xs a b \<longrightarrow> b \<in> keys xs"
    and reach: "\<forall>b \<in> keys xs. (branches (\<lambda>_. False) (dfg u) xs)\<^sup>*\<^sup>* (fst (hd xs)) b"
    and cap: "keys xs \<subseteq> {..<pt2_capacity (cblocks (cfg u))}" "pt2_capacity (cblocks (cfg u)) < 2 ^ 32" and ord: "lists_sets ord"
  shows "\<exists>dt. unit_domtree ord u = Some dt"
proof -
  obtain t where t: "pred_table_skip (\<lambda>_. False) (dfg u) (layout u) = Some t"
    using pred_table_built[OF rep ins] inside by simp
  note T = pred_table_of[OF rep ins t]
  have G: "rooted_graph (branches (\<lambda>_. False) (dfg u) xs) (fst (hd xs)) (keys xs)"
    using T(2) ne reach unfolding rooted_graph_def keys_def by auto
  have e: "entry_block (layout u) = Some (fst (hd xs))" using rep_entry[OF rep] ne by (cases xs) auto
  have "set (map fst xs) = keys xs" by (simp add: keys_def)
  from domtree_built[OF e fl_rep_all_insts(1)[OF rep] this G T(1) ord cap(1)] cap(2) t
  show ?thesis by (auto simp: no_dom_def unit_domtree_def predtbl_def)
qed

text \<open>Without a block there is no entry block for the tree, so the check for one is never reached.\<close>

lemma verify_empty_unit:
  assumes "fl_rep (layout u) []"
  shows "verify_unit ord u v = None"
proof -
  have "entry_block (layout u) = None" using rep_entry[OF assms] by simp
  then have "domtree_new ord n (layout u) t = None" for n t by (simp add: domtree_new_def compute_blocks_post_order_def)
  then have "unit_domtree ord u = None" by (cases "predtbl (dfg u) (layout u)") (simp_all add: unit_domtree_def)
  then show ?thesis by (cases "enter_unit u v") (simp_all add: verify_unit_def)
qed

end
