(* ===== verification/VerifiedUnits.thy ===== *)
theory VerifiedUnits
  imports VerifyUnitProps DceHazard
begin

text \<open>The properties of the verifier's traversal.\<close>

section \<open>Verified units are well-formed\<close>

text \<open>
  C30: a unit that the verifier accepts, and all of whose blocks are reached from the entry block, is
  well-formed. Every block ends in a terminator and has no other; every instruction passes the checks
  of the instruction verifier for the kind and the return type of its unit; and every use of a
  result by another instruction that is no phi node is dominated by the definition: in the same
  block the use comes later, in another block every path of branches from the entry block to the
  use visits the block of the definition. (An instruction that uses its own result is accepted.)
\<close>
theorem verified_unit_wellformed:
  assumes "verify_unit ord u v = Some v'" "verrors v' = verrors v" "fl_rep (layout u) xs" "lists_sets ord"
    and "\<forall>b \<in> keys xs. (branches (\<lambda>_. False) (dfg u) xs)\<^sup>*\<^sup>* (fst (hd xs)) b"
    and "keys xs \<subseteq> {..<pt2_capacity (cblocks (cfg u))}" "pt2_capacity (cblocks (cfg u)) < 2 ^ 32"
  shows "(\<exists>ret. (ukind u = FunctionUnit \<longrightarrow> ret = retty (usig u)) \<and> (\<forall>(b, is) \<in> set xs. is \<noteq> [] \<and>
      (\<forall>i \<in> set is. (\<exists>d. pt2_index (dinsts (dfg u)) i = Some d \<and> (op_is_terminator (opcode_of d) \<longleftrightarrow> i = last is)) \<and>
        verify_inst (case ukind u of FunctionUnit \<Rightarrow> {FUNCTION} | ProcessUnit \<Rightarrow> {PROCESS} | EntityUnit \<Rightarrow> {ENTITY}) ret
          (dfg u) (layout u) i = Some []))) \<and>
    (\<forall>b is c js i k r us d. (b, is) \<in> set xs \<longrightarrow> i \<in> set is \<longrightarrow> get_inst_result (dfg u) i = Some r \<longrightarrow> uses (dfg u) r = Some us \<longrightarrow>
      finite us \<longrightarrow> k \<in> us \<longrightarrow> (c, js) \<in> set xs \<longrightarrow> k \<in> set js \<longrightarrow> k \<noteq> i \<longrightarrow>
      pt2_index (dinsts (dfg u)) k = Some d \<longrightarrow> opcode_of d \<noteq> OpPhi \<longrightarrow>
      (if b = c then comes_after is i k else dom_by (branches (\<lambda>_. False) (dfg u) xs) (fst (hd xs)) b c))"
proof -
  obtain dt ret where dt: "unit_domtree ord u = Some dt" and ret: "ukind u = FunctionUnit \<longrightarrow> ret = retty (usig u)"
    and ok: "\<forall>(b, is) \<in> set xs. is \<noteq> [] \<and> (\<forall>i \<in> set is. inst_placed ord u dt
       (case ukind u of FunctionUnit \<Rightarrow> {FUNCTION} | ProcessUnit \<Rightarrow> {PROCESS} | EntityUnit \<Rightarrow> {ENTITY}) ret is i)"
    using verified_blocks[OF assms(3,1,2)] by blast
  have ins: "\<forall>i \<in> members xs. pt2_index (dinsts (dfg u)) i \<noteq> None"
    using ok unfolding inst_placed_def members_def by fastforce
  have dom: "if b = c then comes_after is i k else dom_by (branches (\<lambda>_. False) (dfg u) xs) (fst (hd xs)) b c"
    if i: "(b, is) \<in> set xs" "i \<in> set is" and r: "get_inst_result (dfg u) i = Some r" "uses (dfg u) r = Some us" "finite us" "k \<in> us"
      and k: "(c, js) \<in> set xs" "k \<in> set js" "k \<noteq> i" "pt2_index (dinsts (dfg u)) k = Some d" "opcode_of d \<noteq> OpPhi"
    for b "is" c js i k r us d
  proof -
    have "k \<in> set (ord us)" using r(3,4) assms(4) unfolding lists_sets_def by blast
    then have t: "inst_dominates_inst dt (dfg u) (layout u) i k = Some True" using ok i r(1,2) unfolding inst_placed_def by fastforce
    have "b \<in> keys xs" "c \<in> keys xs" using i(1) k(1) by (force simp: keys_def)+
    note d = unit_domtree_paths[OF assms(3) dt ins assms(5-7,4) this]
    show ?thesis using t inst_dominates_inst_correct[OF assms(3) i k(1,2) k(3)[symmetric] k(4,5), of dt] d by (auto split: if_splits)
  qed
  show ?thesis
  proof (intro conjI exI[of _ ret] allI impI)
    show "\<forall>(b, is) \<in> set xs. is \<noteq> [] \<and> (\<forall>i \<in> set is. (\<exists>d. pt2_index (dinsts (dfg u)) i = Some d \<and>
        (op_is_terminator (opcode_of d) \<longleftrightarrow> i = last is)) \<and> verify_inst (case ukind u of FunctionUnit \<Rightarrow> {FUNCTION}
          | ProcessUnit \<Rightarrow> {PROCESS} | EntityUnit \<Rightarrow> {ENTITY}) ret (dfg u) (layout u) i = Some [])"
      using ok unfolding inst_placed_def by fast
  qed (use ret dom in blast)+
qed

section \<open>A unit that is accepted\<close>

lemma loop_edges: "branches (\<lambda>_. False) loop_graph loop_blocks a b \<longleftrightarrow> (a = 0 \<and> b = 1) \<or> (a = 1 \<and> b = 2) \<or> (a = 2 \<and> b = 1)"
proof -
  have "branches (\<lambda>_. False) loop_graph loop_blocks a b \<longleftrightarrow>
    (a = 0 \<and> b \<in> term_targets (\<lambda>_. False) loop_graph [0]) \<or> (a = 1 \<and> b \<in> term_targets (\<lambda>_. False) loop_graph [1, 2, 3, 4]) \<or>
    (a = 2 \<and> b \<in> term_targets (\<lambda>_. False) loop_graph [5, 6])"
    unfolding branches_def by (simp del: One_nat_def) blast
  then show ?thesis unfolding loop_terms by blast
qed

lemma loop_dominates: "dom_by (branches (\<lambda>_. False) loop_graph loop_blocks) 0 1 2"
  unfolding dom_by_def
proof (intro allI impI)
  fix ys assume "path (branches (\<lambda>_. False) loop_graph loop_blocks) 0 ys 2"
  from path_cases_end[OF this] obtain zs z where z: "ys = zs @ [2]" "path (branches (\<lambda>_. False) loop_graph loop_blocks) 0 zs z"
    "branches (\<lambda>_. False) loop_graph loop_blocks z 2" by auto
  have "z = 1" using z(3) unfolding loop_edges by simp
  then show "1 \<in> set ys" using path_mem[OF z(2)] z(1) by simp
qed

lemma loop_reachable:
  assumes "b \<in> keys loop_blocks"
  shows "(branches (\<lambda>_. False) loop_graph loop_blocks)\<^sup>*\<^sup>* (fst (hd loop_blocks)) b"
proof -
  let ?E = "branches (\<lambda>_. False) loop_graph loop_blocks"
  have "?E 0 1" "?E 1 2" unfolding loop_edges by simp_all
  then have "?E\<^sup>*\<^sup>* 0 1" "?E\<^sup>*\<^sup>* 0 2" by (auto intro: rtranclp.intros)
  moreover have "b \<in> {0, 1, 2}" using assms by (auto simp: keys_def)
  ultimately show ?thesis by auto
qed

lemma loop_defined:
  assumes "fl_rep l loop_blocks"
  shows "v \<in> {0, 1, 2} \<Longrightarrow> is_value_defined loop_graph l v = Some True" "b \<in> {0, 1, 2} \<Longrightarrow> is_block_defined l b"
proof -
  have i: "is_inst_inserted l 1" "is_inst_inserted l 2"
    using fl_rep_unmapped[OF assms] by (simp_all add: is_inst_inserted_def members_def del: not_None_eq)
  show "is_value_defined loop_graph l v = Some True" if "v \<in> {0, 1, 2}"
    using that i by (auto simp: is_value_defined_def loop_graph_def pt2_index_def idx_def)
  show "is_block_defined l b" if "b \<in> {0, 1, 2}"
  proof -
    have "\<exists>is. (b, is) \<in> set loop_blocks" using that by (elim insertE emptyE) simp_all
    then obtain "is" where mem: "(b, is) \<in> set loop_blocks" by blast
    obtain il where "block_layouts (bbs l) b = Some il" using fl_repD(3)[OF assms mem] unfolding fst_conv by blast
    then show ?thesis by (auto simp: is_block_defined_def is_block_inserted_def st_contains_def block_layouts_def)
  qed
qed

lemma loop_types:
  "value_type loop_graph 0 = Some (SignalType (IntType 1))" "value_type loop_graph 1 = Some (IntType 1)"
  "value_type loop_graph 2 = Some TimeType"
  by (simp_all add: value_type_def loop_graph_def pt2_index_def idx_def vd_type_def)

lemma loop_checks:
  assumes l: "fl_rep l loop_blocks" and i: "i \<in> {0, 1, 2, 3, 4, 5, 6}"
  shows "verify_inst {PROCESS} None loop_graph l i = Some []"
proof -
  have inv: "(0::nat) \<noteq> key_invalid" "(1::nat) \<noteq> key_invalid" "(2::nat) \<noteq> key_invalid" by (simp_all add: key_invalid_def)
  have v: "verify_value loop_graph l op v = Some (False, [])" if "v \<in> {0, 1, 2}" for op v
    using that inv loop_defined(1)[OF l that] by (auto simp: verify_value_def report_def)
  have b: "verify_block l op v = (False, [])" if "v \<in> {0, 1, 2}" for op v
    using that inv loop_defined(2)[OF l that] by (auto simp: verify_block_def report_def)
  have br: "verify_inst {PROCESS} None loop_graph l i = Some []" if "pt2_index (dinsts loop_graph) i = Some (IJump OpBr 1)" for i
    using that b[of 1] by (simp add: verify_inst_def opcode_of_def args_def inst_blocks_def valid_in_def verify_kind_def all_of_def assert_inst_jump_def report_def ALL_UNITS_def)
  have drv: "verify_inst {PROCESS} None loop_graph l i = Some []" if "pt2_index (dinsts loop_graph) i = Some (ITernary OpDrv 0 1 2)" for i
    using that v[of 0] v[of 1] v[of 2] loop_types
    by (simp add: verify_inst_def opcode_of_def args_def inst_blocks_def valid_in_def verify_kind_def all_of_def assert_inst_ternary_def
        verify_drv_inst_def verify_arg_matches_ty_def report_def ALL_UNITS_def idx_def)
  have k: "verify_inst {PROCESS} None loop_graph l 1 = Some []" "verify_inst {PROCESS} None loop_graph l 2 = Some []"
    "verify_inst {PROCESS} None loop_graph l 4 = Some []"
    using loop_index(2,3,5) b[of 2]
    by (simp_all add: verify_inst_def opcode_of_def args_def inst_blocks_def valid_in_def verify_kind_def all_of_def
        assert_inst_wait_def report_def ALL_UNITS_def del: One_nat_def)
  show ?thesis using i br[OF loop_index(1)] br[OF loop_index(7)] drv[OF loop_index(4)] drv[OF loop_index(6)] k
    by (elim insertE emptyE) (simp_all only:)
qed

lemma loop_results:
  "get_inst_result loop_graph i = (if i = 1 then Some 1 else if i = 2 then Some 2 else None)"
  "r \<in> {1, 2} \<Longrightarrow> uses loop_graph r = Some {3, 5}"
  by (auto simp: get_inst_result_def st_get_def uses_def loop_graph_def)

lemma loop_uses_dominated:
  assumes l: "fl_rep l loop_blocks" and dt: "block_dominates_block dt 1 2 = Some True" and i: "i \<in> {1, 2}" and k: "k \<in> {3, 5}"
  shows "inst_dominates_inst dt loop_graph l i k = Some True"
proof -
  have m: "(1, [1, 2, 3, 4]) \<in> set loop_blocks" "(2, [5, 6]) \<in> set loop_blocks" "i \<in> set [1, 2, 3, 4]" using i by auto
  have d: "pt2_index (dinsts loop_graph) k = Some (ITernary OpDrv 0 1 2)" "opcode_of (ITernary OpDrv 0 1 2) \<noteq> OpPhi"
    using k loop_index(4,6) by (auto simp: opcode_of_def)
  have after: "comes_after [1, 2, 3, 4] i 3" unfolding comes_after_def
    by (rule exI[of _ "i - 1"], rule exI[of _ 2]) (use i in auto)
  consider "k = 3" | "k = 5" using k by blast
  then show ?thesis
  proof cases
    case 1
    show ?thesis using inst_dominates_inst_correct[OF l m(1,3) m(1) _ _ d(1)[unfolded 1] d(2), of dt] i after unfolding 1 by auto
  next
    case 2
    show ?thesis using inst_dominates_inst_correct[OF l m(1,3) m(2) _ _ d(1)[unfolded 2] d(2), of dt] i dt unfolding 2 by auto
  qed
qed

lemma loop_accepted:
  assumes u: "fl_rep (layout u) loop_blocks" "dfg u = loop_graph" "ukind u = ProcessUnit" "pt2_capacity (cblocks (cfg u)) = 3"
  shows "\<exists>v'. verify_unit sorted_list_of_set u verifier_new = Some v' \<and> verrors v' = []"
proof -
  let ?w = "\<lparr>verrors = [], vunit = Some (ProcessUnit, uname u), vflags = {PROCESS}, vreturn = None\<rparr>"
  have enter: "enter_unit u verifier_new = Some ?w" using u(3) by (simp add: enter_unit_def verifier_new_def)
  have mem: "members loop_blocks = {0, 1, 2, 3, 4, 5, 6}" and keys: "keys loop_blocks = {0, 1, 2}" by (auto simp: members_def keys_def)
  have ins: "\<forall>i \<in> members loop_blocks. pt2_index (dinsts (dfg u)) i \<noteq> None" unfolding mem u(2) using loop_index by (simp del: One_nat_def)
  have inside: "\<forall>a b. branches (\<lambda>_. False) (dfg u) loop_blocks a b \<longrightarrow> b \<in> keys loop_blocks" unfolding u(2) loop_edges keys by blast
  have reach: "\<forall>b \<in> keys loop_blocks. (branches (\<lambda>_. False) (dfg u) loop_blocks)\<^sup>*\<^sup>* (fst (hd loop_blocks)) b"
    unfolding u(2) using loop_reachable by blast
  have cap: "keys loop_blocks \<subseteq> {..<pt2_capacity (cblocks (cfg u))}" "pt2_capacity (cblocks (cfg u)) < 2 ^ 32" unfolding keys u(4) by auto
  obtain dt where dt: "unit_domtree sorted_list_of_set u = Some dt"
    using unit_domtree_exists[OF u(1) _ ins inside reach cap lists_sets_sorted] by blast
  have d12: "block_dominates_block dt 1 2 = Some True"
    using unit_domtree_paths[OF u(1) dt ins reach cap lists_sets_sorted, of 1 2] loop_dominates unfolding u(2) keys by simp
  have placed: "inst_placed sorted_list_of_set u dt {PROCESS} None is i" if b: "(b, is) \<in> set loop_blocks" "i \<in> set is" for b "is" i
  proof -
    have i: "i \<in> {0, 1, 2, 3, 4, 5, 6}" using b mem by (force simp: members_def)
    have t: "\<exists>d. pt2_index (dinsts loop_graph) i = Some d \<and> (op_is_terminator (opcode_of d) \<longleftrightarrow> i = last is)"
      using b loop_index by (auto simp: opcode_of_def op_is_terminator_def simp del: One_nat_def)
    have dom: "\<exists>us. uses loop_graph r = Some us \<and> (\<forall>k \<in> set (sorted_list_of_set us). inst_dominates_inst dt loop_graph (layout u) i k = Some True)"
      if "get_inst_result loop_graph i = Some r" for r
    proof -
      have "i \<in> {1, 2}" "r \<in> {1, 2}" using that unfolding loop_results by (auto split: if_splits)
      then show ?thesis using loop_results(2)[of r] loop_uses_dominated[OF u(1) d12] by simp
    qed
    show ?thesis unfolding inst_placed_def u(2) using t dom loop_checks[OF u(1) i] by blast
  qed
  have "verify_unit sorted_list_of_set u verifier_new = Some (?w\<lparr>vunit := None, vreturn := None\<rparr>)"
    by (rule verify_unit_accepts[OF u(1) enter dt]) (use placed in auto)
  then show ?thesis by simp
qed

theorem verified_unit_wellformed_witness:
  "\<exists>u v'. dfg u = loop_graph \<and> verify_unit sorted_list_of_set u verifier_new = Some v' \<and> verrors v' = [] \<and>
    fl_rep (layout u) loop_blocks \<and> dom_by (branches (\<lambda>_. False) loop_graph loop_blocks) 0 1 2"
proof -
  obtain b where b: "unit_rep b loop_blocks" "dfg b = loop_graph" "ukind b = ProcessUnit" "pt2_capacity (cblocks (cfg b)) = 3"
    using loop_unit by blast
  let ?u = "unit_data.truncate b"
  have u: "fl_rep (layout ?u) loop_blocks" "dfg ?u = loop_graph" "ukind ?u = ProcessUnit" "pt2_capacity (cblocks (cfg ?u)) = 3"
    using b loose_repD(3)[OF loose_of_unit[OF b(1)]] loop_wf(3) by (simp_all add: unit_data.defs)
  obtain v' where v': "verify_unit sorted_list_of_set ?u verifier_new = Some v'" "verrors v' = []" using loop_accepted[OF u] by blast
  have keys: "keys loop_blocks = {0, 1, 2}" by (auto simp: keys_def)
  have q: "verrors v' = verrors verifier_new" using v'(2) by (simp add: verifier_new_def)
  have reach: "\<forall>b \<in> keys loop_blocks. (branches (\<lambda>_. False) (dfg ?u) loop_blocks)\<^sup>*\<^sup>* (fst (hd loop_blocks)) b"
    unfolding u(2) using loop_reachable by blast
  have cap: "keys loop_blocks \<subseteq> {..<pt2_capacity (cblocks (cfg ?u))}" "pt2_capacity (cblocks (cfg ?u)) < 2 ^ 32" unfolding keys u(4) by auto
  note wf = verified_unit_wellformed[OF v'(1) q u(1) lists_sets_sorted reach cap, THEN conjunct2, unfolded u(2), rule_format]
  have "dom_by (branches (\<lambda>_. False) loop_graph loop_blocks) 0 1 2"
    using wf[of 1 "[1, 2, 3, 4]" 1 1 "{3, 5}" 5 2 "[5, 6]" "ITernary OpDrv 0 1 2"] loop_results loop_index(6)
    by (simp add: opcode_of_def del: One_nat_def)
  then show ?thesis using u v' by (intro exI[of _ ?u]) auto
qed

end
