(* ===== verification/Ecm.thy ===== *)
theory Ecm
  imports ProcLower VerifyUnitProps
begin

text \<open>
  Early code motion (\<^verbatim>\<open>src/src/pass/ecm.rs\<close>): the pass, which moves every instruction that it
  may move up to the block that computes the last of its operands. \<open>ord\<close> is the iteration order
  of the hash sets.
\<close>

section \<open>Moving one instruction\<close>

definition ecm_fixed :: "opcode \<Rightarrow> bool" where
  "ecm_fixed op \<longleftrightarrow> op \<in> {OpLd, OpSt, OpPrb, OpDrv, OpPhi} \<or> op_is_terminator op"

text \<open>\<^verbatim>\<open>remove_inst\<close> and \<^verbatim>\<open>insert_inst_before\<close>: from one place of the layout to another.\<close>

definition move_before :: "nat \<Rightarrow> nat \<Rightarrow> unit_builder \<Rightarrow> unit_builder option" where
  "move_before i t u = do { u \<leftarrow> set_layout (remove_inst i) u; set_layout (insert_inst_before i t) u }"

text \<open>The blocks that the definition of an operand dominates, none for an argument of the unit.\<close>

definition operand_doms :: "dominator_tree \<Rightarrow> unit_builder \<Rightarrow> nat \<Rightarrow> nat set list option" where
  "operand_doms dt u a =
     do { vi \<leftarrow> get_value_inst (dfg u) a;
          case vi of None \<Rightarrow> Some []
          | Some j \<Rightarrow> do { b \<leftarrow> inst_block (layout u) j; s \<leftarrow> dominated_by dt b; Some [s] } }"

text \<open>\<^verbatim>\<open>min_by_key\<close>: the first of the blocks with the lowest number.\<close>

fun lowest :: "(nat \<times> nat) list \<Rightarrow> (nat \<times> nat) option" where
  "lowest [] = None"
| "lowest (p # ps) = Some (case lowest ps of None \<Rightarrow> p | Some q \<Rightarrow> if snd q < snd p then q else p)"

definition best_block :: "(nat set \<Rightarrow> nat list) \<Rightarrow> (nat \<rightharpoonup> nat) \<Rightarrow> nat set list \<Rightarrow> nat option" where
  "best_block ord numbers doms =
     (case doms of [] \<Rightarrow> None
      | first # _ \<Rightarrow> map_option fst (lowest (List.map_filter (\<lambda>b. map_option (Pair b) (numbers b))
          (filter (\<lambda>b. \<forall>s \<in> set doms. b \<in> s) (ord first)))))"

definition ecm_move :: "(nat set \<Rightarrow> nat list) \<Rightarrow> dominator_tree \<Rightarrow> (nat \<rightharpoonup> nat) \<Rightarrow> nat \<Rightarrow> nat \<Rightarrow> unit_builder \<Rightarrow>
    (bool \<times> unit_builder) option" where
  "ecm_move ord dt numbers block i u =
     do { d \<leftarrow> pt2_index (dinsts (dfg u)) i;
          if ecm_fixed (opcode_of d) then Some (False, u)
          else do {
            doms \<leftarrow> mapM (operand_doms dt u) (args d);
            if concat doms = [] then
              do { entry \<leftarrow> entry_block (layout u);
                   entry_term \<leftarrow> block_terminator (layout u) entry;
                   if inst_block (layout u) i = Some entry then Some (False, u)
                   else do { u \<leftarrow> move_before i entry_term u; Some (True, u) } }
            else
              (case best_block ord numbers (concat doms) of
                 None \<Rightarrow> Some (False, u)
               | Some bb \<Rightarrow>
                   if bb = block then Some (False, u)
                   else do { t \<leftarrow> block_terminator (layout u) bb;
                             u \<leftarrow> move_before i t u;
                             Some (True, u) }) } }"

section \<open>The blocks in the order of control flow\<close>

record ecm_state =
  block_numbers :: "nat \<rightharpoonup> nat"
  work_done :: "nat set"
  work_pending :: "nat set"
  ecm_modified :: bool
  ecm_unit :: unit_builder

definition ecm_inst :: "(nat set \<Rightarrow> nat list) \<Rightarrow> dominator_tree \<Rightarrow> nat \<Rightarrow> nat \<Rightarrow> ecm_state \<Rightarrow> ecm_state option" where
  "ecm_inst ord dt block i st =
     do { (m, u) \<leftarrow> ecm_move ord dt (block_numbers st) block i (ecm_unit st);
          Some (st\<lparr>ecm_modified := ecm_modified st \<or> m, ecm_unit := u\<rparr>) }"

text \<open>The successors of a block are numbered and queued.\<close>

definition ecm_successors :: "nat \<Rightarrow> ecm_state \<Rightarrow> ecm_state option" where
  "ecm_successors block st =
     do { term \<leftarrow> block_terminator (layout (ecm_unit st)) block;
          d \<leftarrow> pt2_index (dinsts (dfg (ecm_unit st))) term;
          if op_is_terminator (opcode_of d) then
            do { n \<leftarrow> block_numbers st block;
                 Some (st\<lparr>work_pending := work_pending st \<union> (set (inst_blocks d) - work_done st),
                   block_numbers := fold (\<lambda>b m. case m b of None \<Rightarrow> m(b \<mapsto> n + 1) | Some _ \<Rightarrow> m) (inst_blocks d) (block_numbers st)\<rparr>) }
          else Some st }"

definition ecm_block :: "(nat set \<Rightarrow> nat list) \<Rightarrow> dominator_tree \<Rightarrow> nat \<Rightarrow> ecm_state \<Rightarrow> ecm_state option" where
  "ecm_block ord dt block st =
     do { let st = st\<lparr>work_pending := work_pending st - {block}, work_done := insert block (work_done st)\<rparr>;
          is \<leftarrow> block_insts (layout (ecm_unit st)) block;
          st \<leftarrow> foldM (ecm_inst ord dt block) is st;
          ecm_successors block st }"

partial_function (option) ecm_loop :: "(nat set \<Rightarrow> nat list) \<Rightarrow> dominator_tree \<Rightarrow> ecm_state \<Rightarrow> ecm_state option" where
  "ecm_loop ord dt st =
     (case ord (work_pending st) of [] \<Rightarrow> Some st
      | block # _ \<Rightarrow> Option.bind (ecm_block ord dt block st) (\<lambda>st. ecm_loop ord dt st))"

definition ecm_run_on_cfg :: "(nat set \<Rightarrow> nat list) \<Rightarrow> unit_builder \<Rightarrow> (bool \<times> unit_builder) option" where
  "ecm_run_on_cfg ord u =
     do { pred \<leftarrow> predtbl (dfg u) (layout u);
          dt \<leftarrow> domtree_new ord (pt2_capacity (cblocks (cfg u))) (layout u) pred;
          entry \<leftarrow> entry_block (layout u);
          st \<leftarrow> ecm_loop ord dt \<lparr>block_numbers = [entry \<mapsto> 0], work_done = {}, work_pending = {entry}, ecm_modified = False, ecm_unit = u\<rparr>;
          Some (ecm_modified st, ecm_unit st) }"

end
