(* ===== verification/EcmProps.thy ===== *)
theory EcmProps
  imports Ecm VerifiedUnits
begin

text \<open>
  Early code motion keeps the data flow graph, moves instructions only up to blocks that dominate
  theirs, leaves the instructions it may not move in order, and keeps definitions before their uses.
\<close>

section \<open>Dominance is an order\<close>

lemma dom_by_trans:
  assumes "dom_by E r a b" "dom_by E r b c"
  shows "dom_by E r a c"
  unfolding dom_by_def
proof (intro allI impI)
  fix xs assume p: "path E r xs c"
  then have "b \<in> set xs" using assms(2) by (simp add: dom_by_def)
  moreover have "path E r xs c \<Longrightarrow> b \<in> set xs \<Longrightarrow> \<exists>ys. path E r ys b \<and> set ys \<subseteq> set xs" for xs c
  proof (induction xs arbitrary: c rule: rev_induct)
    case (snoc x xs)
    show ?case
    proof (cases "x = b")
      case True
      then show ?thesis using snoc.prems path_ends[OF snoc.prems(1)] by (intro exI[of _ "xs @ [x]"]) auto
    next
      case False
      then have "b \<in> set xs" using snoc.prems(2) by auto
      moreover obtain z where "path E r xs z" using path_cases_end[OF snoc.prems(1)] \<open>b \<in> set xs\<close> by auto
      ultimately obtain ys where "path E r ys b" "set ys \<subseteq> set xs" using snoc.IH by blast
      then show ?thesis by auto
    qed
  qed simp
  ultimately obtain ys where "path E r ys b" "set ys \<subseteq> set xs" using p by blast
  then show "a \<in> set xs" using assms(1) by (auto simp: dom_by_def)
qed

text \<open>A path to a node can be cut at its first visit of another.\<close>

lemma path_cut:
  assumes "path E r xs c" "b \<in> set xs"
  obtains ys zs where "path E r (ys @ [b]) b" "b \<notin> set ys" "xs = ys @ b # zs" "path E b (b # zs) c"
proof -
  have "\<exists>ys zs. path E r (ys @ [b]) b \<and> b \<notin> set ys \<and> xs = ys @ b # zs \<and> path E b (b # zs) c"
    using assms
  proof (induction xs arbitrary: c rule: rev_induct)
    case (snoc x xs)
    have x: "x = c" using path_ends[OF snoc.prems(1)] by simp
    show ?case
    proof (cases "b \<in> set xs")
      case True
      then obtain z where z: "path E r xs z" "E z c" using path_cases_end[OF snoc.prems(1)] x by auto
      from snoc.IH[OF z(1) True] obtain ys zs where "path E r (ys @ [b]) b" "b \<notin> set ys" "xs = ys @ b # zs" "path E b (b # zs) z"
        by blast
      then show ?thesis using path_snoc[of E b "b # zs" z c] z(2) x by (intro exI[of _ ys] exI[of _ "zs @ [c]"]) simp
    next
      case False
      then have "b = c" using snoc.prems(2) x by auto
      then show ?thesis using snoc.prems(1) False x path_one[of E b] by (intro exI[of _ xs] exI[of _ "[]"]) simp
    qed
  qed simp
  then show thesis using that by blast
qed

lemma dom_by_antisym:
  assumes "dom_by E r a b" "dom_by E r b a" "E\<^sup>*\<^sup>* r a"
  shows "a = b"
proof (rule ccontr)
  assume ne: "a \<noteq> b"
  obtain xs where "path E r xs a" using rtranclp_path[OF assms(3)] by blast
  moreover from this have "a \<in> set xs" using path_mem by metis
  ultimately obtain ys zs where 1: "path E r (ys @ [a]) a" "a \<notin> set ys" by (rule path_cut)
  then have "b \<in> set (ys @ [a])" using assms(2) unfolding dom_by_def by blast
  then obtain us vs where 2: "path E r (us @ [b]) b" "ys @ [a] = us @ b # vs" using path_cut[OF 1(1)] by metis
  have "set us \<subseteq> set ys" "b \<in> set ys" using 2(2) ne by (cases vs rule: rev_cases; auto)+
  moreover have "a \<in> set (us @ [b])" using assms(1) 2(1) unfolding dom_by_def by blast
  ultimately show False using 1(2) ne by auto
qed

text \<open>The dominators of a node are a chain.\<close>

lemma dom_by_linear:
  assumes "dom_by E r a x" "dom_by E r b x" "E\<^sup>*\<^sup>* r x"
  shows "dom_by E r a b \<or> dom_by E r b a"
proof (rule ccontr)
  assume "\<not> ?thesis"
  then obtain P Q where P: "path E r P b" "a \<notin> set P" and Q: "path E r Q a" "b \<notin> set Q" unfolding dom_by_def by blast
  obtain xs where xs: "path E r xs x" using rtranclp_path[OF assms(3)] by blast
  have tail: "\<exists>c zs. c \<in> {a, b} \<and> path E c (c # zs) x \<and> set zs \<inter> {a, b} = {}" if "path E r xs x" "set xs \<inter> {a, b} \<noteq> {}" for xs x
    using that
  proof (induction xs arbitrary: x rule: rev_induct)
    case (snoc y xs)
    have y: "y = x" using path_ends[OF snoc.prems(1)] by simp
    show ?case
    proof (cases "x \<in> {a, b}")
      case True
      then show ?thesis using path_one[of E x] by (intro exI[of _ x] exI[of _ "[]"]) auto
    next
      case False
      then have m: "set xs \<inter> {a, b} \<noteq> {}" using snoc.prems(2) y by auto
      then obtain z where z: "path E r xs z" "E z x" using path_cases_end[OF snoc.prems(1)] y by auto
      from snoc.IH[OF z(1) m] obtain c zs where "c \<in> {a, b}" "path E c (c # zs) z" "set zs \<inter> {a, b} = {}" by blast
      then show ?thesis using path_snoc[of E c "c # zs" z x] z(2) False by (intro exI[of _ c] exI[of _ "zs @ [x]"]) simp
    qed
  qed simp
  have "a \<in> set xs" using assms(1) xs unfolding dom_by_def by blast
  then obtain c zs where c: "c \<in> {a, b}" "path E c (c # zs) x" "set zs \<inter> {a, b} = {}" using tail[OF xs] by blast
  show False
  proof (cases "c = b")
    case True
    then have "path E r (P @ zs) x" using path_append[OF c(2)] P(1) by simp
    then show False using assms(1) P(2) c(3) unfolding dom_by_def by auto
  next
    case False
    then have "path E r (Q @ zs) x" using path_append[OF c(2)] Q(1) c(1) by simp
    then show False using assms(2) Q(2) c(3) unfolding dom_by_def by auto
  qed
qed

lemma dom_by_root: "dom_by E r r x"
  unfolding dom_by_def using path_mem by metis

section \<open>The order in a block\<close>

lemma comes_after_split: "comes_after is i k \<longleftrightarrow> (\<exists>as bs. is = as @ i # bs \<and> k \<in> set bs)"
proof
  assume "comes_after is i k"
  then obtain p c where pc: "p < c" "c < length is" "is ! p = i" "is ! c = k" by (auto simp: comes_after_def)
  have "is = take p is @ i # drop (Suc p) is" using id_take_nth_drop[of p "is"] pc by simp
  moreover have "k \<in> set (drop (Suc p) is)" using pc by (auto simp: in_set_conv_nth intro!: exI[of _ "c - Suc p"])
  ultimately show "\<exists>as bs. is = as @ i # bs \<and> k \<in> set bs" by blast
next
  assume "\<exists>as bs. is = as @ i # bs \<and> k \<in> set bs"
  then obtain as bs where s: "is = as @ i # bs" "k \<in> set bs" by blast
  obtain q where "q < length bs" "bs ! q = k" using s(2) by (meson in_set_conv_nth)
  then show "comes_after is i k" unfolding comes_after_def s(1)
    by (intro exI[of _ "length as"] exI[of _ "Suc (length as + q)"]) (simp add: nth_append)
qed

lemma comes_after_mem: "comes_after is i k \<Longrightarrow> i \<in> set is \<and> k \<in> set is"
  by (auto simp: comes_after_split)

lemma comes_after_filter: "comes_after is i k \<Longrightarrow> P i \<Longrightarrow> P k \<Longrightarrow> comes_after (filter P is) i k"
  by (fastforce simp: comes_after_split)

lemma comes_after_insert:
  assumes "comes_after (as @ bs) j k"
  shows "comes_after (as @ i # bs) j k"
proof -
  obtain p q where "as @ bs = p @ j # q" "k \<in> set q" using assms by (auto simp: comes_after_split)
  then consider us where "as = p @ us" "us @ bs = j # q" | us where "bs = us @ j # q"
    by (auto simp: append_eq_append_conv2)
  then show ?thesis
  proof cases
    case 1
    show ?thesis
    proof (cases us)
      case Nil
      then have "as @ i # bs = (as @ [i]) @ j # q" using 1 by simp
      then show ?thesis using \<open>k \<in> set q\<close> unfolding comes_after_split by blast
    next
      case (Cons x vs)
      then have "as @ i # bs = p @ j # (vs @ i # bs)" "k \<in> set (vs @ i # bs)" using 1 \<open>k \<in> set q\<close> by auto
      then show ?thesis unfolding comes_after_split by blast
    qed
  next
    case 2
    then show ?thesis using \<open>k \<in> set q\<close> unfolding comes_after_split by (intro exI[of _ "as @ i # us"] exI[of _ q]) simp
  qed
qed

lemma comes_after_middle: "j \<in> set as \<Longrightarrow> comes_after (as @ i # bs) j i"
  "k \<in> set bs \<Longrightarrow> comes_after (as @ i # bs) i k"
  by (auto simp: comes_after_split in_set_conv_decomp[of j]) (metis append.assoc append_Cons in_set_conv_decomp)

section \<open>The list of blocks after a move\<close>

definition placed :: "layout_list \<Rightarrow> nat \<Rightarrow> nat \<Rightarrow> bool" where
  "placed ys i b \<longleftrightarrow> (\<exists>is. (b, is) \<in> set ys \<and> i \<in> set is)"

definition move_up :: "nat \<Rightarrow> nat \<Rightarrow> layout_list \<Rightarrow> layout_list" where
  "move_up i t ys = everywhere (ins_before (\<lambda>x. x = t) i) (everywhere (filter (\<lambda>x. x \<noteq> i)) ys)"

lemma placed_keys: "placed ys i b \<Longrightarrow> b \<in> keys ys"
  by (force simp: placed_def keys_def)

lemma placed_members: "i \<in> members ys \<longleftrightarrow> (\<exists>b. placed ys i b)"
  by (simp add: placed_def members_def Bex_def split_paired_Ex)

lemma placed_block: "fl_rep l ys \<Longrightarrow> placed ys i b \<longleftrightarrow> inst_block l i = Some b"
  using fl_repD(4)[of l ys i b] by (force simp: placed_def inst_block_def)

lemma placed_unique: "fl_rep l ys \<Longrightarrow> placed ys i b \<Longrightarrow> placed ys i c \<Longrightarrow> b = c"
  by (simp add: placed_block)

lemma block_unique: "fl_rep l ys \<Longrightarrow> (b, is) \<in> set ys \<Longrightarrow> (b, js) \<in> set ys \<Longrightarrow> is = js"
  using key_unique[OF fl_repD(2), of l ys "(b, is)" "(b, js)"] by simp

lemma move_before_rep:
  assumes rep: "fl_rep (layout u) ys" and i: "i \<in> members ys" and t: "t \<in> members ys" "t \<noteq> i"
  shows "\<exists>l. move_before i t u = Some (u\<lparr>layout := l\<rparr>) \<and> fl_rep l (move_up i t ys)"
proof -
  obtain l1 where l1: "remove_inst i (layout u) = Some l1" "fl_rep l1 (everywhere (filter (\<lambda>x. x \<noteq> i)) ys)"
    using fl_rep_remove_inst[OF rep i] by blast
  have "i \<notin> members (everywhere (filter (\<lambda>x. x \<noteq> i)) ys)" "t \<in> members (everywhere (filter (\<lambda>x. x \<noteq> i)) ys)"
    using t by (simp_all add: members_filter)
  then obtain l2 where "insert_inst_before i t l1 = Some l2" "fl_rep l2 (move_up i t ys)"
    using fl_rep_insert_inst(2)[OF l1(2)] unfolding move_up_def by blast
  then show ?thesis using l1(1) by (intro exI[of _ l2]) (simp add: move_before_def set_layout_def)
qed

lemma move_up_blocks:
  assumes rep: "fl_rep l ys" and a: "(a, pre @ [t]) \<in> set ys" and ne: "t \<noteq> i"
  shows "(c, js) \<in> set (move_up i t ys) \<longleftrightarrow>
    (\<exists>is. (c, is) \<in> set ys \<and> js = (if c = a then filter (\<lambda>x. x \<noteq> i) pre @ [i, t] else filter (\<lambda>x. x \<noteq> i) is))"
proof -
  have dist: "t \<notin> set pre" using fl_rep_distinct[OF rep a] by simp
  have "ins_before (\<lambda>x. x = t) i (filter (\<lambda>x. x \<noteq> i) is) =
      (if c = a then filter (\<lambda>x. x \<noteq> i) pre @ [i, t] else filter (\<lambda>x. x \<noteq> i) is)" if mem: "(c, is) \<in> set ys" for c "is"
  proof (cases "c = a")
    case True
    then have s: "is = pre @ [t]" using block_unique[OF rep mem] a by simp
    have "\<forall>x \<in> set (filter (\<lambda>x. x \<noteq> i) pre). x \<noteq> t" using dist by auto
    from ins_append(2)[OF this, of i "[t]"] show ?thesis using True ne by (simp add: s)
  next
    case False
    then have "t \<notin> set is" using fl_rep_one_block[OF rep a _ mem] by auto
    then show ?thesis using False by (subst ins_none(2)) auto
  qed
  moreover have "(c, js) \<in> set (move_up i t ys) \<longleftrightarrow>
      (\<exists>is. (c, is) \<in> set ys \<and> js = ins_before (\<lambda>x. x = t) i (filter (\<lambda>x. x \<noteq> i) is))"
    by (auto simp: move_up_def everywhere_def image_iff Bex_def split_paired_Ex)
  ultimately show ?thesis by metis
qed

lemma move_up_frame:
  "map fst (move_up i t ys) = map fst ys" "keys (move_up i t ys) = keys ys"
  by (simp_all add: move_up_def at_block_simps)

lemma move_up_placed:
  assumes rep: "fl_rep l ys" and a: "(a, pre @ [t]) \<in> set ys" and ne: "t \<noteq> i"
  shows "placed (move_up i t ys) k c \<longleftrightarrow> (if k = i then c = a else placed ys k c)"
proof -
  have un: "is = pre @ [t]" if "(a, is) \<in> set ys" for "is" using block_unique[OF rep that a] .
  let ?js = "\<lambda>is. if c = a then filter (\<lambda>x. x \<noteq> i) pre @ [i, t] else filter (\<lambda>x. x \<noteq> i) is"
  have "placed (move_up i t ys) k c \<longleftrightarrow> (\<exists>is. (c, is) \<in> set ys \<and> k \<in> set (?js is))"
    unfolding placed_def move_up_blocks[OF assms] by blast
  also have "\<dots> \<longleftrightarrow> (if k = i then c = a else placed ys k c)"
  proof (cases "c = a")
    case True
    have "placed ys k a \<longleftrightarrow> k \<in> set (pre @ [t])" using un a unfolding placed_def by blast
    then show ?thesis using True a ne by auto
  next
    case False
    then show ?thesis unfolding placed_def by auto
  qed
  finally show ?thesis .
qed

section \<open>Definitions before their uses\<close>

definition available :: "(nat \<Rightarrow> nat \<Rightarrow> bool) \<Rightarrow> nat \<Rightarrow> layout_list \<Rightarrow> nat \<Rightarrow> nat \<Rightarrow> bool" where
  "available E r ys j k \<longleftrightarrow> (\<exists>b is c. (b, is) \<in> set ys \<and> j \<in> set is \<and> placed ys k c \<and>
     (if b = c then comes_after is j k else dom_by E r b c))"

lemma available_dom: "available E r ys j k \<Longrightarrow> fl_rep l ys \<Longrightarrow> placed ys k c \<Longrightarrow> \<exists>b. placed ys j b \<and> dom_by E r b c"
  unfolding available_def using placed_unique by (fastforce simp: placed_def split: if_splits)

lemma move_up_available:
  assumes rep: "fl_rep l ys" and a: "(a, pre @ [t]) \<in> set ys" and i: "placed ys i b" "a \<noteq> b" "t \<noteq> i"
    and up: "dom_by E r a b" and reach: "E\<^sup>*\<^sup>* r a"
    and av: "available E r ys j k" and jt: "j \<noteq> t" and jk: "j \<noteq> k"
    and operand: "k = i \<Longrightarrow> \<exists>c. placed ys j c \<and> dom_by E r c a"
  shows "available E r (move_up i t ys) j k"
proof -
  note blocks = move_up_blocks[OF rep a i(3)] and pl = move_up_placed[OF rep a i(3)]
  let ?A = "filter (\<lambda>x. x \<noteq> i) pre @ [i, t]"
  have A: "(a, ?A) \<in> set (move_up i t ys)" using a by (auto simp: blocks)
  obtain b' "is" c where p: "(b', is) \<in> set ys" "j \<in> set is" "placed ys k c"
    and o: "if b' = c then comes_after is j k else dom_by E r b' c" using av by (auto simp: available_def)
  have new: "\<exists>js. (b', js) \<in> set (move_up i t ys) \<and> j \<in> set js" if "j \<noteq> i"
    using pl[of j b'] that p(1,2) unfolding placed_def by auto
  consider (user) "k = i" | (moved) "j = i" "k \<noteq> i" | (other) "j \<noteq> i" "k \<noteq> i" by blast
  then show ?thesis
  proof cases
    case user
    obtain c' where c': "placed ys j c'" "dom_by E r c' a" using operand[OF user] by blast
    have k: "placed (move_up i t ys) k a" using user by (simp add: pl)
    show ?thesis
    proof (cases "c' = a")
      case True
      then have "j \<in> set pre" using c'(1) block_unique[OF rep _ a] jt by (fastforce simp: placed_def)
      then have "j \<in> set (filter (\<lambda>x. x \<noteq> i) pre)" using jk user by simp
      then have "comes_after ?A j k" using comes_after_middle(1)[of j _ i "[t]"] user by blast
      then show ?thesis using A k comes_after_mem unfolding available_def using True by (intro exI[of _ a] exI[of _ ?A] exI[of _ a]) (use \<open>j \<in> set pre\<close> in auto)
    next
      case False
      have "placed (move_up i t ys) j c'" using c'(1) jk user by (simp add: pl)
      then show ?thesis using k c'(2) False unfolding available_def placed_def by fastforce
    qed
  next
    case moved
    have b': "b' = b" using placed_unique[OF rep i(1)] p(1,2) moved(1) by (auto simp: placed_def)
    have k: "placed (move_up i t ys) k c" using p(3) moved by (simp add: pl)
    have "a \<noteq> c \<and> dom_by E r a c"
    proof (cases "b = c")
      case True then show ?thesis using up i(2) by simp
    next
      case False
      then have bc: "dom_by E r b c" using o b' by simp
      then have "a \<noteq> c" using dom_by_antisym[OF up _ reach] i(2) by blast
      then show ?thesis using dom_by_trans[OF up bc] by simp
    qed
    then show ?thesis using A k moved(1) unfolding available_def by (intro exI[of _ a] exI[of _ ?A] exI[of _ c]) auto
  next
    case other
    have k: "placed (move_up i t ys) k c" using p(3) other by (simp add: pl)
    show ?thesis
    proof (cases "b' = c")
      case False
      then show ?thesis using new[OF other(1)] k o unfolding available_def by fastforce
    next
      case True
      then have ca: "comes_after is j k" using o by simp
      have f: "comes_after (filter (\<lambda>x. x \<noteq> i) is) j k" by (rule comes_after_filter[OF ca]) (use other in auto)
      let ?js = "if b' = a then ?A else filter (\<lambda>x. x \<noteq> i) is"
      have js: "(b', ?js) \<in> set (move_up i t ys)" using p(1) by (auto simp: blocks)
      have "comes_after ?js j k"
      proof (cases "b' = a")
        case True
        then have "is = pre @ [t]" using block_unique[OF rep p(1)] a by simp
        then have "comes_after (filter (\<lambda>x. x \<noteq> i) pre @ [t]) j k" using f i(3) by simp
        from comes_after_insert[OF this, of i] show ?thesis using True by simp
      qed (use f in simp)
      then show ?thesis using js k True comes_after_mem unfolding available_def
        by (intro exI[of _ b'] exI[of _ ?js] exI[of _ c]) auto
    qed
  qed
qed

section \<open>The numbers of the blocks\<close>

definition numbered :: "(nat \<Rightarrow> nat \<Rightarrow> bool) \<Rightarrow> nat \<Rightarrow> (nat \<rightharpoonup> nat) \<Rightarrow> nat set \<Rightarrow> bool" where
  "numbered E r nums D \<longleftrightarrow> nums r = Some 0 \<and>
     (\<forall>b n. nums b = Some n \<longrightarrow> b \<noteq> r \<longrightarrow> (\<exists>p \<in> D. \<exists>m. E p b \<and> nums p = Some m \<and> n = Suc m))"

lemma dom_by_of_root: "dom_by E r a r \<Longrightarrow> a = r"
  using path_one[of E r] unfolding dom_by_def by fastforce

lemma dominators_numbered:
  assumes "numbered E r nums D" "nums c = Some n" "dom_by E r a c" "a \<noteq> c"
  shows "a \<in> D \<and> (\<exists>m < n. nums a = Some m)"
  using assms(2-4)
proof (induction n arbitrary: c rule: less_induct)
  case (less n)
  have "c \<noteq> r" using dom_by_of_root[of E r a] less.prems(2,3) by auto
  then obtain p m where p: "p \<in> D" "E p c" "nums p = Some m" "n = Suc m"
    using assms(1) less.prems(1) unfolding numbered_def by blast
  have "dom_by E r a p" by (rule dom_by_pred[of E r a c]) (use less.prems p in auto)
  then show ?case using less.IH[of m p] p by (cases "a = p") auto
qed

lemma lowest_least: "ps \<noteq> [] \<Longrightarrow> \<exists>p \<in> set ps. lowest ps = Some p \<and> (\<forall>q \<in> set ps. snd p \<le> snd q)"
proof (induction ps)
  case (Cons p ps)
  show ?case
  proof (cases "ps = []")
    case False
    then obtain q where "q \<in> set ps" "lowest ps = Some q" "\<forall>x \<in> set ps. snd q \<le> snd x" using Cons.IH by blast
    then show ?thesis by (auto intro: order_trans simp: not_less dest: less_imp_le)
  qed simp
qed simp

lemma set_filtered: "set (List.map_filter f xs) = {y. \<exists>x \<in> set xs. f x = Some y}"
  by (induction xs) (auto simp: List.map_filter_simps split: option.splits)

lemma best_block_least:
  assumes ord: "lists_sets ord" and fin: "\<forall>s \<in> set doms. finite s" and x: "doms \<noteq> []" "\<forall>s \<in> set doms. x \<in> s" "nums x = Some k"
  shows "\<exists>b n. best_block ord nums doms = Some b \<and> (\<forall>s \<in> set doms. b \<in> s) \<and> nums b = Some n \<and> n \<le> k"
proof -
  obtain s0 rest where d: "doms = s0 # rest" using x(1) by (cases doms) auto
  let ?ps = "List.map_filter (\<lambda>b. map_option (Pair b) (nums b)) (filter (\<lambda>b. \<forall>s \<in> set doms. b \<in> s) (ord s0))"
  have "set (ord s0) = s0" using ord fin d by (simp add: lists_sets_def)
  then have ps: "set ?ps = {(b, n). (\<forall>s \<in> set doms. b \<in> s) \<and> nums b = Some n}"
    unfolding set_filtered d by auto
  then have m: "(x, k) \<in> set ?ps" using x by simp
  then have "?ps \<noteq> []" by (metis empty_iff empty_set)
  then obtain p where p: "p \<in> set ?ps" "lowest ?ps = Some p" "\<forall>q \<in> set ?ps. snd p \<le> snd q" using lowest_least by blast
  obtain b n where bn: "p = (b, n)" by (cases p)
  have "best_block ord nums doms = Some b" using p(2) bn unfolding best_block_def d by simp
  moreover have "(\<forall>s \<in> set doms. b \<in> s) \<and> nums b = Some n" using p(1) bn ps by simp
  moreover have "n \<le> k" using p(3) m bn by fastforce
  ultimately show ?thesis by blast
qed

text \<open>
  Of blocks that all dominate a numbered block, the best of those that they all dominate is the
  last of them.
\<close>

lemma best_is_deepest:
  assumes ord: "lists_sets ord" and A: "A \<noteq> {}" "finite A" "\<forall>a \<in> A. dom_by E r a b" and doms: "set doms = dominated ` A"
    and D: "\<forall>a \<in> A. dominated a = {c \<in> B. dom_by E r a c}" "finite B" "A \<subseteq> B"
    and num: "numbered E r nums Q" "nums b \<noteq> None" and reach: "E\<^sup>*\<^sup>* r b"
  shows "\<exists>a \<in> A. best_block ord nums doms = Some a \<and> (\<forall>c \<in> A. dom_by E r c a)"
proof -
  have n: "nums a \<noteq> None" if "a \<in> A" for a
    using dominators_numbered[OF num(1) _ A(3)[rule_format, OF that]] num(2) by (cases "a = b") auto
  define N where "N = (\<lambda>a. the (nums a))"
  obtain x where x: "x \<in> A" "\<forall>a \<in> A. N a \<le> N x"
    using Max_in[of "N ` A"] Max_ge[of "N ` A"] A(1,2) by (metis (no_types, lifting) finite_imageI image_iff image_is_empty)
  have nx: "nums x = Some (N x)" using n[OF x(1)] by (auto simp: N_def)
  have all: "dom_by E r c x" if c: "c \<in> A" for c
  proof -
    have nc: "nums c = Some (N c)" using n[OF c] unfolding N_def by simp
    have "dom_by E r x c \<Longrightarrow> x \<noteq> c \<Longrightarrow> N x < N c"
      using dominators_numbered[OF num(1) nc, of x] nx by auto
    moreover have "dom_by E r c x \<or> dom_by E r x c" by (rule dom_by_linear[OF _ _ reach]) (use A(3) c x(1) in auto)
    ultimately show ?thesis using x(2) c by (cases "x = c") auto
  qed
  have xs: "\<forall>s \<in> set doms. x \<in> s" using doms D(1,3) all x(1) by auto
  have "doms \<noteq> []" using doms A(1) by auto
  moreover have "\<forall>s \<in> set doms. finite s" using doms D(1,2) by auto
  ultimately obtain y m where y: "best_block ord nums doms = Some y" "\<forall>s \<in> set doms. y \<in> s" "nums y = Some m" "m \<le> N x"
    using best_block_least[of ord doms x nums "N x"] ord xs nx by blast
  have "dom_by E r x y" using y(2) doms D(1) x(1) by auto
  then have "y = x" using dominators_numbered[OF num(1) y(3), of x] y(4) nx by (cases "x = y") auto
  then show ?thesis using y(1) x(1) all by blast
qed

section \<open>Moving one instruction\<close>

definition operand_insts :: "data_flow_graph \<Rightarrow> inst_data \<Rightarrow> nat set" where
  "operand_insts g d = {j. \<exists>a \<in> set (args d). \<exists>t. value_at g a = Some (VInst t j)}"

definition fixed_at :: "data_flow_graph \<Rightarrow> nat \<Rightarrow> bool" where
  "fixed_at g i \<longleftrightarrow> (\<exists>d. inst_at g i = Some d \<and> ecm_fixed (opcode_of d))"

text \<open>
  Well-formed code: every block ends in its only terminator, and definitions come before their
  uses. \<open>E\<close> are the branches, \<open>r\<close> is the entry block.
\<close>

definition ssa_layout :: "data_flow_graph \<Rightarrow> (nat \<Rightarrow> nat \<Rightarrow> bool) \<Rightarrow> nat \<Rightarrow> layout_list \<Rightarrow> bool" where
  "ssa_layout g E r ys \<longleftrightarrow>
     (\<forall>(b, is) \<in> set ys. is \<noteq> [] \<and> (\<forall>i \<in> set is. \<forall>d. inst_at g i = Some d \<longrightarrow> (op_is_terminator (opcode_of d) \<longleftrightarrow> i = last is))) \<and>
     (\<forall>k d. inst_at g k = Some d \<longrightarrow> opcode_of d \<noteq> OpPhi \<longrightarrow> (\<forall>j \<in> operand_insts g d. available E r ys j k))"

text \<open>A graph whose operands are live and whose terminators have no results.\<close>

definition plain_graph :: "data_flow_graph \<Rightarrow> bool" where
  "plain_graph g \<longleftrightarrow> dfg_wf g \<and> (\<forall>i d. inst_at g i = Some d \<longrightarrow> (\<forall>a \<in> set (args d). value_at g a \<noteq> None) \<and>
     (op_is_terminator (opcode_of d) \<longrightarrow> dresults g i = None))"

text \<open>What the pass keeps of the layout.\<close>

definition hoisted :: "data_flow_graph \<Rightarrow> (nat \<Rightarrow> nat \<Rightarrow> bool) \<Rightarrow> nat \<Rightarrow> layout_list \<Rightarrow> layout_list \<Rightarrow> bool" where
  "hoisted g E r xs ys \<longleftrightarrow> map fst ys = map fst xs \<and>
     (\<forall>b is js. (b, is) \<in> set xs \<longrightarrow> (b, js) \<in> set ys \<longrightarrow> last js = last is \<and> filter (fixed_at g) js = filter (fixed_at g) is) \<and>
     (\<forall>i b. placed xs i b \<longrightarrow> (\<exists>c. placed ys i c \<and> dom_by E r c b)) \<and> members ys = members xs"

lemma operand_doms_all:
  assumes wf: "dfg_wf (dfg u)" and as: "\<forall>a \<in> set as. value_at (dfg u) a \<noteq> None"
    and pl: "\<And>a t j. a \<in> set as \<Longrightarrow> value_at (dfg u) a = Some (VInst t j) \<Longrightarrow> inst_block (layout u) j = Some (B j) \<and> dominated_by dt (B j) = Some (S (B j))"
  shows "\<exists>ds. mapM (operand_doms dt u) as = Some ds \<and>
    set (concat ds) = S ` B ` {j. \<exists>a \<in> set as. \<exists>t. value_at (dfg u) a = Some (VInst t j)}"
  using as pl
proof (induction as)
  case (Cons a as)
  have "\<exists>ds. mapM (operand_doms dt u) as = Some ds \<and>
      set (concat ds) = S ` B ` {j. \<exists>a \<in> set as. \<exists>t. value_at (dfg u) a = Some (VInst t j)}"
  proof (rule Cons.IH)
    show "\<forall>a \<in> set as. value_at (dfg u) a \<noteq> None" using Cons.prems(1) by simp
    fix b t j assume "b \<in> set as" "value_at (dfg u) b = Some (VInst t j)"
    then show "inst_block (layout u) j = Some (B j) \<and> dominated_by dt (B j) = Some (S (B j))" using Cons.prems(2)[of b t j] by simp
  qed
  then obtain ds where ds: "mapM (operand_doms dt u) as = Some ds"
    "set (concat ds) = S ` B ` {j. \<exists>a \<in> set as. \<exists>t. value_at (dfg u) a = Some (VInst t j)}" by (elim exE conjE) (rule that)
  obtain vd where vd: "value_at (dfg u) a = Some vd" using Cons.prems(1) by auto
  have gi: "get_value_inst (dfg u) a = Some (case vd of VInst _ i \<Rightarrow> Some i | _ \<Rightarrow> None)"
    using value_at_index[OF wf vd] by (simp add: get_value_inst_def)
  show ?case
  proof (cases "\<exists>t j. vd = VInst t j")
    case True
    then obtain t j where j: "vd = VInst t j" by blast
    have "operand_doms dt u a = Some [S (B j)]" using gi j Cons.prems(2)[of a t j] vd by (simp add: operand_doms_def)
    have "{i. \<exists>b \<in> set (a # as). \<exists>t. value_at (dfg u) b = Some (VInst t i)} =
        insert j {i. \<exists>b \<in> set as. \<exists>t. value_at (dfg u) b = Some (VInst t i)}" using vd j by auto
    then show ?thesis using ds \<open>operand_doms dt u a = _\<close> by simp
  next
    case False
    then have "operand_doms dt u a = Some []" using gi by (cases vd) (simp_all add: operand_doms_def)
    have "{i. \<exists>b \<in> set (a # as). \<exists>t. value_at (dfg u) b = Some (VInst t i)} =
        {i. \<exists>b \<in> set as. \<exists>t. value_at (dfg u) b = Some (VInst t i)}" using vd False by auto
    then show ?thesis using ds \<open>operand_doms dt u a = _\<close> by simp
  qed
qed simp

text \<open>An instruction is as far up as its operands allow.\<close>

definition settled :: "data_flow_graph \<Rightarrow> nat \<Rightarrow> layout_list \<Rightarrow> nat \<Rightarrow> bool" where
  "settled g r ys i \<longleftrightarrow> (\<forall>d c. inst_at g i = Some d \<longrightarrow> \<not> ecm_fixed (opcode_of d) \<longrightarrow> placed ys i c \<longrightarrow>
     (if operand_insts g d = {} then c = r else \<exists>j \<in> operand_insts g d. placed ys j c))"

lemma ssa_layout_term:
  assumes "ssa_layout g E r ys" "(a, js) \<in> set ys"
  shows "js \<noteq> []" "i \<in> set js \<Longrightarrow> inst_at g i = Some d \<Longrightarrow> op_is_terminator (opcode_of d) \<longleftrightarrow> i = last js"
  using assms unfolding ssa_layout_def by blast+

lemma ssa_layout_use:
  assumes "ssa_layout g E r ys" "inst_at g k = Some d" "opcode_of d \<noteq> OpPhi" "j \<in> operand_insts g d"
  shows "available E r ys j k"
  using assms unfolding ssa_layout_def by blast

lemma filter_last: "is \<noteq> [] \<Longrightarrow> last is \<noteq> i \<Longrightarrow> filter (\<lambda>x. x \<noteq> i) is = filter (\<lambda>x. x \<noteq> i) (butlast is) @ [last is]"
  by (cases "is" rule: rev_cases) auto

lemma available_irrefl: "fl_rep l ys \<Longrightarrow> \<not> available E r ys j j"
proof
  assume rep: "fl_rep l ys" and "available E r ys j j"
  then obtain b "is" c where p: "(b, is) \<in> set ys" "j \<in> set is" "placed ys j c" "if b = c then comes_after is j j else dom_by E r b c"
    by (auto simp: available_def)
  have "b = c" using placed_unique[OF rep] p(1-3) by (auto simp: placed_def)
  then show False using p fl_rep_distinct[OF rep p(1)] by (auto simp: comes_after_split)
qed

text \<open>The effect of one move on the layout.\<close>

lemma move_up_hoists:
  assumes rep: "fl_rep l ys" and ssa: "ssa_layout g E r ys" and plain: "plain_graph g" and mem: "members ys \<subseteq> live g"
    and i: "placed ys i b" "inst_at g i = Some d" "\<not> ecm_fixed (opcode_of d)" and a: "(a, pre @ [t]) \<in> set ys" "a \<noteq> b"
    and up: "dom_by E r a b" and reach: "E\<^sup>*\<^sup>* r a"
    and ops: "\<forall>j \<in> operand_insts g d. \<exists>c. placed ys j c \<and> dom_by E r c a"
  shows "t \<noteq> i" "ssa_layout g E r (move_up i t ys)" "hoisted g E r ys (move_up i t ys)"
proof -
  have "t \<in> live g" using a(1) mem by (force simp: members_def)
  then obtain dt where dt: "inst_at g t = Some dt" by (auto simp: live_def)
  have tt: "op_is_terminator (opcode_of dt)" using ssa_layout_term(2)[OF ssa a(1) _ dt] by simp
  show ti: "t \<noteq> i" using tt dt i(2,3) by (auto simp: ecm_fixed_def)
  note blocks = move_up_blocks[OF rep a(1) ti] and pl = move_up_placed[OF rep a(1) ti]
  have ends: "js \<noteq> [] \<and> (\<forall>k \<in> set js. \<forall>e. inst_at g k = Some e \<longrightarrow> (op_is_terminator (opcode_of e) \<longleftrightarrow> k = last js))"
    if mem: "(c, js) \<in> set (move_up i t ys)" for c js
  proof -
    obtain "is" where s: "(c, is) \<in> set ys" "js = (if c = a then filter (\<lambda>x. x \<noteq> i) pre @ [i, t] else filter (\<lambda>x. x \<noteq> i) is)"
      using mem blocks by blast
    note o = ssa_layout_term[OF ssa s(1)]
    have ni: "\<not> op_is_terminator (opcode_of d)" using i(3) by (simp add: ecm_fixed_def)
    show ?thesis
    proof (cases "c = a")
      case True
      then have "is = pre @ [t]" using block_unique[OF rep s(1)] a(1) by simp
      then show ?thesis using s(2) True o(2) i(2) ni ti by auto
    next
      case False
      have "last is \<in> set is" using o(1) by simp
      then have "last is \<noteq> i" using o(2)[of i d] i(2) ni by auto
      note f = filter_last[OF o(1) this]
      have j: "js = filter (\<lambda>x. x \<noteq> i) is" using s(2) False by simp
      have "js \<noteq> []" "last js = last is" unfolding j f by simp_all
      moreover have "set js \<subseteq> set is" unfolding j by auto
      ultimately show ?thesis using o(2) by (simp add: subset_iff)
    qed
  qed
  have "available E r (move_up i t ys) j k" if k: "inst_at g k = Some e" "opcode_of e \<noteq> OpPhi" "j \<in> operand_insts g e" for j k e
  proof (rule move_up_available[OF rep a(1) i(1) a(2) ti up reach])
    show av: "available E r ys j k" by (rule ssa_layout_use[OF ssa k])
    show "j \<noteq> k" using av available_irrefl[OF rep] by blast
    have "dresults g j \<noteq> None" using k(3) dfg_wfD(6) plain by (fastforce simp: operand_insts_def plain_graph_def)
    then show "j \<noteq> t" using tt dt plain by (auto simp: plain_graph_def)
    show "\<exists>c. placed ys j c \<and> dom_by E r c a" if "k = i" using ops that k i(2) by simp
  qed
  then show "ssa_layout g E r (move_up i t ys)" using ends unfolding ssa_layout_def by blast
  have nf: "\<not> fixed_at g i" "fixed_at g t" using i tt dt by (auto simp: fixed_at_def ecm_fixed_def)
  have f: "filter (fixed_at g) (filter (\<lambda>x. x \<noteq> i) is) = filter (fixed_at g) is" for "is"
    using nf(1) by (induction "is") auto
  have keep: "last js = last is \<and> filter (fixed_at g) js = filter (fixed_at g) is"
    if o: "(c, is) \<in> set ys" and n: "(c, js) \<in> set (move_up i t ys)" for c "is" js
  proof -
    have js: "js = (if c = a then filter (\<lambda>x. x \<noteq> i) pre @ [i, t] else filter (\<lambda>x. x \<noteq> i) is)"
      using n blocks block_unique[OF rep o] by blast
    have "last js = last is"
    proof (cases "c = a")
      case True
      then show ?thesis using js block_unique[OF rep o] a(1) by simp
    next
      case False
      have "last is \<in> set is" using ssa_layout_term(1)[OF ssa o] by simp
      then have l: "last is \<noteq> i" using ssa_layout_term(2)[OF ssa o, of i d] i(2,3) by (auto simp: ecm_fixed_def)
      show ?thesis using js False filter_last[OF ssa_layout_term(1)[OF ssa o] l] by simp
    qed
    moreover have "filter (fixed_at g) js = filter (fixed_at g) is"
    proof (cases "c = a")
      case True
      then have "is = pre @ [t]" using block_unique[OF rep o] a(1) by simp
      then show ?thesis using js True f nf by simp
    qed (use js f in simp)
    ultimately show ?thesis by simp
  qed
  have places: "\<exists>c. placed (move_up i t ys) k c \<and> dom_by E r c b'" if "placed ys k b'" for k b'
    using pl[of k] that up placed_unique[OF rep i(1)] by (cases "k = i") auto
  have "members (move_up i t ys) = members ys"
    using pl placed_members i(1) by (metis subsetI subset_antisym)
  then show "hoisted g E r ys (move_up i t ys)"
    unfolding hoisted_def using move_up_frame(1) keep places by blast
qed

text \<open>What the pass reads besides the layout.\<close>

definition ecm_setting :: "(nat set \<Rightarrow> nat list) \<Rightarrow> dominator_tree \<Rightarrow> data_flow_graph \<Rightarrow> (nat \<Rightarrow> nat \<Rightarrow> bool) \<Rightarrow> nat \<Rightarrow> nat set \<Rightarrow> bool" where
  "ecm_setting ord dt g E r B \<longleftrightarrow> lists_sets ord \<and> plain_graph g \<and> finite B \<and> r \<in> B \<and> (\<forall>b \<in> B. E\<^sup>*\<^sup>* r b) \<and>
     (\<forall>a \<in> B. dominated_by dt a = Some {c \<in> B. dom_by E r a c})"

text \<open>The layouts that the pass goes through.\<close>

definition ecm_layout :: "data_flow_graph \<Rightarrow> (nat \<Rightarrow> nat \<Rightarrow> bool) \<Rightarrow> nat \<Rightarrow> nat set \<Rightarrow> unit_builder \<Rightarrow> layout_list \<Rightarrow> bool" where
  "ecm_layout g E r B u ys \<longleftrightarrow> dfg u = g \<and> fl_rep (layout u) ys \<and> ssa_layout g E r ys \<and> members ys = live g \<and>
     keys ys = B \<and> entry_block (layout u) = Some r"

lemma move_step:
  assumes lay: "ecm_layout g E r B u ys" and set: "ecm_setting ord dt g E r B"
    and i: "placed ys i b" "inst_at g i = Some d" "\<not> ecm_fixed (opcode_of d)" and a: "a \<in> B" "a \<noteq> b" "dom_by E r a b"
    and ops: "\<forall>j \<in> operand_insts g d. \<exists>c. placed ys j c \<and> dom_by E r c a"
  shows "\<exists>t l ys'. block_terminator (layout u) a = Some t \<and> move_before i t u = Some (u\<lparr>layout := l\<rparr>) \<and>
    ecm_layout g E r B (u\<lparr>layout := l\<rparr>) ys' \<and> hoisted g E r ys ys' \<and> (\<forall>k c. placed ys' k c \<longleftrightarrow> (if k = i then c = a else placed ys k c)) \<and>
    (\<forall>is. (b, is) \<in> set ys \<longrightarrow> (b, filter (\<lambda>x. x \<noteq> i) is) \<in> set ys')"
proof -
  note l = lay[unfolded ecm_layout_def]
  have rep: "fl_rep (layout u) ys" and ssa: "ssa_layout g E r ys" and mem: "members ys \<subseteq> live g" using l by auto
  have plain: "plain_graph g" and reach: "E\<^sup>*\<^sup>* r a" using set a(1) by (auto simp: ecm_setting_def)
  obtain js where js: "(a, js) \<in> set ys" using a(1) l by (auto simp: keys_def)
  have ne: "js \<noteq> []" by (rule ssa_layout_term(1)[OF ssa js])
  then have at: "(a, butlast js @ [last js]) \<in> set ys" using js by simp
  note h = move_up_hoists[OF rep ssa plain mem i at a(2,3) reach ops]
  have im: "i \<in> members ys" using i(1) placed_members by blast
  have tm: "last js \<in> members ys" using js ne by (force simp: members_def)
  obtain l' where l': "move_before i (last js) u = Some (u\<lparr>layout := l'\<rparr>)" "fl_rep l' (move_up i (last js) ys)"
    using move_before_rep[OF rep im tm h(1)] by blast
  have "entry_block l' = hd_opt (map fst ys)" using rep_entry[OF l'(2)] move_up_frame(1) by simp
  then have e: "entry_block l' = Some r" using rep_entry[OF rep] l by simp
  have "ecm_layout g E r B (u\<lparr>layout := l'\<rparr>) (move_up i (last js) ys)"
    using l l'(2) e h(2,3) move_up_frame(2) by (simp add: ecm_layout_def hoisted_def)
  moreover have "(b, filter (\<lambda>x. x \<noteq> i) is) \<in> set (move_up i (last js) ys)" if "(b, is) \<in> set ys" for "is"
    unfolding move_up_blocks[OF rep at h(1)] using that a(2) by auto
  moreover have "\<forall>k c. placed (move_up i (last js) ys) k c \<longleftrightarrow> (if k = i then c = a else placed ys k c)"
    using move_up_placed[OF rep at h(1)] by blast
  ultimately show ?thesis using terminator_at[OF rep js ne] l'(1) h(3) by blast
qed

lemma hoisted_refl:
  assumes rep: "fl_rep l ys"
  shows "hoisted g E r ys ys"
proof -
  have "js = is" if "(b, is) \<in> set ys" "(b, js) \<in> set ys" for b "is" js using block_unique[OF rep that(2,1)] .
  then have "\<forall>b is js. (b, is) \<in> set ys \<longrightarrow> (b, js) \<in> set ys \<longrightarrow>
      last js = last is \<and> filter (fixed_at g) js = filter (fixed_at g) is" by blast
  moreover have "\<forall>i b. placed ys i b \<longrightarrow> (\<exists>c. placed ys i c \<and> dom_by E r c b)" using dom_by_refl by metis
  ultimately show ?thesis unfolding hoisted_def by (intro conjI) (rule refl | assumption)+
qed

lemma hoisted_trans:
  assumes "hoisted g E r xs ys" "hoisted g E r ys zs"
  shows "hoisted g E r xs zs"
proof -
  have "\<exists>js. (b, js) \<in> set ys" if "(b, is) \<in> set xs" for b "is"
  proof -
    have "b \<in> set (map fst ys)" using that assms(1) unfolding hoisted_def by (metis fst_conv image_eqI list.set_map)
    then show ?thesis by auto
  qed
  then have "last ks = last is \<and> filter (fixed_at g) ks = filter (fixed_at g) is" if "(b, is) \<in> set xs" "(b, ks) \<in> set zs" for b "is" ks
    using assms that unfolding hoisted_def by metis
  moreover have "\<exists>c. placed zs i c \<and> dom_by E r c b" if "placed xs i b" for i b
    using assms that dom_by_trans unfolding hoisted_def by meson
  ultimately show ?thesis using assms by (simp add: hoisted_def)
qed

lemma ecm_move_effect:
  assumes lay: "ecm_layout g E r B u ys" and set: "ecm_setting ord dt g E r B"
    and i: "placed ys i b" and num: "numbered E r nums Q" "nums b \<noteq> None" and Q: "Q \<subseteq> B"
  shows "\<exists>m l ys'. ecm_move ord dt nums b i u = Some (m, u\<lparr>layout := l\<rparr>) \<and> ecm_layout g E r B (u\<lparr>layout := l\<rparr>) ys' \<and>
    hoisted g E r ys ys' \<and> settled g r ys' i \<and> (\<forall>k c. k \<noteq> i \<longrightarrow> placed ys' k c = placed ys k c) \<and>
    (\<forall>c. placed ys' i c \<longrightarrow> c = b \<or> c \<in> Q) \<and>
    (\<forall>is. (b, is) \<in> set ys \<longrightarrow> (b, is) \<in> set ys' \<or> (b, filter (\<lambda>x. x \<noteq> i) is) \<in> set ys')"
proof -
  note l = lay[unfolded ecm_layout_def]
  have rep: "fl_rep (layout u) ys" and ssa: "ssa_layout g E r ys" and g: "dfg u = g" using l by auto
  have plain: "plain_graph g" and wf: "dfg_wf g" using set by (auto simp: ecm_setting_def plain_graph_def)
  have bB: "b \<in> B" using i placed_keys l by blast
  have reach: "E\<^sup>*\<^sup>* r b" and rB: "r \<in> B" using set bB by (auto simp: ecm_setting_def)
  have "i \<in> live g" using i placed_members l by blast
  then obtain d where d: "inst_at g i = Some d" by (auto simp: live_def)
  have di: "pt2_index (dinsts (dfg u)) i = Some d" using inst_at_index[OF wf d] g by simp
  have one: "c = b" if "placed ys i c" for c using placed_unique[OF rep i that] by simp
  have stay: ?thesis if run: "ecm_move ord dt nums b i u = Some (False, u)" and s: "settled g r ys i"
  proof -
    have "u\<lparr>layout := layout u\<rparr> = u" by simp
    then show ?thesis using run lay hoisted_refl[OF rep] s one by (intro exI[of _ False] exI[of _ "layout u"] exI[of _ ys]) simp
  qed
  have move: ?thesis if nf: "\<not> ecm_fixed (opcode_of d)" and a: "a \<in> B" "a \<noteq> b" "dom_by E r a b"
    and ops: "\<forall>j \<in> operand_insts g d. \<exists>c. placed ys j c \<and> dom_by E r c a"
    and run: "\<And>t l. block_terminator (layout u) a = Some t \<Longrightarrow> move_before i t u = Some (u\<lparr>layout := l\<rparr>) \<Longrightarrow>
      ecm_move ord dt nums b i u = Some (True, u\<lparr>layout := l\<rparr>)"
    and s: "if operand_insts g d = {} then a = r else \<exists>j \<in> operand_insts g d. placed ys j a" for a
  proof -
    obtain t l' ys' where m: "block_terminator (layout u) a = Some t" "move_before i t u = Some (u\<lparr>layout := l'\<rparr>)"
      "ecm_layout g E r B (u\<lparr>layout := l'\<rparr>) ys'" "hoisted g E r ys ys'"
      "\<forall>k c. placed ys' k c \<longleftrightarrow> (if k = i then c = a else placed ys k c)" "\<forall>is. (b, is) \<in> set ys \<longrightarrow> (b, filter (\<lambda>x. x \<noteq> i) is) \<in> set ys'"
      using move_step[OF lay set i d nf a ops] by blast
    have "i \<notin> operand_insts g d"
    proof
      assume "i \<in> operand_insts g d"
      then have "available E r ys i i" using ssa_layout_use[OF ssa d] nf by (auto simp: ecm_fixed_def)
      then show False using available_irrefl[OF rep] by blast
    qed
    then have "settled g r ys' i" using s m(5) d unfolding settled_def by (auto split: if_splits)
    moreover have "a \<in> Q" using dominators_numbered[OF num(1) _ a(3,2)] num(2) by blast
    ultimately show ?thesis using run[OF m(1,2)] m(3-6) by (intro exI[of _ True] exI[of _ l'] exI[of _ ys']) simp
  qed
  show ?thesis
  proof (cases "ecm_fixed (opcode_of d)")
    case True
    then show ?thesis using stay di d by (simp add: ecm_move_def settled_def)
  next
    case False
    define D where "D = (\<lambda>a. {c \<in> B. dom_by E r a c})"
    have av: "\<exists>c. placed ys j c \<and> dom_by E r c b" if "j \<in> operand_insts g d" for j
      using available_dom[OF ssa_layout_use[OF ssa d _ that] rep i] False by (auto simp: ecm_fixed_def)
    define bl where "bl = (\<lambda>j. the (inst_block (layout u) j))"
    have bl: "placed ys j (bl j) \<and> dom_by E r (bl j) b \<and> inst_block (layout u) j = Some (bl j)" if "j \<in> operand_insts g d" for j
      using av[OF that] placed_block[OF rep] by (auto simp: bl_def)
    have dt: "dominated_by dt (bl j) = Some (D (bl j))" if "j \<in> operand_insts g d" for j
    proof -
      have "bl j \<in> B" using bl[OF that] placed_keys l by blast
      then show ?thesis using set by (simp add: ecm_setting_def D_def)
    qed
    have "\<exists>ds. mapM (operand_doms dt u) (args d) = Some ds \<and>
        set (concat ds) = D ` bl ` {j. \<exists>a \<in> set (args d). \<exists>t. value_at (dfg u) a = Some (VInst t j)}"
    proof (rule operand_doms_all)
      show "dfg_wf (dfg u)" "\<forall>a \<in> set (args d). value_at (dfg u) a \<noteq> None" using wf plain d g by (auto simp: plain_graph_def)
      fix a t j assume "a \<in> set (args d)" "value_at (dfg u) a = Some (VInst t j)"
      then have "j \<in> operand_insts g d" using g by (auto simp: operand_insts_def)
      then show "inst_block (layout u) j = Some (bl j) \<and> dominated_by dt (bl j) = Some (D (bl j))" using bl dt by blast
    qed
    then obtain ds where ds: "mapM (operand_doms dt u) (args d) = Some ds" "set (concat ds) = D ` bl ` operand_insts g d"
      using g by (auto simp: operand_insts_def)
    show ?thesis
    proof (cases "operand_insts g d = {}")
      case True
      then have nil: "concat ds = []" using ds(2) by (metis image_empty set_empty)
      obtain js where js: "(r, js) \<in> set ys" using rB l by (auto simp: keys_def)
      have et: "block_terminator (layout u) r = Some (last js)" by (rule terminator_at[OF rep js ssa_layout_term(1)[OF ssa js]])
      have ib: "inst_block (layout u) i = Some b" using i placed_block[OF rep] by blast
      have run: "ecm_move ord dt nums b i u = (if b = r then Some (False, u)
          else do { u \<leftarrow> move_before i (last js) u; Some (True, u) })"
        using di False ds(1) nil et ib l by (simp add: ecm_move_def)
      show ?thesis
      proof (cases "b = r")
        case True
        then show ?thesis using stay run one \<open>operand_insts g d = {}\<close> d by (simp add: settled_def)
      next
        case neq: False
        show ?thesis
          by (rule move[OF False rB _ dom_by_root]) (use neq run et True in auto)
      qed
    next
      case ne: False
      have fin: "finite B" using set by (simp add: ecm_setting_def)
      have A: "bl ` operand_insts g d \<noteq> {}" "\<forall>a \<in> bl ` operand_insts g d. dom_by E r a b" "bl ` operand_insts g d \<subseteq> B"
        using ne bl placed_keys l by blast+
      have "\<exists>a \<in> bl ` operand_insts g d. best_block ord nums (concat ds) = Some a \<and> (\<forall>c \<in> bl ` operand_insts g d. dom_by E r c a)"
        by (rule best_is_deepest[OF _ A(1) finite_subset[OF A(3) fin] A(2) ds(2) _ fin A(3) num reach])
          (use set in \<open>simp_all add: ecm_setting_def D_def\<close>)
      then obtain j where j: "j \<in> operand_insts g d" "best_block ord nums (concat ds) = Some (bl j)"
        "\<forall>k \<in> operand_insts g d. dom_by E r (bl k) (bl j)" by blast
      have nn: "concat ds \<noteq> []" using ds(2) ne by (metis empty_set image_is_empty)
      have run: "ecm_move ord dt nums b i u = (if bl j = b then Some (False, u)
          else do { t \<leftarrow> block_terminator (layout u) (bl j); u \<leftarrow> move_before i t u; Some (True, u) })"
        using di False ds(1) nn j(2) by (simp add: ecm_move_def del: concat_eq_Nil_conv)
      have s: "\<exists>k \<in> operand_insts g d. placed ys k (bl j)" using j(1) bl by blast
      show ?thesis
      proof (cases "bl j = b")
        case True
        have "settled g r ys i" unfolding settled_def
        proof (intro allI impI)
          fix e c assume "inst_at g i = Some e" "placed ys i c"
          then have "e = d" "c = b" using d one by auto
          then show "if operand_insts g e = {} then c = r else \<exists>j \<in> operand_insts g e. placed ys j c" using s ne True by simp
        qed
        then show ?thesis by (intro stay) (use run True in simp_all)
      next
        case neq: False
        have "\<forall>k \<in> operand_insts g d. \<exists>c. placed ys k c \<and> dom_by E r c (bl j)" using bl j(3) by blast
        then show ?thesis
          by (intro move[OF False _ neq]) (use A(3) j(1) bl run neq s ne in auto)
      qed
    qed
  qed
qed

section \<open>A block\<close>

text \<open>
  The instructions that the pass is done with: they are settled, and so are their operands.
\<close>

definition swept :: "data_flow_graph \<Rightarrow> nat \<Rightarrow> layout_list \<Rightarrow> nat set \<Rightarrow> bool" where
  "swept g r ys P \<longleftrightarrow> (\<forall>i \<in> P. settled g r ys i \<and>
     (\<forall>d. inst_at g i = Some d \<longrightarrow> \<not> ecm_fixed (opcode_of d) \<longrightarrow> operand_insts g d \<subseteq> P))"

lemma settled_transfer:
  assumes "settled g r ys i" "\<And>d c. inst_at g i = Some d \<Longrightarrow> \<not> ecm_fixed (opcode_of d) \<Longrightarrow> placed ys' i c = placed ys i c \<and>
    (\<forall>j \<in> operand_insts g d. placed ys' j c = placed ys j c)"
  shows "settled g r ys' i"
  using assms unfolding settled_def by meson

lemma ecm_insts_effect:
  assumes set: "ecm_setting ord dt g E r B" and num: "numbered E r (block_numbers st) Q" "block_numbers st b \<noteq> None"
    and Q: "Q \<subseteq> B" "b \<in> Q"
  shows "ecm_layout g E r B (ecm_unit st) ys \<Longrightarrow> (b, cp @ rest) \<in> set ys \<Longrightarrow> swept g r ys P \<Longrightarrow>
    (\<forall>i c. placed ys i c \<longrightarrow> c \<in> Q - {b} \<longrightarrow> i \<in> P) \<Longrightarrow> (\<forall>i \<in> P. \<forall>c. placed ys i c \<longrightarrow> c \<in> Q) \<Longrightarrow>
    set cp \<subseteq> P \<Longrightarrow> set rest \<inter> P = {} \<Longrightarrow>
    \<exists>m l ys' P'. foldM (ecm_inst ord dt b) rest st = Some (st\<lparr>ecm_modified := m, ecm_unit := (ecm_unit st)\<lparr>layout := l\<rparr>\<rparr>) \<and>
      ecm_layout g E r B ((ecm_unit st)\<lparr>layout := l\<rparr>) ys' \<and> hoisted g E r ys ys' \<and> swept g r ys' P' \<and>
      (\<forall>i c. placed ys' i c \<longrightarrow> (i \<in> P' \<longleftrightarrow> c \<in> Q))"
  using num
proof (induction rest arbitrary: st ys cp P)
  case Nil
  have rep: "fl_rep (layout (ecm_unit st)) ys" using Nil.prems(1) by (simp add: ecm_layout_def)
  have "i \<in> P" if "placed ys i b" for i
    using that Nil.prems(2,6) block_unique[OF rep] by (fastforce simp: placed_def)
  then have "\<forall>i c. placed ys i c \<longrightarrow> (i \<in> P \<longleftrightarrow> c \<in> Q)" using Nil.prems(4,5) by blast
  moreover have "st\<lparr>ecm_modified := ecm_modified st, ecm_unit := (ecm_unit st)\<lparr>layout := layout (ecm_unit st)\<rparr>\<rparr> = st" by simp
  ultimately show ?case using Nil.prems(1,3) hoisted_refl[OF rep]
    by (intro exI[of _ "ecm_modified st"] exI[of _ "layout (ecm_unit st)"] exI[of _ ys] exI[of _ P]) simp
next
  case (Cons i rest)
  let ?u = "ecm_unit st"
  have rep: "fl_rep (layout ?u) ys" and ssa: "ssa_layout g E r ys" using Cons.prems(1) by (simp_all add: ecm_layout_def)
  have ib: "placed ys i b" using Cons.prems(2) by (force simp: placed_def)
  have dist: "distinct (cp @ i # rest)" by (rule fl_rep_distinct[OF rep Cons.prems(2)])
  obtain m l ys1 where m: "ecm_move ord dt (block_numbers st) b i ?u = Some (m, ?u\<lparr>layout := l\<rparr>)"
    "ecm_layout g E r B (?u\<lparr>layout := l\<rparr>) ys1" "hoisted g E r ys ys1" "settled g r ys1 i"
    "\<forall>k c. k \<noteq> i \<longrightarrow> placed ys1 k c = placed ys k c" "\<forall>c. placed ys1 i c \<longrightarrow> c = b \<or> c \<in> Q"
    "\<forall>is. (b, is) \<in> set ys \<longrightarrow> (b, is) \<in> set ys1 \<or> (b, filter (\<lambda>x. x \<noteq> i) is) \<in> set ys1"
    using ecm_move_effect[OF Cons.prems(1) set ib Cons.prems(8,9) Q(1)] by blast
  let ?st = "st\<lparr>ecm_modified := ecm_modified st \<or> m, ecm_unit := ?u\<lparr>layout := l\<rparr>\<rparr>"
  have step: "ecm_inst ord dt b i st = Some ?st" using m(1) by (simp add: ecm_inst_def)
  have "filter (\<lambda>x. x \<noteq> i) cp = cp" "filter (\<lambda>x. x \<noteq> i) rest = rest" using dist by (auto intro: filter_True)
  then have "filter (\<lambda>x. x \<noteq> i) (cp @ i # rest) = cp @ rest" by simp
  then have "(b, (cp @ [i]) @ rest) \<in> set ys1 \<or> (b, cp @ rest) \<in> set ys1" using m(7) Cons.prems(2) by fastforce
  then obtain cp' where cp': "(b, cp' @ rest) \<in> set ys1" "set cp' \<subseteq> insert i (set cp)" by fastforce
  have iP: "i \<notin> P" using Cons.prems(7) by auto
  have ops: "operand_insts g d \<subseteq> P" if d: "inst_at g i = Some d" "\<not> ecm_fixed (opcode_of d)" for d
  proof
    fix j assume "j \<in> operand_insts g d"
    then have av: "available E r ys j i" using ssa_layout_use[OF ssa d(1)] d(2) by (auto simp: ecm_fixed_def)
    then obtain b' "is" c where p: "(b', is) \<in> set ys" "j \<in> set is" "placed ys i c" "if b' = c then comes_after is j i else dom_by E r b' c"
      by (auto simp: available_def)
    have c: "c = b" using placed_unique[OF rep ib p(3)] by simp
    show "j \<in> P"
    proof (cases "b' = b")
      case True
      then have "is = cp @ i # rest" using block_unique[OF rep p(1)] Cons.prems(2) by simp
      then have "comes_after (cp @ i # rest) j i" using p(4) True c by simp
      then obtain as bs where s: "cp @ i # rest = as @ j # bs" "i \<in> set bs" by (auto simp: comes_after_split)
      then have "j \<in> set cp" using dist by (auto simp: append_eq_append_conv2 append_eq_Cons_conv Cons_eq_append_conv)
      then show ?thesis using Cons.prems(6) by blast
    next
      case False
      then have "b' \<in> Q" using dominators_numbered[OF Cons.prems(8), of b _ b'] Cons.prems(9) p(4) c by auto
      then show ?thesis using Cons.prems(4) p(1,2) False by (auto simp: placed_def)
    qed
  qed
  have old: "settled g r ys1 k" if k: "k \<in> P" for k
  proof (rule settled_transfer)
    show "settled g r ys k" using Cons.prems(3) k by (simp add: swept_def)
    show "placed ys1 k c = placed ys k c \<and> (\<forall>j \<in> operand_insts g d. placed ys1 j c = placed ys j c)"
      if "inst_at g k = Some d" "\<not> ecm_fixed (opcode_of d)" for d c
    proof -
      have "operand_insts g d \<subseteq> P" using that k Cons.prems(3) unfolding swept_def by blast
      then have "k \<noteq> i" "\<forall>j \<in> operand_insts g d. j \<noteq> i" using k iP by blast+
      then show ?thesis using m(5) by simp
    qed
  qed
  have sw: "swept g r ys1 (insert i P)"
    using old m(4) ops Cons.prems(3) unfolding swept_def by blast
  have "\<exists>m' l' ys' P'. foldM (ecm_inst ord dt b) rest ?st =
        Some (?st\<lparr>ecm_modified := m', ecm_unit := (ecm_unit ?st)\<lparr>layout := l'\<rparr>\<rparr>) \<and>
      ecm_layout g E r B ((ecm_unit ?st)\<lparr>layout := l'\<rparr>) ys' \<and> hoisted g E r ys1 ys' \<and> swept g r ys' P' \<and>
      (\<forall>i c. placed ys' i c \<longrightarrow> (i \<in> P' \<longleftrightarrow> c \<in> Q))"
  proof (rule Cons.IH[of _ _ cp' "insert i P"])
    show "ecm_layout g E r B (ecm_unit ?st) ys1" using m(2) by simp
    show "(b, cp' @ rest) \<in> set ys1" "swept g r ys1 (insert i P)" by (fact cp'(1) sw)+
    show "\<forall>k c. placed ys1 k c \<longrightarrow> c \<in> Q - {b} \<longrightarrow> k \<in> insert i P" using m(5) Cons.prems(4) by blast
    show "\<forall>k \<in> insert i P. \<forall>c. placed ys1 k c \<longrightarrow> c \<in> Q"
    proof (intro ballI allI impI)
      fix k c assume k: "k \<in> insert i P" "placed ys1 k c"
      show "c \<in> Q"
      proof (cases "k = i")
        case True
        then show ?thesis using k(2) m(6) Q(2) by blast
      next
        case False
        then have "k \<in> P" "placed ys k c" using k m(5) by auto
        then show ?thesis using Cons.prems(5) by blast
      qed
    qed
    show "set cp' \<subseteq> insert i P" using cp'(2) Cons.prems(6) by blast
    show "set rest \<inter> insert i P = {}" using Cons.prems(7) dist by auto
    show "numbered E r (block_numbers ?st) Q" "block_numbers ?st b \<noteq> None" using Cons.prems(8,9) by simp_all
  qed
  then obtain m' l' ys' P' where r: "foldM (ecm_inst ord dt b) rest ?st = Some (?st\<lparr>ecm_modified := m', ecm_unit := (ecm_unit ?st)\<lparr>layout := l'\<rparr>\<rparr>)"
    "ecm_layout g E r B ((ecm_unit ?st)\<lparr>layout := l'\<rparr>) ys'" "hoisted g E r ys1 ys'" "swept g r ys' P'"
    "\<forall>i c. placed ys' i c \<longrightarrow> (i \<in> P' \<longleftrightarrow> c \<in> Q)" by blast
  have "foldM (ecm_inst ord dt b) (i # rest) st = Some (st\<lparr>ecm_modified := m', ecm_unit := ?u\<lparr>layout := l'\<rparr>\<rparr>)"
    using step r(1) by simp
  moreover have "ecm_layout g E r B (?u\<lparr>layout := l'\<rparr>) ys'" using r(2) by simp
  ultimately show ?case using hoisted_trans[OF m(3) r(3)] r(4,5) by blast
qed

text \<open>The numbers of the successors.\<close>

lemma number_targets:
  "fold (\<lambda>b m. case m b of None \<Rightarrow> m(b \<mapsto> k) | Some _ \<Rightarrow> m) ts nums =
    (\<lambda>c. case nums c of Some n \<Rightarrow> Some n | None \<Rightarrow> if c \<in> set ts then Some k else None)"
proof (induction ts arbitrary: nums)
  case Nil then show ?case by (simp add: fun_eq_iff split: option.split)
next
  case (Cons t ts)
  show ?case unfolding fold_simps Cons.IH by (auto simp: fun_eq_iff split: option.splits)
qed

section \<open>The pass\<close>

definition ecm_inv :: "data_flow_graph \<Rightarrow> (nat \<Rightarrow> nat \<Rightarrow> bool) \<Rightarrow> nat \<Rightarrow> nat set \<Rightarrow> layout_list \<Rightarrow> ecm_state \<Rightarrow> layout_list \<Rightarrow> nat set \<Rightarrow> bool" where
  "ecm_inv g E r B xs st ys P \<longleftrightarrow> ecm_layout g E r B (ecm_unit st) ys \<and> hoisted g E r xs ys \<and>
     numbered E r (block_numbers st) (work_done st) \<and> dom (block_numbers st) = work_done st \<union> work_pending st \<and>
     work_done st \<inter> work_pending st = {} \<and> work_done st \<union> work_pending st \<subseteq> B \<and>
     (\<forall>b \<in> work_done st. \<forall>c. E b c \<longrightarrow> c \<in> work_done st \<union> work_pending st) \<and>
     swept g r ys P \<and> (\<forall>i c. placed ys i c \<longrightarrow> (i \<in> P \<longleftrightarrow> c \<in> work_done st))"

lemma numbered_mono: "numbered E r nums D \<Longrightarrow> D \<subseteq> D' \<Longrightarrow> numbered E r nums D'"
  unfolding numbered_def by blast

lemma numbered_targets:
  assumes num: "numbered E r nums D" and b: "b \<in> D" "nums b = Some n" and ts: "\<forall>c \<in> set ts. E b c"
  shows "numbered E r (\<lambda>c. case nums c of Some n \<Rightarrow> Some n | None \<Rightarrow> if c \<in> set ts then Some (n + 1) else None) D"
    (is "numbered E r ?f D")
  unfolding numbered_def
proof (intro conjI allI impI)
  show "?f r = Some 0" using num by (simp add: numbered_def)
  fix c k assume c: "?f c = Some k" "c \<noteq> r"
  show "\<exists>p \<in> D. \<exists>m. E p c \<and> ?f p = Some m \<and> k = Suc m"
  proof (cases "nums c")
    case None
    then have "c \<in> set ts" "k = Suc n" using c(1) by (simp_all split: if_splits)
    then show ?thesis using b ts by (intro bexI[of _ b] exI[of _ n]) simp_all
  next
    case (Some x)
    then have "nums c = Some k" using c(1) by simp
    then obtain p m where "p \<in> D" "E p c" "nums p = Some m" "k = Suc m" using num c(2) unfolding numbered_def by blast
    then show ?thesis by (intro bexI[of _ p] exI[of _ m]) simp_all
  qed
qed

lemma terminator_targets:
  assumes E: "E = branches (\<lambda>_. False) g xs" and ho: "hoisted g E r xs ys" and rep: "fl_rep l ys" and ssa: "ssa_layout g E r xs"
    and js: "(b, js) \<in> set ys" and d: "pt2_index (dinsts g) (last js) = Some d"
  shows "E b c \<longleftrightarrow> c \<in> set (inst_blocks d)"
proof -
  have keys: "map fst xs = map fst ys" using ho by (simp add: hoisted_def)
  have "b \<in> set (map fst xs)" using js unfolding keys by force
  then obtain "is" where m: "(b, is) \<in> set xs" by auto
  have "is' = is" if "(b, is') \<in> set xs" for is'
    using key_unique[of xs "(b, is)" "(b, is')"] fl_repD(2)[OF rep] keys m that by simp
  then have "E b c \<longleftrightarrow> c \<in> term_targets (\<lambda>_. False) g is" using m unfolding E branches_def by blast
  moreover have "last js = last is" using ho m js unfolding hoisted_def by blast
  moreover have "is \<noteq> []" by (rule ssa_layout_term(1)[OF ssa m])
  ultimately show ?thesis using d by (simp add: term_targets_def last_opt_def)
qed

lemma ecm_block_effect:
  assumes set: "ecm_setting ord dt g E r B" and E: "E = branches (\<lambda>_. False) g xs" and ssa: "ssa_layout g E r xs"
    and inside: "\<forall>a c. E a c \<longrightarrow> c \<in> B" and inv: "ecm_inv g E r B xs st ys P" and b: "b \<in> work_pending st"
  shows "\<exists>st' l ys' P'. ecm_block ord dt b st = Some st' \<and> ecm_unit st' = (ecm_unit st)\<lparr>layout := l\<rparr> \<and> ecm_inv g E r B xs st' ys' P' \<and>
    work_done st' = insert b (work_done st)"
proof -
  note v = inv[unfolded ecm_inv_def]
  let ?st = "st\<lparr>work_pending := work_pending st - {b}, work_done := insert b (work_done st)\<rparr>"
  let ?Q = "insert b (work_done st)"
  have lay: "ecm_layout g E r B (ecm_unit ?st) ys" and bB: "b \<in> B" and bD: "b \<notin> work_done st" using v b by auto
  have rep: "fl_rep (layout (ecm_unit st)) ys" using lay by (simp add: ecm_layout_def)
  obtain js where js: "(b, js) \<in> set ys" using bB lay by (auto simp: ecm_layout_def keys_def)
  have num: "numbered E r (block_numbers ?st) ?Q" "block_numbers ?st b \<noteq> None"
    using v b numbered_mono[of E r "block_numbers st" "work_done st" ?Q] by auto
  have QB: "?Q \<subseteq> B" "b \<in> ?Q" using v bB by auto
  have here: "placed ys i b" if "i \<in> set js" for i using that js by (auto simp: placed_def)
  have fresh: "set js \<inter> P = {}" using here v bD by blast
  have c1: "\<forall>i c. placed ys i c \<longrightarrow> c \<in> ?Q - {b} \<longrightarrow> i \<in> P" "\<forall>i \<in> P. \<forall>c. placed ys i c \<longrightarrow> c \<in> ?Q" and sw: "swept g r ys P" using v by blast+
  obtain m l ys' P' where f: "foldM (ecm_inst ord dt b) js ?st = Some (?st\<lparr>ecm_modified := m, ecm_unit := (ecm_unit ?st)\<lparr>layout := l\<rparr>\<rparr>)"
    "ecm_layout g E r B ((ecm_unit ?st)\<lparr>layout := l\<rparr>) ys'" "hoisted g E r ys ys'" "swept g r ys' P'"
    "\<forall>i c. placed ys' i c \<longrightarrow> (i \<in> P' \<longleftrightarrow> c \<in> ?Q)"
    using ecm_insts_effect[OF set num QB lay _ sw c1 _ fresh, of "[]"] js by auto
  let ?st1 = "?st\<lparr>ecm_modified := m, ecm_unit := (ecm_unit ?st)\<lparr>layout := l\<rparr>\<rparr>"
  have u1: "ecm_unit ?st1 = (ecm_unit st)\<lparr>layout := l\<rparr>" "layout (ecm_unit ?st1) = l" "dfg (ecm_unit ?st1) = g"
    using f(2) by (simp_all add: ecm_layout_def)
  have rep1: "fl_rep l ys'" and ssa1: "ssa_layout g E r ys'" using f(2) by (simp_all add: ecm_layout_def)
  have ho: "hoisted g E r xs ys'" using hoisted_trans[OF _ f(3)] v by blast
  obtain ks where ks: "(b, ks) \<in> set ys'" using bB f(2) by (auto simp: ecm_layout_def keys_def)
  have ne: "ks \<noteq> []" by (rule ssa_layout_term(1)[OF ssa1 ks])
  have "last ks \<in> members ys'" using ks ne by (force simp: members_def)
  then obtain d where d: "inst_at g (last ks) = Some d" using f(2) by (auto simp: ecm_layout_def live_def)
  have di: "pt2_index (dinsts g) (last ks) = Some d"
    using inst_at_index[OF _ d] set by (auto simp: ecm_setting_def plain_graph_def)
  have tt: "op_is_terminator (opcode_of d)" using ssa_layout_term(2)[OF ssa1 ks _ d] ne by simp
  note tg = terminator_targets[OF E ho rep1 ssa ks di]
  obtain n where n: "block_numbers st b = Some n" using num(2) by auto
  let ?nums = "\<lambda>c. case block_numbers st c of Some n \<Rightarrow> Some n | None \<Rightarrow> if c \<in> set (inst_blocks d) then Some (n + 1) else None"
  let ?st2 = "?st1\<lparr>work_pending := work_pending ?st1 \<union> (set (inst_blocks d) - ?Q), block_numbers := ?nums\<rparr>"
  have run: "ecm_block ord dt b st = Some ?st2"
    using fl_rep_insts[OF rep js] f(1) terminator_at[OF rep1 ks ne] di tt n u1(2,3)
    by (simp add: ecm_block_def ecm_successors_def number_targets)
  have nums: "numbered E r ?nums ?Q" by (rule numbered_targets) (use num n tg in auto)
  have domn: "dom ?nums = dom (block_numbers st) \<union> set (inst_blocks d)" by (auto split: option.splits if_splits)
  have dm: "dom ?nums = ?Q \<union> (work_pending st - {b} \<union> (set (inst_blocks d) - ?Q))" unfolding domn using v b by blast
  have tB: "set (inst_blocks d) \<subseteq> B" using tg inside by blast
  have "ecm_inv g E r B xs ?st2 ys' P'"
    unfolding ecm_inv_def
  proof (intro conjI)
    show "ecm_layout g E r B (ecm_unit ?st2) ys'" using f(2) by simp
    show "hoisted g E r xs ys'" "swept g r ys' P'" by (fact ho f(4))+
    show "numbered E r (block_numbers ?st2) (work_done ?st2)" using nums by simp
    show "dom (block_numbers ?st2) = work_done ?st2 \<union> work_pending ?st2" using dm by simp
    show "work_done ?st2 \<inter> work_pending ?st2 = {}" using v by auto
    show "work_done ?st2 \<union> work_pending ?st2 \<subseteq> B" using v tB bB by auto
    show "\<forall>b \<in> work_done ?st2. \<forall>c. E b c \<longrightarrow> c \<in> work_done ?st2 \<union> work_pending ?st2" using v tg by auto
    show "\<forall>i c. placed ys' i c \<longrightarrow> (i \<in> P') = (c \<in> work_done ?st2)" using f(5) by simp
  qed
  then show ?thesis using run u1(1) by (intro exI[of _ ?st2] exI[of _ l] exI[of _ ys'] exI[of _ P']) simp
qed

lemma ecm_loop_effect:
  assumes set: "ecm_setting ord dt g E r B" and E: "E = branches (\<lambda>_. False) g xs" and ssa: "ssa_layout g E r xs"
    and inside: "\<forall>a c. E a c \<longrightarrow> c \<in> B"
  shows "ecm_inv g E r B xs st ys P \<Longrightarrow> r \<in> work_done st \<union> work_pending st \<Longrightarrow>
    \<exists>st' l ys'. ecm_loop ord dt st = Some st' \<and> ecm_unit st' = (ecm_unit st)\<lparr>layout := l\<rparr> \<and>
      ecm_layout g E r B (ecm_unit st') ys' \<and> hoisted g E r xs ys' \<and> (\<forall>i. settled g r ys' i)"
proof (induction "card (B - work_done st)" arbitrary: st ys P rule: less_induct)
  case less
  note v = less.prems(1)[unfolded ecm_inv_def]
  have fin: "finite B" and ord: "lists_sets ord" using set by (simp_all add: ecm_setting_def)
  have "finite (work_pending st)" using v fin finite_subset by blast
  then have op: "set (ord (work_pending st)) = work_pending st" using ord by (simp add: lists_sets_def)
  show ?case
  proof (cases "ord (work_pending st)")
    case Nil
    then have e: "work_pending st = {}" using op by simp
    have "b \<in> work_done st" if "E\<^sup>*\<^sup>* r b" for b
      using that by (induction rule: rtranclp_induct) (use less.prems(2) e v in auto)
    then have "B \<subseteq> work_done st" using set by (auto simp: ecm_setting_def)
    then have "settled g r ys i" for i
      using v placed_keys[of ys i] unfolding settled_def swept_def ecm_layout_def by blast
    moreover have "ecm_loop ord dt st = Some st" using Nil by (subst ecm_loop.simps) simp
    moreover have "(ecm_unit st)\<lparr>layout := layout (ecm_unit st)\<rparr> = ecm_unit st" by simp
    ultimately show ?thesis using v by metis
  next
    case (Cons b bs)
    then have b: "b \<in> work_pending st" using op by auto
    obtain st1 l ys1 P1 where s: "ecm_block ord dt b st = Some st1" "ecm_unit st1 = (ecm_unit st)\<lparr>layout := l\<rparr>"
      "ecm_inv g E r B xs st1 ys1 P1" "work_done st1 = insert b (work_done st)"
      using ecm_block_effect[OF set E ssa inside less.prems(1) b] by blast
    have bB: "b \<in> B" "b \<notin> work_done st" using v b by blast+
    then have "B - work_done st1 \<subset> B - work_done st" using s(4) by auto
    then have lt: "card (B - work_done st1) < card (B - work_done st)" using fin by (simp add: psubset_card_mono)
    have "dom (block_numbers st1) = work_done st1 \<union> work_pending st1" "block_numbers st1 r = Some 0"
      using s(3) by (auto simp: ecm_inv_def numbered_def)
    then have "r \<in> work_done st1 \<union> work_pending st1" by blast
    from less.hyps[OF lt s(3) this] obtain st' l' ys' where r: "ecm_loop ord dt st1 = Some st'" "ecm_unit st' = (ecm_unit st1)\<lparr>layout := l'\<rparr>"
      "ecm_layout g E r B (ecm_unit st') ys'" "hoisted g E r xs ys'" "\<forall>i. settled g r ys' i" by blast
    have "ecm_loop ord dt st = Some st'" using Cons s(1) r(1) by (subst ecm_loop.simps) simp
    moreover have "ecm_unit st' = (ecm_unit st)\<lparr>layout := l'\<rparr>" using r(2) s(2) by simp
    ultimately show ?thesis using r(3-5) by blast
  qed
qed

text \<open>
  C6: early code motion. In a unit whose blocks are all reachable and end in their only
  terminators and whose definitions come before their uses, the pass returns whatever the order
  of the hash sets, and changes nothing but the layout. Every instruction stays in its block or moves
  to one that dominates it; loads, stores, probes, unconditional drives, phi nodes and terminators
  (\<open>ecm_fixed\<close>) stay where they are and in order; definitions still come before their uses, along
  every path from the entry block. Every other instruction, and that includes conditional drives,
  calls, variables and signals, ends up as far up as its operands allow: in the entry block if it
  has no instruction among its operands, otherwise in the block of one of them.
\<close>

theorem early_code_motion_correct:
  assumes "unit_rep u xs" "xs \<noteq> []" "plain_graph (dfg u)" "lists_sets ord"
    and "E = branches (\<lambda>_. False) (dfg u) xs" "r = fst (hd xs)"
    and "\<forall>a b. E a b \<longrightarrow> b \<in> keys xs" "\<forall>b \<in> keys xs. E\<^sup>*\<^sup>* r b"
    and "keys xs \<subseteq> {..<pt2_capacity (cblocks (cfg u))}" "pt2_capacity (cblocks (cfg u)) < 2 ^ 32"
    and "ssa_layout (dfg u) E r xs"
  shows "\<exists>m l ys. ecm_run_on_cfg ord u = Some (m, u\<lparr>layout := l\<rparr>) \<and> unit_rep (u\<lparr>layout := l\<rparr>) ys \<and>
    hoisted (dfg u) E r xs ys \<and> ssa_layout (dfg u) E r ys \<and> (\<forall>i. settled (dfg u) r ys i)"
proof -
  note rep = unit_repD[OF assms(1)]
  have ins: "\<forall>i \<in> members xs. pt2_index (dinsts (dfg u)) i \<noteq> None"
    using rep(4) inst_at_index[OF rep(1)] by (auto simp: live_def)
  obtain t where t: "pred_table_skip (\<lambda>_. False) (dfg u) (layout u) = Some t"
    using pred_table_built[OF rep(3) ins] assms(5,7) by auto
  note T = pred_table_of[OF rep(3) ins t, folded assms(5)]
  have G: "rooted_graph E r (keys xs)" using T(2) assms(2,6,8) unfolding rooted_graph_def keys_def by auto
  have e: "entry_block (layout u) = Some r" using rep_entry[OF rep(3)] assms(2,6) by (cases xs) (auto simp: hd_opt_def)
  have B: "set (map fst xs) = keys xs" by (simp add: keys_def)
  have c: "pt2_capacity (cblocks (cfg u)) \<le> no_dom" using assms(10) by (simp add: no_dom_def)
  obtain dt where dt: "domtree_new ord (pt2_capacity (cblocks (cfg u))) (layout u) t = Some dt"
    "dt_dominates dt = (\<lambda>a. if a \<in> keys xs then Some {b \<in> keys xs. dom_by E r a b} else None)"
    using domtree_built[OF e fl_rep_all_insts(1)[OF rep(3)] B G T(1) assms(4,9) c] by blast
  have r: "r \<in> keys xs" using assms(2,6) by (simp add: keys_def)
  have setting: "ecm_setting ord dt (dfg u) E r (keys xs)"
    using assms(3,4,8) r dt(2) by (simp add: ecm_setting_def dominated_by_def keys_def)
  let ?st = "\<lparr>block_numbers = [r \<mapsto> 0], work_done = {}, work_pending = {r}, ecm_modified = False, ecm_unit = u\<rparr>"
  have inv: "ecm_inv (dfg u) E r (keys xs) xs ?st xs {}"
    using rep(3,4) assms(11) e r hoisted_refl[OF rep(3)] by (simp add: ecm_inv_def ecm_layout_def numbered_def swept_def)
  obtain st' l ys where st: "ecm_loop ord dt ?st = Some st'" "ecm_unit st' = u\<lparr>layout := l\<rparr>"
    "ecm_layout (dfg u) E r (keys xs) (ecm_unit st') ys" "hoisted (dfg u) E r xs ys" "\<forall>i. settled (dfg u) r ys i"
    using ecm_loop_effect[OF setting assms(5,11,7) inv] by auto
  have "ecm_run_on_cfg ord u = Some (ecm_modified st', u\<lparr>layout := l\<rparr>)"
    using t dt(1) e st(1,2) by (simp add: ecm_run_on_cfg_def predtbl_def)
  moreover have "unit_rep (u\<lparr>layout := l\<rparr>) ys" using st(2,3) assms(1) by (simp add: unit_rep_def ecm_layout_def)
  moreover have "ssa_layout (dfg u) E r ys" using st(3) by (simp add: ecm_layout_def)
  ultimately show ?thesis using st(4,5) by blast
qed

lemma loop_ssa: "ssa_layout loop_graph (branches (\<lambda>_. False) loop_graph loop_blocks) 0 loop_blocks"
proof -
  let ?E = "branches (\<lambda>_. False) loop_graph loop_blocks"
  have p: "placed loop_blocks 3 1" "placed loop_blocks 5 2" by (auto simp: placed_def)
  have here: "available ?E 0 loop_blocks j 3" if "j \<in> {1, 2}" for j
    unfolding available_def
    by (rule exI[of _ 1], rule exI[of _ "[1, 2, 3, 4]"], rule exI[of _ 1])
      (use that p in \<open>auto simp: comes_after_split intro: exI[of _ "[]"] exI[of _ "[1]"]\<close>)
  have there: "available ?E 0 loop_blocks j 5" if "j \<in> {1, 2}" for j
    unfolding available_def
    by (rule exI[of _ 1], rule exI[of _ "[1, 2, 3, 4]"], rule exI[of _ 2]) (use that p loop_dominates in auto)
  have "available ?E 0 loop_blocks j k" if "inst_at loop_graph k = Some d" "j \<in> operand_insts loop_graph d" for j k d
  proof -
    have "d \<in> {IJump OpBr 1, IConstInt OpConstInt (IntValue 1 1), IConstTime OpConstTime time_zero, IWait OpWait 2 []} \<or>
        (k \<in> {3, 5} \<and> d = ITernary OpDrv 0 1 2)"
      using that(1) unfolding loop_at by (simp split: if_splits)
    moreover have "operand_insts loop_graph (ITernary OpDrv 0 1 2) = {1, 2}"
      unfolding operand_insts_def loop_at by (auto simp: args_def)
    moreover have "operand_insts loop_graph e = {}"
      if "e \<in> {IJump OpBr 1, IConstInt OpConstInt (IntValue 1 1), IConstTime OpConstTime time_zero, IWait OpWait 2 []}" for e
      using that by (auto simp: operand_insts_def args_def)
    ultimately have "k \<in> {3, 5} \<and> j \<in> {1, 2}" using that(2) by blast
    then show ?thesis using here there by blast
  qed
  moreover have "\<forall>(b, is) \<in> set loop_blocks. is \<noteq> [] \<and>
      (\<forall>i \<in> set is. \<forall>d. inst_at loop_graph i = Some d \<longrightarrow> (op_is_terminator (opcode_of d) \<longleftrightarrow> i = last is))"
    unfolding loop_at by (auto simp: opcode_of_def op_is_terminator_def)
  ultimately show ?thesis unfolding ssa_layout_def by blast
qed

lemma early_code_motion_correct_witness:
  "\<exists>u m l ys. dfg u = loop_graph \<and> unit_rep u loop_blocks \<and> ecm_run_on_cfg sorted_list_of_set u = Some (m, u\<lparr>layout := l\<rparr>) \<and>
     unit_rep (u\<lparr>layout := l\<rparr>) ys \<and> placed ys 1 0 \<and> placed ys 2 0"
proof -
  let ?E = "branches (\<lambda>_. False) loop_graph loop_blocks"
  obtain u where u: "unit_rep u loop_blocks" "dfg u = loop_graph" "pt2_capacity (cblocks (cfg u)) = 3" using loop_unit by blast
  have plain: "plain_graph (dfg u)"
    using loop_wf(1) unfolding u(2) plain_graph_def loop_at by (auto simp: args_def opcode_of_def op_is_terminator_def)
  have E: "?E = branches (\<lambda>_. False) (dfg u) loop_blocks" using u(2) by simp
  have ord: "lists_sets sorted_list_of_set" by (rule lists_sets_sorted)
  have keys: "keys loop_blocks = {0, 1, 2}" by (auto simp: keys_def)
  have inside: "\<forall>a b. ?E a b \<longrightarrow> b \<in> keys loop_blocks" unfolding loop_edges keys by auto
  have reach: "\<forall>b \<in> keys loop_blocks. ?E\<^sup>*\<^sup>* 0 b" using loop_reachable by simp
  have cap: "keys loop_blocks \<subseteq> {..<pt2_capacity (cblocks (cfg u))}" "pt2_capacity (cblocks (cfg u)) < 2 ^ 32"
    unfolding u(3) keys by auto
  have r: "0 = fst (hd loop_blocks)" by simp
  have ssa: "ssa_layout (dfg u) ?E 0 loop_blocks" using loop_ssa u(2) by simp
  obtain m l ys where run: "ecm_run_on_cfg sorted_list_of_set u = Some (m, u\<lparr>layout := l\<rparr>)" "unit_rep (u\<lparr>layout := l\<rparr>) ys"
    and s: "\<forall>i. settled (dfg u) 0 ys i"
    using early_code_motion_correct[OF u(1) _ plain ord E r inside reach cap ssa] by auto
  have "placed ys i 0" if i: "i \<in> {1, 2}" for i
  proof -
    have "i \<in> live loop_graph" using i unfolding live_def loop_at by auto
    then obtain c where c: "placed ys i c" using unit_repD(4)[OF run(2)] placed_members[of i ys] u(2) by auto
    obtain d where d: "inst_at loop_graph i = Some d" "args d = []" "\<not> ecm_fixed (opcode_of d)"
      using i unfolding loop_at by (auto simp: args_def opcode_of_def ecm_fixed_def op_is_terminator_def)
    then have "c = 0" using s c unfolding settled_def u(2) by (fastforce simp: operand_insts_def)
    then show ?thesis using c by simp
  qed
  then show ?thesis using u(1,2) run by blast
qed

end
