(* ===== verification/SimValues.thy ===== *)
theory SimValues
  imports IntWords Values
begin

text \<open>
  The values of the simulator (\<^verbatim>\<open>src/src/bin/llhd-sim/value.rs\<close>). Its \<^verbatim>\<open>Value\<close> and
  \<^verbatim>\<open>IntValue\<close> have the constructors and fields of the library's types, so the model uses
  the same datatypes under names of their own; every operation is the simulator's. The
  lemmas compare the operations with those of the library.
\<close>

type_synonym sim_int = int_value
type_synonym sim_value = val

section \<open>Integers\<close>

definition si_from_usize :: "nat \<Rightarrow> nat \<Rightarrow> sim_int" where
  "si_from_usize w v = IntValue w v"

definition si_from_unsigned :: "nat \<Rightarrow> nat \<Rightarrow> sim_int" where
  "si_from_unsigned w v = (let v = v mod 2 ^ w in IntValue w v)"

definition si_from_signed :: "nat \<Rightarrow> int \<Rightarrow> sim_int option" where
  "si_from_signed w v =
     (let modulus = 2 ^ w; v = v smod modulus; v = (if v < 0 then v + modulus else v)
      in do { ensure (0 \<le> v); Some (si_from_unsigned w (nat v)) })"

definition si_to_signed :: "sim_int \<Rightarrow> int option" where
  "si_to_signed x =
     (if width x = 0 then None
      else if ivalue x AND 2 ^ (width x - 1) = 0 then Some (int (ivalue x))
      else Some (2 ^ width x - int (ivalue x)))"

definition si_to_usize :: "sim_int \<Rightarrow> nat option" where
  "si_to_usize x = (if ivalue x < 2 ^ 64 then Some (ivalue x) else None)"

definition si_is_zero :: "sim_int \<Rightarrow> bool" where
  "si_is_zero x \<longleftrightarrow> ivalue x = 0"

definition si_is_one :: "sim_int \<Rightarrow> bool" where
  "si_is_one x \<longleftrightarrow> ivalue x = 1"

definition si_extract_slice :: "sim_int \<Rightarrow> nat \<Rightarrow> nat \<Rightarrow> sim_int" where
  "si_extract_slice x off len =
     (let shifted = drop_bit off (ivalue x); modulus = 2 ^ len in si_from_unsigned len (shifted mod modulus))"

definition si_insert_slice :: "sim_int \<Rightarrow> nat \<Rightarrow> nat \<Rightarrow> sim_int \<Rightarrow> sim_int option" where
  "si_insert_slice x off len v =
     do { ensure (len = width v);
          let mask = push_bit off (2 ^ len - 1 :: nat);
          let mask_inv = (2 ^ width x - 1) XOR mask;
          Some (IntValue (width x) ((ivalue x AND mask_inv) OR push_bit off (ivalue v))) }"

definition si_not :: "sim_int \<Rightarrow> sim_int option" where
  "si_not x =
     do { let max = (2 ^ width x - 1 :: nat);
          ensure (ivalue x \<le> max);
          Some (si_from_unsigned (width x) (max - ivalue x)) }"

definition si_neg :: "sim_int \<Rightarrow> sim_int option" where
  "si_neg x =
     do { let max = (2 ^ width x :: nat);
          ensure (ivalue x \<le> max);
          Some (si_from_unsigned (width x) (max - ivalue x)) }"

definition si_add :: "sim_int \<Rightarrow> sim_int \<Rightarrow> sim_int" where
  "si_add x y = si_from_unsigned (width x) (ivalue x + ivalue y)"

definition si_sub :: "sim_int \<Rightarrow> sim_int \<Rightarrow> sim_int option" where
  "si_sub x y = do { a \<leftarrow> si_to_signed x; b \<leftarrow> si_to_signed y; si_from_signed (width x) (a - b) }"

definition si_and :: "sim_int \<Rightarrow> sim_int \<Rightarrow> sim_int" where
  "si_and x y = si_from_unsigned (width x) (ivalue x AND ivalue y)"

definition si_or :: "sim_int \<Rightarrow> sim_int \<Rightarrow> sim_int" where
  "si_or x y = si_from_unsigned (width x) (ivalue x OR ivalue y)"

definition si_xor :: "sim_int \<Rightarrow> sim_int \<Rightarrow> sim_int" where
  "si_xor x y = si_from_unsigned (width x) (ivalue x XOR ivalue y)"

definition si_umul :: "sim_int \<Rightarrow> sim_int \<Rightarrow> sim_int" where
  "si_umul x y = si_from_unsigned (width x) (ivalue x * ivalue y)"

definition si_udiv :: "sim_int \<Rightarrow> sim_int \<Rightarrow> sim_int option" where
  "si_udiv x y = do { ensure (ivalue y \<noteq> 0); Some (si_from_unsigned (width x) (ivalue x div ivalue y)) }"

definition si_umod :: "sim_int \<Rightarrow> sim_int \<Rightarrow> sim_int option" where
  "si_umod x y = do { ensure (ivalue y \<noteq> 0); Some (si_from_unsigned (width x) (ivalue x mod ivalue y)) }"

definition si_urem :: "sim_int \<Rightarrow> sim_int \<Rightarrow> sim_int option" where
  "si_urem x y = do { ensure (ivalue y \<noteq> 0); Some (si_from_unsigned (width x) (ivalue x mod ivalue y)) }"

definition si_smul :: "sim_int \<Rightarrow> sim_int \<Rightarrow> sim_int option" where
  "si_smul x y = do { a \<leftarrow> si_to_signed x; b \<leftarrow> si_to_signed y; si_from_signed (width x) (a * b) }"

definition si_sdiv :: "sim_int \<Rightarrow> sim_int \<Rightarrow> sim_int option" where
  "si_sdiv x y =
     do { a \<leftarrow> si_to_signed x; b \<leftarrow> si_to_signed y; ensure (b \<noteq> 0); si_from_signed (width x) (a sdiv b) }"

definition si_smod :: "sim_int \<Rightarrow> sim_int \<Rightarrow> sim_int option" where
  "si_smod x y =
     do { a \<leftarrow> si_to_signed x; b \<leftarrow> si_to_signed y; ensure (b \<noteq> 0); si_from_signed (width x) (a smod b) }"

definition si_srem :: "sim_int \<Rightarrow> sim_int \<Rightarrow> sim_int option" where
  "si_srem x y =
     do { a \<leftarrow> si_to_signed x; b \<leftarrow> si_to_signed y; ensure (b \<noteq> 0); si_from_signed (width x) (a smod b) }"

definition si_ucmp :: "(nat \<Rightarrow> nat \<Rightarrow> bool) \<Rightarrow> sim_int \<Rightarrow> sim_int \<Rightarrow> bool option" where
  "si_ucmp p x y = do { ensure (width x = width y); Some (p (ivalue x) (ivalue y)) }"

definition si_scmp :: "(int \<Rightarrow> int \<Rightarrow> bool) \<Rightarrow> sim_int \<Rightarrow> sim_int \<Rightarrow> bool option" where
  "si_scmp p x y =
     do { ensure (width x = width y); a \<leftarrow> si_to_signed x; b \<leftarrow> si_to_signed y; Some (p a b) }"

definition si_unary_op :: "opcode \<Rightarrow> sim_int \<Rightarrow> sim_int option" where
  "si_unary_op op arg = (case op of OpNot \<Rightarrow> si_not arg | OpNeg \<Rightarrow> si_neg arg | _ \<Rightarrow> None)"

definition si_binary_op :: "opcode \<Rightarrow> sim_int \<Rightarrow> sim_int \<Rightarrow> sim_int option" where
  "si_binary_op op lhs rhs =
     (case op of
        OpAdd \<Rightarrow> Some (si_add lhs rhs)
      | OpSub \<Rightarrow> si_sub lhs rhs
      | OpAnd \<Rightarrow> Some (si_and lhs rhs)
      | OpOr \<Rightarrow> Some (si_or lhs rhs)
      | OpXor \<Rightarrow> Some (si_xor lhs rhs)
      | OpSmul \<Rightarrow> si_smul lhs rhs
      | OpSdiv \<Rightarrow> si_sdiv lhs rhs
      | OpSmod \<Rightarrow> si_smod lhs rhs
      | OpSrem \<Rightarrow> si_srem lhs rhs
      | OpUmul \<Rightarrow> Some (si_umul lhs rhs)
      | OpUdiv \<Rightarrow> si_udiv lhs rhs
      | OpUmod \<Rightarrow> si_umod lhs rhs
      | OpUrem \<Rightarrow> si_urem lhs rhs
      | _ \<Rightarrow> None)"

definition si_compare_op :: "opcode \<Rightarrow> sim_int \<Rightarrow> sim_int \<Rightarrow> sim_int option" where
  "si_compare_op op lhs rhs =
     (let ret = map_option (\<lambda>v. si_from_usize 1 (of_bool v))
      in case op of
        OpEq \<Rightarrow> ret (si_ucmp (=) lhs rhs)
      | OpNeq \<Rightarrow> ret (si_ucmp (\<noteq>) lhs rhs)
      | OpUlt \<Rightarrow> ret (si_ucmp (<) lhs rhs)
      | OpUgt \<Rightarrow> ret (si_ucmp (>) lhs rhs)
      | OpUle \<Rightarrow> ret (si_ucmp (\<le>) lhs rhs)
      | OpUge \<Rightarrow> ret (si_ucmp (\<ge>) lhs rhs)
      | OpSlt \<Rightarrow> ret (si_scmp (<) lhs rhs)
      | OpSgt \<Rightarrow> ret (si_scmp (>) lhs rhs)
      | OpSle \<Rightarrow> ret (si_scmp (\<le>) lhs rhs)
      | OpSge \<Rightarrow> ret (si_scmp (\<ge>) lhs rhs)
      | _ \<Rightarrow> None)"

section \<open>Values and aggregates\<close>

text \<open>\<^verbatim>\<open>get_time\<close>, \<^verbatim>\<open>get_int\<close>, \<^verbatim>\<open>get_array\<close> and \<^verbatim>\<open>get_struct\<close> match on the constructor.\<close>

definition sv_get_time :: "sim_value \<Rightarrow> time_value option" where
  "sv_get_time v = (case v of TimeVal t \<Rightarrow> Some t | _ \<Rightarrow> None)"

definition sv_get_int :: "sim_value \<Rightarrow> sim_int option" where
  "sv_get_int v = (case v of IntVal x \<Rightarrow> Some x | _ \<Rightarrow> None)"

definition sv_get_array :: "sim_value \<Rightarrow> sim_value list option" where
  "sv_get_array v = (case v of ArrayVal x \<Rightarrow> Some x | _ \<Rightarrow> None)"

definition sv_get_struct :: "sim_value \<Rightarrow> sim_value list option" where
  "sv_get_struct v = (case v of StructVal x \<Rightarrow> Some x | _ \<Rightarrow> None)"

definition sv_is_zero :: "sim_value \<Rightarrow> bool" where
  "sv_is_zero v = (case v of
     TimeVal t \<Rightarrow> time t = 0 \<and> delta t = 0 \<and> epsilon t = 0 | IntVal x \<Rightarrow> si_is_zero x | _ \<Rightarrow> False)"

definition sv_is_one :: "sim_value \<Rightarrow> bool" where
  "sv_is_one v = (case v of IntVal x \<Rightarrow> si_is_one x | _ \<Rightarrow> False)"

definition sa_new_uniform :: "nat \<Rightarrow> sim_value \<Rightarrow> sim_value list" where
  "sa_new_uniform n v = replicate n v"

definition sa_extract_field :: "sim_value list \<Rightarrow> nat \<Rightarrow> sim_value option" where
  "sa_extract_field vs i = idx vs i"

definition sa_extract_slice :: "sim_value list \<Rightarrow> nat \<Rightarrow> nat \<Rightarrow> sim_value list option" where
  "sa_extract_slice vs off len = slice vs off len"

definition sa_insert_field :: "sim_value list \<Rightarrow> nat \<Rightarrow> sim_value \<Rightarrow> sim_value list option" where
  "sa_insert_field vs i v = idx_set vs i v"

definition sa_insert_slice :: "sim_value list \<Rightarrow> nat \<Rightarrow> nat \<Rightarrow> sim_value list \<Rightarrow> sim_value list option" where
  "sa_insert_slice vs off len ws = do { ensure (len = length ws); slice_set vs off len ws }"

definition ss_extract_field :: "sim_value list \<Rightarrow> nat \<Rightarrow> sim_value option" where
  "ss_extract_field vs i = idx vs i"

definition ss_insert_field :: "sim_value list \<Rightarrow> nat \<Rightarrow> sim_value \<Rightarrow> sim_value list option" where
  "ss_insert_field vs i v = idx_set vs i v"

section \<open>Comparison with the library\<close>

lemma si_conversions [simp]:
  "si_from_usize w n = from_usize w n" "si_from_unsigned w n = from_unsigned w n"
  "si_from_signed w i = Some (from_signed w i)" "si_to_usize x = to_usize x"
proof -
  have "0 \<le> (let v = i smod 2 ^ w in if v < 0 then v + 2 ^ w else v)" using signed_residue_nonneg[of w i]
    by (simp add: signed_residue_def Let_def)
  then show "si_from_signed w i = Some (from_signed w i)"
    by (simp add: si_from_signed_def from_signed_def signed_residue_def Let_def si_from_unsigned_def from_unsigned_def)
qed (simp_all add: si_from_usize_def si_from_unsigned_def from_usize_def from_unsigned_def si_to_usize_def to_usize_def Let_def)

lemma si_slices [simp]: "si_extract_slice = iv_extract_slice" "si_insert_slice = iv_insert_slice"
  by (simp_all add: fun_eq_iff si_extract_slice_def iv_extract_slice_def si_insert_slice_def iv_insert_slice_def)

lemma si_same [simp]:
  "si_not = iv_not" "si_neg = iv_neg" "si_add = iv_add" "si_and = iv_and" "si_or = iv_or" "si_xor = iv_xor"
  "si_umul = iv_umul" "si_udiv = iv_udiv" "si_umod = iv_umod" "si_urem = iv_urem" "si_ucmp = iv_ucmp"
  by (simp_all add: fun_eq_iff si_not_def iv_not_def si_neg_def iv_neg_def si_add_def iv_add_def si_and_def iv_and_def
      si_or_def iv_or_def si_xor_def iv_xor_def si_umul_def iv_umul_def si_udiv_def iv_udiv_def si_umod_def iv_umod_def
      si_urem_def iv_urem_def si_ucmp_def iv_ucmp_def)

text \<open>The sign of a negative value is lost.\<close>

lemma si_to_signed_abs: "iv_wf x \<Longrightarrow> si_to_signed x = map_option abs (to_signed x)"
  by (simp add: si_to_signed_def to_signed_def iv_wf_def)

lemma si_aggregates [simp]:
  "sa_new_uniform = array_new_uniform" "sa_extract_field = array_extract_field" "sa_extract_slice = array_extract_slice"
  "sa_insert_field = array_insert_field" "sa_insert_slice = array_insert_slice" "ss_extract_field = struct_extract_field"
  "ss_insert_field = struct_insert_field" "sv_get_time = get_time" "sv_get_int = get_int" "sv_get_array = get_array"
  "sv_get_struct = get_struct"
  by (auto simp: fun_eq_iff sa_new_uniform_def array_new_uniform_def sa_extract_field_def array_extract_field_def
      sa_extract_slice_def array_extract_slice_def sa_insert_field_def array_insert_field_def sa_insert_slice_def
      array_insert_slice_def ss_extract_field_def struct_extract_field_def ss_insert_field_def struct_insert_field_def
      sv_get_time_def sv_get_int_def sv_get_array_def sv_get_struct_def split: val.splits)

text \<open>
  The operations that the simulator computes through \<^verbatim>\<open>to_signed\<close>: the signed ones, and \<open>sub\<close>, whose
  result does not depend on the sign in the language.
\<close>

definition to_signed_ops :: "opcode set" where
  "to_signed_ops = {OpSub, OpSmul, OpSdiv, OpSmod, OpSrem, OpSlt, OpSgt, OpSle, OpSge}"

definition nonneg :: "sim_int \<Rightarrow> bool" where
  "nonneg x \<longleftrightarrow> (\<exists>a \<ge> 0. to_signed x = Some a)"

lemma si_nonneg:
  assumes "nonneg x" "nonneg y" "iv_wf x" "iv_wf y"
  shows "si_sub x y = iv_sub x y" "si_smul x y = iv_smul x y" "si_sdiv x y = iv_sdiv x y" "si_smod x y = iv_smod x y"
    "si_srem x y = iv_srem x y" "si_scmp p x y = iv_scmp p x y"
  using assms by (auto simp: nonneg_def si_sub_def iv_sub_def si_smul_def iv_smul_def si_sdiv_def iv_sdiv_def si_smod_def
      iv_smod_def si_srem_def iv_srem_def si_scmp_def iv_scmp_def si_to_signed_abs Let_def)

lemma si_unary: "si_unary_op op x = unary_op op x"
  by (cases op) (simp_all add: si_unary_op_def unary_op_def try_unary_op_def bind_map_option comp_def split: option.splits)

lemma si_binary:
  assumes "op \<notin> to_signed_ops \<or> nonneg x \<and> nonneg y" "iv_wf x" "iv_wf y"
  shows "si_binary_op op x y = binary_op op x y"
  using assms si_nonneg[of x y]
  by (cases op) (simp_all add: si_binary_op_def binary_op_def try_binary_op_def to_signed_ops_def bind_map_option comp_def)

lemma si_compare:
  assumes "op \<notin> to_signed_ops \<or> nonneg x \<and> nonneg y" "iv_wf x" "iv_wf y"
  shows "si_compare_op op x y = compare_op op x y"
proof -
  have sc: "si_scmp p x y = iv_scmp p x y" if "nonneg x \<and> nonneg y" for p using si_nonneg(6)[OF _ _ assms(2,3)] that by blast
  show ?thesis using assms(1) sc
    by (cases op) (simp_all add: si_compare_op_def compare_op_def try_compare_op_def to_signed_ops_def bind_map_option comp_def
        Let_def iv_eq_def iv_neq_def iv_ult_def iv_ugt_def iv_ule_def iv_uge_def iv_slt_def iv_sgt_def iv_sle_def iv_sge_def
        map_option_case split: option.splits)
qed

section \<open>Properties\<close>

text \<open>
  C39: the integer operations of the simulator are those of the library, whose results are
  the machine words, except on negative operands of the operations that the simulator computes
  through its conversion to signed integers: every unary operation gives the same result and
  panics on the same operands, and so does every binary operation and comparison but
  \<open>smul\<close>, \<open>sdiv\<close>, \<open>smod\<close>, \<open>srem\<close>, the signed comparisons and \<open>sub\<close>, and these too if both operands are
  non-negative.
\<close>

theorem simulator_integers_agree:
  assumes "iv_wf x" "iv_wf y" "op \<notin> to_signed_ops \<or> nonneg x \<and> nonneg y"
  shows "si_unary_op op x = unary_op op x \<and> si_binary_op op x y = binary_op op x y \<and>
    si_compare_op op x y = compare_op op x y"
  using si_unary si_binary[OF assms(3,1,2)] si_compare[OF assms(3,1,2)] by blast

lemma simulator_integers_agree_witness:
  "si_binary_op OpSub (IntValue 8 5) (IntValue 8 7) = binary_op OpSub (IntValue 8 5) (IntValue 8 7)"
proof -
  have "nonneg (IntValue 8 5)" "nonneg (IntValue 8 7)" by (simp_all add: nonneg_def to_signed_def)
  then show ?thesis using simulator_integers_agree[of "IntValue 8 5" "IntValue 8 7" OpSub] by (simp add: iv_wf_def)
qed

text \<open>
  The simulator loses the sign of a negative operand. Subtracting zero from a negative
  integer negates it, and a negative integer is not less than zero: its \<^verbatim>\<open>to_signed\<close>
  subtracts in the wrong order, so that every signed operation works on the magnitude.
\<close>

theorem simulator_loses_sign:
  assumes "sint (x :: 'a::len word) < 0"
  shows "si_binary_op OpSub (iv_of_word x) (iv_of_word (0 :: 'a word)) = Some (iv_of_word (- x)) \<and>
    si_compare_op OpSlt (iv_of_word x) (iv_of_word (0 :: 'a word)) = Some (IntValue 1 0)"
proof -
  have s: "si_to_signed (iv_of_word x) = Some (- sint x)" "si_to_signed (iv_of_word (0 :: 'a word)) = Some 0"
    using assms by (simp_all add: si_to_signed_abs)
  have "from_signed LENGTH('a) (- sint x) = iv_of_word (- x)" by (simp add: from_signed_word)
  then show ?thesis using s assms
    by (simp add: si_binary_op_def si_sub_def si_compare_op_def si_scmp_def from_usize_def)
qed

lemma sint_251: "sint (251 :: 8 word) < 0"
  by simp

lemma simulator_loses_sign_witness:
  "si_binary_op OpSub (iv_of_word (251 :: 8 word)) (iv_of_word (0 :: 8 word)) = Some (iv_of_word (5 :: 8 word))"
proof -
  have "- (251 :: 8 word) = 5" by simp
  then show ?thesis using simulator_loses_sign[of "251 :: 8 word"] by (metis sint_251)
qed

end
