(* ===== verification/SimState.thy ===== *)
theory SimState
  imports SimValues Units
begin

text \<open>
  The state of the simulator (\<^verbatim>\<open>src/src/bin/llhd-sim/state.rs\<close>): signals, instances, and
  the two queues. A signal reference and an instance reference are indices. The queues are
  maps from times to what is due then, the inner hash maps and hash sets are maps and sets;
  where the code iterates one, \<open>ord\<close> lists its keys. The \<^verbatim>\<open>Mutex\<close> around an instance only
  matters to the parallel mode, which is not modelled.
\<close>

section \<open>Pointers and slots\<close>

datatype value_select = SelField nat | SelSlice nat nat

datatype value_target = TgtValue nat | TgtVariable nat | TgtSignal nat

record value_slice =
  target :: value_target
  select :: "value_select list"
  swidth :: nat

type_synonym value_pointer = "value_slice list"

datatype value_slot =
    SlotSignal nat
  | SlotVariable sim_value
  | SlotConst sim_value
  | SlotVariablePointer value_pointer
  | SlotSignalPointer value_pointer

definition unwrap_value :: "value_target \<Rightarrow> nat option" where
  "unwrap_value t = (case t of TgtValue v \<Rightarrow> Some v | _ \<Rightarrow> None)"

definition unwrap_variable :: "value_target \<Rightarrow> nat option" where
  "unwrap_variable t = (case t of TgtVariable v \<Rightarrow> Some v | _ \<Rightarrow> None)"

definition unwrap_signal :: "value_target \<Rightarrow> nat option" where
  "unwrap_signal t = (case t of TgtSignal s \<Rightarrow> Some s | _ \<Rightarrow> None)"

definition ptr_width :: "value_pointer \<Rightarrow> nat" where
  "ptr_width p = sum_list (map swidth p)"

text \<open>The slices with their offsets; \<open>i\<close> is the running offset.\<close>

fun offset_slices_from :: "nat \<Rightarrow> value_pointer \<Rightarrow> (nat \<times> value_slice) list" where
  "offset_slices_from i [] = []"
| "offset_slices_from i (s # p) = (i, s) # offset_slices_from (i + swidth s) p"

definition offset_slices :: "value_pointer \<Rightarrow> (nat \<times> value_slice) list" where
  "offset_slices p = offset_slices_from 0 p"

section \<open>Signals, instances, scopes\<close>

record signal =
  sig_ty :: ty
  sig_value :: sim_value

definition signal_new :: "ty \<Rightarrow> sim_value \<Rightarrow> signal" where
  "signal_new t v = \<lparr>sig_ty = t, sig_value = v\<rparr>"

definition signal_set_value :: "sim_value \<Rightarrow> signal \<Rightarrow> bool \<times> signal" where
  "signal_set_value v s = (if sig_value s \<noteq> v then (True, s\<lparr>sig_value := v\<rparr>) else (False, s))"

datatype instance_kind = Process unit_data "nat option" | Entity unit_data

datatype instance_state = Ready | Wait "time_value option" "nat list" | Done

record instance_data =
  ivalues :: "nat \<rightharpoonup> value_slot"
  ikind :: instance_kind
  istate :: instance_state
  isignals :: "nat list"
  isignal_values :: "nat \<rightharpoonup> nat"

definition instance_value :: "nat \<Rightarrow> instance_data \<Rightarrow> value_slot option" where
  "instance_value v i = ivalues i v"

definition instance_set_value :: "nat \<Rightarrow> value_slot \<Rightarrow> instance_data \<Rightarrow> instance_data" where
  "instance_set_value v x i = i\<lparr>ivalues := (ivalues i)(v \<mapsto> x)\<rparr>"

definition instance_name :: "instance_data \<Rightarrow> unit_name" where
  "instance_name i = (case ikind i of Process u _ \<Rightarrow> uname u | Entity u \<Rightarrow> uname u)"

datatype scope = Scope (scope_name: string) (scope_probes: "nat \<rightharpoonup> string list") (subscopes: "scope list")

definition scope_new :: "string \<Rightarrow> scope" where
  "scope_new n = Scope n Map.empty []"

definition add_subscope :: "scope \<Rightarrow> scope \<Rightarrow> scope" where
  "add_subscope c s = Scope (scope_name s) (scope_probes s) (subscopes s @ [c])"

definition add_probe :: "nat \<Rightarrow> string \<Rightarrow> scope \<Rightarrow> scope" where
  "add_probe sig n s =
     Scope (scope_name s)
       ((scope_probes s)(sig \<mapsto> (case scope_probes s sig of None \<Rightarrow> [] | Some ns \<Rightarrow> ns) @ [n])) (subscopes s)"

section \<open>The queues\<close>

record event =
  ev_time :: time_value
  ev_signal :: value_pointer
  ev_value :: sim_value

record timed_instance =
  ti_time :: time_value
  ti_inst :: nat

record sim_state =
  signals :: "signal list"
  probes :: "nat \<rightharpoonup> string list"
  root_scope :: scope
  instances :: "instance_data list"
  now :: time_value
  events :: "time_value \<rightharpoonup> (value_pointer \<rightharpoonup> sim_value)"
  timed :: "time_value \<rightharpoonup> nat set"

text \<open>\<^verbatim>\<open>entry(k).or_insert_with(Default::default)\<close>\<close>

definition entry_or :: "'v \<Rightarrow> 'k \<Rightarrow> ('k \<rightharpoonup> 'v) \<Rightarrow> 'v" where
  "entry_or d k m = (case m k of None \<Rightarrow> d | Some v \<Rightarrow> v)"

definition schedule_event :: "event \<Rightarrow> sim_state \<Rightarrow> sim_state option" where
  "schedule_event e st =
     do { ensure (ev_time e \<ge> now st);
          Some (st\<lparr>events := (events st)(ev_time e \<mapsto>
            (entry_or Map.empty (ev_time e) (events st))(ev_signal e \<mapsto> ev_value e))\<rparr>) }"

definition schedule_events :: "event list \<Rightarrow> sim_state \<Rightarrow> sim_state option" where
  "schedule_events es st = foldM schedule_event es st"

definition schedule_timed_instance :: "timed_instance \<Rightarrow> sim_state \<Rightarrow> sim_state option" where
  "schedule_timed_instance t st =
     do { ensure (ti_time t \<ge> now st);
          Some (st\<lparr>timed := (timed st)(ti_time t \<mapsto> insert (ti_inst t) (entry_or {} (ti_time t) (timed st)))\<rparr>) }"

definition schedule_timed :: "timed_instance list \<Rightarrow> sim_state \<Rightarrow> sim_state option" where
  "schedule_timed ts st = foldM schedule_timed_instance ts st"

definition take_next_events :: "(value_pointer set \<Rightarrow> value_pointer list) \<Rightarrow> sim_state \<Rightarrow>
    (value_pointer \<times> sim_value) list \<times> sim_state" where
  "take_next_events ord st =
     (case events st (now st) of
        Some m \<Rightarrow> (map (\<lambda>p. (p, the (m p))) (ord (dom m)), st\<lparr>events := (events st)(now st := None)\<rparr>)
      | None \<Rightarrow> ([], st))"

definition take_next_timed :: "(nat set \<Rightarrow> nat list) \<Rightarrow> sim_state \<Rightarrow> nat list \<times> sim_state" where
  "take_next_timed ord st =
     (case timed st (now st) of
        Some s \<Rightarrow> (ord s, st\<lparr>timed := (timed st)(now st := None)\<rparr>)
      | None \<Rightarrow> ([], st))"

text \<open>The first key of an ordered map.\<close>

definition first_key :: "(time_value \<rightharpoonup> 'v) \<Rightarrow> time_value option" where
  "first_key m = (if dom m = {} then None else Some (Min (dom m)))"

definition next_time :: "sim_state \<Rightarrow> time_value option" where
  "next_time st =
     (case (first_key (events st), first_key (timed st)) of
        (Some e, Some t) \<Rightarrow> Some (min e t)
      | (Some e, None) \<Rightarrow> Some e
      | (None, Some t) \<Rightarrow> Some t
      | (None, None) \<Rightarrow> None)"

end
