(* ===== verification/SimBuild.thy ===== *)
theory SimBuild
  imports ModuleUnits SimState
begin

text \<open>
  The construction of a simulation from a module (\<^verbatim>\<open>src/src/bin/llhd-sim/builder.rs\<close>): signals and
  instances are allocated while the hierarchy of units is walked from its root. A hierarchy that does
  not end, or a constant that is defined in terms of itself, overflows the stack of the
  program; its \<open>partial_function\<close> has the value \<open>None\<close>. \<open>ord\<close> is the order of a hash map's keys.
\<close>

section \<open>Recursion through lists\<close>

lemma flat_ord_None: "flat_ord None a b \<longleftrightarrow> a = None \<or> a = b"
  by (simp add: flat_ord_def)

lemma mono_optionI: "(\<And>f g. fun_ord (flat_ord None) f g \<Longrightarrow> F f = None \<or> F f = F g) \<Longrightarrow> mono_option F"
  by (simp add: monotone_def flat_ord_None)

lemma mono_optionD: "mono_option F \<Longrightarrow> fun_ord (flat_ord None) f g \<Longrightarrow> F f = None \<or> F f = F g"
  by (auto simp: monotone_def flat_ord_None)

lemma mapM_mono [partial_function_mono]:
  fixes F :: "('a \<Rightarrow> 'b option) \<Rightarrow> 'c \<Rightarrow> 'd option"
  assumes "\<And>x. mono_option (\<lambda>f. F f x)"
  shows "mono_option (\<lambda>f. mapM (F f) xs)"
proof (rule mono_optionI)
  fix f g :: "'a \<Rightarrow> 'b option" assume fg: "fun_ord (flat_ord None) f g"
  show "mapM (F f) xs = None \<or> mapM (F f) xs = mapM (F g) xs"
  proof (induction xs)
    case (Cons x xs)
    then show ?case using mono_optionD[OF assms fg, of x] by (auto split: option.splits)
  qed simp
qed

lemma foldM_mono [partial_function_mono]:
  fixes F :: "('a \<Rightarrow> 'b option) \<Rightarrow> 'c \<Rightarrow> 'd \<Rightarrow> 'd option"
  assumes "\<And>x s. mono_option (\<lambda>f. F f x s)"
  shows "mono_option (\<lambda>f. foldM (F f) xs s)"
proof (rule mono_optionI)
  fix f g :: "'a \<Rightarrow> 'b option" assume fg: "fun_ord (flat_ord None) f g"
  show "foldM (F f) xs s = None \<or> foldM (F f) xs s = foldM (F g) xs s"
  proof (induction xs arbitrary: s)
    case (Cons x xs)
    show ?case
    proof (cases "F f x s")
      case (Some s')
      then have "F g x s = Some s'" using mono_optionD[OF assms fg, of x s] by simp
      then show ?thesis using Some Cons.IH[of s'] by simp
    qed simp
  qed simp
qed

section \<open>The builder\<close>

record sim_builder =
  bmodule :: llhd_module
  bsignals :: "signal list"
  bprobes :: "nat \<rightharpoonup> string list"
  binsts :: "instance_data list"
  bscopes :: "scope list" \<comment> \<open>the top of the stack first\<close>

definition sim_builder_new :: "llhd_module \<Rightarrow> sim_builder" where
  "sim_builder_new m = \<lparr>bmodule = m, bsignals = [], bprobes = Map.empty, binsts = [], bscopes = []\<rparr>"

definition alloc_signal :: "ty \<Rightarrow> sim_value \<Rightarrow> sim_builder \<Rightarrow> nat \<times> sim_builder" where
  "alloc_signal t init b = (length (bsignals b), b\<lparr>bsignals := bsignals b @ [signal_new t init]\<rparr>)"

definition alloc_signal_probe :: "nat \<Rightarrow> string \<Rightarrow> sim_builder \<Rightarrow> sim_builder option" where
  "alloc_signal_probe sig name b =
     do { let b = b\<lparr>bprobes := (bprobes b)(sig \<mapsto> (case bprobes b sig of None \<Rightarrow> [] | Some ns \<Rightarrow> ns) @ [name])\<rparr>;
          case bscopes b of [] \<Rightarrow> None
          | s # ss \<Rightarrow> Some (b\<lparr>bscopes := add_probe sig name s # ss\<rparr>) }"

definition push_scope :: "string \<Rightarrow> sim_builder \<Rightarrow> sim_builder" where
  "push_scope name b = b\<lparr>bscopes := scope_new name # bscopes b\<rparr>"

definition pop_scope :: "sim_builder \<Rightarrow> sim_builder option" where
  "pop_scope b = (case bscopes b of s # t # ss \<Rightarrow> Some (b\<lparr>bscopes := add_subscope s t # ss\<rparr>) | _ \<Rightarrow> None)"

partial_function (option) const_value :: "data_flow_graph \<Rightarrow> nat \<Rightarrow> sim_value option" where
  "const_value g v =
     Option.bind (value_type g v) (\<lambda>t.
     Option.bind (value_inst g v) (\<lambda>i.
     Option.bind (pt2_index (dinsts g) i) (\<lambda>d.
       if opcode_of d = OpConstInt then
         Option.bind (ty_unwrap_int t) (\<lambda>w. Option.bind (inst_const_int d) (\<lambda>k.
           map_option IntVal (si_from_signed w (int (ivalue k)))))
       else if opcode_of d = OpConstTime then map_option TimeVal (inst_const_time d)
       else if opcode_of d = OpArrayUniform then
         Option.bind (idx (imms d) 0) (\<lambda>n. Option.bind (idx (args d) 0) (\<lambda>a.
           Option.bind (const_value g a) (\<lambda>x. Some (ArrayVal (sa_new_uniform n x)))))
       else if opcode_of d = OpArray then
         Option.bind (mapM (\<lambda>a. const_value g a) (args d)) (\<lambda>xs. Some (ArrayVal xs))
       else if opcode_of d = OpStruct then
         Option.bind (mapM (\<lambda>a. const_value g a) (args d)) (\<lambda>xs. Some (StructVal xs))
       else None)))"

section \<open>Instances\<close>

text \<open>The text of a unit's name, with the digits of a number.\<close>

fun number_text :: "nat \<Rightarrow> string" where
  "number_text n = (if n < 10 then [char_of (48 + n)] else number_text (n div 10) @ [char_of (48 + n mod 10)])"

declare number_text.simps [simp del]

definition unit_name_text :: "unit_name \<Rightarrow> string" where
  "unit_name_text n = (case n of AnonymousName k \<Rightarrow> ''%'' @ number_text k | LocalName s \<Rightarrow> ''%'' @ s | GlobalName s \<Rightarrow> ''@'' @ s)"

definition probe_named :: "unit_data \<Rightarrow> nat \<Rightarrow> nat \<Rightarrow> sim_builder \<Rightarrow> sim_builder option" where
  "probe_named u v sig b = (case names (dfg u) v of None \<Rightarrow> Some b | Some name \<Rightarrow> alloc_signal_probe sig name b)"

definition bind_arg :: "unit_data \<Rightarrow> nat \<times> nat \<Rightarrow> (nat \<rightharpoonup> value_slot) \<times> sim_builder \<Rightarrow> ((nat \<rightharpoonup> value_slot) \<times> sim_builder) option" where
  "bind_arg u = (\<lambda>(arg, sig) (values, b).
     do { v \<leftarrow> arg_value (dfg u) arg;
          b \<leftarrow> probe_named u v sig b;
          Some (values(v \<mapsto> SlotSignal sig), b) })"

definition bind_args :: "unit_data \<Rightarrow> nat list \<Rightarrow> nat list \<Rightarrow> sim_builder \<Rightarrow> ((nat \<rightharpoonup> value_slot) \<times> sim_builder) option" where
  "bind_args u inputs outputs b =
     foldM (bind_arg u) (zip (inp (usig u)) inputs @ zip (oup (usig u)) outputs) (Map.empty, b)"

type_synonym elaboration = "(nat \<rightharpoonup> value_slot) \<times> nat list \<times> sim_builder"

definition elaborate_sig :: "unit_data \<Rightarrow> nat \<Rightarrow> inst_data \<Rightarrow> elaboration \<Rightarrow> elaboration option" where
  "elaborate_sig u i d = (\<lambda>(values, sigs, b).
     do { v \<leftarrow> inst_result (dfg u) i;
          a \<leftarrow> idx (args d) 0;
          init \<leftarrow> const_value (dfg u) a;
          t \<leftarrow> value_type (dfg u) v;
          (sig, b) \<leftarrow> Some (alloc_signal t init b);
          b \<leftarrow> probe_named u v sig b;
          Some (values(v \<mapsto> SlotSignal sig), sigs @ [sig], b) })"

definition elaborate_process_inst :: "unit_data \<Rightarrow> nat \<Rightarrow> elaboration \<Rightarrow> elaboration option" where
  "elaborate_process_inst u i st =
     do { d \<leftarrow> pt2_index (dinsts (dfg u)) i;
          if opcode_of d = OpSig then elaborate_sig u i d st
          else if opcode_of d = OpConstInt \<or> opcode_of d = OpConstTime then
            (case st of (values, sigs, b) \<Rightarrow>
               do { v \<leftarrow> inst_result (dfg u) i;
                    c \<leftarrow> const_value (dfg u) v;
                    Some (values(v \<mapsto> SlotConst c), sigs, b) })
          else Some st }"

definition slot_signal :: "(nat \<rightharpoonup> value_slot) \<Rightarrow> nat \<Rightarrow> nat option" where
  "slot_signal values v = (case values v of Some (SlotSignal s) \<Rightarrow> Some s | _ \<Rightarrow> None)"

text \<open>An instance within an entity; \<open>f\<close> instantiates the unit it is linked to.\<close>

definition elaborate_inst :: "(nat \<Rightarrow> unit_data \<Rightarrow> nat list \<Rightarrow> nat list \<Rightarrow> sim_builder \<Rightarrow> sim_builder option) \<Rightarrow>
    nat \<Rightarrow> unit_data \<Rightarrow> inst_data \<Rightarrow> elaboration \<Rightarrow> elaboration option" where
  "elaborate_inst f uid u d = (\<lambda>(values, sigs, b).
     do { ext \<leftarrow> get_ext_unit d;
          x \<leftarrow> pt2_index (ext_units (dfg u)) ext;
          sub \<leftarrow> (case lookup_ext_unit (bmodule b) ext uid of Some (LinkDef s) \<Rightarrow> Some s | _ \<Rightarrow> None);
          let b = push_scope (unit_name_text (ext_name x)) b;
          ias \<leftarrow> inst_input_args d;
          inputs \<leftarrow> mapM (slot_signal values) ias;
          oas \<leftarrow> inst_output_args d;
          outputs \<leftarrow> mapM (slot_signal values) oas;
          subu \<leftarrow> module_unit (bmodule b) sub;
          b \<leftarrow> f sub subu inputs outputs b;
          b \<leftarrow> pop_scope b;
          Some (values, sigs, b) })"

definition elaborate_entity_inst :: "(nat \<Rightarrow> unit_data \<Rightarrow> nat list \<Rightarrow> nat list \<Rightarrow> sim_builder \<Rightarrow> sim_builder option) \<Rightarrow>
    nat \<Rightarrow> unit_data \<Rightarrow> nat \<Rightarrow> elaboration \<Rightarrow> elaboration option" where
  "elaborate_entity_inst f uid u i st =
     do { d \<leftarrow> pt2_index (dinsts (dfg u)) i;
          if opcode_of d = OpSig then elaborate_sig u i d st
          else if opcode_of d = OpInst then elaborate_inst f uid u d st
          else Some st }"

text \<open>The mapping from signals to values; of several values with one signal, the last one listed.\<close>

definition invert_signals :: "(nat set \<Rightarrow> nat list) \<Rightarrow> (nat \<rightharpoonup> value_slot) \<Rightarrow> (nat \<rightharpoonup> nat)" where
  "invert_signals ord values =
     fold (\<lambda>v m. case slot_signal values v of Some s \<Rightarrow> m(s \<mapsto> v) | None \<Rightarrow> m) (ord (dom values)) Map.empty"

definition push_instance :: "(nat set \<Rightarrow> nat list) \<Rightarrow> instance_kind \<Rightarrow> elaboration \<Rightarrow> sim_builder" where
  "push_instance ord kind = (\<lambda>(values, sigs, b).
     b\<lparr>binsts := binsts b @ [\<lparr>ivalues = values, ikind = kind, istate = Ready, isignals = sigs,
        isignal_values = invert_signals ord values\<rparr>]\<rparr>)"

lemma elaborate_entity_inst_mono [partial_function_mono]:
  fixes F :: "('a \<Rightarrow> 'b option) \<Rightarrow> nat \<Rightarrow> unit_data \<Rightarrow> nat list \<Rightarrow> nat list \<Rightarrow> sim_builder \<Rightarrow> sim_builder option"
  assumes "\<And>k v x y z. mono_option (\<lambda>f. F f k v x y z)"
  shows "mono_option (\<lambda>f. elaborate_entity_inst (F f) uid u i st)"
proof (rule mono_optionI)
  fix f g :: "'a \<Rightarrow> 'b option" assume fg: "fun_ord (flat_ord None) f g"
  have "F f k v x y z = None \<or> F f k v x y z = F g k v x y z" for k v x y z by (rule mono_optionD[OF assms fg])
  then have *: "F g k v x y z = F f k v x y z" if "F f k v x y z \<noteq> None" for k v x y z using that by metis
  have "elaborate_inst (F f) uid u d st = None \<or> elaborate_inst (F f) uid u d st = elaborate_inst (F g) uid u d st" for d
  proof (cases "elaborate_inst (F f) uid u d st")
    case (Some r)
    then have "elaborate_inst (F g) uid u d st = Some r" using *
      by (cases st) (auto simp: elaborate_inst_def bind_Some_iff Let_def)
    then show ?thesis using Some by simp
  qed simp
  then show "elaborate_entity_inst (F f) uid u i st = None \<or> elaborate_entity_inst (F f) uid u i st = elaborate_entity_inst (F g) uid u i st"
    unfolding elaborate_entity_inst_def by (auto split: Option.bind_splits)
qed

partial_function (option) instantiate :: "(nat set \<Rightarrow> nat list) \<Rightarrow> nat \<Rightarrow> unit_data \<Rightarrow> nat list \<Rightarrow> nat list \<Rightarrow> sim_builder \<Rightarrow>
    sim_builder option" where
  "instantiate ord uid u inputs outputs b =
     Option.bind (bind_args u inputs outputs b) (\<lambda>(values, b).
     Option.bind (all_insts (layout u)) (\<lambda>is.
       if ukind u = ProcessUnit then
         Option.bind (foldM (elaborate_process_inst u) is (values, inputs @ outputs, b))
           (\<lambda>st. Some (push_instance ord (Process u (first_bb (layout u))) st))
       else if ukind u = EntityUnit then
         Option.bind (foldM (\<lambda>i st. elaborate_entity_inst (\<lambda>k v x y z. instantiate ord k v x y z) uid u i st) is
             (values, inputs @ outputs, b))
           (\<lambda>st. Some (push_instance ord (Entity u) st))
       else None))"

section \<open>The simulation\<close>

definition alloc_args :: "signature \<Rightarrow> nat list \<Rightarrow> sim_builder \<Rightarrow> (nat list \<times> sim_builder) option" where
  "alloc_args s as b =
     foldM (\<lambda>a (sigs, b). do { t \<leftarrow> arg_type s a; (sig, b) \<leftarrow> Some (alloc_signal t VoidVal b); Some (sigs @ [sig], b) }) as ([], b)"

definition build_root :: "(nat set \<Rightarrow> nat list) \<Rightarrow> nat \<Rightarrow> unit_data \<Rightarrow> sim_builder \<Rightarrow> sim_builder option" where
  "build_root ord uid u b =
     do { (inputs, b) \<leftarrow> alloc_args (usig u) (inp (usig u)) b;
          (outputs, b) \<leftarrow> alloc_args (usig u) (oup (usig u)) b;
          instantiate ord uid u inputs outputs (push_scope (unit_name_text (uname u)) b) }"

definition finish_state :: "sim_builder \<Rightarrow> sim_state option" where
  "finish_state b =
     do { root \<leftarrow> last_opt (bscopes b);
          Some \<lparr>signals = bsignals b, probes = bprobes b, root_scope = root, instances = binsts b, now = time_zero,
                events = Map.empty, timed = Map.empty\<rparr> }"

datatype build_error = NoRootUnit

definition build_simulation :: "(nat set \<Rightarrow> nat list) \<Rightarrow> llhd_module \<Rightarrow> (build_error + sim_state) option" where
  "build_simulation ord m =
     do { us \<leftarrow> module_units m;
          case last_opt (filter (\<lambda>p. ukind (snd p) = ProcessUnit \<or> ukind (snd p) = EntityUnit) us) of
            None \<Rightarrow> Some (Inl NoRootUnit)
          | Some (uid, u) \<Rightarrow>
              do { b \<leftarrow> build_root ord uid u (sim_builder_new m);
                   st \<leftarrow> finish_state b;
                   Some (Inr st) } }"

end
