(* ===== verification/Vtpp.thy ===== *)
theory Vtpp
  imports SimBuild BuilderProps DomTreeProps
begin

text \<open>
  Promotion of variables to phi nodes (\<^verbatim>\<open>src/src/pass/vtpp.rs\<close>): the pass, the values that it makes
  available in a block, and an edge that its phi nodes lack. \<open>ord\<close> is the iteration order of the
  hash tables.
\<close>

section \<open>Values within a block\<close>

text \<open>\<^verbatim>\<open>Var\<close>: a load reads the value that a variable has at the start of a block, or a known one.\<close>

datatype vtpp_var = VarIncoming nat nat | VarValue nat

record vtpp_tables =
  block_outs :: "nat \<rightharpoonup> (nat \<rightharpoonup> nat)"
  value_table :: "nat \<rightharpoonup> vtpp_var"
  vtpp_vars :: "nat \<rightharpoonup> nat list"

text \<open>One instruction of a block; \<open>stores\<close> is \<^verbatim>\<open>store_table\<close>.\<close>

definition vtpp_inst :: "unit_builder \<Rightarrow> nat \<Rightarrow> nat \<Rightarrow> (nat \<rightharpoonup> nat) \<times> vtpp_tables \<Rightarrow> ((nat \<rightharpoonup> nat) \<times> vtpp_tables) option" where
  "vtpp_inst u block i = (\<lambda>(stores, tb).
     do { d \<leftarrow> pt2_index (dinsts (dfg u)) i;
          if opcode_of d = OpVar then
            do { v \<leftarrow> inst_result (dfg u) i;
                 a \<leftarrow> idx (args d) 0;
                 Some (stores(v \<mapsto> a), tb\<lparr>vtpp_vars := (case vtpp_vars tb i of None \<Rightarrow> (vtpp_vars tb)(i \<mapsto> []) | Some _ \<Rightarrow> vtpp_vars tb)\<rparr>) }
          else if opcode_of d = OpSt then
            do { var \<leftarrow> idx (args d) 0;
                 val \<leftarrow> idx (args d) 1;
                 j \<leftarrow> value_inst (dfg u) var;
                 Some (stores(var \<mapsto> val),
                   tb\<lparr>vtpp_vars := (vtpp_vars tb)(j \<mapsto> (case vtpp_vars tb j of None \<Rightarrow> [] | Some is \<Rightarrow> is) @ [i])\<rparr>) }
          else if opcode_of d = OpLd then
            do { a \<leftarrow> idx (args d) 0;
                 r \<leftarrow> inst_result (dfg u) i;
                 Some (stores, tb\<lparr>value_table := (value_table tb)(r \<mapsto>
                   (case stores a of Some v \<Rightarrow> VarValue v | None \<Rightarrow> VarIncoming a block))\<rparr>) }
          else Some (stores, tb) })"

definition vtpp_block :: "unit_builder \<Rightarrow> nat \<Rightarrow> vtpp_tables \<Rightarrow> vtpp_tables option" where
  "vtpp_block u block tb =
     do { is \<leftarrow> block_insts (layout u) block;
          (stores, tb) \<leftarrow> foldM (vtpp_inst u block) is (Map.empty, tb);
          Some (tb\<lparr>block_outs := (block_outs tb)(block \<mapsto> stores)\<rparr>) }"

section \<open>Values at the start of a block\<close>

text \<open>
  One predecessor: the value that leaves it, otherwise the value that reaches it, which \<open>f\<close>
  makes available. \<open>acc\<close> collects \<^verbatim>\<open>incoming_values\<close>.
\<close>

definition incoming_value :: "(nat \<Rightarrow> unit_builder \<Rightarrow> nat set \<Rightarrow> (nat option \<times> unit_builder \<times> nat set) option) \<Rightarrow>
    (nat \<rightharpoonup> (nat \<rightharpoonup> nat)) \<Rightarrow> nat \<Rightarrow> nat \<Rightarrow> (nat \<times> nat) list \<times> unit_builder \<times> nat set \<Rightarrow>
    ((nat \<times> nat) list \<times> unit_builder \<times> nat set) option" where
  "incoming_value f outs var b = (\<lambda>(acc, u, stack).
     do { (v, u, stack) \<leftarrow> (case (case outs b of Some vs \<Rightarrow> vs var | None \<Rightarrow> None) of
             Some v \<Rightarrow> Some (Some v, u, stack)
           | None \<Rightarrow> f b u stack);
          Some (case v of Some v \<Rightarrow> acc @ [(b, v)] | None \<Rightarrow> acc, u, stack) })"

text \<open>The value for the incoming ones: a phi node if there are several.\<close>

definition join_values :: "nat \<Rightarrow> (nat \<times> nat) list \<Rightarrow> unit_builder \<Rightarrow> (nat option \<times> unit_builder) option" where
  "join_values block incoming u =
     (case remdups (map snd incoming) of
        [] \<Rightarrow> Some (None, u)
      | [v] \<Rightarrow> Some (Some v, u)
      | _ \<Rightarrow> do { (phi, u) \<leftarrow> ib_phi None (map snd incoming) (map fst incoming) (prepend_to block u);
                  Some (Some phi, u) })"

lemma incoming_value_mono [partial_function_mono]:
  fixes F :: "('a \<Rightarrow> 'b option) \<Rightarrow> nat \<Rightarrow> unit_builder \<Rightarrow> nat set \<Rightarrow> (nat option \<times> unit_builder \<times> nat set) option"
  assumes "\<And>x y z. mono_option (\<lambda>f. F f x y z)"
  shows "mono_option (\<lambda>f. incoming_value (F f) outs var b s)"
proof (rule mono_optionI)
  fix f g :: "'a \<Rightarrow> 'b option" assume fg: "fun_ord (flat_ord None) f g"
  have "F f x y z = None \<or> F f x y z = F g x y z" for x y z by (rule mono_optionD[OF assms fg])
  then have *: "F g x y z = F f x y z" if "F f x y z \<noteq> None" for x y z using that by metis
  show "incoming_value (F f) outs var b s = None \<or> incoming_value (F f) outs var b s = incoming_value (F g) outs var b s"
  proof (cases "incoming_value (F f) outs var b s")
    case (Some r)
    then have "incoming_value (F g) outs var b s = Some r" using *
      by (cases s) (auto simp: incoming_value_def bind_Some_iff split: option.splits)
    then show ?thesis using Some by simp
  qed simp
qed

partial_function (option) materialize_value :: "(nat set \<Rightarrow> nat list) \<Rightarrow> pred_table \<Rightarrow> (nat \<rightharpoonup> (nat \<rightharpoonup> nat)) \<Rightarrow> nat \<Rightarrow> nat \<Rightarrow>
    unit_builder \<Rightarrow> nat set \<Rightarrow> (nat option \<times> unit_builder \<times> nat set) option" where
  "materialize_value ord pt outs var block u stack =
     (if block \<in> stack then Some (None, u, stack)
      else Option.bind (pred_set pt block) (\<lambda>ps.
        Option.bind (foldM (\<lambda>b s. incoming_value (\<lambda>b u stack. materialize_value ord pt outs var b u stack) outs var b s) (ord ps)
            ([], u, insert block stack))
          (\<lambda>(incoming, u, stack).
            Option.bind (join_values block incoming u) (\<lambda>(v, u). Some (v, u, stack - {block})))))"

section \<open>The pass\<close>

definition replace_load :: "(nat set \<Rightarrow> nat list) \<Rightarrow> pred_table \<Rightarrow> vtpp_tables \<Rightarrow> nat \<Rightarrow> unit_builder \<Rightarrow> unit_builder option" where
  "replace_load ord pt tb ld u =
     do { slot \<leftarrow> value_table tb ld;
          i \<leftarrow> value_inst (dfg u) ld;
          (v, u) \<leftarrow> (case slot of
             VarIncoming var bb \<Rightarrow>
               do { (v, u, _) \<leftarrow> materialize_value ord pt (block_outs tb) var bb u {};
                    v \<leftarrow> v;
                    Some (v, u) }
           | VarValue v \<Rightarrow> Some (v, u));
          (_, g) \<leftarrow> replace_use ord ld v (dfg u);
          let u = u\<lparr>dfg := g\<rparr>;
          (_, u) \<leftarrow> prune_if_unused (Suc (length (storage (dinsts (dfg u))))) i u;
          Some u }"

definition strip_var :: "vtpp_tables \<Rightarrow> nat \<Rightarrow> unit_builder \<Rightarrow> unit_builder option" where
  "strip_var tb i u =
     do { stores \<leftarrow> vtpp_vars tb i;
          u \<leftarrow> foldM delete_inst stores u;
          delete_inst i u }"

definition vtpp_run_on_cfg :: "(nat set \<Rightarrow> nat list) \<Rightarrow> unit_builder \<Rightarrow> (bool \<times> unit_builder) option" where
  "vtpp_run_on_cfg ord u =
     do { pt \<leftarrow> predtbl (dfg u) (layout u);
          bs \<leftarrow> blocks (layout u);
          tb \<leftarrow> foldM (vtpp_block u) bs \<lparr>block_outs = Map.empty, value_table = Map.empty, vtpp_vars = Map.empty\<rparr>;
          u \<leftarrow> foldM (replace_load ord pt tb) (ord (dom (value_table tb))) u;
          u \<leftarrow> foldM (strip_var tb) (ord (dom (vtpp_vars tb))) u;
          Some (value_table tb \<noteq> Map.empty \<or> vtpp_vars tb \<noteq> Map.empty, u) }"

section \<open>What a phi node joins\<close>

text \<open>
  A block that also branches to itself, without a store to the variable, while every other
  predecessor stores it.
\<close>

lemma incoming_fold:
  assumes "\<forall>b \<in> set bs - {block}. \<exists>vs. outs b = Some vs \<and> vs var \<noteq> None" "\<forall>vs. outs block = Some vs \<longrightarrow> vs var = None"
    and "block \<in> stack"
  shows "foldM (\<lambda>b s. incoming_value (\<lambda>b u stack. materialize_value ord pt outs var b u stack) outs var b s) bs (acc, u, stack) =
    Some (acc @ map (\<lambda>b. (b, the (the (outs b) var))) (filter (\<lambda>b. b \<noteq> block) bs), u, stack)"
  using assms(1)
proof (induction bs arbitrary: acc)
  case (Cons b bs)
  have rest: "\<forall>b \<in> set bs - {block}. \<exists>vs. outs b = Some vs \<and> vs var \<noteq> None" using Cons.prems by auto
  show ?case
  proof (cases "b = block")
    case True
    have "materialize_value ord pt outs var block u stack = Some (None, u, stack)"
      using assms(3) by (subst materialize_value.simps) simp
    then have "incoming_value (\<lambda>b u stack. materialize_value ord pt outs var b u stack) outs var b (acc, u, stack) = Some (acc, u, stack)"
      using True assms(2) by (auto simp: incoming_value_def split: option.splits)
    then show ?thesis using Cons.IH[OF rest] True by simp
  next
    case False
    then have "b \<in> set (b # bs) - {block}" by simp
    then have "\<exists>vs. outs b = Some vs \<and> vs var \<noteq> None" using Cons.prems by blast
    then obtain vs v where "outs b = Some vs" "vs var = Some v" by auto
    then have "incoming_value (\<lambda>b u stack. materialize_value ord pt outs var b u stack) outs var b (acc, u, stack) =
        Some (acc @ [(b, the (the (outs b) var))], u, stack)"
      by (simp add: incoming_value_def)
    then show ?thesis using Cons.IH[OF rest] False by simp
  qed
qed simp

lemma remdups_many: "a \<in> set xs \<Longrightarrow> b \<in> set xs \<Longrightarrow> a \<noteq> b \<Longrightarrow> \<exists>x y zs. remdups xs = x # y # zs"
proof -
  assume m: "a \<in> set xs" "b \<in> set xs" "a \<noteq> b"
  then have s: "a \<in> set (remdups xs)" "b \<in> set (remdups xs)" by simp_all
  show ?thesis
  proof (cases "remdups xs")
    case Nil then show ?thesis using s by simp
  next
    case (Cons x ys)
    then show ?thesis using s m(3) by (cases ys) auto
  qed
qed

text \<open>
  C35: promotion of variables loses a way into a loop. When a block that branches to itself
  loads a variable that it does not store, and its other predecessors leave at least two values
  in the variable, the value that the pass makes available at the start of the block is a new phi
  node that names every predecessor but the block itself: on the edge from the block to itself the
  phi node has no value.
\<close>

theorem promoted_phi_misses_back_edge:
  assumes "unit_rep u xs" "room_for 1 u" "block \<in> keys xs" "lists_sets ord" "finite ps" "pred_set pt block = Some ps"
    and "\<forall>b \<in> ps - {block}. \<exists>vs v. outs b = Some vs \<and> vs var = Some v \<and> value_type (dfg u) v = Some t \<and> value_at (dfg u) v \<noteq> None"
    and "\<forall>vs. outs block = Some vs \<longrightarrow> vs var = None" "\<not> ty_is_void t"
    and "a \<in> ps - {block}" "b \<in> ps - {block}" "the (outs a) var \<noteq> the (outs b) var"
  shows "\<exists>phi i u' vs bs. materialize_value ord pt outs var block u {} = Some (Some phi, u', {}) \<and> ready u' \<and>
    value_at (dfg u') phi = Some (VInst t i) \<and> inst_at (dfg u') i = Some (IPhi OpPhi vs bs) \<and>
    set bs = ps - {block} \<and> (\<forall>k < length bs. \<exists>f. outs (bs ! k) = Some f \<and> f var = Some (vs ! k))"
proof -
  let ?bs = "filter (\<lambda>b. b \<noteq> block) (ord ps)"
  let ?val = "\<lambda>b. the (the (outs b) var)"
  let ?vs = "map ?val ?bs"
  have ps: "set (ord ps) = ps" using assms(4,5) by (simp add: lists_sets_def)
  have fold: "foldM (\<lambda>b s. incoming_value (\<lambda>b u stack. materialize_value ord pt outs var b u stack) outs var b s) (ord ps) ([], u, {block}) =
      Some ([] @ map (\<lambda>b. (b, ?val b)) ?bs, u, {block})"
    by (rule incoming_fold) (use assms(7,8) ps in fastforce)+
  have vals: "outs b = Some (the (outs b)) \<and> the (outs b) var = Some (?val b) \<and> value_type (dfg u) (?val b) = Some t \<and>
      value_at (dfg u) (?val b) \<noteq> None" if "b \<in> set ?bs" for b
  proof -
    have "b \<in> ps - {block}" using that ps by simp
    then obtain vs v where "outs b = Some vs" "vs var = Some v" "value_type (dfg u) v = Some t" "value_at (dfg u) v \<noteq> None"
      using assms(7) by blast
    then show ?thesis by simp
  qed
  have ab: "a \<in> set ?bs" "b \<in> set ?bs" using assms(10,11) ps by auto
  have "?val a \<noteq> ?val b" using vals[OF ab(1)] vals[OF ab(2)] assms(12) by auto
  moreover have mem: "?val c \<in> set ?vs" if "c \<in> set ?bs" for c using imageI[OF that, of ?val] by (simp only: list.set_map)
  ultimately obtain x y zs where many: "remdups ?vs = x # y # zs"
    using remdups_many[OF mem[OF ab(1)] mem[OF ab(2)]] by blast
  let ?u = "prepend_to block u"
  have g: "dfg ?u = dfg u" "room_for 1 ?u" using assms(2) by (simp_all add: prepend_to_def room_for_def)
  have rd: "ready ?u" using assms(1,3) unfolding ready_def prepend_to_def by (intro exI[of _ xs]) (simp add: unit_rep_def pos_valid_def)
  have ne: "?bs \<noteq> []" using ab by (metis empty_iff empty_set)
  have len: "0 < length ?bs" using ne by (simp only: length_greater_0_conv not_False_eq_True)
  have hd: "?vs ! 0 = ?val (?bs ! 0)" "?bs ! 0 \<in> set ?bs" by (rule nth_map[OF len], rule nth_mem[OF len])
  have ok: "\<forall>v \<in> set (args (IPhi OpPhi ?vs ?bs)). value_ok (dfg ?u) v" using vals g(1) by (auto simp: args_def value_ok_def)
  obtain i r u' where u': "ib_value (ib_build None (IPhi OpPhi ?vs ?bs) t ?u) = Some (r, u')" "ready u'"
    "inst_at (dfg u') i = Some (IPhi OpPhi ?vs ?bs)" "value_at (dfg u') r = Some (VInst t i)"
    using ib_value_effect[OF rd _ ok, of 0 t None] g(2) assms(9) by (auto simp: has_res_def)
  have phi: "ib_phi None ?vs ?bs ?u = Some (r, u')"
    using ne u'(1) vals[OF hd(2)] hd(1) g(1) by (simp add: ib_phi_def ib_value_type_def)
  have eq: "map snd (map (\<lambda>b. (b, ?val b)) ?bs) = ?vs" "map fst (map (\<lambda>b. (b, ?val b)) ?bs) = ?bs" by (simp_all add: comp_def)
  have "join_values block (map (\<lambda>b. (b, ?val b)) ?bs) u = Some (Some r, u')"
    unfolding join_values_def eq many using phi by simp
  then have "materialize_value ord pt outs var block u {} = Some (Some r, u', {})"
    using assms(6) fold by (subst materialize_value.simps) simp
  moreover have "\<exists>f. outs (?bs ! k) = Some f \<and> f var = Some (?vs ! k)" if "k < length ?bs" for k
    using vals[OF nth_mem[OF that]] that by (intro exI[of _ "the (outs (?bs ! k))"]) simp
  moreover have "set ?bs = ps - {block}" using ps by auto
  ultimately show ?thesis using u'(2-4) by blast
qed

lemma promoted_phi_misses_back_edge_witness:
  "\<exists>u phi i u' vs bs. dfg u = demo_graph \<and>
     materialize_value sorted_list_of_set \<lparr>pred_sets = [0 \<mapsto> {0, 1, 2}], succ_sets = Map.empty\<rparr> [1 \<mapsto> [7 \<mapsto> 0], 2 \<mapsto> [7 \<mapsto> 1]] 7 0 u {} =
       Some (Some phi, u', {}) \<and> inst_at (dfg u') i = Some (IPhi OpPhi vs bs) \<and> set bs = {1, 2}"
proof -
  obtain u where u: "unit_rep u [(0, [0, 1, 2])]" "dfg u = demo_graph" using demo_unit[of PosNone] by blast
  let ?pt = "\<lparr>pred_sets = [0 \<mapsto> {0, 1, 2}], succ_sets = Map.empty\<rparr> :: pred_table"
  let ?outs = "[1 \<mapsto> [7 \<mapsto> 0], 2 \<mapsto> [7 \<mapsto> 1]] :: nat \<rightharpoonup> (nat \<rightharpoonup> nat)"
  have room: "room_for 1 u" by (simp add: room_for_def u(2) demo_graph_def)
  have k: "0 \<in> keys [(0, [0, 1, 2])]" by (simp add: keys_def)
  have pt: "pred_set ?pt 0 = Some {0, 1, 2}" by (simp add: pred_set_def)
  have ty: "value_type demo_graph 0 = Some (IntType 8)" "value_type demo_graph 1 = Some (IntType 8)"
    by (simp_all add: value_type_def demo_graph_def pt2_index_def idx_def vd_type_def)
  have at: "value_at demo_graph 0 \<noteq> None" "value_at demo_graph 1 \<noteq> None" by (simp_all add: demo_at)
  have outs: "\<forall>b \<in> {0, 1, 2} - {0}. \<exists>vs v. ?outs b = Some vs \<and> vs 7 = Some v \<and> value_type (dfg u) v = Some (IntType 8) \<and>
      value_at (dfg u) v \<noteq> None"
    unfolding u(2) using ty at by (simp del: One_nat_def)
  have h: "\<forall>vs. ?outs 0 = Some vs \<longrightarrow> vs 7 = None" "\<not> ty_is_void (IntType 8)" "finite {0, 1, 2 :: nat}" by simp_all
  have n: "1 \<in> {0, 1, 2 :: nat} - {0}" "2 \<in> {0, 1, 2 :: nat} - {0}" "the (?outs 1) 7 \<noteq> the (?outs 2) 7" by simp_all
  obtain phi i u' vs bs where res: "materialize_value sorted_list_of_set ?pt ?outs 7 0 u {} = Some (Some phi, u', {})"
    "inst_at (dfg u') i = Some (IPhi OpPhi vs bs)" "set bs = {0, 1, 2} - {0}"
    using promoted_phi_misses_back_edge[OF u(1) room k lists_sets_sorted h(3) pt outs h(1,2) n] by (elim exE conjE) (rule that)
  have "set bs = {1, 2}" unfolding res(3) by auto
  then show ?thesis using u(2) res(1,2)
    by (intro exI[of _ u] exI[of _ phi] exI[of _ i] exI[of _ u'] exI[of _ vs] exI[of _ bs] conjI)
qed

end
