(* ===== verification/SimPointers.thy ===== *)
theory SimPointers
  imports SimState
begin

text \<open>
  Reading and writing through pointers in the simulator
  (\<^verbatim>\<open>src/src/bin/llhd-sim/engine.rs\<close>): shifts, slices and field accesses only edit a
  pointer, which is a list of slices of values, variables and signals; the data is moved when
  the pointer is read or written. The \<^verbatim>\<open>isize\<close> offsets are integers.
\<close>

record inst_context =
  cunit :: unit_data
  cvalues :: "nat \<rightharpoonup> value_slot"
  csignals :: "signal list"
  ctime :: time_value

section \<open>Writing\<close>

fun write_pointer_select :: "value_select list \<Rightarrow> sim_value \<Rightarrow> sim_value \<Rightarrow> sim_value option" where
  "write_pointer_select [] into v = Some v"
| "write_pointer_select (SelField k # sel) into v =
     (case into of
        ArrayVal xs \<Rightarrow>
          do { sub \<leftarrow> sa_extract_field xs k; sub \<leftarrow> write_pointer_select sel sub v;
               xs \<leftarrow> sa_insert_field xs k sub; Some (ArrayVal xs) }
      | StructVal xs \<Rightarrow>
          do { sub \<leftarrow> ss_extract_field xs k; sub \<leftarrow> write_pointer_select sel sub v;
               xs \<leftarrow> ss_insert_field xs k sub; Some (StructVal xs) }
      | _ \<Rightarrow> None)"
| "write_pointer_select (SelSlice off len # sel) into v =
     (case into of
        IntVal x \<Rightarrow>
          do { sub \<leftarrow> write_pointer_select sel (IntVal (si_extract_slice x off len)) v; y \<leftarrow> sv_get_int sub;
               x \<leftarrow> si_insert_slice x off len y; Some (IntVal x) }
      | ArrayVal xs \<Rightarrow>
          do { sub \<leftarrow> sa_extract_slice xs off len; sub \<leftarrow> write_pointer_select sel (ArrayVal sub) v; ys \<leftarrow> sv_get_array sub;
               xs \<leftarrow> sa_insert_slice xs off len ys; Some (ArrayVal xs) }
      | _ \<Rightarrow> None)"

definition write_pointer_slice :: "value_slice \<Rightarrow> sim_value \<Rightarrow> sim_value \<Rightarrow> sim_value option" where
  "write_pointer_slice s into v = write_pointer_select (select s) into v"

text \<open>The part of the value that belongs to a slice of the pointer.\<close>

definition subvalue :: "sim_value \<Rightarrow> nat \<Rightarrow> nat \<Rightarrow> sim_value option" where
  "subvalue v off w =
     (if w \<noteq> 0 then (case v of
         IntVal x \<Rightarrow> Some (IntVal (si_extract_slice x off w))
       | ArrayVal xs \<Rightarrow> map_option ArrayVal (sa_extract_slice xs off w)
       | _ \<Rightarrow> None)
      else Some v)"

definition write_pointer :: "value_pointer \<Rightarrow> sim_value list \<Rightarrow> sim_value \<Rightarrow> sim_value list option" where
  "write_pointer p into v =
     foldM (\<lambda>(i, off, s) into.
         do { sub \<leftarrow> subvalue v off (swidth s); x \<leftarrow> idx into i; y \<leftarrow> write_pointer_slice s x sub; idx_set into i y })
       (enumerate 0 (offset_slices p)) into"

section \<open>Resolving operands\<close>

definition resolve_value :: "inst_context \<Rightarrow> nat \<Rightarrow> sim_value option" where
  "resolve_value c v = (case cvalues c v of Some (SlotConst k) \<Rightarrow> Some k | _ \<Rightarrow> None)"

definition resolve_delay :: "inst_context \<Rightarrow> nat \<Rightarrow> time_value option" where
  "resolve_delay c v = do { x \<leftarrow> resolve_value c v; sv_get_time x }"

definition resolve_signal :: "inst_context \<Rightarrow> nat \<Rightarrow> nat option" where
  "resolve_signal c v = (case cvalues c v of Some (SlotSignal r) \<Rightarrow> Some r | _ \<Rightarrow> None)"

definition pointer_target_ty :: "ty \<Rightarrow> ty" where
  "pointer_target_ty t = (case t of PointerType t \<Rightarrow> t | SignalType t \<Rightarrow> t | _ \<Rightarrow> t)"

definition pointer_width :: "inst_context \<Rightarrow> nat \<Rightarrow> nat option" where
  "pointer_width c v =
     do { t \<leftarrow> value_type (dfg (cunit c)) v;
          case pointer_target_ty t of
            IntType w \<Rightarrow> Some w | ArrayType w _ \<Rightarrow> Some w | StructType _ \<Rightarrow> Some 0 | _ \<Rightarrow> None }"

definition whole :: "inst_context \<Rightarrow> value_target \<Rightarrow> nat \<Rightarrow> value_pointer option" where
  "whole c t v = do { w \<leftarrow> pointer_width c v; Some [\<lparr>target = t, select = [], swidth = w\<rparr>] }"

definition resolve_variable_pointer :: "inst_context \<Rightarrow> nat \<Rightarrow> value_pointer option" where
  "resolve_variable_pointer c v = (case cvalues c v of
     Some (SlotVariable _) \<Rightarrow> whole c (TgtVariable v) v | Some (SlotVariablePointer p) \<Rightarrow> Some p | _ \<Rightarrow> None)"

definition resolve_signal_pointer :: "inst_context \<Rightarrow> nat \<Rightarrow> value_pointer option" where
  "resolve_signal_pointer c v = (case cvalues c v of
     Some (SlotSignal s) \<Rightarrow> whole c (TgtSignal s) v | Some (SlotSignalPointer p) \<Rightarrow> Some p | _ \<Rightarrow> None)"

definition resolve_value_pointer :: "inst_context \<Rightarrow> nat \<Rightarrow> value_pointer option" where
  "resolve_value_pointer c v = whole c (TgtValue v) v"

section \<open>Reading\<close>

definition read_pointer_target :: "inst_context \<Rightarrow> value_target \<Rightarrow> sim_value option" where
  "read_pointer_target c t = (case t of
     TgtValue v \<Rightarrow> resolve_value c v
   | TgtVariable v \<Rightarrow> (case cvalues c v of Some (SlotVariable k) \<Rightarrow> Some k | _ \<Rightarrow> None)
   | TgtSignal s \<Rightarrow> map_option sig_value (idx (csignals c) s))"

definition read_select :: "value_select \<Rightarrow> sim_value \<Rightarrow> sim_value option" where
  "read_select sel v = (case sel of
     SelField k \<Rightarrow> (case v of
         ArrayVal xs \<Rightarrow> sa_extract_field xs k | StructVal xs \<Rightarrow> ss_extract_field xs k | _ \<Rightarrow> None)
   | SelSlice off len \<Rightarrow> (case v of
         IntVal x \<Rightarrow> Some (IntVal (si_extract_slice x off len))
       | ArrayVal xs \<Rightarrow> map_option ArrayVal (sa_extract_slice xs off len)
       | _ \<Rightarrow> None))"

definition read_pointer_slice :: "inst_context \<Rightarrow> value_slice \<Rightarrow> sim_value option" where
  "read_pointer_slice c s = do { v \<leftarrow> read_pointer_target c (target s); foldM read_select (select s) v }"

definition read_pointer :: "inst_context \<Rightarrow> ty \<Rightarrow> value_pointer \<Rightarrow> sim_value option" where
  "read_pointer c t p = (case t of
     IntType w \<Rightarrow>
       do { (value, offset) \<leftarrow> foldM (\<lambda>s (value, offset).
              do { r \<leftarrow> read_pointer_slice c s; x \<leftarrow> sv_get_int r;
                   value \<leftarrow> si_insert_slice value offset (swidth s) x; Some (value, offset + swidth s) })
              p (si_from_usize w 0, 0);
            ensure (offset = w);
            Some (IntVal value) }
   | ArrayType w _ \<Rightarrow>
       do { values \<leftarrow> foldM (\<lambda>s values.
              do { r \<leftarrow> read_pointer_slice c s; xs \<leftarrow> sv_get_array r; Some (values @ xs) }) p [];
            ensure (length values = w);
            Some (ArrayVal values) }
   | _ \<Rightarrow> (case p of [s] \<Rightarrow> read_pointer_slice c s | _ \<Rightarrow> None))"

section \<open>Editing pointers\<close>

text \<open>
  The part of a slice of a pointer that lies in the window of length \<open>len\<close> at \<open>off\<close>. The
  subtraction of the two clamped bounds panics when it goes below zero.
\<close>

definition window_slice :: "int \<Rightarrow> int \<Rightarrow> nat \<times> value_slice \<Rightarrow> value_slice list option" where
  "window_slice off len = (\<lambda>(slice_offset, s).
     let clamp = (\<lambda>x. nat (max 0 (min (int (swidth s)) x)));
         actual_off = clamp (off - int slice_offset);
         actual_end = clamp (off + len - int slice_offset)
     in do { ensure (actual_off \<le> actual_end);
             let actual_len = actual_end - actual_off;
             if actual_off = 0 \<and> actual_len = swidth s then Some [s]
             else if actual_len = 0 then Some []
             else Some [s\<lparr>swidth := actual_len, select := select s @ [SelSlice actual_off actual_len]\<rparr>] })"

definition window :: "int \<Rightarrow> int \<Rightarrow> value_pointer \<Rightarrow> value_pointer option" where
  "window off len p = map_option concat (mapM (window_slice off len) (offset_slices p))"

definition exec_shift :: "opcode \<Rightarrow> value_pointer \<Rightarrow> value_pointer \<Rightarrow> sim_value \<Rightarrow> value_pointer option" where
  "exec_shift op base hidden amount =
     do { x \<leftarrow> sv_get_int amount; n \<leftarrow> si_to_usize x;
          let amount = min (ptr_width hidden) n;
          let base_len = int (ptr_width base) - int amount;
          let hidden_len = int amount;
          if op = OpShl then
            do { h \<leftarrow> window (int (ptr_width hidden) - int amount) hidden_len hidden; b \<leftarrow> window 0 base_len base; Some (h @ b) }
          else if op = OpShr then
            do { b \<leftarrow> window (int amount) base_len base; h \<leftarrow> window 0 hidden_len hidden; Some (b @ h) }
          else None }"

definition exec_field :: "ty \<Rightarrow> value_pointer \<Rightarrow> nat \<Rightarrow> value_pointer option" where
  "exec_field target_ty p field =
     (case find (\<lambda>(offset, s). swidth s = 0 \<or> (offset \<le> field \<and> field < offset + swidth s)) (offset_slices p) of
        None \<Rightarrow> None
      | Some (offset, s) \<Rightarrow>
          do { field_ty \<leftarrow> (case pointer_target_ty target_ty of
                 ArrayType _ t \<Rightarrow> Some t | StructType ts \<Rightarrow> idx ts field | _ \<Rightarrow> None);
               ensure (offset \<le> field);
               Some [s\<lparr>swidth := (case field_ty of IntType w \<Rightarrow> w | ArrayType w _ \<Rightarrow> w | _ \<Rightarrow> 0),
                       select := select s @ [SelField (field - offset)]\<rparr>] })"

definition exec_insext :: "opcode \<Rightarrow> ty \<Rightarrow> value_pointer \<Rightarrow> nat list \<Rightarrow> value_pointer option" where
  "exec_insext op target_ty p ims =
     (if op \<in> {OpInsField, OpExtField} then do { k \<leftarrow> idx ims 0; exec_field target_ty p k }
      else if op \<in> {OpInsSlice, OpExtSlice} then
        do { off \<leftarrow> idx ims 0; len \<leftarrow> idx ims 1; window (int off) (int len) p }
      else None)"

section \<open>Time\<close>

definition time_after_delay :: "inst_context \<Rightarrow> time_value \<Rightarrow> time_value" where
  "time_after_delay c delay =
     (let t = time (ctime c); d = delta (ctime c); e = epsilon (ctime c);
          (t, d, e) = (if time delay \<noteq> 0 then (t + time delay, 0, 0) else (t, d, e));
          (d, e) = (if delta delay \<noteq> 0 then (d + delta delay, 0) else (d, e));
          e = e + epsilon delay
      in TimeValue t d e)"

definition time_after_delta :: "inst_context \<Rightarrow> time_value" where
  "time_after_delta c = TimeValue (time (ctime c)) (delta (ctime c) + 1) 0"

end
