(* ===== verification/SimPointerProps.thy ===== *)
theory SimPointerProps
  imports SimPointers
begin

text \<open>
  The pointers of the simulator: selections are lenses on typed values, the edits of a
  pointer select the parts of the concatenated data that the shift and slice instructions
  mean, and a write is seen by a later read unless two slices name the same target.
\<close>

section \<open>Selections are lenses\<close>

fun path_ty :: "value_select list \<Rightarrow> ty \<Rightarrow> ty option" where
  "path_ty [] t = Some t"
| "path_ty (SelField k # sel) t = (case t of
     ArrayType n t \<Rightarrow> if k < n then path_ty sel t else None
   | StructType ts \<Rightarrow> if k < length ts then path_ty sel (ts ! k) else None
   | _ \<Rightarrow> None)"
| "path_ty (SelSlice off len # sel) t = (case t of
     IntType w \<Rightarrow> if off + len \<le> w then path_ty sel (IntType len) else None
   | ArrayType n t \<Rightarrow> if off + len \<le> n then path_ty sel (ArrayType len t) else None
   | _ \<Rightarrow> None)"

lemma has_ty_cases:
  "has_ty v (IntType w) \<longleftrightarrow> (\<exists>x. v = IntVal x \<and> width x = w \<and> iv_wf x)"
  "has_ty v (ArrayType n t) \<longleftrightarrow> (\<exists>vs. v = ArrayVal vs \<and> length vs = n \<and> (\<forall>v \<in> set vs. has_ty v t))"
  "has_ty v (StructType ts) \<longleftrightarrow> (\<exists>vs. v = StructVal vs \<and> list_all2 has_ty vs ts)"
  by (cases v; auto)+

lemma has_ty_slice:
  "\<forall>v \<in> set vs. has_ty v t \<Longrightarrow> off + len \<le> length vs \<Longrightarrow> has_ty (ArrayVal (take len (drop off vs))) (ArrayType len t)"
  by (auto dest: in_set_takeD in_set_dropD)

text \<open>A typed value can be read along a typed path.\<close>

lemma read_path:
  "path_ty sel t = Some u \<Longrightarrow> has_ty v t \<Longrightarrow> \<exists>x. foldM read_select sel v = Some x \<and> has_ty x u"
proof (induction sel t arbitrary: v rule: path_ty.induct)
  case (2 k sel t)
  then consider n t' where "t = ArrayType n t'" "k < n" "path_ty sel t' = Some u"
    | ts where "t = StructType ts" "k < length ts" "path_ty sel (ts ! k) = Some u" by (auto split: ty.splits if_splits)
  then show ?case
  proof cases
    case 1
    then obtain vs where "v = ArrayVal vs" "length vs = n" "has_ty (vs ! k) t'" using 2(4) by (auto simp: has_ty_cases)
    then show ?thesis using 2(1)[OF 1(1,2,3)] 1(2) by (simp add: read_select_def array_extract_field_def idx_def)
  next
    case 2
    then obtain vs where "v = StructVal vs" "length vs = length ts" "has_ty (vs ! k) (ts ! k)"
      using \<open>has_ty v t\<close> by (auto simp: has_ty_cases list_all2_conv_all_nth)
    then show ?thesis using \<open>\<And>ts v. t = StructType ts \<Longrightarrow> k < length ts \<Longrightarrow> path_ty sel (ts ! k) = Some u \<Longrightarrow> has_ty v (ts ! k) \<Longrightarrow> _\<close>[OF 2] 2(2)
      by (simp add: read_select_def struct_extract_field_def idx_def)
  qed
next
  case (3 off len sel t)
  then consider w where "t = IntType w" "off + len \<le> w" "path_ty sel (IntType len) = Some u"
    | n t' where "t = ArrayType n t'" "off + len \<le> n" "path_ty sel (ArrayType len t') = Some u" by (auto split: ty.splits if_splits)
  then show ?case
  proof cases
    case 1
    then obtain x where "v = IntVal x" using 3(4) by (auto simp: has_ty_cases)
    then show ?thesis using 3(1)[OF 1, of "IntVal (iv_extract_slice x off len)"] by (simp add: read_select_def)
  next
    case 2
    then obtain vs where v: "v = ArrayVal vs" "length vs = n" "\<forall>v \<in> set vs. has_ty v t'" using 3(4) by (auto simp: has_ty_cases)
    then show ?thesis using 3(2)[OF 2 has_ty_slice[OF v(3)]] 2(2) by (simp add: read_select_def array_extract_slice_def slice_def)
  qed
qed simp

text \<open>Writing along a path: the read after it, a second write, and writing back what was read.\<close>

definition path_writes :: "value_select list \<Rightarrow> ty \<Rightarrow> ty \<Rightarrow> sim_value \<Rightarrow> sim_value \<Rightarrow> bool" where
  "path_writes sel t u v x \<longleftrightarrow> (\<exists>v'. write_pointer_select sel v x = Some v' \<and> has_ty v' t \<and>
     foldM read_select sel v' = Some x \<and>
     (\<forall>y. has_ty y u \<longrightarrow> write_pointer_select sel v' y = write_pointer_select sel v y) \<and>
     (foldM read_select sel v = Some x \<longrightarrow> v' = v))"

lemma insert_slice_twice:
  assumes "iv_insert_slice x off len a = Some y" "iv_wf x" "iv_wf a" "iv_wf b" "off + len \<le> width x"
  shows "iv_insert_slice y off len b = iv_insert_slice x off len b"
proof (cases "width b = len")
  case True
  then obtain p q where pq: "iv_insert_slice y off len b = Some p" "iv_insert_slice x off len b = Some q"
    using insert_slice_None by (metis option.exhaust)
  note y = insert_slice_Some[OF assms(1)] wf_insert_slice[OF assms(1,2,3,5)]
  have "p = q"
  proof (rule int_value_bit_eqI)
    show "width p = width q" using insert_slice_Some[OF pq(1)] insert_slice_Some[OF pq(2)] y by simp
    show "bit (ivalue p) i \<longleftrightarrow> bit (ivalue q) i" for i
      using bit_insert_slice[OF pq(1) _ assms(4), of i] bit_insert_slice[OF pq(2) assms(2,4,5), of i]
        bit_insert_slice[OF assms(1,2,3,5), of i] y assms(5) by (auto split: if_splits)
  qed
  then show ?thesis using pq by simp
next
  case False
  then have "iv_insert_slice y off len b = None" "iv_insert_slice x off len b = None" using insert_slice_None by metis+
  then show ?thesis by simp
qed

lemma write_field:
  assumes "path_writes sel t u (vs ! k) x" "k < length vs" "has_ty (mk vs) ct"
    and "mk = ArrayVal \<or> mk = StructVal" and "\<And>w. has_ty w t \<Longrightarrow> has_ty (mk (vs[k := w])) ct"
  shows "path_writes (SelField k # sel) ct u (mk vs) x"
proof -
  obtain w where w: "write_pointer_select sel (vs ! k) x = Some w" "has_ty w t" "foldM read_select sel w = Some x"
    "\<forall>y. has_ty y u \<longrightarrow> write_pointer_select sel w y = write_pointer_select sel (vs ! k) y"
    "foldM read_select sel (vs ! k) = Some x \<longrightarrow> w = vs ! k"
    using assms(1) by (auto simp: path_writes_def)
  have wr: "write_pointer_select (SelField k # sel) (mk ys) y =
      (if k < length ys then map_option (\<lambda>z. mk (ys[k := z])) (write_pointer_select sel (ys ! k) y) else None)" for ys y
    using assms(4) by (auto simp: array_extract_field_def array_insert_field_def struct_extract_field_def struct_insert_field_def
        idx_def idx_set_def map_option_case split: option.splits)
  have rd: "foldM read_select (SelField k # sel) (mk ys) = (if k < length ys then foldM read_select sel (ys ! k) else None)" for ys
    using assms(4) by (auto simp: read_select_def array_extract_field_def struct_extract_field_def idx_def)
  show ?thesis unfolding path_writes_def wr rd using w assms(2,5)
    by (intro exI[of _ "mk (vs[k := w])"]) (auto simp: wr rd simp del: write_pointer_select.simps foldM.simps)
qed

lemma write_path:
  "path_ty sel t = Some u \<Longrightarrow> has_ty v t \<Longrightarrow> has_ty x u \<Longrightarrow> path_writes sel t u v x"
proof (induction sel t arbitrary: v x rule: path_ty.induct)
  case (1 t)
  then show ?case by (auto simp: path_writes_def)
next
  case (2 k sel t)
  note IH = 2(1,2) and typed = 2(4,5)
  from 2 consider n t' where "t = ArrayType n t'" "k < n" "path_ty sel t' = Some u"
    | ts where "t = StructType ts" "k < length ts" "path_ty sel (ts ! k) = Some u" by (auto split: ty.splits if_splits)
  then show ?case
  proof cases
    case 1
    then obtain vs where vs: "v = ArrayVal vs" "length vs = n" "\<forall>v \<in> set vs. has_ty v t'" using typed(1) by (auto simp: has_ty_cases)
    have "path_writes sel t' u (vs ! k) x" using IH(1)[OF 1] vs(2,3) 1(2) typed(2) by simp
    then show ?thesis unfolding vs(1)
      by (rule write_field) (use vs 1 in \<open>auto simp: has_ty_cases dest: set_update_subset_insert[THEN subsetD]\<close>)
  next
    case 2
    obtain vs where vs: "v = StructVal vs" "length vs = length ts" "\<forall>i < length ts. has_ty (vs ! i) (ts ! i)"
      using typed(1) 2(1) by (auto simp: has_ty_cases list_all2_conv_all_nth)
    have "path_writes sel (ts ! k) u (vs ! k) x" using IH(2)[OF 2] vs(3) 2(2) typed(2) by simp
    then show ?thesis unfolding vs(1)
      by (rule write_field) (use vs 2 in \<open>auto simp: has_ty_cases list_all2_conv_all_nth nth_list_update\<close>)
  qed
next
  case (3 off len sel t)
  note IH = 3(1,2) and typed = 3(4,5)
  from 3 consider w where "t = IntType w" "off + len \<le> w" "path_ty sel (IntType len) = Some u"
    | n t' where "t = ArrayType n t'" "off + len \<le> n" "path_ty sel (ArrayType len t') = Some u" by (auto split: ty.splits if_splits)
  then show ?case
  proof cases
    case 1
    then obtain a where a: "v = IntVal a" "width a = w" "iv_wf a" using typed(1) by (auto simp: has_ty_cases)
    have "has_ty (IntVal (iv_extract_slice a off len)) (IntType len)" by simp
    from IH(1)[OF 1 this typed(2)] obtain w' where w': "write_pointer_select sel (IntVal (iv_extract_slice a off len)) x = Some w'"
      "has_ty w' (IntType len)" "foldM read_select sel w' = Some x"
      "\<forall>y. has_ty y u \<longrightarrow> write_pointer_select sel w' y = write_pointer_select sel (IntVal (iv_extract_slice a off len)) y"
      "foldM read_select sel (IntVal (iv_extract_slice a off len)) = Some x \<longrightarrow> w' = IntVal (iv_extract_slice a off len)"
      unfolding path_writes_def by blast
    obtain b where b: "w' = IntVal b" "width b = len" "iv_wf b" using w'(2) by (auto simp: has_ty_cases)
    obtain z where z: "iv_insert_slice a off len b = Some z" using insert_slice_None[of a off len b] b(2) by fastforce
    note zw = insert_slice_Some[OF z] wf_insert_slice[OF z a(3) b(3)] extract_insert_same[OF z a(3) b(3)]
    have fit: "off + len \<le> width a" using 1(2) a(2) by simp
    have wr: "write_pointer_select (SelSlice off len # sel) (IntVal c) y =
        do { s \<leftarrow> write_pointer_select sel (IntVal (iv_extract_slice c off len)) y; d \<leftarrow> get_int s;
             e \<leftarrow> iv_insert_slice c off len d; Some (IntVal e) }" for c y by simp
    have rd: "foldM read_select (SelSlice off len # sel) (IntVal c) = foldM read_select sel (IntVal (iv_extract_slice c off len))" for c
      by (simp add: read_select_def)
    have "write_pointer_select (SelSlice off len # sel) (IntVal z) y = write_pointer_select (SelSlice off len # sel) (IntVal a) y"
      if y: "has_ty y u" for y
    proof -
      have "has_ty (IntVal (iv_extract_slice a off len)) (IntType len)" by simp
      from IH(1)[OF 1 this y] obtain s where s: "write_pointer_select sel (IntVal (iv_extract_slice a off len)) y = Some s" "has_ty s (IntType len)"
        unfolding path_writes_def by blast
      then obtain d where d: "s = IntVal d" "iv_wf d" by (auto simp: has_ty_cases)
      have "iv_insert_slice z off len d = iv_insert_slice a off len d" by (rule insert_slice_twice[OF z a(3) b(3) d(2) fit])
      then show ?thesis unfolding wr using zw(3)[OF fit] w'(4) y b(1) s(1) d(1) by simp
    qed
    moreover have "foldM read_select (SelSlice off len # sel) (IntVal a) = Some x \<longrightarrow> z = a"
      unfolding rd using w'(5) b(1) z insert_extract_id[OF a(3) fit] by auto
    moreover have "has_ty (IntVal z) t" using zw(1) zw(2)[OF fit] a(2) 1(1) by (simp add: has_ty_cases)
    moreover have "write_pointer_select (SelSlice off len # sel) (IntVal a) x = Some (IntVal z)"
      unfolding wr using w'(1) b(1) z by simp
    moreover have "foldM read_select (SelSlice off len # sel) (IntVal z) = Some x"
      unfolding rd using w'(3) b(1) zw(3)[OF fit] by simp
    ultimately show ?thesis unfolding path_writes_def a(1) by blast
  next
    case 2
    obtain vs where vs: "v = ArrayVal vs" "length vs = n" "\<forall>v \<in> set vs. has_ty v t'"
      using typed(1) 2(1) by (auto simp: has_ty_cases)
    note ty = has_ty_slice[OF vs(3), of off len, unfolded vs(2), OF 2(2)]
    let ?sub = "\<lambda>ys. take len (drop off ys)"
    let ?put = "\<lambda>ys d. take off ys @ d @ drop (off + len) ys"
    have fit: "off + len \<le> length vs" using 2(2) vs(2) by simp
    have wr: "write_pointer_select (SelSlice off len # sel) (ArrayVal ys) y =
        do { s \<leftarrow> write_pointer_select sel (ArrayVal (?sub ys)) y; d \<leftarrow> get_array s; ensure (length d = len); Some (ArrayVal (?put ys d)) }"
      if "off + len \<le> length ys" for ys y
      using that by (auto simp: array_extract_slice_def slice_def array_insert_slice_def slice_set_def ensure_def
          split: if_splits intro!: Option.bind_cong)
    have rd: "foldM read_select (SelSlice off len # sel) (ArrayVal ys) = foldM read_select sel (ArrayVal (?sub ys))"
      if "off + len \<le> length ys" for ys
      using that by (simp add: read_select_def array_extract_slice_def slice_def)
    from IH(2)[OF 2 ty typed(2)] obtain w' where w': "write_pointer_select sel (ArrayVal (?sub vs)) x = Some w'"
      "has_ty w' (ArrayType len t')" "foldM read_select sel w' = Some x"
      "\<forall>y. has_ty y u \<longrightarrow> write_pointer_select sel w' y = write_pointer_select sel (ArrayVal (?sub vs)) y"
      "foldM read_select sel (ArrayVal (?sub vs)) = Some x \<longrightarrow> w' = ArrayVal (?sub vs)"
      unfolding path_writes_def by blast
    obtain b where b: "w' = ArrayVal b" "length b = len" "\<forall>v \<in> set b. has_ty v t'" using w'(2) by (auto simp: has_ty_cases)
    let ?z = "?put vs b"
    have z: "length ?z = length vs" "?sub ?z = b" using fit b(2) by auto
    have put: "?put ?z d = ?put vs d" for d using fit b(2) by simp
    have "take len (drop off vs) @ drop (off + len) vs = drop off vs"
      using append_take_drop_id[of len "drop off vs"] by (simp add: add.commute)
    then have put_back: "?put vs (?sub vs) = vs" by simp
    have fz: "off + len \<le> length ?z" using z(1) fit by simp
    have "write_pointer_select (SelSlice off len # sel) (ArrayVal ?z) y = write_pointer_select (SelSlice off len # sel) (ArrayVal vs) y"
      if y: "has_ty y u" for y
      unfolding wr[OF fz] wr[OF fit] z(2) put using w'(4) y b(1) by simp
    moreover have "foldM read_select (SelSlice off len # sel) (ArrayVal vs) = Some x \<longrightarrow> ?z = vs"
      unfolding rd[OF fit] using w'(5) b(1) put_back by auto
    moreover have "has_ty (ArrayVal ?z) t" using vs(2,3) b(3) z(1) 2(1) by (auto simp: has_ty_cases dest: in_set_takeD in_set_dropD)
    moreover have "write_pointer_select (SelSlice off len # sel) (ArrayVal vs) x = Some (ArrayVal ?z)"
      unfolding wr[OF fit] using w'(1) b by simp
    moreover have "foldM read_select (SelSlice off len # sel) (ArrayVal ?z) = Some x"
      unfolding rd[OF fz] z(2) using w'(3) b(1) by simp
    ultimately show ?thesis unfolding path_writes_def vs(1) by blast
  qed
qed

end
