(* ===== verification/SimWindows.thy ===== *)
theory SimWindows
  imports SimPointerProps
begin

text \<open>
  What a pointer denotes: the concatenation of the cells of its slices, where the cells of an
  integer are its bits and those of an array its elements. Shifting and slicing a pointer
  takes a window of the cells, and reading it collects them into a value.
\<close>

section \<open>Cells\<close>

definition cells :: "sim_value \<Rightarrow> sim_value list" where
  "cells v = (case v of
     IntVal x \<Rightarrow> map (\<lambda>i. IntVal (iv_extract_slice x i 1)) [0..<width x] | ArrayVal xs \<Rightarrow> xs | _ \<Rightarrow> [])"

text \<open>The sequence kinds: bits (\<open>True\<close>) and elements (\<open>False\<close>).\<close>

definition of_kind :: "bool \<Rightarrow> sim_value \<Rightarrow> bool" where
  "of_kind k v = (case v of IntVal x \<Rightarrow> k \<and> iv_wf x | ArrayVal _ \<Rightarrow> \<not> k | _ \<Rightarrow> False)"

lemma of_kind_simps [simp]:
  "of_kind True v \<longleftrightarrow> (\<exists>x. v = IntVal x \<and> iv_wf x)" "of_kind False v \<longleftrightarrow> (\<exists>xs. v = ArrayVal xs)"
  by (cases v; simp add: of_kind_def)+

lemma cells_simps [simp]:
  "cells (ArrayVal xs) = xs" "length (cells (IntVal x)) = width x"
  by (simp_all add: cells_def)

lemma cell_nth: "i < width x \<Longrightarrow> cells (IntVal x) ! i = IntVal (iv_extract_slice x i 1)"
  by (simp add: cells_def)

lemma bit_eq_extract: "iv_extract_slice x i 1 = iv_extract_slice y j 1 \<longleftrightarrow> (bit (ivalue x) i \<longleftrightarrow> bit (ivalue y) j)"
proof
  assume "iv_extract_slice x i 1 = iv_extract_slice y j 1"
  then have "bit (ivalue (iv_extract_slice x i 1)) 0 = bit (ivalue (iv_extract_slice y j 1)) 0" by simp
  then show "bit (ivalue x) i \<longleftrightarrow> bit (ivalue y) j" by (simp add: bit_extract_slice del: One_nat_def)
next
  assume "bit (ivalue x) i \<longleftrightarrow> bit (ivalue y) j"
  then show "iv_extract_slice x i 1 = iv_extract_slice y j 1"
    by (intro int_value_bit_eqI) (auto simp: bit_extract_slice)
qed

lemma cells_inject: "of_kind k v \<Longrightarrow> of_kind k w \<Longrightarrow> cells v = cells w \<Longrightarrow> v = w"
proof (cases k)
  case True
  assume "of_kind k v" "of_kind k w" and c: "cells v = cells w"
  then obtain x y where v: "v = IntVal x" "iv_wf x" and w: "w = IntVal y" "iv_wf y" using True by auto
  have wd: "width x = width y" using arg_cong[OF c, of length] v w by simp
  have "x = y"
  proof (rule int_value_bit_eqI[OF wd])
    fix i
    show "bit (ivalue x) i \<longleftrightarrow> bit (ivalue y) i"
    proof (cases "i < width x")
      case True
      then have "iv_extract_slice x i 1 = iv_extract_slice y i 1"
        using arg_cong[OF c, of "\<lambda>cs. cs ! i"] v w wd by (simp add: cell_nth del: One_nat_def)
      then show ?thesis by (simp add: bit_eq_extract del: One_nat_def)
    qed (use wf_bit[of x i] wf_bit[of y i] v w wd in auto)
  qed
  then show ?thesis using v w by simp
qed auto

lemma cells_slice: "off + len \<le> width x \<Longrightarrow> cells (IntVal (iv_extract_slice x off len)) = take len (drop off (cells (IntVal x)))"
  by (rule nth_equalityI) (auto simp: cell_nth extract_extract simp del: One_nat_def)

section \<open>Windows of a pointer\<close>

definition slice_cells :: "inst_context \<Rightarrow> bool \<Rightarrow> value_slice \<Rightarrow> sim_value list \<Rightarrow> bool" where
  "slice_cells c k s cs \<longleftrightarrow>
     (\<exists>v. read_pointer_slice c s = Some v \<and> of_kind k v \<and> cells v = cs \<and> length cs = swidth s)"

fun ptr_cells :: "inst_context \<Rightarrow> bool \<Rightarrow> value_pointer \<Rightarrow> sim_value list \<Rightarrow> bool" where
  "ptr_cells c k [] cs \<longleftrightarrow> cs = []"
| "ptr_cells c k (s # p) cs \<longleftrightarrow> (\<exists>as bs. cs = as @ bs \<and> slice_cells c k s as \<and> ptr_cells c k p bs)"

lemma ptr_cells_append: "ptr_cells c k (p @ q) cs \<longleftrightarrow> (\<exists>as bs. cs = as @ bs \<and> ptr_cells c k p as \<and> ptr_cells c k q bs)"
  by (induction p arbitrary: cs) (auto, metis append_assoc, metis append_assoc)

lemma ptr_cells_width: "ptr_cells c k p cs \<Longrightarrow> length cs = ptr_width p"
  by (induction p arbitrary: cs) (auto simp: ptr_width_def slice_cells_def)

lemma foldM_snoc: "foldM f (xs @ [x]) s = Option.bind (foldM f xs s) (f x)"
  by (cases "foldM f xs s") (auto simp: foldM_append split: option.splits)

lemma slice_cells_select:
  assumes "slice_cells c k s cs" "a + n \<le> length cs"
  shows "slice_cells c k (s\<lparr>swidth := n, select := select s @ [SelSlice a n]\<rparr>) (take n (drop a cs))"
proof -
  obtain v where v: "read_pointer_slice c s = Some v" "of_kind k v" "cells v = cs" "length cs = swidth s"
    using assms(1) by (auto simp: slice_cells_def)
  have rd: "read_pointer_slice c (s\<lparr>swidth := n, select := select s @ [SelSlice a n]\<rparr>) = Option.bind (read_pointer_slice c s) (read_select (SelSlice a n))"
    by (simp add: read_pointer_slice_def foldM_snoc)
  show ?thesis
  proof (cases k)
    case True
    then obtain x where x: "v = IntVal x" "iv_wf x" using v(2) by auto
    then have "a + n \<le> width x" using v(3) assms(2) by auto
    then show ?thesis using rd v x True cells_slice[of a n x] assms(2) by (auto simp: slice_cells_def read_select_def)
  next
    case False
    then obtain xs where "v = ArrayVal xs" using v(2) by auto
    then show ?thesis using rd v False assms(2)
      by (auto simp: slice_cells_def read_select_def array_extract_slice_def slice_def)
  qed
qed

text \<open>The bounds of the window, relative to a slice that starts at \<open>i\<close>, cut the list of its cells.\<close>

lemma window_slice_cells:
  assumes "slice_cells c k s cs" "0 \<le> len"
  shows "\<exists>q. window_slice off len (i, s) = Some q \<and>
    ptr_cells c k q (take (nat (off + len - int i) - nat (off - int i)) (drop (nat (off - int i)) cs))"
proof -
  let ?a = "nat (off - int i)" and ?b = "nat (off + len - int i)"
  define A where "A = nat (max 0 (min (int (swidth s)) (off - int i)))"
  define B where "B = nat (max 0 (min (int (swidth s)) (off + len - int i)))"
  have w: "length cs = swidth s" using assms(1) by (auto simp: slice_cells_def)
  have ca: "A = min (swidth s) ?a" "B = min (swidth s) ?b" unfolding A_def B_def by (simp_all add: min_def max_def) arith+
  have le: "A \<le> B" using assms(2) unfolding ca by (intro min.mono) auto
  have eq: "take (?b - ?a) (drop ?a cs) = take (B - A) (drop A cs)"
    unfolding ca using w by (cases "?a \<le> swidth s"; cases "?b \<le> swidth s") (simp_all add: min_absorb1 min_absorb2)
  have ws: "window_slice off len (i, s) = (if A = 0 \<and> B - A = swidth s then Some [s] else if B - A = 0 then Some []
      else Some [s\<lparr>swidth := B - A, select := select s @ [SelSlice A (B - A)]\<rparr>])"
    unfolding window_slice_def Let_def prod.case A_def[symmetric] B_def[symmetric] using le by simp
  have "A + (B - A) \<le> length cs" using le w unfolding ca by simp
  from slice_cells_select[OF assms(1) this] show ?thesis
    unfolding eq ws using assms(1) w by auto
qed

lemma window_from:
  assumes "ptr_cells c k p cs" "0 \<le> len"
  shows "\<exists>q. map_option concat (mapM (window_slice off len) (offset_slices_from i p)) = Some q \<and>
    ptr_cells c k q (take (nat (off + len - int i) - nat (off - int i)) (drop (nat (off - int i)) cs))"
  using assms(1)
proof (induction p arbitrary: i cs)
  case Nil
  then show ?case by simp
next
  case (Cons s p)
  then obtain as bs where cs: "cs = as @ bs" "slice_cells c k s as" "ptr_cells c k p bs" by auto
  have w: "length as = swidth s" using cs(2) by (auto simp: slice_cells_def)
  obtain q where q: "window_slice off len (i, s) = Some q"
    "ptr_cells c k q (take (nat (off + len - int i) - nat (off - int i)) (drop (nat (off - int i)) as))"
    using window_slice_cells[OF cs(2) assms(2)] by blast
  obtain r where r: "map_option concat (mapM (window_slice off len) (offset_slices_from (i + swidth s) p)) = Some r"
    "ptr_cells c k r (take (nat (off + len - int (i + swidth s)) - nat (off - int (i + swidth s))) (drop (nat (off - int (i + swidth s))) bs))"
    using Cons.IH[OF cs(3), of "i + swidth s"] by blast
  have n: "nat (off - int (i + swidth s)) = nat (off - int i) - length as"
    "nat (off + len - int (i + swidth s)) = nat (off + len - int i) - length as" unfolding w by simp_all
  let ?a = "nat (off - int i)" and ?b = "nat (off + len - int i)"
  have "?a \<le> ?b" using assms(2) by simp
  then have split: "take (?b - ?a) (drop ?a cs) = take (?b - ?a) (drop ?a as) @ take (?b - length as - (?a - length as)) (drop (?a - length as) bs)"
    unfolding cs(1) by (cases "?a \<le> length as") (auto simp: diff_diff_eq)
  obtain z where z: "mapM (window_slice off len) (offset_slices_from (i + swidth s) p) = Some z" "r = concat z" using r(1) by auto
  have "map_option concat (mapM (window_slice off len) (offset_slices_from i (s # p))) = Some (q @ r)" using q(1) z by simp
  moreover have "ptr_cells c k (q @ r) (take (?b - ?a) (drop ?a cs))"
    unfolding ptr_cells_append split using q(2) r(2)[unfolded n] by blast
  ultimately show ?case by blast
qed

lemma window_cells:
  assumes "ptr_cells c k p cs"
  shows "\<exists>q. window (int off) (int len) p = Some q \<and> ptr_cells c k q (take len (drop off cs))"
  using window_from[OF assms, of "int len" "int off" 0] by (simp add: window_def offset_slices_def nat_add_distrib)

section \<open>Reading\<close>

lemma cells_append_int:
  assumes "iv_wf x" "iv_wf y" "width x + width y \<le> w"
  shows "\<exists>z. iv_insert_slice (IntValue w (ivalue x)) (width x) (width y) y = Some z \<and> width z = w \<and>
    ivalue z < 2 ^ (width x + width y) \<and>
    cells (IntVal (IntValue (width x + width y) (ivalue z))) = cells (IntVal x) @ cells (IntVal y)"
proof -
  let ?x = "IntValue w (ivalue x)"
  have bx: "bit (ivalue x) i \<Longrightarrow> i < width x" for i using wf_bit[OF assms(1)] by blast
  have wx: "iv_wf ?x" unfolding iv_wf_def using bits_less_pow2[of w "ivalue x"] bx assms(3) by fastforce
  obtain z where z: "iv_insert_slice ?x (width x) (width y) y = Some z"
    using insert_slice_None[of ?x "width x" "width y" y] by fastforce
  note bz = bit_insert_slice[OF z wx assms(2)]
  have b: "bit (ivalue z) i \<longleftrightarrow> (if width x \<le> i \<and> i < width x + width y then bit (ivalue y) (i - width x) else bit (ivalue x) i)" for i
    using bz[of i] assms(3) by simp
  have "ivalue z < 2 ^ (width x + width y)"
  proof (rule bits_less_pow2)
    fix i assume "width x + width y \<le> i"
    then show "\<not> bit (ivalue z) i" using b[of i] bx[of i] by (auto split: if_splits)
  qed
  moreover have "cells (IntVal (IntValue (width x + width y) (ivalue z))) = cells (IntVal x) @ cells (IntVal y)"
  proof (rule nth_equalityI)
    fix i assume "i < length (cells (IntVal (IntValue (width x + width y) (ivalue z))))"
    then have i: "i < width x + width y" by simp
    show "cells (IntVal (IntValue (width x + width y) (ivalue z))) ! i = (cells (IntVal x) @ cells (IntVal y)) ! i"
      using i by (cases "i < width x") (simp_all add: nth_append cell_nth bit_eq_extract b del: One_nat_def)
  qed simp
  ultimately show ?thesis using z insert_slice_Some[OF z] by auto
qed

lemma read_bits:
  assumes "ptr_cells c True p cs" "iv_wf x" "width x + length cs \<le> w"
  shows "\<exists>z. foldM (\<lambda>s (value, offset).
        do { r \<leftarrow> read_pointer_slice c s; x \<leftarrow> sv_get_int r;
             value \<leftarrow> si_insert_slice value offset (swidth s) x; Some (value, offset + swidth s) }) p
      (IntValue w (ivalue x), width x) = Some (IntValue w z, width x + length cs) \<and>
    z < 2 ^ (width x + length cs) \<and> cells (IntVal (IntValue (width x + length cs) z)) = cells (IntVal x) @ cs"
  using assms
proof (induction p arbitrary: x cs)
  case Nil
  then show ?case by (cases x) (simp add: iv_wf_def)
next
  case (Cons s p)
  then obtain as bs where cs: "cs = as @ bs" "slice_cells c True s as" "ptr_cells c True p bs" by auto
  obtain y where y: "read_pointer_slice c s = Some (IntVal y)" "iv_wf y" "cells (IntVal y) = as" "length as = swidth s"
    using cs(2) by (auto simp: slice_cells_def)
  have wy: "width y = swidth s" using y(3,4) by auto
  have fits: "width x + width y \<le> w" using Cons.prems(3) cs(1) y(4) wy by simp
  obtain z where z: "iv_insert_slice (IntValue w (ivalue x)) (width x) (width y) y = Some z" "width z = w"
    "ivalue z < 2 ^ (width x + width y)"
    "cells (IntVal (IntValue (width x + width y) (ivalue z))) = cells (IntVal x) @ cells (IntVal y)"
    using cells_append_int[OF Cons.prems(2) y(2) fits] by blast
  let ?z = "IntValue (width x + width y) (ivalue z)"
  have zz: "z = IntValue w (ivalue z)" using z(2) by (cases z) simp
  have "iv_wf ?z" using z(3) by (simp add: iv_wf_def)
  from Cons.IH[OF cs(3) this] Cons.prems(3) cs(1) y(4) wy
  show ?case using y(1,3) z(1,4) zz cs(1) wy by (auto simp: add.assoc)
qed

lemma read_elems:
  assumes "ptr_cells c False p cs"
  shows "foldM (\<lambda>s values. do { r \<leftarrow> read_pointer_slice c s; xs \<leftarrow> sv_get_array r; Some (values @ xs) }) p vs = Some (vs @ cs)"
  using assms by (induction p arbitrary: vs cs) (auto simp: slice_cells_def)

text \<open>Reading a pointer yields the value with its cells.\<close>

definition seq_ty :: "bool \<Rightarrow> nat \<Rightarrow> ty \<Rightarrow> bool" where
  "seq_ty k n t \<longleftrightarrow> (if k then t = IntType n else \<exists>e. t = ArrayType n e)"

lemma read_pointer_cells:
  assumes "ptr_cells c k p cs" "seq_ty k (length cs) t"
  shows "\<exists>v. read_pointer c t p = Some v \<and> of_kind k v \<and> cells v = cs"
proof (cases k)
  case True
  have p: "ptr_cells c True p cs" using assms(1) True by simp
  obtain z where z: "foldM (\<lambda>s (value, offset).
        do { r \<leftarrow> read_pointer_slice c s; x \<leftarrow> sv_get_int r;
             value \<leftarrow> si_insert_slice value offset (swidth s) x; Some (value, offset + swidth s) }) p
      (IntValue (length cs) 0, 0) = Some (IntValue (length cs) z, length cs)"
    "z < 2 ^ length cs" "cells (IntVal (IntValue (length cs) z)) = cs"
    using read_bits[OF p, of "IntValue 0 0" "length cs"] by (auto simp: iv_wf_def cells_def)
  then show ?thesis using assms(2) True by (simp add: seq_ty_def read_pointer_def from_usize_def iv_wf_def)
next
  case False
  then show ?thesis using read_elems[of c p cs "[]"] assms by (auto simp: seq_ty_def read_pointer_def)
qed

section \<open>Shifts\<close>

lemma exec_shift_cells:
  assumes "ptr_cells c k base B" "ptr_cells c k hidden H" "ivalue x < 2 ^ 64"
    and "n = min (length H) (ivalue x)" "n \<le> length B" "op = OpShl \<or> op = OpShr"
  shows "\<exists>q. exec_shift op base hidden (IntVal x) = Some q \<and>
    ptr_cells c k q (take (length B) (if op = OpShl then drop (length H - n) (H @ B) else drop n (B @ H)))"
proof -
  note w = ptr_cells_width[OF assms(1), symmetric] ptr_cells_width[OF assms(2), symmetric]
  have nH: "n \<le> length H" using assms(4) by simp
  have us: "to_usize x = Some (ivalue x)" using assms(3) by (simp add: to_usize_def)
  have i: "int (length B) - int n = int (length B - n)" "int (length H) - int n = int (length H - n)" using assms(4,5) by simp_all
  obtain q1 where q1: "window (int (length H - n)) (int n) hidden = Some q1" "ptr_cells c k q1 (take n (drop (length H - n) H))"
    using window_cells[OF assms(2)] by blast
  obtain q2 where q2: "window 0 (int (length B - n)) base = Some q2" "ptr_cells c k q2 (take (length B - n) B)"
    using window_cells[OF assms(1), of 0 "length B - n"] by auto
  obtain q3 where q3: "window (int n) (int (length B - n)) base = Some q3" "ptr_cells c k q3 (take (length B - n) (drop n B))"
    using window_cells[OF assms(1)] by blast
  obtain q4 where q4: "window 0 (int n) hidden = Some q4" "ptr_cells c k q4 (take n H)"
    using window_cells[OF assms(2), of 0 n] by auto
  show ?thesis
  proof (cases "op = OpShl")
    case True
    then have "exec_shift op base hidden (IntVal x) = Some (q1 @ q2)"
      using us q1(1) q2(1) by (simp add: exec_shift_def w Let_def i assms(4)[symmetric])
    moreover have eq: "take (length B) (drop (length H - n) (H @ B)) = take n (drop (length H - n) H) @ take (length B - n) B"
      using nH assms(5) by simp
    have "ptr_cells c k (q1 @ q2) (take (length B) (drop (length H - n) (H @ B)))"
      unfolding eq ptr_cells_append using q1(2) q2(2) by blast
    ultimately show ?thesis using True by simp
  next
    case False
    then have "exec_shift op base hidden (IntVal x) = Some (q3 @ q4)"
      using us q3(1) q4(1) assms(6) by (simp add: exec_shift_def w Let_def i assms(4)[symmetric])
    moreover have eq: "take (length B) (drop n (B @ H)) = take (length B - n) (drop n B) @ take n H"
      using nH assms(5) by simp
    have "ptr_cells c k (q3 @ q4) (take (length B) (drop n (B @ H)))"
      unfolding eq ptr_cells_append using q3(2) q4(2) by blast
    ultimately show ?thesis using False by simp
  qed
qed

section \<open>Writing\<close>

lemma subvalue_cells:
  assumes "of_kind k v" "off + w \<le> length (cells v)" "w \<noteq> 0"
  shows "\<exists>u. subvalue v off w = Some u \<and> of_kind k u \<and> cells u = take w (drop off (cells v))"
proof (cases k)
  case True
  then obtain x where "v = IntVal x" "iv_wf x" using assms(1) by auto
  then show ?thesis using True assms(2,3) cells_slice[of off w x] by (auto simp: subvalue_def)
next
  case False
  then show ?thesis using assms by (auto simp: subvalue_def array_extract_slice_def slice_def)
qed

definition seq_of :: "bool \<Rightarrow> ty \<Rightarrow> nat \<Rightarrow> ty" where
  "seq_of k e n = (if k then IntType n else ArrayType n e)"

lemma seq_of_has_ty:
  assumes "has_ty v (seq_of k e n)" "of_kind k u" "set (cells u) \<subseteq> set (cells v)"
  shows "has_ty u (seq_of k e (length (cells u)))"
proof (cases k)
  case False
  then obtain vs xs where "v = ArrayVal vs" "\<forall>v \<in> set vs. has_ty v e" "u = ArrayVal xs"
    using assms(1,2) by (auto simp: seq_of_def has_ty_cases)
  then show ?thesis using assms(3) False by (simp add: seq_of_def subset_iff)
qed (use assms in \<open>auto simp: seq_of_def has_ty_cases\<close>)

text \<open>The targets hold typed values and every slice selects a sequence of its width in one of them.\<close>

definition slots_typed :: "bool \<Rightarrow> ty \<Rightarrow> value_pointer \<Rightarrow> sim_value list \<Rightarrow> bool" where
  "slots_typed k e p into \<longleftrightarrow> list_all2 (\<lambda>s v. swidth s \<noteq> 0 \<and>
     (\<exists>t. has_ty v t \<and> path_ty (select s) t = Some (seq_of k e (swidth s)))) p into"

lemma write_from:
  assumes "has_ty v (seq_of k e n)" "of_kind k v" "slots_typed k e p into" "off + ptr_width p = n" "length (cells v) = n"
  shows "\<exists>new. foldM (\<lambda>(i, off, s) into.
         do { sub \<leftarrow> subvalue v off (swidth s); x \<leftarrow> idx into i; y \<leftarrow> write_pointer_slice s x sub; idx_set into i y })
       (enumerate (length pre) (offset_slices_from off p)) (pre @ into) = Some (pre @ new) \<and> length new = length into \<and>
     (\<forall>c. list_all2 (\<lambda>s v. read_pointer_target c (target s) = Some v) p new \<longrightarrow> ptr_cells c k p (drop off (cells v)))"
  using assms(3,4)
proof (induction p arbitrary: off pre into)
  case Nil
  then show ?case using assms(5) by (auto simp: slots_typed_def ptr_width_def)
next
  case (Cons s p)
  obtain x rest where into: "into = x # rest" "slots_typed k e p rest" "swidth s \<noteq> 0"
    and xt: "\<exists>t. has_ty x t \<and> path_ty (select s) t = Some (seq_of k e (swidth s))"
    using Cons.prems(1) by (auto simp: slots_typed_def list_all2_Cons1)
  obtain t where t: "has_ty x t" "path_ty (select s) t = Some (seq_of k e (swidth s))" using xt by blast
  have fit: "off + swidth s \<le> length (cells v)" "off + swidth s + ptr_width p = n"
    using Cons.prems(2) assms(5) by (simp_all add: ptr_width_def)
  obtain u where u: "subvalue v off (swidth s) = Some u" "of_kind k u" "cells u = take (swidth s) (drop off (cells v))"
    using subvalue_cells[OF assms(2) fit(1) into(3)] by blast
  have lu: "length (cells u) = swidth s" using u(3) fit(1) by simp
  have "has_ty u (seq_of k e (swidth s))"
    using seq_of_has_ty[OF assms(1) u(2)] u(3) lu by (auto dest: in_set_takeD in_set_dropD)
  from write_path[OF t(2,1) this] obtain y where y: "write_pointer_select (select s) x u = Some y"
    "foldM read_select (select s) y = Some u" unfolding path_writes_def by blast
  obtain new where new: "foldM (\<lambda>(i, off, s) into.
         do { sub \<leftarrow> subvalue v off (swidth s); x \<leftarrow> idx into i; y \<leftarrow> write_pointer_slice s x sub; idx_set into i y })
       (enumerate (length (pre @ [y])) (offset_slices_from (off + swidth s) p)) ((pre @ [y]) @ rest) = Some ((pre @ [y]) @ new)"
    "length new = length rest"
    "\<forall>c. list_all2 (\<lambda>s v. read_pointer_target c (target s) = Some v) p new \<longrightarrow> ptr_cells c k p (drop (off + swidth s) (cells v))"
    using Cons.IH[OF into(2) fit(2), of "pre @ [y]"] by blast
  have "ptr_cells c k (s # p) (drop off (cells v))"
    if c: "list_all2 (\<lambda>s v. read_pointer_target c (target s) = Some v) (s # p) (y # new)" for c
  proof -
    have "slice_cells c k s (cells u)" using c y(2) u(2) lu by (auto simp: slice_cells_def read_pointer_slice_def)
    moreover have "drop off (cells v) = cells u @ drop (off + swidth s) (cells v)"
      unfolding u(3) by (metis append_take_drop_id drop_drop add.commute)
    ultimately show ?thesis using c new(3) by auto
  qed
  then show ?case
    using new(1,2) u(1) y(1) into(1)
    by (intro exI[of _ "y # new"]) (simp add: write_pointer_slice_def idx_def idx_set_def nth_append list_update_append)
qed

lemma write_then_read:
  assumes "has_ty v (seq_of k e (ptr_width p))" "slots_typed k e p into"
  shows "\<exists>new. write_pointer p into v = Some new \<and> length new = length into \<and>
    (\<forall>c. list_all2 (\<lambda>s v. read_pointer_target c (target s) = Some v) p new \<longrightarrow>
       read_pointer c (seq_of k e (ptr_width p)) p = Some v)"
proof -
  have k: "of_kind k v" "length (cells v) = ptr_width p"
    using assms(1) by (cases k; auto simp: seq_of_def has_ty_cases)+
  obtain new where new: "write_pointer p into v = Some new" "length new = length into"
    "\<And>c. list_all2 (\<lambda>s v. read_pointer_target c (target s) = Some v) p new \<Longrightarrow> ptr_cells c k p (cells v)"
    using write_from[OF assms(1) k(1) assms(2) _ k(2), of 0 "[]"] by (auto simp: write_pointer_def offset_slices_def)
  have "read_pointer c (seq_of k e (ptr_width p)) p = Some v"
    if "list_all2 (\<lambda>s v. read_pointer_target c (target s) = Some v) p new" for c
  proof -
    have "seq_ty k (length (cells v)) (seq_of k e (ptr_width p))" using k(2) by (auto simp: seq_ty_def seq_of_def)
    from read_pointer_cells[OF new(3)[OF that] this] obtain w where
      "read_pointer c (seq_of k e (ptr_width p)) p = Some w" "of_kind k w" "cells w = cells v" by blast
    then show ?thesis using cells_inject[OF _ k(1)] by simp
  qed
  then show ?thesis using new(1,2) by blast
qed

end
