(* ===== verification/SimEngine.thy ===== *)
theory SimEngine
  imports SimPointers
begin

text \<open>
  The simulation engine (\<^verbatim>\<open>src/src/bin/llhd-sim/engine.rs\<close>): the execution of one
  instruction, the steps of a process and of an entity, and the event loop. The serial mode
  is modelled; logging, the tracer (an observer of the state) and the terminal output are left
  out. A loop that may not end is a \<open>partial_function\<close>, whose \<open>None\<close> is a panic or an endless loop.
\<close>

section \<open>Executing an instruction\<close>

datatype action =
    ActNone
  | ActValue value_slot
  | ActStore value_pointer sim_value
  | ActEvent event
  | ActJump nat
  | ActSuspend "nat option" instance_state

definition const_slot :: "sim_value \<Rightarrow> action" where
  "const_slot v = ActValue (SlotConst v)"

definition arg_at :: "inst_data \<Rightarrow> nat \<Rightarrow> nat option" where
  "arg_at d k = idx (args d) k"

text \<open>The operand and the result of the pointer instructions depend on the kind of the result type.\<close>

definition resolve_by_type :: "inst_context \<Rightarrow> ty \<Rightarrow> nat \<Rightarrow> value_pointer option" where
  "resolve_by_type c t v =
     (if ty_is_pointer t then resolve_variable_pointer c v
      else if ty_is_signal t then resolve_signal_pointer c v
      else resolve_value_pointer c v)"

definition result_by_type :: "inst_context \<Rightarrow> ty \<Rightarrow> value_pointer \<Rightarrow> action option" where
  "result_by_type c t p =
     (if ty_is_pointer t then Some (ActValue (SlotVariablePointer p))
      else if ty_is_signal t then Some (ActValue (SlotSignalPointer p))
      else map_option const_slot (read_pointer c t p))"

definition exec_constant :: "inst_data \<Rightarrow> ty \<Rightarrow> action option" where
  "exec_constant d t =
     (if opcode_of d = OpConstInt then
        do { w \<leftarrow> ty_unwrap_int t; k \<leftarrow> inst_const_int d; v \<leftarrow> si_from_signed w (int (ivalue k)); Some (const_slot (IntVal v)) }
      else do { k \<leftarrow> inst_const_time d; Some (const_slot (TimeVal k)) })"

definition exec_aggregate :: "inst_context \<Rightarrow> inst_data \<Rightarrow> action option" where
  "exec_aggregate c d =
     (if opcode_of d = OpArrayUniform then
        do { n \<leftarrow> idx (imms d) 0; a \<leftarrow> arg_at d 0; v \<leftarrow> resolve_value c a; Some (const_slot (ArrayVal (sa_new_uniform n v))) }
      else do { vs \<leftarrow> mapM (resolve_value c) (args d);
                Some (const_slot (if opcode_of d = OpArray then ArrayVal vs else StructVal vs)) })"

definition exec_branch :: "inst_context \<Rightarrow> inst_data \<Rightarrow> action option" where
  "exec_branch c d =
     (if opcode_of d = OpBr then map_option ActJump (idx (inst_blocks d) 0)
      else do { a \<leftarrow> arg_at d 0; cond \<leftarrow> resolve_value c a;
                map_option ActJump (idx (inst_blocks d) (if sv_is_zero cond then 0 else 1)) })"

definition exec_wait :: "inst_context \<Rightarrow> inst_data \<Rightarrow> action option" where
  "exec_wait c d =
     (if opcode_of d = OpWait then
        do { sigs \<leftarrow> mapM (resolve_signal c) (args d); b \<leftarrow> idx (inst_blocks d) 0;
             Some (ActSuspend (Some b) (Wait None sigs)) }
      else
        do { a \<leftarrow> arg_at d 0; delay \<leftarrow> resolve_delay c a; sigs \<leftarrow> mapM (resolve_signal c) (drop 1 (args d));
             b \<leftarrow> idx (inst_blocks d) 0; Some (ActSuspend (Some b) (Wait (Some (time_after_delay c delay)) sigs)) })"

definition exec_memory :: "inst_context \<Rightarrow> inst_data \<Rightarrow> ty \<Rightarrow> action option" where
  "exec_memory c d t =
     (if opcode_of d = OpVar then
        do { a \<leftarrow> arg_at d 0; v \<leftarrow> resolve_value c a; Some (ActValue (SlotVariable v)) }
      else if opcode_of d = OpLd then
        do { a \<leftarrow> arg_at d 0; p \<leftarrow> resolve_variable_pointer c a; v \<leftarrow> read_pointer c t p; Some (const_slot v) }
      else
        do { a \<leftarrow> arg_at d 0; p \<leftarrow> resolve_variable_pointer c a; b \<leftarrow> arg_at d 1; v \<leftarrow> resolve_value c b; Some (ActStore p v) })"

definition exec_signal :: "inst_context \<Rightarrow> inst_data \<Rightarrow> ty \<Rightarrow> action option" where
  "exec_signal c d t =
     (if opcode_of d = OpSig then Some ActNone
      else if opcode_of d = OpPrb then
        do { a \<leftarrow> arg_at d 0; p \<leftarrow> resolve_signal_pointer c a; v \<leftarrow> read_pointer c t p; Some (const_slot v) }
      else
        do { e \<leftarrow> arg_at d 2; delay \<leftarrow> resolve_delay c e; a \<leftarrow> arg_at d 0; p \<leftarrow> resolve_signal_pointer c a;
             b \<leftarrow> arg_at d 1; v \<leftarrow> resolve_value c b;
             Some (ActEvent \<lparr>ev_time = time_after_delay c delay, ev_signal = p, ev_value = v\<rparr>) })"

definition exec_unary :: "inst_context \<Rightarrow> inst_data \<Rightarrow> ty \<Rightarrow> action option" where
  "exec_unary c d t =
     do { ensure (ty_is_int t);
          a \<leftarrow> arg_at d 0; v \<leftarrow> resolve_value c a; x \<leftarrow> sv_get_int v; y \<leftarrow> si_unary_op (opcode_of d) x;
          Some (const_slot (IntVal y)) }"

text \<open>Binary operators and comparisons have the same shape; \<open>f\<close> is the operation.\<close>

definition exec_binary :: "(opcode \<Rightarrow> sim_int \<Rightarrow> sim_int \<Rightarrow> sim_int option) \<Rightarrow> inst_context \<Rightarrow> inst_data \<Rightarrow> ty \<Rightarrow> action option" where
  "exec_binary f c d t =
     do { ensure (ty_is_int t);
          a \<leftarrow> arg_at d 0; v \<leftarrow> resolve_value c a; b \<leftarrow> arg_at d 1; w \<leftarrow> resolve_value c b;
          x \<leftarrow> sv_get_int v; y \<leftarrow> sv_get_int w; z \<leftarrow> f (opcode_of d) x y; Some (const_slot (IntVal z)) }"

definition exec_shift_inst :: "inst_context \<Rightarrow> inst_data \<Rightarrow> ty \<Rightarrow> action option" where
  "exec_shift_inst c d t =
     do { a \<leftarrow> arg_at d 0; base \<leftarrow> resolve_by_type c t a; b \<leftarrow> arg_at d 1; hidden \<leftarrow> resolve_by_type c t b;
          e \<leftarrow> arg_at d 2; amount \<leftarrow> resolve_value c e;
          p \<leftarrow> exec_shift (opcode_of d) base hidden amount; result_by_type c t p }"

definition exec_insert :: "inst_context \<Rightarrow> inst_data \<Rightarrow> action option" where
  "exec_insert c d =
     do { a \<leftarrow> arg_at d 0; tgt \<leftarrow> resolve_value_pointer c a; target_ty \<leftarrow> value_type (dfg (cunit c)) a;
          b \<leftarrow> arg_at d 1; v \<leftarrow> resolve_value c b; p \<leftarrow> exec_insext (opcode_of d) target_ty tgt (imms d);
          old \<leftarrow> resolve_value c a; results \<leftarrow> write_pointer p [old] v; r \<leftarrow> idx results 0; Some (const_slot r) }"

definition exec_extract :: "inst_context \<Rightarrow> inst_data \<Rightarrow> ty \<Rightarrow> action option" where
  "exec_extract c d t =
     do { a \<leftarrow> arg_at d 0; tgt \<leftarrow> resolve_by_type c t a; target_ty \<leftarrow> value_type (dfg (cunit c)) a;
          p \<leftarrow> exec_insext (opcode_of d) target_ty tgt (imms d); result_by_type c t p }"

definition exec_mux :: "inst_context \<Rightarrow> inst_data \<Rightarrow> action option" where
  "exec_mux c d =
     do { a \<leftarrow> arg_at d 0; ways \<leftarrow> resolve_value c a; b \<leftarrow> arg_at d 1; index \<leftarrow> resolve_value c b;
          vs \<leftarrow> sv_get_array ways; x \<leftarrow> sv_get_int index; n \<leftarrow> si_to_usize x;
          ensure (vs \<noteq> []);
          v \<leftarrow> sa_extract_field vs (min (length vs - 1) n); Some (const_slot v) }"

definition sim_binary_ops :: "opcode set" where
  "sim_binary_ops = {OpAdd, OpSub, OpAnd, OpOr, OpXor, OpSmul, OpSdiv, OpSmod, OpSrem, OpUmul, OpUdiv, OpUmod, OpUrem}"

definition sim_compare_ops :: "opcode set" where
  "sim_compare_ops = {OpEq, OpNeq, OpSlt, OpSgt, OpSle, OpSge, OpUlt, OpUgt, OpUle, OpUge}"

definition exec :: "inst_context \<Rightarrow> nat \<Rightarrow> action option" where
  "exec c inst =
     do { d \<leftarrow> pt2_index (dinsts (dfg (cunit c))) inst;
          t \<leftarrow> inst_type (dfg (cunit c)) inst;
          let op = opcode_of d in
          if op \<in> {OpConstInt, OpConstTime} then exec_constant d t
          else if op \<in> {OpArrayUniform, OpArray, OpStruct} then exec_aggregate c d
          else if op = OpAlias then do { a \<leftarrow> arg_at d 0; v \<leftarrow> resolve_value c a; Some (const_slot v) }
          else if op \<in> {OpBr, OpBrCond} then exec_branch c d
          else if op \<in> {OpWait, OpWaitTime} then exec_wait c d
          else if op \<in> {OpVar, OpLd, OpSt} then exec_memory c d t
          else if op \<in> {OpSig, OpPrb, OpDrv} then exec_signal c d t
          else if op \<in> {OpNot, OpNeg} then exec_unary c d t
          else if op \<in> sim_binary_ops then exec_binary si_binary_op c d t
          else if op \<in> sim_compare_ops then exec_binary si_compare_op c d t
          else if op \<in> {OpShl, OpShr} then exec_shift_inst c d t
          else if op \<in> {OpInsField, OpInsSlice} then exec_insert c d
          else if op \<in> {OpExtField, OpExtSlice} then exec_extract c d t
          else if op = OpMux then exec_mux c d
          else if op = OpInst then Some ActNone
          else if op = OpHalt then
            Some (if ukind (cunit c) = EntityUnit then ActNone else ActSuspend None Done)
          else None }"

section \<open>Processes\<close>

text \<open>Write a value through a pointer to variables of the instance, the targets in order.\<close>

definition store_variables :: "value_pointer \<Rightarrow> sim_value \<Rightarrow> instance_data \<Rightarrow> instance_data option" where
  "store_variables p v i =
     do { vars \<leftarrow> mapM (unwrap_variable \<circ> target) p;
          modified \<leftarrow> mapM (\<lambda>x. do { s \<leftarrow> instance_value x i; case s of SlotVariable k \<Rightarrow> Some k | _ \<Rightarrow> None }) vars;
          modified \<leftarrow> write_pointer p modified v;
          Some (fold (\<lambda>(x, m). instance_set_value x (SlotVariable m)) (zip vars modified) i) }"

datatype flow = FlowEnd | FlowJump nat | FlowReturn

definition context_of :: "unit_data \<Rightarrow> signal list \<Rightarrow> time_value \<Rightarrow> instance_data \<Rightarrow> inst_context" where
  "context_of u sigs t i = \<lparr>cunit = u, cvalues = ivalues i, csignals = sigs, ctime = t\<rparr>"

fun run_insts :: "unit_data \<Rightarrow> signal list \<Rightarrow> time_value \<Rightarrow> nat list \<Rightarrow> instance_data \<Rightarrow> event list \<Rightarrow>
    (instance_data \<times> event list \<times> flow) option" where
  "run_insts u sigs t [] i evs = Some (i, evs, FlowEnd)"
| "run_insts u sigs t (inst # is) i evs =
     do { act \<leftarrow> exec (context_of u sigs t i) inst;
          case act of
            ActNone \<Rightarrow> run_insts u sigs t is i evs
          | ActValue vs \<Rightarrow> do { v \<leftarrow> inst_result (dfg u) inst; run_insts u sigs t is (instance_set_value v vs i) evs }
          | ActStore p v \<Rightarrow> do { i \<leftarrow> store_variables p v i; run_insts u sigs t is i evs }
          | ActEvent e \<Rightarrow> run_insts u sigs t is i (evs @ [e])
          | ActJump b \<Rightarrow> Some (i, evs, FlowJump b)
          | ActSuspend b st \<Rightarrow>
              (case ikind i of Process p _ \<Rightarrow> Some (i\<lparr>istate := st, ikind := Process p b\<rparr>, evs, FlowReturn)
               | Entity _ \<Rightarrow> None) }"

text \<open>Running out of blocks panics, so an absent block is \<open>None\<close> at once.\<close>

partial_function (option) step_process :: "unit_data \<Rightarrow> signal list \<Rightarrow> time_value \<Rightarrow> nat option \<Rightarrow> instance_data \<Rightarrow> event list \<Rightarrow>
    (instance_data \<times> event list) option" where
  "step_process u sigs t block i evs =
     (case block of None \<Rightarrow> None
      | Some b \<Rightarrow>
          Option.bind (block_insts (layout u) b) (\<lambda>is.
          Option.bind (run_insts u sigs t is i evs) (\<lambda>(i, evs, flow).
            case flow of FlowEnd \<Rightarrow> step_process u sigs t None i evs
            | FlowJump b \<Rightarrow> step_process u sigs t (Some b) i evs
            | FlowReturn \<Rightarrow> Some (i, evs))))"

section \<open>Entities\<close>

definition push_dirty :: "nat \<Rightarrow> nat list \<times> nat set \<Rightarrow> nat list \<times> nat set" where
  "push_dirty inst = (\<lambda>(dirty, dset). if inst \<in> dset then (dirty, dset) else (dirty @ [inst], insert inst dset))"

text \<open>The instructions that use a changed signal, but those that only drive or instantiate.\<close>

definition push_triggered :: "data_flow_graph \<Rightarrow> nat \<Rightarrow> nat list \<times> nat set \<Rightarrow> (nat list \<times> nat set) option" where
  "push_triggered g inst q =
     do { d \<leftarrow> pt2_index (dinsts g) inst;
          Some (if opcode_of d \<in> {OpDrv, OpInst, OpSig} then q else push_dirty inst q) }"

definition collect_dirty :: "(nat set \<Rightarrow> nat list) \<Rightarrow> unit_data \<Rightarrow> nat set \<Rightarrow> bool \<Rightarrow> instance_data \<Rightarrow> (nat list \<times> nat set) option" where
  "collect_dirty ord u changed first i =
     (if first then do { is \<leftarrow> all_insts (layout u); Some (is, set is) }
      else foldM (\<lambda>sig q.
          do { v \<leftarrow> isignal_values i sig; us \<leftarrow> uses (dfg u) v; foldM (push_triggered (dfg u)) (ord us) q })
        (filter (\<lambda>s. s \<in> changed) (isignals i)) ([], {}))"

definition slot_changed :: "value_slot option \<Rightarrow> value_slot \<Rightarrow> bool" where
  "slot_changed old new = (case old of None \<Rightarrow> True | Some (SlotConst k) \<Rightarrow> SlotConst k \<noteq> new | Some _ \<Rightarrow> True)"

partial_function (option) work_dirty :: "(nat set \<Rightarrow> nat list) \<Rightarrow> unit_data \<Rightarrow> signal list \<Rightarrow> time_value \<Rightarrow>
    nat list \<Rightarrow> nat set \<Rightarrow> instance_data \<Rightarrow> event list \<Rightarrow> (instance_data \<times> event list) option" where
  "work_dirty ord u sigs t dirty dset i evs =
     (case dirty of [] \<Rightarrow> Some (i, evs)
      | inst # dirty \<Rightarrow>
          Option.bind (exec (context_of u sigs t i) inst) (\<lambda>act. case act of
              ActNone \<Rightarrow> work_dirty ord u sigs t dirty (dset - {inst}) i evs
            | ActValue new \<Rightarrow>
                Option.bind (inst_result (dfg u) inst) (\<lambda>v.
                let changed = slot_changed (ivalues i v) new; i = instance_set_value v new i in
                if changed then
                  Option.bind (uses (dfg u) v) (\<lambda>us.
                  let (dirty, dset) = fold push_dirty (ord us) (dirty, dset - {inst}) in
                  work_dirty ord u sigs t dirty dset i evs)
                else work_dirty ord u sigs t dirty (dset - {inst}) i evs)
            | ActEvent e \<Rightarrow> work_dirty ord u sigs t dirty (dset - {inst}) i (evs @ [e])
            | ActStore _ _ \<Rightarrow> None | ActJump _ \<Rightarrow> None | ActSuspend _ _ \<Rightarrow> None))"

definition step_entity :: "(nat set \<Rightarrow> nat list) \<Rightarrow> unit_data \<Rightarrow> signal list \<Rightarrow> time_value \<Rightarrow> nat set \<Rightarrow> bool \<Rightarrow>
    instance_data \<Rightarrow> (instance_data \<times> event list) option" where
  "step_entity ord u sigs t changed first i =
     do { (dirty, dset) \<leftarrow> collect_dirty ord u changed first i;
          (i, evs) \<leftarrow> work_dirty ord u sigs t dirty dset i [];
          Some (i\<lparr>istate := Wait None (isignals i)\<rparr>, evs) }"

definition step_instance :: "(nat set \<Rightarrow> nat list) \<Rightarrow> signal list \<Rightarrow> time_value \<Rightarrow> nat set \<Rightarrow> bool \<Rightarrow>
    instance_data \<Rightarrow> (instance_data \<times> event list) option" where
  "step_instance ord sigs t changed first i =
     (case ikind i of
        Process u b \<Rightarrow> step_process u sigs t b i []
      | Entity u \<Rightarrow> step_entity ord u sigs t changed first i)"

section \<open>The event loop\<close>

text \<open>Store a new value of a signal and note it when it changed.\<close>

definition update_signal :: "nat \<times> sim_value \<times> sim_value \<Rightarrow> sim_state \<times> nat set \<Rightarrow> (sim_state \<times> nat set) option" where
  "update_signal = (\<lambda>(sig, modified, old) (st, changed).
     do { s \<leftarrow> idx (signals st) sig;
          let (differs, s) = signal_set_value modified s;
          Some (st\<lparr>signals := (signals st)[sig := s]\<rparr>,
                if differs \<and> modified \<noteq> old then insert sig changed else changed) })"

definition apply_event :: "value_pointer \<times> sim_value \<Rightarrow> sim_state \<times> nat set \<Rightarrow> (sim_state \<times> nat set) option" where
  "apply_event = (\<lambda>(p, v) (st, changed).
     do { sigs \<leftarrow> mapM (unwrap_signal \<circ> target) p;
          old \<leftarrow> mapM (\<lambda>s. map_option sig_value (idx (signals st) s)) sigs;
          modified \<leftarrow> write_pointer p old v;
          foldM update_signal (zip sigs (zip modified old)) (st, changed) })"

definition wake_timed :: "nat \<Rightarrow> sim_state \<Rightarrow> sim_state option" where
  "wake_timed k st =
     do { i \<leftarrow> idx (instances st) k; Some (st\<lparr>instances := (instances st)[k := i\<lparr>istate := Ready\<rparr>]\<rparr>) }"

definition wake_sensitive :: "nat set \<Rightarrow> instance_data \<Rightarrow> instance_data" where
  "wake_sensitive changed i = (case istate i of
     Wait _ sigs \<Rightarrow> if \<exists>s \<in> set sigs. s \<in> changed then i\<lparr>istate := Ready\<rparr> else i
   | _ \<Rightarrow> i)"

definition ready_insts :: "sim_state \<Rightarrow> nat list" where
  "ready_insts st = filter (\<lambda>k. istate (instances st ! k) = Ready) [0..<length (instances st)]"

definition step_ready :: "(nat set \<Rightarrow> nat list) \<Rightarrow> nat set \<Rightarrow> bool \<Rightarrow> nat \<Rightarrow> sim_state \<times> event list \<Rightarrow> (sim_state \<times> event list) option" where
  "step_ready ord changed first k = (\<lambda>(st, evs).
     do { i \<leftarrow> idx (instances st) k;
          (i, es) \<leftarrow> step_instance ord (signals st) (now st) changed first i;
          Some (st\<lparr>instances := (instances st)[k := i]\<rparr>, evs @ es) })"

definition timed_wait :: "sim_state \<Rightarrow> nat \<Rightarrow> timed_instance list" where
  "timed_wait st k = (case istate (instances st ! k) of
     Wait (Some t) _ \<Rightarrow> [\<lparr>ti_time = t, ti_inst = k\<rparr>] | _ \<Rightarrow> [])"

text \<open>
  One step at the current time; \<open>first\<close> says whether it is the first one. \<open>pord\<close> and \<open>ord\<close> are
  the orders of the hash tables. The first half applies the events, wakes and runs the
  instances, the second half schedules what they produced and advances the time; the flag
  of the result says whether there is something left to do.
\<close>

definition engine_execute :: "(value_pointer set \<Rightarrow> value_pointer list) \<Rightarrow> (nat set \<Rightarrow> nat list) \<Rightarrow> bool \<Rightarrow> sim_state \<Rightarrow>
    (sim_state \<times> event list \<times> nat list) option" where
  "engine_execute pord ord first st =
     do { let (evs, st) = take_next_events pord st;
          (st, changed) \<leftarrow> foldM apply_event evs (st, {});
          let (woken, st) = take_next_timed ord st;
          st \<leftarrow> foldM wake_timed woken st;
          let st = st\<lparr>instances := map (wake_sensitive changed) (instances st)\<rparr>;
          let ready = ready_insts st;
          (st, evs) \<leftarrow> foldM (step_ready ord changed first) ready (st, []);
          Some (st, evs, ready) }"

definition engine_schedule :: "event list \<Rightarrow> nat list \<Rightarrow> sim_state \<Rightarrow> (bool \<times> sim_state) option" where
  "engine_schedule evs ready st =
     do { st \<leftarrow> schedule_events evs st;
          st \<leftarrow> schedule_timed (concat (map (timed_wait st) ready)) st;
          Some (case next_time st of Some t \<Rightarrow> (True, st\<lparr>now := t\<rparr>) | None \<Rightarrow> (False, st)) }"

definition engine_step :: "(value_pointer set \<Rightarrow> value_pointer list) \<Rightarrow> (nat set \<Rightarrow> nat list) \<Rightarrow> bool \<Rightarrow> sim_state \<Rightarrow>
    (bool \<times> sim_state) option" where
  "engine_step pord ord first st =
     do { (st, evs, ready) \<leftarrow> engine_execute pord ord first st; engine_schedule evs ready st }"

text \<open>\<^verbatim>\<open>run\<close>: \<open>step\<close> counts the steps, \<open>until\<close> bounds them.\<close>

partial_function (option) engine_run :: "(value_pointer set \<Rightarrow> value_pointer list) \<Rightarrow> (nat set \<Rightarrow> nat list) \<Rightarrow> nat option \<Rightarrow>
    nat \<Rightarrow> sim_state \<Rightarrow> (nat \<times> sim_state) option" where
  "engine_run pord ord until step st =
     (if (case until of None \<Rightarrow> False | Some n \<Rightarrow> n \<le> step) then Some (step, st)
      else Option.bind (engine_step pord ord (step = 0) st)
        (\<lambda>(more, st). if more then engine_run pord ord until (Suc step) st else Some (Suc step, st)))"

end
