(* ===== verification/SimSound.thy ===== *)
theory SimSound
  imports SimWindows SimEngine TypeSoundness
begin

text \<open>
  The simulator executes every instruction on data to its reference meaning: the values go
  through pointers that are shifted, cut and read back, yet the result is that of \<^verbatim>\<open>eval_inst\<close>.
\<close>

section \<open>Pointers to one whole value\<close>

definition ty_width :: "ty \<Rightarrow> nat" where
  "ty_width t = (case t of IntType w \<Rightarrow> w | ArrayType n _ \<Rightarrow> n | _ \<Rightarrow> 0)"

definition seq_like :: "ty \<Rightarrow> bool" where
  "seq_like t \<longleftrightarrow> (case t of IntType _ \<Rightarrow> True | ArrayType _ _ \<Rightarrow> True | _ \<Rightarrow> False)"

lemma ty_width_simps [simp]: "ty_width (IntType w) = w" "ty_width (ArrayType n e) = n" "ty_width (StructType fs) = 0"
  by (simp_all add: ty_width_def)

lemma seq_like_simps [simp]: "seq_like (IntType w)" "seq_like (ArrayType n e)" "\<not> seq_like (StructType fs)" "\<not> seq_like TimeType"
  by (simp_all add: seq_like_def)

lemma typed_cells:
  assumes "has_ty v t" "seq_like t"
  shows "of_kind (ty_is_int t) v" "length (cells v) = ty_width t" "seq_ty (ty_is_int t) (ty_width t) t"
  using assms by (cases t; auto simp: has_ty_cases seq_like_def seq_ty_def)+

lemma read_pointer_value:
  assumes "ptr_cells c (ty_is_int t) p (cells v)" "has_ty v t" "seq_like t"
  shows "read_pointer c t p = Some v"
proof -
  note v = typed_cells[OF assms(2,3)]
  obtain w where "read_pointer c t p = Some w" "of_kind (ty_is_int t) w" "cells w = cells v"
    using read_pointer_cells[OF assms(1)] v by auto
  then show ?thesis using cells_inject v(1) by metis
qed

lemma read_slice_value:
  assumes "read_pointer_slice c s = Some v" "has_ty v t" "data_ty t" "seq_like t \<longrightarrow> swidth s = ty_width t"
  shows "read_pointer c t [s] = Some v"
proof (cases "seq_like t")
  case True
  have "slice_cells c (ty_is_int t) s (cells v)"
    unfolding slice_cells_def using assms(1,4) typed_cells[OF assms(2) True] True by auto
  then show ?thesis using read_pointer_value[OF _ assms(2) True] by simp
next
  case False
  then show ?thesis using assms(1,3) by (cases t) (simp_all add: read_pointer_def seq_like_def)
qed

lemma subvalue_whole:
  assumes "has_ty v t" "data_ty t"
  shows "subvalue v 0 (ty_width t) = Some v"
  using assms by (cases t) (auto simp: subvalue_def has_ty_cases extract_whole array_extract_slice_def slice_def ty_width_def)

text \<open>Writing through a pointer of at most one slice.\<close>

lemma write_one:
  assumes "has_ty v u" "data_ty u" "swidth s = ty_width u"
  shows "write_pointer [s] [old] v = map_option (\<lambda>r. [r]) (write_pointer_select (select s) old v)"
  using subvalue_whole[OF assms(1,2)] assms(3)
  by (cases "write_pointer_select (select s) old v")
    (simp_all add: write_pointer_def offset_slices_def idx_def idx_set_def write_pointer_slice_def)

lemma write_none: "write_pointer [] [old] v = Some [old]"
  by (simp add: write_pointer_def offset_slices_def)

section \<open>Operands\<close>

text \<open>The context holds the values of the operands.\<close>

definition sees :: "inst_context \<Rightarrow> (nat \<Rightarrow> val) \<Rightarrow> inst_data \<Rightarrow> bool" where
  "sees c env d \<longleftrightarrow> (\<forall>a \<in> set (args d). resolve_value c a = Some (env a))"

text \<open>
  Where the simulator departs from the reference: the operations it computes through
  \<^verbatim>\<open>to_signed\<close>, \<open>sub\<close> among them, on a negative operand, shifts by more than the length of the base,
  and amounts and selectors that do not fit a \<^verbatim>\<open>usize\<close>.
\<close>

definition sim_safe :: "(nat \<Rightarrow> val) \<Rightarrow> inst_data \<Rightarrow> bool" where
  "sim_safe env d = (case d of
     IBinary op a b \<Rightarrow>
       (if op = OpMux then \<forall>k. env b = IntVal k \<longrightarrow> ivalue k < 2 ^ 64
        else op \<in> to_signed_ops \<longrightarrow> (\<forall>x y. env a = IntVal x \<longrightarrow> env b = IntVal y \<longrightarrow> nonneg x \<and> nonneg y))
   | ITernary op a b e \<Rightarrow> \<forall>k. env e = IntVal k \<longrightarrow> ivalue k < 2 ^ 64 \<and> ivalue k \<le> length (cells (env a))
   | _ \<Rightarrow> True)"

abbreviation types_of :: "inst_context \<Rightarrow> nat \<Rightarrow> ty option" where
  "types_of c \<equiv> value_type (dfg (cunit c))"

lemma operand:
  assumes "operands_ok (types_of c) env d" "sees c env d" "a \<in> set (args d)"
  shows "\<exists>s. types_of c a = Some s \<and> data_ty s \<and> has_ty (env a) s \<and> resolve_value c a = Some (env a)"
  using assms by (auto simp: operands_ok_def sees_def)

lemma data_not_pointer: "data_ty t \<Longrightarrow> \<not> ty_is_pointer t \<and> \<not> ty_is_signal t"
  by (cases t) simp_all

lemma whole_value:
  assumes "types_of c a = Some s" "data_ty s" "resolve_value c a = Some v" "s \<noteq> TimeType"
  shows "resolve_value_pointer c a = Some [\<lparr>target = TgtValue a, select = [], swidth = ty_width s\<rparr>]"
    and "read_pointer_slice c \<lparr>target = TgtValue a, select = [], swidth = w\<rparr> = Some v"
  using assms by (cases s; simp add: resolve_value_pointer_def whole_def pointer_width_def pointer_target_ty_def
      read_pointer_slice_def read_pointer_target_def ty_width_def)+

lemma whole_cells:
  assumes "types_of c a = Some s" "data_ty s" "resolve_value c a = Some v" "seq_like s" "has_ty v s"
  shows "\<exists>p. resolve_value_pointer c a = Some p \<and> ptr_cells c (ty_is_int s) p (cells v)"
proof -
  have s: "s \<noteq> TimeType" using assms(4) by auto
  note w = whole_value[OF assms(1,2,3) s]
  have "slice_cells c (ty_is_int s) \<lparr>target = TgtValue a, select = [], swidth = ty_width s\<rparr> (cells v)"
    unfolding slice_cells_def using w(2) typed_cells[OF assms(5,4)] by auto
  then show ?thesis using w(1) by auto
qed

section \<open>The instructions\<close>

lemma sim_aggregate:
  assumes d: "d = IAggregate op as \<or> d = IArray op n a" and ty: "built G d t" and see: "sees c env d" and ev: "eval_inst env d = Some x"
  shows "exec_aggregate c d = Some (const_slot x)"
proof -
  have m: "mapM (resolve_value c) as = Some (map env as)" if "\<forall>a \<in> set as. resolve_value c a = Some (env a)" for as
    using that by (induction as) auto
  from d show ?thesis
  proof
    assume d: "d = IAggregate op as"
    have "\<forall>a \<in> set as. resolve_value c a = Some (env a)" using see d by (simp add: sees_def args_def)
    then show ?thesis using ev m[of as] unfolding d
      by (auto simp: exec_aggregate_def eval_inst_def opcode_of_def args_def split: if_splits)
  next
    assume "d = IArray op n a"
    then show ?thesis using ev see
      by (auto simp: exec_aggregate_def eval_inst_def opcode_of_def args_def imms_def sees_def arg_at_def idx_def split: if_splits)
  qed
qed

lemma sim_binary:
  assumes d: "d = IBinary op a b" and op: "op \<noteq> OpMux" and ok: "operands_ok (types_of c) env d" "sees c env d"
    and t: "ty_is_int t" and safe: "sim_safe env d" and ev: "eval_inst env d = Some x"
  shows "op \<in> sim_binary_ops \<and> exec_binary si_binary_op c d t = Some (const_slot x) \<or>
    op \<in> sim_compare_ops \<and> exec_binary si_compare_op c d t = Some (const_slot x)"
proof -
  obtain y y' z where e: "env a = IntVal y" "env b = IntVal y'" "eval_binary op y y' = Some z" "x = IntVal z"
    using ev op unfolding d by (cases "env a"; cases "env b") (auto simp: eval_inst_def bind_Some_iff)
  have r: "resolve_value c a = Some (IntVal y)" "resolve_value c b = Some (IntVal y')" "iv_wf y" "iv_wf y'"
    using operand[OF ok, of a] operand[OF ok, of b] e(1,2) unfolding d by (auto simp: args_def elim: has_ty.elims)
  have s: "op \<notin> to_signed_ops \<or> nonneg y \<and> nonneg y'" using safe e(1,2) op unfolding d by (auto simp: sim_safe_def)
  note si = si_binary[OF s r(3,4)] si_compare[OF s r(3,4)]
  have ex: "exec_binary f c d t = Some (const_slot x)" if "f op y y' = Some z" for f
    using that r(1,2) t e(4) unfolding d by (simp add: exec_binary_def opcode_of_def arg_at_def args_def idx_def)
  from e(3) consider "op \<in> arith_ops" "binary_op op y y' = Some z" | "op \<in> compare_ops" "compare_op op y y' = Some z"
    by (cases op) (auto simp: eval_binary_def binary_op_def try_binary_op_def compare_op_def try_compare_op_def op_sets panic_simps split: option.splits)
  then show ?thesis
  proof cases
    case 1
    moreover have "op \<in> sim_binary_ops" using 1(1) by (auto simp: sim_binary_ops_def op_sets)
    ultimately show ?thesis using ex[of si_binary_op] si(1) by simp
  next
    case 2
    moreover have "op \<in> sim_compare_ops" using 2(1) by (auto simp: sim_compare_ops_def op_sets)
    ultimately show ?thesis using ex[of si_compare_op] si(2) by simp
  qed
qed

lemma sim_mux:
  assumes d: "d = IBinary OpMux a b" and ok: "operands_ok (types_of c) env d" "sees c env d"
    and safe: "sim_safe env d" and ev: "eval_inst env d = Some x"
  shows "exec_mux c d = Some (const_slot x)"
proof -
  obtain vs k where v: "env a = ArrayVal vs" "env b = IntVal k" "ivalue k < length vs" "x = vs ! ivalue k"
    using ev unfolding d by (cases "env a"; cases "env b") (auto simp: eval_inst_def eval_mux_def array_extract_field_def panic_simps)
  have "ivalue k < 2 ^ 64" using safe v(2) unfolding d by (simp add: sim_safe_def)
  moreover have "vs \<noteq> []" using v(3) by auto
  ultimately show ?thesis
    using v ok(2) unfolding d
    by (auto simp: exec_mux_def sees_def args_def arg_at_def idx_def to_usize_def array_extract_field_def min_absorb2 ensure_def)
qed

section \<open>Shifts\<close>

lemma bit_glue:
  assumes "(a :: nat) < 2 ^ w"
  shows "bit (a + push_bit w b) i \<longleftrightarrow> (if i < w then bit a i else bit b (i - w))"
proof -
  have d: "drop_bit w (a + push_bit w b) = b" "take_bit w (a + push_bit w b) = a"
    using assms by (simp_all add: drop_bit_eq_div take_bit_eq_mod push_bit_eq_mult)
  show ?thesis
  proof (cases "i < w")
    case True
    then have "bit (a + push_bit w b) i \<longleftrightarrow> bit (take_bit w (a + push_bit w b)) i" by (simp add: bit_take_bit_iff)
    then show ?thesis using d(2) True by simp
  next
    case False
    then have "bit (a + push_bit w b) i \<longleftrightarrow> bit (drop_bit w (a + push_bit w b)) (i - w)" by (simp add: bit_drop_bit_eq)
    then show ?thesis using d(1) False by simp
  qed
qed

definition glue :: "int_value \<Rightarrow> int_value \<Rightarrow> int_value" where
  "glue lo hi = IntValue (width lo + width hi) (ivalue lo + push_bit (width lo) (ivalue hi))"

lemma cells_glue:
  assumes "iv_wf lo" "iv_wf hi"
  shows "cells (IntVal (glue lo hi)) = cells (IntVal lo) @ cells (IntVal hi)"
proof (rule nth_equalityI)
  fix i assume "i < length (cells (IntVal (glue lo hi)))"
  then have i: "i < width lo + width hi" by (simp add: glue_def)
  have "bit (ivalue (glue lo hi)) i \<longleftrightarrow> (if i < width lo then bit (ivalue lo) i else bit (ivalue hi) (i - width lo))"
    using bit_glue assms(1) by (simp add: glue_def iv_wf_def)
  then show "cells (IntVal (glue lo hi)) ! i = (cells (IntVal lo) @ cells (IntVal hi)) ! i"
    using i by (cases "i < width lo") (simp_all add: nth_append cell_nth glue_def bit_eq_extract del: One_nat_def)
qed (simp add: glue_def)

lemma eval_shift_cells:
  assumes "eval_shift l base hidden (IntVal k) = Some x" "of_kind b base" "of_kind b hidden"
  shows "ivalue k \<le> length (cells hidden) \<and> of_kind b x \<and> cells x = take (length (cells base))
    (if l then drop (length (cells hidden) - ivalue k) (cells hidden @ cells base) else drop (ivalue k) (cells base @ cells hidden))"
proof (cases b)
  case True
  then obtain y z where v: "base = IntVal y" "hidden = IntVal z" "iv_wf y" "iv_wf z" using assms(2,3) by auto
  then have k: "ivalue k \<le> width z" and x: "x = IntVal (if l then iv_extract_slice (glue z y) (width z - ivalue k) (width y)
      else iv_extract_slice (glue y z) (ivalue k) (width y))"
    using assms(1) by (auto simp: eval_shift_def shift_int_def iv_extract_slice_def glue_def from_unsigned_def split: if_splits)
  have fit: "width z - ivalue k + width y \<le> width (glue z y)" "ivalue k + width y \<le> width (glue y z)" using k by (simp_all add: glue_def)
  show ?thesis
    using k x v cells_slice[OF fit(1)] cells_slice[OF fit(2)] cells_glue[OF v(4,3)] cells_glue[OF v(3,4)] True by simp
next
  case False
  then obtain ys zs where v: "base = ArrayVal ys" "hidden = ArrayVal zs" using assms(2,3) by auto
  then show ?thesis using assms(1) False by (auto simp: eval_shift_def shift_list_def slice_def split: if_splits)
qed

lemma sim_shift:
  assumes d: "d = ITernary op a b e" and op: "op \<in> {OpShl, OpShr}" and ty: "typed (types_of c) d t"
    and ok: "operands_ok (types_of c) env d" "sees c env d" and safe: "sim_safe env d" and ev: "eval_inst env d = Some x"
  shows "exec_shift_inst c d t = Some (const_slot x)"
proof -
  have tx: "has_ty x t" using pres_ternary[OF d _ ok(1) ev] ty by blast
  obtain h s where g: "types_of c a = Some t" "types_of c b = Some h" "shift_compat t h"
    using ty op unfolding d typed_ITernary by (auto simp: op_sets opcode_of_def)
  have ra: "data_ty t" "has_ty (env a) t" "resolve_value c a = Some (env a)" using operand[OF ok, of a] g d by (auto simp: args_def)
  have rb: "data_ty h" "has_ty (env b) h" "resolve_value c b = Some (env b)" using operand[OF ok, of b] g d by (auto simp: args_def)
  have re: "resolve_value c e = Some (env e)" using operand[OF ok, of e] d by (auto simp: args_def)
  have es: "eval_shift (op = OpShl) (env a) (env b) (env e) = Some x"
    using ev op unfolding d by (auto simp: eval_inst_def)
  then obtain k where k: "env e = IntVal k" "eval_shift (op = OpShl) (env a) (env b) (IntVal k) = Some x"
    by (cases "env e") (auto simp: eval_shift_def)
  have bound: "ivalue k < 2 ^ 64" "ivalue k \<le> length (cells (env a))" using safe k(1) unfolding d by (auto simp: sim_safe_def)
  have like: "seq_like t" "seq_like h" "ty_is_int h = ty_is_int t"
    using g(3) ra(1) rb(1) by (cases t; cases h; auto simp: shift_compat_def flat_compat_def)+
  obtain p q where p: "resolve_value_pointer c a = Some p" "ptr_cells c (ty_is_int t) p (cells (env a))"
    and q: "resolve_value_pointer c b = Some q" "ptr_cells c (ty_is_int t) q (cells (env b))"
    using whole_cells[OF g(1) ra(1,3) like(1) ra(2)] whole_cells[OF g(2) rb(1,3) like(2) rb(2)] like(3) by auto
  note ek = eval_shift_cells[OF k(2), of "ty_is_int t"]
  have kinds: "of_kind (ty_is_int t) (env a)" "of_kind (ty_is_int t) (env b)"
    using typed_cells(1)[OF ra(2) like(1)] typed_cells(1)[OF rb(2) like(2)] like(3) by auto
  have n: "ivalue k = min (length (cells (env b))) (ivalue k)" using ek kinds by simp
  obtain r where r: "exec_shift op p q (IntVal k) = Some r" "ptr_cells c (ty_is_int t) r (cells x)"
    using exec_shift_cells[OF p(2) q(2) bound(1) n bound(2)] op ek kinds by auto
  have "read_pointer c t r = Some x" by (rule read_pointer_value[OF r(2) tx like(1)])
  then show ?thesis
    using p(1) q(1) re k(1) r(1) data_not_pointer[OF ra(1)] unfolding d
    by (simp add: exec_shift_inst_def opcode_of_def arg_at_def args_def idx_def resolve_by_type_def result_by_type_def)
qed

section \<open>Insertions and extractions\<close>

text \<open>The pointer to a field of a whole value.\<close>

lemma field_pointer:
  assumes "ext_field_type i s = Some f" "data_ty s" "has_ty v s" "seq_like s \<longrightarrow> i < ty_width s"
  shows "exec_field s [\<lparr>target = tg, select = [], swidth = ty_width s\<rparr>] i =
    Some [\<lparr>target = tg, select = [SelField i], swidth = ty_width f\<rparr>]"
  using assms(1)
  by (cases rule: field_ty_cases)
    (use assms in \<open>auto simp: exec_field_def offset_slices_def pointer_target_ty_def idx_def ensure_def ty_width_def\<close>)

lemma data_field: "ext_field_type i s = Some f \<Longrightarrow> data_ty s \<Longrightarrow> data_ty f"
  by (erule field_ty_cases) auto

lemma field_in_range:
  assumes "ext_field_type i s = Some f" "has_ty v s" "eval_ext_field v i \<noteq> None \<or> eval_ins_field v w i \<noteq> None"
  shows "seq_like s \<longrightarrow> i < ty_width s"
  using assms(1)
  by (cases rule: field_ty_cases)
    (use assms(2,3) in \<open>auto simp: has_ty_cases eval_ext_field_def eval_ins_field_def panic_simps array_extract_field_def array_insert_field_def\<close>)

lemma sim_ext_field:
  assumes d: "d = IInsExt OpExtField a b i j" and ty: "typed (types_of c) d t"
    and ok: "operands_ok (types_of c) env d" "sees c env d" and ev: "eval_inst env d = Some x"
  shows "exec_extract c d t = Some (const_slot x)"
proof -
  have tx: "has_ty x t" using pres_insext[OF d _ ok(1) ev] ty by blast
  obtain s where s: "types_of c a = Some s" "data_ty s" "has_ty (env a) s" "resolve_value c a = Some (env a)"
    using operand[OF ok, of a] d by (auto simp: args_def)
  have f: "ext_field_type i s = Some t"
    using ty s(1) data_with_unpacked[OF s(2)] unfolding d typed_IInsExt by (auto simp: op_sets opcode_of_def)
  have e: "eval_ext_field (env a) i = Some x" using ev unfolding d by (simp add: eval_inst_def)
  have nt: "s \<noteq> TimeType" and dt: "data_ty t" using f data_field[OF f s(2)] by (auto simp: ext_field_type_def)
  note w = whole_value[OF s(1,2,4) nt]
  have "read_select (SelField i) (env a) = Some x"
    using e by (cases "env a") (auto simp: read_select_def eval_ext_field_def)
  then have "read_pointer_slice c \<lparr>target = TgtValue a, select = [SelField i], swidth = ty_width t\<rparr> = Some x"
    using w(2) by (auto simp: read_pointer_slice_def)
  then have "read_pointer c t [\<lparr>target = TgtValue a, select = [SelField i], swidth = ty_width t\<rparr>] = Some x"
    using read_slice_value[OF _ tx dt] by simp
  then show ?thesis
    using w(1) s(1) field_pointer[OF f s(2,3) field_in_range[OF f s(3)]] e data_not_pointer[OF dt] unfolding d
    by (simp add: exec_extract_def opcode_of_def arg_at_def args_def imms_def idx_def resolve_by_type_def result_by_type_def exec_insext_def)
qed

lemma slice_seq: "slice_in i j s = Some f \<Longrightarrow> seq_like s \<and> seq_like f \<and> ty_is_int f = ty_is_int s \<and> ty_width f = j"
  by (erule slice_ty_cases) auto

lemma sim_ext_slice:
  assumes d: "d = IInsExt OpExtSlice a b i j" and ty: "typed (types_of c) d t"
    and ok: "operands_ok (types_of c) env d" "sees c env d" and ev: "eval_inst env d = Some x" and dt: "data_ty t"
  shows "exec_extract c d t = Some (const_slot x)"
proof -
  have tx: "has_ty x t" using pres_insext[OF d _ ok(1) ev] ty by blast
  obtain s where s: "types_of c a = Some s" "data_ty s" "has_ty (env a) s" "resolve_value c a = Some (env a)"
    using operand[OF ok, of a] d by (auto simp: args_def)
  have f: "slice_in i j s = Some t"
    using ty s(1) data_with_unpacked[OF s(2)] unfolding d typed_IInsExt by (auto simp: op_sets opcode_of_def)
  note like = slice_seq[OF f]
  have e: "eval_ext_slice (env a) i j = Some x" using ev unfolding d by (simp add: eval_inst_def)
  have cx: "cells x = take j (drop i (cells (env a)))"
    using e by (cases "env a") (auto simp: eval_ext_slice_def cells_slice array_extract_slice_def slice_def split: if_splits)
  obtain p where p: "resolve_value_pointer c a = Some p" "ptr_cells c (ty_is_int s) p (cells (env a))"
    using whole_cells[OF s(1,2,4) _ s(3)] like by blast
  obtain q where q: "window (int i) (int j) p = Some q" "ptr_cells c (ty_is_int s) q (cells x)"
    using window_cells[OF p(2), of i j] cx by auto
  have "read_pointer c t q = Some x" using read_pointer_value[OF _ tx] q(2) like by simp
  then show ?thesis
    using p(1) q(1) s(1) data_not_pointer[OF dt] unfolding d
    by (simp add: exec_extract_def opcode_of_def arg_at_def args_def imms_def idx_def resolve_by_type_def result_by_type_def exec_insext_def)
qed

lemma sim_ins_field:
  assumes d: "d = IInsExt OpInsField a b i j" and ty: "typed (types_of c) d t"
    and ok: "operands_ok (types_of c) env d" "sees c env d" and ev: "eval_inst env d = Some x"
  shows "exec_insert c d = Some (const_slot x)"
proof -
  obtain f where f: "types_of c a = Some t" "ext_field_type i t = Some f" "types_of c b = Some f"
    using ty unfolding d typed_IInsExt by (auto simp: op_sets opcode_of_def)
  have s: "data_ty t" "has_ty (env a) t" "resolve_value c a = Some (env a)" using operand[OF ok, of a] f d by (auto simp: args_def)
  have r: "has_ty (env b) f" "resolve_value c b = Some (env b)" using operand[OF ok, of b] f d by (auto simp: args_def)
  have e: "eval_ins_field (env a) (env b) i = Some x" using ev unfolding d by (simp add: eval_inst_def)
  have nt: "t \<noteq> TimeType" and df: "data_ty f" using f data_field[OF f(2) s(1)] by (auto simp: ext_field_type_def)
  note w = whole_value[OF f(1) s(1,3) nt]
  have "write_pointer_select [SelField i] (env a) (env b) = Some x"
    using e by (cases "env a") (auto simp: eval_ins_field_def panic_simps array_extract_field_def array_insert_field_def
        struct_extract_field_def struct_insert_field_def)
  then have "write_pointer [\<lparr>target = TgtValue a, select = [SelField i], swidth = ty_width f\<rparr>] [env a] (env b) = Some [x]"
    using write_one[OF r(1) df] by simp
  then show ?thesis
    using w(1) f(1) s(3) r(2) field_pointer[OF f(2) s(1,2) field_in_range[OF f(2) s(2), of "env b"]] e unfolding d
    by (simp add: exec_insert_def opcode_of_def arg_at_def args_def imms_def idx_def exec_insext_def)
qed

lemma sim_ins_slice:
  assumes d: "d = IInsExt OpInsSlice a b i j" and ty: "typed (types_of c) d t"
    and ok: "operands_ok (types_of c) env d" "sees c env d" and ev: "eval_inst env d = Some x"
  shows "exec_insert c d = Some (const_slot x)"
proof -
  obtain f where f: "types_of c a = Some t" "slice_in i j t = Some f" "types_of c b = Some f"
    using ty unfolding d typed_IInsExt by (auto simp: op_sets opcode_of_def)
  have s: "data_ty t" "has_ty (env a) t" "resolve_value c a = Some (env a)" using operand[OF ok, of a] f d by (auto simp: args_def)
  have r: "has_ty (env b) f" "resolve_value c b = Some (env b)" "data_ty f" using operand[OF ok, of b] f d by (auto simp: args_def)
  note like = slice_seq[OF f(2)]
  have e: "eval_ins_slice (env a) (env b) i j = Some x" using ev unfolding d by (simp add: eval_inst_def)
  have nt: "t \<noteq> TimeType" using like by auto
  note w = whole_value[OF f(1) s(1,3) nt]
  have fit: "i + j \<le> ty_width t" using f(2) by (auto elim: slice_ty_cases)
  let ?s = "\<lparr>target = TgtValue a, select = [], swidth = ty_width t\<rparr>"
  have win: "window (int i) (int j) [?s] = Some (if i = 0 \<and> j = ty_width t then [?s] else if j = 0 then []
      else [?s\<lparr>swidth := j, select := [SelSlice i j]\<rparr>])"
    using fit by (auto simp: window_def window_slice_def offset_slices_def Let_def ensure_def nat_add_distrib)
  have wr: "write_pointer (if i = 0 \<and> j = ty_width t then [?s] else if j = 0 then []
      else [?s\<lparr>swidth := j, select := [SelSlice i j]\<rparr>]) [env a] (env b) = Some [x]"
    using f(2)
  proof (cases rule: slice_ty_cases)
    case (1 w)
    then obtain y z q where v: "env a = IntVal y" "iv_wf y" "width y = w" "env b = IntVal z" "iv_wf z" "width z = j"
      "iv_insert_slice y i j z = Some q" "x = IntVal q"
      using s(2) r(1) e by (auto simp: has_ty_cases eval_ins_slice_def split: if_splits)
    have q: "iv_wf q" "width q = w" using insert_slice_Some[OF v(7)] wf_insert_slice[OF v(7,2,5)] v(3) 1 by auto
    consider "i = 0" "j = w" | "j = 0" "j \<noteq> w" | "j \<noteq> 0" "\<not> (i = 0 \<and> j = w)" using 1(3) by auto
    then show ?thesis
    proof cases
      case 1
      then have "q = z" using extract_insert_same[OF v(7,2,5)] v(3) extract_whole[OF q(1)] q(2) by simp
      then show ?thesis using 1 write_one[OF r(1,3), of ?s "env a"] like \<open>t = IntType w\<close> v by simp
    next
      case 2
      have "iv_extract_slice y i 0 = z" using v(5,6) 2 by (intro int_value_bit_eqI) (auto simp: bit_extract_slice dest: wf_bit)
      then have "q = y" using insert_extract_id[OF v(2), of i 0] v(3,7) 1(3) 2 by simp
      then show ?thesis using 2 v \<open>t = IntType w\<close> by (simp add: write_none)
    next
      case 3
      then show ?thesis using write_one[OF r(1,3), of "?s\<lparr>swidth := j, select := [SelSlice i j]\<rparr>" "env a"] like \<open>t = IntType w\<close> v by auto
    qed
  next
    case (2 n u)
    then obtain ys zs where v: "env a = ArrayVal ys" "length ys = n" "env b = ArrayVal zs" "length zs = j"
      "x = ArrayVal (take i ys @ zs @ drop (i + j) ys)"
      using s(2) r(1) e by (auto simp: has_ty_cases eval_ins_slice_def array_insert_slice_def slice_set_def split: if_splits)
    consider "i = 0" "j = n" | "j = 0" "j \<noteq> n" | "j \<noteq> 0" "\<not> (i = 0 \<and> j = n)" using 2(3) by auto
    then show ?thesis
    proof cases
      case 3
      then show ?thesis
        using write_one[OF r(1,3), of "?s\<lparr>swidth := j, select := [SelSlice i j]\<rparr>" "env a"] like 2 v
        by (auto simp: array_extract_slice_def array_insert_slice_def slice_def slice_set_def)
    qed (use write_one[OF r(1,3), of ?s "env a"] like 2 v in \<open>simp_all add: write_none\<close>)
  qed
  then show ?thesis
    using w(1) f(1) s(3) r(2) win unfolding d
    by (simp add: exec_insert_def opcode_of_def arg_at_def args_def imms_def idx_def exec_insext_def)
qed

section \<open>All instructions on data\<close>

lemma from_signed_nat: "iv_wf k \<Longrightarrow> from_signed (width k) (int (ivalue k)) = k"
proof -
  assume "iv_wf k"
  then have "int (ivalue (from_signed (width k) (int (ivalue k)))) = int (ivalue k)"
    by (simp add: ivalue_from_signed iv_wf_def)
  then show ?thesis by (cases k) (simp add: from_signed_def from_unsigned_def Let_def)
qed

lemma exec_data:
  assumes at: "pt2_index (dinsts (dfg (cunit c))) i = Some d" "inst_type (dfg (cunit c)) i = Some t"
    and ty: "opcode_of d \<in> data_ops \<longrightarrow> typed (types_of c) d t" "built (types_of c) d t" "data_ty t"
    and ok: "operands_ok (types_of c) env d" "sees c env d" and safe: "sim_safe env d" and ev: "eval_inst env d = Some x"
  shows "exec c i = Some (const_slot x)"
proof (cases d)
  case (IConstInt op k)
  then show ?thesis using ty(2) ev at
    by (simp add: exec_def eval_inst_def opcode_of_def built_def exec_constant_def inst_const_int_def from_signed_nat split: if_splits)
next
  case (IConstTime op k)
  then show ?thesis using ev at
    by (simp add: exec_def eval_inst_def opcode_of_def exec_constant_def inst_const_time_def split: if_splits)
next
  case (IArray op n a)
  then have "exec_aggregate c d = Some (const_slot x)" using sim_aggregate[OF _ ty(2) ok(2) ev] by blast
  then show ?thesis using at ev IArray by (simp add: exec_def eval_inst_def opcode_of_def split: if_splits)
next
  case (IAggregate op as)
  then have "exec_aggregate c d = Some (const_slot x)" using sim_aggregate[OF _ ty(2) ok(2) ev] by blast
  then show ?thesis using at ev IAggregate by (auto simp: exec_def eval_inst_def opcode_of_def split: if_splits)
next
  case (IUnary op a)
  have r: "resolve_value c a = Some (env a)" using operand[OF ok, of a] IUnary by (auto simp: args_def)
  show ?thesis
  proof (cases "op = OpAlias")
    case True
    then show ?thesis using at ev r IUnary by (simp add: exec_def eval_inst_def opcode_of_def arg_at_def args_def idx_def)
  next
    case False
    then obtain y z where e: "env a = IntVal y" "unary_op op y = Some z" "x = IntVal z"
      using ev IUnary by (cases "env a") (auto simp: eval_inst_def bind_Some_iff)
    have "has_ty x t" using pres_unary[OF IUnary ty ok(1) ev] .
    then have "ty_is_int t" using e(3) by (cases t) auto
    then show ?thesis using unary_op_wf[OF e(2)] at r e IUnary si_unary[of op y]
      by (auto simp: exec_def opcode_of_def exec_unary_def arg_at_def args_def idx_def)
  qed
next
  case (IBinary op a b)
  show ?thesis
  proof (cases "op = OpMux")
    case True
    then show ?thesis using sim_mux[OF _ ok safe ev] at IBinary
      by (simp add: exec_def opcode_of_def sim_binary_ops_def sim_compare_ops_def)
  next
    case False
    then obtain z where z: "x = IntVal z"
      using ev IBinary by (cases "env a"; cases "env b") (auto simp: eval_inst_def bind_Some_iff)
    have "has_ty x t" using pres_binary[OF IBinary ty(1) ok(1) ev] .
    then have "ty_is_int t" using z by (cases t) auto
    from sim_binary[OF IBinary False ok this safe ev] show ?thesis
      using at IBinary by (auto simp: exec_def opcode_of_def sim_binary_ops_def sim_compare_ops_def)
  qed
next
  case (ITernary op a b e)
  then have op: "op \<in> {OpShl, OpShr}" using ev by (auto simp: eval_inst_def split: if_splits)
  then have "typed (types_of c) d t" using ty(1) ITernary by (auto simp: op_sets opcode_of_def)
  from sim_shift[OF ITernary op this ok safe ev] show ?thesis
    using at op ITernary by (auto simp: exec_def opcode_of_def sim_binary_ops_def sim_compare_ops_def)
next
  case (IInsExt op a b k n)
  then have op: "op \<in> {OpInsField, OpExtField, OpInsSlice, OpExtSlice}" using ev by (auto simp: eval_inst_def split: if_splits)
  then have tt: "typed (types_of c) d t" using ty(1) IInsExt by (auto simp: op_sets opcode_of_def)
  have "op \<in> {OpInsField, OpInsSlice} \<Longrightarrow> exec_insert c d = Some (const_slot x)"
    "op \<in> {OpExtField, OpExtSlice} \<Longrightarrow> exec_extract c d t = Some (const_slot x)"
    using sim_ins_field[OF _ tt ok ev] sim_ins_slice[OF _ tt ok ev] sim_ext_field[OF _ tt ok ev] sim_ext_slice[OF _ tt ok ev ty(3)]
      IInsExt by auto
  then show ?thesis using at op IInsExt by (auto simp: exec_def opcode_of_def sim_binary_ops_def sim_compare_ops_def)
qed (use ev in \<open>simp_all add: eval_inst_def\<close>)

text \<open>
  C8: the simulator computes what the verified program means. When the verifier reports nothing
  for an instruction on data (of a shape the builder makes) and the operands hold values of their
  types, executing the instruction in the simulator yields exactly the value of the reference
  semantics where that has one, although the simulator shifts, slices and rewrites aggregates through pointers.
  Left out (\<open>sim_safe\<close>) are: the operations that the simulator computes through its conversion to
  signed integers (the signed ones, and also \<open>sub\<close>) when an operand is negative; shifts by more than
  the length of the base; and shift amounts and multiplexer selectors of \<open>2 ^ 64\<close> and above.
\<close>

theorem simulator_computes_meaning:
  assumes "dfg_wf (dfg (cunit c))" "inst_at (dfg (cunit c)) i = Some d" "value_at (dfg (cunit c)) v = Some (VInst t i)"
    and "verify_inst flags ret (dfg (cunit c)) l i = Some []" "built (value_type (dfg (cunit c))) d t"
    and "data_ty t" "\<forall>a \<in> set (args d). data_value (dfg (cunit c)) a" "well_typed_env (dfg (cunit c)) env"
    and "sees c env d" "sim_safe env d" "eval_inst env d = Some x"
  shows "exec c i = Some (const_slot x)"
proof (rule exec_data)
  show "pt2_index (dinsts (dfg (cunit c))) i = Some d" by (rule inst_at_index[OF assms(1,2)])
  show "inst_type (dfg (cunit c)) i = Some t" by (rule inst_type_at[OF assms(1,3)])
  then show "opcode_of d \<in> data_ops \<longrightarrow> typed (types_of c) d t"
    using verifier_decides_typing verify_inst_kind[OF assms(2,1,4)] by blast
  show "operands_ok (types_of c) env d" by (rule operands_of_env[OF assms(1,8,7)])
qed (use assms in blast)+

lemma simulator_computes_meaning_witness:
  "\<exists>u :: unit_data. dfg u = demo_graph \<and> exec \<lparr>cunit = u, cvalues = [0 \<mapsto> SlotConst (IntVal (IntValue 8 5))], csignals = [], ctime = TimeValue 0 0 0\<rparr> 1 =
     Some (const_slot (IntVal (IntValue 8 251)))"
proof -
  obtain b :: unit_builder where "dfg b = demo_graph" using demo_ready by blast
  then obtain u :: unit_data where u: "dfg u = demo_graph" by (metis unit_data.select_convs(4) unit_data.truncate_def)
  let ?c = "\<lparr>cunit = u, cvalues = [0 \<mapsto> SlotConst (IntVal (IntValue 8 5))], csignals = [], ctime = TimeValue 0 0 0\<rparr>"
  let ?d = "IUnary OpNeg 0" and ?env = "\<lambda>_::nat. IntVal (IntValue 8 5)"
  have e: "eval_inst ?env ?d = Some (IntVal (IntValue 8 251))"
    by (simp add: eval_inst_def unary_op_def try_unary_op_def iv_neg_def from_unsigned_def)
  have s: "sees ?c ?env ?d" "sim_safe ?env ?d" by (simp_all add: sees_def args_def resolve_value_def sim_safe_def)
  have "exec ?c 1 = Some (const_slot (IntVal (IntValue 8 251)))"
    using simulator_computes_meaning[of ?c 1 ?d 1 "IntType 8" "{FUNCTION}" None _ ?env, OF _ _ _ _ _ _ _ _ s e] u demo_wf(1) demo_verified
    by (auto simp: demo_at built_def args_def data_value_def well_typed_env_def vd_type_def iv_wf_def split: if_splits)
  then show ?thesis using u by blast
qed

end
