(* ===== verification/SimQueue.thy ===== *)
theory SimQueue
  imports SimWindows SimEngine
begin

text \<open>
  The event loop: the queues never hold anything for the past, time moves to the least queued
  time, nothing that is queued for later is lost, and what a process or an entity schedules
  is never in the past.
\<close>

section \<open>The queues\<close>

definition queued :: "sim_state \<Rightarrow> time_value set" where
  "queued st = dom (events st) \<union> dom (timed st)"

definition queue_inv :: "sim_state \<Rightarrow> bool" where
  "queue_inv st \<longleftrightarrow> finite (queued st) \<and> (\<forall>t. events st t \<noteq> None \<or> timed st t \<noteq> None \<longrightarrow> now st \<le> t)"

lemma next_time_least:
  assumes "finite (queued st)"
  shows "next_time st = (if queued st = {} then None else Some (Min (queued st)))"
proof -
  have f: "finite (dom (events st))" "finite (dom (timed st))" using assms by (simp_all add: queued_def)
  show ?thesis
    using Min_Un[OF f(1) _ f(2)] by (auto simp: next_time_def first_key_def queued_def)
qed

text \<open>What a step keeps of the queues: nothing that is queued disappears.\<close>

definition keeps :: "sim_state \<Rightarrow> sim_state \<Rightarrow> bool" where
  "keeps st st' \<longleftrightarrow> now st' = now st \<and>
     (\<forall>t m. events st t = Some m \<longrightarrow> (\<exists>m'. events st' t = Some m' \<and> dom m \<subseteq> dom m')) \<and>
     (\<forall>t s. timed st t = Some s \<longrightarrow> (\<exists>s'. timed st' t = Some s' \<and> s \<subseteq> s'))"

lemma keeps_refl [simp]: "keeps st st"
  by (simp add: keeps_def)

lemma keeps_trans: "keeps a b \<Longrightarrow> keeps b c \<Longrightarrow> keeps a c"
  unfolding keeps_def
proof (elim conjE, intro conjI allI impI)
  fix t m
  assume "\<forall>t m. events a t = Some m \<longrightarrow> (\<exists>m'. events b t = Some m' \<and> dom m \<subseteq> dom m')"
    "\<forall>t m. events b t = Some m \<longrightarrow> (\<exists>m'. events c t = Some m' \<and> dom m \<subseteq> dom m')" "events a t = Some m"
  then show "\<exists>m'. events c t = Some m' \<and> dom m \<subseteq> dom m'" by (meson subset_trans)
next
  fix t s
  assume "\<forall>t s. timed a t = Some s \<longrightarrow> (\<exists>s'. timed b t = Some s' \<and> s \<subseteq> s')"
    "\<forall>t s. timed b t = Some s \<longrightarrow> (\<exists>s'. timed c t = Some s' \<and> s \<subseteq> s')" "timed a t = Some s"
  then show "\<exists>s'. timed c t = Some s' \<and> s \<subseteq> s'" by (meson subset_trans)
qed simp

lemma keeps_same: "events st' = events st \<Longrightarrow> timed st' = timed st \<Longrightarrow> now st' = now st \<Longrightarrow> keeps st st'"
  by (simp add: keeps_def)

lemma schedule_event_keeps:
  assumes "schedule_event e st = Some st'" "queue_inv st"
  shows "queue_inv st' \<and> keeps st st' \<and> signals st' = signals st \<and> instances st' = instances st"
  using assms
  by (auto simp: schedule_event_def queue_inv_def queued_def keeps_def entry_or_def panic_simps split: option.splits if_splits)

lemma schedule_timed_keeps:
  assumes "schedule_timed_instance e st = Some st'" "queue_inv st"
  shows "queue_inv st' \<and> keeps st st' \<and> signals st' = signals st \<and> instances st' = instances st"
  using assms
  by (auto simp: schedule_timed_instance_def queue_inv_def queued_def keeps_def entry_or_def panic_simps split: option.splits if_splits)

lemma schedules_keep:
  assumes "foldM f xs st = Some st'" "queue_inv st"
    and "\<And>x st st'. f x st = Some st' \<Longrightarrow> queue_inv st \<Longrightarrow>
      queue_inv st' \<and> keeps st st' \<and> signals st' = signals st \<and> instances st' = instances st"
  shows "queue_inv st' \<and> keeps st st' \<and> signals st' = signals st \<and> instances st' = instances st"
proof (rule foldM_invariant[OF assms(1), of "\<lambda>s. queue_inv s \<and> keeps st s \<and> signals s = signals st \<and> instances s = instances st"])
  fix x s s'
  assume s: "queue_inv s \<and> keeps st s \<and> signals s = signals st \<and> instances s = instances st" and "f x s = Some s'"
  then show "queue_inv s' \<and> keeps st s' \<and> signals s' = signals st \<and> instances s' = instances st"
    using assms(3)[of x s s'] keeps_trans[of st s s'] by simp
qed (use assms(2) in simp)

text \<open>The parts of a step that leave the queues alone.\<close>

definition same_queues :: "sim_state \<Rightarrow> sim_state \<Rightarrow> bool" where
  "same_queues st st' \<longleftrightarrow> events st' = events st \<and> timed st' = timed st \<and> now st' = now st"

lemma apply_event_queues:
  "apply_event x (st, changed) = Some (st', changed') \<Longrightarrow> same_queues st st' \<and> instances st' = instances st \<and>
    length (signals st') = length (signals st)"
proof -
  assume "apply_event x (st, changed) = Some (st', changed')"
  then obtain xs where "foldM update_signal xs (st, changed) = Some (st', changed')"
    by (auto simp: apply_event_def panic_simps split: prod.splits)
  from this have "(\<lambda>s. same_queues st (fst s) \<and> instances (fst s) = instances st \<and> length (signals (fst s)) = length (signals st)) (st', changed')"
    by (rule foldM_invariant) (auto simp: same_queues_def update_signal_def panic_simps Let_def split: prod.splits)
  then show ?thesis by simp
qed

lemma apply_events_queues:
  assumes "foldM apply_event evs (st, {}) = Some (st', changed)"
  shows "same_queues st st' \<and> instances st' = instances st \<and> length (signals st') = length (signals st)"
proof -
  have "(\<lambda>s. same_queues st (fst s) \<and> instances (fst s) = instances st \<and> length (signals (fst s)) = length (signals st)) (st', changed)"
  proof (rule foldM_invariant[OF assms])
    fix x s s'
    assume "same_queues st (fst s) \<and> instances (fst s) = instances st \<and> length (signals (fst s)) = length (signals st)"
      "apply_event x s = Some s'"
    then show "same_queues st (fst s') \<and> instances (fst s') = instances st \<and> length (signals (fst s')) = length (signals st)"
      using apply_event_queues[of x "fst s" "snd s" "fst s'" "snd s'"] by (simp add: same_queues_def)
  qed (simp add: same_queues_def)
  then show ?thesis by simp
qed

lemma wake_timed_queues:
  assumes "foldM wake_timed woken st = Some st'"
  shows "same_queues st st' \<and> signals st' = signals st"
  by (rule foldM_invariant[OF assms]) (auto simp: same_queues_def wake_timed_def panic_simps)

lemma step_ready_queues:
  assumes "foldM (step_ready ord changed first) ready (st, []) = Some (st', evs)"
  shows "same_queues st st' \<and> signals st' = signals st \<and> length (instances st') = length (instances st)"
proof -
  have "(\<lambda>s. same_queues st (fst s) \<and> signals (fst s) = signals st \<and> length (instances (fst s)) = length (instances st)) (st', evs)"
    by (rule foldM_invariant[OF assms]) (auto simp: same_queues_def step_ready_def panic_simps split: prod.splits)
  then show ?thesis by simp
qed

text \<open>The phases of a step.\<close>

lemma engine_executeE:
  assumes "engine_execute pord ord first st = Some (st4, es, ready)"
  obtains evs st0 st1 changed woken st2 st3 where
    "take_next_events pord st = (evs, st0)" "foldM apply_event evs (st0, {}) = Some (st1, changed)"
    "take_next_timed ord st1 = (woken, st2)" "foldM wake_timed woken st2 = Some st3"
    "ready = ready_insts (st3\<lparr>instances := map (wake_sensitive changed) (instances st3)\<rparr>)"
    "foldM (step_ready ord changed first) ready (st3\<lparr>instances := map (wake_sensitive changed) (instances st3)\<rparr>, []) = Some (st4, es)"
proof -
  obtain evs st0 where 1: "take_next_events pord st = (evs, st0)" by fastforce
  obtain st1 changed where 2: "foldM apply_event evs (st0, {}) = Some (st1, changed)"
    using assms 1 by (auto simp: engine_execute_def panic_simps)
  obtain woken st2 where 3: "take_next_timed ord st1 = (woken, st2)" by fastforce
  obtain st3 where 4: "foldM wake_timed woken st2 = Some st3"
    using assms 1 2 3 by (auto simp: engine_execute_def panic_simps)
  show thesis
    by (rule that[OF 1 2 3 4]) (use assms 1 2 3 4 in \<open>auto simp: engine_execute_def panic_simps Let_def\<close>)
qed

lemma engine_scheduleE:
  assumes "engine_schedule es ready st = Some (busy, st')"
  obtains st5 where "schedule_events es st = Some st5" "schedule_timed (concat (map (timed_wait st5) ready)) st5 = Some (st'\<lparr>now := now st5\<rparr>)"
    "busy \<longleftrightarrow> next_time (st'\<lparr>now := now st5\<rparr>) \<noteq> None"
    "now st' = (case next_time (st'\<lparr>now := now st5\<rparr>) of Some t \<Rightarrow> t | None \<Rightarrow> now st5)"
proof -
  have sched: "schedule_timed xs s = Some s' \<Longrightarrow> now s' = now s" for xs s s'
    using foldM_invariant[of schedule_timed_instance xs s s' "\<lambda>q. now q = now s"]
    by (auto simp: schedule_timed_def schedule_timed_instance_def panic_simps)
  have id: "s\<lparr>now := now s\<rparr> = s" for s :: sim_state by simp
  obtain st5 where 6: "schedule_events es st = Some st5" using assms by (auto simp: engine_schedule_def panic_simps)
  obtain st6 where 7: "schedule_timed (concat (map (timed_wait st5) ready)) st5 = Some st6"
    using assms 6 by (auto simp: engine_schedule_def panic_simps)
  have 8: "Some (busy, st') = Some (case next_time st6 of Some t \<Rightarrow> (True, st6\<lparr>now := t\<rparr>) | None \<Rightarrow> (False, st6))"
    using assms 6 7 by (simp add: engine_schedule_def)
  have "st'\<lparr>now := now st5\<rparr> = st6" using 8 sched[OF 7] by (auto split: option.splits)
  then show thesis using that[OF 6] 7 8 sched[OF 7] by (auto split: option.splits)
qed

lemma engine_step_queues:
  assumes step: "engine_step pord ord first st = Some (busy, st')" and inv: "queue_inv st"
  shows "queue_inv st' \<and> now st \<le> now st' \<and> (busy \<longleftrightarrow> queued st' \<noteq> {}) \<and> (busy \<longrightarrow> now st' = Min (queued st')) \<and>
    (\<forall>t m. events st t = Some m \<longrightarrow> t \<noteq> now st \<longrightarrow> (\<exists>m'. events st' t = Some m' \<and> dom m \<subseteq> dom m')) \<and>
    (\<forall>t s. timed st t = Some s \<longrightarrow> t \<noteq> now st \<longrightarrow> (\<exists>s'. timed st' t = Some s' \<and> s \<subseteq> s'))"
proof -
  obtain st4 es ready where ex: "engine_execute pord ord first st = Some (st4, es, ready)" and sc: "engine_schedule es ready st4 = Some (busy, st')"
    using step by (auto simp: engine_step_def panic_simps)
  from ex obtain evs st0 st1 changed woken st2 st3 where 1: "take_next_events pord st = (evs, st0)"
    and 2: "foldM apply_event evs (st0, {}) = Some (st1, changed)"
    and 3: "take_next_timed ord st1 = (woken, st2)" and 4: "foldM wake_timed woken st2 = Some st3"
    and 5: "foldM (step_ready ord changed first) ready (st3\<lparr>instances := map (wake_sensitive changed) (instances st3)\<rparr>, []) = Some (st4, es)"
    by (rule engine_executeE)
  from sc obtain st5 where 6: "schedule_events es st4 = Some st5"
    and 7: "schedule_timed (concat (map (timed_wait st5) ready)) st5 = Some (st'\<lparr>now := now st5\<rparr>)"
    and 8: "busy \<longleftrightarrow> next_time (st'\<lparr>now := now st5\<rparr>) \<noteq> None"
    and 9: "now st' = (case next_time (st'\<lparr>now := now st5\<rparr>) of Some t \<Rightarrow> t | None \<Rightarrow> now st5)"
    by (rule engine_scheduleE)
  let ?st6 = "st'\<lparr>now := now st5\<rparr>"
  have q0: "now st0 = now st" "timed st0 = timed st" "events st0 = (events st)(now st := None)"
    using 1 by (auto simp: take_next_events_def split: option.splits)
  have q1: "same_queues st0 st1" using apply_events_queues[OF 2] by blast
  have q2: "now st2 = now st1" "events st2 = events st1" "timed st2 = (timed st1)(now st1 := None)"
    using 3 by (auto simp: take_next_timed_def split: option.splits)
  have q3: "same_queues st2 st3" using wake_timed_queues[OF 4] by blast
  have q4: "same_queues st3 st4" using step_ready_queues[OF 5] by (simp add: same_queues_def)
  have n4: "now st4 = now st" "events st4 = (events st)(now st := None)" "timed st4 = (timed st)(now st := None)"
    using q0 q1 q2 q3 q4 by (simp_all add: same_queues_def)
  have inv4: "queue_inv st4" using inv n4 by (auto simp: queue_inv_def queued_def)
  have k5: "queue_inv st5 \<and> keeps st4 st5 \<and> signals st5 = signals st4 \<and> instances st5 = instances st4"
    by (rule schedules_keep[OF 6[unfolded schedule_events_def] inv4]) (rule schedule_event_keeps)
  then have inv5: "queue_inv st5" by simp
  have k6: "queue_inv ?st6 \<and> keeps st5 ?st6 \<and> signals ?st6 = signals st5 \<and> instances ?st6 = instances st5"
    by (rule schedules_keep[OF 7[unfolded schedule_timed_def] inv5]) (rule schedule_timed_keeps)
  have k: "keeps st4 ?st6" using keeps_trans[of st4 st5 ?st6] k5 k6 by blast
  have nt: "next_time ?st6 = (if queued st' = {} then None else Some (Min (queued st')))"
    using next_time_least[of ?st6] k6 by (simp add: queue_inv_def queued_def)
  have fin: "finite (queued st')" using k6 by (simp add: queue_inv_def queued_def)
  have n5: "now st5 = now st" using k5 n4(1) by (simp add: keeps_def)
  have ge: "t \<in> queued st' \<Longrightarrow> now st \<le> t" for t using k6 n5 by (auto simp: queue_inv_def queued_def)
  have "queue_inv st'"
    unfolding queue_inv_def
  proof (intro conjI allI impI)
    fix t assume "events st' t \<noteq> None \<or> timed st' t \<noteq> None"
    then have "t \<in> queued st'" by (auto simp: queued_def)
    then show "now st' \<le> t" using 9 nt fin by (auto split: if_splits)
  qed (rule fin)
  moreover have "now st \<le> now st'" using 9 nt n5 ge Min_in[OF fin] by (auto split: if_splits)
  moreover have "busy \<longleftrightarrow> queued st' \<noteq> {}" using 8 nt by simp
  moreover have "busy \<longrightarrow> now st' = Min (queued st')" using 8 9 nt by auto
  moreover have "\<exists>m'. events st' t = Some m' \<and> dom m \<subseteq> dom m'" if "events st t = Some m" "t \<noteq> now st" for t m
  proof -
    have "events st4 t = Some m" using that n4(2) by simp
    then have "\<exists>m'. events ?st6 t = Some m' \<and> dom m \<subseteq> dom m'" using k unfolding keeps_def by blast
    then show ?thesis by simp
  qed
  moreover have "\<exists>s'. timed st' t = Some s' \<and> s \<subseteq> s'" if "timed st t = Some s" "t \<noteq> now st" for t s
  proof -
    have "timed st4 t = Some s" using that n4(3) by simp
    then have "\<exists>s'. timed ?st6 t = Some s' \<and> s \<subseteq> s'" using k unfolding keeps_def by blast
    then show ?thesis by simp
  qed
  ultimately show ?thesis by blast
qed

end
