(* ===== verification/SimTime.thy ===== *)
theory SimTime
  imports SimQueue
begin

text \<open>
  The assertions of the scheduler hold: as long as the time constants of the units are not
  negative, whatever a process or an entity schedules is at the current time or later.
\<close>

section \<open>Time is never negative\<close>

fun calm :: "sim_value \<Rightarrow> bool" where
  "calm (TimeVal t) \<longleftrightarrow> 0 \<le> time t"
| "calm (ArrayVal vs) \<longleftrightarrow> (\<forall>v \<in> set vs. calm v)"
| "calm (StructVal vs) \<longleftrightarrow> (\<forall>v \<in> set vs. calm v)"
| "calm _ \<longleftrightarrow> True"

fun calm_slot :: "value_slot \<Rightarrow> bool" where
  "calm_slot (SlotConst v) \<longleftrightarrow> calm v"
| "calm_slot (SlotVariable v) \<longleftrightarrow> calm v"
| "calm_slot _ \<longleftrightarrow> True"

definition calm_consts :: "data_flow_graph \<Rightarrow> bool" where
  "calm_consts g \<longleftrightarrow> (\<forall>i d k. pt2_index (dinsts g) i = Some d \<longrightarrow> inst_const_time d = Some k \<longrightarrow> 0 \<le> time k)"

definition calm_slots :: "(nat \<rightharpoonup> value_slot) \<Rightarrow> bool" where
  "calm_slots m \<longleftrightarrow> (\<forall>v s. m v = Some s \<longrightarrow> calm_slot s)"

definition calm_signals :: "signal list \<Rightarrow> bool" where
  "calm_signals ss \<longleftrightarrow> (\<forall>s \<in> set ss. calm (sig_value s))"

definition calm_context :: "inst_context \<Rightarrow> bool" where
  "calm_context c \<longleftrightarrow> calm_consts (dfg (cunit c)) \<and> calm_slots (cvalues c) \<and> calm_signals (csignals c)"

lemma calm_IntVal [simp]: "calm (IntVal x)" by simp

lemma calm_slice: "\<forall>v \<in> set vs. calm v \<Longrightarrow> v \<in> set (take n (drop k vs)) \<Longrightarrow> calm v"
  by (auto dest: in_set_takeD in_set_dropD)

lemma calm_update: "\<forall>v \<in> set vs. calm v \<Longrightarrow> calm w \<Longrightarrow> v \<in> set (vs[k := w]) \<Longrightarrow> calm v"
  using set_update_subset_insert[of vs k w] by auto

lemma calm_write_select: "write_pointer_select sel into v = Some r \<Longrightarrow> calm into \<Longrightarrow> calm v \<Longrightarrow> calm r"
proof (induction sel into v arbitrary: r rule: write_pointer_select.induct)
  case (2 k sel into v)
  then show ?case
    by (auto simp: panic_simps array_extract_field_def array_insert_field_def struct_extract_field_def struct_insert_field_def
        split: val.splits) (metis calm_update)+
next
  case (3 off len sel into v)
  show ?case
  proof (cases into)
    case (ArrayVal xs)
    then obtain sub ys where s: "off + len \<le> length xs" "write_pointer_select sel (ArrayVal (take len (drop off xs))) v = Some (ArrayVal ys)"
      "r = ArrayVal (take off xs @ ys @ drop (off + len) xs)"
      using 3(3) by (auto simp: panic_simps array_extract_slice_def array_insert_slice_def elim!: get_array.elims)
    have ex: "sa_extract_slice xs off len = Some (take len (drop off xs))" using s(1) by (simp add: array_extract_slice_def slice_def)
    have "calm (ArrayVal (take len (drop off xs)))" using 3(4) ArrayVal calm_slice[of xs] by auto
    then have "calm (ArrayVal ys)" using 3(2)[OF ArrayVal ex s(2)] 3(5) by blast
    then show ?thesis using s(3) 3(4) ArrayVal by (auto dest: in_set_takeD in_set_dropD)
  qed (use 3(3) in \<open>auto simp: panic_simps\<close>)
qed simp

lemma calm_subvalue: "subvalue v off w = Some u \<Longrightarrow> calm v \<Longrightarrow> calm u"
  by (auto simp: subvalue_def array_extract_slice_def panic_simps dest: calm_slice split: if_splits val.splits)

lemma calm_write: 
  assumes "write_pointer p into v = Some new" "\<forall>x \<in> set into. calm x" "calm v"
  shows "\<forall>x \<in> set new. calm x"
  using assms(1)[unfolded write_pointer_def]
proof (rule foldM_invariant)
  fix x s s'
  assume s: "\<forall>x \<in> set s. calm x"
    and f: "(\<lambda>(i, off, s) into. do { sub \<leftarrow> subvalue v off (swidth s); x \<leftarrow> idx into i; y \<leftarrow> write_pointer_slice s x sub; idx_set into i y }) x s = Some s'"
  obtain i off sl where x: "x = (i, off, sl)" by (cases x)
  then obtain u y where "subvalue v off (swidth sl) = Some u" "i < length s" "write_pointer_slice sl (s ! i) u = Some y" "s' = s[i := y]"
    using f by (auto simp: panic_simps)
  then show "\<forall>x \<in> set s'. calm x"
    using s calm_subvalue[OF _ assms(3)] calm_write_select calm_update[OF s] unfolding write_pointer_slice_def by (metis nth_mem)
qed (rule assms(2))

lemma calm_read_select: "read_select sel v = Some u \<Longrightarrow> calm v \<Longrightarrow> calm u"
  by (auto simp: read_select_def array_extract_slice_def array_extract_field_def struct_extract_field_def panic_simps
      dest: calm_slice split: value_select.splits val.splits)

lemma calm_resolve: "calm_context c \<Longrightarrow> resolve_value c v = Some u \<Longrightarrow> calm u"
  by (auto simp: resolve_value_def calm_context_def calm_slots_def split: option.splits value_slot.splits) fastforce

lemma calm_read_slice:
  assumes "calm_context c" "read_pointer_slice c s = Some u"
  shows "calm u"
proof -
  obtain v where v: "read_pointer_target c (target s) = Some v" "foldM read_select (select s) v = Some u"
    using assms(2) by (auto simp: read_pointer_slice_def panic_simps)
  have "calm v"
    using v(1) assms(1) calm_resolve[OF assms(1)]
    by (fastforce simp: read_pointer_target_def calm_context_def calm_slots_def calm_signals_def panic_simps
        split: value_target.splits option.splits value_slot.splits)
  then show ?thesis by (rule foldM_invariant[OF v(2)]) (rule calm_read_select)
qed

lemma calm_read:
  assumes "calm_context c" "read_pointer c t p = Some u"
  shows "calm u"
proof -
  have single: "(case p of [s] \<Rightarrow> read_pointer_slice c s | _ \<Rightarrow> None) = Some u \<Longrightarrow> calm u"
    using calm_read_slice[OF assms(1)] by (auto split: list.splits)
  have "\<forall>x \<in> set values. calm x"
    if f: "foldM (\<lambda>s values. do { r \<leftarrow> read_pointer_slice c s; xs \<leftarrow> sv_get_array r; Some (values @ xs) }) p [] = Some values" for "values"
  proof (rule foldM_invariant[OF f])
    fix s xs ys
    assume x: "\<forall>x \<in> set xs. calm x" and "do { r \<leftarrow> read_pointer_slice c s; zs \<leftarrow> sv_get_array r; Some (xs @ zs) } = Some ys"
    then obtain zs where "read_pointer_slice c s = Some (ArrayVal zs)" "ys = xs @ zs"
      by (auto simp: panic_simps elim!: get_array.elims)
    then show "\<forall>x \<in> set ys. calm x" using calm_read_slice[OF assms(1)] x by fastforce
  qed simp
  then show ?thesis using assms(2) single by (auto simp: read_pointer_def panic_simps split: ty.splits)
qed

lemma delay_after:
  assumes "0 \<le> time d"
  shows "ctime c \<le> time_after_delay c d"
  using assms by (auto simp: time_after_delay_def Let_def time_less_defs)

section \<open>Instructions\<close>

text \<open>An action keeps the slots calm and lies not in the past of \<open>t\<close>.\<close>

fun calm_action :: "time_value \<Rightarrow> action \<Rightarrow> bool" where
  "calm_action t (ActValue s) \<longleftrightarrow> calm_slot s"
| "calm_action t (ActStore p v) \<longleftrightarrow> calm v"
| "calm_action t (ActEvent e) \<longleftrightarrow> t \<le> ev_time e \<and> calm (ev_value e)"
| "calm_action t (ActSuspend b st) \<longleftrightarrow> (\<forall>t' sigs. st = Wait (Some t') sigs \<longrightarrow> t \<le> t')"
| "calm_action t _ \<longleftrightarrow> True"

lemma calm_const [simp]: "calm_action t (const_slot v) \<longleftrightarrow> calm v"
  by (simp add: const_slot_def)

lemma calm_result: "result_by_type c t p = Some act \<Longrightarrow> calm_context c \<Longrightarrow> calm_action u act"
  by (auto simp: result_by_type_def dest: calm_read split: if_splits)

lemma calm_delay: "calm_context c \<Longrightarrow> resolve_delay c v = Some d \<Longrightarrow> ctime c \<le> time_after_delay c d"
  by (auto simp: resolve_delay_def panic_simps elim!: get_time.elims dest!: calm_resolve intro: delay_after)

lemma calm_resolves: "calm_context c \<Longrightarrow> mapM (resolve_value c) as = Some vs \<Longrightarrow> v \<in> set vs \<Longrightarrow> calm v"
  by (auto simp: mapM_Some_iff list_all2_conv_all_nth in_set_conv_nth intro: calm_resolve)

lemma calm_exec:
  assumes c: "calm_context c" and ex: "exec c i = Some act"
  shows "calm_action (ctime c) act"
proof -
  obtain d t where d: "pt2_index (dinsts (dfg (cunit c))) i = Some d" using ex by (auto simp: exec_def panic_simps)
  have "inst_const_time d = Some k \<Longrightarrow> 0 \<le> time k" for k using c d by (auto simp: calm_context_def calm_consts_def)
  then have ct: "exec_constant d t = Some act \<Longrightarrow> calm_action (ctime c) act" for t
    by (auto simp: exec_constant_def panic_simps split: if_splits)
  have ag: "exec_aggregate c d = Some act \<Longrightarrow> calm_action (ctime c) act"
    using calm_resolve[OF c] calm_resolves[OF c]
    by (auto simp: exec_aggregate_def panic_simps array_new_uniform_def split: if_splits)
  have br: "exec_branch c d = Some act \<Longrightarrow> calm_action (ctime c) act"
    by (auto simp: exec_branch_def panic_simps split: if_splits)
  have wt: "exec_wait c d = Some act \<Longrightarrow> calm_action (ctime c) act"
    using calm_delay[OF c] by (auto simp: exec_wait_def panic_simps split: if_splits)
  have me: "exec_memory c d t = Some act \<Longrightarrow> calm_action (ctime c) act" for t
    using calm_resolve[OF c] calm_read[OF c] by (auto simp: exec_memory_def panic_simps split: if_splits)
  have sg: "exec_signal c d t = Some act \<Longrightarrow> calm_action (ctime c) act" for t
    using calm_resolve[OF c] calm_read[OF c] calm_delay[OF c] by (auto simp: exec_signal_def panic_simps split: if_splits)
  have un: "exec_unary c d t = Some act \<Longrightarrow> calm_action (ctime c) act" for t
    by (auto simp: exec_unary_def panic_simps)
  have bi: "exec_binary f c d t = Some act \<Longrightarrow> calm_action (ctime c) act" for f t
    by (auto simp: exec_binary_def panic_simps)
  have sh: "exec_shift_inst c d t = Some act \<Longrightarrow> calm_action (ctime c) act" for t
    using calm_result[OF _ c] by (auto simp: exec_shift_inst_def panic_simps)
  have ins: "exec_insert c d = Some act \<Longrightarrow> calm_action (ctime c) act"
  proof -
    assume "exec_insert c d = Some act"
    then obtain a b v p old rs where "resolve_value c b = Some v" "resolve_value c a = Some old" "write_pointer p [old] v = Some rs"
      "0 < length rs" "act = const_slot (rs ! 0)"
      by (auto simp: exec_insert_def panic_simps)
    then show ?thesis using calm_write[of p "[old]" v rs] calm_resolve[OF c] by simp
  qed
  have xt: "exec_extract c d t = Some act \<Longrightarrow> calm_action (ctime c) act" for t
    using calm_result[OF _ c] by (auto simp: exec_extract_def panic_simps)
  have mx: "exec_mux c d = Some act \<Longrightarrow> calm_action (ctime c) act"
  proof -
    assume "exec_mux c d = Some act"
    then obtain a vs k where "resolve_value c a = Some (ArrayVal vs)" "k < length vs" "act = const_slot (vs ! k)"
      by (auto simp: exec_mux_def panic_simps array_extract_field_def elim!: get_array.elims)
    then show ?thesis using calm_resolve[OF c] by fastforce
  qed
  have al: "do { a \<leftarrow> arg_at d 0; v \<leftarrow> resolve_value c a; Some (const_slot v) } = Some act \<Longrightarrow> calm_action (ctime c) act"
    using calm_resolve[OF c] by (auto simp: panic_simps)
  obtain t where "inst_type (dfg (cunit c)) i = Some t" using ex d by (auto simp: exec_def panic_simps)
  then show ?thesis
    using ex unfolding exec_def Let_def d
    by (simp split: if_split_asm) (use ct ag br wt me sg un bi sh ins xt mx al in \<open>blast | force\<close>)+
qed

section \<open>Instances\<close>

definition kind_unit :: "instance_kind \<Rightarrow> unit_data" where
  "kind_unit k = (case k of Process u _ \<Rightarrow> u | Entity u \<Rightarrow> u)"

definition calm_instance :: "instance_data \<Rightarrow> bool" where
  "calm_instance i \<longleftrightarrow> calm_slots (ivalues i) \<and> calm_consts (dfg (kind_unit (ikind i)))"

definition calm_events :: "time_value \<Rightarrow> event list \<Rightarrow> bool" where
  "calm_events t evs \<longleftrightarrow> (\<forall>e \<in> set evs. t \<le> ev_time e \<and> calm (ev_value e))"

text \<open>The instance does not wait for a time before \<open>t\<close>.\<close>

definition waits_after :: "time_value \<Rightarrow> instance_data \<Rightarrow> bool" where
  "waits_after t i \<longleftrightarrow> (\<forall>t' sigs. istate i = Wait (Some t') sigs \<longrightarrow> t \<le> t')"

lemma calm_events_simps [simp]:
  "calm_events t []" "calm_events t (evs @ es) \<longleftrightarrow> calm_events t evs \<and> calm_events t es"
  "calm_events t (e # es) \<longleftrightarrow> t \<le> ev_time e \<and> calm (ev_value e) \<and> calm_events t es"
  by (auto simp: calm_events_def)

lemma calm_set_value: "calm_slots (ivalues i) \<Longrightarrow> calm_slot s \<Longrightarrow> calm_slots (ivalues (instance_set_value v s i))"
  by (auto simp: calm_slots_def instance_set_value_def)

lemma set_value_kind [simp]: "ikind (instance_set_value v s i) = ikind i" "istate (instance_set_value v s i) = istate i"
  "isignals (instance_set_value v s i) = isignals i"
  by (simp_all add: instance_set_value_def)

lemma calm_store:
  assumes "store_variables p v i = Some i'" "calm_slots (ivalues i)" "calm v"
  shows "calm_slots (ivalues i') \<and> ikind i' = ikind i"
proof -
  obtain vars old new where s: "mapM (\<lambda>x. do { s \<leftarrow> instance_value x i; case s of SlotVariable k \<Rightarrow> Some k | _ \<Rightarrow> None }) vars = Some old"
    "write_pointer p old v = Some new" "i' = fold (\<lambda>(x, m). instance_set_value x (SlotVariable m)) (zip vars new) i"
    using assms(1) by (auto simp: store_variables_def panic_simps)
  have "\<forall>x \<in> set old. \<exists>y. ivalues i y = Some (SlotVariable x)"
    using s(1) by (induction vars arbitrary: old) (auto simp: instance_value_def panic_simps split: option.splits value_slot.splits)
  then have "\<forall>x \<in> set old. calm x" using assms(2) unfolding calm_slots_def by fastforce
  then have new: "\<forall>x \<in> set new. calm x" using calm_write[OF s(2)] assms(3) by blast
  have "calm_slots (ivalues (fold (\<lambda>(x, m). instance_set_value x (SlotVariable m)) xs j)) \<and>
      ikind (fold (\<lambda>(x, m). instance_set_value x (SlotVariable m)) xs j) = ikind j"
    if "calm_slots (ivalues j)" "\<forall>(x, m) \<in> set xs. calm m" for xs j
    using that by (induction xs arbitrary: j) (auto simp: calm_set_value)
  moreover have "\<forall>(x, m) \<in> set (zip vars new). calm m" using new by (auto dest: set_zip_rightD)
  ultimately show ?thesis using s(3) assms(2) by blast
qed

lemma calm_run:
  assumes "run_insts u sigs t is i evs = Some (i', evs', flow)" "calm_consts (dfg u)" "calm_signals sigs"
    and "calm_slots (ivalues i)" "calm_events t evs"
  shows "calm_slots (ivalues i') \<and> calm_events t evs' \<and> kind_unit (ikind i') = kind_unit (ikind i) \<and>
    (flow = FlowReturn \<longrightarrow> waits_after t i')"
  using assms(1,4,5)
proof (induction "is" arbitrary: i evs)
  case (Cons k ks)
  obtain act where act: "exec (context_of u sigs t i) k = Some act" using Cons.prems(1) by (auto simp: panic_simps)
  have "calm_context (context_of u sigs t i)" using assms(2,3) Cons.prems(2) by (simp add: calm_context_def context_of_def)
  from calm_exec[OF this act] have ca: "calm_action t act" by (simp add: context_of_def)
  show ?case
  proof (cases act)
    case (ActStore p v)
    then obtain j where j: "store_variables p v i = Some j" "run_insts u sigs t ks j evs = Some (i', evs', flow)"
      using Cons.prems(1) act by (auto simp: panic_simps)
    then show ?thesis using Cons.IH[OF j(2)] calm_store[OF j(1)] Cons.prems(2,3) ca ActStore by simp
  next
    case (ActValue s)
    then obtain v where "run_insts u sigs t ks (instance_set_value v s i) evs = Some (i', evs', flow)"
      using Cons.prems(1) act by (auto simp: panic_simps)
    from Cons.IH[OF this] show ?thesis using calm_set_value Cons.prems(2,3) ca ActValue by simp
  next
    case (ActSuspend b st)
    then show ?thesis using Cons.prems act ca by (auto simp: kind_unit_def waits_after_def split: instance_kind.splits)
  qed (use Cons act ca in auto)
qed simp

lemma calm_process:
  assumes "step_process u sigs t b i evs = Some (i', evs')" "calm_consts (dfg u)" "calm_signals sigs"
    and "calm_slots (ivalues i)" "calm_events t evs"
  shows "calm_slots (ivalues i') \<and> calm_events t evs' \<and> kind_unit (ikind i') = kind_unit (ikind i) \<and> waits_after t i'"
proof -
  have "calm_consts (dfg u) \<longrightarrow> calm_signals sigs \<longrightarrow> calm_slots (ivalues i) \<longrightarrow> calm_events t evs \<longrightarrow>
      calm_slots (ivalues (fst r)) \<and> calm_events t (snd r) \<and> kind_unit (ikind (fst r)) = kind_unit (ikind i) \<and> waits_after t (fst r)"
    if "step_process u sigs t b i evs = Some r" for r
    using that
  proof (induction arbitrary: rule: step_process.raw_induct[rotated, consumes 1])
    case (1 sp u sigs t b i evs r)
    show ?case
    proof (intro impI)
      assume ok: "calm_consts (dfg u)" "calm_signals sigs" "calm_slots (ivalues i)" "calm_events t evs"
      obtain bb "is" j es flow where s: "b = Some bb" "run_insts u sigs t is i evs = Some (j, es, flow)"
        "(case flow of FlowEnd \<Rightarrow> sp u sigs t None j es | FlowJump b \<Rightarrow> sp u sigs t (Some b) j es | FlowReturn \<Rightarrow> Some (j, es)) = Some r"
        using 1(2) by (auto simp: panic_simps split: option.splits)
      note c = calm_run[OF s(2) ok]
      show "calm_slots (ivalues (fst r)) \<and> calm_events t (snd r) \<and> kind_unit (ikind (fst r)) = kind_unit (ikind i) \<and> waits_after t (fst r)"
        using s(3) c 1(1) ok(1,2) by (cases flow) (auto, (metis+)?)
    qed
  qed
  then show ?thesis using assms by fastforce
qed

lemma calm_work:
  assumes "work_dirty ord u sigs t dirty dset i evs = Some r" "calm_consts (dfg u)" "calm_signals sigs"
    and "calm_slots (ivalues i)" "calm_events t evs"
  shows "calm_slots (ivalues (fst r)) \<and> calm_events t (snd r) \<and> ikind (fst r) = ikind i"
proof -
  have "calm_consts (dfg u) \<longrightarrow> calm_signals sigs \<longrightarrow> calm_slots (ivalues i) \<longrightarrow> calm_events t evs \<longrightarrow>
      calm_slots (ivalues (fst r)) \<and> calm_events t (snd r) \<and> ikind (fst r) = ikind i"
    using assms(1)
  proof (induction rule: work_dirty.raw_induct[rotated, consumes 1])
    case (1 wd ord u sigs t dirty dset i evs r)
    note IH = 1(1)
    show ?case
    proof (intro impI)
      assume ok: "calm_consts (dfg u)" "calm_signals sigs" "calm_slots (ivalues i)" "calm_events t evs"
      let ?goal = "calm_slots (ivalues (fst r)) \<and> calm_events t (snd r) \<and> ikind (fst r) = ikind i"
      show ?goal
      proof (cases dirty)
        case Nil
        then show ?thesis using 1(2) ok by auto
      next
        case (Cons k ks)
        obtain act where act: "exec (context_of u sigs t i) k = Some act" using 1(2) Cons by (auto simp: panic_simps)
        have "calm_context (context_of u sigs t i)" using ok by (simp add: calm_context_def context_of_def)
        from calm_exec[OF this act] have ca: "calm_action t act" by (simp add: context_of_def)
        show ?thesis
        proof (cases act)
          case ActNone
          then have "wd ord u sigs t ks (dset - {k}) i evs = Some r" using 1(2) Cons act by simp
          from IH[OF this] show ?thesis using ok by blast
        next
          case (ActEvent e)
          then have "wd ord u sigs t ks (dset - {k}) i (evs @ [e]) = Some r" using 1(2) Cons act by simp
          from IH[OF this] show ?thesis using ok ca ActEvent by simp
        next
          case (ActValue s)
          then obtain v ds dset' where "wd ord u sigs t ds dset' (instance_set_value v s i) evs = Some r"
            using 1(2) Cons act by (auto simp: panic_simps Let_def case_prod_beta split: if_splits)
          from IH[OF this] show ?thesis using ok calm_set_value ca ActValue by simp
        qed (use 1(2) Cons act in auto)
      qed
    qed
  qed
  then show ?thesis using assms by blast
qed

lemma calm_step_instance:
  assumes "step_instance ord sigs t changed first i = Some (i', evs)" "calm_signals sigs" "calm_instance i"
  shows "calm_instance i' \<and> calm_events t evs \<and> waits_after t i'"
proof (cases "ikind i")
  case (Process u b)
  then have "step_process u sigs t b i [] = Some (i', evs)" using assms(1) by (simp add: step_instance_def)
  from calm_process[OF this] show ?thesis using assms(2,3) Process by (simp add: calm_instance_def kind_unit_def)
next
  case (Entity u)
  then obtain dirty dset j where w: "work_dirty ord u sigs t dirty dset i [] = Some (j, evs)" "i' = j\<lparr>istate := Wait None (isignals j)\<rparr>"
    using assms(1) by (auto simp: step_instance_def step_entity_def panic_simps)
  from calm_work[OF w(1)] show ?thesis using assms(2,3) Entity w(2) by (simp add: calm_instance_def kind_unit_def waits_after_def)
qed

section \<open>The scheduler\<close>

definition calm_state :: "sim_state \<Rightarrow> bool" where
  "calm_state st \<longleftrightarrow> calm_signals (signals st) \<and> (\<forall>i \<in> set (instances st). calm_instance i)"

lemma calm_step_ready:
  assumes f: "foldM (step_ready ord changed first) ready (st, []) = Some (st', evs)" and c: "calm_state st"
  shows "calm_state st' \<and> calm_events (now st) evs \<and> same_queues st st' \<and>
    (\<forall>k. k \<notin> set ready \<longrightarrow> instances st' ! k = instances st ! k) \<and>
    (distinct ready \<longrightarrow> (\<forall>k \<in> set ready. waits_after (now st) (instances st' ! k)))"
proof -
  have "calm_state (fst r) \<and> calm_events (now st) (snd r) \<and> same_queues st (fst r) \<and>
      (\<forall>k. k \<notin> set ready \<longrightarrow> instances (fst r) ! k = instances st' ! k) \<and>
      (distinct ready \<longrightarrow> (\<forall>k \<in> set ready. waits_after (now st) (instances (fst r) ! k)))"
    if "foldM (step_ready ord changed first) ready (st', es) = Some r" "calm_state st'" "calm_events (now st) es" "same_queues st st'"
    for ready st' es r
    using that
  proof (induction ready arbitrary: st' es)
    case (Cons k ready)
    obtain q where q: "step_ready ord changed first k (st', es) = Some q" "foldM (step_ready ord changed first) ready q = Some r"
      using Cons.prems(1) by (auto split: option.splits)
    then obtain j fs where s: "k < length (instances st')"
      "step_instance ord (signals st') (now st') changed first (instances st' ! k) = Some (j, fs)"
      "foldM (step_ready ord changed first) ready (st'\<lparr>instances := (instances st')[k := j]\<rparr>, es @ fs) = Some r"
      using q(1) by (auto simp: step_ready_def panic_simps)
    have n: "now st' = now st" using Cons.prems(4) by (simp add: same_queues_def)
    have "calm_instance j \<and> calm_events (now st) fs \<and> waits_after (now st) j"
      using calm_step_instance[OF s(2)] Cons.prems(2) s(1) n by (simp add: calm_state_def)
    moreover from this have "calm_state (st'\<lparr>instances := (instances st')[k := j]\<rparr>)"
      using Cons.prems(2) set_update_subset_insert[of "instances st'" k j] by (auto simp: calm_state_def)
    moreover have "same_queues st (st'\<lparr>instances := (instances st')[k := j]\<rparr>)" using Cons.prems(4) by (simp add: same_queues_def)
    ultimately show ?case using Cons.IH[OF s(3)] Cons.prems(3) s(1) by (auto simp: nth_list_update)
  qed auto
  from this[OF f c] show ?thesis by (simp add: same_queues_def)
qed

lemma schedule_ok:
  "calm_events (now st) es \<Longrightarrow> \<exists>st'. schedule_events es st = Some st' \<and> now st' = now st \<and> instances st' = instances st \<and> signals st' = signals st"
proof (induction es arbitrary: st)
  case (Cons e es)
  then have "schedule_event e st \<noteq> None" by (simp add: schedule_event_def)
  then obtain s where s: "schedule_event e st = Some s" by blast
  then have "now s = now st" "instances s = instances st" "signals s = signals st" by (auto simp: schedule_event_def panic_simps)
  then show ?case using Cons.IH[of s] Cons.prems s by (simp add: schedule_events_def)
qed (simp add: schedule_events_def)

lemma schedule_timed_ok:
  "\<forall>x \<in> set ts. now st \<le> ti_time x \<Longrightarrow> \<exists>st'. schedule_timed ts st = Some st'"
proof (induction ts arbitrary: st)
  case (Cons e es)
  then have "schedule_timed_instance e st \<noteq> None" by (simp add: schedule_timed_instance_def)
  then obtain s where s: "schedule_timed_instance e st = Some s" by blast
  then have "now s = now st" by (auto simp: schedule_timed_instance_def panic_simps)
  then show ?case using Cons.IH[of s] Cons.prems s by (simp add: schedule_timed_def)
qed (simp add: schedule_timed_def)

end
