(* ===== verification/SimReach.thy ===== *)
theory SimReach
  imports SimTime
begin

text \<open>
  The runs of the simulator as the reachable states of a step relation, and the invariant of
  the reachable states.
\<close>

section \<open>Reachable states\<close>

text \<open>The state before each step of \<^verbatim>\<open>Engine::run\<close>; the flag is set before the first.\<close>

inductive reaches :: "(value_pointer set \<Rightarrow> value_pointer list) \<Rightarrow> (nat set \<Rightarrow> nat list) \<Rightarrow> sim_state \<Rightarrow> bool \<Rightarrow> sim_state \<Rightarrow> bool"
  for pord ord st0 where
  reaches_start: "reaches pord ord st0 True st0"
| reaches_step: "reaches pord ord st0 first st \<Longrightarrow> engine_step pord ord first st = Some (True, st') \<Longrightarrow>
    reaches pord ord st0 False st'"

inductive_cases reaches_first: "reaches pord ord st0 True st"

definition lists_pointers :: "(value_pointer set \<Rightarrow> value_pointer list) \<Rightarrow> bool" where
  "lists_pointers pord \<longleftrightarrow> (\<forall>S. finite S \<longrightarrow> set (pord S) = S \<and> distinct (pord S))"

definition calm_queue :: "sim_state \<Rightarrow> bool" where
  "calm_queue st \<longleftrightarrow> (\<forall>t m. events st t = Some m \<longrightarrow> finite (dom m) \<and> (\<forall>p v. m p = Some v \<longrightarrow> calm v))"

lemma calm_apply:
  assumes "apply_event (p, v) (st, changed) = Some (st', changed')" "calm_signals (signals st)" "calm v"
  shows "calm_signals (signals st')"
proof -
  obtain sigs old new where a: "mapM (\<lambda>s. map_option sig_value (idx (signals st) s)) sigs = Some old" "write_pointer p old v = Some new"
    "foldM update_signal (zip sigs (zip new old)) (st, changed) = Some (st', changed')"
    using assms(1) by (auto simp: apply_event_def panic_simps)
  have "\<forall>x \<in> set old. calm x"
    using a(1) assms(2) by (induction sigs arbitrary: old) (auto simp: calm_signals_def panic_simps split: option.splits)
  then have new: "\<forall>x \<in> set new. calm x" using calm_write[OF a(2)] assms(3) by blast
  have "(\<lambda>s. calm_signals (signals (fst s))) (st', changed')"
  proof (rule foldM_invariant[OF a(3)])
    fix x s s'
    assume x: "x \<in> set (zip sigs (zip new old))" and s: "calm_signals (signals (fst s))" and u: "update_signal x s = Some s'"
    obtain k m o' where xx: "x = (k, m, o')" by (cases x)
    have m: "calm m" using x xx new by (auto dest: set_zip_rightD set_zip_leftD)
    have "k < length (signals (fst s))" "signals (fst s') = (signals (fst s))[k := snd (signal_set_value m (signals (fst s) ! k))]"
      using u xx by (auto simp: update_signal_def panic_simps Let_def case_prod_beta split: prod.splits)
    moreover have "calm (sig_value (snd (signal_set_value m (signals (fst s) ! k))))"
      using m s calculation(1) by (auto simp: signal_set_value_def calm_signals_def)
    ultimately show "calm_signals (signals (fst s'))"
      using s set_update_subset_insert[of "signals (fst s)" k] unfolding calm_signals_def by fastforce
  qed (use assms(2) in simp)
  then show ?thesis by simp
qed

lemma calm_execute:
  assumes ex: "engine_execute pord ord first st = Some (st4, es, ready)"
    and c: "calm_state st" "calm_queue st" and pord: "lists_pointers pord"
  shows "calm_state st4 \<and> calm_queue st4 \<and> calm_events (now st4) es \<and> (\<forall>k \<in> set ready. waits_after (now st4) (instances st4 ! k))"
proof -
  from ex obtain evs st0 st1 changed woken st2 st3 where 1: "take_next_events pord st = (evs, st0)"
    and 2: "foldM apply_event evs (st0, {}) = Some (st1, changed)"
    and 3: "take_next_timed ord st1 = (woken, st2)" and 4: "foldM wake_timed woken st2 = Some st3"
    and r: "ready = ready_insts (st3\<lparr>instances := map (wake_sensitive changed) (instances st3)\<rparr>)"
    and 5: "foldM (step_ready ord changed first) ready (st3\<lparr>instances := map (wake_sensitive changed) (instances st3)\<rparr>, []) = Some (st4, es)"
    by (rule engine_executeE)
  let ?st = "st3\<lparr>instances := map (wake_sensitive changed) (instances st3)\<rparr>"
  have e: "\<forall>(p, v) \<in> set evs. calm v" and s0: "signals st0 = signals st" "instances st0 = instances st"
    using 1 c(2) pord by (auto simp: take_next_events_def calm_queue_def lists_pointers_def split: option.splits)
  have "(\<lambda>s. calm_signals (signals (fst s))) (st1, changed)"
  proof (rule foldM_invariant[OF 2])
    fix x s s' assume "x \<in> set evs" "calm_signals (signals (fst s))" "apply_event x s = Some s'"
    then show "calm_signals (signals (fst s'))"
      using calm_apply[of "fst x" "snd x" "fst s" "snd s" "fst s'" "snd s'"] e by auto
  qed (use c(1) s0 in \<open>simp add: calm_state_def\<close>)
  then have c1: "calm_signals (signals st1)" "instances st1 = instances st" using apply_events_queues[OF 2] s0 by simp_all
  have s2: "signals st2 = signals st1" "instances st2 = instances st1" using 3 by (auto simp: take_next_timed_def split: option.splits)
  have "\<forall>i \<in> set (instances st3). calm_instance i"
  proof (rule foldM_invariant[OF 4])
    fix x s s' assume s: "\<forall>i \<in> set (instances s). calm_instance i" "wake_timed x s = Some s'"
    then have x: "x < length (instances s)" "instances s' = (instances s)[x := (instances s ! x)\<lparr>istate := Ready\<rparr>]"
      by (auto simp: wake_timed_def panic_simps)
    have "calm_instance ((instances s ! x)\<lparr>istate := Ready\<rparr>)" using s(1) x(1) by (simp add: calm_instance_def)
    then show "\<forall>i \<in> set (instances s'). calm_instance i"
      using s(1) set_update_subset_insert[of "instances s" x] x(2) by auto
  qed (use c(1) c1 s2 in \<open>simp add: calm_state_def\<close>)
  moreover have "calm_instance i \<Longrightarrow> calm_instance (wake_sensitive changed i)" for i
    by (auto simp: wake_sensitive_def calm_instance_def split: instance_state.splits)
  ultimately have c3: "calm_state ?st" using c1 s2 wake_timed_queues[OF 4] by (auto simp: calm_state_def)
  note s4 = calm_step_ready[OF 5 c3]
  have q4: "events st4 = (events st)(now st := None)"
    using s4 1 apply_events_queues[OF 2] wake_timed_queues[OF 4] 3
    by (auto simp: same_queues_def take_next_events_def take_next_timed_def split: option.splits)
  then have cq4: "calm_queue st4" using c(2) by (auto simp: calm_queue_def)
  moreover have "distinct ready" unfolding r by (simp add: ready_insts_def)
  moreover have "now st4 = now ?st" using s4 by (simp add: same_queues_def)
  ultimately show ?thesis using s4 by simp
qed

lemma calm_engine_step:
  assumes step: "engine_step pord ord first st = Some (busy, st')" and c: "calm_state st" "calm_queue st" and pord: "lists_pointers pord"
  shows "calm_state st' \<and> calm_queue st'"
proof -
  obtain st4 es ready where ex: "engine_execute pord ord first st = Some (st4, es, ready)" and sc: "engine_schedule es ready st4 = Some (busy, st')"
    using step by (auto simp: engine_step_def panic_simps)
  note s4 = calm_execute[OF ex c pord]
  from sc obtain st5 where 6: "schedule_events es st4 = Some st5"
    and 7: "schedule_timed (concat (map (timed_wait st5) ready)) st5 = Some (st'\<lparr>now := now st5\<rparr>)"
    by (rule engine_scheduleE)
  let ?st6 = "st'\<lparr>now := now st5\<rparr>"
  have "calm_queue st5 \<and> signals st5 = signals st4 \<and> instances st5 = instances st4"
  proof (rule foldM_invariant[OF 6[unfolded schedule_events_def]])
    fix e s s' assume s: "e \<in> set es" "calm_queue s \<and> signals s = signals st4 \<and> instances s = instances st4" "schedule_event e s = Some s'"
    then have "calm (ev_value e)" using s4 by (simp add: calm_events_def)
    then show "calm_queue s' \<and> signals s' = signals st4 \<and> instances s' = instances st4"
      using s(2,3) by (auto simp: schedule_event_def panic_simps calm_queue_def entry_or_def split: option.splits if_splits)
  qed (use s4 in simp)
  moreover have "events ?st6 = events st5 \<and> signals ?st6 = signals st5 \<and> instances ?st6 = instances st5"
    by (rule foldM_invariant[OF 7[unfolded schedule_timed_def]]) (auto simp: schedule_timed_instance_def panic_simps)
  ultimately show ?thesis using s4 by (simp add: calm_state_def calm_queue_def)
qed

lemma schedule_returns:
  assumes "calm_events (now st) es" "\<forall>k \<in> set ready. waits_after (now st) (instances st ! k)"
  shows "\<exists>r. engine_schedule es ready st = Some r"
proof -
  obtain st5 where st5: "schedule_events es st = Some st5" "now st5 = now st" "instances st5 = instances st"
    using schedule_ok[OF assms(1)] by blast
  have "\<forall>x \<in> set (concat (map (timed_wait st5) ready)). now st5 \<le> ti_time x"
  proof
    fix x assume "x \<in> set (concat (map (timed_wait st5) ready))"
    then obtain k where k: "k \<in> set ready" "x \<in> set (timed_wait st5 k)" by auto
    then have "waits_after (now st) (instances st ! k)" using assms(2) by blast
    then show "now st5 \<le> ti_time x"
      using k(2) st5(2,3) by (cases "istate (instances st ! k)") (auto simp: timed_wait_def waits_after_def split: option.splits)
  qed
  from schedule_timed_ok[OF this] st5(1) show ?thesis by (auto simp: engine_schedule_def)
qed

lemma reaches_inv:
  assumes "reaches pord ord st0 first st" "queue_inv st0" "calm_state st0" "calm_queue st0" "lists_pointers pord"
  shows "queue_inv st \<and> calm_state st \<and> calm_queue st \<and> now st0 \<le> now st"
  using assms
proof (induction rule: reaches.induct)
  case (reaches_step first st st')
  then show ?case using engine_step_queues[OF reaches_step(2)] calm_engine_step[OF reaches_step(2)] by force
qed simp

end
