(* ===== verification/SimHazards.thy ===== *)
theory SimHazards
  imports SimReach DomTreeProps
begin

text \<open>
  Two hazards of the simulator: a timed wake-up that outlives the wait it was made for, and a
  write through a pointer whose slices name the same target twice.
\<close>

section \<open>A wake-up of a halted process\<close>

lemma step_ready_other:
  assumes "foldM (step_ready ord changed first) ks (st, evs) = Some (st', evs')" "k \<notin> set ks"
  shows "instances st' ! k = instances st ! k"
proof -
  have "(\<lambda>s. instances (fst s) ! k = instances st ! k) (st', evs')"
  proof (rule foldM_invariant[OF assms(1)])
    fix x s s' assume "x \<in> set ks" "instances (fst s) ! k = instances st ! k" "step_ready ord changed first x s = Some s'"
    then show "instances (fst s') ! k = instances st ! k"
      using assms(2) by (cases s; cases "x = k") (auto simp: step_ready_def panic_simps)
  qed simp
  then show ?thesis by simp
qed

lemma halted_panics:
  assumes k: "k < length (instances st)" "ikind (instances st ! k) = Process u None" "istate (instances st ! k) = Ready"
  shows "foldM (step_ready ord changed first) (ready_insts st) (st, []) = None"
proof (rule ccontr)
  assume "foldM (step_ready ord changed first) (ready_insts st) (st, []) \<noteq> None"
  then obtain r where r: "foldM (step_ready ord changed first) (ready_insts st) (st, []) = Some r" by blast
  have "k \<in> set (ready_insts st)" using k by (simp add: ready_insts_def)
  then obtain as bs where ks: "ready_insts st = as @ k # bs" by (meson split_list)
  have "distinct (ready_insts st)" by (simp add: ready_insts_def)
  then have "k \<notin> set as" using ks by simp
  obtain s evs where s: "foldM (step_ready ord changed first) as (st, []) = Some (s, evs)" "step_ready ord changed first k (s, evs) \<noteq> None"
    using r unfolding ks foldM_append by (auto simp: panic_simps split: option.splits)
  have "instances s ! k = instances st ! k" by (rule step_ready_other[OF s(1) \<open>k \<notin> set as\<close>])
  then have "step_instance ord (signals s) (now s) changed first (instances s ! k) = None"
    using k(2) by (simp add: step_instance_def step_process.simps)
  then show False using s(2) by (auto simp: step_ready_def idx_def split: if_splits)
qed

lemma wake_timed_kinds:
  assumes "foldM wake_timed woken st = Some st'"
  shows "length (instances st') = length (instances st) \<and> (\<forall>k < length (instances st).
    ikind (instances st' ! k) = ikind (instances st ! k) \<and>
    istate (instances st' ! k) = (if k \<in> set woken then Ready else istate (instances st ! k)))"
  using assms
proof (induction woken arbitrary: st)
  case (Cons w ws)
  then obtain s where s: "wake_timed w st = Some s" "foldM wake_timed ws s = Some st'" by (auto split: option.splits)
  then have w: "w < length (instances st)" "instances s = (instances st)[w := (instances st ! w)\<lparr>istate := Ready\<rparr>]"
    by (auto simp: wake_timed_def idx_def split: option.splits if_splits)
  show ?case
  proof (intro conjI allI impI)
    show "length (instances st') = length (instances st)" using Cons.IH[OF s(2)] w(2) by simp
    fix k assume k: "k < length (instances st)"
    then have k': "k < length (instances s)" using w(2) by simp
    have h: "ikind (instances st' ! k) = ikind (instances s ! k)"
        "istate (instances st' ! k) = (if k \<in> set ws then Ready else istate (instances s ! k))"
      using Cons.IH[OF s(2)] k' by blast+
    have g: "instances s ! k = (if k = w then (instances st ! w)\<lparr>istate := Ready\<rparr> else instances st ! k)"
      using k unfolding w(2) by (simp add: nth_list_update)
    show "ikind (instances st' ! k) = ikind (instances st ! k)" unfolding h(1) g by simp
    show "istate (instances st' ! k) = (if k \<in> set (w # ws) then Ready else istate (instances st ! k))" unfolding h(2) g by simp
  qed
qed simp

lemma stale_wakeup:
  assumes "timed st (now st) = Some S" "finite S" "k \<in> S" "lists_sets ord"
    and "k < length (instances st)" "ikind (instances st ! k) = Process u None"
  shows "engine_step pord ord first st = None"
proof (rule ccontr)
  assume "engine_step pord ord first st \<noteq> None"
  then obtain st4 es ready where ex: "engine_execute pord ord first st = Some (st4, es, ready)"
    by (auto simp: engine_step_def panic_simps)
  from ex obtain evs st0 st1 changed woken st2 st3 where 1: "take_next_events pord st = (evs, st0)"
    and 2: "foldM apply_event evs (st0, {}) = Some (st1, changed)"
    and 3: "take_next_timed ord st1 = (woken, st2)" and 4: "foldM wake_timed woken st2 = Some st3"
    and r: "ready = ready_insts (st3\<lparr>instances := map (wake_sensitive changed) (instances st3)\<rparr>)"
    and 5: "foldM (step_ready ord changed first) ready (st3\<lparr>instances := map (wake_sensitive changed) (instances st3)\<rparr>, []) = Some (st4, es)"
    by (rule engine_executeE)
  let ?st = "st3\<lparr>instances := map (wake_sensitive changed) (instances st3)\<rparr>"
  have s1: "now st1 = now st" "timed st1 = timed st" "instances st1 = instances st"
    using 1 apply_events_queues[OF 2] by (auto simp: take_next_events_def same_queues_def split: option.splits)
  have "timed st1 (now st1) = Some S" using assms(1) s1 by simp
  then have t: "woken = ord S" "instances st2 = instances st" using 3 s1(3) by (auto simp: take_next_timed_def)
  have w: "set woken = S" "instances st2 = instances st" using t assms(2,4) unfolding lists_sets_def by blast+
  have "length (instances st3) = length (instances st)" "ikind (instances st3 ! k) = Process u None" "istate (instances st3 ! k) = Ready"
    using wake_timed_kinds[OF 4] w assms(3,5,6) by auto
  then have "foldM (step_ready ord changed first) (ready_insts ?st) (?st, []) = None"
    using assms(5) by (intro halted_panics[of k _ u]) (auto simp: wake_sensitive_def)
  then show False using 5 r by simp
qed

text \<open>
  A process that waits for the signal \<open>0\<close> or the time \<open>2\<close> and halts when it is resumed; the
  signal changes at time \<open>1\<close>.
\<close>

definition halting_unit :: "function_layout \<Rightarrow> unit_data" where
  "halting_unit l = \<lparr>ukind = ProcessUnit, uname = AnonymousName 0, usig = sig_new,
     dfg = dfg_new\<lparr>dinsts := \<lparr>storage = [INullary OpHalt], count = 1, used = {0}, free = {}\<rparr>\<rparr>,
     cfg = \<lparr>cblocks = \<lparr>storage = [None], count = 1, used = {0}, free = {}\<rparr>, block_hints = Map.empty\<rparr>, layout = l\<rparr>"

definition waiting :: "function_layout \<Rightarrow> instance_data" where
  "waiting l = \<lparr>ivalues = Map.empty, ikind = Process (halting_unit l) (Some 0), istate = Wait (Some (TimeValue 2 0 0)) [0],
     isignals = [0], isignal_values = Map.empty\<rparr>"

definition whole_signal :: value_pointer where
  "whole_signal = [\<lparr>target = TgtSignal 0, select = [], swidth = 1\<rparr>]"

definition race :: "function_layout \<Rightarrow> sim_state" where
  "race l = \<lparr>signals = [\<lparr>sig_ty = IntType 1, sig_value = IntVal (IntValue 1 0)\<rparr>], probes = Map.empty, root_scope = scope_new '''',
     instances = [waiting l], now = TimeValue 1 0 0,
     events = [TimeValue 1 0 0 \<mapsto> [whole_signal \<mapsto> IntVal (IntValue 1 1)]], timed = [TimeValue 2 0 0 \<mapsto> {0}]\<rparr>"

definition halted :: "function_layout \<Rightarrow> sim_state" where
  "halted l = (race l)\<lparr>signals := [\<lparr>sig_ty = IntType 1, sig_value = IntVal (IntValue 1 1)\<rparr>], now := TimeValue 2 0 0,
     instances := [(waiting l)\<lparr>istate := Done, ikind := Process (halting_unit l) None\<rparr>], events := Map.empty\<rparr>"

lemma race_step:
  assumes l: "fl_rep l [(0, [0])]" and po: "pord {whole_signal} = [whole_signal]"
  shows "engine_step pord ord first (race l) = Some (True, halted l)"
proof -
  let ?s1 = "(race l)\<lparr>events := Map.empty, signals := [\<lparr>sig_ty = IntType 1, sig_value = IntVal (IntValue 1 1)\<rparr>]\<rparr>"
  let ?s2 = "?s1\<lparr>instances := [(waiting l)\<lparr>istate := Ready\<rparr>]\<rparr>"
  let ?s3 = "?s1\<lparr>instances := [(waiting l)\<lparr>istate := Done, ikind := Process (halting_unit l) None\<rparr>]\<rparr>"
  have take: "take_next_events pord (race l) = ([(whole_signal, IntVal (IntValue 1 1))], (race l)\<lparr>events := Map.empty\<rparr>)"
    using po by (simp add: take_next_events_def race_def)
  have app: "foldM apply_event [(whole_signal, IntVal (IntValue 1 1))] ((race l)\<lparr>events := Map.empty\<rparr>, {}) = Some (?s1, {0})"
    by (simp add: apply_event_def whole_signal_def unwrap_signal_def race_def idx_def write_pointer_def offset_slices_def subvalue_def
        write_pointer_slice_def idx_set_def update_signal_def signal_set_value_def iv_extract_slice_def from_unsigned_def)
  have nt: "take_next_timed ord ?s1 = ([], ?s1)" by (simp add: take_next_timed_def race_def)
  have wk: "map (wake_sensitive {0}) (instances ?s1) = [(waiting l)\<lparr>istate := Ready\<rparr>]"
    by (simp add: race_def wake_sensitive_def waiting_def)
  have rd: "ready_insts ?s2 = [0]" by (simp add: ready_insts_def)
  have bi: "block_insts l 0 = Some [0]" using fl_rep_insts[OF l, of "(0, [0])"] by simp
  have ex: "exec (context_of (halting_unit l) sg t i) 0 = Some (ActSuspend None Done)" for sg t i
    by (simp add: exec_def context_of_def halting_unit_def pt2_index_def idx_def inst_type_def has_result_def st_contains_def dfg_new_def
        st_new_def opcode_of_def sim_binary_ops_def sim_compare_ops_def)
  have sp: "step_process (halting_unit l) sg t (Some 0) ((waiting l)\<lparr>istate := Ready\<rparr>) [] =
      Some ((waiting l)\<lparr>istate := Done, ikind := Process (halting_unit l) None\<rparr>, [])" for sg t
  proof -
    have "layout (halting_unit l) = l" by (simp add: halting_unit_def)
    moreover have "ikind ((waiting l)\<lparr>istate := Ready\<rparr>) = Process (halting_unit l) (Some 0)" by (simp add: waiting_def)
    ultimately show ?thesis using bi ex by (subst step_process.simps) simp
  qed
  have "ikind ((waiting l)\<lparr>istate := Ready\<rparr>) = Process (halting_unit l) (Some 0)" by (simp add: waiting_def)
  then have si: "step_instance ord sg t {0} first ((waiting l)\<lparr>istate := Ready\<rparr>) =
      Some ((waiting l)\<lparr>istate := Done, ikind := Process (halting_unit l) None\<rparr>, [])" for sg t
    unfolding step_instance_def using sp by simp
  have run: "foldM (step_ready ord {0} first) [0] (?s2, []) = Some (?s3, [])"
    using si by (simp add: step_ready_def idx_def)
  have ex: "engine_execute pord ord first (race l) = Some (?s3, [], [0])"
    using app nt run wk rd by (simp add: engine_execute_def take Let_def)
  have tw: "timed_wait ?s3 0 = []" by (simp add: timed_wait_def)
  have nx: "next_time ?s3 = Some (TimeValue 2 0 0)" by (simp add: next_time_def first_key_def race_def)
  have "engine_schedule [] [0] ?s3 = Some (True, ?s3\<lparr>now := TimeValue 2 0 0\<rparr>)"
    using tw nx by (simp add: engine_schedule_def schedule_events_def schedule_timed_def)
  then show ?thesis unfolding engine_step_def ex by (simp add: halted_def)
qed

text \<open>
  C38: an early resume leaves the timed entry of the wait in the queue. When a process that was
  resumed by a signal has halted before that entry comes due, the step of its time sets the
  halted process to ready again and panics, whatever else the state holds and whatever the order
  of the hash tables is; the witness is a process that waits for a signal or a time, and halts.
\<close>

theorem stale_wakeup_panics:
  assumes "timed st (now st) = Some S" "finite S" "k \<in> S" "lists_sets ord"
    and "k < length (instances st)" "ikind (instances st ! k) = Process u None"
  shows "engine_step pord ord first st = None"
  by (rule stale_wakeup[OF assms])

theorem stale_wakeup_panics_witness:
  "\<exists>l st. now (race l) = TimeValue 1 0 0 \<and> engine_step (\<lambda>S. [whole_signal]) sorted_list_of_set False (race l) = Some (True, st) \<and>
     istate (instances st ! 0) = Done \<and> engine_step (\<lambda>S. [whole_signal]) sorted_list_of_set False st = None"
proof -
  have "foldM abs_op [AppendBlock 0, AppendInst 0 0] [] = Some [(0, [0])]" by (simp add: abs_op_def guarded_def keys_def members_def at_block_def)
  then obtain l where l: "fl_rep l [(0, [0])]" using ops_exist[OF fl_rep_new] by blast
  let ?p = "\<lambda>S. [whole_signal]"
  have "engine_step ?p sorted_list_of_set False (race l) = Some (True, halted l)" by (rule race_step[OF l refl])
  moreover have "engine_step ?p sorted_list_of_set False (halted l) = None"
    by (rule stale_wakeup_panics[of "halted l" "{0}" 0 _ "halting_unit l"]) (simp_all add: halted_def race_def lists_sets_def)
  moreover have "istate (instances (halted l) ! 0) = Done" "now (race l) = TimeValue 1 0 0" by (simp_all add: halted_def race_def)
  ultimately show ?thesis by blast
qed

section \<open>A pointer that names a variable twice\<close>

text \<open>
  Storing through a pointer whose two slices point into the same variable loses the first
  slice: each slice is written to its own copy of the old value and the copies are stored one
  after the other, so the variable ends as if only the second slice had been written. The
  witness is the pointer that the shift of a variable by half its width, with the same variable
  as the hidden operand, gives: storing 15 through it leaves 3 in a four bit variable that was 0.
\<close>

theorem aliased_store_loses_slice:
  assumes "store_variables [s1, s2] v i = Some i'" "target s1 = TgtVariable x" "target s2 = TgtVariable x"
  shows "\<exists>old sub new. ivalues i x = Some (SlotVariable old) \<and> subvalue v (swidth s1) (swidth s2) = Some sub \<and>
    write_pointer_slice s2 old sub = Some new \<and> ivalues i' x = Some (SlotVariable new)"
  using assms
  by (auto simp: store_variables_def panic_simps unwrap_variable_def write_pointer_def offset_slices_def instance_value_def
      instance_set_value_def split: option.splits value_slot.splits)

theorem aliased_store_loses_slice_witness:
  "\<exists>p s1 s2 i i'. exec_shift OpShr [\<lparr>target = TgtVariable 0, select = [], swidth = 4\<rparr>]
       [\<lparr>target = TgtVariable 0, select = [], swidth = 4\<rparr>] (IntVal (IntValue 32 2)) = Some p \<and> p = [s1, s2] \<and>
     ivalues i 0 = Some (SlotVariable (IntVal (IntValue 4 0))) \<and> store_variables p (IntVal (IntValue 4 15)) i = Some i' \<and>
     ivalues i' 0 = Some (SlotVariable (IntVal (IntValue 4 3)))"
proof -
  let ?w = "\<lparr>target = TgtVariable 0, select = [], swidth = 4\<rparr>"
  let ?s = "\<lambda>k. \<lparr>target = TgtVariable 0, select = [SelSlice k 2], swidth = 2\<rparr>"
  let ?i = "\<lparr>ivalues = [0 \<mapsto> SlotVariable (IntVal (IntValue 4 0))], ikind = Entity (halting_unit undefined), istate = Ready,
     isignals = [], isignal_values = Map.empty\<rparr>"
  have p: "exec_shift OpShr [?w] [?w] (IntVal (IntValue 32 2)) = Some [?s 2, ?s 0]"
    by (simp add: exec_shift_def to_usize_def window_def window_slice_def offset_slices_def ptr_width_def mapM.simps ensure_def Let_def sv_get_int_def)
  obtain i' where i': "store_variables [?s 2, ?s 0] (IntVal (IntValue 4 15)) ?i = Some i'"
    by (simp add: store_variables_def unwrap_variable_def write_pointer_def offset_slices_def instance_value_def subvalue_def
        write_pointer_slice_def idx_def idx_set_def iv_insert_slice_def iv_extract_slice_def from_unsigned_def)
  have v: "iv_extract_slice (IntValue 4 15) 2 2 = IntValue 2 3" by (simp add: iv_extract_slice_def from_unsigned_def)
  have w: "iv_insert_slice (IntValue 4 0) 0 2 (IntValue 2 3) = Some (IntValue 4 3)" by (simp add: iv_insert_slice_def)
  obtain old sub new where "ivalues ?i 0 = Some (SlotVariable old)" "subvalue (IntVal (IntValue 4 15)) 2 2 = Some sub"
    "write_pointer_slice (?s 0) old sub = Some new" "ivalues i' 0 = Some (SlotVariable new)"
    using aliased_store_loses_slice[OF i', of 0] by (simp only: value_slice.simps) blast
  moreover from this v have "old = IntVal (IntValue 4 0)" "sub = IntVal (IntValue 2 3)" by (simp_all add: subvalue_def)
  moreover have "iv_extract_slice (IntValue 4 0) 0 2 = IntValue 2 0" by (simp add: iv_extract_slice_def from_unsigned_def)
  ultimately have "ivalues i' 0 = Some (SlotVariable (IntVal (IntValue 4 3)))" using w by (simp add: write_pointer_slice_def)
  then show ?thesis using p i' by (intro exI[of _ "[?s 2, ?s 0]"] exI[of _ "?s 2"] exI[of _ "?s 0"] exI[of _ ?i] exI[of _ i'] conjI) simp_all
qed

end
