(* ===== verification/SimSchedule.thy ===== *)
theory SimSchedule
  imports SimReach
begin

text \<open>
  What a step does to the contents of the queues: the entries of the current time go, what
  the instances asked for is entered, a later event for the same time and pointer replaces an
  earlier one, and everything else stays as it was, values included. Along a run the queue of
  a time that has not come is the queue of the start with the events of the run entered.
\<close>

section \<open>Contents of the queues\<close>

text \<open>The value queued for a time and pointer, the instances to be woken at a time.\<close>

definition queue_value :: "sim_state \<Rightarrow> time_value \<Rightarrow> value_pointer \<Rightarrow> sim_value option" where
  "queue_value st t p = (case events st t of Some m \<Rightarrow> m p | None \<Rightarrow> None)"

definition wakes :: "sim_state \<Rightarrow> time_value \<Rightarrow> nat set" where
  "wakes st t = (case timed st t of Some s \<Rightarrow> s | None \<Rightarrow> {})"

text \<open>The value of the last event of a list for a time and pointer.\<close>

definition last_event :: "event list \<Rightarrow> time_value \<Rightarrow> value_pointer \<Rightarrow> sim_value option" where
  "last_event es t p = map_of (rev (map (\<lambda>e. ((ev_time e, ev_signal e), ev_value e)) es)) (t, p)"

definition overlay :: "sim_value option \<Rightarrow> sim_value option \<Rightarrow> sim_value option" where
  "overlay new old = (case new of Some v \<Rightarrow> Some v | None \<Rightarrow> old)"

lemma overlay_simps [simp]: "overlay None x = x" "overlay (Some v) x = Some v"
  by (simp_all add: overlay_def)

lemma overlay_assoc: "overlay a (overlay b c) = overlay (overlay a b) c"
  by (cases a) simp_all

lemma last_event_Nil [simp]: "last_event [] t p = None"
  by (simp add: last_event_def)

lemma last_event_append: "last_event (es @ es') t p = overlay (last_event es' t p) (last_event es t p)"
  by (cases "last_event es' t p") (auto simp: last_event_def overlay_def map_add_def split: option.splits)

lemma last_event_snoc: "last_event (es @ [e]) t p =
    (if ev_time e = t \<and> ev_signal e = p then Some (ev_value e) else last_event es t p)"
  by (simp add: last_event_def)

lemma schedule_events_contents:
  assumes "schedule_events es st = Some st'"
  shows "queue_value st' t p = overlay (last_event es t p) (queue_value st t p)"
    and "dom (events st') = dom (events st) \<union> ev_time ` set es"
    and "timed st' = timed st \<and> now st' = now st \<and> signals st' = signals st \<and> instances st' = instances st"
proof -
  have "(\<forall>t p. queue_value st' t p = overlay (last_event es t p) (queue_value st t p)) \<and>
      dom (events st') = dom (events st) \<union> ev_time ` set es \<and>
      timed st' = timed st \<and> now st' = now st \<and> signals st' = signals st \<and> instances st' = instances st"
    using assms[unfolded schedule_events_def]
  proof (induction es arbitrary: st' rule: rev_induct)
    case (snoc e es)
    from snoc.prems have "Option.bind (foldM schedule_event es st) (foldM schedule_event [e]) = Some st'" unfolding foldM_append .
    then obtain s where s: "foldM schedule_event es st = Some s" "schedule_event e s = Some st'"
      by (cases "foldM schedule_event es st") (auto split: option.splits)
    have e: "st' = s\<lparr>events := (events s)(ev_time e \<mapsto> (entry_or Map.empty (ev_time e) (events s))(ev_signal e \<mapsto> ev_value e))\<rparr>"
      using s(2) by (auto simp: schedule_event_def panic_simps)
    have "queue_value st' t p = (if ev_time e = t \<and> ev_signal e = p then Some (ev_value e) else queue_value s t p)" for t p
      unfolding e by (auto simp: queue_value_def entry_or_def split: option.splits)
    then have c: "\<forall>t p. queue_value st' t p = overlay (last_event (es @ [e]) t p) (queue_value st t p)"
      using snoc.IH[OF s(1)] unfolding last_event_snoc by simp
    have "dom (events st') = insert (ev_time e) (dom (events s))" unfolding e by simp
    then have d: "dom (events st') = dom (events st) \<union> ev_time ` set (es @ [e])" using snoc.IH[OF s(1)] by simp
    have "timed st' = timed s \<and> now st' = now s \<and> signals st' = signals s \<and> instances st' = instances s"
      by (simp add: e)
    then show ?case using snoc.IH[OF s(1)] c d by (simp only: simp_thms)
  qed simp
  then show "queue_value st' t p = overlay (last_event es t p) (queue_value st t p)"
    "dom (events st') = dom (events st) \<union> ev_time ` set es"
    "timed st' = timed st \<and> now st' = now st \<and> signals st' = signals st \<and> instances st' = instances st" by blast+
qed

lemma schedule_timed_contents:
  assumes "schedule_timed ts st = Some st'"
  shows "wakes st' t = wakes st t \<union> {k. \<lparr>ti_time = t, ti_inst = k\<rparr> \<in> set ts}"
    and "dom (timed st') = dom (timed st) \<union> ti_time ` set ts"
    and "events st' = events st \<and> now st' = now st \<and> signals st' = signals st \<and> instances st' = instances st"
proof -
  have "(\<forall>t. wakes st' t = wakes st t \<union> {k. \<lparr>ti_time = t, ti_inst = k\<rparr> \<in> set ts}) \<and>
      dom (timed st') = dom (timed st) \<union> ti_time ` set ts \<and>
      events st' = events st \<and> now st' = now st \<and> signals st' = signals st \<and> instances st' = instances st"
    using assms[unfolded schedule_timed_def]
  proof (induction ts arbitrary: st' rule: rev_induct)
    case (snoc e ts)
    from snoc.prems have "Option.bind (foldM schedule_timed_instance ts st) (foldM schedule_timed_instance [e]) = Some st'"
      unfolding foldM_append .
    then obtain s where s: "foldM schedule_timed_instance ts st = Some s" "schedule_timed_instance e s = Some st'"
      by (cases "foldM schedule_timed_instance ts st") (auto split: option.splits)
    have e: "st' = s\<lparr>timed := (timed s)(ti_time e \<mapsto> insert (ti_inst e) (entry_or {} (ti_time e) (timed s)))\<rparr>"
      using s(2) by (auto simp: schedule_timed_instance_def panic_simps)
    have "wakes st' t = wakes s t \<union> {k. \<lparr>ti_time = t, ti_inst = k\<rparr> = e}" for t
      unfolding e by (cases e) (auto simp: wakes_def entry_or_def split: option.splits)
    then have c: "\<forall>t. wakes st' t = wakes st t \<union> {k. \<lparr>ti_time = t, ti_inst = k\<rparr> \<in> set (ts @ [e])}"
      using snoc.IH[OF s(1)] by auto
    have "dom (timed st') = insert (ti_time e) (dom (timed s))" unfolding e by simp
    then have d: "dom (timed st') = dom (timed st) \<union> ti_time ` set (ts @ [e])" using snoc.IH[OF s(1)] by simp
    have "events st' = events s \<and> now st' = now s \<and> signals st' = signals s \<and> instances st' = instances s"
      by (simp add: e)
    then show ?case using snoc.IH[OF s(1)] c d by (simp only: simp_thms)
  qed simp
  then show "wakes st' t = wakes st t \<union> {k. \<lparr>ti_time = t, ti_inst = k\<rparr> \<in> set ts}"
    "dom (timed st') = dom (timed st) \<union> ti_time ` set ts"
    "events st' = events st \<and> now st' = now st \<and> signals st' = signals st \<and> instances st' = instances st" by blast+
qed

text \<open>The instances of a step that ask to be woken at a time.\<close>

definition wake_requests :: "sim_state \<Rightarrow> nat list \<Rightarrow> time_value \<Rightarrow> nat set" where
  "wake_requests st rs t = {k \<in> set rs. \<exists>sigs. istate (instances st ! k) = Wait (Some t) sigs}"

lemma timed_waits: "{k. \<lparr>ti_time = t, ti_inst = k\<rparr> \<in> set (concat (map (timed_wait st) rs))} = wake_requests st rs t"
  "ti_time ` set (concat (map (timed_wait st) rs)) = {t. wake_requests st rs t \<noteq> {}}"
proof -
  have w: "x \<in> set (timed_wait st k) \<longleftrightarrow> ti_inst x = k \<and> (\<exists>sigs. istate (instances st ! k) = Wait (Some (ti_time x)) sigs)" for x k
    by (cases x; cases "istate (instances st ! k)") (auto simp: timed_wait_def split: option.splits)
  show "{k. \<lparr>ti_time = t, ti_inst = k\<rparr> \<in> set (concat (map (timed_wait st) rs))} = wake_requests st rs t"
    using w by (auto simp: wake_requests_def)
  show "ti_time ` set (concat (map (timed_wait st) rs)) = {t. wake_requests st rs t \<noteq> {}}"
  proof (intro set_eqI iffI)
    fix u assume "u \<in> {t. wake_requests st rs t \<noteq> {}}"
    then obtain k where "k \<in> wake_requests st rs u" by blast
    then have "\<lparr>ti_time = u, ti_inst = k\<rparr> \<in> set (concat (map (timed_wait st) rs))" using w by (auto simp: wake_requests_def)
    then show "u \<in> ti_time ` set (concat (map (timed_wait st) rs))" by force
  qed (use w in \<open>auto simp: wake_requests_def\<close>)
qed

text \<open>The first half of a step empties the queues of the current time and nothing else.\<close>

lemma engine_execute_queues:
  assumes "engine_execute pord ord first st = Some (st4, es, rs)"
  shows "now st4 = now st" "events st4 = (events st)(now st := None)" "timed st4 = (timed st)(now st := None)"
proof -
  from assms obtain evs st0 st1 changed woken st2 st3 where 1: "take_next_events pord st = (evs, st0)"
    and 2: "foldM apply_event evs (st0, {}) = Some (st1, changed)"
    and 3: "take_next_timed ord st1 = (woken, st2)" and 4: "foldM wake_timed woken st2 = Some st3"
    and 5: "foldM (step_ready ord changed first) rs (st3\<lparr>instances := map (wake_sensitive changed) (instances st3)\<rparr>, []) = Some (st4, es)"
    by (rule engine_executeE)
  have q0: "now st0 = now st" "timed st0 = timed st" "events st0 = (events st)(now st := None)"
    using 1 by (auto simp: take_next_events_def split: option.splits)
  have q1: "same_queues st0 st1" using apply_events_queues[OF 2] by blast
  have q2: "now st2 = now st1" "events st2 = events st1" "timed st2 = (timed st1)(now st1 := None)"
    using 3 by (auto simp: take_next_timed_def split: option.splits)
  have q3: "same_queues st2 st3" using wake_timed_queues[OF 4] by blast
  have q4: "same_queues st3 st4" using step_ready_queues[OF 5] by (simp add: same_queues_def)
  show "now st4 = now st" "events st4 = (events st)(now st := None)" "timed st4 = (timed st)(now st := None)"
    using q0 q1 q2 q3 q4 by (simp_all add: same_queues_def)
qed

text \<open>The contents after a step.\<close>

definition entered :: "sim_state \<Rightarrow> sim_state \<Rightarrow> event list \<Rightarrow> nat list \<Rightarrow> sim_state \<Rightarrow> bool" where
  "entered st st1 es rs st' \<longleftrightarrow>
     (\<forall>t p. queue_value st' t p = overlay (last_event es t p) (if t = now st then None else queue_value st t p)) \<and>
     (\<forall>t. wakes st' t = (if t = now st then {} else wakes st t) \<union> wake_requests st1 rs t) \<and>
     queued st' = (queued st - {now st}) \<union> ev_time ` set es \<union> {t. wake_requests st1 rs t \<noteq> {}}"

lemma engine_step_contents:
  assumes ex: "engine_execute pord ord first st = Some (st1, es, rs)"
    and sc: "engine_schedule es rs st1 = Some (busy, st')"
  shows "entered st st1 es rs st'" "signals st' = signals st1 \<and> instances st' = instances st1"
proof -
  note q = engine_execute_queues[OF ex]
  from sc obtain st5 where 6: "schedule_events es st1 = Some st5"
    and 7: "schedule_timed (concat (map (timed_wait st5) rs)) st5 = Some (st'\<lparr>now := now st5\<rparr>)"
    by (rule engine_scheduleE)
  let ?st6 = "st'\<lparr>now := now st5\<rparr>"
  note c5 = schedule_events_contents[OF 6] and c6 = schedule_timed_contents[OF 7]
  have req: "wake_requests st5 rs = wake_requests st1 rs" using c5(3) by (simp add: wake_requests_def fun_eq_iff)
  have "queue_value st' t p = overlay (last_event es t p) (if t = now st then None else queue_value st t p)" for t p
  proof -
    have "queue_value st' t p = queue_value st5 t p" using c6(3) by (simp add: queue_value_def)
    then show ?thesis using c5(1)[of t p] q(2) by (simp add: queue_value_def)
  qed
  moreover have "wakes st' t = (if t = now st then {} else wakes st t) \<union> wake_requests st1 rs t" for t
  proof -
    have "wakes st' t = wakes st5 t \<union> wake_requests st5 rs t" using c6(1)[of t] unfolding timed_waits(1) by (simp add: wakes_def)
    then show ?thesis using c5(3) q(3) req by (simp add: wakes_def)
  qed
  moreover have "queued st' = (queued st - {now st}) \<union> ev_time ` set es \<union> {t. wake_requests st1 rs t \<noteq> {}}"
  proof -
    have d: "dom (events st') = dom (events st) - {now st} \<union> ev_time ` set es" using c5(2) c6(3) q(2) by simp
    have e: "dom (timed st') = dom (timed st) - {now st} \<union> {t. wake_requests st1 rs t \<noteq> {}}"
      using c6(2) c5(3) q(3) req unfolding timed_waits(2) by simp
    show ?thesis unfolding queued_def d e Un_Diff by (simp only: Un_ac)
  qed
  ultimately show "entered st st1 es rs st'" unfolding entered_def by blast
  show "signals st' = signals st1 \<and> instances st' = instances st1" using c5(3) c6(3) by simp
qed

section \<open>Runs and the events they produce\<close>

inductive history :: "(value_pointer set \<Rightarrow> value_pointer list) \<Rightarrow> (nat set \<Rightarrow> nat list) \<Rightarrow> sim_state \<Rightarrow> bool \<Rightarrow> sim_state \<Rightarrow> event list \<Rightarrow> bool"
  for pord ord st0 where
  history_start: "history pord ord st0 True st0 []"
| history_step: "history pord ord st0 first st hs \<Longrightarrow> engine_execute pord ord first st = Some (st1, es, rs) \<Longrightarrow>
    engine_schedule es rs st1 = Some (True, st') \<Longrightarrow> history pord ord st0 False st' (hs @ es)"

text \<open>The states with a history are the states of the runs.\<close>

lemma history_reaches: "history pord ord st0 first st hs \<Longrightarrow> reaches pord ord st0 first st"
proof (induction rule: history.induct)
  case (history_step first st hs st1 es rs st')
  then have "engine_step pord ord first st = Some (True, st')" by (simp add: engine_step_def)
  then show ?case using history_step.IH by (rule reaches_step[rotated])
qed (rule reaches_start)

lemma reaches_history: "reaches pord ord st0 first st \<Longrightarrow> \<exists>hs. history pord ord st0 first st hs"
proof (induction rule: reaches.induct)
  case (reaches_step first st st')
  then obtain hs where "history pord ord st0 first st hs" by blast
  moreover obtain st1 es rs where "engine_execute pord ord first st = Some (st1, es, rs)" "engine_schedule es rs st1 = Some (True, st')"
    using reaches_step(2) by (auto simp: engine_step_def bind_Some_iff)
  ultimately show ?case by (blast intro: history_step)
qed (blast intro: history_start)

text \<open>The queue of time \<open>t\<close> is that of the start, with the events \<open>hs\<close> entered.\<close>

definition holds :: "sim_state \<Rightarrow> time_value \<Rightarrow> event list \<Rightarrow> sim_state \<Rightarrow> bool" where
  "holds st0 t hs st \<longleftrightarrow> (\<forall>p. queue_value st t p = overlay (last_event hs t p) (queue_value st0 t p)) \<and>
     wakes st0 t \<subseteq> wakes st t \<and> t \<in> queued st"

lemma holds_step:
  assumes "holds st0 t hs st" "entered st st1 es rs st'" "now st \<noteq> t"
  shows "holds st0 t (hs @ es) st'"
  using assms by (auto simp: holds_def entered_def last_event_append overlay_assoc)

definition delivered :: "(value_pointer set \<Rightarrow> value_pointer list) \<Rightarrow> (nat set \<Rightarrow> nat list) \<Rightarrow> sim_state \<Rightarrow> time_value \<Rightarrow> bool" where
  "delivered pord ord st0 t \<longleftrightarrow> (\<exists>f st1 hs. history pord ord st0 f st1 hs \<and> now st1 = t \<and> holds st0 t hs st1 \<and>
     engine_step pord ord f st1 \<noteq> None)"

lemma history_until:
  assumes "history pord ord st0 first st hs" "queue_inv st0" "t \<in> queued st0"
  shows "queue_inv st \<and> (delivered pord ord st0 t \<or> now st \<le> t \<and> holds st0 t hs st)"
  using assms
proof (induction rule: history.induct)
  case history_start
  then have "now st0 \<le> t" by (auto simp: queue_inv_def queued_def)
  then show ?case using history_start by (simp add: holds_def)
next
  case (history_step first st hs st1 es rs st')
  have step: "engine_step pord ord first st = Some (True, st')" using history_step by (simp add: engine_step_def)
  have inv: "queue_inv st'" using engine_step_queues[OF step] history_step by blast
  show ?case
  proof (cases "delivered pord ord st0 t")
    case False
    then have at: "holds st0 t hs st" using history_step by blast
    have n: "now st \<noteq> t"
    proof
      assume "now st = t"
      then have "delivered pord ord st0 t"
        unfolding delivered_def using history_step(1) at step by (intro exI[of _ first] exI[of _ st] exI[of _ hs]) simp
      then show False using False by simp
    qed
    have k: "holds st0 t (hs @ es) st'" using holds_step[OF at engine_step_contents(1)[OF history_step(2,3)] n] .
    then have "t \<in> queued st'" by (simp add: holds_def)
    then have "now st' \<le> t" using inv by (auto simp: queue_inv_def queued_def)
    then show ?thesis using k inv by blast
  qed (use inv in blast)
qed

text \<open>A run that has ended, or is past a time with an entry, has made a step at that time.\<close>

lemma run_delivers:
  assumes "queue_inv st0" "t \<in> queued st0" "history pord ord st0 first st hs"
    and "engine_step pord ord first st = Some (busy, st')" "\<not> busy \<or> t < now st'"
  shows "delivered pord ord st0 t"
proof (rule ccontr)
  assume d: "\<not> delivered pord ord st0 t"
  then have at: "queue_inv st" "holds st0 t hs st" using history_until[OF assms(3,1,2)] by blast+
  have n: "now st \<noteq> t"
  proof
    assume "now st = t"
    then have "delivered pord ord st0 t"
      unfolding delivered_def using assms(3,4) at by (intro exI[of _ first] exI[of _ st] exI[of _ hs]) simp
    then show False using d by simp
  qed
  obtain st1 es rs where e: "engine_execute pord ord first st = Some (st1, es, rs)" "engine_schedule es rs st1 = Some (busy, st')"
    using assms(4) by (auto simp: engine_step_def bind_Some_iff)
  have "holds st0 t (hs @ es) st'" using holds_step[OF at(2) engine_step_contents(1)[OF e] n] .
  then have t: "t \<in> queued st'" by (simp add: holds_def)
  note q = engine_step_queues[OF assms(4) at(1)]
  then have "now st' \<le> t" using t by (auto simp: queue_inv_def queued_def)
  then show False using q t assms(5) by auto
qed

end
