(* ===== verification/SimProps.thy ===== *)
theory SimProps
  imports SimSound SimHazards SimSchedule
begin

text \<open>
  The properties of the simulator: pointers behave as the values they stand for, time only
  moves forward to the next queued entry, and the assertions of the scheduler never fail.
\<close>

section \<open>Pointers\<close>

text \<open>
  C23: shifting a pointer and then reading it is the same as reading it and then shifting. For two
  pointers (to variables, signals or values, however cut and put together) that read as the
  values \<open>x\<close> and \<open>y\<close>, and an amount of at most the widths of both, the shift of the pointers
  does not panic and the pointer it builds reads as the shift of \<open>x\<close> and \<open>y\<close>.
\<close>

theorem shifted_pointer_reads_shift:
  assumes "ptr_cells c (ty_is_int t) p (cells x)" "ptr_cells c (ty_is_int t) q (cells y)"
    and "has_ty x t" "has_ty y h" "flat_compat t h" "op = OpShl \<or> op = OpShr"
    and "ivalue k < 2 ^ 64" "ivalue k \<le> length (cells x)" "ivalue k \<le> length (cells y)"
  shows "\<exists>r z. exec_shift op p q (IntVal k) = Some r \<and> eval_shift (op = OpShl) x y (IntVal k) = Some z \<and> read_pointer c t r = Some z"
proof -
  have like: "seq_like t" "seq_like h" "ty_is_int h = ty_is_int t"
    using assms(5) by (cases t; cases h; auto simp: flat_compat_def)+
  note kinds = typed_cells(1)[OF assms(3) like(1)] typed_cells(1)[OF assms(4) like(2), unfolded like(3)]
  have "\<exists>z. eval_shift (op = OpShl) x y (IntVal k) = Some z \<and> has_ty z t"
  proof (cases t)
    case (IntType w)
    then obtain w' where "h = IntType w'" using assms(5) by (cases h) (auto simp: flat_compat_def)
    then obtain a b where v: "x = IntVal a" "y = IntVal b" "width a = w" using IntType assms(3,4) by (auto simp: has_ty_cases)
    then obtain r where "shift_int (op = OpShl) a b (ivalue k) = Some r" using assms(9) by (simp add: shift_int_def)
    then show ?thesis using v IntType shift_int_wf by (simp add: has_ty_cases eval_shift_def)
  next
    case (ArrayType n s)
    then have "h = t" using assms(5) by (cases h) (auto simp: flat_compat_def)
    then obtain xs ys where v: "x = ArrayVal xs" "y = ArrayVal ys" "length xs = n" "\<forall>e \<in> set xs \<union> set ys. has_ty e s"
      using assms(3,4) ArrayType by (auto simp: has_ty_cases)
    then have "shift_list (op = OpShl) xs ys (ivalue k) \<noteq> None"
      using assms(9) by (simp add: shift_list_def slice_def)
    then show ?thesis using v ArrayType shift_list_ty[where P = "\<lambda>e. has_ty e s"] by (auto simp: has_ty_cases eval_shift_def)
  qed (use like(1) in \<open>auto simp: seq_like_def\<close>)
  then obtain z where z: "eval_shift (op = OpShl) x y (IntVal k) = Some z" "has_ty z t" by blast
  note cz = eval_shift_cells[OF z(1) kinds]
  have "ivalue k = min (length (cells y)) (ivalue k)" using assms(9) by simp
  from exec_shift_cells[OF assms(1,2,7) this assms(8,6)] obtain r where
    r: "exec_shift op p q (IntVal k) = Some r" "ptr_cells c (ty_is_int t) r (cells z)" using cz by auto
  then show ?thesis using z read_pointer_value[OF r(2) z(2) like(1)] by blast
qed

lemma whole_var_cells:
  assumes "cvalues c x = Some (SlotVariable (IntVal a))" "iv_wf a"
  shows "ptr_cells c True [\<lparr>target = TgtVariable x, select = [], swidth = width a\<rparr>] (cells (IntVal a))"
  using assms by (simp add: slice_cells_def read_pointer_slice_def read_pointer_target_def)

definition two_variables :: inst_context where
  "two_variables = \<lparr>cunit = halting_unit fl_new, cvalues = [0 \<mapsto> SlotVariable (IntVal (IntValue 4 5)), 1 \<mapsto> SlotVariable (IntVal (IntValue 4 3))],
     csignals = [], ctime = TimeValue 0 0 0\<rparr>"

lemma shifted_pointer_reads_shift_witness:
  "\<exists>r. exec_shift OpShr [\<lparr>target = TgtVariable 0, select = [], swidth = 4\<rparr>] [\<lparr>target = TgtVariable 1, select = [], swidth = 4\<rparr>]
     (IntVal (IntValue 3 1)) = Some r \<and> read_pointer two_variables (IntType 4) r = Some (IntVal (IntValue 4 10))"
proof -
  have c: "ptr_cells two_variables True [\<lparr>target = TgtVariable 0, select = [], swidth = 4\<rparr>] (cells (IntVal (IntValue 4 5)))"
    "ptr_cells two_variables True [\<lparr>target = TgtVariable 1, select = [], swidth = 4\<rparr>] (cells (IntVal (IntValue 4 3)))"
    using whole_var_cells[of two_variables 0 "IntValue 4 5"] whole_var_cells[of two_variables 1 "IntValue 4 3"]
    by (simp_all add: two_variables_def iv_wf_def)
  have "eval_shift (OpShr = OpShl) (IntVal (IntValue 4 5)) (IntVal (IntValue 4 3)) (IntVal (IntValue 3 1)) = Some (IntVal (IntValue 4 10))"
    by (simp add: eval_shift_def shift_int_def from_unsigned_def)
  then show ?thesis
    using shifted_pointer_reads_shift[of two_variables "IntType 4", simplified, OF c, of "IntType 4" OpShr "IntValue 3 1"]
    by (simp add: flat_compat_def iv_wf_def)
qed

lemma distinct_vars: "list_all2 (\<lambda>s x. target s = TgtVariable x) p vars \<Longrightarrow> distinct (map target p) \<Longrightarrow> distinct vars"
proof (induction rule: list_all2_induct)
  case (Cons s p x vars)
  then have "TgtVariable x \<notin> target ` set p" by (metis distinct.simps(2) list.set_map list.simps(9))
  moreover have "TgtVariable y \<in> target ` set p" if "y \<in> set vars" for y
    using Cons.hyps(2) that by (induction rule: list_all2_induct) auto
  ultimately show ?case using Cons by auto
qed simp

lemma ivalues_fold:
  "distinct vars \<Longrightarrow> length vars = length new \<Longrightarrow>
   ivalues (fold (\<lambda>(x, m). instance_set_value x (SlotVariable m)) (zip vars new) i) y =
     (case map_of (zip vars new) y of Some m \<Rightarrow> Some (SlotVariable m) | None \<Rightarrow> ivalues i y)"
proof (induction vars new arbitrary: i rule: list_induct2')
  case (4 x vars m new)
  then show ?case
    by (cases "y = x") (auto simp: instance_set_value_def split: option.splits dest: map_of_SomeD set_zip_leftD)
qed simp_all

text \<open>
  What a pointer to a value of type \<open>t\<close> must be for a store: either it is cut into slices of
  non-zero width that together make the bits or elements of \<open>t\<close>, or it is one slice without a
  width, as whole structs (and other values that are not sequences) have it. Each slice is a
  typed path into the value of its target.
\<close>

definition pointer_typed :: "value_pointer \<Rightarrow> sim_value list \<Rightarrow> ty \<Rightarrow> bool" where
  "pointer_typed p olds t \<longleftrightarrow>
     (\<exists>k e. t = seq_of k e (ptr_width p) \<and> slots_typed k e p olds) \<or>
     (\<exists>s old u. p = [s] \<and> olds = [old] \<and> swidth s = 0 \<and> has_ty old u \<and> path_ty (select s) u = Some t \<and>
        (\<forall>n e. t \<in> {IntType n, ArrayType n e} \<longrightarrow> n = 0))"

lemma read_whole:
  assumes "read_pointer_slice c s = Some v" "has_ty v t" "swidth s = 0" "\<forall>n e. t \<in> {IntType n, ArrayType n e} \<longrightarrow> n = 0"
  shows "read_pointer c t [s] = Some v"
proof (cases t)
  case (IntType n)
  then obtain x where x: "v = IntVal x" "width x = 0" "ivalue x = 0" "n = 0"
    using assms(2,4) by (auto simp: has_ty_cases iv_wf_def)
  then have "x = IntValue 0 0" by (cases x) simp
  then show ?thesis using assms(1,3) IntType x
    by (simp add: read_pointer_def iv_insert_slice_def from_usize_def ensure_def Let_def)
next
  case (ArrayType n e)
  then have "v = ArrayVal []" "n = 0" using assms(2,4) by (auto simp: has_ty_cases)
  then show ?thesis using assms(1) ArrayType by (simp add: read_pointer_def ensure_def)
qed (use assms(1) in \<open>simp_all add: read_pointer_def\<close>)

lemma typed_write_then_read:
  assumes "has_ty v t" "pointer_typed p into t"
  shows "\<exists>new. write_pointer p into v = Some new \<and> length new = length into \<and>
    (\<forall>c. list_all2 (\<lambda>s v. read_pointer_target c (target s) = Some v) p new \<longrightarrow> read_pointer c t p = Some v)"
  using assms(2) unfolding pointer_typed_def
proof (elim disjE exE conjE)
  fix k e assume "t = seq_of k e (ptr_width p)" "slots_typed k e p into"
  then show ?thesis using write_then_read assms(1) by blast
next
  fix s old u
  assume p: "p = [s]" "into = [old]" "swidth s = 0" "has_ty old u" "path_ty (select s) u = Some t"
    and n: "\<forall>n e. t \<in> {IntType n, ArrayType n e} \<longrightarrow> n = 0"
  from write_path[OF p(5,4) assms(1)] obtain y where y: "write_pointer_select (select s) old v = Some y"
    "foldM read_select (select s) y = Some v" unfolding path_writes_def by blast
  have "write_pointer p into v = Some [y]"
    using p y(1) by (simp add: write_pointer_def offset_slices_def subvalue_def write_pointer_slice_def idx_def idx_set_def)
  moreover have "read_pointer c t p = Some v" if "read_pointer_target c (target s) = Some y" for c
    unfolding p(1) by (rule read_whole[OF _ assms(1) p(3) n]) (simp add: read_pointer_slice_def that y(2))
  ultimately show ?thesis using p(1,2) by simp
qed

text \<open>
  C24: what is stored is what is loaded. Storing a value of type \<open>ty\<close> through a pointer whose slices
  lie in distinct variables and that points to a \<open>ty\<close> (\<open>pointer_typed\<close>: a bit string or array put
  together from slices of non-zero width, or any value, a whole struct say, behind a single slice
  of width zero; each slice a typed path into the value of its variable) does not panic; reading
  the pointer afterwards gives the value back, and no other variable changes.
\<close>

theorem store_then_load:
  assumes "\<forall>s \<in> set p. \<exists>x. target s = TgtVariable x" "distinct (map target p)"
    and "list_all2 (\<lambda>s old. \<exists>x. target s = TgtVariable x \<and> ivalues i x = Some (SlotVariable old)) p olds"
    and "pointer_typed p olds ty" "has_ty v ty"
  shows "\<exists>i'. store_variables p v i = Some i' \<and> read_pointer (context_of u sigs t i') ty p = Some v \<and>
    (\<forall>y. TgtVariable y \<notin> target ` set p \<longrightarrow> ivalues i' y = ivalues i y)"
proof -
  obtain vars where vars: "list_all2 (\<lambda>s x. target s = TgtVariable x) p vars"
    using assms(1) by (induction p) (auto simp: list_all2_Cons1)
  have dv: "distinct vars" "length vars = length p"
    using assms(2) distinct_map vars by (auto simp: list_all2_lengthD dest: distinct_vars)
  have m: "mapM (unwrap_variable \<circ> target) p = Some vars"
    using vars by (induction rule: list_all2_induct) (simp_all add: unwrap_variable_def)
  have old: "mapM (\<lambda>x. do { s \<leftarrow> instance_value x i; case s of SlotVariable k \<Rightarrow> Some k | _ \<Rightarrow> None }) vars = Some olds"
    using vars assms(3)
    by (induction arbitrary: olds rule: list_all2_induct) (auto simp: list_all2_Cons1 instance_value_def)
  obtain new where new: "write_pointer p olds v = Some new" "length new = length olds"
    "\<And>c. list_all2 (\<lambda>s v. read_pointer_target c (target s) = Some v) p new \<Longrightarrow> read_pointer c ty p = Some v"
    using typed_write_then_read[OF assms(5,4)] by blast
  let ?i = "fold (\<lambda>(x, m). instance_set_value x (SlotVariable m)) (zip vars new) i"
  have len: "length vars = length new" using new(2) dv(2) assms(3) by (auto dest: list_all2_lengthD)
  have at: "ivalues ?i y = (case map_of (zip vars new) y of Some m \<Rightarrow> Some (SlotVariable m) | None \<Rightarrow> ivalues i y)" for y
    by (rule ivalues_fold[OF dv(1) len])
  have "store_variables p v i = Some ?i" using m old new(1) by (simp add: store_variables_def)
  moreover have "list_all2 (\<lambda>s v. read_pointer_target (context_of u sigs t ?i) (target s) = Some v) p new"
    unfolding list_all2_conv_all_nth
  proof (intro conjI allI impI)
    fix j assume j: "j < length p"
    then have "target (p ! j) = TgtVariable (vars ! j)" using vars by (simp add: list_all2_conv_all_nth)
    moreover have "map_of (zip vars new) (vars ! j) = Some (new ! j)"
      using j dv len by (simp add: map_of_zip_nth)
    ultimately show "read_pointer_target (context_of u sigs t ?i) (target (p ! j)) = Some (new ! j)"
      using at by (simp add: read_pointer_target_def context_of_def)
  qed (use len dv(2) in simp)
  then have "read_pointer (context_of u sigs t ?i) ty p = Some v" by (rule new(3))
  moreover have "ivalues ?i y = ivalues i y" if "TgtVariable y \<notin> target ` set p" for y
  proof -
    have "y \<notin> set vars" using that vars by (auto simp: list_all2_conv_all_nth in_set_conv_nth) (metis nth_mem imageI)
    then have "map_of (zip vars new) y = None" using len by simp
    then show ?thesis using at by simp
  qed
  ultimately show ?thesis by blast
qed

lemma store_then_load_witness:
  "\<exists>i'. store_variables [\<lparr>target = TgtVariable 0, select = [SelSlice 2 2], swidth = 2\<rparr>, \<lparr>target = TgtVariable 1, select = [], swidth = 4\<rparr>]
      (IntVal (IntValue 6 45)) ((waiting fl_new)\<lparr>ivalues := cvalues two_variables\<rparr>) = Some i' \<and>
    read_pointer (context_of (halting_unit fl_new) [] (TimeValue 0 0 0) i') (IntType 6)
      [\<lparr>target = TgtVariable 0, select = [SelSlice 2 2], swidth = 2\<rparr>, \<lparr>target = TgtVariable 1, select = [], swidth = 4\<rparr>] =
      Some (IntVal (IntValue 6 45))"
proof -
  let ?p = "[\<lparr>target = TgtVariable 0, select = [SelSlice 2 2], swidth = 2\<rparr>, \<lparr>target = TgtVariable 1, select = [], swidth = 4\<rparr>]"
  let ?olds = "[IntVal (IntValue 4 5), IntVal (IntValue 4 3)]"
  have "slots_typed True VoidType ?p ?olds"
    by (auto simp: slots_typed_def seq_of_def iv_wf_def intro!: exI[of _ "IntType 4"])
  moreover have "IntType 6 = seq_of True VoidType (ptr_width ?p)" by (simp add: seq_of_def ptr_width_def)
  ultimately have t: "pointer_typed ?p ?olds (IntType 6)" unfolding pointer_typed_def by blast
  have v: "has_ty (IntVal (IntValue 6 45)) (IntType 6)" by (simp add: iv_wf_def)
  have "list_all2 (\<lambda>s old. \<exists>x. target s = TgtVariable x \<and>
      ivalues ((waiting fl_new)\<lparr>ivalues := cvalues two_variables\<rparr>) x = Some (SlotVariable old)) ?p ?olds"
    by (simp add: two_variables_def)
  from store_then_load[OF _ _ this t v, where u = "halting_unit fl_new" and sigs = "[]" and t = "TimeValue 0 0 0"] show ?thesis by auto
qed

section \<open>Time\<close>

text \<open>
  C21: a step of the simulator moves time to the next entry and enters exactly what was asked
  for. From a state in which nothing is queued before the current time, a step that returns keeps
  it so; time does not go back; the step reports more work exactly when an event or a wake-up is
  queued, and then the new time is the least of the queued ones. The contents of the queues
  afterwards are (\<open>entered\<close>): for every time and pointer, the value of the last event for them
  that the instances produced in the step, and if there is none, nothing at the old current time
  and the value that was queued before at every other time; for every time, the instances that
  were to be woken then (none at the old current time) and those that ask for it by waiting
  until that time; and the times with an entry are the old ones but for the old current time,
  and those of the new events and requests.
\<close>

theorem step_advances_time:
  assumes "queue_inv st" "engine_execute pord ord first st = Some (st1, es, rs)" "engine_step pord ord first st = Some (busy, st')"
  shows "queue_inv st' \<and> now st \<le> now st' \<and> (busy \<longleftrightarrow> queued st' \<noteq> {}) \<and> (busy \<longrightarrow> now st' = Min (queued st')) \<and>
    entered st st1 es rs st'"
proof -
  have "engine_schedule es rs st1 = Some (busy, st')" using assms(2,3) by (simp add: engine_step_def)
  from engine_step_contents(1)[OF assms(2) this] show ?thesis using engine_step_queues[OF assms(3,1)] by blast
qed

lemma race_queues: "queue_inv (race l)" "calm_state (race l)" "calm_queue (race l)"
proof -
  show "queue_inv (race l)" by (auto simp: queue_inv_def race_def queued_def dom_def less_eq_time_value_def)
  have "calm_consts (dfg (halting_unit l))"
    by (auto simp: calm_consts_def halting_unit_def pt2_index_def idx_def inst_const_time_def panic_simps split: if_splits)
  then show "calm_state (race l)"
    by (simp add: calm_state_def calm_signals_def calm_instance_def calm_slots_def race_def waiting_def kind_unit_def)
  show "calm_queue (race l)" by (auto simp: calm_queue_def race_def split: if_splits)
qed

lemma race_runs:
  assumes "pord {whole_signal} = [whole_signal]"
  shows "\<exists>l. engine_step pord ord first (race l) = Some (True, halted l)"
proof -
  have "foldM abs_op [AppendBlock 0, AppendInst 0 0] [] = Some [(0, [0])]"
    by (simp add: abs_op_def guarded_def keys_def members_def at_block_def)
  then obtain l where l: "fl_rep l [(0, [0])]" using ops_exist[OF fl_rep_new] by blast
  then show ?thesis using race_step[where l = l and pord = pord, OF l assms] by blast
qed

lemma step_advances_time_witness:
  "\<exists>l st1 es rs. engine_step (\<lambda>S. [whole_signal]) sorted_list_of_set False (race l) = Some (True, halted l) \<and>
     now (halted l) = Min (queued (halted l)) \<and> entered (race l) st1 es rs (halted l)"
proof -
  obtain l where l: "engine_step (\<lambda>S. [whole_signal]) sorted_list_of_set False (race l) = Some (True, halted l)"
    using race_runs[of "\<lambda>S. [whole_signal]" sorted_list_of_set False] by blast
  then obtain st1 es rs where e: "engine_execute (\<lambda>S. [whole_signal]) sorted_list_of_set False (race l) = Some (st1, es, rs)"
    by (auto simp: engine_step_def bind_Some_iff)
  from step_advances_time[OF race_queues(1) e l] l show ?thesis by blast
qed

text \<open>
  C22: every event and every wake-up is delivered in time. When a run from a sound state has
  ended or has gone past a time for which something was queued, it has made a step at exactly
  that time. In the state before that step the queue of the time holds, for every pointer, the
  value of the last event for that time and pointer that the run has produced, and the value
  that was queued at the start if there is none; and every instance that was to be woken at that
  time still is. So time never jumps over an entry, the run does not end while one is queued, and
  a queued value is only ever replaced by a later event for the same time and pointer.
\<close>

theorem queued_entries_delivered:
  assumes "queue_inv st0" "t \<in> queued st0" "reaches pord ord st0 first st"
    and "engine_step pord ord first st = Some (busy, st')" "\<not> busy \<or> t < now st'"
  shows "\<exists>f st1 hs. history pord ord st0 f st1 hs \<and> now st1 = t \<and> engine_step pord ord f st1 \<noteq> None \<and>
    (\<forall>p. queue_value st1 t p = overlay (last_event hs t p) (queue_value st0 t p)) \<and> wakes st0 t \<subseteq> wakes st1 t"
proof -
  obtain hs where "history pord ord st0 first st hs" using reaches_history[OF assms(3)] by blast
  then have "delivered pord ord st0 t" using run_delivers assms by blast
  then show ?thesis unfolding delivered_def holds_def by blast
qed

lemma queued_entries_delivered_witness:
  "\<exists>l f st1 hs. history (\<lambda>S. [whole_signal]) sorted_list_of_set (race l) f st1 hs \<and> now st1 = TimeValue 1 0 0 \<and>
     queue_value st1 (TimeValue 1 0 0) whole_signal = overlay (last_event hs (TimeValue 1 0 0) whole_signal) (Some (IntVal (IntValue 1 1)))"
proof -
  obtain l where l: "engine_step (\<lambda>S. [whole_signal]) sorted_list_of_set True (race l) = Some (True, halted l)"
    using race_runs[of "\<lambda>S. [whole_signal]" sorted_list_of_set True] by blast
  have e: "events (race l) (TimeValue 1 0 0) = Some [whole_signal \<mapsto> IntVal (IntValue 1 1)]" by (simp add: race_def)
  then have "TimeValue 1 0 0 \<in> queued (race l)" by (auto simp: queued_def)
  moreover have "TimeValue 1 0 0 < now (halted l)" by (simp add: halted_def less_time_value_def less_eq_time_value_def)
  moreover have "queue_value (race l) (TimeValue 1 0 0) whole_signal = Some (IntVal (IntValue 1 1))"
    using e by (simp add: queue_value_def)
  ultimately show ?thesis
    using queued_entries_delivered[OF race_queues(1) _ reaches_start l, of "TimeValue 1 0 0"] by metis
qed

text \<open>
  C9: the simulator never schedules into the past. In every state that a run reaches from a state
  whose queues, signals and time constants are sound (no time before the current one, none
  negative), the assertions of the scheduler hold: when the instances have run without a panic,
  scheduling what they asked for returns. Time never falls below the time of the start.
\<close>

theorem scheduling_never_panics:
  assumes "queue_inv st0" "calm_state st0" "calm_queue st0" "lists_pointers pord" "reaches pord ord st0 first st"
    and "engine_execute pord ord first st = Some (st1, es, rs)"
  shows "now st0 \<le> now st \<and> engine_schedule es rs st1 \<noteq> None"
proof -
  have r: "calm_state st" "calm_queue st" "now st0 \<le> now st" using reaches_inv[OF assms(5,1-4)] by blast+
  note ex = calm_execute[OF assms(6) r(1,2) assms(4)]
  obtain q where "engine_schedule es rs st1 = Some q" using schedule_returns[of st1 es rs] ex by blast
  then show ?thesis using r(3) by simp
qed

lemma distinct_singleton:
  assumes "set xs = {x}" "distinct xs"
  shows "xs = [x]"
proof -
  have "length xs = 1" using assms distinct_card[of xs] by simp
  then obtain y where "xs = [y]" by (metis One_nat_def length_0_conv length_Suc_conv)
  then show ?thesis using assms(1) by simp
qed

lemma scheduling_never_panics_witness:
  "\<exists>pord l st1 es rs. lists_pointers pord \<and> engine_execute pord sorted_list_of_set True (race l) = Some (st1, es, rs) \<and>
     engine_schedule es rs st1 \<noteq> None"
proof -
  have "\<exists>pord. \<forall>S. finite S \<longrightarrow> set (pord S) = S \<and> distinct (pord S)" by (intro choice) (metis finite_distinct_list)
  then obtain pord where p: "lists_pointers pord" by (auto simp: lists_pointers_def)
  then have "set (pord {whole_signal}) = {whole_signal}" "distinct (pord {whole_signal})" by (simp_all add: lists_pointers_def)
  then have "pord {whole_signal} = [whole_signal]" by (rule distinct_singleton)
  then obtain l where "engine_step pord sorted_list_of_set True (race l) = Some (True, halted l)"
    using race_runs[of pord sorted_list_of_set True] by blast
  then obtain st1 es rs where "engine_execute pord sorted_list_of_set True (race l) = Some (st1, es, rs)"
    by (auto simp: engine_step_def panic_simps)
  moreover from this have "engine_schedule es rs st1 \<noteq> None"
    using scheduling_never_panics[OF race_queues p reaches_start] by blast
  ultimately show ?thesis using p by blast
qed

end
