(* ===== verification/SimBuildProps.thy ===== *)
theory SimBuildProps
  imports SimBuild SimReach LinkProps DomTreeProps
begin

text \<open>
  What the construction of a simulation gives: instances that are ready, whose slots are signals of
  the simulation or constants, whose two tables are inverse, in a state with empty queues at time
  zero; and a state from which the simulator never schedules into the past.
\<close>

section \<open>The invariant of the builder\<close>

definition good_instance :: "nat \<Rightarrow> instance_data \<Rightarrow> bool" where
  "good_instance n i \<longleftrightarrow> istate i = Ready \<and> (\<forall>s \<in> set (isignals i). s < n) \<and>
     (\<forall>v x. ivalues i v = Some x \<longrightarrow> (\<exists>s \<in> set (isignals i). x = SlotSignal s) \<or> (\<exists>c. x = SlotConst c)) \<and>
     (\<forall>v s. ivalues i v = Some (SlotSignal s) \<longrightarrow> isignal_values i s \<noteq> None) \<and>
     (\<forall>s v. isignal_values i s = Some v \<longrightarrow> ivalues i v = Some (SlotSignal s))"

definition builder_ok :: "bool \<Rightarrow> sim_builder \<Rightarrow> bool" where
  "builder_ok c b \<longleftrightarrow> (\<forall>i \<in> set (binsts b). good_instance (length (bsignals b)) i \<and> (c \<longrightarrow> calm_instance i)) \<and>
     (c \<longrightarrow> calm_signals (bsignals b))"

definition grows :: "sim_builder \<Rightarrow> sim_builder \<Rightarrow> bool" where
  "grows b b' \<longleftrightarrow> bmodule b' = bmodule b \<and> length (bsignals b) \<le> length (bsignals b') \<and>
     length (bscopes b') = length (bscopes b)"

definition calm_module :: "llhd_module \<Rightarrow> bool" where
  "calm_module m \<longleftrightarrow> (\<forall>k u. module_unit m k = Some u \<longrightarrow> calm_consts (dfg u))"

lemma grows_refl [simp]: "grows b b"
  by (simp add: grows_def)

lemma grows_trans: "grows a b \<Longrightarrow> grows b c \<Longrightarrow> grows a c"
  by (simp add: grows_def)

lemma good_instance_mono: "good_instance n i \<Longrightarrow> n \<le> k \<Longrightarrow> good_instance k i"
  by (fastforce simp: good_instance_def)

text \<open>The state of an elaboration.\<close>

definition elab_ok :: "bool \<Rightarrow> sim_builder \<Rightarrow> elaboration \<Rightarrow> bool" where
  "elab_ok c b0 = (\<lambda>(values, sigs, b). grows b0 b \<and> builder_ok c b \<and> finite (dom values) \<and> (\<forall>s \<in> set sigs. s < length (bsignals b)) \<and>
     (\<forall>v x. values v = Some x \<longrightarrow> (\<exists>s \<in> set sigs. x = SlotSignal s) \<or> (\<exists>k. x = SlotConst k)) \<and> (c \<longrightarrow> calm_slots values))"

lemma elab_okD:
  assumes "elab_ok c b0 (values, sigs, b)"
  shows "grows b0 b" "builder_ok c b" "finite (dom values)" "\<And>s. s \<in> set sigs \<Longrightarrow> s < length (bsignals b)"
    "\<And>v x. values v = Some x \<Longrightarrow> (\<exists>s \<in> set sigs. x = SlotSignal s) \<or> (\<exists>k. x = SlotConst k)" "c \<Longrightarrow> calm_slots values"
  using assms unfolding elab_ok_def by blast+

lemma calm_slots_upd: "calm_slots m \<Longrightarrow> calm_slot x \<Longrightarrow> calm_slots (m(v \<mapsto> x))"
  by (auto simp: calm_slots_def)

lemma const_value_calm:
  assumes "const_value g v = Some x"
  shows "calm_consts g \<longrightarrow> calm x"
  using assms
proof (induction rule: const_value.raw_induct[rotated, consumes 1])
  case (1 f g v x)
  have all: "calm_consts g \<longrightarrow> (\<forall>y \<in> set ys. calm y)" if "mapM (\<lambda>a. f g a) as = Some ys" for as ys
    using that 1(1) by (induction as arbitrary: ys) (auto split: option.splits)
  obtain t i d where d: "value_type g v = Some t" "value_inst g v = Some i" "pt2_index (dinsts g) i = Some d"
    using 1(2) by (auto simp: bind_Some_iff)
  consider (int) "opcode_of d = OpConstInt" | (time) "opcode_of d = OpConstTime" | (uni) "opcode_of d = OpArrayUniform"
    | (arr) "opcode_of d = OpArray" | (str) "opcode_of d = OpStruct"
    using 1(2) d by (auto split: if_splits)
  then show ?case
  proof cases
    case int
    then show ?thesis using 1(2) d by (auto simp: bind_Some_iff)
  next
    case time
    then show ?thesis using 1(2) d by (auto simp: calm_consts_def)
  next
    case uni
    then show ?thesis using 1(2) d 1(1) by (auto simp: bind_Some_iff array_new_uniform_def)
  next
    case arr
    then show ?thesis using 1(2) d all by (auto simp: bind_Some_iff)
  next
    case str
    then show ?thesis using 1(2) d all by (auto simp: bind_Some_iff)
  qed
qed

lemma probe_named_effect:
  assumes "probe_named u v sig b = Some b'"
  shows "bmodule b' = bmodule b \<and> bsignals b' = bsignals b \<and> binsts b' = binsts b \<and> length (bscopes b') = length (bscopes b)"
  using assms by (auto simp: probe_named_def alloc_signal_probe_def Let_def split: option.splits list.splits)

lemma builder_ok_same:
  "builder_ok c b \<Longrightarrow> bsignals b' = bsignals b \<Longrightarrow> binsts b' = binsts b \<Longrightarrow> builder_ok c b'"
  by (simp add: builder_ok_def)

lemma alloc_signal_ok:
  assumes "builder_ok c b" "c \<Longrightarrow> calm init"
  shows "builder_ok c (snd (alloc_signal t init b))"
  using assms good_instance_mono[of "length (bsignals b)" _ "Suc (length (bsignals b))"]
  by (auto simp: builder_ok_def alloc_signal_def calm_signals_def signal_new_def)

lemma elaborate_sig_ok:
  assumes run: "elaborate_sig u i d st = Some st'" and ok: "elab_ok c b0 st" and u: "c \<Longrightarrow> calm_consts (dfg u)"
  shows "elab_ok c b0 st'"
proof -
  obtain vs sigs b where st: "st = (vs, sigs, b)" by (cases st)
  obtain v a init t b2 where r0: "const_value (dfg u) a = Some init"
    "probe_named u v (length (bsignals b)) (snd (alloc_signal t init b)) = Some b2"
    "st' = (vs(v \<mapsto> SlotSignal (length (bsignals b))), sigs @ [length (bsignals b)], b2)"
    using run unfolding st by (auto simp: elaborate_sig_def bind_Some_iff alloc_signal_def)
  define b1 sig where "b1 = snd (alloc_signal t init b)" and "sig = length (bsignals b)"
  then have r: "const_value (dfg u) a = Some init" "alloc_signal t init b = (sig, b1)"
    "probe_named u v sig b1 = Some b2" "st' = (vs(v \<mapsto> SlotSignal sig), sigs @ [sig], b2)"
    using r0 by (simp_all add: alloc_signal_def)
  note e = elab_okD[OF ok[unfolded st]]
  have init: "c \<Longrightarrow> calm init" using const_value_calm[OF r(1)] u by blast
  have s: "sig = length (bsignals b)" "length (bsignals b1) = Suc (length (bsignals b))" "bmodule b1 = bmodule b" "bscopes b1 = bscopes b"
    using r(2) by (auto simp: alloc_signal_def)
  note p = probe_named_effect[OF r(3)]
  have b1: "builder_ok c b1" using alloc_signal_ok[OF e(2) init, of t] r(2) by simp
  have g: "grows b0 b2" using e(1) s p by (simp add: grows_def)
  have bo: "builder_ok c b2" using builder_ok_same[OF b1] p by blast
  have lt: "\<forall>s \<in> set (sigs @ [sig]). s < length (bsignals b2)" using e(4) s p by (auto intro: less_SucI)
  have sl: "\<forall>w x. (vs(v \<mapsto> SlotSignal sig)) w = Some x \<longrightarrow> (\<exists>s \<in> set (sigs @ [sig]). x = SlotSignal s) \<or> (\<exists>k. x = SlotConst k)"
    using e(5) by (auto split: if_splits)
  have cs: "c \<longrightarrow> calm_slots (vs(v \<mapsto> SlotSignal sig))" using e(6) calm_slots_upd by simp
  show ?thesis unfolding r(4) elab_ok_def using g bo lt sl cs e(3) by simp
qed

lemma elaborate_process_ok:
  assumes "elaborate_process_inst u i st = Some st'" "elab_ok c b0 st" "c \<Longrightarrow> calm_consts (dfg u)"
  shows "elab_ok c b0 st'"
proof -
  obtain d where d: "pt2_index (dinsts (dfg u)) i = Some d" using assms(1) by (auto simp: elaborate_process_inst_def bind_Some_iff)
  obtain vs sigs b where st: "st = (vs, sigs, b)" by (cases st)
  consider (sig) "opcode_of d = OpSig" | (const) "opcode_of d = OpConstInt \<or> opcode_of d = OpConstTime"
    | (other) "opcode_of d \<notin> {OpSig, OpConstInt, OpConstTime}" by blast
  then show ?thesis
  proof cases
    case sig
    then show ?thesis using elaborate_sig_ok[OF _ assms(2,3)] assms(1) d by (simp add: elaborate_process_inst_def)
  next
    case const
    then obtain v k where v: "const_value (dfg u) v = Some k" "st' = (vs(v \<mapsto> SlotConst k), sigs, b)"
      using assms(1) d st by (auto simp: elaborate_process_inst_def bind_Some_iff)
    note e = elab_okD[OF assms(2)[unfolded st]]
    have "c \<Longrightarrow> calm_slots (vs(v \<mapsto> SlotConst k))" using calm_slots_upd e(6) const_value_calm[OF v(1)] assms(3) by simp
    then show ?thesis unfolding v(2) elab_ok_def using e by (auto split: if_splits)
  next
    case other
    then show ?thesis using assms(1,2) d by (auto simp: elaborate_process_inst_def)
  qed
qed

lemma bind_args_ok:
  assumes run: "bind_args u inputs outputs b = Some (vs, b')" and ok: "builder_ok c b"
    and sigs: "\<forall>s \<in> set (inputs @ outputs). s < length (bsignals b)"
  shows "elab_ok c b (vs, inputs @ outputs, b')"
proof -
  let ?P = "\<lambda>p. bmodule (snd p) = bmodule b \<and> bsignals (snd p) = bsignals b \<and> binsts (snd p) = binsts b \<and>
    length (bscopes (snd p)) = length (bscopes b) \<and> finite (dom (fst p)) \<and> (\<forall>v x. fst p v = Some x \<longrightarrow> (\<exists>s \<in> set (inputs @ outputs). x = SlotSignal s))"
  have "?P (vs, b')"
  proof (rule foldM_invariant[OF run[unfolded bind_args_def]])
    fix x s s' assume x: "x \<in> set (zip (inp (usig u)) inputs @ zip (oup (usig u)) outputs)" and s: "?P s" and st: "bind_arg u x s = Some s'"
    have sig: "snd x \<in> set (inputs @ outputs)" using x set_zip_rightD[of "fst x" "snd x"] by auto
    obtain v b2 where v: "probe_named u v (snd x) (snd s) = Some b2" "s' = ((fst s)(v \<mapsto> SlotSignal (snd x)), b2)"
      using st by (cases x; cases s) (auto simp: bind_arg_def bind_Some_iff)
    show "?P s'" using s sig probe_named_effect[OF v(1)] unfolding v(2) by auto
  qed simp
  then have P: "bmodule b' = bmodule b" "bsignals b' = bsignals b" "binsts b' = binsts b" "length (bscopes b') = length (bscopes b)"
    "finite (dom vs)" and sl: "\<And>v x. vs v = Some x \<Longrightarrow> \<exists>s \<in> set (inputs @ outputs). x = SlotSignal s" by simp_all
  have "calm_slots vs" unfolding calm_slots_def using sl by fastforce
  moreover have "builder_ok c b'" by (rule builder_ok_same[OF ok P(2,3)])
  ultimately show ?thesis using P sl sigs unfolding elab_ok_def grows_def by auto
qed

lemma slot_signal_mapM:
  assumes "mapM (slot_signal vs) as = Some ss" "elab_ok c b0 (vs, sigs, b)"
  shows "\<forall>s \<in> set ss. s < length (bsignals b)"
proof -
  have one: "s < length (bsignals b)" if "slot_signal vs a = Some s" for a s
  proof -
    have "vs a = Some (SlotSignal s)" using that by (auto simp: slot_signal_def split: option.splits value_slot.splits)
    then show ?thesis using elab_okD(4,5)[OF assms(2)] by blast
  qed
  show ?thesis using assms(1) by (induction as arbitrary: ss) (auto split: option.splits dest: one)
qed

section \<open>Instances\<close>

lemma invert_signals_fold:
  assumes "\<And>s v. m s = Some v \<Longrightarrow> slot_signal values v = Some s"
    and "r = fold (\<lambda>v m. case slot_signal values v of Some s \<Rightarrow> m(s \<mapsto> v) | None \<Rightarrow> m) vs m"
  shows "(\<forall>s v. r s = Some v \<longrightarrow> slot_signal values v = Some s) \<and> (\<forall>v \<in> set vs. \<forall>s. slot_signal values v = Some s \<longrightarrow> r s \<noteq> None) \<and>
    dom m \<subseteq> dom r"
  using assms
proof (induction vs arbitrary: m)
  case (Cons v vs)
  let ?m = "case slot_signal values v of Some s \<Rightarrow> m(s \<mapsto> v) | None \<Rightarrow> m"
  have m: "slot_signal values w = Some s" if "?m s = Some w" for s w
    using that Cons.prems(1) by (auto split: option.splits if_splits)
  have r: "r = fold (\<lambda>v m. case slot_signal values v of Some s \<Rightarrow> m(s \<mapsto> v) | None \<Rightarrow> m) vs ?m" using Cons.prems(2) by simp
  note IH = Cons.IH[of ?m, OF m r]
  have d: "dom m \<subseteq> dom ?m" "\<And>s. slot_signal values v = Some s \<Longrightarrow> s \<in> dom ?m" by (auto split: option.splits)
  have "\<forall>s. slot_signal values v = Some s \<longrightarrow> r s \<noteq> None" using IH d(2) by blast
  then show ?case using IH order_trans[OF d(1), of "dom r"] by auto
qed simp

lemma push_instance_ok:
  assumes ord: "lists_sets ord" and ok: "elab_ok c b0 st" and kind: "c \<Longrightarrow> calm_consts (dfg (kind_unit kind))"
  shows "grows b0 (push_instance ord kind st) \<and> builder_ok c (push_instance ord kind st)"
proof -
  obtain vs sigs b where st: "st = (vs, sigs, b)" by (cases st)
  note e = elab_okD[OF ok[unfolded st]]
  have at: "slot_signal vs v = Some s \<longleftrightarrow> vs v = Some (SlotSignal s)" for v s
    by (auto simp: slot_signal_def split: option.splits value_slot.splits)
  have dom: "set (ord (dom vs)) = dom vs" using ord e(3) unfolding lists_sets_def by blast
  have F: "(\<forall>s v. invert_signals ord vs s = Some v \<longrightarrow> slot_signal vs v = Some s) \<and>
      (\<forall>v \<in> set (ord (dom vs)). \<forall>s. slot_signal vs v = Some s \<longrightarrow> invert_signals ord vs s \<noteq> None) \<and>
      dom (Map.empty :: nat \<rightharpoonup> nat) \<subseteq> dom (invert_signals ord vs)"
    by (rule invert_signals_fold) (simp_all add: invert_signals_def)
  then have inv: "(\<forall>s v. invert_signals ord vs s = Some v \<longrightarrow> vs v = Some (SlotSignal s)) \<and>
      (\<forall>v s. vs v = Some (SlotSignal s) \<longrightarrow> invert_signals ord vs s \<noteq> None)"
    unfolding dom at by blast
  let ?i = "\<lparr>ivalues = vs, ikind = kind, istate = Ready, isignals = sigs, isignal_values = invert_signals ord vs\<rparr>"
  have "good_instance (length (bsignals b)) ?i" using e(4,5) inv by (simp add: good_instance_def)
  moreover have "c \<Longrightarrow> calm_instance ?i" using e(6) kind by (simp add: calm_instance_def)
  ultimately show ?thesis using e(1,2) by (auto simp: st push_instance_def grows_def builder_ok_def)
qed

lemma elaborate_inst_ok:
  assumes run: "elaborate_inst f uid u d st = Some st'" and ok: "elab_ok c b0 st" and m: "c \<Longrightarrow> calm_module (bmodule b0)"
    and f: "\<And>k v x y z z'. f k v x y z = Some z' \<Longrightarrow> builder_ok c z \<Longrightarrow> (c \<Longrightarrow> calm_consts (dfg v) \<and> calm_module (bmodule z)) \<Longrightarrow>
      \<forall>s \<in> set (x @ y). s < length (bsignals z) \<Longrightarrow> grows z z' \<and> builder_ok c z'"
  shows "elab_ok c b0 st'"
proof -
  obtain vs sigs b where st: "st = (vs, sigs, b)" by (cases st)
  obtain ext x where x: "get_ext_unit d = Some ext" "pt2_index (ext_units (dfg u)) ext = Some x"
    using run unfolding st by (auto simp: elaborate_inst_def bind_Some_iff)
  obtain sub where sub: "lookup_ext_unit (bmodule b) ext uid = Some (LinkDef sub)"
    using run x unfolding st by (auto simp: elaborate_inst_def split: option.splits linked_unit.splits)
  define name where "name = unit_name_text (ext_name x)"
  obtain ias oas ins outs subu b1 b2 where r: "mapM (slot_signal vs) ias = Some ins" "mapM (slot_signal vs) oas = Some outs"
    "module_unit (bmodule b) sub = Some subu" "f sub subu ins outs (push_scope name b) = Some b1" "pop_scope b1 = Some b2" "st' = (vs, sigs, b2)"
    using run x sub unfolding st name_def by (auto simp: elaborate_inst_def bind_Some_iff Let_def push_scope_def)
  note e = elab_okD[OF ok[unfolded st]]
  let ?b = "push_scope name b"
  have p: "bmodule ?b = bmodule b" "bsignals ?b = bsignals b" "binsts ?b = binsts b" "length (bscopes ?b) = Suc (length (bscopes b))"
    by (simp_all add: push_scope_def)
  have mod: "bmodule b = bmodule b0" using e(1) by (simp add: grows_def)
  have c: "calm_consts (dfg subu) \<and> calm_module (bmodule ?b)" if c using m[OF that] r(3) unfolding p mod calm_module_def by blast
  have sig: "\<forall>s \<in> set (ins @ outs). s < length (bsignals ?b)"
    using slot_signal_mapM[OF r(1) ok[unfolded st]] slot_signal_mapM[OF r(2) ok[unfolded st]] unfolding p by auto
  have g: "grows ?b b1" "builder_ok c b1" using f[OF r(4) builder_ok_same[OF e(2)] c sig] p by blast+
  have q: "bmodule b2 = bmodule b1" "bsignals b2 = bsignals b1" "binsts b2 = binsts b1" "Suc (length (bscopes b2)) = length (bscopes b1)"
    using r(5) by (auto simp: pop_scope_def split: list.splits)
  have "grows b0 b2" using e(1) g(1) p q by (simp add: grows_def)
  moreover have "builder_ok c b2" by (rule builder_ok_same[OF g(2)]) (simp_all add: q)
  moreover have "\<forall>s \<in> set sigs. s < length (bsignals b2)" using e(4) g(1) q(2) p(2) by (fastforce simp: grows_def)
  ultimately show ?thesis unfolding r(6) elab_ok_def using e by auto
qed

lemma elaborate_entity_ok:
  assumes run: "elaborate_entity_inst f uid u i st = Some st'" and ok: "elab_ok c b0 st" and u: "c \<Longrightarrow> calm_consts (dfg u) \<and> calm_module (bmodule b0)"
    and f: "\<And>k v x y z z'. f k v x y z = Some z' \<Longrightarrow> builder_ok c z \<Longrightarrow> (c \<Longrightarrow> calm_consts (dfg v) \<and> calm_module (bmodule z)) \<Longrightarrow>
      \<forall>s \<in> set (x @ y). s < length (bsignals z) \<Longrightarrow> grows z z' \<and> builder_ok c z'"
  shows "elab_ok c b0 st'"
proof -
  obtain d where d: "pt2_index (dinsts (dfg u)) i = Some d" using run by (auto simp: elaborate_entity_inst_def bind_Some_iff)
  consider (sig) "opcode_of d = OpSig" | (inst) "opcode_of d = OpInst" | (other) "opcode_of d \<notin> {OpSig, OpInst}" by blast
  then show ?thesis
  proof cases
    case sig
    then show ?thesis using elaborate_sig_ok[OF _ ok] u run d by (simp add: elaborate_entity_inst_def)
  next
    case inst
    then have "elaborate_inst f uid u d st = Some st'" using run d by (simp add: elaborate_entity_inst_def)
    then show ?thesis by (rule elaborate_inst_ok[OF _ ok _ f]) (use u in blast)+
  next
    case other
    then show ?thesis using run ok d by (auto simp: elaborate_entity_inst_def)
  qed
qed

lemma instantiate_ok:
  assumes "instantiate ord uid u ins outs b = Some b'"
  shows "lists_sets ord \<longrightarrow> builder_ok c b \<longrightarrow> (c \<longrightarrow> calm_consts (dfg u) \<and> calm_module (bmodule b)) \<longrightarrow>
    (\<forall>s \<in> set (ins @ outs). s < length (bsignals b)) \<longrightarrow> grows b b' \<and> builder_ok c b'"
  using assms
proof (induction rule: instantiate.raw_induct[rotated, consumes 1])
  case (1 f ord uid u ins outs b b')
  show ?case
  proof (intro impI)
    assume ord: "lists_sets ord" and b: "builder_ok c b" and c: "c \<longrightarrow> calm_consts (dfg u) \<and> calm_module (bmodule b)"
      and s: "\<forall>s \<in> set (ins @ outs). s < length (bsignals b)"
    obtain vs b1 "is" where r: "bind_args u ins outs b = Some (vs, b1)" "all_insts (layout u) = Some is"
      using 1(2) by (auto simp: bind_Some_iff)
    note start = bind_args_ok[OF r(1) b s]
    consider (p) "ukind u = ProcessUnit" | (e) "ukind u = EntityUnit" using 1(2) r by (auto split: if_splits)
    then show "grows b b' \<and> builder_ok c b'"
    proof cases
      case p
      then obtain st where st: "foldM (elaborate_process_inst u) is (vs, ins @ outs, b1) = Some st"
        "b' = push_instance ord (Process u (first_bb (layout u))) st"
        using 1(2) r by (auto simp: bind_Some_iff)
      have "elab_ok c b st"
        by (rule foldM_invariant[OF st(1), where P = "elab_ok c b"]) (use start elaborate_process_ok c in blast)+
      then show ?thesis unfolding st(2) by (rule push_instance_ok[OF ord]) (use c in \<open>simp add: kind_unit_def\<close>)
    next
      case e
      then obtain st where st: "foldM (\<lambda>i st. elaborate_entity_inst (\<lambda>k v x y z. f ord k v x y z) uid u i st) is (vs, ins @ outs, b1) = Some st"
        "b' = push_instance ord (Entity u) st"
        using 1(2) r by (auto simp: bind_Some_iff)
      have sub: "grows z z' \<and> builder_ok c z'" if "f ord k v x y z = Some z'" "builder_ok c z" "c \<Longrightarrow> calm_consts (dfg v) \<and> calm_module (bmodule z)"
        "\<forall>s \<in> set (x @ y). s < length (bsignals z)" for k v x y z z'
        using 1(1)[OF that(1)] that ord by blast
      have "elab_ok c b st"
      proof (rule foldM_invariant[OF st(1), where P = "elab_ok c b"])
        fix i s s' assume "elab_ok c b s" "elaborate_entity_inst (\<lambda>k v x y z. f ord k v x y z) uid u i s = Some s'"
        then show "elab_ok c b s'" using elaborate_entity_ok[of "\<lambda>k v x y z. f ord k v x y z" uid u i s s' c b] c sub by blast
      qed (rule start)
      then show ?thesis unfolding st(2) by (rule push_instance_ok[OF ord]) (use c in \<open>simp add: kind_unit_def\<close>)
    qed
  qed
qed

section \<open>Simulations\<close>

lemma alloc_args_ok:
  assumes "alloc_args s as b = Some (sigs, b')" "builder_ok c b"
  shows "grows b b' \<and> builder_ok c b' \<and> (\<forall>k \<in> set sigs. k < length (bsignals b'))"
proof -
  let ?P = "\<lambda>(sigs, b'). grows b b' \<and> builder_ok c b' \<and> (\<forall>k \<in> set sigs. k < length (bsignals b'))"
  have "?P (sigs, b')"
  proof (rule foldM_invariant[OF assms(1)[unfolded alloc_args_def]])
    fix a p p'
    assume p: "?P p" and run: "(case p of (sigs, b) \<Rightarrow> do { t \<leftarrow> arg_type s a; (sig, b) \<leftarrow> Some (alloc_signal t VoidVal b); Some (sigs @ [sig], b) }) = Some p'"
    obtain ks x where px: "p = (ks, x)" by (cases p)
    obtain t where t: "p' = (ks @ [length (bsignals x)], snd (alloc_signal t VoidVal x))"
      using run unfolding px by (auto simp: bind_Some_iff alloc_signal_def)
    have "builder_ok c (snd (alloc_signal t VoidVal x))" using p px by (intro alloc_signal_ok) auto
    then show "?P p'" using p unfolding px t by (auto simp: grows_def alloc_signal_def intro: less_SucI)
  qed (simp add: assms(2))
  then show ?thesis by simp
qed

lemma build_simulation_ok:
  assumes run: "build_simulation ord m = Some (Inr st)" and ord: "lists_sets ord" and calm: "c0 \<longrightarrow> calm_module m"
  shows "\<exists>b. builder_ok c0 b \<and> signals st = bsignals b \<and> instances st = binsts b \<and> now st = time_zero \<and> events st = Map.empty \<and>
    timed st = Map.empty"
proof -
  obtain us uid u b where us: "module_units m = Some us" and root: "(uid, u) \<in> set us"
    and b: "build_root ord uid u (sim_builder_new m) = Some b" "finish_state b = Some st"
  proof -
    obtain us where us: "module_units m = Some us" using run by (auto simp: build_simulation_def bind_Some_iff)
    obtain p where p: "last_opt (filter (\<lambda>p. ukind (snd p) = ProcessUnit \<or> ukind (snd p) = EntityUnit) us) = Some p"
      using run us by (auto simp: build_simulation_def split: option.splits)
    have "p \<in> set us" using p by (auto simp: last_opt_def dest: last_in_set split: if_splits)
    obtain uid u where pu: "p = (uid, u)" by (cases p) blast
    obtain b where "build_root ord uid u (sim_builder_new m) = Some b" "finish_state b = Some st"
      using run us p unfolding pu by (auto simp: build_simulation_def bind_Some_iff)
    then show thesis using that[OF us] \<open>p \<in> set us\<close> unfolding pu by blast
  qed
  obtain ins b1 outs b2 where r: "alloc_args (usig u) (inp (usig u)) (sim_builder_new m) = Some (ins, b1)"
    "alloc_args (usig u) (oup (usig u)) b1 = Some (outs, b2)"
    "instantiate ord uid u ins outs (push_scope (unit_name_text (uname u)) b2) = Some b"
    using b(1) by (auto simp: build_root_def bind_Some_iff)
  have "builder_ok c0 (sim_builder_new m)" by (simp add: builder_ok_def sim_builder_new_def calm_signals_def)
  note a1 = alloc_args_ok[OF r(1) this]
  note a2 = alloc_args_ok[OF r(2), of c0]
  let ?b = "push_scope (unit_name_text (uname u)) b2"
  have p: "bmodule ?b = bmodule b2" "bsignals ?b = bsignals b2" "binsts ?b = binsts b2" by (simp_all add: push_scope_def)
  have ok: "builder_ok c0 ?b" by (rule builder_ok_same[of c0 b2]) (use a1 a2 p in simp_all)
  have "\<forall>s \<in> set (ins @ outs). s < length (bsignals ?b)" using a1 a2 unfolding p grows_def by fastforce
  moreover have "bmodule ?b = m" using a1 a2 unfolding p grows_def by (simp add: sim_builder_new_def)
  moreover have "module_unit m uid = Some u"
    using us root unfolding module_units_def mapM_Some_iff by (auto dest!: list_all2_left)
  ultimately have "builder_ok c0 b" using instantiate_ok[OF r(3), of c0] ord ok calm unfolding calm_module_def by blast
  then show ?thesis using b(2) by (intro exI[of _ b]) (auto simp: finish_state_def bind_Some_iff)
qed

text \<open>
  C33: a simulation that is built from a module starts well. All its instances are ready; every slot
  of an instance is a constant or a signal of the simulation, and every such signal is in the
  list of signals that wake the instance; the mapping from signals to values picks for each of
  these signals a value that stands for it; the queues are empty at time zero. If no time constant
  of the module is negative, then in every state that a run of this simulation reaches, the
  scheduler accepts what the instances ask for: its assertions hold.
\<close>
theorem built_simulation_sound:
  assumes "build_simulation ord m = Some (Inr st)" "lists_sets ord"
  shows "(\<forall>i \<in> set (instances st). good_instance (length (signals st)) i) \<and> now st = time_zero \<and> queued st = {} \<and>
    (calm_module m \<longrightarrow> (\<forall>pord ord' first st' st1 es rs. lists_pointers pord \<longrightarrow> reaches pord ord' st first st' \<longrightarrow>
      engine_execute pord ord' first st' = Some (st1, es, rs) \<longrightarrow> time_zero \<le> now st' \<and> engine_schedule es rs st1 \<noteq> None))"
proof (intro conjI impI allI)
  obtain b where b: "builder_ok False b" "signals st = bsignals b" "instances st = binsts b" "now st = time_zero"
    "events st = Map.empty" "timed st = Map.empty"
    using build_simulation_ok[OF assms, of False] by blast
  show "\<forall>i \<in> set (instances st). good_instance (length (signals st)) i" using b by (simp add: builder_ok_def)
  show "now st = time_zero" by (rule b(4))
  show q: "queued st = {}" using b by (simp add: queued_def)
  fix pord ord' first st' st1 es rs
  assume calm: "calm_module m" and pord: "lists_pointers pord" and r: "reaches pord ord' st first st'"
    and ex: "engine_execute pord ord' first st' = Some (st1, es, rs)"
  obtain b' where b': "builder_ok True b'" "signals st = bsignals b'" "instances st = binsts b'"
    using build_simulation_ok[OF assms, of True] calm by blast
  have c: "calm_state st" "calm_queue st" "queue_inv st"
    using b b' q by (auto simp: calm_state_def builder_ok_def calm_queue_def queue_inv_def)
  have c': "calm_state st'" "calm_queue st'" "now st \<le> now st'" using reaches_inv[OF r c(3,1,2) pord] by blast+
  note e = calm_execute[OF ex c'(1,2) pord]
  obtain q where "engine_schedule es rs st1 = Some q" using schedule_returns[of st1 es rs] e by blast
  then show "time_zero \<le> now st'" "engine_schedule es rs st1 \<noteq> None" using c'(3) b(4) by simp_all
qed

section \<open>Hierarchies that do not end\<close>

text \<open>The entity \<open>a\<close> contains an instance of the unit \<open>b\<close>.\<close>

definition inst_edge :: "llhd_module \<Rightarrow> nat \<Rightarrow> nat \<Rightarrow> bool" where
  "inst_edge m a b \<longleftrightarrow> (\<exists>u is i d e. module_unit m a = Some u \<and> ukind u = EntityUnit \<and> all_insts (layout u) = Some is \<and> i \<in> set is \<and>
     pt2_index (dinsts (dfg u)) i = Some d \<and> opcode_of d = OpInst \<and> get_ext_unit d = Some e \<and> lookup_ext_unit m e a = Some (LinkDef b))"

lemma foldM_visits:
  assumes "\<And>x s s'. I s \<Longrightarrow> f x s = Some s' \<Longrightarrow> I s'"
  shows "foldM f xs s = Some s' \<Longrightarrow> I s \<Longrightarrow> I s' \<and> (\<forall>x \<in> set xs. \<exists>a b. I a \<and> f x a = Some b)"
proof (induction xs arbitrary: s)
  case (Cons x xs)
  then obtain a where "f x s = Some a" "foldM f xs a = Some s'" by (auto split: option.splits)
  then show ?case using Cons.IH[of a] assms[of s x a] Cons.prems(2) by auto
qed simp

lemma elaborate_sig_module: "elaborate_sig u i d (vs, sigs, b) = Some (vs', sigs', b') \<Longrightarrow> bmodule b' = bmodule b"
  by (auto simp: elaborate_sig_def bind_Some_iff alloc_signal_def dest!: probe_named_effect)

lemma elaborate_inst_calls:
  assumes "elaborate_inst f uid u d (vs, sigs, b) = Some (vs', sigs', b')" "get_ext_unit d = Some e"
  shows "\<exists>sub v x y z z'. lookup_ext_unit (bmodule b) e uid = Some (LinkDef sub) \<and> module_unit (bmodule b) sub = Some v \<and>
    f sub v x y z = Some z' \<and> bmodule z = bmodule b \<and> bmodule b' = bmodule z'"
proof -
  obtain x where x: "pt2_index (ext_units (dfg u)) e = Some x"
    using assms by (auto simp: elaborate_inst_def bind_Some_iff)
  obtain sub where sub: "lookup_ext_unit (bmodule b) e uid = Some (LinkDef sub)"
    using assms x by (auto simp: elaborate_inst_def split: option.splits linked_unit.splits)
  obtain v ins outs b1 where r: "module_unit (bmodule b) sub = Some v"
    "f sub v ins outs (push_scope (unit_name_text (ext_name x)) b) = Some b1" "pop_scope b1 = Some b'"
    using assms x sub by (auto simp: elaborate_inst_def bind_Some_iff Let_def push_scope_def)
  have "bmodule (push_scope (unit_name_text (ext_name x)) b) = bmodule b" by (simp add: push_scope_def)
  moreover have "bmodule b' = bmodule b1" using r(3) by (auto simp: pop_scope_def split: list.splits)
  ultimately show ?thesis using sub r by blast
qed

lemma instantiate_descends:
  assumes "instantiate ord uid u ins outs b = Some b'"
  shows "bmodule b' = bmodule b \<and> (module_unit (bmodule b) uid = Some u \<longrightarrow> Wellfounded.accp (\<lambda>x y. inst_edge (bmodule b) y x) uid)"
  using assms
proof (induction rule: instantiate.raw_induct[rotated, consumes 1])
  case (1 f ord uid u ins outs b b')
  let ?m = "bmodule b"
  obtain vs b1 "is" where r: "bind_args u ins outs b = Some (vs, b1)" "all_insts (layout u) = Some is"
    using 1(2) by (auto simp: bind_Some_iff)
  have m1: "bmodule b1 = ?m"
  proof -
    have "(\<lambda>p. bmodule (snd p) = ?m) (vs, b1)"
      by (rule foldM_invariant[OF r(1)[unfolded bind_args_def]])
        (auto simp: bind_arg_def bind_Some_iff split: prod.splits dest!: probe_named_effect)
    then show ?thesis by simp
  qed
  let ?I = "\<lambda>st. bmodule (snd (snd st)) = ?m"
  consider (p) "ukind u = ProcessUnit" | (e) "ukind u = EntityUnit" using 1(2) r by (auto split: if_splits)
  then show ?case
  proof cases
    case p
    then obtain st where st: "foldM (elaborate_process_inst u) is (vs, ins @ outs, b1) = Some st"
      "b' = push_instance ord (Process u (first_bb (layout u))) st"
      using 1(2) r by (auto simp: bind_Some_iff)
    have "?I st"
      by (rule foldM_invariant[OF st(1)])
        (use m1 in \<open>auto simp: elaborate_process_inst_def bind_Some_iff split: if_splits prod.splits dest: elaborate_sig_module\<close>)
    moreover have "Wellfounded.accp (\<lambda>x y. inst_edge ?m y x) uid" if "module_unit ?m uid = Some u"
      by (rule accp.accI) (use that p in \<open>auto simp: inst_edge_def\<close>)
    ultimately show ?thesis unfolding st(2) by (cases st) (simp add: push_instance_def)
  next
    case e
    let ?f = "\<lambda>k v x y z. f ord k v x y z"
    obtain st where st: "foldM (\<lambda>i st. elaborate_entity_inst ?f uid u i st) is (vs, ins @ outs, b1) = Some st"
      "b' = push_instance ord (Entity u) st"
      using 1(2) r e by (auto simp: bind_Some_iff)
    have step: "?I s'" if mod: "?I s" and run: "elaborate_entity_inst ?f uid u i s = Some s'" for i s s'
    proof -
      obtain vs sigs x vs' sigs' x' where s: "s = (vs, sigs, x)" "s' = (vs', sigs', x')" by (cases s; cases s') blast
      obtain d where d: "pt2_index (dinsts (dfg u)) i = Some d" using run by (auto simp: elaborate_entity_inst_def bind_Some_iff)
      consider (sig) "elaborate_sig u i d s = Some s'" | (inst) "elaborate_inst ?f uid u d s = Some s'" | (same) "s' = s"
        using run d by (cases "opcode_of d = OpSig"; cases "opcode_of d = OpInst") (simp_all add: elaborate_entity_inst_def)
      then show ?thesis
      proof cases
        case sig
        then show ?thesis using mod elaborate_sig_module unfolding s by fastforce
      next
        case inst
        obtain ext where ext: "get_ext_unit d = Some ext" using inst unfolding s by (auto simp: elaborate_inst_def bind_Some_iff)
        from elaborate_inst_calls[OF inst[unfolded s] ext] obtain sub v y z w w' where
          "f ord sub v y z w = Some w'" "bmodule w = bmodule x" "bmodule x' = bmodule w'" by blast
        then show ?thesis using 1(1) mod unfolding s by auto
      qed (use mod in simp)
    qed
    have V: "?I st \<and> (\<forall>i \<in> set is. \<exists>s s'. ?I s \<and> elaborate_entity_inst ?f uid u i s = Some s')"
      using foldM_visits[of ?I "\<lambda>i st. elaborate_entity_inst ?f uid u i st", OF step st(1)] m1 by simp
    have "Wellfounded.accp (\<lambda>x y. inst_edge ?m y x) uid" if mu: "module_unit ?m uid = Some u"
    proof (rule accp.accI)
      fix sub assume "inst_edge ?m uid sub"
      then obtain i d ext where i: "i \<in> set is" "pt2_index (dinsts (dfg u)) i = Some d" "opcode_of d = OpInst" "get_ext_unit d = Some ext"
        "lookup_ext_unit ?m ext uid = Some (LinkDef sub)" using mu r(2) by (auto simp: inst_edge_def)
      obtain s s' where s: "?I s" "elaborate_entity_inst ?f uid u i s = Some s'" using V i(1) by blast
      obtain vs sigs x vs' sigs' x' where ss: "s = (vs, sigs, x)" "s' = (vs', sigs', x')" by (cases s; cases s') blast
      have "elaborate_inst ?f uid u d (vs, sigs, x) = Some (vs', sigs', x')"
        using s(2) i(2,3) unfolding ss by (simp add: elaborate_entity_inst_def)
      from elaborate_inst_calls[OF this i(4)] obtain sub' v y z w w' where
        c: "lookup_ext_unit (bmodule x) ext uid = Some (LinkDef sub')" "module_unit (bmodule x) sub' = Some v"
          "f ord sub' v y z w = Some w'" "bmodule w = bmodule x" by blast
      have x: "bmodule x = ?m" using s(1) unfolding ss by simp
      then have "sub' = sub" using c(1) i(5) by simp
      then show "Wellfounded.accp (\<lambda>x y. inst_edge ?m y x) sub" using 1(1)[OF c(3)] c(2,4) x by simp
    qed
    then show ?thesis using V unfolding st(2) by (cases st) (simp add: push_instance_def)
  qed
qed

lemma accp_no_cycle: "Wellfounded.accp (\<lambda>x y. E y x) a \<Longrightarrow> \<not> E\<^sup>+\<^sup>+ a a"
proof (induction rule: accp.induct)
  case (accI a)
  show ?case
  proof
    assume "E\<^sup>+\<^sup>+ a a"
    then obtain b where "E a b" "E\<^sup>*\<^sup>* b a" by (meson tranclpD)
    then have "E\<^sup>+\<^sup>+ b b" by simp
    then show False using accI.IH[OF \<open>E a b\<close>] by blast
  qed
qed

lemma cyclic_instantiate_None:
  assumes "(inst_edge (bmodule b))\<^sup>+\<^sup>+ uid uid" "module_unit (bmodule b) uid = Some u"
  shows "instantiate ord uid u inputs outputs b = None"
proof (rule ccontr)
  assume "instantiate ord uid u inputs outputs b \<noteq> None"
  then obtain b' where "instantiate ord uid u inputs outputs b = Some b'" by blast
  from instantiate_descends[OF this] have "Wellfounded.accp (\<lambda>x y. inst_edge (bmodule b) y x) uid" using assms(2) by simp
  then have "\<not> (inst_edge (bmodule b))\<^sup>+\<^sup>+ uid uid" by (rule accp_no_cycle)
  then show False using assms(1) ..
qed

text \<open>
  The body of \<open>instantiate\<close> with the recursive call as a parameter; iterating it from an answer
  for the call at depth \<open>n\<close> unfolds \<open>n\<close> levels of the recursion.
\<close>

type_synonym builder_call = "nat \<Rightarrow> unit_data \<Rightarrow> nat list \<Rightarrow> nat list \<Rightarrow> sim_builder \<Rightarrow> sim_builder option"

definition instantiate_body :: "(nat set \<Rightarrow> nat list) \<Rightarrow> builder_call \<Rightarrow> builder_call" where
  "instantiate_body ord f uid u inputs outputs b =
     Option.bind (bind_args u inputs outputs b) (\<lambda>(values, b).
     Option.bind (all_insts (layout u)) (\<lambda>is.
       if ukind u = ProcessUnit then
         Option.bind (foldM (elaborate_process_inst u) is (values, inputs @ outputs, b))
           (\<lambda>st. Some (push_instance ord (Process u (first_bb (layout u))) st))
       else if ukind u = EntityUnit then
         Option.bind (foldM (elaborate_entity_inst f uid u) is (values, inputs @ outputs, b))
           (\<lambda>st. Some (push_instance ord (Entity u) st))
       else None))"

lemma instantiate_unfold: "instantiate ord = instantiate_body ord (instantiate ord)"
proof (intro ext)
  fix uid u ins outs b
  show "instantiate ord uid u ins outs b = instantiate_body ord (instantiate ord) uid u ins outs b"
    by (subst instantiate.simps) (simp add: instantiate_body_def)
qed

section \<open>Two modules\<close>

text \<open>An entity with a signal, and an entity that contains itself.\<close>

definition signal_graph :: data_flow_graph where
  "signal_graph = dfg_new\<lparr>dinsts := \<lparr>storage = [IConstInt OpConstInt (IntValue 1 1), IUnary OpSig 0], count = 2, used = {0, 1}, free = {}\<rparr>,
     dresults := [0 \<mapsto> 0, 1 \<mapsto> 1],
     dvalues := \<lparr>storage = [VInst (IntType 1) 0, VInst (SignalType (IntType 1)) 1], count = 2, used = {0, 1}, free = {}\<rparr>\<rparr>"

definition own_unit :: "data_flow_graph \<Rightarrow> function_layout \<Rightarrow> unit_data" where
  "own_unit g l = \<lparr>ukind = EntityUnit, uname = GlobalName ''top'', usig = sig_new, dfg = g,
     cfg = \<lparr>cblocks = pt2_new, block_hints = Map.empty\<rparr>, layout = l\<rparr>"

definition own_module :: "unit_data \<Rightarrow> llhd_module" where
  "own_module u = \<lparr>munits = \<lparr>pt_next = 1, pt_storage = [0 \<mapsto> u]\<rparr>, unit_order = {0}, mdecls = pt_new, decl_order = {},
     link_table = Some [(0, 0) \<mapsto> LinkDef 0], module_hints = Map.empty\<rparr>"

lemma own_module_units: "module_units (own_module u) = Some [(0, u)]"
  by (simp add: module_units_def module_unit_def pt_index_def own_module_def)

lemma built_simulation_sound_witness:
  "\<exists>l st. fl_rep l [(0, [0, 1])] \<and> build_simulation sorted_list_of_set (own_module (own_unit signal_graph l)) = Some (Inr st) \<and>
    length (signals st) = 1 \<and> (\<forall>i \<in> set (instances st). good_instance (length (signals st)) i) \<and> instances st \<noteq> []"
proof -
  have "foldM abs_op [AppendBlock 0, AppendInst 0 0, AppendInst 1 0] [] = Some [(0, [0, 1])]"
    by (simp add: abs_op_def guarded_def keys_def members_def at_block_def)
  then obtain l where l: "fl_rep l [(0, [0, 1])]" using ops_exist[OF fl_rep_new] by blast
  let ?u = "own_unit signal_graph l"
  have ins: "all_insts (layout ?u) = Some [0, 1]" using fl_rep_all_insts(2)[OF l] by (simp add: own_unit_def)
  have at: "pt2_index (dinsts (dfg ?u)) 0 = Some (IConstInt OpConstInt (IntValue 1 1))" "pt2_index (dinsts (dfg ?u)) 1 = Some (IUnary OpSig 0)"
    "inst_result (dfg ?u) 1 = Some 1" "value_type (dfg ?u) 1 = Some (SignalType (IntType 1))" "value_type (dfg ?u) 0 = Some (IntType 1)"
    "value_inst (dfg ?u) 0 = Some 0" "names (dfg ?u) = Map.empty"
    by (simp_all add: own_unit_def signal_graph_def pt2_index_def idx_def inst_result_def st_index_def value_type_def vd_type_def
        value_inst_def get_value_inst_def dfg_new_def)
  have "\<exists>v. const_value (dfg ?u) 0 = Some v"
    by (subst const_value.simps) (simp add: at opcode_of_def inst_const_int_def)
  then obtain v where const: "const_value (dfg ?u) 0 = Some v" by blast
  have sig: "elaborate_sig ?u 1 (IUnary OpSig 0) (vs, sigs, b) =
      Some (vs(1 \<mapsto> SlotSignal (length (bsignals b))), sigs @ [length (bsignals b)],
        snd (alloc_signal (SignalType (IntType 1)) v b))" for vs sigs b
    using const at by (simp add: elaborate_sig_def args_def idx_def alloc_signal_def probe_named_def)
  have "\<exists>b'. instantiate sorted_list_of_set 0 ?u [] [] b = Some b' \<and> length (bsignals b') = Suc (length (bsignals b)) \<and>
      bscopes b' = bscopes b \<and> binsts b' \<noteq> []" for b
  proof -
    have k: "ukind ?u = EntityUnit" "usig ?u = sig_new" by (simp_all add: own_unit_def)
    have args: "bind_args ?u [] [] b = Some (Map.empty, b)" by (simp add: bind_args_def)
    show ?thesis
      by (subst instantiate.simps)
        (simp add: args ins k elaborate_entity_inst_def at[simplified] opcode_of_def sig[simplified] push_instance_def alloc_signal_def)
  qed
  then obtain b' where b': "instantiate sorted_list_of_set 0 ?u [] [] (push_scope (unit_name_text (GlobalName ''top'')) (sim_builder_new (own_module ?u))) = Some b'"
    "length (bsignals b') = 1" "bscopes b' = [scope_new (unit_name_text (GlobalName ''top''))]" "binsts b' \<noteq> []"
    by (fastforce simp: push_scope_def sim_builder_new_def)
  have k: "ukind ?u = EntityUnit" "usig ?u = sig_new" "uname ?u = GlobalName ''top''" by (simp_all add: own_unit_def)
  have "build_root sorted_list_of_set 0 ?u (sim_builder_new (own_module ?u)) = Some b'"
    using b'(1) by (simp add: build_root_def k sig_new_def alloc_args_def)
  then obtain st where st: "build_simulation sorted_list_of_set (own_module ?u) = Some (Inr st)" "signals st = bsignals b'" "instances st = binsts b'"
    using b'(3) k by (auto simp: build_simulation_def own_module_units finish_state_def last_opt_def)
  have "\<forall>i \<in> set (instances st). good_instance (length (signals st)) i"
    using built_simulation_sound[OF st(1) lists_sets_sorted] by blast
  then show ?thesis using l st b' by auto
qed

definition self_graph :: data_flow_graph where
  "self_graph = dfg_new\<lparr>dinsts := \<lparr>storage = [ICall OpInst 0 0 []], count = 1, used = {0}, free = {}\<rparr>,
     ext_units := \<lparr>storage = [\<lparr>ext_name = GlobalName ''top'', ext_sig = sig_new\<rparr>], count = 1, used = {0}, free = {}\<rparr>\<rparr>"

lemma self_links:
  "link_module (own_module (own_unit self_graph l)\<lparr>link_table := None\<rparr>) = Some (own_module (own_unit self_graph l))"
proof -
  let ?u = "own_unit self_graph l" and ?m = "own_module (own_unit self_graph l)\<lparr>link_table := None\<rparr>"
  have us: "module_units ?m = Some [(0, ?u)]"
    by (simp add: module_units_def module_unit_def pt_index_def own_module_def)
  have ds: "module_decls ?m = []" by (simp add: module_decls_def own_module_def)
  have ex: "all_externs [(0, ?u)] = [(0, 0, \<lparr>ext_name = GlobalName ''top'', ext_sig = sig_new\<rparr>)]"
    by (simp add: all_externs_def extern_units_def pt2_iter_def own_unit_def self_graph_def)
  have eq: "sig_eq sig_new sig_new = Some True" by (simp add: sig_eq_def sig_new_def sig_all_args_def)
  show ?thesis
    by (simp add: link_module_def symbols_def us ds ex unit_symbol_def note_symbol_def resolve_extern_def eq ensure_def)
      (simp add: own_unit_def own_module_def eq)
qed

text \<open>One level of the recursion on the module: it calls itself and nothing else happens.\<close>

lemma self_body:
  assumes l: "fl_rep l [(0, [0])]" and m: "bmodule b = own_module (own_unit self_graph l)"
  shows "instantiate_body ord f 0 (own_unit self_graph l) [] [] b =
    Option.bind (f 0 (own_unit self_graph l) [] [] (push_scope ''@top'' b)) (\<lambda>b. Option.bind (pop_scope b) (\<lambda>b.
      Some (push_instance ord (Entity (own_unit self_graph l)) (Map.empty, [], b))))"
proof -
  let ?u = "own_unit self_graph l"
  have ins: "all_insts (layout ?u) = Some [0]" using fl_rep_all_insts(2)[OF l] by (simp add: own_unit_def)
  have k: "ukind ?u = EntityUnit" "usig ?u = sig_new" by (simp_all add: own_unit_def)
  have args: "bind_args ?u [] [] b = Some (Map.empty, b)" by (simp add: bind_args_def)
  have at: "pt2_index (dinsts (dfg ?u)) 0 = Some (ICall OpInst 0 0 [])"
    "pt2_index (ext_units (dfg ?u)) 0 = Some \<lparr>ext_name = GlobalName ''top'', ext_sig = sig_new\<rparr>"
    by (simp_all add: own_unit_def self_graph_def pt2_index_def idx_def)
  have lk: "lookup_ext_unit (bmodule b) 0 0 = Some (LinkDef 0)" "module_unit (bmodule b) 0 = Some ?u"
    by (simp_all add: m lookup_ext_unit_def own_module_def module_unit_def pt_index_def)
  have mod: "bmodule (push_scope ''@top'' b) = bmodule b" by (simp add: push_scope_def)
  have "elaborate_inst f 0 ?u (ICall OpInst 0 0 []) (Map.empty, [], b) =
      Option.bind (f 0 ?u [] [] (push_scope ''@top'' b)) (\<lambda>b. Option.bind (pop_scope b) (\<lambda>b. Some (Map.empty, [], b)))"
    using at lk mod
    by (simp add: elaborate_inst_def get_ext_unit_def unit_name_text_def inst_input_args_def inst_output_args_def slice_def Let_def)
  then show ?thesis
    by (simp add: instantiate_body_def args ins k elaborate_entity_inst_def at opcode_of_def split: Option.bind_splits)
qed

lemma self_levels:
  assumes l: "fl_rep l [(0, [0])]"
  shows "bmodule b = own_module (own_unit self_graph l) \<Longrightarrow> bscopes b \<noteq> [] \<Longrightarrow>
    \<exists>b'. (instantiate_body ord ^^ n) (\<lambda>k v x y z. Some z) 0 (own_unit self_graph l) [] [] b = Some b' \<and>
      bmodule b' = bmodule b \<and> length (bscopes b') = length (bscopes b)"
proof (induction n arbitrary: b)
  case (Suc n)
  let ?b = "push_scope ''@top'' b"
  have "bmodule ?b = own_module (own_unit self_graph l)" "bscopes ?b \<noteq> []" using Suc.prems by (simp_all add: push_scope_def)
  from Suc.IH[OF this] obtain b1 where b1: "(instantiate_body ord ^^ n) (\<lambda>k v x y z. Some z) 0 (own_unit self_graph l) [] [] ?b = Some b1"
    "bmodule b1 = bmodule ?b" "length (bscopes b1) = length (bscopes ?b)" by blast
  have "length (bscopes b1) = Suc (length (bscopes b))" using b1(3) by (simp add: push_scope_def)
  then obtain s t ss where sc: "bscopes b1 = s # t # ss" "length (t # ss) = length (bscopes b)"
    using Suc.prems(2) by (cases "bscopes b1"; cases "tl (bscopes b1)") auto
  then have "pop_scope b1 = Some (b1\<lparr>bscopes := add_subscope s t # ss\<rparr>)" by (simp add: pop_scope_def)
  moreover have "bmodule b1 = bmodule b" using b1(2) by (simp add: push_scope_def)
  ultimately show ?case
    using self_body[OF l Suc.prems(1)] b1(1) sc(2) by (simp add: push_instance_def)
qed simp

lemma self_bottomless:
  assumes l: "fl_rep l [(0, [0])]"
  shows "bmodule b = own_module (own_unit self_graph l) \<Longrightarrow>
    (instantiate_body ord ^^ n) (\<lambda>k v x y z. None) 0 (own_unit self_graph l) [] [] b = None"
proof (induction n arbitrary: b)
  case (Suc n)
  have "bmodule (push_scope ''@top'' b) = own_module (own_unit self_graph l)" using Suc.prems by (simp add: push_scope_def)
  then show ?case using self_body[OF l Suc.prems] Suc.IH by simp
qed simp

lemma self_edge:
  assumes l: "fl_rep l [(0, [0])]"
  shows "inst_edge (own_module (own_unit self_graph l)) 0 0"
proof -
  let ?u = "own_unit self_graph l"
  have u: "module_unit (own_module ?u) 0 = Some ?u" by (simp add: module_unit_def pt_index_def own_module_def)
  have ins: "all_insts (layout ?u) = Some [0]" using fl_rep_all_insts(2)[OF l] by (simp add: own_unit_def)
  have at: "pt2_index (dinsts (dfg ?u)) 0 = Some (ICall OpInst 0 0 [])" by (simp add: own_unit_def self_graph_def pt2_index_def idx_def)
  show ?thesis unfolding inst_edge_def
    using u ins at by (intro exI[of _ ?u] exI[of _ "[0]"] exI[of _ 0] exI[of _ "ICall OpInst 0 0 []"])
      (simp add: own_unit_def opcode_of_def get_ext_unit_def lookup_ext_unit_def own_module_def)
qed

text \<open>
  C34: building a hierarchy that contains itself recurses without end. Take the module whose only
  unit is an entity \<open>@top\<close> without arguments that consists of one instruction, an instance of
  \<open>@top\<close>. The linker accepts it. The recursion of \<open>instantiate\<close> (its body iterated) is
  bottomless on the linked module: cut off at any depth by an answer that leaves the builder as
  it is, it returns, so no level fails by itself and nothing looks for the cycle; but no depth of
  the recursion is enough to return without such an answer. So \<open>instantiate\<close>, the fixed point of the
  body, has no result, and neither has the construction of the simulation. (The program overflows
  its stack.)
\<close>

theorem recursive_hierarchy_overflows:
  assumes "fl_rep l [(0, [0])]" "u = own_unit self_graph l"
    and "b = push_scope (unit_name_text (uname u)) (sim_builder_new (own_module u))"
  shows "link_module (own_module u\<lparr>link_table := None\<rparr>) = Some (own_module u) \<and>
    instantiate ord = instantiate_body ord (instantiate ord) \<and>
    (instantiate_body ord ^^ n) (\<lambda>k v x y z. Some z) 0 u [] [] b \<noteq> None \<and>
    (instantiate_body ord ^^ n) (\<lambda>k v x y z. None) 0 u [] [] b = None \<and>
    instantiate ord 0 u [] [] b = None \<and> build_simulation ord (own_module u) = None"
proof -
  have m: "bmodule b = own_module u" "bscopes b \<noteq> []" by (simp_all add: assms(3) push_scope_def sim_builder_new_def)
  have mu: "module_unit (bmodule b) 0 = Some u" unfolding m by (simp add: module_unit_def pt_index_def own_module_def)
  have "(inst_edge (bmodule b))\<^sup>+\<^sup>+ 0 0"
    unfolding m(1) assms(2) by (rule tranclp.r_into_trancl) (rule self_edge[OF assms(1)])
  then have none: "instantiate ord 0 u [] [] b = None" by (rule cyclic_instantiate_None[OF _ mu])
  have k: "ukind u = EntityUnit" "usig u = sig_new" by (simp_all add: assms(2) own_unit_def)
  have "build_root ord 0 u (sim_builder_new (own_module u)) = None"
    using none k by (simp add: build_root_def sig_new_def alloc_args_def assms(3))
  then have bs: "build_simulation ord (own_module u) = None"
    using k by (simp add: build_simulation_def own_module_units last_opt_def)
  have "(instantiate_body ord ^^ n) (\<lambda>k v x y z. Some z) 0 u [] [] b \<noteq> None"
    using self_levels[OF assms(1) m(1)[unfolded assms(2)] m(2), where ord = ord and n = n] unfolding assms(2) by auto
  moreover have "(instantiate_body ord ^^ n) (\<lambda>k v x y z. None) 0 u [] [] b = None"
    using self_bottomless[OF assms(1) m(1)[unfolded assms(2)]] unfolding assms(2) .
  ultimately show ?thesis using self_links[of l] instantiate_unfold none bs unfolding assms(2) by blast
qed

lemma recursive_hierarchy_overflows_witness:
  "\<exists>l. fl_rep l [(0, [0])] \<and> build_simulation sorted_list_of_set (own_module (own_unit self_graph l)) = None"
proof -
  have "foldM abs_op [AppendBlock 0, AppendInst 0 0] [] = Some [(0, [0])]"
    by (simp add: abs_op_def guarded_def keys_def members_def at_block_def)
  then obtain l where l: "fl_rep l [(0, [0])]" using ops_exist[OF fl_rep_new] by blast
  from recursive_hierarchy_overflows[OF l refl refl, where ord = sorted_list_of_set and n = 0] show ?thesis using l by blast
qed

end
