(* ===== verification/Spec2Isabelle.thy ===== *)
theory Spec2Isabelle
  imports IntWords Tables LayoutRefinement Insts UseLists UnitProps BuilderProps ConstFold TypeProgress
    FoldReturns InstSimp DomTreeProps TrgProps DceHazard ProcLower LinkProps VerifiedUnits EcmProps Vtpp SimProps SimBuildProps
begin

text \<open>
  A verification development for LLHD, the low level hardware description language: an
  intermediate representation of digital circuits, a library that builds, checks and transforms
  it, and a simulator that runs it. Paths below are under \<^verbatim>\<open>src/src/\<close>.

  \<^bold>\<open>The program.\<close> A unit (a function, process or entity) is a data flow graph, a control flow
  graph and a layout. The graph keeps values and instructions in tables with recycled keys and,
  for every value and block, the set of instructions that use it; the layout keeps the blocks
  and the instructions of each block in doubly linked lists. A builder adds and removes
  instructions at an insertion position and keeps graph, use lists and layout in step. A module
  holds units and declarations and links the references between them. The verifier checks the
  types of instructions, the shape of blocks and that definitions dominate their uses; analyses
  compute predecessors and dominators, passes rewrite a unit. The simulator builds the hierarchy
  of instances from a linked module and executes it: processes run until they wait, entities
  react to changed signals, and an event loop applies drives and wakes instances in the order of
  time.

  \<^bold>\<open>Modelling.\<close> A panic is \<open>None\<close>, so every computation that may panic is an \<open>option\<close>; an
  \<^verbatim>\<open>Option\<close> inside it is a nested \<open>option\<close>. Mutation is explicit state passing over records. A
  \<^verbatim>\<open>HashMap\<close> is a map, a \<^verbatim>\<open>HashSet\<close> a set; where the code iterates one, the order is a
  parameter (\<open>ord\<close>, \<open>pord\<close>) and the theorems hold for every order that lists the set
  (\<open>lists_sets\<close>, \<open>lists_pointers\<close>). Keys (\<^verbatim>\<open>u32\<close>, \<^verbatim>\<open>usize\<close>) are \<open>nat\<close>; the invalid key is
  \<open>2 ^ 32 - 1\<close>, and the bounds that matter (room in a table, an amount that fits a \<^verbatim>\<open>usize\<close>) are
  stated as hypotheses. Integers of LLHD are a width and a \<open>nat\<close>, as in the code, whose operations
  are proved to be those of machine words. A recursion or loop that may not end is a
  \<open>partial_function\<close> (the iteration of the dominators, the depth-first search, the search for
  unreachable blocks, the work set of code motion, the moves of merged instructions, initial values and the instances of the
  hierarchy, the steps of processes and entities, the event loop) or takes fuel (\<open>get_const\<close>, \<open>prune_if_unused\<close>, the folds, the checks of
  trivial branches): that it returns, or how much fuel is enough, is then a theorem. The
  search for the values of a variable in \<open>Vtpp\<close> is a \<open>partial_function\<close> too; its property shows the
  result, and so that it returns, in the case that it is about.

  \<^bold>\<open>Data.\<close>
  \<^item> \<^verbatim>\<open>LLHD_Prelude\<close>: the option monad with panics, folds with an invariant, slices.
  \<^item> \<^verbatim>\<open>Types\<close> (\<^verbatim>\<open>ty.rs\<close>), \<^verbatim>\<open>Opcodes\<close> and \<^verbatim>\<open>Insts\<close> (\<^verbatim>\<open>ir/inst.rs\<close>: opcodes, instruction
    data, its accessors, replacement of values and blocks), \<^verbatim>\<open>Values\<close> (\<^verbatim>\<open>value/mod.rs\<close>,
    \<^verbatim>\<open>time.rs\<close>, \<^verbatim>\<open>array.rs\<close>, \<^verbatim>\<open>struct.rs\<close>), \<^verbatim>\<open>IntValues\<close> (\<^verbatim>\<open>value/int.rs\<close>).
  \<^item> \<^verbatim>\<open>IntWords\<close>, \<^verbatim>\<open>IntIdentities\<close>: every opcode on integers computes the operation on words of
    that width; slices and signed conversions are inverse; the laws that folding uses.
  \<^item> \<^verbatim>\<open>Tables\<close> (\<^verbatim>\<open>table.rs\<close>): the tables, with a well-formedness invariant, the refinement to
    maps with fresh keys, and the serialization round trip.

  \<^bold>\<open>Units.\<close>
  \<^item> \<^verbatim>\<open>LinkedList\<close>: a linked list over a store, as a locale; \<^verbatim>\<open>Layout\<close>, \<^verbatim>\<open>BlockLayout\<close>
    (\<^verbatim>\<open>ir/layout.rs\<close>, the layout functions of \<^verbatim>\<open>ir/unit.rs\<close>): the lists of instructions and of
    blocks interpret it; \<^verbatim>\<open>LayoutRefinement\<close>: the layout refines a list of lists.
  \<^item> \<^verbatim>\<open>Dfg\<close> (\<^verbatim>\<open>ir/dfg.rs\<close>, \<^verbatim>\<open>ir/mod.rs\<close>, \<^verbatim>\<open>ir/sig.rs\<close>, \<^verbatim>\<open>ir/unit.rs\<close>): the graph;
    \<^verbatim>\<open>DfgInv\<close>: its invariant (\<open>dfg_wf\<close>, exact use lists); \<^verbatim>\<open>UseLists\<close>: every operation of the
    graph keeps the use lists exact, and one exception.
  \<^item> \<^verbatim>\<open>Units\<close>, \<^verbatim>\<open>UnitProps\<close> (\<^verbatim>\<open>ir/unit.rs\<close>, \<^verbatim>\<open>ir/cfg.rs\<close>): units and the builder, building,
    deleting and pruning instructions.
  \<^item> \<^verbatim>\<open>Builder\<close>, \<^verbatim>\<open>BuilderProps\<close> (\<^verbatim>\<open>ir/inst.rs\<close>): the instruction builder; constants are read
    back, registers keep their triggers.
  \<^item> \<^verbatim>\<open>ModuleUnits\<close>, \<^verbatim>\<open>LinkProps\<close> (\<^verbatim>\<open>ir/module.rs\<close>): the module, its invariant, symbols; when
    linking succeeds and what it links, and links that outlive a removed unit.

  \<^bold>\<open>Verifier, meaning, folding.\<close>
  \<^item> \<^verbatim>\<open>Verifier\<close>, \<^verbatim>\<open>VerifierProps\<close> (\<^verbatim>\<open>verifier.rs\<close>): the checks of an instruction decide a
    declarative judgement.
  \<^item> \<^verbatim>\<open>VerifyUnit\<close>, \<^verbatim>\<open>VerifyUnitProps\<close> (\<^verbatim>\<open>verifier.rs\<close>, \<^verbatim>\<open>ir/module.rs\<close>): the traversal of units
    and modules; the order of instructions is decided by the layout. \<^verbatim>\<open>VerifiedUnits\<close>: an
    accepted unit has terminated blocks, typed instructions and dominating definitions.
  \<^item> \<^verbatim>\<open>Semantics\<close>: the reference meaning of the instructions on data (\<open>eval_inst\<close>) and the
    valuations that model a graph; \<^verbatim>\<open>TypeSoundness\<close>: the values an instruction computes are of its
    type; \<^verbatim>\<open>TypeProgress\<close>: the typing rules of the language, which the verifier decides up to named
    exceptions, and when a verified instruction has a value.
  \<^item> \<^verbatim>\<open>ConstFold\<close> (\<^verbatim>\<open>pass/cf.rs\<close>), \<^verbatim>\<open>FoldSteps\<close>, \<^verbatim>\<open>FoldSound\<close>, \<^verbatim>\<open>SliceSound\<close>, \<^verbatim>\<open>CfSound\<close>,
    \<^verbatim>\<open>FoldReturns\<close>: constant folding keeps the valuations of the graph and returns, but for a
    subtraction from zero, which it folds wrongly.
  \<^item> \<^verbatim>\<open>InstSimp\<close> (\<^verbatim>\<open>pass/insim.rs\<close>): instruction simplification keeps the valuations of the
    graph where multiplexers select from array literals, and replaces a multiplexer over
    another array wrongly.

  \<^bold>\<open>Analyses.\<close>
  \<^item> \<^verbatim>\<open>Preds\<close> (\<^verbatim>\<open>analysis/preds.rs\<close>), \<^verbatim>\<open>PostOrder\<close>, \<^verbatim>\<open>Dominance\<close>, \<^verbatim>\<open>DomTree\<close>
    (\<^verbatim>\<open>analysis/domtree.rs\<close>): the predecessor tables, the search that numbers the blocks (a
    locale of searchable graphs), the iteration of immediate dominators (a locale of flow graphs
    numbered in post-order); \<^verbatim>\<open>Paths\<close>: dominance as a property of paths; \<^verbatim>\<open>DomTreeProps\<close>: the
    locales interpreted on the code, the tables and the tree are correct. \<^verbatim>\<open>Trg\<close>,
    \<^verbatim>\<open>TrgProps\<close> (\<^verbatim>\<open>analysis/trg.rs\<close>): the temporal regions of a process.

  \<^bold>\<open>Dead code elimination.\<close>
  \<^item> \<^verbatim>\<open>Dce\<close> (\<^verbatim>\<open>pass/dce.rs\<close>): the pass. \<^verbatim>\<open>DceChecks\<close>: the checks of trivial branches end (fuel of
    twice the number of instructions plus two is enough) and are right, the search finds the
    unreachable blocks; \<^verbatim>\<open>DceProps\<close>: the effect of deleting and of merging blocks on a unit;
    \<^verbatim>\<open>DceHazard\<close>: its properties, and a process that it miscompiles.

  \<^bold>\<open>Code motion, variables and lowering of processes.\<close>
  \<^item> \<^verbatim>\<open>Ecm\<close>, \<^verbatim>\<open>EcmProps\<close> (\<^verbatim>\<open>pass/ecm.rs\<close>): early code motion returns, keeps definitions before
    their uses, and moves every instruction that it may move as far up as its operands allow.
  \<^item> \<^verbatim>\<open>Vtpp\<close> (\<^verbatim>\<open>pass/vtpp.rs\<close>): the promotion of variables to phi nodes, and the edge into a
    loop that its phi nodes lack.
  \<^item> \<^verbatim>\<open>ProcLower\<close> (\<^verbatim>\<open>pass/proclower.rs\<close>): the pass, when it turns a process into an entity and
    what the entity consists of.

  \<^bold>\<open>Simulator.\<close>
  \<^item> \<^verbatim>\<open>SimValues\<close>, \<^verbatim>\<open>SimState\<close>, \<^verbatim>\<open>SimPointers\<close>, \<^verbatim>\<open>SimEngine\<close> (\<^verbatim>\<open>value.rs\<close>, \<^verbatim>\<open>state.rs\<close>,
    \<^verbatim>\<open>engine.rs\<close> of \<^verbatim>\<open>bin/llhd-sim\<close>): values, queues, pointers made of slices, execution, the
    event loop in serial mode.
  \<^item> \<^verbatim>\<open>SimBuild\<close> (\<^verbatim>\<open>builder.rs\<close>): the construction of a simulation from a linked module.
    \<^verbatim>\<open>SimBuildProps\<close>: the state it builds satisfies the invariant of the runs, and the
    construction of a hierarchy that contains itself recurses without end.
  \<^item> \<^verbatim>\<open>SimPointerProps\<close>, \<^verbatim>\<open>SimWindows\<close>: a path into a value is a lens; a pointer is read as the
    sequence of its cells, and shifts and slices cut that sequence. \<^verbatim>\<open>SimSound\<close>: executing a
    verified instruction on data gives its reference meaning.
  \<^item> \<^verbatim>\<open>SimQueue\<close>, \<^verbatim>\<open>SimTime\<close>, \<^verbatim>\<open>SimReach\<close>, \<^verbatim>\<open>SimSchedule\<close>: the invariant of the queues, times that are
    never negative, the runs as a step relation, the exact contents of the queues along a run;
    \<^verbatim>\<open>SimHazards\<close>: two ways in which the simulator goes
    wrong; \<^verbatim>\<open>SimProps\<close>: the properties of the simulator.

  \<^bold>\<open>Not modelled.\<close> Text: the assembly reader and writer, the MLIR writer, \<^verbatim>\<open>Display\<close> forms, and
  the generated parsers (\<^verbatim>\<open>assembly/grammar.rs\<close>, \<^verbatim>\<open>liberty_parser.rs\<close>). Input and output: the
  command line tools, the converters, reading files into a module and the tracers of a
  simulation. Libraries: serialization of \<^verbatim>\<open>serde\<close> (but for the hand-written one of the tables),
  the parallel modes of \<^verbatim>\<open>rayon\<close>, logging, the inside of big integers (their documented
  arithmetic is that of \<open>nat\<close> and \<open>int\<close>). Bounds: additions of \<^verbatim>\<open>usize\<close> values are additions of
  \<open>nat\<close>, where a release build wraps around (the range check of a slice, the counters); the bit
  sets of the tables (\<^verbatim>\<open>hibitset\<close>) are sets of \<open>nat\<close> without the smaller limit that the library
  documents. \<open>None\<close> stands alike for a panic, an endless loop and an overflow of the stack: a
  theorem that a result is not \<open>None\<close> excludes all three, one that it is \<open>None\<close> (\<open>engine_step\<close> in
  \<^verbatim>\<open>SimHazards\<close>, the panics of the analyses) does not say which of them happens. The passes other than the
  six above (common subexpressions, temporal code motion, simplification of control flow,
  desequentialisation) are not modelled: that they keep the behaviour of a process needs a meaning
  of probes, waits and drives across temporal regions, which the reference semantics of data does
  not have.
\<close>

end
